(* ===== verification/Prelude.thy ===== *)
theory Prelude
  imports Main "HOL-Library.Word" "HOL-Library.Monad_Syntax"
begin

text \<open>
  Shared vocabulary of the development: the machine types of the rv32 ABI the kernel is built for,
  the error codes of \<^verbatim>\<open>include/error.h\<close>, the conventions for fallible and non-returning code, the byte
  addressed memory with its 32-bit accesses, and the arithmetic facts about words that the
  components share.

  Conventions.
  \<^item> A C function that can panic, dereference a null pointer or loop forever returns an \<open>option\<close>;
    \<open>None\<close> is "control does not come back". The state it would have left is not observable.
  \<^item> A C function that reports an error code returns \<open>err + 'a\<close>: \<open>Inl e\<close> stands for the C value
    \<open>-e\<close>, \<open>Inr x\<close> for 0 together with the out-parameter \<open>x\<close>.
  \<^item> State is passed explicitly and returned as the last component.
\<close>

unbundle bit_operations_syntax

type_synonym u8 = "8 word"
type_synonym u16 = "16 word"
type_synonym u32 = "32 word"
type_synonym u64 = "64 word"

named_theorems mem_simps \<open>reads after writes of the byte memory\<close>
named_theorems frame_simps \<open>fields an operation leaves alone\<close>

section \<open>Error codes\<close>

datatype err =
    E_UNSPECIFIED | E_BAD_ENV | E_INVAL | E_NO_MEM | E_NO_E | E_NO_FREE_ENV | E_IPC_NOT_RECV
  | E_NO_DISK | E_MAX_OPEN | E_NOT_FOUND | E_BAD_PATH | E_FILE_EXISTS | E_NOT_EXEC

fun errno :: "err \<Rightarrow> u32" where
  "errno E_UNSPECIFIED = 1"
| "errno E_BAD_ENV = 2"
| "errno E_INVAL = 3"
| "errno E_NO_MEM = 4"
| "errno E_NO_E = 5"
| "errno E_NO_FREE_ENV = 6"
| "errno E_IPC_NOT_RECV = 7"
| "errno E_NO_DISK = 8"
| "errno E_MAX_OPEN = 9"
| "errno E_NOT_FOUND = 10"
| "errno E_BAD_PATH = 11"
| "errno E_FILE_EXISTS = 12"
| "errno E_NOT_EXEC = 13"

text \<open>The \<open>int\<close> an \<open>err + unit\<close> result stands for, as the 32-bit pattern a register holds.\<close>

fun ret_code :: "err + unit \<Rightarrow> u32" where
  "ret_code (Inl e) = - errno e"
| "ret_code (Inr _) = 0"

text \<open>The macro \<open>try\<close> of error.h: propagate an error, continue with the result otherwise.\<close>

definition try_c ::
  "((err + 'a) \<times> 's) option \<Rightarrow> ('a \<Rightarrow> 's \<Rightarrow> ((err + 'b) \<times> 's) option) \<Rightarrow> ((err + 'b) \<times> 's) option"
where
  "try_c m k =
     do { (r, s) \<leftarrow> m;
          (case r of Inl e \<Rightarrow> Some (Inl e, s) | Inr x \<Rightarrow> k x s) }"

text \<open>\<open>assert(x)\<close> and \<open>panic\<close>: control comes back only when the condition holds.\<close>

definition c_assert :: "bool \<Rightarrow> unit option" where
  "c_assert b = (if b then Some () else None)"

lemma c_assert_simps [simp]: "c_assert True = Some ()" "c_assert False = None"
  by (simp_all add: c_assert_def)

lemma c_assert_eq_Some [simp]: "c_assert b = Some u \<longleftrightarrow> b"
  by (simp add: c_assert_def)

lemma try_c_simps [simp]:
  "try_c None k = None"
  "try_c (Some (Inl e, s)) k = Some (Inl e, s)"
  "try_c (Some (Inr x, s)) k = k x s"
  by (simp_all add: try_c_def)

lemma try_c_eq_Some:
  "try_c m k = Some (r, s) \<longleftrightarrow>
     (\<exists>e. m = Some (Inl e, s) \<and> r = Inl e) \<or> (\<exists>x s'. m = Some (Inr x, s') \<and> k x s' = Some (r, s))"
proof (cases m)
  case (Some p)
  then show ?thesis by (cases p; cases "fst p") auto
qed simp

lemma try_c_eq_Inr:
  "try_c m k = Some (Inr y, s) \<longleftrightarrow> (\<exists>x s'. m = Some (Inr x, s') \<and> k x s' = Some (Inr y, s))"
  by (auto simp: try_c_eq_Some)

lemma try_c_assoc: "try_c (try_c m k) l = try_c m (\<lambda>x s. try_c (k x s) l)"
proof (cases m)
  case (Some p)
  then show ?thesis by (cases p; cases "fst p") auto
qed simp

lemma try_c_cong: "(\<And>x s. k x s = k' x s) \<Longrightarrow> try_c m k = try_c m k'"
  by (simp add: fun_eq_iff try_c_def cong: sum.case_cong)

lemma errno_inj: "errno a = errno b \<Longrightarrow> a = b"
  by (cases a; cases b; simp)

lemma errno_nonzero: "errno e \<noteq> 0"
  by (cases e) simp_all

lemma ret_code_Inl_neq_0 [simp]: "ret_code (Inl e) \<noteq> 0"
  using errno_nonzero by simp

section \<open>Byte memory and 32-bit accesses\<close>

type_synonym mem = "u32 \<Rightarrow> u8"

definition load32 :: "mem \<Rightarrow> u32 \<Rightarrow> u32" where
  "load32 m a = ucast (m a) OR push_bit 8 (ucast (m (a + 1)))
     OR push_bit 16 (ucast (m (a + 2))) OR push_bit 24 (ucast (m (a + 3)))"

definition store32 :: "mem \<Rightarrow> u32 \<Rightarrow> u32 \<Rightarrow> mem" where
  "store32 m a v = m(a := ucast v, a + 1 := ucast (drop_bit 8 v),
     a + 2 := ucast (drop_bit 16 v), a + 3 := ucast (drop_bit 24 v))"

text \<open>A range of \<open>n\<close> bytes from \<open>a\<close>, with the wrap-around of the subtraction.\<close>

definition in_range :: "u32 \<Rightarrow> u32 \<Rightarrow> u32 \<Rightarrow> bool" where
  "in_range a n x \<longleftrightarrow> x - a < n"

definition mem_fill :: "mem \<Rightarrow> u32 \<Rightarrow> u32 \<Rightarrow> u8 \<Rightarrow> mem" where
  "mem_fill m d n c = (\<lambda>x. if in_range d n x then c else m x)"

definition mem_copy :: "mem \<Rightarrow> u32 \<Rightarrow> u32 \<Rightarrow> u32 \<Rightarrow> mem" where
  "mem_copy m d sr n = (\<lambda>x. if in_range d n x then m (sr + (x - d)) else m x)"

lemma store32_bytes [mem_simps]:
  "store32 m a v a = ucast v"
  "store32 m a v (a + 1) = ucast (drop_bit 8 v)"
  "store32 m a v (a + 2) = ucast (drop_bit 16 v)"
  "store32 m a v (a + 3) = ucast (drop_bit 24 v)"
  by (simp_all add: store32_def)

lemma bytes_of_word:
  "ucast (ucast (v :: u32) :: u8) OR push_bit 8 (ucast (ucast (drop_bit 8 v) :: u8))
     OR push_bit 16 (ucast (ucast (drop_bit 16 v) :: u8)) OR push_bit 24 (ucast (ucast (drop_bit 24 v) :: u8)) = v"
proof (rule bit_word_eqI)
  fix n assume n: "n < LENGTH(32)"
  then consider "n < 8" | "8 \<le> n" "n < 16" | "16 \<le> n" "n < 24" | "24 \<le> n" "n < 32"
    by fastforce
  then show "bit (ucast (ucast v :: u8) OR push_bit 8 (ucast (ucast (drop_bit 8 v) :: u8))
     OR push_bit 16 (ucast (ucast (drop_bit 16 v) :: u8)) OR push_bit 24 (ucast (ucast (drop_bit 24 v) :: u8)) :: u32) n
    = bit v n"
    by cases (auto simp: bit_simps)
qed

lemma load32_store32_same [simp, mem_simps]: "load32 (store32 m a v) a = v"
  by (simp add: load32_def store32_bytes bytes_of_word)

text \<open>Accesses at distinct aligned addresses do not interfere.\<close>

abbreviation aligned4 :: "u32 \<Rightarrow> bool" where
  "aligned4 a \<equiv> 4 dvd unat a"

lemma unat_add_small: "unat (a :: u32) + n < 2 ^ 32 \<Longrightarrow> unat (a + of_nat n) = unat a + n"
  by (simp add: unat_word_ariths unat_of_nat)

lemma aligned4_add_unat:
  assumes "aligned4 a" "k < 4"
  shows "unat (a + of_nat k) = unat a + k"
proof -
  have "unat a < 2 ^ 32" using unsigned_less [of a] by simp
  moreover from assms(1) obtain c where "unat a = 4 * c" by (auto elim: dvdE)
  ultimately have "unat a + k < 2 ^ 32" using assms(2) by simp
  then show ?thesis by (rule unat_add_small)
qed

lemma aligned4_offset_neq:
  assumes "aligned4 a" "aligned4 b" "a \<noteq> b" "i < 4" "j < 4"
  shows "a + of_nat i \<noteq> b + of_nat j"
proof
  assume "a + of_nat i = b + of_nat j"
  then have "unat a + i = unat b + j"
    using assms aligned4_add_unat by metis
  moreover from assms obtain c d where "unat a = 4 * c" "unat b = 4 * d"
    by (auto elim!: dvdE)
  ultimately have "unat a = unat b" using assms(4,5) by simp
  then show False using assms(3) by (simp add: word_unat_eq_iff)
qed

lemma aligned4_offsets:
  assumes "aligned4 a" "aligned4 b" "a \<noteq> b"
  shows "a + 1 \<noteq> b" "a + 2 \<noteq> b" "a + 3 \<noteq> b" "a + 1 \<noteq> b + 2" "a + 1 \<noteq> b + 3" "a + 2 \<noteq> b + 3"
    "b + 1 \<noteq> a" "b + 2 \<noteq> a" "b + 3 \<noteq> a" "b + 1 \<noteq> a + 2" "b + 1 \<noteq> a + 3" "b + 2 \<noteq> a + 3"
  using aligned4_offset_neq [OF assms, of 1 0] aligned4_offset_neq [OF assms, of 2 0]
    aligned4_offset_neq [OF assms, of 3 0] aligned4_offset_neq [OF assms, of 1 2]
    aligned4_offset_neq [OF assms, of 1 3] aligned4_offset_neq [OF assms, of 2 3]
    aligned4_offset_neq [OF assms, of 0 1] aligned4_offset_neq [OF assms, of 0 2]
    aligned4_offset_neq [OF assms, of 0 3] aligned4_offset_neq [OF assms, of 2 1]
    aligned4_offset_neq [OF assms, of 3 1] aligned4_offset_neq [OF assms, of 3 2]
  by auto

lemma load32_store32_other [mem_simps]:
  assumes "aligned4 a" "aligned4 b" "a \<noteq> b"
  shows "load32 (store32 m a v) b = load32 m b"
  using aligned4_offsets [OF assms] assms(3)
  by (simp add: load32_def store32_def eq_commute [of a] eq_commute [of "a + 1"]
      eq_commute [of "a + 2"] eq_commute [of "a + 3"])

lemma load32_cong:
  assumes "\<And>k. k < 4 \<Longrightarrow> m (a + of_nat k) = m' (a + of_nat k)"
  shows "load32 m a = load32 m' a"
  using assms [of 0] assms [of 1] assms [of 2] assms [of 3] by (simp add: load32_def)

section \<open>Ranges\<close>

lemma in_range_unat:
  assumes "unat a + unat n < 2 ^ 32"
  shows "in_range a n x \<longleftrightarrow> unat a \<le> unat x \<and> unat x < unat a + unat n"
proof -
  have "x - a < n \<longleftrightarrow> (a \<le> x \<and> unat x < unat a + unat n)"
  proof (cases "a \<le> x")
    case True
    then have "unat (x - a) = unat x - unat a" by (rule unat_sub)
    with True show ?thesis by (auto simp: word_less_nat_alt word_le_nat_alt)
  next
    case False
    then have lt: "unat x < unat a" by (simp add: word_le_nat_alt)
    have "unat (x - a) = 2 ^ 32 + unat x - unat a"
      using lt by (simp add: unat_sub_if_size word_size)
    with assms lt False show ?thesis by (auto simp: word_less_nat_alt)
  qed
  then show ?thesis by (simp add: in_range_def word_le_nat_alt)
qed

lemma unat_of_nat32: "n < 2 ^ 32 \<Longrightarrow> unat (of_nat n :: u32) = n"
  by (simp add: unat_of_nat)

lemma of_nat_unat32 [simp]: "(of_nat (unat (a :: u32)) :: u32) = a"
  by simp

text \<open>A pointer that has not reached its end gets closer by a step.\<close>

lemma ptr_step: "dst \<noteq> mx \<Longrightarrow> unat (mx - (dst + 1)) < unat (mx - dst)" for dst mx :: u32
proof -
  assume "dst \<noteq> mx"
  then have nz: "mx - dst \<noteq> 0" by simp
  then have "unat (mx - (dst + 1)) = unat (mx - dst) - 1" using unat_minus_one [OF nz]
    by (simp add: diff_diff_eq)
  moreover have "0 < unat (mx - dst)" using nz by (simp add: unat_gt_0)
  ultimately show ?thesis by simp
qed

text \<open>The bytes of a loaded word are the bytes of memory.\<close>

lemma load32_bytes:
  "ucast (load32 m a) = m a"
  "ucast (drop_bit 8 (load32 m a)) = m (a + 1)"
  "ucast (drop_bit 16 (load32 m a)) = m (a + 2)"
  "ucast (drop_bit 24 (load32 m a)) = m (a + 3)"
  by ((rule bit_word_eqI, auto simp: load32_def bit_simps dest: bit_imp_le_length)[1])+

lemma unat_ucast_u8: "unat (ucast (a :: u8) :: u32) = unat a"
  using unsigned_less [of a, where 'a = nat] by (simp add: unsigned_ucast_eq take_bit_nat_eq_self)

lemma ucast_u8_less: "(ucast (a :: u8) :: u32) < ucast b \<longleftrightarrow> a < b"
  by (simp add: word_less_nat_alt unat_ucast_u8)

lemma ucast_u8_eq: "(ucast (a :: u8) :: u32) = ucast b \<longleftrightarrow> a = b"
  by (simp add: word_unat_eq_iff unat_ucast_u8)

section \<open>Strings in memory\<close>

text \<open>A NUL-terminated string at an address.\<close>

fun c_string :: "mem \<Rightarrow> u32 \<Rightarrow> u8 list \<Rightarrow> bool" where
  "c_string m a [] \<longleftrightarrow> m a = 0"
| "c_string m a (b # bs) \<longleftrightarrow> b \<noteq> 0 \<and> m a = b \<and> c_string m (a + 1) bs"

lemma c_string_unique: "c_string m a xs \<Longrightarrow> c_string m a ys \<Longrightarrow> xs = ys"
proof (induction xs arbitrary: a ys)
  case Nil then show ?case by (cases ys) auto
next
  case (Cons x xs) then show ?case by (cases ys) auto
qed

lemma c_string_nth: "c_string m a bs \<Longrightarrow> i < length bs \<Longrightarrow> m (a + of_nat i) = bs ! i"
proof (induction bs arbitrary: a i)
  case (Cons b bs)
  show ?case
  proof (cases i)
    case (Suc j)
    then show ?thesis using Cons.prems Cons.IH [of "a + 1" j] by (simp add: add.assoc)
  qed (use Cons.prems in simp)
qed simp

lemma c_string_end: "c_string m a bs \<Longrightarrow> m (a + of_nat (length bs)) = 0"
proof (induction bs arbitrary: a)
  case (Cons b bs)
  then show ?case using Cons.IH [of "a + 1"] by (simp add: add.assoc)
qed simp

lemma c_string_cong:
  "(\<And>i. i \<le> length bs \<Longrightarrow> m (a + of_nat i) = m' (a + of_nat i)) \<Longrightarrow> c_string m a bs = c_string m' a bs"
proof (induction bs arbitrary: a)
  case Nil then show ?case by (auto dest: meta_spec [of _ 0])
next
  case (Cons b bs)
  have "m (a + 1 + of_nat i) = m' (a + 1 + of_nat i)" if "i \<le> length bs" for i
    using Cons.prems [of "Suc i"] that by (simp add: algebra_simps)
  then have "c_string m (a + 1) bs = c_string m' (a + 1) bs" by (rule Cons.IH)
  moreover have "m a = m' a" using Cons.prems [of 0] by simp
  ultimately show ?case by simp
qed

section \<open>Signed words\<close>

lemma sint_u32: "sint (n :: 32 word) = (if uint n < 2 ^ 31 then uint n else uint n - 2 ^ 32)"
proof -
  have "sint n = take_bit 32 (uint n + 2 ^ 31) - 2 ^ 31"
    by (simp add: sint_uint signed_take_bit_eq_take_bit_shift)
  moreover have "0 \<le> uint n" "uint n < 2 ^ 32" using unsigned_less [of n] by simp_all
  moreover have "uint n + 2 ^ 31 - 2 ^ 32 = (uint n + 2 ^ 31) mod 2 ^ 32" if "\<not> uint n < 2 ^ 31"
    using that \<open>uint n < 2 ^ 32\<close> by (subst minus_mod_self2 [symmetric], subst mod_pos_pos_trivial) simp_all
  ultimately show ?thesis by (auto simp: take_bit_eq_mod)
qed

lemma sint_small:
  assumes "unat (n :: 32 word) < 2 ^ 31"
  shows "sint n = int (unat n)"
proof -
  have "int (unat n) < int (2 ^ 31)" using assms by (simp only: of_nat_less_iff)
  then show ?thesis by (simp add: sint_u32)
qed

end
