(* ===== verification/Mmu.thy ===== *)
theory Mmu
  imports Prelude
begin

text \<open>
  \<^verbatim>\<open>include/mmu.h\<close>, \<^verbatim>\<open>include/types.h\<close> and the address conversions of \<^verbatim>\<open>include/pmap.h\<close>: the layout of the address
  space, the Sv32 page-table entries, and the arithmetic between page numbers, kernel addresses and
  entries. Pages of the array \<open>pages\<close> are named by their index, as \<open>pp - pages\<close> does.
\<close>

section \<open>Constants and macros\<close>

abbreviation BY2PG :: u32 where "BY2PG \<equiv> 4096"
abbreviation PDMAP :: u32 where "PDMAP \<equiv> 0x400000"
abbreviation KERNSTART :: u32 where "KERNSTART \<equiv> 0x80000000"
abbreviation KERNEND :: u32 where "KERNEND \<equiv> 0x80600000"
abbreviation KSTACKTOP :: u32 where "KSTACKTOP \<equiv> 0x80600000"
abbreviation ULIM :: u32 where "ULIM \<equiv> 0x80000000"
abbreviation UVPT :: u32 where "UVPT \<equiv> 0x7fc00000"
abbreviation UPAGES :: u32 where "UPAGES \<equiv> 0x7f800000"
abbreviation UENVS :: u32 where "UENVS \<equiv> 0x7f400000"
abbreviation UTOP :: u32 where "UTOP \<equiv> 0x7f400000"
abbreviation UXSTACKTOP :: u32 where "UXSTACKTOP \<equiv> UTOP"
abbreviation USTACKTOP :: u32 where "USTACKTOP \<equiv> 0x7f3fe000"
abbreviation UTEXT :: u32 where "UTEXT \<equiv> 0x400000"
abbreviation UCOW :: u32 where "UCOW \<equiv> 0x3ff000"
abbreviation UTEMP :: u32 where "UTEMP \<equiv> 0x3fe000"

abbreviation PTE_DIRTY :: u32 where "PTE_DIRTY \<equiv> 0x40000000"
abbreviation PTE_LIBRARY :: u32 where "PTE_LIBRARY \<equiv> 0x200"
abbreviation PTE_COW :: u32 where "PTE_COW \<equiv> 0x100"
abbreviation PTE_D :: u32 where "PTE_D \<equiv> 0x80"
abbreviation PTE_A :: u32 where "PTE_A \<equiv> 0x40"
abbreviation PTE_G :: u32 where "PTE_G \<equiv> 0x20"
abbreviation PTE_U :: u32 where "PTE_U \<equiv> 0x10"
abbreviation PTE_X :: u32 where "PTE_X \<equiv> 0x8"
abbreviation PTE_W :: u32 where "PTE_W \<equiv> 0x4"
abbreviation PTE_R :: u32 where "PTE_R \<equiv> 0x2"
abbreviation PTE_V :: u32 where "PTE_V \<equiv> 0x1"

definition PDX :: "u32 \<Rightarrow> u32" where
  "PDX va = drop_bit 22 va AND 0x03FF"

definition PTX :: "u32 \<Rightarrow> u32" where
  "PTX va = drop_bit 12 va AND 0x03FF"

definition PTE_ADDR :: "u32 \<Rightarrow> u32" where
  "PTE_ADDR pte = (pte AND NOT 0x3ff) AND NOT (push_bit 30 3)"

definition PADDR :: "u32 \<Rightarrow> u32" where
  "PADDR pte = push_bit 12 (drop_bit 10 pte)"

definition PPN :: "u32 \<Rightarrow> u32" where
  "PPN addr = drop_bit 12 (addr - KERNSTART)"

definition VPN :: "u32 \<Rightarrow> u32" where
  "VPN va = drop_bit 12 va"

definition ROUND :: "u32 \<Rightarrow> u32 \<Rightarrow> u32" where
  "ROUND a n = (a + n - 1) AND NOT (n - 1)"

definition ROUNDDOWN :: "u32 \<Rightarrow> u32 \<Rightarrow> u32" where
  "ROUNDDOWN a n = a AND NOT (n - 1)"

definition page2ppn :: "nat \<Rightarrow> u32" where
  "page2ppn pp = of_nat pp"

definition page2sft :: "nat \<Rightarrow> u32" where
  "page2sft pp = push_bit 12 (page2ppn pp)"

definition page2addr :: "nat \<Rightarrow> u32" where
  "page2addr pp = page2sft pp + KERNSTART"

definition page2ptx :: "nat \<Rightarrow> u32" where
  "page2ptx pp = push_bit 10 (drop_bit 12 (page2addr pp))"

text \<open>\<open>addr2page\<close> panics outside the managed memory.\<close>

definition addr2page :: "u32 \<Rightarrow> u32 \<Rightarrow> nat option" where
  "addr2page npage addr = (if PPN addr \<ge> npage then None else Some (unat (PPN addr)))"

definition pa2page :: "u32 \<Rightarrow> u32 \<Rightarrow> nat option" where
  "pa2page npage pa = addr2page npage (push_bit 12 (drop_bit 10 pa))"

definition va2pa :: "mem \<Rightarrow> u32 \<Rightarrow> u32 \<Rightarrow> u32" where
  "va2pa m pgdir va =
     (let pde = load32 m (pgdir + 4 * PDX va) in
      if pde AND PTE_V = 0 then NOT 0
      else let p = PADDR (PTE_ADDR pde); pte = load32 m (p + 4 * PTX va) in
           if pte AND PTE_V = 0 then NOT 0 else PADDR (PTE_ADDR pte))"

section \<open>Bits of entries\<close>

lemma mask10: "(0x3ff :: u32) = mask 10" and mask12: "(0xfff :: u32) = mask 12"
  and mask2: "(3 :: u32) = mask 2"
  by (simp_all add: mask_eq_exp_minus_1)

lemma bit_PDX [bit_simps]: "bit (PDX va) n \<longleftrightarrow> n < 10 \<and> bit va (n + 22)"
  unfolding PDX_def mask10 by (auto simp: bit_simps ac_simps)

lemma bit_PTX [bit_simps]: "bit (PTX va) n \<longleftrightarrow> n < 10 \<and> bit va (n + 12)"
  unfolding PTX_def mask10 by (auto simp: bit_simps ac_simps)

lemma bit_VPN [bit_simps]: "bit (VPN va) n \<longleftrightarrow> bit va (n + 12)"
  unfolding VPN_def by (auto simp: bit_simps ac_simps)

lemma bit_PTE_ADDR [bit_simps]: "bit (PTE_ADDR pte) n \<longleftrightarrow> 10 \<le> n \<and> n < 30 \<and> bit pte n"
  unfolding PTE_ADDR_def mask10 mask2
  by (auto simp: bit_simps dest: bit_imp_le_length)

lemma bit_PADDR [bit_simps]: "bit (PADDR p) n \<longleftrightarrow> 12 \<le> n \<and> n < 32 \<and> bit p (n - 2)"
  unfolding PADDR_def by (auto simp: bit_simps)

lemma unat_PDX_less: "unat (PDX va) < 1024" and unat_PTX_less: "unat (PTX va) < 1024"
  unfolding PDX_def PTX_def mask10
  using take_bit_nat_less_exp [of 10] by (simp_all add: unsigned_take_bit_eq flip: take_bit_eq_mask)

lemma PDX_less: "PDX va < 1024" and PTX_less: "PTX va < 1024"
  using unat_PDX_less unat_PTX_less by (simp_all add: word_less_nat_alt)

text \<open>The frame address of an entry is the same with and without masking the software bits.\<close>

lemma PADDR_PTE_ADDR: "PADDR (PTE_ADDR pte) = PADDR pte"
  by (rule bit_word_eqI) (auto simp: bit_simps)

lemma VPN_eq_iff: "VPN a = VPN b \<longleftrightarrow> PDX a = PDX b \<and> PTX a = PTX b"
proof
  assume v: "VPN a = VPN b"
  have n: "bit a (n + 12) = bit b (n + 12)" for n
    using arg_cong [OF v, of "\<lambda>x. bit x n"] by (simp add: bit_simps)
  have "bit a (n + 22) = bit b (n + 22)" for n using n [of "n + 10"] by (simp add: ac_simps)
  then have "PDX a = PDX b" by (intro bit_word_eqI) (simp add: bit_simps)
  moreover have "PTX a = PTX b" by (intro bit_word_eqI) (simp add: bit_simps n)
  ultimately show "PDX a = PDX b \<and> PTX a = PTX b" ..
next
  assume "PDX a = PDX b \<and> PTX a = PTX b"
  then have d: "PDX a = PDX b" and t: "PTX a = PTX b" by auto
  show "VPN a = VPN b"
  proof (rule bit_word_eqI)
    fix n
    show "bit (VPN a) n = bit (VPN b) n"
    proof (cases "n < 10")
      case True
      then show ?thesis using arg_cong [OF t, of "\<lambda>x. bit x n"] by (simp add: bit_simps)
    next
      case False
      then obtain k where k: "n = k + 10" by (metis add.commute le_Suc_ex not_less)
      show ?thesis
      proof (cases "k < 10")
        case True
        then show ?thesis using arg_cong [OF d, of "\<lambda>x. bit x k"] by (simp add: bit_simps k ac_simps)
      next
        case False
        then show ?thesis by (auto simp: bit_simps k dest: bit_imp_le_length)
      qed
    qed
  qed
qed

section \<open>Pages, addresses and entries\<close>

lemma page2addr_push: "page2addr p = push_bit 12 (of_nat p + 0x80000)"
  by (simp add: page2addr_def page2sft_def page2ppn_def push_bit_add)

lemma PADDR_page2ptx: "PADDR (page2ptx p) = page2addr p"
proof (rule bit_word_eqI)
  fix n assume n: "n < LENGTH(32)"
  show "bit (PADDR (page2ptx p)) n = bit (page2addr p) n"
    using n by (auto simp: bit_simps page2ptx_def page2addr_push)
qed

lemma PADDR_or: "PADDR (a OR b) = PADDR a OR PADDR b"
  by (rule bit_word_eqI) (auto simp: bit_simps)

text \<open>
  The bits of an entry that hold the frame number. A \<open>perm\<close> argument that has none of them set leaves
  the frame of the entry alone.
\<close>

definition perm_ok :: "u32 \<Rightarrow> bool" where
  "perm_ok perm \<longleftrightarrow> PADDR perm = 0"

lemma perm_ok_flags [simp]:
  "perm_ok 0" "perm_ok PTE_V" "perm_ok PTE_R" "perm_ok PTE_W" "perm_ok PTE_X" "perm_ok PTE_U"
  "perm_ok PTE_G" "perm_ok PTE_A" "perm_ok PTE_D" "perm_ok PTE_COW" "perm_ok PTE_LIBRARY" "perm_ok PTE_DIRTY"
  by (simp_all add: perm_ok_def PADDR_def)

lemma perm_ok_or [simp]: "perm_ok a \<Longrightarrow> perm_ok b \<Longrightarrow> perm_ok (a OR b)"
  by (simp add: perm_ok_def PADDR_or)

definition mk_pte :: "nat \<Rightarrow> u32 \<Rightarrow> u32" where
  "mk_pte pp perm = page2ptx pp OR perm OR PTE_V"

lemma PADDR_mk_pte: "perm_ok perm \<Longrightarrow> PADDR (mk_pte pp perm) = page2addr pp"
proof -
  have "PADDR 1 = 0" using perm_ok_flags(2) by (simp add: perm_ok_def)
  then show "perm_ok perm \<Longrightarrow> ?thesis"
    by (simp add: mk_pte_def PADDR_or PADDR_page2ptx perm_ok_def)
qed

lemma valid_or [simp]: "(x OR PTE_V) AND PTE_V = PTE_V"
  by (rule bit_word_eqI) (auto simp: bit_simps)

lemma mk_pte_valid [simp]: "mk_pte pp perm AND PTE_V = PTE_V"
  by (simp add: mk_pte_def flip: or.assoc)

text \<open>The memory the kernel manages: 256 MB from \<open>KERNSTART\<close>.\<close>

abbreviation NPAGES :: nat where "NPAGES \<equiv> 65536"

lemma unat_page2addr: "p < NPAGES \<Longrightarrow> unat (page2addr p) = 0x80000000 + 4096 * p"
proof -
  assume p: "p < NPAGES"
  have "page2addr p = of_nat (0x80000000 + 4096 * p)"
    by (simp add: page2addr_def page2sft_def page2ppn_def push_bit_eq_mult)
  then show ?thesis using p by (simp only:) (subst unat_of_nat32, auto)
qed

lemma page2addr_inj: "p < NPAGES \<Longrightarrow> q < NPAGES \<Longrightarrow> page2addr p = page2addr q \<longleftrightarrow> p = q"
  using unat_page2addr [of p] unat_page2addr [of q] by (metis add_left_cancel mult_cancel1 zero_neq_numeral)

lemma PPN_page2addr: "p < NPAGES \<Longrightarrow> PPN (page2addr p) = of_nat p"
proof -
  assume p: "p < NPAGES"
  have "unat (drop_bit 12 (push_bit 12 (of_nat p :: u32))) = p"
    using p by (simp add: unat_drop_bit_eq push_bit_eq_mult unat_word_ariths unat_of_nat drop_bit_eq_div)
  then show ?thesis using p
    by (simp add: PPN_def page2addr_def page2sft_def page2ppn_def word_unat_eq_iff unat_of_nat)
qed

lemma addr2page_page2addr:
  "p < NPAGES \<Longrightarrow> np = 0x10000 \<Longrightarrow> addr2page np (page2addr p) = Some p"
  by (simp add: addr2page_def PPN_page2addr word_le_nat_alt unat_of_nat)

lemma addr2page_Some:
  assumes "addr2page np a = Some q"
  shows "q < unat np" "q = unat (PPN a)"
  using assms by (auto simp: addr2page_def word_le_nat_alt split: if_splits)

text \<open>The address a page number stands for, back from a page-aligned address.\<close>

lemma page2addr_PPN: "page2addr (unat (PPN (PADDR e))) = PADDR e"
proof -
  have "PADDR e - KERNSTART = push_bit 12 (drop_bit 10 e - 0x80000)"
    by (simp add: PADDR_def push_bit_eq_mult right_diff_distrib)
  then have "push_bit 12 (PPN (PADDR e)) = PADDR e - KERNSTART"
    by (simp add: PPN_def) (rule bit_word_eqI, auto simp: bit_simps)
  then show ?thesis by (simp add: page2addr_def page2sft_def page2ppn_def)
qed

end
