(* ===== verification/Queue.thy ===== *)
theory Queue
  imports Prelude
begin

text \<open>
  The intrusive lists of \<^verbatim>\<open>include/queue.h\<close>: \<open>LIST\<close> (head pointer, elements with a next pointer and the
  address of the previous next pointer) and \<open>TAILQ\<close> (the same with the address of the last next
  pointer in the head). The macros are modelled on the pointer structure itself, including the
  writes through \<open>le_prev\<close>/\<open>tqe_prev\<close>; a write through a null pointer is \<open>None\<close>. Both structures are
  then shown to implement sequences, through the locales \<open>intrusive_list\<close> and \<open>fifo_queue\<close> that the
  page allocator, the environment allocator and the scheduler rely on.
\<close>

section \<open>Pointer structure\<close>

text \<open>The address of a "next" field: the one in the head, or the one inside an element.\<close>

datatype 'a qptr = QHead | QNext 'a

record 'a llist =
  lh_first :: "'a option"
  le_next :: "'a \<Rightarrow> 'a option"
  le_prev :: "'a \<Rightarrow> 'a qptr option"

record 'a tailq =
  tqh_first :: "'a option"
  tqh_last :: "'a qptr"
  tqe_next :: "'a \<Rightarrow> 'a option"
  tqe_prev :: "'a \<Rightarrow> 'a qptr option"

fun lget :: "'a llist \<Rightarrow> 'a qptr \<Rightarrow> 'a option" where
  "lget h QHead = lh_first h"
| "lget h (QNext x) = le_next h x"

fun lset :: "'a qptr \<Rightarrow> 'a option \<Rightarrow> 'a llist \<Rightarrow> 'a llist" where
  "lset QHead v h = h\<lparr>lh_first := v\<rparr>"
| "lset (QNext x) v h = h\<lparr>le_next := (le_next h)(x := v)\<rparr>"

fun tget :: "'a tailq \<Rightarrow> 'a qptr \<Rightarrow> 'a option" where
  "tget h QHead = tqh_first h"
| "tget h (QNext x) = tqe_next h x"

fun tset :: "'a qptr \<Rightarrow> 'a option \<Rightarrow> 'a tailq \<Rightarrow> 'a tailq" where
  "tset QHead v h = h\<lparr>tqh_first := v\<rparr>"
| "tset (QNext x) v h = h\<lparr>tqe_next := (tqe_next h)(x := v)\<rparr>"

section \<open>LIST macros\<close>

definition LIST_EMPTY :: "'a llist \<Rightarrow> bool" where
  "LIST_EMPTY h \<longleftrightarrow> lh_first h = None"

definition LIST_FIRST :: "'a llist \<Rightarrow> 'a option" where
  "LIST_FIRST h = lh_first h"

definition LIST_NEXT :: "'a llist \<Rightarrow> 'a \<Rightarrow> 'a option" where
  "LIST_NEXT h x = le_next h x"

definition LIST_INIT :: "'a llist \<Rightarrow> 'a llist" where
  "LIST_INIT h = h\<lparr>lh_first := None\<rparr>"

definition LIST_INSERT_HEAD :: "'a \<Rightarrow> 'a llist \<Rightarrow> 'a llist" where
  "LIST_INSERT_HEAD elm h =
     (let h1 = h\<lparr>le_next := (le_next h)(elm := lh_first h)\<rparr>;
          h2 = (case le_next h1 elm of None \<Rightarrow> h1
                | Some f \<Rightarrow> h1\<lparr>le_prev := (le_prev h1)(f := Some (QNext elm))\<rparr>);
          h3 = h2\<lparr>lh_first := Some elm\<rparr>
      in h3\<lparr>le_prev := (le_prev h3)(elm := Some QHead)\<rparr>)"

definition LIST_INSERT_AFTER :: "'a \<Rightarrow> 'a \<Rightarrow> 'a llist \<Rightarrow> 'a llist option" where
  "LIST_INSERT_AFTER listelm elm h =
     (let h1 = h\<lparr>le_next := (le_next h)(elm := le_next h listelm)\<rparr>
      in case le_next h1 listelm of
           None \<Rightarrow> None
         | Some n \<Rightarrow>
             (let h2 = h1\<lparr>le_prev := (le_prev h1)(n := Some (QNext elm))\<rparr>;
                  h3 = h2\<lparr>le_next := (le_next h2)(listelm := Some elm)\<rparr>
              in Some (h3\<lparr>le_prev := (le_prev h3)(elm := Some (QNext listelm))\<rparr>)))"

definition LIST_INSERT_BEFORE :: "'a \<Rightarrow> 'a \<Rightarrow> 'a llist \<Rightarrow> 'a llist option" where
  "LIST_INSERT_BEFORE listelm elm h =
     (let h1 = h\<lparr>le_prev := (le_prev h)(elm := le_prev h listelm)\<rparr>;
          h2 = h1\<lparr>le_next := (le_next h1)(elm := Some listelm)\<rparr>
      in case le_prev h2 listelm of
           None \<Rightarrow> None
         | Some p \<Rightarrow>
             (let h3 = lset p (Some elm) h2
              in Some (h3\<lparr>le_prev := (le_prev h3)(listelm := Some (QNext elm))\<rparr>)))"

definition LIST_REMOVE :: "'a \<Rightarrow> 'a llist \<Rightarrow> 'a llist option" where
  "LIST_REMOVE elm h =
     (let h1 = (case le_next h elm of None \<Rightarrow> h
                | Some n \<Rightarrow> h\<lparr>le_prev := (le_prev h)(n := le_prev h elm)\<rparr>)
      in case le_prev h1 elm of
           None \<Rightarrow> None
         | Some p \<Rightarrow> Some (lset p (le_next h1 elm) h1))"

section \<open>TAILQ macros\<close>

definition TAILQ_EMPTY :: "'a tailq \<Rightarrow> bool" where
  "TAILQ_EMPTY h \<longleftrightarrow> tqh_first h = None"

definition TAILQ_FIRST :: "'a tailq \<Rightarrow> 'a option" where
  "TAILQ_FIRST h = tqh_first h"

definition TAILQ_NEXT :: "'a tailq \<Rightarrow> 'a \<Rightarrow> 'a option" where
  "TAILQ_NEXT h x = tqe_next h x"

definition TAILQ_INIT :: "'a tailq \<Rightarrow> 'a tailq" where
  "TAILQ_INIT h = h\<lparr>tqh_first := None, tqh_last := QHead\<rparr>"

definition TAILQ_INSERT_HEAD :: "'a \<Rightarrow> 'a tailq \<Rightarrow> 'a tailq" where
  "TAILQ_INSERT_HEAD elm h =
     (let h1 = h\<lparr>tqe_next := (tqe_next h)(elm := tqh_first h)\<rparr>;
          h2 = (case tqe_next h1 elm of
                  Some f \<Rightarrow> h1\<lparr>tqe_prev := (tqe_prev h1)(f := Some (QNext elm))\<rparr>
                | None \<Rightarrow> h1\<lparr>tqh_last := QNext elm\<rparr>);
          h3 = h2\<lparr>tqh_first := Some elm\<rparr>
      in h3\<lparr>tqe_prev := (tqe_prev h3)(elm := Some QHead)\<rparr>)"

definition TAILQ_INSERT_TAIL :: "'a \<Rightarrow> 'a tailq \<Rightarrow> 'a tailq" where
  "TAILQ_INSERT_TAIL elm h =
     (let h1 = h\<lparr>tqe_next := (tqe_next h)(elm := None)\<rparr>;
          h2 = h1\<lparr>tqe_prev := (tqe_prev h1)(elm := Some (tqh_last h1))\<rparr>;
          h3 = tset (tqh_last h2) (Some elm) h2
      in h3\<lparr>tqh_last := QNext elm\<rparr>)"

definition TAILQ_INSERT_AFTER :: "'a \<Rightarrow> 'a \<Rightarrow> 'a tailq \<Rightarrow> 'a tailq" where
  "TAILQ_INSERT_AFTER listelm elm h =
     (let h1 = h\<lparr>tqe_next := (tqe_next h)(elm := tqe_next h listelm)\<rparr>;
          h2 = (case tqe_next h1 elm of
                  Some n \<Rightarrow> h1\<lparr>tqe_prev := (tqe_prev h1)(n := Some (QNext elm))\<rparr>
                | None \<Rightarrow> h1\<lparr>tqh_last := QNext elm\<rparr>);
          h3 = h2\<lparr>tqe_next := (tqe_next h2)(listelm := Some elm)\<rparr>
      in h3\<lparr>tqe_prev := (tqe_prev h3)(elm := Some (QNext listelm))\<rparr>)"

definition TAILQ_INSERT_BEFORE :: "'a \<Rightarrow> 'a \<Rightarrow> 'a tailq \<Rightarrow> 'a tailq option" where
  "TAILQ_INSERT_BEFORE listelm elm h =
     (let h1 = h\<lparr>tqe_prev := (tqe_prev h)(elm := tqe_prev h listelm)\<rparr>;
          h2 = h1\<lparr>tqe_next := (tqe_next h1)(elm := Some listelm)\<rparr>
      in case tqe_prev h2 listelm of
           None \<Rightarrow> None
         | Some p \<Rightarrow>
             (let h3 = tset p (Some elm) h2
              in Some (h3\<lparr>tqe_prev := (tqe_prev h3)(listelm := Some (QNext elm))\<rparr>)))"

definition TAILQ_REMOVE :: "'a \<Rightarrow> 'a tailq \<Rightarrow> 'a tailq option" where
  "TAILQ_REMOVE elm h =
     (case tqe_prev h elm of
        None \<Rightarrow> None
      | Some e \<Rightarrow>
          (let h1 = (case tqe_next h elm of
                       Some n \<Rightarrow> h\<lparr>tqe_prev := (tqe_prev h)(n := Some e)\<rparr>
                     | None \<Rightarrow> h\<lparr>tqh_last := e\<rparr>)
           in case tqe_prev h1 elm of
                None \<Rightarrow> None
              | Some p \<Rightarrow> Some (tset p (tqe_next h1 elm) h1)))"

text \<open>
  \<open>TAILQ_LAST\<close> and \<open>TAILQ_PREV\<close> read a pointer-to-next-field as if it pointed to a whole head, whose
  second word is then \<open>tqh_last\<close> (in the head) or \<open>tqe_prev\<close> (in an element).
\<close>

fun as_head_last :: "'a tailq \<Rightarrow> 'a qptr \<Rightarrow> 'a qptr option" where
  "as_head_last h QHead = Some (tqh_last h)"
| "as_head_last h (QNext x) = tqe_prev h x"

definition TAILQ_LAST :: "'a tailq \<Rightarrow> 'a option option" where
  "TAILQ_LAST h = map_option (tget h) (as_head_last h (tqh_last h))"

definition TAILQ_PREV :: "'a \<Rightarrow> 'a tailq \<Rightarrow> 'a option option" where
  "TAILQ_PREV elm h =
     do { p \<leftarrow> tqe_prev h elm; q \<leftarrow> as_head_last h p; Some (tget h q) }"

section \<open>Segments\<close>

text \<open>
  \<open>seg g prv p xs q\<close>: starting at the next-field \<open>p\<close>, the fields lead through \<open>xs\<close> to the field \<open>q\<close>, and
  every element's back pointer is the address of the field that led to it.
\<close>

fun seg :: "('a qptr \<Rightarrow> 'a option) \<Rightarrow> ('a \<Rightarrow> 'a qptr option) \<Rightarrow> 'a qptr \<Rightarrow> 'a list \<Rightarrow> 'a qptr \<Rightarrow> bool" where
  "seg g prv p [] q \<longleftrightarrow> p = q"
| "seg g prv p (x # xs) q \<longleftrightarrow> g p = Some x \<and> prv x = Some p \<and> seg g prv (QNext x) xs q"

definition list_rep :: "'a llist \<Rightarrow> 'a list \<Rightarrow> bool" where
  "list_rep h xs \<longleftrightarrow> distinct xs \<and> (\<exists>q. seg (lget h) (le_prev h) QHead xs q \<and> lget h q = None)"

definition tailq_rep :: "'a tailq \<Rightarrow> 'a list \<Rightarrow> bool" where
  "tailq_rep h xs \<longleftrightarrow>
     distinct xs \<and> seg (tget h) (tqe_prev h) QHead xs (tqh_last h) \<and> tget h (tqh_last h) = None"


lemma lget_lset [simp]: "lget (lset p v h) = (lget h)(p := v)"
proof
  fix q show "lget (lset p v h) q = ((lget h)(p := v)) q"
    by (cases p; cases q) auto
qed

lemma le_prev_lset [simp]: "le_prev (lset p v h) = le_prev h"
  by (cases p) auto

lemma lget_upd [simp]:
  "lget (h\<lparr>lh_first := v\<rparr>) = (lget h)(QHead := v)"
  "lget (h\<lparr>le_next := f(x := v)\<rparr>) = (lget (h\<lparr>le_next := f\<rparr>))(QNext x := v)"
  "lget (h\<lparr>le_next := le_next h\<rparr>) = lget h"
  "lget (h\<lparr>le_prev := pv\<rparr>) = lget h"
proof -
  show "lget (h\<lparr>lh_first := v\<rparr>) = (lget h)(QHead := v)"
    using lget_lset [of QHead v h] by simp
  show "lget (h\<lparr>le_next := f(x := v)\<rparr>) = (lget (h\<lparr>le_next := f\<rparr>))(QNext x := v)"
    using lget_lset [of "QNext x" v "h\<lparr>le_next := f\<rparr>"] by simp
  show "lget (h\<lparr>le_next := le_next h\<rparr>) = lget h" by simp
  show "lget (h\<lparr>le_prev := pv\<rparr>) = lget h"
  proof
    fix q show "lget (h\<lparr>le_prev := pv\<rparr>) q = lget h q" by (cases q) auto
  qed
qed

lemma tget_tset [simp]: "tget (tset p v h) = (tget h)(p := v)"
proof
  fix q show "tget (tset p v h) q = ((tget h)(p := v)) q"
    by (cases p; cases q) auto
qed

lemma tset_fields [simp]:
  "tqe_prev (tset p v h) = tqe_prev h" "tqh_last (tset p v h) = tqh_last h"
  by (cases p; simp)+

lemma tget_upd [simp]:
  "tget (h\<lparr>tqh_first := v\<rparr>) = (tget h)(QHead := v)"
  "tget (h\<lparr>tqe_next := f(x := v)\<rparr>) = (tget (h\<lparr>tqe_next := f\<rparr>))(QNext x := v)"
  "tget (h\<lparr>tqe_next := tqe_next h\<rparr>) = tget h"
  "tget (h\<lparr>tqe_prev := pv\<rparr>) = tget h"
  "tget (h\<lparr>tqh_last := lv\<rparr>) = tget h"
proof -
  show "tget (h\<lparr>tqh_first := v\<rparr>) = (tget h)(QHead := v)"
    using tget_tset [of QHead v h] by simp
  show "tget (h\<lparr>tqe_next := f(x := v)\<rparr>) = (tget (h\<lparr>tqe_next := f\<rparr>))(QNext x := v)"
    using tget_tset [of "QNext x" v "h\<lparr>tqe_next := f\<rparr>"] by simp
  show "tget (h\<lparr>tqe_next := tqe_next h\<rparr>) = tget h" by simp
  show "tget (h\<lparr>tqe_prev := pv\<rparr>) = tget h" "tget (h\<lparr>tqh_last := lv\<rparr>) = tget h"
    by (rule ext, case_tac x, auto)+
qed

lemma lh_first_lget: "lh_first h = lget h QHead" and le_next_lget: "le_next h x = lget h (QNext x)"
  by simp_all

lemma tqh_first_tget: "tqh_first h = tget h QHead" and tqe_next_tget: "tqe_next h x = tget h (QNext x)"
  by simp_all

lemma seg_append: "seg g prv p (xs @ ys) q \<longleftrightarrow> (\<exists>r. seg g prv p xs r \<and> seg g prv r ys q)"
  by (induction xs arbitrary: p) auto

lemma seg_end: "seg g prv p xs q \<Longrightarrow> q = (if xs = [] then p else QNext (last xs))"
  by (induction xs arbitrary: p) auto

lemma seg_upd_g:
  assumes "xs \<noteq> [] \<Longrightarrow> r \<noteq> p" and "\<And>x. x \<in> set (butlast xs) \<Longrightarrow> r \<noteq> QNext x"
  shows "seg (g(r := v)) prv p xs q \<longleftrightarrow> seg g prv p xs q"
  using assms
proof (induction xs arbitrary: p)
  case (Cons x xs)
  have "seg (g(r := v)) prv (QNext x) xs q \<longleftrightarrow> seg g prv (QNext x) xs q"
  proof (cases "xs = []")
    case False
    then show ?thesis using Cons.prems(2) by (intro Cons.IH) auto
  qed simp
  then show ?case using Cons.prems(1) by (auto simp: fun_upd_def)
qed simp

lemma seg_upd_prv: "x \<notin> set xs \<Longrightarrow> seg g (prv(x := v)) p xs q \<longleftrightarrow> seg g prv p xs q"
  by (induction xs arbitrary: p) auto

lemma not_in_butlast: "distinct xs \<Longrightarrow> xs \<noteq> [] \<Longrightarrow> last xs \<notin> set (butlast xs)"
  by (induction xs) (auto split: if_splits dest: in_set_butlastD)

text \<open>The field a segment ends in is not read on the way: writing it keeps the segment.\<close>

lemma seg_write_end:
  assumes "seg g prv QHead xs r" "distinct xs"
  shows "seg (g(r := v)) prv QHead xs r"
  using assms seg_end [OF assms(1)] not_in_butlast [OF assms(2)]
  by (subst seg_upd_g) (auto split: if_splits)

text \<open>Fields of elements outside the segment may be written.\<close>

lemma seg_write_other:
  assumes "x \<notin> set xs" "p \<noteq> QNext x"
  shows "seg (g(QNext x := v)) prv p xs q \<longleftrightarrow> seg g prv p xs q"
  using assms by (subst seg_upd_g) (auto dest: in_set_butlastD)

lemma seg_split:
  assumes "seg g prv QHead xs q" "x \<in> set xs"
  obtains ys zs r where "xs = ys @ x # zs" "seg g prv QHead ys r" "g r = Some x" "prv x = Some r"
    "seg g prv (QNext x) zs q"
proof -
  from assms(2) obtain ys zs where xs: "xs = ys @ x # zs" by (meson split_list)
  with assms(1) obtain r where "seg g prv QHead ys r" "g r = Some x" "prv x = Some r"
    "seg g prv (QNext x) zs q"
    by (auto simp: seg_append)
  with xs show ?thesis by (rule that)
qed

text \<open>Unlinking \<open>x\<close>: the field that led to \<open>x\<close> now leads to what followed it.\<close>

lemma seg_unlink:
  assumes ys: "seg g prv QHead ys r" and zs: "seg g prv (QNext x) zs q"
    and d: "distinct (ys @ x # zs)" and gq: "g q = None"
    and prv': "prv' = (case g (QNext x) of None \<Rightarrow> prv | Some z \<Rightarrow> prv(z := Some r))"
    and g': "g' = g(r := g (QNext x))"
  shows "seg g' prv' QHead (ys @ zs) (if zs = [] then r else q)"
    and "g' (if zs = [] then r else q) = None"
    and "g (QNext x) = None \<longleftrightarrow> zs = []"
proof -
  have rend: "r = (if ys = [] then QHead else QNext (last ys))" using seg_end [OF ys] .
  have rq: "zs \<noteq> [] \<Longrightarrow> r \<noteq> q"
  proof
    assume "zs \<noteq> []" "r = q"
    then have "ys \<noteq> []" "last ys = last zs" using seg_end [OF zs] rend by (auto split: if_splits)
    then have "last ys \<in> set ys \<inter> set zs" using \<open>zs \<noteq> []\<close> last_in_set [of ys] last_in_set [of zs] by simp
    then show False using d by auto
  qed
  have rx: "r \<noteq> QNext x" using d rend last_in_set [of ys] by (auto split: if_splits)
  have yseg: "seg g' prv' QHead ys r"
  proof -
    have "seg g' prv QHead ys r" unfolding g' using ys d by (intro seg_write_end) auto
    moreover have "g (QNext x) = Some z \<Longrightarrow> z \<notin> set ys" for z
      using zs d gq by (cases zs) auto
    ultimately show ?thesis by (auto simp: prv' seg_upd_prv split: option.split)
  qed
  show iff: "g (QNext x) = None \<longleftrightarrow> zs = []" using zs gq by (cases zs) auto
  show "g' (if zs = [] then r else q) = None" using iff gq rq by (auto simp: g')
  show "seg g' prv' QHead (ys @ zs) (if zs = [] then r else q)"
  proof (cases zs)
    case Nil then show ?thesis using yseg by simp
  next
    case (Cons z zs')
    with zs have gz: "g (QNext x) = Some z" and z': "seg g prv (QNext z) zs' q" by auto
    have zneq: "r \<noteq> QNext z" "\<And>w. w \<in> set zs' \<Longrightarrow> r \<noteq> QNext w"
      using d rend Cons last_in_set [of ys] by (auto simp: disjoint_iff split: if_splits)
    have "seg g' prv (QNext z) zs' q"
      unfolding g' using z' zneq by (subst seg_upd_g) (auto dest: in_set_butlastD)
    then have "seg g' prv' (QNext z) zs' q"
      using d Cons by (simp add: prv' gz seg_upd_prv)
    then have "seg g' prv' r zs q" using Cons gz rx by (simp add: g' prv')
    then show ?thesis using yseg Cons by (auto simp: seg_append)
  qed
qed

lemma remove1_split: "distinct (ys @ x # zs) \<Longrightarrow> remove1 x (ys @ x # zs) = ys @ zs"
  by (induction ys) auto

section \<open>LIST implements sequences\<close>

lemma LIST_INIT_rep: "list_rep (LIST_INIT h) []"
  by (simp add: list_rep_def LIST_INIT_def)

lemma LIST_FIRST_rep: "list_rep h xs \<Longrightarrow> LIST_FIRST h = (case xs of [] \<Rightarrow> None | x # _ \<Rightarrow> Some x)"
  by (auto simp: list_rep_def LIST_FIRST_def split: list.splits)

lemma LIST_EMPTY_rep: "list_rep h xs \<Longrightarrow> LIST_EMPTY h \<longleftrightarrow> xs = []"
  using LIST_FIRST_rep [of h xs] by (auto simp: LIST_EMPTY_def LIST_FIRST_def split: list.splits)

lemma LIST_NEXT_rep:
  "list_rep h (ys @ x # zs) \<Longrightarrow> LIST_NEXT h x = (case zs of [] \<Rightarrow> None | z # _ \<Rightarrow> Some z)"
  by (auto simp: list_rep_def LIST_NEXT_def seg_append split: list.splits)

lemma LIST_INSERT_HEAD_rep:
  assumes "list_rep h xs" "x \<notin> set xs"
  shows "list_rep (LIST_INSERT_HEAD x h) (x # xs)"
proof -
  from assms obtain q where s: "seg (lget h) (le_prev h) QHead xs q" and q: "lget h q = None"
    and d: "distinct xs" by (auto simp: list_rep_def)
  show ?thesis
  proof (cases xs)
    case Nil
    with s q have "lh_first h = None" by simp
    then show ?thesis using Nil by (simp add: list_rep_def LIST_INSERT_HEAD_def Let_def)
  next
    case (Cons y ys)
    with s have f: "lh_first h = Some y" and s': "seg (lget h) (le_prev h) (QNext y) ys q" by auto
    have qe: "q \<noteq> QHead" "q \<noteq> QNext x" using seg_end [OF s] Cons assms(2) last_in_set [of xs] by auto
    let ?g = "(lget h)(QNext x := Some y, QHead := Some x)"
    have "seg ?g ((le_prev h)(y := Some (QNext x), x := Some QHead)) (QNext y) ys q"
      using s' Cons d assms(2)
      by (subst seg_upd_g, simp, simp, subst seg_write_other) (auto simp: seg_upd_prv)
    then show ?thesis using Cons d assms(2) f q qe
      by (auto simp: list_rep_def LIST_INSERT_HEAD_def Let_def fun_upd_twist intro!: exI [of _ q])
  qed
qed

lemma LIST_REMOVE_rep:
  assumes "list_rep h xs" "x \<in> set xs"
  shows "\<exists>h'. LIST_REMOVE x h = Some h' \<and> list_rep h' (remove1 x xs)"
proof -
  from assms(1) obtain q where s: "seg (lget h) (le_prev h) QHead xs q" and q: "lget h q = None"
    and d: "distinct xs" by (auto simp: list_rep_def)
  from seg_split [OF s assms(2)] obtain ys zs r where xs: "xs = ys @ x # zs"
    and ys: "seg (lget h) (le_prev h) QHead ys r" and r: "le_prev h x = Some r"
    and zs: "seg (lget h) (le_prev h) (QNext x) zs q" by metis
  let ?prv' = "case lget h (QNext x) of None \<Rightarrow> le_prev h | Some z \<Rightarrow> (le_prev h)(z := Some r)"
  note u = seg_unlink [OF ys zs d [unfolded xs] q refl refl]
  have nx: "le_next h x \<noteq> Some x" using zs d xs q by (cases zs) auto
  let ?h' = "lset r (le_next h x) (h\<lparr>le_prev := ?prv'\<rparr>)"
  have "LIST_REMOVE x h = Some ?h'"
    using r nx by (auto simp: LIST_REMOVE_def Let_def split: option.split)
  moreover have "list_rep ?h' (ys @ zs)"
    using d xs u(1,2) unfolding list_rep_def by (intro conjI exI [of _ "if zs = [] then r else q"]) auto
  ultimately show ?thesis using remove1_split [of ys x zs] d xs by auto
qed

text \<open>
  \<open>LIST_INSERT_AFTER\<close> keeps the sequence in order when there is an element after \<open>y\<close>; after the last
  element the macro dereferences a null pointer (\<open>TAILQ_INSERT_AFTER\<close> tests for it).
\<close>

lemma LIST_INSERT_AFTER_rep:
  assumes "list_rep h (ys @ y # z # zs)" "x \<notin> set (ys @ y # z # zs)"
  shows "\<exists>h'. LIST_INSERT_AFTER y x h = Some h' \<and> list_rep h' (ys @ y # x # z # zs)"
proof -
  from assms obtain q r where ys: "seg (lget h) (le_prev h) QHead ys r" and ry: "lget h r = Some y"
    and py: "le_prev h y = Some r" and yz: "le_next h y = Some z"
    and s': "seg (lget h) (le_prev h) (QNext z) zs q" and q: "lget h q = None"
    and d: "distinct (ys @ y # z # zs)"
    by (auto simp: list_rep_def seg_append)
  have re: "r = (if ys = [] then QHead else QNext (last ys))" using seg_end [OF ys] .
  have rne: "r \<noteq> QNext x" "r \<noteq> QNext y" using re d assms(2) last_in_set [of ys] by (auto split: if_splits)
  have qne: "q \<noteq> QNext x" "q \<noteq> QNext y"
    using seg_end [OF s'] d assms(2) last_in_set [of zs] by (auto split: if_splits)
  let ?g = "(lget h)(QNext x := Some z, QNext y := Some x)"
  let ?p = "(le_prev h)(z := Some (QNext x), x := Some (QNext y))"
  have "seg ?g ?p (QNext z) zs q" using s' d assms(2)
    by (simp add: seg_upd_prv, subst seg_write_other, simp, force, subst seg_write_other) auto
  moreover have "seg ?g ?p QHead ys r" using ys d assms(2) by (simp add: seg_write_other seg_upd_prv)
  moreover have ne: "x \<noteq> y" "x \<noteq> z" "y \<noteq> z" using d assms(2) by auto
  ultimately have "seg ?g ?p QHead (ys @ y # x # z # zs) q"
    using ry py rne by (auto simp: seg_append)
  moreover have "LIST_INSERT_AFTER y x h =
      Some (h\<lparr>le_next := (le_next h)(x := Some z, y := Some x), le_prev := ?p\<rparr>)"
    using yz ne by (simp add: LIST_INSERT_AFTER_def Let_def)
  ultimately show ?thesis using d assms(2) q qne by (auto simp: list_rep_def intro!: exI [of _ q])
qed

lemma LIST_INSERT_AFTER_last:
  assumes "list_rep h (ys @ [y])" "x \<noteq> y"
  shows "LIST_INSERT_AFTER y x h = None"
  using LIST_NEXT_rep [of h ys y "[]"] assms by (simp add: LIST_INSERT_AFTER_def LIST_NEXT_def Let_def)

section \<open>TAILQ implements sequences\<close>

lemma TAILQ_INIT_rep: "tailq_rep (TAILQ_INIT h) []"
  by (simp add: tailq_rep_def TAILQ_INIT_def)

lemma TAILQ_FIRST_rep: "tailq_rep h xs \<Longrightarrow> TAILQ_FIRST h = (case xs of [] \<Rightarrow> None | x # _ \<Rightarrow> Some x)"
  by (auto simp: tailq_rep_def TAILQ_FIRST_def split: list.splits)

lemma TAILQ_INSERT_HEAD_rep:
  assumes "tailq_rep h xs" "x \<notin> set xs"
  shows "tailq_rep (TAILQ_INSERT_HEAD x h) (x # xs)"
proof (cases xs)
  case Nil
  with assms have "tqh_first h = None" "tqh_last h = QHead" by (auto simp: tailq_rep_def)
  with Nil show ?thesis by (simp add: tailq_rep_def TAILQ_INSERT_HEAD_def Let_def)
next
  case (Cons y ys)
  from assms have s: "seg (tget h) (tqe_prev h) QHead xs (tqh_last h)" and q: "tget h (tqh_last h) = None"
    and d: "distinct xs" by (auto simp: tailq_rep_def)
  from s Cons have f: "tqh_first h = Some y" and s': "seg (tget h) (tqe_prev h) (QNext y) ys (tqh_last h)"
    by auto
  have qe: "tqh_last h \<noteq> QHead" "tqh_last h \<noteq> QNext x"
    using seg_end [OF s] Cons assms(2) last_in_set [of xs] by auto
  have "seg ((tget h)(QNext x := Some y, QHead := Some x))
     ((tqe_prev h)(y := Some (QNext x), x := Some QHead)) (QNext y) ys (tqh_last h)"
    using s' Cons d assms(2)
    by (subst seg_upd_g, simp, simp, subst seg_write_other) (auto simp: seg_upd_prv)
  then show ?thesis using Cons d assms(2) f q qe
    by (auto simp: tailq_rep_def TAILQ_INSERT_HEAD_def Let_def fun_upd_twist)
qed

lemma TAILQ_INSERT_TAIL_rep:
  assumes "tailq_rep h xs" "x \<notin> set xs"
  shows "tailq_rep (TAILQ_INSERT_TAIL x h) (xs @ [x])"
proof -
  from assms(1) have s: "seg (tget h) (tqe_prev h) QHead xs (tqh_last h)" and d: "distinct xs"
    by (auto simp: tailq_rep_def)
  have qe: "tqh_last h \<noteq> QNext x" using seg_end [OF s] assms(2) last_in_set [of xs] by (auto split: if_splits)
  have "seg ((tget h)(QNext x := None, tqh_last h := Some x)) ((tqe_prev h)(x := Some (tqh_last h)))
     QHead xs (tqh_last h)"
    using s d assms(2) by (intro seg_write_end) (auto simp: seg_write_other seg_upd_prv)
  then show ?thesis using d assms(2) qe
    by (auto simp: tailq_rep_def TAILQ_INSERT_TAIL_def Let_def seg_append)
qed

lemma TAILQ_REMOVE_rep:
  assumes "tailq_rep h xs" "x \<in> set xs"
  shows "\<exists>h'. TAILQ_REMOVE x h = Some h' \<and> tailq_rep h' (remove1 x xs)"
proof -
  from assms(1) have s: "seg (tget h) (tqe_prev h) QHead xs (tqh_last h)" and q: "tget h (tqh_last h) = None"
    and d: "distinct xs" by (auto simp: tailq_rep_def)
  from seg_split [OF s assms(2)] obtain ys zs r where xs: "xs = ys @ x # zs"
    and ys: "seg (tget h) (tqe_prev h) QHead ys r" and r: "tqe_prev h x = Some r"
    and zs: "seg (tget h) (tqe_prev h) (QNext x) zs (tqh_last h)" by metis
  let ?prv' = "case tget h (QNext x) of None \<Rightarrow> tqe_prev h | Some z \<Rightarrow> (tqe_prev h)(z := Some r)"
  note u = seg_unlink [OF ys zs d [unfolded xs] q refl refl]
  have nx: "tqe_next h x \<noteq> Some x" using zs d xs q [folded seg_end [OF s]] by (cases zs) (auto simp: tqe_next_tget simp del: tget.simps)
  let ?h' = "tset r (tqe_next h x) (h\<lparr>tqe_prev := ?prv', tqh_last := (if zs = [] then r else tqh_last h)\<rparr>)"
  have "TAILQ_REMOVE x h = Some ?h'"
    using r nx u(3) by (auto simp: TAILQ_REMOVE_def Let_def split: option.split)
  moreover have "tailq_rep ?h' (ys @ zs)"
    using d xs u(1,2) unfolding tailq_rep_def by auto
  ultimately show ?thesis using remove1_split [of ys x zs] d xs by auto
qed

lemma TAILQ_LAST_rep:
  assumes "tailq_rep h xs"
  shows "TAILQ_LAST h = Some (if xs = [] then None else Some (last xs))"
proof (cases xs rule: rev_exhaust)
  case Nil
  with assms show ?thesis by (auto simp: tailq_rep_def TAILQ_LAST_def)
next
  case (snoc ys y)
  with assms obtain r where "tget h r = Some y" "tqe_prev h y = Some r" "tqh_last h = QNext y"
    by (auto simp: tailq_rep_def seg_append)
  with snoc show ?thesis by (simp add: TAILQ_LAST_def)
qed

lemma TAILQ_PREV_rep:
  assumes "tailq_rep h (ys @ y # x # zs)"
  shows "TAILQ_PREV x h = Some (Some y)"
  using assms by (auto simp: tailq_rep_def TAILQ_PREV_def seg_append)

section \<open>Interfaces\<close>

text \<open>
  What a pool of free objects relies on: the first element is the head of the sequence the structure
  represents, an absent element can be put in front, a present one can be unlinked.
\<close>

locale intrusive_list =
  fixes rep :: "'h \<Rightarrow> 'a list \<Rightarrow> bool"
    and first :: "'h \<Rightarrow> 'a option"
    and insert_head :: "'a \<Rightarrow> 'h \<Rightarrow> 'h"
    and unlink :: "'a \<Rightarrow> 'h \<Rightarrow> 'h option"
  assumes rep_distinct: "rep h xs \<Longrightarrow> distinct xs"
    and rep_first: "rep h xs \<Longrightarrow> first h = (case xs of [] \<Rightarrow> None | x # _ \<Rightarrow> Some x)"
    and rep_insert_head: "rep h xs \<Longrightarrow> x \<notin> set xs \<Longrightarrow> rep (insert_head x h) (x # xs)"
    and rep_unlink: "rep h xs \<Longrightarrow> x \<in> set xs \<Longrightarrow> \<exists>h'. unlink x h = Some h' \<and> rep h' (remove1 x xs)"
begin

text \<open>Taking the first object: the pool loses exactly that object.\<close>

lemma take_first:
  assumes "rep h xs" "first h = Some x"
  shows "\<exists>h' ys. unlink x h = Some h' \<and> xs = x # ys \<and> rep h' ys \<and> x \<notin> set ys"
proof -
  from assms rep_first obtain ys where "xs = x # ys" by (auto split: list.splits)
  with rep_unlink [OF assms(1), of x] rep_distinct [OF assms(1)] show ?thesis by auto
qed

lemma first_None: "rep h xs \<Longrightarrow> first h = None \<longleftrightarrow> xs = []"
  using rep_first by (auto split: list.splits)

lemma rep_unique: "rep h xs \<Longrightarrow> rep h ys \<Longrightarrow> first h = None \<Longrightarrow> xs = ys"
  using first_None by auto

end

text \<open>What the scheduler relies on, in addition: a queue that can grow at both ends.\<close>

locale fifo_queue = intrusive_list rep first insert_head unlink
  for rep :: "'h \<Rightarrow> 'a list \<Rightarrow> bool" and first insert_head unlink +
  fixes insert_tail :: "'a \<Rightarrow> 'h \<Rightarrow> 'h"
  assumes rep_insert_tail: "rep h xs \<Longrightarrow> x \<notin> set xs \<Longrightarrow> rep (insert_tail x h) (xs @ [x])"
begin

text \<open>Moving an element to the back rotates the sequence.\<close>

lemma requeue:
  assumes "rep h xs" "x \<in> set xs"
  shows "\<exists>h'. unlink x h = Some h' \<and> rep (insert_tail x h') (remove1 x xs @ [x])"
proof -
  from rep_unlink [OF assms] obtain h' where "unlink x h = Some h'" "rep h' (remove1 x xs)" by blast
  moreover have "x \<notin> set (remove1 x xs)" using rep_distinct [OF assms(1)] by simp
  ultimately show ?thesis using rep_insert_tail by blast
qed

end

interpretation ll: intrusive_list list_rep LIST_FIRST LIST_INSERT_HEAD LIST_REMOVE
  by unfold_locales
    (auto simp: LIST_FIRST_rep LIST_INSERT_HEAD_rep LIST_REMOVE_rep, simp add: list_rep_def)

interpretation tq: fifo_queue tailq_rep TAILQ_FIRST TAILQ_INSERT_HEAD TAILQ_REMOVE TAILQ_INSERT_TAIL
  by unfold_locales
    (auto simp: TAILQ_FIRST_rep TAILQ_INSERT_HEAD_rep TAILQ_REMOVE_rep TAILQ_INSERT_TAIL_rep,
      simp add: tailq_rep_def)

end
