(* ===== verification/Cstring.thy ===== *)
theory Cstring
  imports Prelude
begin

text \<open>
  \<^verbatim>\<open>lib/string.c\<close>: the freestanding memory and string functions of the kernel and the user library, on
  the byte memory. The word loops of \<open>memcpy\<close> and \<open>memset\<close> can run away at the top of the address space and the
  string loops run until a NUL is found, so those are partial functions; the theorems show that they
  return and what they compute. \<open>char\<close> is unsigned in the rv32 ABI.
\<close>

section \<open>memcpy\<close>

text \<open>The byte loops stop before the pointer can wrap, since \<open>dst < max\<close>.\<close>

function copy_bytes :: "mem \<Rightarrow> u32 \<Rightarrow> u32 \<Rightarrow> u32 \<Rightarrow> mem \<times> u32 \<times> u32" where
  "copy_bytes m dst src mx =
     (if dst < mx then copy_bytes (m(dst := m src)) (dst + 1) (src + 1) mx else (m, dst, src))"
  by pat_completeness auto
termination
  by (relation "measure (\<lambda>(m, dst, src, mx). unat (mx - dst))") (auto intro: ptr_step)

function copy_align :: "mem \<Rightarrow> u32 \<Rightarrow> u32 \<Rightarrow> u32 \<Rightarrow> mem \<times> u32 \<times> u32" where
  "copy_align m dst src mx =
     (if dst AND 3 \<noteq> 0 \<and> dst < mx then copy_align (m(dst := m src)) (dst + 1) (src + 1) mx
      else (m, dst, src))"
  by pat_completeness auto
termination
  by (relation "measure (\<lambda>(m, dst, src, mx). unat (mx - dst))") (auto intro: ptr_step)

partial_function (option) copy_words :: "mem \<Rightarrow> u32 \<Rightarrow> u32 \<Rightarrow> u32 \<Rightarrow> (mem \<times> u32 \<times> u32) option" where
  "copy_words m dst src mx =
     (if dst + 4 \<le> mx then copy_words (store32 m dst (load32 m src)) (dst + 4) (src + 4) mx
      else Some (m, dst, src))"

definition memcpy :: "mem \<Rightarrow> u32 \<Rightarrow> u32 \<Rightarrow> u32 \<Rightarrow> (u32 \<times> mem) option" where
  "memcpy m dst src n =
     (let mx = dst + n in
      if src AND 3 \<noteq> dst AND 3 then
        (case copy_bytes m dst src mx of (m, _, _) \<Rightarrow> Some (dst, m))
      else
        (case copy_align m dst src mx of (m, d, sr) \<Rightarrow>
           do { (m, d, sr) \<leftarrow> copy_words m d sr mx;
                (case copy_bytes m d sr mx of (m, _, _) \<Rightarrow> Some (dst, m)) }))"

section \<open>memset\<close>

function set_bytes :: "mem \<Rightarrow> u32 \<Rightarrow> u32 \<Rightarrow> u8 \<Rightarrow> mem \<times> u32" where
  "set_bytes m dst mx b =
     (if dst < mx then set_bytes (m(dst := b)) (dst + 1) mx b else (m, dst))"
  by pat_completeness auto
termination
  by (relation "measure (\<lambda>(m, dst, mx, b). unat (mx - dst))") (auto intro: ptr_step)

function set_align :: "mem \<Rightarrow> u32 \<Rightarrow> u32 \<Rightarrow> u8 \<Rightarrow> mem \<times> u32" where
  "set_align m dst mx b =
     (if dst AND 3 \<noteq> 0 \<and> dst < mx then set_align (m(dst := b)) (dst + 1) mx b else (m, dst))"
  by pat_completeness auto
termination
  by (relation "measure (\<lambda>(m, dst, mx, b). unat (mx - dst))") (auto intro: ptr_step)

partial_function (option) set_words :: "mem \<Rightarrow> u32 \<Rightarrow> u32 \<Rightarrow> u32 \<Rightarrow> (mem \<times> u32) option" where
  "set_words m dst mx w =
     (if dst + 4 \<le> mx then set_words (store32 m dst w) (dst + 4) mx w else Some (m, dst))"

definition memset :: "mem \<Rightarrow> u32 \<Rightarrow> u32 \<Rightarrow> u32 \<Rightarrow> (u32 \<times> mem) option" where
  "memset m dst c n =
     (let mx = dst + n;
          byte = (ucast (c AND 0xff) :: u8);
          word = (ucast byte OR push_bit 8 (ucast byte) OR push_bit 16 (ucast byte)
                    OR push_bit 24 (ucast byte) :: u32)
      in case set_align m dst mx byte of (m, d) \<Rightarrow>
           do { (m, d) \<leftarrow> set_words m d mx word;
                (case set_bytes m d mx byte of (m, _) \<Rightarrow> Some (dst, m)) })"

section \<open>String functions\<close>

partial_function (option) strlen_loop :: "mem \<Rightarrow> u32 \<Rightarrow> u32 \<Rightarrow> u32 option" where
  "strlen_loop m sp n = (if m sp \<noteq> 0 then strlen_loop m (sp + 1) (n + 1) else Some n)"

definition strlen :: "mem \<Rightarrow> u32 \<Rightarrow> u32 option" where
  "strlen m sp = strlen_loop m sp 0"

partial_function (option) strcpy_loop :: "mem \<Rightarrow> u32 \<Rightarrow> u32 \<Rightarrow> mem option" where
  "strcpy_loop m dst src =
     (let c = m src; m' = m(dst := c)
      in if c \<noteq> 0 then strcpy_loop m' (dst + 1) (src + 1) else Some m')"

definition strcpy :: "mem \<Rightarrow> u32 \<Rightarrow> u32 \<Rightarrow> (u32 \<times> mem) option" where
  "strcpy m dst src = do { m' \<leftarrow> strcpy_loop m dst src; Some (dst, m') }"

partial_function (option) strchr :: "mem \<Rightarrow> u32 \<Rightarrow> u32 \<Rightarrow> u32 option option" where
  "strchr m sp c =
     (if m sp \<noteq> 0 then (if ucast (m sp) = c then Some (Some sp) else strchr m (sp + 1) c)
      else Some None)"

partial_function (option) strcmp :: "mem \<Rightarrow> u32 \<Rightarrow> u32 \<Rightarrow> int option" where
  "strcmp m p q =
     (if m p \<noteq> 0 \<and> m p = m q then strcmp m (p + 1) (q + 1)
      else if (ucast (m p) :: u32) < ucast (m q) then Some (- 1)
      else if (ucast (m p) :: u32) > ucast (m q) then Some 1
      else Some 0)"

declare copy_bytes.simps [simp del] copy_align.simps [simp del]
  set_bytes.simps [simp del] set_align.simps [simp del]


section \<open>memcpy copies\<close>

text \<open>
  The destination range \<open>[dst, dst + n)\<close> stays below the last word of the address space (where the
  word loop's \<open>dst + 4\<close> would wrap), the source range does not wrap, and the two do not overlap.
\<close>

definition copy_ok :: "u32 \<Rightarrow> u32 \<Rightarrow> u32 \<Rightarrow> bool" where
  "copy_ok dst src n \<longleftrightarrow>
     unat dst + unat n < 2 ^ 32 - 4 \<and> unat src + unat n < 2 ^ 32 \<and>
     (unat dst + unat n \<le> unat src \<or> unat src + unat n \<le> unat dst)"

lemma copy_ok_mono: "copy_ok dst src n \<Longrightarrow> k \<le> unat n \<Longrightarrow> copy_ok dst src (of_nat k)"
proof -
  assume ok: "copy_ok dst src n" and k: "k \<le> unat n"
  then have "unat (of_nat k :: u32) = k" by (intro unat_of_nat32) (auto simp: copy_ok_def)
  with ok k show ?thesis by (auto simp: copy_ok_def)
qed

lemma copy_step:
  fixes m :: mem
  assumes ok: "copy_ok dst src n" and k: "k < unat n"
  defines "M \<equiv> mem_copy m dst src (of_nat k)"
  shows "M(dst + of_nat k := M (src + of_nat k)) = mem_copy m dst src (of_nat (Suc k))"
    and "M (src + of_nat k) = m (src + of_nat k)"
proof -
  have n: "unat n < 2 ^ 32" using ok by (auto simp: copy_ok_def)
  have uk: "unat (of_nat k :: u32) = k" "unat (of_nat (Suc k) :: u32) = Suc k"
    using k n by (intro unat_of_nat32; simp)+
  have dk: "unat (dst + of_nat k) = unat dst + k" and sk: "unat (src + of_nat k) = unat src + k"
    using ok k by (intro unat_add_small; auto simp: copy_ok_def)+
  have r0: "in_range dst (of_nat k) x \<longleftrightarrow> unat dst \<le> unat x \<and> unat x < unat dst + k" for x
    using in_range_unat [of dst "of_nat k" x] ok k uk by (auto simp: copy_ok_def)
  have r1: "in_range dst (of_nat (Suc k)) x \<longleftrightarrow> unat dst \<le> unat x \<and> unat x < unat dst + Suc k" for x
    using in_range_unat [of dst "of_nat (Suc k)" x] ok k uk by (auto simp: copy_ok_def)
  show same: "M (src + of_nat k) = m (src + of_nat k)"
    using ok k by (auto simp: M_def mem_copy_def r0 sk copy_ok_def)
  show "M(dst + of_nat k := M (src + of_nat k)) = mem_copy m dst src (of_nat (Suc k))"
  proof
    fix x
    consider "x = dst + of_nat k" | "x \<noteq> dst + of_nat k" "unat x \<noteq> unat dst + k"
      using dk by (metis word_unat_eq_iff)
    then show "(M(dst + of_nat k := M (src + of_nat k))) x = mem_copy m dst src (of_nat (Suc k)) x"
    proof cases
      case 1 then show ?thesis using dk same by (simp add: mem_copy_def r1 del: of_nat_Suc)
    next
      case 2 then show ?thesis by (auto simp: M_def mem_copy_def r0 r1 simp del: of_nat_Suc)
    qed
  qed
qed

lemma copy_bytes_correct:
  assumes "copy_ok dst src n" "k \<le> unat n"
  shows "copy_bytes (mem_copy m dst src (of_nat k)) (dst + of_nat k) (src + of_nat k) (dst + n)
     = (mem_copy m dst src n, dst + n, src + n)"
  using assms(2)
proof (induction "unat n - k" arbitrary: k)
  case 0
  then have "k = unat n" by simp
  then show ?case by (subst copy_bytes.simps) simp
next
  case (Suc d)
  then have k: "k < unat n" by simp
  have "unat (dst + of_nat k) = unat dst + k" "unat (dst + n) = unat dst + unat n"
    using assms(1) k unat_add_small [of dst k] unat_add_small [of dst "unat n"] by (auto simp: copy_ok_def)
  then have lt: "dst + of_nat k < dst + n" using k by (simp add: word_less_nat_alt)
  have "copy_bytes (mem_copy m dst src (of_nat (Suc k))) (dst + of_nat (Suc k)) (src + of_nat (Suc k)) (dst + n)
     = (mem_copy m dst src n, dst + n, src + n)"
    using Suc k by (intro Suc.hyps) auto
  then show ?case
    by (subst copy_bytes.simps) (simp add: lt copy_step(1) [OF assms(1) k, simplified] algebra_simps)
qed

lemma copy_align_correct:
  assumes "copy_ok dst src n" "k \<le> unat n"
  shows "\<exists>j. k \<le> j \<and> j \<le> unat n \<and> (j = unat n \<or> (dst + of_nat j) AND 3 = 0) \<and>
    copy_align (mem_copy m dst src (of_nat k)) (dst + of_nat k) (src + of_nat k) (dst + n)
     = (mem_copy m dst src (of_nat j), dst + of_nat j, src + of_nat j)"
  using assms(2)
proof (induction "unat n - k" arbitrary: k)
  case 0
  then have "k = unat n" by simp
  then show ?case by (subst copy_align.simps) (auto intro!: exI [of _ k])
next
  case (Suc d)
  then have k: "k < unat n" by simp
  show ?case
  proof (cases "(dst + of_nat k) AND 3 = 0")
    case True
    then show ?thesis using k by (subst copy_align.simps) (auto intro!: exI [of _ k])
  next
    case False
    have "unat (dst + of_nat k) = unat dst + k" "unat (dst + n) = unat dst + unat n"
      using assms(1) k unat_add_small [of dst k] unat_add_small [of dst "unat n"] by (auto simp: copy_ok_def)
    then have lt: "dst + of_nat k < dst + n" using k by (simp add: word_less_nat_alt)
    have "d = unat n - Suc k" "Suc k \<le> unat n" using Suc.hyps(2) k by auto
    from Suc.hyps(1) [OF this] obtain j where j: "Suc k \<le> j" "j \<le> unat n" "j = unat n \<or> (dst + of_nat j) AND 3 = 0"
      and c: "copy_align (mem_copy m dst src (of_nat (Suc k))) (dst + of_nat (Suc k)) (src + of_nat (Suc k)) (dst + n)
        = (mem_copy m dst src (of_nat j), dst + of_nat j, src + of_nat j)"
      by blast
    have "copy_align (mem_copy m dst src (of_nat k)) (dst + of_nat k) (src + of_nat k) (dst + n)
        = (mem_copy m dst src (of_nat j), dst + of_nat j, src + of_nat j)"
      using False lt c
      by (subst copy_align.simps) (simp add: copy_step(1) [OF assms(1) k, simplified] algebra_simps)
    then show ?thesis using j by (intro exI [of _ j]) auto
  qed
qed

text \<open>One word step is four byte steps.\<close>

lemma copy_word_step:
  fixes m :: mem
  assumes ok: "copy_ok dst src n" and k: "k + 4 \<le> unat n"
  defines "M \<equiv> mem_copy m dst src (of_nat k)"
  shows "store32 M (dst + of_nat k) (load32 M (src + of_nat k)) = mem_copy m dst src (of_nat (k + 4))"
proof -
  let ?C = "\<lambda>j. mem_copy m dst src (of_nat j)"
  have src: "?C j (src + of_nat i) = m (src + of_nat i)" if "j \<le> i" "i < unat n" for i j
  proof -
    have "unat (src + of_nat i) = unat src + i" "unat (of_nat j :: u32) = j"
      using ok that by (intro unat_add_small unat_of_nat32; auto simp: copy_ok_def)+
    then show ?thesis using in_range_unat [of dst "of_nat j" "src + of_nat i"] ok that
      by (auto simp: mem_copy_def copy_ok_def)
  qed
  have step: "?C (Suc j) = (?C j)(dst + of_nat j := m (src + of_nat j))" if "j < unat n" for j
    using copy_step [OF ok that, of m] by simp
  have "?C (k + 4) = M(dst + of_nat k := m (src + of_nat k), dst + of_nat (k + 1) := m (src + of_nat (k + 1)),
      dst + of_nat (k + 2) := m (src + of_nat (k + 2)), dst + of_nat (k + 3) := m (src + of_nat (k + 3)))"
    using step [of k] step [of "k + 1"] step [of "k + 2"] step [of "k + 3"] k
    by (simp add: M_def eval_nat_numeral)
  also have "\<dots> = store32 M (dst + of_nat k) (load32 M (src + of_nat k))"
    using src [of k k] src [of k "k + 1"] src [of k "k + 2"] src [of k "k + 3"] k
    by (simp add: store32_def load32_bytes M_def ac_simps)
  finally show ?thesis by simp
qed

lemma copy_words_correct:
  assumes "copy_ok dst src n" "k \<le> unat n"
  shows "\<exists>j. k \<le> j \<and> j \<le> unat n \<and>
    copy_words (mem_copy m dst src (of_nat k)) (dst + of_nat k) (src + of_nat k) (dst + n)
     = Some (mem_copy m dst src (of_nat j), dst + of_nat j, src + of_nat j)"
  using assms(2)
proof (induction "unat n - k" arbitrary: k rule: less_induct)
  case less
  have u: "unat (dst + of_nat k + 4) = unat dst + k + 4" "unat (dst + n) = unat dst + unat n"
    using assms(1) less.prems unat_add_small [of dst "k + 4"] unat_add_small [of dst "unat n"]
    by (auto simp: copy_ok_def add.assoc)
  show ?case
  proof (cases "k + 4 \<le> unat n")
    case True
    then have g: "dst + of_nat k + 4 \<le> dst + n" using u by (simp add: word_le_nat_alt)
    from True have "unat n - (k + 4) < unat n - k" by simp
    from less.hyps [OF this True] obtain j where j: "k + 4 \<le> j" "j \<le> unat n"
      and c: "copy_words (mem_copy m dst src (of_nat (k + 4))) (dst + of_nat (k + 4)) (src + of_nat (k + 4)) (dst + n)
        = Some (mem_copy m dst src (of_nat j), dst + of_nat j, src + of_nat j)"
      by blast
    have "copy_words (mem_copy m dst src (of_nat k)) (dst + of_nat k) (src + of_nat k) (dst + n)
        = Some (mem_copy m dst src (of_nat j), dst + of_nat j, src + of_nat j)"
      using c copy_word_step [OF assms(1) True, of m] g
      by (subst copy_words.simps) (simp add: algebra_simps)
    then show ?thesis using j by (intro exI [of _ j]) auto
  next
    case False
    then have "\<not> dst + of_nat k + 4 \<le> dst + n" using u by (simp add: word_le_nat_alt)
    then show ?thesis using less.prems by (subst copy_words.simps) (auto intro!: exI [of _ k])
  qed
qed

lemma memcpy_copies:
  assumes "copy_ok dst src n"
  shows "memcpy m dst src n = Some (dst, mem_copy m dst src n)"
proof -
  have z: "mem_copy m dst src (of_nat 0) = m" by (simp add: mem_copy_def in_range_def)
  have bytes: "copy_bytes (mem_copy m dst src (of_nat k)) (dst + of_nat k) (src + of_nat k) (dst + n)
     = (mem_copy m dst src n, dst + n, src + n)" if "k \<le> unat n" for k
    using copy_bytes_correct [OF assms that] .
  show ?thesis
  proof (cases "src AND 3 = dst AND 3")
    case False
    then show ?thesis using bytes [of 0] z by (simp add: memcpy_def)
  next
    case True
    from copy_align_correct [OF assms, of 0 m] obtain j where j: "j \<le> unat n"
      and a: "copy_align m dst src (dst + n) = (mem_copy m dst src (of_nat j), dst + of_nat j, src + of_nat j)"
      using z by auto
    from copy_words_correct [OF assms j, of m] obtain i where i: "i \<le> unat n"
      and w: "copy_words (mem_copy m dst src (of_nat j)) (dst + of_nat j) (src + of_nat j) (dst + n)
        = Some (mem_copy m dst src (of_nat i), dst + of_nat i, src + of_nat i)"
      by auto
    show ?thesis using True a w bytes [OF i] by (simp add: memcpy_def)
  qed
qed

section \<open>memset fills\<close>

definition fill_ok :: "u32 \<Rightarrow> u32 \<Rightarrow> bool" where
  "fill_ok dst n \<longleftrightarrow> unat dst + unat n < 2 ^ 32 - 4"

lemma fill_step:
  assumes ok: "fill_ok dst n" and k: "k < unat n"
  shows "(mem_fill m dst (of_nat k) b)(dst + of_nat k := b) = mem_fill m dst (of_nat (Suc k)) b"
proof
  fix x
  have uk: "unat (of_nat k :: u32) = k" "unat (of_nat (Suc k) :: u32) = Suc k"
    using k ok by (intro unat_of_nat32; auto simp: fill_ok_def)+
  have dk: "unat (dst + of_nat k) = unat dst + k"
    using ok k by (intro unat_add_small) (auto simp: fill_ok_def)
  have r0: "in_range dst (of_nat k) x \<longleftrightarrow> unat dst \<le> unat x \<and> unat x < unat dst + k"
    using in_range_unat [of dst "of_nat k" x] ok k uk by (auto simp: fill_ok_def)
  have r1: "in_range dst (of_nat (Suc k)) x \<longleftrightarrow> unat dst \<le> unat x \<and> unat x < unat dst + Suc k"
    using in_range_unat [of dst "of_nat (Suc k)" x] ok k uk by (auto simp: fill_ok_def)
  consider "x = dst + of_nat k" | "x \<noteq> dst + of_nat k" "unat x \<noteq> unat dst + k"
    using dk by (metis word_unat_eq_iff)
  then show "((mem_fill m dst (of_nat k) b)(dst + of_nat k := b)) x = mem_fill m dst (of_nat (Suc k)) b x"
  proof cases
    case 1 then show ?thesis using dk r1 [unfolded 1] by (simp add: mem_fill_def del: of_nat_Suc)
  next
    case 2 then show ?thesis by (auto simp: mem_fill_def r0 r1 simp del: of_nat_Suc)
  qed
qed

lemma fill_lt:
  assumes "fill_ok dst n" "k < unat n"
  shows "dst + of_nat k < dst + n"
  using assms unat_add_small [of dst k] unat_add_small [of dst "unat n"]
  by (auto simp: fill_ok_def word_less_nat_alt)

lemma set_bytes_correct:
  assumes "fill_ok dst n" "k \<le> unat n"
  shows "set_bytes (mem_fill m dst (of_nat k) b) (dst + of_nat k) (dst + n) b = (mem_fill m dst n b, dst + n)"
  using assms(2)
proof (induction "unat n - k" arbitrary: k)
  case 0
  then have "k = unat n" by simp
  then show ?case by (subst set_bytes.simps) simp
next
  case (Suc d)
  then have k: "k < unat n" "d = unat n - Suc k" "Suc k \<le> unat n" by auto
  from Suc.hyps(1) [OF k(2,3)] fill_step [OF assms(1) k(1), of m b] fill_lt [OF assms(1) k(1)]
  show ?case by (subst set_bytes.simps) (simp add: algebra_simps)
qed

lemma set_align_correct:
  assumes "fill_ok dst n" "k \<le> unat n"
  shows "\<exists>j. k \<le> j \<and> j \<le> unat n \<and>
    set_align (mem_fill m dst (of_nat k) b) (dst + of_nat k) (dst + n) b
      = (mem_fill m dst (of_nat j) b, dst + of_nat j)"
  using assms(2)
proof (induction "unat n - k" arbitrary: k)
  case 0
  then have "k = unat n" by simp
  then show ?case by (subst set_align.simps) (auto intro!: exI [of _ k])
next
  case (Suc d)
  then have k: "k < unat n" "d = unat n - Suc k" "Suc k \<le> unat n" by auto
  show ?case
  proof (cases "(dst + of_nat k) AND 3 = 0")
    case True
    then show ?thesis using k by (subst set_align.simps) (auto intro!: exI [of _ k])
  next
    case False
    from Suc.hyps(1) [OF k(2,3)] obtain j where j: "Suc k \<le> j" "j \<le> unat n"
      and c: "set_align (mem_fill m dst (of_nat (Suc k)) b) (dst + of_nat (Suc k)) (dst + n) b
        = (mem_fill m dst (of_nat j) b, dst + of_nat j)" by blast
    have "set_align (mem_fill m dst (of_nat k) b) (dst + of_nat k) (dst + n) b
        = (mem_fill m dst (of_nat j) b, dst + of_nat j)"
      using False c fill_step [OF assms(1) k(1), of m b] fill_lt [OF assms(1) k(1)]
      by (subst set_align.simps) (simp add: algebra_simps)
    then show ?thesis using j by (intro exI [of _ j]) auto
  qed
qed

definition byte_word :: "u8 \<Rightarrow> u32" where
  "byte_word b = ucast b OR push_bit 8 (ucast b) OR push_bit 16 (ucast b) OR push_bit 24 (ucast b)"

lemma byte_word_bytes:
  "ucast (byte_word b) = b" "ucast (drop_bit 8 (byte_word b)) = b"
  "ucast (drop_bit 16 (byte_word b)) = b" "ucast (drop_bit 24 (byte_word b)) = b"
  by ((rule bit_word_eqI, auto simp: byte_word_def bit_simps dest: bit_imp_le_length)[1])+

lemma fill_word_step:
  assumes ok: "fill_ok dst n" and k: "k + 4 \<le> unat n"
  shows "store32 (mem_fill m dst (of_nat k) b) (dst + of_nat k) (byte_word b)
    = mem_fill m dst (of_nat (k + 4)) b"
proof -
  let ?C = "\<lambda>j. mem_fill m dst (of_nat j) b"
  have step: "?C (Suc j) = (?C j)(dst + of_nat j := b)" if "j < unat n" for j
    using fill_step [OF ok that, of m b] by simp
  have "?C (k + 4) = (?C k)(dst + of_nat k := b, dst + of_nat (k + 1) := b,
      dst + of_nat (k + 2) := b, dst + of_nat (k + 3) := b)"
    using step [of k] step [of "k + 1"] step [of "k + 2"] step [of "k + 3"] k
    by (simp add: eval_nat_numeral)
  also have "\<dots> = store32 (?C k) (dst + of_nat k) (byte_word b)"
    by (simp add: store32_def byte_word_bytes ac_simps)
  finally show ?thesis by simp
qed

lemma set_words_correct:
  assumes "fill_ok dst n" "k \<le> unat n"
  shows "\<exists>j. k \<le> j \<and> j \<le> unat n \<and>
    set_words (mem_fill m dst (of_nat k) b) (dst + of_nat k) (dst + n) (byte_word b)
      = Some (mem_fill m dst (of_nat j) b, dst + of_nat j)"
  using assms(2)
proof (induction "unat n - k" arbitrary: k rule: less_induct)
  case less
  have u: "unat (dst + of_nat k + 4) = unat dst + k + 4" "unat (dst + n) = unat dst + unat n"
    using assms(1) less.prems unat_add_small [of dst "k + 4"] unat_add_small [of dst "unat n"]
    by (auto simp: fill_ok_def add.assoc)
  show ?case
  proof (cases "k + 4 \<le> unat n")
    case True
    then have g: "dst + of_nat k + 4 \<le> dst + n" using u by (simp add: word_le_nat_alt)
    from True have "unat n - (k + 4) < unat n - k" by simp
    from less.hyps [OF this True] obtain j where j: "k + 4 \<le> j" "j \<le> unat n"
      and c: "set_words (mem_fill m dst (of_nat (k + 4)) b) (dst + of_nat (k + 4)) (dst + n) (byte_word b)
        = Some (mem_fill m dst (of_nat j) b, dst + of_nat j)" by blast
    have "set_words (mem_fill m dst (of_nat k) b) (dst + of_nat k) (dst + n) (byte_word b)
        = Some (mem_fill m dst (of_nat j) b, dst + of_nat j)"
      using c fill_word_step [OF assms(1) True, of m b] g
      by (subst set_words.simps) (simp add: algebra_simps)
    then show ?thesis using j by (intro exI [of _ j]) auto
  next
    case False
    then have "\<not> dst + of_nat k + 4 \<le> dst + n" using u by (simp add: word_le_nat_alt)
    then show ?thesis using less.prems by (subst set_words.simps) (auto intro!: exI [of _ k])
  qed
qed

lemma memset_fills:
  assumes "fill_ok dst n"
  shows "memset m dst c n = Some (dst, mem_fill m dst n (ucast c))"
proof -
  let ?b = "ucast (c AND 0xff) :: u8"
  have m8: "(0xff :: u32) = mask 8" by (simp add: mask_eq_exp_minus_1)
  have b: "?b = ucast c" unfolding m8 by (intro bit_word_eqI) (simp add: bit_simps)
  have z: "mem_fill m dst (of_nat 0) ?b = m" by (simp add: mem_fill_def in_range_def)
  from set_align_correct [OF assms, of 0 m ?b] obtain j where j: "j \<le> unat n"
    and a: "set_align m dst (dst + n) ?b = (mem_fill m dst (of_nat j) ?b, dst + of_nat j)"
    using z by auto
  from set_words_correct [OF assms j, of m ?b] obtain i where i: "i \<le> unat n"
    and w: "set_words (mem_fill m dst (of_nat j) ?b) (dst + of_nat j) (dst + n) (byte_word ?b)
      = Some (mem_fill m dst (of_nat i) ?b, dst + of_nat i)" by auto
  show ?thesis using a w set_bytes_correct [OF assms i, of m ?b] b
    by (simp add: memset_def byte_word_def)
qed

section \<open>String functions\<close>

lemma strlen_loop_correct: "c_string m a bs \<Longrightarrow> strlen_loop m a n = Some (n + of_nat (length bs))"
proof (induction bs arbitrary: a n)
  case (Cons b bs)
  then show ?case by (subst strlen_loop.simps) (simp add: ac_simps)
qed (subst strlen_loop.simps, simp)

lemma strlen_correct: "c_string m a bs \<Longrightarrow> strlen m a = Some (of_nat (length bs))"
  by (simp add: strlen_def strlen_loop_correct)

text \<open>\<open>strchr\<close> returns the first occurrence; the terminator itself is never found.\<close>

lemma strchr_correct:
  "c_string m a bs \<Longrightarrow>
     strchr m a (ucast c) = Some (if c \<in> set bs then Some (a + of_nat (length (takeWhile (\<lambda>x. x \<noteq> c) bs))) else None)"
proof (induction bs arbitrary: a)
  case (Cons b bs)
  then show ?case by (subst strchr.simps) (auto simp: ucast_u8_eq ac_simps)
qed (subst strchr.simps, simp)

text \<open>The sign of the comparison of two byte strings, with the terminator below every byte.\<close>

fun bytes_cmp :: "u8 list \<Rightarrow> u8 list \<Rightarrow> int" where
  "bytes_cmp [] [] = 0"
| "bytes_cmp [] (c # cs) = - 1"
| "bytes_cmp (b # bs) [] = 1"
| "bytes_cmp (b # bs) (c # cs) = (if b < c then - 1 else if c < b then 1 else bytes_cmp bs cs)"

lemma strcmp_correct:
  "c_string m p bs \<Longrightarrow> c_string m q cs \<Longrightarrow> strcmp m p q = Some (bytes_cmp bs cs)"
proof (induction bs cs arbitrary: p q rule: bytes_cmp.induct)
  case 1
  then show ?case by (subst strcmp.simps) simp
next
  case (2 c cs)
  then have "(0 :: u8) < m q" by (auto simp: word_neq_0_conv)
  with 2 ucast_u8_less [of 0 "m q"] show ?case by (subst strcmp.simps) auto
next
  case (3 b bs)
  then have "(0 :: u8) < m p" by (auto simp: word_neq_0_conv)
  with 3 ucast_u8_less [of 0 "m p"] show ?case by (subst strcmp.simps) auto
next
  case (4 b bs c cs)
  then show ?case by (subst strcmp.simps) (auto simp: ucast_u8_less)
qed

lemma bytes_cmp_eq_0: "bytes_cmp bs cs = 0 \<longleftrightarrow> bs = cs"
  by (induction bs cs rule: bytes_cmp.induct) auto

lemma strcmp_zero_iff:
  "c_string m p bs \<Longrightarrow> c_string m q cs \<Longrightarrow> strcmp m p q = Some 0 \<longleftrightarrow> bs = cs"
  by (simp add: strcmp_correct bytes_cmp_eq_0)

text \<open>\<open>strcpy\<close> copies the string with its terminator, and nothing else.\<close>

lemma strcpy_loop_correct:
  assumes ok: "copy_ok dst src n" and n: "unat n = Suc (length bs)" and s: "c_string m src bs"
    and k: "k \<le> length bs"
  shows "strcpy_loop (mem_copy m dst src (of_nat k)) (dst + of_nat k) (src + of_nat k)
    = Some (mem_copy m dst src n)"
  using k
proof (induction "length bs - k" arbitrary: k)
  case 0
  then have kl: "k = length bs" "k < unat n" using n by auto
  have "m (src + of_nat k) = 0" using c_string_end [OF s] kl by simp
  moreover have "n = of_nat (Suc k)" using kl n by (metis of_nat_unat32)
  ultimately show ?case using copy_step [OF ok kl(2), of m]
    by (subst strcpy_loop.simps) (simp add: Let_def)
next
  case (Suc d)
  then have kl: "k < length bs" "k < unat n" "d = length bs - Suc k" "Suc k \<le> length bs" using n by auto
  have "m (src + of_nat k) \<noteq> 0"
  proof -
    have "bs ! k \<noteq> 0" using s kl(1) by (induction bs arbitrary: src k) (auto simp: nth_Cons split: nat.splits)
    then show ?thesis using c_string_nth [OF s kl(1)] by simp
  qed
  with Suc.hyps(1) [OF kl(3,4)] copy_step [OF ok kl(2), of m] show ?case
    by (subst strcpy_loop.simps) (simp add: Let_def algebra_simps)
qed

lemma strcpy_copies:
  assumes "c_string m src bs" "unat n = Suc (length bs)" "copy_ok dst src n"
  shows "strcpy m dst src = Some (dst, mem_copy m dst src n)"
proof -
  have "mem_copy m dst src (of_nat 0) = m" by (simp add: mem_copy_def in_range_def)
  then show ?thesis using strcpy_loop_correct [OF assms(3,2,1), of 0] by (simp add: strcpy_def)
qed

lemma mem_copy_nth:
  assumes "i < unat n" "unat dst + unat n < 2 ^ 32"
  shows "mem_copy m dst src n (dst + of_nat i) = m (src + of_nat i)"
  using assms in_range_unat [OF assms(2), of "dst + of_nat i"] unat_add_small [of dst i]
  by (simp add: mem_copy_def)

lemma c_string_shift: "c_string (\<lambda>x. m (x + d)) a bs = c_string m (a + d) bs"
  by (induction bs arbitrary: a) (simp_all add: ac_simps)

lemma strcpy_string:
  assumes "c_string m src bs" "unat n = Suc (length bs)" "copy_ok dst src n"
  shows "\<exists>m'. strcpy m dst src = Some (dst, m') \<and> c_string m' dst bs \<and>
    (\<forall>x. \<not> in_range dst n x \<longrightarrow> m' x = m x)"
proof -
  have "c_string (mem_copy m dst src n) dst bs = c_string (\<lambda>x. m (x + (src - dst))) dst bs"
    using assms(2,3) by (intro c_string_cong) (simp add: mem_copy_nth copy_ok_def algebra_simps)
  also have "\<dots> = c_string m src bs"
    by (simp add: c_string_shift)
  finally show ?thesis using assms strcpy_copies by (auto simp: mem_copy_def)
qed

end
