(* ===== verification/Pmap.thy ===== *)
theory Pmap
  imports Mmu Queue Cstring
begin

text \<open>
  \<^verbatim>\<open>kern/pmap.c\<close>: boot-time allocation, the physical page allocator (free list and reference counts) and
  the two-level page tables, which live in the pages the allocator hands out. Physical memory is the
  byte memory \<open>kmem\<close>; the kernel maps it one to one, so a kernel pointer is a physical address. The
  array \<open>pages\<close> is kept as two typed components, the free-list links and the counters \<open>pp_ref\<close>. TLB
  flushes and \<open>satp\<close> writes have no effect on memory and are recorded in the log \<open>mmu_ops\<close>.
\<close>

section \<open>State\<close>

datatype mmu_op = TlbFlush u32 u32 | TlbFlushAll | SetSatp u32

record pmap_st =
  kmem :: mem
  memsize :: u32
  npage :: u32
  freemem :: u32
  pages_ptr :: u32
  pp_ref :: "nat \<Rightarrow> u16"
  page_free_list :: "nat llist"
  cur_pgdir :: u32
  root_pgdir :: u32
  mmu_ops :: "mmu_op list"

definition set_ref :: "nat \<Rightarrow> u16 \<Rightarrow> 'z pmap_st_scheme \<Rightarrow> 'z pmap_st_scheme" where
  "set_ref pp r s = s\<lparr>pp_ref := (pp_ref s)(pp := r)\<rparr>"

definition kstore32 :: "u32 \<Rightarrow> u32 \<Rightarrow> 'z pmap_st_scheme \<Rightarrow> 'z pmap_st_scheme" where
  "kstore32 a v s = s\<lparr>kmem := store32 (kmem s) a v\<rparr>"

definition kload32 :: "'z pmap_st_scheme \<Rightarrow> u32 \<Rightarrow> u32" where
  "kload32 s a = load32 (kmem s) a"

definition SET_TLB_FLUSH :: "u32 \<Rightarrow> u32 \<Rightarrow> u32 \<Rightarrow> 'z pmap_st_scheme \<Rightarrow> 'z pmap_st_scheme" where
  "SET_TLB_FLUSH addr asid isglobal s =
     s\<lparr>mmu_ops := mmu_ops s @ [if isglobal \<noteq> 0 then TlbFlushAll else TlbFlush addr asid]\<rparr>"

definition SET_SATP :: "u32 \<Rightarrow> u32 \<Rightarrow> u32 \<Rightarrow> 'z pmap_st_scheme \<Rightarrow> 'z pmap_st_scheme" where
  "SET_SATP mode asid addr s =
     s\<lparr>mmu_ops := mmu_ops s @ [SetSatp (push_bit 31 mode OR push_bit 22 asid OR drop_bit 12 addr)]\<rparr>"

section \<open>Boot-time allocation\<close>

definition riscv32_detect_memory :: "'z pmap_st_scheme \<Rightarrow> 'z pmap_st_scheme" where
  "riscv32_detect_memory s =
     (let ms = 256 * 1024 * 1024 in s\<lparr>memsize := ms, npage := ms div BY2PG\<rparr>)"

text \<open>\<open>kend\<close> is the address of the linker symbol \<open>end\<close>.\<close>

definition alloc ::
  "u32 \<Rightarrow> u32 \<Rightarrow> u32 \<Rightarrow> u32 \<Rightarrow> 'z pmap_st_scheme \<Rightarrow> (u32 \<times> 'z pmap_st_scheme) option"
where
  "alloc kend n align clear s =
     (let fm0 = (if freemem s = 0 then kend else freemem s);
          fm1 = ROUND fm0 align;
          alloced_mem = fm1;
          fm2 = fm1 + n;
          s1 = s\<lparr>freemem := fm2\<rparr>
      in do {
        c_assert (\<not> (fm2 \<ge> memsize s1 + 0x80000000));
        (if clear \<noteq> 0
         then do { (_, m) \<leftarrow> memset (kmem s1) alloced_mem 0 n; Some (alloced_mem, s1\<lparr>kmem := m\<rparr>) }
         else Some (alloced_mem, s1)) })"

definition sizeof_Page :: u32 where
  "sizeof_Page = 12"

definition page_init_step :: "nat \<Rightarrow> 'z pmap_st_scheme \<Rightarrow> 'z pmap_st_scheme" where
  "page_init_step i s =
     (if page2addr i < freemem s then set_ref i 1 s
      else let s1 = set_ref i 0 s
           in s1\<lparr>page_free_list := LIST_INSERT_HEAD i (page_free_list s1)\<rparr>)"

definition page_init :: "u32 \<Rightarrow> 'z pmap_st_scheme \<Rightarrow> 'z pmap_st_scheme option" where
  "page_init kend s =
     do { (a, s) \<leftarrow> alloc kend (npage s * sizeof_Page) BY2PG 1 s;
          \<comment> \<open>the array is zeroed: counters 0, links null\<close>
          let s = s\<lparr>pages_ptr := a, pp_ref := (\<lambda>_. 0),
                    page_free_list := \<lparr>lh_first = lh_first (page_free_list s),
                      le_next = (\<lambda>_. None), le_prev = (\<lambda>_. None)\<rparr>\<rparr>;
          let s = s\<lparr>page_free_list := LIST_INIT (page_free_list s)\<rparr>;
          let s = s\<lparr>freemem := ROUND (freemem s) BY2PG\<rparr>;
          Some (fold page_init_step [0..<unat (npage s)] s) }"

section \<open>Page allocator\<close>

definition page_alloc :: "'z pmap_st_scheme \<Rightarrow> ((err + nat) \<times> 'z pmap_st_scheme) option" where
  "page_alloc s =
     (if LIST_EMPTY (page_free_list s) then Some (Inl E_NO_MEM, s)
      else do {
        pp \<leftarrow> LIST_FIRST (page_free_list s);
        fl \<leftarrow> LIST_REMOVE pp (page_free_list s);
        (_, m) \<leftarrow> memset (kmem s) (page2addr pp) 0 BY2PG;
        Some (Inr pp, s\<lparr>page_free_list := fl, kmem := m\<rparr>) })"

definition page_free :: "nat \<Rightarrow> 'z pmap_st_scheme \<Rightarrow> 'z pmap_st_scheme option" where
  "page_free pp s =
     do { c_assert (pp_ref s pp = 0);
          Some (s\<lparr>page_free_list := LIST_INSERT_HEAD pp (page_free_list s)\<rparr>) }"

definition page_decref :: "nat \<Rightarrow> 'z pmap_st_scheme \<Rightarrow> 'z pmap_st_scheme option" where
  "page_decref pp s =
     do { c_assert (pp_ref s pp > 0);
          let s = set_ref pp (pp_ref s pp - 1) s;
          (if pp_ref s pp = 0 then page_free pp s else Some s) }"

text \<open>
  \<open>page_alloc_sequent\<close>: the scan for \<open>n\<close> pages that follow each other downwards on the free list, and
  the loop that takes them off it. \<open>n\<close> is a C \<open>int\<close>; the scan compares it with a counter.
\<close>

partial_function (option) seq_scan ::
  "nat llist \<Rightarrow> int \<Rightarrow> nat option \<Rightarrow> nat option \<Rightarrow> nat option \<Rightarrow> int \<Rightarrow> (nat option \<times> nat) option option"
where
  "seq_scan fl n pp first prev cnt =
     (case pp of
        None \<Rightarrow> Some None
      | Some p \<Rightarrow>
          (let reset = cnt > 0 \<and> (case prev of None \<Rightarrow> True | Some q \<Rightarrow> page2addr p \<noteq> page2addr q - BY2PG);
               cnt1 = (if reset then 0 else cnt);
               first1 = (if reset \<or> \<not> cnt > 0 then Some p else first);
               cnt2 = cnt1 + 1
           in if cnt2 = n then Some (Some (first1, p))
              else seq_scan fl n (LIST_NEXT fl p) first1 (Some p) cnt2))"

partial_function (option) seq_take ::
  "nat option \<Rightarrow> nat \<Rightarrow> 'z pmap_st_scheme \<Rightarrow> 'z pmap_st_scheme option"
where
  "seq_take t pp s =
     (if t = LIST_NEXT (page_free_list s) pp then Some s
      else do {
        x \<leftarrow> t;
        fl \<leftarrow> LIST_REMOVE x (page_free_list s);
        (_, m) \<leftarrow> memset (kmem s) (page2addr x) 0 BY2PG;
        let s = s\<lparr>page_free_list := fl, kmem := m\<rparr>;
        let s = set_ref x (pp_ref s x + 1) s;
        seq_take (LIST_NEXT (page_free_list s) x) pp s })"

definition page_alloc_sequent ::
  "int \<Rightarrow> 'z pmap_st_scheme \<Rightarrow> ((err + nat) \<times> 'z pmap_st_scheme) option"
where
  "page_alloc_sequent n s =
     (if LIST_EMPTY (page_free_list s) then Some (Inl E_NO_MEM, s)
      else do {
        r \<leftarrow> seq_scan (page_free_list s) n (LIST_FIRST (page_free_list s)) None None 0;
        (case r of
           None \<Rightarrow> Some (Inl E_NO_MEM, s)
         | Some (first, pp) \<Rightarrow> do { s \<leftarrow> seq_take first pp s; Some (Inr pp, s) }) })"

section \<open>Page tables\<close>

text \<open>
  \<open>pgdir_walk\<close> yields the address of the entry of \<open>va\<close>, 0 (null) when there is no table and none is to be
  created.
\<close>

definition pgdir_walk ::
  "u32 \<Rightarrow> u32 \<Rightarrow> u32 \<Rightarrow> 'z pmap_st_scheme \<Rightarrow> ((err + u32) \<times> 'z pmap_st_scheme) option"
where
  "pgdir_walk pgdir va create s =
     (let pgdir_entryp = pgdir + 4 * PDX va;
          entry = (\<lambda>s. PADDR (PTE_ADDR (kload32 s pgdir_entryp)) + 4 * PTX va)
      in if kload32 s pgdir_entryp AND PTE_V = 0 then
           (if create \<noteq> 0 then
              do { (r, s) \<leftarrow> page_alloc s;
                   (case r of
                      Inl e \<Rightarrow> Some (Inl E_NO_MEM, s)
                    | Inr pp \<Rightarrow>
                        (let s = kstore32 pgdir_entryp (page2ptx pp OR PTE_V) s;
                             s = set_ref pp (pp_ref s pp + 1) s
                         in Some (Inr (entry s), s))) }
            else Some (Inr 0, s))
         else Some (Inr (entry s), s))"

text \<open>\<open>page_lookup\<close>: \<open>Some None\<close> is the null result, \<open>Some (Some (pp, pte))\<close> a page and its entry's address.\<close>

definition page_lookup :: "u32 \<Rightarrow> u32 \<Rightarrow> 'z pmap_st_scheme \<Rightarrow> (nat \<times> u32) option option" where
  "page_lookup pgdir va s =
     do { (r, _) \<leftarrow> pgdir_walk pgdir va 0 s;
          (case r of
             Inl _ \<Rightarrow> None
           | Inr pte \<Rightarrow>
               if pte = 0 \<or> kload32 s pte AND PTE_V = 0 then Some None
               else do { pp \<leftarrow> addr2page (npage s) (push_bit 12 (drop_bit 10 (kload32 s pte)));
                         Some (Some (pp, pte)) }) }"

definition page_remove :: "u32 \<Rightarrow> u32 \<Rightarrow> u32 \<Rightarrow> 'z pmap_st_scheme \<Rightarrow> 'z pmap_st_scheme option" where
  "page_remove pgdir asid va s =
     do { r \<leftarrow> page_lookup pgdir va s;
          (case r of
             None \<Rightarrow> Some s
           | Some (pp, pte) \<Rightarrow>
               do { s \<leftarrow> page_decref pp s;
                    let s = kstore32 pte 0 s;
                    Some (SET_TLB_FLUSH va asid 0 s) }) }"

text \<open>The part of \<open>page_insert\<close> after the old mapping is out of the way.\<close>

definition page_insert_new ::
  "u32 \<Rightarrow> u32 \<Rightarrow> nat \<Rightarrow> u32 \<Rightarrow> u32 \<Rightarrow> 'z pmap_st_scheme \<Rightarrow> ((err + unit) \<times> 'z pmap_st_scheme) option"
where
  "page_insert_new pgdir asid pp va perm s =
     (let s = SET_TLB_FLUSH va asid 0 s in
      try_c (pgdir_walk pgdir va 1 s) (\<lambda>pte s.
        let s = kstore32 pte (page2ptx pp OR perm OR PTE_V) s;
            s = set_ref pp (pp_ref s pp + 1) s
        in Some (Inr (), s)))"

definition page_insert ::
  "u32 \<Rightarrow> u32 \<Rightarrow> nat \<Rightarrow> u32 \<Rightarrow> u32 \<Rightarrow> 'z pmap_st_scheme \<Rightarrow> ((err + unit) \<times> 'z pmap_st_scheme) option"
where
  "page_insert pgdir asid pp va perm s =
     do { (r, _) \<leftarrow> pgdir_walk pgdir va 0 s;
          (case r of
             Inl _ \<Rightarrow> None
           | Inr pte \<Rightarrow>
               if pte \<noteq> 0 \<and> kload32 s pte AND PTE_V \<noteq> 0 then
                 do { old \<leftarrow> addr2page (npage s) (PADDR (PTE_ADDR (kload32 s pte)));
                      (if old \<noteq> pp then
                         do { s \<leftarrow> page_remove pgdir asid va s;
                              page_insert_new pgdir asid pp va perm s }
                       else
                         (let s = SET_TLB_FLUSH va asid 0 s;
                              s = kstore32 pte (page2ptx pp OR perm OR PTE_V) s
                          in Some (Inr (), s))) }
               else page_insert_new pgdir asid pp va perm s) }"

definition pgdir_init_fill ::
  "u32 \<Rightarrow> u32 \<Rightarrow> u32 \<Rightarrow> u32 \<Rightarrow> 'z pmap_st_scheme \<Rightarrow> ((err + unit) \<times> 'z pmap_st_scheme) option"
where
  "pgdir_init_fill pgdir va pa perm s =
     (let pgdir_entryp = pgdir + 4 * PDX va;
          fill = (\<lambda>s. Some (Inr (),
            kstore32 (PADDR (PTE_ADDR (kload32 s pgdir_entryp)) + 4 * PTX va)
              (push_bit 10 (drop_bit 12 pa) OR PTE_V OR perm) s))
      in if kload32 s pgdir_entryp AND PTE_V = 0 then
           try_c (page_alloc s) (\<lambda>pp s.
             let s = kstore32 pgdir_entryp (page2ptx pp OR PTE_V) s;
                 s = set_ref pp (pp_ref s pp + 1) s
             in fill s)
         else fill s)"

definition pgdir_map ::
  "u32 \<Rightarrow> u32 \<Rightarrow> u32 \<Rightarrow> u32 \<Rightarrow> u32 \<Rightarrow> 'z pmap_st_scheme \<Rightarrow> ((err + unit) \<times> 'z pmap_st_scheme) option"
where
  "pgdir_map pgdir asid pa va perm s =
     try_c (pgdir_walk pgdir va 1 s) (\<lambda>pte s.
       let s = kstore32 pte (push_bit 10 (drop_bit 12 pa) OR perm OR PTE_V) s
       in Some (Inr (), SET_TLB_FLUSH va asid 0 s))"

text \<open>The identity-mapping loops \<open>for (addr = a; addr < b; addr += BY2PG) try(pgdir_init_fill(...))\<close>.\<close>

partial_function (option) fill_range ::
  "u32 \<Rightarrow> u32 \<Rightarrow> u32 \<Rightarrow> u32 \<Rightarrow> 'z pmap_st_scheme \<Rightarrow> ((err + unit) \<times> 'z pmap_st_scheme) option"
where
  "fill_range pgdir addr bnd perm s =
     (if addr < bnd then
        do { (r, s) \<leftarrow> pgdir_init_fill pgdir addr addr perm s;
             (case r of Inl e \<Rightarrow> Some (Inl e, s)
              | Inr _ \<Rightarrow> fill_range pgdir (addr + BY2PG) bnd perm s) }
      else Some (Inr (), s))"

abbreviation DISK_ADDRESS :: u32 where "DISK_ADDRESS \<equiv> 0x90008000"

text \<open>\<open>envs_ptr\<close> is the address of the array \<open>envs\<close>.\<close>

definition pgdir_init :: "u32 \<Rightarrow> 'z pmap_st_scheme \<Rightarrow> ((err + unit) \<times> 'z pmap_st_scheme) option" where
  "pgdir_init envs_ptr s =
     try_c (page_alloc s) (\<lambda>pp0 s.
       let pgdir = page2addr pp0;
           s = set_ref pp0 1 s
       in try_c (fill_range pgdir KERNSTART (ROUNDDOWN envs_ptr BY2PG) (PTE_R OR PTE_X) s) (\<lambda>_ s.
          try_c (fill_range pgdir (ROUNDDOWN envs_ptr BY2PG) KERNEND (PTE_R OR PTE_W) s) (\<lambda>_ s.
          try_c (fill_range pgdir KERNEND (ROUNDDOWN (pages_ptr s) BY2PG) (PTE_R OR PTE_X) s) (\<lambda>_ s.
          try_c (fill_range pgdir (ROUNDDOWN (pages_ptr s) BY2PG) 0x90000000 (PTE_R OR PTE_W) s) (\<lambda>_ s.
          try_c (pgdir_map pgdir 0 (DISK_ADDRESS - KERNSTART) DISK_ADDRESS (PTE_R OR PTE_W) s) (\<lambda>_ s.
            let s = s\<lparr>cur_pgdir := pgdir, root_pgdir := pgdir\<rparr>;
                s = SET_SATP 1 0 pgdir s
            in Some (Inr (), SET_TLB_FLUSH 0 0 1 s)))))))"

end
