(* ===== verification/Paging.thy ===== *)
theory Paging
  imports Pmap
begin

text \<open>
  What \<^verbatim>\<open>kern/pmap.c\<close> promises. A page table is read as a partial map from virtual page numbers to entries
  (\<open>amap\<close>); over a set of page directories that satisfies the invariant \<open>as_inv\<close> (free list, private user
  tables, reference counts), \<open>page_lookup\<close>, \<open>page_insert\<close> and \<open>page_remove\<close> are lookup, update and
  deletion of that map, and no other directory of the set sees a change.
\<close>

section \<open>Words of a page\<close>

lemma unat_drop_bit32: "unat (drop_bit n (w :: u32)) = unat w div 2 ^ n"
  by (simp only: unat_drop_bit_eq) (simp only: drop_bit_eq_div)

definition slot :: "nat \<Rightarrow> u32 \<Rightarrow> u32" where
  "slot p i = page2addr p + 4 * i"

definition pw :: "'z pmap_st_scheme \<Rightarrow> nat \<Rightarrow> u32 \<Rightarrow> u32" where
  "pw s p i = kload32 s (slot p i)"

lemma unat_slot:
  assumes "p < NPAGES" "unat i < 1024"
  shows "unat (slot p i) = 0x80000000 + 4096 * p + 4 * unat i"
proof -
  have "unat (4 * i) = 4 * unat i" using assms(2) by (simp add: unat_word_ariths)
  then have "slot p i = page2addr p + of_nat (4 * unat i)"
    by (simp add: slot_def)
  then show ?thesis using assms unat_page2addr [of p] unat_add_small [of "page2addr p" "4 * unat i"] by simp
qed

lemma aligned4_slot: "p < NPAGES \<Longrightarrow> unat i < 1024 \<Longrightarrow> aligned4 (slot p i)"
  by (simp add: unat_slot)

lemma slot_inj:
  assumes "p < NPAGES" "q < NPAGES" "unat i < 1024" "unat j < 1024"
  shows "slot p i = slot q j \<longleftrightarrow> p = q \<and> i = j"
proof
  assume "slot p i = slot q j"
  then have "4096 * p + 4 * unat i = 4096 * q + 4 * unat j"
    using unat_slot [OF assms(1,3)] unat_slot [OF assms(2,4)] by simp
  moreover have "p = (4096 * p + 4 * unat i) div 4096" "q = (4096 * q + 4 * unat j) div 4096"
    using assms(3,4) by auto
  ultimately have "p = q" by metis
  with \<open>4096 * p + 4 * unat i = _\<close> show "p = q \<and> i = j" by (simp add: word_unat_eq_iff)
qed simp

lemma slot_nonzero: "p < NPAGES \<Longrightarrow> unat i < 1024 \<Longrightarrow> slot p i \<noteq> 0"
  using unat_slot [of p i] by auto

lemma pw_kstore32:
  assumes "p < NPAGES" "q < NPAGES" "unat i < 1024" "unat j < 1024"
  shows "pw (kstore32 (slot p i) v s) q j = (if p = q \<and> i = j then v else pw s q j)"
proof (cases "p = q \<and> i = j")
  case False
  then have "slot p i \<noteq> slot q j" using slot_inj [OF assms] by simp
  with False show ?thesis
    using load32_store32_other [OF aligned4_slot [OF assms(1,3)] aligned4_slot [OF assms(2,4)]]
    by (auto simp: pw_def kload32_def kstore32_def)
qed (simp add: pw_def kload32_def kstore32_def)

lemma fill_ok_page: "p < NPAGES \<Longrightarrow> fill_ok (page2addr p) BY2PG"
  by (simp add: fill_ok_def unat_page2addr)

lemma pw_zero_page:
  assumes "p < NPAGES" "q < NPAGES" "unat j < 1024"
  shows "pw (s\<lparr>kmem := mem_fill (kmem s) (page2addr p) BY2PG 0\<rparr>) q j = (if p = q then 0 else pw s q j)"
proof -
  have r: "in_range (page2addr p) BY2PG x \<longleftrightarrow> 0x80000000 + 4096 * p \<le> unat x \<and> unat x < 0x80000000 + 4096 * p + 4096" for x
    using in_range_unat [of "page2addr p" BY2PG x] unat_page2addr [OF assms(1)] assms(1) by simp
  have u: "unat (slot q j + of_nat k) = 0x80000000 + 4096 * q + 4 * unat j + k" if "k < 4" for k
    using unat_slot [OF assms(2,3)] unat_add_small [of "slot q j" k] that assms(2,3) by simp
  show ?thesis
  proof (cases "p = q")
    case True
    have "in_range (page2addr p) BY2PG (slot q j + of_nat k)" if "k < 4" for k
      using r [of "slot q j + of_nat k"] u [OF that] that True assms(3) by auto
    from this [of 0] this [of 1] this [of 2] this [of 3] show ?thesis using True
      by (simp add: pw_def kload32_def load32_def mem_fill_def)
  next
    case False
    have "mem_fill (kmem s) (page2addr p) BY2PG 0 (slot q j + of_nat k) = kmem s (slot q j + of_nat k)" if "k < 4" for k
    proof -
      have "\<not> in_range (page2addr p) BY2PG (slot q j + of_nat k)"
        using u [OF that] that False assms(3) by (auto simp: r)
      then show ?thesis by (simp add: mem_fill_def)
    qed
    from load32_cong [of "mem_fill (kmem s) (page2addr p) BY2PG 0" "slot q j" "kmem s", OF this] False
    show ?thesis by (simp add: pw_def kload32_def)
  qed
qed

section \<open>Frame facts of the state updates\<close>

lemma pw_frames [simp]:
  "pw (set_ref p r s) = pw s" "pw (SET_TLB_FLUSH a b c s) = pw s" "pw (SET_SATP a b c s) = pw s"
  "pw (s\<lparr>page_free_list := fl\<rparr>) = pw s" "pw (s\<lparr>pp_ref := rf\<rparr>) = pw s" "pw (s\<lparr>mmu_ops := ops\<rparr>) = pw s"
  by (simp_all add: fun_eq_iff pw_def kload32_def set_ref_def SET_TLB_FLUSH_def SET_SATP_def)

lemma kload32_frames [simp]:
  "kload32 (set_ref p r s) = kload32 s" "kload32 (SET_TLB_FLUSH a b c s) = kload32 s"
  "kload32 (s\<lparr>page_free_list := fl\<rparr>) = kload32 s"
  by (simp_all add: fun_eq_iff kload32_def set_ref_def SET_TLB_FLUSH_def)

lemma upd_fields [simp]:
  "npage (set_ref p r s) = npage s" "page_free_list (set_ref p r s) = page_free_list s"
  "pp_ref (set_ref p r s) = (pp_ref s)(p := r)"
  "npage (kstore32 a v s) = npage s" "page_free_list (kstore32 a v s) = page_free_list s"
  "pp_ref (kstore32 a v s) = pp_ref s"
  "npage (SET_TLB_FLUSH x y z s) = npage s" "page_free_list (SET_TLB_FLUSH x y z s) = page_free_list s"
  "pp_ref (SET_TLB_FLUSH x y z s) = pp_ref s" "kmem (SET_TLB_FLUSH x y z s) = kmem s"
  "kmem (set_ref p r s) = kmem s"
  by (simp_all add: set_ref_def kstore32_def SET_TLB_FLUSH_def)

section \<open>The abstract page map\<close>

definition pde_ok :: "u32 \<Rightarrow> bool" where
  "pde_ok d \<longleftrightarrow> d AND PTE_V \<noteq> 0"

text \<open>The page an entry points to.\<close>

definition pte_page :: "u32 \<Rightarrow> nat" where
  "pte_page e = unat (PPN (PADDR e))"

definition pt :: "'z pmap_st_scheme \<Rightarrow> nat \<Rightarrow> u32 \<Rightarrow> nat" where
  "pt s pd i = pte_page (pw s pd i)"

definition amap :: "'z pmap_st_scheme \<Rightarrow> nat \<Rightarrow> u32 \<Rightarrow> u32 option" where
  "amap s pd va =
     (if pde_ok (pw s pd (PDX va)) \<and> pde_ok (pw s (pt s pd (PDX va)) (PTX va))
      then Some (pw s (pt s pd (PDX va)) (PTX va)) else None)"

lemma PADDR_page: "PADDR e = page2addr (pte_page e)"
  by (simp add: pte_page_def page2addr_PPN)

lemma pte_page_mk_pte: "p < NPAGES \<Longrightarrow> perm_ok perm \<Longrightarrow> pte_page (mk_pte p perm) = p"
  by (simp add: pte_page_def PADDR_mk_pte PPN_page2addr unat_of_nat)

lemma pde_ok_mk_pte [simp]: "pde_ok (mk_pte p perm)"
  by (simp add: pde_ok_def)

lemma not_pde_ok_0 [simp]: "\<not> pde_ok 0"
  by (simp add: pde_ok_def)

section \<open>The invariant\<close>

text \<open>The pages that hold the directories of \<open>D\<close> and their tables.\<close>

definition tables :: "'z pmap_st_scheme \<Rightarrow> nat set \<Rightarrow> nat set" where
  "tables s D = D \<union> {pt s pd i | pd i. pd \<in> D \<and> unat i < 1024 \<and> pde_ok (pw s pd i)}"

text \<open>The user mappings of page \<open>q\<close>, as pairs of a directory and a virtual page number below \<open>UTOP\<close>.\<close>

definition uses :: "'z pmap_st_scheme \<Rightarrow> nat set \<Rightarrow> nat \<Rightarrow> (nat \<times> u32) set" where
  "uses s D q = {(pd, v). pd \<in> D \<and> v < 0x7f400 \<and>
     (\<exists>e. amap s pd (push_bit 12 v) = Some e \<and> pte_page e = q)}"

definition as_inv :: "'z pmap_st_scheme \<Rightarrow> nat set \<Rightarrow> nat list \<Rightarrow> bool" where
  "as_inv s D xs \<longleftrightarrow>
     npage s = 0x10000 \<and>
     list_rep (page_free_list s) xs \<and> (\<forall>p \<in> set xs. p < NPAGES \<and> pp_ref s p = 0) \<and>
     finite D \<and> (\<forall>pd \<in> D. pd < NPAGES) \<and>
     (\<forall>pd \<in> D. \<forall>i. unat i < 1024 \<longrightarrow> pde_ok (pw s pd i) \<longrightarrow> pt s pd i < NPAGES \<and> pt s pd i \<notin> D) \<and>
     (\<forall>pd \<in> D. \<forall>pd' \<in> D. \<forall>i j. unat i < 509 \<longrightarrow> unat j < 1024 \<longrightarrow>
        pde_ok (pw s pd i) \<longrightarrow> pde_ok (pw s pd' j) \<longrightarrow> pt s pd i = pt s pd' j \<longrightarrow> pd = pd' \<and> i = j) \<and>
     (\<forall>pd \<in> D. \<forall>va e. va < UTOP \<longrightarrow> amap s pd va = Some e \<longrightarrow> pte_page e < NPAGES) \<and>
     (\<forall>q < NPAGES. card (uses s D q) + (if q \<in> tables s D then 1 else 0) \<le> unat (pp_ref s q))"

lemma as_invD:
  assumes "as_inv s D xs"
  shows "npage s = 0x10000" "list_rep (page_free_list s) xs" "finite D"
    and "\<And>p. p \<in> set xs \<Longrightarrow> p < NPAGES" "\<And>p. p \<in> set xs \<Longrightarrow> pp_ref s p = 0"
    and "\<And>pd. pd \<in> D \<Longrightarrow> pd < NPAGES"
    and "\<And>pd i. pd \<in> D \<Longrightarrow> unat i < 1024 \<Longrightarrow> pde_ok (pw s pd i) \<Longrightarrow> pt s pd i < NPAGES"
    and "\<And>pd i. pd \<in> D \<Longrightarrow> unat i < 1024 \<Longrightarrow> pde_ok (pw s pd i) \<Longrightarrow> pt s pd i \<notin> D"
    and "\<And>pd pd' i j. pd \<in> D \<Longrightarrow> pd' \<in> D \<Longrightarrow> unat i < 509 \<Longrightarrow> unat j < 1024 \<Longrightarrow>
        pde_ok (pw s pd i) \<Longrightarrow> pde_ok (pw s pd' j) \<Longrightarrow> pt s pd i = pt s pd' j \<Longrightarrow> pd = pd' \<and> i = j"
    and "\<And>pd va e. pd \<in> D \<Longrightarrow> va < UTOP \<Longrightarrow> amap s pd va = Some e \<Longrightarrow> pte_page e < NPAGES"
    and "\<And>q. q < NPAGES \<Longrightarrow> card (uses s D q) + (if q \<in> tables s D then 1 else 0) \<le> unat (pp_ref s q)"
  using assms unfolding as_inv_def by blast+

lemma as_invI:
  assumes "npage s = 0x10000" "list_rep (page_free_list s) xs" "finite D"
    and "\<And>p. p \<in> set xs \<Longrightarrow> p < NPAGES" "\<And>p. p \<in> set xs \<Longrightarrow> pp_ref s p = 0"
    and "\<And>pd. pd \<in> D \<Longrightarrow> pd < NPAGES"
    and "\<And>pd i. pd \<in> D \<Longrightarrow> unat i < 1024 \<Longrightarrow> pde_ok (pw s pd i) \<Longrightarrow> pt s pd i < NPAGES"
    and "\<And>pd i. pd \<in> D \<Longrightarrow> unat i < 1024 \<Longrightarrow> pde_ok (pw s pd i) \<Longrightarrow> pt s pd i \<notin> D"
    and "\<And>pd pd' i j. pd \<in> D \<Longrightarrow> pd' \<in> D \<Longrightarrow> unat i < 509 \<Longrightarrow> unat j < 1024 \<Longrightarrow>
        pde_ok (pw s pd i) \<Longrightarrow> pde_ok (pw s pd' j) \<Longrightarrow> pt s pd i = pt s pd' j \<Longrightarrow> pd = pd' \<and> i = j"
    and "\<And>pd va e. pd \<in> D \<Longrightarrow> va < UTOP \<Longrightarrow> amap s pd va = Some e \<Longrightarrow> pte_page e < NPAGES"
    and "\<And>q. q < NPAGES \<Longrightarrow> card (uses s D q) + (if q \<in> tables s D then 1 else 0) \<le> unat (pp_ref s q)"
  shows "as_inv s D xs"
  using assms unfolding as_inv_def by blast

lemma tables_less: "as_inv s D xs \<Longrightarrow> q \<in> tables s D \<Longrightarrow> q < NPAGES"
  by (auto simp: tables_def dest: as_invD(6,7))

lemma dir_in_tables: "pd \<in> D \<Longrightarrow> pd \<in> tables s D"
  by (simp add: tables_def)

lemma pt_in_tables: "pd \<in> D \<Longrightarrow> unat i < 1024 \<Longrightarrow> pde_ok (pw s pd i) \<Longrightarrow> pt s pd i \<in> tables s D"
  by (auto simp: tables_def)

lemma finite_uses: "finite D \<Longrightarrow> finite (uses s D q)"
  by (rule finite_subset [of _ "D \<times> UNIV"]) (auto simp: uses_def)

text \<open>A page on the free list, or any page with count 0, is neither a table nor mapped by a user.\<close>

lemma unreferenced:
  assumes "as_inv s D xs" "q < NPAGES" "pp_ref s q = 0"
  shows "q \<notin> tables s D" "uses s D q = {}"
  using as_invD(11) [OF assms(1,2)] assms(3) finite_uses [OF as_invD(3) [OF assms(1)]]
  by (auto simp: card_eq_0_iff split: if_splits)

lemma free_unreferenced:
  "as_inv s D xs \<Longrightarrow> f \<in> set xs \<Longrightarrow> f \<notin> tables s D \<and> uses s D f = {} \<and> f < NPAGES"
  using unreferenced as_invD(4,5) by metis

text \<open>Two states that agree on the words of the tables have the same page maps.\<close>

lemma tables_agree:
  assumes "\<And>q j. q \<in> tables s D \<Longrightarrow> unat j < 1024 \<Longrightarrow> pw s' q j = pw s q j"
  shows "pd \<in> D \<Longrightarrow> unat i < 1024 \<Longrightarrow> pw s' pd i = pw s pd i"
    and "pd \<in> D \<Longrightarrow> unat i < 1024 \<Longrightarrow> pt s' pd i = pt s pd i"
    and "pd \<in> D \<Longrightarrow> amap s' pd va = amap s pd va"
    and "tables s' D = tables s D" and "uses s' D q = uses s D q"
proof -
  show pw: "pw s' pd i = pw s pd i" if "pd \<in> D" "unat i < 1024" for pd i
    using that assms by (simp add: dir_in_tables)
  show pt: "pt s' pd i = pt s pd i" if "pd \<in> D" "unat i < 1024" for pd i
    using pw [OF that] by (simp add: pt_def)
  show am: "amap s' pd va = amap s pd va" if "pd \<in> D" for pd va
    using that pw [OF that unat_PDX_less] pt [OF that unat_PDX_less]
      assms [OF pt_in_tables [OF that unat_PDX_less] unat_PTX_less]
    by (auto simp: amap_def)
  show "tables s' D = tables s D" unfolding tables_def using pw pt by (auto; metis)
  show "uses s' D q = uses s D q" unfolding uses_def using am by auto
qed

text \<open>Page maps and invariant only depend on memory, free list and counts.\<close>

lemma pmap_cong:
  assumes "kmem s' = kmem s" "npage s' = npage s" "page_free_list s' = page_free_list s" "pp_ref s' = pp_ref s"
  shows "pw s' = pw s" "amap s' = amap s" "tables s' = tables s" "uses s' = uses s" "as_inv s' D xs = as_inv s D xs"
proof -
  show pw: "pw s' = pw s" by (intro ext) (simp add: pw_def kload32_def assms(1))
  then have pt: "pt s' = pt s" by (intro ext) (simp add: pt_def)
  show am: "amap s' = amap s" and t: "tables s' = tables s" by (intro ext, simp add: amap_def tables_def pw pt)+
  show u: "uses s' = uses s" by (intro ext) (simp add: uses_def am)
  show "as_inv s' D xs = as_inv s D xs" using assms pw pt am t u by (simp add: as_inv_def)
qed

section \<open>Lookup\<close>

lemma walk_entry: "PADDR (PTE_ADDR (pw s pd (PDX va))) + 4 * PTX va = slot (pt s pd (PDX va)) (PTX va)"
  by (simp add: PADDR_PTE_ADDR slot_def pt_def flip: PADDR_page)

lemma kload32_pw: "kload32 s (page2addr p + 4 * i) = pw s p i" "kload32 s (slot p i) = pw s p i"
  by (simp_all add: pw_def slot_def)

lemma pgdir_walk_no_create:
  "pgdir_walk (page2addr pd) va 0 s =
     Some (Inr (if pde_ok (pw s pd (PDX va)) then slot (pt s pd (PDX va)) (PTX va) else 0), s)"
  by (simp add: pgdir_walk_def Let_def kload32_pw walk_entry pde_ok_def)

lemma addr2page_pte:
  "npage s = 0x10000 \<Longrightarrow> addr2page (npage s) (PADDR e) = (if pte_page e < NPAGES then Some (pte_page e) else None)"
  by (auto simp: addr2page_def pte_page_def word_le_nat_alt)

lemma page_lookup_amap:
  assumes "as_inv s D xs" "pd \<in> D"
  shows "page_lookup (page2addr pd) va s =
     (case amap s pd va of None \<Rightarrow> Some None
      | Some e \<Rightarrow> if pte_page e < NPAGES then Some (Some (pte_page e, slot (pt s pd (PDX va)) (PTX va))) else None)"
proof -
  have "pde_ok (pw s pd (PDX va)) \<Longrightarrow> slot (pt s pd (PDX va)) (PTX va) \<noteq> 0"
    using as_invD(7) [OF assms unat_PDX_less] slot_nonzero unat_PTX_less by blast
  moreover have "push_bit 12 (drop_bit 10 x) = PADDR x" for x by (simp add: PADDR_def)
  ultimately show ?thesis
    using as_invD(1) [OF assms(1)] addr2page_pte [of s]
    by (auto simp: page_lookup_def pgdir_walk_no_create kload32_pw amap_def pde_ok_def)
qed

section \<open>Allocation\<close>

lemma page_alloc_empty: "as_inv s D [] \<Longrightarrow> page_alloc s = Some (Inl E_NO_MEM, s)"
  using LIST_EMPTY_rep [OF as_invD(2), of s D "[]"] by (simp add: page_alloc_def)

text \<open>The result of a successful allocation, before anything is stored in the page.\<close>

definition alloced :: "nat \<Rightarrow> nat llist \<Rightarrow> 'z pmap_st_scheme \<Rightarrow> 'z pmap_st_scheme" where
  "alloced f fl s = s\<lparr>page_free_list := fl, kmem := mem_fill (kmem s) (page2addr f) BY2PG 0\<rparr>"

lemma alloced_fields [simp]:
  "npage (alloced f fl s) = npage s" "page_free_list (alloced f fl s) = fl"
  "pp_ref (alloced f fl s) = pp_ref s"
  by (simp_all add: alloced_def)

lemma pw_alloced:
  "f < NPAGES \<Longrightarrow> q < NPAGES \<Longrightarrow> unat j < 1024 \<Longrightarrow> pw (alloced f fl s) q j = (if f = q then 0 else pw s q j)"
  using pw_zero_page [of f q j "s\<lparr>page_free_list := fl\<rparr>"] by (simp add: alloced_def)

lemma page_alloc_ok:
  assumes inv: "as_inv s D (f # xs)"
  obtains fl where "page_alloc s = Some (Inr f, alloced f fl s)" "as_inv (alloced f fl s) D xs"
    "\<And>pd va. pd \<in> D \<Longrightarrow> amap (alloced f fl s) pd va = amap s pd va"
    "tables (alloced f fl s) D = tables s D" "\<And>q. uses (alloced f fl s) D q = uses s D q"
    "f \<notin> set xs" "f < NPAGES" "pp_ref s f = 0" "f \<notin> tables s D" "uses s D f = {}"
proof -
  have f: "f < NPAGES" "pp_ref s f = 0" using as_invD(4,5) [OF inv] by auto
  have rep: "list_rep (page_free_list s) (f # xs)" using as_invD(2) [OF inv] .
  have first: "LIST_FIRST (page_free_list s) = Some f" using LIST_FIRST_rep [OF rep] by simp
  then obtain fl where fl: "LIST_REMOVE f (page_free_list s) = Some fl" "list_rep fl xs" "f \<notin> set xs"
    using ll.take_first [OF rep] by auto
  have pa: "page_alloc s = Some (Inr f, alloced f fl s)"
    using LIST_EMPTY_rep [OF rep] first fl memset_fills [OF fill_ok_page [OF f(1)], of "kmem s" 0]
    by (simp add: page_alloc_def alloced_def)
  have nt: "f \<notin> tables s D" "uses s D f = {}" using unreferenced [OF inv f] by auto
  have agree: "pw (alloced f fl s) q j = pw s q j" if "q \<in> tables s D" "unat j < 1024" for q j
    using pw_alloced [OF f(1) tables_less [OF inv that(1)] that(2), of fl s] nt(1) that(1) by auto
  note ag = tables_agree [where s' = "alloced f fl s" and s = s and D = D, OF agree]
  have "as_inv (alloced f fl s) D xs"
    using as_invD [OF inv] fl by (intro as_invI) (auto simp: ag)
  from that [OF pa this ag(3) ag(4) ag(5) fl(3) f(1,2) nt] show ?thesis .
qed

section \<open>Writing one user entry\<close>

text \<open>
  The table of a user address is private, so storing an entry in it changes one point of one page map.
\<close>

lemma user_PDX: "va < UTOP \<Longrightarrow> unat (PDX va) < 509"
proof -
  assume "va < UTOP"
  then have "unat va < 0x7f400000" by (simp add: word_less_nat_alt)
  then have "unat va div 4194304 < 509" by simp
  moreover have "unat (PDX va) \<le> unat (drop_bit 22 va)"
    unfolding PDX_def by (meson word_and_le2 word_le_nat_alt)
  moreover have "unat (drop_bit 22 va) = unat va div 4194304"
    by (simp add: unat_drop_bit32)
  ultimately show ?thesis by simp
qed

lemma VPN_less: "va < UTOP \<Longrightarrow> VPN va < 0x7f400"
proof -
  assume "va < UTOP"
  then have "unat va < 0x7f400000" by (simp add: word_less_nat_alt)
  then show ?thesis by (simp add: VPN_def word_less_nat_alt unat_drop_bit32)
qed

lemma VPN_push: "v < 0x7f400 \<Longrightarrow> VPN (push_bit 12 v) = v" "v < 0x7f400 \<Longrightarrow> push_bit 12 v < UTOP"
proof -
  assume "v < 0x7f400"
  then have v: "unat v < 0x7f400" by (simp add: word_less_nat_alt)
  have u: "unat (push_bit 12 v) = 4096 * unat v"
    using v by (simp add: push_bit_eq_mult unat_word_ariths)
  show "VPN (push_bit 12 v) = v" using u
    by (simp add: VPN_def word_unat_eq_iff unat_drop_bit32)
  show "push_bit 12 v < UTOP" using u v by (simp add: word_less_nat_alt)
qed

lemma write_entry:
  assumes inv: "as_inv s D xs" and pd: "pd \<in> D" and va: "va < UTOP" and pde: "pde_ok (pw s pd (PDX va))"
    and pw': "\<And>q j. q < NPAGES \<Longrightarrow> unat j < 1024 \<Longrightarrow>
      pw s' q j = (if q = pt s pd (PDX va) \<and> j = PTX va then e else pw s q j)"
  shows "\<And>pd'. pd' \<in> D \<Longrightarrow> unat i < 1024 \<Longrightarrow> pw s' pd' i = pw s pd' i"
    and "\<And>pd'. pd' \<in> D \<Longrightarrow> unat i < 1024 \<Longrightarrow> pt s' pd' i = pt s pd' i"
    and "tables s' D = tables s D"
    and "\<And>pd' va'. pd' \<in> D \<Longrightarrow> amap s' pd' va' =
      (if pd' = pd \<and> VPN va' = VPN va then (if pde_ok e then Some e else None) else amap s pd' va')"
proof -
  let ?t = "pt s pd (PDX va)"
  have tD: "?t \<notin> D" using as_invD(8) [OF inv pd unat_PDX_less pde] .
  show pwD: "pw s' pd' i = pw s pd' i" if "pd' \<in> D" "unat i < 1024" for pd' i
    using pw' [OF as_invD(6) [OF inv that(1)] that(2)] that tD by auto
  show ptD: "pt s' pd' i = pt s pd' i" if "pd' \<in> D" "unat i < 1024" for pd' i
    using pwD [OF that] by (simp add: pt_def)
  show "tables s' D = tables s D" unfolding tables_def using pwD ptD by (auto; metis)
  fix pd' va' assume pd': "pd' \<in> D"
  let ?d = "pw s pd' (PDX va')"
  show "amap s' pd' va' =
      (if pd' = pd \<and> VPN va' = VPN va then (if pde_ok e then Some e else None) else amap s pd' va')"
  proof (cases "pde_ok ?d")
    case False
    then show ?thesis using pde pwD [OF pd' unat_PDX_less]
      by (auto simp: amap_def VPN_eq_iff)
  next
    case True
    let ?t' = "pt s pd' (PDX va')"
    have t': "?t' < NPAGES" using as_invD(7) [OF inv pd' unat_PDX_less True] .
    have same: "?t' = ?t \<longleftrightarrow> pd' = pd \<and> PDX va' = PDX va"
      using as_invD(9) [OF inv pd pd' user_PDX [OF va] unat_PDX_less pde True] by auto
    have "pw s' ?t' (PTX va') = (if pd' = pd \<and> VPN va' = VPN va then e else pw s ?t' (PTX va'))"
      using pw' [OF t' unat_PTX_less] same by (auto simp: VPN_eq_iff)
    then show ?thesis using True pwD [OF pd' unat_PDX_less] ptD [OF pd' unat_PDX_less]
      by (auto simp: amap_def VPN_eq_iff)
  qed
qed

lemma amap_VPN: "VPN a = VPN b \<Longrightarrow> amap s pd a = amap s pd b"
  by (simp add: VPN_eq_iff amap_def)

lemma uses_iff:
  assumes "pd \<in> D" "va < UTOP"
  shows "(pd, VPN va) \<in> uses s D q \<longleftrightarrow> (\<exists>e. amap s pd va = Some e \<and> pte_page e = q)"
proof -
  have "VPN (push_bit 12 (VPN va)) = VPN va" using VPN_push(1) [OF VPN_less [OF assms(2)]] .
  then have "amap s pd (push_bit 12 (VPN va)) = amap s pd va" by (rule amap_VPN)
  then show ?thesis using assms VPN_less by (simp add: uses_def)
qed

lemma uses_update:
  assumes "pd \<in> D" "va < UTOP"
    and am: "\<And>pd' va'. pd' \<in> D \<Longrightarrow> amap s' pd' va' =
      (if pd' = pd \<and> VPN va' = VPN va then r else amap s pd' va')"
  shows "uses s' D q = (if \<exists>e. r = Some e \<and> pte_page e = q then insert (pd, VPN va) (uses s D q)
      else uses s D q - {(pd, VPN va)})"
proof (rule set_eqI)
  fix x :: "nat \<times> u32"
  obtain pd' v where x: "x = (pd', v)" by (cases x)
  have mem: "(pd', v) \<in> uses s' D q \<longleftrightarrow>
      pd' \<in> D \<and> v < 0x7f400 \<and> (\<exists>e. (if pd' = pd \<and> v = VPN va then r else amap s pd' (push_bit 12 v)) = Some e \<and> pte_page e = q)"
    using am VPN_push(1) by (auto simp: uses_def)
  show "x \<in> uses s' D q \<longleftrightarrow> x \<in> (if \<exists>e. r = Some e \<and> pte_page e = q then insert (pd, VPN va) (uses s D q)
      else uses s D q - {(pd, VPN va)})"
    unfolding x mem using assms(1) VPN_less [OF assms(2)] by (auto simp: uses_def)
qed

text \<open>The invariant after one user entry was written, from the new counts and free list.\<close>

lemma as_inv_write:
  assumes inv: "as_inv s D xs" and pd: "pd \<in> D" and va: "va < UTOP" and pde: "pde_ok (pw s pd (PDX va))"
    and pw': "\<And>q j. q < NPAGES \<Longrightarrow> unat j < 1024 \<Longrightarrow>
      pw s' q j = (if q = pt s pd (PDX va) \<and> j = PTX va then e else pw s q j)"
    and np: "npage s' = npage s" and fl: "list_rep (page_free_list s') ys"
    and ys: "\<And>p. p \<in> set ys \<Longrightarrow> p < NPAGES \<and> pp_ref s' p = 0"
    and e: "pde_ok e \<Longrightarrow> pte_page e < NPAGES"
    and refs: "\<And>q. q < NPAGES \<Longrightarrow>
      card (if pde_ok e \<and> pte_page e = q then insert (pd, VPN va) (uses s D q) else uses s D q - {(pd, VPN va)})
        + (if q \<in> tables s D then 1 else 0) \<le> unat (pp_ref s' q)"
  shows "as_inv s' D ys"
proof -
  note w = write_entry [OF inv pd va pde pw']
  have am: "amap s' pd' va' = (if pd' = pd \<and> VPN va' = VPN va then (if pde_ok e then Some e else None) else amap s pd' va')"
    if "pd' \<in> D" for pd' va' using w(4) that by simp
  have us: "uses s' D q = (if pde_ok e \<and> pte_page e = q then insert (pd, VPN va) (uses s D q)
      else uses s D q - {(pd, VPN va)})" for q
    using uses_update [OF pd va am, of q] by auto
  show ?thesis
  proof (rule as_invI)
    show "pte_page e' < NPAGES" if "pd' \<in> D" "va' < UTOP" "amap s' pd' va' = Some e'" for pd' va' e'
      using that am [OF that(1)] as_invD(10) [OF inv that(1,2)] e by (auto split: if_splits)
    show "card (uses s' D q) + (if q \<in> tables s' D then 1 else 0) \<le> unat (pp_ref s' q)" if "q < NPAGES" for q
      using refs [OF that] us w(3) by simp
    show "pt s' pd' i < NPAGES" "pt s' pd' i \<notin> D" if "pd' \<in> D" "unat i < 1024" "pde_ok (pw s' pd' i)" for pd' i
      using that w(1,2) as_invD(7,8) [OF inv] by auto
    show "pd' = pd'' \<and> i = j" if "pd' \<in> D" "pd'' \<in> D" "unat i < 509" "unat j < 1024"
      "pde_ok (pw s' pd' i)" "pde_ok (pw s' pd'' j)" "pt s' pd' i = pt s' pd'' j" for pd' pd'' i j
    proof -
      have "unat i < 1024" using that(3) by simp
      then show ?thesis using that w(1,2) by (intro as_invD(9) [OF inv]) auto
    qed
  qed (use as_invD [OF inv] np fl ys in auto)
qed

section \<open>Removing a mapping\<close>

lemma mapped_ref:
  assumes "as_inv s D xs" "pd \<in> D" "va < UTOP" "amap s pd va = Some e"
  shows "0 < unat (pp_ref s (pte_page e))" "pte_page e < NPAGES" "pte_page e \<notin> set xs"
    "1 \<le> card (uses s D (pte_page e))" "(pd, VPN va) \<in> uses s D (pte_page e)"
proof -
  show q: "pte_page e < NPAGES" using as_invD(10) assms by blast
  show m: "(pd, VPN va) \<in> uses s D (pte_page e)" using uses_iff [OF assms(2,3)] assms(4) by auto
  then show c: "1 \<le> card (uses s D (pte_page e))"
    using finite_uses [OF as_invD(3) [OF assms(1)], of s "pte_page e"] by (metis One_nat_def Suc_leI card_gt_0_iff empty_iff)
  then show r: "0 < unat (pp_ref s (pte_page e))" using as_invD(11) [OF assms(1) q] by simp
  then show "pte_page e \<notin> set xs" using as_invD(5) [OF assms(1)] by auto
qed

lemma unat_dec16: "0 < unat (r :: u16) \<Longrightarrow> unat (r - 1) = unat r - 1"
  by (metis unat_eq_zero unat_minus_one less_numeral_extra(3))

lemma unat_inc16: "r \<noteq> (0xffff :: u16) \<Longrightarrow> unat (r + 1) = unat r + 1"
proof -
  assume r: "r \<noteq> 0xffff"
  have "unat r < 2 ^ 16" using unsigned_less [of r, where 'a = nat] by simp
  moreover have "unat r \<noteq> 0xffff" using r by (auto simp: word_unat_eq_iff)
  ultimately show ?thesis by (simp add: unat_word_ariths)
qed

lemma page_decref_ok:
  assumes "as_inv s D xs" "q < NPAGES" "0 < unat (pp_ref s q)"
  shows "\<exists>fl. page_decref q s = Some ((set_ref q (pp_ref s q - 1) s)\<lparr>page_free_list := fl\<rparr>) \<and>
    list_rep fl (if pp_ref s q = 1 then q # xs else xs)"
proof -
  have q: "q \<notin> set xs" using as_invD(5) [OF assms(1)] assms(3) by auto
  have z: "pp_ref s q - 1 = 0 \<longleftrightarrow> pp_ref s q = 1" by (metis diff_add_cancel eq_iff_diff_eq_0)
  have p: "pp_ref s q > 0" using assms(3) by (simp add: word_less_nat_alt)
  show ?thesis
  proof (cases "pp_ref s q = 1")
    case True
    then show ?thesis using LIST_INSERT_HEAD_rep [OF as_invD(2) [OF assms(1)] q] p
      by (auto simp: page_decref_def page_free_def set_ref_def
          intro!: exI [of _ "LIST_INSERT_HEAD q (page_free_list s)"])
  next
    case False
    then show ?thesis using as_invD(2) [OF assms(1)] p z
      by (auto simp: page_decref_def set_ref_def intro!: exI [of _ "page_free_list s"])
  qed
qed

text \<open>
  \<open>page_remove\<close> deletes the mapping, lowers the count of its page, and frees the page exactly when
  that was the last reference.
\<close>

lemma page_remove_ok:
  assumes inv: "as_inv s D xs" and pd: "pd \<in> D" and va: "va < UTOP" and m: "amap s pd va = Some e"
  defines "q \<equiv> pte_page e"
  shows "\<exists>s'. page_remove (page2addr pd) asid va s = Some s' \<and>
    as_inv s' D (if pp_ref s q = 1 then q # xs else xs) \<and>
    (\<forall>pd' \<in> D. \<forall>va'. amap s' pd' va' = (if pd' = pd \<and> VPN va' = VPN va then None else amap s pd' va')) \<and>
    (\<forall>pd' \<in> D. \<forall>i. unat i < 1024 \<longrightarrow> pw s' pd' i = pw s pd' i) \<and>
    tables s' D = tables s D \<and> pp_ref s' = (pp_ref s)(q := pp_ref s q - 1) \<and>
    (\<forall>p j. p < NPAGES \<longrightarrow> unat j < 1024 \<longrightarrow> p \<notin> tables s D \<longrightarrow> pw s' p j = pw s p j)"
proof -
  note mr = mapped_ref [OF inv pd va m, folded q_def]
  have pde: "pde_ok (pw s pd (PDX va))" using m by (auto simp: amap_def split: if_splits)
  let ?t = "pt s pd (PDX va)"
  have t: "?t < NPAGES" using as_invD(7) [OF inv pd unat_PDX_less pde] .
  from page_decref_ok [OF inv mr(2,1)] obtain fl where
    dec: "page_decref q s = Some ((set_ref q (pp_ref s q - 1) s)\<lparr>page_free_list := fl\<rparr>)"
    and fl: "list_rep fl (if pp_ref s q = 1 then q # xs else xs)" by blast
  let ?s1 = "(set_ref q (pp_ref s q - 1) s)\<lparr>page_free_list := fl\<rparr>"
  let ?s' = "SET_TLB_FLUSH va asid 0 (kstore32 (slot ?t (PTX va)) 0 ?s1)"
  have rm: "page_remove (page2addr pd) asid va s = Some ?s'"
    using page_lookup_amap [OF inv pd, of va] m mr(2) dec by (simp add: page_remove_def q_def)
  have pw': "pw ?s' p j = (if p = ?t \<and> j = PTX va then 0 else pw s p j)" if "p < NPAGES" "unat j < 1024" for p j
    using pw_kstore32 [OF t that(1) unat_PTX_less that(2), of va 0 ?s1] by auto
  have refs: "pp_ref ?s' = (pp_ref s)(q := pp_ref s q - 1)" by simp
  have fin: "finite (uses s D p)" for p using finite_uses [OF as_invD(3) [OF inv]] .
  have inv': "as_inv ?s' D (if pp_ref s q = 1 then q # xs else xs)"
  proof (rule as_inv_write [OF inv pd va pde pw'])
    show "list_rep (page_free_list ?s') (if pp_ref s q = 1 then q # xs else xs)" using fl by simp
    show "p < NPAGES \<and> pp_ref ?s' p = 0" if "p \<in> set (if pp_ref s q = 1 then q # xs else xs)" for p
      using that mr(2,3) as_invD(4,5) [OF inv] by (auto split: if_splits)
    fix p assume p: "p < NPAGES"
    have "card (uses s D p - {(pd, VPN va)}) + (if p \<in> tables s D then 1 else 0) \<le> unat (pp_ref ?s' p)"
    proof (cases "p = q")
      case True
      then show ?thesis using as_invD(11) [OF inv p] mr(1,4,5) unat_dec16 [OF mr(1)]
        by (simp add: card_Diff_singleton)
    next
      case False
      then have "card (uses s D p - {(pd, VPN va)}) \<le> card (uses s D p)"
        using fin by (intro card_mono) auto
      then show ?thesis using as_invD(11) [OF inv p] False by (simp split: if_splits)
    qed
    then show "card (if pde_ok 0 \<and> pte_page 0 = p then insert (pd, VPN va) (uses s D p)
         else uses s D p - {(pd, VPN va)}) + (if p \<in> tables s D then 1 else 0) \<le> unat (pp_ref ?s' p)" by simp
  qed simp_all
  note w = write_entry [OF inv pd va pde pw']
  have data: "pw ?s' p j = pw s p j" if "p < NPAGES" "unat j < 1024" "p \<notin> tables s D" for p j
    using pw' [OF that(1,2)] pt_in_tables [OF pd unat_PDX_less pde] that(3) by auto
  show ?thesis
    by (rule exI [of _ ?s'], intro conjI rm inv' refs w(3)) (use w(1,4) data in auto)
qed

lemma page_remove_unmapped:
  "as_inv s D xs \<Longrightarrow> pd \<in> D \<Longrightarrow> amap s pd va = None \<Longrightarrow> page_remove (page2addr pd) asid va s = Some s"
  by (simp add: page_remove_def page_lookup_amap)

section \<open>Linking a new table\<close>

text \<open>
  What an insertion at index \<open>i\<close> of directory \<open>pd\<close> does to the directories of \<open>D\<close>: at most the entry \<open>i\<close> of
  \<open>pd\<close>, if it was missing, gets a table.
\<close>

definition dirs_step :: "nat set \<Rightarrow> nat \<Rightarrow> u32 \<Rightarrow> 'z pmap_st_scheme \<Rightarrow> 'z pmap_st_scheme \<Rightarrow> bool" where
  "dirs_step D pd i s s' \<longleftrightarrow> pde_ok (pw s' pd i) \<and>
     (\<forall>pd' \<in> D. \<forall>j. unat j < 1024 \<longrightarrow> pw s' pd' j = pw s pd' j \<or> pd' = pd \<and> j = i \<and> \<not> pde_ok (pw s pd i))"

lemma dirs_step_keep:
  "dirs_step D pd i s s' \<Longrightarrow> pd' \<in> D \<Longrightarrow> unat j < 1024 \<Longrightarrow> pde_ok (pw s pd' j) \<Longrightarrow> pw s' pd' j = pw s pd' j"
  by (auto simp: dirs_step_def)

lemma page2ptx_V: "page2ptx f OR PTE_V = mk_pte f 0"
  by (simp add: mk_pte_def)

text \<open>
  \<open>pgdir_walk\<close> with \<open>create\<close> set, on an address without a table: the first free page becomes the table.
  No page map changes.
\<close>

lemma link_table:
  assumes inv: "as_inv s D (f # xs)" and pd: "pd \<in> D" and va: "va < UTOP"
    and no: "\<not> pde_ok (pw s pd (PDX va))"
  shows "\<exists>s'. pgdir_walk (page2addr pd) va 1 s = Some (Inr (slot f (PTX va)), s') \<and>
    as_inv s' D xs \<and> pde_ok (pw s' pd (PDX va)) \<and> pt s' pd (PDX va) = f \<and>
    (\<forall>pd' \<in> D. \<forall>va'. amap s' pd' va' = amap s pd' va') \<and> pp_ref s' = (pp_ref s)(f := 1) \<and>
    dirs_step D pd (PDX va) s s' \<and> tables s' D \<subseteq> insert f (tables s D) \<and> f < NPAGES \<and> pp_ref s f = 0 \<and>
    (\<forall>q j. q < NPAGES \<longrightarrow> unat j < 1024 \<longrightarrow> q \<notin> tables s D \<longrightarrow> q \<noteq> f \<longrightarrow> pw s' q j = pw s q j)"
proof -
  obtain fl where al: "page_alloc s = Some (Inr f, alloced f fl s)" "as_inv (alloced f fl s) D xs"
    "\<And>pd va. pd \<in> D \<Longrightarrow> amap (alloced f fl s) pd va = amap s pd va"
    "tables (alloced f fl s) D = tables s D" "\<And>q. uses (alloced f fl s) D q = uses s D q"
    "f \<notin> set xs" "f < NPAGES" "pp_ref s f = 0" "f \<notin> tables s D" "uses s D f = {}"
    using page_alloc_ok [OF inv] by blast
  let ?s1 = "alloced f fl s"
  let ?s' = "set_ref f 1 (kstore32 (slot pd (PDX va)) (mk_pte f 0) ?s1)"
  note pdN = as_invD(6) [OF inv pd]
  have fD: "f \<notin> D" using al(9) by (auto simp: tables_def)
  have pw1: "pw ?s1 q j = (if f = q then 0 else pw s q j)" if "q < NPAGES" "unat j < 1024" for q j
    using pw_alloced [OF al(7) that] .
  have pw': "pw ?s' q j = (if q = pd \<and> j = PDX va then mk_pte f 0 else pw ?s1 q j)" if "q < NPAGES" "unat j < 1024" for q j
    using pw_kstore32 [OF pdN that(1) unat_PDX_less that(2), of va "mk_pte f 0" ?s1] by auto
  have new: "pw ?s' pd (PDX va) = mk_pte f 0" using pw' [OF pdN unat_PDX_less] by simp
  have pt_new: "pt ?s' pd (PDX va) = f" using new al(7) by (simp add: pt_def pte_page_mk_pte)
  have old: "pw ?s' pd' i = pw ?s1 pd' i" "pt ?s' pd' i = pt ?s1 pd' i" "pw ?s1 pd' i = pw s pd' i"
    "pt ?s1 pd' i = pt s pd' i"
    if "pd' \<in> D" "unat i < 1024" "\<not> (pd' = pd \<and> i = PDX va)" for pd' i
    using pw' [OF as_invD(6) [OF inv that(1)] that(2)] pw1 [OF as_invD(6) [OF inv that(1)] that(2)] that fD
    by (auto simp: pt_def)
  have oldt: "pt s pd' i \<noteq> f" "pt s pd' i < NPAGES" "pt s pd' i \<notin> D"
    if "pd' \<in> D" "unat i < 1024" "pde_ok (pw s pd' i)" for pd' i
    using pt_in_tables [OF that] al(9) as_invD(7,8) [OF inv that] by auto
  have am: "amap ?s' pd' va' = amap s pd' va'" if d: "pd' \<in> D" for pd' va'
  proof (cases "pd' = pd \<and> PDX va' = PDX va")
    case True
    have "f \<noteq> pd" using fD pd by auto
    then have "pw ?s' f (PTX va') = 0" using pw' [OF al(7) unat_PTX_less] pw1 [OF al(7) unat_PTX_less] by simp
    then show ?thesis using True no new pt_new by (simp add: amap_def)
  next
    case False
    have "pw ?s' (pt s pd' (PDX va')) (PTX va') = pw s (pt s pd' (PDX va')) (PTX va')" if "pde_ok (pw s pd' (PDX va'))"
      using pw' [OF oldt(2) [OF d unat_PDX_less that] unat_PTX_less]
        pw1 [OF oldt(2) [OF d unat_PDX_less that] unat_PTX_less] oldt [OF d unat_PDX_less that] pd by auto
    then show ?thesis using old [OF d unat_PDX_less False] by (auto simp: amap_def)
  qed
  have us: "uses ?s' D q = uses s D q" for q using am by (auto simp: uses_def)
  have tab: "tables ?s' D \<subseteq> insert f (tables s D)"
  proof
    fix q assume "q \<in> tables ?s' D"
    then consider "q \<in> D" | pd' i where "pd' \<in> D" "unat i < 1024" "pde_ok (pw ?s' pd' i)" "q = pt ?s' pd' i"
      by (auto simp: tables_def)
    then show "q \<in> insert f (tables s D)"
    proof cases
      case 2
      show ?thesis
      proof (cases "pd' = pd \<and> i = PDX va")
        case False
        then show ?thesis using 2 old [OF 2(1,2) False] pt_in_tables [OF 2(1,2), of s] by auto
      qed (use 2 pt_new in auto)
    qed (simp add: dir_in_tables)
  qed
  have inv': "as_inv ?s' D xs"
  proof (rule as_invI)
    show "list_rep (page_free_list ?s') xs" using as_invD(2) [OF al(2)] by simp
    show "pp_ref ?s' p = 0" if "p \<in> set xs" for p using as_invD(5) [OF al(2) that] that al(6) by auto
    show "pt ?s' pd' i < NPAGES" "pt ?s' pd' i \<notin> D" if "pd' \<in> D" "unat i < 1024" "pde_ok (pw ?s' pd' i)" for pd' i
      using that old [OF that(1,2)] oldt [OF that(1,2)] pt_new al(7) fD by (cases "pd' = pd \<and> i = PDX va"; auto)+
    show "pd1 = pd2 \<and> i = j" if a: "pd1 \<in> D" "pd2 \<in> D" "unat i < 509" "unat j < 1024"
      "pde_ok (pw ?s' pd1 i)" "pde_ok (pw ?s' pd2 j)" "pt ?s' pd1 i = pt ?s' pd2 j" for pd1 pd2 i j
    proof -
      have i: "unat i < 1024" using a(3) by simp
      show ?thesis
        using a i old [OF a(1) i] old [OF a(2,4)] oldt(1) [OF a(1) i] oldt(1) [OF a(2,4)] pt_new as_invD(9) [OF inv a(1,2,3,4)]
        by (cases "pd1 = pd \<and> i = PDX va"; cases "pd2 = pd \<and> j = PDX va"; auto)
    qed
    show "pte_page e < NPAGES" if "pd' \<in> D" "va' < UTOP" "amap ?s' pd' va' = Some e" for pd' va' e
      using that am as_invD(10) [OF inv] by auto
    show "card (uses ?s' D q) + (if q \<in> tables ?s' D then 1 else 0) \<le> unat (pp_ref ?s' q)" if q: "q < NPAGES" for q
      using as_invD(11) [OF inv q] us [of q] tab al(10) by (cases "q = f") (auto split: if_splits)
  qed (use as_invD [OF al(2)] in auto)
  have "pgdir_walk (page2addr pd) va 1 s = Some (Inr (slot f (PTX va)), ?s')"
    using no al(1,8) new pt_new walk_entry [of ?s' pd va]
    by (simp add: pgdir_walk_def Let_def kload32_pw pde_ok_def page2ptx_V slot_def [symmetric])
  moreover have "pw ?s' q j = pw s q j" if "q < NPAGES" "unat j < 1024" "q \<notin> tables s D" "q \<noteq> f" for q j
    using pw' [OF that(1,2)] pw1 [OF that(1,2)] dir_in_tables [OF pd, of s] that(3,4) by auto
  moreover have "dirs_step D pd (PDX va) s ?s'" using no new old(1,3) unfolding dirs_step_def by (metis pde_ok_mk_pte)
  ultimately show ?thesis using inv' new pt_new am al(7,8) tab by (intro exI [of _ ?s']) auto
qed

section \<open>Inserting a mapping\<close>

text \<open>A TLB flush is invisible to the page maps and the invariant.\<close>

lemma flush_frames [simp]:
  "amap (SET_TLB_FLUSH a b c s) = amap s" "as_inv (SET_TLB_FLUSH a b c s) D xs = as_inv s D xs"
  "pt (SET_TLB_FLUSH a b c s) = pt s" "tables (SET_TLB_FLUSH a b c s) = tables s"
  by (simp_all add: fun_eq_iff amap_def pt_def as_inv_def tables_def uses_def)

lemma dirs_step_flush:
  "dirs_step D pd i (SET_TLB_FLUSH a b c s) s' = dirs_step D pd i s s'"
  "dirs_step D pd i s (SET_TLB_FLUSH a b c s') = dirs_step D pd i s s'"
  by (simp_all add: dirs_step_def)

lemma dirs_step_trans:
  "dirs_step D pd i s s1 \<Longrightarrow> dirs_step D pd i s1 s' \<Longrightarrow> pd \<in> D \<Longrightarrow> unat i < 1024 \<Longrightarrow> dirs_step D pd i s s'"
  unfolding dirs_step_def by metis

text \<open>Storing an entry for page \<open>pp\<close> and counting it, where the address was not mapped.\<close>

lemma add_entry:
  assumes inv: "as_inv s D xs" and pd: "pd \<in> D" and va: "va < UTOP" and pde: "pde_ok (pw s pd (PDX va))"
    and un: "amap s pd va = None" and pp: "pp < NPAGES" "pp \<notin> set xs" "pp_ref s pp \<noteq> 0xffff" and perm: "perm_ok perm"
  defines "s' \<equiv> set_ref pp (pp_ref s pp + 1) (kstore32 (slot (pt s pd (PDX va)) (PTX va)) (mk_pte pp perm) s)"
  shows "as_inv s' D xs"
    "\<And>pd' va'. pd' \<in> D \<Longrightarrow> amap s' pd' va' = (if pd' = pd \<and> VPN va' = VPN va then Some (mk_pte pp perm) else amap s pd' va')"
    "\<And>q j. q < NPAGES \<Longrightarrow> unat j < 1024 \<Longrightarrow> q \<noteq> pt s pd (PDX va) \<Longrightarrow> pw s' q j = pw s q j"
    "dirs_step D pd (PDX va) s s'" "tables s' D = tables s D"
proof -
  let ?t = "pt s pd (PDX va)"
  have t: "?t < NPAGES" using as_invD(7) [OF inv pd unat_PDX_less pde] .
  have pw': "pw s' q j = (if q = ?t \<and> j = PTX va then mk_pte pp perm else pw s q j)" if "q < NPAGES" "unat j < 1024" for q j
    using pw_kstore32 [OF t that(1) unat_PTX_less that(2), of va "mk_pte pp perm" s] by (auto simp: s'_def)
  show "tables s' D = tables s D" using write_entry(3) [OF inv pd va pde pw'] .
  show "dirs_step D pd (PDX va) s s'"
    using write_entry(1) [OF inv pd va pde pw'] pd pde unat_PDX_less [of va] by (auto simp: dirs_step_def)
  show "pw s' q j = pw s q j" if "q < NPAGES" "unat j < 1024" "q \<noteq> ?t" for q j
    using pw' [OF that(1,2)] that(3) by simp
  show "amap s' pd' va' = (if pd' = pd \<and> VPN va' = VPN va then Some (mk_pte pp perm) else amap s pd' va')"
    if "pd' \<in> D" for pd' va'
    using write_entry(4) [OF inv pd va pde pw' that, of va'] by simp
  have no: "(pd, VPN va) \<notin> uses s D q" for q using uses_iff [OF pd va, of s q] un by simp
  have fin: "finite (uses s D q)" for q using finite_uses [OF as_invD(3) [OF inv]] .
  show "as_inv s' D xs"
  proof (rule as_inv_write [OF inv pd va pde pw'])
    show "p < NPAGES \<and> pp_ref s' p = 0" if "p \<in> set xs" for p
      using that pp(2) as_invD(4,5) [OF inv that] by (auto simp: s'_def)
    show "pte_page (mk_pte pp perm) < NPAGES" using pp(1) perm by (simp add: pte_page_mk_pte)
    fix q assume q: "q < NPAGES"
    show "card (if pde_ok (mk_pte pp perm) \<and> pte_page (mk_pte pp perm) = q then insert (pd, VPN va) (uses s D q)
         else uses s D q - {(pd, VPN va)}) + (if q \<in> tables s D then 1 else 0) \<le> unat (pp_ref s' q)"
      using as_invD(11) [OF inv q] no [of q] fin [of q] unat_inc16 [OF pp(3)] pp(1) perm
      by (auto simp: s'_def pte_page_mk_pte split: if_splits)
  qed (use as_invD(2) [OF inv] in \<open>auto simp: s'_def\<close>)
qed

lemma walk_create:
  assumes "pde_ok (pw s pd (PDX va))"
  shows "pgdir_walk (page2addr pd) va c s = Some (Inr (slot (pt s pd (PDX va)) (PTX va)), s)"
  using assms by (simp add: pgdir_walk_def Let_def kload32_pw walk_entry pde_ok_def)

lemma page_insert_new_ok:
  assumes inv: "as_inv s D xs" and pd: "pd \<in> D" and va: "va < UTOP" and un: "amap s pd va = None"
    and pp: "pp < NPAGES" "pp \<notin> set xs" "pp_ref s pp \<noteq> 0xffff" and perm: "perm_ok perm"
    and room: "pde_ok (pw s pd (PDX va)) \<or> xs \<noteq> []"
  shows "\<exists>s'. page_insert_new (page2addr pd) asid pp va perm s = Some (Inr (), s') \<and>
    as_inv s' D (if pde_ok (pw s pd (PDX va)) then xs else tl xs) \<and> dirs_step D pd (PDX va) s s' \<and>
    tables s' D \<subseteq> tables s D \<union> (if pde_ok (pw s pd (PDX va)) then {} else set xs) \<and>
    (\<forall>pd' \<in> D. \<forall>va'. amap s' pd' va' = (if pd' = pd \<and> VPN va' = VPN va then Some (mk_pte pp perm) else amap s pd' va')) \<and>
    pp_ref s' pp = pp_ref s pp + 1 \<and> (\<forall>q. q \<noteq> pp \<longrightarrow> q \<notin> set xs \<longrightarrow> pp_ref s' q = pp_ref s q) \<and>
    (\<forall>q j. q < NPAGES \<longrightarrow> unat j < 1024 \<longrightarrow> q \<notin> tables s D \<longrightarrow> q \<notin> set xs \<longrightarrow> pw s' q j = pw s q j)"
proof (cases "pde_ok (pw s pd (PDX va))")
  case True
  let ?s = "SET_TLB_FLUSH va asid 0 s"
  have "as_inv ?s D xs" "pde_ok (pw ?s pd (PDX va))" "amap ?s pd va = None" "pp_ref ?s pp \<noteq> 0xffff"
    using inv True un pp(3) by auto
  note ae = add_entry [OF this(1) pd va this(2,3) pp(1,2) this(4) perm]
  have "q \<noteq> pt s pd (PDX va)" if "q \<notin> tables s D" for q using pt_in_tables [OF pd unat_PDX_less True] that by auto
  then show ?thesis using True ae walk_create [of ?s pd va 1]
    by (simp add: dirs_step_flush page_insert_new_def Let_def flip: mk_pte_def)
next
  case False
  then obtain f ys where xs: "xs = f # ys" using room by (cases xs) auto
  let ?s = "SET_TLB_FLUSH va asid 0 s"
  have "as_inv ?s D (f # ys)" "\<not> pde_ok (pw ?s pd (PDX va))" using inv False xs by auto
  from link_table [OF this(1) pd va this(2)] obtain s1 where
    walk: "pgdir_walk (page2addr pd) va 1 ?s = Some (Inr (slot f (PTX va)), s1)"
    and s1: "as_inv s1 D ys" "pde_ok (pw s1 pd (PDX va))" "pt s1 pd (PDX va) = f"
      "\<And>pd' va'. pd' \<in> D \<Longrightarrow> amap s1 pd' va' = amap s pd' va'" "pp_ref s1 = (pp_ref s)(f := 1)"
      "\<And>q j. q < NPAGES \<Longrightarrow> unat j < 1024 \<Longrightarrow> q \<notin> tables ?s D \<Longrightarrow> q \<noteq> f \<Longrightarrow> pw s1 q j = pw s q j"
      "dirs_step D pd (PDX va) ?s s1" "tables s1 D \<subseteq> insert f (tables s D)"
    by auto
  have tab: "tables s1 D \<subseteq> insert f (tables s D \<union> set ys)" using s1(8) by auto
  have pp': "pp \<notin> set ys" "pp \<noteq> f" "pp_ref s1 pp \<noteq> 0xffff" using pp xs s1(5) by auto
  have un': "amap s1 pd va = None" using s1(4) [OF pd] un by simp
  note ae = add_entry [OF s1(1) pd va s1(2) un' pp(1) pp'(1,3) perm]
  then show ?thesis using False walk s1(1-7) tab pp' xs dirs_step_trans [OF s1(7) ae(4) pd unat_PDX_less]
    by (simp add: dirs_step_flush page_insert_new_def Let_def flip: mk_pte_def)
qed

lemma page_insert_unmapped:
  assumes "as_inv s D xs" "pd \<in> D" "amap s pd va = None"
  shows "page_insert (page2addr pd) asid pp va perm s = page_insert_new (page2addr pd) asid pp va perm s"
  using assms(3) by (auto simp: page_insert_def pgdir_walk_no_create amap_def kload32_pw pde_ok_def split: if_splits)

lemma page_insert_mapped:
  assumes inv: "as_inv s D xs" and pd: "pd \<in> D" and e: "amap s pd va = Some e" "pte_page e < NPAGES"
  shows "page_insert (page2addr pd) asid pp va perm s =
    (if pte_page e \<noteq> pp
     then do { s \<leftarrow> page_remove (page2addr pd) asid va s; page_insert_new (page2addr pd) asid pp va perm s }
     else Some (Inr (), kstore32 (slot (pt s pd (PDX va)) (PTX va)) (mk_pte pp perm) (SET_TLB_FLUSH va asid 0 s)))"
proof -
  have pde: "pde_ok (pw s pd (PDX va))" "pde_ok (pw s (pt s pd (PDX va)) (PTX va))"
    "pw s (pt s pd (PDX va)) (PTX va) = e" using e by (auto simp: amap_def split: if_splits)
  have "slot (pt s pd (PDX va)) (PTX va) \<noteq> 0"
    using as_invD(7) [OF inv pd unat_PDX_less pde(1)] slot_nonzero unat_PTX_less by blast
  then show ?thesis using pde as_invD(1) [OF inv] e(2) addr2page_pte [of s e]
    by (simp add: page_insert_def walk_create kload32_pw PADDR_PTE_ADDR pde_ok_def flip: mk_pte_def)
qed

text \<open>Remapping the page that is already there only changes the flags.\<close>

lemma replace_entry:
  fixes asid :: u32
  assumes inv: "as_inv s D xs" and pd: "pd \<in> D" and va: "va < UTOP" and e: "amap s pd va = Some e"
    and perm: "perm_ok perm"
  defines "pp \<equiv> pte_page e"
  defines "s' \<equiv> kstore32 (slot (pt s pd (PDX va)) (PTX va)) (mk_pte pp perm) (SET_TLB_FLUSH va asid 0 s)"
  shows "as_inv s' D xs"
    "\<And>pd' va'. pd' \<in> D \<Longrightarrow> amap s' pd' va' = (if pd' = pd \<and> VPN va' = VPN va then Some (mk_pte pp perm) else amap s pd' va')"
    "\<And>q j. q < NPAGES \<Longrightarrow> unat j < 1024 \<Longrightarrow> q \<notin> tables s D \<Longrightarrow> pw s' q j = pw s q j"
    "dirs_step D pd (PDX va) s s'" "tables s' D = tables s D"
proof -
  let ?t = "pt s pd (PDX va)"
  have pde: "pde_ok (pw s pd (PDX va))" using e by (auto simp: amap_def split: if_splits)
  have t: "?t < NPAGES" using as_invD(7) [OF inv pd unat_PDX_less pde] .
  note mr = mapped_ref [OF inv pd va e, folded pp_def]
  have pw': "pw s' q j = (if q = ?t \<and> j = PTX va then mk_pte pp perm else pw s q j)" if "q < NPAGES" "unat j < 1024" for q j
    using pw_kstore32 [OF t that(1) unat_PTX_less that(2), of va "mk_pte pp perm" "SET_TLB_FLUSH va asid 0 s"]
    by (auto simp: s'_def)
  show "dirs_step D pd (PDX va) s s'"
    using write_entry(1) [OF inv pd va pde pw'] pd pde unat_PDX_less [of va] by (auto simp: dirs_step_def)
  show "tables s' D = tables s D" using write_entry(3) [OF inv pd va pde pw'] .
  show "pw s' q j = pw s q j" if "q < NPAGES" "unat j < 1024" "q \<notin> tables s D" for q j
    using pw' [OF that(1,2)] pt_in_tables [OF pd unat_PDX_less pde] that(3) by auto
  show "amap s' pd' va' = (if pd' = pd \<and> VPN va' = VPN va then Some (mk_pte pp perm) else amap s pd' va')"
    if "pd' \<in> D" for pd' va'
    using write_entry(4) [OF inv pd va pde pw' that, of va'] by simp
  have other: "(pd, VPN va) \<notin> uses s D q" if "q \<noteq> pp" for q
    using uses_iff [OF pd va, of s q] e that by (simp add: pp_def)
  show "as_inv s' D xs"
  proof (rule as_inv_write [OF inv pd va pde pw'])
    fix q assume q: "q < NPAGES"
    show "card (if pde_ok (mk_pte pp perm) \<and> pte_page (mk_pte pp perm) = q then insert (pd, VPN va) (uses s D q)
         else uses s D q - {(pd, VPN va)}) + (if q \<in> tables s D then 1 else 0) \<le> unat (pp_ref s' q)"
      using as_invD(11) [OF inv q] other [of q] mr(2,5) perm
      by (cases "q = pp") (auto simp: s'_def pte_page_mk_pte insert_absorb split: if_splits)
  qed (use as_invD(2,4,5) [OF inv] mr(2) perm in \<open>auto simp: s'_def pte_page_mk_pte\<close>)
qed

definition ref_after :: "nat option \<Rightarrow> nat \<Rightarrow> 'z pmap_st_scheme \<Rightarrow> nat \<Rightarrow> u16" where
  "ref_after old pp s q =
     (if old = Some pp then pp_ref s q
      else if q = pp then pp_ref s q + 1
      else if Some q = old then pp_ref s q - 1 else pp_ref s q)"

theorem page_insert_ok:
  assumes inv: "as_inv s D xs" and pd: "pd \<in> D" and va: "va < UTOP"
    and pp: "pp < NPAGES" "pp \<notin> set xs" "pp_ref s pp \<noteq> 0xffff" and perm: "perm_ok perm"
    and room: "pde_ok (pw s pd (PDX va)) \<or> xs \<noteq> []"
  defines "old \<equiv> map_option pte_page (amap s pd va)"
  shows "\<exists>s' ys. page_insert (page2addr pd) asid pp va perm s = Some (Inr (), s') \<and>
    as_inv s' D ys \<and> set ys \<subseteq> set xs \<union> set_option old \<and> pp \<notin> set ys \<and> dirs_step D pd (PDX va) s s' \<and>
    tables s' D \<subseteq> tables s D \<union> set xs \<and>
    length xs \<le> length ys + (if pde_ok (pw s pd (PDX va)) then 0 else 1) \<and>
    (\<forall>pd' \<in> D. \<forall>va'. amap s' pd' va' = (if pd' = pd \<and> VPN va' = VPN va then Some (mk_pte pp perm) else amap s pd' va')) \<and>
    (\<forall>q. q \<notin> set xs \<longrightarrow> pp_ref s' q = ref_after old pp s q) \<and>
    (\<forall>q j. q < NPAGES \<longrightarrow> unat j < 1024 \<longrightarrow> q \<notin> tables s D \<longrightarrow> q \<notin> set xs \<union> set ys \<longrightarrow> pw s' q j = pw s q j)"
proof (cases "amap s pd va")
  case None
  from page_insert_new_ok [OF inv pd va None pp perm room, of asid] obtain s' where
    s': "page_insert_new (page2addr pd) asid pp va perm s = Some (Inr (), s')"
    "as_inv s' D (if pde_ok (pw s pd (PDX va)) then xs else tl xs)"
    "\<And>pd' va'. pd' \<in> D \<Longrightarrow> amap s' pd' va' = (if pd' = pd \<and> VPN va' = VPN va then Some (mk_pte pp perm) else amap s pd' va')"
    "pp_ref s' pp = pp_ref s pp + 1" "\<And>q. q \<noteq> pp \<Longrightarrow> q \<notin> set xs \<Longrightarrow> pp_ref s' q = pp_ref s q"
    "\<And>q j. q < NPAGES \<Longrightarrow> unat j < 1024 \<Longrightarrow> q \<notin> tables s D \<Longrightarrow> q \<notin> set xs \<Longrightarrow> pw s' q j = pw s q j"
    "dirs_step D pd (PDX va) s s'" "tables s' D \<subseteq> tables s D \<union> (if pde_ok (pw s pd (PDX va)) then {} else set xs)" by blast
  have "set (tl xs) \<subseteq> set xs" by (cases xs) auto
  then show ?thesis using s' None page_insert_unmapped [OF inv pd None] pp(2)
    by (intro exI [of _ s'] exI [of _ "if pde_ok (pw s pd (PDX va)) then xs else tl xs"])
      (auto simp: old_def ref_after_def)
next
  case (Some e)
  let ?q = "pte_page e"
  note mr = mapped_ref [OF inv pd va Some]
  have pde: "pde_ok (pw s pd (PDX va))" using Some by (auto simp: amap_def split: if_splits)
  show ?thesis
  proof (cases "?q = pp")
    case True
    then show ?thesis
      using replace_entry [OF inv pd va Some perm, where asid = asid] page_insert_mapped [OF inv pd Some mr(2)] pp(2) Some
      by (intro exI conjI) (auto simp: old_def ref_after_def)
  next
    case False
    let ?ys = "if pp_ref s ?q = 1 then ?q # xs else xs"
    from page_remove_ok [OF inv pd va Some, of asid] obtain s1 where
      s1: "page_remove (page2addr pd) asid va s = Some s1" "as_inv s1 D ?ys"
        "\<And>pd' va'. pd' \<in> D \<Longrightarrow> amap s1 pd' va' = (if pd' = pd \<and> VPN va' = VPN va then None else amap s pd' va')"
        "\<And>pd' i. pd' \<in> D \<Longrightarrow> unat i < 1024 \<Longrightarrow> pw s1 pd' i = pw s pd' i" "pp_ref s1 = (pp_ref s)(?q := pp_ref s ?q - 1)" "tables s1 D = tables s D"
        "\<forall>p j. p < NPAGES \<longrightarrow> unat j < 1024 \<longrightarrow> p \<notin> tables s D \<longrightarrow> pw s1 p j = pw s p j"
      by blast
    have "amap s1 pd va = None" "pp \<notin> set ?ys" "pp_ref s1 pp \<noteq> 0xffff" "pde_ok (pw s1 pd (PDX va))"
      using s1(3) [OF pd] s1(4) [OF pd unat_PDX_less [of va]] s1(5) pp False pde by auto
    from page_insert_new_ok [OF s1(2) pd va this(1) pp(1) this(2,3) perm, of asid] this(4) obtain s' where
      s': "page_insert_new (page2addr pd) asid pp va perm s1 = Some (Inr (), s')" "as_inv s' D ?ys"
        "\<And>pd' va'. pd' \<in> D \<Longrightarrow> amap s' pd' va' = (if pd' = pd \<and> VPN va' = VPN va then Some (mk_pte pp perm) else amap s1 pd' va')"
        "pp_ref s' pp = pp_ref s1 pp + 1" "\<And>q. q \<noteq> pp \<Longrightarrow> q \<notin> set ?ys \<Longrightarrow> pp_ref s' q = pp_ref s1 q"
        "\<And>q j. q < NPAGES \<Longrightarrow> unat j < 1024 \<Longrightarrow> q \<notin> tables s1 D \<Longrightarrow> q \<notin> set ?ys \<Longrightarrow> pw s' q j = pw s1 q j"
        "dirs_step D pd (PDX va) s1 s'" "tables s' D \<subseteq> tables s1 D" by auto
    have "dirs_step D pd (PDX va) s s1" using s1(4) pd pde unat_PDX_less [of va] by (auto simp: dirs_step_def)
    from dirs_step_trans [OF this s'(7) pd unat_PDX_less]
    have st: "dirs_step D pd (PDX va) s s'" .
    have "pp_ref s' ?q = pp_ref s ?q - 1"
      using s'(5) [of ?q] as_invD(5) [OF s'(2), of ?q] s1(5) False mr(3) by (cases "pp_ref s ?q = 1") auto
    then show ?thesis
      using s' s1 st pde False pp(2) page_insert_mapped [OF inv pd Some mr(2), of asid pp perm] Some
      by (intro exI [of _ s'] exI [of _ ?ys]) (auto simp: old_def ref_after_def)
  qed
qed

lemma page_insert_no_mem:
  assumes "as_inv s D []" "pd \<in> D" "\<not> pde_ok (pw s pd (PDX va))"
  shows "page_insert (page2addr pd) asid pp va perm s = Some (Inl E_NO_MEM, SET_TLB_FLUSH va asid 0 s)"
proof -
  let ?s = "SET_TLB_FLUSH va asid 0 s"
  have "page_alloc ?s = Some (Inl E_NO_MEM, ?s)" using page_alloc_empty [of ?s D] assms(1) by simp
  then have "pgdir_walk (page2addr pd) va 1 ?s = Some (Inl E_NO_MEM, ?s)"
    using assms(3) by (simp add: pgdir_walk_def Let_def kload32_pw pde_ok_def)
  moreover have "amap s pd va = None" using assms(3) by (simp add: amap_def)
  ultimately show ?thesis using page_insert_unmapped [OF assms(1,2)] by (simp add: page_insert_new_def)
qed

section \<open>The interface of an address-space manager\<close>

text \<open>
  What the callers of \<open>page_insert\<close> and \<open>page_remove\<close> rely on: a family of partial maps, one per
  directory, in which an operation changes one point. \<open>room\<close> is the precondition of an insertion.
\<close>

datatype ('d, 'a, 'p, 'r) map_op = Insert 'd 'a 'p | Remove 'd 'a 'r

fun op_dir :: "('d, 'a, 'p, 'r) map_op \<Rightarrow> 'd" where
  "op_dir (Insert d a p) = d"
| "op_dir (Remove d a r) = d"

fun op_exec :: "('d \<Rightarrow> 'a \<Rightarrow> 'p \<Rightarrow> 's \<Rightarrow> 's option) \<Rightarrow> ('d \<Rightarrow> 'a \<Rightarrow> 'r \<Rightarrow> 's \<Rightarrow> 's option) \<Rightarrow>
  ('d, 'a, 'p, 'r) map_op \<Rightarrow> 's \<Rightarrow> 's option" where
  "op_exec ins rem (Insert d a p) s = ins d a p s"
| "op_exec ins rem (Remove d a r) s = rem d a r s"

fun op_legal :: "'d set \<Rightarrow> ('a \<Rightarrow> bool) \<Rightarrow> ('s \<Rightarrow> 'd \<Rightarrow> 'a \<Rightarrow> 'p \<Rightarrow> bool) \<Rightarrow> 's \<Rightarrow> ('d, 'a, 'p, 'r) map_op \<Rightarrow> bool" where
  "op_legal dirs usr room s (Insert d a p) \<longleftrightarrow> d \<in> dirs \<and> usr a \<and> room s d a p"
| "op_legal dirs usr room s (Remove d a r) \<longleftrightarrow> d \<in> dirs \<and> usr a"

text \<open>A sequence of legal operations, one after the other.\<close>

inductive op_runs :: "('s \<Rightarrow> 'o \<Rightarrow> bool) \<Rightarrow> ('o \<Rightarrow> 's \<Rightarrow> 's option) \<Rightarrow> 's \<Rightarrow> 'o list \<Rightarrow> 's \<Rightarrow> bool"
  for legal exec where
  runs_nil: "op_runs legal exec s [] s"
| runs_cons: "legal s x \<Longrightarrow> exec x s = Some s1 \<Longrightarrow> op_runs legal exec s1 xs s2 \<Longrightarrow> op_runs legal exec s (x # xs) s2"

inductive_simps op_runs_simps [simp]: "op_runs legal exec s [] s'" "op_runs legal exec s (x # xs) s'"

locale address_space =
  fixes inv :: "'s \<Rightarrow> bool"
    and view :: "'s \<Rightarrow> 'd \<Rightarrow> 'a \<Rightarrow> 'e option"
    and key :: "'a \<Rightarrow> 'k"
    and dirs :: "'d set"
    and usr :: "'a \<Rightarrow> bool"
    and room :: "'s \<Rightarrow> 'd \<Rightarrow> 'a \<Rightarrow> 'p \<Rightarrow> bool"
    and entry :: "'p \<Rightarrow> 'e"
    and ins :: "'d \<Rightarrow> 'a \<Rightarrow> 'p \<Rightarrow> 's \<Rightarrow> 's option"
    and rem :: "'d \<Rightarrow> 'a \<Rightarrow> 'r \<Rightarrow> 's \<Rightarrow> 's option"
  assumes ins_law: "inv s \<Longrightarrow> d \<in> dirs \<Longrightarrow> usr a \<Longrightarrow> room s d a p \<Longrightarrow>
      \<exists>s'. ins d a p s = Some s' \<and> inv s' \<and>
        (\<forall>d' \<in> dirs. \<forall>b. view s' d' b = (if d' = d \<and> key b = key a then Some (entry p) else view s d' b))"
    and rem_law: "inv s \<Longrightarrow> d \<in> dirs \<Longrightarrow> usr a \<Longrightarrow>
      \<exists>s'. rem d a r s = Some s' \<and> inv s' \<and>
        (\<forall>d' \<in> dirs. \<forall>b. view s' d' b = (if d' = d \<and> key b = key a then None else view s d' b))"
begin

lemma exec_law:
  assumes "inv s" "op_legal dirs usr room s x"
  shows "\<exists>s'. op_exec ins rem x s = Some s' \<and> inv s' \<and> (\<forall>d' \<in> dirs. d' \<noteq> op_dir x \<longrightarrow> view s' d' = view s d')"
  using assms ins_law rem_law by (cases x) (auto simp: fun_eq_iff; metis)+

text \<open>No sequence of operations on other directories touches the map of a directory.\<close>

lemma runs_isolated:
  assumes "op_runs (op_legal dirs usr room) (op_exec ins rem) s xs s'" "inv s" "d \<in> dirs" "\<forall>x \<in> set xs. op_dir x \<noteq> d"
  shows "inv s' \<and> view s' d = view s d"
  using assms
proof (induction rule: op_runs.induct)
  case (runs_cons s x s1 xs s2)
  from exec_law [OF runs_cons.prems(1) runs_cons.hyps(1)] runs_cons.hyps(2)
  have "inv s1" "\<forall>d' \<in> dirs. d' \<noteq> op_dir x \<longrightarrow> view s1 d' = view s d'" by auto
  with runs_cons show ?case by auto
qed simp

text \<open>Unmapping and mapping back restores the view.\<close>

lemma rem_ins:
  assumes "inv s" "d \<in> dirs" "usr a" "rem d a r s = Some s1" "room s1 d a p" "view s d a = Some (entry p)"
    and cong: "\<And>b. key b = key a \<Longrightarrow> view s d b = view s d a"
  shows "\<exists>s2. ins d a p s1 = Some s2 \<and> inv s2 \<and> (\<forall>d' \<in> dirs. view s2 d' = view s d')"
proof -
  from rem_law [OF assms(1-3), of r] assms(4) have s1: "inv s1"
    "\<forall>d' \<in> dirs. \<forall>b. view s1 d' b = (if d' = d \<and> key b = key a then None else view s d' b)" by auto
  from ins_law [OF s1(1) assms(2,3,5)] obtain s2 where s2: "ins d a p s1 = Some s2" "inv s2"
    "\<forall>d' \<in> dirs. \<forall>b. view s2 d' b = (if d' = d \<and> key b = key a then Some (entry p) else view s1 d' b)" by auto
  have "view s2 d' = view s d'" if "d' \<in> dirs" for d'
  proof
    fix b show "view s2 d' b = view s d' b"
      using s1(2) s2(3) that assms(6) cong [of b] by (cases "d' = d \<and> key b = key a") simp_all
  qed
  with s2 show ?thesis by blast
qed

end

text \<open>The success case of \<open>page_insert\<close> and \<open>page_remove\<close>, on the index of the directory.\<close>

definition map_page :: "nat \<Rightarrow> u32 \<Rightarrow> u32 \<times> nat \<times> u32 \<Rightarrow> 'z pmap_st_scheme \<Rightarrow> 'z pmap_st_scheme option" where
  "map_page pd va = (\<lambda>(asid, pp, perm) s.
     do { (r, s) \<leftarrow> page_insert (page2addr pd) asid pp va perm s;
          (case r of Inl _ \<Rightarrow> None | Inr _ \<Rightarrow> Some s) })"

definition unmap_page :: "nat \<Rightarrow> u32 \<Rightarrow> u32 \<Rightarrow> 'z pmap_st_scheme \<Rightarrow> 'z pmap_st_scheme option" where
  "unmap_page pd va asid = page_remove (page2addr pd) asid va"

text \<open>An insertion succeeds when the page is managed and not free, and a table is there or can be made.\<close>

definition map_room :: "nat set \<Rightarrow> 'z pmap_st_scheme \<Rightarrow> nat \<Rightarrow> u32 \<Rightarrow> u32 \<times> nat \<times> u32 \<Rightarrow> bool" where
  "map_room D s pd va = (\<lambda>(asid, pp, perm).
     pp < NPAGES \<and> pp_ref s pp \<noteq> 0xffff \<and> perm_ok perm \<and>
     (\<exists>xs. as_inv s D xs \<and> pp \<notin> set xs \<and> (pde_ok (pw s pd (PDX va)) \<or> xs \<noteq> [])))"

interpretation pm: address_space "\<lambda>s. \<exists>xs. as_inv s D xs" amap VPN D "\<lambda>va. va < UTOP"
  "map_room D" "\<lambda>(asid, pp, perm). mk_pte pp perm" map_page unmap_page for D
proof unfold_locales
  fix s :: "'z pmap_st_scheme" and d a and p :: "u32 \<times> nat \<times> u32"
  assume d: "d \<in> D" and a: "a < UTOP" and r: "map_room D s d a p"
  obtain asid pp perm where p: "p = (asid, pp, perm)" by (cases p)
  from r p obtain xs where *: "as_inv s D xs" "pp < NPAGES" "pp \<notin> set xs" "pp_ref s pp \<noteq> 0xffff" "perm_ok perm"
    "pde_ok (pw s d (PDX a)) \<or> xs \<noteq> []" by (auto simp: map_room_def)
  from page_insert_ok [OF *(1) d a *(2-6), of asid] p
  show "\<exists>s'. map_page d a p s = Some s' \<and> (\<exists>xs. as_inv s' D xs) \<and>
    (\<forall>d' \<in> D. \<forall>b. amap s' d' b = (if d' = d \<and> VPN b = VPN a
       then Some (case p of (asid, pp, perm) \<Rightarrow> mk_pte pp perm) else amap s d' b))"
    by (auto simp: map_page_def)
next
  fix s :: "'z pmap_st_scheme" and d a asid
  assume "\<exists>xs. as_inv s D xs" and d: "d \<in> D" and a: "a < UTOP"
  then obtain xs where inv: "as_inv s D xs" by blast
  show "\<exists>s'. unmap_page d a asid s = Some s' \<and> (\<exists>xs. as_inv s' D xs) \<and>
    (\<forall>d' \<in> D. \<forall>b. amap s' d' b = (if d' = d \<and> VPN b = VPN a then None else amap s d' b))"
  proof (cases "amap s d a")
    case None
    have "amap s d b = None" if "VPN b = VPN a" for b using amap_VPN [OF that, of s d] None by simp
    then show ?thesis using page_remove_unmapped [OF inv d None, of asid] inv
      by (intro exI [of _ s] conjI) (auto simp: unmap_page_def)
  next
    case (Some e)
    then show ?thesis using page_remove_ok [OF inv d a Some, of asid] by (auto simp: unmap_page_def)
  qed
qed

section \<open>The allocator after boot\<close>

lemma ROUND_page:
  assumes "unat a \<le> 0xfffff000"
  shows "unat (ROUND a BY2PG) = (unat a + 4095) div 4096 * 4096"
proof -
  have s: "unat (a + 4095) = unat a + 4095" using assms by (simp add: unat_word_ariths)
  have m: "(4095 :: u32) = mask 12" by (simp add: mask_eq_exp_minus_1)
  have nm: "x AND NOT (mask 12) = push_bit 12 (drop_bit 12 x)" for x :: u32
    by (rule bit_word_eqI) (auto simp: bit_simps)
  have "a + BY2PG - 1 = a + 4095" "BY2PG - 1 = mask 12" using m by simp_all
  then have "ROUND a BY2PG = push_bit 12 (drop_bit 12 (a + 4095))" by (simp only: ROUND_def nm)
  then have "unat (ROUND a BY2PG) = unat (push_bit 12 (drop_bit 12 (a + 4095)))" by simp
  also have "\<dots> = (unat a + 4095) div 4096 * 4096"
  proof -
    have d: "unat (drop_bit 12 (a + 4095)) = (unat a + 4095) div 4096"
      by (simp only: unat_drop_bit_eq s) (simp add: drop_bit_eq_div)
    have "(unat a + 4095) div 4096 * 4096 < 2 ^ 32" using assms by simp
    then show ?thesis using d by (simp add: push_bit_eq_mult unat_word_ariths mult.commute)
  qed
  finally show ?thesis .
qed

text \<open>The loop over \<open>pages\<close>: the pages below \<open>freemem\<close> are in use, the others go on the free list.\<close>

lemma page_init_steps:
  assumes "list_rep (page_free_list s) []" "n \<le> NPAGES" "unat (freemem s) = 0x80000000 + 4096 * k"
    and "\<And>i. pp_ref s i = 0"
  defines "s' \<equiv> fold page_init_step [0..<n] s"
  shows "list_rep (page_free_list s') (rev [k..<n])" "pp_ref s' = (\<lambda>i. if i < n \<and> i < k then 1 else 0)"
    "freemem s' = freemem s" "npage s' = npage s" "kmem s' = kmem s"
proof -
  let ?f = "\<lambda>n. fold page_init_step [0..<n] s"
  have "list_rep (page_free_list (?f n)) (rev [k..<n]) \<and> pp_ref (?f n) = (\<lambda>i. if i < n \<and> i < k then 1 else 0) \<and>
    freemem (?f n) = freemem s \<and> npage (?f n) = npage s \<and> kmem (?f n) = kmem s"
    using assms(2)
  proof (induction n)
    case 0
    then show ?case using assms(1,4) by auto
  next
    case (Suc n)
    then have IH: "list_rep (page_free_list (?f n)) (rev [k..<n])" "pp_ref (?f n) = (\<lambda>i. if i < n \<and> i < k then 1 else 0)"
      "freemem (?f n) = freemem s" "npage (?f n) = npage s" "kmem (?f n) = kmem s" by auto
    have c: "page2addr n < freemem s \<longleftrightarrow> n < k"
      using unat_page2addr [of n] Suc.prems assms(3) by (simp add: word_less_nat_alt)
    have f: "(\<lambda>i. if i < Suc n \<and> i < k then 1 else 0 :: u16) = (\<lambda>i. if i < n \<and> i < k then 1 else 0)(n := if n < k then 1 else 0)"
      by (auto simp: fun_eq_iff less_Suc_eq)
    show ?case
    proof (cases "n < k")
      case True
      then have "rev [k..<Suc n] = rev [k..<n]" by simp
      then show ?thesis using IH c f True by (simp add: page_init_step_def [of n] set_ref_def fun_upd_def)
    next
      case False
      have "list_rep (LIST_INSERT_HEAD n (page_free_list (?f n))) (n # rev [k..<n])"
        by (rule LIST_INSERT_HEAD_rep [OF IH(1)]) simp
      then show ?thesis using IH c f False
        by (simp add: page_init_step_def [of n] set_ref_def Let_def fun_upd_def)
    qed
  qed
  then show "list_rep (page_free_list s') (rev [k..<n])" "pp_ref s' = (\<lambda>i. if i < n \<and> i < k then 1 else 0)"
    "freemem s' = freemem s" "npage s' = npage s" "kmem s' = kmem s" unfolding s'_def by auto
qed

text \<open>Where the free memory starts: the kernel image and the array \<open>pages\<close> come first.\<close>

definition first_free :: "u32 \<Rightarrow> nat" where
  "first_free kend = (unat kend + 4095) div 4096 - 0x80000 + 192"

lemma page_init_free:
  assumes "KERNSTART \<le> kend" "kend \<le> 0x8fe00000" "freemem s = 0"
  shows "\<exists>s'. page_init kend (riscv32_detect_memory s) = Some s' \<and> npage s' = 0x10000 \<and>
    list_rep (page_free_list s') (rev [first_free kend..<NPAGES]) \<and>
    pp_ref s' = (\<lambda>i. if i < NPAGES \<and> i < first_free kend then 1 else 0) \<and>
    unat (freemem s') = 0x80000000 + 4096 * first_free kend"
proof -
  let ?s = "riscv32_detect_memory s"
  have np: "npage ?s = 0x10000" "memsize ?s = 0x10000000" "freemem ?s = 0"
    using assms(3) by (simp_all add: riscv32_detect_memory_def Let_def)
  have kb: "0x80000000 \<le> unat kend" "unat kend \<le> 0x8fe00000" using assms(1,2) by (simp_all add: word_le_nat_alt)
  define c where "c = (unat kend + 4095) div 4096"
  have cb: "0x80000 \<le> c" "c \<le> 0x8fe00" using kb by (auto simp: c_def)
  have ff: "first_free kend = c - 0x80000 + 192" by (simp add: first_free_def c_def)
  have rk: "unat (ROUND kend BY2PG) = c * 4096" using ROUND_page [of kend] kb by (simp add: c_def)
  have fm: "unat (ROUND kend BY2PG + 0xC0000) = 0x80000000 + 4096 * first_free kend"
    using cb rk ff unat_add_small [of "ROUND kend BY2PG" "0xC0000"] by simp
  have fm': "ROUND (ROUND kend BY2PG + 0xC0000) BY2PG = ROUND kend BY2PG + 0xC0000"
    using ROUND_page [of "ROUND kend BY2PG + 0xC0000"] fm cb ff by (simp add: word_unat_eq_iff)
  have as: "\<not> 0x90000000 \<le> ROUND kend BY2PG + 0xC0000" using fm cb ff by (simp add: word_le_nat_alt)
  have fill: "fill_ok (ROUND kend BY2PG) 0xC0000" using rk cb by (simp add: fill_ok_def)
  have ms: "memset m (ROUND kend BY2PG) 0 0xC0000 = Some (ROUND kend BY2PG, mem_fill m (ROUND kend BY2PG) 0xC0000 0)" for m
    using memset_fills [OF fill] by simp
  define t where "t = ?s\<lparr>kmem := mem_fill (kmem ?s) (ROUND kend BY2PG) 0xC0000 0, pages_ptr := ROUND kend BY2PG, pp_ref := (\<lambda>_. 0),
      page_free_list := LIST_INIT \<lparr>lh_first = lh_first (page_free_list ?s), le_next = (\<lambda>_. None), le_prev = (\<lambda>_. None)\<rparr>,
      freemem := ROUND kend BY2PG + 0xC0000\<rparr>"
  have "page_init kend ?s = Some (fold page_init_step [0..<NPAGES] t)"
    using np as ms fm' by (simp add: page_init_def alloc_def sizeof_Page_def t_def c_assert_def Let_def)
  moreover have "list_rep (page_free_list t) []" "unat (freemem t) = 0x80000000 + 4096 * first_free kend"
    "\<And>i. pp_ref t i = 0" "npage t = 0x10000"
    using fm np by (simp_all add: t_def LIST_INIT_rep)
  ultimately show ?thesis using page_init_steps [of t NPAGES "first_free kend"] by auto
qed

text \<open>With no directory yet, the invariant is about the free list alone.\<close>

lemma page_init_inv:
  assumes "KERNSTART \<le> kend" "kend \<le> 0x8fe00000" "freemem s = 0"
  shows "\<exists>s'. page_init kend (riscv32_detect_memory s) = Some s' \<and> as_inv s' {} (rev [first_free kend..<NPAGES])"
  using page_init_free [OF assms] by (auto simp: as_inv_def tables_def uses_def)

end
