(* ===== verification/Kstate.thy ===== *)
theory Kstate
  imports Paging
begin

text \<open>
  The kernel state beyond memory management: trap frames (\<^verbatim>\<open>include/trap.h\<close>), environments
  (\<^verbatim>\<open>include/env.h\<close>) and the globals of \<^verbatim>\<open>kern/env.c\<close> and \<^verbatim>\<open>kern/sched.c\<close>. An environment is named by its index in
  \<open>envs\<close>. Trap frames in kernel memory are reached by address (\<open>kframes\<close>), the one of the trap being
  handled through the register \<open>sscratch\<close>. \<open>env_pop_tf\<close> is assembly: what it resumes is recorded in
  \<open>resumed\<close>. The console is what was written to it and the characters it will deliver; \<open>disk_img\<close> is the
  contents of the disk, sector by sector, which only the device changes.
\<close>

section \<open>Trap frames and environments\<close>

record Trapframe =
  regs :: "nat \<Rightarrow> u32"
  sstatus :: u32
  sepc :: u32
  stval :: u32
  scause :: u32
  sscratch :: u32

abbreviation TF_SIZE :: u32 where "TF_SIZE \<equiv> 148"

definition set_reg :: "nat \<Rightarrow> u32 \<Rightarrow> Trapframe \<Rightarrow> Trapframe" where
  "set_reg r v tf = tf\<lparr>regs := (regs tf)(r := v)\<rparr>"

record Env =
  env_tf :: Trapframe
  env_id :: u32
  env_asid :: u32
  env_parent_id :: u32
  env_status :: u32
  env_pgdir :: u32
  env_pri :: u32
  env_ipc_value :: u32
  env_ipc_from :: u32
  env_ipc_recving :: u32
  env_ipc_dstva :: u32
  env_ipc_perm :: u32
  env_cow_entry :: u32
  env_runs :: u32

abbreviation ENV_FREE :: u32 where "ENV_FREE \<equiv> 0"
abbreviation ENV_RUNNABLE :: u32 where "ENV_RUNNABLE \<equiv> 1"
abbreviation ENV_NOT_RUNNABLE :: u32 where "ENV_NOT_RUNNABLE \<equiv> 2"
abbreviation NENV :: nat where "NENV \<equiv> 1024"
abbreviation NASID :: nat where "NASID \<equiv> 512"

abbreviation sizeof_Env :: u32 where "sizeof_Env \<equiv> 216"

definition ENVX :: "u32 \<Rightarrow> u32" where
  "ENVX envid = envid AND 0x3ff"

section \<open>The disk queue\<close>

text \<open>The structures of \<^verbatim>\<open>include/drivers/virtio.h\<close> and \<^verbatim>\<open>virtio_disk.h\<close>.\<close>

record virtq_desc =
  d_addr :: u64
  d_len :: u32
  d_flags :: u16
  d_next :: u16

record virtq_avail =
  av_flags :: u16
  av_idx :: u16
  av_ring :: "nat \<Rightarrow> u16"

record virtq_used_elem =
  ue_id :: u32
  ue_len :: u32

record virtq_used =
  us_flags :: u16
  us_idx :: u16
  us_ring :: "nat \<Rightarrow> virtq_used_elem"

record virtio_blk_req =
  rq_type :: u32
  rq_reserved :: u32
  rq_sector :: u64
  rq_data :: u32
  rq_status :: u8

record virtqueue =
  vq_ptr :: u32
  vq_desc_ptr :: u32
  vq_avail_ptr :: u32
  vq_used_ptr :: u32
  vq_desc :: "nat \<Rightarrow> virtq_desc"
  vq_avail :: virtq_avail
  vq_used :: virtq_used
  vq_reqs :: "nat \<Rightarrow> virtio_blk_req"
  vq_free :: u8

section \<open>The state\<close>

record kstate = pmap_st +
  envs :: "nat \<Rightarrow> Env"
  envs_ptr :: u32
  curenv :: "nat option"
  env_free_list :: "nat llist"
  env_sched_list :: "nat tailq"
  base_pgdir :: u32
  asid_bitmap :: "nat \<Rightarrow> u32"
  mkenvid_i :: u32
  sched_count :: u32
  kframes :: "u32 \<Rightarrow> Trapframe"
  sscratch_csr :: u32
  resumed :: "Trapframe option"
  console_out :: "u8 list"
  console_in :: "u32 list"
  vq :: virtqueue
  disk_img :: "u64 \<Rightarrow> nat \<Rightarrow> u8"

definition upd_env :: "nat \<Rightarrow> (Env \<Rightarrow> Env) \<Rightarrow> kstate \<Rightarrow> kstate" where
  "upd_env e f s = s\<lparr>envs := (envs s)(e := f (envs s e))\<rparr>"

text \<open>\<open>*((struct Trapframe* )RD_SSCRATCH())\<close>.\<close>

definition cur_frame :: "kstate \<Rightarrow> Trapframe" where
  "cur_frame s = kframes s (sscratch_csr s)"

definition set_frame :: "u32 \<Rightarrow> Trapframe \<Rightarrow> kstate \<Rightarrow> kstate" where
  "set_frame a tf s = s\<lparr>kframes := (kframes s)(a := tf)\<rparr>"

text \<open>
  Functions that may switch to another environment: they return a value, or control went to the
  environment recorded in \<open>resumed\<close>.
\<close>

datatype 'a outcome = Returned 'a | Switched

section \<open>Memory of the running environment\<close>

text \<open>
  The kernel reads and writes user memory through the page directory in force (\<open>sstatus.SUM\<close> is set). An
  address without a mapping is a page fault inside the kernel, \<open>None\<close> here.
\<close>

definition translate :: "kstate \<Rightarrow> u32 \<Rightarrow> u32 option" where
  "translate s va =
     (let pa = va2pa (kmem s) (cur_pgdir s) va in
      if pa = NOT 0 then None else Some (pa OR (va AND 0xfff)))"

definition uload8 :: "kstate \<Rightarrow> u32 \<Rightarrow> u8 option" where
  "uload8 s va = map_option (kmem s) (translate s va)"

definition ustore8 :: "u32 \<Rightarrow> u8 \<Rightarrow> kstate \<Rightarrow> kstate option" where
  "ustore8 va v s = map_option (\<lambda>pa. s\<lparr>kmem := (kmem s)(pa := v)\<rparr>) (translate s va)"

text \<open>Words are aligned, so they do not cross a page.\<close>

definition uload32 :: "kstate \<Rightarrow> u32 \<Rightarrow> u32 option" where
  "uload32 s va = map_option (load32 (kmem s)) (translate s va)"

definition ustore32 :: "u32 \<Rightarrow> u32 \<Rightarrow> kstate \<Rightarrow> kstate option" where
  "ustore32 va v s = map_option (\<lambda>pa. kstore32 pa v s) (translate s va)"

text \<open>A trap frame in user memory: 37 words.\<close>

definition uload_tf :: "kstate \<Rightarrow> u32 \<Rightarrow> Trapframe option" where
  "uload_tf s a =
     (let w = (\<lambda>i. uload32 s (a + 4 * of_nat i)) in
      if list_all (\<lambda>i. w i \<noteq> None) [0..<37]
      then Some \<lparr>regs = (\<lambda>i. if i < 32 then the (w i) else 0), sstatus = the (w 32), sepc = the (w 33),
        stval = the (w 34), scause = the (w 35), sscratch = the (w 36)\<rparr>
      else None)"

definition tf_words :: "Trapframe \<Rightarrow> u32 list" where
  "tf_words tf = map (regs tf) [0..<32] @ [sstatus tf, sepc tf, stval tf, scause tf, sscratch tf]"

fun ustore_words :: "u32 \<Rightarrow> u32 list \<Rightarrow> kstate \<Rightarrow> kstate option" where
  "ustore_words a [] s = Some s"
| "ustore_words a (w # ws) s = do { s \<leftarrow> ustore32 a w s; ustore_words (a + 4) ws s }"

definition ustore_tf :: "u32 \<Rightarrow> Trapframe \<Rightarrow> kstate \<Rightarrow> kstate option" where
  "ustore_tf a tf s = ustore_words a (tf_words tf) s"

lemma ENVX_less: "unat (ENVX i) < NENV"
proof -
  have "ENVX i = take_bit 10 i" unfolding ENVX_def mask10 by (simp add: take_bit_eq_mask)
  then show ?thesis using take_bit_nat_less_exp [of 10 "unat i"] by (simp add: unsigned_take_bit_eq)
qed

lemma upd_env_simps [simp]:
  "envs (upd_env e f s) e' = (if e' = e then f (envs s e) else envs s e')"
  "curenv (upd_env e f s) = curenv s" "env_sched_list (upd_env e f s) = env_sched_list s"
  "env_free_list (upd_env e f s) = env_free_list s" "asid_bitmap (upd_env e f s) = asid_bitmap s"
  "sscratch_csr (upd_env e f s) = sscratch_csr s" "kframes (upd_env e f s) = kframes s"
  "sched_count (upd_env e f s) = sched_count s" "cur_pgdir (upd_env e f s) = cur_pgdir s"
  "page_free_list (upd_env e f s) = page_free_list s" "pp_ref (upd_env e f s) = pp_ref s"
  "kmem (upd_env e f s) = kmem s" "npage (upd_env e f s) = npage s" "mkenvid_i (upd_env e f s) = mkenvid_i s"
  "base_pgdir (upd_env e f s) = base_pgdir s" "mmu_ops (upd_env e f s) = mmu_ops s"
  by (simp_all add: upd_env_def)

end
