(* ===== verification/Elf.thy ===== *)
theory Elf
  imports Mmu
begin

text \<open>
  \<^verbatim>\<open>lib/elfloader.c\<close> and the structures of \<^verbatim>\<open>include/elf.h\<close>. The loader calls back a page mapper; the model takes it
  as an argument, as the C function does, so that the kernel (\<open>load_icode\<close>) and \<^verbatim>\<open>user/lib/spawn.c\<close> share it.
\<close>

section \<open>Headers\<close>

record Elf32_Phdr =
  p_type :: u32
  p_offset :: u32
  p_vaddr :: u32
  p_filesz :: u32
  p_memsz :: u32

abbreviation PT_LOAD :: u32 where "PT_LOAD \<equiv> 1"
abbreviation sizeof_Ehdr :: u32 where "sizeof_Ehdr \<equiv> 52"

definition load16 :: "mem \<Rightarrow> u32 \<Rightarrow> u16" where
  "load16 m a = ucast (m a) OR push_bit 8 (ucast (m (a + 1)))"

text \<open>The fields of the headers at their offsets in the file image.\<close>

definition e_type :: "mem \<Rightarrow> u32 \<Rightarrow> u16" where "e_type m h = load16 m (h + 16)"
definition e_entry :: "mem \<Rightarrow> u32 \<Rightarrow> u32" where "e_entry m h = load32 m (h + 24)"
definition e_phoff :: "mem \<Rightarrow> u32 \<Rightarrow> u32" where "e_phoff m h = load32 m (h + 28)"
definition e_phentsize :: "mem \<Rightarrow> u32 \<Rightarrow> u16" where "e_phentsize m h = load16 m (h + 42)"
definition e_phnum :: "mem \<Rightarrow> u32 \<Rightarrow> u16" where "e_phnum m h = load16 m (h + 44)"

definition phdr_at :: "mem \<Rightarrow> u32 \<Rightarrow> Elf32_Phdr" where
  "phdr_at m p = \<lparr>p_type = load32 m p, p_offset = load32 m (p + 4), p_vaddr = load32 m (p + 8),
     p_filesz = load32 m (p + 16), p_memsz = load32 m (p + 20)\<rparr>"

text \<open>\<open>elf_from\<close>: the header when it looks like an executable, null otherwise.\<close>

definition elf_from :: "mem \<Rightarrow> u32 \<Rightarrow> u32 \<Rightarrow> u32 option" where
  "elf_from m binary sz =
     (if sz \<ge> sizeof_Ehdr \<and> m binary = 0x7f \<and> m (binary + 1) = 0x45 \<and> m (binary + 2) = 0x4c \<and>
         m (binary + 3) = 0x46 \<and> e_type m binary = 2
      then Some binary else None)"

section \<open>Loading a segment\<close>

text \<open>A mapper: \<open>map_page va offset perm src len\<close>, with \<open>data\<close> in the state.\<close>

type_synonym 's mapper = "u32 \<Rightarrow> u32 \<Rightarrow> u32 \<Rightarrow> u32 \<Rightarrow> u32 \<Rightarrow> 's \<Rightarrow> ((err + unit) \<times> 's) option"

abbreviation seg_perm :: u32 where "seg_perm \<equiv> PTE_U OR PTE_R OR PTE_W OR PTE_X"

partial_function (option) seg_file ::
  "'s mapper \<Rightarrow> u32 \<Rightarrow> u32 \<Rightarrow> u32 \<Rightarrow> u32 \<Rightarrow> u32 \<Rightarrow> 's \<Rightarrow> ((err + u32) \<times> 's) option"
where
  "seg_file map_page va bin bin_size perm i s =
     (if i < bin_size then
        do { (r, s) \<leftarrow> map_page (va + i) 0 perm (bin + i) (min (bin_size - i) BY2PG) s;
             (case r of Inl e \<Rightarrow> Some (Inl e, s)
              | Inr _ \<Rightarrow> seg_file map_page va bin bin_size perm (i + BY2PG) s) }
      else Some (Inr i, s))"

partial_function (option) seg_zero ::
  "'s mapper \<Rightarrow> u32 \<Rightarrow> u32 \<Rightarrow> u32 \<Rightarrow> u32 \<Rightarrow> u32 \<Rightarrow> 's \<Rightarrow> ((err + unit) \<times> 's) option"
where
  "seg_zero map_page va bin_size sgsize perm i s =
     (if i < sgsize then
        do { (r, s) \<leftarrow> map_page (va + i) 0 perm 0 (min (bin_size - i) BY2PG) s;
             (case r of Inl e \<Rightarrow> Some (Inl e, s)
              | Inr _ \<Rightarrow> seg_zero map_page va bin_size sgsize perm (i + BY2PG) s) }
      else Some (Inr (), s))"

definition elf_load_seg :: "Elf32_Phdr \<Rightarrow> u32 \<Rightarrow> 's mapper \<Rightarrow> 's \<Rightarrow> ((err + unit) \<times> 's) option" where
  "elf_load_seg ph bin map_page s =
     (let va = p_vaddr ph; bin_size = p_filesz ph; sgsize = p_memsz ph; perm = seg_perm;
          offset = va - ROUNDDOWN va BY2PG;
          head = (if offset \<noteq> 0 then map_page va offset perm bin (min bin_size (BY2PG - offset)) s
                  else Some (Inr (), s))
      in try_c head (\<lambda>_ s.
         try_c (seg_file map_page va bin bin_size perm (if offset \<noteq> 0 then min bin_size (BY2PG - offset) else 0) s) (\<lambda>i s.
           seg_zero map_page va bin_size sgsize perm i s)))"

lemma seg_file_try:
  "seg_file mp va bin n perm i s =
     (if i < n then try_c (mp (va + i) 0 perm (bin + i) (min (n - i) BY2PG) s) (\<lambda>_. seg_file mp va bin n perm (i + BY2PG))
      else Some (Inr i, s))"
  by (subst seg_file.simps) (simp add: try_c_def)

lemma seg_zero_try:
  "seg_zero mp va n ms perm i s =
     (if i < ms then try_c (mp (va + i) 0 perm 0 (min (n - i) BY2PG) s) (\<lambda>_. seg_zero mp va n ms perm (i + BY2PG))
      else Some (Inr (), s))"
  by (subst seg_zero.simps) (simp add: try_c_def)

section \<open>Which calls are made\<close>

text \<open>A list of mapper calls (address, offset, source, length), made in order up to the first error.\<close>

fun run_calls :: "'s mapper \<Rightarrow> (u32 \<times> u32 \<times> u32 \<times> u32) list \<Rightarrow> 's \<Rightarrow> ((err + unit) \<times> 's) option" where
  "run_calls mp [] s = Some (Inr (), s)"
| "run_calls mp ((va, off, src, len) # cs) s = try_c (mp va off seg_perm src len s) (\<lambda>_ s. run_calls mp cs s)"

text \<open>The call for page \<open>k\<close> of a page-aligned segment: file contents while there are any, then zero pages.\<close>

definition page_call :: "u32 \<Rightarrow> u32 \<Rightarrow> u32 \<Rightarrow> nat \<Rightarrow> u32 \<times> u32 \<times> u32 \<times> u32" where
  "page_call va bin filesz k =
     (let i = 4096 * of_nat k in
      (va + i, 0, (if 4096 * k < unat filesz then bin + i else 0), min (filesz - i) BY2PG))"

definition pages_of :: "u32 \<Rightarrow> nat" where
  "pages_of n = (unat n + 4095) div 4096"

lemma unat_page_off: "4096 * k < 2 ^ 32 \<Longrightarrow> unat (4096 * of_nat k :: u32) = 4096 * k"
  using unat_of_nat32 [of "4096 * k"] by simp

lemma page_off_less:
  assumes "unat n \<le> 0xfffff000" "k \<le> pages_of n"
  shows "(4096 * of_nat k :: u32) < n \<longleftrightarrow> k < pages_of n"
proof -
  have "k \<le> (unat n + 4095) div 4096" using assms(2) by (simp add: pages_of_def)
  then have "4096 * k \<le> unat n + 4095" by (metis div_times_less_eq_dividend le_trans mult.commute mult_le_mono2)
  then have "4096 * k < 2 ^ 32" using assms(1) by simp
  then show ?thesis using unat_page_off [of k] by (auto simp: word_less_nat_alt pages_of_def)
qed

lemma seg_file_pages:
  assumes b: "unat fs \<le> 0xfffff000" and k: "k \<le> pages_of fs"
  shows "seg_file mp va bin fs seg_perm (4096 * of_nat k) s =
     try_c (run_calls mp (map (page_call va bin fs) [k..<pages_of fs]) s) (\<lambda>_ s. Some (Inr (4096 * of_nat (pages_of fs)), s))"
  using k
proof (induction "pages_of fs - k" arbitrary: k s)
  case 0
  then have "k = pages_of fs" by simp
  then show ?case using page_off_less [OF b, of k] by (subst seg_file_try) simp
next
  case (Suc d)
  then have k: "k < pages_of fs" and d: "d = pages_of fs - Suc k" "Suc k \<le> pages_of fs" by auto
  have lt: "(4096 * of_nat k :: u32) < fs" using page_off_less [OF b, of k] k by simp
  moreover have "4096 * k < unat fs" using k by (simp add: pages_of_def)
  moreover have "(4096 :: u32) * of_nat k + BY2PG = 4096 * of_nat (Suc k)" by (simp add: algebra_simps)
  moreover note Suc.hyps(1) [OF d]
  ultimately show ?case using k
    by (subst seg_file_try) (auto simp: upt_conv_Cons page_call_def Let_def try_c_assoc add.commute intro!: try_c_cong)
qed

lemma seg_zero_pages:
  assumes b: "unat ms \<le> 0xfffff000" and k: "pages_of fs \<le> k" "k \<le> pages_of ms"
  shows "seg_zero mp va fs ms seg_perm (4096 * of_nat k) s =
     run_calls mp (map (page_call va bin fs) [k..<pages_of ms]) s"
  using k
proof (induction "pages_of ms - k" arbitrary: k s)
  case 0
  then have "k = pages_of ms" by simp
  then show ?case using page_off_less [OF b, of k] by (subst seg_zero_try) simp
next
  case (Suc d)
  then have k: "k < pages_of ms" and d: "d = pages_of ms - Suc k" "pages_of fs \<le> Suc k" "Suc k \<le> pages_of ms" by auto
  have lt: "(4096 * of_nat k :: u32) < ms" using page_off_less [OF b, of k] k by simp
  moreover have "\<not> 4096 * k < unat fs" using Suc.prems(1) by (simp add: pages_of_def)
  moreover have "(4096 :: u32) * of_nat k + BY2PG = 4096 * of_nat (Suc k)" by (simp add: algebra_simps)
  moreover note Suc.hyps(1) [OF d]
  ultimately show ?case using k
    by (subst seg_zero_try) (auto simp: upt_conv_Cons page_call_def Let_def add.commute intro!: try_c_cong)
qed

lemma run_calls_append: "run_calls mp (xs @ ys) s = try_c (run_calls mp xs s) (\<lambda>_ s. run_calls mp ys s)"
proof (induction xs arbitrary: s)
  case (Cons x xs)
  then show ?case by (cases x) (auto simp: try_c_assoc intro: try_c_cong)
qed simp

lemma ROUNDDOWN_self: "va AND 0xfff = 0 \<Longrightarrow> ROUNDDOWN va BY2PG = va"
proof -
  assume a: "va AND 0xfff = 0"
  have "va AND NOT 0xfff = (va AND NOT 0xfff) OR (va AND 0xfff)" using a by simp
  also have "\<dots> = va" by (rule bit_word_eqI) (auto simp: bit_simps)
  finally show ?thesis by (simp add: ROUNDDOWN_def)
qed

text \<open>
  A page-aligned segment: one call per page of the memory image, in order, each page once, carrying the
  file contents of that page.
\<close>

lemma elf_load_seg_aligned:
  assumes al: "p_vaddr ph AND 0xfff = 0" and sz: "p_filesz ph \<le> p_memsz ph" "p_memsz ph \<le> 0xfffff000"
  shows "elf_load_seg ph bin mp s = run_calls mp (map (page_call (p_vaddr ph) bin (p_filesz ph)) [0..<pages_of (p_memsz ph)]) s"
proof -
  let ?f = "pages_of (p_filesz ph)" and ?m = "pages_of (p_memsz ph)"
  have b: "unat (p_memsz ph) \<le> 0xfffff000" "unat (p_filesz ph) \<le> unat (p_memsz ph)"
    using sz by (simp_all add: word_le_nat_alt)
  then have le: "?f \<le> ?m" by (simp add: pages_of_def div_le_mono)
  then have "[0..<?m] = [0..<?f] @ [?f..<?m]" by (metis le_add_diff_inverse upt_add_eq_append zero_le)
  moreover have "ROUNDDOWN (p_vaddr ph) BY2PG = p_vaddr ph" using ROUNDDOWN_self [OF al] .
  moreover note seg_file_pages [of "p_filesz ph" 0 mp "p_vaddr ph" bin s] seg_zero_pages [OF b(1) order_refl le, of mp "p_vaddr ph" _ bin]
  ultimately show ?thesis using b
    by (auto simp: elf_load_seg_def Let_def run_calls_append try_c_assoc intro: try_c_cong)
qed

text \<open>
  An unaligned segment whose file part ends within its first page and whose memory image is longer: the
  second call maps the same page again, with no contents.
\<close>

lemma elf_load_seg_unaligned:
  assumes off: "offset = p_vaddr ph - ROUNDDOWN (p_vaddr ph) BY2PG" "offset \<noteq> 0" "offset < BY2PG"
    and sz: "p_filesz ph < p_memsz ph" "p_memsz ph \<le> BY2PG - offset"
  shows "elf_load_seg ph bin mp s =
    run_calls mp [(p_vaddr ph, offset, bin, p_filesz ph), (p_vaddr ph + p_filesz ph, 0, 0, 0)] s"
proof -
  let ?f = "p_filesz ph" and ?m = "p_memsz ph"
  have o: "unat offset < 4096" "0 < unat offset" using off by (simp_all add: word_less_nat_alt unat_gt_0)
  have u: "unat (BY2PG - offset) = 4096 - unat offset" using o by (subst unat_sub) (auto simp: word_le_nat_alt)
  have f: "unat ?f < unat ?m" "unat ?m \<le> 4096 - unat offset" using sz u by (simp_all add: word_less_nat_alt word_le_nat_alt)
  have mn: "min ?f (BY2PG - offset) = ?f" using f u by (simp add: min_def word_le_nat_alt)
  have "unat (?f + BY2PG) = unat ?f + 4096" using f o by (simp add: unat_word_ariths)
  then have stop: "\<not> ?f + BY2PG < ?m" using f o by (simp add: word_less_nat_alt)
  have z: "seg_zero mp va ?f ?m seg_perm ?f s = try_c (mp (va + ?f) 0 seg_perm 0 0 s) (\<lambda>_ s. Some (Inr (), s))" for va s
    using sz(1) stop by (subst seg_zero_try) (auto simp: seg_zero_try [of mp va ?f ?m _ "?f + BY2PG"] intro!: try_c_cong)
  have "seg_file mp va bin ?f seg_perm ?f s = Some (Inr ?f, s)" for va s by (subst seg_file_try) simp
  then show ?thesis using off(1) [symmetric] off(2) mn z
    by (auto simp: elf_load_seg_def Let_def intro!: try_c_cong)
qed

end
