(* ===== verification/Allocator.thy ===== *)
theory Allocator
  imports Prelude
begin

text \<open>
  The contract of an allocator of identifiers that keeps the set of the free ones in its state: address space
  identifiers (\<open>asid_alloc\<close>), disk descriptors (\<open>alloc_desc\<close>) and disk blocks (\<open>alloc_block_num\<close>) all
  promise it, and what a client may conclude from several allocations is proved once.
\<close>

text \<open>\<open>n\<close> allocations in a row; \<open>None\<close> when one of them finds nothing free.\<close>

primrec alloc_n :: "('s \<Rightarrow> ('a \<times> 's) option) \<Rightarrow> nat \<Rightarrow> 's \<Rightarrow> ('a list \<times> 's) option" where
  "alloc_n al 0 s = Some ([], s)"
| "alloc_n al (Suc n) s = do { (x, s) \<leftarrow> al s; (xs, s) \<leftarrow> alloc_n al n s; Some (x # xs, s) }"

text \<open>The result of an operation that reports errors, without the error.\<close>

definition granted :: "((err + 'a) \<times> 's) option \<Rightarrow> ('a \<times> 's) option" where
  "granted m = (case m of Some (Inr x, s) \<Rightarrow> Some (x, s) | _ \<Rightarrow> None)"

lemma granted_simps [simp]:
  "granted None = None" "granted (Some (Inl e, s)) = None" "granted (Some (Inr x, s)) = Some (x, s)"
  by (simp_all add: granted_def)

locale allocator =
  fixes inv :: "'s \<Rightarrow> bool" and free :: "'s \<Rightarrow> 'a set" and al :: "'s \<Rightarrow> ('a \<times> 's) option"
  assumes alloc_none: "inv s \<Longrightarrow> al s = None \<longleftrightarrow> free s = {}"
    and alloc_some: "inv s \<Longrightarrow> al s = Some (x, s') \<Longrightarrow> x \<in> free s \<and> free s' = free s - {x} \<and> inv s'"
begin

lemma alloc_n_some:
  "inv s \<Longrightarrow> alloc_n al n s = Some (xs, s') \<Longrightarrow>
   distinct xs \<and> length xs = n \<and> set xs \<subseteq> free s \<and> free s' = free s - set xs \<and> inv s'"
proof (induction n arbitrary: s xs)
  case (Suc n)
  from Suc.prems(2) obtain x t ys where *: "al s = Some (x, t)" "alloc_n al n t = Some (ys, s')" "xs = x # ys"
    by (auto simp: bind_eq_Some_conv)
  show ?case using alloc_some [OF Suc.prems(1) *(1)] Suc.IH [of t ys] *(2,3) by auto
qed simp

lemma alloc_n_total:
  "inv s \<Longrightarrow> finite (free s) \<Longrightarrow> (\<exists>xs s'. alloc_n al n s = Some (xs, s')) \<longleftrightarrow> n \<le> card (free s)"
proof (induction n arbitrary: s)
  case (Suc n)
  show ?case
  proof (cases "al s")
    case None
    then show ?thesis using alloc_none [OF Suc.prems(1)] by simp
  next
    case (Some p)
    obtain x t where p: "p = (x, t)" by (cases p)
    have x: "x \<in> free s" "free t = free s - {x}" "inv t" using alloc_some [OF Suc.prems(1)] Some p by auto
    then have "(\<exists>xs s'. alloc_n al n t = Some (xs, s')) \<longleftrightarrow> n \<le> card (free s) - 1"
      using Suc.IH [of t] Suc.prems(2) by simp
    moreover have "0 < card (free s)" using x(1) Suc.prems(2) card_gt_0_iff by blast
    ultimately show ?thesis using Some p by (auto simp: bind_eq_Some_conv)
  qed
qed simp

end

end
