(* ===== verification/KernEnv.thy ===== *)
theory KernEnv
  imports Kstate Elf Allocator
begin

text \<open>
  \<^verbatim>\<open>kern/env.c\<close>: address-space identifiers, environment identifiers, creation of environments (page directory,
  stacks, program image), destruction, and the switch to an environment. \<open>env_destroy\<close> ends in the
  scheduler and is in the theory of the scheduler. Console output of the kernel is left out.
\<close>

section \<open>ASID bitmap\<close>

definition asid_used :: "(nat \<Rightarrow> u32) \<Rightarrow> nat \<Rightarrow> bool" where
  "asid_used bm i \<longleftrightarrow> bm (i div 32) AND push_bit (i mod 32) 1 \<noteq> 0"

fun asid_scan :: "(nat \<Rightarrow> u32) \<Rightarrow> nat list \<Rightarrow> nat option" where
  "asid_scan bm [] = None"
| "asid_scan bm (i # is) =
     (let index = drop_bit 5 i; inner = i mod 32 in
      if bm index AND push_bit inner 1 = 0 then Some i else asid_scan bm is)"

definition asid_alloc :: "kstate \<Rightarrow> ((err + u32) \<times> kstate) option" where
  "asid_alloc s =
     (case asid_scan (asid_bitmap s) [0..<NASID] of
        Some i \<Rightarrow>
          (let index = drop_bit 5 i; inner = i mod 32; bm = asid_bitmap s
           in Some (Inr (of_nat i), s\<lparr>asid_bitmap := bm(index := bm index OR push_bit inner 1)\<rparr>))
      | None \<Rightarrow> Some (Inl E_NO_FREE_ENV, s))"

definition asid_free :: "u32 \<Rightarrow> kstate \<Rightarrow> kstate" where
  "asid_free i s =
     (let index = unat (drop_bit 5 i); inner = unat (i AND 31); bm = asid_bitmap s
      in s\<lparr>asid_bitmap := bm(index := bm index AND NOT (push_bit inner 1))\<rparr>)"

section \<open>Segments of a page directory\<close>

text \<open>The loop of \<open>map_segment\<close>; the result of \<open>page_insert\<close> is dropped.\<close>

partial_function (option) map_segment_loop ::
  "u32 \<Rightarrow> u32 \<Rightarrow> u32 \<Rightarrow> u32 \<Rightarrow> u32 \<Rightarrow> u32 \<Rightarrow> u32 \<Rightarrow> 'z pmap_st_scheme \<Rightarrow> 'z pmap_st_scheme option"
where
  "map_segment_loop pgdir asid pa va sz perm i s =
     (if i < sz then
        do { pp \<leftarrow> addr2page (npage s) (pa + i);
             (_, s) \<leftarrow> page_insert pgdir asid pp (va + i) perm s;
             map_segment_loop pgdir asid pa va sz perm (i + BY2PG) s }
      else Some s)"

definition map_segment ::
  "u32 \<Rightarrow> u32 \<Rightarrow> u32 \<Rightarrow> u32 \<Rightarrow> u32 \<Rightarrow> u32 \<Rightarrow> 'z pmap_st_scheme \<Rightarrow> 'z pmap_st_scheme option"
where
  "map_segment pgdir asid pa va sz perm s =
     do { c_assert (pa mod BY2PG = 0);
          c_assert (va mod BY2PG = 0);
          c_assert (sz mod BY2PG = 0);
          map_segment_loop pgdir asid pa va sz perm 0 s }"

fun reflect_loop :: "u32 \<Rightarrow> u32 \<Rightarrow> nat list \<Rightarrow> kstate \<Rightarrow> kstate option" where
  "reflect_loop pgdir asid [] s = Some s"
| "reflect_loop pgdir asid (i # is) s =
     (let d = kload32 s (pgdir + 4 * of_nat i) in
      if d AND PTE_V \<noteq> 0 then
        (let addr = PADDR (PTE_ADDR d) in
         do { s \<leftarrow> map_segment pgdir asid addr addr BY2PG (PTE_U OR PTE_R OR PTE_W) s;
              reflect_loop pgdir asid is s })
      else reflect_loop pgdir asid is s)"

definition reflect_pgdir :: "nat \<Rightarrow> kstate \<Rightarrow> kstate option" where
  "reflect_pgdir e s =
     (let pgdir = env_pgdir (envs s e); asid = env_asid (envs s e) in
      do { s \<leftarrow> map_segment pgdir asid pgdir pgdir BY2PG (PTE_U OR PTE_R OR PTE_W) s;
           reflect_loop pgdir asid [0..<1024] s })"

section \<open>Environment identifiers\<close>

definition mkenvid :: "nat \<Rightarrow> kstate \<Rightarrow> u32 \<times> kstate" where
  "mkenvid e s =
     (let i = mkenvid_i s + 1 in (push_bit 11 i OR of_nat e, s\<lparr>mkenvid_i := i\<rparr>))"

text \<open>\<open>envid2env\<close> yields a pointer, which is null when \<open>envid\<close> is 0 and no environment is current.\<close>

definition envid2env :: "u32 \<Rightarrow> int \<Rightarrow> kstate \<Rightarrow> ((err + nat option) \<times> kstate) option" where
  "envid2env envid checkperm s =
     (if envid = 0 then Some (Inr (curenv s), s)
      else let e = unat (ENVX envid) in
        if checkperm \<noteq> 0 then
          (if Some e \<noteq> curenv s then
             do { c \<leftarrow> curenv s;
                  (if env_parent_id (envs s e) \<noteq> env_id (envs s c) then Some (Inl E_BAD_ENV, s)
                   else Some (Inr (Some e), s)) }
           else Some (Inr (Some e), s))
        else Some (Inr (Some e), s))"

section \<open>Initialisation\<close>

definition env_init_step :: "nat \<Rightarrow> kstate \<Rightarrow> kstate" where
  "env_init_step i s =
     (let s = upd_env i (\<lambda>e. e\<lparr>env_status := ENV_FREE\<rparr>) s
      in s\<lparr>env_free_list := LIST_INSERT_HEAD i (env_free_list s)\<rparr>)"

text \<open>The loops \<open>for (addr = a; addr < b; addr += BY2PG) pgdir_init_fill(...)\<close>, which drop the result.\<close>

partial_function (option) fill_loop ::
  "u32 \<Rightarrow> u32 \<Rightarrow> u32 \<Rightarrow> u32 \<Rightarrow> 'z pmap_st_scheme \<Rightarrow> 'z pmap_st_scheme option"
where
  "fill_loop pgdir addr bnd perm s =
     (if addr < bnd then
        do { (_, s) \<leftarrow> pgdir_init_fill pgdir addr addr perm s;
             fill_loop pgdir (addr + BY2PG) bnd perm s }
      else Some s)"

text \<open>
  \<open>vq\<close> holds the addresses of the disk queue: \<open>disk\<close>, \<open>disk->desc\<close>, \<open>disk->avail\<close>, \<open>disk->used\<close>. The
  writes to \<open>sstatus\<close>, \<open>stvec\<close> and \<open>sie\<close> that open the function have no effect on this state.
\<close>

definition env_init :: "u32 \<times> u32 \<times> u32 \<times> u32 \<Rightarrow> kstate \<Rightarrow> kstate option" where
  "env_init = (\<lambda>(disk, desc, avail, used) s.
     let s = s\<lparr>env_free_list := LIST_INIT (env_free_list s)\<rparr>;
         s = s\<lparr>env_sched_list := TAILQ_INIT (env_sched_list s)\<rparr>;
         s = fold env_init_step (rev [0..<NENV]) s
     in do {
       (r, s) \<leftarrow> page_alloc s;
       (case r of
          Inl _ \<Rightarrow> None
        | Inr p \<Rightarrow>
            (let s = set_ref p (pp_ref s p + 1) s;
                 s = s\<lparr>base_pgdir := page2addr p\<rparr>;
                 bp = base_pgdir s;
                 ep = ROUNDDOWN (envs_ptr s) BY2PG;
                 pgs = ROUNDDOWN (pages_ptr s) BY2PG
             in do {
               s \<leftarrow> fill_loop bp KERNSTART ep (PTE_G OR PTE_R OR PTE_X) s;
               s \<leftarrow> fill_loop bp ep (KERNEND - 3 * BY2PG) (PTE_R OR PTE_W) s;
               s \<leftarrow> fill_loop bp KERNEND pgs (PTE_G OR PTE_R OR PTE_X) s;
               s \<leftarrow> fill_loop bp pgs 0x90000000 (PTE_R OR PTE_W) s;
               s \<leftarrow> map_segment bp 0 disk disk BY2PG (PTE_G OR PTE_R OR PTE_W) s;
               s \<leftarrow> map_segment bp 0 desc desc BY2PG (PTE_G OR PTE_R OR PTE_W) s;
               s \<leftarrow> map_segment bp 0 avail avail BY2PG (PTE_G OR PTE_R OR PTE_W) s;
               s \<leftarrow> map_segment bp 0 used used BY2PG (PTE_G OR PTE_R OR PTE_W) s;
               s \<leftarrow> map_segment bp 0 (pages_ptr s) UPAGES (ROUND (npage s * sizeof_Page) BY2PG) (PTE_R OR PTE_U) s;
               s \<leftarrow> map_segment bp 0 (envs_ptr s) UENVS (ROUND (of_nat NENV * sizeof_Env) BY2PG) (PTE_R OR PTE_U) s;
               (_, s) \<leftarrow> pgdir_map bp 0 (DISK_ADDRESS - KERNSTART) DISK_ADDRESS
                            (PTE_R OR PTE_W OR PTE_G OR PTE_LIBRARY) s;
               Some s })) })"

section \<open>Creating an environment\<close>

definition setup_stack :: "nat \<Rightarrow> nat \<Rightarrow> kstate \<Rightarrow> ((err + unit) \<times> kstate) option" where
  "setup_stack e i s =
     try_c (page_alloc s) (\<lambda>p s. do {
       (_, s) \<leftarrow> page_insert (env_pgdir (envs s e)) (env_asid (envs s e)) p
          (UXSTACKTOP - (of_nat i + 1) * BY2PG) (PTE_U OR PTE_W OR PTE_R) s;
       try_c (page_alloc s) (\<lambda>p s. do {
         (_, s) \<leftarrow> page_insert (env_pgdir (envs s e)) (env_asid (envs s e)) p
            (KSTACKTOP - (of_nat i + 1) * BY2PG) (PTE_W OR PTE_R) s;
         Some (Inr (), s) }) })"

definition env_setup_vm :: "nat \<Rightarrow> kstate \<Rightarrow> ((err + unit) \<times> kstate) option" where
  "env_setup_vm e s =
     try_c (page_alloc s) (\<lambda>p s.
       let s = set_ref p (pp_ref s p + 1) s;
           s = upd_env e (\<lambda>x. x\<lparr>env_pgdir := page2addr p\<rparr>) s
       in do {
         (_, m) \<leftarrow> memcpy (kmem s) (env_pgdir (envs s e)) (base_pgdir s) BY2PG;
         let s = s\<lparr>kmem := m\<rparr>;
         try_c (setup_stack e 0 s) (\<lambda>_ s.
         try_c (setup_stack e 1 s) (\<lambda>_ s.
           setup_stack e 2 s)) })"

definition env_alloc :: "u32 \<Rightarrow> kstate \<Rightarrow> ((err + nat) \<times> kstate) option" where
  "env_alloc parent_id s =
     (case LIST_FIRST (env_free_list s) of
        None \<Rightarrow> Some (Inl E_NO_FREE_ENV, s)
      | Some e \<Rightarrow>
          try_c (env_setup_vm e s) (\<lambda>_ s.
            let s = upd_env e (\<lambda>x. x\<lparr>env_cow_entry := 0, env_runs := 0\<rparr>) s;
                (i, s) = mkenvid e s;
                s = upd_env e (\<lambda>x. x\<lparr>env_id := i\<rparr>) s
            in try_c (asid_alloc s) (\<lambda>asid s.
              let s = upd_env e (\<lambda>x. x\<lparr>env_asid := asid, env_parent_id := parent_id\<rparr>) s;
                  s = upd_env e (\<lambda>x. x\<lparr>env_tf := set_reg 2 (USTACKTOP - 8)
                        ((env_tf x)\<lparr>sscratch := KERNEND, sstatus := push_bit 1 1 OR push_bit 18 1\<rparr>)\<rparr>) s
              in do {
                fl \<leftarrow> LIST_REMOVE e (env_free_list s);
                Some (Inr e, s\<lparr>env_free_list := fl\<rparr>) })))"

section \<open>Loading the program\<close>

text \<open>\<open>src\<close> is null (0) for the zero-filled part of a segment.\<close>

definition load_icode_mapper :: "nat \<Rightarrow> kstate mapper" where
  "load_icode_mapper e va offset perm src len s =
     try_c (page_alloc s) (\<lambda>p s. do {
       s \<leftarrow> (if src \<noteq> 0
             then do { (_, m) \<leftarrow> memcpy (kmem s) (page2addr p + offset) src len; Some (s\<lparr>kmem := m\<rparr>) }
             else Some s);
       page_insert (env_pgdir (envs s e)) (env_asid (envs s e)) p va perm s })"

text \<open>\<open>ELF_FOREACH_PHDR_OFF\<close>: \<open>n\<close> headers are left, the next one is at \<open>ph_off\<close>.\<close>

fun load_icode_loop :: "nat \<Rightarrow> u32 \<Rightarrow> u32 \<Rightarrow> nat \<Rightarrow> u32 \<Rightarrow> kstate \<Rightarrow> kstate option" where
  "load_icode_loop e binary ehdr 0 ph_off s = Some s"
| "load_icode_loop e binary ehdr (Suc n) ph_off s =
     (let ph = phdr_at (kmem s) (binary + ph_off);
          nxt = ph_off + ucast (e_phentsize (kmem s) ehdr)
      in if p_type ph = PT_LOAD then
           do { (r, s) \<leftarrow> elf_load_seg ph (binary + p_offset ph) (load_icode_mapper e) s;
                (case r of Inl _ \<Rightarrow> None
                 | Inr _ \<Rightarrow> load_icode_loop e binary ehdr n nxt s) }
         else load_icode_loop e binary ehdr n nxt s)"

definition load_icode :: "nat \<Rightarrow> u32 \<Rightarrow> u32 \<Rightarrow> kstate \<Rightarrow> kstate option" where
  "load_icode e binary sz s =
     do { ehdr \<leftarrow> elf_from (kmem s) binary sz;
          s \<leftarrow> load_icode_loop e binary ehdr (unat (e_phnum (kmem s) ehdr)) (e_phoff (kmem s) ehdr) s;
          Some (upd_env e (\<lambda>x. x\<lparr>env_tf := (env_tf x)\<lparr>sepc := e_entry (kmem s) ehdr\<rparr>\<rparr>) s) }"

text \<open>
  \<open>env_create\<close> ignores the result of \<open>env_alloc\<close>: when that failed, its pointer is not initialised and
  what follows is undefined (\<open>None\<close>).
\<close>

definition env_create :: "u32 \<Rightarrow> u32 \<Rightarrow> u32 \<Rightarrow> kstate \<Rightarrow> (nat \<times> kstate) option" where
  "env_create binary sz priority s =
     do { (r, s) \<leftarrow> env_alloc 0 s;
          (case r of
             Inl _ \<Rightarrow> None
           | Inr e \<Rightarrow>
               (let s = upd_env e (\<lambda>x. x\<lparr>env_pri := priority, env_status := ENV_RUNNABLE\<rparr>) s
                in do { s \<leftarrow> load_icode e binary sz s;
                        Some (e, s\<lparr>env_sched_list := TAILQ_INSERT_HEAD e (env_sched_list s)\<rparr>) })) }"

section \<open>Freeing an environment\<close>

definition skip_pde :: "u32 \<Rightarrow> bool" where
  "skip_pde pdeno \<longleftrightarrow> (pdeno \<ge> PDX UTOP \<and> pdeno < PDX UVPT) \<or> (pdeno \<ge> PDX ULIM \<and> pdeno < PDX 0x90000000)"

text \<open>The inner loop over the entries of a table; the flag says that a library page was seen.\<close>

fun free_ptes :: "nat \<Rightarrow> u32 \<Rightarrow> u32 \<Rightarrow> u32 list \<Rightarrow> bool \<Rightarrow> kstate \<Rightarrow> (bool \<times> kstate) option" where
  "free_ptes e pdeno tab [] flag s = Some (flag, s)"
| "free_ptes e pdeno tab (pteno # ps) flag s =
     (let pte = kload32 s (tab + 4 * pteno) in
      if pte AND PTE_LIBRARY \<noteq> 0 then free_ptes e pdeno tab ps True s
      else if pte AND PTE_V \<noteq> 0 then
        do { s \<leftarrow> page_remove (env_pgdir (envs s e)) (env_asid (envs s e)) (push_bit 22 pdeno OR push_bit 12 pteno) s;
             free_ptes e pdeno tab ps flag s }
      else free_ptes e pdeno tab ps flag s)"

fun free_pdes :: "nat \<Rightarrow> u32 list \<Rightarrow> kstate \<Rightarrow> kstate option" where
  "free_pdes e [] s = Some s"
| "free_pdes e (pdeno # ds) s =
     (if skip_pde pdeno then free_pdes e ds s
      else
        let dir = env_pgdir (envs s e); d = kload32 s (dir + 4 * pdeno) in
        if d AND PTE_V = 0 then free_pdes e ds s
        else
          let pa = PADDR (PTE_ADDR d) in
          do { (flag, s) \<leftarrow> free_ptes e pdeno pa (map of_nat [0..<1024]) False s;
               s \<leftarrow> (if \<not> flag then
                      do { let s = kstore32 (dir + 4 * pdeno) 0 s;
                           pp \<leftarrow> addr2page (npage s) pa;
                           s \<leftarrow> page_decref pp s;
                           Some (SET_TLB_FLUSH (UVPT + push_bit 12 pdeno) (env_asid (envs s e)) 0 s) }
                     else Some s);
               free_pdes e ds s })"

definition env_free :: "nat \<Rightarrow> kstate \<Rightarrow> kstate option" where
  "env_free e s =
     do { s \<leftarrow> free_pdes e (map of_nat [0..<unat (PDX (NOT 0))]) s;
          pp \<leftarrow> addr2page (npage s) (env_pgdir (envs s e));
          s \<leftarrow> page_decref pp s;
          let s = asid_free (env_asid (envs s e)) s;
          let s = SET_TLB_FLUSH (UVPT + push_bit 12 (PDX UVPT)) (env_asid (envs s e)) 0 s;
          let s = upd_env e (\<lambda>x. x\<lparr>env_status := ENV_FREE\<rparr>) s;
          let s = s\<lparr>env_free_list := LIST_INSERT_HEAD e (env_free_list s)\<rparr>;
          q \<leftarrow> TAILQ_REMOVE e (env_sched_list s);
          Some (s\<lparr>env_sched_list := q, sscratch_csr := KERNEND\<rparr>) }"

section \<open>Running an environment\<close>

definition env_run :: "nat \<Rightarrow> kstate \<Rightarrow> kstate option" where
  "env_run e s =
     do { c_assert (env_status (envs s e) = ENV_RUNNABLE);
          let s = (case curenv s of None \<Rightarrow> s
                   | Some c \<Rightarrow> upd_env c (\<lambda>x. x\<lparr>env_tf := cur_frame s\<rparr>) s);
          let s = s\<lparr>curenv := Some e\<rparr>;
          let s = upd_env e (\<lambda>x. x\<lparr>env_runs := env_runs x + 1\<rparr>) s;
          let s = s\<lparr>cur_pgdir := env_pgdir (envs s e)\<rparr>;
          let s = SET_TLB_FLUSH 0 (env_asid (envs s e)) 1 s;
          let s = SET_SATP 1 (env_asid (envs s e)) (cur_pgdir s) s;
          Some (s\<lparr>resumed := Some (env_tf (envs s e))\<rparr>) }"

section \<open>What the memory manager leaves alone\<close>

text \<open>The operations of \<^verbatim>\<open>kern/pmap.c\<close> do not touch environments, queues or trap frames.\<close>

lemma more_upd [simp]:
  "pmap_st.more (set_ref p r s) = pmap_st.more s" "pmap_st.more (kstore32 a v s) = pmap_st.more s"
  "pmap_st.more (SET_TLB_FLUSH x y z s) = pmap_st.more s" "pmap_st.more (SET_SATP x y z s) = pmap_st.more s"
  by (simp_all add: set_ref_def kstore32_def SET_TLB_FLUSH_def SET_SATP_def)

lemma more_page_alloc: "page_alloc s = Some (r, s') \<Longrightarrow> pmap_st.more s' = pmap_st.more s"
  by (auto simp: page_alloc_def split: if_splits bind_splits)

lemma more_page_decref: "page_decref pp s = Some s' \<Longrightarrow> pmap_st.more s' = pmap_st.more s"
  by (auto simp: page_decref_def page_free_def Let_def split: if_splits bind_splits)

lemma more_pgdir_walk: "pgdir_walk pgdir va c s = Some (r, s') \<Longrightarrow> pmap_st.more s' = pmap_st.more s"
  by (auto simp: pgdir_walk_def Let_def dest!: more_page_alloc split: if_splits bind_splits sum.splits)

lemma more_page_remove: "page_remove pgdir asid va s = Some s' \<Longrightarrow> pmap_st.more s' = pmap_st.more s"
  by (auto simp: page_remove_def Let_def dest!: more_page_decref split: option.splits bind_splits)

lemma more_page_insert_new:
  "page_insert_new pgdir asid pp va perm s = Some (r, s') \<Longrightarrow> pmap_st.more s' = pmap_st.more s"
  by (auto simp: page_insert_new_def Let_def try_c_eq_Some dest!: more_pgdir_walk)

lemma more_page_insert:
  "page_insert pgdir asid pp va perm s = Some (r, s') \<Longrightarrow> pmap_st.more s' = pmap_st.more s"
  by (auto simp: page_insert_def Let_def dest!: more_page_insert_new more_page_remove
      split: if_splits bind_splits sum.splits)

text \<open>Nor do they switch the address space.\<close>

lemma pgdir_upd [simp]:
  "cur_pgdir (set_ref p r s) = cur_pgdir s" "cur_pgdir (kstore32 a v s) = cur_pgdir s"
  "cur_pgdir (SET_TLB_FLUSH x y z s) = cur_pgdir s" "cur_pgdir (SET_SATP x y z s) = cur_pgdir s"
  by (simp_all add: set_ref_def kstore32_def SET_TLB_FLUSH_def SET_SATP_def)

lemma pgdir_page_alloc: "page_alloc s = Some (r, s') \<Longrightarrow> cur_pgdir s' = cur_pgdir s"
  by (auto simp: page_alloc_def split: if_splits bind_splits)

lemma pgdir_page_decref: "page_decref pp s = Some s' \<Longrightarrow> cur_pgdir s' = cur_pgdir s"
  by (auto simp: page_decref_def page_free_def Let_def split: if_splits bind_splits)

lemma pgdir_pgdir_walk: "pgdir_walk pgdir va c s = Some (r, s') \<Longrightarrow> cur_pgdir s' = cur_pgdir s"
  by (auto simp: pgdir_walk_def Let_def dest!: pgdir_page_alloc split: if_splits bind_splits sum.splits)

lemma pgdir_page_remove: "page_remove pgdir asid va s = Some s' \<Longrightarrow> cur_pgdir s' = cur_pgdir s"
  by (auto simp: page_remove_def Let_def dest!: pgdir_page_decref split: option.splits bind_splits)

lemma pgdir_page_insert:
  "page_insert pgdir asid pp va perm s = Some (r, s') \<Longrightarrow> cur_pgdir s' = cur_pgdir s"
  by (auto simp: page_insert_def page_insert_new_def Let_def try_c_eq_Some dest!: pgdir_pgdir_walk pgdir_page_remove
      split: if_splits bind_splits sum.splits)

lemmas more_frames = more_page_alloc more_page_decref more_page_remove more_page_insert

lemma more_fields:
  assumes "pmap_st.more s' = pmap_st.more s"
  shows "envs s' = envs s" "curenv s' = curenv s" "env_free_list s' = env_free_list s"
    "env_sched_list s' = env_sched_list s" "asid_bitmap s' = asid_bitmap s" "mkenvid_i s' = mkenvid_i s"
    "base_pgdir s' = base_pgdir s" "sched_count s' = sched_count s" "kframes s' = kframes s"
    "sscratch_csr s' = sscratch_csr s" "resumed s' = resumed s" "envs_ptr s' = envs_ptr s"
    "console_out s' = console_out s" "console_in s' = console_in s" "vq s' = vq s" "disk_img s' = disk_img s"
  using assms by (cases s; cases s'; simp)+

section \<open>ASIDs\<close>

text \<open>The bitmap as a set.\<close>

definition asids :: "kstate \<Rightarrow> nat set" where
  "asids s = {i. i < NASID \<and> asid_used (asid_bitmap s) i}"

lemma asid_used_bit: "asid_used bm i \<longleftrightarrow> bit (bm (i div 32)) (i mod 32)"
proof -
  have "bm (i div 32) AND push_bit (i mod 32) 1 \<noteq> 0 \<longleftrightarrow> bit (bm (i div 32)) (i mod 32)"
    using bit_eq_iff [of "bm (i div 32) AND push_bit (i mod 32) 1" 0]
    by (auto simp: bit_simps dest: bit_imp_le_length intro!: exI [of _ "i mod 32"])
  then show ?thesis by (simp add: asid_used_def)
qed

lemma asid_scan_find: "asid_scan bm is = find (\<lambda>i. \<not> asid_used bm i) is"
  by (induction "is") (auto simp: asid_used_def Let_def drop_bit_eq_div)

lemma asid_set_bit:
  assumes "j < NASID"
  shows "asid_used (bm(i div 32 := bm (i div 32) OR push_bit (i mod 32) 1)) j \<longleftrightarrow> j = i \<or> asid_used bm j"
proof -
  have "j = i \<longleftrightarrow> j div 32 = i div 32 \<and> j mod 32 = i mod 32" by (metis mult_div_mod_eq)
  then show ?thesis by (auto simp: asid_used_bit bit_simps)
qed

lemma asid_clear_bit:
  "asid_used (bm(i div 32 := bm (i div 32) AND NOT (push_bit (i mod 32) 1))) j \<longleftrightarrow> j \<noteq> i \<and> asid_used bm j"
proof -
  have "j = i \<longleftrightarrow> j div 32 = i div 32 \<and> j mod 32 = i mod 32" by (metis mult_div_mod_eq)
  then show ?thesis by (auto simp: asid_used_bit bit_simps dest: bit_imp_le_length)
qed

text \<open>\<open>asid_alloc\<close> takes the least free identifier, and fails exactly when all are taken.\<close>

lemma asid_alloc_full: "asids s = {..<NASID} \<Longrightarrow> asid_alloc s = Some (Inl E_NO_FREE_ENV, s)"
proof -
  assume "asids s = {..<NASID}"
  then have "\<forall>i < NASID. asid_used (asid_bitmap s) i" by (auto simp: asids_def)
  then have "find (\<lambda>i. \<not> asid_used (asid_bitmap s) i) [0..<NASID] = None" by (simp add: find_None_iff)
  then show ?thesis by (simp add: asid_alloc_def asid_scan_find)
qed

lemma asid_alloc_ok:
  assumes "asids s \<noteq> {..<NASID}"
  defines "i \<equiv> LEAST i. i \<notin> asids s"
  shows "\<exists>bm. asid_alloc s = Some (Inr (of_nat i), s\<lparr>asid_bitmap := bm\<rparr>) \<and> i < NASID \<and> i \<notin> asids s \<and>
    asids (s\<lparr>asid_bitmap := bm\<rparr>) = insert i (asids s)"
proof -
  from assms(1) obtain j where j: "j < NASID" "j \<notin> asids s" by (auto simp: asids_def)
  have i: "i \<notin> asids s" "i < NASID" unfolding i_def using j LeastI [of "\<lambda>i. i \<notin> asids s" j] Least_le [of "\<lambda>i. i \<notin> asids s" j] by auto
  have less: "k \<in> asids s" if "k < i" for k using that not_less_Least [of k "\<lambda>i. i \<notin> asids s"] by (auto simp: i_def)
  have "find (\<lambda>i. \<not> asid_used (asid_bitmap s) i) [0..<NASID] = Some i"
    unfolding find_Some_iff using i less by (auto simp: asids_def intro!: exI [of _ i])
  then have "asid_alloc s = Some (Inr (of_nat i), s\<lparr>asid_bitmap := (asid_bitmap s)(i div 32 := asid_bitmap s (i div 32) OR push_bit (i mod 32) 1)\<rparr>)"
    by (simp add: asid_alloc_def asid_scan_find Let_def drop_bit_eq_div)
  moreover have "asids (s\<lparr>asid_bitmap := (asid_bitmap s)(i div 32 := asid_bitmap s (i div 32) OR push_bit (i mod 32) 1)\<rparr>) = insert i (asids s)"
    using asid_set_bit i by (auto simp: asids_def)
  ultimately show ?thesis using i by blast
qed

lemma asids_less: "asids s \<subseteq> {..<NASID}"
  by (auto simp: asids_def)

interpretation asid: allocator "\<lambda>_. True" "\<lambda>s. of_nat ` ({..<NASID} - asids s)" "\<lambda>s. granted (asid_alloc s)"
proof
  fix s
  let ?f = "\<lambda>s. (of_nat ` ({..<NASID} - asids s) :: u32 set)"
  show "granted (asid_alloc s) = None \<longleftrightarrow> ?f s = {}"
  proof (cases "asids s = {..<NASID}")
    case True
    then show ?thesis using asid_alloc_full [of s] by simp
  next
    case False
    then have "{..<NASID} - asids s \<noteq> {}" using asids_less [of s] by blast
    moreover obtain bm where "asid_alloc s = Some (Inr (of_nat (LEAST i. i \<notin> asids s)), s\<lparr>asid_bitmap := bm\<rparr>)"
      using asid_alloc_ok [OF False] by blast
    ultimately show ?thesis by simp
  qed
  fix x s' assume a: "granted (asid_alloc s) = Some (x, s')"
  then have "asids s \<noteq> {..<NASID}" using asid_alloc_full [of s] by (metis granted_simps(2) option.distinct(1))
  from asid_alloc_ok [OF this] obtain i bm where "asid_alloc s = Some (Inr (of_nat i), s\<lparr>asid_bitmap := bm\<rparr>)"
    and i: "i < NASID" "i \<notin> asids s" "asids (s\<lparr>asid_bitmap := bm\<rparr>) = insert i (asids s)" by blast
  with a have x: "x = of_nat i" "asids s' = insert i (asids s)" by simp_all
  have inj: "inj_on (of_nat :: nat \<Rightarrow> u32) {..<NASID}"
    by (rule inj_on_inverseI [of _ unat]) (simp add: unat_of_nat32)
  have "{..<NASID} - asids s' = ({..<NASID} - asids s) - {i}" unfolding x(2) by blast
  then have "?f s' = ?f s - {x}"
    using inj_on_image_set_diff [OF inj, of "{..<NASID} - asids s" "{i}"] i(1,2) x(1)
    by (simp add: subset_iff)
  then show "x \<in> ?f s \<and> ?f s' = ?f s - {x} \<and> True" using i(1,2) x(1) by simp
qed

lemma asids_asid_free: "i < NASID \<Longrightarrow> asids (asid_free (of_nat i) s) = asids s - {i}"
proof -
  assume i: "i < NASID"
  have u: "unat (of_nat i :: u32) = i" using i by (intro unat_of_nat32) simp
  have a: "unat (drop_bit 5 (of_nat i :: u32)) = i div 32" by (simp add: unat_drop_bit32 u)
  have m: "(31 :: u32) = mask 5" by (simp add: mask_eq_exp_minus_1)
  have b: "unat ((of_nat i :: u32) AND 31) = i mod 32"
    unfolding m take_bit_eq_mask [symmetric] by (simp only: unsigned_take_bit_eq u) (simp add: take_bit_eq_mod)
  show ?thesis using asid_clear_bit by (auto simp: asids_def asid_free_def Let_def a b)
qed

section \<open>Environment identifiers\<close>

text \<open>The index survives in the low bits of the identifier.\<close>

lemma ENVX_mkenvid: "e < NENV \<Longrightarrow> unat (ENVX (fst (mkenvid e s))) = e"
proof -
  assume e: "e < NENV"
  have t: "take_bit 10 (of_nat e :: u32) = of_nat e"
    using e by (simp add: word_unat_eq_iff unsigned_take_bit_eq unat_of_nat take_bit_nat_eq_self_iff)
  have "ENVX (push_bit 11 i OR of_nat e) = take_bit 10 (of_nat e)" for i
    unfolding ENVX_def mask10 by (rule bit_word_eqI) (auto simp: bit_simps)
  then show ?thesis using t e by (simp add: mkenvid_def Let_def unat_of_nat)
qed

text \<open>The generation counter is in the others, so identifiers repeat only after \<open>2 ^ 21\<close> creations.\<close>

lemma mkenvid_inj:
  assumes "e < NENV" "e' < NENV" "unat i < 2 ^ 21" "unat j < 2 ^ 21"
    and "push_bit 11 i OR of_nat e = (push_bit 11 j OR of_nat e' :: u32)"
  shows "i = j \<and> e = e'"
proof -
  have small: "\<not> bit (of_nat x :: u32) n" if "x < NENV" "11 \<le> n" for x n
  proof -
    have "take_bit 10 (of_nat x :: u32) = of_nat x"
      using that by (simp add: word_unat_eq_iff unsigned_take_bit_eq unat_of_nat take_bit_nat_eq_self_iff)
    then have "bit (of_nat x :: u32) n = bit (take_bit 10 (of_nat x :: u32)) n" by simp
    then show ?thesis using that by (simp add: bit_simps)
  qed
  have top: "drop_bit 11 (push_bit 11 k OR of_nat x) = take_bit 21 (k :: u32)" if "x < NENV" for k x
    using small [OF that] by (intro bit_word_eqI) (auto simp: bit_simps)
  have t: "take_bit 21 k = k" if "unat k < 2 ^ 21" for k :: u32
    using that by (simp add: word_unat_eq_iff unsigned_take_bit_eq take_bit_nat_eq_self_iff)
  have "i = j" using arg_cong [OF assms(5), of "drop_bit 11"] top assms(1-4) t by metis
  moreover have "unat (ENVX (push_bit 11 i OR of_nat x)) = x" if "x < NENV" for x
    using ENVX_mkenvid [OF that, of "undefined\<lparr>mkenvid_i := i - 1\<rparr>"] by (simp add: mkenvid_def Let_def)
  ultimately show ?thesis using assms by metis
qed

text \<open>
  Who may act on whom: with \<open>checkperm\<close>, \<open>envid2env\<close> only yields the current environment or one of its
  children.
\<close>

lemma envid2env_perm:
  assumes "envid2env envid 1 s = Some (Inr (Some e), s')"
  shows "s' = s \<and> (curenv s = Some e \<or> (\<exists>c. curenv s = Some c \<and> e = unat (ENVX envid) \<and>
    env_parent_id (envs s e) = env_id (envs s c)))"
  using assms by (auto simp: envid2env_def Let_def split: if_splits bind_splits)

lemma envid2env_result:
  assumes "curenv s = Some c"
  shows "envid2env envid ck s = Some (if envid = 0 then Inr (Some c)
     else if ck \<noteq> 0 \<and> unat (ENVX envid) \<noteq> c \<and> env_parent_id (envs s (unat (ENVX envid))) \<noteq> env_id (envs s c)
     then Inl E_BAD_ENV else Inr (Some (unat (ENVX envid))), s)"
  using assms by (auto simp: envid2env_def Let_def)

end
