(* ===== verification/Sched.thy ===== *)
theory Sched
  imports KernEnv
begin

text \<open>
  \<^verbatim>\<open>kern/sched.c\<close>, and \<open>env_destroy\<close> of \<^verbatim>\<open>kern/env.c\<close>, which ends in it. The theorems are about the queue
  discipline: a yield moves the running environment to the back and runs the one in front, so every
  environment of the queue gets its turn; and about what the time slice does.
\<close>

section \<open>The scheduler\<close>

text \<open>The choice of the next environment; the null pointer is \<open>None\<close> of the result.\<close>

definition sched_pick :: "int \<Rightarrow> kstate \<Rightarrow> (nat option \<times> kstate) option" where
  "sched_pick yield s =
     (let e = curenv s in
      if (case e of None \<Rightarrow> True | Some c \<Rightarrow> env_status (envs s c) \<noteq> ENV_RUNNABLE)
      then Some (TAILQ_FIRST (env_sched_list s), s)
      else if yield \<noteq> 0 \<or> sint (sched_count s) \<le> 0 then
        do { c \<leftarrow> e;
             s \<leftarrow> (if env_status (envs s c) = ENV_RUNNABLE then
                    do { q \<leftarrow> TAILQ_REMOVE c (env_sched_list s);
                         Some (s\<lparr>env_sched_list := TAILQ_INSERT_TAIL c q\<rparr>) }
                   else Some s);
             Some (TAILQ_FIRST (env_sched_list s), s) }
      else Some (e, s))"

definition schedule :: "int \<Rightarrow> kstate \<Rightarrow> kstate option" where
  "schedule yield s =
     (let s = s\<lparr>sched_count := sched_count s - 1\<rparr> in
      do { (r, s) \<leftarrow> sched_pick yield s;
           e \<leftarrow> r;
           env_run e (s\<lparr>sched_count := env_pri (envs s e)\<rparr>) })"

definition env_destroy :: "nat \<Rightarrow> kstate \<Rightarrow> (unit outcome \<times> kstate) option" where
  "env_destroy e s =
     do { s \<leftarrow> env_free e s;
          (if curenv s = Some e then
             do { s \<leftarrow> schedule 1 (s\<lparr>curenv := None\<rparr>); Some (Switched, s) }
           else Some (Returned (), s)) }"

section \<open>The queue invariant\<close>

text \<open>The queue holds exactly the runnable environments.\<close>

definition sched_inv :: "kstate \<Rightarrow> nat list \<Rightarrow> bool" where
  "sched_inv s q \<longleftrightarrow> tailq_rep (env_sched_list s) q \<and>
     (\<forall>e. e \<in> set q \<longleftrightarrow> e < NENV \<and> env_status (envs s e) = ENV_RUNNABLE)"

text \<open>
  The table of environments after a switch to \<open>e\<close>: the frame of the trap is saved in the environment that
  was running, and the run counter of \<open>e\<close> goes up.
\<close>

definition after_switch :: "kstate \<Rightarrow> nat \<Rightarrow> nat \<Rightarrow> Env" where
  "after_switch s e x = (envs s x)\<lparr>
     env_tf := (if curenv s = Some x then cur_frame s else env_tf (envs s x)),
     env_runs := env_runs (envs s x) + (if x = e then 1 else 0)\<rparr>"

lemma after_switch_fields [simp]:
  "env_id (after_switch s e x) = env_id (envs s x)" "env_status (after_switch s e x) = env_status (envs s x)"
  "env_pri (after_switch s e x) = env_pri (envs s x)" "env_pgdir (after_switch s e x) = env_pgdir (envs s x)"
  "env_asid (after_switch s e x) = env_asid (envs s x)" "env_parent_id (after_switch s e x) = env_parent_id (envs s x)"
  "env_ipc_recving (after_switch s e x) = env_ipc_recving (envs s x)" "env_ipc_dstva (after_switch s e x) = env_ipc_dstva (envs s x)"
  "env_tf (after_switch s e x) = (if curenv s = Some x then cur_frame s else env_tf (envs s x))"
  "after_switch (s\<lparr>sched_count := n\<rparr>) e = after_switch s e" "after_switch (s\<lparr>env_sched_list := h\<rparr>) e = after_switch s e"
  by (auto simp: after_switch_def fun_eq_iff cur_frame_def)

lemma env_run_ok:
  assumes "env_status (envs s e) = ENV_RUNNABLE"
  shows "\<exists>s'. env_run e s = Some s' \<and> curenv s' = Some e \<and> env_sched_list s' = env_sched_list s \<and>
    envs s' = after_switch s e \<and> sched_count s' = sched_count s \<and> cur_pgdir s' = env_pgdir (envs s e) \<and>
    resumed s' = Some (env_tf (after_switch s e e)) \<and>
    pp_ref s' = pp_ref s \<and> kmem s' = kmem s \<and> sscratch_csr s' = sscratch_csr s \<and> kframes s' = kframes s"
  using assms
  by (cases "curenv s") (auto simp: env_run_def upd_env_def cur_frame_def SET_TLB_FLUSH_def SET_SATP_def Let_def
      after_switch_def fun_eq_iff)

lemma sched_inv_env_run:
  assumes "sched_inv s q" "e \<in> set q"
  shows "\<exists>s'. env_run e s = Some s' \<and> sched_inv s' q \<and> curenv s' = Some e \<and> sched_count s' = sched_count s \<and>
    envs s' = after_switch s e \<and> cur_pgdir s' = env_pgdir (envs s e) \<and> resumed s' = Some (env_tf (after_switch s e e)) \<and>
    pp_ref s' = pp_ref s \<and> kmem s' = kmem s"
proof -
  have "env_status (envs s e) = ENV_RUNNABLE" using assms by (auto simp: sched_inv_def)
  from env_run_ok [OF this] obtain s' where "env_run e s = Some s'" "curenv s' = Some e"
    "env_sched_list s' = env_sched_list s" "envs s' = after_switch s e" "sched_count s' = sched_count s"
    "cur_pgdir s' = env_pgdir (envs s e)" "resumed s' = Some (env_tf (after_switch s e e))"
    "pp_ref s' = pp_ref s" "kmem s' = kmem s" by blast
  then show ?thesis using assms(1) by (simp add: sched_inv_def)
qed

text \<open>A yield of the running environment: it goes to the back, the one in front of the queue runs.\<close>

lemma sched_pick_yield:
  assumes inv: "sched_inv s q" and c: "curenv s = Some c" "c \<in> set q" and y: "yield \<noteq> 0 \<or> sint (sched_count s) \<le> 0"
  shows "\<exists>s1. sched_pick yield s = Some (Some (hd (remove1 c q @ [c])), s1) \<and> sched_inv s1 (remove1 c q @ [c]) \<and>
    envs s1 = envs s \<and> curenv s1 = curenv s \<and> cur_frame s1 = cur_frame s \<and> kmem s1 = kmem s"
proof -
  have st: "env_status (envs s c) = ENV_RUNNABLE" and rep: "tailq_rep (env_sched_list s) q"
    using inv c by (auto simp: sched_inv_def)
  from tq.requeue [OF rep c(2)] obtain h where h: "TAILQ_REMOVE c (env_sched_list s) = Some h"
    "tailq_rep (TAILQ_INSERT_TAIL c h) (remove1 c q @ [c])" by blast
  have "TAILQ_FIRST (TAILQ_INSERT_TAIL c h) = Some (hd (remove1 c q @ [c]))"
    using TAILQ_FIRST_rep [OF h(2)] by (simp split: list.split)
  moreover have "set (remove1 c q @ [c]) = set q"
    using c(2) rep by (auto simp: tailq_rep_def)
  ultimately show ?thesis using inv c st h y
    by (auto simp: sched_pick_def sched_inv_def Let_def cur_frame_def)
qed

lemma schedule_yield:
  assumes inv: "sched_inv s q" and c: "curenv s = Some c" "c \<in> set q" and y: "yield \<noteq> 0 \<or> sint (sched_count s - 1) \<le> 0"
  defines "e \<equiv> hd (remove1 c q @ [c])"
  shows "\<exists>s'. schedule yield s = Some s' \<and> sched_inv s' (remove1 c q @ [c]) \<and> curenv s' = Some e \<and>
    envs s' = after_switch s e \<and> resumed s' = Some (env_tf (after_switch s e e)) \<and>
    sched_count s' = env_pri (envs s e) \<and> cur_pgdir s' = env_pgdir (envs s e) \<and> kmem s' = kmem s"
proof -
  let ?q = "remove1 c q @ [c]" and ?s = "s\<lparr>sched_count := sched_count s - 1\<rparr>"
  have "sched_inv ?s q" "curenv ?s = Some c" using inv c by (auto simp: sched_inv_def)
  from sched_pick_yield [OF this c(2)] y obtain s1 where s1: "sched_pick yield ?s = Some (Some e, s1)" "sched_inv s1 ?q"
    "envs s1 = envs s" "curenv s1 = curenv s" "cur_frame s1 = cur_frame s" "kmem s1 = kmem s" by (auto simp: e_def cur_frame_def)
  let ?s2 = "s1\<lparr>sched_count := env_pri (envs s1 e)\<rparr>"
  have sw: "after_switch s1 = after_switch s" using s1(3-5) by (simp add: fun_eq_iff after_switch_def)
  have "sched_inv ?s2 ?q" using s1(2) by (simp add: sched_inv_def)
  moreover have "e \<in> set ?q" unfolding e_def by (rule hd_in_set) simp
  ultimately obtain s' where "env_run e ?s2 = Some s'" "sched_inv s' ?q" "curenv s' = Some e"
    "sched_count s' = env_pri (envs s e)" "envs s' = after_switch s e" "resumed s' = Some (env_tf (after_switch s e e))"
    "cur_pgdir s' = env_pgdir (envs s e)" "kmem s' = kmem s"
    using sched_inv_env_run [of ?s2 ?q e] s1(3,6) sw by auto
  then show ?thesis using s1(1) by (simp add: schedule_def Let_def)
qed

text \<open>No environment is current, or it is blocked: the queue is left as it is.\<close>

lemma schedule_next:
  assumes inv: "sched_inv s q" and ne: "q \<noteq> []"
    and cur: "\<forall>c. curenv s = Some c \<longrightarrow> env_status (envs s c) \<noteq> ENV_RUNNABLE"
  shows "\<exists>s'. schedule yield s = Some s' \<and> sched_inv s' q \<and> curenv s' = Some (hd q) \<and>
    envs s' = after_switch s (hd q) \<and> resumed s' = Some (env_tf (after_switch s (hd q) (hd q))) \<and>
    cur_pgdir s' = env_pgdir (envs s (hd q)) \<and> kmem s' = kmem s"
proof -
  let ?s = "s\<lparr>sched_count := sched_count s - 1\<rparr>"
  have "tailq_rep (env_sched_list s) q" using inv by (simp add: sched_inv_def)
  from TAILQ_FIRST_rep [OF this] ne have "TAILQ_FIRST (env_sched_list ?s) = Some (hd q)" by (simp split: list.splits)
  then have pick: "sched_pick yield ?s = Some (Some (hd q), ?s)"
    using cur by (auto simp: sched_pick_def Let_def split: option.split)
  have "sched_inv (?s\<lparr>sched_count := env_pri (envs s (hd q))\<rparr>) q" using inv by (simp add: sched_inv_def)
  from sched_inv_env_run [OF this hd_in_set [OF ne]] obtain s' where "env_run (hd q) (?s\<lparr>sched_count := env_pri (envs s (hd q))\<rparr>) = Some s'"
    "sched_inv s' q" "curenv s' = Some (hd q)" "envs s' = after_switch s (hd q)" "resumed s' = Some (env_tf (after_switch s (hd q) (hd q)))"
    "cur_pgdir s' = env_pgdir (envs s (hd q))" "kmem s' = kmem s" by auto
  then show ?thesis using pick by (simp add: schedule_def Let_def)
qed

lemma schedule_empty:
  assumes "sched_inv s []" "\<forall>c. curenv s = Some c \<longrightarrow> env_status (envs s c) \<noteq> ENV_RUNNABLE"
  shows "schedule yield s = None"
proof -
  have "TAILQ_FIRST (env_sched_list s) = None"
    using assms(1) TAILQ_FIRST_rep [of "env_sched_list s" "[]"] by (simp add: sched_inv_def)
  then show ?thesis using assms(2) by (auto simp: schedule_def sched_pick_def Let_def split: option.split)
qed

section \<open>Round robin\<close>

text \<open>Yield after yield.\<close>

fun yields :: "nat \<Rightarrow> kstate \<Rightarrow> kstate option" where
  "yields 0 s = Some s"
| "yields (Suc n) s = do { s \<leftarrow> schedule 1 s; yields n s }"

lemma yield_rotates:
  assumes "sched_inv s (c # q)" "curenv s = Some c"
  shows "\<exists>s'. schedule 1 s = Some s' \<and> sched_inv s' (q @ [c]) \<and> curenv s' = Some (hd (q @ [c]))"
  using schedule_yield [OF assms(1,2), of 1] by auto

lemma yields_rotate:
  assumes "sched_inv s q" "q \<noteq> []" "curenv s = Some (hd q)"
  shows "\<exists>s'. yields n s = Some s' \<and> sched_inv s' (rotate n q) \<and> curenv s' = Some (q ! (n mod length q))"
  using assms
proof (induction n arbitrary: s q)
  case 0
  then show ?case by (simp add: hd_conv_nth)
next
  case (Suc n)
  then obtain c p where q: "q = c # p" by (cases q) auto
  from yield_rotates [of s c p] Suc.prems q obtain s1 where
    s1: "schedule 1 s = Some s1" "sched_inv s1 (p @ [c])" "curenv s1 = Some (hd (p @ [c]))" by auto
  from Suc.IH [OF s1(2) _ s1(3)] obtain s' where
    s': "yields n s1 = Some s'" "sched_inv s' (rotate n (p @ [c]))" "curenv s' = Some ((p @ [c]) ! (n mod length (p @ [c])))" by auto
  have r: "p @ [c] = rotate1 q" by (simp add: q)
  have "rotate n (rotate1 q) = rotate (Suc n) q" by (simp add: rotate1_rotate_swap)
  moreover have "rotate1 q ! (n mod length q) = q ! (Suc n mod length q)"
    using nth_rotate1 [of "n mod length q" q] q by (simp add: mod_Suc_eq)
  ultimately show ?case using s1(1) s' unfolding r by simp
qed

section \<open>The time slice\<close>

text \<open>
  On a timer tick the counter is decremented, and then set to the priority again whatever the outcome.
  With priority 1 every tick is a yield; with a larger one the running environment is never preempted.
\<close>

lemma tick_priority_one:
  assumes "sched_inv s (c # q)" "curenv s = Some c" "sched_count s = 1"
  shows "\<exists>s'. schedule 0 s = Some s' \<and> sched_inv s' (q @ [c]) \<and> curenv s' = Some (hd (q @ [c])) \<and>
    sched_count s' = env_pri (envs s (hd (q @ [c])))"
  using schedule_yield [OF assms(1,2), of 0] assms(3) by auto

lemma tick_no_preemption:
  assumes inv: "sched_inv s q" and c: "curenv s = Some c" "c \<in> set q" and p: "sint (env_pri (envs s c)) > 1"
    and n: "sched_count s = env_pri (envs s c)"
  shows "\<exists>s'. schedule 0 s = Some s' \<and> sched_inv s' q \<and> curenv s' = Some c \<and>
    sched_count s' = env_pri (envs s' c) \<and> env_pri (envs s' c) = env_pri (envs s c)"
proof -
  let ?s = "s\<lparr>sched_count := sched_count s - 1\<rparr>"
  have st: "env_status (envs s c) = ENV_RUNNABLE" using inv c by (auto simp: sched_inv_def)
  have "sint (env_pri (envs s c) - 1) = sint (env_pri (envs s c)) - 1"
  proof -
    have "sint (env_pri (envs s c)) < 2 ^ 31" using sint_lt [of "env_pri (envs s c)"] by simp
    then show ?thesis using p by (simp add: sint_word_ariths signed_take_bit_int_eq_self)
  qed
  then have "sched_pick 0 ?s = Some (Some c, ?s)" using c st p n by (simp add: sched_pick_def)
  moreover have "sched_inv (?s\<lparr>sched_count := env_pri (envs s c)\<rparr>) q" using inv by (simp add: sched_inv_def)
  moreover from sched_inv_env_run [OF this c(2)] obtain s' where "env_run c (?s\<lparr>sched_count := env_pri (envs s c)\<rparr>) = Some s'"
    "sched_inv s' q" "curenv s' = Some c" "sched_count s' = env_pri (envs s c)" "env_pri (envs s' c) = env_pri (envs s c)" by auto
  ultimately show ?thesis by (simp add: schedule_def Let_def)
qed

fun ticks :: "nat \<Rightarrow> kstate \<Rightarrow> kstate option" where
  "ticks 0 s = Some s"
| "ticks (Suc n) s = do { s \<leftarrow> schedule 0 s; ticks n s }"

lemma ticks_no_preemption:
  assumes "sched_inv s q" "curenv s = Some c" "c \<in> set q" "sint (env_pri (envs s c)) > 1"
    and "sched_count s = env_pri (envs s c)"
  shows "\<exists>s'. ticks n s = Some s' \<and> sched_inv s' q \<and> curenv s' = Some c"
  using assms
proof (induction n arbitrary: s)
  case (Suc n)
  from tick_no_preemption [OF Suc.prems] obtain s1 where "schedule 0 s = Some s1" "sched_inv s1 q" "curenv s1 = Some c"
    "sched_count s1 = env_pri (envs s1 c)" "env_pri (envs s1 c) = env_pri (envs s c)" by blast
  then show ?case using Suc.IH [of s1] Suc.prems by auto
qed auto

end
