(* ===== verification/Virtio.thy ===== *)
theory Virtio
  imports KernEnv
begin

text \<open>
  \<^verbatim>\<open>kern/virtio_disk.c\<close>: set-up of the disk, the bitmap of descriptors, and the transfer of sectors. The device is
  not part of the sources: it is the argument \<open>dev\<close>, applied when the driver has notified it, and
  \<open>mmio\<close>, the value a register reads after a history of writes.
\<close>

section \<open>Set-up\<close>

abbreviation QUEUE_SIZE :: nat where "QUEUE_SIZE \<equiv> 32"

text \<open>Register offsets.\<close>

abbreviation DISK_MAGIC_VALUE :: u32 where "DISK_MAGIC_VALUE \<equiv> 0x000"
abbreviation DISK_VERSION :: u32 where "DISK_VERSION \<equiv> 0x004"
abbreviation DISK_DEVICEID :: u32 where "DISK_DEVICEID \<equiv> 0x008"
abbreviation DISK_VENDORID :: u32 where "DISK_VENDORID \<equiv> 0x00c"
abbreviation DISK_DEVICEFEATHERS :: u32 where "DISK_DEVICEFEATHERS \<equiv> 0x010"
abbreviation DISK_DEVICEFEATHERS_SEL :: u32 where "DISK_DEVICEFEATHERS_SEL \<equiv> 0x014"
abbreviation DISK_DRIVERFEATHERS :: u32 where "DISK_DRIVERFEATHERS \<equiv> 0x020"
abbreviation DISK_DRIVERFEATHERS_SEL :: u32 where "DISK_DRIVERFEATHERS_SEL \<equiv> 0x024"
abbreviation DISK_QUEUENUM_MAX :: u32 where "DISK_QUEUENUM_MAX \<equiv> 0x034"
abbreviation DISK_QUEUENUM :: u32 where "DISK_QUEUENUM \<equiv> 0x038"
abbreviation DISK_QUEUEREADY :: u32 where "DISK_QUEUEREADY \<equiv> 0x044"
abbreviation DISK_STATUS :: u32 where "DISK_STATUS \<equiv> 0x070"
abbreviation DISK_QUEUEDESC_LOW :: u32 where "DISK_QUEUEDESC_LOW \<equiv> 0x080"
abbreviation DISK_QUEUEDESC_HIGH :: u32 where "DISK_QUEUEDESC_HIGH \<equiv> 0x084"
abbreviation DISK_AVAIL_LOW :: u32 where "DISK_AVAIL_LOW \<equiv> 0x090"
abbreviation DISK_AVAIL_HIGH :: u32 where "DISK_AVAIL_HIGH \<equiv> 0x094"
abbreviation DISK_USED_LOW :: u32 where "DISK_USED_LOW \<equiv> 0x0a0"
abbreviation DISK_USED_HIGH :: u32 where "DISK_USED_HIGH \<equiv> 0x0a4"

abbreviation ACKNOWLEDGE :: u32 where "ACKNOWLEDGE \<equiv> 1"
abbreviation DRIVER :: u32 where "DRIVER \<equiv> 2"
abbreviation DRIVER_OK :: u32 where "DRIVER_OK \<equiv> 4"
abbreviation FEATHERS_OK :: u32 where "FEATHERS_OK \<equiv> 8"

type_synonym writes = "(u32 \<times> u32) list"

text \<open>A page for one of the queue's structures: allocated, counted, and zero.\<close>

definition queue_page :: "kstate \<Rightarrow> (u32 \<times> kstate) option" where
  "queue_page s =
     do { (r, s) \<leftarrow> page_alloc s;
          (case r of Inl _ \<Rightarrow> None
           | Inr pp \<Rightarrow> (let s = set_ref pp (pp_ref s pp + 1) s in Some (page2addr pp, s))) }"

abbreviation zero_desc :: virtq_desc where
  "zero_desc \<equiv> \<lparr>d_addr = 0, d_len = 0, d_flags = 0, d_next = 0\<rparr>"
abbreviation zero_req :: virtio_blk_req where
  "zero_req \<equiv> \<lparr>rq_type = 0, rq_reserved = 0, rq_sector = 0, rq_data = 0, rq_status = 0\<rparr>"

abbreviation zero_used :: virtq_used_elem where
  "zero_used \<equiv> \<lparr>ue_id = 0, ue_len = 0\<rparr>"

definition disk_init :: "(writes \<Rightarrow> u32 \<Rightarrow> u32) \<Rightarrow> kstate \<Rightarrow> (writes \<times> kstate) option" where
  "disk_init mmio s =
     (let w = [] in
      do { c_assert (mmio w DISK_MAGIC_VALUE = 0x74726976 \<and> mmio w DISK_VERSION = 2 \<and>
             mmio w DISK_DEVICEID = 2 \<and> mmio w DISK_VENDORID = 0x554d4551);
           let status = 0;
           let w = w @ [(DISK_STATUS, status)];
           let status = status OR ACKNOWLEDGE;
           let w = w @ [(DISK_STATUS, status)];
           let status = status OR DRIVER;
           let w = w @ [(DISK_STATUS, status), (DISK_DEVICEFEATHERS_SEL, 0)];
           let feathers = mmio w DISK_DEVICEFEATHERS;
           let feathers = feathers AND NOT (push_bit 5 1) AND NOT (push_bit 11 1) AND NOT (push_bit 12 1)
                 AND NOT (push_bit 27 1) AND NOT (push_bit 29 1) AND NOT (push_bit 28 1);
           let w = w @ [(DISK_DRIVERFEATHERS, feathers), (DISK_DEVICEFEATHERS_SEL, 1)];
           let feathers = mmio w DISK_DEVICEFEATHERS;
           let w = w @ [(DISK_DRIVERFEATHERS_SEL, 1), (DISK_DRIVERFEATHERS, feathers)];
           let status = status OR FEATHERS_OK;
           let w = w @ [(DISK_STATUS, status)];
           c_assert (status AND FEATHERS_OK \<noteq> 0);
           c_assert (mmio w DISK_QUEUEREADY = 0);
           let maxq = mmio w DISK_QUEUENUM_MAX;
           c_assert (\<not> (maxq = 0 \<or> maxq < of_nat QUEUE_SIZE));
           (a, s) \<leftarrow> queue_page s;
           let s = s\<lparr>vq := (vq s)\<lparr>vq_ptr := a, vq_reqs := (\<lambda>_. zero_req), vq_free := 0\<rparr>\<rparr>;
           (a, s) \<leftarrow> queue_page s;
           let s = s\<lparr>vq := (vq s)\<lparr>vq_desc_ptr := a, vq_desc := (\<lambda>_. zero_desc)\<rparr>\<rparr>;
           (a, s) \<leftarrow> queue_page s;
           let s = s\<lparr>vq := (vq s)\<lparr>vq_avail_ptr := a, vq_avail := \<lparr>av_flags = 0, av_idx = 0, av_ring = (\<lambda>_. 0)\<rparr>\<rparr>\<rparr>;
           (a, s) \<leftarrow> queue_page s;
           let s = s\<lparr>vq := (vq s)\<lparr>vq_used_ptr := a, vq_used := \<lparr>us_flags = 0, us_idx = 0, us_ring = (\<lambda>_. zero_used)\<rparr>\<rparr>\<rparr>;
           let s = s\<lparr>vq := (vq s)\<lparr>vq_free := 0xff\<rparr>\<rparr>;
           let w = w @ [(DISK_QUEUENUM, of_nat QUEUE_SIZE),
                 (DISK_QUEUEDESC_LOW, vq_desc_ptr (vq s)), (DISK_QUEUEDESC_HIGH, 0),
                 (DISK_AVAIL_LOW, vq_avail_ptr (vq s)), (DISK_AVAIL_HIGH, 0),
                 (DISK_USED_LOW, vq_used_ptr (vq s)), (DISK_USED_HIGH, 0),
                 (DISK_QUEUEREADY, 1)];
           let status = status OR DRIVER_OK;
           let w = w @ [(DISK_STATUS, status)];
           Some (w, s) })"

section \<open>Descriptors\<close>

text \<open>\<open>free\<close> is an \<open>_u8\<close>, promoted to \<open>int\<close> in the test; \<open>None\<close> is the result -1.\<close>

fun alloc_desc_from :: "nat list \<Rightarrow> virtqueue \<Rightarrow> nat option \<times> virtqueue" where
  "alloc_desc_from [] q = (None, q)"
| "alloc_desc_from (i # is) q =
     (if (ucast (vq_free q) :: u32) AND push_bit i 1 \<noteq> 0
      then (Some i, q\<lparr>vq_free := ucast ((ucast (vq_free q) :: u32) AND NOT (push_bit i 1))\<rparr>)
      else alloc_desc_from is q)"

definition alloc_desc :: "virtqueue \<Rightarrow> nat option \<times> virtqueue" where
  "alloc_desc q = alloc_desc_from [0..<QUEUE_SIZE] q"

definition free_desc :: "nat \<Rightarrow> virtqueue \<Rightarrow> virtqueue" where
  "free_desc i q = q\<lparr>vq_free := ucast ((ucast (vq_free q) :: u32) OR push_bit i 1)\<rparr>"

fun alloc_3desc_loop :: "nat \<Rightarrow> nat list \<Rightarrow> virtqueue \<Rightarrow> nat list option \<times> virtqueue" where
  "alloc_3desc_loop 0 idx q = (Some idx, q)"
| "alloc_3desc_loop (Suc n) idx q =
     (case alloc_desc q of
        (None, q) \<Rightarrow> (None, fold free_desc idx q)
      | (Some d, q) \<Rightarrow> alloc_3desc_loop n (idx @ [d]) q)"

definition alloc_3desc :: "virtqueue \<Rightarrow> nat list option \<times> virtqueue" where
  "alloc_3desc q = alloc_3desc_loop 3 [] q"

definition free_chain :: "nat list \<Rightarrow> virtqueue \<Rightarrow> virtqueue" where
  "free_chain idx q = fold free_desc idx q"

section \<open>Transfers\<close>

abbreviation VIRTIO_BLK_T_IN :: u32 where "VIRTIO_BLK_T_IN \<equiv> 0"
abbreviation VIRTIO_BLK_T_OUT :: u32 where "VIRTIO_BLK_T_OUT \<equiv> 1"
abbreviation VIRTQ_DESC_F_NEXT :: u16 where "VIRTQ_DESC_F_NEXT \<equiv> 1"
abbreviation VIRTQ_DESC_F_WRITE :: u16 where "VIRTQ_DESC_F_WRITE \<equiv> 2"

text \<open>\<open>&disk->reqs[i]\<close>: the array starts at offset 16 and its elements take 24 bytes, the status at 20.\<close>

definition req_addr :: "virtqueue \<Rightarrow> nat \<Rightarrow> u32" where
  "req_addr q i = vq_ptr q + 16 + 24 * of_nat i"

definition set_desc :: "nat \<Rightarrow> virtq_desc \<Rightarrow> virtqueue \<Rightarrow> virtqueue" where
  "set_desc i d q = q\<lparr>vq_desc := (vq_desc q)(i := d)\<rparr>"

definition build_request :: "nat list \<Rightarrow> u64 \<Rightarrow> bool \<Rightarrow> u32 \<Rightarrow> virtqueue \<Rightarrow> virtqueue" where
  "build_request idx sector wr buf q =
     (let i0 = idx ! 0; i1 = idx ! 1; i2 = idx ! 2;
          q = q\<lparr>vq_reqs := (vq_reqs q)(i0 :=
                \<lparr>rq_type = (if wr then VIRTIO_BLK_T_OUT else VIRTIO_BLK_T_IN), rq_reserved = 0,
                 rq_sector = sector, rq_data = buf, rq_status = 3\<rparr>)\<rparr>;
          q = set_desc i0 \<lparr>d_addr = ucast (req_addr q i0), d_len = 16, d_flags = VIRTQ_DESC_F_NEXT,
                d_next = of_nat i1\<rparr> q;
          q = set_desc i1 \<lparr>d_addr = ucast (rq_data (vq_reqs q i0)), d_len = 512,
                d_flags = (if wr then 0 else VIRTQ_DESC_F_WRITE) OR VIRTQ_DESC_F_NEXT, d_next = of_nat i2\<rparr> q;
          q = set_desc i2 \<lparr>d_addr = ucast (req_addr q i0 + 20), d_len = 1, d_flags = VIRTQ_DESC_F_WRITE,
                d_next = 0\<rparr> q;
          av = vq_avail q;
          q = q\<lparr>vq_avail := av\<lparr>av_ring := (av_ring av)(unat (av_idx av) mod QUEUE_SIZE := of_nat i0)\<rparr>\<rparr>;
          q = q\<lparr>vq_avail := (vq_avail q)\<lparr>av_idx := av_idx (vq_avail q) + 1\<rparr>\<rparr>
      in q\<lparr>vq_used := (vq_used q)\<lparr>us_idx := us_idx (vq_used q) + 1\<rparr>\<rparr>)"

type_synonym image = "u64 \<Rightarrow> nat \<Rightarrow> u8"
type_synonym device = "virtqueue \<Rightarrow> mem \<Rightarrow> image \<Rightarrow> virtqueue \<times> mem \<times> image"

text \<open>The polling loop ends only when the device has written a status other than 3.\<close>

definition disk_rw_sector :: "device \<Rightarrow> u64 \<Rightarrow> bool \<Rightarrow> u32 \<Rightarrow> kstate \<Rightarrow> kstate option" where
  "disk_rw_sector dev sector wr buf s =
     (case alloc_3desc (vq s) of
        (None, _) \<Rightarrow> None
      | (Some idx, q) \<Rightarrow>
          (let q = build_request idx sector wr buf q;
               (q, m, im) = dev q (kmem s) (disk_img s)
           in do { c_assert (rq_status (vq_reqs q (idx ! 0)) \<noteq> 3);
                   Some (s\<lparr>vq := free_chain idx q, kmem := m, disk_img := im\<rparr>) }))"

text \<open>
  The copies between the caller's buffer and \<open>tbuf\<close>, an array on the kernel stack at the virtual address
  \<open>tbuf\<close>: both sides go through the page table.
\<close>

fun copy_virt :: "u32 \<Rightarrow> u32 \<Rightarrow> nat \<Rightarrow> nat \<Rightarrow> kstate \<Rightarrow> kstate option" where
  "copy_virt dst src j 0 s = Some s"
| "copy_virt dst src j (Suc n) s =
     do { b \<leftarrow> uload8 s (src + of_nat j);
          s \<leftarrow> ustore8 (dst + of_nat j) b s;
          copy_virt dst src (Suc j) n s }"

fun disk_rw_loop :: "device \<Rightarrow> u32 \<Rightarrow> u64 \<Rightarrow> bool \<Rightarrow> u32 \<Rightarrow> nat \<Rightarrow> nat \<Rightarrow> kstate \<Rightarrow> kstate option" where
  "disk_rw_loop dev tbuf sector wr buf i 0 s = Some s"
| "disk_rw_loop dev tbuf sector wr buf i (Suc n) s =
     do { s \<leftarrow> (if wr then copy_virt tbuf (buf + of_nat i * 512) 0 512 s else Some s);
          s \<leftarrow> disk_rw_sector dev (sector + of_nat i) wr tbuf s;
          s \<leftarrow> (if \<not> wr then copy_virt (buf + of_nat i * 512) tbuf 0 512 s else Some s);
          disk_rw_loop dev tbuf sector wr buf (Suc i) n s }"

definition disk_rw :: "device \<Rightarrow> u32 \<Rightarrow> u64 \<Rightarrow> int \<Rightarrow> u32 \<Rightarrow> u32 \<Rightarrow> kstate \<Rightarrow> kstate option" where
  "disk_rw dev tbuf sector wr buf nsecs s =
     disk_rw_loop dev tbuf sector (wr \<noteq> 0) buf 0 (nat (sint nsecs)) s"

section \<open>The descriptor bitmap\<close>

lemma bit_u8: "bit (f :: u8) i \<Longrightarrow> i < 8"
  using bit_imp_le_length [of f i] by simp

lemma test_free: "i < 32 \<Longrightarrow> (ucast (f :: u8) :: u32) AND 2 ^ i \<noteq> 0 \<longleftrightarrow> bit f i"
proof -
  assume i: "i < 32"
  have "(ucast f :: u32) AND push_bit i 1 = 0 \<longleftrightarrow> (\<forall>n < 32. \<not> (bit f n \<and> n = i))"
    by (subst bit_eq_iff) (auto simp: bit_simps dest: bit_imp_le_length)
  then show ?thesis using i by (auto simp: push_bit_of_1)
qed

lemma clear_free: "i < 32 \<Longrightarrow> ucast ((ucast (f :: u8) :: u32) AND NOT (2 ^ i)) = (unset_bit i f :: u8)"
  unfolding push_bit_of_1 [symmetric] by (rule bit_word_eqI) (auto simp: bit_simps)

lemma set_free: "i < 32 \<Longrightarrow> ucast ((ucast (f :: u8) :: u32) OR 2 ^ i) = (set_bit i f :: u8)"
  unfolding push_bit_of_1 [symmetric] by (rule bit_word_eqI) (auto simp: bit_simps)

lemma bit_fold_unset: "bit (fold unset_bit xs (f :: u8)) i \<longleftrightarrow> bit f i \<and> i \<notin> set xs"
  by (induction xs arbitrary: f) (auto simp: bit_simps)

lemma bit_fold_set: "bit (fold set_bit xs (f :: u8)) i \<longleftrightarrow> i < 8 \<and> (bit f i \<or> i \<in> set xs)"
  by (induction xs arbitrary: f) (auto simp: bit_simps dest: bit_imp_le_length)

lemma alloc_desc_find:
  "alloc_desc q = (case find (bit (vq_free q)) [0..<QUEUE_SIZE] of None \<Rightarrow> (None, q)
     | Some i \<Rightarrow> (Some i, q\<lparr>vq_free := unset_bit i (vq_free q)\<rparr>))"
proof -
  have "set is \<subseteq> {..<32} \<Longrightarrow> alloc_desc_from is q = (case find (bit (vq_free q)) is of None \<Rightarrow> (None, q)
     | Some i \<Rightarrow> (Some i, q\<lparr>vq_free := unset_bit i (vq_free q)\<rparr>))" for "is"
    by (induction "is") (auto simp: test_free clear_free)
  moreover have "set [0..<QUEUE_SIZE] \<subseteq> {..<32}" by auto
  ultimately show ?thesis by (simp add: alloc_desc_def)
qed

text \<open>The allocator's contract, for the descriptors whose bit is set.\<close>

definition desc_alloc :: "virtqueue \<Rightarrow> (nat \<times> virtqueue) option" where
  "desc_alloc q = (case alloc_desc q of (Some i, q') \<Rightarrow> Some (i, q') | (None, _) \<Rightarrow> None)"

interpretation desc: allocator "\<lambda>_. True" "\<lambda>q. {i. bit (vq_free q) i}" desc_alloc
proof
  fix q :: virtqueue
  have r: "bit (vq_free q) i \<Longrightarrow> i \<in> set [0..<QUEUE_SIZE]" for i using bit_u8 [of "vq_free q" i] by auto
  show "desc_alloc q = None \<longleftrightarrow> {i. bit (vq_free q) i} = {}"
    using r by (auto simp: desc_alloc_def alloc_desc_find find_None_iff split: option.splits) (metis find_Some_iff)
  fix i q' assume "desc_alloc q = Some (i, q')"
  then have f: "find (bit (vq_free q)) [0..<QUEUE_SIZE] = Some i" "q' = q\<lparr>vq_free := unset_bit i (vq_free q)\<rparr>"
    by (auto simp: desc_alloc_def alloc_desc_find split: option.splits)
  then have "bit (vq_free q) i" by (auto simp: find_Some_iff)
  then show "i \<in> {i. bit (vq_free q) i} \<and> {i. bit (vq_free q') i} = {i. bit (vq_free q) i} - {i} \<and> True"
    using f(2) by (auto simp: bit_unset_bit_iff)
qed

lemma fold_free_desc:
  "set xs \<subseteq> {..<32} \<Longrightarrow> fold free_desc xs q = q\<lparr>vq_free := fold set_bit xs (vq_free q)\<rparr>"
  by (induction xs arbitrary: q) (auto simp: free_desc_def set_free)

text \<open>The descriptors handed out are distinct and were free; giving them back restores the bitmap.\<close>

definition taken :: "virtqueue \<Rightarrow> nat list \<Rightarrow> virtqueue" where
  "taken q idx = q\<lparr>vq_free := fold unset_bit idx (vq_free q)\<rparr>"

definition free_idx :: "virtqueue \<Rightarrow> nat list \<Rightarrow> bool" where
  "free_idx q idx \<longleftrightarrow> distinct idx \<and> (\<forall>i \<in> set idx. bit (vq_free q) i)"

lemma free_idx_less: "free_idx q idx \<Longrightarrow> set idx \<subseteq> {..<8}"
  by (auto simp: free_idx_def dest: bit_u8)

lemma give_back: "free_idx q idx \<Longrightarrow> fold free_desc idx (taken q idx) = q"
proof -
  assume a: "free_idx q idx"
  have "fold set_bit idx (fold unset_bit idx (vq_free q)) = vq_free q"
    using a by (intro bit_word_eqI) (auto simp: bit_fold_set bit_fold_unset free_idx_def)
  moreover have "set idx \<subseteq> {..<32}" using free_idx_less [OF a] by auto
  ultimately show ?thesis by (simp add: fold_free_desc taken_def)
qed

lemma alloc_3desc_loop_spec:
  assumes "free_idx q idx"
  shows "case alloc_3desc_loop n idx (taken q idx) of
      (Some idx', q') \<Rightarrow> free_idx q idx' \<and> length idx' = length idx + n \<and> q' = taken q idx'
    | (None, q') \<Rightarrow> q' = q \<and> card {i. bit (vq_free q) i} < length idx + n"
  using assms
proof (induction n arbitrary: idx)
  case (Suc n)
  let ?f = "fold unset_bit idx (vq_free q)"
  have vf: "vq_free (taken q idx) = ?f" by (simp add: taken_def)
  show ?case
  proof (cases "find (bit ?f) [0..<QUEUE_SIZE]")
    case None
    then have no: "\<not> bit ?f i" if "i < 32" for i using that by (auto simp: find_None_iff)
    have "{i. bit (vq_free q) i} \<subseteq> set idx"
    proof
      fix i assume "i \<in> {i. bit (vq_free q) i}"
      then have b: "bit (vq_free q) i" by simp
      then have "i < 32" using bit_u8 [OF b] by simp
      then show "i \<in> set idx" using no [of i] b by (simp add: bit_fold_unset)
    qed
    then have "card {i. bit (vq_free q) i} \<le> length idx" by (meson card_length card_mono finite_set le_trans)
    then show ?thesis using None vf give_back [OF Suc.prems] by (simp add: alloc_desc_find)
  next
    case (Some d)
    then have "bit ?f d" by (auto simp: find_Some_iff)
    then have "free_idx q (idx @ [d])" using Suc.prems by (auto simp: free_idx_def bit_fold_unset)
    moreover have "taken q (idx @ [d]) = (taken q idx)\<lparr>vq_free := unset_bit d ?f\<rparr>" by (simp add: taken_def)
    ultimately show ?thesis using Suc.IH [of "idx @ [d]"] Some vf
      by (auto simp: alloc_desc_find simp del: fold_append split: option.splits prod.splits)
  qed
qed simp

lemma alloc_3desc_spec:
  "case alloc_3desc q of
      (Some idx, q') \<Rightarrow> free_idx q idx \<and> length idx = 3 \<and> q' = taken q idx
    | (None, q') \<Rightarrow> q' = q \<and> card {i. bit (vq_free q) i} < 3"
proof -
  have "taken q [] = q" "free_idx q []" by (simp_all add: taken_def free_idx_def)
  then show ?thesis using alloc_3desc_loop_spec [of q "[]" 3]
    by (auto simp: alloc_3desc_def split: option.splits prod.splits)
qed

section \<open>The contract with the device\<close>

text \<open>
  The request the queue offers last: the ring's newest entry is the head of a chain of three
  descriptors, the header of request \<open>i\<close>, a data buffer of 512 bytes, and the request's status byte.
\<close>

definition chain_req :: "virtqueue \<Rightarrow> nat \<Rightarrow> u64 \<Rightarrow> bool \<Rightarrow> u32 \<Rightarrow> bool" where
  "chain_req q i sector wr buf \<longleftrightarrow>
     (let h = unat (av_ring (vq_avail q) (unat (av_idx (vq_avail q) - 1) mod QUEUE_SIZE));
          d0 = vq_desc q h; d1 = vq_desc q (unat (d_next d0)); d2 = vq_desc q (unat (d_next d1))
      in h = i \<and> rq_sector (vq_reqs q i) = sector \<and> rq_type (vq_reqs q i) = (if wr then VIRTIO_BLK_T_OUT else VIRTIO_BLK_T_IN) \<and>
         d_addr d0 = ucast (req_addr q i) \<and> d_len d0 = 16 \<and> d_flags d0 = VIRTQ_DESC_F_NEXT \<and>
         d_addr d1 = ucast buf \<and> d_len d1 = 512 \<and>
         d_flags d1 = (if wr then VIRTQ_DESC_F_NEXT else VIRTQ_DESC_F_WRITE OR VIRTQ_DESC_F_NEXT) \<and>
         d_addr d2 = ucast (req_addr q i + 20) \<and> d_len d2 = 1 \<and> d_flags d2 = VIRTQ_DESC_F_WRITE)"

definition dma_in :: "image \<Rightarrow> u64 \<Rightarrow> u32 \<Rightarrow> mem \<Rightarrow> mem" where
  "dma_in im sector buf m = (\<lambda>a. if in_range buf 512 a then im sector (unat (a - buf)) else m a)"

definition dma_out :: "mem \<Rightarrow> u32 \<Rightarrow> u64 \<Rightarrow> image \<Rightarrow> image" where
  "dma_out m buf sector im = im(sector := (\<lambda>j. if j < 512 then m (buf + of_nat j) else im sector j))"

text \<open>
  What the virtio specification (2.7, 5.2.6) says of the answer to such a request. The device owns the used ring
  and may change all of it; of the rest of the queue it writes only the status byte: 0 for success, 1 for an error,
  2 for a request it does not support. A write request changes at most the sector, a read request at most the
  buffer; both are complete when the status is 0.
\<close>

definition set_status :: "nat \<Rightarrow> u8 \<Rightarrow> virtqueue \<Rightarrow> virtqueue" where
  "set_status i st q = q\<lparr>vq_reqs := (vq_reqs q)(i := (vq_reqs q i)\<lparr>rq_status := st\<rparr>)\<rparr>"

definition moved :: "u64 \<Rightarrow> bool \<Rightarrow> u32 \<Rightarrow> u8 \<Rightarrow> mem \<times> image \<Rightarrow> mem \<times> image \<Rightarrow> bool" where
  "moved sector wr buf st b a \<longleftrightarrow> (case (b, a) of ((m, im), (m', im')) \<Rightarrow>
     if wr then m' = m \<and> (\<forall>t. t \<noteq> sector \<longrightarrow> im' t = im t) \<and> (st = 0 \<longrightarrow> im' = dma_out m buf sector im)
     else im' = im \<and> (\<forall>x. \<not> in_range buf 512 x \<longrightarrow> m' x = m x) \<and> (st = 0 \<longrightarrow> m' = dma_in im sector buf m))"

definition blk_device :: "device \<Rightarrow> bool" where
  "blk_device dev \<longleftrightarrow> (\<forall>q m im i sector wr buf. chain_req q i sector wr buf \<longrightarrow>
     (\<exists>st u m' im'. dev q m im = ((set_status i st q)\<lparr>vq_used := u\<rparr>, m', im') \<and> st \<in> {0, 1, 2} \<and> moved sector wr buf st (m, im) (m', im')))"

lemma ucast_u32_u64: "(ucast (ucast (x :: u32) :: u64) :: u32) = x"
  by (rule bit_word_eqI) (auto simp: bit_simps)

text \<open>
  The contract can be met: a device of \<open>cap\<close> sectors that follows the chain, reports the chain in the used ring, and
  answers a request beyond its capacity with an error.
\<close>

definition ref_device :: "u64 \<Rightarrow> device" where
  "ref_device cap q m im =
     (let i = unat (av_ring (vq_avail q) (unat (av_idx (vq_avail q) - 1) mod QUEUE_SIZE));
          buf = ucast (d_addr (vq_desc q (unat (d_next (vq_desc q i))))); sector = rq_sector (vq_reqs q i);
          wr = (rq_type (vq_reqs q i) = VIRTIO_BLK_T_OUT); us = vq_used q;
          u = us\<lparr>us_idx := us_idx us + 1,
                us_ring := (us_ring us)(unat (us_idx us) mod QUEUE_SIZE := \<lparr>ue_id = of_nat i, ue_len = (if wr then 1 else 513)\<rparr>)\<rparr>
      in if cap \<le> sector then ((set_status i 1 q)\<lparr>vq_used := u\<rparr>, m, im)
         else if wr then ((set_status i 0 q)\<lparr>vq_used := u\<rparr>, m, dma_out m buf sector im)
         else ((set_status i 0 q)\<lparr>vq_used := u\<rparr>, dma_in im sector buf m, im))"

lemma dma_frame: "t \<noteq> sector \<Longrightarrow> dma_out m buf sector im t = im t" "\<not> in_range buf 512 x \<Longrightarrow> dma_in im sector buf m x = m x"
  by (simp_all add: dma_out_def dma_in_def)

lemma blk_device_ref: "blk_device (ref_device cap)"
  unfolding blk_device_def
proof (intro allI impI)
  fix q m im i sector wr buf assume c: "chain_req q i sector wr buf"
  then have h: "unat (av_ring (vq_avail q) (unat (av_idx (vq_avail q) - 1) mod QUEUE_SIZE)) = i" "rq_sector (vq_reqs q i) = sector"
    "rq_type (vq_reqs q i) = (if wr then VIRTIO_BLK_T_OUT else VIRTIO_BLK_T_IN)" "d_addr (vq_desc q (unat (d_next (vq_desc q i)))) = ucast buf"
    by (auto simp only: chain_req_def Let_def)
  define u where "u = (vq_used q)\<lparr>us_idx := us_idx (vq_used q) + 1, us_ring := (us_ring (vq_used q))
      (unat (us_idx (vq_used q)) mod QUEUE_SIZE := \<lparr>ue_id = of_nat i, ue_len = (if wr then 1 else 513)\<rparr>)\<rparr>"
  have "ref_device cap q m im = (if cap \<le> sector then ((set_status i 1 q)\<lparr>vq_used := u\<rparr>, m, im)
     else ((set_status i 0 q)\<lparr>vq_used := u\<rparr>, if wr then m else dma_in im sector buf m, if wr then dma_out m buf sector im else im))"
    unfolding ref_device_def Let_def h by (cases wr) (simp_all add: ucast_u32_u64 u_def)
  then show "\<exists>st u m' im'. ref_device cap q m im = ((set_status i st q)\<lparr>vq_used := u\<rparr>, m', im') \<and> st \<in> {0, 1, 2} \<and>
      moved sector wr buf st (m, im) (m', im')"
    by (cases "cap \<le> sector") (auto simp: moved_def dma_frame)
qed

lemma chain_req_build:
  assumes "idx = [i0, i1, i2]" "distinct idx" "set idx \<subseteq> {..<8}"
  shows "chain_req (build_request idx sector wr buf q) i0 sector wr buf"
proof -
  have "unat (of_nat i0 :: u16) = i0" "unat (of_nat i1 :: u16) = i1" "unat (of_nat i2 :: u16) = i2"
    using assms(1,3) by (simp_all add: unat_of_nat)
  then show ?thesis using assms(1,2)
    by (auto simp: chain_req_def build_request_def Let_def set_desc_def req_addr_def)
qed

lemma request_fields [simp]:
  "vq_free (build_request idx sector wr buf q) = vq_free q"
  "rq_status (vq_reqs (set_status i st q) i) = st" "vq_free (set_status i st q) = vq_free q"
  by (simp_all add: build_request_def Let_def set_desc_def set_status_def)

lemma fold_free_desc_reqs [simp]: "vq_reqs (fold free_desc xs q) = vq_reqs q"
  by (induction xs arbitrary: q) (simp_all add: free_desc_def)

lemma vq_free_taken: "set xs \<subseteq> {..<32} \<Longrightarrow> vq_free q = vq_free q' \<Longrightarrow> vq_free (fold free_desc xs q) = vq_free (fold free_desc xs q')"
  by (simp add: fold_free_desc)

text \<open>
  One sector: the transfer returns whatever the device answers, no descriptor is lost, and memory and disk change as
  the contract says. The status is left in the request of the first descriptor taken.
\<close>

definition first_desc :: "virtqueue \<Rightarrow> nat" where
  "first_desc q = (case fst (alloc_3desc q) of Some idx \<Rightarrow> idx ! 0 | None \<Rightarrow> 0)"

lemma disk_rw_sector_ok:
  assumes dev: "blk_device dev" and free: "3 \<le> card {i. bit (vq_free (vq s)) i}"
  shows "\<exists>q m im st. disk_rw_sector dev sector wr buf s = Some (s\<lparr>vq := q, kmem := m, disk_img := im\<rparr>) \<and>
    vq_free q = vq_free (vq s) \<and> rq_status (vq_reqs q (first_desc (vq s))) = st \<and> st \<in> {0, 1, 2} \<and>
    moved sector wr buf st (kmem s, disk_img s) (m, im)"
proof -
  from free alloc_3desc_spec [of "vq s"] obtain idx where al: "alloc_3desc (vq s) = (Some idx, taken (vq s) idx)"
    and idx: "free_idx (vq s) idx" "length idx = 3" by (auto split: option.splits prod.splits)
  then obtain i0 i1 i2 where i: "idx = [i0, i1, i2]" by (auto simp: numeral_3_eq_3 length_Suc_conv)
  have lt: "distinct idx" "set idx \<subseteq> {..<8}" using idx(1) free_idx_less by (auto simp: free_idx_def)
  then have lt3: "set idx \<subseteq> {..<32}" by auto
  let ?q = "build_request idx sector wr buf (taken (vq s) idx)"
  from dev chain_req_build [OF i lt(1,2)] obtain st u m im where
    d: "dev ?q (kmem s) (disk_img s) = ((set_status i0 st ?q)\<lparr>vq_used := u\<rparr>, m, im)" "st \<in> {0, 1, 2}"
    "moved sector wr buf st (kmem s, disk_img s) (m, im)" unfolding blk_device_def by blast
  let ?q' = "(set_status i0 st ?q)\<lparr>vq_used := u\<rparr>"
  have "vq_free (free_chain idx ?q') = vq_free (vq s)"
    using vq_free_taken [OF lt3, of ?q' "taken (vq s) idx"] give_back [OF idx(1)] by (simp add: free_chain_def)
  moreover have st: "rq_status (vq_reqs ?q' i0) = st" by simp
  then have "rq_status (vq_reqs (free_chain idx ?q') i0) = st" by (simp add: free_chain_def)
  moreover have "st \<noteq> 3" using d(2) by auto
  then have "disk_rw_sector dev sector wr buf s = Some (s\<lparr>vq := free_chain idx ?q', kmem := m, disk_img := im\<rparr>)"
    using al d(1) st i by (simp add: disk_rw_sector_def Let_def)
  moreover have "first_desc (vq s) = i0" using al i by (simp add: first_desc_def)
  ultimately show ?thesis using d(2,3) by (intro exI [of _ "free_chain idx ?q'"] exI [of _ m] exI [of _ im] exI [of _ st]) simp
qed

text \<open>What was written to a sector is what a later read of it delivers.\<close>

lemma sector_round_trip:
  "j < 512 \<Longrightarrow> dma_in (dma_out m b sector im) sector b' m' (b' + of_nat j) = m (b + of_nat j)"
proof -
  assume j: "j < 512"
  have u: "unat (of_nat j :: u32) = j" using j by (intro unat_of_nat32) simp
  then have "in_range b' 512 (b' + of_nat j)" using j by (simp add: in_range_def word_less_nat_alt)
  then show ?thesis using j u by (simp add: dma_in_def dma_out_def)
qed

end
