(* ===== verification/Ecall.thy ===== *)
theory Ecall
  imports Sched Virtio
begin

text \<open>
  \<^verbatim>\<open>kern/ecall_all.c\<close>: the system calls, and \<open>do_ecall_from_u\<close> of \<^verbatim>\<open>kern/traps.c\<close> that dispatches them. A call returns
  the 32-bit pattern of its C result, or control went to another environment. The disk device and the
  place of the driver's stack buffer are arguments of the calls that reach the disk driver.
\<close>

section \<open>Calls that return an error code\<close>

definition try_ret ::
  "((err + 'a) \<times> kstate) option \<Rightarrow> ('a \<Rightarrow> kstate \<Rightarrow> (u32 outcome \<times> kstate) option) \<Rightarrow> (u32 outcome \<times> kstate) option"
where
  "try_ret m k =
     do { (r, s) \<leftarrow> m;
          (case r of Inl e \<Rightarrow> Some (Returned (- errno e), s) | Inr x \<Rightarrow> k x s) }"

text \<open>\<open>try(envid2env(envid, &e, checkperm))\<close> followed by uses of \<open>e\<close>, which may be null.\<close>

definition with_env ::
  "u32 \<Rightarrow> int \<Rightarrow> kstate \<Rightarrow> (nat \<Rightarrow> kstate \<Rightarrow> (u32 outcome \<times> kstate) option) \<Rightarrow> (u32 outcome \<times> kstate) option"
where
  "with_env envid checkperm s k = try_ret (envid2env envid checkperm s) (\<lambda>pe s. do { e \<leftarrow> pe; k e s })"

abbreviation ret :: "u32 \<Rightarrow> kstate \<Rightarrow> (u32 outcome \<times> kstate) option" where
  "ret v s \<equiv> Some (Returned v, s)"

section \<open>Console, disk and queries\<close>

definition printcharc :: "u8 \<Rightarrow> kstate \<Rightarrow> kstate" where
  "printcharc c s = s\<lparr>console_out := console_out s @ [c]\<rparr>"

text \<open>\<open>scancharc\<close> waits for a character; with none to come it never returns.\<close>

definition scancharc :: "kstate \<Rightarrow> (u32 \<times> kstate) option" where
  "scancharc s = (case console_in s of [] \<Rightarrow> None | c # cs \<Rightarrow> Some (c, s\<lparr>console_in := cs\<rparr>))"

definition e_get_pgref :: "u32 \<Rightarrow> kstate \<Rightarrow> (u32 outcome \<times> kstate) option" where
  "e_get_pgref v s = do { pp \<leftarrow> addr2page (npage s) v; ret (ucast (pp_ref s pp)) s }"

definition disk_sector :: "u32 \<Rightarrow> u32 \<Rightarrow> u64" where
  "disk_sector lowsec highsec = ucast lowsec OR push_bit 32 (ucast highsec)"

definition e_read_disk :: "device \<Rightarrow> u32 \<Rightarrow> u32 \<Rightarrow> u32 \<Rightarrow> u32 \<Rightarrow> u32 \<Rightarrow> kstate \<Rightarrow> kstate option" where
  "e_read_disk dev tbuf lowsec highsec buf nsec s = disk_rw dev tbuf (disk_sector lowsec highsec) 0 buf nsec s"

definition e_write_disk :: "device \<Rightarrow> u32 \<Rightarrow> u32 \<Rightarrow> u32 \<Rightarrow> u32 \<Rightarrow> u32 \<Rightarrow> kstate \<Rightarrow> kstate option" where
  "e_write_disk dev tbuf lowsec highsec buf nsec s = disk_rw dev tbuf (disk_sector lowsec highsec) 1 buf nsec s"

definition e_putchar :: "u32 \<Rightarrow> kstate \<Rightarrow> kstate" where
  "e_putchar c s = printcharc (ucast c) s"

definition e_getchar :: "kstate \<Rightarrow> (u32 outcome \<times> kstate) option" where
  "e_getchar s = do { (c, s) \<leftarrow> scancharc s; ret c s }"

fun print_cons_loop :: "u32 \<Rightarrow> nat \<Rightarrow> kstate \<Rightarrow> kstate option" where
  "print_cons_loop a 0 s = Some s"
| "print_cons_loop a (Suc n) s = do { c \<leftarrow> uload8 s a; print_cons_loop (a + 1) n (printcharc c s) }"

definition e_print_cons :: "u32 \<Rightarrow> u32 \<Rightarrow> kstate \<Rightarrow> (u32 outcome \<times> kstate) option" where
  "e_print_cons a num s = do { s \<leftarrow> print_cons_loop a (unat num) s; ret 0 s }"

fun cgetc_loop :: "u32 list \<Rightarrow> (u32 \<times> u32 list) option" where
  "cgetc_loop [] = None"
| "cgetc_loop (c # cs) = (if c = 0 then cgetc_loop cs else Some (c, cs))"

definition e_cgetc :: "kstate \<Rightarrow> (u32 outcome \<times> kstate) option" where
  "e_cgetc s = do { (c, cs) \<leftarrow> cgetc_loop (console_in s); ret c (s\<lparr>console_in := cs\<rparr>) }"

definition e_getenvid :: "kstate \<Rightarrow> (u32 outcome \<times> kstate) option" where
  "e_getenvid s = do { c \<leftarrow> curenv s; ret (env_id (envs s c)) s }"

definition e_get_pgdir :: "u32 \<Rightarrow> kstate \<Rightarrow> (u32 outcome \<times> kstate) option" where
  "e_get_pgdir pde s =
     (if curenv s = None then ret (- errno E_INVAL) s
      else do { s \<leftarrow> ustore32 pde (cur_pgdir s) s; ret 0 s })"

definition e_write_dev :: "u32 \<Rightarrow> u32 \<Rightarrow> u32 \<Rightarrow> kstate \<Rightarrow> (u32 outcome \<times> kstate) option" where
  "e_write_dev va pa len s = ret 0 s"

definition e_read_dev :: "u32 \<Rightarrow> u32 \<Rightarrow> u32 \<Rightarrow> kstate \<Rightarrow> (u32 outcome \<times> kstate) option" where
  "e_read_dev va pa len s = ret 0 s"

definition e_panic :: "u32 \<Rightarrow> kstate \<Rightarrow> (u32 outcome \<times> kstate) option" where
  "e_panic msg s = None"

section \<open>Scheduling and environments\<close>

definition e_yield :: "kstate \<Rightarrow> (u32 outcome \<times> kstate) option" where
  "e_yield s = do { s \<leftarrow> schedule 1 s; Some (Switched, s) }"

definition e_env_destroy :: "u32 \<Rightarrow> kstate \<Rightarrow> (u32 outcome \<times> kstate) option" where
  "e_env_destroy envid s =
     with_env envid 1 s (\<lambda>e s.
       do { (r, s) \<leftarrow> env_destroy e s;
            (case r of Switched \<Rightarrow> Some (Switched, s) | Returned _ \<Rightarrow> ret 0 s) })"

definition e_exofork :: "kstate \<Rightarrow> (u32 outcome \<times> kstate) option" where
  "e_exofork s =
     do { c \<leftarrow> curenv s;
          try_ret (env_alloc (env_id (envs s c)) s) (\<lambda>e s.
            let s = upd_env e (\<lambda>x. x\<lparr>env_tf := set_reg 10 0 (cur_frame s)\<rparr>) s;
                s = upd_env e (\<lambda>x. x\<lparr>env_status := ENV_NOT_RUNNABLE\<rparr>) s;
                s = upd_env e (\<lambda>x. x\<lparr>env_pri := env_pri (envs s c)\<rparr>) s
            in ret (env_id (envs s e)) s) }"

definition e_set_env_status :: "u32 \<Rightarrow> u32 \<Rightarrow> kstate \<Rightarrow> (u32 outcome \<times> kstate) option" where
  "e_set_env_status envid status s =
     (if status \<noteq> ENV_NOT_RUNNABLE \<and> status \<noteq> ENV_RUNNABLE then ret (- errno E_INVAL) s
      else with_env envid 1 s (\<lambda>e s.
        do { s \<leftarrow> (if env_status (envs s e) = ENV_RUNNABLE \<and> status = ENV_NOT_RUNNABLE then
                    do { q \<leftarrow> TAILQ_REMOVE e (env_sched_list s); Some (s\<lparr>env_sched_list := q\<rparr>) }
                  else if env_status (envs s e) = ENV_NOT_RUNNABLE \<and> status = ENV_RUNNABLE then
                    Some (s\<lparr>env_sched_list := TAILQ_INSERT_TAIL e (env_sched_list s)\<rparr>)
                  else Some s);
             ret 0 (upd_env e (\<lambda>x. x\<lparr>env_status := status\<rparr>) s) }))"

definition e_set_env_cow_entry :: "u32 \<Rightarrow> u32 \<Rightarrow> kstate \<Rightarrow> (u32 outcome \<times> kstate) option" where
  "e_set_env_cow_entry envid cow_entry s =
     with_env envid 1 s (\<lambda>e s. ret 0 (upd_env e (\<lambda>x. x\<lparr>env_cow_entry := cow_entry\<rparr>) s))"

section \<open>Memory\<close>

definition is_illegal_va :: "u32 \<Rightarrow> bool" where
  "is_illegal_va va \<longleftrightarrow> va < UTEMP \<or> va \<ge> UTOP"

definition is_illegal_va_range :: "u32 \<Rightarrow> u32 \<Rightarrow> bool" where
  "is_illegal_va_range va len \<longleftrightarrow> len \<noteq> 0 \<and> (va + len < va \<or> va < UTEMP \<or> va + len > UTOP)"

definition e_mem_alloc :: "u32 \<Rightarrow> u32 \<Rightarrow> u32 \<Rightarrow> kstate \<Rightarrow> (u32 outcome \<times> kstate) option" where
  "e_mem_alloc envid va perm s =
     (if is_illegal_va va then ret (- errno E_INVAL) s
      else with_env envid 1 s (\<lambda>e s.
        try_ret (page_alloc s) (\<lambda>pp s.
          do { (r, s) \<leftarrow> page_insert (env_pgdir (envs s e)) (env_asid (envs s e)) pp va perm s;
               ret (ret_code r) s })))"

definition e_mem_map :: "u32 \<Rightarrow> u32 \<Rightarrow> u32 \<Rightarrow> u32 \<Rightarrow> u32 \<Rightarrow> kstate \<Rightarrow> (u32 outcome \<times> kstate) option" where
  "e_mem_map srcid srcva dstid dstva perm s =
     (if is_illegal_va srcva \<or> is_illegal_va dstva then ret (- errno E_INVAL) s
      else do {
        (rs, s) \<leftarrow> envid2env srcid 1 s;
        (case rs of
           Inl _ \<Rightarrow> ret (- errno E_BAD_ENV) s
         | Inr psrc \<Rightarrow>
             do { (rd, s) \<leftarrow> envid2env dstid 0 s;
                  (case rd of
                     Inl _ \<Rightarrow> ret (- errno E_BAD_ENV) s
                   | Inr pdst \<Rightarrow>
                       do { src \<leftarrow> psrc;
                            l \<leftarrow> page_lookup (env_pgdir (envs s src)) srcva s;
                            (case l of
                               None \<Rightarrow> ret (- errno E_INVAL) s
                             | Some (pp, _) \<Rightarrow>
                                 do { dst \<leftarrow> pdst;
                                      (r, s) \<leftarrow> page_insert (env_pgdir (envs s dst)) (env_asid (envs s dst)) pp dstva perm s;
                                      ret (ret_code r) s }) }) }) })"

definition e_mem_unmap :: "u32 \<Rightarrow> u32 \<Rightarrow> kstate \<Rightarrow> (u32 outcome \<times> kstate) option" where
  "e_mem_unmap envid va s =
     (if is_illegal_va va then ret (- errno E_INVAL) s
      else with_env envid 1 s (\<lambda>e s.
        do { s \<leftarrow> page_remove (env_pgdir (envs s e)) (env_asid (envs s e)) va s; ret 0 s }))"

definition e_set_trapframe :: "u32 \<Rightarrow> u32 \<Rightarrow> kstate \<Rightarrow> (u32 outcome \<times> kstate) option" where
  "e_set_trapframe envid tf s =
     (if is_illegal_va_range tf TF_SIZE then ret (- errno E_INVAL) s
      else with_env envid 1 s (\<lambda>e s.
        do { f \<leftarrow> uload_tf s tf;
             (if curenv s = Some e then ret (regs f 1) (set_frame (sscratch_csr s) f s)
              else ret 0 (upd_env e (\<lambda>x. x\<lparr>env_tf := f\<rparr>) s)) }))"

section \<open>Messages\<close>

definition e_ipc_recv :: "u32 \<Rightarrow> kstate \<Rightarrow> (u32 outcome \<times> kstate) option" where
  "e_ipc_recv dstva s =
     (if dstva \<noteq> 0 \<and> is_illegal_va dstva then ret (- errno E_INVAL) s
      else do {
        c \<leftarrow> curenv s;
        let s = upd_env c (\<lambda>x. x\<lparr>env_ipc_recving := 1, env_ipc_dstva := dstva, env_status := ENV_NOT_RUNNABLE\<rparr>) s;
        q \<leftarrow> TAILQ_REMOVE c (env_sched_list s);
        let s = s\<lparr>env_sched_list := q\<rparr>;
        let s = set_frame (sscratch_csr s) (set_reg 10 0 (cur_frame s)) s;
        s \<leftarrow> schedule 1 s;
        Some (Switched, s) })"

definition e_ipc_try_send :: "u32 \<Rightarrow> u32 \<Rightarrow> u32 \<Rightarrow> u32 \<Rightarrow> kstate \<Rightarrow> (u32 outcome \<times> kstate) option" where
  "e_ipc_try_send envid value srcva perm s =
     (if srcva \<noteq> 0 \<and> is_illegal_va srcva then ret (- errno E_INVAL) s
      else with_env envid 0 s (\<lambda>e s.
        if env_ipc_recving (envs s e) = 0 then ret (- errno E_IPC_NOT_RECV) s
        else do {
          c \<leftarrow> curenv s;
          let s = upd_env e (\<lambda>x. x\<lparr>env_ipc_value := value, env_ipc_from := env_id (envs s c),
                env_ipc_perm := PTE_V OR perm, env_ipc_recving := 0, env_status := ENV_RUNNABLE\<rparr>) s;
          let s = s\<lparr>env_sched_list := TAILQ_INSERT_TAIL e (env_sched_list s)\<rparr>;
          (if srcva \<noteq> 0 then
             do { l \<leftarrow> page_lookup (env_pgdir (envs s c)) srcva s;
                  (case l of
                     None \<Rightarrow> ret (- errno E_INVAL) s
                   | Some (p, _) \<Rightarrow>
                       do { (_, s) \<leftarrow> page_insert (env_pgdir (envs s e)) (env_asid (envs s e)) p
                              (env_ipc_dstva (envs s e)) perm s;
                            ret 0 s }) }
           else ret 0 s) }))"

section \<open>Dispatch\<close>

abbreviation MAX_ENO :: u32 where "MAX_ENO \<equiv> 23"

text \<open>
  \<open>ecall_table\<close>. The handlers that return nothing leave the result register as the C call leaves it;
  the model returns 0 for them.
\<close>

definition ecall ::
  "device \<Rightarrow> u32 \<Rightarrow> nat \<Rightarrow> u32 \<Rightarrow> u32 \<Rightarrow> u32 \<Rightarrow> u32 \<Rightarrow> u32 \<Rightarrow> kstate \<Rightarrow> (u32 outcome \<times> kstate) option"
where
  "ecall dev tbuf eno a1 a2 a3 a4 a5 s =
     (if eno = 0 then ret 0 (e_putchar a1 s)
      else if eno = 1 then e_getchar s
      else if eno = 2 then e_print_cons a1 a2 s
      else if eno = 3 then e_getenvid s
      else if eno = 4 then e_yield s
      else if eno = 5 then e_env_destroy a1 s
      else if eno = 6 then e_set_env_cow_entry a1 a2 s
      else if eno = 7 then e_mem_alloc a1 a2 a3 s
      else if eno = 8 then e_mem_map a1 a2 a3 a4 a5 s
      else if eno = 9 then e_mem_unmap a1 a2 s
      else if eno = 10 then e_exofork s
      else if eno = 11 then e_set_env_status a1 a2 s
      else if eno = 12 then e_set_trapframe a1 a2 s
      else if eno = 13 then e_panic a1 s
      else if eno = 14 then e_ipc_try_send a1 a2 a3 a4 s
      else if eno = 15 then e_ipc_recv a1 s
      else if eno = 16 then e_cgetc s
      else if eno = 17 then e_get_pgdir a1 s
      else if eno = 18 then e_write_dev a1 a2 a3 s
      else if eno = 19 then e_read_dev a1 a2 a3 s
      else if eno = 20 then do { s \<leftarrow> e_read_disk dev tbuf a1 a2 a3 a4 s; ret 0 s }
      else if eno = 21 then do { s \<leftarrow> e_write_disk dev tbuf a1 a2 a3 a4 s; ret 0 s }
      else if eno = 22 then e_get_pgref a1 s
      else None)"

text \<open>\<open>eno\<close> is an \<open>int\<close>: a negative one is a large unsigned one.\<close>

definition do_ecall_from_u :: "device \<Rightarrow> u32 \<Rightarrow> u32 \<Rightarrow> kstate \<Rightarrow> (unit outcome \<times> kstate) option" where
  "do_ecall_from_u dev tbuf tf s =
     (let eno = regs (kframes s tf) 10 in
      if sint eno < 0 \<or> sint eno \<ge> sint MAX_ENO
      then Some (Returned (), set_frame tf (set_reg 1 (- errno E_NO_E) (kframes s tf)) s)
      else
        let s = set_frame tf ((kframes s tf)\<lparr>sepc := sepc (kframes s tf) + 4\<rparr>) s;
            f = kframes s tf
        in do { (r, s) \<leftarrow> ecall dev tbuf (unat eno) (regs f 11) (regs f 12) (regs f 13) (regs f 14) (regs f 15) s;
                (case r of
                   Switched \<Rightarrow> Some (Switched, s)
                 | Returned v \<Rightarrow> Some (Returned (), set_frame tf (set_reg 10 v (kframes s tf)) s)) })"

end
