(* ===== verification/EcallProps.thy ===== *)
theory EcallProps
  imports Ecall
begin

text \<open>
  What the system calls guarantee: who may act on whom, what an address check covers, the effect of the
  memory calls on the page maps of all environments, and the rendezvous of a receiver and a sender.
\<close>

section \<open>Checks\<close>

lemma try_ret_simps [simp]:
  "try_ret (Some (Inl e, s)) k = Some (Returned (- errno e), s)"
  "try_ret (Some (Inr x, s)) k = k x s"
  by (simp_all add: try_ret_def)

text \<open>The environment a call of the current environment \<open>c\<close> reaches with the permission check on.\<close>

definition may_act :: "kstate \<Rightarrow> nat \<Rightarrow> u32 \<Rightarrow> bool" where
  "may_act s c envid \<longleftrightarrow> envid = 0 \<or> unat (ENVX envid) = c \<or>
     env_parent_id (envs s (unat (ENVX envid))) = env_id (envs s c)"

definition target :: "nat \<Rightarrow> u32 \<Rightarrow> nat" where
  "target c envid = (if envid = 0 then c else unat (ENVX envid))"

lemma with_env_check:
  assumes "curenv s = Some c"
  shows "with_env envid 1 s k =
    (if may_act s c envid then k (target c envid) s else Some (Returned (- errno E_BAD_ENV), s))"
  using assms by (simp add: with_env_def envid2env_result may_act_def target_def)

lemma with_env_nocheck:
  assumes "curenv s = Some c"
  shows "with_env envid 0 s k = k (target c envid) s"
  using assms by (simp add: with_env_def envid2env_result target_def)

text \<open>A range that passes the check lies between \<open>UTEMP\<close> and \<open>UTOP\<close> and does not wrap around.\<close>

lemma legal_range:
  assumes "\<not> is_illegal_va_range va len" "i < len"
  shows "UTEMP \<le> va + i \<and> va + i < UTOP"
proof -
  have n: "len \<noteq> 0" using assms(2) by auto
  then have a: "\<not> va + len < va" "UTEMP \<le> va" "va + len \<le> UTOP"
    using assms(1) by (auto simp: is_illegal_va_range_def)
  have s: "unat (va + len) = unat va + unat len"
    using a(1) unat_plus_simple [of va len] by (simp add: not_less)
  have "unat i < unat len" using assms(2) by (simp add: word_less_nat_alt)
  then have "unat (va + i) = unat va + unat i"
    using s unsigned_less [of "va + len", where 'a = nat] unat_add_small [of va "unat i"] by simp
  then show ?thesis using a s \<open>unat i < unat len\<close> by (auto simp: word_le_nat_alt word_less_nat_alt)
qed

lemma legal_va: "\<not> is_illegal_va va \<Longrightarrow> va < UTOP"
  by (auto simp: is_illegal_va_def)

section \<open>Memory calls\<close>

text \<open>A page directory an environment owns, as an element of the set the invariant is about.\<close>

definition owns_dir :: "kstate \<Rightarrow> nat set \<Rightarrow> nat \<Rightarrow> nat \<Rightarrow> bool" where
  "owns_dir s D e pd \<longleftrightarrow> pd \<in> D \<and> env_pgdir (envs s e) = page2addr pd"

text \<open>
  What the memory calls leave alone: environments, queues and the address space in force; the contents of
  pages that are in use before and after the call, which do not become tables either.
\<close>

definition os_kept :: "kstate \<Rightarrow> kstate \<Rightarrow> bool" where
  "os_kept s s' \<longleftrightarrow> pmap_st.more s' = pmap_st.more s \<and> cur_pgdir s' = cur_pgdir s"

definition data_kept :: "nat set \<Rightarrow> kstate \<Rightarrow> kstate \<Rightarrow> bool" where
  "data_kept D s s' \<longleftrightarrow> (\<forall>q < NPAGES. q \<notin> tables s D \<longrightarrow> pp_ref s q \<noteq> 0 \<longrightarrow>
     q \<notin> tables s' D \<and> (pp_ref s' q \<noteq> 0 \<longrightarrow> (\<forall>j. unat j < 1024 \<longrightarrow> pw s' q j = pw s q j)))"

lemma os_kept_fields:
  assumes "os_kept s s'"
  shows "envs s' = envs s" "curenv s' = curenv s" "cur_pgdir s' = cur_pgdir s" "kframes s' = kframes s"
    "sscratch_csr s' = sscratch_csr s" "env_sched_list s' = env_sched_list s"
  using assms more_fields(1,2,4,9,10) [of s' s] by (auto simp: os_kept_def)

lemma os_kept_refl [simp]: "os_kept s s"
  and os_kept_trans: "os_kept s s1 \<Longrightarrow> os_kept s1 s' \<Longrightarrow> os_kept s s'"
  by (simp_all add: os_kept_def)

lemma data_keptI:
  assumes "as_inv s D xs" "as_inv s' D ys" "tables s' D \<subseteq> tables s D \<union> set xs"
    and "\<And>q j. q < NPAGES \<Longrightarrow> unat j < 1024 \<Longrightarrow> q \<notin> tables s D \<Longrightarrow> q \<notin> set xs \<union> set ys \<Longrightarrow> pw s' q j = pw s q j"
  shows "data_kept D s s'"
  using assms(3,4) as_invD(5) [OF assms(1)] as_invD(5) [OF assms(2)] unfolding data_kept_def by blast

lemma data_kept_refl [simp]: "data_kept D s s"
  by (simp add: data_kept_def)

lemma data_keptD:
  assumes "data_kept D s s'" "q < NPAGES" "q \<notin> tables s D" "pp_ref s q \<noteq> 0"
  shows "q \<notin> tables s' D" "pp_ref s' q \<noteq> 0 \<Longrightarrow> unat j < 1024 \<Longrightarrow> pw s' q j = pw s q j"
  using assms unfolding data_kept_def by blast+

lemma e_mem_alloc_full:
  assumes inv: "as_inv s D (f # xs)" and c: "curenv s = Some c" "may_act s c envid"
    and dir: "owns_dir s D (target c envid) pd" and va: "\<not> is_illegal_va va" and perm: "perm_ok perm"
    and room: "pde_ok (pw s pd (PDX va)) \<or> xs \<noteq> []"
  shows "\<exists>s' ys. e_mem_alloc envid va perm s = Some (Returned 0, s') \<and> as_inv s' D ys \<and>
    (\<forall>pd' \<in> D. \<forall>va'. amap s' pd' va' = (if pd' = pd \<and> VPN va' = VPN va then Some (mk_pte f perm) else amap s pd' va')) \<and>
    (\<forall>j. unat j < 1024 \<longrightarrow> pw s' f j = 0) \<and> uses s D f = {} \<and> pp_ref s' f = 1 \<and> os_kept s s' \<and> data_kept D s s' \<and>
    (\<forall>q. q \<notin> set (f # xs) \<longrightarrow> pp_ref s' q = ref_after (map_option pte_page (amap s pd va)) f s q) \<and> dirs_step D pd (PDX va) s s' \<and>
    length xs \<le> length ys + (if pde_ok (pw s pd (PDX va)) then 0 else 1) \<and> f \<notin> set ys"
proof -
  obtain fl where al: "page_alloc s = Some (Inr f, alloced f fl s)" "as_inv (alloced f fl s) D xs"
    "\<And>pd va. pd \<in> D \<Longrightarrow> amap (alloced f fl s) pd va = amap s pd va"
    "tables (alloced f fl s) D = tables s D" "\<And>q. uses (alloced f fl s) D q = uses s D q"
    "f \<notin> set xs" "f < NPAGES" "pp_ref s f = 0" "f \<notin> tables s D" "uses s D f = {}"
    using page_alloc_ok [OF inv] by blast
  let ?s = "alloced f fl s" and ?e = "target c envid"
  have pd: "pd \<in> D" "env_pgdir (envs s ?e) = page2addr pd" using dir by (auto simp: owns_dir_def)
  have env: "envs ?s = envs s" using more_fields(1) [OF more_page_alloc [OF al(1)]] .
  have dirs: "pw ?s pd' j = pw s pd' j" if "pd' \<in> D" "unat j < 1024" for pd' j
    using pw_alloced [OF al(7) as_invD(6) [OF inv that(1)] that(2), of fl s] dir_in_tables [OF that(1), of s] al(9) by auto
  have "pde_ok (pw ?s pd (PDX va)) \<or> xs \<noteq> []" using room dirs [OF pd(1) unat_PDX_less] by simp
  moreover have "pp_ref ?s f \<noteq> 0xffff" using al(8) by simp
  moreover have old: "map_option pte_page (amap ?s pd va) \<noteq> Some f"
  proof
    assume "map_option pte_page (amap ?s pd va) = Some f"
    then have "(pd, VPN va) \<in> uses ?s D f" using uses_iff [OF pd(1) legal_va [OF va], of ?s f] by auto
    then show False using al(5,10) by simp
  qed
  ultimately obtain s' ys where s': "page_insert (page2addr pd) (env_asid (envs s ?e)) f va perm ?s = Some (Inr (), s')"
    "as_inv s' D ys" "f \<notin> set ys"
    "\<forall>pd' \<in> D. \<forall>va'. amap s' pd' va' = (if pd' = pd \<and> VPN va' = VPN va then Some (mk_pte f perm) else amap ?s pd' va')"
    "\<forall>q. q \<notin> set xs \<longrightarrow> pp_ref s' q = ref_after (map_option pte_page (amap ?s pd va)) f ?s q"
    "\<forall>q j. q < NPAGES \<longrightarrow> unat j < 1024 \<longrightarrow> q \<notin> tables ?s D \<longrightarrow> q \<notin> set xs \<union> set ys \<longrightarrow> pw s' q j = pw ?s q j"
    "dirs_step D pd (PDX va) ?s s'" "tables s' D \<subseteq> tables ?s D \<union> set xs"
    "length xs \<le> length ys + (if pde_ok (pw ?s pd (PDX va)) then 0 else 1)"
    using page_insert_ok [OF al(2) pd(1) legal_va [OF va] al(7,6) _ perm, of "env_asid (envs s ?e)"] by blast
  have "pw s' f j = 0" if "unat j < 1024" for j
    using s'(3,6) that al(4,6,7,9) pw_alloced [OF al(7,7) that, of fl s] by auto
  moreover have "pp_ref s' f = 1" using s'(5) al(6,8) old by (simp add: ref_after_def)
  moreover have "os_kept s s'"
    using more_page_insert [OF s'(1)] more_page_alloc [OF al(1)] pgdir_page_insert [OF s'(1)] pgdir_page_alloc [OF al(1)]
    by (simp add: os_kept_def)
  moreover have "data_kept D s s'"
  proof (rule data_keptI [OF inv s'(2)])
    show "tables s' D \<subseteq> tables s D \<union> set (f # xs)" using s'(8) al(4) by auto
    fix q and j :: u32 assume "q < NPAGES" "unat j < 1024" "q \<notin> tables s D" "q \<notin> set (f # xs) \<union> set ys"
    then show "pw s' q j = pw s q j" using s'(6) al(4) pw_alloced [OF al(7), of q j fl s] by auto
  qed
  moreover have "dirs_step D pd (PDX va) s s'" using s'(7) dirs pd(1) unat_PDX_less [of va] by (auto simp: dirs_step_def)
  moreover have "e_mem_alloc envid va perm s = Some (Returned 0, s')"
    using va c al(1) env pd(2) s'(1) by (simp add: e_mem_alloc_def with_env_check)
  moreover have "\<forall>q. q \<notin> set (f # xs) \<longrightarrow> pp_ref s' q = ref_after (map_option pte_page (amap s pd va)) f s q"
    using s'(5) al(3) [OF pd(1)] by (simp add: ref_after_def) blast
  moreover have "length xs \<le> length ys + (if pde_ok (pw s pd (PDX va)) then 0 else 1)"
    using s'(9) dirs [OF pd(1) unat_PDX_less] by simp
  ultimately show ?thesis using s'(2,3,4) al(3,10) by (intro exI [of _ s'] exI [of _ ys]) auto
qed

lemma e_mem_map_full:
  assumes inv: "as_inv s D xs" and c: "curenv s = Some c" "may_act s c srcid"
    and src: "owns_dir s D (target c srcid) ps" and dst: "owns_dir s D (target c dstid) pd"
    and va: "\<not> is_illegal_va srcva" "\<not> is_illegal_va dstva" and perm: "perm_ok perm"
    and m: "amap s ps srcva = Some e" and ref: "pp_ref s (pte_page e) \<noteq> 0xffff"
    and room: "pde_ok (pw s pd (PDX dstva)) \<or> xs \<noteq> []"
  shows "\<exists>s' ys. e_mem_map srcid srcva dstid dstva perm s = Some (Returned 0, s') \<and> as_inv s' D ys \<and>
    (\<forall>pd' \<in> D. \<forall>va'. amap s' pd' va' =
       (if pd' = pd \<and> VPN va' = VPN dstva then Some (mk_pte (pte_page e) perm) else amap s pd' va')) \<and>
    os_kept s s' \<and> data_kept D s s' \<and> dirs_step D pd (PDX dstva) s s' \<and>
    length xs \<le> length ys + (if pde_ok (pw s pd (PDX dstva)) then 0 else 1) \<and>
    (\<forall>q. q \<notin> set xs \<longrightarrow> pp_ref s' q = ref_after (map_option pte_page (amap s pd dstva)) (pte_page e) s q) \<and> pte_page e \<notin> set ys"
proof -
  let ?q = "pte_page e" and ?es = "target c srcid" and ?ed = "target c dstid"
  have ps: "ps \<in> D" "env_pgdir (envs s ?es) = page2addr ps" and pd: "pd \<in> D" "env_pgdir (envs s ?ed) = page2addr pd"
    using src dst by (auto simp: owns_dir_def)
  note mr = mapped_ref [OF inv ps(1) legal_va [OF va(1)] m]
  have look: "page_lookup (page2addr ps) srcva s = Some (Some (?q, slot (pt s ps (PDX srcva)) (PTX srcva)))"
    using page_lookup_amap [OF inv ps(1), of srcva] m mr(2) by simp
  from page_insert_ok [OF inv pd(1) legal_va [OF va(2)] mr(2,3) ref perm room, of "env_asid (envs s ?ed)"] obtain s' ys where
    s': "page_insert (page2addr pd) (env_asid (envs s ?ed)) ?q dstva perm s = Some (Inr (), s')" "as_inv s' D ys" "?q \<notin> set ys"
    "\<forall>pd' \<in> D. \<forall>va'. amap s' pd' va' = (if pd' = pd \<and> VPN va' = VPN dstva then Some (mk_pte ?q perm) else amap s pd' va')"
    "\<And>q j. q < NPAGES \<Longrightarrow> unat j < 1024 \<Longrightarrow> q \<notin> tables s D \<Longrightarrow> q \<notin> set xs \<union> set ys \<Longrightarrow> pw s' q j = pw s q j"
    "dirs_step D pd (PDX dstva) s s'" "tables s' D \<subseteq> tables s D \<union> set xs"
    "length xs \<le> length ys + (if pde_ok (pw s pd (PDX dstva)) then 0 else 1)"
    "\<forall>q. q \<notin> set xs \<longrightarrow> pp_ref s' q = ref_after (map_option pte_page (amap s pd dstva)) ?q s q" by blast
  have "envid2env srcid 1 s = Some (Inr (Some ?es), s)" "envid2env dstid 0 s = Some (Inr (Some ?ed), s)"
    using c by (auto simp: envid2env_result may_act_def target_def)
  then have "e_mem_map srcid srcva dstid dstva perm s = Some (Returned 0, s')"
    using va look ps(2) pd(2) s'(1) by (simp add: e_mem_map_def)
  moreover have "os_kept s s'" using more_page_insert [OF s'(1)] pgdir_page_insert [OF s'(1)] by (simp add: os_kept_def)
  moreover have "data_kept D s s'" using data_keptI [OF inv s'(2,7,5)] .
  ultimately show ?thesis using s' by (intro exI [of _ s'] exI [of _ ys]) blast
qed

lemma e_mem_unmap_full:
  assumes inv: "as_inv s D xs" and c: "curenv s = Some c" "may_act s c envid"
    and dir: "owns_dir s D (target c envid) pd" and va: "\<not> is_illegal_va va" and m: "amap s pd va = Some e"
  shows "\<exists>s'. e_mem_unmap envid va s = Some (Returned 0, s') \<and>
    as_inv s' D (if pp_ref s (pte_page e) = 1 then pte_page e # xs else xs) \<and>
    (\<forall>pd' \<in> D. \<forall>va'. amap s' pd' va' = (if pd' = pd \<and> VPN va' = VPN va then None else amap s pd' va')) \<and>
    os_kept s s' \<and> data_kept D s s' \<and> (\<forall>pd' \<in> D. \<forall>i. unat i < 1024 \<longrightarrow> pw s' pd' i = pw s pd' i) \<and>
    pp_ref s' = (pp_ref s)(pte_page e := pp_ref s (pte_page e) - 1) \<and> tables s' D = tables s D"
proof -
  have pd: "pd \<in> D" "env_pgdir (envs s (target c envid)) = page2addr pd" using dir by (auto simp: owns_dir_def)
  from page_remove_ok [OF inv pd(1) legal_va [OF va] m, of "env_asid (envs s (target c envid))"] obtain s' where
    s': "page_remove (page2addr pd) (env_asid (envs s (target c envid))) va s = Some s'"
    "as_inv s' D (if pp_ref s (pte_page e) = 1 then pte_page e # xs else xs)"
    "\<forall>pd' \<in> D. \<forall>va'. amap s' pd' va' = (if pd' = pd \<and> VPN va' = VPN va then None else amap s pd' va')"
    "\<forall>pd' \<in> D. \<forall>i. unat i < 1024 \<longrightarrow> pw s' pd' i = pw s pd' i" "tables s' D = tables s D"
    "pp_ref s' = (pp_ref s)(pte_page e := pp_ref s (pte_page e) - 1)"
    "\<forall>p j. p < NPAGES \<longrightarrow> unat j < 1024 \<longrightarrow> p \<notin> tables s D \<longrightarrow> pw s' p j = pw s p j" by blast
  have "e_mem_unmap envid va s = Some (Returned 0, s')" using va c pd(2) s'(1) by (simp add: e_mem_unmap_def with_env_check)
  moreover have "os_kept s s'" using more_page_remove [OF s'(1)] pgdir_page_remove [OF s'(1)] by (simp add: os_kept_def)
  moreover have "data_kept D s s'" using s'(5,7) by (simp add: data_kept_def)
  ultimately show ?thesis using s' by blast
qed

text \<open>The same without the frame, and for an address that need not be mapped.\<close>

lemma e_mem_alloc_ok:
  assumes "as_inv s D (f # xs)" "curenv s = Some c" "may_act s c envid"
    "owns_dir s D (target c envid) pd" "\<not> is_illegal_va va" "perm_ok perm"
    "pde_ok (pw s pd (PDX va)) \<or> xs \<noteq> []"
  shows "\<exists>s' ys. e_mem_alloc envid va perm s = Some (Returned 0, s') \<and> as_inv s' D ys \<and>
    (\<forall>pd' \<in> D. \<forall>va'. amap s' pd' va' = (if pd' = pd \<and> VPN va' = VPN va then Some (mk_pte f perm) else amap s pd' va')) \<and>
    (\<forall>j. unat j < 1024 \<longrightarrow> pw s' f j = 0) \<and> uses s D f = {} \<and> pp_ref s' f = 1 \<and> envs s' = envs s"
  using e_mem_alloc_full [OF assms] os_kept_fields(1) by blast

lemma e_mem_map_ok:
  assumes inv: "as_inv s D xs" and c: "curenv s = Some c" "may_act s c srcid"
    and src: "owns_dir s D (target c srcid) ps" and dst: "owns_dir s D (target c dstid) pd"
    and va: "\<not> is_illegal_va srcva" "\<not> is_illegal_va dstva" and perm: "perm_ok perm"
    and m: "amap s ps srcva = Some e" and ref: "pp_ref s (pte_page e) \<noteq> 0xffff"
    and room: "pde_ok (pw s pd (PDX dstva)) \<or> xs \<noteq> []"
  shows "\<exists>s' ys. e_mem_map srcid srcva dstid dstva perm s = Some (Returned 0, s') \<and> as_inv s' D ys \<and>
    (\<forall>pd' \<in> D. \<forall>va'. amap s' pd' va' =
       (if pd' = pd \<and> VPN va' = VPN dstva then Some (mk_pte (pte_page e) perm) else amap s pd' va')) \<and>
    (\<forall>j. unat j < 1024 \<longrightarrow> pte_page e \<notin> tables s D \<longrightarrow> pw s' (pte_page e) j = pw s (pte_page e) j)"
proof -
  have ps: "ps \<in> D" "pd \<in> D" using src dst by (auto simp: owns_dir_def)
  from e_mem_map_full [OF assms] obtain s' ys where
    s': "e_mem_map srcid srcva dstid dstva perm s = Some (Returned 0, s')" "as_inv s' D ys" "data_kept D s s'"
    "\<forall>pd' \<in> D. \<forall>va'. amap s' pd' va' = (if pd' = pd \<and> VPN va' = VPN dstva then Some (mk_pte (pte_page e) perm) else amap s pd' va')" by blast
  have "amap s' pd dstva = Some (mk_pte (pte_page e) perm)" using s'(4) ps(2) by simp
  note mr = mapped_ref [OF inv ps(1) legal_va [OF va(1)] m] and mr' = mapped_ref [OF s'(2) ps(2) legal_va [OF va(2)] this]
  have "pp_ref s' (pte_page e) \<noteq> 0" using mr' mr(2) perm by (auto simp: pte_page_mk_pte)
  moreover have "pp_ref s (pte_page e) \<noteq> 0" using mr(1) by auto
  ultimately show ?thesis using s' data_keptD(2) [OF s'(3) mr(2)] by blast
qed

lemma e_mem_unmap_ok:
  assumes inv: "as_inv s D xs" and c: "curenv s = Some c" "may_act s c envid"
    and dir: "owns_dir s D (target c envid) pd" and va: "\<not> is_illegal_va va"
  shows "\<exists>s' ys. e_mem_unmap envid va s = Some (Returned 0, s') \<and> as_inv s' D ys \<and>
    (\<forall>pd' \<in> D. \<forall>va'. amap s' pd' va' = (if pd' = pd \<and> VPN va' = VPN va then None else amap s pd' va'))"
proof (cases "amap s pd va")
  case None
  have pd: "pd \<in> D" "env_pgdir (envs s (target c envid)) = page2addr pd" using dir by (auto simp: owns_dir_def)
  have "e_mem_unmap envid va s = Some (Returned 0, s)"
    using va c pd(2) page_remove_unmapped [OF inv pd(1) None] by (simp add: e_mem_unmap_def with_env_check)
  moreover have "amap s pd' va' = (if pd' = pd \<and> VPN va' = VPN va then None else amap s pd' va')" for pd' va'
    using None amap_VPN [of va' va s pd] by simp
  ultimately show ?thesis using inv by blast
next
  case (Some e)
  then show ?thesis using e_mem_unmap_full [OF assms Some] by blast
qed

section \<open>Status and the run queue\<close>

lemma set_frame_fields [simp]:
  "envs (set_frame a f s) = envs s" "curenv (set_frame a f s) = curenv s"
  "env_sched_list (set_frame a f s) = env_sched_list s" "sscratch_csr (set_frame a f s) = sscratch_csr s"
  "kmem (set_frame a f s) = kmem s" "kframes (set_frame a f s) = (kframes s)(a := f)"
  by (simp_all add: set_frame_def)

text \<open>An environment leaves the queue when it stops being runnable and joins it at the end when it starts.\<close>

lemma sched_inv_leave:
  assumes inv: "sched_inv s q" and e: "e \<in> set q" and st: "env_status (f (envs s e)) \<noteq> ENV_RUNNABLE"
  shows "\<exists>h. TAILQ_REMOVE e (env_sched_list s) = Some h \<and>
    sched_inv (upd_env e f (s\<lparr>env_sched_list := h\<rparr>)) (remove1 e q) \<and>
    sched_inv ((upd_env e f s)\<lparr>env_sched_list := h\<rparr>) (remove1 e q)"
proof -
  have rep: "tailq_rep (env_sched_list s) q" "distinct q" using inv by (auto simp: sched_inv_def tailq_rep_def)
  from TAILQ_REMOVE_rep [OF rep(1) e] obtain h where "TAILQ_REMOVE e (env_sched_list s) = Some h" "tailq_rep h (remove1 e q)" by blast
  then show ?thesis using inv st rep(2) by (auto simp: sched_inv_def upd_env_def)
qed

lemma sched_inv_join:
  assumes inv: "sched_inv s q" and e: "e \<notin> set q" "e < NENV" and st: "env_status (f (envs s e)) = ENV_RUNNABLE"
  shows "sched_inv (upd_env e f (s\<lparr>env_sched_list := TAILQ_INSERT_TAIL e (env_sched_list s)\<rparr>)) (q @ [e])"
    and "sched_inv ((upd_env e f s)\<lparr>env_sched_list := TAILQ_INSERT_TAIL e (env_sched_list s)\<rparr>) (q @ [e])"
  using assms TAILQ_INSERT_TAIL_rep [of "env_sched_list s" q e] by (auto simp: sched_inv_def upd_env_def)

lemma target_less: "c < NENV \<Longrightarrow> target c envid < NENV"
  using ENVX_less by (simp add: target_def)

lemma e_set_env_status_ok:
  assumes inv: "sched_inv s q" and c: "curenv s = Some c" "c < NENV" "may_act s c envid"
    and st: "status = ENV_RUNNABLE \<or> status = ENV_NOT_RUNNABLE"
    and old: "env_status (envs s (target c envid)) = ENV_RUNNABLE \<or> env_status (envs s (target c envid)) = ENV_NOT_RUNNABLE"
  defines "e \<equiv> target c envid"
  shows "\<exists>s'. e_set_env_status envid status s = Some (Returned 0, s') \<and> env_status (envs s' e) = status \<and>
    sched_inv s' (if status = ENV_NOT_RUNNABLE then remove1 e q else if e \<in> set q then q else q @ [e])"
proof -
  let ?f = "\<lambda>x. x\<lparr>env_status := status\<rparr>"
  have e: "e < NENV" using target_less [OF c(2)] by (simp add: e_def)
  have q: "e \<in> set q \<longleftrightarrow> env_status (envs s e) = ENV_RUNNABLE" using inv e by (auto simp: sched_inv_def)
  have call: "e_set_env_status envid status s = do { s \<leftarrow> (if env_status (envs s e) = ENV_RUNNABLE \<and> status = ENV_NOT_RUNNABLE then
                    do { q \<leftarrow> TAILQ_REMOVE e (env_sched_list s); Some (s\<lparr>env_sched_list := q\<rparr>) }
                  else if env_status (envs s e) = ENV_NOT_RUNNABLE \<and> status = ENV_RUNNABLE then
                    Some (s\<lparr>env_sched_list := TAILQ_INSERT_TAIL e (env_sched_list s)\<rparr>)
                  else Some s); Some (Returned 0, upd_env e ?f s) }"
    using st c by (auto simp: e_set_env_status_def with_env_check e_def)
  consider (leave) "e \<in> set q" "status = ENV_NOT_RUNNABLE" | (join) "e \<notin> set q" "status = ENV_RUNNABLE"
    | (same) "e \<in> set q" "status = ENV_RUNNABLE" | (none) "e \<notin> set q" "status = ENV_NOT_RUNNABLE"
    using st by blast
  then show ?thesis
  proof cases
    case leave
    then show ?thesis using sched_inv_leave [OF inv leave(1), of ?f] call q by auto
  next
    case join
    then show ?thesis using sched_inv_join(1) [OF inv join(1) e, of ?f] call q old by (auto simp: e_def)
  next
    case same
    then have "sched_inv (upd_env e ?f s) q" using inv q by (auto simp: sched_inv_def upd_env_def)
    then show ?thesis using same call q by auto
  next
    case none
    then have "sched_inv (upd_env e ?f s) q" using inv q by (auto simp: sched_inv_def upd_env_def)
    then show ?thesis using none call q old by (auto simp: e_def remove1_idem)
  qed
qed

section \<open>Messages\<close>

text \<open>A receiver blocks: it leaves the queue and will resume with result 0.\<close>

lemma e_ipc_recv_ok:
  assumes inv: "sched_inv s (r # q)" and r: "curenv s = Some r" and q: "q \<noteq> []" and d: "dstva = 0 \<or> \<not> is_illegal_va dstva"
  shows "\<exists>s'. e_ipc_recv dstva s = Some (Switched, s') \<and> sched_inv s' q \<and> curenv s' = Some (hd q) \<and>
    env_status (envs s' r) = ENV_NOT_RUNNABLE \<and> env_ipc_recving (envs s' r) = 1 \<and> env_ipc_dstva (envs s' r) = dstva \<and>
    env_tf (envs s' r) = set_reg 10 0 (cur_frame s) \<and> (\<forall>x. env_id (envs s' x) = env_id (envs s x)) \<and> kmem s' = kmem s"
proof -
  let ?f = "\<lambda>x. x\<lparr>env_ipc_recving := 1, env_ipc_dstva := dstva, env_status := ENV_NOT_RUNNABLE\<rparr>"
  from sched_inv_leave [OF inv, of r ?f] obtain h where h: "TAILQ_REMOVE r (env_sched_list s) = Some h"
    "sched_inv ((upd_env r ?f s)\<lparr>env_sched_list := h\<rparr>) q" by auto
  let ?s1 = "(upd_env r ?f s)\<lparr>env_sched_list := h\<rparr>"
  let ?s2 = "set_frame (sscratch_csr s) (set_reg 10 0 (cur_frame s)) ?s1"
  have inv2: "sched_inv ?s2 q" using h(2) by (simp add: sched_inv_def)
  have "\<forall>c. curenv ?s2 = Some c \<longrightarrow> env_status (envs ?s2 c) \<noteq> ENV_RUNNABLE" using r by simp
  from schedule_next [OF inv2 q this, of 1] obtain s' where s': "schedule 1 ?s2 = Some s'" "sched_inv s' q" "curenv s' = Some (hd q)"
    "envs s' = after_switch ?s2 (hd q)" "kmem s' = kmem ?s2" by blast
  have "e_ipc_recv dstva s = Some (Switched, s')"
    using d r h(1) s'(1) by (auto simp: e_ipc_recv_def Let_def cur_frame_def)
  then show ?thesis using s' r by (auto simp: cur_frame_def)
qed

lemma e_ipc_try_send_not_recv:
  assumes "curenv s = Some c" "env_ipc_recving (envs s (target c envid)) = 0" "srcva = 0 \<or> \<not> is_illegal_va srcva"
  shows "e_ipc_try_send envid v srcva perm s = Some (Returned (- errno E_IPC_NOT_RECV), s)"
  using assms by (auto simp: e_ipc_try_send_def with_env_nocheck)

text \<open>The receiver as the sender leaves it, before a page is transferred.\<close>

definition woken :: "nat \<Rightarrow> u32 \<Rightarrow> u32 \<Rightarrow> u32 \<Rightarrow> kstate \<Rightarrow> kstate" where
  "woken e from value perm s =
     (upd_env e (\<lambda>x. x\<lparr>env_ipc_value := value, env_ipc_from := from, env_ipc_perm := PTE_V OR perm,
        env_ipc_recving := 0, env_status := ENV_RUNNABLE\<rparr>) s)
     \<lparr>env_sched_list := TAILQ_INSERT_TAIL e (env_sched_list s)\<rparr>"

lemma sched_inv_woken:
  assumes "sched_inv s q" "e < NENV" "env_status (envs s e) \<noteq> ENV_RUNNABLE"
  shows "sched_inv (woken e from v perm s) (q @ [e])"
proof -
  have "e \<notin> set q" using assms(1,3) by (simp add: sched_inv_def)
  then show ?thesis unfolding woken_def by (intro sched_inv_join(2) assms) simp_all
qed

lemma woken_env [simp]:
  "env_pgdir (envs (woken e from v perm s) x) = env_pgdir (envs s x)" "env_asid (envs (woken e from v perm s) x) = env_asid (envs s x)"
  "env_ipc_dstva (envs (woken e from v perm s) x) = env_ipc_dstva (envs s x)" "env_id (envs (woken e from v perm s) x) = env_id (envs s x)"
  by (simp_all add: woken_def)

lemma e_ipc_try_send_value:
  assumes "curenv s = Some c" "env_ipc_recving (envs s (target c envid)) \<noteq> 0"
  shows "e_ipc_try_send envid v 0 perm s = Some (Returned 0, woken (target c envid) (env_id (envs s c)) v perm s)"
  using assms by (simp add: e_ipc_try_send_def with_env_nocheck woken_def Let_def)

text \<open>Rendezvous: the receiver waits, the next environment sends, the receiver is queued with the message.\<close>

lemma ipc_rendezvous:
  assumes inv: "sched_inv s (r # q)" and r: "curenv s = Some r" "r < NENV" and q: "q \<noteq> []"
    and id: "env_id (envs s r) \<noteq> 0" "unat (ENVX (env_id (envs s r))) = r"
  shows "\<exists>s1 s2. e_ipc_recv 0 s = Some (Switched, s1) \<and> curenv s1 = Some (hd q) \<and>
    e_ipc_try_send (env_id (envs s r)) v 0 perm s1 = Some (Returned 0, s2) \<and> sched_inv s2 (q @ [r]) \<and>
    env_ipc_value (envs s2 r) = v \<and> env_ipc_from (envs s2 r) = env_id (envs s (hd q)) \<and>
    env_ipc_recving (envs s2 r) = 0 \<and> env_tf (envs s2 r) = set_reg 10 0 (cur_frame s)"
proof -
  from e_ipc_recv_ok [OF inv r(1) q, of 0] obtain s1 where s1: "e_ipc_recv 0 s = Some (Switched, s1)" "sched_inv s1 q"
    "curenv s1 = Some (hd q)" "env_status (envs s1 r) = ENV_NOT_RUNNABLE" "env_ipc_recving (envs s1 r) = 1"
    "env_tf (envs s1 r) = set_reg 10 0 (cur_frame s)" "\<forall>x. env_id (envs s1 x) = env_id (envs s x)" by blast
  have t: "target (hd q) (env_id (envs s r)) = r" using id by (simp add: target_def)
  let ?s2 = "woken r (env_id (envs s (hd q))) v perm s1"
  have "e_ipc_try_send (env_id (envs s r)) v 0 perm s1 = Some (Returned 0, ?s2)"
    using e_ipc_try_send_value [OF s1(3), of "env_id (envs s r)" v perm] t s1(5,7) by simp
  moreover have "sched_inv ?s2 (q @ [r])" using sched_inv_woken [OF s1(2) r(2)] s1(4) by simp
  ultimately show ?thesis using s1 by (intro exI [of _ s1] exI [of _ ?s2]) (simp add: woken_def)
qed

text \<open>With a page: the receiver gets the sender's page at the address it asked for.\<close>

lemma woken_pmap [simp]:
  "as_inv (woken e from v perm s) D xs = as_inv s D xs" "amap (woken e from v perm s) = amap s"
  "pw (woken e from v perm s) = pw s" "pp_ref (woken e from v perm s) = pp_ref s"
  by (rule pmap_cong; simp add: woken_def)+ (simp add: woken_def)

lemma e_ipc_try_send_receiving:
  assumes c: "curenv s = Some c" and rec: "env_ipc_recving (envs s (target c envid)) \<noteq> 0"
    and va: "srcva \<noteq> 0" "\<not> is_illegal_va srcva"
  shows "e_ipc_try_send envid v srcva perm s =
    (let s1 = woken (target c envid) (env_id (envs s c)) v perm s in
     do { l \<leftarrow> page_lookup (env_pgdir (envs s c)) srcva s1;
          (case l of None \<Rightarrow> ret (- errno E_INVAL) s1
           | Some (p, _) \<Rightarrow>
               do { (_, s) \<leftarrow> page_insert (env_pgdir (envs s (target c envid))) (env_asid (envs s (target c envid))) p
                      (env_ipc_dstva (envs s (target c envid))) perm s1;
                    ret 0 s }) })"
  using assms by (auto simp: e_ipc_try_send_def with_env_nocheck woken_def Let_def)

lemma e_ipc_try_send_page:
  assumes inv: "as_inv s D xs" and c: "curenv s = Some c" and rec: "env_ipc_recving (envs s (target c envid)) \<noteq> 0"
    and src: "owns_dir s D c ps" and dst: "owns_dir s D (target c envid) pd"
    and va: "srcva \<noteq> 0" "\<not> is_illegal_va srcva" "env_ipc_dstva (envs s (target c envid)) = dstva" "dstva < UTOP"
    and m: "amap s ps srcva = Some e" and ref: "pp_ref s (pte_page e) \<noteq> 0xffff" and perm: "perm_ok perm"
    and room: "pde_ok (pw s pd (PDX dstva)) \<or> xs \<noteq> []"
  shows "\<exists>s' ys. e_ipc_try_send envid v srcva perm s = Some (Returned 0, s') \<and> as_inv s' D ys \<and>
    (\<forall>pd' \<in> D. \<forall>va'. amap s' pd' va' =
       (if pd' = pd \<and> VPN va' = VPN dstva then Some (mk_pte (pte_page e) perm) else amap s pd' va')) \<and>
    envs s' = envs (woken (target c envid) (env_id (envs s c)) v perm s)"
proof -
  let ?q = "pte_page e" and ?e = "target c envid"
  let ?s = "woken ?e (env_id (envs s c)) v perm s"
  have ps: "ps \<in> D" "env_pgdir (envs ?s c) = page2addr ps" and pd: "pd \<in> D" "env_pgdir (envs ?s ?e) = page2addr pd"
    using src dst by (auto simp: owns_dir_def)
  have inv': "as_inv ?s D xs" "amap ?s ps srcva = Some e" "pp_ref ?s ?q \<noteq> 0xffff" "pde_ok (pw ?s pd (PDX dstva)) \<or> xs \<noteq> []"
    using inv m ref room by simp_all
  note mr = mapped_ref [OF inv'(1) ps(1) legal_va [OF va(2)] inv'(2)]
  have look: "page_lookup (page2addr ps) srcva ?s = Some (Some (?q, slot (pt ?s ps (PDX srcva)) (PTX srcva)))"
    using page_lookup_amap [OF inv'(1) ps(1), of srcva] inv'(2) mr(2) by simp
  from page_insert_ok [OF inv'(1) pd(1) va(4) mr(2,3) inv'(3) perm inv'(4), of "env_asid (envs ?s ?e)"] obtain s' ys where
    s': "page_insert (page2addr pd) (env_asid (envs ?s ?e)) ?q dstva perm ?s = Some (Inr (), s')" "as_inv s' D ys"
    "\<forall>pd' \<in> D. \<forall>va'. amap s' pd' va' = (if pd' = pd \<and> VPN va' = VPN dstva then Some (mk_pte ?q perm) else amap ?s pd' va')" by blast
  have "e_ipc_try_send envid v srcva perm s = Some (Returned 0, s')"
    using va(3) look ps(2) pd(2) s'(1) by (simp add: e_ipc_try_send_receiving [OF c rec va(1,2)])
  then show ?thesis using s'(2,3) more_fields(1) [OF more_page_insert [OF s'(1)]] by auto
qed

text \<open>
  An error after the point of no return: when the sender's address is not mapped, the call reports
  \<open>E_INVAL\<close>, but the receiver has been given the value and woken all the same.
\<close>

lemma e_ipc_try_send_unmapped:
  assumes inv: "as_inv s D xs" and c: "curenv s = Some c" and rec: "env_ipc_recving (envs s (target c envid)) \<noteq> 0"
    and src: "owns_dir s D c ps" and va: "srcva \<noteq> 0" "\<not> is_illegal_va srcva" and m: "amap s ps srcva = None"
  shows "e_ipc_try_send envid v srcva perm s =
    Some (Returned (- errno E_INVAL), woken (target c envid) (env_id (envs s c)) v perm s)"
proof -
  let ?s = "woken (target c envid) (env_id (envs s c)) v perm s"
  have ps: "ps \<in> D" "env_pgdir (envs ?s c) = page2addr ps" using src by (auto simp: owns_dir_def)
  have "page_lookup (page2addr ps) srcva ?s = Some None" using page_lookup_amap [of ?s D xs ps srcva] inv ps(1) m by simp
  then show ?thesis using ps(2) by (simp add: e_ipc_try_send_receiving [OF c rec va])
qed

end
