(* ===== verification/Traps.thy ===== *)
theory Traps
  imports EcallProps
begin

text \<open>
  \<^verbatim>\<open>kern/traps.c\<close> and the dispatch of \<^verbatim>\<open>kern/entry.S\<close>: page faults, the timer, and the table of handlers. A handler
  gets the address of the trap frame; it returns to the interrupted environment (\<open>Returned\<close>), or the
  scheduler has switched (\<open>Switched\<close>), or the kernel has panicked (\<open>None\<close>).
\<close>

section \<open>Page faults on loads\<close>

text \<open>
  The branches for ordinary addresses: when nothing is mapped there, the code allocates a page and then
  reads through the pointer \<open>pte1\<close> that \<open>page_lookup\<close> has not set, which is undefined.
\<close>

definition load_fault_remap :: "u32 \<Rightarrow> nat \<Rightarrow> kstate \<Rightarrow> kstate option" where
  "load_fault_remap va c s =
     do { l \<leftarrow> page_lookup (env_pgdir (envs s c)) va s;
          (case l of
             None \<Rightarrow> None
           | Some (pp, pte1) \<Rightarrow>
               do { (r, s) \<leftarrow> page_insert (env_pgdir (envs s c)) (env_asid (envs s c)) pp (ROUNDDOWN va BY2PG)
                      (kload32 s pte1 OR PTE_R OR PTE_U) s;
                    (case r of Inl _ \<Rightarrow> None | Inr _ \<Rightarrow> Some s) }) }"

text \<open>The window on the page tables at \<open>UVPT\<close>: every table, missing ones included, is mapped into it.\<close>

fun vpt_loop :: "nat \<Rightarrow> u32 \<Rightarrow> u32 list \<Rightarrow> kstate \<Rightarrow> kstate option" where
  "vpt_loop c pgdir [] s = Some s"
| "vpt_loop c pgdir (i # is) s =
     (let pt = PADDR (PTE_ADDR (kload32 s (pgdir + 4 * i))) in
      if pt = 0 then
        do { (r, s) \<leftarrow> page_alloc s;
             (case r of
                Inl _ \<Rightarrow> None
              | Inr pp \<Rightarrow>
                  (let s = kstore32 (pgdir + 4 * i) (page2ptx pp OR PTE_V) s;
                       s = set_ref pp (pp_ref s pp + 1) s
                   in do { (_, s) \<leftarrow> page_insert pgdir (env_asid (envs s c)) pp (UVPT + push_bit 12 i) (PTE_R OR PTE_U) s;
                           vpt_loop c pgdir is s })) }
      else
        do { pp \<leftarrow> addr2page (npage s) pt;
             (_, s) \<leftarrow> page_insert pgdir (env_asid (envs s c)) pp (UVPT + push_bit 12 i) (PTE_R OR PTE_U) s;
             vpt_loop c pgdir is s })"

definition load_fault_vpt :: "nat \<Rightarrow> kstate \<Rightarrow> kstate option" where
  "load_fault_vpt c s =
     (let pgdir = env_pgdir (envs s c); pd = pgdir + 4 * PDX UVPT in
      do { s \<leftarrow> (if kload32 s pd = 0 then
                  do { (r, s) \<leftarrow> page_alloc s;
                       (case r of
                          Inl _ \<Rightarrow> None
                        | Inr pp \<Rightarrow> Some (kstore32 pd (page2ptx pp OR PTE_V) (set_ref pp (pp_ref s pp + 1) s))) }
                else Some s);
           s \<leftarrow> vpt_loop c pgdir (map of_nat [0..<1024]) s;
           pp \<leftarrow> addr2page (npage s) pgdir;
           (_, s) \<leftarrow> page_insert pgdir (env_asid (envs s c)) pp (UVPT + push_bit 12 (PDX UVPT)) (PTE_R OR PTE_U) s;
           Some s })"

definition do_load_page :: "u32 \<Rightarrow> kstate \<Rightarrow> kstate option" where
  "do_load_page tf s =
     (let va = stval (kframes s tf) in
      if va < UTEMP then None
      else do { c \<leftarrow> curenv s;
                (if va < UVPT then load_fault_remap va c s
                 else if va \<ge> UVPT \<and> va < ULIM then load_fault_vpt c s
                 else load_fault_remap va c s) })"

section \<open>Page faults on stores\<close>

definition cow_fault :: "nat \<Rightarrow> u32 \<Rightarrow> kstate \<Rightarrow> kstate option" where
  "cow_fault c tf s =
     do { s \<leftarrow> ustore_tf (UXSTACKTOP - TF_SIZE) (kframes s tf) s;
          let f = kframes s tf;
          let f = (if regs f 2 < USTACKTOP \<or> regs f 2 \<ge> UXSTACKTOP then set_reg 2 UXSTACKTOP f else f);
          let f = set_reg 2 (regs f 2 - 2 * TF_SIZE) f;
          s \<leftarrow> ustore_tf (regs f 2) f s;
          (if env_cow_entry (envs s c) \<noteq> 0 then
             (let f = set_reg 10 (regs f 2) f;
                  f = f\<lparr>sepc := env_cow_entry (envs s c)\<rparr>
              in Some (set_frame tf f s))
           else None) }"

definition do_store_page :: "u32 \<Rightarrow> kstate \<Rightarrow> kstate option" where
  "do_store_page tf s =
     (let va = stval (kframes s tf) in
      do { l \<leftarrow> page_lookup (cur_pgdir s) va s;
           (case l of
              Some (pp, pte1) \<Rightarrow>
                (if kload32 s pte1 AND PTE_V \<noteq> 0 then
                   do { c \<leftarrow> curenv s;
                        (if kload32 s pte1 AND PTE_COW = PTE_COW then cow_fault c tf s
                         else do { (r, s) \<leftarrow> page_insert (env_pgdir (envs s c)) (env_asid (envs s c)) pp
                                     (ROUNDDOWN va BY2PG) (kload32 s pte1 OR PTE_W) s;
                                   (case r of Inl _ \<Rightarrow> None | Inr _ \<Rightarrow> Some s) }) }
                 else None)
            | None \<Rightarrow>
                do { (r, s) \<leftarrow> page_alloc s;
                     (case r of
                        Inl _ \<Rightarrow> None
                      | Inr pp \<Rightarrow>
                          do { c \<leftarrow> curenv s;
                               (r, s) \<leftarrow> page_insert (env_pgdir (envs s c)) (env_asid (envs s c)) pp
                                  (ROUNDDOWN va BY2PG) (PTE_R OR PTE_W OR PTE_U) s;
                               (case r of Inl _ \<Rightarrow> None | Inr _ \<Rightarrow> Some s) }) }) })"

section \<open>Timer and dispatch\<close>

text \<open>\<open>SBI_TIMER\<close> arms the next tick and has no effect on this state.\<close>

definition do_timer_int :: "u32 \<Rightarrow> kstate \<Rightarrow> kstate option" where
  "do_timer_int tf s = schedule 0 s"

datatype handler = handle_reserved | handle_software | handle_timer | handle_ecall_from_u
  | handle_instruction_page | handle_load_page | handle_store_page

text \<open>The table has 32 entries; an index beyond it reads whatever follows.\<close>

definition exception_handlers :: "nat \<Rightarrow> handler option" where
  "exception_handlers i =
     (if i \<ge> 32 then None
      else Some (if i = 17 \<or> i = 3 then handle_software
        else if i = 21 then handle_timer
        else if i = 8 then handle_ecall_from_u
        else if i = 12 then handle_instruction_page
        else if i = 13 then handle_load_page
        else if i = 15 then handle_store_page
        else handle_reserved))"

text \<open>\<open>exc_gen_entry\<close>: interrupts have the top bit of \<open>scause\<close> set and use the upper half of the table.\<close>

definition exc_index :: "u32 \<Rightarrow> u32" where
  "exc_index cause = (if drop_bit 31 cause AND 1 = 0 then cause else drop_bit 1 (push_bit 1 cause) + 16)"

definition exc_dispatch :: "device \<Rightarrow> u32 \<Rightarrow> u32 \<Rightarrow> kstate \<Rightarrow> (unit outcome \<times> kstate) option" where
  "exc_dispatch dev tbuf tf s =
     do { h \<leftarrow> exception_handlers (unat (exc_index (scause (kframes s tf))));
          (case h of
             handle_software \<Rightarrow> Some (Returned (), s)
           | handle_timer \<Rightarrow> do { s \<leftarrow> do_timer_int tf s; Some (Switched, s) }
           | handle_ecall_from_u \<Rightarrow> do_ecall_from_u dev tbuf tf s
           | handle_load_page \<Rightarrow> do { s \<leftarrow> do_load_page tf s; Some (Returned (), s) }
           | handle_store_page \<Rightarrow> do { s \<leftarrow> do_store_page tf s; Some (Returned (), s) }
           | handle_instruction_page \<Rightarrow> None
           | handle_reserved \<Rightarrow> None) }"

section \<open>Demand paging\<close>

lemma VPN_ROUNDDOWN: "VPN (ROUNDDOWN va BY2PG) = VPN va"
proof -
  have m: "BY2PG - 1 = mask 12" by (simp add: mask_eq_exp_minus_1)
  show ?thesis unfolding ROUNDDOWN_def m by (rule bit_word_eqI) (auto simp: bit_simps dest: bit_imp_le_length)
qed

lemma PDX_ROUNDDOWN: "PDX (ROUNDDOWN va BY2PG) = PDX va" "PTX (ROUNDDOWN va BY2PG) = PTX va"
  using VPN_ROUNDDOWN [of va] by (simp_all add: VPN_eq_iff)

lemma ROUNDDOWN_le: "ROUNDDOWN va BY2PG \<le> va"
  by (simp add: ROUNDDOWN_def word_and_le2)

text \<open>A store to an unmapped user page brings in a zero page, private to the running environment.\<close>

lemma do_store_page_fresh:
  assumes inv: "as_inv s D (f # xs)" and c: "curenv s = Some c" "owns_dir s D c pd" "cur_pgdir s = env_pgdir (envs s c)"
    and va: "va = stval (kframes s tf)" "va < UTOP" and un: "amap s pd va = None"
    and room: "pde_ok (pw s pd (PDX va)) \<or> xs \<noteq> []"
  shows "\<exists>s' ys. do_store_page tf s = Some s' \<and> as_inv s' D ys \<and>
    (\<forall>pd' \<in> D. \<forall>va'. amap s' pd' va' =
       (if pd' = pd \<and> VPN va' = VPN va then Some (mk_pte f (PTE_R OR PTE_W OR PTE_U)) else amap s pd' va')) \<and>
    (\<forall>j. unat j < 1024 \<longrightarrow> pw s' f j = 0) \<and> uses s D f = {}"
proof -
  obtain fl where al: "page_alloc s = Some (Inr f, alloced f fl s)" "as_inv (alloced f fl s) D xs"
    "\<And>pd va. pd \<in> D \<Longrightarrow> amap (alloced f fl s) pd va = amap s pd va"
    "tables (alloced f fl s) D = tables s D" "\<And>q. uses (alloced f fl s) D q = uses s D q"
    "f \<notin> set xs" "f < NPAGES" "pp_ref s f = 0" "f \<notin> tables s D" "uses s D f = {}"
    using page_alloc_ok [OF inv] by blast
  let ?s = "alloced f fl s" and ?va = "ROUNDDOWN va BY2PG"
  have pd: "pd \<in> D" "env_pgdir (envs s c) = page2addr pd" using c(2) by (auto simp: owns_dir_def)
  note fr = more_fields [OF more_page_alloc [OF al(1)]]
  have rd: "?va < UTOP" using ROUNDDOWN_le [of va] va(2) by (rule order_le_less_trans)
  have "f \<noteq> pd" using dir_in_tables [OF pd(1), of s] al(9) by auto
  then have rm: "pde_ok (pw ?s pd (PDX ?va)) \<or> xs \<noteq> []"
    using room pw_alloced [OF al(7) as_invD(6) [OF inv pd(1)] unat_PDX_less [of va], of fl s] by (simp add: PDX_ROUNDDOWN)
  have rf: "pp_ref ?s f \<noteq> 0xffff" using al(8) by simp
  define perm where "perm = PTE_R OR PTE_W OR PTE_U"
  have pm: "perm_ok perm" unfolding perm_def by (simp only: perm_ok_or perm_ok_flags)
  have look: "page_lookup (cur_pgdir s) va s = Some None"
    using page_lookup_amap [OF inv pd(1), of va] un c(3) pd(2) by simp
  from page_insert_ok [OF al(2) pd(1) rd al(7,6) rf pm rm, of "env_asid (envs s c)"] show ?thesis
  proof (elim exE conjE)
    fix s' ys
    assume s': "page_insert (page2addr pd) (env_asid (envs s c)) f ?va perm ?s = Some (Inr (), s')" "as_inv s' D ys" "f \<notin> set ys"
      "\<forall>pd' \<in> D. \<forall>va'. amap s' pd' va' = (if pd' = pd \<and> VPN va' = VPN ?va then Some (mk_pte f perm) else amap ?s pd' va')"
      "\<forall>q j. q < NPAGES \<longrightarrow> unat j < 1024 \<longrightarrow> q \<notin> tables ?s D \<longrightarrow> q \<notin> set xs \<union> set ys \<longrightarrow> pw s' q j = pw ?s q j"
    have "do_store_page tf s = Some s'"
      using look al(1) fr(1,2) c(1) pd(2) s'(1) va(1) by (simp add: do_store_page_def Let_def perm_def)
    moreover have "pw s' f j = 0" if "unat j < 1024" for j
      using s'(3,5) that al(4,6,7,9) pw_alloced [OF al(7,7) that, of fl s] by auto
    ultimately show ?thesis using s'(2,4) al(3,10) VPN_ROUNDDOWN [of va] unfolding perm_def
      by (intro exI [of _ s'] exI [of _ ys]) simp
  qed
qed

text \<open>
  A store fault on a page that is mapped and not copy-on-write makes the page writable, whatever the
  address: there is no check of the range. The read-only windows on the kernel's tables at \<open>UPAGES\<close> and
  \<open>UENVS\<close> are not excepted.
\<close>

lemma do_store_page_writable:
  assumes inv: "as_inv s D xs" and c: "curenv s = Some c" "owns_dir s D c pd" "cur_pgdir s = env_pgdir (envs s c)"
    and m: "amap s pd (stval (kframes s tf)) = Some e" "e AND PTE_COW \<noteq> PTE_COW" "pte_page e < NPAGES"
  shows "\<exists>s'. do_store_page tf s = Some s' \<and> amap s' pd (stval (kframes s tf)) = Some (mk_pte (pte_page e) (e OR PTE_W))"
proof -
  let ?va = "stval (kframes s tf)"
  let ?t = "pt s pd (PDX ?va)" and ?q = "pte_page e"
  have pd: "pd \<in> D" "env_pgdir (envs s c) = page2addr pd" using c(2) by (auto simp: owns_dir_def)
  have e: "pde_ok (pw s pd (PDX ?va))" "pde_ok e" "pw s ?t (PTX ?va) = e" using m(1) by (auto simp: amap_def split: if_splits)
  have t: "?t < NPAGES" "?t \<notin> D" using as_invD(7,8) [OF inv pd(1) unat_PDX_less e(1)] by auto
  have npd: "?t \<noteq> pd" using t(2) pd(1) by auto
  have "amap s pd (ROUNDDOWN ?va BY2PG) = Some e" using amap_VPN [OF VPN_ROUNDDOWN, of s pd ?va] m(1) by simp
  from page_insert_mapped [OF inv pd(1) this m(3), of "env_asid (envs s c)" ?q "e OR PTE_W"]
  have ins: "page_insert (page2addr pd) (env_asid (envs s c)) ?q (ROUNDDOWN ?va BY2PG) (e OR PTE_W) s =
      Some (Inr (), kstore32 (slot ?t (PTX ?va)) (mk_pte ?q (e OR PTE_W)) (SET_TLB_FLUSH (ROUNDDOWN ?va BY2PG) (env_asid (envs s c)) 0 s))"
      (is "_ = Some (Inr (), ?s')") by (simp add: PDX_ROUNDDOWN)
  have look: "page_lookup (cur_pgdir s) ?va s = Some (Some (?q, slot ?t (PTX ?va)))"
    using page_lookup_amap [OF inv pd(1), of ?va] m c(3) pd(2) by simp
  have "do_store_page tf s = Some ?s'"
    using look ins e m(2) c(1) pd(2) by (simp add: do_store_page_def Let_def kload32_pw pde_ok_def)
  moreover have "pw ?s' pd (PDX ?va) = pw s pd (PDX ?va)" "pw ?s' ?t (PTX ?va) = mk_pte ?q (e OR PTE_W)"
    using pw_kstore32 [OF t(1) as_invD(6) [OF inv pd(1)] unat_PTX_less [of ?va] unat_PDX_less [of ?va], of _ "SET_TLB_FLUSH (ROUNDDOWN ?va BY2PG) (env_asid (envs s c)) 0 s"]
      pw_kstore32 [OF t(1) t(1) unat_PTX_less [of ?va] unat_PTX_less [of ?va], of _ "SET_TLB_FLUSH (ROUNDDOWN ?va BY2PG) (env_asid (envs s c)) 0 s"]
      npd by simp_all
  ultimately show ?thesis using e(1) by (intro exI [of _ ?s']) (simp add: amap_def pt_def)
qed

end
