(* ===== verification/Sample.thy ===== *)
theory Sample
  imports Traps
begin

text \<open>
  A concrete kernel state with two environments, at which the hypotheses of the theorems are checked:
  memory is zero, the page directories are the pages 5 and 6, the pages 7, 8 and 9 are free, environment
  0 runs and is the parent of environment 1.
\<close>

definition sample_tf :: Trapframe where
  "sample_tf = \<lparr>regs = (\<lambda>_. 0), sstatus = 0, sepc = 0x400000, stval = 0x500000, scause = 15, sscratch = 0\<rparr>"

definition sample_env :: "nat \<Rightarrow> Env" where
  "sample_env e = \<lparr>env_tf = sample_tf, env_id = (if e = 0 then 0x800 else if e = 1 then 0x1001 else 0), env_asid = of_nat e,
     env_parent_id = (if e = 1 then 0x800 else 0), env_status = (if e < 2 then ENV_RUNNABLE else ENV_FREE),
     env_pgdir = (if e = 0 then page2addr 5 else page2addr 6), env_pri = 1, env_ipc_value = 0, env_ipc_from = 0,
     env_ipc_recving = 0, env_ipc_dstva = 0, env_ipc_perm = 0, env_cow_entry = 0, env_runs = 0\<rparr>"

definition empty_llist :: "nat llist" where
  "empty_llist = \<lparr>lh_first = None, le_next = (\<lambda>_. None), le_prev = (\<lambda>_. None)\<rparr>"

definition empty_tailq :: "nat tailq" where
  "empty_tailq = \<lparr>tqh_first = None, tqh_last = QHead, tqe_next = (\<lambda>_. None), tqe_prev = (\<lambda>_. None)\<rparr>"

definition sample_vq :: virtqueue where
  "sample_vq = \<lparr>vq_ptr = 0x80700000, vq_desc_ptr = 0x80701000, vq_avail_ptr = 0x80702000, vq_used_ptr = 0x80703000,
     vq_desc = (\<lambda>_. zero_desc), vq_avail = \<lparr>av_flags = 0, av_idx = 0, av_ring = (\<lambda>_. 0)\<rparr>,
     vq_used = \<lparr>us_flags = 0, us_idx = 0, us_ring = (\<lambda>_. zero_used)\<rparr>, vq_reqs = (\<lambda>_. zero_req), vq_free = 0xff\<rparr>"

definition sample :: kstate where
  "sample = \<lparr>kmem = (\<lambda>_. 0), memsize = 0x10000000, npage = 0x10000, freemem = 0, pages_ptr = 0x80610000,
     pp_ref = (\<lambda>p. if p = 5 \<or> p = 6 then 1 else 0),
     page_free_list = LIST_INSERT_HEAD 7 (LIST_INSERT_HEAD 8 (LIST_INSERT_HEAD 9 empty_llist)),
     cur_pgdir = page2addr 5, root_pgdir = 0, mmu_ops = [],
     envs = sample_env, envs_ptr = 0x80500000, curenv = Some 0,
     env_free_list = empty_llist,
     env_sched_list = TAILQ_INSERT_TAIL 1 (TAILQ_INSERT_TAIL 0 empty_tailq),
     base_pgdir = 0, asid_bitmap = (\<lambda>_. 0), mkenvid_i = 2, sched_count = 1,
     kframes = (\<lambda>_. sample_tf), sscratch_csr = 0x805fff6c, resumed = None, console_out = [], console_in = [65],
     vq = sample_vq, disk_img = (\<lambda>_ _. 0)\<rparr>"

lemma sample_fields [simp]:
  "curenv sample = Some 0" "envs sample = sample_env" "npage sample = 0x10000" "kmem sample = (\<lambda>_. 0)"
  "cur_pgdir sample = page2addr 5" "sched_count sample = 1" "asid_bitmap sample = (\<lambda>_. 0)" "freemem sample = 0"
  "pp_ref sample = (\<lambda>p. if p = 5 \<or> p = 6 then 1 else 0)" "kframes sample a = sample_tf" "vq sample = sample_vq"
  by (simp_all add: sample_def)

lemma sample_sched_inv: "sched_inv sample [0, 1]"
proof -
  have "tailq_rep empty_tailq []" by (simp add: tailq_rep_def empty_tailq_def)
  then have "tailq_rep (TAILQ_INSERT_TAIL 0 empty_tailq) ([] @ [0])" by (rule TAILQ_INSERT_TAIL_rep) simp
  then have "tailq_rep (TAILQ_INSERT_TAIL 1 (TAILQ_INSERT_TAIL 0 empty_tailq)) (([] @ [0]) @ [1])"
    by (rule TAILQ_INSERT_TAIL_rep) simp
  then show ?thesis by (auto simp: sched_inv_def sample_def sample_env_def)
qed

lemma sample_pw [simp]: "pw sample p i = 0"
  by (simp add: pw_def kload32_def load32_def)

lemma sample_amap [simp]: "amap sample pd va = None"
  by (simp add: amap_def)

lemma sample_as_inv: "as_inv sample {5, 6} [7, 8, 9]"
proof -
  have "list_rep empty_llist []" by (simp add: list_rep_def empty_llist_def)
  from LIST_INSERT_HEAD_rep [OF this, of 9]
  have "list_rep (LIST_INSERT_HEAD 9 empty_llist) [9]" by simp
  from LIST_INSERT_HEAD_rep [OF this, of 8]
  have "list_rep (LIST_INSERT_HEAD 8 (LIST_INSERT_HEAD 9 empty_llist)) [8, 9]" by simp
  from LIST_INSERT_HEAD_rep [OF this, of 7]
  have "list_rep (page_free_list sample) [7, 8, 9]" by (simp add: sample_def)
  then show ?thesis by (auto simp: as_inv_def uses_def tables_def)
qed

lemma sample_owns [simp]: "owns_dir sample {5, 6} 0 5" "owns_dir sample {5, 6} (Suc 0) 6"
  by (simp_all add: owns_dir_def sample_env_def)

text \<open>Updates of an environment are invisible to the page maps.\<close>

lemma upd_env_pmap:
  "pw (upd_env e f s) = pw s" "amap (upd_env e f s) = amap s" "as_inv (upd_env e f s) D xs = as_inv s D xs"
  by (rule pmap_cong; simp)+

text \<open>The same with no free page.\<close>

definition sample_full :: kstate where
  "sample_full = sample\<lparr>page_free_list := empty_llist\<rparr>"

lemma sample_full_pw [simp]: "pw sample_full p i = 0" "amap sample_full pd va = None"
  by (simp_all add: sample_full_def amap_def pt_def)

lemma sample_full_as_inv: "as_inv sample_full {5, 6} []"
  by (auto simp: as_inv_def uses_def tables_def) (simp_all add: sample_full_def list_rep_def empty_llist_def)

end
