(* ===== verification/Pipe.thy ===== *)
theory Pipe
  imports Prelude "HOL-Library.Sublist"
begin

text \<open>
  \<^verbatim>\<open>user/lib/pipe.c\<close>: the byte channel two environments share through one page. The loops of \<open>pipe_read\<close> and
  \<open>pipe_write\<close> run in different environments and are preempted anywhere, so each is a program counter machine
  whose steps are the single accesses to the shared page: test of the positions, transfer of one byte,
  advance of the position. \<open>_pipe_is_closed\<close> is the environment's answer to the test of an idle
  loop and is modelled on its own, with the reference counts of the two pages read at different times.
\<close>

section \<open>The shared page\<close>

abbreviation BY2PIPE :: nat where
  "BY2PIPE \<equiv> 32"

record Pipe =
  p_rpos :: u32
  p_wpos :: u32
  p_buf :: "u8 list"

text \<open>Positions run freely over all of \<open>u_int\<close>; the cell is the position modulo the buffer size.\<close>

definition cell :: "u32 \<Rightarrow> nat" where
  "cell pos = unat (pos mod 32)"

definition pipe_empty :: "Pipe \<Rightarrow> bool" where
  "pipe_empty p \<longleftrightarrow> p_rpos p = p_wpos p"

definition pipe_full :: "Pipe \<Rightarrow> bool" where
  "pipe_full p \<longleftrightarrow> p_wpos p - p_rpos p = 32"

section \<open>pipe_read\<close>

text \<open>\<open>RTest\<close> is the head of the loop, \<open>RLoad\<close> and \<open>RAdvance\<close> its last branch, \<open>RRet v\<close> the return of \<open>v\<close>.\<close>

datatype rpc = RTest | RLoad | RAdvance | RRet nat

record reader =
  r_pc :: rpc
  r_i :: nat
  r_n :: nat
  rbuf :: "u8 list"

definition pipe_read_start :: "nat \<Rightarrow> reader" where
  "pipe_read_start n = \<lparr>r_pc = RTest, r_i = 0, r_n = n, rbuf = []\<rparr>"

fun pipe_read_step :: "bool \<Rightarrow> Pipe \<times> reader \<Rightarrow> Pipe \<times> reader" where
  "pipe_read_step closed (p, r) =
     (case r_pc r of
        RTest \<Rightarrow>
          if r_i r < r_n r then
            (if pipe_empty p then
               (if r_i r > 0 \<or> closed then (p, r\<lparr>r_pc := RRet (r_i r)\<rparr>) else (p, r))
             else (p, r\<lparr>r_pc := RLoad\<rparr>))
          else (p, r\<lparr>r_pc := RRet (r_n r)\<rparr>)
      | RLoad \<Rightarrow>
          (p, r\<lparr>r_pc := RAdvance, rbuf := rbuf r @ [p_buf p ! cell (p_rpos p)], r_i := r_i r + 1\<rparr>)
      | RAdvance \<Rightarrow> (p\<lparr>p_rpos := p_rpos p + 1\<rparr>, r\<lparr>r_pc := RTest\<rparr>)
      | RRet v \<Rightarrow> (p, r))"

section \<open>pipe_write\<close>

datatype wpc = WTest | WStore | WAdvance | WRet nat

record writer =
  w_pc :: wpc
  w_i :: nat
  wbuf :: "u8 list"

definition pipe_write_start :: "u8 list \<Rightarrow> writer" where
  "pipe_write_start bs = \<lparr>w_pc = WTest, w_i = 0, wbuf = bs\<rparr>"

fun pipe_write_step :: "bool \<Rightarrow> Pipe \<times> writer \<Rightarrow> Pipe \<times> writer" where
  "pipe_write_step closed (p, w) =
     (case w_pc w of
        WTest \<Rightarrow>
          if w_i w < length (wbuf w) then
            (if pipe_full p then
               (if closed then (p, w\<lparr>w_pc := WRet (w_i w)\<rparr>) else (p, w))
             else (p, w\<lparr>w_pc := WStore\<rparr>))
          else (p, w\<lparr>w_pc := WRet (length (wbuf w))\<rparr>)
      | WStore \<Rightarrow>
          (p\<lparr>p_buf := (p_buf p)[cell (p_wpos p) := wbuf w ! w_i w]\<rparr>, w\<lparr>w_pc := WAdvance, w_i := w_i w + 1\<rparr>)
      | WAdvance \<Rightarrow> (p\<lparr>p_wpos := p_wpos p + 1\<rparr>, w\<lparr>w_pc := WTest\<rparr>)
      | WRet v \<Rightarrow> (p, w))"

section \<open>The ring as a bounded queue\<close>

definition ring_inv :: "Pipe \<Rightarrow> bool" where
  "ring_inv p \<longleftrightarrow> length (p_buf p) = BY2PIPE \<and> unat (p_wpos p - p_rpos p) \<le> BY2PIPE"

definition ring_queue :: "Pipe \<Rightarrow> u8 list" where
  "ring_queue p = map (\<lambda>k. p_buf p ! ((unat (p_rpos p) + k) mod BY2PIPE)) [0..<unat (p_wpos p - p_rpos p)]"

lemma cell_unat: "cell pos = unat pos mod BY2PIPE"
  by (simp add: cell_def unat_mod)

text \<open>The buffer size divides \<open>2 ^ 32\<close>, so that wrap-around of the positions does not disturb the cells.\<close>

lemma cell_add: "cell (pos + of_nat k) = (unat pos + k) mod BY2PIPE"
  by (simp add: cell_def unat_mod unat_word_ariths unat_of_nat mod_mod_cancel mod_add_right_eq)

lemma ring_queue_length: "length (ring_queue p) = unat (p_wpos p - p_rpos p)"
  by (simp add: ring_queue_def)

lemma pipe_empty_iff: "pipe_empty p \<longleftrightarrow> ring_queue p = []"
  by (auto simp: pipe_empty_def ring_queue_def unat_eq_zero)

lemma pipe_full_iff: "pipe_full p \<longleftrightarrow> length (ring_queue p) = BY2PIPE"
  by (simp add: pipe_full_def ring_queue_length word_unat_eq_iff)

lemma cell_write: "cell (p_wpos p) = (unat (p_rpos p) + unat (p_wpos p - p_rpos p)) mod BY2PIPE"
  using cell_add [of "p_rpos p" "unat (p_wpos p - p_rpos p)"] by simp

lemma unat_Suc_diff:
  assumes "unat (w - r :: u32) \<le> BY2PIPE"
  shows "unat (w + 1 - r) = Suc (unat (w - r))"
proof -
  have "w + 1 - r = (w - r) + 1" by simp
  then show ?thesis using assms by (simp only: unat_word_ariths) simp
qed

lemma unat_diff_Suc:
  assumes "unat (w - r :: u32) = Suc n"
  shows "unat (w - (r + 1)) = n"
proof -
  have e: "w - (r + 1) = (w - r) - 1" by simp
  have "1 \<le> w - r" using assms by (simp add: word_le_nat_alt)
  then show ?thesis unfolding e using assms by (simp add: unat_sub)
qed

lemma mod_add_inj:
  assumes "(a + i) mod n = (a + j) mod n" and "i < n" and "j < (n :: nat)"
  shows "i = j"
proof -
  have "x = y" if "(a + x) mod n = (a + y) mod n" "y \<le> x" "x < n" for x y
  proof -
    have "n dvd x - y" using that mod_eq_dvd_iff_nat [of "a + y" "a + x" n] by simp
    then show ?thesis using that by (auto dest!: dvd_imp_le)
  qed
  then show ?thesis using assms by (metis nat_le_linear)
qed

lemma ring_count: "ring_inv p \<Longrightarrow> \<not> pipe_full p \<Longrightarrow> unat (p_wpos p - p_rpos p) < BY2PIPE"
  by (simp add: ring_inv_def pipe_full_iff ring_queue_length)

lemma cell_free:
  "ring_inv p \<Longrightarrow> \<not> pipe_full p \<Longrightarrow> k < unat (p_wpos p - p_rpos p) \<Longrightarrow>
   cell (p_wpos p) \<noteq> (unat (p_rpos p) + k) mod BY2PIPE"
  using ring_count [of p] mod_add_inj [of "unat (p_rpos p)" k BY2PIPE "unat (p_wpos p - p_rpos p)"]
  by (auto simp: cell_write)

text \<open>Storing the next byte does not disturb the bytes under way; advancing appends it.\<close>

lemma ring_store:
  assumes "ring_inv p" and "\<not> pipe_full p"
  shows "ring_queue (p\<lparr>p_buf := (p_buf p)[cell (p_wpos p) := b]\<rparr>) = ring_queue p"
  using cell_free [OF assms] by (auto simp: ring_queue_def)

lemma ring_advance_w:
  assumes "ring_inv p" and "\<not> pipe_full p"
  shows "ring_queue (p\<lparr>p_wpos := p_wpos p + 1\<rparr>) = ring_queue p @ [p_buf p ! cell (p_wpos p)]"
  using unat_Suc_diff [of "p_wpos p" "p_rpos p"] ring_count [OF assms]
  by (simp add: ring_queue_def cell_write)

lemma ring_peek:
  "ring_queue p \<noteq> [] \<Longrightarrow> hd (ring_queue p) = p_buf p ! cell (p_rpos p)"
  by (cases "unat (p_wpos p - p_rpos p)") (auto simp: ring_queue_def hd_map upt_conv_Cons cell_unat simp del: upt_Suc)

lemma ring_advance_r:
  assumes "ring_queue p \<noteq> []"
  shows "ring_queue (p\<lparr>p_rpos := p_rpos p + 1\<rparr>) = tl (ring_queue p)"
proof -
  obtain n where n: "unat (p_wpos p - p_rpos p) = Suc n"
    using assms by (cases "unat (p_wpos p - p_rpos p)") (auto simp: ring_queue_def)
  have "(unat (p_rpos p + 1) + k) mod BY2PIPE = (unat (p_rpos p) + Suc k) mod BY2PIPE" for k
    using cell_add [of "p_rpos p + 1" k] cell_add [of "p_rpos p" "Suc k"] by (simp add: add.assoc)
  then show ?thesis using unat_diff_Suc [OF n] n
    by (simp add: ring_queue_def map_tl [symmetric] map_Suc_upt [symmetric] comp_def del: upt_Suc)
qed

lemma ring_inv_store: "ring_inv p \<Longrightarrow> ring_inv (p\<lparr>p_buf := (p_buf p)[c := b]\<rparr>)"
  by (simp add: ring_inv_def)

lemma ring_inv_advance_w: "ring_inv p \<Longrightarrow> \<not> pipe_full p \<Longrightarrow> ring_inv (p\<lparr>p_wpos := p_wpos p + 1\<rparr>)"
  using unat_Suc_diff [of "p_wpos p" "p_rpos p"] ring_count [of p] by (simp add: ring_inv_def)

lemma ring_inv_advance_r: "ring_inv p \<Longrightarrow> \<not> pipe_empty p \<Longrightarrow> ring_inv (p\<lparr>p_rpos := p_rpos p + 1\<rparr>)"
  using unat_diff_Suc [of "p_wpos p" "p_rpos p"]
  by (cases "unat (p_wpos p - p_rpos p)") (auto simp: ring_inv_def pipe_empty_iff ring_queue_def)

section \<open>A reader and a writer\<close>

text \<open>
  One environment reads and one writes, each issuing any number of calls; \<open>received\<close> and \<open>sent\<close> are what
  the finished calls have delivered to and accepted from their callers.
\<close>

record pipe_sys =
  pipe_page :: Pipe
  rd :: reader
  wr :: writer
  received :: "u8 list"
  sent :: "u8 list"

inductive pipe_step :: "pipe_sys \<Rightarrow> pipe_sys \<Rightarrow> bool" where
  read_step: "pipe_read_step closed (pipe_page s, rd s) = (p, r) \<Longrightarrow> pipe_step s (s\<lparr>pipe_page := p, rd := r\<rparr>)"
| write_step: "pipe_write_step closed (pipe_page s, wr s) = (p, w) \<Longrightarrow> pipe_step s (s\<lparr>pipe_page := p, wr := w\<rparr>)"
| read_call: "r_pc (rd s) = RRet v \<Longrightarrow>
    pipe_step s (s\<lparr>received := received s @ rbuf (rd s), rd := pipe_read_start n\<rparr>)"
| write_call: "w_pc (wr s) = WRet v \<Longrightarrow>
    pipe_step s (s\<lparr>sent := sent s @ take v (wbuf (wr s)), wr := pipe_write_start bs\<rparr>)"

definition pipe_init :: pipe_sys where
  "pipe_init = \<lparr>pipe_page = \<lparr>p_rpos = 0, p_wpos = 0, p_buf = replicate BY2PIPE 0\<rparr>,
     rd = \<lparr>r_pc = RRet 0, r_i = 0, r_n = 0, rbuf = []\<rparr>, wr = \<lparr>w_pc = WRet 0, w_i = 0, wbuf = []\<rparr>,
     received = [], sent = []\<rparr>"

text \<open>The bytes handed to readers and taken from writers so far, calls in progress included.\<close>

definition bytes_out :: "pipe_sys \<Rightarrow> u8 list" where
  "bytes_out s = received s @ rbuf (rd s)"

definition bytes_in :: "pipe_sys \<Rightarrow> u8 list" where
  "bytes_in s = sent s @ take (w_i (wr s)) (wbuf (wr s))"

text \<open>The bytes whose position has been advanced, on either side.\<close>

definition consumed :: "pipe_sys \<Rightarrow> u8 list" where
  "consumed s = received s @ (if r_pc (rd s) = RAdvance then butlast (rbuf (rd s)) else rbuf (rd s))"

definition produced :: "pipe_sys \<Rightarrow> u8 list" where
  "produced s = sent s @ take (if w_pc (wr s) = WAdvance then w_i (wr s) - 1 else w_i (wr s)) (wbuf (wr s))"

definition reader_ok :: "Pipe \<Rightarrow> reader \<Rightarrow> bool" where
  "reader_ok p r \<longleftrightarrow> length (rbuf r) = r_i r \<and> r_i r \<le> r_n r \<and>
     (case r_pc r of RTest \<Rightarrow> True | RLoad \<Rightarrow> ring_queue p \<noteq> [] \<and> r_i r < r_n r
      | RAdvance \<Rightarrow> ring_queue p \<noteq> [] \<and> rbuf r \<noteq> [] \<and> last (rbuf r) = hd (ring_queue p)
      | RRet v \<Rightarrow> v = r_i r)"

definition writer_ok :: "Pipe \<Rightarrow> writer \<Rightarrow> bool" where
  "writer_ok p w \<longleftrightarrow> w_i w \<le> length (wbuf w) \<and>
     (case w_pc w of WTest \<Rightarrow> True | WStore \<Rightarrow> \<not> pipe_full p \<and> w_i w < length (wbuf w)
      | WAdvance \<Rightarrow> \<not> pipe_full p \<and> 0 < w_i w \<and> p_buf p ! cell (p_wpos p) = wbuf w ! (w_i w - 1)
      | WRet v \<Rightarrow> v = w_i w)"

definition sys_inv :: "pipe_sys \<Rightarrow> bool" where
  "sys_inv s \<longleftrightarrow> ring_inv (pipe_page s) \<and> reader_ok (pipe_page s) (rd s) \<and> writer_ok (pipe_page s) (wr s) \<and>
     consumed s @ ring_queue (pipe_page s) = produced s"

lemma sys_inv_init: "sys_inv pipe_init"
  by (simp add: sys_inv_def pipe_init_def ring_inv_def reader_ok_def writer_ok_def consumed_def produced_def
      ring_queue_def)

lemma join_last_hd: "xs \<noteq> [] \<Longrightarrow> ys \<noteq> [] \<Longrightarrow> last xs = hd ys \<Longrightarrow> xs @ tl ys = butlast xs @ ys"
  by (metis append.assoc append_Cons append_Nil append_butlast_last_id list.exhaust_sel)

lemma sys_inv_read_step:
  assumes "sys_inv s" and "pipe_read_step closed (pipe_page s, rd s) = (p, r)"
  shows "sys_inv (s\<lparr>pipe_page := p, rd := r\<rparr>)"
proof -
  let ?p = "pipe_page s" and ?r = "rd s"
  have inv: "ring_inv ?p" "reader_ok ?p ?r" "writer_ok ?p (wr s)" "consumed s @ ring_queue ?p = produced s"
    using assms(1) by (auto simp: sys_inv_def)
  have prod: "produced (s\<lparr>pipe_page := p, rd := r\<rparr>) = produced s" by (simp add: produced_def)
  show ?thesis
  proof (cases "r_pc ?r")
    case RTest
    then show ?thesis using assms inv prod
      by (auto simp: sys_inv_def reader_ok_def consumed_def pipe_empty_iff split: if_splits)
  next
    case RLoad
    then have "p = ?p" "r_pc r = RAdvance" "r_i r = Suc (r_i ?r)" "r_n r = r_n ?r"
      "rbuf r = rbuf ?r @ [hd (ring_queue ?p)]" "ring_queue ?p \<noteq> []" "r_i ?r < r_n ?r"
      using assms inv ring_peek [of ?p] by (auto simp: reader_ok_def)
    then show ?thesis using RLoad inv prod
      by (auto simp: sys_inv_def reader_ok_def consumed_def)
  next
    case RAdvance
    then have p: "p = ?p\<lparr>p_rpos := p_rpos ?p + 1\<rparr>" and r: "r = ?r\<lparr>r_pc := RTest\<rparr>"
      and q: "ring_queue ?p \<noteq> []" "rbuf ?r \<noteq> []" "last (rbuf ?r) = hd (ring_queue ?p)"
      using assms inv by (auto simp: reader_ok_def)
    have rq: "ring_queue p = tl (ring_queue ?p)" using ring_advance_r [OF q(1)] p by simp
    have "writer_ok p (wr s)" using inv(3) inv(1) rq unfolding writer_ok_def
      by (auto simp: p pipe_full_iff ring_inv_def ring_queue_length split: wpc.splits)
    moreover have "ring_inv p" using ring_inv_advance_r [OF inv(1)] q p by (simp add: pipe_empty_iff)
    moreover have "consumed (s\<lparr>pipe_page := p, rd := r\<rparr>) @ ring_queue p = consumed s @ ring_queue ?p"
      using RAdvance rq join_last_hd [OF q(2,1,3)] by (simp add: consumed_def r)
    ultimately show ?thesis using inv r RAdvance prod by (simp add: sys_inv_def reader_ok_def)
  next
    case (RRet v)
    then have "s\<lparr>pipe_page := p, rd := r\<rparr> = s" using assms(2) by (cases s) auto
    then show ?thesis using assms(1) by simp
  qed
qed

lemma sys_inv_write_step:
  assumes "sys_inv s" and "pipe_write_step closed (pipe_page s, wr s) = (p, w)"
  shows "sys_inv (s\<lparr>pipe_page := p, wr := w\<rparr>)"
proof -
  let ?p = "pipe_page s" and ?w = "wr s"
  have inv: "ring_inv ?p" "reader_ok ?p (rd s)" "writer_ok ?p ?w" "consumed s @ ring_queue ?p = produced s"
    using assms(1) by (auto simp: sys_inv_def)
  have cons: "consumed (s\<lparr>pipe_page := p, wr := w\<rparr>) = consumed s" by (simp add: consumed_def)
  show ?thesis
  proof (cases "w_pc ?w")
    case WTest
    then show ?thesis using assms inv cons
      by (auto simp: sys_inv_def writer_ok_def produced_def split: if_splits)
  next
    case WStore
    then have p: "p = ?p\<lparr>p_buf := (p_buf ?p)[cell (p_wpos ?p) := wbuf ?w ! w_i ?w]\<rparr>"
      and w: "w = ?w\<lparr>w_pc := WAdvance, w_i := w_i ?w + 1\<rparr>"
      and q: "\<not> pipe_full ?p" "w_i ?w < length (wbuf ?w)"
      using assms inv by (auto simp: writer_ok_def)
    have rq: "ring_queue p = ring_queue ?p" using ring_store [OF inv(1) q(1)] p by simp
    have "writer_ok p w" using q inv(1) rq
      by (simp add: writer_ok_def w pipe_full_iff) (simp add: p cell_unat ring_inv_def)
    moreover have "reader_ok p (rd s)" using inv(2) unfolding reader_ok_def rq .
    moreover have "ring_inv p" using ring_inv_store [OF inv(1)] p by simp
    ultimately show ?thesis using inv w WStore cons rq by (simp add: sys_inv_def produced_def)
  next
    case WAdvance
    then have p: "p = ?p\<lparr>p_wpos := p_wpos ?p + 1\<rparr>" and w: "w = ?w\<lparr>w_pc := WTest\<rparr>"
      and q: "\<not> pipe_full ?p" "0 < w_i ?w" "w_i ?w \<le> length (wbuf ?w)"
        "p_buf ?p ! cell (p_wpos ?p) = wbuf ?w ! (w_i ?w - 1)"
      using assms inv by (auto simp: writer_ok_def)
    have rq: "ring_queue p = ring_queue ?p @ [wbuf ?w ! (w_i ?w - 1)]"
      using ring_advance_w [OF inv(1) q(1)] p q(4) by simp
    have "reader_ok p (rd s)" using inv(2) unfolding reader_ok_def rq by (auto split: rpc.splits)
    moreover have "ring_inv p" using ring_inv_advance_w [OF inv(1) q(1)] p by simp
    moreover have "produced (s\<lparr>pipe_page := p, wr := w\<rparr>) = produced s @ [wbuf ?w ! (w_i ?w - 1)]"
      using WAdvance q take_Suc_conv_app_nth [of "w_i ?w - 1" "wbuf ?w"] by (simp add: produced_def w)
    ultimately show ?thesis using inv w WAdvance cons rq q
      by (simp add: sys_inv_def writer_ok_def flip: append_assoc)
  next
    case (WRet v)
    then have "s\<lparr>pipe_page := p, wr := w\<rparr> = s" using assms(2) by (cases s) auto
    then show ?thesis using assms(1) by simp
  qed
qed

lemma sys_inv_step: "pipe_step s t \<Longrightarrow> sys_inv s \<Longrightarrow> sys_inv t"
proof (induction rule: pipe_step.induct)
  case (read_call s v n)
  then show ?case by (simp add: sys_inv_def reader_ok_def pipe_read_start_def consumed_def produced_def)
next
  case (write_call s v bs)
  then show ?case by (auto simp: sys_inv_def writer_ok_def pipe_write_start_def consumed_def produced_def)
qed (auto intro: sys_inv_read_step sys_inv_write_step)

lemma sys_inv_reachable: "pipe_step\<^sup>*\<^sup>* pipe_init s \<Longrightarrow> sys_inv s"
  by (induction rule: rtranclp_induct) (auto intro: sys_inv_step sys_inv_init)

section \<open>What the invariant gives\<close>

lemma sys_inv_fifo:
  assumes "sys_inv s"
  shows "prefix (bytes_out s) (bytes_in s)" and "length (bytes_in s) \<le> length (bytes_out s) + BY2PIPE"
proof -
  let ?q = "ring_queue (pipe_page s)"
  have "\<exists>x. bytes_out s @ x = consumed s @ ?q \<and> length x \<le> length ?q"
  proof (cases "r_pc (rd s) = RAdvance")
    case True
    then have "rbuf (rd s) \<noteq> []" "?q \<noteq> []" "last (rbuf (rd s)) = hd ?q"
      using assms by (auto simp: sys_inv_def reader_ok_def)
    then show ?thesis using True join_last_hd [of "rbuf (rd s)" ?q]
      by (intro exI [of _ "tl ?q"]) (simp add: bytes_out_def consumed_def)
  qed (auto simp: bytes_out_def consumed_def)
  moreover have "\<exists>y. bytes_in s = produced s @ y \<and> length ?q + length y \<le> BY2PIPE"
  proof (cases "w_pc (wr s) = WAdvance")
    case True
    then have "0 < w_i (wr s)" "w_i (wr s) \<le> length (wbuf (wr s))" "length ?q < BY2PIPE"
      using assms ring_count [of "pipe_page s"] by (auto simp: sys_inv_def writer_ok_def ring_queue_length)
    then show ?thesis using True take_Suc_conv_app_nth [of "w_i (wr s) - 1" "wbuf (wr s)"]
      by (auto simp: bytes_in_def produced_def)
  qed (use assms in \<open>auto simp: bytes_in_def produced_def sys_inv_def ring_inv_def ring_queue_length\<close>)
  moreover have "consumed s @ ?q = produced s" using assms by (simp add: sys_inv_def)
  ultimately obtain x y where "bytes_out s @ x = consumed s @ ?q" "bytes_in s = (consumed s @ ?q) @ y"
    "length x \<le> length ?q" "length ?q + length y \<le> BY2PIPE" by auto
  then have "bytes_in s = bytes_out s @ x @ y" "length x + length y \<le> BY2PIPE"
    by (simp_all only: append.assoc [symmetric])
  then show "prefix (bytes_out s) (bytes_in s)" "length (bytes_in s) \<le> length (bytes_out s) + BY2PIPE"
    by auto
qed

text \<open>A pipe is never both full and empty: of two blocked loops one can go on.\<close>

lemma not_both_blocked:
  assumes "r_pc r = RTest" "r_i r < r_n r" "w_pc w = WTest" "w_i w < length (wbuf w)"
  shows "\<not> (pipe_read_step c (p, r) = (p, r) \<and> pipe_write_step c' (p, w) = (p, w))"
proof (cases "pipe_empty p")
  case True
  then have "\<not> pipe_full p" by (simp add: pipe_empty_iff pipe_full_iff)
  then have "w_pc (snd (pipe_write_step c' (p, w))) \<noteq> WTest" using assms by simp
  then show ?thesis using assms by auto
next
  case False
  then have "r_pc (snd (pipe_read_step c (p, r))) \<noteq> RTest" using assms by simp
  then show ?thesis using assms by auto
qed

section \<open>_pipe_is_closed\<close>

text \<open>
  \<open>env_runs\<close> and the reference counts of the descriptor page and of the pipe page, as functions of the instant
  they are read at; \<open>at k\<close> is the instant of the \<open>k\<close>-th read of the loop.
\<close>

partial_function (option) pipe_is_closed_loop ::
  "(nat \<Rightarrow> u32) \<Rightarrow> (nat \<Rightarrow> u32) \<Rightarrow> (nat \<Rightarrow> u32) \<Rightarrow> (nat \<Rightarrow> nat) \<Rightarrow> nat \<Rightarrow> bool option"
where
  "pipe_is_closed_loop env_runs fd_page pipe_pg at k =
     (let runs = env_runs (at k); fd_ref = fd_page (at (k + 1)); pipe_ref = pipe_pg (at (k + 2))
      in if runs \<noteq> env_runs (at (k + 3)) then pipe_is_closed_loop env_runs fd_page pipe_pg at (k + 4)
         else Some (fd_ref = pipe_ref))"

lemma pipe_is_closed_loop_returns:
  assumes "env_runs (at (k + 4 * j)) = env_runs (at (k + 4 * j + 3))"
  shows "\<exists>b. pipe_is_closed_loop env_runs fd_page pipe_pg at k = Some b"
  using assms
proof (induction j arbitrary: k)
  case 0
  then show ?case by (subst pipe_is_closed_loop.simps) simp
next
  case (Suc j)
  have "\<exists>b. pipe_is_closed_loop env_runs fd_page pipe_pg at (k + 4) = Some b"
    using Suc.prems by (intro Suc.IH) (simp add: algebra_simps)
  then show ?case by (subst pipe_is_closed_loop.simps) (simp add: Let_def)
qed

lemma pipe_is_closed_loop_result:
  "pipe_is_closed_loop env_runs fd_page pipe_pg at k = Some b \<Longrightarrow>
   \<exists>i\<ge>k. env_runs (at i) = env_runs (at (i + 3)) \<and> b = (fd_page (at (i + 1)) = pipe_pg (at (i + 2)))"
proof (induction rule: pipe_is_closed_loop.raw_induct [rotated, consumes 1, case_names step])
  case (step loop env_runs fd_page pipe_pg at k b)
  show ?case
  proof (cases "env_runs (at k) = env_runs (at (k + 3))")
    case False
    then have "loop env_runs fd_page pipe_pg at (k + 4) = Some b" using step(2) by (simp add: Let_def)
    from step(1) [OF this] show ?thesis by (meson le_add1 order_trans)
  qed (use step(2) in \<open>auto simp: Let_def\<close>)
qed

lemma pipe_is_closed_loop_consistent:
  assumes "mono at"
    and stable: "\<And>a b t. a \<le> t \<Longrightarrow> t \<le> b \<Longrightarrow> env_runs a = env_runs b \<Longrightarrow>
           fd_page t = fd_page a \<and> pipe_pg t = pipe_pg a"
    and "pipe_is_closed_loop env_runs fd_page pipe_pg at k = Some b"
  shows "\<exists>t\<ge>at k. b = (fd_page t = pipe_pg t)"
proof -
  obtain i where i: "k \<le> i" "env_runs (at i) = env_runs (at (i + 3))"
    "b = (fd_page (at (i + 1)) = pipe_pg (at (i + 2)))"
    using pipe_is_closed_loop_result [OF assms(3)] by auto
  have m: "at i \<le> at (i + 1)" "at (i + 1) \<le> at (i + 3)" "at i \<le> at (i + 2)" "at (i + 2) \<le> at (i + 3)" "at k \<le> at i"
    using assms(1) i(1) by (auto intro: monoD)
  have "fd_page (at (i + 1)) = fd_page (at i)" "pipe_pg (at (i + 2)) = pipe_pg (at i)"
    using stable [of "at i" "at (i + 1)" "at (i + 3)"] stable [of "at i" "at (i + 2)" "at (i + 3)"] m i(2) by auto
  then show ?thesis using i(3) m(5) by auto
qed

section \<open>Properties\<close>

text \<open>
  C27 (pipe_fifo). In every interleaving of a reader and a writer, with any calls on either side and the positions wrapping
  around any number of times, the bytes readers have received are a prefix of the bytes writers have handed
  over, and at most \<open>BY2PIPE\<close> bytes are under way: none is lost, duplicated, reordered or overwritten.
\<close>

theorem pipe_fifo:
  assumes "pipe_step\<^sup>*\<^sup>* pipe_init s"
  shows "prefix (bytes_out s) (bytes_in s) \<and> length (bytes_in s) \<le> length (bytes_out s) + BY2PIPE"
  using sys_inv_fifo [OF sys_inv_reachable [OF assms]] by simp

text \<open>A run: the writer is called with one byte and stores it, the reader is called and fetches it.\<close>

definition w_move :: "pipe_sys \<Rightarrow> pipe_sys" where
  "w_move s = (case pipe_write_step False (pipe_page s, wr s) of (p, w) \<Rightarrow> s\<lparr>pipe_page := p, wr := w\<rparr>)"

definition r_move :: "pipe_sys \<Rightarrow> pipe_sys" where
  "r_move s = (case pipe_read_step False (pipe_page s, rd s) of (p, r) \<Rightarrow> s\<lparr>pipe_page := p, rd := r\<rparr>)"

definition sample_sent :: pipe_sys where
  "sample_sent = w_move (w_move (w_move (pipe_init\<lparr>sent := [], wr := pipe_write_start [7]\<rparr>)))"

definition sample_end :: pipe_sys where
  "sample_end = r_move (r_move (sample_sent\<lparr>received := [], rd := pipe_read_start 1\<rparr>))"

lemma w_move_step: "pipe_step s (w_move s)"
  by (auto simp: w_move_def split: prod.split intro: write_step)

lemma r_move_step: "pipe_step s (r_move s)"
  by (auto simp: r_move_def split: prod.split intro: read_step)

lemma sample_sent_reach: "pipe_step\<^sup>*\<^sup>* pipe_init sample_sent"
proof -
  have "pipe_step pipe_init (pipe_init\<lparr>sent := [], wr := pipe_write_start [7]\<rparr>)"
    using write_call [of pipe_init 0 "[7]"] by (simp add: pipe_init_def)
  then show ?thesis unfolding sample_sent_def
    by (meson w_move_step rtranclp.rtrancl_into_rtrancl rtranclp.rtrancl_refl)
qed

lemma sample_sent_fields: "received sample_sent = []" "rd sample_sent = rd pipe_init"
  by code_simp+

lemma sample_end_reach: "pipe_step\<^sup>*\<^sup>* pipe_init sample_end"
proof -
  have "pipe_step sample_sent (sample_sent\<lparr>received := [], rd := pipe_read_start 1\<rparr>)"
    using read_call [of sample_sent 0 1] by (simp add: sample_sent_fields) (simp add: pipe_init_def)
  then show ?thesis unfolding sample_end_def using sample_sent_reach
    by (meson r_move_step rtranclp.rtrancl_into_rtrancl)
qed

lemma sample_end_bytes: "bytes_out sample_end = [7]"
  by code_simp

theorem pipe_fifo_witness: "prefix (bytes_out sample_end) (bytes_in sample_end) \<and> bytes_out sample_end = [7]"
  using pipe_fifo [OF sample_end_reach] sample_end_bytes by simp

text \<open>
  Whatever the positions are, a reader and a writer that both have bytes left are never both waiting:
  one of the two can take a step that changes its state, whether or not either sees the other end closed.
\<close>

theorem pipe_no_deadlock:
  assumes "r_pc r = RTest" "r_i r < r_n r" "w_pc w = WTest" "w_i w < length (wbuf w)"
  shows "\<not> (pipe_read_step c (p, r) = (p, r) \<and> pipe_write_step c' (p, w) = (p, w))"
  using not_both_blocked [OF assms] .

theorem pipe_no_deadlock_witness:
  "\<not> (pipe_read_step False (pipe_page pipe_init, pipe_read_start 3) = (pipe_page pipe_init, pipe_read_start 3) \<and>
      pipe_write_step False (pipe_page pipe_init, pipe_write_start [1, 2]) = (pipe_page pipe_init, pipe_write_start [1, 2]))"
  using pipe_no_deadlock [of "pipe_read_start 3" "pipe_write_start [1, 2]" False "pipe_page pipe_init" False]
  by (simp add: pipe_read_start_def pipe_write_start_def)

text \<open>
  The two reference counts \<open>_pipe_is_closed\<close> compares belong to one instant although they are
  read at different times: while \<open>env_runs\<close> is the same the environment has not been switched out and the
  counts have not changed. So when every mapping of the pipe page beyond those of this end is one of
  the other end (\<open>other\<close>), the answer "closed" means that the other end had no mapping left; and
  the loop returns as soon as one round is not preempted.
\<close>

theorem pipe_closed_consistent:
  assumes "mono at"
    and "\<And>a b t. a \<le> t \<Longrightarrow> t \<le> b \<Longrightarrow> env_runs a = env_runs b \<Longrightarrow> fd_page t = fd_page a \<and> pipe_pg t = pipe_pg a"
    and "\<And>t. unat (fd_page t) + other t \<le> unat (pipe_pg t)"
    and "env_runs (at (k + 4 * j)) = env_runs (at (k + 4 * j + 3))"
  shows "\<exists>b t. pipe_is_closed_loop env_runs fd_page pipe_pg at k = Some b \<and> at k \<le> t \<and>
           b = (fd_page t = pipe_pg t) \<and> (b \<longrightarrow> other t = 0)"
proof -
  obtain b where b: "pipe_is_closed_loop env_runs fd_page pipe_pg at k = Some b"
    using pipe_is_closed_loop_returns [where at = at and k = k and j = j, OF assms(4)] by blast
  have "\<exists>t\<ge>at k. b = (fd_page t = pipe_pg t)"
    by (rule pipe_is_closed_loop_consistent [where at = at and k = k, OF assms(1) _ b]) (rule assms(2))
  then obtain t where "at k \<le> t" "b = (fd_page t = pipe_pg t)" by blast
  then show ?thesis using b assms(3) [of t] by auto
qed

theorem pipe_closed_consistent_witness:
  "\<exists>t. pipe_is_closed_loop (\<lambda>t. if t < 2 then 0 else 1) (\<lambda>t. 1) (\<lambda>t. if t < 2 then 2 else 1) (\<lambda>k. k) 0 =
         Some (1 = (if (t :: nat) < 2 then 2 else 1 :: u32))"
proof -
  have "\<exists>b t. pipe_is_closed_loop (\<lambda>t. if t < 2 then 0 else 1) (\<lambda>t. 1) (\<lambda>t. if t < 2 then 2 else 1) (\<lambda>k. k) 0 = Some b \<and>
     (0 :: nat) \<le> t \<and> b = ((1 :: u32) = (if t < 2 then 2 else 1)) \<and> (b \<longrightarrow> (if t < 2 then 1 else 0 :: nat) = 0)"
    by (rule pipe_closed_consistent [where at = "\<lambda>k. k" and k = 0 and j = 1 and env_runs = "\<lambda>t. if t < 2 then 0 else 1"
        and fd_page = "\<lambda>t. 1" and pipe_pg = "\<lambda>t. if t < 2 then 2 else 1" and other = "\<lambda>t. if t < 2 then 1 else 0"])
       (auto simp: mono_def split: if_splits)
  then show ?thesis by blast
qed

end
