(* ===== verification/FsBlock.thy ===== *)
theory FsBlock
  imports Ecall
begin

text \<open>
  \<^verbatim>\<open>fs/fs.c\<close>, the block layer of the file system server: the block cache at \<open>DISKMAP\<close>, the free block bitmap
  and the superblock. The server is a user environment; its state is what its own loads and stores see: the
  bytes of its mapped pages, for every virtual page number whether it is mapped and whether it carries
  \<open>PTE_DIRTY\<close>, and the disk behind the kernel's disk calls. \<open>kalloc\<close> holds the kernel's answers to the coming requests for a
  page (\<open>False\<close>: out of memory; a missing answer is a success). An access to a page that is not mapped is
  \<open>None\<close>, as are \<open>user_panic\<close> and a failed \<open>user_assert\<close>: a load there is undefined in the kernel's fault handler, and
  a store, for which that handler would bring in a zero page, does not occur where the results are not \<open>None\<close>.
\<close>

section \<open>The memory of the server\<close>

record fs_st =
  vm :: mem
  pte_v :: "u32 \<Rightarrow> bool"
  pte_dirty :: "u32 \<Rightarrow> bool"
  disk :: "nat \<Rightarrow> u8"
  super :: u32
  bitmap :: u32
  kalloc :: "bool list"

abbreviation BY2BLK :: u32 where "BY2BLK \<equiv> 0x1000"
abbreviation BIT2BLK :: u32 where "BIT2BLK \<equiv> 0x8000"
abbreviation BY2SECT :: nat where "BY2SECT \<equiv> 512"
abbreviation SECT2BLK :: u32 where "SECT2BLK \<equiv> 8"
abbreviation DISKMAP :: u32 where "DISKMAP \<equiv> 0x10000000"
abbreviation DISKMAX :: u32 where "DISKMAX \<equiv> 0x40000000"
abbreviation FS_MAGIC :: u32 where "FS_MAGIC \<equiv> 0x68286097"

definition ldb :: "u32 \<Rightarrow> 'z fs_st_scheme \<Rightarrow> u8 option" where
  "ldb a s = (if pte_v s (VPN a) then Some (vm s a) else None)"

definition stb :: "u32 \<Rightarrow> u8 \<Rightarrow> 'z fs_st_scheme \<Rightarrow> 'z fs_st_scheme option" where
  "stb a b s = (if pte_v s (VPN a) then Some (s\<lparr>vm := (vm s)(a := b)\<rparr>) else None)"

text \<open>Words are aligned, so they lie in one page.\<close>

definition ldw :: "u32 \<Rightarrow> 'z fs_st_scheme \<Rightarrow> u32 option" where
  "ldw a s = (if pte_v s (VPN a) then Some (load32 (vm s) a) else None)"

definition stw :: "u32 \<Rightarrow> u32 \<Rightarrow> 'z fs_st_scheme \<Rightarrow> 'z fs_st_scheme option" where
  "stw a v s = (if pte_v s (VPN a) then Some (s\<lparr>vm := store32 (vm s) a v\<rparr>) else None)"

section \<open>System calls\<close>

text \<open>\<open>ecall_mem_alloc(0, va, perm)\<close>: a zeroed page takes the place of what \<open>va\<close> had.\<close>

definition ecall_mem_alloc :: "u32 \<Rightarrow> 'z fs_st_scheme \<Rightarrow> (err + unit) \<times> 'z fs_st_scheme" where
  "ecall_mem_alloc va s =
     (if is_illegal_va va then (Inl E_INVAL, s)
      else if kalloc s \<noteq> [] \<and> \<not> hd (kalloc s) then (Inl E_NO_MEM, s\<lparr>kalloc := tl (kalloc s)\<rparr>)
      else (Inr (), s\<lparr>kalloc := tl (kalloc s), vm := mem_fill (vm s) (ROUNDDOWN va BY2PG) BY2PG 0,
              pte_v := (pte_v s)(VPN va := True), pte_dirty := (pte_dirty s)(VPN va := False)\<rparr>))"

definition ecall_mem_unmap :: "u32 \<Rightarrow> 'z fs_st_scheme \<Rightarrow> (err + unit) \<times> 'z fs_st_scheme" where
  "ecall_mem_unmap va s =
     (if is_illegal_va va then (Inl E_INVAL, s) else (Inr (), s\<lparr>pte_v := (pte_v s)(VPN va := False)\<rparr>))"

text \<open>\<open>ecall_mem_map(0, va, 0, va, perm)\<close> with \<open>PTE_DIRTY\<close> in \<open>perm\<close>: the same page with new flags.\<close>

definition ecall_mem_remap_dirty :: "u32 \<Rightarrow> 'z fs_st_scheme \<Rightarrow> (err + unit) \<times> 'z fs_st_scheme" where
  "ecall_mem_remap_dirty va s =
     (if is_illegal_va va \<or> \<not> pte_v s (VPN va) then (Inl E_INVAL, s)
      else (Inr (), s\<lparr>pte_dirty := (pte_dirty s)(VPN va := True)\<rparr>))"

text \<open>The \<open>n\<close> sectors of a transfer touch mapped pages.\<close>

definition buf_mapped :: "u32 \<Rightarrow> nat \<Rightarrow> 'z fs_st_scheme \<Rightarrow> bool" where
  "buf_mapped va n s \<longleftrightarrow>
     list_all (\<lambda>k. pte_v s (VPN (va + of_nat (BY2SECT * k))) \<and> pte_v s (VPN (va + of_nat (BY2SECT * k + 511)))) [0..<n]"

definition sector_off :: "u32 \<Rightarrow> u32 \<Rightarrow> nat" where
  "sector_off lowsec highsec = BY2SECT * unat (disk_sector lowsec highsec)"

definition ecall_read_disk :: "u32 \<Rightarrow> u32 \<Rightarrow> u32 \<Rightarrow> u32 \<Rightarrow> 'z fs_st_scheme \<Rightarrow> 'z fs_st_scheme option" where
  "ecall_read_disk lowsec highsec va nsec s =
     (if buf_mapped va (unat nsec) s
      then Some (s\<lparr>vm := (\<lambda>a. if in_range va (512 * nsec) a
                              then disk s (sector_off lowsec highsec + unat (a - va)) else vm s a)\<rparr>)
      else None)"

definition ecall_write_disk :: "u32 \<Rightarrow> u32 \<Rightarrow> u32 \<Rightarrow> u32 \<Rightarrow> 'z fs_st_scheme \<Rightarrow> 'z fs_st_scheme option" where
  "ecall_write_disk lowsec highsec va nsec s =
     (if buf_mapped va (unat nsec) s
      then Some (s\<lparr>disk := (\<lambda>x. let o0 = sector_off lowsec highsec in
             if o0 \<le> x \<and> x < o0 + BY2SECT * unat nsec then vm s (va + of_nat (x - o0)) else disk s x)\<rparr>)
      else None)"

section \<open>The block cache\<close>

definition diskaddr :: "u32 \<Rightarrow> u32 option" where
  "diskaddr blockno =
     (let t = DISKMAP + BY2BLK * blockno in if t > DISKMAX + DISKMAP then None else Some t)"

definition va_is_mapped :: "u32 \<Rightarrow> 'z fs_st_scheme \<Rightarrow> bool" where
  "va_is_mapped va s = pte_v s (VPN va)"

text \<open>The null pointer is 0.\<close>

definition block_is_mapped :: "u32 \<Rightarrow> 'z fs_st_scheme \<Rightarrow> u32 option" where
  "block_is_mapped blockno s =
     do { va \<leftarrow> diskaddr blockno; Some (if va_is_mapped va s then va else 0) }"

definition va_is_dirty :: "u32 \<Rightarrow> 'z fs_st_scheme \<Rightarrow> bool" where
  "va_is_dirty va s = pte_dirty s (VPN va)"

definition s_nblocks :: "'z fs_st_scheme \<Rightarrow> u32 option" where
  "s_nblocks s = ldw (super s + 4) s"

text \<open>\<open>1 << (blockno % 32)\<close> and \<open>bitmap[blockno / 32]\<close>.\<close>

definition bit_mask :: "u32 \<Rightarrow> u32" where
  "bit_mask blockno = push_bit (unat (blockno mod 32)) 1"

definition bit_word :: "u32 \<Rightarrow> 'z fs_st_scheme \<Rightarrow> u32" where
  "bit_word blockno s = bitmap s + 4 * (blockno div 32)"

definition block_is_free :: "u32 \<Rightarrow> 'z fs_st_scheme \<Rightarrow> bool option" where
  "block_is_free blockno s =
     (if super s = 0 then Some False
      else do { n \<leftarrow> s_nblocks s;
                if blockno \<ge> n then Some False
                else do { w \<leftarrow> ldw (bit_word blockno s) s; Some (w AND bit_mask blockno \<noteq> 0) } })"

text \<open>The out-parameters \<open>*blk\<close> and \<open>*isnew\<close> are the result; the return value is always 0.\<close>

definition read_block :: "u32 \<Rightarrow> 'z fs_st_scheme \<Rightarrow> ((u32 \<times> bool) \<times> 'z fs_st_scheme) option" where
  "read_block blockno s =
     do { (if super s \<noteq> 0 then do { n \<leftarrow> s_nblocks s; c_assert (blockno < n) } else Some ());
          f \<leftarrow> (if bitmap s \<noteq> 0 then block_is_free blockno s else Some False);
          c_assert (\<not> f);
          va \<leftarrow> diskaddr blockno;
          m \<leftarrow> block_is_mapped blockno s;
          if m \<noteq> 0 then Some ((va, False), s)
          else do { s \<leftarrow> ecall_read_disk (blockno * SECT2BLK) 0 va SECT2BLK (snd (ecall_mem_alloc va s));
                    Some ((va, True), s) } }"

definition map_block :: "u32 \<Rightarrow> 'z fs_st_scheme \<Rightarrow> ((err + unit) \<times> 'z fs_st_scheme) option" where
  "map_block blockno s =
     do { m \<leftarrow> block_is_mapped blockno s;
          if m \<noteq> 0 then Some (Inr (), s)
          else do { va \<leftarrow> diskaddr blockno; Some (ecall_mem_alloc va s) } }"

definition block_is_dirty :: "u32 \<Rightarrow> 'z fs_st_scheme \<Rightarrow> bool option" where
  "block_is_dirty blockno s =
     do { va \<leftarrow> diskaddr blockno; Some (va_is_mapped va s \<and> va_is_dirty va s) }"

definition write_block :: "u32 \<Rightarrow> 'z fs_st_scheme \<Rightarrow> 'z fs_st_scheme option" where
  "write_block blockno s =
     do { m \<leftarrow> block_is_mapped blockno s;
          c_assert (m \<noteq> 0);
          va \<leftarrow> diskaddr blockno;
          ecall_write_disk (blockno * SECT2BLK) 0 va SECT2BLK s }"

definition unmap_block :: "u32 \<Rightarrow> 'z fs_st_scheme \<Rightarrow> 'z fs_st_scheme option" where
  "unmap_block blockno s =
     do { va \<leftarrow> block_is_mapped blockno s;
          f \<leftarrow> block_is_free blockno s;
          d \<leftarrow> (if \<not> f then block_is_dirty blockno s else Some False);
          s \<leftarrow> (if d then write_block blockno s else Some s);
          let s = snd (ecall_mem_unmap va s) in
          do { m \<leftarrow> block_is_mapped blockno s; c_assert (m = 0); Some s } }"

definition dirty_block :: "u32 \<Rightarrow> 'z fs_st_scheme \<Rightarrow> ((err + unit) \<times> 'z fs_st_scheme) option" where
  "dirty_block blockno s =
     do { va \<leftarrow> diskaddr blockno;
          if \<not> va_is_mapped va s then Some (Inl E_NOT_FOUND, s)
          else if va_is_dirty va s then Some (Inr (), s)
          else Some (ecall_mem_remap_dirty va s) }"

section \<open>The bitmap\<close>

definition free_block :: "u32 \<Rightarrow> 'z fs_st_scheme \<Rightarrow> 'z fs_st_scheme option" where
  "free_block blockno s =
     (if blockno = 0 then Some s
      else do { n \<leftarrow> s_nblocks s;
                if blockno \<ge> n then Some s
                else do { w \<leftarrow> ldw (bit_word blockno s) s;
                          stw (bit_word blockno s) (w OR bit_mask blockno) s } })"

text \<open>
  \<open>for (blockno = a; blockno < n; ++blockno)\<close> is the recursion over \<open>upto_w a n\<close>; the bounds of the loops are
  not changed by their bodies.
\<close>

definition upto_w :: "u32 \<Rightarrow> u32 \<Rightarrow> u32 list" where
  "upto_w a n = map of_nat [unat a..<unat n]"

fun alloc_block_scan :: "u32 list \<Rightarrow> 'z fs_st_scheme \<Rightarrow> ((err + u32) \<times> 'z fs_st_scheme) option" where
  "alloc_block_scan [] s = Some (Inl E_NO_DISK, s)"
| "alloc_block_scan (blockno # bs) s =
     do { f \<leftarrow> block_is_free blockno s;
          if f then
            do { w \<leftarrow> ldw (bit_word blockno s) s;
                 s \<leftarrow> stw (bit_word blockno s) (w AND NOT (bit_mask blockno)) s;
                 s \<leftarrow> write_block (blockno div BIT2BLK + 2) s;
                 Some (Inr blockno, s) }
          else alloc_block_scan bs s }"

definition alloc_block_num :: "'z fs_st_scheme \<Rightarrow> ((err + u32) \<times> 'z fs_st_scheme) option" where
  "alloc_block_num s = do { n \<leftarrow> s_nblocks s; alloc_block_scan (upto_w 3 n) s }"

definition alloc_block :: "'z fs_st_scheme \<Rightarrow> ((err + u32) \<times> 'z fs_st_scheme) option" where
  "alloc_block s =
     try_c (alloc_block_num s) (\<lambda>bno s.
       do { (r, s) \<leftarrow> map_block bno s;
            (case r of
               Inl e \<Rightarrow> do { s \<leftarrow> free_block bno s; Some (Inl e, s) }
             | Inr _ \<Rightarrow> Some (Inr bno, s)) })"

section \<open>Start of the file system\<close>

definition read_super :: "'z fs_st_scheme \<Rightarrow> 'z fs_st_scheme option" where
  "read_super s =
     do { ((blk, _), s) \<leftarrow> read_block 1 s;
          let s = s\<lparr>super := blk\<rparr> in
          do { magic \<leftarrow> ldw (super s) s;
               c_assert (magic = FS_MAGIC);
               n \<leftarrow> s_nblocks s;
               c_assert (\<not> n > DISKMAX div BY2BLK);
               Some s } }"

fun read_blocks :: "u32 list \<Rightarrow> 'z fs_st_scheme \<Rightarrow> 'z fs_st_scheme option" where
  "read_blocks [] s = Some s"
| "read_blocks (b # bs) s = do { (_, s) \<leftarrow> read_block b s; read_blocks bs s }"

fun assert_used :: "u32 list \<Rightarrow> 'z fs_st_scheme \<Rightarrow> unit option" where
  "assert_used [] s = Some ()"
| "assert_used (b # bs) s = do { f \<leftarrow> block_is_free b s; c_assert (\<not> f); assert_used bs s }"

definition read_bitmap :: "'z fs_st_scheme \<Rightarrow> 'z fs_st_scheme option" where
  "read_bitmap s =
     do { n \<leftarrow> s_nblocks s;
          let nbit_map = n div BIT2BLK + 1; bs = map (\<lambda>i. i + 2) (upto_w 0 nbit_map) in
          do { s \<leftarrow> read_blocks bs s;
               va \<leftarrow> diskaddr 2;
               let s = s\<lparr>bitmap := va\<rparr> in
               do { assert_used [0, 1] s; assert_used bs s; Some s } } }"

text \<open>\<open>memcpy\<close> between two pages of the cache, and \<open>strcpy\<close> of a literal.\<close>

definition copy_page :: "u32 \<Rightarrow> u32 \<Rightarrow> 'z fs_st_scheme \<Rightarrow> 'z fs_st_scheme option" where
  "copy_page dst src s =
     (if pte_v s (VPN dst) \<and> pte_v s (VPN src)
      then do { (_, m) \<leftarrow> memcpy (vm s) dst src BY2PG; Some (s\<lparr>vm := m\<rparr>) } else None)"

fun put_str :: "u32 \<Rightarrow> u8 list \<Rightarrow> 'z fs_st_scheme \<Rightarrow> 'z fs_st_scheme option" where
  "put_str a [] s = stb a 0 s"
| "put_str a (b # bs) s = do { s \<leftarrow> stb a b s; put_str (a + 1) bs s }"

text \<open>\<open>strcmp(name, p) == 0\<close> for a string \<open>name\<close> without NUL: stops at the first difference.\<close>

fun str_eq :: "u8 list \<Rightarrow> u32 \<Rightarrow> 'z fs_st_scheme \<Rightarrow> bool option" where
  "str_eq [] a s = do { c \<leftarrow> ldb a s; Some (c = 0) }"
| "str_eq (x # xs) a s = do { c \<leftarrow> ldb a s; if c = x then str_eq xs (a + 1) s else Some False }"

definition oops_msg :: "u8 list" where
  "oops_msg = [79, 79, 80, 83, 33, 10]"

definition check_write_block :: "'z fs_st_scheme \<Rightarrow> 'z fs_st_scheme option" where
  "check_write_block s =
     (let s = s\<lparr>super := 0\<rparr> in
      do { (_, s) \<leftarrow> read_block 0 s;
           va0 \<leftarrow> diskaddr 0; va1 \<leftarrow> diskaddr 1;
           s \<leftarrow> copy_page va0 va1 s;
           s \<leftarrow> put_str va1 oops_msg s;
           s \<leftarrow> write_block 1 s;
           m \<leftarrow> block_is_mapped 1 s;
           c_assert (m \<noteq> 0);
           let s = snd (ecall_mem_unmap va1 s) in
           do { m \<leftarrow> block_is_mapped 1 s;
                c_assert (m = 0);
                (_, s) \<leftarrow> read_block 1 s;
                eq \<leftarrow> str_eq oops_msg va1 s;
                c_assert eq;
                s \<leftarrow> copy_page va1 va0 s;
                s \<leftarrow> write_block 1 s;
                Some (s\<lparr>super := va1\<rparr>) } })"

definition fs_init :: "'z fs_st_scheme \<Rightarrow> 'z fs_st_scheme option" where
  "fs_init s = do { s \<leftarrow> read_super s; s \<leftarrow> check_write_block s; read_bitmap s }"

end
