(* ===== verification/FsFile.thy ===== *)
theory FsFile
  imports FsBlock
begin

text \<open>
  \<^verbatim>\<open>fs/fs.c\<close>, the file layer of the server: \<open>struct File\<close> in the block cache, the block map of a file, directories,
  paths, truncation and write back. A \<open>struct File *\<close> is the address of the structure in the server's memory.
\<close>

section \<open>struct File\<close>

text \<open>The name is at offset 0.\<close>

abbreviation MAXNAMELEN :: nat where "MAXNAMELEN \<equiv> 128"
abbreviation NDIRECT :: u32 where "NDIRECT \<equiv> 10"
abbreviation NINDIRECT :: u32 where "NINDIRECT \<equiv> 1024"
abbreviation BY2FILE :: u32 where "BY2FILE \<equiv> 256"
abbreviation FILE2BLK :: nat where "FILE2BLK \<equiv> 16"
abbreviation FTYPE_REG :: u32 where "FTYPE_REG \<equiv> 0"
abbreviation FTYPE_DIR :: u32 where "FTYPE_DIR \<equiv> 1"

abbreviation f_size :: "u32 \<Rightarrow> u32" where "f_size f \<equiv> f + 128"
abbreviation f_type :: "u32 \<Rightarrow> u32" where "f_type f \<equiv> f + 132"
abbreviation f_direct :: "u32 \<Rightarrow> u32 \<Rightarrow> u32" where "f_direct f i \<equiv> f + 136 + 4 * i"
abbreviation f_indirect :: "u32 \<Rightarrow> u32" where "f_indirect f \<equiv> f + 176"
abbreviation f_dir :: "u32 \<Rightarrow> u32" where "f_dir f \<equiv> f + 180"
abbreviation s_root :: "u32 \<Rightarrow> u32" where "s_root sp \<equiv> sp + 8"

section \<open>The block map of a file\<close>

definition file_block_walk ::
  "u32 \<Rightarrow> u32 \<Rightarrow> bool \<Rightarrow> 'z fs_st_scheme \<Rightarrow> ((err + u32) \<times> 'z fs_st_scheme) option"
where
  "file_block_walk f filebno doalloc s =
     (if filebno < NDIRECT then Some (Inr (f_direct f filebno), s)
      else if filebno < NINDIRECT then
        do { ind \<leftarrow> ldw (f_indirect f) s;
             try_c (if ind = 0 then
                      (if \<not> doalloc then Some (Inl E_NOT_FOUND, s)
                       else try_c (alloc_block s) (\<lambda>r s. do { s \<leftarrow> stw (f_indirect f) r s; Some (Inr (), s) }))
                    else Some (Inr (), s)) (\<lambda>_ s.
               do { ind \<leftarrow> ldw (f_indirect f) s;
                    ((blk, _), s) \<leftarrow> read_block ind s;
                    Some (Inr (blk + 4 * filebno), s) }) }
      else Some (Inl E_INVAL, s))"

definition file_map_block ::
  "u32 \<Rightarrow> u32 \<Rightarrow> bool \<Rightarrow> 'z fs_st_scheme \<Rightarrow> ((err + u32) \<times> 'z fs_st_scheme) option"
where
  "file_map_block f filebno doalloc s =
     try_c (file_block_walk f filebno doalloc s) (\<lambda>ptr s.
       do { b \<leftarrow> ldw ptr s;
            try_c (if b = 0 then
                     (if \<not> doalloc then Some (Inl E_NOT_FOUND, s)
                      else try_c (alloc_block s) (\<lambda>r s. do { s \<leftarrow> stw ptr r s; Some (Inr (), s) }))
                   else Some (Inr (), s)) (\<lambda>_ s.
              do { b \<leftarrow> ldw ptr s; Some (Inr b, s) }) })"

definition file_clear_block :: "u32 \<Rightarrow> u32 \<Rightarrow> 'z fs_st_scheme \<Rightarrow> ((err + unit) \<times> 'z fs_st_scheme) option" where
  "file_clear_block f filebno s =
     try_c (file_block_walk f filebno False s) (\<lambda>ptr s.
       do { b \<leftarrow> ldw ptr s;
            if b \<noteq> 0 then do { s \<leftarrow> free_block b s; s \<leftarrow> stw ptr 0 s; Some (Inr (), s) }
            else Some (Inr (), s) })"

definition file_get_block :: "u32 \<Rightarrow> u32 \<Rightarrow> 'z fs_st_scheme \<Rightarrow> ((err + u32) \<times> 'z fs_st_scheme) option" where
  "file_get_block f filebno s =
     try_c (file_map_block f filebno True s) (\<lambda>diskbno s.
       do { ((blk, _), s) \<leftarrow> read_block diskbno s; Some (Inr blk, s) })"

definition file_dirty :: "u32 \<Rightarrow> u32 \<Rightarrow> 'z fs_st_scheme \<Rightarrow> ((err + unit) \<times> 'z fs_st_scheme) option" where
  "file_dirty f offset s = try_c (file_map_block f (offset div BY2BLK) False s) dirty_block"

section \<open>Directories\<close>

text \<open>The \<open>FILE2BLK\<close> entries of a directory block.\<close>

definition entries :: "u32 \<Rightarrow> u32 list" where
  "entries blk = map (\<lambda>k. blk + BY2FILE * of_nat k) [0..<FILE2BLK]"

fun find_entry :: "u8 list \<Rightarrow> u32 list \<Rightarrow> 'z fs_st_scheme \<Rightarrow> u32 option option" where
  "find_entry name [] s = Some None"
| "find_entry name (f # fs) s =
     do { eq \<leftarrow> str_eq name f s; if eq then Some (Some f) else find_entry name fs s }"

fun dir_lookup_blocks ::
  "u32 \<Rightarrow> u8 list \<Rightarrow> u32 list \<Rightarrow> 'z fs_st_scheme \<Rightarrow> ((err + u32) \<times> 'z fs_st_scheme) option"
where
  "dir_lookup_blocks dir name [] s = Some (Inl E_NOT_FOUND, s)"
| "dir_lookup_blocks dir name (i # bs) s =
     try_c (file_get_block dir i s) (\<lambda>blk s.
       do { r \<leftarrow> find_entry name (entries blk) s;
            (case r of
               Some f \<Rightarrow> do { s \<leftarrow> stw (f_dir f) dir s; Some (Inr f, s) }
             | None \<Rightarrow> dir_lookup_blocks dir name bs s) })"

definition dir_lookup :: "u32 \<Rightarrow> u8 list \<Rightarrow> 'z fs_st_scheme \<Rightarrow> ((err + u32) \<times> 'z fs_st_scheme) option" where
  "dir_lookup dir name s =
     do { sz \<leftarrow> ldw (f_size dir) s; dir_lookup_blocks dir name (upto_w 0 (sz div BY2BLK)) s }"

fun find_free_entry :: "u32 list \<Rightarrow> 'z fs_st_scheme \<Rightarrow> u32 option option" where
  "find_free_entry [] s = Some None"
| "find_free_entry (f # fs) s =
     do { c \<leftarrow> ldb f s; if c = 0 then Some (Some f) else find_free_entry fs s }"

fun dir_alloc_blocks ::
  "u32 \<Rightarrow> u32 list \<Rightarrow> 'z fs_st_scheme \<Rightarrow> ((err + u32 option) \<times> 'z fs_st_scheme) option"
where
  "dir_alloc_blocks dir [] s = Some (Inr None, s)"
| "dir_alloc_blocks dir (i # bs) s =
     try_c (file_get_block dir i s) (\<lambda>blk s.
       do { r \<leftarrow> find_free_entry (entries blk) s;
            (case r of Some f \<Rightarrow> Some (Inr (Some f), s) | None \<Rightarrow> dir_alloc_blocks dir bs s) })"

definition dir_alloc_file :: "u32 \<Rightarrow> 'z fs_st_scheme \<Rightarrow> ((err + u32) \<times> 'z fs_st_scheme) option" where
  "dir_alloc_file dir s =
     do { sz \<leftarrow> ldw (f_size dir) s;
          let nblock = sz div BY2BLK in
          try_c (dir_alloc_blocks dir (upto_w 0 nblock) s) (\<lambda>r s.
            (case r of
               Some f \<Rightarrow> Some (Inr f, s)
             | None \<Rightarrow>
                 do { sz \<leftarrow> ldw (f_size dir) s;
                      s \<leftarrow> stw (f_size dir) (sz + BY2BLK) s;
                      file_get_block dir nblock s })) }"

section \<open>Paths\<close>

abbreviation slash :: u8 where "slash \<equiv> 47"

text \<open>A path is the list of its bytes before the NUL.\<close>

definition skip_slash :: "u8 list \<Rightarrow> u8 list" where
  "skip_slash p = dropWhile (\<lambda>c. c = slash) p"

lemma next_component_shorter:
  "path \<noteq> [] \<Longrightarrow> length (skip_slash (dropWhile (\<lambda>c. c \<noteq> slash) path)) < length path"
  by (cases path)
     (auto simp: skip_slash_def le_imp_less_Suc length_dropWhile_le
       intro: le_less_trans [OF length_dropWhile_le])

text \<open>
  The loop of \<open>walk_path\<close>, entered with the current file. The result is the return code, \<open>*pfile\<close>, \<open>*pdir\<close> and
  \<open>lastelem\<close>, which the code leaves as they were set on entry (null, null, unset) unless it assigns them.
\<close>

record walk_result =
  w_ret :: "err + unit"
  w_pfile :: u32
  w_pdir :: u32
  w_last :: "u8 list option"

definition walk_fail :: "err \<Rightarrow> walk_result" where
  "walk_fail e = \<lparr>w_ret = Inl e, w_pfile = 0, w_pdir = 0, w_last = None\<rparr>"

function walk_loop :: "u8 list \<Rightarrow> u32 \<Rightarrow> u32 \<Rightarrow> 'z fs_st_scheme \<Rightarrow> (walk_result \<times> 'z fs_st_scheme) option" where
  "walk_loop path dir file s =
     (if path = [] then Some (\<lparr>w_ret = Inr (), w_pfile = file, w_pdir = dir, w_last = None\<rparr>, s)
      else
        let dir = file;
            name = takeWhile (\<lambda>c. c \<noteq> slash) path;
            path' = skip_slash (dropWhile (\<lambda>c. c \<noteq> slash) path)
        in if length name \<ge> MAXNAMELEN then Some (walk_fail E_BAD_PATH, s)
           else case ldw (f_type dir) s of None \<Rightarrow> None | Some ty \<Rightarrow>
             if ty \<noteq> FTYPE_DIR then Some (walk_fail E_NOT_FOUND, s)
             else case dir_lookup dir name s of None \<Rightarrow> None | Some (r, s) \<Rightarrow>
               (case r of
                  Inl e \<Rightarrow>
                    if e = E_NOT_FOUND \<and> path' = []
                    then Some (\<lparr>w_ret = Inl e, w_pfile = 0, w_pdir = dir, w_last = Some name\<rparr>, s)
                    else Some (walk_fail e, s)
                | Inr file \<Rightarrow> walk_loop path' dir file s))"
  by pat_completeness auto
termination
  by (relation "measure (\<lambda>(path, dir, file, s). length path)") (auto simp: next_component_shorter)

declare walk_loop.simps [simp del]

definition walk_path :: "u8 list \<Rightarrow> 'z fs_st_scheme \<Rightarrow> (walk_result \<times> 'z fs_st_scheme) option" where
  "walk_path path s = walk_loop (skip_slash path) 0 (s_root (super s)) s"

definition file_open :: "u8 list \<Rightarrow> 'z fs_st_scheme \<Rightarrow> ((err + u32) \<times> 'z fs_st_scheme) option" where
  "file_open path s =
     do { (w, s) \<leftarrow> walk_path path s;
          Some (case w_ret w of Inl e \<Rightarrow> Inl e | Inr _ \<Rightarrow> Inr (w_pfile w), s) }"

definition file_create :: "u8 list \<Rightarrow> 'z fs_st_scheme \<Rightarrow> ((err + u32) \<times> 'z fs_st_scheme) option" where
  "file_create path s =
     do { (w, s) \<leftarrow> walk_path path s;
          (case w_ret w of
             Inr _ \<Rightarrow> Some (Inl E_FILE_EXISTS, s)
           | Inl r \<Rightarrow>
               if r \<noteq> E_NOT_FOUND \<or> w_pdir w = 0 then Some (Inl r, s)
               else do { (f, s) \<leftarrow> dir_alloc_file (w_pdir w) s;
                         (case f of
                            Inl _ \<Rightarrow> Some (Inl r, s)
                          | Inr f \<Rightarrow>
                              do { name \<leftarrow> w_last w; s \<leftarrow> put_str f name s; Some (Inr f, s) }) }) }"

section \<open>Size, write back and removal\<close>

text \<open>The results of \<open>file_clear_block\<close> are ignored.\<close>

fun clear_blocks :: "u32 \<Rightarrow> u32 list \<Rightarrow> 'z fs_st_scheme \<Rightarrow> 'z fs_st_scheme option" where
  "clear_blocks f [] s = Some s"
| "clear_blocks f (bno # bs) s = do { (_, s) \<leftarrow> file_clear_block f bno s; clear_blocks f bs s }"

definition file_truncate :: "u32 \<Rightarrow> u32 \<Rightarrow> 'z fs_st_scheme \<Rightarrow> 'z fs_st_scheme option" where
  "file_truncate f newsize s =
     do { sz \<leftarrow> ldw (f_size f) s;
          let old_nblocks = sz div BY2BLK + 1;
              new_nblocks = (if newsize = 0 then 0 else newsize div BY2BLK + 1)
          in do { s \<leftarrow> clear_blocks f (upto_w new_nblocks old_nblocks) s;
                  s \<leftarrow> (if new_nblocks \<le> NDIRECT then
                          do { ind \<leftarrow> ldw (f_indirect f) s;
                               if ind \<noteq> 0 then do { s \<leftarrow> free_block ind s; stw (f_indirect f) 0 s } else Some s }
                        else Some s);
                  stw (f_size f) newsize s } }"

fun flush_blocks :: "u32 \<Rightarrow> u32 list \<Rightarrow> 'z fs_st_scheme \<Rightarrow> 'z fs_st_scheme option" where
  "flush_blocks f [] s = Some s"
| "flush_blocks f (bno # bs) s =
     do { (r, s) \<leftarrow> file_map_block f bno False s;
          s \<leftarrow> (case r of
                  Inl _ \<Rightarrow> Some s
                | Inr diskno \<Rightarrow> do { d \<leftarrow> block_is_dirty diskno s; if d then write_block diskno s else Some s });
          flush_blocks f bs s }"

definition file_flush :: "u32 \<Rightarrow> 'z fs_st_scheme \<Rightarrow> 'z fs_st_scheme option" where
  "file_flush f s = do { sz \<leftarrow> ldw (f_size f) s; flush_blocks f (upto_w 0 (sz div BY2BLK + 1)) s }"

text \<open>\<open>if (f->f_dir) file_flush(f->f_dir)\<close>\<close>

definition flush_dir :: "u32 \<Rightarrow> 'z fs_st_scheme \<Rightarrow> 'z fs_st_scheme option" where
  "flush_dir f s = do { d \<leftarrow> ldw (f_dir f) s; if d \<noteq> 0 then file_flush d s else Some s }"

definition file_set_size :: "u32 \<Rightarrow> u32 \<Rightarrow> 'z fs_st_scheme \<Rightarrow> 'z fs_st_scheme option" where
  "file_set_size f newsize s =
     do { sz \<leftarrow> ldw (f_size f) s;
          s \<leftarrow> (if sz > newsize then file_truncate f newsize s else Some s);
          s \<leftarrow> stw (f_size f) newsize s;
          flush_dir f s }"

fun sync_blocks :: "u32 list \<Rightarrow> 'z fs_st_scheme \<Rightarrow> 'z fs_st_scheme option" where
  "sync_blocks [] s = Some s"
| "sync_blocks (b # bs) s =
     do { d \<leftarrow> block_is_dirty b s; s \<leftarrow> (if d then write_block b s else Some s); sync_blocks bs s }"

definition fs_sync :: "'z fs_st_scheme \<Rightarrow> 'z fs_st_scheme option" where
  "fs_sync s = do { n \<leftarrow> s_nblocks s; sync_blocks (upto_w 0 n) s }"

definition file_close :: "u32 \<Rightarrow> 'z fs_st_scheme \<Rightarrow> 'z fs_st_scheme option" where
  "file_close f s = do { s \<leftarrow> file_flush f s; flush_dir f s }"

definition file_remove :: "u8 list \<Rightarrow> 'z fs_st_scheme \<Rightarrow> ((err + unit) \<times> 'z fs_st_scheme) option" where
  "file_remove path s =
     do { (w, s) \<leftarrow> walk_path path s;
          (case w_ret w of
             Inl e \<Rightarrow> Some (Inl e, s)
           | Inr _ \<Rightarrow>
               let f = w_pfile w in
               do { s \<leftarrow> file_truncate f 0 s;
                    s \<leftarrow> stb f 0 s;
                    s \<leftarrow> file_flush f s;
                    s \<leftarrow> flush_dir f s;
                    Some (Inr (), s) }) }"

end
