(* ===== verification/FsCache.thy ===== *)
theory FsCache
  imports FsBlock Allocator
begin

text \<open>
  The block layer of the file system server: the contents of a block in the cache and on the disk, the invariant of a
  started file system, and what the operations of \<open>FsBlock\<close> do to them. \<open>blk_view\<close> is the block as the server
  sees it, cached or not; loading blocks into the cache (\<open>loads\<close>) does not change it.
\<close>

section \<open>Addresses of blocks\<close>

definition baddr :: "u32 \<Rightarrow> u32" where
  "baddr b = DISKMAP + BY2BLK * b"

abbreviation MAXBLK :: u32 where "MAXBLK \<equiv> 0x40000"

lemma VPN_div: "VPN a = a div 4096"
  unfolding VPN_def by (rule word_unat_eq_iff [THEN iffD2]) (simp add: unat_div unat_drop_bit_eq drop_bit_eq_div)

lemma unat_VPN: "unat (VPN a) = unat a div 4096"
  by (simp add: VPN_div unat_div)

lemma unat_baddr: "b \<le> MAXBLK \<Longrightarrow> unat (baddr b) = 0x10000000 + 4096 * unat b"
  by (simp add: baddr_def unat_word_ariths word_le_nat_alt)

lemma unat_baddr_add:
  "b \<le> MAXBLK \<Longrightarrow> i < 4096 \<Longrightarrow> unat (baddr b + of_nat i) = 0x10000000 + 4096 * unat b + i"
  by (subst unat_add_small) (simp_all add: unat_baddr word_le_nat_alt)

lemma VPN_baddr: "b \<le> MAXBLK \<Longrightarrow> i < 4096 \<Longrightarrow> VPN (baddr b + of_nat i) = 0x10000 + b"
proof -
  assume b: "b \<le> MAXBLK" "i < 4096"
  have "unat (VPN (baddr b + of_nat i)) = (i + 4096 * (0x10000 + unat b)) div 4096"
    using unat_baddr_add [OF b] by (simp add: unat_VPN add.commute)
  also have "\<dots> = 0x10000 + unat b" using b(2) by (subst div_mult_self2) auto
  also have "\<dots> = unat (0x10000 + b)" using b(1) by (simp add: unat_word_ariths word_le_nat_alt)
  finally show ?thesis by (simp add: word_unat_eq_iff)
qed

lemma VPN_baddr_0 [simp]: "b \<le> MAXBLK \<Longrightarrow> VPN (baddr b) = 0x10000 + b"
  using VPN_baddr [of b 0] by simp

lemma diskaddr_eq [simp]: "b \<le> MAXBLK \<Longrightarrow> diskaddr b = Some (baddr b)"
  using unat_baddr [of b] by (simp add: diskaddr_def baddr_def [symmetric] Let_def word_le_nat_alt word_less_nat_alt)

lemma baddr_legal: "b \<le> MAXBLK \<Longrightarrow> \<not> is_illegal_va (baddr b)"
  using unat_baddr [of b] by (simp add: is_illegal_va_def word_le_nat_alt word_less_nat_alt)

lemma baddr_nonzero [simp]: "b \<le> MAXBLK \<Longrightarrow> baddr b \<noteq> 0"
  using unat_baddr [of b] by (auto simp: word_unat_eq_iff)

lemma baddr_inj [simp]: "a \<le> MAXBLK \<Longrightarrow> b \<le> MAXBLK \<Longrightarrow> baddr a = baddr b \<longleftrightarrow> a = b"
  using unat_baddr [of a] unat_baddr [of b] by (auto simp: word_unat_eq_iff)

text \<open>A byte lies in the page of a block exactly when it has the block's page number.\<close>

lemma in_block: "b \<le> MAXBLK \<Longrightarrow> in_range (baddr b) 4096 a \<longleftrightarrow> VPN a = 0x10000 + b"
proof -
  assume b: "b \<le> MAXBLK"
  have "in_range (baddr b) 4096 a \<longleftrightarrow> unat (baddr b) \<le> unat a \<and> unat a < unat (baddr b) + 4096"
    using in_range_unat [of "baddr b" 4096 a] unat_baddr [OF b] b by (simp add: word_le_nat_alt)
  also have "\<dots> \<longleftrightarrow> unat a div 4096 = 0x10000 + unat b" unfolding unat_baddr [OF b] by (auto simp: div_nat_eqI)
  also have "\<dots> \<longleftrightarrow> unat (VPN a) = unat (0x10000 + b)"
    using b by (simp add: unat_VPN unat_word_ariths word_le_nat_alt)
  finally show ?thesis by (simp add: word_unat_eq_iff)
qed

lemma block_offset: "b \<le> MAXBLK \<Longrightarrow> VPN a = 0x10000 + b \<Longrightarrow> unat (a - baddr b) < 4096"
  using in_block [of b a] by (simp add: in_range_def word_less_nat_alt)

lemma ROUNDDOWN_baddr: "b \<le> MAXBLK \<Longrightarrow> ROUNDDOWN (baddr b) 4096 = baddr b"
proof -
  have "baddr b = push_bit 12 (0x10000 + b)" by (simp add: baddr_def push_bit_eq_mult algebra_simps)
  moreover have "push_bit 12 x AND mask 12 = 0" for x :: u32 by (rule bit_word_eqI) (auto simp: bit_simps)
  ultimately have "baddr b AND 0xfff = 0" unfolding mask12 by metis
  then show ?thesis by (rule ROUNDDOWN_self)
qed

lemma sector_off_block: "b \<le> MAXBLK \<Longrightarrow> sector_off (b * SECT2BLK) 0 = 4096 * unat b"
proof -
  assume b: "b \<le> MAXBLK"
  then have u: "unat (b * 8) = unat b * 8" by (simp add: unat_word_ariths word_le_nat_alt)
  have "unat (ucast (b * 8) :: u64) = unat (b * 8)"
    using unsigned_less [of "b * 8", where 'a = nat] by (simp add: unsigned_ucast_eq take_bit_nat_eq_self)
  then show ?thesis by (simp add: sector_off_def disk_sector_def u)
qed

section \<open>Contents\<close>

definition cached :: "'z fs_st_scheme \<Rightarrow> u32 \<Rightarrow> bool" where
  "cached s b = pte_v s (0x10000 + b)"

definition blk_cache :: "'z fs_st_scheme \<Rightarrow> u32 \<Rightarrow> nat \<Rightarrow> u8" where
  "blk_cache s b i = vm s (baddr b + of_nat i)"

definition blk_disk :: "'z fs_st_scheme \<Rightarrow> u32 \<Rightarrow> nat \<Rightarrow> u8" where
  "blk_disk s b i = disk s (4096 * unat b + i)"

definition blk_view :: "'z fs_st_scheme \<Rightarrow> u32 \<Rightarrow> nat \<Rightarrow> u8" where
  "blk_view s b i = (if cached s b then blk_cache s b i else blk_disk s b i)"

definition nblocks :: "'z fs_st_scheme \<Rightarrow> u32" where
  "nblocks s = load32 (vm s) (super s + 4)"

definition free_blocks :: "'z fs_st_scheme \<Rightarrow> u32 set" where
  "free_blocks s = {b. b < nblocks s \<and> bit (load32 (vm s) (bit_word b s)) (unat (b mod 32))}"

text \<open>
  The invariant of a started file system: superblock and bitmap are where \<open>fs_init\<close> leaves them and cached, and the
  boot block, the superblock and the bitmap itself are not free.
\<close>

definition fs_ok :: "'z fs_st_scheme \<Rightarrow> bool" where
  "fs_ok s \<longleftrightarrow> super s = baddr 1 \<and> bitmap s = baddr 2 \<and> cached s 1 \<and> nblocks s \<le> MAXBLK \<and>
     (\<forall>b<nblocks s. cached s (b div BIT2BLK + 2)) \<and> (\<forall>b\<in>free_blocks s. nblocks s div BIT2BLK + 2 < b)"

lemma fs_okD:
  assumes "fs_ok s"
  shows "super s = baddr 1" "bitmap s = baddr 2" "cached s 1" "nblocks s \<le> MAXBLK"
    "b < nblocks s \<Longrightarrow> cached s (b div BIT2BLK + 2)" "b \<in> free_blocks s \<Longrightarrow> nblocks s div BIT2BLK + 2 < b"
    "b < nblocks s \<Longrightarrow> b < MAXBLK"
  using assms unfolding fs_ok_def by (auto dest: less_le_trans)

lemma cached_baddr: "b \<le> MAXBLK \<Longrightarrow> pte_v s (VPN (baddr b)) = cached s b"
  by (simp add: cached_def)

lemma VPN_super: "VPN (baddr 1 + 4) = 0x10000 + 1" "VPN (baddr 1 + 8) = 0x10000 + 1"
  using VPN_baddr [of 1 4] VPN_baddr [of 1 8] by simp_all

lemma s_nblocks_eq: "super s = baddr 1 \<Longrightarrow> cached s 1 \<Longrightarrow> s_nblocks s = Some (nblocks s)"
  by (simp add: s_nblocks_def ldw_def nblocks_def VPN_super cached_def)

section \<open>The bitmap\<close>

lemma unat_bit_word:
  assumes "bitmap s = baddr 2" "b < MAXBLK"
  shows "unat (bit_word b s) = 0x10002000 + 4 * (unat b div 32)"
proof -
  have "unat b div 32 < 0x2000" using assms(2) by (simp add: word_less_nat_alt)
  then show ?thesis using assms by (simp add: bit_word_def unat_word_ariths unat_baddr unat_div)
qed

lemma VPN_bit_word:
  assumes "bitmap s = baddr 2" "b < MAXBLK"
  shows "VPN (bit_word b s) = 0x10000 + (b div BIT2BLK + 2)"
proof -
  have lt: "unat b < 0x40000" using assms(2) by (simp add: word_less_nat_alt)
  have "(4 * (unat b div 32)) div 4096 = unat b div 0x8000"
    by (simp add: div_mult2_eq [symmetric] flip: div_mult_mult1 [of 4 "unat b div 32" 1024])
  then have "(0x10002000 + 4 * (unat b div 32)) div 4096 = 0x10002 + unat b div 0x8000" by simp
  moreover have "unat (0x10000 + (b div BIT2BLK + 2)) = 0x10002 + unat b div 0x8000"
    using lt by (simp add: unat_word_ariths unat_div)
  ultimately show ?thesis using unat_bit_word [OF assms] by (simp add: word_unat_eq_iff unat_VPN)
qed

lemma aligned_bit_word: "bitmap s = baddr 2 \<Longrightarrow> b < MAXBLK \<Longrightarrow> aligned4 (bit_word b s)"
  by (simp add: unat_bit_word)

lemma aligned_super: "aligned4 (baddr 1 + 4)"
  using unat_baddr_add [of 1 4] by simp

lemma bit_word_super: "bitmap s = baddr 2 \<Longrightarrow> b < MAXBLK \<Longrightarrow> bit_word b s \<noteq> baddr 1 + 4"
  using unat_bit_word [of s b] unat_baddr_add [of 1 4] by (auto simp: word_unat_eq_iff)

lemma bit_word_eq:
  assumes "bitmap s = baddr 2" "b < MAXBLK" "c < MAXBLK"
  shows "bit_word b s = bit_word c s \<longleftrightarrow> unat b div 32 = unat c div 32"
  using unat_bit_word [OF assms(1,2)] unat_bit_word [OF assms(1,3)] by (simp add: word_unat_eq_iff)

lemma mask_index: "unat (b mod 32 :: u32) < 32" "unat (b mod 32 :: u32) = unat b mod 32"
  by (simp_all add: unat_mod)

lemma and_bit_mask: "w AND bit_mask b \<noteq> 0 \<longleftrightarrow> bit w (unat (b mod 32))"
proof -
  have "w AND push_bit i 1 = 0 \<longleftrightarrow> \<not> bit w i" if "i < 32" for i
    using that by (subst bit_eq_iff) (auto simp: bit_simps)
  then show ?thesis using mask_index(1) [of b] by (auto simp: bit_mask_def)
qed

lemma or_bit_mask: "w OR bit_mask b = set_bit (unat (b mod 32)) w"
  unfolding bit_mask_def using mask_index(1) [of b] by (intro bit_word_eqI) (auto simp: bit_simps)

lemma andn_bit_mask: "w AND NOT (bit_mask b) = unset_bit (unat (b mod 32)) w"
  unfolding bit_mask_def using mask_index(1) [of b] by (intro bit_word_eqI) (auto simp: bit_simps)

lemma block_is_free_eq: "fs_ok s \<Longrightarrow> block_is_free b s = Some (b \<in> free_blocks s)"
  using fs_okD(1-4) [of s] fs_okD(5,7) [of s b] s_nblocks_eq [of s] VPN_bit_word [of s b]
  by (auto simp: block_is_free_def free_blocks_def ldw_def cached_def and_bit_mask)

text \<open>Storing a word of the bitmap.\<close>

definition put_bits :: "u32 \<Rightarrow> u32 \<Rightarrow> 'z fs_st_scheme \<Rightarrow> 'z fs_st_scheme" where
  "put_bits b v s = s\<lparr>vm := store32 (vm s) (bit_word b s) v\<rparr>"

lemma put_bits_simps [simp]:
  "super (put_bits b v s) = super s" "bitmap (put_bits b v s) = bitmap s" "pte_v (put_bits b v s) = pte_v s"
  "pte_dirty (put_bits b v s) = pte_dirty s" "disk (put_bits b v s) = disk s" "kalloc (put_bits b v s) = kalloc s"
  "cached (put_bits b v s) = cached s" "bit_word c (put_bits b v s) = bit_word c s"
  "vm (put_bits b v s) = store32 (vm s) (bit_word b s) v"
  by (simp_all add: put_bits_def cached_def [abs_def] bit_word_def)

lemma stw_bits: "fs_ok s \<Longrightarrow> b < nblocks s \<Longrightarrow> stw (bit_word b s) v s = Some (put_bits b v s)"
  and ldw_bits: "fs_ok s \<Longrightarrow> b < nblocks s \<Longrightarrow> ldw (bit_word b s) s = Some (load32 (vm s) (bit_word b s))"
  using fs_okD(2) [of s] fs_okD(5,7) [of s b] VPN_bit_word [of s b] by (simp_all add: stw_def ldw_def cached_def put_bits_def)

lemma put_bits_nblocks: "fs_ok s \<Longrightarrow> b < nblocks s \<Longrightarrow> nblocks (put_bits b v s) = nblocks s"
  using fs_okD(1,2) [of s] fs_okD(7) [of s b] bit_word_super [of s b]
  by (simp add: nblocks_def load32_store32_other aligned_bit_word aligned_super)

lemma put_bits_word:
  "fs_ok s \<Longrightarrow> b < nblocks s \<Longrightarrow> c < nblocks s \<Longrightarrow>
   load32 (vm (put_bits b v s)) (bit_word c s) =
     (if unat b div 32 = unat c div 32 then v else load32 (vm s) (bit_word c s))"
  using fs_okD(2) [of s] fs_okD(7) [of s b] fs_okD(7) [of s c] bit_word_eq [of s b c]
  by (auto simp: load32_store32_other aligned_bit_word)

lemma block_index: "unat b div 32 = unat c div 32 \<Longrightarrow> unat b mod 32 = unat c mod 32 \<Longrightarrow> b = (c :: u32)"
  by (metis div_mult_mod_eq word_unat_eq_iff)

lemma free_blocks_unset:
  assumes "fs_ok s" "b < nblocks s"
  shows "free_blocks (put_bits b (unset_bit (unat (b mod 32)) (load32 (vm s) (bit_word b s))) s) = free_blocks s - {b}"
proof (rule set_eqI)
  fix c
  show "c \<in> free_blocks (put_bits b (unset_bit (unat (b mod 32)) (load32 (vm s) (bit_word b s))) s) \<longleftrightarrow> c \<in> free_blocks s - {b}"
    using put_bits_word [OF assms, of c] put_bits_nblocks [OF assms] bit_word_eq [of s b c] block_index [of b c]
      fs_okD(2) [OF assms(1)] fs_okD(7) [OF assms] fs_okD(7) [OF assms(1), of c]
    by (auto simp: free_blocks_def mask_index(2) bit_unset_bit_iff simp del: put_bits_simps(9))
qed

lemma free_blocks_set:
  assumes "fs_ok s" "b < nblocks s"
  shows "free_blocks (put_bits b (set_bit (unat (b mod 32)) (load32 (vm s) (bit_word b s))) s) = insert b (free_blocks s)"
proof (rule set_eqI)
  fix c
  show "c \<in> free_blocks (put_bits b (set_bit (unat (b mod 32)) (load32 (vm s) (bit_word b s))) s) \<longleftrightarrow> c \<in> insert b (free_blocks s)"
    using put_bits_word [OF assms, of c] put_bits_nblocks [OF assms] bit_word_eq [of s b c] block_index [of b c]
      fs_okD(2) [OF assms(1)] fs_okD(7) [OF assms] fs_okD(7) [OF assms(1), of c] assms(2)
    by (auto simp: free_blocks_def mask_index(2) bit_set_bit_iff simp del: put_bits_simps(9))
qed

lemma fs_ok_put_bits:
  assumes "fs_ok s" "b < nblocks s" "\<forall>c\<in>free_blocks (put_bits b v s). nblocks s div BIT2BLK + 2 < c"
  shows "fs_ok (put_bits b v s)"
  using assms put_bits_nblocks [OF assms(1,2)] by (simp add: fs_ok_def del: put_bits_simps(9))

section \<open>Writing a block\<close>

definition flushed :: "u32 \<Rightarrow> 'z fs_st_scheme \<Rightarrow> 'z fs_st_scheme" where
  "flushed b s = s\<lparr>disk := (\<lambda>x. if 4096 * unat b \<le> x \<and> x < 4096 * unat b + 4096
                               then blk_cache s b (x - 4096 * unat b) else disk s x)\<rparr>"

lemma flushed_simps [simp]:
  "super (flushed b s) = super s" "bitmap (flushed b s) = bitmap s" "pte_v (flushed b s) = pte_v s"
  "pte_dirty (flushed b s) = pte_dirty s" "vm (flushed b s) = vm s" "kalloc (flushed b s) = kalloc s"
  "cached (flushed b s) = cached s" "blk_cache (flushed b s) = blk_cache s" "nblocks (flushed b s) = nblocks s"
  "bit_word c (flushed b s) = bit_word c s" "free_blocks (flushed b s) = free_blocks s" "fs_ok (flushed b s) = fs_ok s"
  by (simp_all add: flushed_def cached_def [abs_def] blk_cache_def [abs_def] nblocks_def bit_word_def
      free_blocks_def fs_ok_def cong: conj_cong)

lemma buf_mapped_block: "b \<le> MAXBLK \<Longrightarrow> cached s b \<Longrightarrow> buf_mapped (baddr b) 8 s"
  using VPN_baddr [of b "512 * k" for k] VPN_baddr [of b "512 * k + 511" for k]
  by (auto simp: buf_mapped_def list_all_iff cached_def simp del: of_nat_add of_nat_mult of_nat_numeral)

lemma write_block_eq:
  "b \<le> MAXBLK \<Longrightarrow> write_block b s = (if cached s b then Some (flushed b s) else None)"
  using buf_mapped_block [of b s] sector_off_block [of b]
  by (simp add: write_block_def block_is_mapped_def va_is_mapped_def cached_def ecall_write_disk_def flushed_def
      blk_cache_def Let_def cong: if_cong)

lemma blk_disk_flushed:
  assumes "i < 4096"
  shows "blk_disk (flushed b s) c i = (if c = b then blk_cache s b i else blk_disk s c i)"
proof -
  have "c = b" if "4096 * unat b \<le> 4096 * unat c + i" "4096 * unat c + i < 4096 * unat b + 4096"
    using that assms by (simp add: word_unat_eq_iff)
  then show ?thesis using assms by (auto simp: blk_disk_def flushed_def)
qed

section \<open>Allocating and freeing blocks\<close>

lemma VPN_word: "aligned4 a \<Longrightarrow> k < 4 \<Longrightarrow> VPN (a + of_nat k) = VPN a"
proof -
  assume a: "aligned4 a" "k < 4"
  obtain c where "unat a = 4 * c" using a(1) by (auto elim: dvdE)
  then have "(unat a + k) div 4096 = unat a div 4096"
    using a(2) by (simp add: div_mult2_eq [of _ 4 1024, simplified])
  then show ?thesis using aligned4_add_unat [OF a] by (simp add: word_unat_eq_iff unat_VPN)
qed

lemma store32_page: "aligned4 a \<Longrightarrow> VPN x \<noteq> VPN a \<Longrightarrow> store32 m a v x = m x"
  using VPN_word [of a 1] VPN_word [of a 2] VPN_word [of a 3] by (auto simp: store32_def)

definition take_block :: "u32 \<Rightarrow> 'z fs_st_scheme \<Rightarrow> 'z fs_st_scheme" where
  "take_block b s =
     flushed (b div BIT2BLK + 2) (put_bits b (unset_bit (unat (b mod 32)) (load32 (vm s) (bit_word b s))) s)"

definition give_block :: "u32 \<Rightarrow> 'z fs_st_scheme \<Rightarrow> 'z fs_st_scheme" where
  "give_block b s = put_bits b (set_bit (unat (b mod 32)) (load32 (vm s) (bit_word b s))) s"

lemma bitmap_block_le: "b < MAXBLK \<Longrightarrow> b div BIT2BLK + 2 \<le> (MAXBLK :: u32)"
  by (simp add: word_le_nat_alt word_less_nat_alt unat_word_ariths unat_div)

lemma alloc_block_scan_eq:
  assumes "fs_ok s" and "\<forall>b\<in>set bs. b < nblocks s"
  shows "alloc_block_scan bs s =
     (case find (\<lambda>b. b \<in> free_blocks s) bs of
        None \<Rightarrow> Some (Inl E_NO_DISK, s) | Some b \<Rightarrow> Some (Inr b, take_block b s))"
  using assms(2)
proof (induction bs)
  case (Cons b bs)
  have "write_block (b div BIT2BLK + 2) (put_bits b v s) = Some (flushed (b div BIT2BLK + 2) (put_bits b v s))" for v
    using fs_okD(5,7) [OF assms(1), of b] bitmap_block_le [of b] Cons.prems by (simp add: write_block_eq)
  then show ?case using Cons assms(1)
    by (simp add: block_is_free_eq ldw_bits stw_bits andn_bit_mask take_block_def)
qed simp

lemma upto_w_less: "b \<in> set (upto_w a n) \<longleftrightarrow> a \<le> b \<and> b < n"
proof -
  have "b \<in> set (upto_w a n) \<longleftrightarrow> (\<exists>i. unat a \<le> i \<and> i < unat n \<and> b = of_nat i)" by (auto simp: upto_w_def)
  moreover have "unat (of_nat i :: u32) = i" if "i < unat n" for i
    using that unsigned_less [of n, where 'a = nat] by (intro unat_of_nat32) simp
  ultimately show ?thesis by (auto simp: word_le_nat_alt word_less_nat_alt intro!: exI [of _ "unat b"])
qed

lemma find_sorted:
  "sorted xs \<Longrightarrow> find P xs = Some x \<Longrightarrow> P x \<and> x \<in> set xs \<and> (\<forall>y\<in>set xs. P y \<longrightarrow> x \<le> y)"
  by (induction xs) (auto split: if_splits)

lemma sorted_upto_w: "sorted (upto_w a n)"
proof -
  have "unat (of_nat i :: u32) = i" if "i < unat n" for i
    using that unsigned_less [of n, where 'a = nat] by (intro unat_of_nat32) simp
  then show ?thesis
    by (auto simp: upto_w_def sorted_map word_le_nat_alt intro!: sorted_wrt_mono_rel [OF _ sorted_upt])
qed

lemma alloc_block_num_ok:
  assumes "fs_ok s"
  shows "alloc_block_num s =
     (if free_blocks s = {} then Some (Inl E_NO_DISK, s)
      else Some (Inr (Min (free_blocks s)), take_block (Min (free_blocks s)) s))"
proof -
  let ?bs = "upto_w 3 (nblocks s)"
  have al: "alloc_block_num s = (case find (\<lambda>b. b \<in> free_blocks s) ?bs of
        None \<Rightarrow> Some (Inl E_NO_DISK, s) | Some b \<Rightarrow> Some (Inr b, take_block b s))"
    using alloc_block_scan_eq [OF assms, of ?bs] fs_okD(1,3) [OF assms]
    by (simp add: alloc_block_num_def s_nblocks_eq upto_w_less)
  have sub: "free_blocks s \<subseteq> set ?bs"
  proof
    fix b assume b: "b \<in> free_blocks s"
    have "nblocks s div BIT2BLK + 2 < b" using fs_okD(6) [OF assms b] .
    moreover have "unat (nblocks s div BIT2BLK + 2) = unat (nblocks s) div 0x8000 + 2"
      using fs_okD(4) [OF assms] by (simp add: unat_word_ariths unat_div word_le_nat_alt)
    ultimately have "3 \<le> b" by (simp add: word_le_nat_alt word_less_nat_alt)
    then show "b \<in> set ?bs" using b by (simp add: upto_w_less free_blocks_def)
  qed
  show ?thesis
  proof (cases "find (\<lambda>b. b \<in> free_blocks s) ?bs")
    case None
    then have "free_blocks s = {}" using sub by (auto simp: find_None_iff)
    then show ?thesis using al None by simp
  next
    case (Some b)
    have "b \<in> free_blocks s" "\<forall>c\<in>free_blocks s. b \<le> c"
      using find_sorted [OF sorted_upto_w Some] sub by auto
    then have "Min (free_blocks s) = b" by (intro Min_eqI) auto
    then show ?thesis using al Some \<open>b \<in> free_blocks s\<close> by auto
  qed
qed

lemma take_block_facts:
  assumes "fs_ok s" "b < nblocks s"
  shows "free_blocks (take_block b s) = free_blocks s - {b}" "fs_ok (take_block b s)"
    "nblocks (take_block b s) = nblocks s" "cached (take_block b s) = cached s"
    "pte_dirty (take_block b s) = pte_dirty s" "kalloc (take_block b s) = kalloc s"
    "VPN a \<noteq> 0x10000 + (b div BIT2BLK + 2) \<Longrightarrow> vm (take_block b s) a = vm s a"
    "i < 4096 \<Longrightarrow> blk_disk (take_block b s) (b div BIT2BLK + 2) i = blk_cache (take_block b s) (b div BIT2BLK + 2) i"
    "i < 4096 \<Longrightarrow> c \<noteq> b div BIT2BLK + 2 \<Longrightarrow> blk_disk (take_block b s) c i = blk_disk s c i"
proof -
  show "free_blocks (take_block b s) = free_blocks s - {b}"
    by (simp add: take_block_def free_blocks_unset [OF assms])
  show "fs_ok (take_block b s)" unfolding take_block_def flushed_simps
    by (rule fs_ok_put_bits [OF assms]) (simp add: free_blocks_unset [OF assms] fs_okD(6) [OF assms(1)])
  show "VPN a \<noteq> 0x10000 + (b div BIT2BLK + 2) \<Longrightarrow> vm (take_block b s) a = vm s a"
    using fs_okD(2) [OF assms(1)] fs_okD(7) [OF assms]
    by (simp add: take_block_def store32_page aligned_bit_word VPN_bit_word)
qed (simp_all add: take_block_def blk_disk_flushed put_bits_nblocks [OF assms], simp add: blk_disk_def)

lemma free_block_ok:
  assumes "fs_ok s"
  shows "free_block b s = Some (if b = 0 \<or> nblocks s \<le> b then s else give_block b s)"
proof (cases "b = 0 \<or> nblocks s \<le> b")
  case True
  then show ?thesis using fs_okD(1,3) [OF assms] by (auto simp: free_block_def s_nblocks_eq)
next
  case False
  then have "b < nblocks s" by (simp add: not_le)
  then show ?thesis using False fs_okD(1,3) [OF assms] ldw_bits [OF assms] stw_bits [OF assms]
    by (simp add: free_block_def s_nblocks_eq or_bit_mask give_block_def)
qed

lemma give_block_facts:
  assumes "fs_ok s" "b < nblocks s"
  shows "free_blocks (give_block b s) = insert b (free_blocks s)"
    "nblocks s div BIT2BLK + 2 < b \<Longrightarrow> fs_ok (give_block b s)"
    "nblocks (give_block b s) = nblocks s" "cached (give_block b s) = cached s"
    "pte_dirty (give_block b s) = pte_dirty s" "kalloc (give_block b s) = kalloc s" "disk (give_block b s) = disk s"
    "VPN a \<noteq> 0x10000 + (b div BIT2BLK + 2) \<Longrightarrow> vm (give_block b s) a = vm s a"
proof -
  show "free_blocks (give_block b s) = insert b (free_blocks s)"
    by (simp add: give_block_def free_blocks_set [OF assms])
  show "nblocks s div BIT2BLK + 2 < b \<Longrightarrow> fs_ok (give_block b s)" unfolding give_block_def
    by (rule fs_ok_put_bits [OF assms]) (auto simp: free_blocks_set [OF assms] fs_okD(6) [OF assms(1)])
  show "VPN a \<noteq> 0x10000 + (b div BIT2BLK + 2) \<Longrightarrow> vm (give_block b s) a = vm s a"
    using fs_okD(2) [OF assms(1)] fs_okD(7) [OF assms]
    by (simp add: give_block_def store32_page aligned_bit_word VPN_bit_word)
qed (simp_all add: give_block_def put_bits_nblocks [OF assms])

section \<open>Loading blocks\<close>

text \<open>
  From \<open>s\<close> to \<open>s'\<close> only blocks have been brought into the cache: the mapped pages keep their contents, the new ones
  hold what the disk has.
\<close>

definition loads :: "'z fs_st_scheme \<Rightarrow> 'z fs_st_scheme \<Rightarrow> bool" where
  "loads s s' \<longleftrightarrow> super s' = super s \<and> bitmap s' = bitmap s \<and> disk s' = disk s \<and> kalloc s' = kalloc s \<and>
     (\<forall>a. pte_v s (VPN a) \<longrightarrow> pte_v s' (VPN a) \<and> vm s' a = vm s a \<and> pte_dirty s' (VPN a) = pte_dirty s (VPN a)) \<and>
     (\<forall>b i. b < MAXBLK \<longrightarrow> i < 4096 \<longrightarrow> \<not> cached s b \<longrightarrow> cached s' b \<longrightarrow> blk_cache s' b i = blk_disk s b i)"

lemma loads_refl [simp]: "loads s s"
  by (simp add: loads_def)

lemma loadsD:
  assumes "loads s s'"
  shows "super s' = super s" "bitmap s' = bitmap s" "disk s' = disk s" "kalloc s' = kalloc s"
    "pte_v s (VPN a) \<Longrightarrow> pte_v s' (VPN a)" "pte_v s (VPN a) \<Longrightarrow> vm s' a = vm s a"
    "pte_v s (VPN a) \<Longrightarrow> pte_dirty s' (VPN a) = pte_dirty s (VPN a)"
    "b < MAXBLK \<Longrightarrow> i < 4096 \<Longrightarrow> \<not> cached s b \<Longrightarrow> cached s' b \<Longrightarrow> blk_cache s' b i = blk_disk s b i"
  using assms unfolding loads_def by auto

lemma loads_cached: "loads s s' \<Longrightarrow> b \<le> MAXBLK \<Longrightarrow> cached s b \<Longrightarrow> cached s' b"
  using loadsD(5) [of s s' "baddr b"] by (simp add: cached_def)

lemma loads_blk_cache:
  "loads s s' \<Longrightarrow> b \<le> MAXBLK \<Longrightarrow> i < 4096 \<Longrightarrow> cached s b \<Longrightarrow> blk_cache s' b i = blk_cache s b i"
  using loadsD(6) [of s s' "baddr b + of_nat i"] by (simp add: blk_cache_def cached_def VPN_baddr)

lemma loads_trans:
  assumes "loads s t" "loads t u"
  shows "loads s u"
proof -
  have "blk_cache u b i = blk_disk s b i" if "b < MAXBLK" "i < 4096" "\<not> cached s b" "cached u b" for b i
    using that loadsD(8) [OF assms(1), of b i] loadsD(8) [OF assms(2), of b i] loads_blk_cache [OF assms(2), of b i]
      loadsD(3) [OF assms(1)] by (cases "cached t b") (auto simp: blk_disk_def)
  then show ?thesis using assms unfolding loads_def by auto
qed

lemma loads_load32:
  assumes "loads s s'" "aligned4 a" "pte_v s (VPN a)"
  shows "load32 (vm s') a = load32 (vm s) a"
  using VPN_word [OF assms(2)] loadsD(6) [OF assms(1)] assms(3) by (intro load32_cong) simp

lemma loads_ldw: "loads s s' \<Longrightarrow> aligned4 a \<Longrightarrow> ldw a s = Some v \<Longrightarrow> ldw a s' = Some v"
  using loads_load32 [of s s' a] loadsD(5) [of s s' a] by (auto simp: ldw_def split: if_splits)

lemma loads_ldb: "loads s s' \<Longrightarrow> ldb a s = Some v \<Longrightarrow> ldb a s' = Some v"
  using loadsD(5,6) [of s s' a] by (auto simp: ldb_def split: if_splits)

lemma loads_fs_ok:
  assumes "loads s s'" "fs_ok s"
  shows "nblocks s' = nblocks s" "free_blocks s' = free_blocks s" "fs_ok s'"
proof -
  note [simp] = loadsD(1,2) [OF assms(1)] fs_okD(1,2) [OF assms(2)]
  show n: "nblocks s' = nblocks s"
    using loads_load32 [OF assms(1) aligned_super] fs_okD(3) [OF assms(2)]
    by (simp add: nblocks_def VPN_super cached_def)
  have bw: "bit_word b s' = bit_word b s" for b by (simp add: bit_word_def)
  have "load32 (vm s') (bit_word b s) = load32 (vm s) (bit_word b s)" if "b < nblocks s" for b
    using that fs_okD(5,7) [OF assms(2), of b]
    by (intro loads_load32 [OF assms(1)]) (simp_all add: aligned_bit_word VPN_bit_word cached_def)
  then show f: "free_blocks s' = free_blocks s" by (auto simp: free_blocks_def n bw)
  have "cached s' (b div BIT2BLK + 2)" if "b < nblocks s" for b
    using that fs_okD(5,7) [OF assms(2), of b] bitmap_block_le [of b] by (intro loads_cached [OF assms(1)]) auto
  moreover have "cached s' 1" using fs_okD(3) [OF assms(2)] by (intro loads_cached [OF assms(1)]) auto
  ultimately show "fs_ok s'" using assms(2) unfolding fs_ok_def by (simp add: n f)
qed

lemma loads_view:
  assumes "loads s s'" "b < MAXBLK" "i < 4096"
  shows "blk_view s' b i = blk_view s b i"
  using assms loads_cached [OF assms(1), of b] loads_blk_cache [OF assms(1), of b i] loadsD(8) [OF assms(1), of b i]
    loadsD(3) [OF assms(1)]
  by (auto simp: blk_view_def blk_disk_def)

lemma mem_alloc_block:
  "b \<le> MAXBLK \<Longrightarrow> kalloc s = [] \<Longrightarrow>
   ecall_mem_alloc (baddr b) s = (Inr (), s\<lparr>vm := mem_fill (vm s) (baddr b) 4096 0,
     pte_v := (pte_v s)(0x10000 + b := True), pte_dirty := (pte_dirty s)(0x10000 + b := False)\<rparr>)"
  by (simp add: ecall_mem_alloc_def baddr_legal ROUNDDOWN_baddr)

text \<open>Bringing a block that is not cached into the cache.\<close>

lemma load_block:
  assumes bm: "b \<le> MAXBLK" and ka: "kalloc s = []" and nc: "\<not> cached s b"
  obtains s' where "ecall_read_disk (b * SECT2BLK) 0 (baddr b) SECT2BLK (snd (ecall_mem_alloc (baddr b) s)) = Some s'"
    "loads s s'" "\<And>c. cached s' c = (c = b \<or> cached s c)"
proof -
  define s1 where "s1 = snd (ecall_mem_alloc (baddr b) s)"
  have s1: "s1 = s\<lparr>vm := mem_fill (vm s) (baddr b) 4096 0,
     pte_v := (pte_v s)(0x10000 + b := True), pte_dirty := (pte_dirty s)(0x10000 + b := False)\<rparr>"
    using mem_alloc_block [OF bm ka] by (simp add: s1_def)
  define s2 where "s2 = s1\<lparr>vm := (\<lambda>a. if in_range (baddr b) 4096 a then disk s1 (4096 * unat b + unat (a - baddr b)) else vm s1 a)\<rparr>"
  have "cached s1 b" by (simp add: s1 cached_def)
  then have rd: "ecall_read_disk (b * SECT2BLK) 0 (baddr b) SECT2BLK s1 = Some s2"
    using buf_mapped_block [OF bm, of s1] sector_off_block [OF bm] by (simp add: ecall_read_disk_def s2_def cong: if_cong)
  have 1: "vm s2 a = vm s a" if "pte_v s (VPN a)" for a
    using that nc in_block [OF bm, of a] by (auto simp: s2_def s1 mem_fill_def cached_def)
  have ca: "cached s2 c = (c = b \<or> cached s c)" for c by (auto simp: s2_def s1 cached_def)
  have "blk_cache s2 b i = blk_disk s b i" if "i < 4096" for i
    using that in_block [OF bm, of "baddr b + of_nat i"] VPN_baddr [OF bm that]
    by (simp add: blk_cache_def blk_disk_def s2_def s1 unat_of_nat32)
  then have 2: "blk_cache s2 c i = blk_disk s c i" if "i < 4096" "\<not> cached s c" "cached s2 c" for c i
    using that ca by metis
  have "pte_v s2 = (pte_v s)(0x10000 + b := True)" "pte_dirty s2 = (pte_dirty s)(0x10000 + b := False)"
    "super s2 = super s" "bitmap s2 = bitmap s" "disk s2 = disk s" "kalloc s2 = kalloc s" by (simp_all add: s2_def s1)
  with nc have "loads s s2" unfolding loads_def by (intro conjI allI impI 1 2) (auto simp: cached_def)
  then show thesis using that rd ca unfolding s1_def by blast
qed

lemma read_block_ok:
  assumes ok: "fs_ok s" and b: "b < nblocks s" "b \<notin> free_blocks s" and ka: "kalloc s = []"
  obtains s' where "read_block b s = Some ((baddr b, \<not> cached s b), s')" "loads s s'" "cached s' b"
    "cached s b \<Longrightarrow> s' = s"
proof -
  have bm: "b \<le> MAXBLK" using fs_okD(7) [OF ok b(1)] by simp
  note [simp] = fs_okD(1,2) [OF ok]
  have r: "read_block b s = (if cached s b then Some ((baddr b, False), s)
      else do { s \<leftarrow> ecall_read_disk (b * SECT2BLK) 0 (baddr b) SECT2BLK (snd (ecall_mem_alloc (baddr b) s)); Some ((baddr b, True), s) })"
    using bm b ok fs_okD(3) [OF ok]
    by (simp add: read_block_def s_nblocks_eq block_is_free_eq block_is_mapped_def va_is_mapped_def cached_def)
  show thesis
  proof (cases "cached s b")
    case True
    then show thesis using r that by simp
  next
    case False
    obtain s' where "ecall_read_disk (b * SECT2BLK) 0 (baddr b) SECT2BLK (snd (ecall_mem_alloc (baddr b) s)) = Some s'"
      "loads s s'" "\<And>c. cached s' c = (c = b \<or> cached s c)" by (rule load_block [OF bm ka False]) blast
    then show thesis using r False that by simp
  qed
qed

section \<open>The allocator of blocks\<close>

lemma alloc_block_num_granted:
  assumes "fs_ok s"
  shows "granted (alloc_block_num s) =
     (if free_blocks s = {} then None else Some (Min (free_blocks s), take_block (Min (free_blocks s)) s))"
  by (simp add: alloc_block_num_ok [OF assms])

lemma Min_free: "free_blocks s \<noteq> {} \<Longrightarrow> Min (free_blocks s) \<in> free_blocks s"
  by (rule Min_in) auto

lemma free_less: "b \<in> free_blocks s \<Longrightarrow> b < nblocks s"
  by (simp add: free_blocks_def)

interpretation blocks: allocator fs_ok free_blocks "\<lambda>s. granted (alloc_block_num s)"
proof
  fix s :: "'a fs_st_scheme" assume ok: "fs_ok s"
  show "granted (alloc_block_num s) = None \<longleftrightarrow> free_blocks s = {}" by (simp add: alloc_block_num_granted [OF ok])
  fix b s' assume "granted (alloc_block_num s) = Some (b, s')"
  then have *: "free_blocks s \<noteq> {}" "b = Min (free_blocks s)" "s' = take_block b s"
    by (auto simp: alloc_block_num_granted [OF ok] split: if_splits)
  then have "b \<in> free_blocks s" using Min_free by simp
  then show "b \<in> free_blocks s \<and> free_blocks s' = free_blocks s - {b} \<and> fs_ok s'"
    using take_block_facts(1,2) [OF ok free_less] *(3) by simp
qed

section \<open>alloc_block\<close>

text \<open>A change of memory that spares the superblock's size and the bitmap.\<close>

lemma fs_ok_frame:
  assumes ok: "fs_ok s" and same: "super s' = super s" "bitmap s' = bitmap s"
    and page: "\<And>a. VPN a \<noteq> 0x10000 + b \<Longrightarrow> vm s' a = vm s a" "\<And>c. c \<noteq> b \<Longrightarrow> cached s c \<Longrightarrow> cached s' c"
    and b: "nblocks s div BIT2BLK + 2 < b" "b \<le> MAXBLK"
  shows "nblocks s' = nblocks s" "free_blocks s' = free_blocks s" "fs_ok s'"
proof -
  have ld: "load32 (vm s') a = load32 (vm s) a" if "aligned4 a" "VPN a \<noteq> 0x10000 + b" for a
    using that VPN_word [OF that(1)] by (intro load32_cong page) simp
  have meta: "unat (nblocks s div BIT2BLK + 2) = unat (nblocks s) div 0x8000 + 2"
    using fs_okD(4) [OF ok] by (simp add: unat_word_ariths unat_div word_le_nat_alt)
  have b1: "1 \<noteq> b" using b(1) meta by (auto simp: word_less_nat_alt)
  then show n: "nblocks s' = nblocks s"
    using ld [OF aligned_super] fs_okD(1) [OF ok] same by (simp add: nblocks_def VPN_super)
  have bw: "c div BIT2BLK + 2 \<noteq> b" if "c < nblocks s" for c
  proof -
    have "unat (c div BIT2BLK + 2) = unat c div 0x8000 + 2"
      using that fs_okD(4) [OF ok] by (simp add: unat_word_ariths unat_div word_le_nat_alt word_less_nat_alt)
    moreover have "unat c div 0x8000 \<le> unat (nblocks s) div 0x8000"
      using that by (intro div_le_mono) (simp add: word_less_nat_alt)
    ultimately show ?thesis using b(1) meta by (auto simp: word_less_nat_alt)
  qed
  then have "load32 (vm s') (bit_word c s) = load32 (vm s) (bit_word c s)" if "c < nblocks s" for c
    using that fs_okD(2) [OF ok] fs_okD(7) [OF ok that]
    by (intro ld) (simp_all add: aligned_bit_word VPN_bit_word add.commute)
  moreover have "bit_word c s' = bit_word c s" for c using same by (simp add: bit_word_def)
  ultimately show f: "free_blocks s' = free_blocks s" by (auto simp: free_blocks_def n)
  show "fs_ok s'" using ok page(2) b1 bw unfolding fs_ok_def by (simp add: n f same)
qed

definition zero_block :: "u32 \<Rightarrow> 'z fs_st_scheme \<Rightarrow> 'z fs_st_scheme" where
  "zero_block b s = s\<lparr>vm := mem_fill (vm s) (baddr b) 4096 0, pte_v := (pte_v s)(0x10000 + b := True),
     pte_dirty := (pte_dirty s)(0x10000 + b := False)\<rparr>"

lemma map_block_eq:
  assumes "b \<le> MAXBLK" "kalloc s = []"
  shows "map_block b s = Some (Inr (), if cached s b then s else zero_block b s)"
  using assms mem_alloc_block [OF assms]
  by (simp add: map_block_def block_is_mapped_def va_is_mapped_def cached_def zero_block_def)

lemma zero_block_facts:
  assumes "fs_ok s" "nblocks s div BIT2BLK + 2 < b" "b \<le> MAXBLK"
  shows "nblocks (zero_block b s) = nblocks s" "free_blocks (zero_block b s) = free_blocks s" "fs_ok (zero_block b s)"
    "cached (zero_block b s) c = (c = b \<or> cached s c)" "i < 4096 \<Longrightarrow> blk_cache (zero_block b s) b i = 0"
    "VPN a \<noteq> 0x10000 + b \<Longrightarrow> vm (zero_block b s) a = vm s a"
    "disk (zero_block b s) = disk s" "kalloc (zero_block b s) = kalloc s"
proof -
  show fr: "VPN a \<noteq> 0x10000 + b \<Longrightarrow> vm (zero_block b s) a = vm s a" for a
    using in_block [OF assms(3), of a] by (simp add: zero_block_def mem_fill_def)
  have ca: "cached s c \<Longrightarrow> cached (zero_block b s) c" for c by (simp add: zero_block_def cached_def)
  show "nblocks (zero_block b s) = nblocks s" "free_blocks (zero_block b s) = free_blocks s" "fs_ok (zero_block b s)"
    using fs_ok_frame [OF assms(1) _ _ fr ca assms(2,3)] by (simp_all add: zero_block_def)
  show "i < 4096 \<Longrightarrow> blk_cache (zero_block b s) b i = 0"
    using in_block [OF assms(3), of "baddr b + of_nat i"] VPN_baddr [OF assms(3), of i]
    by (simp add: zero_block_def mem_fill_def blk_cache_def)
qed (simp_all add: zero_block_def cached_def)

text \<open>
  With memory to spare \<open>alloc_block\<close> takes the least free block and makes sure it is cached; the page is zero when
  the block was not cached before, and keeps its old contents otherwise.
\<close>

definition alloc_state :: "u32 \<Rightarrow> 'z fs_st_scheme \<Rightarrow> 'z fs_st_scheme" where
  "alloc_state b s = (if cached s b then take_block b s else zero_block b (take_block b s))"

lemma alloc_block_ok:
  assumes "fs_ok s" "kalloc s = []"
  shows "alloc_block s =
     (if free_blocks s = {} then Some (Inl E_NO_DISK, s)
      else Some (Inr (Min (free_blocks s)), alloc_state (Min (free_blocks s)) s))"
proof (cases "free_blocks s = {}")
  case False
  define b where "b = Min (free_blocks s)"
  have b: "b \<in> free_blocks s" "b < nblocks s" "b \<le> MAXBLK"
    using Min_free [OF False] free_less fs_okD(7) [OF assms(1)] by (auto simp: b_def intro: less_imp_le)
  then show ?thesis using False assms map_block_eq [of b "take_block b s"] take_block_facts(4,6) [OF assms(1) b(2)]
    by (simp add: alloc_block_def alloc_block_num_ok [OF assms(1)] b_def [symmetric] alloc_state_def)
qed (simp add: alloc_block_def alloc_block_num_ok [OF assms(1)])

lemma alloc_state_facts:
  assumes "fs_ok s" "b \<in> free_blocks s"
  shows "fs_ok (alloc_state b s)" "free_blocks (alloc_state b s) = free_blocks s - {b}"
    "nblocks (alloc_state b s) = nblocks s" "cached (alloc_state b s) c = (c = b \<or> cached s c)"
    "kalloc (alloc_state b s) = kalloc s"
    "VPN a \<noteq> 0x10000 + b \<Longrightarrow> VPN a \<noteq> 0x10000 + (b div BIT2BLK + 2) \<Longrightarrow> vm (alloc_state b s) a = vm s a"
    "i < 4096 \<Longrightarrow> \<not> cached s b \<Longrightarrow> blk_cache (alloc_state b s) b i = 0"
proof -
  have b: "b < nblocks s" "nblocks s div BIT2BLK + 2 < b" "b \<le> MAXBLK"
    using free_less [OF assms(2)] fs_okD(6) [OF assms] fs_okD(7) [OF assms(1) free_less [OF assms(2)]] by auto
  note t = take_block_facts [OF assms(1) b(1)]
  have b': "nblocks (take_block b s) div BIT2BLK + 2 < b" using b(2) t(3) by simp
  note z = zero_block_facts [OF t(2) b' b(3)]
  show "fs_ok (alloc_state b s)" "free_blocks (alloc_state b s) = free_blocks s - {b}"
    "nblocks (alloc_state b s) = nblocks s" "cached (alloc_state b s) c = (c = b \<or> cached s c)"
    "kalloc (alloc_state b s) = kalloc s"
    "VPN a \<noteq> 0x10000 + b \<Longrightarrow> VPN a \<noteq> 0x10000 + (b div BIT2BLK + 2) \<Longrightarrow> vm (alloc_state b s) a = vm s a"
    "i < 4096 \<Longrightarrow> \<not> cached s b \<Longrightarrow> blk_cache (alloc_state b s) b i = 0"
    by (auto simp: alloc_state_def t z)
qed

lemma alloc_state_bitmap:
  assumes "fs_ok s" "b \<in> free_blocks s" "i < 4096"
  shows "blk_disk (alloc_state b s) (b div BIT2BLK + 2) i = blk_cache (alloc_state b s) (b div BIT2BLK + 2) i"
proof -
  have b: "b < nblocks s" "nblocks s div BIT2BLK + 2 < b" "b < MAXBLK"
    using free_less [OF assms(2)] fs_okD(6) [OF assms(1,2)] fs_okD(7) [OF assms(1) free_less [OF assms(2)]] by auto
  have le: "b div BIT2BLK + 2 \<le> MAXBLK" by (rule bitmap_block_le [OF b(3)])
  have "unat (b div BIT2BLK + 2) \<le> unat (nblocks s div BIT2BLK + 2)"
    using b fs_okD(4) [OF assms(1)]
    by (simp add: unat_word_ariths unat_div word_le_nat_alt word_less_nat_alt div_le_mono)
  then have ne: "b div BIT2BLK + 2 \<noteq> b" using b(2) by (auto simp: word_less_nat_alt)
  note t = take_block_facts [OF assms(1) b(1)]
  have "blk_disk (zero_block b (take_block b s)) c i = blk_disk (take_block b s) c i" for c
    by (simp add: zero_block_def blk_disk_def)
  moreover have "blk_cache (zero_block b (take_block b s)) (b div BIT2BLK + 2) i = blk_cache (take_block b s) (b div BIT2BLK + 2) i"
    unfolding blk_cache_def using b t(3) ne VPN_baddr [OF le assms(3)]
    by (intro zero_block_facts(6) [OF t(2)]) (auto simp: add.commute)
  ultimately show ?thesis using t(8) [OF assms(3)] by (simp add: alloc_state_def)
qed

section \<open>Out of memory\<close>

lemma kalloc_update [simp]:
  "nblocks (s\<lparr>kalloc := k\<rparr>) = nblocks s" "bit_word b (s\<lparr>kalloc := k\<rparr>) = bit_word b s"
  "cached (s\<lparr>kalloc := k\<rparr>) = cached s" "free_blocks (s\<lparr>kalloc := k\<rparr>) = free_blocks s"
  "fs_ok (s\<lparr>kalloc := k\<rparr>) = fs_ok s"
  by (simp_all add: nblocks_def bit_word_def cached_def [abs_def] free_blocks_def fs_ok_def)

lemma alloc_block_no_mem:
  assumes "fs_ok s" "b = Min (free_blocks s)" "free_blocks s \<noteq> {}" "\<not> cached s b" "kalloc s = False # ks"
  shows "alloc_block s = Some (Inl E_NO_MEM, give_block b (take_block b s\<lparr>kalloc := ks\<rparr>))"
    and "free_blocks (give_block b (take_block b s\<lparr>kalloc := ks\<rparr>)) = free_blocks s"
proof -
  have b: "b \<in> free_blocks s" "b < nblocks s" "b \<le> MAXBLK" "b \<noteq> 0"
    using Min_free [OF assms(3)] free_less [of b s] fs_okD(6,7) [OF assms(1), of b] assms(2) by auto
  note t = take_block_facts [OF assms(1) b(2)]
  let ?t = "take_block b s\<lparr>kalloc := ks\<rparr>"
  have ok: "fs_ok ?t" "nblocks ?t = nblocks s" "free_blocks ?t = free_blocks s - {b}"
    using t(1,2,3) by simp_all
  have "map_block b (take_block b s) = Some (Inl E_NO_MEM, ?t)"
    using b(3) assms(4,5) t(4,6) baddr_legal [OF b(3)]
    by (simp add: map_block_def block_is_mapped_def va_is_mapped_def ecall_mem_alloc_def cached_def [symmetric])
  moreover have "free_block b ?t = Some (give_block b ?t)" using free_block_ok [OF ok(1), of b] b ok(2) by auto
  moreover have "alloc_block_num s = Some (Inr b, take_block b s)"
    using alloc_block_num_ok [OF assms(1)] assms(2,3) by simp
  ultimately show "alloc_block s = Some (Inl E_NO_MEM, give_block b ?t)" by (simp add: alloc_block_def)
  show "free_blocks (give_block b ?t) = free_blocks s"
    using give_block_facts(1) [OF ok(1), of b] ok b by auto
qed

section \<open>Write, unmap and read\<close>

lemma unmap_facts:
  assumes "fs_ok s" "nblocks s div BIT2BLK + 2 < b" "b \<le> MAXBLK"
  defines "u \<equiv> snd (ecall_mem_unmap (baddr b) s)"
  shows "fs_ok u" "nblocks u = nblocks s" "free_blocks u = free_blocks s" "disk u = disk s" "vm u = vm s"
    "kalloc u = kalloc s" "cached u c = (c \<noteq> b \<and> cached s c)"
proof -
  have u: "u = s\<lparr>pte_v := (pte_v s)(0x10000 + b := False)\<rparr>"
    using assms(3) by (simp add: u_def ecall_mem_unmap_def baddr_legal)
  have ca: "c \<noteq> b \<Longrightarrow> cached s c \<Longrightarrow> cached u c" for c by (simp add: u cached_def)
  show "fs_ok u" "nblocks u = nblocks s" "free_blocks u = free_blocks s"
    using fs_ok_frame [OF assms(1) _ _ _ ca assms(2,3)] by (simp_all add: u)
qed (use assms(3) in \<open>auto simp: u_def ecall_mem_unmap_def baddr_legal cached_def\<close>)

lemma write_read_back:
  assumes "fs_ok s" "b < nblocks s" "b \<notin> free_blocks s" "nblocks s div BIT2BLK + 2 < b" "cached s b" "kalloc s = []"
  shows "\<exists>s1 s2. write_block b s = Some s1 \<and>
           read_block b (snd (ecall_mem_unmap (baddr b) s1)) = Some ((baddr b, True), s2) \<and> cached s2 b \<and> fs_ok s2 \<and>
           (\<forall>c i. c < MAXBLK \<longrightarrow> i < 4096 \<longrightarrow> blk_view s2 c i = blk_view s c i)"
proof -
  let ?f = "flushed b s"
  let ?u = "snd (ecall_mem_unmap (baddr b) ?f)"
  have bm: "b \<le> MAXBLK" using fs_okD(7) [OF assms(1,2)] by simp
  have u: "fs_ok ?u" "nblocks ?u = nblocks s" "free_blocks ?u = free_blocks s" "disk ?u = disk ?f" "vm ?u = vm s"
    "kalloc ?u = []" "cached ?u c = (c \<noteq> b \<and> cached s c)" for c
    using unmap_facts [of ?f b] assms bm by simp_all
  obtain s2 where s2: "read_block b ?u = Some ((baddr b, \<not> cached ?u b), s2)" "loads ?u s2" "cached s2 b"
    using read_block_ok [OF u(1), of b] assms(2,3) u(2,3,6) by metis
  have "blk_view s2 c i = blk_view s c i" if "c < MAXBLK" "i < 4096" for c i
    using loads_view [OF s2(2) that] u(4,5) blk_disk_flushed [OF that(2), of b s c] assms(5)
    by (auto simp: blk_view_def u(7) blk_disk_def blk_cache_def)
  then show ?thesis using s2 u(7) bm assms(5) loads_fs_ok(3) [OF s2(2) u(1)] by (auto simp: write_block_eq)
qed

section \<open>A small file system\<close>

text \<open>Eight blocks, of which blocks 3 to 6 are free; the superblock, the bitmap and block 7 are cached.\<close>

definition small_fs :: "unit fs_st_scheme" where
  "small_fs = \<lparr>vm = store32 (store32 (\<lambda>_. 0) (baddr 1 + 4) 8) (baddr 2) 0x78,
     pte_v = (\<lambda>v. v = 0x10001 \<or> v = 0x10002 \<or> v = 0x10007), pte_dirty = (\<lambda>v. v = 0x10007), disk = (\<lambda>_. 0),
     super = baddr 1, bitmap = baddr 2, kalloc = []\<rparr>"

lemma small_fs_nblocks: "nblocks small_fs = 8"
  using unat_baddr [of 2] unat_baddr_add [of 1 4]
  by (simp add: nblocks_def small_fs_def load32_store32_other word_unat_eq_iff)

lemma small_fs_free: "free_blocks small_fs = {3, 4, 5, 6}"
proof -
  have "load32 (vm small_fs) (bit_word b small_fs) = 0x78" if "b < 8" for b
  proof -
    have "unat b div 32 = 0" using that by (simp add: word_less_nat_alt)
    then have "b div 32 = 0" by (simp add: word_unat_eq_iff unat_div)
    then show ?thesis by (simp add: small_fs_def bit_word_def)
  qed
  moreover have "unat (b mod 32) = unat b" if "b < 8" for b :: u32
    using that by (simp add: mask_index(2) word_less_nat_alt)
  ultimately have 1: "b \<in> free_blocks small_fs \<longleftrightarrow> unat b < 8 \<and> bit (0x78 :: u32) (unat b)" for b
    by (auto simp: free_blocks_def small_fs_nblocks word_less_nat_alt)
  have 2: "n < 8 \<and> bit (0x78 :: u32) n \<longleftrightarrow> n = 3 \<or> n = 4 \<or> n = 5 \<or> n = 6" for n :: nat
    by (auto simp: numeral_eq_Suc less_Suc_eq)
  have "unat b = 3 \<longleftrightarrow> b = 3" "unat b = 4 \<longleftrightarrow> b = 4" "unat b = 5 \<longleftrightarrow> b = 5" "unat b = 6 \<longleftrightarrow> b = 6" for b :: u32
    by (simp_all add: word_unat_eq_iff)
  then show ?thesis by (intro set_eqI) (simp only: 1 2 insert_iff empty_iff simp_thms)
qed

lemma small_fs_ok: "fs_ok small_fs"
proof -
  have "b div BIT2BLK = 0" if "b < 8" for b :: u32
    using that by (simp add: word_unat_eq_iff unat_div word_less_nat_alt)
  then show ?thesis
    unfolding fs_ok_def small_fs_nblocks small_fs_free by (simp add: small_fs_def cached_def word_less_nat_alt)
qed

lemma small_fs_fields [simp]: "kalloc small_fs = []" "cached small_fs 7" "\<not> cached small_fs 3"
  by (simp_all add: small_fs_def cached_def)

section \<open>Properties\<close>

text \<open>
  C11 (fs_block_alloc). With memory to spare \<open>alloc_block\<close> fails exactly when no block is free, and then changes nothing; otherwise it
  returns the least free block, takes it out of the free set and nothing else, caches it, writes the
  bitmap block that records it to the disk, touches no other cached block, and keeps the invariant.
\<close>

theorem fs_block_alloc:
  assumes "fs_ok s" "kalloc s = []"
  shows "(free_blocks s = {} \<longrightarrow> alloc_block s = Some (Inl E_NO_DISK, s)) \<and>
    (free_blocks s \<noteq> {} \<longrightarrow>
      (\<exists>b s'. alloc_block s = Some (Inr b, s') \<and> b \<in> free_blocks s \<and> (\<forall>c\<in>free_blocks s. b \<le> c) \<and>
         free_blocks s' = free_blocks s - {b} \<and> fs_ok s' \<and> cached s' b \<and>
         (\<forall>i<4096. blk_disk s' (b div BIT2BLK + 2) i = blk_cache s' (b div BIT2BLK + 2) i) \<and>
         (\<forall>a. VPN a \<noteq> 0x10000 + b \<longrightarrow> VPN a \<noteq> 0x10000 + (b div BIT2BLK + 2) \<longrightarrow> vm s' a = vm s a)))"
proof (intro conjI impI)
  assume "free_blocks s = {}"
  then show "alloc_block s = Some (Inl E_NO_DISK, s)" by (simp add: alloc_block_ok [OF assms])
next
  assume ne: "free_blocks s \<noteq> {}"
  let ?b = "Min (free_blocks s)"
  have b: "?b \<in> free_blocks s" by (rule Min_free [OF ne])
  note f = alloc_state_facts [OF assms(1) b]
  have "alloc_block s = Some (Inr ?b, alloc_state ?b s)" using ne by (simp add: alloc_block_ok [OF assms])
  moreover have "\<forall>c\<in>free_blocks s. ?b \<le> c" by (simp add: Min_le)
  moreover have "blk_disk (alloc_state ?b s) (?b div BIT2BLK + 2) i = blk_cache (alloc_state ?b s) (?b div BIT2BLK + 2) i"
    if "i < 4096" for i by (rule alloc_state_bitmap [OF assms(1) b that])
  ultimately show "\<exists>b s'. alloc_block s = Some (Inr b, s') \<and> b \<in> free_blocks s \<and> (\<forall>c\<in>free_blocks s. b \<le> c) \<and>
         free_blocks s' = free_blocks s - {b} \<and> fs_ok s' \<and> cached s' b \<and>
         (\<forall>i<4096. blk_disk s' (b div BIT2BLK + 2) i = blk_cache s' (b div BIT2BLK + 2) i) \<and>
         (\<forall>a. VPN a \<noteq> 0x10000 + b \<longrightarrow> VPN a \<noteq> 0x10000 + (b div BIT2BLK + 2) \<longrightarrow> vm s' a = vm s a)"
    using b f by (intro exI [of _ ?b] exI [of _ "alloc_state ?b s"]) (simp add: f)
qed

theorem fs_block_alloc_witness:
  "\<exists>b s'. alloc_block small_fs = Some (Inr b, s') \<and> b \<in> {3, 4, 5, 6} \<and> free_blocks s' = {3, 4, 5, 6} - {b}"
proof -
  have "free_blocks small_fs \<noteq> {}" unfolding small_fs_free by (rule insert_not_empty)
  from fs_block_alloc [OF small_fs_ok small_fs_fields(1), THEN conjunct2, THEN mp, OF this]
  show ?thesis unfolding small_fs_free by (elim exE conjE) (intro exI conjI)
qed

text \<open>
  Any number of block allocations in a row return distinct blocks that were free, and they all succeed
  exactly when there were that many free blocks.
\<close>

theorem fs_blocks_distinct:
  assumes "fs_ok s"
  shows "((\<exists>xs s'. alloc_n (\<lambda>s. granted (alloc_block_num s)) n s = Some (xs, s')) \<longleftrightarrow> n \<le> card (free_blocks s)) \<and>
    (\<forall>xs s'. alloc_n (\<lambda>s. granted (alloc_block_num s)) n s = Some (xs, s') \<longrightarrow>
       distinct xs \<and> set xs \<subseteq> free_blocks s \<and> free_blocks s' = free_blocks s - set xs \<and> fs_ok s')"
  using blocks.alloc_n_total [OF assms, of n] blocks.alloc_n_some [OF assms, of n] by auto

theorem fs_blocks_distinct_witness:
  "\<exists>xs s'. alloc_n (\<lambda>s. granted (alloc_block_num s)) 4 small_fs = Some (xs, s')"
  using fs_blocks_distinct [OF small_fs_ok, of 4] small_fs_free by simp

text \<open>
  Writing a cached block back, dropping it from the cache and reading it again gives the same contents,
  and leaves every block as the server sees it.
\<close>

theorem fs_write_read_back:
  assumes "fs_ok s" "b < nblocks s" "b \<notin> free_blocks s" "nblocks s div BIT2BLK + 2 < b" "cached s b" "kalloc s = []"
  shows "\<exists>s1 s2. write_block b s = Some s1 \<and>
           read_block b (snd (ecall_mem_unmap (baddr b) s1)) = Some ((baddr b, True), s2) \<and> cached s2 b \<and> fs_ok s2 \<and>
           (\<forall>c i. c < MAXBLK \<longrightarrow> i < 4096 \<longrightarrow> blk_view s2 c i = blk_view s c i)"
  using write_read_back [OF assms] .

theorem fs_write_read_back_witness:
  "\<exists>s1 s2. write_block 7 small_fs = Some s1 \<and>
     read_block 7 (snd (ecall_mem_unmap (baddr 7) s1)) = Some ((baddr 7, True), s2) \<and> blk_view s2 7 5 = blk_view small_fs 7 5"
proof -
  have "\<exists>s1 s2. write_block 7 small_fs = Some s1 \<and>
           read_block 7 (snd (ecall_mem_unmap (baddr 7) s1)) = Some ((baddr 7, True), s2) \<and> cached s2 7 \<and> fs_ok s2 \<and>
           (\<forall>c i. c < MAXBLK \<longrightarrow> i < 4096 \<longrightarrow> blk_view s2 c i = blk_view small_fs c i)"
    by (rule fs_write_read_back [OF small_fs_ok]) (simp_all add: small_fs_nblocks small_fs_free)
  then obtain s1 s2 where "write_block 7 small_fs = Some s1"
    "read_block 7 (snd (ecall_mem_unmap (baddr 7) s1)) = Some ((baddr 7, True), s2)"
    and v: "\<And>c i. c < MAXBLK \<Longrightarrow> i < 4096 \<Longrightarrow> blk_view s2 c i = blk_view small_fs c i" by blast
  moreover have "blk_view s2 7 5 = blk_view small_fs 7 5" by (rule v) simp_all
  ultimately show ?thesis by blast
qed

text \<open>
  When the kernel has no page for the block, \<open>alloc_block\<close> reports \<open>E_NO_MEM\<close> and gives the block back: the
  free set is what it was.
\<close>

theorem fs_alloc_out_of_memory:
  assumes "fs_ok s" "free_blocks s \<noteq> {}" "\<not> cached s (Min (free_blocks s))" "kalloc s = False # ks"
  shows "\<exists>s'. alloc_block s = Some (Inl E_NO_MEM, s') \<and> free_blocks s' = free_blocks s"
  using alloc_block_no_mem [OF assms(1) refl assms(2-4)] by blast

theorem fs_alloc_out_of_memory_witness:
  "\<exists>s'. alloc_block (small_fs\<lparr>kalloc := [False]\<rparr>) = Some (Inl E_NO_MEM, s') \<and> free_blocks s' = {3, 4, 5, 6}"
proof -
  have m: "Min (free_blocks (small_fs\<lparr>kalloc := [False]\<rparr>)) = 3"
    unfolding kalloc_update small_fs_free by (intro Min_eqI) (auto simp: word_le_nat_alt)
  show ?thesis
    using fs_alloc_out_of_memory [of "small_fs\<lparr>kalloc := [False]\<rparr>" "[]"] small_fs_ok small_fs_free
    unfolding m by (simp add: small_fs_fields)
qed

end
