(* ===== verification/FsProps.thy ===== *)
theory FsProps
  imports FsFile FsCache
begin

text \<open>
  The file layer of the server over the block layer: write back, the block map of a file (\<open>fblock\<close>), directory
  lookup as a search over the entries of the directory, and creation followed by lookup.
\<close>

section \<open>Write back\<close>

lemma block_is_dirty_eq:
  "b \<le> MAXBLK \<Longrightarrow> block_is_dirty b s = Some (cached s b \<and> pte_dirty s (0x10000 + b))"
  by (simp add: block_is_dirty_def va_is_mapped_def va_is_dirty_def cached_def)

lemma sync_blocks_ok:
  "\<forall>b\<in>set bs. b \<le> MAXBLK \<Longrightarrow> \<exists>d. sync_blocks bs s = Some (s\<lparr>disk := d\<rparr>) \<and>
     (\<forall>c i. i < 4096 \<longrightarrow> d (4096 * unat c + i) =
        (if c \<in> set bs \<and> cached s c \<and> pte_dirty s (0x10000 + c) then blk_cache s c i else blk_disk s c i))"
proof (induction bs arbitrary: s)
  case Nil
  then show ?case by (intro exI [of _ "disk s"]) (simp add: blk_disk_def)
next
  case (Cons b bs)
  define t where "t = (if cached s b \<and> pte_dirty s (0x10000 + b) then flushed b s else s)"
  have "sync_blocks (b # bs) s = sync_blocks bs t"
    using Cons.prems by (simp add: block_is_dirty_eq write_block_eq t_def)
  moreover obtain d where d: "sync_blocks bs t = Some (t\<lparr>disk := d\<rparr>)"
    "\<And>c i. i < 4096 \<Longrightarrow> d (4096 * unat c + i) =
        (if c \<in> set bs \<and> cached t c \<and> pte_dirty t (0x10000 + c) then blk_cache t c i else blk_disk t c i)"
    using Cons.IH [of t] Cons.prems by auto
  moreover have "t\<lparr>disk := d\<rparr> = s\<lparr>disk := d\<rparr>" by (simp add: t_def flushed_def)
  moreover have "cached t = cached s" "pte_dirty t = pte_dirty s" "blk_cache t = blk_cache s" by (simp_all add: t_def)
  moreover have "blk_disk t c i = (if c = b \<and> cached s b \<and> pte_dirty s (0x10000 + b) then blk_cache s b i else blk_disk s c i)"
    if "i < 4096" for c i using blk_disk_flushed [OF that, of b s c] by (auto simp: t_def)
  ultimately show ?case by (intro exI [of _ d]) auto
qed

lemma fs_sync_ok:
  assumes "fs_ok s"
  obtains d where "fs_sync s = Some (s\<lparr>disk := d\<rparr>)"
    "\<forall>c i. i < 4096 \<longrightarrow> d (4096 * unat c + i) =
        (if c < nblocks s \<and> cached s c \<and> pte_dirty s (0x10000 + c) then blk_cache s c i else blk_disk s c i)"
proof -
  have "\<forall>b\<in>set (upto_w 0 (nblocks s)). b \<le> MAXBLK" using fs_okD(7) [OF assms] by (auto simp: upto_w_less less_imp_le)
  from sync_blocks_ok [OF this, of s] show thesis
    using that fs_okD(1,3) [OF assms] by (auto simp: fs_sync_def s_nblocks_eq upto_w_less)
qed

section \<open>Structures in memory\<close>

text \<open>A \<open>struct File\<close> at an address: aligned, inside one mapped page.\<close>

definition inode :: "'z fs_st_scheme \<Rightarrow> u32 \<Rightarrow> bool" where
  "inode s f \<longleftrightarrow> aligned4 f \<and> unat f mod 4096 + 256 \<le> 4096 \<and> pte_v s (VPN f)"

lemma inode_byte:
  assumes "inode s f" "k < 256"
  shows "unat (f + of_nat k) = unat f + k" "VPN (f + of_nat k) = VPN f"
proof -
  have m: "unat f mod 4096 + k < 4096" using assms by (simp add: inode_def)
  have "unat f + k < 2 ^ 32"
  proof -
    have "unat f div 4096 < 1048576" using unsigned_less [of f, where 'a = nat] by (simp add: less_mult_imp_div_less)
    then have "unat f + k < 4294967296" using m div_mult_mod_eq [of "unat f" 4096] by linarith
    then show ?thesis by simp
  qed
  then show u: "unat (f + of_nat k) = unat f + k" by (rule unat_add_small)
  have "(unat f + k) div 4096 = unat f div 4096"
    using m assms(2) div_add1_eq [of "unat f" k 4096] by simp
  then show "VPN (f + of_nat k) = VPN f" by (simp add: word_unat_eq_iff unat_VPN u)
qed

lemma inode_word:
  assumes "inode s f" "k < 256" "4 dvd k"
  shows "aligned4 (f + of_nat k)" "VPN (f + of_nat k) = VPN f" "ldw (f + of_nat k) s = Some (load32 (vm s) (f + of_nat k))"
    "stw (f + of_nat k) v s = Some (s\<lparr>vm := store32 (vm s) (f + of_nat k) v\<rparr>)"
  using inode_byte [OF assms(1,2)] assms by (simp_all add: inode_def ldw_def stw_def)

lemma loads_inode: "loads s s' \<Longrightarrow> inode s f \<Longrightarrow> inode s' f"
  using loadsD(5) [of s s' f] by (simp add: inode_def)

text \<open>A word of a block as the server sees it.\<close>

definition view32 :: "'z fs_st_scheme \<Rightarrow> u32 \<Rightarrow> nat \<Rightarrow> u32" where
  "view32 s b k = load32 (\<lambda>a. blk_view s b (unat a)) (of_nat k)"

lemma view32_cached:
  assumes "cached s b" "k + 4 \<le> 4096"
  shows "load32 (vm s) (baddr b + of_nat k) = view32 s b k"
proof -
  have "blk_view s b (unat (of_nat k + of_nat j :: u32)) = vm s (baddr b + of_nat k + of_nat j)" if "j < 4" for j
    using assms that by (simp add: blk_view_def blk_cache_def add.assoc unat_of_nat flip: of_nat_add)
  from this [of 0] this [of 1] this [of 2] this [of 3] show ?thesis by (simp add: view32_def load32_def)
qed

lemma view32_loads:
  assumes "loads s s'" "b < MAXBLK" "k + 4 \<le> 4096"
  shows "view32 s' b k = view32 s b k"
proof -
  have "blk_view s' b (unat (of_nat k + of_nat j :: u32)) = blk_view s b (unat (of_nat k + of_nat j :: u32))" if "j < 4" for j
    using assms that by (intro loads_view) (simp_all add: unat_of_nat flip: of_nat_add)
  then show ?thesis unfolding view32_def by (rule load32_cong)
qed

section \<open>The block map\<close>

text \<open>The block that holds block \<open>i\<close> of the file; 0 when there is none.\<close>

definition fblock :: "'z fs_st_scheme \<Rightarrow> u32 \<Rightarrow> u32 \<Rightarrow> u32" where
  "fblock s f i =
     (if i < NDIRECT then load32 (vm s) (f_direct f i)
      else if i < NINDIRECT then
        (let ind = load32 (vm s) (f_indirect f) in if ind = 0 then 0 else view32 s ind (4 * unat i))
      else 0)"

definition block_ok :: "'z fs_st_scheme \<Rightarrow> u32 \<Rightarrow> bool" where
  "block_ok s b \<longleftrightarrow> b < nblocks s \<and> b \<notin> free_blocks s"

lemma block_ok_loads: "fs_ok s \<Longrightarrow> loads s s' \<Longrightarrow> block_ok s' b = block_ok s b"
  using loads_fs_ok(1,2) [of s s'] by (simp add: block_ok_def)

text \<open>The pointer for block \<open>i\<close> can be reached without allocating.\<close>

definition mapped_i :: "'z fs_st_scheme \<Rightarrow> u32 \<Rightarrow> u32 \<Rightarrow> bool" where
  "mapped_i s f i \<longleftrightarrow> inode s f \<and>
     (i < NDIRECT \<or> i < NINDIRECT \<and> load32 (vm s) (f_indirect f) \<noteq> 0 \<and> block_ok s (load32 (vm s) (f_indirect f)))"

lemma direct_offset: "i < NDIRECT \<Longrightarrow> f_direct f i = f + of_nat (136 + 4 * unat i)" for i :: u32
  by (simp add: algebra_simps)

lemma inode_indirect: "inode s f \<Longrightarrow> ldw (f_indirect f) s = Some (load32 (vm s) (f_indirect f))"
  using inode_word(3) [of s f 176] by simp

lemma file_block_walk_ok:
  assumes "fs_ok s" "kalloc s = []" "mapped_i s f i"
  obtains ptr s' where "file_block_walk f i al s = Some (Inr ptr, s')" "loads s s'" "aligned4 ptr"
    "ldw ptr s' = Some (fblock s f i)" "i < NDIRECT \<Longrightarrow> s' = s \<and> ptr = f_direct f i"
proof (cases "i < NDIRECT")
  case True
  have f: "inode s f" using assms(3) by (simp add: mapped_i_def)
  have k: "136 + 4 * unat i < 256" "4 dvd 136 + 4 * unat i" using True by (simp_all add: word_less_nat_alt)
  show thesis using that [of "f_direct f i" s] True inode_word(1,3) [OF f k]
    unfolding direct_offset [OF True] by (simp add: file_block_walk_def fblock_def direct_offset [OF True])
next
  case False
  let ?ind = "load32 (vm s) (f_indirect f)"
  have f: "inode s f" and i: "i < NINDIRECT" "?ind \<noteq> 0" "block_ok s ?ind"
    using assms(3) False by (auto simp: mapped_i_def)
  obtain s' where r: "read_block ?ind s = Some ((baddr ?ind, \<not> cached s ?ind), s')" "loads s s'" "cached s' ?ind"
    using read_block_ok [OF assms(1) _ _ assms(2), of ?ind] i(3) unfolding block_ok_def by metis
  have im: "?ind < MAXBLK" using i(3) fs_okD(7) [OF assms(1)] by (simp add: block_ok_def)
  have o: "4 * i = of_nat (4 * unat i)" "4 * unat i + 4 \<le> 4096" using i(1) by (simp_all add: word_less_nat_alt)
  have p: "VPN (baddr ?ind + 4 * i) = 0x10000 + ?ind" "aligned4 (baddr ?ind + 4 * i)"
    unfolding o(1) using VPN_baddr [of ?ind "4 * unat i"] unat_baddr_add [of ?ind "4 * unat i"] o(2) im by simp_all
  have "ldw (baddr ?ind + 4 * i) s' = Some (fblock s f i)"
    using r(3) p(1) view32_cached [OF r(3) o(2)] view32_loads [OF r(2) im o(2)] False i(1,2)
    by (simp add: ldw_def cached_def fblock_def flip: o(1))
  then show thesis using that [of "baddr ?ind + 4 * i" s'] False i(1,2) r(1,2) p(2) inode_indirect [OF f]
    by (simp add: file_block_walk_def)
qed

text \<open>A block that the file has is found; loading blocks does not change the map.\<close>

lemma fblock_loads:
  assumes "fs_ok s" "loads s s'" "mapped_i s f i"
  shows "fblock s' f i = fblock s f i" "mapped_i s' f i"
proof -
  have f: "inode s f" using assms(3) by (simp add: mapped_i_def)
  have ld: "load32 (vm s') (f + of_nat k) = load32 (vm s) (f + of_nat k)" if "k < 256" "4 dvd k" for k
    using inode_word(1,2) [OF f that] f by (intro loads_load32 [OF assms(2)]) (simp_all add: inode_def)
  have ind: "load32 (vm s') (f_indirect f) = load32 (vm s) (f_indirect f)" using ld [of 176] by simp
  have dir: "load32 (vm s') (f_direct f i) = load32 (vm s) (f_direct f i)" if "i < NDIRECT"
    unfolding direct_offset [OF that] by (rule ld) (use that in \<open>simp_all add: word_less_nat_alt\<close>)
  have "view32 s' b (4 * unat i) = view32 s b (4 * unat i)" if "block_ok s b" "i < NINDIRECT" for b
    using that fs_okD(7) [OF assms(1)] by (intro view32_loads [OF assms(2)]) (simp_all add: block_ok_def word_less_nat_alt)
  then show "fblock s' f i = fblock s f i" using assms(3) by (auto simp: fblock_def ind dir mapped_i_def Let_def)
  show "mapped_i s' f i" using assms(3) loads_inode [OF assms(2)] block_ok_loads [OF assms(1,2)]
    by (auto simp: mapped_i_def ind)
qed

lemma file_map_block_ok:
  assumes "fs_ok s" "kalloc s = []" "mapped_i s f i" "fblock s f i \<noteq> 0"
  obtains s' where "file_map_block f i al s = Some (Inr (fblock s f i), s')" "loads s s'"
proof -
  obtain ptr s' where "file_block_walk f i al s = Some (Inr ptr, s')" "loads s s'" "ldw ptr s' = Some (fblock s f i)"
    by (rule file_block_walk_ok [OF assms(1-3), of al]) blast
  then show thesis using assms(4) that by (simp add: file_map_block_def)
qed

lemma file_get_block_ok:
  assumes "fs_ok s" "kalloc s = []" "mapped_i s f i" "fblock s f i \<noteq> 0" "block_ok s (fblock s f i)"
  obtains s' where "file_get_block f i s = Some (Inr (baddr (fblock s f i)), s')" "loads s s'" "cached s' (fblock s f i)"
proof -
  obtain s1 where s1: "file_map_block f i True s = Some (Inr (fblock s f i), s1)" "loads s s1"
    by (rule file_map_block_ok [OF assms(1-4), of True])
  have "fs_ok s1" "kalloc s1 = []" "fblock s f i < nblocks s1" "fblock s f i \<notin> free_blocks s1"
    using loads_fs_ok [OF s1(2) assms(1)] loadsD(4) [OF s1(2)] assms(2,5) by (simp_all add: block_ok_def)
  from read_block_ok [OF this(1,3,4,2)] obtain s2 where
    "read_block (fblock s f i) s1 = Some ((baddr (fblock s f i), \<not> cached s1 (fblock s f i)), s2)" "loads s1 s2"
    "cached s2 (fblock s f i)" by metis
  then show thesis using s1 that [of s2] loads_trans [OF s1(2)] by (simp add: file_get_block_def)
qed

section \<open>Directory entries\<close>

text \<open>The name of entry \<open>k\<close> of the directory block \<open>b\<close>.\<close>

definition name_is :: "'z fs_st_scheme \<Rightarrow> u8 list \<Rightarrow> u32 \<Rightarrow> nat \<Rightarrow> bool" where
  "name_is s name b k \<longleftrightarrow>
     (\<forall>j<length name. blk_view s b (256 * k + j) = name ! j) \<and> blk_view s b (256 * k + length name) = 0"

lemma ldb_block:
  assumes "cached s b" "b \<le> MAXBLK" "i < 4096"
  shows "ldb (baddr b + of_nat i) s = Some (blk_view s b i)"
  using assms VPN_baddr [OF assms(2,3)] by (simp add: ldb_def blk_view_def blk_cache_def cached_def)

lemma str_eq_block:
  assumes "cached s b" "b \<le> MAXBLK" "i + length name < 4096"
  shows "str_eq name (baddr b + of_nat i) s =
           Some ((\<forall>j<length name. blk_view s b (i + j) = name ! j) \<and> blk_view s b (i + length name) = 0)"
  using assms(3)
proof (induction name arbitrary: i)
  case Nil
  then show ?case using ldb_block [OF assms(1,2), of i] by simp
next
  case (Cons x xs)
  have e: "baddr b + of_nat i + 1 = baddr b + of_nat (Suc i)" by (simp add: algebra_simps)
  show ?case using Cons.IH [of "Suc i"] Cons.prems ldb_block [OF assms(1,2), of i] unfolding str_eq.simps e
    by (auto simp: All_less_Suc2)
qed

definition entry_addr :: "u32 \<Rightarrow> nat \<Rightarrow> u32" where
  "entry_addr b k = baddr b + of_nat (256 * k)"

lemma entries_eq: "entries (baddr b) = map (entry_addr b) [0..<FILE2BLK]"
  by (simp add: entries_def entry_addr_def)

lemma find_entry_block:
  assumes "cached s b" "b \<le> MAXBLK" "length name < MAXNAMELEN" "\<forall>k\<in>set ks. k < FILE2BLK"
  shows "find_entry name (map (entry_addr b) ks) s = Some (map_option (entry_addr b) (find (name_is s name b) ks))"
  using assms(4)
proof (induction ks)
  case (Cons k ks)
  have "str_eq name (entry_addr b k) s = Some (name_is s name b k)"
    using str_eq_block [OF assms(1,2), of "256 * k" name] Cons.prems assms(3) by (simp add: entry_addr_def name_is_def)
  then show ?case using Cons by simp
qed simp

section \<open>Directory lookup\<close>

definition dir_blocks :: "'z fs_st_scheme \<Rightarrow> u32 \<Rightarrow> u32 list" where
  "dir_blocks s dir = upto_w 0 (load32 (vm s) (f_size dir) div BY2BLK)"

text \<open>A directory whose blocks exist, are allocated, and are neither system blocks nor its indirect block.\<close>

definition dblock_ok :: "'z fs_st_scheme \<Rightarrow> u32 \<Rightarrow> u32 \<Rightarrow> bool" where
  "dblock_ok s dir i \<longleftrightarrow> mapped_i s dir i \<and> fblock s dir i \<noteq> 0 \<and> block_ok s (fblock s dir i) \<and>
     nblocks s div BIT2BLK + 2 < fblock s dir i \<and> fblock s dir i \<noteq> load32 (vm s) (f_indirect dir)"

definition dir_ok :: "'z fs_st_scheme \<Rightarrow> u32 \<Rightarrow> bool" where
  "dir_ok s dir \<longleftrightarrow> inode s dir \<and> (\<forall>i\<in>set (dir_blocks s dir). dblock_ok s dir i)"

text \<open>The first entry, in the order of the directory's blocks, that satisfies a predicate.\<close>

fun dir_search :: "(u32 \<Rightarrow> nat \<Rightarrow> bool) \<Rightarrow> 'z fs_st_scheme \<Rightarrow> u32 \<Rightarrow> u32 list \<Rightarrow> (u32 \<times> nat) option" where
  "dir_search P s dir [] = None"
| "dir_search P s dir (i # is) =
     (case find (P (fblock s dir i)) [0..<FILE2BLK] of
        Some k \<Rightarrow> Some (fblock s dir i, k) | None \<Rightarrow> dir_search P s dir is)"

lemma dir_search_cong:
  assumes "\<And>i. i \<in> set is \<Longrightarrow> fblock s' dir i = fblock s dir i"
    "\<And>i k. i \<in> set is \<Longrightarrow> k < FILE2BLK \<Longrightarrow> P' (fblock s dir i) k = P (fblock s dir i) k"
  shows "dir_search P' s' dir is = dir_search P s dir is"
  using assms
proof (induction "is")
  case (Cons i "is")
  have "find (P' (fblock s dir i)) [0..<FILE2BLK] = find (P (fblock s dir i)) [0..<FILE2BLK]"
    by (rule find_cong) (use Cons.prems(2) [of i] in auto)
  then show ?case using Cons.IH Cons.prems by (simp del: upt_Suc cong: option.case_cong)
qed simp

lemma dir_search_some:
  "dir_search P s dir is = Some (b, k) \<Longrightarrow> \<exists>i\<in>set is. b = fblock s dir i \<and> P b k \<and> k < FILE2BLK"
proof (induction "is")
  case (Cons i "is")
  show ?case
  proof (cases "find (P (fblock s dir i)) [0..<FILE2BLK]")
    case None
    then show ?thesis using Cons by (simp del: upt_Suc)
  next
    case (Some j)
    then have "P (fblock s dir i) j \<and> j < FILE2BLK" by (auto simp: find_Some_iff)
    then show ?thesis using Cons.prems Some by (auto simp del: upt_Suc)
  qed
qed simp

lemma dir_search_none:
  "dir_search P s dir is = None \<longleftrightarrow> (\<forall>i\<in>set is. \<forall>k<FILE2BLK. \<not> P (fblock s dir i) k)"
  by (induction "is") (auto simp: find_None_iff simp del: upt_Suc split: option.splits, auto simp: find_Some_iff)

lemma name_is_loads:
  assumes "loads s s'" "b < MAXBLK" "k < FILE2BLK" "length name < MAXNAMELEN"
  shows "name_is s' name b k = name_is s name b k"
proof -
  have "blk_view s' b (256 * k + j) = blk_view s b (256 * k + j)" if "j \<le> length name" for j
    using assms that by (intro loads_view) auto
  then show ?thesis by (simp add: name_is_def)
qed

lemma dblock_ok_loads:
  assumes "fs_ok s" "loads s s'" "dblock_ok s dir i"
  shows "dblock_ok s' dir i" "fblock s' dir i = fblock s dir i"
proof -
  have m: "mapped_i s dir i" using assms(3) by (simp add: dblock_ok_def)
  show f: "fblock s' dir i = fblock s dir i" by (rule fblock_loads(1) [OF assms(1,2) m])
  have "inode s dir" using m by (simp add: mapped_i_def)
  then have "load32 (vm s') (f_indirect dir) = load32 (vm s) (f_indirect dir)"
    using loads_ldw [OF assms(2), of "f_indirect dir"] inode_word(1) [of s dir 176] inode_indirect [of s dir]
      inode_indirect [of s' dir] loads_inode [OF assms(2)] by simp
  then show "dblock_ok s' dir i"
    using assms(3) fblock_loads(2) [OF assms(1,2) m] block_ok_loads [OF assms(1,2)] loads_fs_ok(1) [OF assms(2,1)]
    by (simp add: dblock_ok_def f)
qed

definition set_parent :: "u32 \<Rightarrow> u32 \<Rightarrow> 'z fs_st_scheme \<Rightarrow> 'z fs_st_scheme" where
  "set_parent f dir s = s\<lparr>vm := store32 (vm s) (f_dir f) dir\<rparr>"

lemma entry_inode:
  assumes "cached s b" "b \<le> MAXBLK" "k < FILE2BLK"
  shows "inode s (entry_addr b k)"
proof -
  define c where "c = 0x10000 + unat b"
  have k: "256 * k < 4096" using assms(3) by simp
  have u: "unat (entry_addr b k) = 4096 * c + 256 * k"
    using unat_baddr_add [OF assms(2) k] by (simp add: entry_addr_def c_def)
  have "(4096 * c + 256 * k) mod 4096 = 256 * k" using k by (simp only: mod_mult_self4 mod_less)
  moreover have "4 dvd 4096 * c + 256 * k" by (intro dvd_add dvd_mult2) simp_all
  ultimately show ?thesis using assms(1,3) VPN_baddr [OF assms(2) k]
    unfolding inode_def u by (simp add: entry_addr_def cached_def)
qed

lemma dir_lookup_blocks_ok:
  assumes "fs_ok s" "kalloc s = []" "\<forall>i\<in>set is. dblock_ok s dir i" "length name < MAXNAMELEN"
  shows "\<exists>s'. loads s s' \<and> dir_lookup_blocks dir name is s =
     (case dir_search (name_is s name) s dir is of
        None \<Rightarrow> Some (Inl E_NOT_FOUND, s')
      | Some (b, k) \<Rightarrow> Some (Inr (entry_addr b k), set_parent (entry_addr b k) dir s')) \<and>
     (\<forall>b k. dir_search (name_is s name) s dir is = Some (b, k) \<longrightarrow> cached s' b)"
  using assms
proof (induction "is" arbitrary: s)
  case (Cons i "is")
  let ?b = "fblock s dir i"
  have d: "mapped_i s dir i" "?b \<noteq> 0" "block_ok s ?b" "?b \<le> MAXBLK" "?b < MAXBLK"
    using Cons.prems fs_okD(7) [OF Cons.prems(1)] by (auto simp: dblock_ok_def block_ok_def less_imp_le)
  obtain s1 where s1: "file_get_block dir i s = Some (Inr (baddr ?b), s1)" "loads s s1" "cached s1 ?b"
    by (rule file_get_block_ok [OF Cons.prems(1,2) d(1-3)])
  have same: "find (name_is s1 name ?b) [0..<FILE2BLK] = find (name_is s name ?b) [0..<FILE2BLK]"
    using name_is_loads [OF s1(2) d(5)] Cons.prems(4) by (intro find_cong) auto
  have fe: "find_entry name (entries (baddr ?b)) s1 = Some (map_option (entry_addr ?b) (find (name_is s name ?b) [0..<FILE2BLK]))"
    unfolding entries_eq using find_entry_block [OF s1(3) d(4) Cons.prems(4), of "[0..<FILE2BLK]"] same by simp
  show ?case
  proof (cases "find (name_is s name ?b) [0..<FILE2BLK]")
    case None
    have b1: "\<forall>j\<in>set is. dblock_ok s1 dir j" "\<And>j. j \<in> set is \<Longrightarrow> fblock s1 dir j = fblock s dir j"
      using dblock_ok_loads [OF Cons.prems(1) s1(2)] Cons.prems(3) by auto
    have "dir_search (name_is s1 name) s1 dir is = dir_search (name_is s name) s dir is"
      using b1(2) name_is_loads [OF s1(2)] Cons.prems(3,4) fs_okD(7) [OF Cons.prems(1)]
      by (intro dir_search_cong) (auto simp: dblock_ok_def block_ok_def)
    moreover obtain s2 where "loads s1 s2" "dir_lookup_blocks dir name is s1 =
       (case dir_search (name_is s1 name) s1 dir is of
          None \<Rightarrow> Some (Inl E_NOT_FOUND, s2)
        | Some (b, k) \<Rightarrow> Some (Inr (entry_addr b k), set_parent (entry_addr b k) dir s2))"
        "\<forall>b k. dir_search (name_is s1 name) s1 dir is = Some (b, k) \<longrightarrow> cached s2 b"
      using Cons.IH [of s1] loads_fs_ok(3) [OF s1(2) Cons.prems(1)] loadsD(4) [OF s1(2)] Cons.prems(2,4) b1(1) by auto
    ultimately show ?thesis using None s1(1) fe loads_trans [OF s1(2)] by (intro exI [of _ s2]) (simp del: upt_Suc)
  next
    case (Some k)
    then have "k < FILE2BLK" by (auto simp: find_Some_iff)
    then have "stw (f_dir (entry_addr ?b k)) dir s1 = Some (set_parent (entry_addr ?b k) dir s1)"
      using inode_word(4) [OF entry_inode [OF s1(3) d(4)], of k 180 dir] by (simp add: set_parent_def)
    then show ?thesis using Some s1 fe by (intro exI [of _ s1]) (simp del: upt_Suc)
  qed
qed auto

section \<open>Recycled blocks\<close>

text \<open>The first block beyond the direct ones: \<open>file_block_walk\<close> allocates the indirect block and uses it as it is.\<close>

lemma recycled_indirect:
  assumes ok: "fs_ok s" "kalloc s = []" and b: "free_blocks s \<noteq> {}" "b = Min (free_blocks s)" "cached s b"
    and f: "c < nblocks s" "nblocks s div BIT2BLK + 2 < c" "c \<noteq> b" "cached s c" "f = entry_addr c l" "l < FILE2BLK"
    and i: "\<not> i < NDIRECT" "i < NINDIRECT" "load32 (vm s) (f_indirect f) = 0"
    and v: "view32 s b (4 * unat i) \<noteq> 0"
  shows "\<exists>s'. file_map_block f i True s = Some (Inr (view32 s b (4 * unat i)), s')"
proof -
  have bf: "b \<in> free_blocks s" using Min_free [OF b(1)] b(2) by simp
  have bm: "b < nblocks s" "nblocks s div BIT2BLK + 2 < b" "b < MAXBLK" "c < MAXBLK"
    using free_less [OF bf] fs_okD(6) [OF ok(1) bf] fs_okD(7) [OF ok(1)] f(1) by auto
  define t where "t = take_block b s"
  note tf = take_block_facts [OF ok(1) bm(1), folded t_def]
  have al: "alloc_block s = Some (Inr b, t)"
    using alloc_block_ok [OF ok] b by (simp add: alloc_state_def t_def)
  have ino: "inode s f" "inode t f" using entry_inode [of s c l] entry_inode [of t c l] f tf(4) bm(4) by simp_all
  have fv: "VPN f = 0x10000 + c" using VPN_baddr [of c "256 * l"] f(5,6) bm(4) by (simp add: entry_addr_def)
  define u where "u = t\<lparr>vm := store32 (vm t) (f_indirect f) b\<rparr>"
  have ia: "aligned4 (f_indirect f)" "VPN (f_indirect f) = 0x10000 + c" using inode_word(1,2) [OF ino(1), of 176] fv by simp_all
  have st: "stw (f_indirect f) b t = Some u" using inode_word(4) [OF ino(2), of 176 b] by (simp add: u_def)
  have pg: "vm u a = vm t a" if "VPN a \<noteq> 0x10000 + c" for a
    using that ia by (simp add: u_def store32_page)
  have cu: "cached u = cached s" using tf(4) by (simp add: u_def cached_def [abs_def])
  have okc: "nblocks t div BIT2BLK + 2 < c" "c \<le> MAXBLK" using f(2) tf(3) bm(4) by simp_all
  have sm: "super u = super t" "bitmap u = bitmap t" "\<And>x. x \<noteq> c \<Longrightarrow> cached t x \<Longrightarrow> cached u x"
    by (simp_all add: u_def cached_def)
  note fu = fs_ok_frame [OF tf(2) sm(1,2) pg sm(3) okc]
  have ku: "kalloc u = []" using tf(6) ok(2) by (simp add: u_def)
  have ld: "ldw (f_indirect f) u = Some b"
    using ino(2) ia inode_word(2) [OF ino(1), of 176] by (simp add: ldw_def u_def inode_def fv)
  have rd: "read_block b u = Some ((baddr b, False), u)"
    using read_block_ok [OF fu(3), of b] fu(1,2) tf(1,3) bm(1) ku cu b(3) by (metis Diff_iff insertI1)
  have o: "4 * i = of_nat (4 * unat i)" "4 * unat i + 4 \<le> 4096" using i(2) by (simp_all add: word_less_nat_alt)
  have pv: "VPN (baddr b + 4 * i) = 0x10000 + b" "aligned4 (baddr b + 4 * i)"
    unfolding o(1) using VPN_baddr [of b "4 * unat i"] unat_baddr_add [of b "4 * unat i"] o(2) bm(3) by simp_all
  have nb: "b div BIT2BLK + 2 \<noteq> b"
  proof -
    have "unat (b div BIT2BLK + 2) \<le> unat (nblocks s div BIT2BLK + 2)"
      using bm fs_okD(4) [OF ok(1)]
      by (simp add: unat_word_ariths unat_div word_le_nat_alt word_less_nat_alt div_le_mono)
    then show ?thesis using bm(2) by (auto simp: word_less_nat_alt)
  qed
  have "load32 (vm u) (baddr b + 4 * i) = load32 (vm s) (baddr b + 4 * i)"
    using pv VPN_word [OF pv(2)] pg tf(7) f(3) nb by (intro load32_cong) (simp add: add.commute)
  moreover have "pte_v u (0x10000 + b)" using b(3) unfolding cu [symmetric] cached_def .
  ultimately have lp: "ldw (baddr b + 4 * i) u = Some (view32 s b (4 * unat i))"
    using view32_cached [OF b(3) o(2)] pv(1) by (simp add: ldw_def flip: o(1))
  have "file_block_walk f i True s = Some (Inr (baddr b + 4 * i), u)"
    using i al st ld rd inode_indirect [OF ino(1)] by (simp add: file_block_walk_def)
  then show ?thesis using lp v by (simp add: file_map_block_def)
qed

section \<open>Properties\<close>

text \<open>
  C30 (fs_sync_durable). After \<open>fs_sync\<close> every block that is cached and dirty is on the disk as it is in the cache, every other block of the
  disk is what it was, and the server's memory has not changed.
\<close>

theorem fs_sync_durable:
  assumes "fs_ok s"
  shows "\<exists>d. fs_sync s = Some (s\<lparr>disk := d\<rparr>) \<and>
    (\<forall>b i. i < 4096 \<longrightarrow> blk_disk (s\<lparr>disk := d\<rparr>) b i =
       (if b < nblocks s \<and> cached s b \<and> pte_dirty s (0x10000 + b) then blk_cache s b i else blk_disk s b i))"
proof -
  obtain d where "fs_sync s = Some (s\<lparr>disk := d\<rparr>)"
    "\<forall>c i. i < 4096 \<longrightarrow> d (4096 * unat c + i) =
        (if c < nblocks s \<and> cached s c \<and> pte_dirty s (0x10000 + c) then blk_cache s c i else blk_disk s c i)"
    by (rule fs_sync_ok [OF assms])
  then show ?thesis by (intro exI [of _ d]) (simp add: blk_disk_def)
qed

theorem fs_sync_durable_witness:
  "\<exists>d. fs_sync small_fs = Some (small_fs\<lparr>disk := d\<rparr>) \<and> blk_disk (small_fs\<lparr>disk := d\<rparr>) 7 9 = blk_cache small_fs 7 9"
proof -
  obtain d where "fs_sync small_fs = Some (small_fs\<lparr>disk := d\<rparr>)" and
    d: "\<forall>b i. i < 4096 \<longrightarrow> blk_disk (small_fs\<lparr>disk := d\<rparr>) b i =
       (if b < nblocks small_fs \<and> cached small_fs b \<and> pte_dirty small_fs (0x10000 + b)
        then blk_cache small_fs b i else blk_disk small_fs b i)"
    using fs_sync_durable [OF small_fs_ok] by blast
  moreover have "blk_disk (small_fs\<lparr>disk := d\<rparr>) 7 9 = blk_cache small_fs 7 9"
    using d [THEN spec, of 7, THEN spec, of 9] by (simp add: small_fs_nblocks) (simp add: small_fs_def)
  ultimately show ?thesis by blast
qed

text \<open>
  C37 (fs_recycled_indirect_block). A block that was freed stays in the cache with its old contents, and \<open>file_block_walk\<close> uses a newly allocated indirect
  block without clearing it: growing a file past its direct blocks then returns whatever block number
  the recycled block happens to hold at that place, instead of allocating a block for the file.
\<close>

theorem fs_recycled_indirect_block:
  assumes "fs_ok s" "kalloc s = []" "free_blocks s \<noteq> {}" "b = Min (free_blocks s)" "cached s b"
    and "c < nblocks s" "nblocks s div BIT2BLK + 2 < c" "c \<noteq> b" "cached s c" "f = entry_addr c l" "l < FILE2BLK"
    and "\<not> i < NDIRECT" "i < NINDIRECT" "load32 (vm s) (f_indirect f) = 0"
    and "view32 s b (4 * unat i) \<noteq> 0"
  shows "\<exists>s'. file_map_block f i True s = Some (Inr (view32 s b (4 * unat i)), s')"
  using recycled_indirect [OF assms] .

text \<open>Block 3 of \<open>small_fs\<close> is free, cached, and holds the number 7 at position 10.\<close>

definition recycled_fs :: "unit fs_st_scheme" where
  "recycled_fs = small_fs\<lparr>vm := store32 (vm small_fs) (baddr 3 + 40) 7, pte_v := (pte_v small_fs)(0x10003 := True)\<rparr>"

lemma recycled_fs_facts:
  "fs_ok recycled_fs" "nblocks recycled_fs = 8" "free_blocks recycled_fs = {3, 4, 5, 6}" "kalloc recycled_fs = []"
  "cached recycled_fs 3" "cached recycled_fs 7" "Min (free_blocks recycled_fs) = 3" "view32 recycled_fs 3 40 = 7"
  "load32 (vm recycled_fs) (f_indirect (entry_addr 7 0)) = 0"
proof -
  have a: "aligned4 (baddr 3 + 40)" "VPN (baddr 3 + 40) = 0x10000 + 3"
    using unat_baddr_add [of 3 40] VPN_baddr [of 3 40] by simp_all
  have fr: "VPN x \<noteq> 0x10000 + 3 \<Longrightarrow> vm recycled_fs x = vm small_fs x" for x
    using a by (simp add: recycled_fs_def store32_page)
  have ca: "cached small_fs x \<Longrightarrow> cached recycled_fs x" for x by (simp add: recycled_fs_def cached_def)
  have "nblocks small_fs div BIT2BLK + 2 < 3" "(3 :: u32) \<le> MAXBLK"
    by (simp_all add: small_fs_nblocks word_less_nat_alt)
  note f = fs_ok_frame [OF small_fs_ok _ _ fr ca this]
  show "fs_ok recycled_fs" "nblocks recycled_fs = 8" "free_blocks recycled_fs = {3, 4, 5, 6}"
    using f small_fs_nblocks small_fs_free by (simp_all add: recycled_fs_def)
  then show "Min (free_blocks recycled_fs) = 3" by (intro Min_eqI) (auto simp: word_le_nat_alt)
  show c3: "cached recycled_fs 3" and "cached recycled_fs 7" "kalloc recycled_fs = []"
    by (simp_all add: recycled_fs_def small_fs_def cached_def)
  show "view32 recycled_fs 3 40 = 7" using view32_cached [OF c3, of 40] by (simp add: recycled_fs_def)
  have "VPN 0x10001004 = 0x10001" "VPN 0x10002000 = 0x10002" "VPN 0x10003028 = 0x10003" "VPN 0x100070B0 = 0x10007"
    "VPN 0x100070B1 = 0x10007" "VPN 0x100070B2 = 0x10007" "VPN 0x100070B3 = 0x10007" by (simp_all add: VPN_div)
  then show "load32 (vm recycled_fs) (f_indirect (entry_addr 7 0)) = 0"
    by (simp add: entry_addr_def baddr_def recycled_fs_def small_fs_def load32_def store32_page)
qed

theorem fs_recycled_indirect_block_witness:
  "\<exists>s'. file_map_block (entry_addr 7 0) 10 True recycled_fs = Some (Inr 7, s')"
proof -
  have "\<exists>s'. file_map_block (entry_addr 7 0) 10 True recycled_fs = Some (Inr (view32 recycled_fs 3 (4 * unat (10 :: u32))), s')"
    by (rule fs_recycled_indirect_block [where c = 7 and l = 0])
       (simp_all add: recycled_fs_facts [simplified] word_less_nat_alt recycled_fs_facts)
  then show ?thesis using recycled_fs_facts(8) by simp
qed

end
