(* ===== verification/FsDir.thy ===== *)
theory FsDir
  imports FsProps
begin

text \<open>
  Directories as maps from names to entries: \<open>dir_lookup\<close> finds the first entry of a name, \<open>file_create\<close> adds the name at the
  first free entry, and a following \<open>file_open\<close> finds it there while every other name keeps its entry.
\<close>

section \<open>Lookup\<close>

definition lookup :: "'z fs_st_scheme \<Rightarrow> u32 \<Rightarrow> u8 list \<Rightarrow> (u32 \<times> nat) option" where
  "lookup s dir name = dir_search (name_is s name) s dir (dir_blocks s dir)"

lemma inode_size: "inode s f \<Longrightarrow> ldw (f_size f) s = Some (load32 (vm s) (f_size f))"
  and inode_type: "inode s f \<Longrightarrow> ldw (f_type f) s = Some (load32 (vm s) (f_type f))"
  using inode_word(3) [of s f 128] inode_word(3) [of s f 132] by simp_all

lemma dir_lookup_ok:
  assumes "fs_ok s" "kalloc s = []" "dir_ok s dir" "length name < MAXNAMELEN"
  shows "\<exists>s'. loads s s' \<and> dir_lookup dir name s =
     (case lookup s dir name of
        None \<Rightarrow> Some (Inl E_NOT_FOUND, s')
      | Some (b, k) \<Rightarrow> Some (Inr (entry_addr b k), set_parent (entry_addr b k) dir s')) \<and>
     (\<forall>b k. lookup s dir name = Some (b, k) \<longrightarrow> cached s' b)"
  using dir_lookup_blocks_ok [OF assms(1,2) _ assms(4), of "dir_blocks s dir" dir] assms(3)
  by (simp add: dir_ok_def dir_lookup_def inode_size lookup_def dir_blocks_def)

text \<open>Loading blocks changes no lookup.\<close>

lemma loads_field:
  assumes "loads s s'" "inode s f" "k < 256" "4 dvd k"
  shows "load32 (vm s') (f + of_nat k) = load32 (vm s) (f + of_nat k)"
  using inode_word(1,2) [OF assms(2-4)] assms(2) by (intro loads_load32 [OF assms(1)]) (simp_all add: inode_def)

lemma dir_blocks_loads: "loads s s' \<Longrightarrow> inode s dir \<Longrightarrow> dir_blocks s' dir = dir_blocks s dir"
  using loads_field [of s s' dir 128] by (simp add: dir_blocks_def)

lemma dir_ok_loads:
  assumes "fs_ok s" "loads s s'" "dir_ok s dir"
  shows "dir_ok s' dir"
  using assms dir_blocks_loads [OF assms(2), of dir] loads_inode [OF assms(2), of dir] dblock_ok_loads(1) [OF assms(1,2), of dir]
  by (simp add: dir_ok_def)

lemma dir_search_loads:
  assumes "fs_ok s" "loads s s'" "dir_ok s dir"
    and P: "\<And>b k. b < MAXBLK \<Longrightarrow> k < FILE2BLK \<Longrightarrow> P' b k = P b k"
  shows "dir_search P' s' dir (dir_blocks s' dir) = dir_search P s dir (dir_blocks s dir)"
proof -
  have "dir_blocks s' dir = dir_blocks s dir" using assms(3) dir_blocks_loads [OF assms(2)] by (simp add: dir_ok_def)
  moreover have "fblock s' dir i = fblock s dir i" "fblock s dir i < MAXBLK" if "i \<in> set (dir_blocks s dir)" for i
    using that assms(3) dblock_ok_loads(2) [OF assms(1,2)] fs_okD(7) [OF assms(1)]
    by (auto simp: dir_ok_def dblock_ok_def block_ok_def)
  ultimately show ?thesis using P by (auto intro!: dir_search_cong)
qed

lemma lookup_loads:
  assumes "fs_ok s" "loads s s'" "dir_ok s dir" "length name < MAXNAMELEN"
  shows "lookup s' dir name = lookup s dir name"
  unfolding lookup_def using name_is_loads [OF assms(2) _ _ assms(4)] by (intro dir_search_loads [OF assms(1-3)]) auto

section \<open>Paths of one component\<close>

definition name_ok :: "u8 list \<Rightarrow> bool" where
  "name_ok name \<longleftrightarrow> name \<noteq> [] \<and> length name < MAXNAMELEN \<and> 0 \<notin> set name \<and> slash \<notin> set name"

abbreviation root :: "'z fs_st_scheme \<Rightarrow> u32" where
  "root s \<equiv> s_root (super s)"

lemma walk_name:
  assumes "name_ok name" "inode s (root s)" "load32 (vm s) (f_type (root s)) = FTYPE_DIR"
  shows "walk_path (slash # name) s =
    do { (r, s') \<leftarrow> dir_lookup (root s) name s;
         Some (case r of
            Inl e \<Rightarrow> (if e = E_NOT_FOUND then \<lparr>w_ret = Inl e, w_pfile = 0, w_pdir = root s, w_last = Some name\<rparr> else walk_fail e, s')
          | Inr f \<Rightarrow> (\<lparr>w_ret = Inr (), w_pfile = f, w_pdir = root s, w_last = None\<rparr>, s')) }"
proof -
  have n: "skip_slash (slash # name) = name" "takeWhile (\<lambda>c. c \<noteq> slash) name = name" "dropWhile (\<lambda>c. c \<noteq> slash) name = []"
    using assms(1) by (auto simp: name_ok_def skip_slash_def takeWhile_eq_all_conv dropWhile_eq_Nil_conv)
      (metis dropWhile_eq_self_iff list.set_sel(1))
  have e: "skip_slash [] = []" by (simp add: skip_slash_def)
  show ?thesis using assms inode_type [OF assms(2)] unfolding walk_path_def n(1)
    by (subst walk_loop.simps, cases "dir_lookup (root s) name s")
       (auto simp: n(2,3) e name_ok_def Let_def walk_loop.simps [of "[]"] split: sum.splits)
qed

lemma root_inode: "fs_ok s \<Longrightarrow> inode s (root s)"
  using fs_okD(1,3) [of s] unat_baddr_add [of 1 8] VPN_super(2) by (simp add: inode_def cached_def)

section \<open>Finding a free entry\<close>

definition is_free_entry :: "'z fs_st_scheme \<Rightarrow> u32 \<Rightarrow> nat \<Rightarrow> bool" where
  "is_free_entry s b k \<longleftrightarrow> blk_view s b (256 * k) = 0"

definition free_entry :: "'z fs_st_scheme \<Rightarrow> u32 \<Rightarrow> (u32 \<times> nat) option" where
  "free_entry s dir = dir_search (is_free_entry s) s dir (dir_blocks s dir)"

lemma find_free_entry_block:
  assumes "cached s b" "b \<le> MAXBLK" "\<forall>k\<in>set ks. k < FILE2BLK"
  shows "find_free_entry (map (entry_addr b) ks) s = Some (map_option (entry_addr b) (find (is_free_entry s b) ks))"
  using assms(3)
proof (induction ks)
  case (Cons k ks)
  have "ldb (entry_addr b k) s = Some (blk_view s b (256 * k))"
    using ldb_block [OF assms(1,2), of "256 * k"] Cons.prems by (simp add: entry_addr_def)
  then show ?case using Cons by (simp add: is_free_entry_def)
qed simp

lemma is_free_entry_loads: "loads s s' \<Longrightarrow> b < MAXBLK \<Longrightarrow> k < FILE2BLK \<Longrightarrow> is_free_entry s' b k = is_free_entry s b k"
  using loads_view [of s s' b "256 * k"] by (simp add: is_free_entry_def)

lemma dir_alloc_blocks_ok:
  assumes "fs_ok s" "kalloc s = []" "\<forall>i\<in>set is. dblock_ok s dir i"
  shows "\<exists>s'. loads s s' \<and> dir_alloc_blocks dir is s =
     Some (Inr (map_option (\<lambda>(b, k). entry_addr b k) (dir_search (is_free_entry s) s dir is)), s') \<and>
     (\<forall>b k. dir_search (is_free_entry s) s dir is = Some (b, k) \<longrightarrow> cached s' b)"
  using assms
proof (induction "is" arbitrary: s)
  case Nil
  then show ?case by (intro exI [of _ s]) simp
next
  case (Cons i "is")
  let ?b = "fblock s dir i"
  have d: "mapped_i s dir i" "?b \<noteq> 0" "block_ok s ?b" "?b \<le> MAXBLK" "?b < MAXBLK"
    using Cons.prems fs_okD(7) [OF Cons.prems(1)] by (auto simp: dblock_ok_def block_ok_def less_imp_le)
  obtain s1 where s1: "file_get_block dir i s = Some (Inr (baddr ?b), s1)" "loads s s1" "cached s1 ?b"
    by (rule file_get_block_ok [OF Cons.prems(1,2) d(1-3)])
  have "find (is_free_entry s1 ?b) [0..<FILE2BLK] = find (is_free_entry s ?b) [0..<FILE2BLK]"
    using is_free_entry_loads [OF s1(2) d(5)] by (intro find_cong) auto
  then have fe: "find_free_entry (entries (baddr ?b)) s1 = Some (map_option (entry_addr ?b) (find (is_free_entry s ?b) [0..<FILE2BLK]))"
    unfolding entries_eq using find_free_entry_block [OF s1(3) d(4), of "[0..<FILE2BLK]"] by simp
  show ?case
  proof (cases "find (is_free_entry s ?b) [0..<FILE2BLK]")
    case None
    have b1: "\<forall>j\<in>set is. dblock_ok s1 dir j" "\<And>j. j \<in> set is \<Longrightarrow> fblock s1 dir j = fblock s dir j"
      using dblock_ok_loads [OF Cons.prems(1) s1(2)] Cons.prems(3) by auto
    have sr: "dir_search (is_free_entry s1) s1 dir is = dir_search (is_free_entry s) s dir is"
      using b1(2) is_free_entry_loads [OF s1(2)] Cons.prems(3) fs_okD(7) [OF Cons.prems(1)]
      by (intro dir_search_cong) (auto simp: dblock_ok_def block_ok_def)
    obtain s2 where "loads s1 s2" "dir_alloc_blocks dir is s1 =
       Some (Inr (map_option (\<lambda>(b, k). entry_addr b k) (dir_search (is_free_entry s) s dir is)), s2)"
       "\<forall>b k. dir_search (is_free_entry s) s dir is = Some (b, k) \<longrightarrow> cached s2 b"
      using Cons.IH [of s1] loads_fs_ok(3) [OF s1(2) Cons.prems(1)] loadsD(4) [OF s1(2)] Cons.prems(2) b1(1)
      unfolding sr by auto
    then show ?thesis using None s1(1) fe loads_trans [OF s1(2)] by (intro exI [of _ s2]) (simp del: upt_Suc)
  next
    case (Some k)
    then show ?thesis using s1 fe by (intro exI [of _ s1]) (simp del: upt_Suc)
  qed
qed

section \<open>Writing a name\<close>

text \<open>\<open>strcpy(f->f_name, name)\<close> at entry \<open>k\<close> of block \<open>b\<close>.\<close>

lemma put_str_block:
  assumes "cached s b" "b \<le> MAXBLK" "i + length name < 4096"
  shows "\<exists>s'. put_str (baddr b + of_nat i) name s = Some s' \<and> s' = s\<lparr>vm := vm s'\<rparr> \<and>
     (\<forall>a. VPN a \<noteq> 0x10000 + b \<longrightarrow> vm s' a = vm s a) \<and>
     (\<forall>j<4096. blk_cache s' b j = (if i \<le> j \<and> j < i + length name then name ! (j - i)
                                   else if j = i + length name then 0 else blk_cache s b j))"
  using assms(1,3)
proof (induction name arbitrary: i s)
  case Nil
  have inj: "baddr b + of_nat j = baddr b + of_nat i \<longleftrightarrow> j = i" if "j < 4096" for j
    using unat_baddr_add [OF assms(2) that] unat_baddr_add [OF assms(2), of i] Nil.prems(2) by (auto simp: word_unat_eq_iff)
  have v: "VPN (baddr b + of_nat i) = 0x10000 + b" using VPN_baddr [OF assms(2)] Nil.prems(2) by simp
  show ?case using Nil.prems v inj
    by (auto simp: stb_def cached_def blk_cache_def)
next
  case (Cons x xs)
  have inj: "baddr b + of_nat j = baddr b + of_nat i \<longleftrightarrow> j = i" if "j < 4096" for j
    using unat_baddr_add [OF assms(2) that] unat_baddr_add [OF assms(2), of i] Cons.prems(2) by (auto simp: word_unat_eq_iff)
  have v: "VPN (baddr b + of_nat i) = 0x10000 + b" using VPN_baddr [OF assms(2)] Cons.prems(2) by simp
  define t where "t = s\<lparr>vm := (vm s)(baddr b + of_nat i := x)\<rparr>"
  have t: "stb (baddr b + of_nat i) x s = Some t" "cached t b" "\<And>a. VPN a \<noteq> 0x10000 + b \<Longrightarrow> vm t a = vm s a"
    "\<And>j. j < 4096 \<Longrightarrow> blk_cache t b j = (if j = i then x else blk_cache s b j)"
    using Cons.prems(1) v inj by (auto simp: stb_def t_def cached_def blk_cache_def)
  have e: "baddr b + of_nat i + 1 = baddr b + of_nat (Suc i)" by (simp add: algebra_simps)
  obtain s' where s': "put_str (baddr b + of_nat (Suc i)) xs t = Some s'" "s' = t\<lparr>vm := vm s'\<rparr>"
    "\<And>a. VPN a \<noteq> 0x10000 + b \<Longrightarrow> vm s' a = vm t a"
    "\<And>j. j < 4096 \<Longrightarrow> blk_cache s' b j = (if Suc i \<le> j \<and> j < Suc i + length xs then xs ! (j - Suc i)
                                   else if j = Suc i + length xs then 0 else blk_cache t b j)"
    using Cons.IH [OF t(2), of "Suc i"] Cons.prems(2) by auto
  have "s' = s\<lparr>vm := vm s'\<rparr>" using s'(2) by (simp add: t_def)
  moreover have "blk_cache s' b j = (if i \<le> j \<and> j < i + length (x # xs) then (x # xs) ! (j - i)
                   else if j = i + length (x # xs) then 0 else blk_cache s b j)" if "j < 4096" for j
    using s'(4) [OF that] t(4) [OF that] by (auto simp: nth_Cons' Suc_le_eq)
  ultimately show ?case using t(1) s'(1,3) t(3) by (intro exI [of _ s']) (simp add: e del: of_nat_Suc)
qed

lemma name_is_iff: "name_is s name b k \<longleftrightarrow> (\<forall>j\<le>length name. blk_view s b (256 * k + j) = (name @ [0]) ! j)"
  by (auto simp: name_is_def nth_append le_less)

text \<open>What a directory shows after a name has been written into a free entry of one of its blocks.\<close>

lemma name_is_unique:
  assumes "name_is s m b k" "name_is s n b k" "0 \<notin> set m" "0 \<notin> set n"
  shows "m = n"
proof -
  have le: "length x \<le> length y" if "name_is s x b k" "name_is s y b k" "0 \<notin> set x" for x y
  proof (rule ccontr)
    assume "\<not> length x \<le> length y"
    then have "length y < length x" by simp
    then have "blk_view s b (256 * k + length y) = x ! length y" "x ! length y \<noteq> 0"
      using that nth_mem [of "length y" x] by (auto simp: name_is_def)
    then show False using that(2) by (simp add: name_is_def)
  qed
  have "length m = length n" using le [OF assms(1,2,3)] le [OF assms(2,1,4)] by simp
  then show ?thesis using assms by (intro nth_equalityI) (auto simp: name_is_def)
qed

section \<open>A write into one directory block\<close>

definition page_write :: "u32 \<Rightarrow> 'z fs_st_scheme \<Rightarrow> 'z fs_st_scheme \<Rightarrow> bool" where
  "page_write b s s' \<longleftrightarrow> s' = s\<lparr>vm := vm s'\<rparr> \<and> (\<forall>a. VPN a \<noteq> 0x10000 + b \<longrightarrow> vm s' a = vm s a)"

lemma page_writeD:
  assumes "page_write b s s'"
  shows "super s' = super s" "bitmap s' = bitmap s" "disk s' = disk s" "kalloc s' = kalloc s" "pte_v s' = pte_v s"
    "cached s' = cached s" "VPN a \<noteq> 0x10000 + b \<Longrightarrow> vm s' a = vm s a"
proof -
  have e: "s' = s\<lparr>vm := vm s'\<rparr>" using assms unfolding page_write_def by (rule conjunct1)
  show "super s' = super s" "bitmap s' = bitmap s" "disk s' = disk s" "kalloc s' = kalloc s" "pte_v s' = pte_v s"
    by (subst e, simp)+
  then show "cached s' = cached s" by (simp add: cached_def [abs_def])
  show "VPN a \<noteq> 0x10000 + b \<Longrightarrow> vm s' a = vm s a" using assms unfolding page_write_def by blast
qed

lemma page_write_view:
  assumes "page_write b s s'" "c \<le> MAXBLK" "c \<noteq> b" "i < 4096"
  shows "blk_view s' c i = blk_view s c i"
  using page_writeD [OF assms(1)] VPN_baddr [OF assms(2,4)] assms(3)
  by (simp add: blk_view_def blk_cache_def blk_disk_def)

lemma page_write_load32: "page_write b s s' \<Longrightarrow> aligned4 a \<Longrightarrow> VPN a \<noteq> 0x10000 + b \<Longrightarrow> load32 (vm s') a = load32 (vm s) a"
  using page_writeD(7) [of b s s'] VPN_word [of a] by (intro load32_cong) simp

lemma page_write_view32:
  assumes "page_write b s s'" "c \<le> MAXBLK" "c \<noteq> b" "k + 4 \<le> 4096"
  shows "view32 s' c k = view32 s c k"
proof -
  have "blk_view s' c (unat (of_nat k + of_nat j :: u32)) = blk_view s c (unat (of_nat k + of_nat j :: u32))" if "j < 4" for j
    using assms that by (intro page_write_view) (simp_all add: unat_of_nat flip: of_nat_add)
  then show ?thesis unfolding view32_def by (rule load32_cong)
qed

lemma page_write_ok:
  assumes "page_write b s s'" "fs_ok s" "nblocks s div BIT2BLK + 2 < b" "b < MAXBLK"
  shows "fs_ok s'" "nblocks s' = nblocks s" "free_blocks s' = free_blocks s" "block_ok s' c = block_ok s c"
  using fs_ok_frame [OF assms(2) page_writeD(1,2) [OF assms(1)] page_writeD(7) [OF assms(1)] _ assms(3)]
    page_writeD(6) [OF assms(1)] assms(4) by (auto simp: block_ok_def)

text \<open>The block map of a directory in another page, whose indirect block is not the one written.\<close>

lemma page_write_dir:
  assumes w: "page_write b s s'" and ok: "fs_ok s" and b: "nblocks s div BIT2BLK + 2 < b" "b < MAXBLK"
    and d: "dir_ok s dir" "VPN dir \<noteq> 0x10000 + b" "load32 (vm s) (f_indirect dir) \<noteq> b"
  shows "inode s' dir" "dir_blocks s' dir = dir_blocks s dir" "load32 (vm s') (f_type dir) = load32 (vm s) (f_type dir)"
    "i \<in> set (dir_blocks s dir) \<Longrightarrow> fblock s' dir i = fblock s dir i" "dir_ok s' dir"
proof -
  have ino: "inode s dir" using d(1) by (simp add: dir_ok_def)
  then show ino': "inode s' dir" using page_writeD(5) [OF w] by (simp add: inode_def)
  have ld: "load32 (vm s') (dir + of_nat k) = load32 (vm s) (dir + of_nat k)" if "k < 256" "4 dvd k" for k
    using inode_word(1,2) [OF ino that] d(2) by (intro page_write_load32 [OF w]) simp_all
  show db: "dir_blocks s' dir = dir_blocks s dir" using ld [of 128] by (simp add: dir_blocks_def)
  show "load32 (vm s') (f_type dir) = load32 (vm s) (f_type dir)" using ld [of 132] by simp
  have ind: "load32 (vm s') (f_indirect dir) = load32 (vm s) (f_indirect dir)" using ld [of 176] by simp
  have fb: "fblock s' dir i = fblock s dir i \<and> dblock_ok s' dir i" if i: "i \<in> set (dir_blocks s dir)" for i
  proof -
    have di: "dblock_ok s dir i" using d(1) i by (simp add: dir_ok_def)
    then have m: "mapped_i s dir i" by (simp add: dblock_ok_def)
    have "load32 (vm s') (f_direct dir i) = load32 (vm s) (f_direct dir i)" if "i < NDIRECT"
      unfolding direct_offset [OF that] by (rule ld) (use that in \<open>simp_all add: word_less_nat_alt\<close>)
    moreover have "view32 s' (load32 (vm s) (f_indirect dir)) (4 * unat i) = view32 s (load32 (vm s) (f_indirect dir)) (4 * unat i)"
      if "\<not> i < NDIRECT"
    proof (rule page_write_view32 [OF w])
      show "load32 (vm s) (f_indirect dir) \<le> MAXBLK"
        using m that fs_okD(7) [OF ok] by (auto simp: mapped_i_def block_ok_def less_imp_le)
      show "4 * unat i + 4 \<le> 4096" using m that by (auto simp: mapped_i_def word_less_nat_alt)
    qed (rule d(3))
    ultimately have f: "fblock s' dir i = fblock s dir i" by (simp add: fblock_def ind Let_def)
    moreover have "dblock_ok s' dir i" using di page_write_ok [OF w ok b] ino'
      by (auto simp: dblock_ok_def f ind mapped_i_def)
    ultimately show ?thesis by simp
  qed
  then show "i \<in> set (dir_blocks s dir) \<Longrightarrow> fblock s' dir i = fblock s dir i" by simp
  show "dir_ok s' dir" using fb ino' db by (simp add: dir_ok_def)
qed

section \<open>Creating a file\<close>

definition name_written :: "u32 \<Rightarrow> nat \<Rightarrow> u8 list \<Rightarrow> 'z fs_st_scheme \<Rightarrow> 'z fs_st_scheme \<Rightarrow> bool" where
  "name_written b k name s s' \<longleftrightarrow> page_write b s s' \<and> cached s b \<and>
     (\<forall>j<4096. blk_cache s' b j =
       (if 256 * k \<le> j \<and> j < 256 * k + length name then name ! (j - 256 * k)
        else if j = 256 * k + length name then 0 else blk_cache s b j))"

lemma file_create_ok:
  assumes "fs_ok s" "kalloc s = []" "dir_ok s (root s)" "load32 (vm s) (f_type (root s)) = FTYPE_DIR" "name_ok name"
    and "lookup s (root s) name = None" "free_entry s (root s) = Some (b, k)"
  obtains s1 s' where "file_create (slash # name) s = Some (Inr (entry_addr b k), s')" "loads s s1"
    "name_written b k name s1 s'"
proof -
  let ?r = "root s"
  have ino: "inode s ?r" by (rule root_inode [OF assms(1)])
  have len: "length name < MAXNAMELEN" using assms(5) by (simp add: name_ok_def)
  obtain t where t: "loads s t" "dir_lookup ?r name s = Some (Inl E_NOT_FOUND, t)"
    using dir_lookup_ok [OF assms(1-3) len] assms(6) by auto
  have w: "walk_path (slash # name) s =
      Some (\<lparr>w_ret = Inl E_NOT_FOUND, w_pfile = 0, w_pdir = ?r, w_last = Some name\<rparr>, t)"
    using walk_name [OF assms(5) ino assms(4)] t(2) by simp
  have okt: "fs_ok t" "kalloc t = []" "dir_ok t ?r" "dir_blocks t ?r = dir_blocks s ?r"
    using loads_fs_ok(3) [OF t(1) assms(1)] loadsD(4) [OF t(1)] assms(2) dir_ok_loads [OF assms(1) t(1) assms(3)]
      dir_blocks_loads [OF t(1) ino] by simp_all
  have fr: "dir_search (is_free_entry t) t ?r (dir_blocks t ?r) = Some (b, k)"
    using dir_search_loads [OF assms(1) t(1) assms(3), of "is_free_entry t" "is_free_entry s"]
      is_free_entry_loads [OF t(1)] assms(7) by (simp add: free_entry_def)
  obtain u where u: "loads t u" "dir_alloc_blocks ?r (dir_blocks t ?r) t = Some (Inr (Some (entry_addr b k)), u)" "cached u b"
    using dir_alloc_blocks_ok [OF okt(1,2), of "dir_blocks t ?r" ?r] okt(3) fr by (auto simp: dir_ok_def)
  have al: "dir_alloc_file ?r t = Some (Inr (entry_addr b k), u)"
    using u(2) okt(3) inode_size [of t ?r] by (simp add: dir_alloc_file_def dir_ok_def dir_blocks_def Let_def)
  obtain i where "i \<in> set (dir_blocks t ?r)" "b = fblock t ?r i" "k < FILE2BLK" using dir_search_some [OF fr] by blast
  then have b: "b \<le> MAXBLK" "k < FILE2BLK"
    using okt(3) fs_okD(7) [OF okt(1)] by (auto simp: dir_ok_def dblock_ok_def block_ok_def less_imp_le)
  obtain s' where s': "put_str (entry_addr b k) name u = Some s'" "s' = u\<lparr>vm := vm s'\<rparr>"
     "\<forall>a. VPN a \<noteq> 0x10000 + b \<longrightarrow> vm s' a = vm u a"
     "\<forall>j<4096. blk_cache s' b j = (if 256 * k \<le> j \<and> j < 256 * k + length name then name ! (j - 256 * k)
                                   else if j = 256 * k + length name then 0 else blk_cache u b j)"
    using put_str_block [OF u(3) b(1), of "256 * k" name] b(2) len unfolding entry_addr_def by auto
  have "?r \<noteq> 0" unfolding fs_okD(1) [OF assms(1)] using unat_baddr_add [of 1 8] by (auto simp: word_unat_eq_iff)
  then have "file_create (slash # name) s = Some (Inr (entry_addr b k), s')"
    using w al s'(1) by (simp add: file_create_def)
  moreover have "name_written b k name u s'" unfolding name_written_def page_write_def using s'(2-4) u(3) by blast
  ultimately show thesis using that [OF _ loads_trans [OF t(1) u(1)]] by blast
qed

lemma created_names:
  assumes lo: "loads s s1" and nw: "name_written b k name s1 s'" and bm: "b < MAXBLK" "k < FILE2BLK"
    and len: "length name < MAXNAMELEN"
  shows "name_is s' name b k"
    and "c < MAXBLK \<Longrightarrow> l < FILE2BLK \<Longrightarrow> (c, l) \<noteq> (b, k) \<Longrightarrow> length n < MAXNAMELEN \<Longrightarrow> name_is s' n c l = name_is s n c l"
proof -
  have w: "page_write b s1 s'" and b: "cached s1 b"
    and bytes: "\<And>j. j < 4096 \<Longrightarrow> blk_cache s' b j =
       (if 256 * k \<le> j \<and> j < 256 * k + length name then name ! (j - 256 * k)
        else if j = 256 * k + length name then 0 else blk_cache s1 b j)"
    using nw unfolding name_written_def by blast+
  have c': "cached s' b" using page_writeD(6) [OF w] b by simp
  have v: "blk_view s' b j = blk_cache s' b j" "blk_view s1 b j = blk_cache s1 b j" for j using c' b by (simp_all add: blk_view_def)
  show "name_is s' name b k" using bm(2) len by (auto simp: name_is_def v bytes)
  assume cl: "c < MAXBLK" "l < FILE2BLK" "(c, l) \<noteq> (b, k)" "length n < MAXNAMELEN"
  have "blk_view s' c (256 * l + j) = blk_view s1 c (256 * l + j)" if j: "j \<le> length n" for j
  proof (cases "c = b")
    case False
    then show ?thesis using cl j by (intro page_write_view [OF w]) auto
  next
    case True
    then have "l \<noteq> k" using cl(3) by simp
    then have "256 * l + j < 256 * k \<or> 256 * k + length name < 256 * l + j" using j cl(4) len by linarith
    then show ?thesis using True cl j by (auto simp: v bytes)
  qed
  then have "name_is s' n c l = name_is s1 n c l" by (simp add: name_is_def)
  then show "name_is s' n c l = name_is s n c l" using name_is_loads [OF lo cl(1,2,4)] by simp
qed

lemma created_lookup:
  assumes ok: "fs_ok s" "dir_ok s (root s)" and lo: "loads s s1" and nw: "name_written b k name s1 s'"
    and n: "name_ok name" "lookup s (root s) name = None" "free_entry s (root s) = Some (b, k)"
  shows "fs_ok s'" "dir_ok s' (root s)" "root s' = root s" "lookup s' (root s) name = Some (b, k)"
    "load32 (vm s') (f_type (root s)) = load32 (vm s) (f_type (root s))"
    "name_ok m \<Longrightarrow> m \<noteq> name \<Longrightarrow> lookup s' (root s) m = lookup s (root s) m"
proof -
  let ?r = "root s"
  obtain i where i: "i \<in> set (dir_blocks s ?r)" "b = fblock s ?r i" "k < FILE2BLK" "is_free_entry s b k"
    using dir_search_some [OF n(3) [unfolded free_entry_def]] by blast
  have di: "dblock_ok s ?r i" using ok(2) i(1) by (simp add: dir_ok_def)
  have bm: "b < MAXBLK" "nblocks s div BIT2BLK + 2 < b" "b \<noteq> load32 (vm s) (f_indirect ?r)"
    using di i(2) fs_okD(7) [OF ok(1)] by (auto simp: dblock_ok_def block_ok_def)
  have len: "length name < MAXNAMELEN" using n(1) by (simp add: name_ok_def)
  note names = created_names [OF lo nw bm(1) i(3) len]
  have w: "page_write b s1 s'" using nw by (simp add: name_written_def)
  have ok1: "fs_ok s1" "dir_ok s1 ?r" "nblocks s1 = nblocks s" "inode s ?r"
    using loads_fs_ok [OF lo ok(1)] dir_ok_loads [OF ok(1) lo ok(2)] root_inode [OF ok(1)] by simp_all
  have r1: "VPN ?r \<noteq> 0x10000 + b"
  proof -
    have "unat (nblocks s div BIT2BLK + 2) \<ge> 2"
      using fs_okD(4) [OF ok(1)] by (simp add: unat_word_ariths unat_div word_le_nat_alt)
    then have "b \<noteq> 1" using bm(2) by (auto simp: word_less_nat_alt)
    then show ?thesis using VPN_super(2) fs_okD(1) [OF ok(1)] by simp
  qed
  have ind: "load32 (vm s1) (f_indirect ?r) \<noteq> b" using loads_field [OF lo ok1(4), of 176] bm(3) by simp
  note pd = page_write_dir [OF w ok1(1) _ bm(1) ok1(2) r1 ind, unfolded ok1(3), OF bm(2)]
  show "fs_ok s'" using page_write_ok(1) [OF w ok1(1) _ bm(1)] bm(2) ok1(3) by simp
  show "dir_ok s' ?r" by (rule pd(5))
  show "root s' = root s" using page_writeD(1) [OF w] loadsD(1) [OF lo] by simp
  show "load32 (vm s') (f_type ?r) = load32 (vm s) (f_type ?r)" using pd(3) loads_field [OF lo ok1(4), of 132] by simp
  have db: "dir_blocks s' ?r = dir_blocks s ?r" using pd(2) dir_blocks_loads [OF lo ok1(4)] by simp
  have fb: "fblock s' ?r j = fblock s ?r j" "fblock s ?r j < MAXBLK" if "j \<in> set (dir_blocks s ?r)" for j
    using that pd(4) [of j] dir_blocks_loads [OF lo ok1(4)] dblock_ok_loads(2) [OF ok(1) lo] ok(2) fs_okD(7) [OF ok(1)]
    by (auto simp: dir_ok_def dblock_ok_def block_ok_def)
  show "lookup s' ?r m = lookup s ?r m" if m: "name_ok m" "m \<noteq> name"
    unfolding lookup_def db
  proof (rule dir_search_cong)
    fix j l assume j: "j \<in> set (dir_blocks s ?r)" "l < FILE2BLK"
    have ml: "length m < MAXNAMELEN" "0 \<notin> set m" "m \<noteq> []" using m(1) by (simp_all add: name_ok_def)
    show "name_is s' m (fblock s ?r j) l = name_is s m (fblock s ?r j) l"
    proof (cases "(fblock s ?r j, l) = (b, k)")
      case True
      have "\<not> name_is s' m b k" using name_is_unique [OF _ names(1) ml(2)] m(2) n(1) by (auto simp: name_ok_def)
      moreover have "\<not> name_is s m b k" using i(4) ml(2,3) by (cases m) (auto simp: name_is_def is_free_entry_def)
      ultimately show ?thesis using True by simp
    qed (use names(2) [OF fb(2) [OF j(1)] j(2)] ml(1) in auto)
  qed (rule fb(1))
  show "lookup s' ?r name = Some (b, k)"
  proof (cases "lookup s' ?r name")
    case None
    then have "\<not> name_is s' name b k" using i fb(1) [OF i(1)] by (auto simp: lookup_def dir_search_none db)
    then show ?thesis using names(1) by simp
  next
    case (Some p)
    obtain c l where p: "p = (c, l)" by (cases p)
    obtain j where j: "j \<in> set (dir_blocks s ?r)" "c = fblock s ?r j" "name_is s' name c l" "l < FILE2BLK"
      using dir_search_some [OF Some [unfolded lookup_def p]] db fb(1) by auto
    have "\<not> name_is s name c l" using n(2) j by (auto simp: lookup_def dir_search_none)
    then have "(c, l) = (b, k)" using names(2) [of c l name] fb(2) [OF j(1)] j len by blast
    then show ?thesis using Some p by simp
  qed
qed

section \<open>A file system with an empty root directory\<close>

text \<open>The root directory of \<open>small_fs\<close> gets block 7, which is full of free entries.\<close>

definition root_fs :: "unit fs_st_scheme" where
  "root_fs = small_fs\<lparr>vm := store32 (store32 (store32 (vm small_fs) (baddr 1 + 136) 4096) (baddr 1 + 140) 1) (baddr 1 + 144) 7\<rparr>"

lemma baddr_12: "baddr 1 = 0x10001000" "baddr 2 = 0x10002000"
  by (simp_all add: baddr_def)

lemma root_fs_words:
  "load32 (vm root_fs) (baddr 1 + 4) = 8" "load32 (vm root_fs) (baddr 2) = 0x78" "load32 (vm root_fs) (baddr 1 + 136) = 4096"
  "load32 (vm root_fs) (baddr 1 + 140) = 1" "load32 (vm root_fs) (baddr 1 + 144) = 7" "load32 (vm root_fs) (baddr 1 + 184) = 0"
  by (simp_all add: root_fs_def small_fs_def baddr_12 load32_store32_other) (simp add: load32_def)

lemmas root_fs_words' = root_fs_words [unfolded add.commute [of "baddr 1"]]

lemma root_fs_fields [simp]:
  "super root_fs = baddr 1" "bitmap root_fs = baddr 2" "cached root_fs = cached small_fs" "kalloc root_fs = []"
  "nblocks root_fs = 8" "bit_word b root_fs = bit_word b small_fs"
  by (simp_all add: root_fs_def nblocks_def cached_def [abs_def] bit_word_def)
     (simp_all add: small_fs_def root_fs_words(1) [unfolded root_fs_def small_fs_def, simplified])

lemma root_fs_free: "free_blocks root_fs = {3, 4, 5, 6}"
proof -
  have "bit_word b small_fs = baddr 2" if "b < 8" for b
  proof -
    have "unat b div 32 = 0" using that by (simp add: word_less_nat_alt)
    then have "b div 32 = 0" by (simp add: word_unat_eq_iff unat_div)
    then show ?thesis by (simp add: small_fs_def bit_word_def)
  qed
  moreover have "load32 (vm small_fs) (baddr 2) = 0x78" by (simp add: small_fs_def)
  ultimately have "free_blocks root_fs = free_blocks small_fs"
    by (auto simp: free_blocks_def root_fs_words(2) small_fs_nblocks)
  then show ?thesis using small_fs_free by simp
qed

lemma root_fs_ok: "fs_ok root_fs"
  using small_fs_ok unfolding fs_ok_def root_fs_free small_fs_free by (simp add: small_fs_nblocks)

lemma root_fs_dir: "dir_blocks root_fs (root root_fs) = [0]" "fblock root_fs (root root_fs) 0 = 7" "dir_ok root_fs (root root_fs)"
proof -
  show b: "dir_blocks root_fs (root root_fs) = [0]"
    by (simp add: dir_blocks_def upto_w_def root_fs_words')
  show f: "fblock root_fs (root root_fs) 0 = 7"
    by (simp add: fblock_def root_fs_words')
  have "dblock_ok root_fs (root root_fs) 0"
    using f root_inode [OF root_fs_ok]
    by (simp add: root_fs_words' dblock_ok_def mapped_i_def block_ok_def root_fs_free word_less_nat_alt)
  then show "dir_ok root_fs (root root_fs)" using b root_inode [OF root_fs_ok] by (simp add: dir_ok_def)
qed

lemma root_fs_zero: "blk_view root_fs 7 j = 0" if "j < 4096"
proof -
  have v: "VPN (baddr 7 + of_nat j) = 0x10007" using VPN_baddr [OF _ that, of 7] by simp
  have "VPN 0x10001004 = 0x10001" "VPN 0x10001088 = 0x10001" "VPN 0x1000108C = 0x10001" "VPN 0x10001090 = 0x10001"
    "VPN 0x10002000 = 0x10002" by (simp_all add: VPN_div)
  then have "vm root_fs (baddr 7 + of_nat j) = 0"
    by (simp add: root_fs_def small_fs_def store32_page v baddr_12)
  then show ?thesis by (simp add: blk_view_def blk_cache_def)
qed

lemma root_fs_names:
  "free_entry root_fs (root root_fs) = Some (7, 0)" "name_ok n \<Longrightarrow> lookup root_fs (root root_fs) n = None"
proof -
  have "[0..<FILE2BLK] = 0 # [1..<FILE2BLK]" by (simp add: upt_conv_Cons)
  then show "free_entry root_fs (root root_fs) = Some (7, 0)"
    using root_fs_zero [of 0] root_fs_dir(2) unfolding free_entry_def root_fs_dir(1)
    by (simp add: is_free_entry_def del: upt_Suc)
  assume n: "name_ok n"
  have "\<not> name_is root_fs n 7 k" if "k < FILE2BLK" for k
    using that root_fs_zero [of "256 * k"] n by (cases n) (auto simp: name_is_def name_ok_def)
  then show "lookup root_fs (root root_fs) n = None"
    unfolding lookup_def dir_search_none root_fs_dir(1) using root_fs_dir(2) by (simp del: root_fs_fields)
qed

section \<open>Properties\<close>

text \<open>
  C13 (fs_dir_lookup). \<open>dir_lookup\<close> returns the first entry of the directory, in the order of its blocks, that carries the name, and
  \<open>E_NOT_FOUND\<close> when there is none, wherever the blocks of the directory are, direct or indirect, cached or
  on the disk. Besides bringing blocks into the cache it only sets the parent pointer of the entry found.
\<close>

theorem fs_dir_lookup:
  assumes "fs_ok s" "kalloc s = []" "dir_ok s dir" "length name < MAXNAMELEN"
  shows "\<exists>s'. loads s s' \<and> dir_lookup dir name s =
     (case dir_search (name_is s name) s dir (dir_blocks s dir) of
        None \<Rightarrow> Some (Inl E_NOT_FOUND, s')
      | Some (b, k) \<Rightarrow> Some (Inr (entry_addr b k), set_parent (entry_addr b k) dir s'))"
  using dir_lookup_ok [OF assms] unfolding lookup_def by blast

theorem fs_dir_lookup_witness:
  "\<exists>s t t'. file_create [47, 97, 98] root_fs = Some (Inr (entry_addr 7 0), s) \<and>
     dir_lookup (root root_fs) [97, 98] s = Some (Inr (entry_addr 7 0), t) \<and> dir_lookup (root root_fs) [99] s = Some (Inl E_NOT_FOUND, t')"
proof -
  have n: "name_ok [97, 98]" "name_ok [99]" by (simp_all add: name_ok_def)
  have ty: "load32 (vm root_fs) (f_type (root root_fs)) = FTYPE_DIR" by (simp add: root_fs_words')
  obtain s1 s where c: "file_create (slash # [97, 98]) root_fs = Some (Inr (entry_addr 7 0), s)" "loads root_fs s1" "name_written 7 0 [97, 98] s1 s"
    by (rule file_create_ok [OF root_fs_ok root_fs_fields(4) root_fs_dir(3) ty n(1) root_fs_names(2) [OF n(1)] root_fs_names(1)])
  note l = created_lookup [OF root_fs_ok root_fs_dir(3) c(2,3) n(1) root_fs_names(2) [OF n(1)] root_fs_names(1)]
  have k: "kalloc s = []"
    using c(3) page_writeD(4) [of 7 s1 s] loadsD(4) [OF c(2)] root_fs_fields(4) by (simp add: name_written_def)
  have f: "lookup s (root root_fs) [97, 98] = Some (7, 0)" "lookup s (root root_fs) [99] = None"
    using l(4) l(6) [of "[99]"] n root_fs_names(2) [OF n(2)] by simp_all
  have "\<exists>t. dir_lookup (root root_fs) [97, 98] s = Some (Inr (entry_addr 7 0), t)" "\<exists>t'. dir_lookup (root root_fs) [99] s = Some (Inl E_NOT_FOUND, t')"
    using fs_dir_lookup [OF l(1) k l(2), of "[97, 98]"] fs_dir_lookup [OF l(1) k l(2), of "[99]"] f unfolding lookup_def
    by (auto simp del: root_fs_fields)
  then show ?thesis using c(1) by auto
qed

text \<open>
  C8 (fs_create_then_open). Creating a name that the root directory does not have, when one of its entries is free, puts it at the first free entry;
  opening the path then returns the same file, and every other name is found where it was before.
\<close>

theorem fs_create_then_open:
  assumes "fs_ok s" "kalloc s = []" "dir_ok s (root s)" "load32 (vm s) (f_type (root s)) = FTYPE_DIR" "name_ok name"
    and "lookup s (root s) name = None" "free_entry s (root s) = Some (b, k)"
  shows "\<exists>s' s''. file_create (slash # name) s = Some (Inr (entry_addr b k), s') \<and>
    file_open (slash # name) s' = Some (Inr (entry_addr b k), s'') \<and> fs_ok s' \<and> dir_ok s' (root s) \<and>
    (\<forall>m. name_ok m \<longrightarrow> lookup s' (root s) m = (if m = name then Some (b, k) else lookup s (root s) m))"
proof -
  obtain s1 s' where c: "file_create (slash # name) s = Some (Inr (entry_addr b k), s')" "loads s s1" "name_written b k name s1 s'"
    by (rule file_create_ok [OF assms])
  note l = created_lookup [OF assms(1,3) c(2,3) assms(5-7)]
  have k: "kalloc s' = []"
    using c(3) page_writeD(4) [of b s1 s'] loadsD(4) [OF c(2)] assms(2) by (simp add: name_written_def)
  have len: "length name < MAXNAMELEN" using assms(5) by (simp add: name_ok_def)
  obtain t where "dir_lookup (root s) name s' = Some (Inr (entry_addr b k), set_parent (entry_addr b k) (root s) t)"
    using dir_lookup_ok [OF l(1) k l(2) len] l(4) by auto
  then have "file_open (slash # name) s' = Some (Inr (entry_addr b k), set_parent (entry_addr b k) (root s) t)"
    using walk_name [OF assms(5), of s'] root_inode [OF l(1)] l(3,5) assms(4) by (simp add: file_open_def)
  then show ?thesis using c(1) l by (intro exI) auto
qed

theorem fs_create_then_open_witness:
  "\<exists>s' s''. file_create [47, 97, 98] root_fs = Some (Inr (entry_addr 7 0), s') \<and>
     file_open [47, 97, 98] s' = Some (Inr (entry_addr 7 0), s'')"
proof -
  have n: "name_ok [97, 98]" by (simp add: name_ok_def)
  have ty: "load32 (vm root_fs) (f_type (root root_fs)) = FTYPE_DIR" by (simp add: root_fs_words')
  from fs_create_then_open [OF root_fs_ok root_fs_fields(4) root_fs_dir(3) ty n root_fs_names(2) [OF n] root_fs_names(1)]
  show ?thesis by blast
qed

end
