(* ===== verification/Serv.thy ===== *)
theory Serv
  imports FsDir
begin

text \<open>
  \<^verbatim>\<open>fs/serv.c\<close>, the request loop of the file system server, with \<open>ipc_send\<close> of \<^verbatim>\<open>user/lib/ipc.c\<close> and \<open>pageref\<close> of
  \<^verbatim>\<open>user/lib/pageref.c\<close>. The state is that of the file system, the table of open files, the reference counts of the
  pages the server has mapped, and the replies sent. A client is a message: what \<open>ipc_recv\<close> returns for
  it, the page that comes with it, and what all clients did since the last one: the counts of the shared pages they
  leave and the bytes they stored in pages the server has given them.
\<close>

section \<open>State\<close>

record Open =
  o_file :: u32
  o_fileid :: u32
  o_mode :: u32
  o_ff :: u32

record reply =
  r_whom :: u32
  r_val :: u32
  r_srcva :: u32
  r_perm :: u32

text \<open>\<open>ksend\<close> holds the kernel's answers to the coming \<open>ecall_ipc_try_send\<close>; a missing answer is a success.\<close>

record serv_st =
  fsys :: fs_st
  opentab :: "Open list"
  pgref :: "u32 \<Rightarrow> nat"
  ksend :: "(err + unit) list"
  replies :: "reply list"

abbreviation MAXOPEN :: nat where "MAXOPEN \<equiv> 1024"
abbreviation FILEVA :: u32 where "FILEVA \<equiv> 0x60000000"
abbreviation REQVA :: u32 where "REQVA \<equiv> 0x0ffff000"
abbreviation O_CREAT :: u32 where "O_CREAT \<equiv> 0x100"
abbreviation O_MKDIR :: u32 where "O_MKDIR \<equiv> 0x800"
abbreviation devfile_id :: u32 where "devfile_id \<equiv> 102"
abbreviation share_perm :: u32 where "share_perm \<equiv> PTE_R OR PTE_W OR PTE_U OR PTE_LIBRARY"

text \<open>\<open>struct Filefd\<close>: the descriptor, the file identifier and a copy of the \<open>struct File\<close>; \<open>fd_dev_id\<close> is at offset 0.\<close>

abbreviation fd_omode :: "u32 \<Rightarrow> u32" where "fd_omode ff \<equiv> ff + 8"
abbreviation f_fileid :: "u32 \<Rightarrow> u32" where "f_fileid ff \<equiv> ff + 12"
abbreviation f_file :: "u32 \<Rightarrow> u32" where "f_file ff \<equiv> ff + 16"

text \<open>The request structures at \<open>REQVA\<close>.\<close>

abbreviation req_path :: u32 where "req_path \<equiv> REQVA"
abbreviation req_omode :: u32 where "req_omode \<equiv> REQVA + 1024"
abbreviation req_fileid :: u32 where "req_fileid \<equiv> REQVA"
abbreviation req_offset :: u32 where "req_offset \<equiv> REQVA + 4"
abbreviation req_size :: u32 where "req_size \<equiv> REQVA + 4"

text \<open>An operation of the file system layer.\<close>

definition on_fs :: "(fs_st \<Rightarrow> ('a \<times> fs_st) option) \<Rightarrow> serv_st \<Rightarrow> ('a \<times> serv_st) option" where
  "on_fs m s = do { (r, f) \<leftarrow> m (fsys s); Some (r, s\<lparr>fsys := f\<rparr>) }"

definition do_fs :: "(fs_st \<Rightarrow> fs_st option) \<Rightarrow> serv_st \<Rightarrow> serv_st option" where
  "do_fs m s = do { f \<leftarrow> m (fsys s); Some (s\<lparr>fsys := f\<rparr>) }"

section \<open>Messages\<close>

definition pageref :: "u32 \<Rightarrow> serv_st \<Rightarrow> nat" where
  "pageref v s = (if pte_v (fsys s) (VPN v) then pgref s (VPN v) else 0)"

text \<open>The loop of \<open>ipc_send\<close> over the kernel's answers: again while the receiver is not ready.\<close>

fun try_send :: "(err + unit) list \<Rightarrow> (err + unit) list option" where
  "try_send [] = Some []"
| "try_send (Inr _ # as) = Some as"
| "try_send (Inl e # as) = (if e = E_IPC_NOT_RECV then try_send as else None)"

definition ipc_send :: "u32 \<Rightarrow> u32 \<Rightarrow> u32 \<Rightarrow> u32 \<Rightarrow> serv_st \<Rightarrow> serv_st option" where
  "ipc_send whom val srcva perm s =
     do { as \<leftarrow> try_send (ksend s);
          Some (s\<lparr>ksend := as, replies := replies s @ [\<lparr>r_whom = whom, r_val = val, r_srcva = srcva, r_perm = perm\<rparr>],
                  pgref := (if srcva = 0 then pgref s else (pgref s)(VPN srcva := pgref s (VPN srcva) + 1))\<rparr>) }"

section \<open>The table of open files\<close>

definition serve_init :: "serv_st \<Rightarrow> serv_st" where
  "serve_init s = s\<lparr>opentab := map (\<lambda>(i, e). e\<lparr>o_fileid := of_nat i, o_ff := FILEVA + of_nat i * BY2PG\<rparr>)
                                (enumerate 0 (opentab s))\<rparr>"

text \<open>
  \<open>case 1\<close> of the switch in \<open>open_alloc\<close>, which \<open>case 0\<close> falls into. The result is the return value, an \<open>int\<close>, and \<open>*o\<close>
  as an index into the table, \<open>None\<close> when it is not assigned.
\<close>

definition open_take :: "nat \<Rightarrow> serv_st \<Rightarrow> ((u32 \<times> nat option) \<times> serv_st) option" where
  "open_take i s =
     (let e = opentab s ! i; e = e\<lparr>o_fileid := o_fileid e + of_nat MAXOPEN\<rparr>; s = s\<lparr>opentab := (opentab s)[i := e]\<rparr> in
      do { s \<leftarrow> do_fs (\<lambda>f. do { (_, m) \<leftarrow> memset (vm f) (o_ff e) 0 BY2PG; Some (f\<lparr>vm := m\<rparr>) }) s;
           Some ((o_fileid e, Some i), s) })"

fun open_alloc_from :: "nat list \<Rightarrow> serv_st \<Rightarrow> ((u32 \<times> nat option) \<times> serv_st) option" where
  "open_alloc_from [] s = Some ((- errno E_MAX_OPEN, None), s)"
| "open_alloc_from (i # is) s =
     (let ff = o_ff (opentab s ! i) in
      if pageref ff s = 0 then
        (case ecall_mem_alloc ff (fsys s) of
           (Inl e, f) \<Rightarrow> Some ((ret_code (Inl e), None), s\<lparr>fsys := f\<rparr>)
         | (Inr _, f) \<Rightarrow> open_take i (s\<lparr>fsys := f, pgref := (pgref s)(VPN ff := 1)\<rparr>))
      else if pageref ff s = 1 then open_take i s
      else open_alloc_from is s)"

definition open_alloc :: "serv_st \<Rightarrow> ((u32 \<times> nat option) \<times> serv_st) option" where
  "open_alloc s = open_alloc_from [0..<MAXOPEN] s"

definition open_lookup :: "u32 \<Rightarrow> serv_st \<Rightarrow> err + nat" where
  "open_lookup fileid s =
     (let i = unat (fileid mod of_nat MAXOPEN); e = opentab s ! i in
      if pageref (o_ff e) s = 1 \<or> o_fileid e \<noteq> fileid then Inl E_INVAL else Inr i)"

section \<open>Requests\<close>

text \<open>
  The path of a request, up to its NUL. The code reads it while it walks; the two differ only for a path that is not
  terminated within its page.
\<close>

partial_function (option) get_str :: "u32 \<Rightarrow> fs_st \<Rightarrow> u8 list option" where
  "get_str a f =
     do { c \<leftarrow> ldb a f;
          if c = 0 then Some [] else do { cs \<leftarrow> get_str (a + 1) f; Some (c # cs) } }"

text \<open>Assignment of a structure of \<open>n\<close> bytes.\<close>

definition copy_struct :: "u32 \<Rightarrow> u32 \<Rightarrow> u32 \<Rightarrow> fs_st \<Rightarrow> fs_st option" where
  "copy_struct dst src n f =
     (if pte_v f (VPN src) \<and> pte_v f (VPN (src + n - 1)) \<and> pte_v f (VPN dst) \<and> pte_v f (VPN (dst + n - 1))
      then Some (f\<lparr>vm := mem_copy (vm f) dst src n\<rparr>) else None)"

definition open_file :: "u32 \<Rightarrow> u8 list \<Rightarrow> fs_st \<Rightarrow> ((err + u32) \<times> fs_st) option" where
  "open_file omode path f =
     (if omode AND O_CREAT = O_CREAT then file_create path f
      else if omode AND O_MKDIR = O_MKDIR then
        try_c (file_create path f) (\<lambda>p f. do { f \<leftarrow> stw (f_type p) FTYPE_DIR f; Some (Inr p, f) })
      else file_open path f)"

text \<open>The last part of \<open>serve_open\<close>: the file is entered in the table and in the page the client will share.\<close>

definition open_finish :: "u32 \<Rightarrow> nat \<Rightarrow> u32 \<Rightarrow> serv_st \<Rightarrow> serv_st option" where
  "open_finish envid i f s =
     (let e = opentab s ! i; ff = o_ff e in
      do { s \<leftarrow> do_fs (copy_struct (f_file ff) f BY2FILE) s;
           s \<leftarrow> do_fs (stw (f_fileid ff) (o_fileid e)) s;
           omode \<leftarrow> ldw req_omode (fsys s);
           let s = s\<lparr>opentab := (opentab s)[i := e\<lparr>o_file := f, o_mode := omode\<rparr>]\<rparr> in
           do { s \<leftarrow> do_fs (stw (fd_omode ff) omode) s;
                s \<leftarrow> do_fs (stw ff devfile_id) s;
                ipc_send envid 0 ff share_perm s } })"

text \<open>After a failed \<open>open_alloc\<close> the code goes on; using \<open>o\<close>, which is then not initialised, is \<open>None\<close>.\<close>

definition serve_open :: "u32 \<Rightarrow> serv_st \<Rightarrow> serv_st option" where
  "serve_open envid s =
     do { ((r, po), s) \<leftarrow> open_alloc s;
          s \<leftarrow> (if sint r < 0 then ipc_send envid r 0 0 s else Some s);
          omode \<leftarrow> ldw req_omode (fsys s);
          path \<leftarrow> get_str req_path (fsys s);
          (f, s) \<leftarrow> on_fs (open_file omode path) s;
          (case f of
             Inl e \<Rightarrow> ipc_send envid (ret_code (Inl e)) 0 0 s
           | Inr f \<Rightarrow> do { i \<leftarrow> po; open_finish envid i f s }) }"

text \<open>The common start of the requests on an open file.\<close>

definition with_open :: "u32 \<Rightarrow> (u32 \<Rightarrow> serv_st \<Rightarrow> serv_st option) \<Rightarrow> serv_st \<Rightarrow> serv_st option" where
  "with_open envid k s =
     do { fileid \<leftarrow> ldw req_fileid (fsys s);
          (case open_lookup fileid s of
             Inl e \<Rightarrow> ipc_send envid (ret_code (Inl e)) 0 0 s
           | Inr i \<Rightarrow> k (o_file (opentab s ! i)) s) }"

definition serve_map :: "u32 \<Rightarrow> serv_st \<Rightarrow> serv_st option" where
  "serve_map envid = with_open envid (\<lambda>f s.
     do { off \<leftarrow> ldw req_offset (fsys s);
          (r, s) \<leftarrow> on_fs (file_get_block f (off div BY2BLK)) s;
          (case r of
             Inl e \<Rightarrow> ipc_send envid (ret_code (Inl e)) 0 0 s
           | Inr blk \<Rightarrow> ipc_send envid 0 blk share_perm s) })"

definition serve_set_size :: "u32 \<Rightarrow> serv_st \<Rightarrow> serv_st option" where
  "serve_set_size envid = with_open envid (\<lambda>f s.
     do { sz \<leftarrow> ldw req_size (fsys s);
          s \<leftarrow> do_fs (file_set_size f sz) s;
          ipc_send envid 0 0 0 s })"

definition serve_close :: "u32 \<Rightarrow> serv_st \<Rightarrow> serv_st option" where
  "serve_close envid = with_open envid (\<lambda>f s. do { s \<leftarrow> do_fs (file_close f) s; ipc_send envid 0 0 0 s })"

definition serve_remove :: "u32 \<Rightarrow> serv_st \<Rightarrow> serv_st option" where
  "serve_remove envid s =
     do { path \<leftarrow> get_str req_path (fsys s);
          (r, s) \<leftarrow> on_fs (file_remove path) s;
          ipc_send envid (ret_code r) 0 0 s }"

definition serve_dirty :: "u32 \<Rightarrow> serv_st \<Rightarrow> serv_st option" where
  "serve_dirty envid = with_open envid (\<lambda>f s.
     do { off \<leftarrow> ldw req_offset (fsys s);
          (r, s) \<leftarrow> on_fs (file_dirty f off) s;
          ipc_send envid (ret_code r) 0 0 s })"

definition serve_sync :: "u32 \<Rightarrow> serv_st \<Rightarrow> serv_st option" where
  "serve_sync envid s = do { s \<leftarrow> do_fs fs_sync s; ipc_send envid 0 0 0 s }"

section \<open>The request loop\<close>

record msg =
  m_req :: u32
  m_whom :: u32
  m_perm :: u32
  m_page :: "nat \<Rightarrow> u8"
  m_refs :: "u32 \<Rightarrow> nat"
  m_stores :: "(u32 \<times> u8) list"

text \<open>\<open>ipc_recv\<close>: the clients' stores, and the page of the message, if it has one, at \<open>REQVA\<close>.\<close>

definition client_stores :: "(u32 \<times> u8) list \<Rightarrow> mem \<Rightarrow> mem" where
  "client_stores ws m = fold (\<lambda>(a, b) m. m(a := b)) ws m"

definition ipc_recv :: "msg \<Rightarrow> serv_st \<Rightarrow> serv_st" where
  "ipc_recv m s =
     (let f = fsys s; mem = client_stores (m_stores m) (vm f) in
      s\<lparr>pgref := m_refs m,
        fsys := (if m_perm m AND PTE_V = 0 then f\<lparr>vm := mem\<rparr>
                 else f\<lparr>vm := (\<lambda>a. if in_range REQVA BY2PG a then m_page m (unat (a - REQVA)) else mem a),
                        pte_v := (pte_v f)(VPN REQVA := True), pte_dirty := (pte_dirty f)(VPN REQVA := False)\<rparr>)\<rparr>)"

definition serve_request :: "u32 \<Rightarrow> u32 \<Rightarrow> serv_st \<Rightarrow> serv_st option" where
  "serve_request req whom s =
     (if req = 1 then serve_open whom s
      else if req = 2 then serve_map whom s
      else if req = 3 then serve_set_size whom s
      else if req = 4 then serve_close whom s
      else if req = 5 then serve_dirty whom s
      else if req = 6 then serve_remove whom s
      else if req = 7 then serve_sync whom s
      else Some s)"

fun serve :: "msg list \<Rightarrow> serv_st \<Rightarrow> serv_st option" where
  "serve [] s = Some s"
| "serve (m # ms) s =
     (let s = ipc_recv m s in
      if m_perm m AND PTE_V = 0 then serve ms s
      else do { s \<leftarrow> serve_request (m_req m) (m_whom m) s; serve ms s })"

text \<open>\<open>main\<close> up to the loop.\<close>

definition serv_start :: "serv_st \<Rightarrow> serv_st option" where
  "serv_start s = do_fs fs_init (serve_init s)"

section \<open>What the parts of a request leave alone\<close>

lemma on_fs_some:
  assumes "on_fs m s = Some (r, s')"
  obtains f where "m (fsys s) = Some (r, f)" "s' = s\<lparr>fsys := f\<rparr>"
  using assms by (auto simp: on_fs_def split: option.splits bind_splits)

lemma do_fs_some:
  assumes "do_fs m s = Some s'"
  obtains f where "m (fsys s) = Some f" "s' = s\<lparr>fsys := f\<rparr>"
  using assms by (auto simp: do_fs_def split: bind_splits)

lemma do_fs_frame:
  assumes "do_fs m s = Some s'"
  shows "opentab s' = opentab s" "replies s' = replies s" "pgref s' = pgref s" "ksend s' = ksend s"
  using assms by (auto elim: do_fs_some)

lemma on_fs_frame:
  assumes "on_fs m s = Some (r, s')"
  shows "opentab s' = opentab s" "replies s' = replies s" "pgref s' = pgref s" "ksend s' = ksend s"
  using assms by (auto elim: on_fs_some)

lemma ipc_send_frame:
  assumes "ipc_send w v a p s = Some s'"
  shows "opentab s' = opentab s" "fsys s' = fsys s"
    "replies s' = replies s @ [\<lparr>r_whom = w, r_val = v, r_srcva = a, r_perm = p\<rparr>]"
  using assms by (auto simp: ipc_send_def split: bind_splits)

lemma ipc_recv_frame [simp]:
  "opentab (ipc_recv m s) = opentab s" "replies (ipc_recv m s) = replies s" "ksend (ipc_recv m s) = ksend s"
  by (simp_all add: ipc_recv_def Let_def)

section \<open>The table\<close>

definition opentab_ok :: "serv_st \<Rightarrow> bool" where
  "opentab_ok s \<longleftrightarrow> length (opentab s) = MAXOPEN \<and>
     (\<forall>i<MAXOPEN. unat (o_fileid (opentab s ! i)) mod MAXOPEN = i \<and> o_ff (opentab s ! i) = FILEVA + of_nat i * BY2PG)"

text \<open>
  How an entry of the table may change while \<open>n\<close> requests are served: it is taken for another file \<open>k\<close> times, and as
  long as it is not taken it stays what it is.
\<close>

definition entry_moves :: "nat \<Rightarrow> Open \<Rightarrow> Open \<Rightarrow> bool" where
  "entry_moves n e e' \<longleftrightarrow>
     (\<exists>k\<le>n. o_fileid e' = o_fileid e + of_nat (MAXOPEN * k) \<and> o_ff e' = o_ff e \<and> (k = 0 \<longrightarrow> e' = e))"

definition tab_moves :: "nat \<Rightarrow> serv_st \<Rightarrow> serv_st \<Rightarrow> bool" where
  "tab_moves n s s' \<longleftrightarrow> length (opentab s') = length (opentab s) \<and>
     (\<forall>i<length (opentab s). entry_moves n (opentab s ! i) (opentab s' ! i))"

lemma entry_moves_refl: "entry_moves n e e"
  unfolding entry_moves_def by (intro exI [of _ 0]) simp

lemma entry_moves_trans:
  assumes "entry_moves m e e'" "entry_moves n e' e''"
  shows "entry_moves (m + n) e e''"
proof -
  obtain k l where "k \<le> m" "o_fileid e' = o_fileid e + of_nat (MAXOPEN * k)" "o_ff e' = o_ff e" "k = 0 \<longrightarrow> e' = e"
    "l \<le> n" "o_fileid e'' = o_fileid e' + of_nat (MAXOPEN * l)" "o_ff e'' = o_ff e'" "l = 0 \<longrightarrow> e'' = e'"
    using assms unfolding entry_moves_def by blast
  then show ?thesis unfolding entry_moves_def by (intro exI [of _ "k + l"]) (simp add: algebra_simps)
qed

lemma tab_moves_refl: "opentab s' = opentab s \<Longrightarrow> tab_moves n s s'"
  by (simp add: tab_moves_def entry_moves_refl)

lemma tab_moves_trans: "tab_moves m s t \<Longrightarrow> tab_moves n t u \<Longrightarrow> tab_moves (m + n) s u"
  unfolding tab_moves_def using entry_moves_trans by metis

lemma tab_moves_set:
  assumes "opentab s' = (opentab s)[i := e']" "i < length (opentab s)" "entry_moves n (opentab s ! i) e'"
  shows "tab_moves n s s'"
  using assms entry_moves_refl by (auto simp: tab_moves_def nth_list_update)

lemma open_take_some:
  assumes "open_take i s = Some ((r, po), s')"
  shows "po = Some i \<and> r = o_fileid (opentab s ! i) + of_nat MAXOPEN \<and> replies s' = replies s \<and>
    opentab s' = (opentab s)[i := (opentab s ! i)\<lparr>o_fileid := r\<rparr>]"
  using assms by (auto simp: open_take_def Let_def split: bind_splits dest: do_fs_frame)

lemma open_alloc_from_some:
  assumes "open_alloc_from is s = Some ((r, po), s')"
  shows "replies s' = replies s"
    "po = None \<Longrightarrow> opentab s' = opentab s \<and> sint r < 0"
    "po = Some i \<Longrightarrow> i \<in> set is \<and> r = o_fileid (opentab s ! i) + of_nat MAXOPEN \<and>
       opentab s' = (opentab s)[i := (opentab s ! i)\<lparr>o_fileid := r\<rparr>]"
proof -
  have neg: "sint (ret_code (Inl e)) < 0" for e by (cases e) simp_all
  have "replies s' = replies s \<and> (po = None \<longrightarrow> opentab s' = opentab s \<and> sint r < 0) \<and>
    (\<forall>i. po = Some i \<longrightarrow> i \<in> set is \<and> r = o_fileid (opentab s ! i) + of_nat MAXOPEN \<and>
       opentab s' = (opentab s)[i := (opentab s ! i)\<lparr>o_fileid := r\<rparr>])"
    using assms
  proof (induction "is" s rule: open_alloc_from.induct)
    case (1 s)
    then show ?case using neg [of E_MAX_OPEN] by auto
  next
    case (2 j js s)
    then show ?case using neg
      by (auto simp: Let_def split: if_splits prod.splits sum.splits dest!: open_take_some)
  qed
  then show "replies s' = replies s" "po = None \<Longrightarrow> opentab s' = opentab s \<and> sint r < 0"
    "po = Some i \<Longrightarrow> i \<in> set is \<and> r = o_fileid (opentab s ! i) + of_nat MAXOPEN \<and>
       opentab s' = (opentab s)[i := (opentab s ! i)\<lparr>o_fileid := r\<rparr>]" by auto
qed

lemma tab_moves_ok:
  assumes "tab_moves n s s'" "opentab_ok s"
  shows "opentab_ok s'"
proof -
  have "unat (w + of_nat (MAXOPEN * k)) mod MAXOPEN = unat w mod MAXOPEN" for w :: u32 and k
    by (simp add: unat_word_ariths unat_of_nat mod_mod_cancel mod_simps)
  then show ?thesis using assms unfolding tab_moves_def entry_moves_def opentab_ok_def by metis
qed

section \<open>Requests and replies\<close>

text \<open>A request that took at most \<open>k\<close> entries of the table and was answered \<open>n\<close> times.\<close>

definition served :: "u32 \<Rightarrow> nat \<Rightarrow> nat \<Rightarrow> serv_st \<Rightarrow> serv_st \<Rightarrow> bool" where
  "served whom k n s s' \<longleftrightarrow> tab_moves k s s' \<and> map r_whom (replies s') = map r_whom (replies s) @ replicate n whom"

lemma served_quiet: "opentab s' = opentab s \<Longrightarrow> replies s' = replies s \<Longrightarrow> served whom k 0 s s'"
  by (simp add: served_def tab_moves_refl)

lemma served_send: "ipc_send whom v a p s = Some s' \<Longrightarrow> served whom 0 (Suc 0) s s'"
  using ipc_send_frame [of whom v a p s s'] by (simp add: served_def tab_moves_refl)

lemma served_trans: "served whom k m s t \<Longrightarrow> served whom l n t u \<Longrightarrow> served whom (k + l) (m + n) s u"
  using tab_moves_trans [of k s t l u] by (simp add: served_def replicate_add)

lemma served_do_fs: "do_fs m s = Some t \<Longrightarrow> served whom l n t u \<Longrightarrow> served whom l n s u"
  using served_trans [of whom 0 0 s t l n u] served_quiet [OF do_fs_frame(1,2)] by fastforce

lemma served_on_fs: "on_fs m s = Some (r, t) \<Longrightarrow> served whom l n t u \<Longrightarrow> served whom l n s u"
  using served_trans [of whom 0 0 s t l n u] served_quiet [OF on_fs_frame(1,2)] by fastforce

lemmas served_intros = served_send served_do_fs served_on_fs

lemma served_with_open:
  assumes "with_open whom k s = Some s'" "\<And>f s s'. k f s = Some s' \<Longrightarrow> served whom 0 (Suc 0) s s'"
  shows "served whom 0 (Suc 0) s s'"
  using assms by (auto simp: with_open_def split: bind_splits sum.splits intro: served_send)

lemma served_requests:
  "serve_map whom s = Some s' \<Longrightarrow> served whom 0 (Suc 0) s s'"
  "serve_set_size whom s = Some s' \<Longrightarrow> served whom 0 (Suc 0) s s'"
  "serve_close whom s = Some s' \<Longrightarrow> served whom 0 (Suc 0) s s'"
  "serve_dirty whom s = Some s' \<Longrightarrow> served whom 0 (Suc 0) s s'"
  "serve_remove whom s = Some s' \<Longrightarrow> served whom 0 (Suc 0) s s'"
  "serve_sync whom s = Some s' \<Longrightarrow> served whom 0 (Suc 0) s s'"
  unfolding serve_map_def serve_set_size_def serve_close_def serve_dirty_def serve_remove_def serve_sync_def
  by (erule served_with_open | auto split: bind_splits sum.splits intro: served_intros)+

text \<open>\<open>open_alloc\<close> returns a negative value, which the client gets as a first reply.\<close>

definition open_refused :: "serv_st \<Rightarrow> bool" where
  "open_refused s = (case open_alloc s of Some ((r, _), _) \<Rightarrow> sint r < 0 | None \<Rightarrow> False)"

lemma do_fs_keeps: "do_fs m s = Some s' \<Longrightarrow> opentab s' = opentab s \<and> replies s' = replies s"
  using do_fs_frame(1,2) by simp

lemma open_finish_some:
  assumes "open_finish whom i f s = Some s'"
  obtains om where "opentab s' = (opentab s)[i := (opentab s ! i)\<lparr>o_file := f, o_mode := om\<rparr>]"
    "map r_whom (replies s') = map r_whom (replies s) @ [whom]"
  using assms do_fs_keeps ipc_send_frame(1,3) unfolding open_finish_def Let_def
  by (fastforce split: bind_splits)

lemma open_alloc_moves:
  assumes "open_alloc s = Some ((r, po), s1)" "length (opentab s) = MAXOPEN"
  shows "tab_moves 1 s s1"
    and "po = Some i \<Longrightarrow> opentab s' = (opentab s1)[i := (opentab s1 ! i)\<lparr>o_file := f, o_mode := om\<rparr>] \<Longrightarrow> tab_moves 1 s s'"
proof -
  note a = open_alloc_from_some [OF assms(1) [unfolded open_alloc_def]]
  have m: "entry_moves 1 (opentab s ! i) e'"
    if "o_fileid e' = o_fileid (opentab s ! i) + of_nat MAXOPEN" "o_ff e' = o_ff (opentab s ! i)" for e' i
    unfolding entry_moves_def using that by (intro exI [of _ 1]) simp
  show "tab_moves 1 s s1"
  proof (cases po)
    case None
    then show ?thesis using a(2) tab_moves_refl by blast
  next
    case (Some i)
    then show ?thesis using a(3) [OF Some] assms(2)
      by (intro tab_moves_set [where e' = "(opentab s ! i)\<lparr>o_fileid := r\<rparr>"] m) auto
  qed
  assume "po = Some i" "opentab s' = (opentab s1)[i := (opentab s1 ! i)\<lparr>o_file := f, o_mode := om\<rparr>]"
  then show "tab_moves 1 s s'" using a(3) [of i] assms(2)
    by (intro tab_moves_set [where e' = "(opentab s ! i)\<lparr>o_fileid := r, o_file := f, o_mode := om\<rparr>"] m) auto
qed

lemma served_open:
  assumes "serve_open whom s = Some s'" "length (opentab s) = MAXOPEN"
  shows "served whom 1 (if open_refused s then 2 else 1) s s'"
proof -
  obtain r po s1 where a: "open_alloc s = Some ((r, po), s1)"
    using assms(1) by (auto simp: serve_open_def split: bind_splits)
  let ?n = "if open_refused s then 1 else 0 :: nat"
  obtain s2 where s2: "(if sint r < 0 then ipc_send whom r 0 0 s1 else Some s1) = Some s2"
    using assms(1) a by (auto simp: serve_open_def split: bind_splits)
  have t2: "opentab s2 = opentab s1" "map r_whom (replies s2) = map r_whom (replies s) @ replicate ?n whom"
    using s2 a open_alloc_from_some(1) [OF a [unfolded open_alloc_def]]
    by (auto simp: open_refused_def dest: ipc_send_frame split: if_splits)
  obtain omode path f s3 where s3: "on_fs (open_file omode path) s2 = Some (f, s3)"
    and k: "(case f of Inl e \<Rightarrow> ipc_send whom (ret_code (Inl e)) 0 0 s3 | Inr f \<Rightarrow> do { i \<leftarrow> po; open_finish whom i f s3 }) = Some s'"
    using assms(1) a s2 by (auto simp: serve_open_def split: bind_splits)
  have t3: "opentab s3 = opentab s1" "map r_whom (replies s3) = map r_whom (replies s) @ replicate ?n whom"
    using on_fs_frame [OF s3] t2 by simp_all
  have rep: "replicate (if open_refused s then 2 else 1) whom = replicate ?n whom @ [whom]"
    by (simp add: numeral_2_eq_2)
  show ?thesis
  proof (cases f)
    case (Inl e)
    then have "opentab s' = opentab s1" "map r_whom (replies s') = map r_whom (replies s3) @ [whom]"
      using k t3(1) by (auto dest: ipc_send_frame)
    moreover have "tab_moves 1 s s'"
      using open_alloc_moves(1) [OF a assms(2)] calculation(1) by (simp add: tab_moves_def)
    ultimately show ?thesis using t3(2) rep by (simp add: served_def)
  next
    case (Inr g)
    then obtain i where i: "po = Some i" "open_finish whom i g s3 = Some s'" using k by (auto split: bind_splits)
    obtain om where e: "opentab s' = (opentab s3)[i := (opentab s3 ! i)\<lparr>o_file := g, o_mode := om\<rparr>]"
      "map r_whom (replies s') = map r_whom (replies s3) @ [whom]" using open_finish_some [OF i(2)] .
    then show ?thesis using open_alloc_moves(2) [OF a assms(2) i(1) e(1) [unfolded t3(1)]] t3(2) rep
      by (simp add: served_def)
  qed
qed

lemma served_request:
  assumes "serve_request req whom s = Some s'" "length (opentab s) = MAXOPEN" "1 \<le> req" "req \<le> 7"
  shows "served whom 1 (if req = 1 \<and> open_refused s then 2 else 1) s s'"
proof (cases "req = 1")
  case True
  then show ?thesis using served_open [of whom s s'] assms(1,2) by (simp add: serve_request_def)
next
  case False
  have "req = 2 \<or> req = 3 \<or> req = 4 \<or> req = 5 \<or> req = 6 \<or> req = 7"
  proof -
    have "2 \<le> unat req" "unat req \<le> 7"
      using assms(3,4) False by (auto simp: word_le_nat_alt word_unat_eq_iff)
    then have "unat req = 2 \<or> unat req = 3 \<or> unat req = 4 \<or> unat req = 5 \<or> unat req = 6 \<or> unat req = 7" by linarith
    then show ?thesis by (simp add: word_unat_eq_iff)
  qed
  then have "served whom 0 (Suc 0) s s'"
    using assms(1) by (elim disjE) (auto simp: serve_request_def intro: served_requests)
  then have "served whom (0 + 1) (Suc 0 + 0) s s'" by (rule served_trans) (simp add: served_quiet)
  then show ?thesis using False by simp
qed

section \<open>Runs of the server\<close>

definition valid_msg :: "msg \<Rightarrow> bool" where
  "valid_msg m \<longleftrightarrow> m_perm m AND PTE_V \<noteq> 0 \<and> 1 \<le> m_req m \<and> m_req m \<le> 7"

lemma serve_request_invalid: "\<not> (1 \<le> req \<and> req \<le> 7) \<Longrightarrow> serve_request req whom s = Some s"
  by (auto simp: serve_request_def)

lemma serve_step:
  assumes "serve (m # ms) s = Some s'" "length (opentab s) = MAXOPEN"
  obtains t n where "serve ms t = Some s'" "served (m_whom m) 1 n s t"
    "n = (if valid_msg m then if m_req m = 1 \<and> open_refused (ipc_recv m s) then 2 else 1 else 0)"
proof -
  let ?r = "ipc_recv m s"
  have same: "served w k n ?r t = served w k n s t" for w k n t by (simp add: served_def tab_moves_def)
  show thesis
  proof (cases "valid_msg m")
    case True
    then obtain t where t: "serve_request (m_req m) (m_whom m) ?r = Some t" "serve ms t = Some s'"
      using assms(1) by (auto simp: valid_msg_def split: bind_splits)
    have "served (m_whom m) 1 (if m_req m = 1 \<and> open_refused ?r then 2 else 1) ?r t"
      using served_request [OF t(1)] assms(2) True by (simp add: valid_msg_def)
    then show ?thesis using that [OF t(2)] same True by simp
  next
    case False
    then have "serve ms ?r = Some s'"
      using assms(1) serve_request_invalid [of "m_req m"] by (auto simp: valid_msg_def Let_def split: if_splits)
    moreover have "served (m_whom m) 1 0 s ?r" by (simp add: served_quiet)
    ultimately show ?thesis using that False by simp
  qed
qed

lemma serve_moves:
  assumes "serve ms s = Some s'" "length (opentab s) = MAXOPEN"
  shows "tab_moves (length ms) s s'"
  using assms
proof (induction ms arbitrary: s)
  case (Cons m ms)
  obtain t n where t: "serve ms t = Some s'" "served (m_whom m) 1 n s t" using serve_step [OF Cons.prems] by metis
  then have "tab_moves 1 s t" "length (opentab t) = MAXOPEN" using Cons.prems(2) by (auto simp: served_def tab_moves_def)
  then show ?case using tab_moves_trans [of 1 s t "length ms" s'] Cons.IH [OF t(1)] by simp
qed (simp add: tab_moves_refl)

lemma fileid_gen:
  assumes "o_fileid e + of_nat (MAXOPEN * k) = o_fileid e" "k < 2 ^ 22"
  shows "k = 0"
proof -
  have "unat (of_nat (MAXOPEN * k) :: u32) = 0" using assms(1) by (simp del: of_nat_mult)
  then have "MAXOPEN * k mod 2 ^ 32 = 0" by (simp add: unat_of_nat del: of_nat_mult)
  moreover have "MAXOPEN * k < 2 ^ 32" using assms(2) by simp
  ultimately show ?thesis by simp
qed

end
