(* ===== verification/ServProps.thy ===== *)
theory ServProps
  imports Serv
begin

text \<open>
  The server end to end: what the pages outside the block cache have to do with the file system (nothing), what an open
  request does, and the properties of the request loop that need it.
\<close>

section \<open>Pages outside the block cache\<close>

definition blk_page :: "u32 \<Rightarrow> bool" where
  "blk_page a \<longleftrightarrow> 0x10000 \<le> VPN a \<and> VPN a \<le> 0x10000 + MAXBLK"

definition same_blocks :: "'z fs_st_scheme \<Rightarrow> 'z fs_st_scheme \<Rightarrow> bool" where
  "same_blocks s s' \<longleftrightarrow> super s' = super s \<and> bitmap s' = bitmap s \<and> disk s' = disk s \<and> kalloc s' = kalloc s \<and>
     (\<forall>a. blk_page a \<longrightarrow> vm s' a = vm s a \<and> pte_v s' (VPN a) = pte_v s (VPN a))"

lemma same_blocks_refl [simp]: "same_blocks s s"
  by (simp add: same_blocks_def)

lemma same_blocks_trans: "same_blocks s t \<Longrightarrow> same_blocks t u \<Longrightarrow> same_blocks s u"
  by (simp add: same_blocks_def)

lemma same_blocks_sym: "same_blocks s t \<Longrightarrow> same_blocks t s"
  by (simp add: same_blocks_def)

lemma blk_page_baddr: "b \<le> MAXBLK \<Longrightarrow> i < 4096 \<Longrightarrow> blk_page (baddr b + of_nat i)"
  by (simp add: blk_page_def VPN_baddr word_le_nat_alt unat_word_ariths)

lemma blk_page_0: "b \<le> MAXBLK \<Longrightarrow> blk_page (baddr b)"
  using blk_page_baddr [of b 0] by simp

lemma blk_page_word: "aligned4 a \<Longrightarrow> blk_page a \<Longrightarrow> j < 4 \<Longrightarrow> blk_page (a + of_nat j)"
  by (simp add: blk_page_def VPN_word)

lemma same_blocksD:
  assumes "same_blocks s s'"
  shows "super s' = super s" "bitmap s' = bitmap s" "disk s' = disk s" "kalloc s' = kalloc s"
    "blk_page a \<Longrightarrow> vm s' a = vm s a" "blk_page a \<Longrightarrow> pte_v s' (VPN a) = pte_v s (VPN a)"
  using assms by (simp_all add: same_blocks_def)

lemma same_blocks_views:
  assumes "same_blocks s s'" "b \<le> MAXBLK"
  shows "cached s' b = cached s b" "i < 4096 \<Longrightarrow> blk_view s' b i = blk_view s b i"
proof -
  show c: "cached s' b = cached s b"
    using same_blocksD(6) [OF assms(1) blk_page_0 [OF assms(2)]] assms(2) by (simp add: cached_def)
  assume i: "i < 4096"
  then have "vm s' (baddr b + of_nat i) = vm s (baddr b + of_nat i)"
    using assms blk_page_baddr [OF assms(2) i] by (simp add: same_blocks_def)
  then show "blk_view s' b i = blk_view s b i"
    using c assms(1) by (simp add: blk_view_def blk_cache_def blk_disk_def same_blocks_def)
qed

lemma same_blocks_load32: "same_blocks s s' \<Longrightarrow> aligned4 a \<Longrightarrow> blk_page a \<Longrightarrow> load32 (vm s') a = load32 (vm s) a"
  using blk_page_word [of a] by (intro load32_cong) (simp add: same_blocks_def)

lemma same_blocks_view32:
  assumes "same_blocks s s'" "b \<le> MAXBLK" "k + 4 \<le> 4096"
  shows "view32 s' b k = view32 s b k"
proof -
  have "blk_view s' b (unat (of_nat k + of_nat j :: u32)) = blk_view s b (unat (of_nat k + of_nat j :: u32))" if "j < 4" for j
    using assms that by (intro same_blocks_views(2)) (simp_all add: unat_of_nat flip: of_nat_add)
  then show ?thesis unfolding view32_def by (rule load32_cong)
qed

lemma same_blocks_fs_ok:
  assumes "same_blocks s s'" "fs_ok s"
  shows "nblocks s' = nblocks s" "free_blocks s' = free_blocks s" "fs_ok s'"
proof -
  note [simp] = fs_okD(1,2) [OF assms(2)]
  have [simp]: "super s' = baddr 1" "bitmap s' = baddr 2" using assms by (simp_all add: same_blocks_def)
  show n: "nblocks s' = nblocks s"
    using same_blocks_load32 [OF assms(1) aligned_super] blk_page_baddr [of 1 4] by (simp add: nblocks_def)
  have w: "load32 (vm s') (bit_word b s') = load32 (vm s) (bit_word b s)" if "b < nblocks s" for b
  proof -
    have b: "b < MAXBLK" by (rule fs_okD(7) [OF assms(2) that])
    have "bit_word b s' = bit_word b s" by (simp add: bit_word_def)
    moreover have "blk_page (bit_word b s)"
      using VPN_bit_word [of s b] blk_page_0 [OF bitmap_block_le [OF b]] bitmap_block_le [OF b] b by (simp add: blk_page_def)
    ultimately show ?thesis using same_blocks_load32 [OF assms(1) aligned_bit_word [of s]] b by simp
  qed
  then show f: "free_blocks s' = free_blocks s" by (auto simp: free_blocks_def n)
  have "cached s' (b div BIT2BLK + 2)" if "b < nblocks s" for b
    using same_blocks_views(1) [OF assms(1) bitmap_block_le [OF fs_okD(7) [OF assms(2) that]]] fs_okD(5) [OF assms(2) that] by simp
  then show "fs_ok s'" using assms(2) same_blocks_views(1) [OF assms(1), of 1] unfolding fs_ok_def n f by simp
qed

lemma same_blocks_block_ok: "same_blocks s s' \<Longrightarrow> fs_ok s \<Longrightarrow> block_ok s' b = block_ok s b"
  using same_blocks_fs_ok(1,2) [of s s'] by (simp add: block_ok_def)

lemma blk_page_inode: "inode s f \<Longrightarrow> blk_page f \<Longrightarrow> k < 256 \<Longrightarrow> blk_page (f + of_nat k)"
  using inode_byte(2) [of s f k] by (simp add: blk_page_def)

lemma same_blocks_inode: "same_blocks s s' \<Longrightarrow> inode s f \<Longrightarrow> blk_page f \<Longrightarrow> inode s' f"
  using same_blocksD(6) [of s s' f] by (simp add: inode_def)

lemma same_blocks_field:
  assumes "same_blocks s s'" "inode s f" "blk_page f" "k < 256" "4 dvd k"
  shows "load32 (vm s') (f + of_nat k) = load32 (vm s) (f + of_nat k)"
  using inode_word(1) [OF assms(2,4,5)] blk_page_inode [OF assms(2,3,4)] by (intro same_blocks_load32 [OF assms(1)]) auto

lemma same_blocks_fblock:
  assumes "fs_ok s" "same_blocks s s'" "mapped_i s f i" "blk_page f"
  shows "fblock s' f i = fblock s f i" "mapped_i s' f i"
proof -
  have f: "inode s f" using assms(3) by (simp add: mapped_i_def)
  note ld = same_blocks_field [OF assms(2) f assms(4)]
  have ind: "load32 (vm s') (f_indirect f) = load32 (vm s) (f_indirect f)" using ld [of 176] by simp
  have dir: "load32 (vm s') (f_direct f i) = load32 (vm s) (f_direct f i)" if "i < NDIRECT"
    unfolding direct_offset [OF that] by (rule ld) (use that in \<open>simp_all add: word_less_nat_alt\<close>)
  have "view32 s' b (4 * unat i) = view32 s b (4 * unat i)" if "block_ok s b" "i < NINDIRECT" for b
    using that fs_okD(7) [OF assms(1), of b] less_imp_le
    by (intro same_blocks_view32 [OF assms(2)]) (auto simp: block_ok_def word_less_nat_alt word_le_nat_alt)
  then show "fblock s' f i = fblock s f i" using assms(3) by (auto simp: fblock_def ind dir mapped_i_def Let_def)
  show "mapped_i s' f i"
    using assms(3) same_blocks_inode [OF assms(2) _ assms(4)] same_blocks_block_ok [OF assms(2,1)] by (auto simp: mapped_i_def ind)
qed

lemma same_blocks_dir:
  assumes "fs_ok s" "same_blocks s s'" "dir_ok s dir" "blk_page dir"
  shows "dir_blocks s' dir = dir_blocks s dir" "dir_ok s' dir"
    "load32 (vm s') (f_type dir) = load32 (vm s) (f_type dir)"
    "(\<And>b k. b < MAXBLK \<Longrightarrow> k < FILE2BLK \<Longrightarrow> P' b k = P b k) \<Longrightarrow>
       dir_search P' s' dir (dir_blocks s' dir) = dir_search P s dir (dir_blocks s dir)"
proof -
  have d: "inode s dir" using assms(3) by (simp add: dir_ok_def)
  note ld = same_blocks_field [OF assms(2) d assms(4)]
  show b: "dir_blocks s' dir = dir_blocks s dir" using ld [of 128] by (simp add: dir_blocks_def)
  show "load32 (vm s') (f_type dir) = load32 (vm s) (f_type dir)" using ld [of 132] by simp
  have i: "load32 (vm s') (f_indirect dir) = load32 (vm s) (f_indirect dir)" using ld [of 176] by simp
  have dir: "dblock_ok s' dir i \<and> fblock s' dir i = fblock s dir i \<and> fblock s dir i < MAXBLK" if "i \<in> set (dir_blocks s dir)" for i
  proof -
    have o: "dblock_ok s dir i" using assms(3) that by (simp add: dir_ok_def)
    then have m: "mapped_i s dir i" "fblock s dir i < nblocks s" by (simp_all add: dblock_ok_def block_ok_def)
    show ?thesis
      using o same_blocks_fblock [OF assms(1,2) m(1) assms(4)] same_blocks_block_ok [OF assms(2,1)] i
        fs_okD(7) [OF assms(1) m(2)] same_blocks_fs_ok(1) [OF assms(2,1)] by (simp add: dblock_ok_def)
  qed
  then show "dir_ok s' dir" using same_blocks_inode [OF assms(2) d assms(4)] b by (simp add: dir_ok_def)
  assume "\<And>b k. b < MAXBLK \<Longrightarrow> k < FILE2BLK \<Longrightarrow> P' b k = P b k"
  then show "dir_search P' s' dir (dir_blocks s' dir) = dir_search P s dir (dir_blocks s dir)"
    unfolding b using dir by (intro dir_search_cong) auto
qed

lemma blk_page_root: "fs_ok s \<Longrightarrow> blk_page (root s)"
  using blk_page_baddr [of 1 8] fs_okD(1) [of s] by simp

lemma same_blocks_root:
  assumes "fs_ok s" "same_blocks s s'" "dir_ok s (root s)"
  shows "root s' = root s" "dir_ok s' (root s')" "load32 (vm s') (f_type (root s')) = load32 (vm s) (f_type (root s))"
    "length name < MAXNAMELEN \<Longrightarrow> lookup s' (root s') name = lookup s (root s) name"
    "free_entry s' (root s') = free_entry s (root s)"
proof -
  note d = same_blocks_dir [OF assms blk_page_root [OF assms(1)]]
  show [simp]: "root s' = root s" using same_blocksD(1) [OF assms(2)] by simp
  show "dir_ok s' (root s')" "load32 (vm s') (f_type (root s')) = load32 (vm s) (f_type (root s))" using d(2,3) by simp_all
  have v: "blk_view s' b i = blk_view s b i" if "b < MAXBLK" "i < 4096" for b i
    using same_blocks_views(2) [OF assms(2)] that by simp
  show "free_entry s' (root s') = free_entry s (root s)"
    unfolding free_entry_def \<open>root s' = root s\<close> by (rule d(4)) (simp add: is_free_entry_def v)
  assume "length name < MAXNAMELEN"
  then show "lookup s' (root s') name = lookup s (root s) name"
    unfolding lookup_def \<open>root s' = root s\<close> by (intro d(4)) (simp add: name_is_def v)
qed

section \<open>The request page and the shared pages\<close>

lemma unat_REQVA: "j < 4096 \<Longrightarrow> unat (REQVA + of_nat j) = 0x0ffff000 + j"
  by (subst unat_add_small) simp_all

lemma VPN_REQVA: "j < 4096 \<Longrightarrow> VPN (REQVA + of_nat j) = 0xffff"
proof -
  assume j: "j < 4096"
  have "unat (VPN (REQVA + of_nat j)) = (4096 * 0xffff + j) div 4096" unfolding unat_VPN unat_REQVA [OF j] by simp
  also have "\<dots> = 0xffff" using j by (subst div_mult_self4) simp_all
  finally show ?thesis by (simp add: word_unat_eq_iff)
qed

lemma in_REQVA: "in_range REQVA BY2PG a \<longleftrightarrow> VPN a = 0xffff"
proof -
  have "in_range REQVA BY2PG a \<longleftrightarrow> 0x0ffff000 \<le> unat a \<and> unat a < 0x0ffff000 + 4096"
    using in_range_unat [of REQVA BY2PG a] by simp
  also have "\<dots> \<longleftrightarrow> unat a div 4096 = 0xffff" by (auto simp: div_nat_eqI)
  finally show ?thesis by (simp add: word_unat_eq_iff unat_VPN)
qed

lemma not_blk_REQVA: "VPN a = 0xffff \<Longrightarrow> \<not> blk_page a"
  by (simp add: blk_page_def)

lemma recv_page:
  assumes "m_perm m AND PTE_V \<noteq> 0"
  shows "pte_v (fsys (ipc_recv m s)) 0xffff" "j < 4096 \<Longrightarrow> vm (fsys (ipc_recv m s)) (REQVA + of_nat j) = m_page m j"
    "pte_v (fsys (ipc_recv m s)) v = (v = 0xffff \<or> pte_v (fsys s) v)"
  using assms VPN_REQVA [of 0] VPN_REQVA [of j] unat_REQVA [of j]
  by (auto simp: ipc_recv_def Let_def in_REQVA unat_of_nat)

lemma recv_same: "m_stores m = [] \<Longrightarrow> same_blocks (fsys s) (fsys (ipc_recv m s))"
  using VPN_REQVA [of 0] not_blk_REQVA by (auto simp: ipc_recv_def Let_def same_blocks_def client_stores_def in_REQVA)

definition ffaddr :: "nat \<Rightarrow> u32" where
  "ffaddr i = FILEVA + of_nat i * BY2PG"

lemma unat_ffaddr: "i < MAXOPEN \<Longrightarrow> j < 4096 \<Longrightarrow> unat (ffaddr i + of_nat j) = 0x60000000 + 4096 * i + j"
  by (simp add: ffaddr_def unat_word_ariths unat_of_nat)

lemma VPN_ffaddr: "i < MAXOPEN \<Longrightarrow> j < 4096 \<Longrightarrow> VPN (ffaddr i + of_nat j) = 0x60000 + of_nat i"
proof -
  assume a: "i < MAXOPEN" "j < 4096"
  have "unat (VPN (ffaddr i + of_nat j)) = (4096 * (0x60000 + i) + j) div 4096" unfolding unat_VPN unat_ffaddr [OF a] by simp
  also have "\<dots> = 0x60000 + i" using a by (subst div_mult_self4) simp_all
  finally show ?thesis using a(1) by (simp add: word_unat_eq_iff unat_word_ariths unat_of_nat)
qed

lemma VPN_ffaddr_0 [simp]: "i < MAXOPEN \<Longrightarrow> VPN (ffaddr i) = 0x60000 + of_nat i"
  using VPN_ffaddr [of i 0] by simp

lemma ff_page_other: "i < MAXOPEN \<Longrightarrow> (0x60000 + of_nat i :: u32) \<noteq> 0xffff"
  "i < MAXOPEN \<Longrightarrow> VPN a = 0x60000 + of_nat i \<Longrightarrow> \<not> blk_page a"
  "i < MAXOPEN \<Longrightarrow> j < MAXOPEN \<Longrightarrow> (0x60000 + of_nat i :: u32) = 0x60000 + of_nat j \<longleftrightarrow> i = j"
  by (auto simp: word_unat_eq_iff unat_word_ariths unat_of_nat blk_page_def word_le_nat_alt)

lemma in_ffpage: "i < MAXOPEN \<Longrightarrow> in_range (ffaddr i) BY2PG a \<longleftrightarrow> VPN a = 0x60000 + of_nat i"
proof -
  assume i: "i < MAXOPEN"
  have "in_range (ffaddr i) BY2PG a \<longleftrightarrow> 0x60000000 + 4096 * i \<le> unat a \<and> unat a < 0x60000000 + 4096 * i + 4096"
    using in_range_unat [of "ffaddr i" BY2PG a] unat_ffaddr [OF i, of 0] i by simp
  also have "\<dots> \<longleftrightarrow> unat a div 4096 = 0x60000 + i" by (auto simp: div_nat_eqI)
  finally show ?thesis using i by (simp add: word_unat_eq_iff unat_VPN unat_word_ariths unat_of_nat)
qed

lemma ffaddr_legal: "i < MAXOPEN \<Longrightarrow> \<not> is_illegal_va (ffaddr i)"
  using unat_ffaddr [of i 0] by (simp add: is_illegal_va_def word_le_nat_alt word_less_nat_alt)

lemma ROUNDDOWN_ffaddr: "ROUNDDOWN (ffaddr i) BY2PG = ffaddr i"
proof -
  have "ffaddr i = push_bit 12 (0x60000 + of_nat i)" by (simp add: ffaddr_def push_bit_eq_mult algebra_simps)
  moreover have "push_bit 12 x AND mask 12 = 0" for x :: u32 by (rule bit_word_eqI) (auto simp: bit_simps)
  ultimately have "ffaddr i AND 0xfff = 0" unfolding mask12 by metis
  then show ?thesis by (rule ROUNDDOWN_self)
qed

lemma opentab_ok_ff: "opentab_ok s \<Longrightarrow> i < MAXOPEN \<Longrightarrow> o_ff (opentab s ! i) = ffaddr i"
  by (simp add: opentab_ok_def ffaddr_def)

section \<open>Opening a file\<close>

text \<open>Only the page of slot \<open>i\<close> may have changed, and it is mapped.\<close>

definition ff_write :: "nat \<Rightarrow> fs_st \<Rightarrow> fs_st \<Rightarrow> bool" where
  "ff_write i f f' \<longleftrightarrow> super f' = super f \<and> bitmap f' = bitmap f \<and> disk f' = disk f \<and> kalloc f' = kalloc f \<and>
     (\<forall>a. VPN a \<noteq> 0x60000 + of_nat i \<longrightarrow> vm f' a = vm f a) \<and>
     (\<forall>v. pte_v f' v = (v = 0x60000 + of_nat i \<or> pte_v f v))"

lemma ff_write_same: "i < MAXOPEN \<Longrightarrow> ff_write i f f' \<Longrightarrow> same_blocks f f'"
  using ff_page_other(2) [of i] unfolding ff_write_def same_blocks_def by metis

lemma open_take_ok:
  assumes "opentab_ok s" "i < MAXOPEN" "pte_v (fsys s) (0x60000 + of_nat i)"
  shows "\<exists>s'. open_take i s = Some ((o_fileid (opentab s ! i) + of_nat MAXOPEN, Some i), s') \<and>
    s' = s\<lparr>fsys := fsys s', opentab := opentab s'\<rparr> \<and> ff_write i (fsys s) (fsys s')"
proof -
  have f: "fill_ok (ffaddr i) BY2PG" using unat_ffaddr [OF assms(2), of 0] assms(2) by (simp add: fill_ok_def)
  have "ff_write i g (g\<lparr>vm := mem_fill (vm g) (ffaddr i) BY2PG 0\<rparr>)" if "pte_v g (0x60000 + of_nat i)" for g
    using that in_ffpage [OF assms(2)] by (auto simp: ff_write_def mem_fill_def)
  then show ?thesis using assms memset_fills [OF f]
    by (simp add: open_take_def Let_def opentab_ok_ff do_fs_def)
qed

lemma open_alloc_from_ok:
  assumes "opentab_ok s" "kalloc (fsys s) = []" "set is \<subseteq> {0..<MAXOPEN}" "\<exists>i\<in>set is. pageref (ffaddr i) s \<le> 1"
  shows "\<exists>i s'. i \<in> set is \<and> open_alloc_from is s = Some ((o_fileid (opentab s ! i) + of_nat MAXOPEN, Some i), s') \<and>
    ksend s' = ksend s \<and> replies s' = replies s \<and> ff_write i (fsys s) (fsys s')"
  using assms(3,4)
proof (induction "is")
  case (Cons i "is")
  have i: "i < MAXOPEN" using Cons.prems(1) by simp
  note ff = opentab_ok_ff [OF assms(1) i]
  consider "pageref (ffaddr i) s = 0" | "pageref (ffaddr i) s = 1" | "pageref (ffaddr i) s > 1" by linarith
  then show ?case
  proof cases
    case 1
    let ?f = "(fsys s)\<lparr>kalloc := [], vm := mem_fill (vm (fsys s)) (ffaddr i) BY2PG 0,
      pte_v := (pte_v (fsys s))(0x60000 + of_nat i := True), pte_dirty := (pte_dirty (fsys s))(0x60000 + of_nat i := False)\<rparr>"
    let ?s = "s\<lparr>fsys := ?f, pgref := (pgref s)(0x60000 + of_nat i := 1)\<rparr>"
    have m: "ecall_mem_alloc (ffaddr i) (fsys s) = (Inr (), ?f)"
      using assms(2) i ffaddr_legal [OF i] by (simp add: ecall_mem_alloc_def ROUNDDOWN_ffaddr)
    have w: "ff_write i (fsys s) ?f"
      using assms(2) in_ffpage [OF i] by (auto simp: ff_write_def mem_fill_def)
    have "opentab_ok ?s" using assms(1) by (simp add: opentab_ok_def)
    from open_take_ok [OF this i] obtain s' where s': "open_take i ?s = Some ((o_fileid (opentab s ! i) + of_nat MAXOPEN, Some i), s')"
      "s' = ?s\<lparr>fsys := fsys s', opentab := opentab s'\<rparr>" "ff_write i ?f (fsys s')" by auto
    have "ff_write i (fsys s) (fsys s')" using w s'(3) by (simp add: ff_write_def)
    moreover have "ksend s' = ksend s" "replies s' = replies s" by (subst s'(2), simp)+
    moreover have "open_alloc_from (i # is) s = open_take i ?s" using 1 m ff i by (simp add: Let_def)
    ultimately show ?thesis using s'(1) by (intro exI [of _ i] exI [of _ s']) simp
  next
    case 2
    then have "pte_v (fsys s) (0x60000 + of_nat i)" using i by (auto simp: pageref_def split: if_splits)
    from open_take_ok [OF assms(1) i this] obtain s' where s': "open_take i s = Some ((o_fileid (opentab s ! i) + of_nat MAXOPEN, Some i), s')"
      "s' = s\<lparr>fsys := fsys s', opentab := opentab s'\<rparr>" "ff_write i (fsys s) (fsys s')" by auto
    moreover have "ksend s' = ksend s" "replies s' = replies s" by (subst s'(2), simp)+
    moreover have "open_alloc_from (i # is) s = open_take i s" using 2 ff by (simp add: Let_def)
    ultimately show ?thesis by (intro exI [of _ i] exI [of _ s']) simp
  next
    case 3
    then have "open_alloc_from (i # is) s = open_alloc_from is s" "\<exists>i\<in>set is. pageref (ffaddr i) s \<le> 1"
      using ff Cons.prems(2) by (auto simp: Let_def)
    then show ?thesis using Cons.IH Cons.prems(1) by auto
  qed
qed simp

lemma store32_far: "(\<And>k. k < 4 \<Longrightarrow> x \<noteq> a + of_nat k) \<Longrightarrow> store32 m a v x = m x"
  by (auto simp: store32_def dest: meta_spec [of _ 0] meta_spec [of _ "Suc 0"] meta_spec [of _ 2] meta_spec [of _ 3])

lemma ff_word:
  assumes "i < MAXOPEN" "k + 4 \<le> 4096" "4 dvd k"
  shows "aligned4 (ffaddr i + of_nat k)" "VPN (ffaddr i + of_nat k) = 0x60000 + of_nat i"
    "k \<noteq> l \<Longrightarrow> l < 4096 \<Longrightarrow> ffaddr i + of_nat k \<noteq> ffaddr i + of_nat l"
    "\<not> (k \<le> l \<and> l < k + 4) \<Longrightarrow> l < 4096 \<Longrightarrow> store32 m (ffaddr i + of_nat k) v (ffaddr i + of_nat l) = m (ffaddr i + of_nat l)"
proof -
  have u: "unat (ffaddr i + of_nat k) = 0x60000000 + 4096 * i + k" using unat_ffaddr [OF assms(1), of k] assms(2) by simp
  show "aligned4 (ffaddr i + of_nat k)" unfolding u using assms(3) by (intro dvd_add dvd_mult2) simp_all
  show "VPN (ffaddr i + of_nat k) = 0x60000 + of_nat i" using VPN_ffaddr [OF assms(1)] assms(2) by simp
  show "ffaddr i + of_nat k \<noteq> ffaddr i + of_nat l" if "k \<noteq> l" "l < 4096"
    using u unat_ffaddr [OF assms(1) that(2)] that(1) by (metis add_left_cancel)
  assume l: "\<not> (k \<le> l \<and> l < k + 4)" "l < 4096"
  have "ffaddr i + of_nat l \<noteq> ffaddr i + of_nat k + of_nat j" if "j < 4" for j
  proof -
    have "ffaddr i + of_nat k + of_nat j = ffaddr i + of_nat (k + j)" by simp
    moreover have "unat (ffaddr i + of_nat (k + j)) = 0x60000000 + 4096 * i + (k + j)"
      using that assms(2) by (intro unat_ffaddr [OF assms(1)]) simp
    moreover have "l \<noteq> k + j" using l(1) that by auto
    ultimately show ?thesis using unat_ffaddr [OF assms(1) l(2)] by (metis add_left_cancel)
  qed
  then show "store32 m (ffaddr i + of_nat k) v (ffaddr i + of_nat l) = m (ffaddr i + of_nat l)" by (rule store32_far)
qed

lemma copy_struct_ok:
  assumes "i < MAXOPEN" "pte_v f (0x60000 + of_nat i)" "inode f p"
  shows "copy_struct (f_file (ffaddr i)) p BY2FILE f = Some (f\<lparr>vm := mem_copy (vm f) (f_file (ffaddr i)) p BY2FILE\<rparr>)"
    "VPN a \<noteq> 0x60000 + of_nat i \<Longrightarrow> mem_copy m (f_file (ffaddr i)) p BY2FILE a = m a"
    "j < 256 \<Longrightarrow> mem_copy m (f_file (ffaddr i)) p BY2FILE (ffaddr i + of_nat (16 + j)) = m (p + of_nat j)"
proof -
  have e: "p + 256 - 1 = p + of_nat 255" "f_file (ffaddr i) + 256 - 1 = ffaddr i + of_nat 271" by simp_all
  have "VPN (f_file (ffaddr i)) = 0x60000 + of_nat i" using VPN_ffaddr [OF assms(1), of 16] by simp
  then show "copy_struct (f_file (ffaddr i)) p BY2FILE f = Some (f\<lparr>vm := mem_copy (vm f) (f_file (ffaddr i)) p BY2FILE\<rparr>)"
    using assms(2,3) inode_byte(2) [OF assms(3), of 255] VPN_ffaddr [OF assms(1), of 271]
    unfolding copy_struct_def e by (simp add: inode_def)
  have u: "unat (f_file (ffaddr i)) = 0x60000000 + 4096 * i + 16" using unat_ffaddr [OF assms(1), of 16] by simp
  have "VPN a = 0x60000 + of_nat i" if "in_range (f_file (ffaddr i)) BY2FILE a"
  proof -
    have "in_range (ffaddr i) BY2PG a"
      using that in_range_unat [of "f_file (ffaddr i)" BY2FILE a] in_range_unat [of "ffaddr i" BY2PG a] u
        unat_ffaddr [OF assms(1), of 0] assms(1) by simp
    then show ?thesis using in_ffpage [OF assms(1)] by simp
  qed
  then show "VPN a \<noteq> 0x60000 + of_nat i \<Longrightarrow> mem_copy m (f_file (ffaddr i)) p BY2FILE a = m a" by (auto simp: mem_copy_def)
  show "j < 256 \<Longrightarrow> mem_copy m (f_file (ffaddr i)) p BY2FILE (ffaddr i + of_nat (16 + j)) = m (p + of_nat j)"
    using mem_copy_nth [of j BY2FILE "f_file (ffaddr i)" m p] u assms(1) by (simp add: add.assoc)
qed

text \<open>What the client of a successful open finds in the page: the identifier, and the file as it is in its directory.\<close>

definition ff_holds :: "nat \<Rightarrow> u32 \<Rightarrow> u32 \<Rightarrow> fs_st \<Rightarrow> bool" where
  "ff_holds i fileid p f \<longleftrightarrow> load32 (vm f) (ffaddr i) = devfile_id \<and> load32 (vm f) (f_fileid (ffaddr i)) = fileid \<and>
     (\<forall>j<256. vm f (ffaddr i + of_nat (16 + j)) = vm f (p + of_nat j))"

lemma open_finish_ok:
  assumes "i < MAXOPEN" "length (opentab s) = MAXOPEN" "o_ff (opentab s ! i) = ffaddr i" "ksend s = []"
    and "pte_v (fsys s) (0x60000 + of_nat i)" "pte_v (fsys s) 0xffff" "inode (fsys s) p" "VPN p \<noteq> 0x60000 + of_nat i"
  shows "\<exists>s'. open_finish whom i p s = Some s' \<and> ksend s' = [] \<and>
    replies s' = replies s @ [\<lparr>r_whom = whom, r_val = 0, r_srcva = ffaddr i, r_perm = share_perm\<rparr>] \<and>
    opentab s' = (opentab s)[i := (opentab s ! i)\<lparr>o_file := p, o_mode := load32 (vm (fsys s)) req_omode\<rparr>] \<and>
    ff_write i (fsys s) (fsys s') \<and> ff_holds i (o_fileid (opentab s ! i)) p (fsys s')"
proof -
  let ?f = "fsys s" and ?id = "o_fileid (opentab s ! i)" and ?om = "load32 (vm (fsys s)) req_omode"
  define m1 where "m1 = mem_copy (vm ?f) (f_file (ffaddr i)) p BY2FILE"
  define m2 where "m2 = store32 m1 (f_fileid (ffaddr i)) ?id"
  define m3 where "m3 = store32 (store32 m2 (fd_omode (ffaddr i)) ?om) (ffaddr i) devfile_id"
  note c = copy_struct_ok [OF assms(1,5,7)]
  have off: "f_fileid (ffaddr i) = ffaddr i + of_nat 12" "fd_omode (ffaddr i) = ffaddr i + of_nat 8" "ffaddr i = ffaddr i + of_nat 0"
    by simp_all
  note w = ff_word [OF assms(1), of 12] ff_word [OF assms(1), of 8] ff_word [OF assms(1), of 0]
  have out2: "m2 a = vm ?f a" if "VPN a \<noteq> 0x60000 + of_nat i" for a
    using that w(1,2) c(2) [OF that] by (simp add: m2_def store32_page) (simp add: m1_def)
  have out: "m3 a = vm ?f a" if "VPN a \<noteq> 0x60000 + of_nat i" for a
    using that w(5,6,9,10) out2 [OF that] by (simp add: m3_def store32_page)
  have VR: "VPN (REQVA + of_nat (1024 + k)) = 0xffff" if "k < 4" for k using that by (intro VPN_REQVA) simp
  have "m2 (REQVA + of_nat 1024 + of_nat k) = vm ?f (REQVA + of_nat 1024 + of_nat k)" if "k < 4" for k
    using VR [OF that] ff_page_other(1) [OF assms(1)] by (intro out2) simp
  then have om: "load32 m2 req_omode = ?om" by (intro load32_cong) simp
  have q: "VPN req_omode = 0xffff" using VR [of 0] by simp
  have run: "open_finish whom i p s = ipc_send whom 0 (ffaddr i) share_perm
      (s\<lparr>opentab := (opentab s)[i := (opentab s ! i)\<lparr>o_file := p, o_mode := ?om\<rparr>], fsys := ?f\<lparr>vm := m3\<rparr>\<rparr>)"
    using assms(3,5,6) c(1) w(2,6,10) q om
    by (simp add: open_finish_def do_fs_def stw_def ldw_def Let_def m1_def [symmetric] m2_def [symmetric])
       (simp add: m3_def)
  have "ff_write i ?f (?f\<lparr>vm := m3\<rparr>)" using out assms(5) by (auto simp: ff_write_def)
  moreover have "ff_holds i ?id p (?f\<lparr>vm := m3\<rparr>)"
  proof -
    have "load32 m3 (ffaddr i) = devfile_id" by (simp add: m3_def)
    moreover have "load32 m3 (f_fileid (ffaddr i)) = ?id"
      using w(1,5,9) by (simp add: m3_def m2_def load32_store32_other)
    moreover have "m3 (ffaddr i + of_nat (16 + j)) = m3 (p + of_nat j)" if "j < 256" for j
    proof -
      have "m3 (ffaddr i + of_nat (16 + j)) = m1 (ffaddr i + of_nat (16 + j))"
        using w(4) [of "16 + j" m1] w(8) [of "16 + j" m2] w(12) [of "16 + j"] that
        unfolding m3_def m2_def off(1,2) by (simp del: of_nat_add of_nat_numeral)
      also have "\<dots> = vm ?f (p + of_nat j)" using c(3) [OF that] by (simp add: m1_def)
      also have "\<dots> = m3 (p + of_nat j)" using out [of "p + of_nat j"] inode_byte(2) [OF assms(7) that] assms(8) by simp
      finally show ?thesis .
    qed
    ultimately show ?thesis by (simp add: ff_holds_def)
  qed
  ultimately show ?thesis unfolding run by (simp add: ipc_send_def assms(4))
qed

lemma get_str_ok:
  assumes "\<forall>j<length p. ldb (a + of_nat j) f = Some (p ! j)" "0 \<notin> set p" "ldb (a + of_nat (length p)) f = Some 0"
  shows "get_str a f = Some p"
  using assms
proof (induction p arbitrary: a)
  case Nil
  then show ?case by (subst get_str.simps) simp
next
  case (Cons c p)
  have "ldb (a + 1 + of_nat j) f = Some (p ! j)" if "j < length p" for j
    using Cons.prems(1) that by (auto simp: add.assoc dest: spec [of _ "Suc j"])
  moreover have "ldb (a + 1 + of_nat (length p)) f = Some 0" using Cons.prems(3) by (simp add: add.assoc)
  ultimately have "get_str (a + 1) f = Some p" using Cons.IH [of "a + 1"] Cons.prems(2) by simp
  moreover have "ldb a f = Some c" using Cons.prems(1) by (auto dest: spec [of _ 0])
  ultimately show ?case using Cons.prems(2) by (subst get_str.simps) auto
qed

text \<open>An open request is in the page.\<close>

definition req_is :: "u8 list \<Rightarrow> u32 \<Rightarrow> fs_st \<Rightarrow> bool" where
  "req_is path om f \<longleftrightarrow> pte_v f 0xffff \<and> length path < 1024 \<and> 0 \<notin> set path \<and>
     (\<forall>j<length path. vm f (REQVA + of_nat j) = path ! j) \<and> vm f (REQVA + of_nat (length path)) = 0 \<and>
     load32 (vm f) (REQVA + of_nat 1024) = om"

lemma req_is_read:
  assumes "req_is path om f"
  shows "get_str req_path f = Some path" "ldw req_omode f = Some om"
proof -
  have "ldb (REQVA + of_nat j) f = Some (vm f (REQVA + of_nat j))" if "j < 1024" for j
    using assms that VPN_REQVA [of j] by (simp add: ldb_def req_is_def)
  then show "get_str req_path f = Some path" using assms by (intro get_str_ok) (auto simp: req_is_def)
  show "ldw req_omode f = Some om" using assms VPN_REQVA [of 1024] by (simp add: ldw_def req_is_def)
qed

lemma ff_write_req:
  assumes "req_is path om f" "ff_write i f f'" "i < MAXOPEN"
  shows "req_is path om f'"
proof -
  have "vm f' (REQVA + of_nat j) = vm f (REQVA + of_nat j)" if "j < 4096" for j
    using assms(2) VPN_REQVA [OF that] ff_page_other(1) [OF assms(3)] by (auto simp: ff_write_def)
  moreover from this have "load32 (vm f') (REQVA + of_nat 1024) = load32 (vm f) (REQVA + of_nat 1024)"
    by (intro load32_cong) (simp only: add.assoc of_nat_add [symmetric])
  ultimately show ?thesis using assms(1,2) by (simp add: req_is_def ff_write_def)
qed

lemma load32_cong_at:
  assumes "\<And>k. k < 4 \<Longrightarrow> m (a + of_nat k) = m' (b + of_nat k)"
  shows "load32 m a = load32 m' b"
  using assms [of 0] assms [of 1] assms [of 2] assms [of 3] by (simp add: load32_def)

definition asks_open :: "msg \<Rightarrow> u8 list \<Rightarrow> u32 \<Rightarrow> bool" where
  "asks_open m path om \<longleftrightarrow> m_req m = 1 \<and> m_perm m AND PTE_V \<noteq> 0 \<and> m_stores m = [] \<and> length path < 1024 \<and> 0 \<notin> set path \<and>
     (\<forall>j<length path. m_page m j = path ! j) \<and> m_page m (length path) = 0 \<and>
     load32 (\<lambda>a. m_page m (unat a)) 1024 = om"

lemma asks_open_recv:
  assumes "asks_open m path om"
  shows "req_is path om (fsys (ipc_recv m s))"
proof -
  have p: "m_perm m AND PTE_V \<noteq> 0" using assms by (simp add: asks_open_def)
  have "vm (fsys (ipc_recv m s)) (REQVA + of_nat 1024 + of_nat k) = m_page m (unat (1024 + of_nat k :: u32))" if "k < 4" for k
  proof -
    have "unat (1024 + of_nat k :: u32) = 1024 + k" using that by (simp add: unat_word_ariths unat_of_nat)
    then show ?thesis using recv_page(2) [OF p, of "1024 + k"] that by (simp add: add.assoc [symmetric])
  qed
  then have "load32 (vm (fsys (ipc_recv m s))) (REQVA + of_nat 1024) = load32 (\<lambda>a. m_page m (unat a)) 1024"
    by (rule load32_cong_at)
  then show ?thesis using assms recv_page(1,2) [OF p] by (auto simp: req_is_def asks_open_def)
qed

definition open_reply :: "u32 \<Rightarrow> nat \<Rightarrow> reply" where
  "open_reply whom i = \<lparr>r_whom = whom, r_val = 0, r_srcva = ffaddr i, r_perm = share_perm\<rparr>"

text \<open>
  A successful open request, for a file system operation \<open>open_file\<close> that finds \<open>p\<close> whatever the pages outside the block cache
  hold, and leaves the file system in a state with \<open>Q\<close>.
\<close>

lemma serve_open_ok:
  assumes ok: "opentab_ok s" "kalloc (fsys s) = []" "ksend s = []" "\<exists>i<MAXOPEN. pageref (ffaddr i) s \<le> 1"
    and ids: "\<forall>i<MAXOPEN. 0 \<le> sint (o_fileid (opentab s ! i) + of_nat MAXOPEN)"
    and req: "req_is path om (fsys s)" and p: "blk_page p"
    and run: "\<And>f1. same_blocks (fsys s) f1 \<Longrightarrow>
      \<exists>f2. open_file om path f1 = Some (Inr p, f2) \<and> Q f2 \<and> inode f2 p \<and> (\<forall>a. pte_v f1 (VPN a) \<longrightarrow> pte_v f2 (VPN a))"
  shows "\<exists>i s' f2. i < MAXOPEN \<and> serve_open whom s = Some s' \<and> ksend s' = [] \<and> replies s' = replies s @ [open_reply whom i] \<and>
    opentab_ok s' \<and> o_file (opentab s' ! i) = p \<and> (\<forall>j. j \<noteq> i \<longrightarrow> opentab s' ! j = opentab s ! j) \<and>
    Q f2 \<and> same_blocks f2 (fsys s') \<and> ff_holds i (o_fileid (opentab s' ! i)) p (fsys s')"
proof -
  have len: "length (opentab s) = MAXOPEN" using ok(1) by (simp add: opentab_ok_def)
  have "\<exists>i\<in>set [0..<MAXOPEN]. pageref (ffaddr i) s \<le> 1" using ok(4) by auto
  from open_alloc_from_ok [OF ok(1,2) _ this] obtain i s1 where i: "i < MAXOPEN"
    and a: "open_alloc s = Some ((o_fileid (opentab s ! i) + of_nat MAXOPEN, Some i), s1)" "ksend s1 = []" "replies s1 = replies s"
      "ff_write i (fsys s) (fsys s1)"
    using ok(3) unfolding open_alloc_def by auto
  have tab: "opentab s1 = (opentab s)[i := (opentab s ! i)\<lparr>o_fileid := o_fileid (opentab s ! i) + of_nat MAXOPEN\<rparr>]"
    using open_alloc_from_some(3) [OF a(1) [unfolded open_alloc_def] refl] by simp
  have r1: "req_is path om (fsys s1)" by (rule ff_write_req [OF req a(4) i])
  obtain f2 where f2: "open_file om path (fsys s1) = Some (Inr p, f2)" "Q f2" "inode f2 p"
    "\<forall>a. pte_v (fsys s1) (VPN a) \<longrightarrow> pte_v f2 (VPN a)"
    using run [OF ff_write_same [OF i a(4)]] by blast
  let ?s2 = "s1\<lparr>fsys := f2\<rparr>"
  have pg: "pte_v f2 (0x60000 + of_nat i)" "pte_v f2 0xffff"
    using f2(4) [rule_format, of "ffaddr i"] f2(4) [rule_format, of REQVA] a(4) r1 i VPN_REQVA [of 0]
    by (simp_all add: ff_write_def req_is_def)
  have po: "VPN p \<noteq> 0x60000 + of_nat i" using ff_page_other(2) [OF i] p by blast
  have l2: "length (opentab ?s2) = MAXOPEN" "o_ff (opentab ?s2 ! i) = ffaddr i" "ksend ?s2 = []"
    using len i tab opentab_ok_ff [OF ok(1) i] a(2) by simp_all
  have f2': "pte_v (fsys ?s2) (0x60000 + of_nat i)" "pte_v (fsys ?s2) 0xffff" "inode (fsys ?s2) p" using pg f2(3) by simp_all
  obtain s' where s': "open_finish whom i p ?s2 = Some s'" "ksend s' = []" "replies s' = replies s1 @ [open_reply whom i]"
    "opentab s' = (opentab s1)[i := (opentab s1 ! i)\<lparr>o_file := p, o_mode := load32 (vm f2) req_omode\<rparr>]"
    "ff_write i f2 (fsys s')" "ff_holds i (o_fileid (opentab s1 ! i)) p (fsys s')"
    using open_finish_ok [OF i l2 f2' po, of whom] unfolding open_reply_def by auto
  have "serve_open whom s = Some s'"
    using a(1) ids [rule_format, OF i] req_is_read [OF r1] f2(1) s'(1)
    by (simp add: serve_open_def on_fs_def linorder_not_less [symmetric])
  moreover have "opentab_ok s'"
    using served_open [OF calculation len] tab_moves_ok ok(1) by (auto simp: served_def)
  ultimately show ?thesis using i s' a(3) f2(2) tab len ff_write_same [OF i s'(5)]
    by (intro exI [of _ i] exI [of _ s'] exI [of _ f2]) (simp add: nth_list_update)
qed

section \<open>Creating and opening through the server\<close>

text \<open>A file system whose root directory can be walked, with the kernel granting every page.\<close>

definition root_ok :: "fs_st \<Rightarrow> bool" where
  "root_ok f \<longleftrightarrow> fs_ok f \<and> kalloc f = [] \<and> dir_ok f (root f) \<and> load32 (vm f) (f_type (root f)) = FTYPE_DIR"

lemma root_ok_same:
  assumes "root_ok f" "same_blocks f f'"
  shows "root_ok f'" "root f' = root f" "length name < MAXNAMELEN \<Longrightarrow> lookup f' (root f') name = lookup f (root f) name"
    "free_entry f' (root f') = free_entry f (root f)" "b \<le> MAXBLK \<Longrightarrow> cached f' b = cached f b"
  using assms same_blocks_root [of f f'] same_blocks_fs_ok(3) [OF assms(2)] same_blocksD(4) [OF assms(2)]
    same_blocks_views(1) [OF assms(2)] by (simp_all add: root_ok_def)

lemma open_file_create:
  assumes "root_ok f" "name_ok name" "lookup f (root f) name = None" "free_entry f (root f) = Some (b, k)"
    and "om AND O_CREAT = O_CREAT"
  shows "b < MAXBLK" "k < FILE2BLK"
    "\<exists>f2. open_file om (slash # name) f = Some (Inr (entry_addr b k), f2) \<and>
      (root_ok f2 \<and> lookup f2 (root f2) name = Some (b, k) \<and> cached f2 b \<and>
       (\<forall>m. name_ok m \<longrightarrow> m \<noteq> name \<longrightarrow> lookup f2 (root f2) m = lookup f (root f) m)) \<and>
      inode f2 (entry_addr b k) \<and> (\<forall>a. pte_v f (VPN a) \<longrightarrow> pte_v f2 (VPN a))"
proof -
  have f: "fs_ok f" "kalloc f = []" "dir_ok f (root f)" "load32 (vm f) (f_type (root f)) = FTYPE_DIR"
    using assms(1) by (simp_all add: root_ok_def)
  obtain i where "i \<in> set (dir_blocks f (root f))" "b = fblock f (root f) i" and k: "k < FILE2BLK"
    using dir_search_some [OF assms(4) [unfolded free_entry_def]] by blast
  then have "b < nblocks f" using f(3) by (auto simp: dir_ok_def dblock_ok_def block_ok_def)
  then show b: "b < MAXBLK" using fs_okD(7) [OF f(1)] by simp
  show "k < FILE2BLK" by (rule k)
  obtain s1 f2 where c: "file_create (slash # name) f = Some (Inr (entry_addr b k), f2)" "loads f s1" "name_written b k name s1 f2"
    by (rule file_create_ok [OF f assms(2-4)])
  note l = created_lookup [OF f(1,3) c(2,3) assms(2-4)]
  have w: "page_write b s1 f2" "cached s1 b" using c(3) by (simp_all add: name_written_def)
  have "root_ok f2" using l(1,2,3,5) f(2,4) page_writeD(4) [OF w(1)] loadsD(4) [OF c(2)] by (simp add: root_ok_def)
  moreover have "cached f2 b" using w page_writeD(6) [OF w(1)] by simp
  moreover have "inode f2 (entry_addr b k)" using entry_inode [OF calculation(2) _ k] b by simp
  moreover have "\<forall>a. pte_v f (VPN a) \<longrightarrow> pte_v f2 (VPN a)" using loadsD(5) [OF c(2)] page_writeD(5) [OF w(1)] by simp
  ultimately show "\<exists>f2. open_file om (slash # name) f = Some (Inr (entry_addr b k), f2) \<and>
      (root_ok f2 \<and> lookup f2 (root f2) name = Some (b, k) \<and> cached f2 b \<and>
       (\<forall>m. name_ok m \<longrightarrow> m \<noteq> name \<longrightarrow> lookup f2 (root f2) m = lookup f (root f) m)) \<and>
      inode f2 (entry_addr b k) \<and> (\<forall>a. pte_v f (VPN a) \<longrightarrow> pte_v f2 (VPN a))"
    using c(1) assms(5) l(3,4,6) by (intro exI [of _ f2]) (simp add: open_file_def)
qed

lemma open_file_find:
  assumes "root_ok f" "name_ok name" "lookup f (root f) name = Some (b, k)" "cached f b" "b < MAXBLK" "k < FILE2BLK"
    and "om AND O_CREAT \<noteq> O_CREAT" "om AND O_MKDIR \<noteq> O_MKDIR"
  shows "\<exists>f2. open_file om (slash # name) f = Some (Inr (entry_addr b k), f2) \<and> True \<and> inode f2 (entry_addr b k) \<and>
      (\<forall>a. pte_v f (VPN a) \<longrightarrow> pte_v f2 (VPN a))"
proof -
  have f: "fs_ok f" "kalloc f = []" "dir_ok f (root f)" "load32 (vm f) (f_type (root f)) = FTYPE_DIR"
    using assms(1) by (simp_all add: root_ok_def)
  have n: "length name < MAXNAMELEN" using assms(2) by (simp add: name_ok_def)
  obtain f1 where f1: "loads f f1" "dir_lookup (root f) name f = Some (Inr (entry_addr b k), set_parent (entry_addr b k) (root f) f1)"
    using dir_lookup_ok [OF f(1-3) n] assms(3) by auto
  have "cached f1 b" using loads_cached [OF f1(1) _ assms(4)] assms(5) by simp
  then have "inode (set_parent (entry_addr b k) (root f) f1) (entry_addr b k)"
    using entry_inode [of f1 b k] assms(5,6) by (simp add: set_parent_def inode_def)
  moreover have "\<forall>a. pte_v f (VPN a) \<longrightarrow> pte_v (set_parent (entry_addr b k) (root f) f1) (VPN a)"
    using loadsD(5) [OF f1(1)] by (simp add: set_parent_def)
  ultimately show ?thesis using assms(7,8) f1(2) walk_name [OF assms(2) root_inode [OF f(1)] f(4)]
    by (simp add: open_file_def file_open_def)
qed

lemma sint_nonneg: "unat w < 2 ^ 31 \<Longrightarrow> 0 \<le> sint (w :: u32)"
  by (simp add: sint_small)

lemma fileid_next:
  assumes "unat w < n" "n \<le> 2 ^ 31 - 1024"
  shows "unat (w + of_nat MAXOPEN :: u32) < n + 1024" "0 \<le> sint (w + of_nat MAXOPEN)"
proof -
  have "unat (w + of_nat MAXOPEN) = unat w + 1024" using assms by (simp add: unat_word_ariths)
  then show "unat (w + of_nat MAXOPEN) < n + 1024" "0 \<le> sint (w + of_nat MAXOPEN)"
    using assms sint_nonneg [of "w + of_nat MAXOPEN"] by linarith+
qed

lemma recv_state:
  assumes "asks_open m path om" "\<exists>i<MAXOPEN. m_refs m (0x60000 + of_nat i) \<le> 1"
  shows "\<exists>i<MAXOPEN. pageref (ffaddr i) (ipc_recv m s) \<le> 1" "opentab_ok (ipc_recv m s) = opentab_ok s"
    "same_blocks (fsys s) (fsys (ipc_recv m s))" "serve (m # ms) s = serve_open (m_whom m) (ipc_recv m s) \<bind> serve ms"
  using assms recv_same [of m s]
  by (auto simp: pageref_def opentab_ok_def asks_open_def Let_def serve_request_def ipc_recv_def)

text \<open>The two requests: one that creates the file and one that finds it.\<close>

lemma create_request:
  assumes fs: "root_ok (fsys s)" "name_ok name" "lookup (fsys s) (root (fsys s)) name = None"
      "free_entry (fsys s) (root (fsys s)) = Some (b, k)"
    and tab: "opentab_ok s" "ksend s = []" "\<forall>i<MAXOPEN. unat (o_fileid (opentab s ! i)) < 2 ^ 30"
    and m: "asks_open m (slash # name) om" "om AND O_CREAT = O_CREAT" "\<exists>i<MAXOPEN. m_refs m (0x60000 + of_nat i) \<le> 1"
  obtains i t where "i < MAXOPEN" "serve_open (m_whom m) (ipc_recv m s) = Some t" "ksend t = []" "opentab_ok t"
    "replies t = replies s @ [open_reply (m_whom m) i]" "o_file (opentab t ! i) = entry_addr b k" "tab_moves 1 s t"
    "root_ok (fsys t)" "lookup (fsys t) (root (fsys t)) name = Some (b, k)" "cached (fsys t) b"
proof -
  let ?p = "entry_addr b k" and ?s = "ipc_recv m s"
  note r = recv_state [OF m(1,3), where s = s]
  note bk = open_file_create(1,2) [OF fs m(2)]
  have n: "length name < MAXNAMELEN" using fs(2) by (simp add: name_ok_def)
  have p: "blk_page ?p" using blk_page_baddr [of b "256 * k"] bk by (simp add: entry_addr_def)
  define Q where "Q f \<longleftrightarrow> root_ok f \<and> lookup f (root f) name = Some (b, k) \<and> cached f b" for f
  have c: "\<exists>f2. open_file om (slash # name) f1 = Some (Inr ?p, f2) \<and> Q f2 \<and> inode f2 ?p \<and> (\<forall>a. pte_v f1 (VPN a) \<longrightarrow> pte_v f2 (VPN a))"
    if "same_blocks (fsys ?s) f1" for f1
  proof -
    note g = root_ok_same [OF fs(1) same_blocks_trans [OF r(3) that]]
    show ?thesis using open_file_create(3) [OF g(1) fs(2) _ _ m(2), of b k] g(3) [OF n] g(4) fs(3,4) by (auto simp: Q_def)
  qed
  have ids: "\<forall>i<MAXOPEN. 0 \<le> sint (o_fileid (opentab ?s ! i) + of_nat MAXOPEN)"
    using tab(3) fileid_next(2) [of _ "2 ^ 30"] by simp
  have k: "kalloc (fsys ?s) = []" "opentab_ok ?s" "ksend ?s = []"
    using root_ok_same(1) [OF fs(1) r(3)] r(2) tab(1,2) by (simp_all add: root_ok_def)
  obtain i t f2 where t: "i < MAXOPEN" "serve_open (m_whom m) ?s = Some t" "ksend t = []"
    "replies t = replies s @ [open_reply (m_whom m) i]" "opentab_ok t" "o_file (opentab t ! i) = ?p" "Q f2" "same_blocks f2 (fsys t)"
    using serve_open_ok [OF k(2,1,3) r(1) ids asks_open_recv [OF m(1)] p c, of "m_whom m"] by auto
  have "tab_moves 1 s t" using served_open [OF t(2)] k(2) by (simp add: served_def opentab_ok_def tab_moves_def)
  moreover have "root_ok (fsys t)" "lookup (fsys t) (root (fsys t)) name = Some (b, k)" "cached (fsys t) b"
    using root_ok_same [OF _ t(8)] t(7) n bk(1) by (simp_all add: Q_def)
  ultimately show thesis using that t by blast
qed

lemma open_request:
  assumes fs: "root_ok (fsys s)" "name_ok name" "lookup (fsys s) (root (fsys s)) name = Some (b, k)" "cached (fsys s) b"
      "b < MAXBLK" "k < FILE2BLK"
    and tab: "opentab_ok s" "ksend s = []" "\<forall>i<MAXOPEN. unat (o_fileid (opentab s ! i)) < 2 ^ 30 + 1024"
    and m: "asks_open m (slash # name) om" "om AND O_CREAT \<noteq> O_CREAT" "om AND O_MKDIR \<noteq> O_MKDIR"
      "\<exists>i<MAXOPEN. m_refs m (0x60000 + of_nat i) \<le> 1"
  obtains j u where "j < MAXOPEN" "serve_open (m_whom m) (ipc_recv m s) = Some u" "replies u = replies s @ [open_reply (m_whom m) j]"
    "o_file (opentab u ! j) = entry_addr b k" "\<forall>l. l \<noteq> j \<longrightarrow> opentab u ! l = opentab s ! l"
    "ff_holds j (o_fileid (opentab u ! j)) (entry_addr b k) (fsys u)"
proof -
  let ?p = "entry_addr b k" and ?s = "ipc_recv m s"
  note r = recv_state [OF m(1,4), where s = s]
  have n: "length name < MAXNAMELEN" using fs(2) by (simp add: name_ok_def)
  have p: "blk_page ?p" using blk_page_baddr [of b "256 * k"] fs(5,6) by (simp add: entry_addr_def)
  have o: "\<exists>f3. open_file om (slash # name) f1 = Some (Inr ?p, f3) \<and> True \<and> inode f3 ?p \<and> (\<forall>a. pte_v f1 (VPN a) \<longrightarrow> pte_v f3 (VPN a))"
    if "same_blocks (fsys ?s) f1" for f1
  proof -
    note g = root_ok_same [OF fs(1) same_blocks_trans [OF r(3) that]]
    show ?thesis using open_file_find [OF g(1) fs(2) _ _ fs(5,6) m(2,3)] g(3) [OF n] g(5) [of b] fs by simp
  qed
  have ids: "\<forall>i<MAXOPEN. 0 \<le> sint (o_fileid (opentab ?s ! i) + of_nat MAXOPEN)"
    using tab(3) fileid_next(2) [of _ "2 ^ 30 + 1024"] by simp
  have k: "kalloc (fsys ?s) = []" "opentab_ok ?s" "ksend ?s = []"
    using root_ok_same(1) [OF fs(1) r(3)] r(2) tab(1,2) by (simp_all add: root_ok_def)
  show thesis
    using serve_open_ok [OF k(2,1,3) r(1) ids asks_open_recv [OF m(1)] p o, of "m_whom m"] that by auto
qed

lemma fileid_moved:
  assumes "tab_moves 1 s t" "opentab_ok s" "\<forall>i<MAXOPEN. unat (o_fileid (opentab s ! i)) < 2 ^ 30"
  shows "\<forall>i<MAXOPEN. unat (o_fileid (opentab t ! i)) < 2 ^ 30 + 1024"
proof (intro allI impI)
  fix l assume l: "l < MAXOPEN"
  then have "o_fileid (opentab t ! l) = o_fileid (opentab s ! l) \<or> o_fileid (opentab t ! l) = o_fileid (opentab s ! l) + of_nat MAXOPEN"
    using assms(1,2) by (auto simp: tab_moves_def entry_moves_def opentab_ok_def le_Suc_eq)
  then show "unat (o_fileid (opentab t ! l)) < 2 ^ 30 + 1024"
    using assms(3) [rule_format, OF l] fileid_next(1) [of "o_fileid (opentab s ! l)" "2 ^ 30"] by auto
qed

section \<open>A small server\<close>

text \<open>The server of \<open>root_fs\<close> right after \<open>serve_init\<close>, and some of its clients' messages.\<close>

definition serv0 :: serv_st where
  "serv0 = serve_init \<lparr>fsys = root_fs, opentab = replicate MAXOPEN \<lparr>o_file = 0, o_fileid = 0, o_mode = 0, o_ff = 0\<rparr>,
     pgref = (\<lambda>_. 0), ksend = [], replies = []\<rparr>"

lemma serv0_opentab:
  "length (opentab serv0) = MAXOPEN"
  "i < MAXOPEN \<Longrightarrow> opentab serv0 ! i = \<lparr>o_file = 0, o_fileid = of_nat i, o_mode = 0, o_ff = ffaddr i\<rparr>"
  by (simp_all add: serv0_def serve_init_def nth_enumerate_eq ffaddr_def del: replicate.simps)

lemma serv0_fields [simp]: "fsys serv0 = root_fs" "ksend serv0 = []" "replies serv0 = []"
  by (simp_all add: serv0_def serve_init_def)

lemma serv0_ok: "opentab_ok serv0"
  using serv0_opentab by (auto simp: opentab_ok_def ffaddr_def unat_of_nat)

definition ab_msg :: "u32 \<Rightarrow> u8 \<Rightarrow> msg" where
  "ab_msg whom om_hi = \<lparr>m_req = 1, m_whom = whom, m_perm = PTE_V,
     m_page = (\<lambda>j. if j = 0 then 47 else if j = 1 then 97 else if j = 2 then 98 else if j = 1025 then om_hi else 0),
     m_refs = (\<lambda>_. 0), m_stores = []\<rparr>"

lemma ab_msg_asks: "asks_open (ab_msg whom h) [47, 97, 98] (push_bit 8 (ucast h))"
  by (auto simp: asks_open_def ab_msg_def load32_def nth_Cons')

definition close_msg :: "u32 \<Rightarrow> u8 \<Rightarrow> msg" where
  "close_msg whom fileid = \<lparr>m_req = 4, m_whom = whom, m_perm = PTE_V, m_page = (\<lambda>j. if j = 0 then fileid else 0),
     m_refs = (\<lambda>_. 0), m_stores = []\<rparr>"

definition sync_msg :: "u32 \<Rightarrow> msg" where
  "sync_msg whom = \<lparr>m_req = 7, m_whom = whom, m_perm = PTE_V, m_page = (\<lambda>_. 0), m_refs = (\<lambda>_. 0), m_stores = []\<rparr>"

lemma sync_served:
  assumes "fs_ok (fsys s)" "ksend s = []"
  shows "\<exists>s'. serve [(sync_msg w)\<lparr>m_refs := r\<rparr>] s = Some s' \<and> opentab s' = opentab s \<and> pgref s' = r"
proof -
  let ?m = "(sync_msg w)\<lparr>m_refs := r\<rparr>"
  have "same_blocks (fsys s) (fsys (ipc_recv ?m s))" by (rule recv_same) (simp add: sync_msg_def)
  then have "fs_ok (fsys (ipc_recv ?m s))" by (rule same_blocks_fs_ok(3) [OF _ assms(1)])
  then obtain d where "fs_sync (fsys (ipc_recv ?m s)) = Some (fsys (ipc_recv ?m s)\<lparr>disk := d\<rparr>)"
    by (rule fs_sync_ok)
  moreover have "ksend (ipc_recv ?m s) = []" "opentab (ipc_recv ?m s) = opentab s" "pgref (ipc_recv ?m s) = r"
    using assms(2) by (simp_all add: ipc_recv_def Let_def)
  ultimately show ?thesis
    by (simp add: sync_msg_def serve_request_def serve_sync_def do_fs_def ipc_send_def Let_def)
qed

text \<open>A file that a client has open: the state after its request, with the shared page mapped by the client too.\<close>

lemma serv0_opened:
  obtains s i where "opentab_ok s" "ksend s = []" "fs_ok (fsys s)" "i < MAXOPEN" "pgref s = (\<lambda>_. 2)" "o_file (opentab s ! i) = entry_addr 7 0"
    "\<exists>t. serve [ab_msg 5 1] serv0 = Some t \<and> replies t = [open_reply 5 i] \<and> s = t\<lparr>pgref := (\<lambda>_. 2)\<rparr>"
proof -
  have n: "name_ok [97, 98]" by (simp add: name_ok_def)
  have f: "root_ok (fsys serv0)" using root_fs_ok root_fs_dir(3) root_fs_words' by (simp add: root_ok_def)
  have l: "lookup (fsys serv0) (root (fsys serv0)) [97, 98] = None" "free_entry (fsys serv0) (root (fsys serv0)) = Some (7, 0)"
    using root_fs_names(1) root_fs_names(2) [OF n] by simp_all
  have ids: "\<forall>i<MAXOPEN. unat (o_fileid (opentab serv0 ! i)) < 2 ^ 30" using serv0_opentab(2) by (simp add: unat_of_nat)
  have a: "asks_open (ab_msg 5 1) (slash # [97, 98]) O_CREAT" using ab_msg_asks [of 5 1] by simp
  have r: "\<exists>i<MAXOPEN. m_refs (ab_msg 5 1) (0x60000 + of_nat i) \<le> 1" by (intro exI [of _ 0]) (simp add: ab_msg_def)
  obtain i t where t: "i < MAXOPEN" "serve_open (m_whom (ab_msg 5 1)) (ipc_recv (ab_msg 5 1) serv0) = Some t" "ksend t = []" "opentab_ok t"
    "replies t = replies serv0 @ [open_reply (m_whom (ab_msg 5 1)) i]" "o_file (opentab t ! i) = entry_addr 7 0" "root_ok (fsys t)"
    by (rule create_request [OF f n l serv0_ok serv0_fields(2) ids a _ r]) simp_all
  have "serve [ab_msg 5 1] serv0 = Some t" using recv_state(4) [OF a r, of "[]" serv0] t(2) by simp
  then show thesis using that [of "t\<lparr>pgref := (\<lambda>_. 2)\<rparr>" i] t by (simp add: opentab_ok_def root_ok_def ab_msg_def)
qed

section \<open>Properties\<close>

text \<open>
  C9 (serv_create_open). A client creates a file in the root directory through the server and another one then opens the same path: both get a reply
  with the value 0 and a page, the table entries of both name the new directory entry, and the page of the second
  holds the device, the file identifier and a copy of the directory entry.
\<close>

theorem serv_create_open:
  assumes "root_ok (fsys s)" "name_ok name" "lookup (fsys s) (root (fsys s)) name = None"
      "free_entry (fsys s) (root (fsys s)) = Some (b, k)"
    and "opentab_ok s" "ksend s = []" "\<forall>i<MAXOPEN. unat (o_fileid (opentab s ! i)) < 2 ^ 30"
    and "asks_open m1 (slash # name) om1" "om1 AND O_CREAT = O_CREAT" "\<exists>i<MAXOPEN. m_refs m1 (0x60000 + of_nat i) \<le> 1"
    and "asks_open m2 (slash # name) om2" "om2 AND O_CREAT \<noteq> O_CREAT" "om2 AND O_MKDIR \<noteq> O_MKDIR"
      "\<exists>i<MAXOPEN. m_refs m2 (0x60000 + of_nat i) \<le> 1"
  shows "\<exists>s' i j. serve [m1, m2] s = Some s' \<and> i < MAXOPEN \<and> j < MAXOPEN \<and>
    replies s' = replies s @ [open_reply (m_whom m1) i, open_reply (m_whom m2) j] \<and>
    o_file (opentab s' ! i) = entry_addr b k \<and> o_file (opentab s' ! j) = entry_addr b k \<and>
    ff_holds j (o_fileid (opentab s' ! j)) (entry_addr b k) (fsys s')"
proof -
  note r = recv_state [OF assms(8,10), where s = s]
  obtain i t where t: "i < MAXOPEN" "serve_open (m_whom m1) (ipc_recv m1 s) = Some t" "ksend t = []" "opentab_ok t"
    "replies t = replies s @ [open_reply (m_whom m1) i]" "o_file (opentab t ! i) = entry_addr b k" "tab_moves 1 s t"
    "root_ok (fsys t)" "lookup (fsys t) (root (fsys t)) name = Some (b, k)" "cached (fsys t) b"
    by (rule create_request [OF assms(1-10)])
  note q = open_file_create(1,2) [OF assms(1-4,9)]
  obtain j u where u: "j < MAXOPEN" "serve_open (m_whom m2) (ipc_recv m2 t) = Some u"
    "replies u = replies t @ [open_reply (m_whom m2) j]" "o_file (opentab u ! j) = entry_addr b k"
    "\<forall>l. l \<noteq> j \<longrightarrow> opentab u ! l = opentab t ! l" "ff_holds j (o_fileid (opentab u ! j)) (entry_addr b k) (fsys u)"
    by (rule open_request [OF t(8) assms(2) t(9,10) q t(4,3) fileid_moved [OF t(7) assms(5,7)] assms(11-14)])
  have "serve [m1, m2] s = Some u"
    using r(4) [of "[m2]"] recv_state(4) [OF assms(11,14), of "[]" t] t(2) u(2) by simp
  moreover have "o_file (opentab u ! i) = entry_addr b k" using u(4,5) t(6) by (cases "i = j") auto
  ultimately show ?thesis using t(1,5) u by (intro exI [of _ u] exI [of _ i] exI [of _ j]) simp
qed

theorem serv_create_open_witness:
  "\<exists>s' i j. serve [ab_msg 5 1, ab_msg 6 0] serv0 = Some s' \<and> replies s' = [open_reply 5 i, open_reply 6 j] \<and>
     o_file (opentab s' ! i) = entry_addr 7 0 \<and> o_file (opentab s' ! j) = entry_addr 7 0"
proof -
  have n: "name_ok [97, 98]" by (simp add: name_ok_def)
  have f: "root_ok (fsys serv0)" using root_fs_ok root_fs_dir(3) root_fs_words' by (simp add: root_ok_def)
  have l: "lookup (fsys serv0) (root (fsys serv0)) [97, 98] = None" "free_entry (fsys serv0) (root (fsys serv0)) = Some (7, 0)"
    using root_fs_names(1) root_fs_names(2) [OF n] by simp_all
  have ids: "\<forall>i<MAXOPEN. unat (o_fileid (opentab serv0 ! i)) < 2 ^ 30" using serv0_opentab(2) by (simp add: unat_of_nat)
  have a: "asks_open (ab_msg 5 1) (slash # [97, 98]) O_CREAT" "asks_open (ab_msg 6 0) (slash # [97, 98]) 0"
    using ab_msg_asks [of 5 1] ab_msg_asks [of 6 0] by simp_all
  have r: "\<exists>i<MAXOPEN. m_refs (ab_msg w h) (0x60000 + of_nat i) \<le> 1" for w h by (intro exI [of _ 0]) (simp add: ab_msg_def)
  have w: "m_whom (ab_msg 5 1) = 5" "m_whom (ab_msg 6 0) = 6" by (simp_all add: ab_msg_def)
  show ?thesis using serv_create_open [OF f n l serv0_ok serv0_fields(2) ids a(1) _ r a(2) _ _ r] unfolding w by auto
qed

text \<open>
  C39 (serv_unopened_handle). An identifier below \<open>MAXOPEN\<close> is accepted before its slot was ever used, with the null pointer as its file: a client
  that sends a close request for it makes the server load from page 0, which is not mapped.
\<close>

theorem serv_unopened_handle:
  assumes "opentab_ok s" "i < MAXOPEN" "o_file (opentab s ! i) = 0" "o_fileid (opentab s ! i) = of_nat i"
    and "\<not> pte_v (fsys s) (0x60000 + of_nat i)" "\<not> pte_v (fsys s) 0"
    and "m_req m = 4" "m_perm m AND PTE_V \<noteq> 0" "load32 (\<lambda>a. m_page m (unat a)) 0 = of_nat i"
  shows "serve (m # ms) s = None"
proof -
  let ?s = "ipc_recv m s"
  have "vm (fsys ?s) (REQVA + of_nat k) = m_page m (unat (0 + of_nat k :: u32))" if "k < 4" for k
    using recv_page(2) [OF assms(8), of k] that by (simp add: unat_of_nat)
  then have "load32 (vm (fsys ?s)) REQVA = of_nat i" using load32_cong_at [of "vm (fsys ?s)" REQVA] assms(9) by metis
  then have l: "ldw req_fileid (fsys ?s) = Some (of_nat i)"
    using recv_page(1) [OF assms(8)] VPN_REQVA [of 0] by (simp add: ldw_def)
  have "pageref (ffaddr i) ?s = 0"
    using assms(2,5) recv_page(3) [OF assms(8)] ff_page_other(1) [OF assms(2)] by (simp add: pageref_def)
  moreover have "unat (of_nat i mod of_nat MAXOPEN :: u32) = i" using assms(2) by (simp add: unat_mod unat_of_nat)
  ultimately have o: "open_lookup (of_nat i) ?s = Inr i"
    using opentab_ok_ff [OF assms(1,2)] assms(4) by (simp add: open_lookup_def)
  have "VPN 128 = 0" by (simp add: VPN_div)
  then have "file_close 0 (fsys ?s) = None"
    using recv_page(3) [OF assms(8)] assms(6) by (simp add: file_close_def file_flush_def ldw_def)
  then have "serve_close (m_whom m) ?s = None" using l o assms(3) by (simp add: serve_close_def with_open_def do_fs_def)
  then show ?thesis using assms(7,8) by (simp add: serve_request_def)
qed

theorem serv_unopened_handle_witness: "serve [close_msg 5 3] serv0 = None"
proof -
  have "\<not> pte_v root_fs 0x60003" "\<not> pte_v root_fs 0" by (simp_all add: root_fs_def small_fs_def)
  then show ?thesis using serv_unopened_handle [OF serv0_ok, of 3 "close_msg 5 3" "[]"] serv0_opentab(2) [of 3]
    by (simp add: close_msg_def load32_def)
qed

text \<open>
  C10 (serv_handles). Identifiers of open files are not passed on: after any sequence of fewer than \<open>2\<^sup>2\<^sup>2\<close> messages of any clients that the server
  handles, the table of open files is well formed, and an identifier that was accepted before is either refused or
  still denotes the same entry of the table, with the same page, mode and directory entry, so no open request
  in between got it. What the directory entry holds is not part of the statement: it is used again by another file
  when the file is removed while it is open.
\<close>

theorem serv_handles:
  assumes "opentab_ok s" "open_lookup fileid s = Inr i" "serve ms s = Some s'" "length ms < 2 ^ 22"
  shows "opentab_ok s' \<and>
    (open_lookup fileid s' = Inl E_INVAL \<or> open_lookup fileid s' = Inr i \<and> opentab s' ! i = opentab s ! i)"
proof -
  have len: "length (opentab s) = MAXOPEN" using assms(1) by (simp add: opentab_ok_def)
  have mv: "tab_moves (length ms) s s'" by (rule serve_moves [OF assms(3) len])
  have i: "i = unat (fileid mod of_nat MAXOPEN)" "o_fileid (opentab s ! i) = fileid"
    using assms(2) by (auto simp: open_lookup_def Let_def split: if_splits)
  have "i < MAXOPEN" unfolding i(1) by (simp add: unat_mod)
  then obtain k where k: "k \<le> length ms" "o_fileid (opentab s' ! i) = fileid + of_nat (MAXOPEN * k)"
    "k = 0 \<longrightarrow> opentab s' ! i = opentab s ! i"
    using mv len i(2) unfolding tab_moves_def entry_moves_def by metis
  have "opentab s' ! i = opentab s ! i" if "o_fileid (opentab s' ! i) = fileid"
    using fileid_gen [of "opentab s ! i" k] k assms(4) that i(2) by simp
  then show ?thesis using tab_moves_ok [OF mv assms(1)] i(1) by (simp add: open_lookup_def Let_def)
qed

theorem serv_handles_witness:
  "\<exists>s s' fileid i. opentab_ok s \<and> open_lookup fileid s = Inr i \<and> o_file (opentab s ! i) = entry_addr 7 0 \<and>
     serve [(sync_msg 6)\<lparr>m_refs := (\<lambda>_. 2)\<rparr>] s = Some s' \<and> open_lookup fileid s' = Inr i \<and> opentab_ok s' \<and>
     o_file (opentab s' ! i) = entry_addr 7 0"
proof -
  obtain s i where s: "opentab_ok s" "ksend s = []" "fs_ok (fsys s)" "i < MAXOPEN" "pgref s = (\<lambda>_. 2)" "o_file (opentab s ! i) = entry_addr 7 0"
    by (rule serv0_opened) blast
  obtain s' where s': "serve [(sync_msg 6)\<lparr>m_refs := (\<lambda>_. 2)\<rparr>] s = Some s'" "opentab s' = opentab s" "pgref s' = (\<lambda>_. 2)"
    using sync_served [OF s(3,2)] by blast
  define fileid where "fileid = o_fileid (opentab s ! i)"
  have "unat (fileid mod of_nat MAXOPEN) = i" using s(1,4) by (simp add: fileid_def opentab_ok_def unat_mod)
  then have l: "open_lookup fileid s = Inr i" "open_lookup fileid s' = Inr i"
    using s(5) s'(2,3) by (simp_all add: open_lookup_def pageref_def Let_def fileid_def)
  have "opentab_ok s' \<and> opentab s' ! i = opentab s ! i" using serv_handles [OF s(1) l(1) s'(1)] l(2) by simp
  then show ?thesis using l s(1,6) s'(1) by (intro exI [of _ s] exI [of _ s'] exI [of _ fileid] exI [of _ i]) (simp del: serve.simps)
qed

text \<open>
  The replies that a sequence of messages calls for: none for a message without a page or with an invalid code, otherwise
  one to its sender, and a second one to an open request for which \<open>open_alloc\<close> reports an error.
\<close>

fun answers :: "msg list \<Rightarrow> serv_st \<Rightarrow> u32 list" where
  "answers [] s = []"
| "answers (m # ms) s =
     replicate (if \<not> valid_msg m then 0 else if m_req m = 1 \<and> open_refused (ipc_recv m s) then 2 else 1) (m_whom m) @
     (case serve [m] s of None \<Rightarrow> [] | Some t \<Rightarrow> answers ms t)"

lemma serve_Cons: "serve (m # ms) s = serve [m] s \<bind> serve ms"
  by (simp add: Let_def)

text \<open>
  C31 (serv_replies). As long as the server runs, the replies it has sent are exactly the ones that the messages call for, in the order of the messages and
  each to the client that asked: one for every valid request, except that an open request gets two when \<open>open_alloc\<close> has
  no entry for it, or an identifier that is negative as an \<open>int\<close>.
\<close>

theorem serv_replies:
  assumes "serve ms s = Some s'" "length (opentab s) = MAXOPEN"
  shows "map r_whom (replies s') = map r_whom (replies s) @ answers ms s"
  using assms
proof (induction ms arbitrary: s)
  case (Cons m ms)
  obtain t where t: "serve [m] s = Some t" "serve ms t = Some s'"
    using Cons.prems(1) unfolding serve_Cons [of m ms] by (auto simp: bind_eq_Some_conv)
  obtain n where n: "served (m_whom m) 1 n s t"
    "n = (if valid_msg m then if m_req m = 1 \<and> open_refused (ipc_recv m s) then 2 else 1 else 0)"
    using serve_step [OF t(1) Cons.prems(2)] by auto
  have "length (opentab t) = MAXOPEN" using Cons.prems(2) n(1) by (auto simp: served_def tab_moves_def)
  from Cons.IH [OF t(2) this] show ?case using n t(1) by (simp add: served_def del: serve.simps)
qed simp

theorem serv_replies_witness:
  "\<exists>s'. serve [(sync_msg 5)\<lparr>m_refs := (\<lambda>_. 2)\<rparr>] serv0 = Some s' \<and> map r_whom (replies s') = [5]"
proof -
  obtain s' where s': "serve [(sync_msg 5)\<lparr>m_refs := (\<lambda>_. 2)\<rparr>] serv0 = Some s'"
    using sync_served [of serv0] root_fs_ok by auto
  then show ?thesis using serv_replies [OF s' serv0_opentab(1)] by (simp add: valid_msg_def sync_msg_def del: serve.simps)
qed

end
