(* ===== verification/Readline.thy ===== *)
theory Readline
  imports Prelude
begin

text \<open>
  The line editor of the shell, \<open>readline\<close> of \<^verbatim>\<open>user/sh.c\<close>, with \<open>cons_read\<close> of \<^verbatim>\<open>user/lib/console.c\<close> under it.
  The input is the list of values \<open>ecall_cgetc\<close> will return, the output the bytes sent to the console. An access outside the
  line buffer is \<open>None\<close>, as is waiting for input that does not come. The line is compared with a text with a
  cursor, and the output with what a terminal shows.
\<close>

section \<open>The console device\<close>

abbreviation CURSOR_UP :: int where "CURSOR_UP \<equiv> 65"
abbreviation CURSOR_DOWN :: int where "CURSOR_DOWN \<equiv> 66"
abbreviation CURSOR_RIGHT :: int where "CURSOR_RIGHT \<equiv> 67"
abbreviation CURSOR_LEFT :: int where "CURSOR_LEFT \<equiv> 68"

text \<open>\<open>CURSOR_FORMER_RIGHT\<close> to \<open>CURSOR_FORMER_DOWN\<close> are -1 to -4, stored in a \<open>char\<close>.\<close>

abbreviation FORMER_RIGHT :: u8 where "FORMER_RIGHT \<equiv> 0xff"
abbreviation FORMER_LEFT :: u8 where "FORMER_LEFT \<equiv> 0xfe"
abbreviation FORMER_UP :: u8 where "FORMER_UP \<equiv> 0xfd"
abbreviation FORMER_DOWN :: u8 where "FORMER_DOWN \<equiv> 0xfc"

text \<open>\<open>while ((c = ecall_cgetc()) == 0) ecall_yield();\<close>\<close>

fun wait_key :: "int list \<Rightarrow> (int \<times> int list) option" where
  "wait_key [] = None"
| "wait_key (c # ks) = (if c = 0 then wait_key ks else Some (c, ks))"

text \<open>The result of reading one byte: the return value, the byte at \<open>buf\<close> afterwards, what was echoed.\<close>

record read_result =
  rd_ret :: int
  rd_ch :: u8
  rd_echo :: "u8 list"

definition cursor_key :: "int \<Rightarrow> u8 \<Rightarrow> u8" where
  "cursor_key c ch =
     (if c = CURSOR_RIGHT then FORMER_RIGHT
      else if c = CURSOR_LEFT then FORMER_LEFT
      else if c = CURSOR_UP then FORMER_UP
      else if c = CURSOR_DOWN then FORMER_DOWN
      else ch)"

definition cons_read :: "u8 \<Rightarrow> int list \<Rightarrow> (read_result \<times> int list) option" where
  "cons_read ch ks =
     do { (c, ks) \<leftarrow> wait_key ks;
          if c = 27 then
            do { (c, ks) \<leftarrow> wait_key ks;
                 if c = 91 then
                   do { (c, ks) \<leftarrow> wait_key ks; Some (\<lparr>rd_ret = 1, rd_ch = cursor_key c ch, rd_echo = []\<rparr>, ks) }
                 else Some (\<lparr>rd_ret = 0, rd_ch = ch, rd_echo = []\<rparr>, ks) }
          else
            let echo = (if c \<noteq> 13 then (if c \<noteq> 8 \<and> c \<noteq> 0x7f then [of_int c] else []) else [10]);
                c = (if c = 13 then 10 else c)
            in Some (if c < 0 then \<lparr>rd_ret = c, rd_ch = ch, rd_echo = echo\<rparr>
                     else if c = 4 then \<lparr>rd_ret = 0, rd_ch = ch, rd_echo = echo\<rparr>
                     else \<lparr>rd_ret = 1, rd_ch = of_int c, rd_echo = echo\<rparr>, ks) }"

section \<open>The line\<close>

text \<open>\<open>buf\<close>, \<open>curIndex\<close>, \<open>allIndex\<close>, and the console output.\<close>

record line =
  l_buf :: "u8 list"
  curIndex :: nat
  allIndex :: nat
  l_out :: "u8 list"

definition aget :: "u8 list \<Rightarrow> nat \<Rightarrow> u8 option" where
  "aget b i = (if i < length b then Some (b ! i) else None)"

definition aset :: "u8 list \<Rightarrow> nat \<Rightarrow> u8 \<Rightarrow> u8 list option" where
  "aset b i v = (if i < length b then Some (b[i := v]) else None)"

definition emit :: "u8 list \<Rightarrow> line \<Rightarrow> line" where
  "emit bs l = l\<lparr>l_out := l_out l @ bs\<rparr>"

text \<open>\<open>write(0, buf + *curIndex, *allIndex - *curIndex)\<close>\<close>

definition write_tail :: "line \<Rightarrow> line option" where
  "write_tail l =
     (if allIndex l \<le> length (l_buf l) then Some (emit (take (allIndex l - curIndex l) (drop (curIndex l) (l_buf l))) l) else None)"

definition moveCursor :: "int \<Rightarrow> line \<Rightarrow> line" where
  "moveCursor c l = emit [27, 91, of_int c] l"

text \<open>\<open>for (i = *curIndex - 1; i < *allIndex - 1; ++i) buf[i] = buf[i + 1]\<close> and the loop the other way.\<close>

function shift_down :: "nat \<Rightarrow> nat \<Rightarrow> u8 list \<Rightarrow> u8 list option" where
  "shift_down i hi b =
     (if i < hi then do { v \<leftarrow> aget b (i + 1); b \<leftarrow> aset b i v; shift_down (i + 1) hi b } else Some b)"
  by pat_completeness auto
termination
  by (relation "measure (\<lambda>(i, hi, b). hi - i)") auto

declare shift_down.simps [simp del]

fun shift_up :: "nat \<Rightarrow> nat \<Rightarrow> u8 list \<Rightarrow> u8 list option" where
  "shift_up 0 lo b = Some b"
| "shift_up (Suc i) lo b =
     (if Suc i > lo then do { v \<leftarrow> aget b i; b \<leftarrow> aset b (Suc i) v; shift_up i lo b } else Some b)"

definition deleteCharFromCmd :: "line \<Rightarrow> line option" where
  "deleteCharFromCmd l =
     (if curIndex l > 0 then
        do { b \<leftarrow> shift_down (curIndex l - 1) (allIndex l - 1) (l_buf l);
             let l = l\<lparr>l_buf := b, allIndex := allIndex l - 1, curIndex := curIndex l - 1\<rparr>;
                 l = emit [8] l in
             do { l \<leftarrow> write_tail l;
                  let l = emit [32] l in
                  Some (emit (replicate (allIndex l + 1 - curIndex l) 8) l) } }
      else Some l)"

definition AddCharToCmd :: "u8 \<Rightarrow> line \<Rightarrow> line option" where
  "AddCharToCmd ch l =
     do { b \<leftarrow> shift_up (allIndex l) (curIndex l) (l_buf l);
          b \<leftarrow> aset b (curIndex l) ch;
          let l = l\<lparr>l_buf := b, curIndex := curIndex l + 1, allIndex := allIndex l + 1\<rparr> in
          do { l \<leftarrow> write_tail l;
               Some (emit (replicate (allIndex l - curIndex l) 8) l) } }"

definition doWithDirection :: "u8 \<Rightarrow> line \<Rightarrow> line" where
  "doWithDirection ch l =
     (if ch = FORMER_RIGHT then
        (if curIndex l < allIndex l then (moveCursor CURSOR_RIGHT l)\<lparr>curIndex := curIndex l + 1\<rparr> else l)
      else if ch = FORMER_LEFT then
        (if curIndex l > 0 then (moveCursor CURSOR_LEFT l)\<lparr>curIndex := curIndex l - 1\<rparr> else l)
      else l)"

section \<open>readline\<close>

lemma wait_key_shorter: "wait_key ks = Some (c, ks') \<Longrightarrow> length ks' < length ks"
  by (induction ks) (auto split: if_splits)

lemma cons_read_shorter: "cons_read ch ks = Some (r, ks') \<Longrightarrow> length ks' < length ks"
  by (auto simp: cons_read_def Let_def split: bind_splits if_splits dest!: wait_key_shorter)

text \<open>\<open>debugf("line too long\n")\<close>, and the rest of the line is skipped; \<open>buf[0]\<close> is the last byte read, then 0.\<close>

definition too_long_msg :: "u8 list" where
  "too_long_msg = [108, 105, 110, 101, 32, 116, 111, 111, 32, 108, 111, 110, 103, 10]"

function skip_line :: "line \<Rightarrow> int list \<Rightarrow> (line \<times> int list) option" where
  "skip_line l ks =
     (case aget (l_buf l) 0 of None \<Rightarrow> None | Some ch \<Rightarrow>
        case cons_read ch ks of None \<Rightarrow> None | Some (r, ks) \<Rightarrow>
          let l = (emit (rd_echo r) l)\<lparr>l_buf := (l_buf l)[0 := rd_ch r]\<rparr> in
          if rd_ret r = 1 \<and> rd_ch r \<noteq> 13 \<and> rd_ch r \<noteq> 10 then skip_line l ks
          else Some (l\<lparr>l_buf := (l_buf l)[0 := 0]\<rparr>, ks))"
  by pat_completeness auto
termination
  by (relation "measure (\<lambda>(l, ks). length ks)") (auto dest: cons_read_shorter)

datatype rl_result = Got line | Exited line

text \<open>\<open>ch\<close> keeps its value when \<open>cons_read\<close> does not store one; it is not initialised at first.\<close>

function readline_loop :: "nat \<Rightarrow> u8 \<Rightarrow> line \<Rightarrow> int list \<Rightarrow> (rl_result \<times> int list) option" where
  "readline_loop n ch l ks =
     (if allIndex l < n then
        case cons_read ch ks of None \<Rightarrow> None | Some (r, ks) \<Rightarrow>
          let l = emit (rd_echo r) l; ch = rd_ch r in
          if rd_ret r \<noteq> 1 then Some (Exited l, ks)
          else if sint ch < 0 then readline_loop n ch (doWithDirection ch l) ks
          else if ch = 8 \<or> ch = 0x7f then
            (case deleteCharFromCmd l of None \<Rightarrow> None | Some l \<Rightarrow> readline_loop n ch l ks)
          else if ch = 13 \<or> ch = 10 then
            (case aset (l_buf l) (allIndex l) 0 of None \<Rightarrow> None | Some b \<Rightarrow> Some (Got (l\<lparr>l_buf := b\<rparr>), ks))
          else (case AddCharToCmd ch l of None \<Rightarrow> None | Some l \<Rightarrow> readline_loop n ch l ks)
      else (case skip_line (emit too_long_msg l) ks of None \<Rightarrow> None | Some (l, ks) \<Rightarrow> Some (Got l, ks)))"
  by pat_completeness auto
termination
  by (relation "measure (\<lambda>(n, ch, l, ks). length ks)") (auto dest: cons_read_shorter)

declare skip_line.simps [simp del] readline_loop.simps [simp del]

definition readline :: "u8 \<Rightarrow> u8 list \<Rightarrow> nat \<Rightarrow> int list \<Rightarrow> (rl_result \<times> int list) option" where
  "readline ch0 b n ks = readline_loop n ch0 \<lparr>l_buf = b, curIndex = 0, allIndex = 0, l_out = []\<rparr> ks"

section \<open>A text with a cursor\<close>

text \<open>The text before the cursor and the text after it.\<close>

type_synonym edited = "u8 list \<times> u8 list"

datatype key = Char u8 | Del | LeftKey | RightKey | UpKey | DownKey

fun edit :: "key \<Rightarrow> edited \<Rightarrow> edited" where
  "edit (Char c) (xs, ys) = (xs @ [c], ys)"
| "edit Del (xs, ys) = (butlast xs, ys)"
| "edit LeftKey (xs, ys) = (if xs = [] then (xs, ys) else (butlast xs, last xs # ys))"
| "edit RightKey (xs, ys) = (case ys of [] \<Rightarrow> (xs, ys) | y # ys' \<Rightarrow> (xs @ [y], ys'))"
| "edit UpKey e = e"
| "edit DownKey e = e"

fun codes :: "key \<Rightarrow> int list" where
  "codes (Char c) = [uint c]"
| "codes Del = [0x7f]"
| "codes LeftKey = [27, 91, CURSOR_LEFT]"
| "codes RightKey = [27, 91, CURSOR_RIGHT]"
| "codes UpKey = [27, 91, CURSOR_UP]"
| "codes DownKey = [27, 91, CURSOR_DOWN]"

fun key_ok :: "key \<Rightarrow> bool" where
  "key_ok (Char c) \<longleftrightarrow> 32 \<le> c \<and> c < 127"
| "key_ok _ \<longleftrightarrow> True"

text \<open>The line holds the text.\<close>

definition line_is :: "nat \<Rightarrow> line \<Rightarrow> edited \<Rightarrow> bool" where
  "line_is n l = (\<lambda>(xs, ys). length (l_buf l) = n \<and> curIndex l = length xs \<and> allIndex l = length xs + length ys \<and>
     allIndex l \<le> n \<and> take (allIndex l) (l_buf l) = xs @ ys)"

section \<open>A terminal\<close>

text \<open>One line of a terminal: backspace and the two cursor sequences move, anything else is put at the cursor.\<close>

datatype pending = Plain | Esc | Csi

record screen =
  cells :: "nat \<Rightarrow> u8"
  col :: nat
  pend :: pending

definition term_step :: "u8 \<Rightarrow> screen \<Rightarrow> screen" where
  "term_step b t =
     (case pend t of
        Plain \<Rightarrow> if b = 27 then t\<lparr>pend := Esc\<rparr> else if b = 8 then t\<lparr>col := col t - 1\<rparr>
                 else t\<lparr>cells := (cells t)(col t := b), col := col t + 1\<rparr>
      | Esc \<Rightarrow> t\<lparr>pend := if b = 91 then Csi else Plain\<rparr>
      | Csi \<Rightarrow> t\<lparr>pend := Plain, col := if b = 67 then col t + 1 else if b = 68 then col t - 1 else col t\<rparr>)"

definition display :: "u8 list \<Rightarrow> screen" where
  "display bs = fold term_step bs \<lparr>cells = (\<lambda>_. 32), col = 0, pend = Plain\<rparr>"

definition on_screen :: "edited \<Rightarrow> screen \<Rightarrow> bool" where
  "on_screen = (\<lambda>(xs, ys) t. pend t = Plain \<and> col t = length xs \<and>
     (\<forall>i. cells t i = (if i < length (xs @ ys) then (xs @ ys) ! i else 32)))"

definition graphic :: "u8 list \<Rightarrow> bool" where
  "graphic xs \<longleftrightarrow> list_all (\<lambda>c. 32 \<le> c \<and> c < 127) xs"

lemma display_append: "display (xs @ ys) = fold term_step ys (display xs)"
  by (simp add: display_def)

lemma graphic_step: "32 \<le> c \<Longrightarrow> c < 127 \<Longrightarrow> pend t = Plain \<Longrightarrow> term_step c t = t\<lparr>cells := (cells t)(col t := c), col := col t + 1\<rparr>"
  by (auto simp: term_step_def word_le_nat_alt)

lemma term_text:
  assumes "graphic xs" "pend t = Plain"
  shows "pend (fold term_step xs t) = Plain" "col (fold term_step xs t) = col t + length xs"
    "cells (fold term_step xs t) i = (if col t \<le> i \<and> i < col t + length xs then xs ! (i - col t) else cells t i)"
proof -
  have "pend (fold term_step xs t) = Plain \<and> col (fold term_step xs t) = col t + length xs \<and>
    cells (fold term_step xs t) i = (if col t \<le> i \<and> i < col t + length xs then xs ! (i - col t) else cells t i)"
    using assms
  proof (induction xs arbitrary: t)
    case (Cons x xs)
    have "pend (term_step x t) = Plain" "col (term_step x t) = Suc (col t)" "cells (term_step x t) = (cells t)(col t := x)"
      using Cons.prems graphic_step [of x t] by (simp_all add: graphic_def)
    then show ?case using Cons.prems Cons.IH [of "term_step x t"] by (auto simp: graphic_def nth_Cons')
  qed auto
  then show "pend (fold term_step xs t) = Plain" "col (fold term_step xs t) = col t + length xs"
    "cells (fold term_step xs t) i = (if col t \<le> i \<and> i < col t + length xs then xs ! (i - col t) else cells t i)" by auto
qed

lemma term_bs: "pend t = Plain \<Longrightarrow> term_step 8 t = t\<lparr>col := col t - 1\<rparr>"
  by (simp add: term_step_def)

lemma term_back:
  assumes "pend t = Plain"
  shows "(term_step 8 ^^ k) t = t\<lparr>col := col t - k\<rparr>"
  using assms by (induction k) (auto simp: term_step_def)

lemma term_cursor:
  "pend t = Plain \<Longrightarrow> fold term_step [27, 91, 67] t = t\<lparr>col := col t + 1\<rparr>"
  "pend t = Plain \<Longrightarrow> fold term_step [27, 91, 68] t = t\<lparr>col := col t - 1\<rparr>"
  by (simp_all add: term_step_def)

text \<open>What the editor sends after a key keeps the terminal in step with the text.\<close>

lemma shows_insert:
  assumes "on_screen (xs, ys) t" "32 \<le> c" "c < 127" "graphic ys"
  shows "on_screen (xs @ [c], ys) (fold term_step ([c] @ ys @ replicate (length ys) 8) t)"
  using assms
  by (auto simp: on_screen_def graphic_step term_text term_back nth_append nth_Cons')

lemma shows_delete:
  assumes "on_screen (xs @ [c], ys) t" "graphic ys"
  shows "on_screen (xs, ys) (fold term_step ([8] @ ys @ [32] @ replicate (length ys + 1) 8) t)"
  using assms
  by (auto simp: on_screen_def graphic_step term_text term_bs term_back nth_append nth_Cons')

lemma shows_left: "on_screen (xs @ [c], ys) t \<Longrightarrow> on_screen (xs, c # ys) (fold term_step [27, 91, 68] t)"
  and shows_right: "on_screen (xs, y # ys) t \<Longrightarrow> on_screen (xs @ [y], ys) (fold term_step [27, 91, 67] t)"
  by (auto simp: on_screen_def term_cursor simp del: fold.simps)

section \<open>The editing operations\<close>

lemma shift_up_ok:
  assumes "lo \<le> i" "i < length b"
  shows "\<exists>b'. shift_up i lo b = Some b' \<and> length b' = length b \<and>
    (\<forall>k<length b. b' ! k = (if lo < k \<and> k \<le> i then b ! (k - 1) else b ! k))"
  using assms
proof (induction i arbitrary: b)
  case (Suc i)
  show ?case
  proof (cases "lo < Suc i")
    case True
    obtain b' where "shift_up i lo (b[Suc i := b ! i]) = Some b'" "length b' = length b"
      "\<forall>k<length b. b' ! k = (if lo < k \<and> k \<le> i then b[Suc i := b ! i] ! (k - 1) else b[Suc i := b ! i] ! k)"
      using Suc.IH [of "b[Suc i := b ! i]"] True Suc.prems by auto
    then show ?thesis using True Suc.prems
      by (intro exI [of _ b']) (auto simp: aget_def aset_def nth_list_update le_Suc_eq)
  qed (use Suc.prems in auto)
qed auto

lemma shift_down_ok:
  assumes "i \<le> hi" "hi < length b"
  shows "\<exists>b'. shift_down i hi b = Some b' \<and> length b' = length b \<and>
    (\<forall>k<length b. b' ! k = (if i \<le> k \<and> k < hi then b ! (k + 1) else b ! k))"
  using assms
proof (induction "hi - i" arbitrary: i b)
  case 0
  then show ?case by (subst shift_down.simps) auto
next
  case (Suc d)
  then have "d = hi - Suc i" "Suc i \<le> hi" by simp_all
  then obtain b' where "shift_down (Suc i) hi (b[i := b ! Suc i]) = Some b'" "length b' = length b"
    "\<forall>k<length b. b' ! k = (if Suc i \<le> k \<and> k < hi then b[i := b ! Suc i] ! (k + 1) else b[i := b ! Suc i] ! k)"
    using Suc.hyps(1) [of "Suc i" "b[i := b ! Suc i]"] Suc.prems(2) by auto
  then show ?case using Suc.hyps(2) Suc.prems
    by (subst shift_down.simps, intro exI [of _ b'])
       (auto simp: aget_def aset_def nth_list_update not_less_eq_eq dest: order_antisym)
qed

lemma line_isD:
  assumes "line_is n l (xs, ys)"
  shows "length (l_buf l) = n" "curIndex l = length xs" "allIndex l = length xs + length ys" "length xs + length ys \<le> n"
    "take (length xs + length ys) (l_buf l) = xs @ ys"
    "i < length xs + length ys \<Longrightarrow> l_buf l ! i = (xs @ ys) ! i"
proof -
  show *: "length (l_buf l) = n" "curIndex l = length xs" "allIndex l = length xs + length ys" "length xs + length ys \<le> n"
    "take (length xs + length ys) (l_buf l) = xs @ ys"
    using assms by (auto simp: line_is_def)
  show "i < length xs + length ys \<Longrightarrow> l_buf l ! i = (xs @ ys) ! i" using *(5) by (metis nth_take)
qed

lemma line_isI:
  assumes "length (l_buf l) = n" "curIndex l = length xs" "allIndex l = length xs + length ys" "length xs + length ys \<le> n"
    "\<And>i. i < length xs + length ys \<Longrightarrow> l_buf l ! i = (xs @ ys) ! i"
  shows "line_is n l (xs, ys)"
  using assms by (auto simp: line_is_def intro!: nth_equalityI)

lemma write_tail_ok:
  assumes "line_is n l (xs, ys)"
  shows "write_tail l = Some (emit ys l)"
proof -
  have "take (length ys) (drop (length xs) (l_buf l)) = drop (length xs) (take (length xs + length ys) (l_buf l))"
    by (simp add: drop_take)
  then show ?thesis using line_isD [OF assms] by (simp add: write_tail_def)
qed

lemma emit_simps [simp]:
  "l_buf (emit bs l) = l_buf l" "curIndex (emit bs l) = curIndex l" "allIndex (emit bs l) = allIndex l" "l_out (emit bs l) = l_out l @ bs"
  "line_is n (emit bs l) e = line_is n l e" "emit [] l = l" "emit bs (emit cs l) = emit (cs @ bs) l"
  by (simp_all add: emit_def line_is_def)

lemma AddChar_ok:
  assumes "line_is n l (xs, ys)" "length xs + length ys < n"
  shows "\<exists>l'. AddCharToCmd c l = Some l' \<and> line_is n l' (xs @ [c], ys) \<and> l_out l' = l_out l @ ys @ replicate (length ys) 8"
proof -
  note d = line_isD [OF assms(1)]
  obtain b where b: "shift_up (length xs + length ys) (length xs) (l_buf l) = Some b" "length b = n"
    "\<forall>k<n. b ! k = (if length xs < k \<and> k \<le> length xs + length ys then l_buf l ! (k - 1) else l_buf l ! k)"
    using shift_up_ok [of "length xs" "length xs + length ys" "l_buf l"] d assms(2) by auto
  let ?l = "l\<lparr>l_buf := b[length xs := c], curIndex := Suc (length xs), allIndex := Suc (length xs + length ys)\<rparr>"
  have l: "line_is n ?l (xs @ [c], ys)"
    using b(2,3) assms(2) d(6) by (intro line_isI) (auto simp: nth_list_update nth_append nth_Cons')
  have "aset b (length xs) c = Some (b[length xs := c])" using b(2) assms(2) by (simp add: aset_def)
  then show ?thesis using b(1) d(2,3) l write_tail_ok [OF l]
    by (intro exI [of _ "emit (ys @ replicate (length ys) 8) ?l"]) (simp add: AddCharToCmd_def)
qed

lemma delete_ok:
  assumes "line_is n l (xs @ [c], ys)"
  shows "\<exists>l'. deleteCharFromCmd l = Some l' \<and> line_is n l' (xs, ys) \<and>
    l_out l' = l_out l @ [8] @ ys @ [32] @ replicate (length ys + 1) 8"
proof -
  note d = line_isD [OF assms]
  obtain b where b: "shift_down (length xs) (length xs + length ys) (l_buf l) = Some b" "length b = n"
    "\<forall>k<n. b ! k = (if length xs \<le> k \<and> k < length xs + length ys then l_buf l ! (k + 1) else l_buf l ! k)"
    using shift_down_ok [of "length xs" "length xs + length ys" "l_buf l"] d(1,4) by auto
  let ?l = "l\<lparr>l_buf := b, allIndex := length xs + length ys, curIndex := length xs\<rparr>"
  have l: "line_is n ?l (xs, ys)"
    using b(2,3) d(4,6) by (intro line_isI) (auto simp: nth_append)
  have l': "line_is n (emit [8] ?l) (xs, ys)" using l by simp
  show ?thesis using b(1) d(2,3) l write_tail_ok [OF l']
    by (intro exI [of _ "emit ([8] @ ys @ [32] @ replicate (length ys + 1) 8) ?l"]) (simp add: deleteCharFromCmd_def)
qed

lemma direction_ok:
  "line_is n l (xs @ [c], ys) \<Longrightarrow> line_is n (doWithDirection FORMER_LEFT l) (xs, c # ys) \<and>
     l_out (doWithDirection FORMER_LEFT l) = l_out l @ [27, 91, 68]"
  "line_is n l ([], ys) \<Longrightarrow> doWithDirection FORMER_LEFT l = l"
  "line_is n l (xs, y # ys) \<Longrightarrow> line_is n (doWithDirection FORMER_RIGHT l) (xs @ [y], ys) \<and>
     l_out (doWithDirection FORMER_RIGHT l) = l_out l @ [27, 91, 67]"
  "line_is n l (xs, []) \<Longrightarrow> doWithDirection FORMER_RIGHT l = l"
  "doWithDirection FORMER_UP l = l" "doWithDirection FORMER_DOWN l = l"
  by (auto simp: doWithDirection_def moveCursor_def line_is_def emit_def)

section \<open>Keys\<close>

lemma cons_read_codes:
  assumes "key_ok k"
  shows "cons_read ch (codes k @ ks) = Some (case k of
      Char c \<Rightarrow> \<lparr>rd_ret = 1, rd_ch = c, rd_echo = [c]\<rparr>
    | Del \<Rightarrow> \<lparr>rd_ret = 1, rd_ch = 0x7f, rd_echo = []\<rparr>
    | LeftKey \<Rightarrow> \<lparr>rd_ret = 1, rd_ch = FORMER_LEFT, rd_echo = []\<rparr>
    | RightKey \<Rightarrow> \<lparr>rd_ret = 1, rd_ch = FORMER_RIGHT, rd_echo = []\<rparr>
    | UpKey \<Rightarrow> \<lparr>rd_ret = 1, rd_ch = FORMER_UP, rd_echo = []\<rparr>
    | DownKey \<Rightarrow> \<lparr>rd_ret = 1, rd_ch = FORMER_DOWN, rd_echo = []\<rparr>, ks)"
proof (cases k)
  case (Char c)
  then have "32 \<le> uint c" "uint c < 127" using assms by (auto simp: word_le_def word_less_def)
  then show ?thesis using Char by (simp add: cons_read_def)
qed (simp_all add: cons_read_def cursor_key_def)

text \<open>The editor and the terminal after the same keys.\<close>

definition in_step :: "nat \<Rightarrow> edited \<Rightarrow> line \<Rightarrow> bool" where
  "in_step n e l \<longleftrightarrow> line_is n l e \<and> on_screen e (display (l_out l)) \<and> graphic (fst e) \<and> graphic (snd e)"

lemma graphic_simps [simp]:
  "graphic []" "graphic (xs @ ys) = (graphic xs \<and> graphic ys)" "graphic (c # xs) = ((32 \<le> c \<and> c < 127) \<and> graphic xs)"
  by (auto simp: graphic_def)

lemma key_sint: "32 \<le> c \<Longrightarrow> c < 127 \<Longrightarrow> \<not> sint (c :: u8) < 0"
proof -
  assume "32 \<le> c" "c < 127"
  then have "uint c < 2 ^ 7" by (simp add: word_less_def)
  then have "uint c div 2 ^ 7 = 0" by (intro div_pos_pos_trivial) simp_all
  then show ?thesis by (simp add: sint_uint bit_iff_odd)
qed

lemma readline_key:
  assumes "in_step n e l" "key_ok k" "length (fst e) + length (snd e) < n"
  shows "\<exists>ch' l'. readline_loop n ch l (codes k @ ks) = readline_loop n ch' l' ks \<and> in_step n (edit k e) l'"
proof -
  obtain xs ys where e: "e = (xs, ys)" by (cases e)
  have l: "line_is n l (xs, ys)" "on_screen (xs, ys) (display (l_out l))" "graphic xs" "graphic ys"
    using assms(1) by (simp_all add: in_step_def e)
  have n: "allIndex l < n" using assms(3) line_isD(3) [OF l(1)] by (simp add: e)
  show ?thesis
  proof (cases k)
    case (Char c)
    then have c: "32 \<le> c" "c < 127" "c \<noteq> 8" "c \<noteq> 0x7f" "c \<noteq> 13" "c \<noteq> 10" using assms(2) by auto
    obtain l' where l': "AddCharToCmd c (emit [c] l) = Some l'" "line_is n l' (xs @ [c], ys)"
      "l_out l' = (l_out l @ [c]) @ ys @ replicate (length ys) 8"
      using AddChar_ok [of n "emit [c] l" xs ys c] l(1) assms(3) by (auto simp: e)
    have "on_screen (xs @ [c], ys) (display (l_out l'))"
      using shows_insert [OF l(2) c(1,2) l(4)] unfolding l'(3) by (simp add: display_append)
    then show ?thesis using n c key_sint [OF c(1,2)] cons_read_codes [OF assms(2), of ch ks] l' l(3,4) Char
      by (subst readline_loop.simps, intro exI [of _ c] exI [of _ l']) (simp add: in_step_def e)
  next
    case Del
    show ?thesis
    proof (cases xs rule: rev_cases)
      case Nil
      then have "deleteCharFromCmd l = Some l" using line_isD(2) [OF l(1)] by (simp add: deleteCharFromCmd_def)
      then show ?thesis using n cons_read_codes [OF assms(2), of ch ks] assms(1) Del Nil
        by (subst readline_loop.simps, intro exI [of _ "0x7f"] exI [of _ l]) (simp add: e)
    next
      case (snoc zs c)
      obtain l' where l': "deleteCharFromCmd l = Some l'" "line_is n l' (zs, ys)"
        "l_out l' = l_out l @ [8] @ ys @ [32] @ replicate (length ys + 1) 8"
        using delete_ok [of n l zs c ys] l(1) snoc by auto
      have "on_screen (zs, ys) (display (l_out l'))"
        using shows_delete [OF l(2) [unfolded snoc] l(4)] unfolding l'(3) display_append .
      then show ?thesis using n cons_read_codes [OF assms(2), of ch ks] l' l(3,4) Del snoc
        by (subst readline_loop.simps, intro exI [of _ "0x7f"] exI [of _ l']) (simp add: in_step_def e)
    qed
  next
    case LeftKey
    have "in_step n (edit LeftKey e) (doWithDirection FORMER_LEFT l)"
    proof (cases xs rule: rev_cases)
      case Nil
      then show ?thesis using direction_ok(2) [of n l ys] l assms(1) by (simp add: e)
    next
      case (snoc zs c)
      then show ?thesis using direction_ok(1) [of n l zs c ys] l shows_left [of zs c ys]
        by (simp add: in_step_def e display_append del: fold.simps)
    qed
    then show ?thesis using n cons_read_codes [OF assms(2), of ch ks] LeftKey
      by (subst readline_loop.simps, intro exI [of _ FORMER_LEFT] exI [of _ "doWithDirection FORMER_LEFT l"]) simp
  next
    case RightKey
    have "in_step n (edit RightKey e) (doWithDirection FORMER_RIGHT l)"
    proof (cases ys)
      case Nil
      then show ?thesis using direction_ok(4) [of n l xs] l assms(1) by (simp add: e)
    next
      case (Cons y zs)
      then show ?thesis using direction_ok(3) [of n l xs y zs] l shows_right [of xs y zs]
        by (simp add: in_step_def e display_append del: fold.simps)
    qed
    then show ?thesis using n cons_read_codes [OF assms(2), of ch ks] RightKey
      by (subst readline_loop.simps, intro exI [of _ FORMER_RIGHT] exI [of _ "doWithDirection FORMER_RIGHT l"]) simp
  next
    case UpKey
    then show ?thesis using n cons_read_codes [OF assms(2), of ch ks] assms(1) direction_ok(5)
      by (subst readline_loop.simps, intro exI [of _ FORMER_UP] exI [of _ l]) simp
  next
    case DownKey
    then show ?thesis using n cons_read_codes [OF assms(2), of ch ks] assms(1) direction_ok(6)
      by (subst readline_loop.simps, intro exI [of _ FORMER_DOWN] exI [of _ l]) simp
  qed
qed

section \<open>A line\<close>

text \<open>The text stays shorter than the buffer after every key.\<close>

fun fits :: "nat \<Rightarrow> key list \<Rightarrow> edited \<Rightarrow> bool" where
  "fits n [] e \<longleftrightarrow> length (fst e) + length (snd e) < n"
| "fits n (k # ks) e \<longleftrightarrow> length (fst e) + length (snd e) < n \<and> fits n ks (edit k e)"

lemma readline_keys:
  assumes "in_step n e l" "list_all key_ok keys" "fits n keys e"
  shows "\<exists>ch' l'. readline_loop n ch l (concat (map codes keys) @ ks) = readline_loop n ch' l' ks \<and>
    in_step n (fold edit keys e) l' \<and> length (fst (fold edit keys e)) + length (snd (fold edit keys e)) < n"
  using assms
proof (induction keys arbitrary: ch e l)
  case (Cons k keys)
  obtain ch1 l1 where 1: "readline_loop n ch l (codes k @ concat (map codes keys) @ ks) =
      readline_loop n ch1 l1 (concat (map codes keys) @ ks)" "in_step n (edit k e) l1"
    using readline_key [OF Cons.prems(1), of k ch "concat (map codes keys) @ ks"] Cons.prems(2,3) by auto
  then show ?case using Cons.IH [OF 1(2), of ch1] Cons.prems(2,3) by simp
qed auto

lemma readline_return:
  assumes "in_step n (xs, ys) l" "length xs + length ys < n"
  shows "readline_loop n ch l (13 # ks) = Some (Got ((emit [10] l)\<lparr>l_buf := (l_buf l)[length xs + length ys := 0]\<rparr>), ks)"
proof -
  have "line_is n l (xs, ys)" using assms(1) by (simp add: in_step_def)
  note d = line_isD [OF this]
  have "cons_read ch (13 # ks) = Some (\<lparr>rd_ret = 1, rd_ch = 10, rd_echo = [10]\<rparr>, ks)" by (simp add: cons_read_def)
  then show ?thesis using d assms(2) by (subst readline_loop.simps) (simp add: aset_def)
qed

text \<open>
  C33 (readline_edits). For every sequence of printable characters, deletions and cursor keys that keeps the text shorter than the buffer, and
  then return, \<open>readline\<close> comes back after exactly these keys without ever leaving its buffer: the buffer holds the
  text that editing with a cursor gives, with its terminator, and what was sent to the console makes a terminal
  show that text with the cursor at the right place.
\<close>

theorem readline_edits:
  assumes "list_all key_ok keys" "fits (length b) keys ([], [])" "fold edit keys ([], []) = (xs, ys)"
  shows "\<exists>l o'. readline ch0 b (length b) (concat (map codes keys) @ 13 # rest) = Some (Got l, rest) \<and>
    length (l_buf l) = length b \<and> take (length xs + length ys + 1) (l_buf l) = xs @ ys @ [0] \<and>
    l_out l = o' @ [10] \<and> on_screen (xs, ys) (display o')"
proof -
  let ?n = "length b" and ?l0 = "\<lparr>l_buf = b, curIndex = 0, allIndex = 0, l_out = []\<rparr>"
  have 0: "in_step ?n ([], []) ?l0" by (simp add: in_step_def line_is_def on_screen_def display_def)
  from readline_keys [OF 0 assms(1,2), of ch0 "13 # rest"] obtain ch l where
    r: "readline_loop ?n ch0 ?l0 (concat (map codes keys) @ 13 # rest) = readline_loop ?n ch l (13 # rest)"
    and s: "in_step ?n (xs, ys) l" "length xs + length ys < ?n" unfolding assms(3) by auto
  let ?l = "(emit [10] l)\<lparr>l_buf := (l_buf l)[length xs + length ys := 0]\<rparr>"
  have li: "line_is ?n l (xs, ys)" "on_screen (xs, ys) (display (l_out l))" using s(1) by (simp_all add: in_step_def)
  note d = line_isD [OF li(1)]
  have "take (length xs + length ys + 1) (l_buf ?l) = take (length xs + length ys) (l_buf l) @ [0]"
    using s(2) d(1) by (simp add: take_Suc_conv_app_nth)
  then have "take (length xs + length ys + 1) (l_buf ?l) = xs @ ys @ [0]" using d(5) by simp
  moreover have "readline ch0 b ?n (concat (map codes keys) @ 13 # rest) = Some (Got ?l, rest)"
    using r readline_return [OF s] by (simp add: readline_def)
  ultimately show ?thesis using d(1) li(2) by (intro exI [of _ ?l] exI [of _ "l_out l"]) simp
qed

theorem readline_edits_witness:
  "\<exists>l. readline 0 (replicate 8 0) 8 [99, 97, 27, 91, 68, 100, 127, 120, 13] = Some (Got l, []) \<and> take 4 (l_buf l) = [99, 120, 97, 0]"
proof -
  have four: "4 = Suc (Suc (Suc (Suc 0)))" by simp
  have "fold edit [Char 99, Char 97, LeftKey, Char 100, Del, Char 120] ([], []) = ([99, 120], [97])" by simp
  moreover have "concat (map codes [Char 99, Char 97, LeftKey, Char 100, Del, Char 120]) @ [13] = [99, 97, 27, 91, 68, 100, 127, 120, 13]"
    by simp
  ultimately show ?thesis
    using readline_edits [of "[Char 99, Char 97, LeftKey, Char 100, Del, Char 120]" "replicate 8 0" "[99, 120]" "[97]" 0 "[]"]
    unfolding four by auto
qed

end
