(* ===== verification/Shell.thy ===== *)
theory Shell
  imports Readline
begin

text \<open>
  The command parser of the shell, \<^verbatim>\<open>user/sh.c\<close>: \<open>_gettoken\<close>, \<open>gettoken\<close>, \<open>parsecmd\<close> and \<open>runcmd\<close>. A pointer into the
  line is its index in the buffer, the null pointer is \<open>None\<close>, and an access outside the buffer has the value \<open>None\<close>.
  The tokenizer writes terminators into the line while it looks ahead; the theory shows that every word is
  terminated when it is handed out. The calls of \<open>open\<close>, \<open>dup\<close>, \<open>close\<close>, \<open>pipe\<close>, \<open>fork\<close>, \<open>spawn\<close> and \<open>wait\<close> are recorded, and their
  results are read from lists.
\<close>

section \<open>Tokens\<close>

abbreviation WHITESPACE :: "u8 list" where "WHITESPACE \<equiv> [32, 9, 13, 10]"
abbreviation SYMBOLS :: "u8 list" where "SYMBOLS \<equiv> [60, 124, 62, 38, 59, 40, 41]"
abbreviation tok_w :: u8 where "tok_w \<equiv> 119"

text \<open>\<open>strchr\<close> of \<^verbatim>\<open>lib/string.c\<close> on a literal; the terminator is not found.\<close>

definition is_ws :: "u8 \<Rightarrow> bool" where
  "is_ws c \<longleftrightarrow> c \<in> set WHITESPACE"

definition is_sym :: "u8 \<Rightarrow> bool" where
  "is_sym c \<longleftrightarrow> c \<in> set SYMBOLS"

text \<open>\<open>while (strchr(WHITESPACE, *s)) *s++ = 0;\<close> and \<open>while (*s && !strchr(WHITESPACE SYMBOLS, *s)) ++s;\<close>\<close>

function skip_ws :: "u8 list \<Rightarrow> nat \<Rightarrow> (nat \<times> u8 list) option" where
  "skip_ws b s =
     (if s < length b then (if is_ws (b ! s) then skip_ws (b[s := 0]) (s + 1) else Some (s, b)) else None)"
  by pat_completeness auto
termination
  by (relation "measure (\<lambda>(b, s). length b - s)") auto

function word_end :: "u8 list \<Rightarrow> nat \<Rightarrow> nat option" where
  "word_end b s =
     (if s < length b then
        (if b ! s \<noteq> 0 \<and> \<not> (is_ws (b ! s) \<or> is_sym (b ! s)) then word_end b (s + 1) else Some s)
      else None)"
  by pat_completeness auto
termination
  by (relation "measure (\<lambda>(b, s). length b - s)") auto

declare skip_ws.simps [simp del] word_end.simps [simp del]

text \<open>The result: the token code, \<open>*p1\<close> and \<open>*p2\<close>.\<close>

record token =
  t_code :: u8
  t_p1 :: "nat option"
  t_p2 :: "nat option"

definition gettoken1 :: "u8 list \<Rightarrow> nat option \<Rightarrow> (token \<times> u8 list) option" where
  "gettoken1 b p =
     (case p of
        None \<Rightarrow> Some (\<lparr>t_code = 0, t_p1 = None, t_p2 = None\<rparr>, b)
      | Some s \<Rightarrow>
          do { (s, b) \<leftarrow> skip_ws b s;
               c \<leftarrow> aget b s;
               if c = 0 then Some (\<lparr>t_code = 0, t_p1 = None, t_p2 = None\<rparr>, b)
               else if is_sym c then
                 do { b \<leftarrow> aset b s 0; Some (\<lparr>t_code = c, t_p1 = Some s, t_p2 = Some (s + 1)\<rparr>, b) }
               else
                 do { e \<leftarrow> word_end b s; Some (\<lparr>t_code = tok_w, t_p1 = Some s, t_p2 = Some e\<rparr>, b) } })"

text \<open>
  The static variables \<open>nc\<close>, \<open>np1\<close>, \<open>np2\<close> of \<open>gettoken\<close> are a \<open>token\<close>: the one it will hand out next. \<open>gettoken(s, 0)\<close> starts a line,
  \<open>gettoken(0, &p1)\<close> returns the token read ahead, here its code and \<open>*p1\<close>.
\<close>

definition gettoken_start :: "u8 list \<Rightarrow> nat \<Rightarrow> (token \<times> u8 list) option" where
  "gettoken_start b s = gettoken1 b (Some s)"

definition gettoken :: "token \<Rightarrow> u8 list \<Rightarrow> ((u8 \<times> nat option) \<times> token \<times> u8 list) option" where
  "gettoken g b = do { (g', b) \<leftarrow> gettoken1 b (t_p2 g); Some ((t_code g, t_p1 g), g', b) }"

section \<open>Commands\<close>

abbreviation MAXARGS :: nat where "MAXARGS \<equiv> 128"
abbreviation O_RDONLY :: u32 where "O_RDONLY \<equiv> 0"
abbreviation O_WRONLY :: u32 where "O_WRONLY \<equiv> 1"
abbreviation OCREAT :: u32 where "OCREAT \<equiv> 0x100"

datatype act = AOpen "u8 list" u32 | ADup int int | AClose int | APipe | AFork | ASpawn "u8 list list" | ACloseAll | AWait int

text \<open>The results of the coming calls, and the calls made so far.\<close>

record sh_sys =
  opens :: "int list"
  pipes :: "(int \<times> int) list"
  forks :: "int list"
  spawns :: "int list"
  acts :: "act list"

definition call :: "act \<Rightarrow> sh_sys \<Rightarrow> sh_sys" where
  "call a y = y\<lparr>acts := acts y @ [a]\<rparr>"

definition sh_open :: "u8 list \<Rightarrow> u32 \<Rightarrow> sh_sys \<Rightarrow> (int \<times> sh_sys) option" where
  "sh_open path mode y = (case opens y of [] \<Rightarrow> None | r # rs \<Rightarrow> Some (r, call (AOpen path mode) (y\<lparr>opens := rs\<rparr>)))"

definition sh_pipe :: "sh_sys \<Rightarrow> ((int \<times> int) \<times> sh_sys) option" where
  "sh_pipe y = (case pipes y of [] \<Rightarrow> None | r # rs \<Rightarrow> Some (r, call APipe (y\<lparr>pipes := rs\<rparr>)))"

definition sh_fork :: "sh_sys \<Rightarrow> (int \<times> sh_sys) option" where
  "sh_fork y = (case forks y of [] \<Rightarrow> None | r # rs \<Rightarrow> Some (r, call AFork (y\<lparr>forks := rs\<rparr>)))"

text \<open>The C string at \<open>p\<close>.\<close>

definition str_at :: "u8 list \<Rightarrow> nat \<Rightarrow> u8 list option" where
  "str_at b p = (if p < length b \<and> 0 \<in> set (drop p b) then Some (takeWhile (\<lambda>c. c \<noteq> 0) (drop p b)) else None)"

text \<open>\<open>open\<close>, and once more with \<open>O_CREAT\<close>, then \<open>dup\<close> and \<open>close\<close>: the file of a redirection to \<open>fd\<close>. \<open>None\<close> in the result is the panic.\<close>

definition redirect :: "u8 list \<Rightarrow> u32 \<Rightarrow> int \<Rightarrow> sh_sys \<Rightarrow> (unit option \<times> sh_sys) option" where
  "redirect path mode fd y =
     do { (r, y) \<leftarrow> sh_open path mode y;
          (r, y) \<leftarrow> (if r < 0 then sh_open path (mode OR OCREAT) y else Some (r, y));
          Some (if r < 0 then (None, y) else (Some (), call (AClose r) (call (ADup r fd) y))) }"

text \<open>How \<open>parsecmd\<close> ends: with \<open>argv\<close> and \<open>*rightpipe\<close>, in \<open>exit\<close> after a message, or in a panic.\<close>

datatype 'w parsed = Parsed "'w list" int | Exit | Panic

partial_function (option) parsecmd ::
  "nat list \<Rightarrow> int \<Rightarrow> token \<Rightarrow> u8 list \<Rightarrow> sh_sys \<Rightarrow> (nat parsed \<times> u8 list \<times> sh_sys) option"
where
  "parsecmd argv rightpipe g b y =
     do { ((c, t), g, b) \<leftarrow> gettoken g b;
          if c = 0 then Some (Parsed argv rightpipe, b, y)
          else if c = tok_w then
            (if length argv \<ge> MAXARGS then Some (Exit, b, y)
             else do { t \<leftarrow> t; parsecmd (argv @ [t]) rightpipe g b y })
          else if c = 60 \<or> c = 62 then
            do { ((c', t), g, b) \<leftarrow> gettoken g b;
                 if c' \<noteq> tok_w then Some (Exit, b, y)
                 else do { t \<leftarrow> t; path \<leftarrow> str_at b t;
                           (r, y) \<leftarrow> (if c = 60 then redirect path O_RDONLY 0 y else redirect path O_WRONLY 1 y);
                           if r = None then Some (Panic, b, y) else parsecmd argv rightpipe g b y } }
          else if c = 124 then
            do { ((p0, p1), y) \<leftarrow> sh_pipe y;
                 (r, y) \<leftarrow> sh_fork y;
                 if r = 0 then parsecmd [] r g b (call (AClose p1) (call (AClose p0) (call (ADup p0 0) y)))
                 else Some (Parsed argv r, b, call (AClose p0) (call (AClose p1) (call (ADup p1 1) y))) }
          else parsecmd argv rightpipe g b y }"

text \<open>
  The rest of \<open>runcmd\<close>: \<open>Inl 1\<close> is its return value for an empty command; otherwise it ends in \<open>exit\<close>. \<open>argv\<close> has \<open>MAXARGS\<close> elements, so
  storing the terminating null pointer after as many arguments is out of bounds.
\<close>

fun strs_at :: "u8 list \<Rightarrow> nat list \<Rightarrow> u8 list list option" where
  "strs_at b [] = Some []"
| "strs_at b (p # ps) = do { w \<leftarrow> str_at b p; ws \<leftarrow> strs_at b ps; Some (w # ws) }"

definition sh_spawn :: "u8 list list \<Rightarrow> sh_sys \<Rightarrow> (int \<times> sh_sys) option" where
  "sh_spawn ws y = (case spawns y of [] \<Rightarrow> None | r # rs \<Rightarrow> Some (r, call (ASpawn ws) (y\<lparr>spawns := rs\<rparr>)))"

definition runcmd :: "u8 list \<Rightarrow> sh_sys \<Rightarrow> ((int + unit) \<times> sh_sys) option" where
  "runcmd b y =
     do { (g, b) \<leftarrow> gettoken_start b 0;
          (r, b, y) \<leftarrow> parsecmd [] 0 g b y;
          (case r of
             Parsed argv rightpipe \<Rightarrow>
               if argv = [] then Some (Inl 1, y)
               else do { c_assert (length argv < MAXARGS);
                         ws \<leftarrow> strs_at b argv;
                         (child, y) \<leftarrow> sh_spawn ws y;
                         let y = call ACloseAll y;
                             y = (if child \<ge> 0 then call (AWait child) y else y);
                             y = (if rightpipe \<noteq> 0 then call (AWait rightpipe) y else y)
                         in Some (Inr (), call ACloseAll y) }
           | _ \<Rightarrow> Some (Inr (), call ACloseAll y)) }"

section \<open>What a line means\<close>

datatype lex = Word "u8 list" | Sym u8

definition is_word_char :: "u8 \<Rightarrow> bool" where
  "is_word_char c \<longleftrightarrow> \<not> is_ws c \<and> \<not> is_sym c"

function lexemes :: "u8 list \<Rightarrow> lex list" where
  "lexemes cs =
     (case dropWhile is_ws cs of
        [] \<Rightarrow> []
      | c # cs' \<Rightarrow>
          if is_sym c then Sym c # lexemes cs'
          else Word (takeWhile is_word_char (c # cs')) # lexemes (dropWhile is_word_char (c # cs')))"
  by pat_completeness auto
termination
proof (relation "measure length", goal_cases)
  case (2 cs c cs')
  then show ?case using length_dropWhile_le [of is_ws cs] by simp
next
  case (3 cs c cs')
  have "c \<notin> set WHITESPACE" using 3(1) hd_dropWhile [of is_ws cs] by (auto simp: is_ws_def)
  then have "is_word_char c" using 3(2) by (simp add: is_word_char_def is_ws_def)
  then show ?case using 3(1) length_dropWhile_le [of is_ws cs] length_dropWhile_le [of is_word_char cs'] by simp
qed simp

declare lexemes.simps [simp del]

fun parse_line :: "u8 list list \<Rightarrow> int \<Rightarrow> lex list \<Rightarrow> sh_sys \<Rightarrow> (u8 list parsed \<times> sh_sys) option" where
  "parse_line ws rp [] y = Some (Parsed ws rp, y)"
| "parse_line ws rp (Word w # ts) y =
     (if length ws \<ge> MAXARGS then Some (Exit, y) else parse_line (ws @ [w]) rp ts y)"
| "parse_line ws rp (Sym c # ts) y =
     (if c = 60 \<or> c = 62 then
        (case ts of
           Word w # ts' \<Rightarrow>
             do { (r, y) \<leftarrow> redirect w (if c = 60 then O_RDONLY else O_WRONLY) (if c = 60 then 0 else 1) y;
                  if r = None then Some (Panic, y) else parse_line ws rp ts' y }
         | _ \<Rightarrow> Some (Exit, y))
      else if c = 124 then
        do { ((p0, p1), y) \<leftarrow> sh_pipe y;
             (r, y) \<leftarrow> sh_fork y;
             if r = 0 then parse_line [] r ts (call (AClose p1) (call (AClose p0) (call (ADup p0 0) y)))
             else Some (Parsed ws r, call (AClose p0) (call (AClose p1) (call (ADup p1 1) y))) }
      else parse_line ws rp ts y)"

section \<open>The tokenizer\<close>

lemma char_classes [simp]: "\<not> is_ws 0" "\<not> is_sym 0" "is_sym c \<Longrightarrow> \<not> is_ws c" "is_sym c \<Longrightarrow> c \<noteq> 0" "is_sym c \<Longrightarrow> c \<noteq> tok_w"
  by (auto simp: is_ws_def is_sym_def)

lemma skip_ws_ok:
  "skip_ws (pre @ cs @ 0 # post) (length pre) =
     Some (length pre + length (takeWhile is_ws cs), pre @ replicate (length (takeWhile is_ws cs)) 0 @ dropWhile is_ws cs @ 0 # post)"
proof (induction cs arbitrary: pre)
  case Nil
  then show ?case by (subst skip_ws.simps) simp
next
  case (Cons c cs)
  show ?case
  proof (cases "is_ws c")
    case True
    then show ?thesis using Cons.IH [of "pre @ [0]"] by (subst skip_ws.simps) simp
  qed (subst skip_ws.simps, simp)
qed

lemma word_end_ok:
  assumes "list_all (\<lambda>c. is_word_char c \<and> c \<noteq> 0) x" "r = [] \<or> \<not> is_word_char (hd r)"
  shows "word_end (pre @ x @ r @ 0 # post) (length pre) = Some (length pre + length x)"
  using assms(1)
proof (induction x arbitrary: pre)
  case Nil
  then show ?case using assms(2) by (cases r) (subst word_end.simps, auto simp: is_word_char_def)+
next
  case (Cons c x)
  then show ?case using Cons.IH [of "pre @ [c]"] by (subst word_end.simps) (simp add: is_word_char_def)
qed

text \<open>
  The tokenizer is about to deliver \<open>ts\<close>, and will not write below \<open>f\<close> any more.
\<close>

definition delivers :: "u8 list \<Rightarrow> token \<Rightarrow> lex list \<Rightarrow> nat \<Rightarrow> bool" where
  "delivers b g ts f \<longleftrightarrow>
     (case ts of
        [] \<Rightarrow> g = \<lparr>t_code = 0, t_p1 = None, t_p2 = None\<rparr> \<and> f = length b
      | Sym c # ts' \<Rightarrow> t_code g = c \<and> is_sym c \<and>
          (\<exists>pre r post. b = pre @ r @ 0 # post \<and> 0 \<notin> set r \<and> t_p2 g = Some (length pre) \<and> f = length pre \<and> lexemes r = ts')
      | Word x # ts' \<Rightarrow> t_code g = tok_w \<and>
          (\<exists>pre r post. b = pre @ x @ r @ 0 # post \<and> 0 \<notin> set (x @ r) \<and> t_p1 g = Some (length pre) \<and>
             t_p2 g = Some (length pre + length x) \<and> f = length pre \<and> lexemes r = ts' \<and> (r = [] \<or> \<not> is_word_char (hd r))))"

lemma delivers_Sym:
  "is_sym c \<Longrightarrow> t_code g = c \<Longrightarrow> b = pre @ r @ 0 # post \<Longrightarrow> 0 \<notin> set r \<Longrightarrow> t_p2 g = Some (length pre) \<Longrightarrow>
   delivers b g (Sym c # lexemes r) (length pre)"
  unfolding delivers_def by simp blast

lemma delivers_Word:
  "t_code g = tok_w \<Longrightarrow> b = pre @ x @ r @ 0 # post \<Longrightarrow> 0 \<notin> set (x @ r) \<Longrightarrow> t_p1 g = Some (length pre) \<Longrightarrow>
   t_p2 g = Some (length pre + length x) \<Longrightarrow> r = [] \<or> \<not> is_word_char (hd r) \<Longrightarrow> delivers b g (Word x # lexemes r) (length pre)"
  unfolding delivers_def by simp blast

lemma gettoken1_ok:
  assumes "0 \<notin> set cs" and b: "b = pre @ cs @ 0 # post"
  shows "\<exists>g b' f. gettoken1 b (Some (length pre)) = Some (g, b') \<and> delivers b' g (lexemes cs) f \<and> length pre \<le> f \<and>
    take (length pre) b' = pre \<and> length b' = length b \<and>
    (cs = [] \<or> \<not> is_word_char (hd cs) \<longrightarrow> b' ! length pre = 0 \<and> length pre < f)"
proof -
  define w where "w = takeWhile is_ws cs"
  define d where "d = dropWhile is_ws cs"
  have cs: "cs = w @ d" by (simp add: w_def d_def)
  let ?pre = "pre @ replicate (length w) 0"
  have sk: "skip_ws b (length pre) = Some (length ?pre, ?pre @ d @ 0 # post)"
    using skip_ws_ok [of pre cs post] by (simp add: b w_def d_def)
  have z: "(?pre @ ys) ! length pre = 0" if "w \<noteq> []" for ys using that by (cases w) (simp_all add: nth_append)
  show ?thesis
  proof (cases d)
    case Nil
    then have "lexemes cs = []" by (subst lexemes.simps) (simp add: d_def [symmetric])
    then show ?thesis using sk Nil z [of "0 # post"] b cs
      by (intro exI [of _ "\<lparr>t_code = 0, t_p1 = None, t_p2 = None\<rparr>"] exI [of _ "?pre @ 0 # post"] exI [of _ "length b"])
         (cases w; simp add: gettoken1_def aget_def delivers_def nth_append)
  next
    case (Cons c cs')
    have "0 \<notin> set (w @ d)" using assms(1) cs by simp
    then have nz: "c \<noteq> 0" "0 \<notin> set cs'" unfolding Cons by auto
    have "\<not> is_ws c" using hd_dropWhile [of is_ws cs] unfolding d_def [symmetric] Cons by simp
    then have c: "\<not> is_ws c" "c \<noteq> 0" using nz(1) .
    show ?thesis
    proof (cases "is_sym c")
      case True
      then have l: "lexemes cs = Sym c # lexemes cs'" using Cons by (subst lexemes.simps) (simp add: d_def [symmetric])
      let ?b = "(?pre @ [0]) @ cs' @ 0 # post"
      let ?g = "\<lparr>t_code = c, t_p1 = Some (length ?pre), t_p2 = Some (Suc (length ?pre))\<rparr>"
      have "gettoken1 b (Some (length pre)) = Some (?g, ?b)"
        using sk Cons c True by (simp add: gettoken1_def aget_def aset_def nth_append list_update_append)
      moreover have "delivers ?b ?g (lexemes cs) (length (?pre @ [0]))"
        unfolding l by (rule delivers_Sym [OF True _ refl nz(2)]) simp_all
      ultimately show ?thesis using b cs Cons
        by (intro exI [of _ ?g] exI [of _ ?b] exI [of _ "Suc (length ?pre)"]) (auto simp: nth_append)
    next
      case False
      define x where "x = takeWhile is_word_char d"
      define r where "r = dropWhile is_word_char d"
      have d: "d = x @ r" by (simp add: x_def r_def)
      have l: "lexemes cs = Word x # lexemes r" using Cons False by (subst lexemes.simps) (simp add: d_def [symmetric] x_def r_def)
      have x: "list_all (\<lambda>c. is_word_char c \<and> c \<noteq> 0) x" "0 \<notin> set (x @ r)" "r = [] \<or> \<not> is_word_char (hd r)"
      proof -
        have "0 \<notin> set (x @ r)" using \<open>0 \<notin> set (w @ d)\<close> by (simp add: d)
        moreover have "\<forall>c\<in>set x. is_word_char c" unfolding x_def by (auto dest: set_takeWhileD)
        ultimately show "list_all (\<lambda>c. is_word_char c \<and> c \<noteq> 0) x" "0 \<notin> set (x @ r)" by (auto simp: list_all_iff)
        show "r = [] \<or> \<not> is_word_char (hd r)" unfolding r_def using hd_dropWhile [of is_word_char d] by blast
      qed
      let ?b = "?pre @ x @ r @ 0 # post"
      let ?g = "\<lparr>t_code = tok_w, t_p1 = Some (length ?pre), t_p2 = Some (length ?pre + length x)\<rparr>"
      have e: "word_end ?b (length ?pre) = Some (length ?pre + length x)" by (rule word_end_ok [OF x(1,3)])
      have "gettoken1 b (Some (length pre)) = Some (?g, ?b)"
      proof -
        have "x @ r = c # cs'" using d Cons by simp
        then have bc: "?b = ?pre @ c # cs' @ 0 # post" by (metis append_Cons append_assoc)
        have "aget ?b (length ?pre) = Some c" unfolding bc by (simp add: aget_def nth_append)
        moreover have "skip_ws b (length pre) = Some (length ?pre, ?b)" using sk d by simp
        ultimately show ?thesis using e c(2) False by (simp add: gettoken1_def)
      qed
      moreover have "delivers ?b ?g (lexemes cs) (length ?pre)"
        unfolding l by (rule delivers_Word [OF _ refl x(2)]) (use x(3) in simp_all)
      moreover have "w \<noteq> []" if "\<not> is_word_char (hd cs)"
      proof
        assume "w = []"
        then have "hd cs = c" using cs Cons by simp
        then show False using that c(1) False by (simp add: is_word_char_def)
      qed
      moreover have "length b = length ?b" "cs \<noteq> []" using b cs d Cons by auto
      ultimately show ?thesis using z [of "x @ r @ 0 # post"]
        by (intro exI [of _ ?g] exI [of _ ?b] exI [of _ "length ?pre"]) auto
    qed
  qed
qed

text \<open>A terminated word.\<close>

definition word_at :: "u8 list \<Rightarrow> nat \<Rightarrow> u8 list \<Rightarrow> bool" where
  "word_at b p x \<longleftrightarrow> p + length x < length b \<and> (\<forall>i<length x. b ! (p + i) = x ! i) \<and> b ! (p + length x) = 0 \<and> 0 \<notin> set x"

lemma word_at_frame:
  assumes "word_at b p x" "p + length x < f" "take f b' = take f b" "length b' = length b"
  shows "word_at b' p x"
proof -
  have "b' ! i = b ! i" if "i < f" for i using assms(3) that by (metis nth_take)
  then show ?thesis using assms by (simp add: word_at_def)
qed

lemma word_at_str:
  assumes "word_at b p x"
  shows "str_at b p = Some x"
proof -
  have w: "p + length x < length b" "\<forall>i<length x. b ! (p + i) = x ! i" "b ! (p + length x) = 0" "0 \<notin> set x"
    using assms by (auto simp: word_at_def)
  have "takeWhile (\<lambda>c. c \<noteq> 0) (drop p b) = take (length x) (drop p b)"
    using w by (intro takeWhile_eq_take_P_nth) (auto simp: in_set_conv_nth)
  also have "\<dots> = x" using w(1,2) by (intro nth_equalityI) auto
  finally have "takeWhile (\<lambda>c. c \<noteq> 0) (drop p b) = x" .
  moreover have "0 \<in> set (drop p b)" using w(1,3) by (auto simp: in_set_conv_nth intro!: exI [of _ "length x"])
  ultimately show ?thesis using w(1) by (simp add: str_at_def)
qed

lemma gettoken_end: "delivers b g [] f \<Longrightarrow> gettoken g b = Some ((0, None), g, b)"
  by (simp add: delivers_def gettoken_def gettoken1_def)

lemma gettoken_step:
  assumes "delivers b g (t # ts) f"
  shows "\<exists>g' b' f'. gettoken g b = Some ((t_code g, t_p1 g), g', b') \<and> delivers b' g' ts f' \<and> f \<le> f' \<and>
    take f b' = take f b \<and> length b' = length b \<and>
    (\<forall>x. t = Word x \<longrightarrow> (\<exists>p. t_p1 g = Some p \<and> word_at b' p x \<and> p + length x < f'))"
proof (cases t)
  case (Sym c)
  then obtain pre r post where d: "b = pre @ r @ 0 # post" "0 \<notin> set r" "t_p2 g = Some (length pre)" "f = length pre" "lexemes r = ts"
    using assms by (auto simp: delivers_def)
  from gettoken1_ok [OF d(2,1)] obtain g' b' f' where "gettoken1 b (Some (length pre)) = Some (g', b')" "delivers b' g' ts f'"
    "length pre \<le> f'" "take (length pre) b' = pre" "length b' = length b" unfolding d(5) by blast
  then show ?thesis using d(1,3,4) Sym by (intro exI [of _ g'] exI [of _ b'] exI [of _ f']) (simp add: gettoken_def)
next
  case (Word x)
  then obtain pre r post where d: "b = (pre @ x) @ r @ 0 # post" "0 \<notin> set r" "0 \<notin> set x" "t_p1 g = Some (length pre)"
    "t_p2 g = Some (length (pre @ x))" "f = length pre" "lexemes r = ts" "r = [] \<or> \<not> is_word_char (hd r)"
    using assms by (auto simp: delivers_def)
  from gettoken1_ok [OF d(2,1)] obtain g' b' f' where g: "gettoken1 b (Some (length (pre @ x))) = Some (g', b')" "delivers b' g' ts f'"
    "take (length (pre @ x)) b' = pre @ x" "length b' = length b" "b' ! length (pre @ x) = 0" "length (pre @ x) < f'"
    using d(7,8) by blast
  have n: "b' ! i = (pre @ x) ! i" if "i < length (pre @ x)" for i using g(3) that by (metis nth_take)
  have "word_at b' (length pre) x"
    using g(4,5) d(1,3) n [of "length pre + i" for i] by (simp add: word_at_def nth_append)
  moreover have "take f b' = take f b"
    using n g(4) d(1,6) by (intro nth_equalityI) (auto simp: nth_append)
  ultimately show ?thesis using g(1,2,4,6) d(4-6) Word
    by (intro exI [of _ g'] exI [of _ b'] exI [of _ f']) (simp add: gettoken_def)
qed

section \<open>The parser\<close>

text \<open>The result of \<open>parsecmd\<close> as the meaning of the line has it: the arguments are the words they point to.\<close>

fun same_parse :: "u8 list \<Rightarrow> nat parsed \<Rightarrow> u8 list parsed \<Rightarrow> bool" where
  "same_parse b (Parsed ps rp) (Parsed ws rp') \<longleftrightarrow> rp = rp' \<and> list_all2 (word_at b) ps ws"
| "same_parse b Exit Exit \<longleftrightarrow> True"
| "same_parse b Panic Panic \<longleftrightarrow> True"
| "same_parse b _ _ \<longleftrightarrow> False"

definition parsed_as :: "(nat parsed \<times> u8 list \<times> sh_sys) option \<Rightarrow> (u8 list parsed \<times> sh_sys) option \<Rightarrow> bool" where
  "parsed_as r q \<longleftrightarrow>
     (case r of None \<Rightarrow> q = None | Some (p, b, y) \<Rightarrow> (\<exists>p'. q = Some (p', y) \<and> same_parse b p p'))"

definition args_at :: "u8 list \<Rightarrow> nat \<Rightarrow> nat list \<Rightarrow> u8 list list \<Rightarrow> bool" where
  "args_at b f ps ws \<longleftrightarrow> list_all2 (\<lambda>p w. word_at b p w \<and> p + length w < f) ps ws"

lemma args_at_frame:
  assumes "args_at b f ps ws" "take f b' = take f b" "length b' = length b" "f \<le> f'"
  shows "args_at b' f' ps ws"
  using assms word_at_frame unfolding args_at_def by (auto elim!: list_all2_mono)

lemma args_at_words: "args_at b f ps ws \<Longrightarrow> list_all2 (word_at b) ps ws"
  unfolding args_at_def by (auto elim: list_all2_mono)

lemma delivers_code:
  "delivers b g (Word x # ts) f \<Longrightarrow> t_code g = tok_w" "delivers b g (Sym c # ts) f \<Longrightarrow> t_code g = c \<and> is_sym c"
  by (simp_all add: delivers_def)

text \<open>A redirection and a pipe, given that the rest of the line is parsed as it should be.\<close>

lemma parse_redirect:
  assumes s: "gettoken g b = Some ((c, t), g', b')" "c = 60 \<or> c = 62" "delivers b' g' ts f'" "args_at b' f' argv ws"
    and IH: "\<And>w ts' v y' g2 b2 f2. ts = Word w # ts' \<Longrightarrow>
      redirect w (if c = 60 then O_RDONLY else O_WRONLY) (if c = 60 then 0 else 1) y = Some (v, y') \<Longrightarrow> v \<noteq> None \<Longrightarrow>
      delivers b2 g2 ts' f2 \<Longrightarrow> args_at b2 f2 argv ws \<Longrightarrow> parsed_as (parsecmd argv rp g2 b2 y') (parse_line ws rp ts' y')"
  shows "parsed_as (parsecmd argv rp g b y) (parse_line ws rp (Sym c # ts) y)"
proof -
  have c: "c \<noteq> 0" "c \<noteq> tok_w" using s(2) by auto
  consider "ts = []" | d ts' where "ts = Sym d # ts'" | w ts' where "ts = Word w # ts'"
    by (metis lex.exhaust neq_Nil_conv)
  then show ?thesis
  proof cases
    case 1
    then show ?thesis using c s gettoken_end [of b' g' f'] by (subst parsecmd.simps) (auto simp: parsed_as_def)
  next
    case (2 d ts')
    then have "\<exists>q g2 b2. gettoken g' b' = Some ((d, q), g2, b2)" "d \<noteq> tok_w"
      using gettoken_step [of b' g' "Sym d" ts' f'] delivers_code(2) [of b' g' d ts' f'] s(3) by auto
    then show ?thesis using 2 c s(1,2) by (subst parsecmd.simps) (auto simp: parsed_as_def)
  next
    case (3 w ts')
    have d: "delivers b' g' (Word w # ts') f'" using s(3) 3 by simp
    from gettoken_step [OF d] obtain g2 b2 f2 p where s2: "gettoken g' b' = Some ((tok_w, Some p), g2, b2)"
      "delivers b2 g2 ts' f2" "f' \<le> f2" "take f' b2 = take f' b'" "length b2 = length b'" "word_at b2 p w"
      using delivers_code(1) [OF d] by auto
    let ?r = "redirect w (if c = 60 then O_RDONLY else O_WRONLY) (if c = 60 then 0 else 1) y"
    show ?thesis
    proof (cases ?r)
      case None
      then show ?thesis using c s(1,2) s2(1) word_at_str [OF s2(6)] 3 by (subst parsecmd.simps) (auto simp: parsed_as_def)
    next
      case (Some q)
      obtain v y' where q: "q = (v, y')" by (cases q)
      have "parsed_as (parsecmd argv rp g2 b2 y') (parse_line ws rp ts' y')" if "v \<noteq> None"
        using IH [OF 3 _ that s2(2) args_at_frame [OF s(4) s2(4,5,3)]] Some q by simp
      then show ?thesis using c s(1,2) s2(1) word_at_str [OF s2(6)] 3 Some q
        by (subst parsecmd.simps) (cases v; auto simp: parsed_as_def)
    qed
  qed
qed

lemma parse_pipe:
  assumes s: "gettoken g b = Some ((124, t), g', b')" "list_all2 (word_at b') argv ws"
    and IH: "\<And>p0 p1 y1 y2. sh_pipe y = Some ((p0, p1), y1) \<Longrightarrow> sh_fork y1 = Some (0, y2) \<Longrightarrow>
      (let y' = call (AClose p1) (call (AClose p0) (call (ADup p0 0) y2)) in
       parsed_as (parsecmd [] 0 g' b' y') (parse_line [] 0 ts y'))"
  shows "parsed_as (parsecmd argv rp g b y) (parse_line ws rp (Sym 124 # ts) y)"
proof (cases "sh_pipe y")
  case None
  then show ?thesis using s(1) by (subst parsecmd.simps) (simp add: parsed_as_def)
next
  case (Some u)
  obtain p0 p1 y1 where u: "u = ((p0, p1), y1)" by (metis surj_pair)
  show ?thesis
  proof (cases "sh_fork y1")
    case None
    then show ?thesis using s(1) Some u by (subst parsecmd.simps) (simp add: parsed_as_def)
  next
    case (Some v)
    obtain r y2 where v: "v = (r, y2)" by (cases v)
    show ?thesis using IH [of p0 p1 y1 y2] s Some \<open>sh_pipe y = Some u\<close> u v
      by (subst parsecmd.simps) (auto simp: parsed_as_def Let_def)
  qed
qed

lemma parsecmd_refines:
  "delivers b g ts f \<Longrightarrow> args_at b f argv ws \<Longrightarrow> parsed_as (parsecmd argv rp g b y) (parse_line ws rp ts y)"
proof (induction ws rp ts y arbitrary: argv b g f rule: parse_line.induct)
  case (1 ws rp y)
  then show ?case
    using gettoken_end [OF 1(1)] args_at_words [OF 1(2)] by (subst parsecmd.simps) (simp add: parsed_as_def)
next
  case (2 ws rp w ts y)
  from gettoken_step [OF 2(2)] obtain g' b' f' p where s: "gettoken g b = Some ((tok_w, Some p), g', b')" "delivers b' g' ts f'"
    "f \<le> f'" "take f b' = take f b" "length b' = length b" "word_at b' p w" "p + length w < f'"
    using delivers_code(1) [OF 2(2)] by auto
  note a = args_at_frame [OF 2(3) s(4,5,3)]
  have len: "length argv = length ws" using a by (auto simp: args_at_def dest: list_all2_lengthD)
  show ?case
  proof (cases "length ws \<ge> MAXARGS")
    case True
    then show ?thesis using s(1) len by (subst parsecmd.simps) (simp add: parsed_as_def)
  next
    case False
    have "args_at b' f' (argv @ [p]) (ws @ [w])" using a s(6,7) by (simp add: args_at_def list_all2_appendI)
    from 2(1) [OF False s(2) this] False show ?thesis using s(1) len by (subst parsecmd.simps) simp
  qed
next
  case (3 ws rp c ts y)
  note IH = 3(1-3)
  from gettoken_step [OF 3(4)] obtain g' b' f' t where s: "gettoken g b = Some ((c, t), g', b')" "delivers b' g' ts f'"
    "f \<le> f'" "take f b' = take f b" "length b' = length b" using delivers_code(2) [OF 3(4)] by auto
  note a = args_at_frame [OF 3(5) s(4,5,3)]
  have c: "c \<noteq> 0" "c \<noteq> tok_w" using delivers_code(2) [OF 3(4)] by auto
  consider "c = 60 \<or> c = 62" | "c = 124" | "\<not> (c = 60 \<or> c = 62)" "c \<noteq> 124" by blast
  then show ?case
  proof cases
    case 1
    show ?thesis by (rule parse_redirect [OF s(1) 1 s(2) a]) (rule IH(1) [OF 1 _ refl _ refl])
  next
    case 2
    then have n: "\<not> (c = 60 \<or> c = 62)" by auto
    have "args_at b' f' [] []" by (simp add: args_at_def)
    note ih = IH(2) [OF n 2 _ refl refl _ refl refl s(2) this]
    show ?thesis unfolding 2 by (rule parse_pipe [OF s(1) [unfolded 2] args_at_words [OF a]]) (use ih in \<open>simp add: Let_def\<close>)
  next
    case 3
    then show ?thesis using IH(3) [OF 3 s(2) a] s(1) c by (subst parsecmd.simps) simp
  qed
qed

section \<open>Properties\<close>

text \<open>The tokens handed out one after the other, up to the end of the line, with the word each points to.\<close>

fun token_run :: "nat \<Rightarrow> token \<Rightarrow> u8 list \<Rightarrow> (u8 \<times> u8 list option) list option" where
  "token_run 0 g b = Some []"
| "token_run (Suc n) g b =
     do { ((c, t), g, b) \<leftarrow> gettoken g b;
          let w = (if c = tok_w then do { p \<leftarrow> t; str_at b p } else None) in
          do { ts \<leftarrow> token_run n g b; Some ((c, w) # ts) } }"

fun lex_code :: "lex \<Rightarrow> u8 \<times> u8 list option" where
  "lex_code (Word w) = (tok_w, Some w)"
| "lex_code (Sym c) = (c, None)"

lemma token_run_ok:
  "delivers b g ts f \<Longrightarrow> token_run n g b = Some (map lex_code (take n ts) @ replicate (n - length ts) (0, None))"
proof (induction n arbitrary: b g ts f)
  case (Suc n)
  show ?case
  proof (cases ts)
    case Nil
    then show ?thesis using Suc.IH [OF Suc.prems] gettoken_end [of b g f] Suc.prems by simp
  next
    case (Cons t ts')
    then have d: "delivers b g (t # ts') f" using Suc.prems by simp
    from gettoken_step [OF d] obtain g' b' f' where s: "gettoken g b = Some ((t_code g, t_p1 g), g', b')" "delivers b' g' ts' f'"
      "\<forall>x. t = Word x \<longrightarrow> (\<exists>p. t_p1 g = Some p \<and> word_at b' p x)" by blast
    have "(t_code g, if t_code g = tok_w then do { p \<leftarrow> t_p1 g; str_at b' p } else None) = lex_code t"
    proof (cases t)
      case (Word x)
      then show ?thesis using s(3) word_at_str delivers_code(1) [of b g x ts' f] d by fastforce
    next
      case (Sym c)
      then show ?thesis using delivers_code(2) [of b g c ts' f] d by auto
    qed
    then show ?thesis using Suc.IH [OF s(2)] s(1) Cons by simp
  qed
qed simp

text \<open>
  On any line the tokenizer hands out exactly the words and symbols of the line, in order, and then the end marker for ever;
  every word is a terminated string of its own at the moment it is handed out, although its terminator is written by the
  look-ahead for the next token.
\<close>

theorem sh_tokens:
  assumes "0 \<notin> set line"
  shows "\<exists>g b. gettoken_start (line @ 0 # rest) 0 = Some (g, b) \<and>
    token_run n g b = Some (map lex_code (take n (lexemes line)) @ replicate (n - length (lexemes line)) (0, None))"
proof -
  obtain g b f where "gettoken1 (line @ 0 # rest) (Some 0) = Some (g, b)" "delivers b g (lexemes line) f"
    using gettoken1_ok [OF assms, of _ "[]" rest] by auto
  then show ?thesis using token_run_ok by (auto simp: gettoken_start_def)
qed

theorem sh_tokens_witness:
  "\<exists>g b. gettoken_start [97, 98, 62, 32, 99, 0] 0 = Some (g, b) \<and>
     token_run 4 g b = Some [(119, Some [97, 98]), (62, None), (119, Some [99]), (0, None)]"
proof -
  have "lexemes [97, 98, 62, 32, 99] = [Word [97, 98], Sym 62, Word [99]]"
    by (simp add: lexemes.simps is_ws_def is_sym_def is_word_char_def)
  then show ?thesis using sh_tokens [of "[97, 98, 62, 32, 99]" "[]" 4] by simp
qed

text \<open>
  C32 (sh_parse). \<open>parsecmd\<close> on a line does what the words and symbols of the line mean: with the same answers of the system it makes the same
  calls in the same order, ends the same way (errors included), and its arguments point to terminated copies of the words.
\<close>

theorem sh_parse:
  assumes "0 \<notin> set line"
  shows "\<exists>g b. gettoken_start (line @ 0 # rest) 0 = Some (g, b) \<and>
    parsed_as (parsecmd [] 0 g b y) (parse_line [] 0 (lexemes line) y)"
proof -
  obtain g b f where "gettoken1 (line @ 0 # rest) (Some 0) = Some (g, b)" "delivers b g (lexemes line) f"
    using gettoken1_ok [OF assms, of _ "[]" rest] by auto
  then show ?thesis using parsecmd_refines [of b g "lexemes line" f "[]" "[]" 0 y] by (auto simp: gettoken_start_def args_at_def)
qed

definition sys0 :: sh_sys where
  "sys0 = \<lparr>opens = [- 10, 3], pipes = [], forks = [], spawns = [5], acts = []\<rparr>"

theorem sh_parse_witness:
  "\<exists>g b p b' y. gettoken_start [97, 62, 102, 0] 0 = Some (g, b) \<and> parsecmd [] 0 g b sys0 = Some (Parsed [p] 0, b', y) \<and>
     word_at b' p [97] \<and> acts y = [AOpen [102] 1, AOpen [102] 0x101, ADup 3 1, AClose 3]"
proof -
  have l: "lexemes [97, 62, 102] = [Word [97], Sym 62, Word [102]]"
    by (simp add: lexemes.simps is_ws_def is_sym_def is_word_char_def)
  obtain y where y: "parse_line [] 0 (lexemes [97, 62, 102]) sys0 = Some (Parsed [[97]] 0, y)"
    "acts y = [AOpen [102] 1, AOpen [102] 0x101, ADup 3 1, AClose 3]"
    by (simp add: l redirect_def sh_open_def sys0_def call_def)
  from sh_parse [of "[97, 62, 102]" "[]" sys0] obtain g b where g: "gettoken_start [97, 62, 102, 0] 0 = Some (g, b)"
    "parsed_as (parsecmd [] 0 g b sys0) (Some (Parsed [[97]] 0, y))" unfolding y(1) by auto
  from g(2) obtain r b' where r: "parsecmd [] 0 g b sys0 = Some (r, b', y)" "same_parse b' r (Parsed [[97]] 0)"
    by (auto simp: parsed_as_def split: option.splits)
  then obtain p where "r = Parsed [p] 0" "word_at b' p [97]" by (cases r) (auto simp: list_all2_Cons2)
  then show ?thesis using g(1) r(1) y(2) by blast
qed

end
