(* ===== verification/Uvm.thy ===== *)
theory Uvm
  imports Traps
begin

text \<open>
  User programs over the kernel: the system-call stubs of \<^verbatim>\<open>user/lib/ecall_lib.c\<close>, loads of user memory with
  the page fault they may cause, and the windows \<open>vpt\<close> and \<open>vpd\<close> of \<^verbatim>\<open>user/include/lib.h\<close> through which a
  program reads its own page tables. The window is opened by the first load fault at \<open>UVPT\<close>
  (\<open>load_fault_vpt\<close>); \<open>vpt_window\<close> says what it shows.
\<close>

section \<open>System calls\<close>

text \<open>
  \<open>mecall\<close> is the instruction \<open>ecall\<close> as the program sees it: the number is in \<open>a0\<close>, the arguments are in \<open>a1\<close> to \<open>a5\<close>, and
  \<open>do_ecall_from_u\<close> calls the handler. That the program goes on behind the instruction (\<open>sepc\<close>) and finds the result in \<open>a0\<close>
  is what it means that \<open>mecall\<close> returns; the other registers of the program are not part of the model. A call that replaces
  the frame it returns to has to be taken through the trap itself (\<open>trap_ecall\<close>). The disk device and the driver's buffer
  are the first argument.
\<close>

type_synonym machine = "device \<times> u32"

definition mecall ::
  "machine \<Rightarrow> nat \<Rightarrow> u32 \<Rightarrow> u32 \<Rightarrow> u32 \<Rightarrow> u32 \<Rightarrow> u32 \<Rightarrow> kstate \<Rightarrow> (u32 outcome \<times> kstate) option"
where
  "mecall mc eno a1 a2 a3 a4 a5 s = ecall (fst mc) (snd mc) eno a1 a2 a3 a4 a5 s"

definition ecall_getenvid :: "machine \<Rightarrow> kstate \<Rightarrow> (u32 outcome \<times> kstate) option" where
  "ecall_getenvid mc = mecall mc 3 0 0 0 0 0"

definition ecall_set_env_cow_entry :: "machine \<Rightarrow> u32 \<Rightarrow> u32 \<Rightarrow> kstate \<Rightarrow> (u32 outcome \<times> kstate) option" where
  "ecall_set_env_cow_entry mc envid cow_entry = mecall mc 6 envid cow_entry 0 0 0"

definition ecall_mem_alloc :: "machine \<Rightarrow> u32 \<Rightarrow> u32 \<Rightarrow> u32 \<Rightarrow> kstate \<Rightarrow> (u32 outcome \<times> kstate) option" where
  "ecall_mem_alloc mc envid va perm = mecall mc 7 envid va perm 0 0"

definition ecall_mem_map :: "machine \<Rightarrow> u32 \<Rightarrow> u32 \<Rightarrow> u32 \<Rightarrow> u32 \<Rightarrow> u32 \<Rightarrow> kstate \<Rightarrow> (u32 outcome \<times> kstate) option" where
  "ecall_mem_map mc srcid srcva dstid dstva perm = mecall mc 8 srcid srcva dstid dstva perm"

definition ecall_mem_unmap :: "machine \<Rightarrow> u32 \<Rightarrow> u32 \<Rightarrow> kstate \<Rightarrow> (u32 outcome \<times> kstate) option" where
  "ecall_mem_unmap mc envid va = mecall mc 9 envid va 0 0 0"

definition ecall_exofork :: "machine \<Rightarrow> kstate \<Rightarrow> (u32 outcome \<times> kstate) option" where
  "ecall_exofork mc = mecall mc 10 0 0 0 0 0"

definition ecall_set_env_status :: "machine \<Rightarrow> u32 \<Rightarrow> u32 \<Rightarrow> kstate \<Rightarrow> (u32 outcome \<times> kstate) option" where
  "ecall_set_env_status mc envid status = mecall mc 11 envid status 0 0 0"

definition ecall_set_trapframe :: "machine \<Rightarrow> u32 \<Rightarrow> u32 \<Rightarrow> kstate \<Rightarrow> (u32 outcome \<times> kstate) option" where
  "ecall_set_trapframe mc envid tf = mecall mc 12 envid tf 0 0 0"

lemma stubs [simp]:
  "ecall_getenvid mc = e_getenvid" "ecall_set_env_cow_entry mc i w = e_set_env_cow_entry i w"
  "ecall_mem_alloc mc i va p = e_mem_alloc i va p" "ecall_mem_map mc i va j vb p = e_mem_map i va j vb p"
  "ecall_mem_unmap mc i va = e_mem_unmap i va" "ecall_exofork mc = e_exofork"
  "ecall_set_env_status mc i st = e_set_env_status i st" "ecall_set_trapframe mc i tf = e_set_trapframe i tf"
  by (simp_all add: fun_eq_iff mecall_def ecall_def ecall_getenvid_def ecall_set_env_cow_entry_def ecall_mem_alloc_def
      ecall_mem_map_def ecall_mem_unmap_def ecall_exofork_def ecall_set_env_status_def ecall_set_trapframe_def)

text \<open>
  The whole trap: the registers of the call are in the frame at \<open>sscratch\<close>, and \<open>do_ecall_from_u\<close> works on that frame, which the
  return from the trap loads.
\<close>

definition enter_ecall :: "nat \<Rightarrow> u32 \<Rightarrow> u32 \<Rightarrow> u32 \<Rightarrow> u32 \<Rightarrow> u32 \<Rightarrow> kstate \<Rightarrow> kstate" where
  "enter_ecall eno a1 a2 a3 a4 a5 s =
     (let tf = sscratch_csr s; f = kframes s tf in
      set_frame tf (f\<lparr>regs := (regs f)(10 := of_nat eno, 11 := a1, 12 := a2, 13 := a3, 14 := a4, 15 := a5), scause := 8\<rparr>) s)"

definition trap_ecall ::
  "machine \<Rightarrow> nat \<Rightarrow> u32 \<Rightarrow> u32 \<Rightarrow> u32 \<Rightarrow> u32 \<Rightarrow> u32 \<Rightarrow> kstate \<Rightarrow> (unit outcome \<times> kstate) option"
where
  "trap_ecall mc eno a1 a2 a3 a4 a5 s =
     do_ecall_from_u (fst mc) (snd mc) (sscratch_csr s) (enter_ecall eno a1 a2 a3 a4 a5 s)"

text \<open>
  The trap runs the call that \<open>mecall\<close> stands for, with the program counter moved on in the frame, and puts its result into \<open>a0\<close> of
  the frame that is at \<open>sscratch\<close> then.
\<close>

lemma trap_ecall_mecall:
  assumes "eno < 23" and s0: "s0 = enter_ecall eno a1 a2 a3 a4 a5 s"
    and s1: "s1 = set_frame (sscratch_csr s) ((cur_frame s0)\<lparr>sepc := sepc (cur_frame s) + 4\<rparr>) s0"
  shows "trap_ecall mc eno a1 a2 a3 a4 a5 s =
    do { (r, s') \<leftarrow> mecall mc eno a1 a2 a3 a4 a5 s1;
         (case r of Switched \<Rightarrow> Some (Switched, s')
          | Returned v \<Rightarrow> Some (Returned (), set_frame (sscratch_csr s) (set_reg 10 v (kframes s' (sscratch_csr s))) s')) }"
proof -
  have e: "unat (of_nat eno :: u32) = eno" using assms(1) by (intro unat_of_nat32) simp
  then have "sint (of_nat eno :: u32) = int eno" using assms(1) by (simp add: sint_small)
  then have "\<not> sint (of_nat eno :: u32) < 0" "\<not> sint (of_nat eno :: u32) \<ge> sint MAX_ENO" using assms(1) by simp_all
  then show ?thesis using e
    by (simp add: trap_ecall_def do_ecall_from_u_def mecall_def s1 s0 enter_ecall_def Let_def cur_frame_def set_frame_def)
qed

text \<open>A call the program waits for; one that gives the processor away does not return here.\<close>

definition returning ::
  "(u32 outcome \<times> kstate) option \<Rightarrow> (u32 \<Rightarrow> kstate \<Rightarrow> 'a option) \<Rightarrow> 'a option"
where
  "returning m k = do { (r, s) \<leftarrow> m; (case r of Returned v \<Rightarrow> k v s | Switched \<Rightarrow> None) }"

lemma returning_simps [simp]:
  "returning (Some (Returned v, s)) k = k v s" "returning (Some (Switched, s)) k = None" "returning None k = None"
  by (simp_all add: returning_def)

section \<open>Loads and the page-table windows\<close>

text \<open>A load of an address without a mapping traps to \<open>do_load_page\<close> and is executed again.\<close>

definition load_trap :: "u32 \<Rightarrow> kstate \<Rightarrow> kstate option" where
  "load_trap va s =
     (let tf = sscratch_csr s in
      do_load_page tf (set_frame tf ((kframes s tf)\<lparr>stval := va, scause := 13\<rparr>) s))"

definition uread32 :: "u32 \<Rightarrow> kstate \<Rightarrow> (u32 \<times> kstate) option" where
  "uread32 va s =
     (case uload32 s va of
        Some v \<Rightarrow> Some (v, s)
      | None \<Rightarrow> do { s \<leftarrow> load_trap va s; v \<leftarrow> uload32 s va; Some (v, s) })"

definition vpt :: "u32 \<Rightarrow> kstate \<Rightarrow> (u32 \<times> kstate) option" where
  "vpt i s = uread32 (UVPT + 4 * i) s"

definition vpd :: "u32 \<Rightarrow> kstate \<Rightarrow> (u32 \<times> kstate) option" where
  "vpd i s = uread32 (UVPT + push_bit 12 (PDX UVPT) + 4 * i) s"

text \<open>The address space in force, as its page map sees it.\<close>

lemma PADDR_not_ones: "PADDR e \<noteq> NOT 0"
proof
  assume "PADDR e = NOT 0"
  then have "bit (PADDR e) 0 = bit (NOT 0 :: u32) 0" by simp
  then show False by (simp add: bit_simps)
qed

lemma pte_page_PTE_ADDR: "pte_page (PTE_ADDR e) = pte_page e"
  by (simp add: pte_page_def PADDR_PTE_ADDR)

lemma translate_amap:
  assumes "cur_pgdir s = page2addr pd"
  shows "translate s va = map_option (\<lambda>e. page2addr (pte_page e) OR (va AND 0xfff)) (amap s pd va)"
proof -
  have "load32 (kmem s) (page2addr p + 4 * i) = pw s p i" for p i by (simp add: pw_def slot_def kload32_def)
  then show ?thesis using assms PADDR_not_ones
    by (simp add: translate_def va2pa_def Let_def amap_def pde_ok_def PADDR_PTE_ADDR PADDR_page pt_def pte_page_PTE_ADDR)
qed

lemma page_offset:
  assumes "va AND 3 = 0"
  shows "page2addr p OR (va AND 0xfff) = slot p (drop_bit 2 va AND 0x3ff)"
proof -
  have b: "\<not> bit va 0" "\<not> bit va 1" using assms bit_and_iff [of va 3 0] bit_and_iff [of va 3 1] by (auto simp: bit_numeral_rec)
  have m: "(0xfff :: u32) = mask 12" "(0x3ff :: u32) = mask 10" by (simp_all add: mask_eq_exp_minus_1)
  have f: "4 * (drop_bit 2 va AND 0x3ff) = push_bit 2 (drop_bit 2 va AND 0x3ff)" by (simp add: push_bit_eq_mult)
  have lo: "push_bit 2 (drop_bit 2 va AND 0x3ff) = va AND 0xfff" unfolding m
  proof (rule bit_word_eqI)
    fix n assume "n < LENGTH(32)"
    show "bit (push_bit 2 (drop_bit 2 va AND mask 10)) n = bit (va AND mask 12) n"
      using b by (cases n; cases "n - 1") (auto simp: bit_simps)
  qed
  show ?thesis unfolding slot_def f lo page2addr_push
    by (rule disjunctive_add_eq_or [symmetric]) (auto simp: bit_eq_iff bit_simps m)
qed

lemma uload32_amap:
  assumes "cur_pgdir s = page2addr pd" "va AND 3 = 0"
  shows "uload32 s va = map_option (\<lambda>e. pw s (pte_page e) (drop_bit 2 va AND 0x3ff)) (amap s pd va)"
  using assms by (cases "amap s pd va") (simp_all add: uload32_def translate_amap page_offset pw_def kload32_def)

text \<open>
  The window: the directory is full, and the page at \<open>UVPT\<close> with index \<open>i\<close> is the table for the \<open>i\<close>-th four
  megabytes, the directory itself at the index of \<open>UVPT\<close>.
\<close>

definition vpt_window :: "kstate \<Rightarrow> nat \<Rightarrow> bool" where
  "vpt_window s pd \<longleftrightarrow> cur_pgdir s = page2addr pd \<and> (\<forall>i. unat i < 1024 \<longrightarrow> pde_ok (pw s pd i) \<and>
     map_option pte_page (amap s pd (UVPT + push_bit 12 i)) = Some (if i = PDX UVPT then pd else pt s pd i))"

lemma window_address:
  assumes "va < ULIM" "i = VPN va"
  shows "(UVPT + 4 * i) AND 3 = 0" "drop_bit 2 (UVPT + 4 * i) AND 0x3ff = PTX va"
    "VPN (UVPT + 4 * i) = VPN (UVPT + push_bit 12 (PDX va))"
proof -
  have m: "UVPT = push_bit 22 (mask 9)" "(0x3ff :: u32) = mask 10" "(3 :: u32) = mask 2"
    by (simp_all add: mask_eq_exp_minus_1 push_bit_eq_mult)
  have i: "4 * i = push_bit 2 (drop_bit 12 va)" using assms by (simp add: VPN_def push_bit_eq_mult)
  have a: "UVPT + 4 * i = UVPT OR 4 * i" unfolding i m(1)
    by (rule disjunctive_add_eq_or) (auto simp: bit_eq_iff bit_simps dest: bit_imp_le_length)
  have b: "UVPT + push_bit 12 (PDX va) = UVPT OR push_bit 12 (PDX va)" unfolding m(1)
    by (rule disjunctive_add_eq_or) (auto simp: bit_eq_iff bit_simps)
  show "(UVPT + 4 * i) AND 3 = 0" unfolding a unfolding i m by (auto simp: bit_eq_iff bit_simps)
  show "drop_bit 2 (UVPT + 4 * i) AND 0x3ff = PTX va" unfolding a unfolding i m PTX_def
    by (rule bit_word_eqI) (auto simp: bit_simps)
  show "VPN (UVPT + 4 * i) = VPN (UVPT + push_bit 12 (PDX va))" unfolding a b unfolding i m
    by (rule bit_word_eqI) (auto simp: bit_simps add.commute dest: bit_imp_le_length)
qed

lemma VPN_less_UTOP: "VPN va < VPN UTOP \<Longrightarrow> va < UTOP"
  by (simp add: VPN_def word_less_nat_alt unat_drop_bit32)

lemma window_load:
  assumes w: "vpt_window s pd" and va: "va < UTOP"
  shows "uload32 s (UVPT + 4 * VPN va) = Some (pw s (pt s pd (PDX va)) (PTX va))"
proof -
  have "va < ULIM" using va by (rule less_trans) simp
  note a = window_address [OF this refl]
  have "PDX va \<noteq> PDX UVPT" using user_PDX [OF va] by (auto simp: PDX_def)
  then obtain e where "amap s pd (UVPT + push_bit 12 (PDX va)) = Some e" "pte_page e = pt s pd (PDX va)"
    using w unat_PDX_less [of va] by (auto simp: vpt_window_def)
  then show ?thesis using uload32_amap [of s pd "UVPT + 4 * VPN va"] w a amap_VPN [OF a(3), of s pd] by (simp add: vpt_window_def)
qed

lemma vpt_read:
  assumes "vpt_window s pd" "va < UTOP"
  shows "vpt (VPN va) s = Some (pw s (pt s pd (PDX va)) (PTX va), s)"
  using window_load [OF assms] by (simp add: vpt_def uread32_def)

lemma vpt_valid:
  assumes "vpt_window s pd"
  shows "pde_ok (pw s (pt s pd (PDX va)) (PTX va)) \<longleftrightarrow> amap s pd va \<noteq> None"
    "amap s pd va = Some e \<Longrightarrow> pw s (pt s pd (PDX va)) (PTX va) = e"
  using assms unat_PDX_less [of va] by (auto simp: amap_def vpt_window_def split: if_splits)

lemma vpd_read:
  assumes w: "vpt_window s pd" and va: "va < UTOP"
  shows "vpd (PDX va) s = Some (pw s pd (PDX va), s)"
proof -
  define a where "a = UVPT + push_bit 12 (PDX UVPT)"
  obtain k where P: "PDX UVPT = 0x1ff" "a = push_bit 12 k"
    by (rule that [of "0x7fdff"]) (simp_all add: PDX_def a_def push_bit_eq_mult)
  have m: "(0x3ff :: u32) = mask 10" "(3 :: u32) = mask 2" by (simp_all add: mask_eq_exp_minus_1)
  have i: "4 * PDX va = push_bit 2 (PDX va)" by (simp add: push_bit_eq_mult)
  have o: "a + 4 * PDX va = a OR push_bit 2 (PDX va)" unfolding P(2) i
    by (rule disjunctive_add_eq_or) (auto simp: bit_eq_iff bit_simps)
  have "(a + 4 * PDX va) AND 3 = 0" unfolding o unfolding P(2) m by (auto simp: bit_eq_iff bit_simps)
  moreover have "drop_bit 2 (a + 4 * PDX va) AND 0x3ff = PDX va" unfolding o unfolding P(2) m
    by (rule bit_word_eqI) (auto simp: bit_simps)
  moreover have "VPN (a + 4 * PDX va) = VPN a" unfolding o unfolding P(2)
    by (rule bit_word_eqI) (auto simp: bit_simps)
  moreover have "map_option pte_page (amap s pd a) = Some pd"
    using w unat_PDX_less [of UVPT] unfolding vpt_window_def a_def by presburger
  ultimately have "uload32 s (a + 4 * PDX va) = Some (pw s pd (PDX va))"
    using uload32_amap [of s pd "a + 4 * PDX va"] w amap_VPN [of "a + 4 * PDX va" a s pd] by (auto simp: vpt_window_def)
  then show ?thesis by (simp add: vpd_def uread32_def a_def)
qed

lemma window_present: "vpt_window s pd \<Longrightarrow> unat i < 1024 \<Longrightarrow> pde_ok (pw s pd i)"
  by (simp add: vpt_window_def)

text \<open>A step below \<open>UTOP\<close> that keeps the directory keeps the window.\<close>

lemma vpt_window_step:
  assumes w: "vpt_window s pd" and d: "pd \<in> D" and st: "dirs_step D pd' i s s'" "cur_pgdir s' = cur_pgdir s"
    and am: "\<And>va. UTOP \<le> va \<Longrightarrow> amap s' pd va = amap s pd va"
  shows "vpt_window s' pd"
proof -
  have p: "pw s' pd j = pw s pd j" if "unat j < 1024" for j
    using dirs_step_keep [OF st(1) d that window_present [OF w that]] .
  have "UTOP \<le> UVPT + push_bit 12 j" if "unat j < 1024" for j :: u32
  proof -
    have "unat (push_bit 12 j) = 4096 * unat j" using that by (simp add: push_bit_eq_mult unat_word_ariths)
    then show ?thesis using that unat_add_small [of UVPT "4096 * unat j"] by (simp add: word_le_nat_alt push_bit_eq_mult mult.commute)
  qed
  then show ?thesis using w p am st(2) by (auto simp: vpt_window_def pt_def)
qed

end
