(* ===== verification/Proc.thy ===== *)
theory Proc
  imports Uvm
begin

text \<open>
  A running program over the kernel: stores to user memory with the faults they may cause, and the view
  of a program that has its page-table window open. \<open>proc\<close> is the situation in which the user library runs;
  each memory call and each store keeps it and changes one point of the page map or one word.
\<close>

section \<open>Stores\<close>

text \<open>The entry the hardware uses for an address; \<open>0\<close> where there is no table.\<close>

definition upte :: "kstate \<Rightarrow> u32 \<Rightarrow> u32" where
  "upte s va =
     (let pde = load32 (kmem s) (cur_pgdir s + 4 * PDX va) in
      if pde AND PTE_V = 0 then 0 else load32 (kmem s) (PADDR (PTE_ADDR pde) + 4 * PTX va))"

definition writable :: "kstate \<Rightarrow> u32 \<Rightarrow> bool" where
  "writable s va \<longleftrightarrow> upte s va AND PTE_V \<noteq> 0 \<and> upte s va AND PTE_W \<noteq> 0"

text \<open>A store that is not permitted traps to \<open>do_store_page\<close> and is executed again.\<close>

definition store_trap :: "u32 \<Rightarrow> kstate \<Rightarrow> kstate option" where
  "store_trap va s =
     (let tf = sscratch_csr s in
      do_store_page tf (set_frame tf ((kframes s tf)\<lparr>stval := va, scause := 15\<rparr>) s))"

definition uwrite :: "u32 \<Rightarrow> (kstate \<Rightarrow> kstate option) \<Rightarrow> kstate \<Rightarrow> kstate option" where
  "uwrite va st s =
     (if writable s va then st s
      else do { s \<leftarrow> store_trap va s; (if writable s va then st s else None) })"

definition uwrite32 :: "u32 \<Rightarrow> u32 \<Rightarrow> kstate \<Rightarrow> kstate option" where
  "uwrite32 va v = uwrite va (ustore32 va v)"

definition uwrite8 :: "u32 \<Rightarrow> u8 \<Rightarrow> kstate \<Rightarrow> kstate option" where
  "uwrite8 va v = uwrite va (ustore8 va v)"

definition uread8 :: "u32 \<Rightarrow> kstate \<Rightarrow> (u8 \<times> kstate) option" where
  "uread8 va s =
     (case uload8 s va of
        Some v \<Rightarrow> Some (v, s)
      | None \<Rightarrow> do { s \<leftarrow> load_trap va s; v \<leftarrow> uload8 s va; Some (v, s) })"

lemma upte_amap:
  assumes "cur_pgdir s = page2addr pd"
  shows "amap s pd va = Some e \<Longrightarrow> upte s va = e" "amap s pd va = None \<Longrightarrow> upte s va AND PTE_V = 0"
proof -
  have "load32 (kmem s) (page2addr p + 4 * i) = pw s p i" for p i by (simp add: pw_def slot_def kload32_def)
  then have "upte s va = (if pde_ok (pw s pd (PDX va)) then pw s (pt s pd (PDX va)) (PTX va) else 0)"
    using assms by (simp add: upte_def Let_def pde_ok_def PADDR_PTE_ADDR PADDR_page pt_def pte_page_PTE_ADDR)
  then show "amap s pd va = Some e \<Longrightarrow> upte s va = e" "amap s pd va = None \<Longrightarrow> upte s va AND PTE_V = 0"
    by (auto simp: amap_def pde_ok_def split: if_splits)
qed

lemma writable_amap:
  assumes "cur_pgdir s = page2addr pd" "amap s pd va = Some e"
  shows "writable s va \<longleftrightarrow> e AND PTE_W \<noteq> 0"
proof -
  have "e AND PTE_V \<noteq> 0" using assms(2) by (auto simp: amap_def pde_ok_def split: if_splits)
  then show ?thesis using upte_amap(1) [OF assms] by (simp add: writable_def)
qed

section \<open>Writing data pages\<close>

lemma as_inv_data:
  assumes inv: "as_inv s D xs" and st: "npage s' = npage s" "page_free_list s' = page_free_list s" "pp_ref s' = pp_ref s"
    and pw: "\<And>q j. q \<in> tables s D \<Longrightarrow> unat j < 1024 \<Longrightarrow> pw s' q j = pw s q j"
  shows "as_inv s' D xs"
proof -
  note ta = tables_agree [OF pw]
  show ?thesis
  proof (rule as_invI)
    show "pt s' pd' i < NPAGES" "pt s' pd' i \<notin> D" if "pd' \<in> D" "unat i < 1024" "pde_ok (pw s' pd' i)" for pd' i
      using that ta(1,2) as_invD(7,8) [OF inv] by auto
    show "pd1 = pd2 \<and> i = j" if a: "pd1 \<in> D" "pd2 \<in> D" "unat i < 509" "unat j < 1024"
      "pde_ok (pw s' pd1 i)" "pde_ok (pw s' pd2 j)" "pt s' pd1 i = pt s' pd2 j" for pd1 pd2 i j
    proof -
      have "unat i < 1024" using a(3) by simp
      then show ?thesis using a ta(1,2) by (intro as_invD(9) [OF inv]) auto
    qed
    show "pte_page e < NPAGES" if "pd' \<in> D" "va' < UTOP" "amap s' pd' va' = Some e" for pd' va' e
      using that ta(3) as_invD(10) [OF inv] by auto
    show "card (uses s' D q) + (if q \<in> tables s' D then 1 else 0) \<le> unat (pp_ref s' q)" if "q < NPAGES" for q
      using as_invD(11) [OF inv that] ta(4,5) st by simp
  qed (use as_invD [OF inv] st in auto)
qed

section \<open>The view of a program\<close>

text \<open>
  The running environment \<open>c\<close> owns the directory \<open>pd\<close>, its window is open, and none of its pages below
  \<open>UTOP\<close> is a page table.
\<close>

definition proc :: "nat set \<Rightarrow> nat \<Rightarrow> nat \<Rightarrow> kstate \<Rightarrow> nat list \<Rightarrow> bool" where
  "proc D c pd s xs \<longleftrightarrow> as_inv s D xs \<and> curenv s = Some c \<and> owns_dir s D c pd \<and> vpt_window s pd \<and>
     (\<forall>va e. va < UTOP \<longrightarrow> amap s pd va = Some e \<longrightarrow> pte_page e \<notin> tables s D)"

lemma procD:
  assumes "proc D c pd s xs"
  shows "as_inv s D xs" "curenv s = Some c" "owns_dir s D c pd" "vpt_window s pd" "pd \<in> D" "cur_pgdir s = page2addr pd"
    "\<And>va e. va < UTOP \<Longrightarrow> amap s pd va = Some e \<Longrightarrow> pte_page e \<notin> tables s D"
  using assms by (auto simp: proc_def owns_dir_def vpt_window_def)

text \<open>One call: page \<open>va\<close> of the program gets the entry \<open>new\<close>, and nothing else changes.\<close>

definition remaps :: "nat set \<Rightarrow> nat \<Rightarrow> u32 \<Rightarrow> u32 option \<Rightarrow> kstate \<Rightarrow> kstate \<Rightarrow> bool" where
  "remaps D pd va new s s' \<longleftrightarrow> os_kept s s' \<and> data_kept D s s' \<and> tables s' D = tables s D \<and>
     (\<forall>pd' \<in> D. \<forall>va'. amap s' pd' va' = (if pd' = pd \<and> VPN va' = VPN va then new else amap s pd' va'))"

lemma remapsD:
  assumes "remaps D pd va new s s'"
  shows "os_kept s s'" "data_kept D s s'" "tables s' D = tables s D"
    "pd' \<in> D \<Longrightarrow> amap s' pd' va' = (if pd' = pd \<and> VPN va' = VPN va then new else amap s pd' va')"
  using assms unfolding remaps_def by blast+

lemma full_tables:
  assumes w: "vpt_window s pd" and st: "dirs_step D pd i s s'" "unat i < 1024"
  shows "tables s' D = tables s D"
proof -
  have "pw s' pd' j = pw s pd' j" if "pd' \<in> D" "unat j < 1024" for pd' j
    using st window_present [OF w st(2)] that unfolding dirs_step_def by blast
  then show ?thesis unfolding tables_def pt_def by (auto; metis)
qed

lemma above_UTOP:
  assumes "va < UTOP" "UTOP \<le> va'"
  shows "VPN va' \<noteq> VPN va"
proof
  assume "VPN va' = VPN va"
  then have "VPN va' < 0x7f400" using VPN_less [OF assms(1)] by simp
  then show False using assms(2) by (simp add: VPN_def word_le_nat_alt word_less_nat_alt unat_drop_bit32)
qed

lemma proc_remaps:
  assumes p: "proc D c pd s xs" and inv: "as_inv s' D ys" and r: "remaps D pd va new s s'" and va: "va < UTOP"
    and st: "dirs_step D pd i s s'" and new: "\<And>e. new = Some e \<Longrightarrow> pte_page e \<notin> tables s D"
  shows "proc D c pd s' ys"
proof -
  note k = os_kept_fields [OF remapsD(1) [OF r]] and P = procD [OF p] and am = remapsD(4) [OF r P(5)]
  have "vpt_window s' pd" using vpt_window_step [OF P(4,5) st k(3)] am above_UTOP [OF va] by auto
  moreover have "pte_page e \<notin> tables s' D" if "va' < UTOP" "amap s' pd va' = Some e" for va' e
    using that am [of va'] remapsD(3) [OF r] P(7) new by (auto split: if_splits)
  ultimately show ?thesis using inv P k unfolding proc_def owns_dir_def by simp
qed

lemma proc_self: "proc D c pd s xs \<Longrightarrow> may_act s c 0" "proc D c pd s xs \<Longrightarrow> owns_dir s D (target c 0) pd"
  by (auto simp: may_act_def target_def dest: procD(3))

lemma proc_alloc:
  assumes p: "proc D c pd s (f # xs)" and va: "\<not> is_illegal_va va" and perm: "perm_ok perm"
  shows "\<exists>s' ys. e_mem_alloc 0 va perm s = Some (Returned 0, s') \<and> proc D c pd s' ys \<and>
    remaps D pd va (Some (mk_pte f perm)) s s' \<and> length xs \<le> length ys \<and> f < NPAGES \<and> pp_ref s f = 0 \<and> f \<notin> tables s D \<and>
    (\<forall>j. unat j < 1024 \<longrightarrow> pw s' f j = 0) \<and> pp_ref s' f = 1 \<and>
    (\<forall>q. pp_ref s q \<noteq> 0 \<longrightarrow> pp_ref s' q = ref_after (map_option pte_page (amap s pd va)) f s q)"
proof -
  note P = procD [OF p] and w = window_present [OF procD(4) [OF p] unat_PDX_less]
  from e_mem_alloc_full [OF P(1,2) proc_self [OF p] va perm disjI1 [OF w]] obtain s' ys where
    s': "e_mem_alloc 0 va perm s = Some (Returned 0, s')" "as_inv s' D ys"
    "\<forall>pd' \<in> D. \<forall>va'. amap s' pd' va' = (if pd' = pd \<and> VPN va' = VPN va then Some (mk_pte f perm) else amap s pd' va')"
    "\<forall>j. unat j < 1024 \<longrightarrow> pw s' f j = 0" "pp_ref s' f = 1" "os_kept s s'" "data_kept D s s'"
    "\<forall>q. q \<notin> set (f # xs) \<longrightarrow> pp_ref s' q = ref_after (map_option pte_page (amap s pd va)) f s q" "dirs_step D pd (PDX va) s s'"
    "length xs \<le> length ys + (if pde_ok (pw s pd (PDX va)) then 0 else 1)" by (elim exE conjE) (rule that)
  have f: "f < NPAGES" "pp_ref s f = 0" "f \<notin> tables s D" using as_invD(4,5) [OF P(1)] free_unreferenced [OF P(1)] by auto
  have r: "remaps D pd va (Some (mk_pte f perm)) s s'"
    using s' full_tables [OF P(4) s'(9) unat_PDX_less] by (simp add: remaps_def)
  have "proc D c pd s' ys"
    using f pte_page_mk_pte [OF f(1) perm] by (intro proc_remaps [OF p s'(2) r legal_va [OF va] s'(9)]) auto
  moreover have "length xs \<le> length ys" using s'(10) w by simp
  moreover have "\<forall>q. pp_ref s q \<noteq> 0 \<longrightarrow> pp_ref s' q = ref_after (map_option pte_page (amap s pd va)) f s q"
    using s'(8) as_invD(5) [OF P(1)] by blast
  ultimately show ?thesis using s'(1,4,5) r f by blast
qed

lemma proc_map:
  assumes p: "proc D c pd s xs" and va: "\<not> is_illegal_va src" "\<not> is_illegal_va dst" and perm: "perm_ok perm"
    and m: "amap s pd src = Some e" and ref: "pp_ref s (pte_page e) \<noteq> 0xffff"
  shows "\<exists>s' ys. e_mem_map 0 src 0 dst perm s = Some (Returned 0, s') \<and> proc D c pd s' ys \<and>
    remaps D pd dst (Some (mk_pte (pte_page e) perm)) s s' \<and> length xs \<le> length ys \<and>
    (\<forall>q. pp_ref s q \<noteq> 0 \<longrightarrow> pp_ref s' q = ref_after (map_option pte_page (amap s pd dst)) (pte_page e) s q)"
proof -
  note P = procD [OF p] and w = window_present [OF procD(4) [OF p] unat_PDX_less]
  from e_mem_map_full [OF P(1,2) proc_self(1) [OF p] proc_self(2) [OF p] proc_self(2) [OF p] va perm m ref disjI1 [OF w]] obtain s' ys where
    s': "e_mem_map 0 src 0 dst perm s = Some (Returned 0, s')" "as_inv s' D ys"
    "\<forall>pd' \<in> D. \<forall>va'. amap s' pd' va' = (if pd' = pd \<and> VPN va' = VPN dst then Some (mk_pte (pte_page e) perm) else amap s pd' va')"
    "os_kept s s'" "data_kept D s s'" "dirs_step D pd (PDX dst) s s'"
    "length xs \<le> length ys + (if pde_ok (pw s pd (PDX dst)) then 0 else 1)"
    "\<forall>q. q \<notin> set xs \<longrightarrow> pp_ref s' q = ref_after (map_option pte_page (amap s pd dst)) (pte_page e) s q"
    by (elim exE conjE) (rule that)
  have r: "remaps D pd dst (Some (mk_pte (pte_page e) perm)) s s'"
    using s' full_tables [OF P(4) s'(6) unat_PDX_less] by (simp add: remaps_def)
  note q = mapped_ref(2) [OF P(1,5) legal_va [OF va(1)] m] P(7) [OF legal_va [OF va(1)] m]
  have "proc D c pd s' ys"
    using q pte_page_mk_pte [OF q(1) perm] by (intro proc_remaps [OF p s'(2) r legal_va [OF va(2)] s'(6)]) auto
  moreover have "length xs \<le> length ys" using s'(7) w by simp
  moreover have "\<forall>q. pp_ref s q \<noteq> 0 \<longrightarrow> pp_ref s' q = ref_after (map_option pte_page (amap s pd dst)) (pte_page e) s q"
    using s'(8) as_invD(5) [OF P(1)] by blast
  ultimately show ?thesis using s'(1) r by blast
qed

lemma proc_unmap:
  assumes p: "proc D c pd s xs" and va: "\<not> is_illegal_va va"
  shows "\<exists>s' ys. e_mem_unmap 0 va s = Some (Returned 0, s') \<and> proc D c pd s' ys \<and> remaps D pd va None s s' \<and>
    length xs \<le> length ys \<and>
    pp_ref s' = (case amap s pd va of None \<Rightarrow> pp_ref s | Some e \<Rightarrow> (pp_ref s)(pte_page e := pp_ref s (pte_page e) - 1))"
proof (cases "amap s pd va")
  case None
  note P = procD [OF p]
  have "env_pgdir (envs s c) = page2addr pd" using P(3) by (simp add: owns_dir_def)
  then have "e_mem_unmap 0 va s = Some (Returned 0, s)"
    using va P(2) proc_self(1) [OF p] page_remove_unmapped [OF P(1,5) None] by (simp add: e_mem_unmap_def with_env_check target_def)
  moreover have "amap s pd' va' = (if pd' = pd \<and> VPN va' = VPN va then None else amap s pd' va')" for pd' va'
    using None amap_VPN [of va' va s pd] by simp
  then have "remaps D pd va None s s" by (simp add: remaps_def)
  ultimately show ?thesis using p None by auto
next
  case (Some e)
  note P = procD [OF p]
  from e_mem_unmap_full [OF P(1,2) proc_self [OF p] va Some] obtain s' where
    s': "e_mem_unmap 0 va s = Some (Returned 0, s')" "as_inv s' D (if pp_ref s (pte_page e) = 1 then pte_page e # xs else xs)"
    "\<forall>pd' \<in> D. \<forall>va'. amap s' pd' va' = (if pd' = pd \<and> VPN va' = VPN va then None else amap s pd' va')"
    "os_kept s s'" "data_kept D s s'" "\<forall>pd' \<in> D. \<forall>i. unat i < 1024 \<longrightarrow> pw s' pd' i = pw s pd' i"
    "pp_ref s' = (pp_ref s)(pte_page e := pp_ref s (pte_page e) - 1)" "tables s' D = tables s D"
    by (elim exE conjE) (rule that)
  have r: "remaps D pd va None s s'" using s' by (simp add: remaps_def)
  have "dirs_step D pd (PDX va) s s'"
    using s'(6) P(5) window_present [OF P(4) unat_PDX_less] unat_PDX_less by (simp add: dirs_step_def)
  then have "proc D c pd s' (if pp_ref s (pte_page e) = 1 then pte_page e # xs else xs)"
    by (intro proc_remaps [OF p s'(2) r legal_va [OF va]]) auto
  then show ?thesis using s'(1,7) r Some by (intro exI [of _ s'] exI conjI) auto
qed

section \<open>Words of the program\<close>

text \<open>The word a program reads at an aligned address.\<close>

definition uidx :: "u32 \<Rightarrow> u32" where
  "uidx va = drop_bit 2 va AND 0x3ff"

lemma unat_uidx: "unat (uidx va) < 1024"
proof -
  have "uidx va \<le> 0x3ff" unfolding uidx_def by (rule word_and_le1)
  then show ?thesis by (simp add: word_le_nat_alt)
qed

lemma proc_read:
  assumes "proc D c pd s xs" "amap s pd va = Some e" "va AND 3 = 0"
  shows "uread32 va s = Some (pw s (pte_page e) (uidx va), s)"
  using uload32_amap [OF procD(6) [OF assms(1)] assms(3)] assms(2) by (simp add: uread32_def uidx_def)

text \<open>A store to a writable page.\<close>

definition stores :: "nat set \<Rightarrow> nat \<Rightarrow> u32 \<Rightarrow> u32 \<Rightarrow> kstate \<Rightarrow> kstate \<Rightarrow> bool" where
  "stores D q j v s s' \<longleftrightarrow> os_kept s s' \<and> pp_ref s' = pp_ref s \<and> tables s' D = tables s D \<and>
     (\<forall>pd \<in> D. amap s' pd = amap s pd) \<and>
     (\<forall>q' j'. q' < NPAGES \<longrightarrow> unat j' < 1024 \<longrightarrow> pw s' q' j' = (if q' = q \<and> j' = j then v else pw s q' j'))"

lemma storesD:
  assumes "stores D q j v s s'"
  shows "os_kept s s'" "pp_ref s' = pp_ref s" "tables s' D = tables s D" "pd \<in> D \<Longrightarrow> amap s' pd = amap s pd"
    "q' < NPAGES \<Longrightarrow> unat j' < 1024 \<Longrightarrow> pw s' q' j' = (if q' = q \<and> j' = j then v else pw s q' j')"
  using assms unfolding stores_def by blast+

lemma proc_write:
  assumes p: "proc D c pd s xs" and va: "va < UTOP" "va AND 3 = 0" and m: "amap s pd va = Some e" "e AND PTE_W \<noteq> 0"
  shows "\<exists>s'. uwrite32 va v s = Some s' \<and> proc D c pd s' xs \<and> stores D (pte_page e) (uidx va) v s s'"
proof -
  note P = procD [OF p]
  let ?q = "pte_page e" and ?s = "kstore32 (slot (pte_page e) (uidx va)) v s"
  have q: "?q < NPAGES" "?q \<notin> tables s D" using mapped_ref(2) [OF P(1,5) va(1) m(1)] P(7) [OF va(1) m(1)] by auto
  have st: "uwrite32 va v s = Some ?s"
    using writable_amap [OF P(6) m(1)] m page_offset [OF va(2), of ?q] translate_amap [OF P(6), of va]
    by (simp add: uwrite32_def uwrite_def ustore32_def uidx_def)
  have pw: "pw ?s q' j' = (if q' = ?q \<and> j' = uidx va then v else pw s q' j')" if "q' < NPAGES" "unat j' < 1024" for q' j'
    using pw_kstore32 [OF q(1) that(1) unat_uidx that(2), of va v s] by auto
  then have tab: "pw ?s q' j' = pw s q' j'" if "q' \<in> tables s D" "unat j' < 1024" for q' j'
    using that q(2) tables_less [OF P(1) that(1)] by auto
  have ta: "d \<in> D \<Longrightarrow> unat i < 1024 \<Longrightarrow> pw ?s d i = pw s d i" "d \<in> D \<Longrightarrow> unat i < 1024 \<Longrightarrow> pt ?s d i = pt s d i"
    "d \<in> D \<Longrightarrow> amap ?s d a = amap s d a" "tables ?s D = tables s D" for d i a
    using tables_agree [of s D ?s] tab by blast+
  have k: "os_kept s ?s" by (simp add: os_kept_def kstore32_def)
  note f = os_kept_fields [OF k]
  have s: "stores D ?q (uidx va) v s ?s" using k pw ta(3,4) by (auto simp: stores_def)
  have "as_inv ?s D xs" by (rule as_inv_data [OF P(1)]) (simp_all add: tab)
  moreover have "vpt_window ?s pd"
    unfolding vpt_window_def f(3) ta(3) [OF P(5)] using P(4) ta(1,2) [OF P(5)] unfolding vpt_window_def by auto
  ultimately have "proc D c pd ?s xs"
    using P f ta(3,4) by (simp add: proc_def owns_dir_def)
  then show ?thesis using st s by blast
qed

end
