(* ===== verification/Fd.thy ===== *)
theory Fd
  imports Proc
begin

text \<open>
  \<^verbatim>\<open>user/lib/fd.c\<close>, the file descriptors of a program: the page at \<open>INDEX2FD i\<close> holds the \<open>struct Fd\<close> of descriptor
  \<open>i\<close> and the four megabytes at \<open>INDEX2DATA i\<close> its data; a descriptor is open when its page is mapped, and
  descriptors share a file position by sharing the page. With them the parts of \<^verbatim>\<open>user/lib/console.c\<close> and
  \<^verbatim>\<open>user/lib/pipe.c\<close> that create and close descriptors, and \<^verbatim>\<open>user/lib/pageref.c\<close>. The messages of \<open>debugf\<close> are
  left out.
\<close>

abbreviation FILEBASE :: u32 where "FILEBASE \<equiv> 0x60000000"
abbreviation FDTABLE :: u32 where "FDTABLE \<equiv> 0x5fc00000"
abbreviation fd_mask :: u32 where "fd_mask \<equiv> PTE_LIBRARY OR PTE_R OR PTE_W OR PTE_U OR PTE_DIRTY"
abbreviation pipe_perm :: u32 where "pipe_perm \<equiv> PTE_R OR PTE_W OR PTE_U OR PTE_LIBRARY"

definition INDEX2FD :: "u32 \<Rightarrow> u32" where
  "INDEX2FD i = FDTABLE + i * BY2PG"

definition INDEX2DATA :: "u32 \<Rightarrow> u32" where
  "INDEX2DATA i = FILEBASE + i * PDMAP"

definition fd2num :: "u32 \<Rightarrow> u32" where
  "fd2num fd = (fd - FDTABLE) div BY2PG"

definition fd2data :: "u32 \<Rightarrow> u32" where
  "fd2data fd = INDEX2DATA (fd2num fd)"

definition num2fd :: "u32 \<Rightarrow> u32" where
  "num2fd fd = fd * BY2PG + FDTABLE"

section \<open>Devices\<close>

text \<open>
  \<open>dev_addr\<close> is where the linker put the structure. An operation returns its C result with the new state;
  \<open>dev_name\<close> and \<open>dev_seek\<close> are not used. The table of devices is the first argument of the functions below.
\<close>

record Dev =
  dev_id :: u32
  dev_addr :: u32
  dev_read :: "u32 \<Rightarrow> u32 \<Rightarrow> u32 \<Rightarrow> u32 \<Rightarrow> kstate \<Rightarrow> (u32 \<times> kstate) option"
  dev_write :: "u32 \<Rightarrow> u32 \<Rightarrow> u32 \<Rightarrow> u32 \<Rightarrow> kstate \<Rightarrow> (u32 \<times> kstate) option"
  dev_close :: "u32 \<Rightarrow> kstate \<Rightarrow> (u32 \<times> kstate) option"
  dev_stat :: "u32 \<Rightarrow> u32 \<Rightarrow> kstate \<Rightarrow> (u32 \<times> kstate) option"

fun dev_lookup :: "Dev list \<Rightarrow> u32 \<Rightarrow> err + Dev" where
  "dev_lookup [] i = Inl E_INVAL"
| "dev_lookup (d # devtab) i = (if dev_id d = i then Inr d else dev_lookup devtab i)"

section \<open>Descriptors\<close>

fun fd_alloc_from :: "u32 list \<Rightarrow> kstate \<Rightarrow> ((err + u32) \<times> kstate) option" where
  "fd_alloc_from [] s = Some (Inl E_MAX_OPEN, s)"
| "fd_alloc_from (fdno # fdnos) s =
     (let va = INDEX2FD fdno in
      do { (pde, s) \<leftarrow> vpd (va div PDMAP) s;
           (if pde AND PTE_V = 0 then Some (Inr va, s)
            else do { (pte, s) \<leftarrow> vpt (va div BY2PG) s;
                      (if pte AND PTE_V = 0 then Some (Inr va, s) else fd_alloc_from fdnos s) }) })"

definition fd_alloc :: "kstate \<Rightarrow> ((err + u32) \<times> kstate) option" where
  "fd_alloc = fd_alloc_from (map of_nat [0..<31])"

definition fd_close :: "machine \<Rightarrow> u32 \<Rightarrow> kstate \<Rightarrow> kstate option" where
  "fd_close mc fd s = returning (ecall_mem_unmap mc 0 fd s) (\<lambda>_ s. Some s)"

text \<open>The comparison is signed.\<close>

definition fd_lookup :: "u32 \<Rightarrow> kstate \<Rightarrow> ((err + u32) \<times> kstate) option" where
  "fd_lookup fdnum s =
     (if sint fdnum \<ge> 32 then Some (Inl E_INVAL, s)
      else let va = INDEX2FD fdnum in
        do { (pte, s) \<leftarrow> vpt (va div BY2PG) s;
             Some (if pte AND PTE_V \<noteq> 0 then Inr va else Inl E_INVAL, s) })"

text \<open>The lookups every operation starts with; an error is returned.\<close>

definition with_fd :: "u32 \<Rightarrow> kstate \<Rightarrow> (u32 \<Rightarrow> kstate \<Rightarrow> (u32 \<times> kstate) option) \<Rightarrow> (u32 \<times> kstate) option" where
  "with_fd fdnum s k =
     do { (r, s) \<leftarrow> fd_lookup fdnum s;
          (case r of Inl e \<Rightarrow> Some (- errno e, s) | Inr fd \<Rightarrow> k fd s) }"

definition with_dev ::
  "Dev list \<Rightarrow> u32 \<Rightarrow> kstate \<Rightarrow> (u32 \<Rightarrow> Dev \<Rightarrow> kstate \<Rightarrow> (u32 \<times> kstate) option) \<Rightarrow> (u32 \<times> kstate) option"
where
  "with_dev devtab fdnum s k =
     with_fd fdnum s (\<lambda>fd s.
       do { (dev_id, s) \<leftarrow> uread32 fd s;
            (case dev_lookup devtab dev_id of Inl e \<Rightarrow> Some (- errno e, s) | Inr dev \<Rightarrow> k fd dev s) })"

definition close :: "machine \<Rightarrow> Dev list \<Rightarrow> u32 \<Rightarrow> kstate \<Rightarrow> (u32 \<times> kstate) option" where
  "close mc devtab fdnum s =
     with_dev devtab fdnum s (\<lambda>fd dev s.
       do { (r, s) \<leftarrow> dev_close dev fd s;
            s \<leftarrow> fd_close mc fd s;
            Some (r, s) })"

fun close_list :: "machine \<Rightarrow> Dev list \<Rightarrow> u32 list \<Rightarrow> kstate \<Rightarrow> kstate option" where
  "close_list mc devtab [] s = Some s"
| "close_list mc devtab (i # is) s = do { (_, s) \<leftarrow> close mc devtab i s; close_list mc devtab is s }"

definition close_all :: "machine \<Rightarrow> Dev list \<Rightarrow> kstate \<Rightarrow> kstate option" where
  "close_all mc devtab = close_list mc devtab (map of_nat [0..<32])"

text \<open>\<open>dup\<close>: the loop over the data pages ends with the result of the call that failed, or 0.\<close>

fun dup_pages :: "machine \<Rightarrow> u32 \<Rightarrow> u32 \<Rightarrow> u32 list \<Rightarrow> kstate \<Rightarrow> (u32 \<times> kstate) option" where
  "dup_pages mc ova nva [] s = Some (0, s)"
| "dup_pages mc ova nva (i # is) s =
     do { (pte, s) \<leftarrow> vpt (VPN (ova + i)) s;
          (if pte AND PTE_V \<noteq> 0 then
             returning (ecall_mem_map mc 0 (ova + i) 0 (nva + i) (pte AND fd_mask) s) (\<lambda>r s.
               if sint r < 0 then Some (r, s) else dup_pages mc ova nva is s)
           else dup_pages mc ova nva is s) }"

fun unmap_pages :: "machine \<Rightarrow> u32 \<Rightarrow> u32 list \<Rightarrow> kstate \<Rightarrow> kstate option" where
  "unmap_pages mc nva [] s = Some s"
| "unmap_pages mc nva (i # is) s = returning (ecall_mem_unmap mc 0 (nva + i) s) (\<lambda>_ s. unmap_pages mc nva is s)"

abbreviation page_offsets :: "u32 list" where
  "page_offsets \<equiv> map (\<lambda>k. of_nat k * BY2PG) [0..<1024]"

definition dup_err :: "machine \<Rightarrow> u32 \<Rightarrow> u32 \<Rightarrow> u32 \<Rightarrow> kstate \<Rightarrow> (u32 \<times> kstate) option" where
  "dup_err mc newfd nva r s =
     returning (ecall_mem_unmap mc 0 newfd s) (\<lambda>_ s.
       do { s \<leftarrow> unmap_pages mc nva page_offsets s; Some (r, s) })"

definition dup :: "machine \<Rightarrow> Dev list \<Rightarrow> u32 \<Rightarrow> u32 \<Rightarrow> kstate \<Rightarrow> (u32 \<times> kstate) option" where
  "dup mc devtab oldfdnum newfdnum s =
     with_fd oldfdnum s (\<lambda>oldfd s.
       do { (_, s) \<leftarrow> close mc devtab newfdnum s;
            let newfd = INDEX2FD newfdnum;
            let ova = fd2data oldfd;
            let nva = fd2data newfd;
            (pde, s) \<leftarrow> vpd (PDX ova) s;
            (r, s) \<leftarrow> (if pde \<noteq> 0 then dup_pages mc ova nva page_offsets s else Some (0, s));
            (if sint r < 0 then dup_err mc newfd nva r s
             else do { (pte, s) \<leftarrow> vpt (VPN oldfd) s;
                       returning (ecall_mem_map mc 0 oldfd 0 newfd (pte AND fd_mask) s) (\<lambda>r s.
                         if sint r < 0 then dup_err mc newfd nva r s else Some (newfdnum, s)) }) })"

section \<open>Input and output\<close>

text \<open>\<open>struct Fd\<close>: \<open>fd_dev_id\<close>, \<open>fd_offset\<close> and \<open>fd_omode\<close> at offsets 0, 4 and 8. A positive result moves the position.\<close>

definition advance :: "u32 \<Rightarrow> u32 \<Rightarrow> kstate \<Rightarrow> (u32 \<times> kstate) option" where
  "advance fd r s =
     (if sint r > 0 then do { (off, s) \<leftarrow> uread32 (fd + 4) s; s \<leftarrow> uwrite32 (fd + 4) (off + r) s; Some (r, s) }
      else Some (r, s))"

definition read_fd :: "Dev list \<Rightarrow> u32 \<Rightarrow> u32 \<Rightarrow> u32 \<Rightarrow> kstate \<Rightarrow> (u32 \<times> kstate) option" where
  "read_fd devtab fdnum buf n s =
     with_dev devtab fdnum s (\<lambda>fd dev s.
       do { (omode, s) \<leftarrow> uread32 (fd + 8) s;
            (if omode AND 3 = 1 then Some (- errno E_INVAL, s)
             else do { (off, s) \<leftarrow> uread32 (fd + 4) s;
                       (r, s) \<leftarrow> dev_read dev fd buf n off s;
                       advance fd r s }) })"

partial_function (option) readn_loop ::
  "Dev list \<Rightarrow> u32 \<Rightarrow> u32 \<Rightarrow> u32 \<Rightarrow> u32 \<Rightarrow> kstate \<Rightarrow> (u32 \<times> kstate) option"
where
  "readn_loop devtab fdnum buf n tot s =
     (if tot < n then
        do { (m, s) \<leftarrow> read_fd devtab fdnum (buf + tot) (n - tot) s;
             (if sint m < 0 then Some (m, s)
              else if m = 0 then Some (tot, s)
              else readn_loop devtab fdnum buf n (tot + m) s) }
      else Some (tot, s))"

definition readn :: "Dev list \<Rightarrow> u32 \<Rightarrow> u32 \<Rightarrow> u32 \<Rightarrow> kstate \<Rightarrow> (u32 \<times> kstate) option" where
  "readn devtab fdnum buf n s = readn_loop devtab fdnum buf n 0 s"

definition write_fd :: "Dev list \<Rightarrow> u32 \<Rightarrow> u32 \<Rightarrow> u32 \<Rightarrow> kstate \<Rightarrow> (u32 \<times> kstate) option" where
  "write_fd devtab fdnum buf n s =
     with_dev devtab fdnum s (\<lambda>fd dev s.
       do { (omode, s) \<leftarrow> uread32 (fd + 8) s;
            (if omode AND 3 = 0 then Some (- errno E_INVAL, s)
             else do { (off, s) \<leftarrow> uread32 (fd + 4) s;
                       (r, s) \<leftarrow> dev_write dev fd buf n off s;
                       advance fd r s }) })"

definition seek :: "u32 \<Rightarrow> u32 \<Rightarrow> kstate \<Rightarrow> (u32 \<times> kstate) option" where
  "seek fdnum offset s =
     with_fd fdnum s (\<lambda>fd s. do { s \<leftarrow> uwrite32 (fd + 4) offset s; Some (0, s) })"

text \<open>\<open>struct Stat\<close>: \<open>st_name\<close>, \<open>st_size\<close>, \<open>st_isdir\<close> and \<open>st_dev\<close> at offsets 0, 128, 132 and 136.\<close>

definition fstat :: "Dev list \<Rightarrow> u32 \<Rightarrow> u32 \<Rightarrow> kstate \<Rightarrow> (u32 \<times> kstate) option" where
  "fstat devtab fdnum stat s =
     with_dev devtab fdnum s (\<lambda>fd dev s.
       do { s \<leftarrow> uwrite8 stat 0 s;
            s \<leftarrow> uwrite32 (stat + 128) 0 s;
            s \<leftarrow> uwrite32 (stat + 132) 0 s;
            s \<leftarrow> uwrite32 (stat + 136) (dev_addr dev) s;
            dev_stat dev fd stat s })"

section \<open>The console\<close>

abbreviation devcons_id :: u32 where "devcons_id \<equiv> 99"

definition iscons :: "u32 \<Rightarrow> kstate \<Rightarrow> (u32 \<times> kstate) option" where
  "iscons fdnum s =
     with_fd fdnum s (\<lambda>fd s. do { (i, s) \<leftarrow> uread32 fd s; Some (if i = devcons_id then 1 else 0, s) })"

definition opencons :: "machine \<Rightarrow> kstate \<Rightarrow> (u32 \<times> kstate) option" where
  "opencons mc s =
     do { (r, s) \<leftarrow> fd_alloc s;
          (case r of
             Inl e \<Rightarrow> Some (- errno e, s)
           | Inr fd \<Rightarrow>
               returning (ecall_mem_alloc mc 0 fd (PTE_R OR PTE_W OR PTE_U OR PTE_D OR PTE_LIBRARY) s) (\<lambda>r s.
                 if sint r < 0 then Some (r, s)
                 else do { s \<leftarrow> uwrite32 fd devcons_id s;
                           s \<leftarrow> uwrite32 (fd + 8) 2 s;
                           Some (fd2num fd, s) })) }"

definition ecall_print_cons :: "machine \<Rightarrow> u32 \<Rightarrow> u32 \<Rightarrow> kstate \<Rightarrow> (u32 outcome \<times> kstate) option" where
  "ecall_print_cons mc str num = mecall mc 2 str num 0 0 0"

definition cons_write :: "machine \<Rightarrow> u32 \<Rightarrow> u32 \<Rightarrow> u32 \<Rightarrow> u32 \<Rightarrow> kstate \<Rightarrow> (u32 \<times> kstate) option" where
  "cons_write mc fd buf n offset s =
     returning (ecall_print_cons mc buf n s) (\<lambda>r s. Some (if sint r < 0 then r else n, s))"

definition cons_close :: "u32 \<Rightarrow> kstate \<Rightarrow> (u32 \<times> kstate) option" where
  "cons_close fd s = Some (0, s)"

fun put_bytes :: "u32 \<Rightarrow> u8 list \<Rightarrow> kstate \<Rightarrow> kstate option" where
  "put_bytes va [] s = Some s"
| "put_bytes va (b # bs) s = do { s \<leftarrow> uwrite8 va b s; put_bytes (va + 1) bs s }"

text \<open>\<open>strcpy\<close> of the string \<open><cons>\<close>.\<close>

definition cons_stat :: "u32 \<Rightarrow> u32 \<Rightarrow> kstate \<Rightarrow> (u32 \<times> kstate) option" where
  "cons_stat fd stat s =
     do { s \<leftarrow> put_bytes stat [60, 99, 111, 110, 115, 62, 0] s; Some (0, s) }"

text \<open>\<open>cons_read\<close> waits for keys; it is the argument \<open>rd\<close> here.\<close>

definition devcons ::
  "machine \<Rightarrow> u32 \<Rightarrow> (u32 \<Rightarrow> u32 \<Rightarrow> u32 \<Rightarrow> u32 \<Rightarrow> kstate \<Rightarrow> (u32 \<times> kstate) option) \<Rightarrow> Dev"
where
  "devcons mc a rd = \<lparr>dev_id = devcons_id, dev_addr = a, dev_read = rd, dev_write = cons_write mc,
     dev_close = cons_close, dev_stat = cons_stat\<rparr>"

section \<open>Pipes\<close>

abbreviation devpipe_id :: u32 where "devpipe_id \<equiv> 112"

text \<open>The count of a page, which a program reads in the window on \<open>pages\<close>.\<close>

definition pageref :: "u32 \<Rightarrow> kstate \<Rightarrow> (u32 \<times> kstate) option" where
  "pageref v s =
     do { (pde, s) \<leftarrow> vpd (PDX v) s;
          (if pde AND PTE_V = 0 then Some (0, s)
           else do { (pte, s) \<leftarrow> vpt (VPN v) s;
                     Some (if pte AND PTE_V = 0 then 0 else ucast (pp_ref s (unat (PPN (PADDR (PTE_ADDR pte))))), s) }) }"

text \<open>
  \<open>pipe\<close>. The third call is tested inside the assignment, so \<open>r\<close> is the truth value of the test.
\<close>

definition pipe_unmap :: "machine \<Rightarrow> u32 list \<Rightarrow> u32 \<Rightarrow> kstate \<Rightarrow> (u32 \<times> kstate) option" where
  "pipe_unmap mc vas r s = do { s \<leftarrow> unmap_pages mc 0 vas s; Some (r, s) }"

definition pipe_set :: "u32 \<Rightarrow> u32 \<Rightarrow> u32 \<Rightarrow> kstate \<Rightarrow> (u32 \<times> kstate) option" where
  "pipe_set pfd fd0 fd1 s =
     do { s \<leftarrow> uwrite32 fd0 devpipe_id s;
          s \<leftarrow> uwrite32 (fd0 + 8) 0 s;
          s \<leftarrow> uwrite32 fd1 devpipe_id s;
          s \<leftarrow> uwrite32 (fd1 + 8) 1 s;
          s \<leftarrow> uwrite32 pfd (fd2num fd0) s;
          s \<leftarrow> uwrite32 (pfd + 4) (fd2num fd1) s;
          Some (0, s) }"

definition pipe_map :: "machine \<Rightarrow> u32 \<Rightarrow> u32 \<Rightarrow> u32 \<Rightarrow> kstate \<Rightarrow> (u32 \<times> kstate) option" where
  "pipe_map mc pfd fd0 fd1 s =
     (let va = fd2data fd0 in
      returning (ecall_mem_alloc mc 0 va pipe_perm s) (\<lambda>x s.
        if sint x < 0 then pipe_unmap mc [fd1, fd0] 1 s
        else returning (ecall_mem_map mc 0 va 0 (fd2data fd1) pipe_perm s) (\<lambda>r s.
          if sint r < 0 then pipe_unmap mc [va, fd1, fd0] r s
          else pipe_set pfd fd0 fd1 s)))"

definition pipe :: "machine \<Rightarrow> u32 \<Rightarrow> kstate \<Rightarrow> (u32 \<times> kstate) option" where
  "pipe mc pfd s =
     do { (r, s) \<leftarrow> fd_alloc s;
          (case r of
             Inl e \<Rightarrow> Some (- errno e, s)
           | Inr fd0 \<Rightarrow>
               returning (ecall_mem_alloc mc 0 fd0 pipe_perm s) (\<lambda>r s.
                 if sint r < 0 then Some (r, s)
                 else do { (r, s) \<leftarrow> fd_alloc s;
                           (case r of
                              Inl e \<Rightarrow> pipe_unmap mc [fd0] (- errno e) s
                            | Inr fd1 \<Rightarrow>
                                returning (ecall_mem_alloc mc 0 fd1 pipe_perm s) (\<lambda>r s.
                                  if sint r < 0 then pipe_unmap mc [fd0] r s else pipe_map mc pfd fd0 fd1 s)) })) }"

definition pipe_close :: "machine \<Rightarrow> u32 \<Rightarrow> kstate \<Rightarrow> (u32 \<times> kstate) option" where
  "pipe_close mc fd s =
     returning (ecall_mem_unmap mc 0 fd s) (\<lambda>_ s.
     returning (ecall_mem_unmap mc 0 (fd2data fd) s) (\<lambda>_ s. Some (0, s)))"

definition pipe_stat :: "u32 \<Rightarrow> u32 \<Rightarrow> kstate \<Rightarrow> (u32 \<times> kstate) option" where
  "pipe_stat fd stat s = Some (0, s)"

text \<open>One pass of the loop of \<open>_pipe_is_closed\<close>; nothing else runs between its reads here.\<close>

definition pipe_closed_pass :: "u32 \<Rightarrow> u32 \<Rightarrow> kstate \<Rightarrow> (u32 \<times> kstate) option" where
  "pipe_closed_pass fd p s =
     do { (fd_ref, s) \<leftarrow> pageref fd s;
          (pipe_ref, s) \<leftarrow> pageref p s;
          Some (if fd_ref = pipe_ref then 1 else 0, s) }"

definition pipe_is_closed :: "u32 \<Rightarrow> kstate \<Rightarrow> (u32 \<times> kstate) option" where
  "pipe_is_closed fdnum s = with_fd fdnum s (\<lambda>fd s. pipe_closed_pass fd (fd2data fd) s)"

definition devpipe ::
  "machine \<Rightarrow> u32 \<Rightarrow> (u32 \<Rightarrow> u32 \<Rightarrow> u32 \<Rightarrow> u32 \<Rightarrow> kstate \<Rightarrow> (u32 \<times> kstate) option) \<Rightarrow>
   (u32 \<Rightarrow> u32 \<Rightarrow> u32 \<Rightarrow> u32 \<Rightarrow> kstate \<Rightarrow> (u32 \<times> kstate) option) \<Rightarrow> Dev"
where
  "devpipe mc a rd wr = \<lparr>dev_id = devpipe_id, dev_addr = a, dev_read = rd, dev_write = wr,
     dev_close = pipe_close mc, dev_stat = pipe_stat\<rparr>"

end
