(* ===== verification/Fork.thy ===== *)
theory Fork
  imports Uvm
begin

text \<open>
  \<^verbatim>\<open>user/lib/fork.c\<close>: \<open>fork\<close> copies the page map of the running environment to a child created by \<open>exofork\<close>,
  marking private writable pages copy-on-write in both, and \<open>cow_entry\<close> is the handler to which the
  kernel passes the store faults on such pages (\<open>cow_fault\<close> of \<^verbatim>\<open>kern/traps.c\<close>).
\<close>

section \<open>The code\<close>

definition duppage :: "machine \<Rightarrow> u32 \<Rightarrow> u32 \<Rightarrow> u32 \<Rightarrow> kstate \<Rightarrow> kstate option" where
  "duppage mc envid vpn perm s =
     (let addr = push_bit 12 vpn in
      if perm AND PTE_W = 0 \<or> perm AND PTE_LIBRARY = PTE_LIBRARY \<or> perm AND PTE_COW = PTE_COW then
        returning (ecall_mem_map mc 0 addr envid addr perm s) (\<lambda>_ s. Some s)
      else
        let perm = (perm OR PTE_COW) AND NOT PTE_W in
        returning (ecall_mem_map mc 0 addr envid addr perm s) (\<lambda>_ s.
        returning (ecall_mem_map mc 0 addr 0 addr perm s) (\<lambda>_ s. Some s)))"

text \<open>The loop over the page numbers.\<close>

fun fork_loop :: "machine \<Rightarrow> u32 \<Rightarrow> u32 list \<Rightarrow> kstate \<Rightarrow> kstate option" where
  "fork_loop mc child [] s = Some s"
| "fork_loop mc child (i # is) s =
     do { (pte, s) \<leftarrow> vpt i s;
          (pde, s) \<leftarrow> (if pte AND PTE_V \<noteq> 0 then vpd (drop_bit 10 i) s else Some (0, s));
          s \<leftarrow> (if pde AND PTE_V \<noteq> 0
                then do { (pte, s) \<leftarrow> vpt i s; duppage mc child i (pte AND 0xc00003ff) s }
                else Some s);
          fork_loop mc child is s }"

text \<open>
  The rest of \<open>fork\<close> in the parent, as the calls it makes. The stores of the compiled program to its own stack are not part of the model; in
  a run the first one after the stack page was marked copy-on-write faults, and \<open>cow_entry\<close> gives the parent a private copy of that page.
\<close>

definition fork_parent :: "machine \<Rightarrow> u32 \<Rightarrow> u32 \<Rightarrow> kstate \<Rightarrow> (u32 \<times> kstate) option" where
  "fork_parent mc entry child s =
     do { s \<leftarrow> fork_loop mc child (map of_nat [0..<unat (VPN USTACKTOP)]) s;
          returning (ecall_set_env_cow_entry mc child entry s) (\<lambda>_ s.
          returning (ecall_set_env_status mc child ENV_RUNNABLE s) (\<lambda>_ s.
            Some (child, s))) }"

text \<open>
  \<open>entry\<close> is the address of \<open>cow_entry\<close>. The program's variable \<open>env\<close> points into the read-only window on
  \<open>envs\<close>, at the running environment; the child sets it from its own identifier.
\<close>

definition fork_child :: "machine \<Rightarrow> u32 \<Rightarrow> kstate \<Rightarrow> (u32 \<times> kstate) option" where
  "fork_child mc entry s =
     returning (ecall_exofork mc s) (\<lambda>child s.
       if child = 0 then returning (ecall_getenvid mc s) (\<lambda>id s. Some (0, s)) else fork_parent mc entry child s)"

definition fork :: "machine \<Rightarrow> u32 \<Rightarrow> kstate \<Rightarrow> (u32 \<times> kstate) option" where
  "fork mc entry s =
     do { c \<leftarrow> curenv s;
          (if env_cow_entry (envs s c) \<noteq> entry
           then returning (ecall_getenvid mc s) (\<lambda>id s.
                returning (ecall_set_env_cow_entry mc id entry s) (\<lambda>r s.
                  if r \<noteq> 0 then Some (r, s) else fork_child mc entry s))
           else fork_child mc entry s) }"

text \<open>
  \<open>memcpy\<close> of one page between page-aligned addresses: the copy loops of \<^verbatim>\<open>lib/string.c\<close> run inside the two
  frames the addresses are mapped to.
\<close>

definition copy_page :: "u32 \<Rightarrow> u32 \<Rightarrow> kstate \<Rightarrow> kstate option" where
  "copy_page dst src s =
     do { d \<leftarrow> translate s dst;
          a \<leftarrow> translate s src;
          (_, m) \<leftarrow> memcpy (kmem s) d a BY2PG;
          Some (s\<lparr>kmem := m\<rparr>) }"

text \<open>
  \<open>user_panic\<close> ends the program: \<open>None\<close>. The last call, \<open>ecall_set_trapframe\<close>, replaces the frame to which it returns, so the
  statement after it is not reached; it is taken through the trap, which writes its result into that frame.
\<close>

definition cow_entry :: "machine \<Rightarrow> u32 \<Rightarrow> kstate \<Rightarrow> kstate option" where
  "cow_entry mc va s =
     do { (pte, s) \<leftarrow> vpt (VPN va) s;
          let perm = pte AND 0xc00003ff;
          (if perm AND PTE_COW = 0 then None
           else
             let perm = (perm AND NOT PTE_COW) OR PTE_W in
             returning (ecall_mem_alloc mc 0 UCOW perm s) (\<lambda>r s.
               if sint r < 0 then None
               else do {
                 s \<leftarrow> copy_page UCOW (ROUNDDOWN va BY2PG) s;
                 returning (ecall_mem_map mc 0 UCOW 0 va perm s) (\<lambda>r s.
                   if sint r < 0 then None
                   else returning (ecall_mem_unmap mc 0 UCOW s) (\<lambda>r s.
                     if sint r < 0 then None
                     else do { (_, s) \<leftarrow> trap_ecall mc 12 0 (UXSTACKTOP - TF_SIZE) 0 0 0 s; Some s })) })) }"

section \<open>Entries\<close>

definition dup_pte :: "u32 \<Rightarrow> u32" where
  "dup_pte e = (if e AND PTE_W = 0 \<or> e AND PTE_LIBRARY \<noteq> 0 \<or> e AND PTE_COW \<noteq> 0 then e else (e OR PTE_COW) AND NOT PTE_W)"

text \<open>The flags as single bits.\<close>

lemma flag_bits:
  "PTE_COW = push_bit 8 1" "PTE_W = push_bit 2 1" "PTE_LIBRARY = push_bit 9 1"
  "(0xc00003ff :: u32) = mask 10 OR push_bit 30 (mask 2)"
  by (simp_all add: mask_eq_exp_minus_1)

lemma single_bit:
  fixes e :: u32
  assumes "n < 32"
  shows "e AND push_bit n 1 = (if bit e n then push_bit n 1 else 0)"
  using assms by (intro bit_word_eqI) (auto simp: bit_simps bit_1_iff)

lemma flag_test:
  fixes e :: u32
  shows "e AND PTE_W \<noteq> 0 \<longleftrightarrow> bit e 2" "e AND PTE_W = 0 \<longleftrightarrow> \<not> bit e 2" "e AND PTE_LIBRARY \<noteq> 0 \<longleftrightarrow> bit e 9"
    "e AND PTE_LIBRARY = PTE_LIBRARY \<longleftrightarrow> bit e 9" "e AND PTE_COW \<noteq> 0 \<longleftrightarrow> bit e 8" "e AND PTE_COW = 0 \<longleftrightarrow> \<not> bit e 8"
    "e AND PTE_COW = PTE_COW \<longleftrightarrow> bit e 8"
  using single_bit [of 2 e] single_bit [of 9 e] single_bit [of 8 e] by (simp_all split: if_splits)

lemma bit_perm_mask: "bit (0xc00003ff :: u32) n \<longleftrightarrow> n < 10 \<or> n = 30 \<or> n = 31"
  unfolding flag_bits by (auto simp: bit_simps)

lemma perm_ok_masked: "perm_ok (e AND 0xc00003ff)"
  unfolding perm_ok_def by (rule bit_word_eqI) (simp only: bit_PADDR bit_and_iff bit_perm_mask, auto)

lemma bit_page2ptx: "bit (page2ptx (pte_page e)) n \<longleftrightarrow> 10 \<le> n \<and> n < 30 \<and> bit e n"
proof -
  have "page2ptx (pte_page e) = push_bit 10 (drop_bit 12 (PADDR e))" by (simp add: page2ptx_def PADDR_page)
  then show ?thesis by (auto simp: bit_simps dest: bit_imp_le_length)
qed

lemma mk_pte_same:
  assumes "pde_ok e"
  shows "mk_pte (pte_page e) (e AND 0xc00003ff) = e"
proof (rule bit_word_eqI)
  fix n assume n: "n < LENGTH(32)"
  have "bit e 0" using assms single_bit [of 0 e] by (auto simp: pde_ok_def split: if_splits)
  then show "bit (mk_pte (pte_page e) (e AND 0xc00003ff)) n = bit e n"
    using n by (simp only: mk_pte_def bit_or_iff bit_and_iff bit_page2ptx bit_perm_mask bit_1_iff) auto
qed

lemma mk_pte_flags:
  assumes "perm_ok a" "perm_ok b"
  shows "mk_pte p (a OR b) = mk_pte p a OR b"
  by (simp add: mk_pte_def or.left_commute or.commute)

lemma perm_ok_and: "perm_ok a \<Longrightarrow> perm_ok (a AND b)"
  unfolding perm_ok_def PADDR_def by (simp add: bit_eq_iff bit_simps)

lemma mk_pte_clear:
  assumes "n < 10" "n \<noteq> 0"
  shows "mk_pte (pte_page e) (a AND NOT (push_bit n 1)) = mk_pte (pte_page e) a AND NOT (push_bit n 1)"
proof (rule bit_word_eqI)
  fix k assume k: "k < LENGTH(32)"
  then show "bit (mk_pte (pte_page e) (a AND NOT (push_bit n 1))) k = bit (mk_pte (pte_page e) a AND NOT (push_bit n 1)) k"
    using assms by (auto simp: mk_pte_def bit_simps bit_page2ptx bit_1_iff)
qed

text \<open>The entry \<open>duppage\<close> writes for the entry \<open>e\<close> it read.\<close>

lemma mk_pte_dup:
  assumes "pde_ok e"
  shows "mk_pte (pte_page e) ((e AND 0xc00003ff OR PTE_COW) AND NOT PTE_W) = (e OR PTE_COW) AND NOT PTE_W"
    "mk_pte (pte_page e) (((e AND 0xc00003ff) AND NOT PTE_COW) OR PTE_W) = (e AND NOT PTE_COW) OR PTE_W"
proof -
  have f: "mk_pte (pte_page e) (a AND NOT PTE_W) = mk_pte (pte_page e) a AND NOT PTE_W"
    "mk_pte (pte_page e) (a AND NOT PTE_COW) = mk_pte (pte_page e) a AND NOT PTE_COW" for a
    using mk_pte_clear [of 2 e a] mk_pte_clear [of 8 e a] by simp_all
  show "mk_pte (pte_page e) ((e AND 0xc00003ff OR PTE_COW) AND NOT PTE_W) = (e OR PTE_COW) AND NOT PTE_W"
    using mk_pte_same [OF assms] mk_pte_flags [of "e AND 0xc00003ff" PTE_COW] by (simp only: f perm_ok_masked perm_ok_flags)
  show "mk_pte (pte_page e) (((e AND 0xc00003ff) AND NOT PTE_COW) OR PTE_W) = (e AND NOT PTE_COW) OR PTE_W"
    using mk_pte_same [OF assms] mk_pte_flags [OF perm_ok_and [OF perm_ok_masked] perm_ok_flags(4)]
    by (simp only: f)
qed

section \<open>Copying the page map\<close>

text \<open>The tables a directory lacks below \<open>UTOP\<close>: as many free pages are enough to map anything there.\<close>

definition missing :: "kstate \<Rightarrow> nat \<Rightarrow> nat" where
  "missing s pd = card {i :: u32. unat i < 509 \<and> \<not> pde_ok (pw s pd i)}"

text \<open>
  The situation in the loop: the running environment \<open>c\<close> has directory \<open>pd\<close> and an open window on it, the
  child has directory \<open>cd\<close>.
\<close>

definition fork_ready :: "nat set \<Rightarrow> nat \<Rightarrow> nat \<Rightarrow> u32 \<Rightarrow> nat \<Rightarrow> kstate \<Rightarrow> nat list \<Rightarrow> bool" where
  "fork_ready D c pd child cd s xs \<longleftrightarrow> as_inv s D xs \<and> curenv s = Some c \<and> owns_dir s D c pd \<and>
     owns_dir s D (target c child) cd \<and> pd \<noteq> cd \<and> vpt_window s pd \<and> missing s cd \<le> length xs"

lemma fork_readyD:
  assumes "fork_ready D c pd child cd s xs"
  shows "as_inv s D xs" "curenv s = Some c" "owns_dir s D c pd" "owns_dir s D (target c child) cd" "pd \<noteq> cd"
    "vpt_window s pd" "missing s cd \<le> length xs" "pd \<in> D" "cd \<in> D"
  using assms by (auto simp: fork_ready_def owns_dir_def)

lemma finite_small: "finite {i :: u32. unat i < n \<and> P i}"
  by (rule finite_subset [of _ UNIV]) auto

lemma missing_step:
  assumes st: "dirs_step D dd i s s'" and d: "cd \<in> D" "unat i < 509"
  shows "missing s' cd + (if dd = cd \<and> \<not> pde_ok (pw s cd i) then 1 else 0) \<le> missing s cd"
proof -
  let ?M = "\<lambda>s. {i :: u32. unat i < 509 \<and> \<not> pde_ok (pw s cd i)}"
  have keep: "pde_ok (pw s' cd j)" if "pde_ok (pw s cd j)" "unat j < 509" for j
    using dirs_step_keep [OF st d(1) _ that(1)] that by simp
  have sub: "?M s' \<subseteq> ?M s" using keep by auto
  show ?thesis
  proof (cases "dd = cd \<and> \<not> pde_ok (pw s cd i)")
    case True
    have "?M s' \<subseteq> ?M s - {i}" using sub st True by (auto simp: dirs_step_def)
    then have "card (?M s') \<le> card (?M s - {i})" by (intro card_mono) (simp_all add: finite_small)
    also have "\<dots> = card (?M s) - 1" using True d(2) by (simp add: finite_small)
    moreover have "0 < card (?M s)" using True d(2) by (auto simp: card_gt_0_iff finite_small)
    ultimately show ?thesis using True by (simp add: missing_def)
  next
    case False
    then show ?thesis using card_mono [OF finite_small sub] by (auto simp: missing_def)
  qed
qed

lemma missing_room:
  assumes "missing s cd \<le> length xs" "unat i < 509"
  shows "pde_ok (pw s cd i) \<or> xs \<noteq> []"
proof (rule ccontr)
  assume "\<not> ?thesis"
  then have "i \<in> {i. unat i < 509 \<and> \<not> pde_ok (pw s cd i)}" "missing s cd = 0" using assms by auto
  then show False by (auto simp: missing_def finite_small)
qed

lemma ref_after_le:
  assumes inv: "as_inv s D xs" and d: "dd \<in> D" "va < UTOP" and pp: "pp_ref s pp \<noteq> 0xffff"
  shows "unat (ref_after (map_option pte_page (amap s dd va)) pp s q) \<le> unat (pp_ref s q) + (if q = pp then 1 else 0)"
    "amap s dd va = Some e \<Longrightarrow> pte_page e = pp \<Longrightarrow> ref_after (map_option pte_page (amap s dd va)) pp s q = pp_ref s q"
proof -
  have "unat (pp_ref s q - 1) \<le> unat (pp_ref s q)" if "Some q = map_option pte_page (amap s dd va)"
  proof -
    obtain e' where "amap s dd va = Some e'" "q = pte_page e'" using \<open>Some q = _\<close> by (cases "amap s dd va") auto
    then show ?thesis using mapped_ref(1) [OF inv d] unat_dec16 [of "pp_ref s q"] by simp
  qed
  then show "unat (ref_after (map_option pte_page (amap s dd va)) pp s q) \<le> unat (pp_ref s q) + (if q = pp then 1 else 0)"
    using unat_inc16 [OF pp] by (auto simp: ref_after_def)
qed (simp add: ref_after_def)

text \<open>
  What the calls keep: the pages of the parent stay mapped where they are, with their contents, and free pages are used for
  the child's tables only.
\<close>

definition parent_kept :: "nat set \<Rightarrow> nat \<Rightarrow> kstate \<Rightarrow> kstate \<Rightarrow> bool" where
  "parent_kept D pd s s' \<longleftrightarrow> (\<forall>x e. x < UTOP \<longrightarrow> amap s pd x = Some e \<longrightarrow> pte_page e \<notin> tables s D \<longrightarrow>
     (\<exists>e'. amap s' pd x = Some e' \<and> pte_page e' = pte_page e) \<and> pte_page e \<notin> tables s' D \<and>
     (\<forall>j. unat j < 1024 \<longrightarrow> pw s' (pte_page e) j = pw s (pte_page e) j))"

definition fork_kept :: "nat set \<Rightarrow> nat \<Rightarrow> nat \<Rightarrow> kstate \<Rightarrow> nat list \<Rightarrow> kstate \<Rightarrow> nat list \<Rightarrow> bool" where
  "fork_kept D pd cd s xs s' ys \<longleftrightarrow> os_kept s s' \<and> parent_kept D pd s s' \<and> length xs + missing s' cd \<le> length ys + missing s cd"

lemma fork_kept_refl [simp]: "fork_kept D pd cd s xs s xs"
  by (simp add: fork_kept_def parent_kept_def)

lemma parent_keptD:
  assumes "parent_kept D pd s s'" "x < UTOP" "amap s pd x = Some e" "pte_page e \<notin> tables s D"
  shows "\<exists>e'. amap s' pd x = Some e' \<and> pte_page e' = pte_page e" "pte_page e \<notin> tables s' D"
    "unat j < 1024 \<Longrightarrow> pw s' (pte_page e) j = pw s (pte_page e) j"
  using assms unfolding parent_kept_def by blast+

lemma parent_kept_trans:
  assumes 1: "parent_kept D pd s t" and 2: "parent_kept D pd t u"
  shows "parent_kept D pd s u"
  unfolding parent_kept_def
proof (intro allI impI)
  fix x e assume a: "x < UTOP" "amap s pd x = Some e" "pte_page e \<notin> tables s D"
  obtain e' where e': "amap t pd x = Some e'" "pte_page e' = pte_page e" using parent_keptD(1) [OF 1 a] by blast
  have "pte_page e' \<notin> tables t D" using parent_keptD(2) [OF 1 a] e'(2) by simp
  note k = parent_keptD [OF 2 a(1) e'(1) this]
  show "(\<exists>e'. amap u pd x = Some e' \<and> pte_page e' = pte_page e) \<and> pte_page e \<notin> tables u D \<and>
     (\<forall>j. unat j < 1024 \<longrightarrow> pw u (pte_page e) j = pw s (pte_page e) j)"
    using k parent_keptD(3) [OF 1 a] e'(2) by simp
qed

lemma fork_kept_trans: "fork_kept D pd cd s xs t ys \<Longrightarrow> fork_kept D pd cd t ys u zs \<Longrightarrow> fork_kept D pd cd s xs u zs"
  unfolding fork_kept_def using os_kept_trans [of s t u] parent_kept_trans [of D pd s t u] by auto

text \<open>One call of \<open>ecall_mem_map\<close> in \<open>duppage\<close>, into the child or into the program itself.\<close>

lemma fork_map:
  assumes ready: "fork_ready D c pd child cd s xs" and va: "\<not> is_illegal_va va" and perm: "perm_ok perm"
    and m: "amap s pd va = Some e" and ref: "pp_ref s (pte_page e) \<noteq> 0xffff"
    and dst: "dst = child \<and> dd = cd \<or> dst = 0 \<and> dd = pd"
  shows "\<exists>s' ys. e_mem_map 0 va dst va perm s = Some (Returned 0, s') \<and> fork_ready D c pd child cd s' ys \<and> fork_kept D pd cd s xs s' ys \<and>
    (\<forall>pd' \<in> D. \<forall>va'. amap s' pd' va' = (if pd' = dd \<and> VPN va' = VPN va then Some (mk_pte (pte_page e) perm) else amap s pd' va')) \<and>
    (\<forall>q. q \<notin> set xs \<longrightarrow> unat (pp_ref s' q) \<le> unat (pp_ref s q) + (if dd = cd \<and> q = pte_page e then 1 else 0))"
proof -
  note r = fork_readyD [OF ready]
  have lo: "unat (PDX va) < 509" using user_PDX [OF legal_va [OF va]] .
  have dd: "owns_dir s D (target c dst) dd" "dd \<in> D" using dst r by (auto simp: target_def)
  have room: "pde_ok (pw s dd (PDX va)) \<or> xs \<noteq> []"
    using dst missing_room [OF r(7) lo] window_present [OF r(6) unat_PDX_less] by auto
  have src: "may_act s c 0" "owns_dir s D (target c 0) pd" using r(3) by (simp_all add: may_act_def target_def)
  from e_mem_map_full [OF r(1,2) src dd(1) va va perm m ref room] obtain s' ys where
    s': "e_mem_map 0 va dst va perm s = Some (Returned 0, s')" "as_inv s' D ys" "os_kept s s'" "data_kept D s s'"
    "\<forall>pd' \<in> D. \<forall>va'. amap s' pd' va' = (if pd' = dd \<and> VPN va' = VPN va then Some (mk_pte (pte_page e) perm) else amap s pd' va')"
    "dirs_step D dd (PDX va) s s'" "length xs \<le> length ys + (if pde_ok (pw s dd (PDX va)) then 0 else 1)"
    "\<forall>q. q \<notin> set xs \<longrightarrow> pp_ref s' q = ref_after (map_option pte_page (amap s dd va)) (pte_page e) s q" by blast
  note k = os_kept_fields [OF s'(3)]
  have up: "VPN va' \<noteq> VPN va" if "UTOP \<le> va'" for va'
  proof
    assume "VPN va' = VPN va"
    then have "VPN va' < 0x7f400" using VPN_less [OF legal_va [OF va]] by simp
    then show False using that by (simp add: VPN_def word_le_nat_alt word_less_nat_alt unat_drop_bit32)
  qed
  have "vpt_window s' pd" using vpt_window_step [OF r(6,8) s'(6) k(3)] s'(5) r(8) up by auto
  moreover have "missing s' cd \<le> length ys"
    using missing_step [OF s'(6) r(9) lo] s'(7) r(5,7) dst window_present [OF r(6) unat_PDX_less [of va]] by (auto split: if_splits)
  ultimately have "fork_ready D c pd child cd s' ys"
    using r s'(2) k(1,2) by (simp add: fork_ready_def owns_dir_def)
  moreover have "unat (pp_ref s' q) \<le> unat (pp_ref s q) + (if dd = cd \<and> q = pte_page e then 1 else 0)" if "q \<notin> set xs" for q
  proof (cases "dd = cd")
    case True
    then show ?thesis using s'(8) that ref_after_le(1) [OF r(1) dd(2) legal_va [OF va] ref, of q] by simp
  next
    case False
    then have "amap s dd va = Some e" using dst m by auto
    then show ?thesis using s'(8) that ref_after_le(2) [OF r(1) dd(2) legal_va [OF va] ref _ refl, of q] by simp
  qed
  moreover have "parent_kept D pd s s'" unfolding parent_kept_def
  proof (intro allI impI)
    fix x g assume g: "x < UTOP" "amap s pd x = Some g" "pte_page g \<notin> tables s D"
    have "amap s pd x = Some e" if "VPN x = VPN va" using amap_VPN [OF that, of s pd] m by simp
    then obtain g' where g': "amap s' pd x = Some g'" "pte_page g' = pte_page g"
      using s'(5) r(8) g(2) pte_page_mk_pte [OF mapped_ref(2) [OF r(1,8) legal_va [OF va] m] perm] by (cases "pd = dd \<and> VPN x = VPN va") auto
    have n: "pp_ref s (pte_page g) \<noteq> 0" "pp_ref s' (pte_page g) \<noteq> 0"
      using mapped_ref(1) [OF r(1,8) g(1,2)] mapped_ref(1) [OF s'(2) r(8) g(1) g'(1)] g'(2) by auto
    show "(\<exists>e'. amap s' pd x = Some e' \<and> pte_page e' = pte_page g) \<and> pte_page g \<notin> tables s' D \<and>
        (\<forall>j. unat j < 1024 \<longrightarrow> pw s' (pte_page g) j = pw s (pte_page g) j)"
      using g' data_keptD [OF s'(4) mapped_ref(2) [OF r(1,8) g(1,2)] g(3) n(1)] n(2) by blast
  qed
  moreover have "length xs + missing s' cd \<le> length ys + missing s cd"
    using missing_step [OF s'(6) r(9) lo] s'(7) r(5) dst window_present [OF r(6) unat_PDX_less [of va]] by (auto split: if_splits)
  ultimately show ?thesis using s'(1,3,5) unfolding fork_kept_def by blast
qed

text \<open>\<open>duppage\<close> on a mapped page: the entry of both becomes \<open>dup_pte\<close> of the old one.\<close>

lemma duppage_ok:
  assumes ready: "fork_ready D c pd child cd s xs" and v: "v < 0x7f400" "\<not> is_illegal_va (push_bit 12 v)"
    and m: "amap s pd (push_bit 12 v) = Some e" and ref: "unat (pp_ref s (pte_page e)) < 0xfffe"
  shows "\<exists>s' ys. duppage mc child v (e AND 0xc00003ff) s = Some s' \<and> fork_ready D c pd child cd s' ys \<and> fork_kept D pd cd s xs s' ys \<and>
    (\<forall>pd' \<in> D. \<forall>va'. amap s' pd' va' = (if (pd' = cd \<or> pd' = pd) \<and> VPN va' = v then Some (dup_pte e) else amap s pd' va')) \<and>
    (\<forall>va' e'. va' < UTOP \<longrightarrow> amap s pd va' = Some e' \<longrightarrow>
       unat (pp_ref s' (pte_page e')) \<le> unat (pp_ref s (pte_page e')) + (if pte_page e' = pte_page e then 1 else 0))"
proof -
  note r = fork_readyD [OF ready]
  let ?va = "push_bit 12 v" and ?q = "pte_page e"
  have vpn: "VPN ?va = v" using VPN_push(1) [OF v(1)] .
  have pde: "pde_ok e" using m by (auto simp: amap_def split: if_splits)
  have ne: "pp_ref s ?q \<noteq> 0xffff" using ref by auto
  have f: "(e AND 0xc00003ff) AND PTE_W = 0 \<longleftrightarrow> \<not> bit e 2" "(e AND 0xc00003ff) AND PTE_LIBRARY = PTE_LIBRARY \<longleftrightarrow> bit e 9"
    "(e AND 0xc00003ff) AND PTE_COW = PTE_COW \<longleftrightarrow> bit e 8"
    unfolding flag_test bit_and_iff bit_perm_mask by simp_all
  show ?thesis
  proof (cases "\<not> bit e 2 \<or> bit e 9 \<or> bit e 8")
    case True
    have d: "dup_pte e = e" using True unfolding dup_pte_def flag_test by simp
    from fork_map [OF ready v(2) perm_ok_masked m ne, of child cd e] obtain s' ys where
      s': "e_mem_map 0 ?va child ?va (e AND 0xc00003ff) s = Some (Returned 0, s')" "fork_ready D c pd child cd s' ys" "fork_kept D pd cd s xs s' ys"
      "\<forall>pd' \<in> D. \<forall>va'. amap s' pd' va' = (if pd' = cd \<and> VPN va' = v then Some e else amap s pd' va')"
      "\<forall>q. q \<notin> set xs \<longrightarrow> unat (pp_ref s' q) \<le> unat (pp_ref s q) + (if q = ?q then 1 else 0)"
      using mk_pte_same [OF pde] vpn by auto
    have "amap s pd va' = Some e" if "VPN va' = v" for va' using m that vpn amap_VPN [of va' ?va s pd] by simp
    moreover have "duppage mc child v (e AND 0xc00003ff) s = Some s'"
      using True s'(1) unfolding duppage_def Let_def f by simp
    moreover have "unat (pp_ref s' (pte_page e')) \<le> unat (pp_ref s (pte_page e')) + (if pte_page e' = ?q then 1 else 0)"
      if "va' < UTOP" "amap s pd va' = Some e'" for va' e' using s'(5) mapped_ref(3) [OF r(1,8) that] by blast
    ultimately show ?thesis using s'(2,3,4) d r(5,8) by (intro exI [of _ s'] exI [of _ ys]) auto
  next
    case False
    let ?perm = "(e AND 0xc00003ff OR PTE_COW) AND NOT PTE_W"
    have perm: "perm_ok ?perm" by (intro perm_ok_and perm_ok_or perm_ok_masked perm_ok_flags)
    have d: "mk_pte ?q ?perm = dup_pte e" using False mk_pte_dup(1) [OF pde] unfolding dup_pte_def flag_test by simp
    from fork_map [OF ready v(2) perm m ne, of child cd] obtain s1 ys where
      s1: "e_mem_map 0 ?va child ?va ?perm s = Some (Returned 0, s1)" "fork_ready D c pd child cd s1 ys" "fork_kept D pd cd s xs s1 ys"
      "\<forall>pd' \<in> D. \<forall>va'. amap s1 pd' va' = (if pd' = cd \<and> VPN va' = v then Some (dup_pte e) else amap s pd' va')"
      "\<forall>q. q \<notin> set xs \<longrightarrow> unat (pp_ref s1 q) \<le> unat (pp_ref s q) + (if q = ?q then 1 else 0)"
      using vpn d by auto
    have m1: "amap s1 pd ?va = Some e" using s1(4) r(5,8) m by simp
    have q: "?q \<notin> set xs" "?q \<notin> set ys"
      using mapped_ref(3) [OF r(1,8) legal_va [OF v(2)] m] mapped_ref(3) [OF fork_readyD(1) [OF s1(2)] r(8) legal_va [OF v(2)] m1] by auto
    then have "unat (pp_ref s1 ?q) < 0xffff" using s1(5) ref by fastforce
    then have "pp_ref s1 ?q \<noteq> 0xffff" by auto
    from fork_map [OF s1(2) v(2) perm m1 this, of 0 pd] obtain s' zs where
      s': "e_mem_map 0 ?va 0 ?va ?perm s1 = Some (Returned 0, s')" "fork_ready D c pd child cd s' zs" "fork_kept D pd cd s1 ys s' zs"
      "\<forall>pd' \<in> D. \<forall>va'. amap s' pd' va' = (if pd' = pd \<and> VPN va' = v then Some (dup_pte e) else amap s1 pd' va')"
      "\<forall>q. q \<notin> set ys \<longrightarrow> unat (pp_ref s' q) \<le> unat (pp_ref s1 q)"
      using vpn d r(5) by auto
    have "duppage mc child v (e AND 0xc00003ff) s = Some s'"
      using False s1(1) s'(1) unfolding duppage_def Let_def f by simp
    moreover have "unat (pp_ref s' (pte_page e')) \<le> unat (pp_ref s (pte_page e')) + (if pte_page e' = ?q then 1 else 0)"
      if "va' < UTOP" "amap s pd va' = Some e'" for va' e'
    proof -
      have "amap s1 pd va' = Some e'" using that(2) s1(4) r(5,8) by simp
      from s'(5) [rule_format, OF mapped_ref(3) [OF fork_readyD(1) [OF s1(2)] r(8) that(1) this]]
      show ?thesis using s1(5) [rule_format, OF mapped_ref(3) [OF r(1,8) that]] by simp
    qed
    ultimately show ?thesis using s'(2,4) s1(4) fork_kept_trans [OF s1(3) s'(3)] r(5)
      by (intro exI [of _ s'] exI [of _ zs]) auto
  qed
qed

text \<open>Below \<open>UTEMP\<close> the calls are refused and \<open>duppage\<close> does nothing.\<close>

lemma duppage_illegal:
  "is_illegal_va (push_bit 12 v) \<Longrightarrow> duppage mc child v perm s = Some s"
  by (simp add: duppage_def e_mem_map_def Let_def)

text \<open>
  The pages of the program that the numbers \<open>vs\<close> map, counted with multiplicity; each may still get as
  many references without the 16-bit count coming near its end.
\<close>

definition maps_to :: "kstate \<Rightarrow> nat \<Rightarrow> nat \<Rightarrow> u32 \<Rightarrow> bool" where
  "maps_to s pd q v \<longleftrightarrow> map_option pte_page (amap s pd (push_bit 12 v)) = Some q"

definition refs_room :: "kstate \<Rightarrow> nat \<Rightarrow> u32 list \<Rightarrow> bool" where
  "refs_room s pd vs \<longleftrightarrow> (\<forall>v \<in> set vs. \<forall>q. maps_to s pd q v \<longrightarrow> unat (pp_ref s q) + length (filter (maps_to s pd q) vs) < 0xffff)"

definition forked :: "u32 list \<Rightarrow> u32 \<Rightarrow> bool" where
  "forked vs va \<longleftrightarrow> VPN va \<in> set vs \<and> \<not> is_illegal_va va"

lemma illegal_VPN:
  assumes "VPN va = v" "v < 0x7f400"
  shows "is_illegal_va (push_bit 12 v) = is_illegal_va va"
proof -
  have u: "unat (push_bit 12 v) = 4096 * unat v"
    using assms(2) by (simp add: push_bit_eq_mult unat_word_ariths word_less_nat_alt)
  have "unat v = unat va div 4096" using assms(1) by (auto simp: VPN_def unat_drop_bit32)
  then show ?thesis using u unfolding is_illegal_va_def word_less_nat_alt word_le_nat_alt by auto
qed

lemma PDX_VPN: "PDX va = drop_bit 10 (VPN va)"
  by (rule bit_word_eqI) (auto simp: bit_simps add.commute dest: bit_imp_le_length)

text \<open>What the iterations for \<open>vs\<close> make of the page maps.\<close>

definition dup_maps :: "nat set \<Rightarrow> nat \<Rightarrow> nat \<Rightarrow> u32 list \<Rightarrow> kstate \<Rightarrow> kstate \<Rightarrow> bool" where
  "dup_maps D pd cd vs s s' \<longleftrightarrow> (\<forall>pd' \<in> D. \<forall>va. amap s' pd' va =
     (if (pd' = cd \<or> pd' = pd) \<and> forked vs va \<and> amap s pd va \<noteq> None then map_option dup_pte (amap s pd va) else amap s pd' va))"

lemma dup_mapsD:
  "dup_maps D pd cd vs s s' \<Longrightarrow> pd' \<in> D \<Longrightarrow> amap s' pd' va =
     (if (pd' = cd \<or> pd' = pd) \<and> forked vs va \<and> amap s pd va \<noteq> None then map_option dup_pte (amap s pd va) else amap s pd' va)"
  unfolding dup_maps_def by blast

lemma dup_maps_none:
  "(\<And>va. forked vs va \<Longrightarrow> amap s pd va = None) \<Longrightarrow> dup_maps D pd cd vs s s"
  unfolding dup_maps_def by auto

lemma dup_maps_Cons:
  assumes 1: "dup_maps D pd cd [v] s s1" and 2: "dup_maps D pd cd vs s1 s'" and v: "v \<notin> set vs" "pd \<in> D"
  shows "dup_maps D pd cd (v # vs) s s'"
  unfolding dup_maps_def
proof (intro ballI allI)
  fix pd' va assume d: "pd' \<in> D"
  have "forked (v # vs) va \<longleftrightarrow> forked [v] va \<or> forked vs va" "\<not> (forked [v] va \<and> forked vs va)"
    using v(1) by (auto simp: forked_def)
  then show "amap s' pd' va = (if (pd' = cd \<or> pd' = pd) \<and> forked (v # vs) va \<and> amap s pd va \<noteq> None
      then map_option dup_pte (amap s pd va) else amap s pd' va)"
    using dup_mapsD [OF 1 d, of va] dup_mapsD [OF 2 d, of va] dup_mapsD [OF 1 v(2), of va] by (auto split: if_splits)
qed

text \<open>The counts after one iteration.\<close>

definition ref_step :: "nat \<Rightarrow> u32 \<Rightarrow> kstate \<Rightarrow> kstate \<Rightarrow> bool" where
  "ref_step pd v s s' \<longleftrightarrow> (\<forall>va e. va < UTOP \<longrightarrow> amap s pd va = Some e \<longrightarrow>
     unat (pp_ref s' (pte_page e)) \<le> unat (pp_ref s (pte_page e)) + (if maps_to s pd (pte_page e) v then 1 else 0))"

lemma refs_room_Cons:
  assumes room: "refs_room s pd (v # vs)" and v: "v \<notin> set vs" "\<forall>w \<in> set (v # vs). w < 0x7f400"
    and am: "dup_maps D pd cd [v] s s'" "pd \<in> D" and refs: "ref_step pd v s s'"
  shows "refs_room s' pd vs"
  unfolding refs_room_def
proof (intro ballI allI impI)
  fix w q assume w: "w \<in> set vs" "maps_to s' pd q w"
  have same: "maps_to s' pd q u = maps_to s pd q u" if "u \<in> set vs" for q u
  proof -
    have "u < 0x7f400" "u \<noteq> v" using v that by auto
    then have "\<not> forked [v] (push_bit 12 u)" using VPN_push(1) [of u] by (simp add: forked_def)
    then show ?thesis using dup_mapsD [OF am] by (simp add: maps_to_def)
  qed
  have q: "maps_to s pd q w" using same w by simp
  then obtain e where e: "amap s pd (push_bit 12 w) = Some e" "pte_page e = q" by (auto simp: maps_to_def)
  have "push_bit 12 w < UTOP" using VPN_push(2) v(2) w(1) by auto
  then have "unat (pp_ref s' q) \<le> unat (pp_ref s q) + (if maps_to s pd q v then 1 else 0)"
    using refs e by (auto simp: ref_step_def)
  moreover have "unat (pp_ref s q) + length (filter (maps_to s pd q) (v # vs)) < 0xffff"
    using room w(1) q by (auto simp: refs_room_def)
  moreover have "filter (maps_to s' pd q) vs = filter (maps_to s pd q) vs" using same by (rule filter_cong [OF refl])
  ultimately show "unat (pp_ref s' q) + length (filter (maps_to s' pd q) vs) < 0xffff" by (auto split: if_splits)
qed

lemma fork_iter:
  assumes ready: "fork_ready D c pd child cd s xs" and v: "v < 0x7f400" and room: "refs_room s pd (v # vs)"
  shows "\<exists>s1 ys. fork_loop mc child (v # vs) s = fork_loop mc child vs s1 \<and> fork_ready D c pd child cd s1 ys \<and> fork_kept D pd cd s xs s1 ys \<and>
    dup_maps D pd cd [v] s s1 \<and> ref_step pd v s s1"
proof -
  note r = fork_readyD [OF ready]
  let ?va = "push_bit 12 v"
  have va: "VPN ?va = v" "?va < UTOP" using VPN_push [OF v] by auto
  have rd: "vpt v s = Some (pw s (pt s pd (PDX ?va)) (PTX ?va), s)" "vpd (drop_bit 10 v) s = Some (pw s pd (PDX ?va), s)"
    using vpt_read [OF r(6) va(2)] vpd_read [OF r(6) va(2)] va(1) PDX_VPN [of ?va] by simp_all
  note val = vpt_valid [OF r(6), of ?va] and pde = window_present [OF r(6) unat_PDX_less, of ?va]
  have at: "amap s pd va' = amap s pd ?va" "is_illegal_va va' = is_illegal_va ?va" if "VPN va' = v" for va'
    using that va(1) amap_VPN [of va' ?va s pd] illegal_VPN [OF that v] by auto
  have idle: "dup_maps D pd cd [v] s s" "ref_step pd v s s" if "amap s pd ?va = None \<or> is_illegal_va ?va"
    using that at by (auto intro!: dup_maps_none simp: forked_def ref_step_def)
  show ?thesis
  proof (cases "amap s pd ?va")
    case None
    then have "fork_loop mc child (v # vs) s = fork_loop mc child vs s" using rd val(1) by (simp add: pde_ok_def)
    then show ?thesis using ready idle None by (intro exI [of _ s] exI [of _ xs]) simp
  next
    case (Some e)
    have e: "pw s (pt s pd (PDX ?va)) (PTX ?va) = e" "pde_ok e" using val Some by auto
    have step: "fork_loop mc child (v # vs) s = do { s \<leftarrow> duppage mc child v (e AND 0xc00003ff) s; fork_loop mc child vs s }"
      using rd e pde by (simp add: pde_ok_def)
    show ?thesis
    proof (cases "is_illegal_va ?va")
      case True
      then show ?thesis using step duppage_illegal [OF True] ready idle by (intro exI [of _ s] exI [of _ xs]) simp
    next
      case False
      have mt: "maps_to s pd q v \<longleftrightarrow> q = pte_page e" for q using Some by (auto simp: maps_to_def)
      then have "unat (pp_ref s (pte_page e)) < 0xfffe" using room by (force simp: refs_room_def)
      from duppage_ok [OF ready v False Some this, of mc] obtain s1 ys where
        s1: "duppage mc child v (e AND 0xc00003ff) s = Some s1" "fork_ready D c pd child cd s1 ys" "fork_kept D pd cd s xs s1 ys"
        "\<forall>pd' \<in> D. \<forall>va'. amap s1 pd' va' = (if (pd' = cd \<or> pd' = pd) \<and> VPN va' = v then Some (dup_pte e) else amap s pd' va')"
        "ref_step pd v s s1" unfolding ref_step_def mt by blast
      have "dup_maps D pd cd [v] s s1" using s1(4) at False Some by (auto simp: dup_maps_def forked_def)
      then show ?thesis using step s1 by (intro exI [of _ s1] exI [of _ ys]) simp
    qed
  qed
qed

lemma fork_loop_ok:
  assumes "fork_ready D c pd child cd s xs" "distinct vs" "\<forall>v \<in> set vs. v < 0x7f400" "refs_room s pd vs"
  shows "\<exists>s' ys. fork_loop mc child vs s = Some s' \<and> fork_ready D c pd child cd s' ys \<and> fork_kept D pd cd s xs s' ys \<and> dup_maps D pd cd vs s s'"
  using assms
proof (induction vs arbitrary: s xs)
  case Nil
  then show ?case by (auto simp: dup_maps_def forked_def)
next
  case (Cons v vs)
  have v: "v < 0x7f400" "v \<notin> set vs" "pd \<in> D" using Cons.prems fork_readyD(8) [OF Cons.prems(1)] by auto
  from fork_iter [OF Cons.prems(1) v(1) Cons.prems(4), of mc] obtain s1 ys where
    s1: "fork_loop mc child (v # vs) s = fork_loop mc child vs s1" "fork_ready D c pd child cd s1 ys" "fork_kept D pd cd s xs s1 ys"
    "dup_maps D pd cd [v] s s1" "ref_step pd v s s1" by blast
  have "refs_room s1 pd vs" using refs_room_Cons [OF Cons.prems(4) v(2) Cons.prems(3) s1(4) v(3) s1(5)] .
  then obtain s' zs where "fork_loop mc child vs s1 = Some s'" "fork_ready D c pd child cd s' zs" "fork_kept D pd cd s1 ys s' zs"
    "dup_maps D pd cd vs s1 s'"
    using Cons.IH [OF s1(2)] Cons.prems(2,3) by auto
  then show ?case using s1(1) fork_kept_trans [OF s1(3)] dup_maps_Cons [OF s1(4) _ v(2,3)] by metis
qed

end
