(* ===== verification/WindowSample.thy ===== *)
theory WindowSample
  imports Uvm Sample
begin

text \<open>
  A concrete state in which environment 0 has its page-table window open: its directory, page 5, is full,
  with the tables in the pages from 2000 on, and so is the one of its child, page 6, with empty tables from
  page 4000 on. It has a private page at \<open>0x400000\<close>, a copy-on-write page at \<open>0x401000\<close> and its exception stack.
\<close>

definition wword :: "nat \<Rightarrow> nat \<Rightarrow> u32" where
  "wword p j =
     (if p = 5 then mk_pte (2000 + j) 0
      else if p = 6 then mk_pte (4000 + j) 0
      else if p = 2511 then mk_pte (if j = 511 then 5 else 2000 + j) (PTE_R OR PTE_U)
      else if p = 2001 \<and> j = 0 then mk_pte 20 (PTE_R OR PTE_W OR PTE_U)
      else if p = 2001 \<and> j = 1 then mk_pte 21 (PTE_R OR PTE_U OR PTE_COW)
      else if p = 2508 \<and> j = 1023 then mk_pte 22 (PTE_R OR PTE_W OR PTE_U)
      else 0)"

definition wmem :: mem where
  "wmem a = ucast (drop_bit (8 * (unat a mod 4)) (wword ((unat a - 0x80000000) div 4096) ((unat a mod 4096) div 4)))"

definition wsample :: kstate where
  "wsample = sample\<lparr>kmem := wmem, pp_ref := (\<lambda>p. if p \<in> {7, 8, 9} then 0 else 4),
     envs := (sample_env)(1 := (sample_env 1)\<lparr>env_status := ENV_NOT_RUNNABLE\<rparr>),
     env_sched_list := TAILQ_INSERT_TAIL 0 empty_tailq\<rparr>"

lemma wsample_fields [simp]:
  "curenv wsample = Some 0" "npage wsample = 0x10000" "kmem wsample = wmem" "cur_pgdir wsample = page2addr 5"
  "page_free_list wsample = page_free_list sample" "pp_ref wsample p = (if p \<in> {7, 8, 9} then 0 else 4)"
  "env_pgdir (envs wsample e) = env_pgdir (sample_env e)" "env_parent_id (envs wsample e) = env_parent_id (sample_env e)"
  "env_id (envs wsample e) = env_id (sample_env e)" "env_status (envs wsample (Suc 0)) = ENV_NOT_RUNNABLE"
  by (simp_all add: wsample_def sample_def)

lemma wpw:
  assumes "p < NPAGES" "unat i < 1024"
  shows "pw wsample p i = wword p (unat i)"
proof -
  have b: "wmem (slot p i + of_nat k) = ucast (drop_bit (8 * k) (wword p (unat i)))" if "k < 4" for k
  proof -
    have u: "unat (slot p i + of_nat k) = 0x80000000 + 4096 * p + (4 * unat i + k)"
      using unat_slot [OF assms] unat_add_small [of "slot p i" k] that assms by simp
    moreover have "(0x80000000 + 4096 * p + (4 * unat i + k)) mod 4 = k"
    proof -
      have "(0x80000000 + 4096 * p + (4 * unat i + k)) mod 4 = (4 * (0x20000000 + 1024 * p + unat i) + k) mod 4"
        by (simp add: algebra_simps)
      then show ?thesis using that by (simp only: mod_mult_self4) simp
    qed
    moreover have "(0x80000000 + 4096 * p + (4 * unat i + k)) mod 4096 = 4 * unat i + k"
    proof -
      have "(0x80000000 + 4096 * p + (4 * unat i + k)) mod 4096 = (4096 * (0x80000 + p) + (4 * unat i + k)) mod 4096"
        by (simp add: algebra_simps)
      then show ?thesis using that assms(2) by (simp only: mod_mult_self4) simp
    qed
    moreover have "(4096 * p + (4 * unat i + k)) div 4096 = p" "(4 * unat i + k) div 4 = unat i" using that assms(2) by auto
    ultimately show ?thesis unfolding wmem_def u by (simp add: diff_add_inverse add.assoc)
  qed
  from b [of 0] b [of 1] b [of 2] b [of 3] show ?thesis
    by (simp add: pw_def kload32_def load32_def bytes_of_word)
qed

lemma wword_values:
  "wword 5 j = mk_pte (2000 + j) 0" "wword 6 j = mk_pte (4000 + j) 0"
  "j < 1024 \<Longrightarrow> wword (4000 + j) k = 0"
  by (simp_all add: wword_def)

lemma wdirs:
  assumes "unat i < 1024"
  shows "pw wsample 5 i = mk_pte (2000 + unat i) 0" "pw wsample 6 i = mk_pte (4000 + unat i) 0"
    "pt wsample 5 i = 2000 + unat i" "pt wsample 6 i = 4000 + unat i"
  using wpw [of 5 i] wpw [of 6 i] assms pte_page_mk_pte [of "2000 + unat i" 0] pte_page_mk_pte [of "4000 + unat i" 0]
  by (simp_all add: wword_values pt_def)

lemma wamap:
  "amap wsample 5 va = (if pde_ok (wword (2000 + unat (PDX va)) (unat (PTX va))) then Some (wword (2000 + unat (PDX va)) (unat (PTX va))) else None)"
  "amap wsample 6 va = None"
proof -
  note d = wdirs [OF unat_PDX_less [of va]]
  show "amap wsample 5 va = (if pde_ok (wword (2000 + unat (PDX va)) (unat (PTX va))) then Some (wword (2000 + unat (PDX va)) (unat (PTX va))) else None)"
    using d wpw [OF _ unat_PTX_less, of "2000 + unat (PDX va)" va] unat_PDX_less [of va] by (simp add: amap_def)
  show "amap wsample 6 va = None"
    using d wpw [OF _ unat_PTX_less, of "4000 + unat (PDX va)" va] unat_PDX_less [of va] by (simp add: amap_def wword_values)
qed

lemma wuser:
  assumes "va < UTOP"
  shows "amap wsample 5 va =
    (if VPN va = 0x400 then Some (mk_pte 20 (PTE_R OR PTE_W OR PTE_U))
     else if VPN va = 0x401 then Some (mk_pte 21 (PTE_R OR PTE_U OR PTE_COW))
     else if VPN va = 0x7f3ff then Some (mk_pte 22 (PTE_R OR PTE_W OR PTE_U)) else None)"
proof -
  have v: "VPN va = VPN b \<longleftrightarrow> unat (PDX va) = unat (PDX b) \<and> unat (PTX va) = unat (PTX b)" for b
    by (simp only: VPN_eq_iff) (simp add: word_unat_eq_iff)
  have "VPN 0x400000 = 0x400" "VPN 0x401000 = 0x401" "VPN 0x7f3ff000 = 0x7f3ff" by (simp_all add: VPN_def)
  moreover have "unat (PDX 0x400000) = 1" "unat (PTX 0x400000) = 0" "unat (PDX 0x401000) = 1" "unat (PTX 0x401000) = 1"
    "unat (PDX 0x7f3ff000) = 508" "unat (PTX 0x7f3ff000) = 1023" by (simp_all add: PDX_def PTX_def)
  ultimately show ?thesis using v [of "0x400000"] v [of "0x401000"] v [of "0x7f3ff000"] user_PDX [OF assms]
    unfolding wamap by (auto simp: wword_def)
qed

lemma unat_PTX: "unat (PTX va) = unat va div 4096 mod 1024" and unat_PDX: "unat (PDX va) = unat va div 0x400000 mod 1024"
proof -
  have "PTX va = take_bit 10 (drop_bit 12 va)" "PDX va = take_bit 10 (drop_bit 22 va)"
    by (simp_all only: PTX_def PDX_def mask10 take_bit_eq_mask)
  then show "unat (PTX va) = unat va div 4096 mod 1024" "unat (PDX va) = unat va div 0x400000 mod 1024"
    by (simp_all only: unsigned_take_bit_eq unat_drop_bit32) (simp_all add: take_bit_eq_mod)
qed

lemma window_slot:
  assumes "unat i < 1024"
  shows "unat (PDX (UVPT + push_bit 12 i)) = 511" "unat (PTX (UVPT + push_bit 12 i)) = unat i"
proof -
  have "unat (push_bit 12 i) = 4096 * unat i" using assms by (simp add: push_bit_eq_mult unat_word_ariths)
  then have u: "unat (UVPT + push_bit 12 i) = 0x7fc00000 + 4096 * unat i"
    using assms unat_add_small [of UVPT "4096 * unat i"] by (simp add: push_bit_eq_mult mult.commute)
  have "(0x7fc00000 + 4096 * unat i) div 0x400000 = 511" using assms by auto
  then show "unat (PDX (UVPT + push_bit 12 i)) = 511" unfolding unat_PDX u by simp
  have "(0x7fc00000 + 4096 * unat i) div 4096 = 511 * 1024 + unat i" by auto
  then have "(0x7fc00000 + 4096 * unat i) div 4096 mod 1024 = unat i mod 1024" by (simp only: mod_mult_self3)
  then show "unat (PTX (UVPT + push_bit 12 i)) = unat i" unfolding unat_PTX u using assms by simp
qed

lemma w_window: "vpt_window wsample 5"
proof -
  have "map_option pte_page (amap wsample 5 (UVPT + push_bit 12 i)) = Some (if i = PDX UVPT then 5 else pt wsample 5 i)"
    if i: "unat i < 1024" for i
  proof -
    have "i = PDX UVPT \<longleftrightarrow> unat i = 511" by (simp add: PDX_def word_unat_eq_iff)
    moreover have "pte_page (mk_pte q (PTE_R OR PTE_U)) = q" if "q < NPAGES" for q
      using pte_page_mk_pte [OF that, of "PTE_R OR PTE_U"] by (simp only: perm_ok_or perm_ok_flags)
    ultimately show ?thesis using i wdirs(3) [OF i] unfolding wamap window_slot [OF i] by (auto simp: wword_def)
  qed
  then show ?thesis using wdirs by (simp add: vpt_window_def)
qed

lemma w_free: "list_rep (page_free_list wsample) [7, 8, 9]"
  using as_invD(2) [OF sample_as_inv] by simp

lemma w_perms: "perm_ok (PTE_R OR PTE_W OR PTE_U)" "perm_ok (PTE_R OR PTE_U OR PTE_COW)"
  by (intro perm_ok_or perm_ok_flags)+

lemma w_entries [simp]:
  "pte_page (mk_pte 20 (PTE_R OR PTE_W OR PTE_U)) = 20" "pte_page (mk_pte 21 (PTE_R OR PTE_U OR PTE_COW)) = 21"
  "pte_page (mk_pte 22 (PTE_R OR PTE_W OR PTE_U)) = 22"
  using pte_page_mk_pte [OF _ w_perms(1), of 20] pte_page_mk_pte [OF _ w_perms(2), of 21] pte_page_mk_pte [OF _ w_perms(1), of 22] by simp_all

lemma w_uses: "(pd, v) \<in> uses wsample {5, 6} q \<Longrightarrow> (pd, v) \<in> {(5, 0x400), (5, 0x401), (5, 0x7f3ff)} \<and> q \<in> {20, 21, 22}"
  using wamap(2) wuser [OF VPN_push(2), of v] VPN_push(1) [of v] w_entries by (auto simp: uses_def split: if_splits)

lemma w_tables: "q \<in> tables wsample {5, 6} \<Longrightarrow> q \<in> {5, 6} \<union> {2000..<3024} \<union> {4000..<5024}"
  using wdirs by (auto simp: tables_def)

lemma w_as_inv: "as_inv wsample {5, 6} [7, 8, 9]"
proof (rule as_invI)
  show "pte_page e < NPAGES" if "pd \<in> {5, 6}" "va < UTOP" "amap wsample pd va = Some e" for pd va e
    using that wamap(2) wuser [OF that(2)] w_entries by (auto split: if_splits)
  show "pt wsample pd i < NPAGES" "pt wsample pd i \<notin> {5, 6}" if "pd \<in> {5, 6}" "unat i < 1024" for pd i
    using that wdirs [OF that(2)] by auto
  show "pd = pd' \<and> i = j" if "pd \<in> {5, 6}" "pd' \<in> {5, 6}" "unat i < 509" "unat j < 1024" "pt wsample pd i = pt wsample pd' j" for pd pd' i j
    using that wdirs(3,4) [of i] wdirs(3,4) [of j] by (auto simp: word_unat_eq_iff)
  show "card (uses wsample {5, 6} q) + (if q \<in> tables wsample {5, 6} then 1 else 0) \<le> unat (pp_ref wsample q)" for q
  proof -
    let ?U = "{(5, 0x400), (5, 0x401), (5, 0x7f3ff)} :: (nat \<times> u32) set"
    have "uses wsample {5, 6} q \<subseteq> (if q \<in> {20, 21, 22} then ?U else {})" using w_uses by auto
    then have "card (uses wsample {5, 6} q) \<le> card (if q \<in> {20, 21, 22} then ?U else {})" by (intro card_mono) auto
    moreover have "card ?U \<le> 3" by (simp add: card_insert_if)
    moreover have "q \<in> tables wsample {5, 6} \<Longrightarrow> q \<notin> {7, 8, 9}" using w_tables [of q] by auto
    ultimately show ?thesis by (auto split: if_splits)
  qed
qed (use w_free in auto)

lemma w_owns [simp]: "owns_dir wsample {5, 6} 0 5" "owns_dir wsample {5, 6} (Suc 0) 6"
  by (simp_all add: owns_dir_def sample_env_def)

lemma w_sched: "sched_inv wsample [0]"
proof -
  have "tailq_rep empty_tailq []" by (simp add: tailq_rep_def empty_tailq_def)
  then have "tailq_rep (TAILQ_INSERT_TAIL 0 empty_tailq) ([] @ [0])" by (rule TAILQ_INSERT_TAIL_rep) simp
  then show ?thesis by (auto simp: sched_inv_def wsample_def sample_env_def)
qed

end
