(* ===== verification/FdProps.thy ===== *)
theory FdProps
  imports Fd Fork WindowSample
begin

text \<open>
  What the descriptor layer promises: the least free descriptor, descriptors that share their page and so
  their position, and pipes whose two ends share one page.
\<close>

section \<open>Addresses\<close>

lemma page_numbers: "va div BY2PG = VPN va" "va div PDMAP = PDX va"
proof -
  show "va div BY2PG = VPN va" by (simp add: VPN_def drop_bit_eq_div)
  have "unat (va div PDMAP) = unat va div 0x400000" by (simp add: unat_div)
  moreover have "unat va div 0x400000 < 1024" using unsigned_less [of va, where 'a = nat] by simp
  ultimately show "va div PDMAP = PDX va" by (simp add: word_unat_eq_iff unat_PDX)
qed

lemma unat_fd:
  assumes "unat i < 32"
  shows "unat (INDEX2FD i) = 0x5fc00000 + 4096 * unat i"
    "k < 0x400000 \<Longrightarrow> unat (INDEX2DATA i + of_nat k) = 0x60000000 + 0x400000 * unat i + k"
proof -
  have m: "unat (i * BY2PG) = 4096 * unat i" "unat (i * PDMAP) = 0x400000 * unat i"
    using assms by (simp_all add: unat_word_ariths)
  show "unat (INDEX2FD i) = 0x5fc00000 + 4096 * unat i"
    using m assms unat_add_small [of FDTABLE "4096 * unat i"] by (simp add: INDEX2FD_def mult.commute)
  have "unat (INDEX2DATA i) = 0x60000000 + 0x400000 * unat i"
    using m assms unat_add_small [of FILEBASE "0x400000 * unat i"] by (simp add: INDEX2DATA_def mult.commute)
  then show "unat (INDEX2DATA i + of_nat k) = 0x60000000 + 0x400000 * unat i + k" if "k < 0x400000"
    using that assms unat_add_small [of "INDEX2DATA i" k] by simp
qed

lemma fd_page:
  assumes "unat i < 32"
  shows "unat (VPN (INDEX2FD i)) = 0x5fc00 + unat i" "\<not> is_illegal_va (INDEX2FD i)" "INDEX2FD i < UTOP"
    "fd2num (INDEX2FD i) = i" "fd2data (INDEX2FD i) = INDEX2DATA i"
proof -
  note u = unat_fd(1) [OF assms]
  show "unat (VPN (INDEX2FD i)) = 0x5fc00 + unat i" using u by (simp add: VPN_def unat_drop_bit32)
  show "\<not> is_illegal_va (INDEX2FD i)" "INDEX2FD i < UTOP"
    using u assms unfolding is_illegal_va_def word_less_nat_alt word_le_nat_alt by simp_all
  have "unat (INDEX2FD i - FDTABLE) = 4096 * unat i" using u by (simp add: unat_sub word_le_nat_alt)
  then have "unat (fd2num (INDEX2FD i)) = unat i" by (simp add: fd2num_def unat_div)
  then show "fd2num (INDEX2FD i) = i" by (simp add: word_unat_eq_iff)
  then show "fd2data (INDEX2FD i) = INDEX2DATA i" by (simp add: fd2data_def)
qed

lemma fd_field:
  assumes "unat i < 32" "k < 1024"
  shows "VPN (INDEX2FD i + 4 * of_nat k) = VPN (INDEX2FD i)" "(INDEX2FD i + 4 * of_nat k) AND 3 = 0"
    "uidx (INDEX2FD i + 4 * of_nat k) = of_nat k" "INDEX2FD i + 4 * of_nat k < UTOP"
proof -
  let ?a = "INDEX2FD i + 4 * of_nat k"
  have u: "unat ?a = 0x5fc00000 + 4096 * unat i + 4 * k"
    using unat_fd(1) [OF assms(1)] assms unat_add_small [of "INDEX2FD i" "4 * k"] by simp
  have u4: "unat ?a = 4 * (1024 * (0x5fc00 + unat i) + k)" using u by simp
  have "(0x5fc00000 + 4096 * unat i + 4 * k) div 4096 = 0x5fc00 + unat i" using assms(2) by auto
  then show "VPN ?a = VPN (INDEX2FD i)"
    using u fd_page(1) [OF assms(1)] by (simp add: word_unat_eq_iff VPN_def unat_drop_bit32)
  have m: "a AND 3 = take_bit 2 a" "drop_bit 2 a AND 0x3ff = take_bit 10 (drop_bit 2 a)" for a :: u32
    by (simp_all add: take_bit_eq_mask mask_eq_exp_minus_1)
  have "unat (?a AND 3) = unat ?a mod 4" unfolding m(1) by (simp only: unsigned_take_bit_eq) (simp add: take_bit_eq_mod)
  also have "\<dots> = 0" unfolding u4 by (rule mod_mult_self1_is_0)
  finally show "?a AND 3 = 0" by (simp add: word_unat_eq_iff)
  have "unat (uidx ?a) = unat ?a div 4 mod 1024"
    unfolding uidx_def m(2) by (simp only: unsigned_take_bit_eq unat_drop_bit32) (simp add: take_bit_eq_mod)
  also have "\<dots> = k" unfolding u4 using assms(2) by (simp only: nonzero_mult_div_cancel_left mod_mult_self4) simp
  finally show "uidx ?a = of_nat k" using assms(2) by (simp add: word_unat_eq_iff unat_of_nat)
  show "?a < UTOP" using u assms by (simp add: word_less_nat_alt)
qed

lemma data_page:
  assumes "unat i < 32" "k < 1024"
  shows "unat (VPN (INDEX2DATA i + of_nat k * BY2PG)) = 0x60000 + 1024 * unat i + k"
    "\<not> is_illegal_va (INDEX2DATA i + of_nat k * BY2PG)" "INDEX2DATA i + of_nat k * BY2PG < UTOP"
proof -
  have u: "unat (INDEX2DATA i + of_nat k * BY2PG) = 0x60000000 + 0x400000 * unat i + 4096 * k"
    using unat_fd(2) [OF assms(1), of "4096 * k"] assms(2) by (simp add: mult.commute)
  have "(0x60000000 + 0x400000 * unat i + 4096 * k) div 4096 = 0x60000 + 1024 * unat i + k" by presburger
  then show "unat (VPN (INDEX2DATA i + of_nat k * BY2PG)) = 0x60000 + 1024 * unat i + k"
    using u by (simp add: VPN_def unat_drop_bit32)
  show "\<not> is_illegal_va (INDEX2DATA i + of_nat k * BY2PG)" "INDEX2DATA i + of_nat k * BY2PG < UTOP"
    using u assms unfolding is_illegal_va_def word_less_nat_alt word_le_nat_alt by simp_all
qed

section \<open>Lookups\<close>

lemma proc_vpt:
  assumes "proc D c pd s xs" "va < UTOP"
  shows "\<exists>w. vpt (VPN va) s = Some (w, s) \<and> (w AND PTE_V \<noteq> 0 \<longleftrightarrow> amap s pd va \<noteq> None) \<and> (\<forall>e. amap s pd va = Some e \<longrightarrow> w = e)"
    "\<exists>w. vpd (PDX va) s = Some (w, s) \<and> w AND PTE_V \<noteq> 0"
  using vpt_read [OF procD(4) [OF assms(1)] assms(2)] vpt_valid [OF procD(4) [OF assms(1)], of va]
    vpd_read [OF procD(4) [OF assms(1)] assms(2)] window_present [OF procD(4) [OF assms(1)] unat_PDX_less, of va]
  by (simp_all add: pde_ok_def)

definition fd_open :: "kstate \<Rightarrow> nat \<Rightarrow> nat \<Rightarrow> bool" where
  "fd_open s pd i \<longleftrightarrow> amap s pd (INDEX2FD (of_nat i)) \<noteq> None"

lemma fd_alloc_from_find:
  assumes "proc D c pd s xs" "\<forall>i \<in> set is. i < 32"
  shows "fd_alloc_from (map of_nat is) s =
    Some (case find (\<lambda>i. \<not> fd_open s pd i) is of None \<Rightarrow> Inl E_MAX_OPEN | Some i \<Rightarrow> Inr (INDEX2FD (of_nat i)), s)"
  using assms(2)
proof (induction "is")
  case (Cons i "is")
  have i: "unat (of_nat i :: u32) < 32" using Cons.prems by (simp add: unat_of_nat)
  obtain w d where "vpt (VPN (INDEX2FD (of_nat i))) s = Some (w, s)" "w AND PTE_V \<noteq> 0 \<longleftrightarrow> fd_open s pd i"
    "vpd (PDX (INDEX2FD (of_nat i))) s = Some (d, s)" "d AND PTE_V \<noteq> 0"
    using proc_vpt [OF assms(1) fd_page(3) [OF i]] unfolding fd_open_def by blast
  then show ?case using Cons by (cases "fd_open s pd i") (simp_all add: page_numbers Let_def)
qed simp

lemma find_first:
  assumes "i < n" "P i" "\<And>j. j < i \<Longrightarrow> \<not> P j"
  shows "find P [0..<n] = Some i"
  unfolding find_Some_iff using assms by (intro exI [of _ i]) simp

lemma find_least:
  "find P [0..<n] = (if \<exists>i<n. P i then Some (LEAST i. P i) else None)"
proof (cases "\<exists>i<n. P i")
  case True
  then obtain i where i: "i < n" "P i" by blast
  have "P (LEAST i. P i)" "(LEAST i. P i) < n" using LeastI [of P i] Least_le [of P i] i by auto
  from find_first [where P = P, OF this(2,1) not_less_Least [where P = P]] show ?thesis using True by simp
next
  case False
  then show ?thesis by (auto simp: find_None_iff)
qed

lemma fd_alloc_ok:
  assumes "proc D c pd s xs" "i < 31" "\<not> fd_open s pd i" "\<And>j. j < i \<Longrightarrow> fd_open s pd j"
  shows "fd_alloc s = Some (Inr (INDEX2FD (of_nat i)), s)"
proof -
  have "(LEAST i. \<not> fd_open s pd i) = i" using assms(3,4) by (intro Least_equality) (auto intro: leI)
  then show ?thesis
    using fd_alloc_from_find [OF assms(1), of "[0..<31]"] assms(2,3) by (auto simp: fd_alloc_def find_least)
qed

lemma fd_lookup_ok:
  assumes "proc D c pd s xs" "unat fdnum < 32"
  shows "fd_lookup fdnum s = Some (if amap s pd (INDEX2FD fdnum) = None then Inl E_INVAL else Inr (INDEX2FD fdnum), s)"
proof -
  have "sint fdnum = int (unat fdnum)" using assms(2) by (intro sint_small) simp
  then have "\<not> 32 \<le> sint fdnum" using assms(2) by linarith
  moreover obtain w where "vpt (VPN (INDEX2FD fdnum)) s = Some (w, s)" "w AND PTE_V \<noteq> 0 \<longleftrightarrow> amap s pd (INDEX2FD fdnum) \<noteq> None"
    using proc_vpt(1) [OF assms(1) fd_page(3) [OF assms(2)]] by blast
  ultimately show ?thesis by (simp add: fd_lookup_def page_numbers Let_def)
qed

lemma with_fd_ok:
  assumes "proc D c pd s xs" "unat fdnum < 32"
  shows "with_fd fdnum s k = (if amap s pd (INDEX2FD fdnum) = None then Some (- errno E_INVAL, s) else k (INDEX2FD fdnum) s)"
  using fd_lookup_ok [OF assms] by (simp add: with_fd_def)

text \<open>The fields of an open descriptor.\<close>

definition fd_word :: "kstate \<Rightarrow> nat \<Rightarrow> u32 \<Rightarrow> nat \<Rightarrow> u32" where
  "fd_word s pd i k = (case amap s pd (INDEX2FD i) of None \<Rightarrow> 0 | Some e \<Rightarrow> pw s (pte_page e) (of_nat k))"

lemma fd_read:
  assumes "proc D c pd s xs" "unat i < 32" "amap s pd (INDEX2FD i) \<noteq> None" "k < 1024"
  shows "uread32 (INDEX2FD i + 4 * of_nat k) s = Some (fd_word s pd i k, s)"
proof -
  note f = fd_field [OF assms(2,4)]
  obtain e where e: "amap s pd (INDEX2FD i) = Some e" using assms(3) by blast
  then have "amap s pd (INDEX2FD i + 4 * of_nat k) = Some e" using amap_VPN [OF f(1), of s pd] by simp
  from proc_read [OF assms(1) this f(2)] show ?thesis using e f(3) by (simp add: fd_word_def)
qed

lemma fd_reads:
  assumes "proc D c pd s xs" "unat i < 32" "amap s pd (INDEX2FD i) \<noteq> None"
  shows "uread32 (INDEX2FD i) s = Some (fd_word s pd i 0, s)" "uread32 (INDEX2FD i + 4) s = Some (fd_word s pd i 1, s)"
    "uread32 (INDEX2FD i + 8) s = Some (fd_word s pd i 2, s)"
  using fd_read [OF assms, of 0] fd_read [OF assms, of 1] fd_read [OF assms, of 2] by simp_all

lemma with_dev_ok:
  assumes "proc D c pd s xs" "unat i < 32"
  shows "with_dev devtab i s k =
    (if amap s pd (INDEX2FD i) = None then Some (- errno E_INVAL, s)
     else case dev_lookup devtab (fd_word s pd i 0) of Inl e \<Rightarrow> Some (- errno e, s) | Inr dev \<Rightarrow> k (INDEX2FD i) dev s)"
  using fd_reads(1) [OF assms] by (simp add: with_dev_def with_fd_ok [OF assms])

section \<open>Steps that touch only some pages\<close>

text \<open>
  \<open>R\<close> is a set of page numbers of the program: everything outside it keeps its mapping and its contents, for
  this program and for all others.
\<close>

definition touches :: "nat set \<Rightarrow> nat \<Rightarrow> u32 set \<Rightarrow> kstate \<Rightarrow> kstate \<Rightarrow> bool" where
  "touches D pd R s s' \<longleftrightarrow> os_kept s s' \<and> tables s' D = tables s D \<and>
     (\<forall>pd' \<in> D. \<forall>va. pd' \<noteq> pd \<or> VPN va \<notin> R \<longrightarrow> amap s' pd' va = amap s pd' va \<and>
        (\<forall>e. va < UTOP \<longrightarrow> amap s pd' va = Some e \<longrightarrow> pte_page e \<notin> tables s D \<longrightarrow>
           (\<forall>j. unat j < 1024 \<longrightarrow> pw s' (pte_page e) j = pw s (pte_page e) j)))"

lemma touchesD:
  assumes "touches D pd R s s'"
  shows "os_kept s s'" "tables s' D = tables s D"
    "pd' \<in> D \<Longrightarrow> pd' \<noteq> pd \<or> VPN va \<notin> R \<Longrightarrow> amap s' pd' va = amap s pd' va"
    "pd' \<in> D \<Longrightarrow> pd' \<noteq> pd \<or> VPN va \<notin> R \<Longrightarrow> va < UTOP \<Longrightarrow> amap s pd' va = Some e \<Longrightarrow> pte_page e \<notin> tables s D \<Longrightarrow>
       unat j < 1024 \<Longrightarrow> pw s' (pte_page e) j = pw s (pte_page e) j"
  using assms unfolding touches_def by blast+

lemma touches_refl [simp]: "touches D pd R s s"
  by (simp add: touches_def)

lemma touches_mono: "touches D pd R s s' \<Longrightarrow> R \<subseteq> R' \<Longrightarrow> touches D pd R' s s'"
  unfolding touches_def by blast

lemma touches_trans:
  assumes 1: "touches D pd R s s1" and 2: "touches D pd R s1 s'"
  shows "touches D pd R s s'"
  unfolding touches_def
proof (intro conjI ballI allI impI)
  show "os_kept s s'" using touchesD(1) [OF 1] touchesD(1) [OF 2] by (rule os_kept_trans)
  show "tables s' D = tables s D" using touchesD(2) [OF 1] touchesD(2) [OF 2] by simp
  fix pd' va assume d: "pd' \<in> D" "pd' \<noteq> pd \<or> VPN va \<notin> R"
  note a = touchesD(3) [OF 1 d] touchesD(3) [OF 2 d]
  then show "amap s' pd' va = amap s pd' va" by simp
  fix e j assume e: "va < UTOP" "amap s pd' va = Some e" "pte_page e \<notin> tables s D" "unat (j :: u32) < 1024"
  from touchesD(4) [OF 1 d e] touchesD(4) [OF 2 d e(1) _ _ e(4), of e] a e(2,3) touchesD(2) [OF 1]
  show "pw s' (pte_page e) j = pw s (pte_page e) j" by simp
qed

lemma remaps_touches:
  assumes p: "proc D c pd s xs" "proc D c pd s' ys" and r: "remaps D pd va new s s'"
  shows "touches D pd {VPN va} s s'"
  unfolding touches_def
proof (intro conjI ballI allI impI)
  fix pd' va' assume d: "pd' \<in> D" "pd' \<noteq> pd \<or> VPN va' \<notin> {VPN va}"
  then show a: "amap s' pd' va' = amap s pd' va'" using remapsD(4) [OF r d(1), of va'] by auto
  fix e j assume e: "va' < UTOP" "amap s pd' va' = Some e" "pte_page e \<notin> tables s D" "unat (j :: u32) < 1024"
  note m = mapped_ref(1,2) [OF procD(1) [OF p(1)] d(1) e(1,2)] mapped_ref(1) [OF procD(1) [OF p(2)] d(1) e(1), of e]
  show "pw s' (pte_page e) j = pw s (pte_page e) j"
    using data_keptD(2) [OF remapsD(2) [OF r] m(2) e(3) _ _ e(4)] m a e(2) by (auto simp: unat_gt_0)
qed (use remapsD(1,3) [OF r] in auto)

text \<open>The pages of descriptor \<open>i\<close>.\<close>

definition fd_region :: "u32 \<Rightarrow> u32 set" where
  "fd_region i = insert (VPN (INDEX2FD i)) {VPN (INDEX2DATA i + of_nat k * BY2PG) | k. k < 1024}"

lemma region_other:
  assumes "unat i < 32" "unat j < 32" "i \<noteq> j"
  shows "VPN (INDEX2FD i) \<notin> fd_region j" "k < 1024 \<Longrightarrow> VPN (INDEX2DATA i + of_nat k * BY2PG) \<notin> fd_region j"
proof -
  have n: "unat i \<noteq> unat j" using assms(3) by (simp add: word_unat_eq_iff)
  show "VPN (INDEX2FD i) \<notin> fd_region j"
  proof
    assume "VPN (INDEX2FD i) \<in> fd_region j"
    then consider "VPN (INDEX2FD i) = VPN (INDEX2FD j)" | k where "k < 1024" "VPN (INDEX2FD i) = VPN (INDEX2DATA j + of_nat k * BY2PG)"
      by (auto simp: fd_region_def)
    then show False
    proof cases
      case 1 then show False using arg_cong [OF 1, of unat] fd_page(1) [OF assms(1)] fd_page(1) [OF assms(2)] n by simp
    next
      case 2 then show False using arg_cong [OF 2(2), of unat] fd_page(1) [OF assms(1)] data_page(1) [OF assms(2) 2(1)] assms by simp
    qed
  qed
  assume k: "k < 1024"
  show "VPN (INDEX2DATA i + of_nat k * BY2PG) \<notin> fd_region j"
  proof
    assume "VPN (INDEX2DATA i + of_nat k * BY2PG) \<in> fd_region j"
    then consider "VPN (INDEX2DATA i + of_nat k * BY2PG) = VPN (INDEX2FD j)"
      | l where "l < 1024" "VPN (INDEX2DATA i + of_nat k * BY2PG) = VPN (INDEX2DATA j + of_nat l * BY2PG)"
      by (auto simp: fd_region_def)
    then show False
    proof cases
      case 1 then show False using arg_cong [OF 1, of unat] data_page(1) [OF assms(1) k] fd_page(1) [OF assms(2)] assms by simp
    next
      case 2
      have "1024 * unat i + k = 1024 * unat j + l"
        using arg_cong [OF 2(2), of unat] data_page(1) [OF assms(1) k] data_page(1) [OF assms(2) 2(1)] by simp
      moreover have "unat i = (1024 * unat i + k) div 1024" "unat j = (1024 * unat j + l) div 1024" using k 2(1) by auto
      ultimately show False using n by metis
    qed
  qed
qed

section \<open>Closing\<close>

text \<open>Mappings and references only go.\<close>

definition drops :: "nat \<Rightarrow> kstate \<Rightarrow> kstate \<Rightarrow> bool" where
  "drops pd s s' \<longleftrightarrow> (\<forall>q. unat (pp_ref s' q) \<le> unat (pp_ref s q)) \<and> (\<forall>va e. amap s' pd va = Some e \<longrightarrow> amap s pd va = Some e)"

lemma drops_refl [simp]: "drops pd s s" and drops_trans: "drops pd s s1 \<Longrightarrow> drops pd s1 s' \<Longrightarrow> drops pd s s'"
  unfolding drops_def using le_trans by blast+

text \<open>One call of \<open>ecall_mem_unmap\<close>.\<close>

lemma unmap_step:
  assumes p: "proc D c pd s xs" and va: "\<not> is_illegal_va va" "VPN va \<in> R"
  shows "\<exists>s' ys. e_mem_unmap 0 va s = Some (Returned 0, s') \<and> proc D c pd s' ys \<and> length xs \<le> length ys \<and>
    touches D pd R s s' \<and> drops pd s s' \<and> (\<forall>va'. VPN va' = VPN va \<longrightarrow> amap s' pd va' = None)"
proof -
  from proc_unmap [OF p va(1)] obtain s' ys where s': "e_mem_unmap 0 va s = Some (Returned 0, s')" "proc D c pd s' ys"
    "remaps D pd va None s s'" "length xs \<le> length ys"
    "pp_ref s' = (case amap s pd va of None \<Rightarrow> pp_ref s | Some e \<Rightarrow> (pp_ref s)(pte_page e := pp_ref s (pte_page e) - 1))" by blast
  have am: "amap s' pd va' = (if VPN va' = VPN va then None else amap s pd va')" for va'
    using remapsD(4) [OF s'(3) procD(5) [OF p]] by simp
  have "unat (pp_ref s' q) \<le> unat (pp_ref s q)" for q
  proof (cases "amap s pd va")
    case (Some e)
    have "unat (pp_ref s (pte_page e) - 1) \<le> unat (pp_ref s (pte_page e))"
      using mapped_ref(1) [OF procD(1,5) [OF p] legal_va [OF va(1)] Some] unat_dec16 by simp
    then show ?thesis using s'(5) Some by simp
  qed (use s'(5) in simp)
  then have "drops pd s s'" using am by (auto simp: drops_def split: if_splits)
  moreover have "touches D pd R s s'" using remaps_touches [OF p s'(2,3)] va(2) by (auto elim: touches_mono)
  ultimately show ?thesis using s'(1,2,4) am by auto
qed

text \<open>
  What a device promises about closing a descriptor: it may unmap pages of the descriptor and does nothing else
  to the memory of any program.
\<close>

locale device =
  fixes dclose :: "u32 \<Rightarrow> kstate \<Rightarrow> (u32 \<times> kstate) option"
  assumes dclose: "\<And>D c pd s xs i. proc D c pd s xs \<Longrightarrow> unat i < 32 \<Longrightarrow> amap s pd (INDEX2FD i) \<noteq> None \<Longrightarrow>
    \<exists>r s' ys. dclose (INDEX2FD i) s = Some (r, s') \<and> proc D c pd s' ys \<and> length xs \<le> length ys \<and>
      touches D pd (fd_region i) s s' \<and> drops pd s s'"
begin

lemma close_ok:
  assumes p: "proc D c pd s xs" "unat i < 32" "amap s pd (INDEX2FD i) \<noteq> None"
    and d: "dev_lookup devtab (fd_word s pd i 0) = Inr d" "dev_close d = dclose"
  shows "\<exists>r s' ys. close mc devtab i s = Some (r, s') \<and> proc D c pd s' ys \<and> length xs \<le> length ys \<and>
    touches D pd (fd_region i) s s' \<and> drops pd s s' \<and> amap s' pd (INDEX2FD i) = None"
proof -
  from dclose [OF p] obtain r s1 ys where s1: "dclose (INDEX2FD i) s = Some (r, s1)" "proc D c pd s1 ys" "length xs \<le> length ys"
    "touches D pd (fd_region i) s s1" "drops pd s s1" by blast
  have "VPN (INDEX2FD i) \<in> fd_region i" by (simp add: fd_region_def)
  from unmap_step [OF s1(2) fd_page(2) [OF p(2)] this] obtain s' zs where
    s': "e_mem_unmap 0 (INDEX2FD i) s1 = Some (Returned 0, s')" "proc D c pd s' zs" "length ys \<le> length zs"
    "touches D pd (fd_region i) s1 s'" "drops pd s1 s'" "\<forall>va'. VPN va' = VPN (INDEX2FD i) \<longrightarrow> amap s' pd va' = None" by blast
  have "close mc devtab i s = Some (r, s')"
    using p(3) d s1(1) s'(1) by (auto simp: close_def with_dev_ok [OF p(1,2)] fd_close_def)
  then show ?thesis
    using s'(2,6) touches_trans [OF s1(4) s'(4)] drops_trans [OF s1(5) s'(5)] le_trans [OF s1(3) s'(3)] by blast
qed

end

interpretation cons: device cons_close
proof
  fix D c pd s xs i
  assume "proc D c pd s xs"
  then show "\<exists>r s' ys. cons_close (INDEX2FD i) s = Some (r, s') \<and> proc D c pd s' ys \<and> length xs \<le> length ys \<and>
      touches D pd (fd_region i) s s' \<and> drops pd s s'"
    by (auto simp: cons_close_def intro!: exI [of _ xs])
qed

interpretation pipe: device "pipe_close mc" for mc
proof
  fix D c pd s xs and i :: u32
  assume p: "proc D c pd s xs" and i: "unat i < 32"
  have r: "VPN (INDEX2FD i) \<in> fd_region i" by (simp add: fd_region_def)
  have d: "VPN (INDEX2DATA i) \<in> fd_region i" by (auto simp: fd_region_def intro!: exI [of _ 0])
  have l: "\<not> is_illegal_va (INDEX2DATA i)" using data_page(2) [OF i, of 0] by simp
  from unmap_step [OF p fd_page(2) [OF i] r] obtain s1 ys where
    s1: "e_mem_unmap 0 (INDEX2FD i) s = Some (Returned 0, s1)" "proc D c pd s1 ys" "length xs \<le> length ys"
    "touches D pd (fd_region i) s s1" "drops pd s s1" by blast
  from unmap_step [OF s1(2) l d] obtain s' zs where
    s': "e_mem_unmap 0 (INDEX2DATA i) s1 = Some (Returned 0, s')" "proc D c pd s' zs" "length ys \<le> length zs"
    "touches D pd (fd_region i) s1 s'" "drops pd s1 s'" by blast
  have "pipe_close mc (INDEX2FD i) s = Some (0, s')" using s1(1) s'(1) fd_page(5) [OF i] by (simp add: pipe_close_def)
  then show "\<exists>r s' ys. pipe_close mc (INDEX2FD i) s = Some (r, s') \<and> proc D c pd s' ys \<and> length xs \<le> length ys \<and>
      touches D pd (fd_region i) s s' \<and> drops pd s s'"
    using s'(2) touches_trans [OF s1(4) s'(4)] drops_trans [OF s1(5) s'(5)] le_trans [OF s1(3) s'(3)] by blast
qed

section \<open>Duplicating\<close>

text \<open>The entry \<open>dup\<close> makes for the page of the entry \<open>e\<close>.\<close>

definition share :: "u32 \<Rightarrow> u32" where
  "share e = mk_pte (pte_page e) (e AND fd_mask)"

lemma perm_ok_share: "perm_ok (e AND fd_mask)"
  unfolding and.commute [of e] by (intro perm_ok_and perm_ok_or perm_ok_flags)

lemma pte_page_share: "pte_page e < NPAGES \<Longrightarrow> pte_page (share e) = pte_page e"
  unfolding share_def by (rule pte_page_mk_pte [OF _ perm_ok_share])

text \<open>Every page of the program may get \<open>n\<close> more references.\<close>

definition refs_below :: "kstate \<Rightarrow> nat \<Rightarrow> nat \<Rightarrow> bool" where
  "refs_below s pd n \<longleftrightarrow> (\<forall>va e. va < UTOP \<longrightarrow> amap s pd va = Some e \<longrightarrow> unat (pp_ref s (pte_page e)) + n < 0xffff)"

lemma map_step:
  assumes p: "proc D c pd s xs" and va: "\<not> is_illegal_va src" "\<not> is_illegal_va dst" "VPN dst \<in> R"
    and m: "amap s pd src = Some e" and refs: "refs_below s pd (Suc n)"
  shows "\<exists>s' ys. e_mem_map 0 src 0 dst (e AND fd_mask) s = Some (Returned 0, s') \<and> proc D c pd s' ys \<and> length xs \<le> length ys \<and>
    touches D pd R s s' \<and> refs_below s' pd n \<and> (\<forall>va'. VPN va' = VPN dst \<longrightarrow> amap s' pd va' = Some (share e))"
proof -
  have r: "pp_ref s (pte_page e) \<noteq> 0xffff" using refs legal_va [OF va(1)] m unfolding refs_below_def by fastforce
  from proc_map [OF p va(1,2) perm_ok_share m r] obtain s' ys where
    s': "e_mem_map 0 src 0 dst (e AND fd_mask) s = Some (Returned 0, s')" "proc D c pd s' ys"
    "remaps D pd dst (Some (share e)) s s'" "length xs \<le> length ys"
    "\<forall>q. pp_ref s q \<noteq> 0 \<longrightarrow> pp_ref s' q = ref_after (map_option pte_page (amap s pd dst)) (pte_page e) s q"
    unfolding share_def by blast
  note P = procD(1,5) [OF p] and am = remapsD(4) [OF s'(3) procD(5) [OF p]]
  have q: "unat (pp_ref s' (pte_page e')) + n < 0xffff" if "va' < UTOP" "amap s pd va' = Some e'" for va' e'
    using ref_after_le(1) [OF P legal_va [OF va(2)] r, of "pte_page e'"] s'(5) mapped_ref(1) [OF P that] refs that
    unfolding refs_below_def by (fastforce simp: unat_gt_0 split: if_splits)
  have "unat (pp_ref s' (pte_page e')) + n < 0xffff" if a: "va' < UTOP" "amap s' pd va' = Some e'" for va' e'
  proof (cases "VPN va' = VPN dst")
    case True
    then show ?thesis
      using q [OF legal_va [OF va(1)] m] a am pte_page_share [OF mapped_ref(2) [OF P legal_va [OF va(1)] m]] by simp
  next
    case False
    then show ?thesis using q [OF a(1)] a(2) am by simp
  qed
  then have "refs_below s' pd n" by (simp add: refs_below_def)
  moreover have "touches D pd R s s'" using remaps_touches [OF p s'(2,3)] va(3) by (auto elim: touches_mono)
  ultimately show ?thesis using s'(1,2,4) am by auto
qed

lemma dup_pages_ok:
  assumes "proc D c pd s xs" "refs_below s pd (length is + n)" "distinct (map (\<lambda>i. VPN (nva + i)) is)"
    and "\<And>i j. i \<in> set is \<Longrightarrow> j \<in> set is \<Longrightarrow> VPN (ova + i) \<noteq> VPN (nva + j)"
    and "\<And>i. i \<in> set is \<Longrightarrow> \<not> is_illegal_va (ova + i) \<and> \<not> is_illegal_va (nva + i)"
  shows "\<exists>s' ys. dup_pages mc ova nva is s = Some (0, s') \<and> proc D c pd s' ys \<and> length xs \<le> length ys \<and>
    touches D pd ((\<lambda>i. VPN (nva + i)) ` set is) s s' \<and> refs_below s' pd n \<and>
    (\<forall>i \<in> set is. \<forall>e. amap s pd (ova + i) = Some e \<longrightarrow> amap s' pd (nva + i) = Some (share e))"
  using assms
proof (induction "is" arbitrary: s xs)
  case Nil
  then show ?case by auto
next
  case (Cons i "is")
  let ?R = "(\<lambda>i. VPN (nva + i)) ` set (i # is)"
  note P = procD [OF Cons.prems(1)]
  have ill: "\<not> is_illegal_va (ova + i)" "\<not> is_illegal_va (nva + i)" using Cons.prems(5) by auto
  obtain w where w: "vpt (VPN (ova + i)) s = Some (w, s)" "w AND PTE_V \<noteq> 0 \<longleftrightarrow> amap s pd (ova + i) \<noteq> None"
    "\<And>e. amap s pd (ova + i) = Some e \<Longrightarrow> w = e" using proc_vpt(1) [OF Cons.prems(1) legal_va [OF ill(1)]] by blast
  have "\<exists>s1 ys. dup_pages mc ova nva (i # is) s = dup_pages mc ova nva is s1 \<and> proc D c pd s1 ys \<and> length xs \<le> length ys \<and>
    touches D pd {VPN (nva + i)} s s1 \<and> refs_below s1 pd (length is + n) \<and>
    (\<forall>e. amap s pd (ova + i) = Some e \<longrightarrow> amap s1 pd (nva + i) = Some (share e))"
  proof (cases "amap s pd (ova + i)")
    case None
    have "refs_below s pd (length is + n)" using Cons.prems(2) unfolding refs_below_def by fastforce
    moreover have "dup_pages mc ova nva (i # is) s = dup_pages mc ova nva is s" using w None by simp
    ultimately show ?thesis using Cons.prems(1) None by (intro exI [of _ s] exI [of _ xs]) simp
  next
    case (Some e)
    have "refs_below s pd (Suc (length is + n))" using Cons.prems(2) by simp
    from map_step [OF Cons.prems(1) ill singletonI Some this] obtain s1 ys where
      s1: "e_mem_map 0 (ova + i) 0 (nva + i) (e AND fd_mask) s = Some (Returned 0, s1)" "proc D c pd s1 ys" "length xs \<le> length ys"
      "touches D pd {VPN (nva + i)} s s1" "refs_below s1 pd (length is + n)"
      "\<forall>va'. VPN va' = VPN (nva + i) \<longrightarrow> amap s1 pd va' = Some (share e)" by blast
    have "dup_pages mc ova nva (i # is) s = dup_pages mc ova nva is s1" using w Some s1(1) by simp
    then show ?thesis using s1 Some by auto
  qed
  then obtain s1 ys where s1: "dup_pages mc ova nva (i # is) s = dup_pages mc ova nva is s1" "proc D c pd s1 ys" "length xs \<le> length ys"
    "touches D pd {VPN (nva + i)} s s1" "refs_below s1 pd (length is + n)"
    "\<And>e. amap s pd (ova + i) = Some e \<Longrightarrow> amap s1 pd (nva + i) = Some (share e)" by blast
  have "distinct (map (\<lambda>i. VPN (nva + i)) is)" using Cons.prems(3) by simp
  from Cons.IH [OF s1(2,5) this] Cons.prems(4,5) obtain s' zs where
    s': "dup_pages mc ova nva is s1 = Some (0, s')" "proc D c pd s' zs" "length ys \<le> length zs"
    "touches D pd ((\<lambda>i. VPN (nva + i)) ` set is) s1 s'" "refs_below s' pd n"
    "\<forall>i \<in> set is. \<forall>e. amap s1 pd (ova + i) = Some e \<longrightarrow> amap s' pd (nva + i) = Some (share e)" by auto
  have "amap s' pd (nva + i) = amap s1 pd (nva + i)"
    using touchesD(3) [OF s'(4) P(5), of "nva + i"] Cons.prems(3) by auto
  moreover have "amap s1 pd (ova + j) = amap s pd (ova + j)" if "j \<in> set is" for j
    using touchesD(3) [OF s1(4) P(5), of "ova + j"] Cons.prems(4) [of j i] that by auto
  ultimately have "\<forall>j \<in> set (i # is). \<forall>e. amap s pd (ova + j) = Some e \<longrightarrow> amap s' pd (nva + j) = Some (share e)"
    using s1(6) s'(6) by auto
  moreover have "touches D pd ?R s s1" "touches D pd ?R s1 s'" using touches_mono [OF s1(4), of ?R] touches_mono [OF s'(4), of ?R] by auto
  from touches_trans [OF this] have "touches D pd ?R s s'" .
  ultimately show ?case using s1(1,3) s'(1,2,3,5) by (intro exI [of _ s'] exI [of _ zs]) auto
qed

lemma page_offset_range:
  assumes "unat i < 32" "unat j < 32" "i \<noteq> j"
  shows "distinct (map (\<lambda>k. VPN (INDEX2DATA j + k)) page_offsets)"
    "a \<in> set page_offsets \<Longrightarrow> b \<in> set page_offsets \<Longrightarrow> VPN (INDEX2DATA i + a) \<noteq> VPN (INDEX2DATA j + b)"
    "a \<in> set page_offsets \<Longrightarrow> \<not> is_illegal_va (INDEX2DATA i + a)"
    "a \<in> set page_offsets \<Longrightarrow> VPN (INDEX2DATA i + a) \<in> fd_region i"
proof -
  have "k = l" if "k < 1024" "l < 1024" "VPN (INDEX2DATA j + of_nat k * BY2PG) = VPN (INDEX2DATA j + of_nat l * BY2PG)" for k l
    using arg_cong [OF that(3), of unat] data_page(1) [OF assms(2) that(1)] data_page(1) [OF assms(2) that(2)] by simp
  then show "distinct (map (\<lambda>k. VPN (INDEX2DATA j + k)) page_offsets)"
    by (auto simp: distinct_map comp_def intro!: inj_onI)
  show "a \<in> set page_offsets \<Longrightarrow> \<not> is_illegal_va (INDEX2DATA i + a)"
    "a \<in> set page_offsets \<Longrightarrow> VPN (INDEX2DATA i + a) \<in> fd_region i"
    using data_page(2) [OF assms(1)] by (auto simp: fd_region_def)
  show "a \<in> set page_offsets \<Longrightarrow> b \<in> set page_offsets \<Longrightarrow> VPN (INDEX2DATA i + a) \<noteq> VPN (INDEX2DATA j + b)"
    using region_other(2) [OF assms] unfolding fd_region_def by auto
qed

text \<open>Closing whatever the new number was: nothing, or an open descriptor of a device.\<close>

lemma dup_close:
  assumes p: "proc D c pd s xs" "unat i < 32" and refs: "refs_below s pd n"
    and d: "amap s pd (INDEX2FD i) = None \<or> (\<exists>d. dev_lookup devtab (fd_word s pd i 0) = Inr d \<and> device (dev_close d))"
  shows "\<exists>r s' ys. close mc devtab i s = Some (r, s') \<and> proc D c pd s' ys \<and> length xs \<le> length ys \<and>
    touches D pd (fd_region i) s s' \<and> refs_below s' pd n"
proof (cases "amap s pd (INDEX2FD i)")
  case None
  then have "close mc devtab i s = Some (- errno E_INVAL, s)" by (simp add: close_def with_dev_ok [OF p])
  then show ?thesis using p(1) refs by (intro exI [of _ "- errno E_INVAL"] exI [of _ s] exI [of _ xs]) simp
next
  case (Some e)
  then obtain d where "dev_lookup devtab (fd_word s pd i 0) = Inr d" "device (dev_close d)" using d by auto
  from device.close_ok [OF this(2) p _ this(1) refl, of mc] Some obtain r s' ys where
    s': "close mc devtab i s = Some (r, s')" "proc D c pd s' ys" "length xs \<le> length ys" "touches D pd (fd_region i) s s'"
    "drops pd s s'" "amap s' pd (INDEX2FD i) = None" by auto
  have "refs_below s' pd n"
    using refs s'(5) unfolding refs_below_def drops_def by (meson add_le_mono1 le_less_trans)
  then show ?thesis using s' by blast
qed

lemma dup_ok:
  assumes p: "proc D c pd s xs" and i: "unat old < 32" "unat new < 32" "old \<noteq> new" and e: "amap s pd (INDEX2FD old) = Some e"
    and refs: "refs_below s pd 1025"
    and d: "amap s pd (INDEX2FD new) = None \<or> (\<exists>d. dev_lookup devtab (fd_word s pd new 0) = Inr d \<and> device (dev_close d))"
  shows "\<exists>s' ys. dup mc devtab old new s = Some (new, s') \<and> proc D c pd s' ys \<and> length xs \<le> length ys \<and>
    touches D pd (fd_region new) s s' \<and> amap s' pd (INDEX2FD new) = Some (share e) \<and>
    (\<forall>k < 1024. \<forall>e. amap s pd (INDEX2DATA old + of_nat k * BY2PG) = Some e \<longrightarrow>
       amap s' pd (INDEX2DATA new + of_nat k * BY2PG) = Some (share e))"
proof -
  let ?R = "fd_region new" and ?fd = "INDEX2FD old" and ?new = "INDEX2FD new"
  note po = page_offset_range [OF i] and po' = page_offset_range [OF i(2,1) i(3) [symmetric]] and ro = region_other [OF i]
  note data = fd_page(5) [OF i(1)] fd_page(5) [OF i(2)]
  from dup_close [OF p i(2) refs d, of mc] obtain r s1 ys where
    s1: "close mc devtab new s = Some (r, s1)" "proc D c pd s1 ys" "length xs \<le> length ys" "touches D pd ?R s s1" "refs_below s1 pd 1025"
    by blast
  note P = procD [OF s1(2)]
  have o1: "amap s1 pd ?fd = Some e" using touchesD(3) [OF s1(4) P(5)] ro(1) e by simp
  have d1: "amap s1 pd (INDEX2DATA old + of_nat k * BY2PG) = amap s pd (INDEX2DATA old + of_nat k * BY2PG)" if "k < 1024" for k
    using touchesD(3) [OF s1(4) P(5)] ro(2) [OF that] by simp
  have refs1: "refs_below s1 pd (length page_offsets + 1)" using s1(5) by simp
  from dup_pages_ok [OF s1(2) refs1 po(1) po(2), of mc] po(3) po'(3) obtain s2 zs where
    s2: "dup_pages mc (INDEX2DATA old) (INDEX2DATA new) page_offsets s1 = Some (0, s2)" "proc D c pd s2 zs" "length ys \<le> length zs"
    "touches D pd ((\<lambda>i. VPN (INDEX2DATA new + i)) ` set page_offsets) s1 s2" "refs_below s2 pd 1"
    "\<forall>i \<in> set page_offsets. \<forall>e. amap s1 pd (INDEX2DATA old + i) = Some e \<longrightarrow> amap s2 pd (INDEX2DATA new + i) = Some (share e)"
    by blast
  have "(\<lambda>i. VPN (INDEX2DATA new + i)) ` set page_offsets \<subseteq> ?R" using po'(4) by blast
  then have t2: "touches D pd ?R s1 s2" by (rule touches_mono [OF s2(4)])
  have o2: "amap s2 pd ?fd = Some e" using touchesD(3) [OF t2 P(5)] ro(1) o1 by simp
  obtain w where w: "vpt (VPN ?fd) s2 = Some (w, s2)" "w = e" using proc_vpt(1) [OF s2(2) fd_page(3) [OF i(1)]] o2 by auto
  obtain v where v: "vpd (PDX (INDEX2DATA old)) s1 = Some (v, s1)" "v AND PTE_V \<noteq> 0"
    using proc_vpt(2) [OF s1(2) data_page(3) [OF i(1), of 0]] by auto
  then have "v \<noteq> 0" by auto
  note v = v(1) this
  have "refs_below s2 pd (Suc 0)" using s2(5) by simp
  from map_step [OF s2(2) fd_page(2) [OF i(1)] fd_page(2) [OF i(2)] singletonI o2 this] obtain s' us where
    s': "e_mem_map 0 ?fd 0 ?new (e AND fd_mask) s2 = Some (Returned 0, s')" "proc D c pd s' us" "length zs \<le> length us"
    "touches D pd {VPN ?new} s2 s'" "\<forall>va'. VPN va' = VPN ?new \<longrightarrow> amap s' pd va' = Some (share e)" by blast
  have "touches D pd ?R s2 s'" using s'(4) by (rule touches_mono) (simp add: fd_region_def)
  then have "touches D pd ?R s s'" using touches_trans [OF touches_trans [OF s1(4) t2]] by blast
  moreover have "dup mc devtab old new s = Some (new, s')"
    using e s1(1) v w s2(1) s'(1) by (simp add: dup_def with_fd_ok [OF p i(1)] data)
  moreover have "amap s' pd (INDEX2DATA new + of_nat k * BY2PG) = Some (share x)"
    if "k < 1024" "amap s pd (INDEX2DATA old + of_nat k * BY2PG) = Some x" for k x
  proof -
    have "unat (VPN (INDEX2DATA new + of_nat k * BY2PG)) \<noteq> unat (VPN ?new)"
      using data_page(1) [OF i(2) that(1)] fd_page(1) [OF i(2)] i by simp
    then have "VPN (INDEX2DATA new + of_nat k * BY2PG) \<noteq> VPN ?new" by metis
    moreover have "amap s2 pd (INDEX2DATA new + of_nat k * BY2PG) = Some (share x)" using s2(6) that d1 [OF that(1)] by auto
    ultimately show ?thesis using touchesD(3) [OF s'(4) P(5), of "INDEX2DATA new + of_nat k * BY2PG"] by simp
  qed
  ultimately show ?thesis using s'(2,5) s1(3) s2(3) s'(3) by (intro exI [of _ s'] exI [of _ us]) auto
qed

section \<open>The position\<close>

lemma fd_store:
  assumes p: "proc D c pd s xs" and i: "unat i < 32" "k < 1024" and e: "amap s pd (INDEX2FD i) = Some e" "e AND PTE_W \<noteq> 0"
  shows "\<exists>s'. uwrite32 (INDEX2FD i + 4 * of_nat k) v s = Some s' \<and> proc D c pd s' xs \<and> stores D (pte_page e) (of_nat k) v s s'"
  using proc_write [OF p fd_field(4,2) [OF i] _ e(2), of v] fd_field(1,3) [OF i] amap_VPN [OF fd_field(1) [OF i], of s pd] e(1) by simp

lemma fd_word_stores:
  assumes p: "proc D c pd s xs" and i: "unat i < 32" "k < 1024" "l < 1024" and e: "amap s pd (INDEX2FD i) = Some e"
    and st: "stores D q (of_nat l) v s s'"
  shows "fd_word s' pd i k = (if pte_page e = q \<and> k = l then v else fd_word s pd i k)"
proof -
  note P = procD(1,5) [OF p]
  have "amap s' pd (INDEX2FD i) = Some e" using storesD(4) [OF st P(2)] e by simp
  moreover have "(of_nat k :: u32) = of_nat l \<longleftrightarrow> k = l" "unat (of_nat k :: u32) < 1024"
    using i by (auto simp: word_unat_eq_iff unat_of_nat)
  ultimately show ?thesis
    using storesD(5) [OF st mapped_ref(2) [OF P fd_page(3) [OF i(1)] e], of "of_nat k"] e by (simp add: fd_word_def)
qed

lemma seek_ok:
  assumes p: "proc D c pd s xs" and i: "unat i < 32" and e: "amap s pd (INDEX2FD i) = Some e" "e AND PTE_W \<noteq> 0"
  shows "\<exists>s'. seek i off s = Some (0, s') \<and> proc D c pd s' xs \<and> stores D (pte_page e) 1 off s s'"
proof -
  from fd_store [OF p i _ e, of 1 off] obtain s' where
    "uwrite32 (INDEX2FD i + 4) off s = Some s'" "proc D c pd s' xs" "stores D (pte_page e) 1 off s s'" by auto
  then show ?thesis using e(1) by (auto simp: seek_def with_fd_ok [OF p i])
qed

lemma read_ok:
  assumes p: "proc D c pd s xs" and i: "unat i < 32" "amap s pd (INDEX2FD i) \<noteq> None"
    and d: "dev_lookup devtab (fd_word s pd i 0) = Inr d"
  shows "read_fd devtab i buf n s = (if fd_word s pd i 2 AND 3 = 1 then Some (- errno E_INVAL, s)
    else do { (r, s) \<leftarrow> dev_read d (INDEX2FD i) buf n (fd_word s pd i 1) s; advance (INDEX2FD i) r s })"
  using d i(2) fd_reads [OF p i] by (auto simp: read_fd_def with_dev_ok [OF p i(1)])

lemma write_ok:
  assumes p: "proc D c pd s xs" and i: "unat i < 32" "amap s pd (INDEX2FD i) \<noteq> None"
    and d: "dev_lookup devtab (fd_word s pd i 0) = Inr d"
  shows "write_fd devtab i buf n s = (if fd_word s pd i 2 AND 3 = 0 then Some (- errno E_INVAL, s)
    else do { (r, s) \<leftarrow> dev_write d (INDEX2FD i) buf n (fd_word s pd i 1) s; advance (INDEX2FD i) r s })"
  using d i(2) fd_reads [OF p i] by (auto simp: write_fd_def with_dev_ok [OF p i(1)])

lemma bit_mk_pte: "bit (mk_pte (pte_page e) a) n \<longleftrightarrow> 10 \<le> n \<and> n < 30 \<and> bit e n \<or> bit a n \<or> n = 0"
  unfolding mk_pte_def bit_or_iff bit_page2ptx bit_1_iff by auto

lemma share_W: "e AND PTE_W \<noteq> 0 \<Longrightarrow> share e AND PTE_W \<noteq> 0"
proof -
  assume "e AND PTE_W \<noteq> 0"
  moreover have "bit fd_mask 2" by simp
  ultimately show ?thesis unfolding flag_test share_def bit_mk_pte bit_and_iff by blast
qed

end
