(* ===== verification/FdPipe.thy ===== *)
theory FdPipe
  imports FdProps
begin

text \<open>
  New descriptors: \<open>opencons\<close> and \<open>pipe\<close> take the least free numbers and fresh pages, and closing one end of a pipe is
  seen by the other.
\<close>

section \<open>New pages\<close>

definition only_at :: "nat set \<Rightarrow> nat \<Rightarrow> u32 set \<Rightarrow> nat \<Rightarrow> kstate \<Rightarrow> bool" where
  "only_at D pd R q s \<longleftrightarrow> (\<forall>pd' \<in> D. \<forall>va e. va < UTOP \<longrightarrow> amap s pd' va = Some e \<longrightarrow> pte_page e = q \<longrightarrow> pd' = pd \<and> VPN va \<in> R)"

lemma stores_touches:
  assumes inv: "as_inv s D xs" and st: "stores D q j v s s'" and o: "only_at D pd R q s"
  shows "touches D pd R s s'"
  unfolding touches_def
proof (intro conjI ballI allI impI)
  fix pd' va assume d: "pd' \<in> D" "pd' \<noteq> pd \<or> VPN va \<notin> R"
  then show "amap s' pd' va = amap s pd' va" using storesD(4) [OF st d(1)] by simp
  fix e i assume e: "va < UTOP" "amap s pd' va = Some e" "unat (i :: u32) < 1024"
  have "pte_page e \<noteq> q" using o d e unfolding only_at_def by blast
  then show "pw s' (pte_page e) i = pw s (pte_page e) i"
    using storesD(5) [OF st mapped_ref(2) [OF inv d(1) e(1,2)] e(3)] by simp
qed (use storesD(1,3) [OF st] in auto)

lemma alloc_step:
  assumes p: "proc D c pd s (f # xs)" and va: "\<not> is_illegal_va va" and perm: "perm_ok perm" and un: "amap s pd va = None"
  shows "\<exists>s' ys. e_mem_alloc 0 va perm s = Some (Returned 0, s') \<and> proc D c pd s' ys \<and> length xs \<le> length ys \<and>
    touches D pd {VPN va} s s' \<and> amap s' pd va = Some (mk_pte f perm) \<and> pte_page (mk_pte f perm) = f \<and>
    f < NPAGES \<and> pp_ref s f = 0 \<and> (\<forall>j. unat j < 1024 \<longrightarrow> pw s' f j = 0) \<and> only_at D pd {VPN va} f s' \<and>
    pp_ref s' f = 1 \<and> (\<forall>q. pp_ref s q \<noteq> 0 \<longrightarrow> pp_ref s' q = pp_ref s q)"
proof -
  from proc_alloc [OF p va perm] obtain s' ys where
    s': "e_mem_alloc 0 va perm s = Some (Returned 0, s')" "proc D c pd s' ys" "remaps D pd va (Some (mk_pte f perm)) s s'"
    "length xs \<le> length ys" "f < NPAGES" "pp_ref s f = 0" "\<forall>j. unat j < 1024 \<longrightarrow> pw s' f j = 0" "pp_ref s' f = 1"
    "\<forall>q. pp_ref s q \<noteq> 0 \<longrightarrow> pp_ref s' q = ref_after (map_option pte_page (amap s pd va)) f s q" by blast
  have "only_at D pd {VPN va} f s'"
    unfolding only_at_def
  proof (intro ballI allI impI)
    fix pd' va' e assume a: "pd' \<in> D" "va' < UTOP" "amap s' pd' va' = Some e" "pte_page e = f"
    show "pd' = pd \<and> VPN va' \<in> {VPN va}"
    proof (rule ccontr)
      assume "\<not> ?thesis"
      then have "amap s pd' va' = Some e" using remapsD(4) [OF s'(3) a(1), of va'] a(3) by auto
      from mapped_ref(1) [OF procD(1) [OF p] a(1,2) this] show False using a(4) s'(6) by simp
    qed
  qed
  moreover have "\<forall>q. pp_ref s q \<noteq> 0 \<longrightarrow> pp_ref s' q = pp_ref s q" using s'(6,9) un by (auto simp: ref_after_def)
  ultimately show ?thesis
    using s'(1,2,4-8) remaps_touches [OF p s'(2,3)] remapsD(4) [OF s'(3) procD(5) [OF p], of va] pte_page_mk_pte [OF s'(5) perm]
    by (intro exI [of _ s'] exI [of _ ys]) simp
qed

lemma mk_pte_W: "perm AND PTE_W \<noteq> 0 \<Longrightarrow> mk_pte f perm AND PTE_W \<noteq> 0"
  unfolding flag_test mk_pte_def bit_or_iff by blast

section \<open>The console\<close>

abbreviation cons_perm :: u32 where "cons_perm \<equiv> PTE_R OR PTE_W OR PTE_U OR PTE_D OR PTE_LIBRARY"

lemma perms_ok: "perm_ok cons_perm" "perm_ok pipe_perm" "cons_perm AND PTE_W \<noteq> 0" "pipe_perm AND PTE_W \<noteq> 0"
  by ((intro perm_ok_or perm_ok_flags)+) simp_all

lemma opencons_ok:
  assumes p: "proc D c pd s (f # xs)" and i: "i < 31" "\<not> fd_open s pd i" "\<And>j. j < i \<Longrightarrow> fd_open s pd j"
  shows "\<exists>s' ys. opencons mc s = Some (of_nat i, s') \<and> proc D c pd s' ys \<and> length xs \<le> length ys \<and>
    touches D pd {VPN (INDEX2FD (of_nat i))} s s' \<and> amap s' pd (INDEX2FD (of_nat i)) = Some (mk_pte f cons_perm) \<and>
    fd_word s' pd (of_nat i) 0 = devcons_id \<and> fd_word s' pd (of_nat i) 1 = 0 \<and> fd_word s' pd (of_nat i) 2 = 2 \<and>
    pp_ref s' f = 1 \<and> (\<forall>q. pp_ref s q \<noteq> 0 \<longrightarrow> pp_ref s' q = pp_ref s q)"
proof -
  let ?i = "of_nat i :: u32" and ?fd = "INDEX2FD (of_nat i)" and ?e = "mk_pte f cons_perm"
  have u: "unat ?i < 32" using i(1) by (simp add: unat_of_nat)
  have "amap s pd ?fd = None" using i(2) by (simp add: fd_open_def)
  from alloc_step [OF p fd_page(2) [OF u] perms_ok(1) this] obtain s1 ys where
    s1: "e_mem_alloc 0 ?fd cons_perm s = Some (Returned 0, s1)" "proc D c pd s1 ys" "length xs \<le> length ys"
    "touches D pd {VPN ?fd} s s1" "amap s1 pd ?fd = Some ?e" "pte_page ?e = f" "f < NPAGES"
    "\<forall>j. unat j < 1024 \<longrightarrow> pw s1 f j = 0" "only_at D pd {VPN ?fd} f s1" "pp_ref s1 f = 1"
    "\<forall>q. pp_ref s q \<noteq> 0 \<longrightarrow> pp_ref s1 q = pp_ref s q" by blast
  note W = mk_pte_W [OF perms_ok(3), of f]
  from fd_store [OF s1(2) u _ s1(5) W, of 0 devcons_id] s1(6) obtain s2 where
    s2: "uwrite32 ?fd devcons_id s1 = Some s2" "proc D c pd s2 ys" "stores D f (of_nat 0) devcons_id s1 s2" by auto
  have e2: "amap s2 pd ?fd = Some ?e" using storesD(4) [OF s2(3) procD(5) [OF p]] s1(5) by simp
  from fd_store [OF s2(2) u _ e2 W, of 2 2] s1(6) obtain s' where
    s': "uwrite32 (?fd + 8) 2 s2 = Some s'" "proc D c pd s' ys" "stores D f (of_nat 2) 2 s2 s'" by auto
  have w1: "fd_word s1 pd ?i k = 0" if "k < 1024" for k using s1(5,6,8) that by (simp add: fd_word_def unat_of_nat)
  have w: "fd_word s' pd ?i k = (if k = 2 then 2 else if k = 0 then devcons_id else 0)" if "k < 1024" for k
    using fd_word_stores [OF s2(2) u that _ e2, of 2 f 2 s'] fd_word_stores [OF s1(2) u that _ s1(5), of 0 f devcons_id s2]
      s'(3) s2(3) s1(6) w1 [OF that] by simp
  have "only_at D pd {VPN ?fd} f s2" using s1(9) storesD(4) [OF s2(3)] by (simp add: only_at_def)
  note t = stores_touches [OF procD(1) [OF s1(2)] s2(3) s1(9)] stores_touches [OF procD(1) [OF s2(2)] s'(3) this]
  have "touches D pd {VPN ?fd} s s'" using touches_trans [OF touches_trans [OF s1(4) t(1)] t(2)] .
  moreover have "opencons mc s = Some (?i, s')"
    using fd_alloc_ok [OF p i] s1(1) s2(1) s'(1) fd_page(4) [OF u] by (simp add: opencons_def)
  moreover have "amap s' pd ?fd = Some ?e" "pp_ref s' = pp_ref s1"
    using storesD(4) [OF s'(3) procD(5) [OF p]] e2 storesD(2) [OF s'(3)] storesD(2) [OF s2(3)] by simp_all
  ultimately show ?thesis using s'(2) s1(3,10,11) w [of 0] w [of 1] w [of 2] by (intro exI [of _ s'] exI [of _ ys]) simp
qed

section \<open>The witness state\<close>

lemma w_proc: "proc {5, 6} 0 5 wsample [7, 8, 9]"
proof -
  have "pte_page e \<notin> tables wsample {5, 6}" if "va < UTOP" "amap wsample 5 va = Some e" for va e
  proof
    assume "pte_page e \<in> tables wsample {5, 6}"
    then show False using that wuser [OF that(1)] w_tables [of "pte_page e"] w_entries by (auto split: if_splits)
  qed
  then show ?thesis using w_as_inv w_window by (simp add: proc_def)
qed

lemma w_unmapped:
  assumes "va < UTOP" "0x402 \<le> unat (VPN va)" "unat (VPN va) < 0x7f3ff"
  shows "amap wsample 5 va = None"
proof -
  have "VPN va \<noteq> 0x400" "VPN va \<noteq> 0x401" "VPN va \<noteq> 0x7f3ff" using assms(2,3) by auto
  then show ?thesis using wuser [OF assms(1)] by simp
qed

lemma w_fds: "i < 32 \<Longrightarrow> \<not> fd_open wsample 5 i"
  using w_unmapped [OF fd_page(3) [of "of_nat i"]] fd_page(1) [of "of_nat i"] by (simp add: fd_open_def unat_of_nat)

lemma fd_word_touches:
  assumes p: "proc D c pd s xs" "unat i < 32" "k < 1024" and t: "touches D pd R s s'" and n: "VPN (INDEX2FD i) \<notin> R"
  shows "fd_word s' pd i k = fd_word s pd i k" "amap s' pd (INDEX2FD i) = amap s pd (INDEX2FD i)"
proof -
  note P = procD [OF p(1)]
  show a: "amap s' pd (INDEX2FD i) = amap s pd (INDEX2FD i)" using touchesD(3) [OF t P(5)] n by simp
  show "fd_word s' pd i k = fd_word s pd i k"
  proof (cases "amap s pd (INDEX2FD i)")
    case (Some e)
    from touchesD(4) [OF t P(5) _ fd_page(3) [OF p(2)] Some P(7) [OF fd_page(3) [OF p(2)] Some], of "of_nat k"] n a Some p(3)
    show ?thesis by (simp add: fd_word_def unat_of_nat)
  qed (use a in \<open>simp add: fd_word_def\<close>)
qed

text \<open>Two console descriptors in the sample state.\<close>

lemma w_opened:
  "\<exists>s0 s xs. opencons mc wsample = Some (0, s0) \<and> opencons mc s0 = Some (1, s) \<and> proc {5, 6} 0 5 s xs \<and>
     amap s 5 (INDEX2FD 0) = Some (mk_pte 7 cons_perm) \<and> amap s 5 (INDEX2FD 1) \<noteq> None \<and> fd_word s 5 0 0 = devcons_id \<and>
     fd_word s 5 0 2 = 2 \<and> fd_word s 5 1 0 = devcons_id \<and> refs_below s 5 1025"
proof -
  from opencons_ok [OF w_proc, of 0 mc] w_fds obtain s0 ys where
    s0: "opencons mc wsample = Some (0, s0)" "proc {5, 6} 0 5 s0 ys" "2 \<le> length ys"
    "touches {5, 6} 5 {VPN (INDEX2FD 0)} wsample s0" "amap s0 5 (INDEX2FD 0) = Some (mk_pte 7 cons_perm)"
    "fd_word s0 5 0 0 = devcons_id" "fd_word s0 5 0 2 = 2" "pp_ref s0 7 = 1"
    "\<forall>q. pp_ref wsample q \<noteq> 0 \<longrightarrow> pp_ref s0 q = pp_ref wsample q" by auto
  obtain f zs where ys: "ys = f # zs" using s0(3) by (cases ys) auto
  have v: "VPN (INDEX2FD 0) \<noteq> VPN (INDEX2FD 1)" using region_other(1) [of 0 1] by (simp add: fd_region_def)
  have o: "amap s0 5 va = amap wsample 5 va" if "VPN va \<noteq> VPN (INDEX2FD 0)" for va using touchesD(3) [OF s0(4)] that by simp
  have "fd_open s0 5 0" "\<not> fd_open s0 5 1" using o v w_fds [of 1] s0(5) by (simp_all add: fd_open_def)
  from opencons_ok [OF s0(2) [unfolded ys], of 1 mc] this obtain s us where
    s: "opencons mc s0 = Some (1, s)" "proc {5, 6} 0 5 s us" "touches {5, 6} 5 {VPN (INDEX2FD 1)} s0 s"
    "amap s 5 (INDEX2FD 1) = Some (mk_pte f cons_perm)" "fd_word s 5 1 0 = devcons_id" "pp_ref s f = 1"
    "\<forall>q. pp_ref s0 q \<noteq> 0 \<longrightarrow> pp_ref s q = pp_ref s0 q" by auto
  have o': "amap s 5 va = amap s0 5 va" if "VPN va \<noteq> VPN (INDEX2FD 1)" for va using touchesD(3) [OF s(3)] that by simp
  have pg: "pte_page (mk_pte 7 cons_perm) = 7" "pte_page (mk_pte f cons_perm) = f"
    using pte_page_mk_pte [OF _ perms_ok(1)] as_invD(4) [OF procD(1) [OF s0(2)]] ys by simp_all
  have "unat (pp_ref s (pte_page e)) \<le> 4" if "va < UTOP" "amap s 5 va = Some e" for va e
  proof -
    consider "VPN va = VPN (INDEX2FD 1)" | "VPN va = VPN (INDEX2FD 0)" | "VPN va \<noteq> VPN (INDEX2FD 0)" "VPN va \<noteq> VPN (INDEX2FD 1)" by blast
    then show ?thesis
    proof cases
      case 1 then show ?thesis using that(2) amap_VPN [OF 1, of s 5] s(4,6) pg by simp
    next
      case 2 then show ?thesis using that(2) amap_VPN [OF 2, of s 5] o' [of "INDEX2FD 0"] v s0(5,8) s(7) pg by simp
    next
      case 3
      then have "amap wsample 5 va = Some e" using that(2) o o' by simp
      then have "pte_page e \<in> {20, 21, 22}" using wuser [OF that(1)] w_entries by (auto split: if_splits)
      then have "pp_ref wsample (pte_page e) = 4" by auto
      then show ?thesis using s0(9) s(7) by simp
    qed
  qed
  then have "refs_below s 5 1025" unfolding refs_below_def by fastforce
  moreover have "fd_word s 5 0 k = fd_word s0 5 0 k" if "k < 1024" for k
    using fd_word_touches(1) [OF s0(2) _ that s(3)] v by simp
  ultimately show ?thesis using s0(1,5,6,7) s o' [of "INDEX2FD 0"] v by (intro exI [of _ s0] exI [of _ s] exI [of _ us]) auto
qed

lemma w_devcons:
  "dev_lookup [devcons mc a rd] devcons_id = Inr (devcons mc a rd)" "device (dev_close (devcons mc a rd))"
  using cons.device_axioms by (simp_all add: devcons_def)

text \<open>
  C19 (dup_shares). \<open>dup\<close>: the new number becomes open on the page of the old descriptor, and every data page of the
  old one is mapped at the same place of the new one, with its permissions; nothing outside the new number's
  pages changes, for this program or any other. What was open under the new number is closed first.
\<close>

theorem dup_shares:
  assumes "proc D c pd s xs" "unat old < 32" "unat new < 32" "old \<noteq> new" "amap s pd (INDEX2FD old) = Some e"
    "refs_below s pd 1025"
    and "amap s pd (INDEX2FD new) = None \<or> (\<exists>d. dev_lookup devtab (fd_word s pd new 0) = Inr d \<and> device (dev_close d))"
  shows "\<exists>s' ys. dup mc devtab old new s = Some (new, s') \<and> proc D c pd s' ys \<and> touches D pd (fd_region new) s s' \<and>
    amap s' pd (INDEX2FD new) = Some (share e) \<and> pte_page (share e) = pte_page e \<and>
    (\<forall>k < 1024. \<forall>e. amap s pd (INDEX2DATA old + of_nat k * BY2PG) = Some e \<longrightarrow>
       amap s' pd (INDEX2DATA new + of_nat k * BY2PG) = Some (share e))"
  using dup_ok [OF assms, of mc] pte_page_share [OF mapped_ref(2) [OF procD(1,5) [OF assms(1)] fd_page(3) [OF assms(2)] assms(5)]] by blast

theorem dup_shares_witness:
  "\<forall>mc a rd. \<exists>s s'. dup mc [devcons mc a rd] 0 1 s = Some (1, s') \<and> amap s 5 (INDEX2FD 0) = Some (mk_pte 7 cons_perm) \<and>
     amap s' 5 (INDEX2FD 1) = Some (share (mk_pte 7 cons_perm))"
proof (intro allI)
  fix mc a rd
  obtain s xs where s: "proc {5, 6} 0 5 s xs" "amap s 5 (INDEX2FD 0) = Some (mk_pte 7 cons_perm)"
    "fd_word s 5 1 0 = devcons_id" "refs_below s 5 1025" using w_opened by blast
  have "dev_lookup [devcons mc a rd] (fd_word s 5 1 0) = Inr (devcons mc a rd) \<and> device (dev_close (devcons mc a rd))"
    using s(3) w_devcons by simp
  then show "\<exists>s s'. dup mc [devcons mc a rd] 0 1 s = Some (1, s') \<and> amap s 5 (INDEX2FD 0) = Some (mk_pte 7 cons_perm) \<and>
     amap s' 5 (INDEX2FD 1) = Some (share (mk_pte 7 cons_perm))"
    using dup_shares [OF s(1) _ _ _ s(2,4), of 1 "[devcons mc a rd]" mc] s(2) by auto
qed

text \<open>
  Descriptors made by \<open>dup\<close> have one position: after a \<open>seek\<close> on the new number, reading from the old one
  starts there.
\<close>

theorem dup_position:
  assumes p: "proc D c pd s xs" and i: "unat old < 32" "unat new < 32" "old \<noteq> new"
    and e: "amap s pd (INDEX2FD old) = Some e" "e AND PTE_W \<noteq> 0" and refs: "refs_below s pd 1025"
    and new: "amap s pd (INDEX2FD new) = None \<or> (\<exists>d. dev_lookup devtab (fd_word s pd new 0) = Inr d \<and> device (dev_close d))"
    and d: "dev_lookup devtab (fd_word s pd old 0) = Inr d" and m: "fd_word s pd old 2 AND 3 \<noteq> 1"
  shows "\<exists>s' s''. dup mc devtab old new s = Some (new, s') \<and> seek new off s' = Some (0, s'') \<and>
    read_fd devtab old buf n s'' =
      do { (r, s) \<leftarrow> dev_read d (INDEX2FD old) buf n off s''; advance (INDEX2FD old) r s }"
proof -
  note P = procD [OF p] and ro = region_other(1) [OF i]
  note q = mapped_ref(2) [OF P(1,5) fd_page(3) [OF i(1)] e(1)]
  from dup_ok [OF p i e(1) refs new, of mc] obtain s' ys where
    s': "dup mc devtab old new s = Some (new, s')" "proc D c pd s' ys" "touches D pd (fd_region new) s s'"
    "amap s' pd (INDEX2FD new) = Some (share e)" by blast
  from seek_ok [OF s'(2) i(2) s'(4) share_W [OF e(2)], of off] obtain s'' where
    s'': "seek new off s' = Some (0, s'')" "proc D c pd s'' ys" "stores D (pte_page e) 1 off s' s''"
    using pte_page_share [OF q] by auto
  have o: "amap s' pd (INDEX2FD old) = Some e" using touchesD(3) [OF s'(3) P(5)] ro e(1) by simp
  have w: "fd_word s' pd old k = fd_word s pd old k" if "k < 1024" for k
    using touchesD(4) [OF s'(3) P(5) _ fd_page(3) [OF i(1)] e(1) P(7) [OF fd_page(3) [OF i(1)] e(1)], of "of_nat k"] ro o e(1) that
    by (simp add: fd_word_def unat_of_nat)
  have "fd_word s'' pd old k = (if k = 1 then off else fd_word s pd old k)" if "k < 1024" for k
    using fd_word_stores [OF s'(2) i(1) that _ o, of 1 "pte_page e" off s''] s''(3) w [OF that] by simp
  moreover have "amap s'' pd (INDEX2FD old) = Some e" using storesD(4) [OF s''(3) P(5)] o by simp
  ultimately have "read_fd devtab old buf n s'' =
      do { (r, s) \<leftarrow> dev_read d (INDEX2FD old) buf n off s''; advance (INDEX2FD old) r s }"
    using d m by (subst read_ok [OF s''(2) i(1)]) auto
  then show ?thesis using s'(1) s''(1) by blast
qed

theorem dup_position_witness:
  "\<forall>mc a rd. \<exists>s s' s''. dup mc [devcons mc a rd] 0 1 s = Some (1, s') \<and> seek 1 42 s' = Some (0, s'') \<and>
     read_fd [devcons mc a rd] 0 0x400000 9 s'' = do { (r, s) \<leftarrow> rd (INDEX2FD 0) 0x400000 9 42 s''; advance (INDEX2FD 0) r s }"
proof (intro allI)
  fix mc a rd
  obtain s xs where s: "proc {5, 6} 0 5 s xs" "amap s 5 (INDEX2FD 0) = Some (mk_pte 7 cons_perm)"
    "fd_word s 5 1 0 = devcons_id" "refs_below s 5 1025" "fd_word s 5 0 0 = devcons_id" "fd_word s 5 0 2 = 2" using w_opened by blast
  have new: "amap s 5 (INDEX2FD 1) = None \<or> (\<exists>d. dev_lookup [devcons mc a rd] (fd_word s 5 1 0) = Inr d \<and> device (dev_close d))"
    using w_devcons s(3) by metis
  have d: "dev_lookup [devcons mc a rd] (fd_word s 5 0 0) = Inr (devcons mc a rd)" using w_devcons(1) s(5) by simp
  have m: "fd_word s 5 0 2 AND 3 \<noteq> 1" using s(6) by simp
  have rd: "dev_read (devcons mc a rd) = rd" by (simp add: devcons_def)
  have n: "unat (0 :: u32) < 32" "unat (1 :: u32) < 32" "(0 :: u32) \<noteq> 1" by simp_all
  from dup_position [OF s(1) n s(2) mk_pte_W [OF perms_ok(3)] s(4) new d m, where mc = mc and off = 42 and buf = "0x400000" and n = 9]
  show "\<exists>s s' s''. dup mc [devcons mc a rd] 0 1 s = Some (1, s') \<and> seek 1 42 s' = Some (0, s'') \<and>
     read_fd [devcons mc a rd] 0 0x400000 9 s'' = do { (r, s) \<leftarrow> rd (INDEX2FD 0) 0x400000 9 42 s''; advance (INDEX2FD 0) r s }"
    unfolding rd by blast
qed

text \<open>
  C24 (fd_alloc_least). \<open>fd_alloc\<close> returns the least of the first 31 descriptors that is not open, and \<open>E_MAX_OPEN\<close> exactly when all
  of them are; it changes nothing, so the descriptor is taken only when its page is mapped.
\<close>

theorem fd_alloc_least:
  assumes "proc D c pd s xs"
  shows "fd_alloc s = Some (if \<exists>i < 31. \<not> fd_open s pd i then Inr (INDEX2FD (of_nat (LEAST i. \<not> fd_open s pd i))) else Inl E_MAX_OPEN, s)"
  using fd_alloc_from_find [OF assms, of "[0..<31]"] by (simp add: fd_alloc_def find_least)

theorem fd_alloc_least_witness:
  "fd_alloc wsample = Some (Inr (INDEX2FD 0), wsample)"
proof -
  have "(LEAST i. \<not> fd_open wsample 5 i) = 0" using w_fds [of 0] by (intro Least_equality) auto
  moreover have "\<exists>i < 31. \<not> fd_open wsample 5 i" using w_fds [of 0] by (intro exI [of _ 0]) simp
  ultimately show ?thesis using fd_alloc_least [OF w_proc] by simp
qed

end
