(* ===== verification/PipeProps.thy ===== *)
theory PipeProps
  imports FdPipe
begin

text \<open>
  \<open>pipe\<close> of \<^verbatim>\<open>user/lib/pipe.c\<close> on the descriptor pages: the two ends it makes, the reference counts by which an end sees that
  the other is gone, and what it returns when memory runs out.
\<close>

section \<open>Words in user memory\<close>

lemma and3: "(a AND 3 :: u32) = 0 \<longleftrightarrow> unat a mod 4 = 0"
proof -
  have "a AND 3 = take_bit 2 a" by (simp add: take_bit_eq_mask mask_eq_exp_minus_1)
  moreover have "unat (take_bit 2 a) = unat a mod 4" by (simp only: unsigned_take_bit_eq) (simp add: take_bit_eq_mod)
  ultimately show ?thesis by (simp add: word_unat_eq_iff)
qed

lemma unat_uidx_eq: "unat (uidx a) = unat a div 4 mod 1024"
proof -
  have "uidx a = take_bit 10 (drop_bit 2 a)" by (simp add: uidx_def take_bit_eq_mask mask_eq_exp_minus_1)
  then show ?thesis by (simp only: unsigned_take_bit_eq unat_drop_bit32) (simp add: take_bit_eq_mod)
qed

text \<open>An array of two words inside a page.\<close>

lemma two_words:
  assumes "a AND 3 = 0" "VPN (a + 4) = VPN a"
  shows "(a + 4) AND 3 = 0" "uidx (a + 4) \<noteq> uidx a" "unat (a + 4) = unat a + 4"
proof -
  have le: "unat a < 0xfffffffc"
  proof (rule ccontr)
    assume "\<not> ?thesis"
    then have a: "0xfffffffc \<le> unat a" "unat a < 0x100000000" using unsigned_less [of a, where 'a = nat] by simp_all
    then have "(unat a + 4) mod 0x100000000 = unat a + 4 - 0x100000000" by (subst le_mod_geq) simp_all
    then have "unat a div 4096 = 0xfffff" "unat (a + 4) < 4" using a by (simp_all add: unat_word_ariths)
    moreover have "unat (VPN (a + 4)) = unat (VPN a)" using assms(2) by simp
    ultimately show False by (simp add: VPN_def unat_drop_bit32)
  qed
  show u: "unat (a + 4) = unat a + 4" using le unat_add_small [of a 4] by simp
  show "(a + 4) AND 3 = 0" using assms(1) u by (simp add: and3)
  show "uidx (a + 4) \<noteq> uidx a"
  proof
    assume "uidx (a + 4) = uidx a"
    then have "(unat a + 4) div 4 mod 1024 = unat a div 4 mod 1024" using u unat_uidx_eq [of a] unat_uidx_eq [of "a + 4"] by simp
    moreover have "(unat a + 4) div 4 = Suc (unat a div 4)" by simp
    ultimately show False by (auto simp: mod_Suc split: if_splits)
  qed
qed

section \<open>The pages of a pipe\<close>

text \<open>The four pages a pipe uses.\<close>

definition pipe_region :: "nat \<Rightarrow> nat \<Rightarrow> u32 set" where
  "pipe_region i j = VPN ` {INDEX2FD (of_nat i), INDEX2FD (of_nat j), INDEX2DATA (of_nat i), INDEX2DATA (of_nat j)}"

lemma pipe_addresses:
  assumes "i < 32" "j < 32" "i \<noteq> j"
  shows "VPN (INDEX2FD (of_nat i)) \<noteq> VPN (INDEX2FD (of_nat j))" "VPN (INDEX2DATA (of_nat i)) \<noteq> VPN (INDEX2DATA (of_nat j))"
    "VPN (INDEX2FD (of_nat i)) \<noteq> VPN (INDEX2DATA (of_nat j))" "VPN (INDEX2DATA (of_nat i)) \<noteq> VPN (INDEX2FD (of_nat j))"
    "VPN (INDEX2FD (of_nat i)) \<noteq> VPN (INDEX2DATA (of_nat i))"
    "\<not> is_illegal_va (INDEX2DATA (of_nat i))"
proof -
  have u: "unat (of_nat i :: u32) = i" "unat (of_nat j :: u32) = j" using assms by (simp_all add: unat_of_nat)
  have n: "unat (VPN (INDEX2FD (of_nat i))) = 0x5fc00 + i" "unat (VPN (INDEX2FD (of_nat j))) = 0x5fc00 + j"
    "unat (VPN (INDEX2DATA (of_nat i))) = 0x60000 + 1024 * i" "unat (VPN (INDEX2DATA (of_nat j))) = 0x60000 + 1024 * j"
    using fd_page(1) [of "of_nat i"] fd_page(1) [of "of_nat j"] data_page(1) [of "of_nat i" 0] data_page(1) [of "of_nat j" 0] u assms by simp_all
  show "VPN (INDEX2FD (of_nat i)) \<noteq> VPN (INDEX2FD (of_nat j))" "VPN (INDEX2DATA (of_nat i)) \<noteq> VPN (INDEX2DATA (of_nat j))"
    "VPN (INDEX2FD (of_nat i)) \<noteq> VPN (INDEX2DATA (of_nat j))" "VPN (INDEX2DATA (of_nat i)) \<noteq> VPN (INDEX2FD (of_nat j))"
    "VPN (INDEX2FD (of_nat i)) \<noteq> VPN (INDEX2DATA (of_nat i))"
    using n assms by (auto simp: word_unat_eq_iff)
  show "\<not> is_illegal_va (INDEX2DATA (of_nat i))" using data_page(2) [of "of_nat i" 0] u assms by simp
qed

lemma touch_at:
  assumes "touches D pd {VPN b} s s'" "pd \<in> D" "VPN a \<noteq> VPN b"
  shows "amap s' pd a = amap s pd a"
  using touchesD(3) [OF assms(1,2)] assms(3) by simp

lemma touch_page:
  assumes p: "proc D c pd s xs" and t: "touches D pd {VPN b} s s'" and a: "VPN a \<noteq> VPN b" "a < UTOP" "amap s pd a = Some e" "unat j < 1024"
  shows "pw s' (pte_page e) j = pw s (pte_page e) j"
  using touchesD(4) [OF t procD(5) [OF p] _ a(2,3) procD(7) [OF p a(2,3)] a(4)] a(1) by simp

text \<open>A page of zeroes for one address.\<close>

definition fresh_at :: "kstate \<Rightarrow> nat \<Rightarrow> u32 \<Rightarrow> nat \<Rightarrow> bool" where
  "fresh_at s pd va f \<longleftrightarrow> amap s pd va = Some (mk_pte f pipe_perm) \<and> f < NPAGES \<and> pte_page (mk_pte f pipe_perm) = f \<and>
     (\<forall>j. unat j < 1024 \<longrightarrow> pw s f j = 0)"

lemma fresh_kept:
  assumes "proc D c pd s xs" "touches D pd {VPN b} s s'" "fresh_at s pd a f" "VPN a \<noteq> VPN b" "a < UTOP"
  shows "fresh_at s' pd a f"
  using touch_at [OF assms(2) procD(5) [OF assms(1)] assms(4)] touch_page [OF assms(1,2,4,5), of "mk_pte f pipe_perm"] assms(3)
  unfolding fresh_at_def by (metis (no_types))

lemma pipe_alloc:
  assumes p: "proc D c pd s xs" "xs \<noteq> []" and va: "\<not> is_illegal_va va" "amap s pd va = None"
  shows "\<exists>f s' ys. e_mem_alloc 0 va pipe_perm s = Some (Returned 0, s') \<and> proc D c pd s' ys \<and> length xs \<le> Suc (length ys) \<and>
    touches D pd {VPN va} s s' \<and> fresh_at s' pd va f \<and> pp_ref s f = 0 \<and> pp_ref s' f = 1 \<and>
    (\<forall>q. pp_ref s q \<noteq> 0 \<longrightarrow> pp_ref s' q = pp_ref s q)"
proof -
  obtain f ys where xs: "xs = f # ys" using p(2) by (cases xs) auto
  show ?thesis using alloc_step [OF p(1) [unfolded xs] va(1) perms_ok(2) va(2)] xs by (auto simp: fresh_at_def)
qed

lemma pipe_pages:
  assumes p: "proc D c pd s xs" "3 \<le> length xs" and i: "i < j" "j < 31" "\<not> fd_open s pd i" "\<not> fd_open s pd j"
    and least: "\<forall>k < j. k \<noteq> i \<longrightarrow> fd_open s pd k"
    and un: "amap s pd (INDEX2DATA (of_nat i)) = None" "amap s pd (INDEX2DATA (of_nat j)) = None"
  shows "\<exists>f0 f1 f2 s' ys. pipe mc pfd s = pipe_set pfd (INDEX2FD (of_nat i)) (INDEX2FD (of_nat j)) s' \<and> proc D c pd s' ys \<and>
    touches D pd (pipe_region i j) s s' \<and> fresh_at s' pd (INDEX2FD (of_nat i)) f0 \<and> fresh_at s' pd (INDEX2FD (of_nat j)) f1 \<and>
    fresh_at s' pd (INDEX2DATA (of_nat i)) f2 \<and> fresh_at s' pd (INDEX2DATA (of_nat j)) f2 \<and> distinct [f0, f1, f2] \<and>
    pp_ref s f0 = 0 \<and> pp_ref s f1 = 0 \<and> pp_ref s f2 = 0 \<and> pp_ref s' f0 = 1 \<and> pp_ref s' f1 = 1 \<and> pp_ref s' f2 = 2 \<and>
    (\<forall>q. pp_ref s q \<noteq> 0 \<longrightarrow> pp_ref s' q = pp_ref s q)"
proof -
  let ?i = "of_nat i :: u32" and ?j = "of_nat j :: u32"
  have u: "unat ?i < 32" "unat ?j < 32" using i by (simp_all add: unat_of_nat)
  have ij: "i < 32" "j < 32" "i \<noteq> j" using i by auto
  note a = pipe_addresses [OF ij] and b = pipe_addresses [OF ij(2,1) ij(3) [symmetric]]
  note ut = fd_page(3) [OF u(1)] fd_page(3) [OF u(2)] legal_va [OF a(6)] legal_va [OF b(6)]
  have xs: "xs \<noteq> []" using p(2) by auto
  from pipe_alloc [OF p(1) xs fd_page(2) [OF u(1)]] i(3) obtain f0 s1 ys where
    s1: "e_mem_alloc 0 (INDEX2FD ?i) pipe_perm s = Some (Returned 0, s1)" "proc D c pd s1 ys" "length xs \<le> Suc (length ys)"
    "touches D pd {VPN (INDEX2FD ?i)} s s1" "fresh_at s1 pd (INDEX2FD ?i) f0" "pp_ref s f0 = 0" "pp_ref s1 f0 = 1"
    "\<forall>q. pp_ref s q \<noteq> 0 \<longrightarrow> pp_ref s1 q = pp_ref s q" by (auto simp: fd_open_def)
  note P = procD(5) [OF p(1)]
  have fd1: "fd_open s1 pd k = (k = i \<or> fd_open s pd k)" if "k < 32" for k
    using touch_at [OF s1(4) P, of "INDEX2FD (of_nat k)"] pipe_addresses(1) [OF that ij(1)] s1(5)
    by (cases "k = i") (auto simp: fd_open_def fresh_at_def)
  have al0: "fd_alloc s = Some (Inr (INDEX2FD ?i), s)"
    using i least by (intro fd_alloc_ok [OF p(1)]) auto
  have al1: "fd_alloc s1 = Some (Inr (INDEX2FD ?j), s1)"
    using i least fd1 by (intro fd_alloc_ok [OF s1(2)]) auto
  have ys: "ys \<noteq> []" using p(2) s1(3) by auto
  have "amap s1 pd (INDEX2FD ?j) = None" using fd1 [OF ij(2)] i by (simp add: fd_open_def)
  from pipe_alloc [OF s1(2) ys fd_page(2) [OF u(2)] this] obtain f1 s2 zs where
    s2: "e_mem_alloc 0 (INDEX2FD ?j) pipe_perm s1 = Some (Returned 0, s2)" "proc D c pd s2 zs" "length ys \<le> Suc (length zs)"
    "touches D pd {VPN (INDEX2FD ?j)} s1 s2" "fresh_at s2 pd (INDEX2FD ?j) f1" "pp_ref s1 f1 = 0" "pp_ref s2 f1 = 1"
    "\<forall>q. pp_ref s1 q \<noteq> 0 \<longrightarrow> pp_ref s2 q = pp_ref s1 q" by blast
  have zs: "zs \<noteq> []" using p(2) s1(3) s2(3) by auto
  have "amap s2 pd (INDEX2DATA ?i) = None"
    using touch_at [OF s2(4) P a(4)] touch_at [OF s1(4) P a(5) [symmetric]] un by simp
  from pipe_alloc [OF s2(2) zs a(6) this] obtain f2 s3 us where
    s3: "e_mem_alloc 0 (INDEX2DATA ?i) pipe_perm s2 = Some (Returned 0, s3)" "proc D c pd s3 us"
    "touches D pd {VPN (INDEX2DATA ?i)} s2 s3" "fresh_at s3 pd (INDEX2DATA ?i) f2" "pp_ref s2 f2 = 0" "pp_ref s3 f2 = 1"
    "\<forall>q. pp_ref s2 q \<noteq> 0 \<longrightarrow> pp_ref s3 q = pp_ref s2 q" by blast
  have d3: "amap s3 pd (INDEX2DATA ?j) = None"
    using touch_at [OF s3(3) P b(2)] touch_at [OF s2(4) P b(5) [symmetric]] touch_at [OF s1(4) P b(4)] un by simp
  have m3: "amap s3 pd (INDEX2DATA ?i) = Some (mk_pte f2 pipe_perm)" "pte_page (mk_pte f2 pipe_perm) = f2" "f2 < NPAGES"
    using s3(4) by (simp_all add: fresh_at_def)
  have r3: "pp_ref s3 (pte_page (mk_pte f2 pipe_perm)) \<noteq> 0xffff" using s3(6) m3(2) by simp
  from proc_map [OF s3(2) a(6) b(6) perms_ok(2) m3(1) r3] obtain s4 vs where
    s4: "e_mem_map 0 (INDEX2DATA ?i) 0 (INDEX2DATA ?j) pipe_perm s3 = Some (Returned 0, s4)" "proc D c pd s4 vs"
    "remaps D pd (INDEX2DATA ?j) (Some (mk_pte f2 pipe_perm)) s3 s4"
    "\<forall>q. pp_ref s3 q \<noteq> 0 \<longrightarrow> pp_ref s4 q = ref_after (map_option pte_page (amap s3 pd (INDEX2DATA ?j))) f2 s3 q"
    unfolding m3(2) by blast
  note t4 = remaps_touches [OF s3(2) s4(2,3)]
  have fr: "fresh_at s4 pd (INDEX2FD ?i) f0" "fresh_at s4 pd (INDEX2FD ?j) f1" "fresh_at s4 pd (INDEX2DATA ?i) f2"
    using fresh_kept [OF s3(2) t4 fresh_kept [OF s2(2) s3(3) fresh_kept [OF s1(2) s2(4) s1(5) a(1) ut(1)] a(5) ut(1)] a(3) ut(1)]
      fresh_kept [OF s3(2) t4 fresh_kept [OF s2(2) s3(3) s2(5) b(3) ut(2)] b(5) ut(2)]
      fresh_kept [OF s3(2) t4 s3(4) a(2) ut(3)] by simp_all
  have "fresh_at s4 pd (INDEX2DATA ?j) f2"
    using fr(3) remapsD(4) [OF s4(3) P, of "INDEX2DATA ?j"] by (simp add: fresh_at_def)
  moreover have f: "f0 \<noteq> f1" "f0 \<noteq> f2" "f1 \<noteq> f2" using s1(7) s2(6,7,8) s3(5) by auto
  moreover have "pp_ref s f1 = 0" "pp_ref s f2 = 0" using s1(8) s2(6,8) s3(5) by metis+
  moreover have refs: "pp_ref s4 q = (if q = f2 then pp_ref s3 q + 1 else pp_ref s3 q)" if "pp_ref s3 q \<noteq> 0" for q
    using s4(4) that d3 by (simp add: ref_after_def)
  then have "pp_ref s4 f0 = 1" "pp_ref s4 f1 = 1" "pp_ref s4 f2 = 2" "\<forall>q. pp_ref s q \<noteq> 0 \<longrightarrow> pp_ref s4 q = pp_ref s q"
    using f s1(7,8) s2(7,8) s3(5,6,7) by auto
  moreover have "touches D pd (pipe_region i j) s s4"
  proof -
    have "{VPN (INDEX2FD ?i)} \<subseteq> pipe_region i j" "{VPN (INDEX2FD ?j)} \<subseteq> pipe_region i j"
      "{VPN (INDEX2DATA ?i)} \<subseteq> pipe_region i j" "{VPN (INDEX2DATA ?j)} \<subseteq> pipe_region i j" by (auto simp: pipe_region_def)
    note m = touches_mono [OF s1(4) this(1)] touches_mono [OF s2(4) this(2)] touches_mono [OF s3(3) this(3)] touches_mono [OF t4 this(4)]
    show ?thesis using touches_trans [OF touches_trans [OF touches_trans [OF m(1,2)] m(3)] m(4)] .
  qed
  moreover have "pipe mc pfd s = pipe_set pfd (INDEX2FD ?i) (INDEX2FD ?j) s4"
    using al0 al1 s1(1) s2(1) s3(1) s4(1) fd_page(5) [OF u(1)] fd_page(5) [OF u(2)] by (simp add: pipe_def pipe_map_def Let_def)
  ultimately show ?thesis using s4(2) fr s1(6) by (intro exI [of _ f0] exI [of _ f1] exI [of _ f2] exI [of _ s4] exI [of _ vs]) simp
qed

section \<open>Filling in the descriptors\<close>

lemma user_store:
  assumes p: "proc D c pd s xs" and va: "va < UTOP" "va AND 3 = 0" and e: "amap s pd va = Some e" "e AND PTE_W \<noteq> 0" "pte_page e = q"
  shows "\<exists>s'. uwrite32 va v s = Some s' \<and> proc D c pd s' xs \<and> stores D q (uidx va) v s s'"
  using proc_write [OF p va e(1,2), of v] e(3) by simp

lemma stores_amap: "stores D q j v s s' \<Longrightarrow> pd \<in> D \<Longrightarrow> amap s pd a = Some e \<Longrightarrow> amap s' pd a = Some e"
  using storesD(4) by simp

lemma pipe_set_ok:
  assumes p: "proc D c pd s ys" and i: "unat i < 32" "unat j < 32"
    and f: "fresh_at s pd (INDEX2FD i) f0" "fresh_at s pd (INDEX2FD j) f1"
    and a: "pfd + 4 < UTOP" "pfd AND 3 = 0" "VPN (pfd + 4) = VPN pfd" and x: "amap s pd pfd = Some x" "x AND PTE_W \<noteq> 0"
  shows "\<exists>s'. pipe_set pfd (INDEX2FD i) (INDEX2FD j) s = Some (0, s') \<and> proc D c pd s' ys \<and> pp_ref s' = pp_ref s \<and>
    (\<forall>pd' \<in> D. amap s' pd' = amap s pd') \<and> os_kept s s' \<and>
    (\<forall>q k. q < NPAGES \<longrightarrow> unat k < 1024 \<longrightarrow> pw s' q k =
       (if q = pte_page x \<and> k = uidx (pfd + 4) then j else if q = pte_page x \<and> k = uidx pfd then i
        else if q = f1 \<and> k = 2 then 1 else if q = f1 \<and> k = 0 then devpipe_id
        else if q = f0 \<and> k = 2 then 0 else if q = f0 \<and> k = 0 then devpipe_id else pw s q k))"
proof -
  note P = procD(5) [OF p] and w = two_words [OF a(2,3)] and W = mk_pte_W [OF perms_ok(4)]
  have lt: "pfd < UTOP" using a(1) w(3) by (simp add: word_less_nat_alt)
  have e: "amap s pd (INDEX2FD i) = Some (mk_pte f0 pipe_perm)" "pte_page (mk_pte f0 pipe_perm) = f0"
    "amap s pd (INDEX2FD j) = Some (mk_pte f1 pipe_perm)" "pte_page (mk_pte f1 pipe_perm) = f1"
    using f by (simp_all add: fresh_at_def)
  have x4: "amap s pd (pfd + 4) = Some x" using amap_VPN [OF a(3), of s pd] x(1) by simp
  from fd_store [OF p i(1) _ e(1) W, of 0 devpipe_id] e(2) obtain s1 where
    s1: "uwrite32 (INDEX2FD i) devpipe_id s = Some s1" "proc D c pd s1 ys" "stores D f0 0 devpipe_id s s1" by auto
  note k1 = stores_amap [OF s1(3) P]
  from fd_store [OF s1(2) i(1) _ k1 [OF e(1)] W, of 2 0] e(2) obtain s2 where
    s2: "uwrite32 (INDEX2FD i + 8) 0 s1 = Some s2" "proc D c pd s2 ys" "stores D f0 2 0 s1 s2" by auto
  note k2 = stores_amap [OF s2(3) P k1]
  from fd_store [OF s2(2) i(2) _ k2 [OF e(3)] W, of 0 devpipe_id] e(4) obtain s3 where
    s3: "uwrite32 (INDEX2FD j) devpipe_id s2 = Some s3" "proc D c pd s3 ys" "stores D f1 0 devpipe_id s2 s3" by auto
  note k3 = stores_amap [OF s3(3) P k2]
  from fd_store [OF s3(2) i(2) _ k3 [OF e(3)] W, of 2 1] e(4) obtain s4 where
    s4: "uwrite32 (INDEX2FD j + 8) 1 s3 = Some s4" "proc D c pd s4 ys" "stores D f1 2 1 s3 s4" by auto
  note k4 = stores_amap [OF s4(3) P k3]
  from user_store [OF s4(2) lt a(2) k4 [OF x(1)] x(2) refl, of i] obtain s5 where
    s5: "uwrite32 pfd i s4 = Some s5" "proc D c pd s5 ys" "stores D (pte_page x) (uidx pfd) i s4 s5" by blast
  note k5 = stores_amap [OF s5(3) P k4]
  from user_store [OF s5(2) a(1) w(1) k5 [OF x4] x(2) refl, of j] obtain s6 where
    s6: "uwrite32 (pfd + 4) j s5 = Some s6" "proc D c pd s6 ys" "stores D (pte_page x) (uidx (pfd + 4)) j s5 s6" by blast
  have "pipe_set pfd (INDEX2FD i) (INDEX2FD j) s = Some (0, s6)"
    using s1(1) s2(1) s3(1) s4(1) s5(1) s6(1) fd_page(4) [OF i(1)] fd_page(4) [OF i(2)] by (simp add: pipe_set_def)
  moreover have "pp_ref s6 = pp_ref s"
    using storesD(2) [OF s1(3)] storesD(2) [OF s2(3)] storesD(2) [OF s3(3)] storesD(2) [OF s4(3)] storesD(2) [OF s5(3)] storesD(2) [OF s6(3)] by simp
  moreover have "\<forall>pd' \<in> D. amap s6 pd' = amap s pd'"
    using storesD(4) [OF s1(3)] storesD(4) [OF s2(3)] storesD(4) [OF s3(3)] storesD(4) [OF s4(3)] storesD(4) [OF s5(3)] storesD(4) [OF s6(3)] by simp
  moreover have "os_kept s s6"
    using storesD(1) [OF s1(3)] storesD(1) [OF s2(3)] storesD(1) [OF s3(3)] storesD(1) [OF s4(3)] storesD(1) [OF s5(3)] storesD(1) [OF s6(3)]
    by (meson os_kept_trans)
  ultimately show ?thesis
    using s6(2) storesD(5) [OF s1(3)] storesD(5) [OF s2(3)] storesD(5) [OF s3(3)] storesD(5) [OF s4(3)] storesD(5) [OF s5(3)] storesD(5) [OF s6(3)]
    by (intro exI [of _ s6]) simp
qed

section \<open>The ends\<close>

lemma pageref_ok:
  assumes "proc D c pd s xs" "va < UTOP"
  shows "pageref va s = Some (case amap s pd va of None \<Rightarrow> 0 | Some e \<Rightarrow> ucast (pp_ref s (pte_page e)), s)"
proof -
  obtain w d where w: "vpt (VPN va) s = Some (w, s)" "w AND PTE_V \<noteq> 0 \<longleftrightarrow> amap s pd va \<noteq> None" "\<And>e. amap s pd va = Some e \<Longrightarrow> w = e"
    "vpd (PDX va) s = Some (d, s)" "d AND PTE_V \<noteq> 0" using proc_vpt [OF assms] by blast
  have "unat (PPN (PADDR (PTE_ADDR e))) = pte_page e" for e using pte_page_PTE_ADDR [of e] by (simp add: pte_page_def)
  then show ?thesis using w by (cases "amap s pd va") (auto simp: pageref_def)
qed

text \<open>
  Descriptors \<open>i\<close> and \<open>j\<close> are the two ends of a pipe in this program alone: each descriptor page has one
  reference and the page between them two.
\<close>

definition pipe_ends :: "kstate \<Rightarrow> nat \<Rightarrow> nat \<Rightarrow> nat \<Rightarrow> bool" where
  "pipe_ends s pd i j \<longleftrightarrow> i < 32 \<and> j < 32 \<and> i \<noteq> j \<and> (\<exists>e0 e1 e2 e3.
     amap s pd (INDEX2FD (of_nat i)) = Some e0 \<and> amap s pd (INDEX2FD (of_nat j)) = Some e1 \<and>
     amap s pd (INDEX2DATA (of_nat i)) = Some e2 \<and> amap s pd (INDEX2DATA (of_nat j)) = Some e3 \<and>
     pte_page e2 = pte_page e3 \<and> distinct [pte_page e0, pte_page e1, pte_page e2] \<and>
     pp_ref s (pte_page e0) = 1 \<and> pp_ref s (pte_page e1) = 1 \<and> pp_ref s (pte_page e2) = 2) \<and>
   fd_word s pd (of_nat i) 0 = devpipe_id \<and> fd_word s pd (of_nat j) 0 = devpipe_id"

lemma pipe_is_closed_ok:
  assumes p: "proc D c pd s xs" and i: "i < 32" and e: "amap s pd (INDEX2FD (of_nat i)) = Some e0" "amap s pd (INDEX2DATA (of_nat i)) = Some e2"
  shows "pipe_is_closed (of_nat i) s = Some (if pp_ref s (pte_page e0) = pp_ref s (pte_page e2) then 1 else 0, s)"
proof -
  have u: "unat (of_nat i :: u32) < 32" using i by (simp add: unat_of_nat)
  have "unat (ucast a :: u32) = unat a" for a :: u16
    unfolding unsigned_ucast_eq using unsigned_less [of a, where 'a = nat] by (intro take_bit_nat_eq_self) simp
  then have "(ucast a :: u32) = ucast b \<longleftrightarrow> a = b" for a b :: u16 by (metis word_unat_eq_iff)
  then show ?thesis
    using e pageref_ok [OF p fd_page(3) [OF u]] pageref_ok [OF p data_page(3) [OF u, of 0, simplified]] fd_page(5) [OF u]
    by (simp add: pipe_is_closed_def with_fd_ok [OF p u] pipe_closed_pass_def)
qed

lemma pipe_ok:
  assumes p: "proc D c pd s xs" "3 \<le> length xs" and i: "i < j" "j < 31" "\<not> fd_open s pd i" "\<not> fd_open s pd j"
    and least: "\<forall>k < j. k \<noteq> i \<longrightarrow> fd_open s pd k"
    and un: "amap s pd (INDEX2DATA (of_nat i)) = None" "amap s pd (INDEX2DATA (of_nat j)) = None"
    and a: "pfd + 4 < UTOP" "pfd AND 3 = 0" "VPN (pfd + 4) = VPN pfd" "VPN pfd \<notin> pipe_region i j"
    and x: "amap s pd pfd = Some x" "x AND PTE_W \<noteq> 0"
  shows "\<exists>s' ys q. pipe mc pfd s = Some (0, s') \<and> proc D c pd s' ys \<and> pipe_ends s' pd i j \<and>
    uload32 s' pfd = Some (of_nat i) \<and> uload32 s' (pfd + 4) = Some (of_nat j) \<and>
    fd_word s' pd (of_nat i) 2 = 0 \<and> fd_word s' pd (of_nat j) 2 = 1 \<and>
    map_option pte_page (amap s' pd (INDEX2DATA (of_nat i))) = Some q \<and> pp_ref s q = 0 \<and> (\<forall>k. unat k < 1024 \<longrightarrow> pw s' q k = 0) \<and>
    pipe_is_closed (of_nat i) s' = Some (0, s') \<and> pipe_is_closed (of_nat j) s' = Some (0, s') \<and>
    (\<forall>pd' \<in> D. \<forall>va. pd' \<noteq> pd \<or> VPN va \<notin> pipe_region i j \<longrightarrow> amap s' pd' va = amap s pd' va)"
proof -
  let ?i = "of_nat i :: u32" and ?j = "of_nat j :: u32"
  have u: "unat ?i < 32" "unat ?j < 32" using i by (simp_all add: unat_of_nat)
  from pipe_pages [OF p i least un, of mc pfd] obtain f0 f1 f2 s1 ys where
    s1: "pipe mc pfd s = pipe_set pfd (INDEX2FD ?i) (INDEX2FD ?j) s1" "proc D c pd s1 ys" "touches D pd (pipe_region i j) s s1"
    and fr: "fresh_at s1 pd (INDEX2FD ?i) f0" "fresh_at s1 pd (INDEX2FD ?j) f1" "fresh_at s1 pd (INDEX2DATA ?i) f2"
      "fresh_at s1 pd (INDEX2DATA ?j) f2"
    and f: "distinct [f0, f1, f2]" "pp_ref s f0 = 0" "pp_ref s f1 = 0" "pp_ref s f2 = 0" "pp_ref s1 f0 = 1" "pp_ref s1 f1 = 1" "pp_ref s1 f2 = 2"
    by (elim exE conjE) (rule that)
  note P = procD(5) [OF p(1)] and w = two_words [OF a(2,3)]
  have lt: "pfd < UTOP" using a(1) w(3) by (simp add: word_less_nat_alt)
  have x1: "amap s1 pd pfd = Some x" using touchesD(3) [OF s1(3) P] a(4) x(1) by simp
  have xr: "pte_page x < NPAGES" "pp_ref s (pte_page x) \<noteq> 0"
    using mapped_ref(1,2) [OF procD(1) [OF p(1)] P lt x(1)] by (auto simp: unat_gt_0)
  then have xf: "pte_page x \<noteq> f0" "pte_page x \<noteq> f1" "pte_page x \<noteq> f2" using f by auto
  from pipe_set_ok [OF s1(2) u fr(1,2) a(1-3) x1 x(2)] obtain s' where
    s': "pipe_set pfd (INDEX2FD ?i) (INDEX2FD ?j) s1 = Some (0, s')" "proc D c pd s' ys" "pp_ref s' = pp_ref s1"
    "\<forall>pd' \<in> D. amap s' pd' = amap s1 pd'"
    and pw: "\<And>q k. q < NPAGES \<Longrightarrow> unat k < 1024 \<Longrightarrow> pw s' q k =
       (if q = pte_page x \<and> k = uidx (pfd + 4) then ?j else if q = pte_page x \<and> k = uidx pfd then ?i
        else if q = f1 \<and> k = 2 then 1 else if q = f1 \<and> k = 0 then devpipe_id
        else if q = f0 \<and> k = 2 then 0 else if q = f0 \<and> k = 0 then devpipe_id else pw s1 q k)" by blast
  have am: "amap s' pd = amap s1 pd" using s'(4) P by simp
  note fa = fr [unfolded fresh_at_def]
  have m: "amap s' pd (INDEX2FD ?i) = Some (mk_pte f0 pipe_perm)" "amap s' pd (INDEX2FD ?j) = Some (mk_pte f1 pipe_perm)"
    "amap s' pd (INDEX2DATA ?i) = Some (mk_pte f2 pipe_perm)" "amap s' pd (INDEX2DATA ?j) = Some (mk_pte f2 pipe_perm)"
    using am fa by simp_all
  have pg: "pte_page (mk_pte f0 pipe_perm) = f0" "pte_page (mk_pte f1 pipe_perm) = f1" "pte_page (mk_pte f2 pipe_perm) = f2"
    "f0 < NPAGES" "f1 < NPAGES" "f2 < NPAGES" using fa by blast+
  have fw: "fd_word s' pd ?i 0 = devpipe_id" "fd_word s' pd ?i 2 = 0" "fd_word s' pd ?j 0 = devpipe_id" "fd_word s' pd ?j 2 = 1"
    unfolding fd_word_def m using pg xf f(1) pw [of f0 0] pw [of f0 2] pw [of f1 0] pw [of f1 2] by simp_all
  have "pw s' f2 k = 0" if "unat k < 1024" for k using pw [OF pg(6) that] xf f(1) fa(3) that by auto
  moreover have "uload32 s' pfd = Some ?i" "uload32 s' (pfd + 4) = Some ?j"
    using uload32_amap [OF procD(6) [OF s'(2)] a(2)] uload32_amap [OF procD(6) [OF s'(2)] w(1)] am x1 amap_VPN [OF a(3), of s1 pd]
      pw [OF xr(1) unat_uidx, of pfd] pw [OF xr(1) unat_uidx, of "pfd + 4"] w(2) by (simp_all add: uidx_def)
  moreover have "pipe_ends s' pd i j" unfolding pipe_ends_def m fw using i f pg s'(3) by (auto simp: m)
  moreover have "pipe_is_closed ?i s' = Some (0, s')" "pipe_is_closed ?j s' = Some (0, s')"
    using pipe_is_closed_ok [OF s'(2) _ m(1,3)] pipe_is_closed_ok [OF s'(2) _ m(2,4)] i f pg s'(3) by simp_all
  ultimately show ?thesis
    using s1(1) s'(1,2,4) m(3) pg(3) f(4) fw touchesD(3) [OF s1(3)] by (intro exI [of _ s'] exI [of _ ys] exI [of _ f2]) simp
qed

text \<open>
  C20 (pipe_creates). \<open>pipe\<close> opens the two least free descriptors, stores their numbers, makes the first the end to read from and
  the second the end to write to, and gives both the same page, which is all zero (an empty pipe) and belongs to
  nobody else; neither end looks closed. Nothing outside the new pages and the array changes.
\<close>

theorem pipe_creates:
  assumes p: "proc D c pd s xs" "3 \<le> length xs" and i: "i < j" "j < 31" "\<not> fd_open s pd i" "\<not> fd_open s pd j"
    and least: "\<forall>k < j. k \<noteq> i \<longrightarrow> fd_open s pd k"
    and un: "amap s pd (INDEX2DATA (of_nat i)) = None" "amap s pd (INDEX2DATA (of_nat j)) = None"
    and a: "pfd + 4 < UTOP" "pfd AND 3 = 0" "VPN (pfd + 4) = VPN pfd" "VPN pfd \<notin> pipe_region i j"
    and x: "amap s pd pfd = Some x" "x AND PTE_W \<noteq> 0"
  shows "\<exists>s' ys q. pipe mc pfd s = Some (0, s') \<and> proc D c pd s' ys \<and> pipe_ends s' pd i j \<and>
    uload32 s' pfd = Some (of_nat i) \<and> uload32 s' (pfd + 4) = Some (of_nat j) \<and>
    fd_word s' pd (of_nat i) 2 = 0 \<and> fd_word s' pd (of_nat j) 2 = 1 \<and>
    map_option pte_page (amap s' pd (INDEX2DATA (of_nat i))) = Some q \<and> pp_ref s q = 0 \<and> (\<forall>k. unat k < 1024 \<longrightarrow> pw s' q k = 0) \<and>
    pipe_is_closed (of_nat i) s' = Some (0, s') \<and> pipe_is_closed (of_nat j) s' = Some (0, s') \<and>
    (\<forall>pd' \<in> D. \<forall>va. pd' \<noteq> pd \<or> VPN va \<notin> pipe_region i j \<longrightarrow> amap s' pd' va = amap s pd' va)"
  using pipe_ok [OF assms] .

lemma w_pipe_args:
  "\<forall>k < 1. k \<noteq> 0 \<longrightarrow> fd_open wsample 5 k" "amap wsample 5 (INDEX2DATA (of_nat 0)) = None" "amap wsample 5 (INDEX2DATA (of_nat 1)) = None"
  "amap wsample 5 0x400000 = Some (mk_pte 20 (PTE_R OR PTE_W OR PTE_U))" "mk_pte 20 (PTE_R OR PTE_W OR PTE_U) AND PTE_W \<noteq> 0"
  "VPN (0x400000 + 4) = VPN 0x400000" "VPN 0x400000 \<notin> pipe_region 0 1"
proof -
  show "\<forall>k < 1. k \<noteq> 0 \<longrightarrow> fd_open wsample 5 k" by simp
  show "amap wsample 5 (INDEX2DATA (of_nat 0)) = None" "amap wsample 5 (INDEX2DATA (of_nat 1)) = None"
    using w_unmapped [OF data_page(3) [of "of_nat 0" 0]] data_page(1) [of "of_nat 0" 0]
      w_unmapped [OF data_page(3) [of "of_nat 1" 0]] data_page(1) [of "of_nat 1" 0] by simp_all
  show "amap wsample 5 0x400000 = Some (mk_pte 20 (PTE_R OR PTE_W OR PTE_U))" using wuser [of "0x400000"] by (simp add: VPN_def)
  have "(PTE_R OR PTE_W OR PTE_U) AND PTE_W \<noteq> 0" by simp
  then show "mk_pte 20 (PTE_R OR PTE_W OR PTE_U) AND PTE_W \<noteq> 0" by (rule mk_pte_W)
  show "VPN (0x400000 + 4) = VPN 0x400000" by (simp add: VPN_def)
  have "unat (VPN 0x400000) = 0x400" by (simp add: VPN_def)
  then show "VPN 0x400000 \<notin> pipe_region 0 1"
    using fd_page(1) [of 0] fd_page(1) [of 1] data_page(1) [of 0 0] data_page(1) [of 1 0]
    by (auto simp: pipe_region_def dest: arg_cong [where f = unat])
qed

theorem pipe_creates_witness:
  "\<forall>mc. \<exists>s'. pipe mc 0x400000 wsample = Some (0, s') \<and> pipe_ends s' 5 0 1 \<and> uload32 s' 0x400000 = Some 0 \<and> uload32 s' 0x400004 = Some 1"
proof
  fix mc
  show "\<exists>s'. pipe mc 0x400000 wsample = Some (0, s') \<and> pipe_ends s' 5 0 1 \<and> uload32 s' 0x400000 = Some 0 \<and> uload32 s' 0x400004 = Some 1"
    using pipe_creates [where i = 0 and j = 1 and pfd = "0x400000" and mc = mc, OF w_proc _ _ _ w_fds w_fds w_pipe_args(1-3) _ _ w_pipe_args(6,7,4,5)]
    by auto
qed

text \<open>The counts after one end of a pipe is closed.\<close>

lemma pipe_close_refs:
  assumes p: "proc D c pd s xs" and i: "unat j < 32"
    and e: "amap s pd (INDEX2FD j) = Some e1" "amap s pd (INDEX2DATA j) = Some e3" "pte_page e1 \<noteq> pte_page e3"
    and d: "dev_lookup devtab (fd_word s pd j 0) = Inr (devpipe mc a rd wr)"
  shows "\<exists>s' ys. close mc devtab j s = Some (0, s') \<and> proc D c pd s' ys \<and> touches D pd {VPN (INDEX2FD j), VPN (INDEX2DATA j)} s s' \<and>
    amap s' pd (INDEX2FD j) = None \<and>
    (\<forall>q. pp_ref s' q = (if q = pte_page e1 \<or> q = pte_page e3 then pp_ref s q - 1 else pp_ref s q))"
proof -
  let ?R = "{VPN (INDEX2FD j), VPN (INDEX2DATA j)}"
  have P: "pd \<in> D" using procD(5) [OF p] .
  have l: "\<not> is_illegal_va (INDEX2DATA j)" using data_page(2) [OF i, of 0] by simp
  have v: "VPN (INDEX2DATA j) \<noteq> VPN (INDEX2FD j)"
    using data_page(1) [OF i, of 0] fd_page(1) [OF i] i by (auto simp: word_unat_eq_iff)
  from proc_unmap [OF p fd_page(2) [OF i]] e(1) obtain s1 ys where
    s1: "e_mem_unmap 0 (INDEX2FD j) s = Some (Returned 0, s1)" "proc D c pd s1 ys" "remaps D pd (INDEX2FD j) None s s1"
    "pp_ref s1 = (pp_ref s)(pte_page e1 := pp_ref s (pte_page e1) - 1)" by auto
  have "amap s1 pd (INDEX2DATA j) = Some e3" using remapsD(4) [OF s1(3) P] v e(2) by simp
  with proc_unmap [OF s1(2) l] obtain s2 zs where
    s2: "e_mem_unmap 0 (INDEX2DATA j) s1 = Some (Returned 0, s2)" "proc D c pd s2 zs" "remaps D pd (INDEX2DATA j) None s1 s2"
    "pp_ref s2 = (pp_ref s1)(pte_page e3 := pp_ref s1 (pte_page e3) - 1)" by auto
  have n: "amap s2 pd (INDEX2FD j) = None" using remapsD(4) [OF s2(3) P] remapsD(4) [OF s1(3) P] by simp
  with proc_unmap [OF s2(2) fd_page(2) [OF i]] obtain s' us where
    s': "e_mem_unmap 0 (INDEX2FD j) s2 = Some (Returned 0, s')" "proc D c pd s' us" "remaps D pd (INDEX2FD j) None s2 s'"
    "pp_ref s' = pp_ref s2" by auto
  have "touches D pd ?R s s1" "touches D pd ?R s1 s2" "touches D pd ?R s2 s'"
    using remaps_touches [OF p s1(2,3)] remaps_touches [OF s1(2) s2(2,3)] remaps_touches [OF s2(2) s'(2,3)] by (auto elim: touches_mono)
  then have "touches D pd ?R s s'" using touches_trans by blast
  moreover have "close mc devtab j s = Some (0, s')"
    using e(1) d s1(1) s2(1) s'(1) fd_page(5) [OF i]
    by (simp add: close_def with_dev_ok [OF p i] devpipe_def pipe_close_def fd_close_def)
  moreover have "\<forall>q. pp_ref s' q = (if q = pte_page e1 \<or> q = pte_page e3 then pp_ref s q - 1 else pp_ref s q)"
    using s1(4) s2(4) s'(4) e(3) by simp
  ultimately show ?thesis using s'(2) remapsD(4) [OF s'(3) P] n by auto
qed

text \<open>
  C21 (pipe_close_seen). When one end of a pipe is closed, the other sees it: \<open>pipe_is_closed\<close> goes from 0 to 1, because the
  page between the ends has as many references as the descriptor that is left. This is the same for both
  ends.
\<close>

theorem pipe_close_seen:
  assumes p: "proc D c pd s xs" and ends: "pipe_ends s pd i j \<or> pipe_ends s pd j i"
    and d: "dev_lookup devtab devpipe_id = Inr (devpipe mc a rd wr)"
  shows "\<exists>s' ys. pipe_is_closed (of_nat i) s = Some (0, s) \<and> close mc devtab (of_nat j) s = Some (0, s') \<and> proc D c pd s' ys \<and>
    pipe_is_closed (of_nat i) s' = Some (1, s') \<and> \<not> fd_open s' pd j"
proof -
  let ?i = "of_nat i :: u32" and ?j = "of_nat j :: u32"
  from ends obtain e0 e1 e2 e3 where ij: "i < 32" "j < 32" "i \<noteq> j"
    and e: "amap s pd (INDEX2FD ?i) = Some e0" "amap s pd (INDEX2FD ?j) = Some e1"
      "amap s pd (INDEX2DATA ?i) = Some e2" "amap s pd (INDEX2DATA ?j) = Some e3"
    and q: "pte_page e2 = pte_page e3" "distinct [pte_page e0, pte_page e1, pte_page e2]"
      "pp_ref s (pte_page e0) = 1" "pp_ref s (pte_page e1) = 1" "pp_ref s (pte_page e2) = 2"
    and w: "fd_word s pd ?j 0 = devpipe_id" unfolding pipe_ends_def by (elim disjE exE conjE) (auto intro: that)
  have u: "unat ?j < 32" using ij by (simp add: unat_of_nat)
  have ne: "pte_page e1 \<noteq> pte_page e3" using q by auto
  from pipe_close_refs [OF p u e(2,4) ne, of devtab mc a rd wr] d w obtain s' ys where
    s': "close mc devtab ?j s = Some (0, s')" "proc D c pd s' ys" "touches D pd {VPN (INDEX2FD ?j), VPN (INDEX2DATA ?j)} s s'"
    "amap s' pd (INDEX2FD ?j) = None"
    "\<forall>q. pp_ref s' q = (if q = pte_page e1 \<or> q = pte_page e3 then pp_ref s q - 1 else pp_ref s q)" by auto
  note pa = pipe_addresses [OF ij]
  have "amap s' pd (INDEX2FD ?i) = Some e0" "amap s' pd (INDEX2DATA ?i) = Some e2"
    using touchesD(3) [OF s'(3) procD(5) [OF p]] pa e by simp_all
  from pipe_is_closed_ok [OF s'(2) ij(1) this] pipe_is_closed_ok [OF p ij(1) e(1,3)] show ?thesis
    using s' q by (intro exI [of _ s'] exI [of _ ys]) (auto simp: fd_open_def)
qed

theorem pipe_close_seen_witness:
  "\<forall>mc a rd wr. \<exists>s s'. pipe_ends s 5 0 1 \<and> pipe_is_closed 1 s = Some (0, s) \<and> close mc [devpipe mc a rd wr] 0 s = Some (0, s') \<and>
     pipe_is_closed 1 s' = Some (1, s')"
proof (intro allI)
  fix mc a rd wr
  obtain s xs where s: "proc {5, 6} 0 5 s xs" "pipe_ends s 5 0 1"
    using pipe_ok [where i = 0 and j = 1 and pfd = "0x400000" and mc = mc, OF w_proc _ _ _ w_fds w_fds w_pipe_args(1-3) _ _ w_pipe_args(6,7,4,5)]
    by auto
  have "dev_lookup [devpipe mc a rd wr] devpipe_id = Inr (devpipe mc a rd wr)" by (simp add: devpipe_def)
  from pipe_close_seen [OF s(1) disjI2 [OF s(2)] this] s(2) show
    "\<exists>s s'. pipe_ends s 5 0 1 \<and> pipe_is_closed 1 s = Some (0, s) \<and> close mc [devpipe mc a rd wr] 0 s = Some (0, s') \<and>
     pipe_is_closed 1 s' = Some (1, s')" by (simp; blast)
qed

end
