(* ===== verification/FsInit.thy ===== *)
theory FsInit
  imports FsDir
begin

text \<open>
  The start of the file system: on a server that has cached nothing, \<open>fs_init\<close> succeeds exactly on a disk with a
  proper superblock and bitmap; it establishes the invariant \<open>fs_ok\<close>, and leaves the disk as it was although it
  writes a test pattern over the superblock on the way.
\<close>

section \<open>Blocks before the bitmap is there\<close>

lemma read_block_early:
  assumes "super s \<noteq> 0 \<Longrightarrow> \<exists>n. s_nblocks s = Some n \<and> b < n" "bitmap s = 0" "b \<le> MAXBLK" "kalloc s = []"
  obtains s' where "read_block b s = Some ((baddr b, \<not> cached s b), s')" "loads s s'" "\<And>c. cached s' c = (c = b \<or> cached s c)"
proof -
  have r: "read_block b s = (if cached s b then Some ((baddr b, False), s)
      else do { s \<leftarrow> ecall_read_disk (b * SECT2BLK) 0 (baddr b) SECT2BLK (snd (ecall_mem_alloc (baddr b) s)); Some ((baddr b, True), s) })"
    using assms by (cases "super s = 0") (auto simp: read_block_def block_is_mapped_def va_is_mapped_def cached_def)
  show thesis
  proof (cases "cached s b")
    case True
    then show thesis using r that [of s] by auto
  next
    case False
    obtain s' where "ecall_read_disk (b * SECT2BLK) 0 (baddr b) SECT2BLK (snd (ecall_mem_alloc (baddr b) s)) = Some s'"
      "loads s s'" "\<And>c. cached s' c = (c = b \<or> cached s c)" by (rule load_block [OF assms(3,4) False]) blast
    then show thesis using r False that [of s'] by simp
  qed
qed

text \<open>\<open>memcpy\<close> of the page of one block over another.\<close>

lemma copy_block:
  assumes "cached s a" "cached s b" "a \<le> MAXBLK" "b \<le> MAXBLK" "a \<noteq> b"
  obtains s' where "copy_page (baddr a) (baddr b) s = Some s'" "s' = s\<lparr>vm := vm s'\<rparr>"
    "\<And>i. i < 4096 \<Longrightarrow> blk_cache s' a i = blk_cache s b i"
    "\<And>c i. c \<le> MAXBLK \<Longrightarrow> c \<noteq> a \<Longrightarrow> i < 4096 \<Longrightarrow> blk_cache s' c i = blk_cache s c i"
proof -
  have "copy_ok (baddr a) (baddr b) BY2PG"
    using assms unat_baddr [of a] unat_baddr [of b] by (auto simp: copy_ok_def word_le_nat_alt word_unat_eq_iff)
  from memcpy_copies [OF this, of "vm s"]
  have "copy_page (baddr a) (baddr b) s = Some (s\<lparr>vm := mem_copy (vm s) (baddr a) (baddr b) 4096\<rparr>)"
    using assms by (simp add: copy_page_def cached_def)
  moreover have "blk_cache (s\<lparr>vm := mem_copy (vm s) (baddr a) (baddr b) 4096\<rparr>) a i = blk_cache s b i" if "i < 4096" for i
    using that in_block [OF assms(3), of "baddr a + of_nat i"] VPN_baddr [OF assms(3) that] by (simp add: blk_cache_def mem_copy_def)
  moreover have "blk_cache (s\<lparr>vm := mem_copy (vm s) (baddr a) (baddr b) 4096\<rparr>) c i = blk_cache s c i"
    if "c \<le> MAXBLK" "c \<noteq> a" "i < 4096" for c i
    using that in_block [OF assms(3), of "baddr c + of_nat i"] VPN_baddr [OF that(1,3)] by (simp add: blk_cache_def mem_copy_def)
  ultimately show thesis by (intro that [of "s\<lparr>vm := mem_copy (vm s) (baddr a) (baddr b) 4096\<rparr>"]) simp_all
qed

section \<open>The write test\<close>

text \<open>The state between \<open>read_super\<close> and \<open>read_bitmap\<close>: the boot block and the superblock are cached, nothing else.\<close>

definition only_cached :: "u32 set \<Rightarrow> 'z fs_st_scheme \<Rightarrow> bool" where
  "only_cached A s \<longleftrightarrow> (\<forall>b. b < MAXBLK \<longrightarrow> cached s b = (b \<in> A))"

lemma disk_ext:
  assumes "\<And>c i. i < 4096 \<Longrightarrow> blk_disk s' c i = blk_disk s c i" "\<And>x. 4096 * 2 ^ 32 \<le> x \<Longrightarrow> disk s' x = disk s x"
  shows "disk s' = disk s"
proof (rule ext)
  fix x
  show "disk s' x = disk s x"
  proof (cases "4096 * 2 ^ 32 \<le> x")
    case False
    then have "unat (of_nat (x div 4096) :: u32) = x div 4096" by (intro unat_of_nat32) (simp add: less_mult_imp_div_less)
    then show ?thesis using assms(1) [of "x mod 4096" "of_nat (x div 4096)"] by (simp add: blk_disk_def)
  qed (rule assms(2))
qed

lemma check_write_block_ok:
  assumes s: "bitmap s = 0" "kalloc s = []" "only_cached {1} s" "\<And>i. i < 4096 \<Longrightarrow> blk_cache s 1 i = blk_disk s 1 i"
  obtains s' where "check_write_block s = Some s'" "super s' = baddr 1" "bitmap s' = 0" "kalloc s' = []" "disk s' = disk s"
    "only_cached {0, 1} s'" "\<And>i. i < 4096 \<Longrightarrow> blk_cache s' 1 i = blk_disk s 1 i"
proof -
  define s0 where "s0 = s\<lparr>super := 0\<rparr>"
  have s0: "super s0 = 0" "bitmap s0 = 0" "kalloc s0 = []" "disk s0 = disk s" "cached s0 = cached s" "blk_cache s0 = blk_cache s"
    using s by (simp_all add: s0_def cached_def [abs_def] blk_cache_def [abs_def])
  obtain s1 where s1: "read_block 0 s0 = Some ((baddr 0, \<not> cached s0 0), s1)" "loads s0 s1" "\<And>c. cached s1 c = (c = 0 \<or> cached s c)"
    using s0 by (auto intro: read_block_early [of s0 0])
  have ca1: "cached s1 0" "cached s1 1" "only_cached {0, 1} s1" using s1(3) s(3) by (auto simp: only_cached_def)
  obtain s2 where s2: "copy_page (baddr 0) (baddr 1) s1 = Some s2" "s2 = s1\<lparr>vm := vm s2\<rparr>"
    "\<And>i. i < 4096 \<Longrightarrow> blk_cache s2 0 i = blk_cache s1 1 i"
    by (rule copy_block [OF ca1(1,2)]) (simp, simp, simp, rule that, assumption+)
  have "cached s2 1" using ca1 by (subst s2(2)) (simp add: cached_def)
  then obtain s3 where s3: "put_str (baddr 1) oops_msg s2 = Some s3" "s3 = s2\<lparr>vm := vm s3\<rparr>"
     "\<And>a. VPN a \<noteq> 0x10000 + 1 \<Longrightarrow> vm s3 a = vm s2 a"
     "\<And>j. j < 4096 \<Longrightarrow> blk_cache s3 1 j = (if j < 6 then oops_msg ! j else if j = 6 then 0 else blk_cache s2 1 j)"
    using put_str_block [of s2 1 0 oops_msg] by (auto simp: oops_msg_def)
  have f3: "super s3 = 0" "bitmap s3 = 0" "kalloc s3 = []" "disk s3 = disk s" "cached s3 = cached s1"
    using s0 loadsD [OF s1(2)] by (subst s3(2), subst s2(2), simp add: cached_def [abs_def])+
  have b3: "blk_cache s3 0 i = blk_disk s 1 i" if "i < 4096" for i
    using s3(3) [of "baddr 0 + of_nat i"] VPN_baddr [of 0 i] that s2(3) [OF that] loads_blk_cache [OF s1(2), of 1 i] s(3,4) s0
    by (simp add: blk_cache_def only_cached_def)
  define s4 where "s4 = snd (ecall_mem_unmap (baddr 1) (flushed 1 s3))"
  have s4': "s4 = (flushed 1 s3)\<lparr>pte_v := (pte_v s3)(0x10001 := False)\<rparr>"
    by (simp add: s4_def ecall_mem_unmap_def baddr_legal)
  have f4: "super s4 = 0" "bitmap s4 = 0" "kalloc s4 = []" "disk s4 = disk (flushed 1 s3)" "vm s4 = vm s3"
    using f3 by (simp_all add: s4')
  have ca4: "cached s4 c = (c \<noteq> 1 \<and> cached s3 c)" for c by (simp add: s4' cached_def)
  obtain s5 where s5: "read_block 1 s4 = Some ((baddr 1, \<not> cached s4 1), s5)" "loads s4 s5" "\<And>c. cached s5 c = (c = 1 \<or> cached s4 c)"
    using f4 by (auto intro: read_block_early [of s4 1])
  have ca5: "cached s5 c = cached s1 c" for c using s5(3) ca4 f3(5) ca1 by auto
  then have ca5': "cached s5 0" "cached s5 1" using ca1 by simp_all
  have b5: "blk_cache s5 1 i = blk_cache s3 1 i" "blk_cache s5 0 i = blk_disk s 1 i" if "i < 4096" for i
  proof -
    show "blk_cache s5 1 i = blk_cache s3 1 i"
      using loadsD(8) [OF s5(2), of 1 i] that ca4 [of 1] s5(3) blk_disk_flushed [OF that, of 1 s3 1] f4(4) by (simp add: blk_disk_def)
    show "blk_cache s5 0 i = blk_disk s 1 i"
      using loads_blk_cache [OF s5(2), of 0 i] that ca4 [of 0] f3(5) ca1 f4(5) b3 [OF that] by (simp add: blk_cache_def)
  qed
  have eq: "str_eq oops_msg (baddr 1) s5 = Some True"
    using str_eq_block [of s5 1 0 oops_msg] ca5 ca1 b5(1) s3(4) by (auto simp: oops_msg_def blk_view_def)
  obtain s6 where s6: "copy_page (baddr 1) (baddr 0) s5 = Some s6" "s6 = s5\<lparr>vm := vm s6\<rparr>"
    "\<And>i. i < 4096 \<Longrightarrow> blk_cache s6 1 i = blk_cache s5 0 i"
    by (rule copy_block [OF ca5'(2,1)]) (simp, simp, simp, rule that, assumption+)
  have f6: "bitmap s6 = 0" "kalloc s6 = []" "disk s6 = disk (flushed 1 s3)" "cached s6 = cached s1"
    using f4 loadsD [OF s5(2)] ca5 by (subst s6(2), simp add: cached_def [abs_def] fun_eq_iff)+
  define s7 where "s7 = (flushed 1 s6)\<lparr>super := baddr 1\<rparr>"
  have "block_is_mapped 1 (flushed 1 s3) = Some (baddr 1)" "block_is_mapped 1 s4 = Some 0"
    using f3(5) ca1(2) ca4 [of 1] by (simp_all add: block_is_mapped_def va_is_mapped_def cached_def [symmetric] cached_def [of _ 1, simplified, symmetric])
  then have "check_write_block s = Some s7"
    using s1(1) s2(1) s3(1) s5(1) s6(1) eq f3(5) f6(4) ca1
    by (simp add: check_write_block_def s0_def [symmetric] write_block_eq s4_def [symmetric] s7_def)
  moreover have "disk s7 = disk s"
  proof (rule disk_ext)
    fix c i assume i: "(i :: nat) < 4096"
    have "blk_disk s7 c i = blk_disk (flushed 1 s6) c i" by (simp add: s7_def blk_disk_def)
    also have "\<dots> = (if c = 1 then blk_cache s6 1 i else blk_disk s6 c i)" by (rule blk_disk_flushed [OF i])
    also have "blk_cache s6 1 i = blk_disk s 1 i" using s6(3) b5(2) i by simp
    also have "blk_disk s6 c i = blk_disk (flushed 1 s3) c i" by (simp add: blk_disk_def f6)
    also have "\<dots> = (if c = 1 then blk_cache s3 1 i else blk_disk s3 c i)" by (rule blk_disk_flushed [OF i])
    finally show "blk_disk s7 c i = blk_disk s c i" using f3(4) by (simp add: blk_disk_def)
  qed (simp add: s7_def flushed_def f6 f3)
  moreover have "blk_cache s7 1 i = blk_disk s 1 i" if "i < 4096" for i
    using s6(3) [OF that] b5(2) [OF that] by (simp add: s7_def blk_cache_def)
  ultimately show thesis using f6 ca1(3) by (intro that [of s7]) (simp_all add: s7_def only_cached_def cached_def [abs_def])
qed

section \<open>The bitmap as the disk has it\<close>

text \<open>The word of the bitmap that holds the bit of a block: block of the bitmap and offset in it.\<close>

definition view_bits :: "'z fs_st_scheme \<Rightarrow> u32 \<Rightarrow> u32" where
  "view_bits s b = view32 s (b div BIT2BLK + 2) (4 * (unat b mod 0x8000 div 32))"

definition view_free :: "'z fs_st_scheme \<Rightarrow> u32 set" where
  "view_free s = {b. b < view32 s 1 4 \<and> bit (view_bits s b) (unat (b mod 32))}"

lemma bit_word_block:
  assumes "bitmap s = baddr 2" "b < MAXBLK"
  shows "bit_word b s = baddr (b div BIT2BLK + 2) + of_nat (4 * (unat b mod 0x8000 div 32))"
proof -
  have lt: "4 * (unat b mod 0x8000 div 32) < 4096"
    using less_mult_imp_div_less [of "unat b mod 0x8000" 1024 32] by simp
  have "unat b div 32 = 1024 * (unat b div 0x8000) + unat b mod 0x8000 div 32"
    using div_mult2_eq [of "unat b" 32 1024] div_mult_mod_eq [of "unat b div 32" 1024] mod_mult2_eq [of "unat b" 32 1024]
    by simp
  moreover have "unat (b div BIT2BLK + 2) = unat b div 0x8000 + 2"
    using assms(2) by (simp add: unat_word_ariths unat_div word_less_nat_alt)
  ultimately have "unat (bit_word b s) = unat (baddr (b div BIT2BLK + 2) + of_nat (4 * (unat b mod 0x8000 div 32)))"
    unfolding unat_bit_word [OF assms] unat_baddr_add [OF bitmap_block_le [OF assms(2)] lt] by simp
  then show ?thesis by (simp only: word_unat_eq_iff)
qed

lemma view_bits_cached:
  assumes "bitmap s = baddr 2" "b < MAXBLK" "cached s (b div BIT2BLK + 2)"
  shows "load32 (vm s) (bit_word b s) = view_bits s b"
proof -
  have "4 * (unat b mod 0x8000 div 32) + 4 \<le> 4096"
    using less_mult_imp_div_less [of "unat b mod 0x8000" 1024 32] by simp
  from view32_cached [OF assms(3) this] show ?thesis
    unfolding bit_word_block [OF assms(1,2)] view_bits_def .
qed

lemma view32_cong:
  assumes "\<And>i. i < 4096 \<Longrightarrow> blk_view s' b i = blk_view s b i" "k + 4 \<le> 4096"
  shows "view32 s' b k = view32 s b k"
proof -
  have "blk_view s' b (unat (of_nat k + of_nat j :: u32)) = blk_view s b (unat (of_nat k + of_nat j :: u32))" if "j < 4" for j
    using assms that by (intro assms(1)) (simp_all add: unat_of_nat flip: of_nat_add)
  then show ?thesis unfolding view32_def by (rule load32_cong)
qed

text \<open>What \<open>fs_init\<close> leaves before the assertions on the bitmap.\<close>

definition placed :: "'z fs_st_scheme \<Rightarrow> bool" where
  "placed s \<longleftrightarrow> super s = baddr 1 \<and> bitmap s = baddr 2 \<and> cached s 1 \<and> nblocks s \<le> MAXBLK \<and>
     (\<forall>b<nblocks s. cached s (b div BIT2BLK + 2))"

lemma placed_fs_ok: "fs_ok s \<longleftrightarrow> placed s \<and> (\<forall>b\<in>free_blocks s. nblocks s div BIT2BLK + 2 < b)"
  by (auto simp: placed_def fs_ok_def)

lemma placed_view:
  assumes "placed s"
  shows "nblocks s = view32 s 1 4" "free_blocks s = view_free s"
proof -
  show n: "nblocks s = view32 s 1 4" using assms view32_cached [of s 1 4] by (simp add: placed_def nblocks_def)
  have "load32 (vm s) (bit_word b s) = view_bits s b" if "b < nblocks s" for b
    using that assms by (intro view_bits_cached) (auto simp: placed_def dest: less_le_trans)
  then show "free_blocks s = view_free s" using n by (auto simp: free_blocks_def view_free_def)
qed

lemma placed_is_free:
  assumes "placed s"
  shows "block_is_free b s = Some (b \<in> free_blocks s)"
proof (cases "b < nblocks s")
  case True
  then have "b < MAXBLK" "\<not> nblocks s \<le> b" using assms by (auto simp: placed_def dest: less_le_trans)
  then show ?thesis using True assms VPN_bit_word [of s b]
    by (simp add: block_is_free_def placed_def s_nblocks_eq free_blocks_def ldw_def cached_def and_bit_mask)
next
  case False
  then show ?thesis using assms by (simp add: block_is_free_def placed_def s_nblocks_eq free_blocks_def not_less)
qed

lemma assert_used_eq:
  "placed s \<Longrightarrow> assert_used bs s = (if \<forall>b\<in>set bs. b \<notin> free_blocks s then Some () else None)"
  by (induction bs) (auto simp: placed_is_free)

lemma read_blocks_ok:
  assumes "super s = baddr 1" "bitmap s = 0" "cached s 1" "kalloc s = []" "nblocks s \<le> MAXBLK" "\<forall>b\<in>set bs. b < nblocks s"
  shows "\<exists>s'. read_blocks bs s = Some s' \<and> loads s s' \<and> (\<forall>c. cached s' c = (c \<in> set bs \<or> cached s c))"
  using assms
proof (induction bs arbitrary: s)
  case (Cons b bs)
  have n: "s_nblocks s = Some (nblocks s)" "b < nblocks s" using Cons.prems s_nblocks_eq by auto
  then have "b \<le> MAXBLK" using Cons.prems(5) by simp
  then obtain s1 where s1: "read_block b s = Some ((baddr b, \<not> cached s b), s1)" "loads s s1" "\<And>c. cached s1 c = (c = b \<or> cached s c)"
    using n Cons.prems by (auto intro: read_block_early [of s b])
  have "nblocks s1 = nblocks s"
    using loads_load32 [OF s1(2) aligned_super] Cons.prems loadsD(1) [OF s1(2)] by (simp add: nblocks_def VPN_super cached_def)
  then obtain s2 where "read_blocks bs s1 = Some s2" "loads s1 s2" "\<forall>c. cached s2 c = (c \<in> set bs \<or> cached s1 c)"
    using Cons.IH [of s1] Cons.prems loadsD [OF s1(2)] s1(3) by auto
  then show ?case using s1 loads_trans [OF s1(2)] by auto
qed simp

text \<open>The blocks of the bitmap; \<open>nbit_map\<close> of them.\<close>

lemma bitmap_blocks:
  assumes "n \<le> MAXBLK"
  shows "b \<in> set (map (\<lambda>i. i + 2) (upto_w 0 (n div BIT2BLK + 1))) \<longleftrightarrow> 2 \<le> b \<and> b \<le> n div BIT2BLK + 2"
proof -
  have u: "unat (n div BIT2BLK + 1) = unat n div 0x8000 + 1" "unat (n div BIT2BLK + 2) = unat n div 0x8000 + 2" "unat n div 0x8000 \<le> 8"
    using assms by (simp_all add: unat_word_ariths unat_div word_le_nat_alt)
  define q where "q = unat n div 0x8000"
  have "b = (b - 2) + 2 \<and> b - 2 < n div BIT2BLK + 1" if "2 \<le> b" "b \<le> n div BIT2BLK + 2"
  proof -
    have "unat (b - 2) = unat b - 2" using that(1) by (simp add: unat_sub)
    then have "b - 2 < n div BIT2BLK + 1"
      using that u(1,2) unfolding word_le_nat_alt word_less_nat_alt q_def [symmetric] by simp
    then show ?thesis by simp
  qed
  moreover have "2 \<le> i + 2 \<and> i + 2 \<le> n div BIT2BLK + 2" if "i < n div BIT2BLK + 1" for i
  proof -
    have "unat i < 9" using that u(1,3) unfolding word_less_nat_alt q_def [symmetric] by simp
    then have "unat (i + 2) = unat i + 2" by (simp add: unat_word_ariths)
    then show ?thesis using that u(1,2) unfolding word_le_nat_alt word_less_nat_alt q_def [symmetric] by simp
  qed
  ultimately show ?thesis by (auto simp: upto_w_less intro!: image_eqI [of _ _ "b - 2"])
qed

section \<open>fs_init\<close>

text \<open>A server that has cached nothing.\<close>

definition fresh :: "'z fs_st_scheme \<Rightarrow> bool" where
  "fresh s \<longleftrightarrow> super s = 0 \<and> bitmap s = 0 \<and> kalloc s = [] \<and> only_cached {} s"

text \<open>A disk on which the superblock and the bitmap are what the server expects.\<close>

definition image_ok :: "'z fs_st_scheme \<Rightarrow> bool" where
  "image_ok s \<longleftrightarrow> view32 s 1 0 = FS_MAGIC \<and> 3 \<le> view32 s 1 4 \<and> view32 s 1 4 \<le> MAXBLK \<and>
     (\<forall>b\<in>view_free s. view32 s 1 4 div BIT2BLK + 2 < b)"

text \<open>The server after \<open>check_write_block\<close>.\<close>

definition tested :: "'z fs_st_scheme \<Rightarrow> 'z fs_st_scheme \<Rightarrow> bool" where
  "tested s t \<longleftrightarrow> super t = baddr 1 \<and> bitmap t = 0 \<and> kalloc t = [] \<and> disk t = disk s \<and> only_cached {0, 1} t \<and>
     (\<forall>i<4096. blk_cache t 1 i = blk_disk s 1 i)"

lemma tested_view:
  assumes "only_cached {} s" "tested s t" "b < MAXBLK" "b \<noteq> 0" "i < 4096"
  shows "blk_view t b i = blk_view s b i"
  using assms by (auto simp: tested_def only_cached_def blk_view_def blk_disk_def)

lemma read_super_test:
  assumes "fresh s"
  shows "\<exists>t. tested s t \<and> do { s \<leftarrow> read_super s; check_write_block s } =
     (if view32 s 1 0 = FS_MAGIC \<and> view32 s 1 4 \<le> MAXBLK then Some t else None)"
proof -
  have f: "super s = 0" "bitmap s = 0" "kalloc s = []" "only_cached {} s" using assms by (simp_all add: fresh_def)
  obtain s1 where s1: "read_block 1 s = Some ((baddr 1, \<not> cached s 1), s1)" "loads s s1" "\<And>c. cached s1 c = (c = 1 \<or> cached s c)"
    using f by (auto intro: read_block_early [of s 1])
  define s2 where "s2 = s1\<lparr>super := baddr 1\<rparr>"
  have f1: "bitmap s2 = 0" "kalloc s2 = []" "disk s2 = disk s" "cached s2 = cached s1" "blk_cache s2 = blk_cache s1" "vm s2 = vm s1"
    "super s2 = baddr 1"
    using loadsD [OF s1(2)] f by (simp_all add: s2_def cached_def [abs_def] blk_cache_def [abs_def])
  have ca: "cached s1 1" "only_cached {1} s2" "\<not> cached s 1" using s1(3) f(4) f1 by (auto simp: only_cached_def)
  have b1: "blk_cache s2 1 i = blk_disk s2 1 i" if "i < 4096" for i
    using loadsD(8) [OF s1(2), of 1 i] ca that f1 by (simp add: blk_disk_def)
  have v: "load32 (vm s2) (baddr 1 + of_nat k) = view32 s 1 k" if "k + 4 \<le> 4096" for k
    using view32_cached [OF ca(1) that] view32_loads [OF s1(2) _ that, of 1] f1 by simp
  have "pte_v s2 (VPN (baddr 1))" "pte_v s2 (VPN (baddr 1 + 4))" using ca(1) by (simp_all add: s2_def cached_def VPN_super)
  then have "ldw (baddr 1) s2 = Some (view32 s 1 0)" "s_nblocks s2 = Some (view32 s 1 4)"
    using v [of 0] v [of 4] f1(7) by (simp_all add: ldw_def s_nblocks_def)
  then have rs: "read_super s = (if view32 s 1 0 = FS_MAGIC \<and> view32 s 1 4 \<le> MAXBLK then Some s2 else None)"
    using s1(1) f1(7) by (auto simp: read_super_def s2_def [symmetric] c_assert_def not_less)
  obtain t where "check_write_block s2 = Some t" "super t = baddr 1" "bitmap t = 0" "kalloc t = []" "disk t = disk s2"
    "only_cached {0, 1} t" "\<And>i. i < 4096 \<Longrightarrow> blk_cache t 1 i = blk_disk s2 1 i"
    by (rule check_write_block_ok [OF f1(1,2) ca(2) b1]) (assumption, rule that, assumption+)
  then show ?thesis using rs f1(3) by (intro exI [of _ t]) (auto simp: tested_def blk_disk_def)
qed

lemma read_bitmap_small:
  assumes "super s = baddr 1" "cached s 1" "nblocks s < 3"
  shows "read_bitmap s = None"
proof -
  have d: "nblocks s div BIT2BLK = 0" using assms(3) by (simp add: word_unat_eq_iff unat_div word_less_nat_alt)
  have "read_block 2 s = None"
    using assms s_nblocks_eq [OF assms(1,2)] by (simp add: read_block_def) (simp add: c_assert_def word_less_nat_alt)
  then show ?thesis using assms s_nblocks_eq [OF assms(1,2)] by (simp add: read_bitmap_def d upto_w_def)
qed

lemma read_bitmap_ok:
  assumes t: "super t = baddr 1" "bitmap t = 0" "kalloc t = []" "cached t 1" and n: "3 \<le> nblocks t" "nblocks t \<le> MAXBLK"
  obtains u where "placed (u\<lparr>bitmap := baddr 2\<rparr>)" "loads t u" "nblocks u = nblocks t"
    "read_bitmap t = (if \<forall>b\<in>free_blocks (u\<lparr>bitmap := baddr 2\<rparr>). nblocks t div BIT2BLK + 2 < b
       then Some (u\<lparr>bitmap := baddr 2\<rparr>) else None)"
proof -
  let ?n = "nblocks t" and ?bs = "map (\<lambda>i. i + 2) (upto_w 0 (nblocks t div BIT2BLK + 1))"
  have le: "unat (?n div BIT2BLK + 2) = unat ?n div 0x8000 + 2"
    using n(2) by (simp add: unat_word_ariths unat_div word_le_nat_alt)
  have "unat ?n div 0x8000 + 2 < unat ?n" using n(1) by (simp add: word_le_nat_alt)
  then have "?n div BIT2BLK + 2 < ?n" using le by (simp add: word_less_nat_alt)
  then have bs: "\<forall>b\<in>set ?bs. b < ?n" using bitmap_blocks [OF n(2)] le_less_trans by blast
  obtain u where u: "read_blocks ?bs t = Some u" "loads t u" "\<forall>c. cached u c = (c \<in> set ?bs \<or> cached t c)"
    using read_blocks_ok [OF t(1,2,4,3) n(2) bs] by blast
  let ?u = "u\<lparr>bitmap := baddr 2\<rparr>"
  have nu: "nblocks u = ?n" using loads_load32 [OF u(2) aligned_super] t loadsD(1) [OF u(2)]
    by (simp add: nblocks_def VPN_super cached_def)
  have "cached u (b div BIT2BLK + 2)" if "b < ?n" for b
  proof -
    have "unat b div 0x8000 \<le> unat ?n div 0x8000" using that by (intro div_le_mono) (simp add: word_less_nat_alt)
    moreover have "unat (b div BIT2BLK + 2) = unat b div 0x8000 + 2"
      using that n(2) by (simp add: unat_word_ariths unat_div word_le_nat_alt word_less_nat_alt)
    ultimately have "b div BIT2BLK + 2 \<in> set ?bs" unfolding bitmap_blocks [OF n(2)] using le by (simp add: word_le_nat_alt)
    then show ?thesis using u(3) by blast
  qed
  moreover have "nblocks ?u = nblocks u" "cached ?u = cached u" "cached u 1" using t(4) u(3) by (simp_all add: nblocks_def cached_def [abs_def])
  ultimately have pl: "placed ?u" using t(1) loadsD(1) [OF u(2)] n(2) nu by (simp add: placed_def)
  have "(\<forall>b\<in>set ([0, 1] @ ?bs). b \<notin> free_blocks ?u) \<longleftrightarrow> (\<forall>b\<in>free_blocks ?u. ?n div BIT2BLK + 2 < b)"
  proof -
    have "b \<in> set ([0, 1] @ ?bs) \<longleftrightarrow> \<not> ?n div BIT2BLK + 2 < b" for b
    proof -
      have "b = 0 \<or> b = 1 \<longleftrightarrow> \<not> 2 \<le> b" by (auto simp: word_le_nat_alt word_unat_eq_iff)
      moreover have "b = 0 \<or> b = 1 \<Longrightarrow> b \<le> ?n div BIT2BLK + 2" using le by (auto simp: word_le_nat_alt)
      ultimately show ?thesis using bitmap_blocks [OF n(2), of b] by (auto simp: not_less)
    qed
    then show ?thesis by blast
  qed
  then have ch: "(\<forall>b\<in>free_blocks ?u. ?n div BIT2BLK + 2 < b) \<longleftrightarrow>
      (\<forall>b\<in>set [0, 1]. b \<notin> free_blocks ?u) \<and> (\<forall>b\<in>set ?bs. b \<notin> free_blocks ?u)" by auto
  have "read_bitmap t = do { assert_used [0, 1] ?u; assert_used ?bs ?u; Some ?u }"
    using s_nblocks_eq [OF t(1,4)] u(1) by (simp add: read_bitmap_def Let_def del: assert_used.simps)
  then have "read_bitmap t = (if \<forall>b\<in>free_blocks ?u. ?n div BIT2BLK + 2 < b then Some ?u else None)"
    unfolding assert_used_eq [OF pl] ch by (simp del: list.set_map)
  then show thesis using that pl u(2) nu by blast
qed

lemma view_free_tested:
  assumes "\<And>b i. b < MAXBLK \<Longrightarrow> b \<noteq> 0 \<Longrightarrow> i < 4096 \<Longrightarrow> blk_view s' b i = blk_view s b i" "view32 s 1 4 \<le> MAXBLK"
  shows "view_free s' = view_free s"
proof -
  have n: "view32 s' 1 4 = view32 s 1 4" using assms(1) by (intro view32_cong) auto
  have "view_bits s' b = view_bits s b" if "b < view32 s 1 4" for b
  proof -
    have "b < MAXBLK" using that assms(2) by simp
    then have "unat (b div BIT2BLK + 2) = unat b div 0x8000 + 2" "unat b div 0x8000 < 8"
      by (simp_all add: unat_word_ariths unat_div word_less_nat_alt less_mult_imp_div_less)
    then have "b div BIT2BLK + 2 < MAXBLK" "b div BIT2BLK + 2 \<noteq> 0" by (auto simp: word_less_nat_alt word_unat_eq_iff)
    moreover have "4 * (unat b mod 0x8000 div 32) + 4 \<le> 4096"
      using less_mult_imp_div_less [of "unat b mod 0x8000" 1024 32] by simp
    ultimately show ?thesis unfolding view_bits_def using assms(1) by (intro view32_cong) auto
  qed
  then show ?thesis using n by (auto simp: view_free_def)
qed

lemma fs_init_eq:
  assumes "fresh s"
  obtains s' where "fs_init s = (if image_ok s then Some s' else None)" "image_ok s \<Longrightarrow> fs_ok s'"
    "image_ok s \<Longrightarrow> kalloc s' = [] \<and> disk s' = disk s \<and> nblocks s' = view32 s 1 4 \<and> free_blocks s' = view_free s"
    "\<And>b i. image_ok s \<Longrightarrow> b < MAXBLK \<Longrightarrow> b \<noteq> 0 \<Longrightarrow> i < 4096 \<Longrightarrow> blk_view s' b i = blk_view s b i"
proof -
  have f: "only_cached {} s" using assms by (simp add: fresh_def)
  obtain t where t: "tested s t" "do { s \<leftarrow> read_super s; check_write_block s } =
     (if view32 s 1 0 = FS_MAGIC \<and> view32 s 1 4 \<le> MAXBLK then Some t else None)"
    using read_super_test [OF assms] by blast
  have tt: "super t = baddr 1" "bitmap t = 0" "kalloc t = []" "cached t 1" "disk t = disk s"
    using t(1) by (auto simp: tested_def only_cached_def)
  note tv = tested_view [OF f t(1)]
  have nt: "nblocks t = view32 s 1 4"
    using view32_cached [OF tt(4), of 4] tt(1) tv [of 1] view32_cong [of t 1 s 4] by (simp add: nblocks_def)
  have init: "fs_init s = (if view32 s 1 0 = FS_MAGIC \<and> view32 s 1 4 \<le> MAXBLK then read_bitmap t else None)"
    using t(2) by (cases "read_super s") (auto simp: fs_init_def split: if_splits)
  show thesis
  proof (cases "3 \<le> view32 s 1 4 \<and> view32 s 1 4 \<le> MAXBLK")
    case False
    then have "fs_init s = None" using init read_bitmap_small [OF tt(1,4)] nt by (auto simp: not_le)
    then show thesis using False that [of t] by (auto simp: image_ok_def)
  next
    case True
    then have n: "3 \<le> nblocks t" "nblocks t \<le> MAXBLK" using nt by simp_all
    obtain u where u: "placed (u\<lparr>bitmap := baddr 2\<rparr>)" "loads t u" "nblocks u = nblocks t"
      "read_bitmap t = (if \<forall>b\<in>free_blocks (u\<lparr>bitmap := baddr 2\<rparr>). nblocks t div BIT2BLK + 2 < b
         then Some (u\<lparr>bitmap := baddr 2\<rparr>) else None)"
      by (rule read_bitmap_ok [OF tt(1-4) n])
    let ?u = "u\<lparr>bitmap := baddr 2\<rparr>"
    have view: "blk_view ?u b i = blk_view s b i" if "b < MAXBLK" "b \<noteq> 0" "i < 4096" for b i
    proof -
      have "blk_view ?u b i = blk_view u b i" by (simp add: blk_view_def cached_def blk_cache_def blk_disk_def)
      then show ?thesis using tv [OF that] loads_view [OF u(2) that(1,3)] by simp
    qed
    have fr: "free_blocks ?u = view_free s" "nblocks ?u = view32 s 1 4"
      using placed_view(2) [OF u(1)] view_free_tested [OF view] True u(3) nt by (simp_all add: nblocks_def)
    show thesis
    proof (rule that [of ?u])
      show "fs_init s = (if image_ok s then Some ?u else None)"
        using init u(4) True nt by (auto simp: image_ok_def fr(1))
      show "image_ok s \<Longrightarrow> fs_ok ?u" using u(1) fr by (simp add: placed_fs_ok image_ok_def)
      show "image_ok s \<Longrightarrow> kalloc ?u = [] \<and> disk ?u = disk s \<and> nblocks ?u = view32 s 1 4 \<and> free_blocks ?u = view_free s"
        using fr loadsD [OF u(2)] tt by simp
    qed (rule view)
  qed
qed

end
