(* ===== verification/Fsformat.thy ===== *)
theory Fsformat
  imports FsInit
begin

text \<open>
  \<^verbatim>\<open>tools/fsformat.c\<close>, the host program that writes the disk image from host files. Its state is the array
  \<open>disk[NBLOCK]\<close> with the types of the blocks, the structure \<open>super\<close> and the counters; a \<open>struct File *\<close> points into
  \<open>super\<close> or into the data of a block. \<open>None\<close> stands for \<open>exit\<close>, a failed \<open>assert\<close> and an access outside \<open>disk\<close>. The host
  is little-endian.
\<close>

section \<open>State\<close>

datatype place = Super | Blk nat

record fmt =
  img :: "place \<Rightarrow> nat \<Rightarrow> u8"
  btype :: "nat \<Rightarrow> nat"
  nbitblock :: nat
  nextbno :: nat

type_synonym fptr = "place \<times> nat"

abbreviation NBLOCK :: nat where "NBLOCK \<equiv> 1024"

abbreviation BLOCK_FREE :: nat where "BLOCK_FREE \<equiv> 0"
abbreviation BLOCK_BOOT :: nat where "BLOCK_BOOT \<equiv> 1"
abbreviation BLOCK_BMAP :: nat where "BLOCK_BMAP \<equiv> 2"
abbreviation BLOCK_SUPER :: nat where "BLOCK_SUPER \<equiv> 3"
abbreviation BLOCK_DATA :: nat where "BLOCK_DATA \<equiv> 4"
abbreviation BLOCK_FILE :: nat where "BLOCK_FILE \<equiv> 5"
abbreviation BLOCK_INDEX :: nat where "BLOCK_INDEX \<equiv> 6"

text \<open>Words of the host's memory.\<close>

definition rd32 :: "(nat \<Rightarrow> u8) \<Rightarrow> nat \<Rightarrow> u32" where
  "rd32 f k = ucast (f k) OR push_bit 8 (ucast (f (k + 1)))
     OR push_bit 16 (ucast (f (k + 2))) OR push_bit 24 (ucast (f (k + 3)))"

definition wr32 :: "(nat \<Rightarrow> u8) \<Rightarrow> nat \<Rightarrow> u32 \<Rightarrow> nat \<Rightarrow> u8" where
  "wr32 f k v = f(k := ucast v, k + 1 := ucast (drop_bit 8 v), k + 2 := ucast (drop_bit 16 v), k + 3 := ucast (drop_bit 24 v))"

definition fget :: "fptr \<Rightarrow> nat \<Rightarrow> fmt \<Rightarrow> u32" where
  "fget p k d = rd32 (img d (fst p)) (snd p + k)"

definition fput :: "fptr \<Rightarrow> nat \<Rightarrow> u32 \<Rightarrow> fmt \<Rightarrow> fmt" where
  "fput p k v d = d\<lparr>img := (img d)(fst p := wr32 (img d (fst p)) (snd p + k) v)\<rparr>"

text \<open>Bytes from offset \<open>k\<close> on: \<open>strcpy\<close>, \<open>memset\<close>, \<open>read\<close>.\<close>

definition put_bytes :: "place \<Rightarrow> nat \<Rightarrow> u8 list \<Rightarrow> fmt \<Rightarrow> fmt" where
  "put_bytes q k bs d = d\<lparr>img := (img d)(q := (\<lambda>i. if k \<le> i \<and> i < k + length bs then bs ! (i - k) else img d q i))\<rparr>"

definition set_type :: "nat \<Rightarrow> nat \<Rightarrow> fmt \<Rightarrow> fmt" where
  "set_type b ty d = d\<lparr>btype := (btype d)(b := ty)\<rparr>"

text \<open>The data of \<open>disk[n]\<close>.\<close>

definition disk_data :: "nat \<Rightarrow> place option" where
  "disk_data n = (if n < NBLOCK then Some (Blk n) else None)"

section \<open>Byte order\<close>

definition reverse :: "fptr \<Rightarrow> nat \<Rightarrow> fmt \<Rightarrow> fmt" where
  "reverse p k d =
     (let f = img d (fst p); o0 = snd p + k in
      put_bytes (fst p) o0 [f (o0 + 3), f (o0 + 2), f (o0 + 1), f o0] d)"

definition reverse_file :: "fptr \<Rightarrow> fmt \<Rightarrow> fmt" where
  "reverse_file p d =
     reverse p 176 (fold (\<lambda>i. reverse p (136 + 4 * i)) [0..<10] (reverse p 132 (reverse p 128 d)))"

fun reverse_files :: "nat \<Rightarrow> nat list \<Rightarrow> fmt \<Rightarrow> fmt" where
  "reverse_files b [] d = d"
| "reverse_files b (i # is) d =
     (if img d (Blk b) (256 * i) = 0 then d else reverse_files b is (reverse_file (Blk b, 256 * i) d))"

definition reverse_block :: "nat \<Rightarrow> fmt \<Rightarrow> fmt" where
  "reverse_block b d =
     (if btype d b = BLOCK_SUPER then reverse_file (Blk b, 8) (reverse (Blk b, 0) 4 (reverse (Blk b, 0) 0 d))
      else if btype d b = BLOCK_FILE then reverse_files b [0..<FILE2BLK] d
      else if btype d b = BLOCK_INDEX \<or> btype d b = BLOCK_BMAP then fold (\<lambda>i. reverse (Blk b, 0) (4 * i)) [0..<1024] d
      else d)"

section \<open>The frame of the image\<close>

definition fmt0 :: fmt where
  "fmt0 = \<lparr>img = (\<lambda>_ _. 0), btype = (\<lambda>_. BLOCK_FREE), nbitblock = 0, nextbno = 0\<rparr>"

definition init_disk :: "fmt \<Rightarrow> fmt" where
  "init_disk d =
     (let d = set_type 0 BLOCK_BOOT d;
          nbit = (NBLOCK + 32768 - 1) div 32768;
          d = d\<lparr>nbitblock := nbit, nextbno := 2 + nbit\<rparr>;
          d = fold (\<lambda>i. set_type (2 + i) BLOCK_BMAP) [0..<nbit] d;
          d = fold (\<lambda>i. put_bytes (Blk (2 + i)) 0 (replicate 4096 0xff)) [0..<nbit] d;
          d = (if NBLOCK \<noteq> nbit * 32768
               then let diff = NBLOCK mod 32768 div 8 in put_bytes (Blk (2 + (nbit - 1))) diff (replicate (4096 - diff) 0) d
               else d);
          d = set_type 1 BLOCK_SUPER d;
          d = fput (Super, 0) 0 FS_MAGIC d;
          d = fput (Super, 0) 4 (of_nat NBLOCK) d;
          d = fput (Super, 8) 132 FTYPE_DIR d
      in put_bytes Super 8 [slash, 0] d)"

definition next_block :: "nat \<Rightarrow> fmt \<Rightarrow> (nat \<times> fmt) option" where
  "next_block ty d =
     (if nextbno d < NBLOCK
      then Some (nextbno d, (set_type (nextbno d) ty d)\<lparr>nextbno := nextbno d + 1\<rparr>) else None)"

definition flush_bitmap :: "fmt \<Rightarrow> fmt" where
  "flush_bitmap d =
     fold (\<lambda>i d. let p = (Blk (2 + i div 32768), 0); k = 4 * (i mod 32768 div 32) in
                 fput p k (fget p k d AND NOT (push_bit (i mod 32) 1)) d) [0..<nextbno d] d"

text \<open>
  The bytes of the image file. \<open>rv\<close> is the setting of \<open>CONFIG_REVERSE_ENDIAN\<close>, under which the code calls \<open>reverse\<close> on
  the first word of the block.
\<close>

definition finish_fs :: "bool \<Rightarrow> fmt \<Rightarrow> nat \<Rightarrow> u8" where
  "finish_fs rv d =
     (let d = put_bytes (Blk 1) 0 (map (img d Super) [0..<264]) d;
          d = (if rv then fold (\<lambda>i. reverse (Blk i, 0) 0) [0..<1024] d else d)
      in (\<lambda>x. img d (Blk (x div 4096)) (x mod 4096)))"

section \<open>Files\<close>

definition save_block_link :: "fptr \<Rightarrow> nat \<Rightarrow> nat \<Rightarrow> fmt \<Rightarrow> fmt option" where
  "save_block_link f nblk bno d =
     do { c_assert (nblk < 1024);
          if nblk < 10 then Some (fput f (136 + 4 * nblk) (of_nat bno) d)
          else do { d \<leftarrow> (if fget f 176 d = 0
                          then do { (b, d) \<leftarrow> next_block BLOCK_INDEX d; Some (fput f 176 (of_nat b) d) }
                          else Some d);
                    q \<leftarrow> disk_data (unat (fget f 176 d));
                    Some (fput (q, 0) (4 * nblk) (of_nat bno) d) } }"

definition make_link_block :: "fptr \<Rightarrow> nat \<Rightarrow> fmt \<Rightarrow> (nat \<times> fmt) option" where
  "make_link_block dirf nblk d =
     do { (bno, d) \<leftarrow> next_block BLOCK_FILE d;
          d \<leftarrow> save_block_link dirf nblk bno d;
          Some (bno, fput dirf 128 (fget dirf 128 d + 4096) d) }"

text \<open>The entry of a block of a directory whose name is empty.\<close>

definition free_slot :: "place \<Rightarrow> fmt \<Rightarrow> nat option" where
  "free_slot q d = find (\<lambda>k. img d q (256 * k) = 0) [0..<FILE2BLK]"

fun create_scan :: "fptr \<Rightarrow> nat list \<Rightarrow> fmt \<Rightarrow> fptr option option" where
  "create_scan dirf [] d = Some None"
| "create_scan dirf (i # is) d =
     do { bno \<leftarrow> (if i < 10 then Some (fget dirf (136 + 4 * i) d)
                  else do { q \<leftarrow> disk_data (unat (fget dirf 176 d)); Some (fget (q, 0) (4 * i) d) });
          q \<leftarrow> disk_data (unat bno);
          (case free_slot q d of Some k \<Rightarrow> Some (Some (q, 256 * k)) | None \<Rightarrow> create_scan dirf is d) }"

definition create_file :: "fptr \<Rightarrow> fmt \<Rightarrow> (fptr \<times> fmt) option" where
  "create_file dirf d =
     (let nblk = unat (fget dirf 128 d div 4096) in
      do { r \<leftarrow> create_scan dirf [0..<nblk] d;
           (case r of
              Some f \<Rightarrow> Some (f, d)
            | None \<Rightarrow> do { (b, d) \<leftarrow> make_link_block dirf nblk d; Some ((Blk b, 0), d) }) })"

text \<open>\<open>strcpy\<close> into the name of an entry: not checked against the field, undefined past the block.\<close>

definition put_name :: "fptr \<Rightarrow> u8 list \<Rightarrow> fmt \<Rightarrow> fmt option" where
  "put_name f name d =
     (if snd f + length name + 1 \<le> 4096 then Some (put_bytes (fst f) (snd f) (name @ [0]) d) else None)"

text \<open>What follows the last slash of a path.\<close>

definition last_part :: "u8 list \<Rightarrow> u8 list" where
  "last_part path = rev (takeWhile (\<lambda>c. c \<noteq> slash) (rev path))"

text \<open>
  The loop of \<open>write_file\<close>; \<open>read\<close> returns whole blocks until the last. A block past the end of \<open>disk\<close> is only touched
  when there is something left to read.
\<close>

function (sequential) write_blocks :: "fptr \<Rightarrow> nat \<Rightarrow> u8 list \<Rightarrow> fmt \<Rightarrow> fmt option" where
  "write_blocks target iblk [] d = Some d"
| "write_blocks target iblk bs d =
     do { q \<leftarrow> disk_data (nextbno d);
          (bno, d) \<leftarrow> next_block BLOCK_DATA (put_bytes q 0 (take 4096 bs) d);
          d \<leftarrow> save_block_link target iblk bno d;
          write_blocks target (iblk + 1) (drop 4096 bs) d }"
  by pat_completeness auto
termination
  by (relation "measure (\<lambda>(target, iblk, bs, d). length bs)") auto

text \<open>The last arguments are what \<open>lseek\<close> returns for the end of the file and the bytes that \<open>read\<close> delivers.\<close>

definition write_file :: "fptr \<Rightarrow> u8 list \<Rightarrow> u32 \<Rightarrow> u8 list \<Rightarrow> fmt \<Rightarrow> fmt option" where
  "write_file dirf path sz bs d =
     do { (target, d) \<leftarrow> create_file dirf d;
          d \<leftarrow> put_name target (last_part path) d;
          write_blocks target 0 bs (fput target 132 FTYPE_REG (fput target 128 sz d)) }"

section \<open>Directories\<close>

text \<open>
  What the host has at a path: a regular file, a directory with its entries in the order of \<open>readdir\<close>, or something
  else, with what \<open>lseek\<close> and \<open>read\<close> give for it. \<open>None\<close> is a file or directory that cannot be opened; the result of \<open>open\<close>
  is not checked, and then \<open>lseek\<close> gives \<open>-1\<close> and \<open>read\<close> nothing.
\<close>

datatype hnode = Reg "u8 list option" | Dir "(u8 list \<times> hnode) list option" | Special u32 "u8 list"

fun file_data :: "u8 list option \<Rightarrow> u32 \<times> u8 list" where
  "file_data None = (- 1, [])"
| "file_data (Some bs) = (of_nat (length bs), bs)"

definition basename :: "u8 list \<Rightarrow> u8 list" where
  "basename path =
     (let p = rev (dropWhile (\<lambda>c. c = slash) (rev path)) in
      if path = [] then [46] else if p = [] then [slash] else last_part p)"

text \<open>\<open>strncpy(pdir->f_name, base, MAXNAMELEN - 1)\<close>\<close>

definition put_dir_name :: "fptr \<Rightarrow> u8 list \<Rightarrow> fmt \<Rightarrow> fmt" where
  "put_dir_name f base d = put_bytes (fst f) (snd f) (take 127 base @ replicate (127 - length base) 0) d"

function (sequential) write_directory :: "fptr \<Rightarrow> u8 list \<Rightarrow> hnode \<Rightarrow> fmt \<Rightarrow> fmt option"
  and write_entries :: "fptr \<Rightarrow> u8 list \<Rightarrow> (u8 list \<times> hnode) list \<Rightarrow> fmt \<Rightarrow> fmt option"
where
  "write_directory dirf path (Dir None) d = Some d"
| "write_directory dirf path (Dir (Some es)) d =
     do { (pdir, d) \<leftarrow> create_file dirf d;
          let d = put_dir_name pdir (basename path) d in
          do { c_assert (img d (fst pdir) (snd pdir + 127) = 0);
               write_entries pdir path es (fput pdir 132 FTYPE_DIR d) } }"
| "write_directory dirf path (Reg c) d = Some d"
| "write_directory dirf path (Special sz bs) d = Some d"
| "write_entries pdir path [] d = Some d"
| "write_entries pdir path ((name, e) # es) d =
     do { d \<leftarrow> (if name \<noteq> [46] \<and> name \<noteq> [46, 46] then
                  (case e of
                     Dir _ \<Rightarrow> write_directory pdir (path @ [slash] @ name) e d
                   | Reg c \<Rightarrow> (case file_data c of (sz, bs) \<Rightarrow> write_file pdir (path @ [slash] @ name) sz bs d)
                   | Special sz bs \<Rightarrow> write_file pdir (path @ [slash] @ name) sz bs d)
                else Some d);
          write_entries pdir path es d }"
  by pat_completeness auto
termination
  by (relation "measure (\<lambda>x. case x of Inl (dirf, path, e, d) \<Rightarrow> size e | Inr (pdir, path, es, d) \<Rightarrow> size_list (size_prod (\<lambda>_. 0) size) es)") auto

text \<open>\<open>main\<close>: the arguments with what \<open>stat\<close> finds for them; the result is the image file.\<close>

fun write_args :: "(u8 list \<times> hnode option) list \<Rightarrow> fmt \<Rightarrow> fmt option" where
  "write_args [] d = Some d"
| "write_args ((name, st) # args) d =
     do { e \<leftarrow> st;
          d \<leftarrow> (case e of
                  Dir _ \<Rightarrow> write_directory (Super, 8) name e d
                | Reg c \<Rightarrow> (case file_data c of (sz, bs) \<Rightarrow> write_file (Super, 8) name sz bs d)
                | Special sz bs \<Rightarrow> None);
          write_args args d }"

definition fsformat_main :: "bool \<Rightarrow> (u8 list \<times> hnode option) list \<Rightarrow> (nat \<Rightarrow> u8) option" where
  "fsformat_main rv args =
     (if args = [] then None
      else do { d \<leftarrow> write_args args (init_disk fmt0); Some (finish_fs rv (flush_bitmap d)) })"

end
