(* ===== verification/FsImage.thy ===== *)
theory FsImage
  imports Fsformat
begin

text \<open>
  The invariant of the image while \<open>fsformat\<close> adds files to the root directory: where the entries are, which
  blocks belong to which file, and that adding a directory block or a file leaves the others as they are.
\<close>

section \<open>Words and pointers\<close>

lemma rd32_cong: "(\<And>i. k \<le> i \<Longrightarrow> i < k + 4 \<Longrightarrow> f i = g i) \<Longrightarrow> rd32 f k = rd32 g k"
  by (simp add: rd32_def)

lemma rd32_wr32_same [simp]: "rd32 (wr32 f k v) k = v"
  by (simp add: rd32_def wr32_def bytes_of_word)

lemma wr32_byte: "i < k \<or> k + 4 \<le> i \<Longrightarrow> wr32 f k v i = f i"
  by (auto simp: wr32_def)

lemma rd32_wr32_other: "k + 4 \<le> j \<or> j + 4 \<le> k \<Longrightarrow> rd32 (wr32 f k v) j = rd32 f j"
  by (intro rd32_cong wr32_byte) auto

lemma rd32_zero: "(\<And>i. k \<le> i \<Longrightarrow> i < k + 4 \<Longrightarrow> f i = 0) \<Longrightarrow> rd32 f k = 0"
  by (simp add: rd32_def)

lemma view32_rd32:
  assumes "\<And>i. i < 4096 \<Longrightarrow> blk_view s b i = f i" "k + 4 \<le> 4096"
  shows "view32 s b k = rd32 f k"
proof -
  have "unat (of_nat k + of_nat j :: u32) = k + j" if "j < 4" for j
    using that assms(2) by (simp add: unat_of_nat flip: of_nat_add)
  from this [of 0] this [of 1] this [of 2] this [of 3] show ?thesis
    using assms by (simp add: view32_def load32_def rd32_def)
qed

text \<open>The bytes a step may have changed.\<close>

definition same_but :: "(place \<times> nat) set \<Rightarrow> fmt \<Rightarrow> fmt \<Rightarrow> bool" where
  "same_but A d d' \<longleftrightarrow> (\<forall>q i. (q, i) \<notin> A \<longrightarrow> img d' q i = img d q i)"

definition ent :: "fptr \<Rightarrow> (place \<times> nat) set" where
  "ent p = {fst p} \<times> {snd p..<snd p + 256}"

definition links_of :: "fptr \<Rightarrow> (place \<times> nat) set" where
  "links_of p = {fst p} \<times> {snd p + 136..<snd p + 180}"

definition from_blk :: "nat \<Rightarrow> (place \<times> nat) set" where
  "from_blk n = Blk ` {n..} \<times> UNIV"

lemma same_but_refl [simp]: "same_but A d d"
  by (simp add: same_but_def)

lemma same_but_trans: "same_but A d d' \<Longrightarrow> same_but B d' d'' \<Longrightarrow> A \<union> B \<subseteq> C \<Longrightarrow> same_but C d d''"
  unfolding same_but_def by (metis Un_iff subset_iff)

lemma same_but_mono: "same_but A d d' \<Longrightarrow> A \<subseteq> C \<Longrightarrow> same_but C d d'"
  by (auto simp: same_but_def)

lemma same_but_img: "same_but A d d' \<Longrightarrow> (q, i) \<notin> A \<Longrightarrow> img d' q i = img d q i"
  by (simp add: same_but_def)

lemma same_but_fget:
  "same_but A d d' \<Longrightarrow> (\<And>i. snd p + k \<le> i \<Longrightarrow> i < snd p + k + 4 \<Longrightarrow> (fst p, i) \<notin> A) \<Longrightarrow> fget p k d' = fget p k d"
  unfolding fget_def by (intro rd32_cong same_but_img) auto

lemma fput_simps [simp]:
  "nextbno (fput p k v d) = nextbno d" "btype (fput p k v d) = btype d" "fget p k (fput p k v d) = v"
  by (simp_all add: fput_def fget_def)

lemma fget_fput_other: "k + 4 \<le> j \<or> j + 4 \<le> k \<Longrightarrow> fget p j (fput p k v d) = fget p j d"
  by (auto simp: fget_def fput_def intro!: rd32_wr32_other)

lemma fget_fput_place: "fst p \<noteq> fst q \<Longrightarrow> fget q j (fput p k v d) = fget q j d"
  by (auto simp: fget_def fput_def)

lemma same_but_fput: "{fst p} \<times> {snd p + k..<snd p + k + 4} \<subseteq> A \<Longrightarrow> same_but A d (fput p k v d)"
  unfolding same_but_def
proof (intro allI impI)
  fix q i assume "{fst p} \<times> {snd p + k..<snd p + k + 4} \<subseteq> A" "(q, i) \<notin> A"
  then have "q \<noteq> fst p \<or> i < snd p + k \<or> snd p + k + 4 \<le> i"
    by (metis SigmaI atLeastLessThan_iff not_less singletonI subsetD)
  then show "img (fput p k v d) q i = img d q i" by (auto simp: fput_def wr32_byte)
qed

lemma put_bytes_simps [simp]: "nextbno (put_bytes q k bs d) = nextbno d" "btype (put_bytes q k bs d) = btype d"
  by (simp_all add: put_bytes_def)

lemma same_but_put_bytes: "{q} \<times> {k..<k + length bs} \<subseteq> A \<Longrightarrow> same_but A d (put_bytes q k bs d)"
  unfolding same_but_def
proof (intro allI impI)
  fix r i assume "{q} \<times> {k..<k + length bs} \<subseteq> A" "(r, i) \<notin> A"
  then have "r \<noteq> q \<or> \<not> (k \<le> i \<and> i < k + length bs)" by force
  then show "img (put_bytes q k bs d) r i = img d r i" by (auto simp: put_bytes_def)
qed

lemma same_but_img_eq: "img d1 = img d \<Longrightarrow> same_but A d1 d' = same_but A d d'"
  by (simp add: same_but_def)

lemma next_block_eq:
  "nextbno d < NBLOCK \<Longrightarrow> \<exists>d'. next_block ty d = Some (nextbno d, d') \<and> img d' = img d \<and> nextbno d' = nextbno d + 1"
  by (simp add: next_block_def set_type_def)

lemma fget_img: "img d' = img d \<Longrightarrow> fget p k d' = fget p k d"
  by (simp add: fget_def)

section \<open>The block map of a file in the image\<close>

definition ind :: "fmt \<Rightarrow> fptr \<Rightarrow> nat" where
  "ind d p = unat (fget p 176 d)"

definition fmap :: "fmt \<Rightarrow> fptr \<Rightarrow> nat \<Rightarrow> nat" where
  "fmap d p i = unat (if i < 10 then fget p (136 + 4 * i) d else fget (Blk (ind d p), 0) (4 * i) d)"

text \<open>A pointer into \<open>super\<close> or an allocated block, whose index block is another block.\<close>

definition ptr_ok :: "fmt \<Rightarrow> fptr \<Rightarrow> bool" where
  "ptr_ok d p \<longleftrightarrow> (fst p = Super \<or> (\<exists>b<nextbno d. fst p = Blk b)) \<and> 0 < nextbno d \<and> nextbno d \<le> NBLOCK \<and>
     (ind d p \<noteq> 0 \<longrightarrow> ind d p < nextbno d \<and> fst p \<noteq> Blk (ind d p))"

lemma save_block_link_ok:
  assumes p: "ptr_ok d p" and i: "i < 1024" "10 \<le> i \<and> ind d p = 0 \<longrightarrow> nextbno d < NBLOCK" and b: "bno < NBLOCK"
  obtains d' where "save_block_link p i bno d = Some d'"
    "nextbno d' = (if 10 \<le> i \<and> ind d p = 0 then nextbno d + 1 else nextbno d)"
    "ind d' p = (if 10 \<le> i \<and> ind d p = 0 then nextbno d else ind d p)"
    "fmap d' p i = bno" "\<And>j. j \<noteq> i \<Longrightarrow> j < 10 \<or> ind d p \<noteq> 0 \<Longrightarrow> fmap d' p j = fmap d p j"
    "same_but (links_of p \<union> (if i < 10 then {} else {Blk (ind d' p)} \<times> UNIV)) d d'"
proof -
  have ub: "unat (of_nat bno :: u32) = bno" using b by (intro unat_of_nat32) simp
  have ld: "links_of p = {fst p} \<times> {snd p + 136..<snd p + 180}" by (rule links_of_def)
  consider (direct) "i < 10" | (old) "10 \<le> i" "ind d p \<noteq> 0" | (fresh) "10 \<le> i" "ind d p = 0" by linarith
  then show thesis
  proof cases
    case direct
    let ?d = "fput p (136 + 4 * i) (of_nat bno) d"
    have ii: "ind ?d p = ind d p" using direct by (simp add: ind_def fget_fput_other)
    have "fget (Blk (ind d p), 0) j ?d = fget (Blk (ind d p), 0) j d" if "ind d p \<noteq> 0" for j
      using p that by (intro fget_fput_place) (auto simp: ptr_ok_def)
    moreover have "fget p (136 + 4 * j) ?d = fget p (136 + 4 * j) d" if "j \<noteq> i" for j
      using that by (intro fget_fput_other) auto
    ultimately have "fmap ?d p j = fmap d p j" if "j \<noteq> i" "j < 10 \<or> ind d p \<noteq> 0" for j
      using that by (auto simp: fmap_def ii)
    moreover have "fmap ?d p i = bno" using direct by (simp add: fmap_def ub)
    moreover have "same_but (links_of p) d ?d" using direct by (intro same_but_fput) (auto simp: ld)
    ultimately show thesis using direct i(1) ii by (intro that [of ?d]) (simp_all add: save_block_link_def)
  next
    case old
    have q: "ind d p < nextbno d" "fst p \<noteq> Blk (ind d p)" "nextbno d \<le> NBLOCK" using p old by (auto simp: ptr_ok_def)
    let ?d = "fput (Blk (ind d p), 0) (4 * i) (of_nat bno) d"
    have fp: "fget p j ?d = fget p j d" for j using q(2) by (intro fget_fput_place) auto
    then have ii: "ind ?d p = ind d p" by (simp add: ind_def)
    have "fget (Blk (ind d p), 0) (4 * j) ?d = fget (Blk (ind d p), 0) (4 * j) d" if "j \<noteq> i" for j
      using that by (intro fget_fput_other) auto
    then have "fmap ?d p j = fmap d p j" if "j \<noteq> i" for j using that fp by (auto simp: fmap_def ii)
    moreover have "fmap ?d p i = bno" using old by (simp add: fmap_def ub ii)
    moreover have "same_but (links_of p \<union> {Blk (ind d p)} \<times> UNIV) d ?d" by (intro same_but_fput) auto
    moreover have "save_block_link p i bno d = Some ?d"
      using old i(1) q by (simp add: save_block_link_def disk_data_def ind_def unat_eq_0)
    ultimately show thesis using old ii by (intro that [of ?d]) simp_all
  next
    case fresh
    let ?n = "nextbno d"
    have n: "?n < NBLOCK" "0 < ?n" "fst p \<noteq> Blk ?n" using i fresh p by (auto simp: ptr_ok_def)
    have un: "unat (of_nat ?n :: u32) = ?n" using n by (intro unat_of_nat32) simp
    obtain d1 where d1: "next_block BLOCK_INDEX d = Some (?n, d1)" "img d1 = img d" "nextbno d1 = ?n + 1"
      using next_block_eq [OF n(1)] by blast
    let ?d2 = "fput p 176 (of_nat ?n) d1"
    let ?d = "fput (Blk ?n, 0) (4 * i) (of_nat bno) ?d2"
    have fp: "fget p j ?d = fget p j ?d2" for j using n(3) by (intro fget_fput_place) auto
    have ii: "ind ?d p = ?n" by (simp add: ind_def fp un)
    have "fget p (136 + 4 * j) ?d = fget p (136 + 4 * j) d" if "j < 10" for j
      using that by (simp add: fp fget_fput_other fget_img [OF d1(2)])
    then have "fmap ?d p j = fmap d p j" if "j < 10" for j using that by (auto simp: fmap_def ii)
    moreover have "fmap ?d p i = bno" using fresh by (simp add: fmap_def ub ii)
    moreover have "same_but (links_of p \<union> {Blk ?n} \<times> UNIV) d ?d"
    proof (rule same_but_trans)
      show "same_but (links_of p) d ?d2" unfolding same_but_img_eq [OF d1(2), symmetric] by (intro same_but_fput) (auto simp: ld)
      show "same_but ({Blk ?n} \<times> UNIV) ?d2 ?d" by (intro same_but_fput) auto
    qed simp
    moreover have "save_block_link p i bno d = Some ?d"
      using fresh i(1) d1 n un by (simp add: save_block_link_def disk_data_def ind_def unat_eq_0)
    ultimately show thesis using fresh ii d1(3) by (intro that [of ?d]) simp_all
  qed
qed

section \<open>Files in the image\<close>

definition nblk :: "nat \<Rightarrow> nat" where
  "nblk n = (n + 4095) div 4096"

text \<open>The first \<open>m\<close> blocks of a file hold the bytes of \<open>c\<close>, in allocated blocks from \<open>n\<close> on.\<close>

definition mapped_to :: "fmt \<Rightarrow> fptr \<Rightarrow> nat \<Rightarrow> nat \<Rightarrow> u8 list \<Rightarrow> bool" where
  "mapped_to d p n m c \<longleftrightarrow>
     (\<forall>i<m. n \<le> fmap d p i \<and> fmap d p i < nextbno d \<and> fmap d p i \<noteq> ind d p \<and>
        (\<forall>j<4096. 4096 * i + j < length c \<longrightarrow> img d (Blk (fmap d p i)) j = c ! (4096 * i + j))) \<and>
     (if m \<le> 10 then ind d p = 0 else n \<le> ind d p \<and> ind d p < nextbno d)"

definition zero_from :: "fmt \<Rightarrow> bool" where
  "zero_from d \<longleftrightarrow> (\<forall>b i. nextbno d \<le> b \<longrightarrow> img d (Blk b) i = 0)"

lemma fmap_frame:
  assumes "same_but A d d'" "A \<inter> ent p = {}" "10 \<le> i \<longrightarrow> A \<inter> {Blk (ind d p)} \<times> UNIV = {}" "i < 1024"
  shows "fmap d' p i = fmap d p i" "ind d' p = ind d p"
proof -
  have f: "fget p k d' = fget p k d" if "k + 4 \<le> 256" for k
    using assms(2) that by (intro same_but_fget [OF assms(1)]) (auto simp: ent_def)
  show ii: "ind d' p = ind d p" by (simp add: ind_def f)
  have "fget (Blk (ind d p), 0) (4 * i) d' = fget (Blk (ind d p), 0) (4 * i) d" if "10 \<le> i"
    using assms(3) that by (intro same_but_fget [OF assms(1)]) auto
  then show "fmap d' p i = fmap d p i" using f [of "136 + 4 * i"] by (auto simp: fmap_def ii)
qed

text \<open>One turn of the loop.\<close>

lemma write_block_step:
  assumes p: "ptr_ok d p" "fst p = Blk e" "e < n" "n \<le> nextbno d" "0 < n" and m: "mapped_to d p n i c" "zero_from d" "i < 1024"
    and bs: "bs = drop (4096 * i) c" "bs \<noteq> []"
    and room: "nextbno d + (if i = 10 then 2 else 1) \<le> NBLOCK"
  obtains d' where
    "write_blocks p i bs d = write_blocks p (i + 1) (drop 4096 bs) d'" "ptr_ok d' p" "mapped_to d' p n (i + 1) c" "zero_from d'"
    "nextbno d' = nextbno d + (if i = 10 then 2 else 1)" "same_but (links_of p \<union> from_blk n) d d'"
proof -
  let ?b = "nextbno d"
  have b: "?b < NBLOCK" using room by (auto split: if_splits)
  let ?d1 = "put_bytes (Blk ?b) 0 (take 4096 bs) d"
  obtain d2 where d2: "next_block BLOCK_DATA ?d1 = Some (?b, d2)" "img d2 = img ?d1" "nextbno d2 = ?b + 1"
    using next_block_eq [of ?d1 BLOCK_DATA] b by auto
  have s2: "same_but ({Blk ?b} \<times> UNIV) d d2"
    using same_but_put_bytes [of "Blk ?b" 0 "take 4096 bs" "{Blk ?b} \<times> UNIV" d] d2(2) by (auto simp: same_but_def)
  have ind0: "(ind d p = 0) = (i \<le> 10)" "ind d p < ?b" using m(1) p(4,5) by (auto simp: mapped_to_def split: if_splits)
  have e2: "{Blk ?b} \<times> UNIV \<inter> ent p = {}" using p by (auto simp: ent_def)
  have f2: "fmap d2 p j = fmap d p j" "ind d2 p = ind d p" if "j < 1024" for j
    by (rule fmap_frame [OF s2 e2 _ that]; use ind0(2) in auto)+
  have "ptr_ok d2 p" using p(1) f2(2) [of 0] d2(3) b by (auto simp: ptr_ok_def)
  moreover have "10 \<le> i \<and> ind d2 p = 0 \<longrightarrow> nextbno d2 < NBLOCK" using room ind0 f2(2) [of 0] d2(3) by auto
  ultimately obtain d' where d': "save_block_link p i ?b d2 = Some d'"
    "nextbno d' = (if 10 \<le> i \<and> ind d2 p = 0 then nextbno d2 + 1 else nextbno d2)"
    "ind d' p = (if 10 \<le> i \<and> ind d2 p = 0 then nextbno d2 else ind d2 p)"
    "fmap d' p i = ?b" "\<And>j. j \<noteq> i \<Longrightarrow> j < 10 \<or> ind d2 p \<noteq> 0 \<Longrightarrow> fmap d' p j = fmap d2 p j"
    "same_but (links_of p \<union> (if i < 10 then {} else {Blk (ind d' p)} \<times> UNIV)) d2 d'"
    by (rule save_block_link_ok [OF _ m(3) _ b]) blast+
  show thesis
  proof (rule that [of d'])
    show "write_blocks p i bs d = write_blocks p (i + 1) (drop 4096 bs) d'"
      using bs(2) b d2(1) d'(1) by (cases bs) (simp_all add: disk_data_def)
    show nb: "nextbno d' = nextbno d + (if i = 10 then 2 else 1)"
      using d'(2) d2(3) f2(2) [of 0] ind0 by auto
    have ind': "ind d' p = (if i < 10 then 0 else if i = 10 then ?b + 1 else ind d p)"
      using d'(3) f2(2) [of 0] ind0(1) d2(3) by auto
    have indn: "10 \<le> i \<Longrightarrow> n \<le> ind d' p \<and> ind d' p < nextbno d' \<and> ind d' p \<noteq> ?b"
      using m(1) nb p(4) by (auto simp: ind' mapped_to_def split: if_splits)
    show sb: "same_but (links_of p \<union> from_blk n) d d'"
      by (rule same_but_trans [OF s2 d'(6)]) (use indn p(4) in \<open>auto simp: from_blk_def\<close>)
    show "ptr_ok d' p" using p indn nb room ind' by (auto simp: ptr_ok_def split: if_splits)
    show "zero_from d'"
    proof -
      have "(Blk b, j) \<notin> links_of p \<union> (if i < 10 then {} else {Blk (ind d' p)} \<times> UNIV)" if "nextbno d' \<le> b" for b j
        using that p indn nb by (auto simp: links_of_def)
      then show ?thesis using same_but_img [OF d'(6)] same_but_img [OF s2] m(2) nb
        by (auto simp: zero_from_def split: if_splits)
    qed
    have old: "fmap d' p j = fmap d p j" if "j < i" for j
      using d'(5) [of j] f2 [of j] that m(3) ind0(1) by auto
    have keep: "img d' (Blk b) j = img d2 (Blk b) j" if "n \<le> b" "10 \<le> i \<longrightarrow> b \<noteq> ind d' p" for b j
      using that p by (intro same_but_img [OF d'(6)]) (auto simp: links_of_def)
    have data: "img d' (Blk ?b) j = c ! (4096 * i + j)" if "j < 4096" "4096 * i + j < length c" for j
    proof -
      have "img d' (Blk ?b) j = img d2 (Blk ?b) j" by (rule keep) (use indn p(4) in auto)
      also have "j < length c - 4096 * i" using that by linarith
      then have "img d2 (Blk ?b) j = bs ! j" using that by (simp add: d2(2) put_bytes_def bs(1))
      also have "\<dots> = c ! (4096 * i + j)" using that by (simp add: bs(1))
      finally show ?thesis .
    qed
    have one: "n \<le> fmap d' p k \<and> fmap d' p k < nextbno d' \<and> fmap d' p k \<noteq> ind d' p \<and>
        (\<forall>j<4096. 4096 * k + j < length c \<longrightarrow> img d' (Blk (fmap d' p k)) j = c ! (4096 * k + j))" if k: "k < i + 1" for k
    proof (cases "k = i")
      case True
      then show ?thesis using d'(4) p(4,5) nb data indn ind' by auto
    next
      case False
      then have ki: "k < i" using k by simp
      have mk: "n \<le> fmap d p k" "fmap d p k < ?b" "fmap d p k \<noteq> ind d p"
        "\<And>j. j < 4096 \<Longrightarrow> 4096 * k + j < length c \<Longrightarrow> img d (Blk (fmap d p k)) j = c ! (4096 * k + j)"
        using m(1) ki by (auto simp: mapped_to_def)
      have ne: "fmap d p k \<noteq> ind d' p" using mk(1-3) p(5) ind' by auto
      have "img d' (Blk (fmap d p k)) j = img d (Blk (fmap d p k)) j" for j
        using keep [OF mk(1)] ne same_but_img [OF s2, of "Blk (fmap d p k)" j] mk(2) by auto
      then show ?thesis using mk ne old [OF ki] nb by auto
    qed
    show "mapped_to d' p n (i + 1) c" using one indn ind' by (auto simp: mapped_to_def)
  qed
qed

text \<open>The blocks a file of \<open>m\<close> blocks takes from block \<open>i\<close> on, its index block included.\<close>

definition cost :: "nat \<Rightarrow> nat \<Rightarrow> nat" where
  "cost i m = (m - i) + (if i \<le> 10 \<and> 10 < m then 1 else 0)"

lemma cost_step: "i < m \<Longrightarrow> cost i m = (if i = 10 then 2 else 1) + cost (i + 1) m"
  by (auto simp: cost_def)

lemma write_blocks_ok:
  assumes "ptr_ok d p" "fst p = Blk e" "e < n" "n \<le> nextbno d" "0 < n" "mapped_to d p n i c" "zero_from d"
    "bs = drop (4096 * i) c" "i \<le> nblk (length c)" "nextbno d + cost i (nblk (length c)) \<le> NBLOCK"
    "nblk (length c) \<le> 1024"
  shows "\<exists>d'. write_blocks p i bs d = Some d' \<and> mapped_to d' p n (nblk (length c)) c \<and> zero_from d' \<and>
     nextbno d' = nextbno d + cost i (nblk (length c)) \<and> same_but (links_of p \<union> from_blk n) d d'"
  using assms
proof (induction "nblk (length c) - i" arbitrary: i bs d)
  case 0
  then have "i = nblk (length c)" by simp
  moreover then have "bs = []" using 0(9) by (simp add: nblk_def)
  ultimately show ?case using 0 by (simp add: cost_def)
next
  case (Suc k)
  let ?m = "nblk (length c)"
  have i: "i < ?m" "bs \<noteq> []" using Suc.hyps(2) Suc.prems(8) by (auto simp: nblk_def)
  have r: "nextbno d + (if i = 10 then 2 else 1) + cost (i + 1) ?m \<le> NBLOCK" using Suc.prems(10) cost_step [OF i(1)] by simp
  have "i < 1024" using Suc.prems(11) i(1) by simp
  moreover have "nextbno d + (if i = 10 then 2 else 1) \<le> NBLOCK" using r by linarith
  ultimately obtain d1 where d1: "write_blocks p i bs d = write_blocks p (i + 1) (drop 4096 bs) d1" "ptr_ok d1 p"
    "mapped_to d1 p n (i + 1) c" "zero_from d1" "nextbno d1 = nextbno d + (if i = 10 then 2 else 1)"
    "same_but (links_of p \<union> from_blk n) d d1"
    using write_block_step [OF Suc.prems(1-7) _ Suc.prems(8) i(2)] by blast
  have "\<exists>d'. write_blocks p (i + 1) (drop 4096 bs) d1 = Some d' \<and> mapped_to d' p n ?m c \<and> zero_from d' \<and>
     nextbno d' = nextbno d1 + cost (i + 1) ?m \<and> same_but (links_of p \<union> from_blk n) d1 d'"
    by (rule Suc.hyps(1)) (use Suc.hyps(2) Suc.prems d1 i r in \<open>auto simp: add.commute\<close>)
  then show ?case using d1(1,5,6) cost_step [OF i(1)] same_but_trans [OF d1(6)] by auto
qed

section \<open>The root directory\<close>

abbreviation rootp :: fptr where "rootp \<equiv> (Super, 8)"

definition slot_of :: "fmt \<Rightarrow> nat \<Rightarrow> fptr" where
  "slot_of d j = (Blk (fmap d rootp (j div 16)), 256 * (j mod 16))"

definition name_at :: "fmt \<Rightarrow> fptr \<Rightarrow> u8 list \<Rightarrow> bool" where
  "name_at d p name \<longleftrightarrow> (\<forall>j\<le>length name. img d (fst p) (snd p + j) = (name @ [0]) ! j)"

text \<open>Entry \<open>p\<close> is the regular file \<open>(name, c)\<close>; the blocks it uses.\<close>

definition is_file :: "fmt \<Rightarrow> fptr \<Rightarrow> u8 list \<times> u8 list \<Rightarrow> bool" where
  "is_file d p f \<longleftrightarrow> name_at d p (fst f) \<and> fget p 128 d = of_nat (length (snd f)) \<and> fget p 132 d = FTYPE_REG \<and>
     mapped_to d p 3 (nblk (length (snd f))) (snd f)"

definition file_blocks :: "fmt \<Rightarrow> fptr \<Rightarrow> nat \<Rightarrow> nat set" where
  "file_blocks d p m = fmap d p ` {..<m} \<union> (if m \<le> 10 then {} else {ind d p})"

lemma name_at_frame:
  "same_but A d d' \<Longrightarrow> A \<inter> ent p = {} \<Longrightarrow> length name < 256 \<Longrightarrow> name_at d' p name = name_at d p name"
proof -
  assume a: "same_but A d d'" "A \<inter> ent p = {}" "length name < 256"
  have "img d' (fst p) (snd p + j) = img d (fst p) (snd p + j)" if "j \<le> length name" for j
    using a(2,3) that by (intro same_but_img [OF a(1)]) (auto simp: ent_def)
  then show ?thesis by (simp add: name_at_def)
qed

lemma file_blocks_frame:
  assumes "same_but A d d'" "A \<inter> ent p = {}" "10 < m \<longrightarrow> A \<inter> {Blk (ind d p)} \<times> UNIV = {}" "m \<le> 1024"
  shows "file_blocks d' p m = file_blocks d p m" "i < m \<Longrightarrow> fmap d' p i = fmap d p i" "ind d' p = ind d p"
proof -
  have f: "fmap d' p i = fmap d p i" if "i < m" for i
    by (rule fmap_frame(1) [OF assms(1,2)]) (use that assms(3,4) in \<open>auto simp: file_blocks_def split: if_splits\<close>)
  have "fget p 176 d' = fget p 176 d" using assms(2) by (intro same_but_fget [OF assms(1)]) (auto simp: ent_def)
  then show "ind d' p = ind d p" by (simp add: ind_def)
  then show "file_blocks d' p m = file_blocks d p m" using f by (auto simp: file_blocks_def)
  show "i < m \<Longrightarrow> fmap d' p i = fmap d p i" by (rule f)
qed

lemma ind_disjoint:
  "A \<inter> Blk ` file_blocks d p m \<times> UNIV = {} \<Longrightarrow> 10 < m \<longrightarrow> A \<inter> {Blk (ind d p)} \<times> UNIV = {}"
  by (auto simp: file_blocks_def)

lemma is_file_frame:
  assumes "same_but A d d'" "A \<inter> ent p = {}" "A \<inter> Blk ` file_blocks d p (nblk (length (snd f))) \<times> UNIV = {}"
    "nblk (length (snd f)) \<le> 1024" "length (fst f) < 256" "nextbno d \<le> nextbno d'" "is_file d p f"
  shows "is_file d' p f"
proof -
  note fb = file_blocks_frame [OF assms(1,2) ind_disjoint [OF assms(3)] assms(4)]
  have "fget p k d' = fget p k d" if "k + 4 \<le> 256" for k
    using assms(2) that by (intro same_but_fget [OF assms(1)]) (auto simp: ent_def)
  moreover have "img d' (Blk (fmap d p i)) j = img d (Blk (fmap d p i)) j" if "i < nblk (length (snd f))" for i j
    using assms(3) that by (intro same_but_img [OF assms(1)]) (auto simp: file_blocks_def)
  ultimately show ?thesis
    using assms(6,7) name_at_frame [OF assms(1,2,5)] fb(2,3) by (fastforce simp: is_file_def mapped_to_def)
qed

text \<open>
  The image while files are added: \<open>fs\<close> are the files of the root directory, which has \<open>nb\<close> blocks; the entries
  that follow the last file in its blocks are zero.
\<close>

definition fs_file_ok :: "u8 list \<times> u8 list \<Rightarrow> bool" where
  "fs_file_ok f \<longleftrightarrow> name_ok (fst f) \<and> nblk (length (snd f)) \<le> 1024"

definition frame_ok :: "fmt \<Rightarrow> bool" where
  "frame_ok d \<longleftrightarrow> fget (Super, 0) 0 d = FS_MAGIC \<and> fget (Super, 0) 4 d = of_nat NBLOCK \<and> fget rootp 132 d = FTYPE_DIR \<and>
     (\<forall>i<4096. img d (Blk 2) i = (if i < 128 then 0xff else 0)) \<and> 3 \<le> nextbno d \<and> nextbno d \<le> NBLOCK \<and> zero_from d"

definition root_ok :: "fmt \<Rightarrow> nat \<Rightarrow> bool" where
  "root_ok d nb \<longleftrightarrow> fget rootp 128 d = of_nat (4096 * nb) \<and> nb \<le> 1024 \<and> (ind d rootp = 0) = (nb \<le> 10) \<and>
     file_blocks d rootp nb \<subseteq> {3..<nextbno d} \<and> inj_on (fmap d rootp) {..<nb} \<and> (\<forall>i<nb. fmap d rootp i \<noteq> ind d rootp)"

definition img_ok :: "fmt \<Rightarrow> (u8 list \<times> u8 list) list \<Rightarrow> nat \<Rightarrow> bool" where
  "img_ok d fs nb \<longleftrightarrow> frame_ok d \<and> root_ok d nb \<and> length fs \<le> 16 * nb \<and> list_all fs_file_ok fs \<and>
     (\<forall>j<length fs. is_file d (slot_of d j) (fs ! j) \<and>
        file_blocks d (slot_of d j) (nblk (length (snd (fs ! j)))) \<inter> file_blocks d rootp nb = {}) \<and>
     (\<forall>j i. length fs \<le> j \<longrightarrow> j < 16 * nb \<longrightarrow> i < 256 \<longrightarrow> img d (fst (slot_of d j)) (snd (slot_of d j) + i) = 0)"

lemma slot_of_eq: "k < 16 \<Longrightarrow> slot_of d (16 * i + k) = (Blk (fmap d rootp i), 256 * k)"
  by (simp add: slot_of_def)

lemma img_okD:
  assumes "img_ok d fs nb"
  shows "frame_ok d" "root_ok d nb" "length fs \<le> 16 * nb" "j < length fs \<Longrightarrow> fs_file_ok (fs ! j)"
    "j < length fs \<Longrightarrow> is_file d (slot_of d j) (fs ! j)"
    "j < length fs \<Longrightarrow> file_blocks d (slot_of d j) (nblk (length (snd (fs ! j)))) \<inter> file_blocks d rootp nb = {}"
    "length fs \<le> j \<Longrightarrow> j < 16 * nb \<Longrightarrow> i < 256 \<Longrightarrow> img d (fst (slot_of d j)) (snd (slot_of d j) + i) = 0"
  using assms by (auto simp: img_ok_def list_all_length)

lemma root_blocks:
  assumes "img_ok d fs nb" "i < nb"
  shows "3 \<le> fmap d rootp i" "fmap d rootp i < nextbno d" "fmap d rootp i < NBLOCK"
  using img_okD(1,2) [OF assms(1)] assms(2) by (fastforce simp: root_ok_def file_blocks_def frame_ok_def)+

lemma root_ind:
  assumes "img_ok d fs nb" "10 < nb"
  shows "3 \<le> ind d rootp" "ind d rootp < nextbno d" "ind d rootp < NBLOCK"
  using img_okD(1,2) [OF assms(1)] assms(2) by (auto simp: root_ok_def file_blocks_def frame_ok_def)

lemma name_first:
  assumes "img_ok d fs nb" "i < nb" "k < 16"
  shows "img d (Blk (fmap d rootp i)) (256 * k) = 0 \<longleftrightarrow> length fs \<le> 16 * i + k"
proof (cases "16 * i + k < length fs")
  case True
  have "name_ok (fst (fs ! (16 * i + k)))" "name_at d (slot_of d (16 * i + k)) (fst (fs ! (16 * i + k)))"
    using img_okD(4,5) [OF assms(1) True] by (auto simp: fs_file_ok_def is_file_def)
  then show ?thesis using True assms(3)
    by (cases "fst (fs ! (16 * i + k))") (auto simp: name_at_def name_ok_def slot_of_eq)
next
  case False
  then show ?thesis using img_okD(7) [OF assms(1), of "16 * i + k" 0] assms by (simp add: slot_of_eq)
qed

lemma find_upt:
  assumes "\<And>k. k < n \<Longrightarrow> P k \<longleftrightarrow> m \<le> k"
  shows "find P [0..<n] = (if m < n then Some m else None)"
proof -
  have "find P [0..<n] = find (\<lambda>k. m \<le> k) [0..<n]" using assms by (intro find_cong) auto
  moreover have "find (\<lambda>k. m \<le> k) [0..<n] = (if m < n then Some m else None)"
  proof (induction n)
    case (Suc n)
    have "find Q (xs @ [x]) = (case find Q xs of Some y \<Rightarrow> Some y | None \<Rightarrow> if Q x then Some x else None)"
      for Q and xs :: "nat list" and x by (induction xs) auto
    then show ?case using Suc by auto
  qed simp
  ultimately show ?thesis by simp
qed

lemma free_slot_eq:
  assumes "img_ok d fs nb" "i < nb" "16 * i \<le> length fs"
  shows "free_slot (Blk (fmap d rootp i)) d = (if length fs < 16 * i + 16 then Some (length fs - 16 * i) else None)"
proof -
  have "img d (Blk (fmap d rootp i)) (256 * k) = 0 \<longleftrightarrow> length fs - 16 * i \<le> k" if "k < FILE2BLK" for k
    using name_first [OF assms(1,2) that] by auto
  from find_upt [of FILE2BLK, OF this] show ?thesis using assms(3) by (auto simp: free_slot_def)
qed

lemma create_scan_ok:
  assumes "img_ok d fs nb" "16 * i \<le> length fs" "i \<le> nb"
  shows "create_scan rootp [i..<nb] d = Some (if length fs < 16 * nb then Some (slot_of d (length fs)) else None)"
  using assms
proof (induction "nb - i" arbitrary: i)
  case 0
  then show ?case by simp
next
  case (Suc n)
  then have i: "i < nb" by simp
  have bno: "(if i < 10 then Some (fget rootp (136 + 4 * i) d)
      else do { q \<leftarrow> disk_data (unat (fget rootp 176 d)); Some (fget (q, 0) (4 * i) d) }) = Some (of_nat (fmap d rootp i))"
    using root_ind(3) [OF Suc.prems(1)] i by (auto simp: fmap_def ind_def disk_data_def)
  have q: "disk_data (unat (of_nat (fmap d rootp i) :: u32)) = Some (Blk (fmap d rootp i))"
    using root_blocks(3) [OF Suc.prems(1) i] by (simp add: disk_data_def unat_of_nat32)
  show ?case
  proof (cases "length fs < 16 * i + 16")
    case True
    then have "slot_of d (length fs) = (Blk (fmap d rootp i), 256 * (length fs - 16 * i))"
      using slot_of_eq [of "length fs - 16 * i" d i] Suc.prems(2) by simp
    then show ?thesis using True bno q i free_slot_eq [OF Suc.prems(1) i Suc.prems(2)]
      by (simp add: upt_conv_Cons del: upt_Suc)
  next
    case False
    then have "create_scan rootp [Suc i..<nb] d = Some (if length fs < 16 * nb then Some (slot_of d (length fs)) else None)"
      using Suc.hyps(1) [of "Suc i"] Suc.hyps(2) Suc.prems i by simp
    then show ?thesis using False bno q i free_slot_eq [OF Suc.prems(1) i Suc.prems(2)]
      by (simp add: upt_conv_Cons del: upt_Suc)
  qed
qed

section \<open>Adding a block to the root directory\<close>

lemma root_size:
  assumes "root_ok d nb"
  shows "unat (fget rootp 128 d div 4096) = nb"
proof -
  have "unat (of_nat (4096 * nb) :: u32) = 4096 * nb" using assms by (intro unat_of_nat32) (simp add: root_ok_def)
  then show ?thesis using assms by (simp add: root_ok_def unat_div)
qed

lemma frame_ok_frame:
  assumes "frame_ok d" "same_but A d d'" "A \<inter> {Super} \<times> ({0..<8} \<union> {140..<144}) = {}" "A \<inter> {Blk 2} \<times> UNIV = {}"
    "nextbno d \<le> nextbno d'" "nextbno d' \<le> NBLOCK" "zero_from d'"
  shows "frame_ok d'"
proof -
  have "fget (Super, 0) 0 d' = fget (Super, 0) 0 d" "fget (Super, 0) 4 d' = fget (Super, 0) 4 d" "fget rootp 132 d' = fget rootp 132 d"
    using assms(3) by (auto intro!: same_but_fget [OF assms(2)] simp: disjoint_iff)
  moreover have "img d' (Blk 2) i = img d (Blk 2) i" for i using assms(4) by (intro same_but_img [OF assms(2)]) auto
  ultimately show ?thesis using assms by (auto simp: frame_ok_def)
qed

text \<open>The root directory has got block \<open>nextbno d\<close> as its block \<open>nb\<close>, and perhaps an index block.\<close>

definition grown_bytes :: "fmt \<Rightarrow> nat \<Rightarrow> (place \<times> nat) set" where
  "grown_bytes d' nb = {Super} \<times> ({136..<140} \<union> {144..<188}) \<union> (if nb < 10 then {} else {Blk (ind d' rootp)} \<times> UNIV)"

definition root_grown :: "fmt \<Rightarrow> nat \<Rightarrow> fmt \<Rightarrow> bool" where
  "root_grown d nb d' \<longleftrightarrow> nextbno d' = nextbno d + (if nb = 10 then 2 else 1) \<and>
     ind d' rootp = (if nb < 10 then 0 else if nb = 10 then nextbno d + 1 else ind d rootp) \<and>
     (\<forall>j<nb. fmap d' rootp j = fmap d rootp j) \<and> fmap d' rootp nb = nextbno d \<and>
     fget rootp 128 d' = of_nat (4096 * (nb + 1)) \<and> same_but (grown_bytes d' nb) d d'"

lemma make_link_block_grows:
  assumes im: "img_ok d fs nb" and room: "nextbno d + (if nb = 10 then 2 else 1) \<le> NBLOCK" "nb < 1024"
  obtains d' where "make_link_block rootp nb d = Some (nextbno d, d')" "root_grown d nb d'"
proof -
  let ?b = "nextbno d"
  note ro = img_okD(2) [OF im] and fo = img_okD(1) [OF im]
  have b: "?b < NBLOCK" "3 \<le> ?b" using room(1) fo by (auto simp: frame_ok_def split: if_splits)
  obtain d1 where d1: "next_block BLOCK_FILE d = Some (?b, d1)" "img d1 = img d" "nextbno d1 = ?b + 1"
    using next_block_eq [OF b(1)] by blast
  have e1: "fmap d1 p i = fmap d p i" "ind d1 p = ind d p" "fget p k d1 = fget p k d" for p i k
    using fget_img [OF d1(2)] by (simp_all add: fmap_def ind_def)
  have ind0: "(ind d rootp = 0) = (nb \<le> 10)" "ind d rootp \<noteq> 0 \<Longrightarrow> 3 \<le> ind d rootp \<and> ind d rootp < ?b"
    using ro root_ind [OF im] by (auto simp: root_ok_def)
  have "ptr_ok d1 rootp" using ind0(2) b d1(3) e1(2) by (auto simp: ptr_ok_def)
  moreover have "10 \<le> nb \<and> ind d1 rootp = 0 \<longrightarrow> nextbno d1 < NBLOCK" using room ind0(1) d1(3) e1(2) by auto
  ultimately obtain d2 where d2: "save_block_link rootp nb ?b d1 = Some d2"
    "nextbno d2 = (if 10 \<le> nb \<and> ind d1 rootp = 0 then nextbno d1 + 1 else nextbno d1)"
    "ind d2 rootp = (if 10 \<le> nb \<and> ind d1 rootp = 0 then nextbno d1 else ind d1 rootp)"
    "fmap d2 rootp nb = ?b" "\<And>j. j \<noteq> nb \<Longrightarrow> j < 10 \<or> ind d1 rootp \<noteq> 0 \<Longrightarrow> fmap d2 rootp j = fmap d1 rootp j"
    "same_but (links_of rootp \<union> (if nb < 10 then {} else {Blk (ind d2 rootp)} \<times> UNIV)) d1 d2"
    by (rule save_block_link_ok [OF _ room(2) _ b(1)]) blast+
  let ?d = "fput rootp 128 (fget rootp 128 d2 + 4096) d2"
  have ii: "ind ?d rootp = ind d2 rootp" by (simp add: ind_def fget_fput_other)
  have ff: "fmap ?d rootp j = fmap d2 rootp j" for j
    by (auto simp: fmap_def ii fget_fput_other fget_fput_place)
  have "same_but (grown_bytes ?d nb) d ?d"
  proof (rule same_but_trans)
    show "same_but (links_of rootp \<union> (if nb < 10 then {} else {Blk (ind d2 rootp)} \<times> UNIV)) d d2"
      using d2(6) same_but_img_eq [OF d1(2)] by simp
    show "same_but ({Super} \<times> {136..<140}) d2 ?d" by (rule same_but_fput) auto
  qed (auto simp: links_of_def ii grown_bytes_def)
  moreover have "fget rootp 128 d2 = fget rootp 128 d"
    using same_but_fget [OF d2(6), of rootp 128] e1(3) by (auto simp: links_of_def)
  then have "fget rootp 128 ?d = of_nat (4096 * (nb + 1))" using ro by (simp add: root_ok_def algebra_simps)
  ultimately have "root_grown d nb ?d"
    unfolding root_grown_def using d2(2-5) d1(3) ind0(1) e1 ii ff by auto
  moreover have "make_link_block rootp nb d = Some (?b, ?d)" using d1(1) d2(1) by (simp add: make_link_block_def)
  ultimately show thesis using that by blast
qed

lemma root_grownD:
  assumes "img_ok d fs nb" "root_grown d nb d'"
  shows "nextbno d' = nextbno d + (if nb = 10 then 2 else 1)"
    "ind d' rootp = (if nb < 10 then 0 else if nb = 10 then nextbno d + 1 else ind d rootp)"
    "j < nb \<Longrightarrow> fmap d' rootp j = fmap d rootp j" "fmap d' rootp nb = nextbno d" "same_but (grown_bytes d' nb) d d'"
    "10 \<le> nb \<Longrightarrow> 3 \<le> ind d' rootp \<and> ind d' rootp < nextbno d' \<and> ind d' rootp \<noteq> nextbno d"
    "file_blocks d' rootp (nb + 1) \<subseteq> insert (nextbno d) (file_blocks d rootp nb \<union> (if nb = 10 then {nextbno d + 1} else {}))"
proof -
  show g: "nextbno d' = nextbno d + (if nb = 10 then 2 else 1)"
    "ind d' rootp = (if nb < 10 then 0 else if nb = 10 then nextbno d + 1 else ind d rootp)"
    "j < nb \<Longrightarrow> fmap d' rootp j = fmap d rootp j" "fmap d' rootp nb = nextbno d" "same_but (grown_bytes d' nb) d d'" for j
    using assms(2) by (auto simp: root_grown_def)
  show "10 \<le> nb \<Longrightarrow> 3 \<le> ind d' rootp \<and> ind d' rootp < nextbno d' \<and> ind d' rootp \<noteq> nextbno d"
    using root_ind [OF assms(1)] img_okD(1) [OF assms(1)] by (auto simp: g frame_ok_def)
  show "file_blocks d' rootp (nb + 1) \<subseteq> insert (nextbno d) (file_blocks d rootp nb \<union> (if nb = 10 then {nextbno d + 1} else {}))"
  proof -
    have "fmap d' rootp ` {..<nb + 1} = insert (nextbno d) (fmap d rootp ` {..<nb})"
      using g(4) image_cong [OF refl, of "{..<nb}" "fmap d' rootp" "fmap d rootp"] g(3) by (simp add: lessThan_Suc)
    then show ?thesis using g(2) by (auto simp: file_blocks_def)
  qed
qed

lemma grown_root_ok:
  assumes im: "img_ok d fs nb" and gr: "root_grown d nb d'" and room: "nextbno d' \<le> NBLOCK" "nb < 1024"
  shows "frame_ok d'" "root_ok d' (nb + 1)"
proof -
  let ?b = "nextbno d"
  note g = root_grownD [OF im gr] and ro = img_okD(2) [OF im] and fo = img_okD(1) [OF im]
  have b: "3 \<le> ?b" using fo by (simp add: frame_ok_def)
  have zf: "zero_from d'" unfolding zero_from_def
  proof (intro allI impI)
    fix c i assume c: "nextbno d' \<le> c"
    then have "(Blk c, i) \<notin> grown_bytes d' nb" using g(6) by (auto simp: grown_bytes_def)
    then show "img d' (Blk c) i = 0" using same_but_img [OF g(5)] fo c g(1) by (auto simp: frame_ok_def zero_from_def split: if_splits)
  qed
  show "frame_ok d'"
    by (rule frame_ok_frame [OF fo g(5)]) (use g(1,6) room zf in \<open>auto simp: grown_bytes_def\<close>)
  have fbs: "file_blocks d' rootp (nb + 1) \<subseteq> {3..<nextbno d'}" using g(7) ro g(1) b by (fastforce simp: root_ok_def)
  have ne: "fmap d' rootp i \<noteq> ?b" if "i < nb" for i using g(3) [OF that] root_blocks(2) [OF im that] by simp
  have "inj_on (fmap d' rootp) {..<nb + 1}"
    using ro g(3,4) ne by (auto simp: root_ok_def inj_on_def less_Suc_eq)
  moreover have "fmap d' rootp i \<noteq> ind d' rootp" if "i < nb + 1" for i
  proof (cases "i = nb")
    case True
    then show ?thesis using g(2,4,6) b by (auto split: if_splits)
  next
    case False
    then have "i < nb" using that by simp
    then show ?thesis using g(3) root_blocks [OF im \<open>i < nb\<close>] ro by (auto simp: g(2) root_ok_def)
  qed
  moreover have "(ind d' rootp = 0) = (nb + 1 \<le> 10)" using g(2,6) by auto
  ultimately show "root_ok d' (nb + 1)" using fbs room(2) gr by (auto simp: root_ok_def root_grown_def)
qed

lemma grown_file:
  assumes im: "img_ok d fs nb" and gr: "root_grown d nb d'" and ro': "root_ok d' (nb + 1)" and full: "length fs = 16 * nb" and j: "j < length fs"
  shows "is_file d' (slot_of d' j) (fs ! j)"
    "file_blocks d' (slot_of d' j) (nblk (length (snd (fs ! j)))) \<inter> file_blocks d' rootp (nb + 1) = {}"
proof -
  let ?b = "nextbno d" and ?p = "slot_of d j" and ?m = "nblk (length (snd (fs ! j)))"
  note g = root_grownD [OF im gr]
  have jd: "j div 16 < nb" using j full by (simp add: less_mult_imp_div_less)
  have so: "slot_of d' j = slot_of d j" using jd g(3) by (simp add: slot_of_def)
  have isf: "is_file d ?p (fs ! j)" "fs_file_ok (fs ! j)" by (rule img_okD(5,4) [OF im j])+
  have dis: "file_blocks d ?p ?m \<inter> file_blocks d rootp nb = {}" by (rule img_okD(6) [OF im j])
  have bl: "file_blocks d ?p ?m \<subseteq> {3..<?b}" using isf(1) by (auto simp: is_file_def mapped_to_def file_blocks_def split: if_splits)
  have "ind d' rootp \<notin> file_blocks d ?p ?m" if "10 \<le> nb"
    using that bl dis g(2) by (auto simp: file_blocks_def split: if_splits)
  then have A1: "grown_bytes d' nb \<inter> Blk ` file_blocks d ?p ?m \<times> UNIV = {}" by (auto simp: grown_bytes_def)
  have "fmap d' rootp (j div 16) \<noteq> ind d' rootp" using ro' jd by (auto simp: root_ok_def)
  then have "fst ?p \<noteq> Blk (ind d' rootp)" using g(3) [OF jd] by (simp add: slot_of_def)
  then have A2: "grown_bytes d' nb \<inter> ent ?p = {}" by (auto simp: ent_def slot_of_def grown_bytes_def)
  have "is_file d' ?p (fs ! j)"
    by (rule is_file_frame [OF g(5) A2 A1 _ _ _ isf(1)]) (use isf(2) g(1) in \<open>auto simp: fs_file_ok_def name_ok_def\<close>)
  moreover have "file_blocks d' ?p ?m = file_blocks d ?p ?m"
    by (rule file_blocks_frame(1) [OF g(5) A2 ind_disjoint [OF A1]]) (use isf(2) in \<open>simp add: fs_file_ok_def\<close>)
  moreover have "file_blocks d ?p ?m \<inter> file_blocks d' rootp (nb + 1) = {}"
  proof -
    have "?b \<notin> file_blocks d ?p ?m" "?b + 1 \<notin> file_blocks d ?p ?m" using bl by auto
    then show ?thesis using g(7) dis by (cases "nb = 10") auto
  qed
  ultimately show "is_file d' (slot_of d' j) (fs ! j)"
    "file_blocks d' (slot_of d' j) ?m \<inter> file_blocks d' rootp (nb + 1) = {}" using so by simp_all
qed

lemma make_link_block_ok:
  assumes im: "img_ok d fs nb" and full: "length fs = 16 * nb" and room: "nextbno d + (if nb = 10 then 2 else 1) \<le> NBLOCK" "nb < 1024"
  obtains d' where "make_link_block rootp nb d = Some (nextbno d, d')" "img_ok d' fs (nb + 1)"
    "slot_of d' (length fs) = (Blk (nextbno d), 0)" "nextbno d' = nextbno d + (if nb = 10 then 2 else 1)"
proof -
  obtain d' where d': "make_link_block rootp nb d = Some (nextbno d, d')" "root_grown d nb d'"
    by (rule make_link_block_grows [OF im room])
  note g = root_grownD [OF im d'(2)]
  have ok: "frame_ok d'" "root_ok d' (nb + 1)" using grown_root_ok [OF im d'(2) _ room(2)] room(1) g(1) by simp_all
  have "img d' (fst (slot_of d' j)) (snd (slot_of d' j) + i) = 0" if j: "length fs \<le> j" "j < 16 * (nb + 1)" for i j
  proof -
    have "j = 16 * nb + (j - 16 * nb)" "j - 16 * nb < 16" using full j by auto
    then have "slot_of d' j = (Blk (nextbno d), 256 * (j - 16 * nb))" using slot_of_eq g(4) by metis
    moreover have "(Blk (nextbno d), i) \<notin> grown_bytes d' nb" for i using g(6) by (auto simp: grown_bytes_def)
    ultimately show ?thesis using same_but_img [OF g(5)] img_okD(1) [OF im] by (simp add: frame_ok_def zero_from_def)
  qed
  then have "img_ok d' fs (nb + 1)" unfolding img_ok_def
    using ok grown_file [OF im d'(2) ok(2) full] full im by (auto simp: img_ok_def)
  moreover have "slot_of d' (length fs) = (Blk (nextbno d), 0)" using slot_of_eq [of 0 d' nb] g(4) full by simp
  ultimately show thesis using that [OF d'(1)] g(1) by blast
qed

section \<open>Adding a file\<close>

text \<open>The entry with its name, size and type, before any block is written.\<close>

lemma named_entry:
  assumes im: "img_ok d fs nb" and l: "length fs < 16 * nb" and f: "fs_file_ok (name, c)"
  defines "p \<equiv> slot_of d (length fs)"
  obtains d' where "put_name p name d = Some d'"
    "name_at (fput p 132 FTYPE_REG (fput p 128 v d')) p name" "fget p 128 (fput p 132 FTYPE_REG (fput p 128 v d')) = v"
    "fget p 132 (fput p 132 FTYPE_REG (fput p 128 v d')) = FTYPE_REG" "ind (fput p 132 FTYPE_REG (fput p 128 v d')) p = 0"
    "same_but (ent p) d (fput p 132 FTYPE_REG (fput p 128 v d'))" "nextbno (fput p 132 FTYPE_REG (fput p 128 v d')) = nextbno d"
proof -
  have len: "length name < 128" "0 < length name" using f by (auto simp: fs_file_ok_def name_ok_def)
  have off: "snd p + 256 \<le> 4096" by (simp add: p_def slot_of_def)
  let ?d1 = "put_bytes (fst p) (snd p) (name @ [0]) d"
  let ?d2 = "fput p 132 FTYPE_REG (fput p 128 v ?d1)"
  have s1: "same_but ({fst p} \<times> {snd p..<snd p + 128}) d ?d1" using len by (intro same_but_put_bytes) auto
  have s2: "same_but ({fst p} \<times> {snd p + 128..<snd p + 136}) ?d1 ?d2"
    by (rule same_but_trans [of "{fst p} \<times> {snd p + 128..<snd p + 132}" _ "fput p 128 v ?d1" "{fst p} \<times> {snd p + 132..<snd p + 136}"])
       (auto intro!: same_but_fput)
  have "put_name p name d = Some ?d1" using off len by (simp add: put_name_def)
  moreover have "name_at ?d2 p name" unfolding name_at_def
  proof (intro allI impI)
    fix j assume j: "j \<le> length name"
    then have "img ?d2 (fst p) (snd p + j) = img ?d1 (fst p) (snd p + j)" using len by (intro same_but_img [OF s2]) auto
    then show "img ?d2 (fst p) (snd p + j) = (name @ [0]) ! j" using j by (simp add: put_bytes_def)
  qed
  moreover have "fget p 176 ?d2 = fget p 176 ?d1" "fget p 176 ?d1 = fget p 176 d"
    by (auto intro!: same_but_fget [OF s2] same_but_fget [OF s1])
  moreover have "fget p 176 d = 0"
    unfolding fget_def
  proof (rule rd32_zero)
    fix i assume "snd p + 176 \<le> i" "i < snd p + 176 + 4"
    then show "img d (fst p) i = 0" using img_okD(7) [OF im order.refl l, of "i - snd p"] by (simp add: p_def)
  qed
  moreover have "same_but (ent p) d ?d2" by (rule same_but_trans [OF s1 s2]) (auto simp: ent_def)
  ultimately show thesis by (intro that [of ?d1]) (simp_all add: fget_fput_other ind_def)
qed

lemma slot_disjoint:
  assumes "root_ok d nb" "j < 16 * nb" "k < 16 * nb" "j \<noteq> k"
  shows "ent (slot_of d j) \<inter> ent (slot_of d k) = {}"
proof (cases "j div 16 = k div 16")
  case True
  then have "j mod 16 \<noteq> k mod 16" using assms(4) by (metis div_mult_mod_eq)
  then show ?thesis by (auto simp: ent_def slot_of_def)
next
  case False
  then have "fmap d rootp (j div 16) \<noteq> fmap d rootp (k div 16)"
    using assms by (auto simp: root_ok_def inj_on_def less_mult_imp_div_less)
  then show ?thesis by (auto simp: ent_def slot_of_def)
qed

lemma img_ok_add:
  assumes im: "img_ok d fs nb" and l: "length fs < 16 * nb" and f: "fs_file_ok f"
    and d': "same_but (ent (slot_of d (length fs)) \<union> from_blk (nextbno d)) d d'" "nextbno d \<le> nextbno d'" "nextbno d' \<le> NBLOCK"
      "zero_from d'" "is_file d' (slot_of d (length fs)) f"
      "file_blocks d' (slot_of d (length fs)) (nblk (length (snd f))) \<subseteq> {nextbno d..}"
  shows "img_ok d' (fs @ [f]) nb"
proof -
  let ?p = "slot_of d (length fs)" let ?A = "ent ?p \<union> from_blk (nextbno d)"
  note ro = img_okD(2) [OF im] and fo = img_okD(1) [OF im]
  have rb: "file_blocks d rootp nb \<subseteq> {3..<nextbno d}" using ro by (simp add: root_ok_def)
  have pb: "fst ?p = Blk (fmap d rootp (length fs div 16))" "length fs div 16 < nb"
    using l by (auto simp: slot_of_def less_mult_imp_div_less)
  have "10 < nb \<longrightarrow> ind d rootp < nextbno d \<and> fst ?p \<noteq> Blk (ind d rootp)" using root_ind [OF im] ro pb by (auto simp: root_ok_def)
  then have Ai: "10 < nb \<longrightarrow> ?A \<inter> {Blk (ind d rootp)} \<times> UNIV = {}" by (auto simp: ent_def from_blk_def)
  have Ar: "?A \<inter> ent rootp = {}" by (auto simp: ent_def from_blk_def slot_of_def)
  note rf = file_blocks_frame [OF d'(1) Ar Ai]
  have nb: "nb \<le> 1024" using ro by (simp add: root_ok_def)
  have so: "slot_of d' j = slot_of d j" if "j < 16 * nb" for j
    using rf(2) [OF nb, of "j div 16"] that by (simp add: slot_of_def less_mult_imp_div_less)
  have "frame_ok d'"
    by (rule frame_ok_frame [OF fo d'(1)])
       (use d' root_blocks(1) [OF im pb(2)] fo in \<open>auto simp: ent_def from_blk_def slot_of_def frame_ok_def\<close>)
  moreover have "fget rootp 128 d' = fget rootp 128 d" by (intro same_but_fget [OF d'(1)]) (auto simp: ent_def from_blk_def slot_of_def)
  then have "root_ok d' nb"
    using ro rf(1) [OF nb] rf(2) [OF nb] rf(3) [OF nb] d'(2) by (auto simp: root_ok_def inj_on_def subset_iff)
  moreover have "is_file d' (slot_of d' j) ((fs @ [f]) ! j) \<and>
      file_blocks d' (slot_of d' j) (nblk (length (snd ((fs @ [f]) ! j)))) \<inter> file_blocks d' rootp nb = {}"
    if j: "j < length (fs @ [f])" for j
  proof (cases "j = length fs")
    case True
    then show ?thesis using d'(5,6) so [OF l] rf(1) [OF nb] rb by fastforce
  next
    case False
    then have jl: "j < length fs" using j by simp
    have isf: "is_file d (slot_of d j) (fs ! j)" "fs_file_ok (fs ! j)" by (rule img_okD(5,4) [OF im jl])+
    let ?m = "nblk (length (snd (fs ! j)))"
    have bl: "file_blocks d (slot_of d j) ?m \<subseteq> {3..<nextbno d}"
      using isf(1) by (auto simp: is_file_def mapped_to_def file_blocks_def split: if_splits)
    have dis: "file_blocks d (slot_of d j) ?m \<inter> file_blocks d rootp nb = {}" by (rule img_okD(6) [OF im jl])
    have "fmap d rootp (length fs div 16) \<in> file_blocks d rootp nb" using pb(2) by (auto simp: file_blocks_def)
    then have A1: "?A \<inter> Blk ` file_blocks d (slot_of d j) ?m \<times> UNIV = {}"
      using bl dis pb(1) by (fastforce simp: ent_def from_blk_def)
    have "fmap d rootp (j div 16) < nextbno d" using jl l by (intro root_blocks(2) [OF im]) (simp add: less_mult_imp_div_less)
    then have "from_blk (nextbno d) \<inter> ent (slot_of d j) = {}" by (auto simp: from_blk_def ent_def slot_of_def)
    then have A2: "?A \<inter> ent (slot_of d j) = {}"
      using slot_disjoint [OF ro l, of j] jl l by (simp add: Int_Un_distrib2)
    have "is_file d' (slot_of d j) (fs ! j)"
      by (rule is_file_frame [OF d'(1) A2 A1 _ _ d'(2) isf(1)]) (use isf(2) in \<open>auto simp: fs_file_ok_def name_ok_def\<close>)
    moreover have "file_blocks d' (slot_of d j) ?m = file_blocks d (slot_of d j) ?m"
      by (rule file_blocks_frame(1) [OF d'(1) A2 ind_disjoint [OF A1]]) (use isf(2) in \<open>simp add: fs_file_ok_def\<close>)
    ultimately show ?thesis using so [of j] jl l dis rf(1) [OF nb] by (simp add: nth_append)
  qed
  moreover have "img d' (fst (slot_of d' j)) (snd (slot_of d' j) + i) = 0" if j: "length (fs @ [f]) \<le> j" "j < 16 * nb" "i < 256" for i j
  proof -
    have jd: "fmap d rootp (j div 16) < nextbno d" using j(2) by (intro root_blocks(2) [OF im]) (simp add: less_mult_imp_div_less)
    have "(fst (slot_of d j), snd (slot_of d j) + i) \<in> ent (slot_of d j)" using j(3) by (simp add: ent_def)
    then have "(fst (slot_of d j), snd (slot_of d j) + i) \<notin> ?A"
      using slot_disjoint [OF ro l j(2)] j(1) jd by (auto simp: from_blk_def slot_of_def)
    then show ?thesis using same_but_img [OF d'(1)] img_okD(7) [OF im, of j i] j so [OF j(2)] by simp
  qed
  ultimately show ?thesis using l f im by (auto simp: img_ok_def)
qed

end
