(* ===== verification/FsRound.thy ===== *)
theory FsRound
  imports FsImage
begin

text \<open>
  What \<open>fsformat\<close> writes is what the file server reads: formatting a list of files, starting the server on the image
  and opening a file gives the file that was written.
\<close>

section \<open>Writing the files\<close>

text \<open>The directory blocks of \<open>n\<close> files, and the blocks that the entry of one more file takes.\<close>

definition dirblks :: "nat \<Rightarrow> nat" where
  "dirblks n = (n + 15) div 16"

definition slot_cost :: "nat \<Rightarrow> nat" where
  "slot_cost n = (if n mod 16 = 0 then if n = 160 then 2 else 1 else 0)"

lemma dirblks_Suc:
  "n mod 16 = 0 \<Longrightarrow> n = 16 * dirblks n \<and> dirblks (Suc n) = dirblks n + 1"
  "n mod 16 \<noteq> 0 \<Longrightarrow> n < 16 * dirblks n \<and> dirblks (Suc n) = dirblks n"
proof -
  assume "n mod 16 = 0"
  then obtain q where "n = 16 * q" by (auto simp: mod_eq_0_iff_dvd dvd_def)
  then show "n = 16 * dirblks n \<and> dirblks (Suc n) = dirblks n + 1" by (simp add: dirblks_def)
next
  assume r: "n mod 16 \<noteq> 0"
  obtain q r where n: "n = 16 * q + r" "0 < r" "r < 16" using r that [of "n div 16" "n mod 16"] by simp
  have "dirblks n = q + 1" unfolding dirblks_def by (rule div_nat_eqI) (use n in simp_all)
  moreover have "dirblks (Suc n) = q + 1" unfolding dirblks_def by (rule div_nat_eqI) (use n in simp_all)
  ultimately show "n < 16 * dirblks n \<and> dirblks (Suc n) = dirblks n" using n by linarith
qed

lemma root_few: "img_ok d fs nb \<Longrightarrow> nb < 1024"
proof -
  assume im: "img_ok d fs nb"
  have "fmap d rootp ` {..<nb} \<subseteq> {3..<nextbno d}" "inj_on (fmap d rootp) {..<nb}" "nextbno d \<le> 1024"
    using img_okD(1,2) [OF im] by (auto simp: root_ok_def file_blocks_def frame_ok_def)
  then have "nb \<le> nextbno d - 3" "nextbno d \<le> 1024" using card_mono [of "{3..<nextbno d}" "fmap d rootp ` {..<nb}"] by (auto simp: card_image)
  then show "nb < 1024" by simp
qed

lemma create_file_ok:
  assumes im: "img_ok d fs (dirblks (length fs))" and room: "nextbno d + slot_cost (length fs) \<le> NBLOCK"
  obtains d' where "create_file rootp d = Some (slot_of d' (length fs), d')" "img_ok d' fs (dirblks (length fs + 1))"
    "length fs < 16 * dirblks (length fs + 1)" "nextbno d' = nextbno d + slot_cost (length fs)"
proof -
  let ?nb = "dirblks (length fs)"
  have sc: "create_scan rootp [0..<?nb] d = Some (if length fs < 16 * ?nb then Some (slot_of d (length fs)) else None)"
    using create_scan_ok [OF im, of 0] by simp
  have sz: "unat (fget rootp 128 d div 4096) = ?nb" by (rule root_size [OF img_okD(2) [OF im]])
  show thesis
  proof (cases "length fs mod 16 = 0")
    case True
    note n = dirblks_Suc(1) [OF True]
    have co: "slot_cost (length fs) = (if ?nb = 10 then 2 else 1)" using True n by (auto simp: slot_cost_def)
    obtain d' where d': "make_link_block rootp ?nb d = Some (nextbno d, d')" "img_ok d' fs (?nb + 1)"
      "slot_of d' (length fs) = (Blk (nextbno d), 0)" "nextbno d' = nextbno d + slot_cost (length fs)"
      by (rule make_link_block_ok [OF im _ _ root_few [OF im]]) (use n room co in \<open>auto simp: that\<close>)
    have "create_file rootp d = Some (slot_of d' (length fs), d')"
      using sc n d'(1,3) by (simp add: create_file_def sz del: upt_Suc)
    then show thesis using that [OF _ _ _ d'(4)] d'(2) n by simp
  next
    case False
    note n = dirblks_Suc(2) [OF False]
    have "create_file rootp d = Some (slot_of d (length fs), d)" using sc n by (simp add: create_file_def sz del: upt_Suc)
    then show thesis using that [of d] im n False by (simp add: slot_cost_def)
  qed
qed

lemma write_file_ok:
  assumes im: "img_ok d fs (dirblks (length fs))" and f: "fs_file_ok (last_part path, c)"
    and room: "nextbno d + slot_cost (length fs) + cost 0 (nblk (length c)) \<le> NBLOCK"
  obtains d' where "write_file rootp path (of_nat (length c)) c d = Some d'"
    "img_ok d' (fs @ [(last_part path, c)]) (dirblks (length fs + 1))"
    "nextbno d' = nextbno d + slot_cost (length fs) + cost 0 (nblk (length c))"
proof -
  let ?L = "length fs" let ?nb = "dirblks (?L + 1)" let ?name = "last_part path" let ?m = "nblk (length c)"
  obtain d1 where d1: "create_file rootp d = Some (slot_of d1 ?L, d1)" "img_ok d1 fs ?nb" "?L < 16 * ?nb"
    "nextbno d1 = nextbno d + slot_cost ?L" using room by (auto intro: create_file_ok [OF im])
  let ?p = "slot_of d1 ?L" let ?n = "nextbno d1"
  obtain d2 where d2: "put_name ?p ?name d1 = Some d2"
    and d3: "\<And>d3. d3 = fput ?p 132 FTYPE_REG (fput ?p 128 (of_nat (length c)) d2) \<Longrightarrow>
      name_at d3 ?p ?name \<and> fget ?p 128 d3 = of_nat (length c) \<and> fget ?p 132 d3 = FTYPE_REG \<and> ind d3 ?p = 0 \<and>
      same_but (ent ?p) d1 d3 \<and> nextbno d3 = ?n"
    by (rule named_entry [OF d1(2,3) f, of "of_nat (length c)"]) blast
  define d3 where "d3 = fput ?p 132 FTYPE_REG (fput ?p 128 (of_nat (length c)) d2)"
  have e: "name_at d3 ?p ?name" "fget ?p 128 d3 = of_nat (length c)" "fget ?p 132 d3 = FTYPE_REG" "ind d3 ?p = 0"
    "same_but (ent ?p) d1 d3" "nextbno d3 = ?n" using d3 [OF d3_def] by auto
  have pb: "fst ?p = Blk (fmap d1 rootp (?L div 16))" "fmap d1 rootp (?L div 16) < ?n" "3 \<le> ?n" "?n \<le> NBLOCK"
    using d1(3) root_blocks(2) [OF d1(2), of "?L div 16"] img_okD(1) [OF d1(2)]
    by (auto simp: slot_of_def less_mult_imp_div_less frame_ok_def)
  have "zero_from d3"
    using same_but_img [OF e(5)] img_okD(1) [OF d1(2)] e(6) pb by (auto simp: zero_from_def frame_ok_def ent_def)
  moreover have "ptr_ok d3 ?p" using pb e(4,6) by (auto simp: ptr_ok_def)
  moreover have "mapped_to d3 ?p ?n 0 c" using e(4) by (simp add: mapped_to_def)
  ultimately have "\<exists>d4. write_blocks ?p 0 c d3 = Some d4 \<and> mapped_to d4 ?p ?n ?m c \<and> zero_from d4 \<and>
      nextbno d4 = nextbno d3 + cost 0 ?m \<and> same_but (links_of ?p \<union> from_blk ?n) d3 d4"
    using pb(3) e(6) room [folded d1(4)] f by (intro write_blocks_ok [OF _ pb(1,2)]) (simp_all add: fs_file_ok_def)
  then obtain d4 where d4: "write_blocks ?p 0 c d3 = Some d4" "mapped_to d4 ?p ?n ?m c" "zero_from d4"
    "nextbno d4 = ?n + cost 0 ?m" "same_but (links_of ?p \<union> from_blk ?n) d3 d4"
    using e(6) by auto
  have bytes: "(fst ?p, i) \<notin> links_of ?p \<union> from_blk ?n" if "i < snd ?p + 136" for i
    using that pb by (auto simp: links_of_def from_blk_def)
  have "length ?name < 128" using f by (simp add: fs_file_ok_def name_ok_def)
  then have "name_at d4 ?p ?name" using e(1) same_but_img [OF d4(5) bytes] by (simp add: name_at_def)
  moreover have "fget ?p 128 d4 = fget ?p 128 d3" "fget ?p 132 d4 = fget ?p 132 d3"
    by (rule same_but_fget [OF d4(5) bytes], simp)+
  moreover have "mapped_to d4 ?p 3 ?m c" using d4(2) pb(3) by (fastforce simp: mapped_to_def split: if_splits)
  ultimately have isf: "is_file d4 ?p (?name, c)" using e by (simp add: is_file_def)
  have "same_but (ent ?p \<union> from_blk ?n) d1 d4" by (rule same_but_trans [OF e(5) d4(5)]) (auto simp: ent_def links_of_def)
  moreover have "file_blocks d4 ?p ?m \<subseteq> {?n..}" using d4(2) by (auto simp: mapped_to_def file_blocks_def split: if_splits)
  ultimately have "img_ok d4 (fs @ [(?name, c)]) ?nb"
    using img_ok_add [OF d1(2,3) f _ _ _ d4(3) isf] d4(4) room d1(4) by simp
  moreover have "write_file rootp path (of_nat (length c)) c d = Some d4" using d1(1) d2 d4(1) by (simp add: write_file_def d3_def)
  ultimately show thesis using that d4(4) d1(4) by simp
qed

definition blocks_needed :: "(u8 list \<times> u8 list) list \<Rightarrow> nat" where
  "blocks_needed fs = (\<Sum>f\<leftarrow>fs. cost 0 (nblk (length (snd f)))) + dirblks (length fs) + (if 160 < length fs then 1 else 0)"

lemma blocks_needed_snoc:
  "blocks_needed (fs @ [f]) = blocks_needed fs + slot_cost (length fs) + cost 0 (nblk (length (snd f)))"
proof (cases "length fs mod 16 = 0")
  case True
  then show ?thesis using dirblks_Suc(1) [OF True] by (auto simp: blocks_needed_def slot_cost_def)
next
  case False
  then have "length fs \<noteq> 160" by auto
  then show ?thesis using dirblks_Suc(2) [OF False] False by (auto simp: blocks_needed_def slot_cost_def)
qed

lemma write_args_append:
  "write_args (xs @ ys) = (\<lambda>d. do { d \<leftarrow> write_args xs d; write_args ys d })"
proof (induction xs)
  case (Cons x xs)
  show ?case by (cases x) (simp add: Cons.IH fun_eq_iff)
qed simp

text \<open>Arguments that are readable regular files; the files they become in the image.\<close>

definition reg_args :: "(u8 list \<times> u8 list) list \<Rightarrow> (u8 list \<times> hnode option) list" where
  "reg_args = map (\<lambda>(path, c). (path, Some (Reg (Some c))))"

definition entries_of :: "(u8 list \<times> u8 list) list \<Rightarrow> (u8 list \<times> u8 list) list" where
  "entries_of = map (\<lambda>(path, c). (last_part path, c))"

lemma init_disk_ok: "img_ok (init_disk fmt0) [] 0" "nextbno (init_disk fmt0) = 3"
proof -
  show n: "nextbno (init_disk fmt0) = 3" by (simp add: init_disk_def Let_def set_type_def)
  have s: "img (init_disk fmt0) Super i =
      (if i = 8 then 47 else if i = 9 then 0 else wr32 (wr32 (wr32 (\<lambda>_. 0) 0 FS_MAGIC) 4 1024) 140 1 i)" for i
    by (auto simp: init_disk_def Let_def set_type_def put_bytes_def fput_def fmt0_def numeral_2_eq_2 nth_Cons')
  have b: "img (init_disk fmt0) (Blk c) i = (if c = 2 \<and> i < 128 then 0xff else 0)" for c i
    by (auto simp: init_disk_def Let_def set_type_def put_bytes_def fput_def fmt0_def)
  have w: "fget (Super, 0) k (init_disk fmt0) = rd32 (wr32 (wr32 (wr32 (\<lambda>_. 0) 0 FS_MAGIC) 4 1024) 140 1) k" if "k + 4 \<le> 8 \<or> 10 \<le> k" for k
    unfolding fget_def fst_conv snd_conv add_0 by (rule rd32_cong) (use that s in auto)
  have "fget rootp k d = fget (Super, 0) (8 + k) d" for k d by (simp add: fget_def)
  then show "img_ok (init_disk fmt0) [] 0"
    by (simp add: img_ok_def frame_ok_def root_ok_def n b zero_from_def ind_def file_blocks_def w rd32_wr32_other)
       (simp add: rd32_def wr32_def)
qed

lemma write_args_ok:
  assumes "list_all fs_file_ok (entries_of fs)" "3 + blocks_needed (entries_of fs) \<le> NBLOCK"
  shows "\<exists>d. write_args (reg_args fs) (init_disk fmt0) = Some d \<and> img_ok d (entries_of fs) (dirblks (length fs)) \<and>
    nextbno d = 3 + blocks_needed (entries_of fs)"
  using assms
proof (induction fs rule: rev_induct)
  case Nil
  then show ?case using init_disk_ok by (simp add: reg_args_def entries_of_def blocks_needed_def dirblks_def)
next
  case (snoc f fs)
  obtain path c where f: "f = (path, c)" by (cases f)
  have e: "entries_of (fs @ [f]) = entries_of fs @ [(last_part path, c)]" "reg_args (fs @ [f]) = reg_args fs @ [(path, Some (Reg (Some c)))]"
    "length (entries_of fs) = length fs" by (simp_all add: entries_of_def reg_args_def f)
  note bn = blocks_needed_snoc [of "entries_of fs" "(last_part path, c)", unfolded e(3)]
  obtain d where d: "write_args (reg_args fs) (init_disk fmt0) = Some d" "img_ok d (entries_of fs) (dirblks (length (entries_of fs)))"
    "nextbno d = 3 + blocks_needed (entries_of fs)"
    using snoc.IH snoc.prems bn unfolding e by auto
  have "fs_file_ok (last_part path, c)" using snoc.prems(1) by (simp add: e)
  then obtain d' where "write_file rootp path (of_nat (length c)) c d = Some d'"
    "img_ok d' (entries_of fs @ [(last_part path, c)]) (dirblks (length (entries_of fs) + 1))"
    "nextbno d' = nextbno d + slot_cost (length (entries_of fs)) + cost 0 (nblk (length c))"
    by (rule write_file_ok [OF d(2)]) (use d(3) snoc.prems(2) bn e in \<open>auto simp: that\<close>)
  then show ?case using d bn by (simp add: e write_args_append)
qed

section \<open>The image\<close>

lemma bit_clear:
  fixes w :: u32
  assumes "i < 32" "j < 32"
  shows "bit (w AND NOT (push_bit i 1)) j \<longleftrightarrow> bit w j \<and> j \<noteq> i"
  using assms by (auto simp: bit_simps)

text \<open>\<open>flush_bitmap\<close> clears the bits of the blocks in use, all of them in block 2.\<close>

definition clear_bit :: "nat \<Rightarrow> fmt \<Rightarrow> fmt" where
  "clear_bit i d = (let p = (Blk (2 + i div 32768), 0); k = 4 * (i mod 32768 div 32) in
                    fput p k (fget p k d AND NOT (push_bit (i mod 32) 1)) d)"

lemma flush_bitmap_eq: "flush_bitmap d = fold clear_bit [0..<nextbno d] d"
  unfolding flush_bitmap_def by (rule fold_cong) (simp_all add: fun_eq_iff clear_bit_def)

lemma clear_bits:
  assumes "n \<le> 32768"
  shows "(q \<noteq> Blk 2 \<longrightarrow> img (fold clear_bit [0..<n] d) q = img d q) \<and>
    (\<forall>w j. j < 32 \<longrightarrow> bit (fget (Blk 2, 0) (4 * w) (fold clear_bit [0..<n] d)) j =
       (bit (fget (Blk 2, 0) (4 * w) d) j \<and> n \<le> 32 * w + j))"
  using assms
proof (induction n)
  case (Suc n)
  let ?d = "fold clear_bit [0..<n] d"
  have n: "n div 32768 = 0" "n mod 32768 = n" using Suc.prems by simp_all
  have c: "clear_bit n ?d = fput (Blk 2, 0) (4 * (n div 32)) (fget (Blk 2, 0) (4 * (n div 32)) ?d AND NOT (push_bit (n mod 32) 1)) ?d"
    by (simp add: clear_bit_def n Let_def)
  have "bit (fget (Blk 2, 0) (4 * w) (clear_bit n ?d)) j = (bit (fget (Blk 2, 0) (4 * w) ?d) j \<and> n \<noteq> 32 * w + j)" if "j < 32" for w j
  proof (cases "w = n div 32")
    case True
    moreover have "n = 32 * (n div 32) + j \<longleftrightarrow> j = n mod 32" using that by (auto simp: minus_mod_eq_mult_div [symmetric])
    ultimately show ?thesis using that bit_clear [of "n mod 32" j] by (simp add: c)
  next
    case False
    then have "n \<noteq> 32 * w + j" using that by auto
    moreover have "fget (Blk 2, 0) (4 * w) (clear_bit n ?d) = fget (Blk 2, 0) (4 * w) ?d"
      unfolding c using False by (intro fget_fput_other) auto
    ultimately show ?thesis by simp
  qed
  moreover have "q \<noteq> Blk 2 \<Longrightarrow> img (clear_bit n ?d) q = img ?d q" by (simp add: c fput_def)
  ultimately show ?case using Suc by (auto simp: Suc_le_eq le_less)
qed simp

lemma flush_bitmap_img: "nextbno d \<le> NBLOCK \<Longrightarrow> q \<noteq> Blk 2 \<Longrightarrow> img (flush_bitmap d) q = img d q"
  using clear_bits [of "nextbno d" q d] by (simp add: flush_bitmap_eq)

lemma flush_bitmap_bits:
  assumes "frame_ok d" "b < NBLOCK"
  shows "bit (rd32 (img (flush_bitmap d) (Blk 2)) (4 * (b div 32))) (b mod 32) \<longleftrightarrow> nextbno d \<le> b"
proof -
  have lt: "4 * (b div 32) + 4 \<le> 128" using assms(2) by (simp add: less_mult_imp_div_less)
  have "rd32 (img d (Blk 2)) (4 * (b div 32)) = rd32 (\<lambda>_. 0xff) (4 * (b div 32))"
    using assms(1) lt by (intro rd32_cong) (auto simp: frame_ok_def)
  also have "\<dots> = - 1" by (simp add: rd32_def)
  finally have "bit (fget (Blk 2, 0) (4 * (b div 32)) d) (b mod 32)" by (simp add: fget_def bit_minus_1_iff)
  then show ?thesis using clear_bits [of "nextbno d" "Blk 2" d] assms(1)
    by (auto simp: flush_bitmap_eq frame_ok_def fget_def)
qed

lemma finish_fs_bytes:
  "i < 4096 \<Longrightarrow> finish_fs False d (4096 * b + i) = (if b = 1 \<and> i < 264 then img d Super i else img d (Blk b) i)"
  by (simp add: finish_fs_def put_bytes_def)

section \<open>The server on the image\<close>

text \<open>What a started server sees of the image: the superblock, the blocks in use and the free ones.\<close>

definition serves :: "'z fs_st_scheme \<Rightarrow> fmt \<Rightarrow> bool" where
  "serves s d \<longleftrightarrow> fs_ok s \<and> kalloc s = [] \<and> nblocks s = of_nat NBLOCK \<and>
     free_blocks s = {b. nextbno d \<le> unat b \<and> unat b < NBLOCK} \<and>
     (\<forall>i<264. blk_view s 1 i = img d Super i) \<and>
     (\<forall>b i. 3 \<le> unat b \<longrightarrow> unat b < NBLOCK \<longrightarrow> i < 4096 \<longrightarrow> blk_view s b i = img d (Blk (unat b)) i)"

lemma fs_init_serves:
  assumes d: "frame_ok d" and s: "fresh s" "\<And>a. a < 4096 * NBLOCK \<Longrightarrow> disk s a = finish_fs False (flush_bitmap d) a"
  obtains s' where "fs_init s = Some s'" "serves s' d"
proof -
  have nx: "nextbno d \<le> NBLOCK" "3 \<le> nextbno d" using d by (simp_all add: frame_ok_def)
  have v: "blk_view s b i = (if unat b = 1 \<and> i < 264 then img d Super i else img (flush_bitmap d) (Blk (unat b)) i)"
    if "unat b < NBLOCK" "i < 4096" for b i
  proof -
    have "b < MAXBLK" using that by (simp add: word_less_nat_alt)
    then have "\<not> cached s b" using s(1) by (auto simp: fresh_def only_cached_def)
    then show ?thesis using that s(2) [of "4096 * unat b + i"] finish_fs_bytes [OF that(2)] flush_bitmap_img [OF nx(1), of Super]
      by (simp add: blk_view_def blk_disk_def)
  qed
  have vb: "blk_view s b i = img d (Blk (unat b)) i" if "3 \<le> unat b" "unat b < NBLOCK" "i < 4096" for b i
    using v [OF that(2,3)] that flush_bitmap_img [OF nx(1), of "Blk (unat b)"] by auto
  have w: "view32 s 1 k = fget (Super, 0) k d" if "k + 4 \<le> 264" for k
    unfolding fget_def using that v [of 1]
    by (subst view32_rd32 [of s 1 "\<lambda>i. blk_view s 1 i"]) (auto intro: rd32_cong)
  have n: "view32 s 1 4 = of_nat NBLOCK" "view32 s 1 0 = FS_MAGIC" using w [of 4] w [of 0] d by (simp_all add: frame_ok_def)
  have bits: "bit (view_bits s b) (unat (b mod 32)) \<longleftrightarrow> nextbno d \<le> unat b" if "unat b < NBLOCK" for b
  proof -
    have "b div BIT2BLK = 0" using that by (simp add: word_unat_eq_iff unat_div)
    then have b0: "b div BIT2BLK + 2 = 2" "unat b mod 0x8000 = unat b" using that by simp_all
    have "4 * (unat b div 32) + 4 \<le> 4096" using that by simp
    then have "view_bits s b = rd32 (img (flush_bitmap d) (Blk 2)) (4 * (unat b div 32))"
      unfolding view_bits_def b0 using v [of 2] by (intro view32_rd32) auto
    then show ?thesis using flush_bitmap_bits [OF d that] by (simp add: mask_index(2))
  qed
  have fr: "view_free s = {b. nextbno d \<le> unat b \<and> unat b < NBLOCK}"
    using bits n(1) by (auto simp: view_free_def word_less_nat_alt)
  have iok: "image_ok s" using n fr nx(2) by (auto simp: image_ok_def word_le_nat_alt word_less_nat_alt)
  obtain s' where s': "fs_init s = Some s'" "fs_ok s'" "kalloc s' = []" "nblocks s' = view32 s 1 4" "free_blocks s' = view_free s"
    "\<And>b i. b < MAXBLK \<Longrightarrow> b \<noteq> 0 \<Longrightarrow> i < 4096 \<Longrightarrow> blk_view s' b i = blk_view s b i"
    by (rule fs_init_eq [OF s(1)]) (use iok that in auto)
  have "blk_view s' b i = img d (Blk (unat b)) i" if "3 \<le> unat b" "unat b < NBLOCK" "i < 4096" for b i
  proof -
    have "b < MAXBLK" "b \<noteq> 0" using that by (auto simp: word_less_nat_alt)
    then show ?thesis using s'(6) vb that by simp
  qed
  moreover have "blk_view s' 1 i = img d Super i" if "i < 264" for i using that s'(6) [of 1 i] v [of 1 i] by simp
  ultimately have "serves s' d" unfolding serves_def using s'(2-5) n(1) fr by simp
  then show thesis using that s'(1) by blast
qed

section \<open>A structure of the image in the server's memory\<close>

definition same_file :: "'z fs_st_scheme \<Rightarrow> u32 \<Rightarrow> fmt \<Rightarrow> fptr \<Rightarrow> bool" where
  "same_file s f d p \<longleftrightarrow> inode s f \<and> (\<forall>k. k < 180 \<longrightarrow> 4 dvd k \<longrightarrow> load32 (vm s) (f + of_nat k) = fget p k d)"

lemma same_file_word: "same_file s f d p \<Longrightarrow> k < 180 \<Longrightarrow> 4 dvd k \<Longrightarrow> load32 (vm s) (f + of_nat k) = fget p k d"
  by (simp add: same_file_def)

lemma of_nat_ind: "of_nat (ind d p) = fget p 176 d"
  by (simp add: ind_def)

lemma fblock_image:
  assumes f: "same_file s f d p" and i: "i < 1024"
    and iv: "10 \<le> i \<Longrightarrow> ind d p \<noteq> 0 \<and> (\<forall>j<4096. blk_view s (of_nat (ind d p)) j = img d (Blk (ind d p)) j)"
  shows "fblock s f (of_nat i) = of_nat (fmap d p i)"
proof -
  have u: "unat (of_nat i :: u32) = i" using i by (intro unat_of_nat32) simp
  show ?thesis
  proof (cases "i < 10")
    case True
    then have "(of_nat i :: u32) < NDIRECT" using u by (simp add: word_less_nat_alt)
    then have "fblock s f (of_nat i) = load32 (vm s) (f + of_nat (136 + 4 * i))"
      unfolding fblock_def using direct_offset [of "of_nat i" f] u by (simp only: if_True)
    also have "\<dots> = fget p (136 + 4 * i) d" using True by (intro same_file_word [OF f]) simp_all
    finally show ?thesis using True by (simp add: fmap_def)
  next
    case False
    have ix: "ind d p \<noteq> 0" "\<And>j. j < 4096 \<Longrightarrow> blk_view s (of_nat (ind d p)) j = img d (Blk (ind d p)) j" using iv False by auto
    have "load32 (vm s) (f_indirect f) = of_nat (ind d p)" using same_file_word [OF f, of 176] of_nat_ind by simp
    moreover have "of_nat (ind d p) \<noteq> (0 :: u32)" using ix(1) by (auto simp: ind_def)
    moreover have "view32 s (of_nat (ind d p)) (4 * i) = fget (Blk (ind d p), 0) (4 * i) d"
      unfolding fget_def using ix(2) i by (subst view32_rd32 [of _ _ "img d (Blk (ind d p))"]) auto
    ultimately show ?thesis using False u i by (simp add: fblock_def fmap_def word_less_nat_alt Let_def)
  qed
qed

lemma servesD:
  assumes "serves s d"
  shows "fs_ok s" "kalloc s = []" "nblocks s = of_nat NBLOCK" "free_blocks s = {b. nextbno d \<le> unat b \<and> unat b < NBLOCK}"
    "i < 264 \<Longrightarrow> blk_view s 1 i = img d Super i"
    "3 \<le> b \<Longrightarrow> b < NBLOCK \<Longrightarrow> i < 4096 \<Longrightarrow> blk_view s (of_nat b) i = img d (Blk b) i"
proof -
  show "blk_view s (of_nat b) i = img d (Blk b) i" if "3 \<le> b" "b < NBLOCK" "i < 4096"
  proof -
    have "unat (of_nat b :: u32) = b" using that by (intro unat_of_nat32) simp
    then show ?thesis using assms that unfolding serves_def by metis
  qed
qed (use assms in \<open>auto simp: serves_def\<close>)

lemma serves_block_ok: "serves s d \<Longrightarrow> b < nextbno d \<Longrightarrow> nextbno d \<le> NBLOCK \<Longrightarrow> block_ok s (of_nat b)"
  using servesD(3,4) [of s d] unat_of_nat32 [of b] by (simp add: block_ok_def word_less_nat_alt)

lemma mapped_image:
  assumes f: "same_file s f d p" and i: "i < 1024" and ok: "10 \<le> i \<Longrightarrow> ind d p \<noteq> 0 \<and> block_ok s (of_nat (ind d p))"
  shows "mapped_i s f (of_nat i)"
proof -
  have u: "unat (of_nat i :: u32) = i" using i by (intro unat_of_nat32) simp
  have "load32 (vm s) (f_indirect f) = of_nat (ind d p)" using same_file_word [OF f, of 176] of_nat_ind by simp
  moreover have "of_nat (ind d p) \<noteq> (0 :: u32)" if "ind d p \<noteq> 0" using that by (auto simp: ind_def)
  ultimately show ?thesis using f i u ok by (cases "i < 10") (auto simp: mapped_i_def same_file_def word_less_nat_alt)
qed

section \<open>The root directory in the server\<close>

lemma root_same:
  assumes "serves s d"
  shows "same_file s (root s) d rootp"
proof -
  have ok: "fs_ok s" by (rule servesD(1) [OF assms])
  have "load32 (vm s) (root s + of_nat k) = fget rootp k d" if "k < 180" for k
  proof -
    have "load32 (vm s) (baddr 1 + of_nat (8 + k)) = view32 s 1 (8 + k)"
      using that by (intro view32_cached fs_okD(3) [OF ok]) simp
    also have "\<dots> = rd32 (\<lambda>i. blk_view s 1 i) (8 + k)" using that by (intro view32_rd32) auto
    also have "\<dots> = fget rootp k d" unfolding fget_def fst_conv snd_conv
      using that by (intro rd32_cong servesD(5) [OF assms]) simp
    finally show ?thesis using fs_okD(1) [OF ok] by (simp add: add.assoc)
  qed
  then show ?thesis using root_inode [OF ok] by (simp add: same_file_def)
qed

lemma root_fblock:
  assumes s: "serves s d" and im: "img_ok d fs nb" and i: "i < nb"
  shows "fblock s (root s) (of_nat i) = of_nat (fmap d rootp i)" "mapped_i s (root s) (of_nat i)"
proof -
  have i': "i < 1024" using i root_few [OF im] by simp
  have x: "3 \<le> ind d rootp" "ind d rootp < NBLOCK" "ind d rootp < nextbno d" if "10 \<le> i" using root_ind [OF im] that i by simp_all
  have nx: "nextbno d \<le> NBLOCK" using img_okD(1) [OF im] by (simp add: frame_ok_def)
  show "fblock s (root s) (of_nat i) = of_nat (fmap d rootp i)"
    by (rule fblock_image [OF root_same [OF s] i']) (use x servesD(6) [OF s] in auto)
  show "mapped_i s (root s) (of_nat i)"
    by (rule mapped_image [OF root_same [OF s] i']) (use x serves_block_ok [OF s _ nx] in auto)
qed

lemma root_dir:
  assumes s: "serves s d" and im: "img_ok d fs nb"
  shows "dir_blocks s (root s) = map of_nat [0..<nb]" "dir_ok s (root s)" "load32 (vm s) (f_type (root s)) = FTYPE_DIR"
proof -
  have w: "load32 (vm s) (f_size (root s)) = of_nat (4096 * nb)" "load32 (vm s) (f_type (root s)) = FTYPE_DIR"
    using same_file_word [OF root_same [OF s], of 128] same_file_word [OF root_same [OF s], of 132] img_okD(1,2) [OF im]
    by (simp_all add: root_ok_def frame_ok_def)
  show "load32 (vm s) (f_type (root s)) = FTYPE_DIR" by (rule w)
  have nx: "nextbno d \<le> NBLOCK" using img_okD(1) [OF im] by (simp add: frame_ok_def)
  have "unat (fget rootp 128 d div 4096) = nb" by (rule root_size [OF img_okD(2) [OF im]])
  then show db: "dir_blocks s (root s) = map of_nat [0..<nb]"
    using w(1) img_okD(2) [OF im] by (simp add: dir_blocks_def upto_w_def root_ok_def)
  have "dblock_ok s (root s) (of_nat i)" if i: "i < nb" for i
  proof -
    let ?b = "fmap d rootp i"
    note rf = root_fblock [OF s im i] and rb = root_blocks [OF im i]
    have u: "unat (of_nat ?b :: u32) = ?b" using rb by (intro unat_of_nat32) simp
    have "nblocks s div BIT2BLK = 0" using servesD(3) [OF s] by (simp add: word_unat_eq_iff unat_div)
    then have "nblocks s div BIT2BLK + 2 < of_nat ?b" using rb(1) u by (simp add: word_less_nat_alt)
    moreover have "of_nat ?b \<noteq> load32 (vm s) (f_indirect (root s))"
    proof -
      have "load32 (vm s) (f_indirect (root s)) = of_nat (ind d rootp)"
        using same_file_word [OF root_same [OF s], of 176] of_nat_ind by simp
      moreover have "?b \<noteq> ind d rootp" using img_okD(2) [OF im] i by (simp add: root_ok_def)
      moreover have "unat (of_nat (ind d rootp) :: u32) = ind d rootp" by (simp add: ind_def)
      ultimately show ?thesis using u by metis
    qed
    moreover have "of_nat ?b \<noteq> (0 :: u32)" using rb(1) u by (auto simp: word_unat_eq_iff)
    ultimately show ?thesis using rf serves_block_ok [OF s rb(2) nx] by (simp add: dblock_ok_def)
  qed
  then show "dir_ok s (root s)" using db root_inode [OF servesD(1) [OF s]] by (auto simp: dir_ok_def)
qed

lemma name_is_image:
  assumes s: "serves s d" and im: "img_ok d fs nb" and i: "i < nb" "k < 16" and n: "length n < 256"
  shows "name_is s n (of_nat (fmap d rootp i)) k = name_at d (slot_of d (16 * i + k)) n"
proof -
  have "blk_view s (of_nat (fmap d rootp i)) (256 * k + j) = img d (Blk (fmap d rootp i)) (256 * k + j)" if "j \<le> length n" for j
    using that i(2) n root_blocks [OF im i(1)] by (intro servesD(6) [OF s]) auto
  then show ?thesis by (simp add: name_is_iff name_at_def slot_of_eq [OF i(2)])
qed

lemma lookup_image:
  assumes s: "serves s d" and im: "img_ok d fs nb" and di: "distinct (map fst fs)" and j: "j < length fs"
  shows "lookup s (root s) (fst (fs ! j)) = Some (of_nat (fmap d rootp (j div 16)), j mod 16)"
proof -
  let ?n = "fst (fs ! j)"
  have nok: "name_ok (fst (fs ! l))" "name_at d (slot_of d l) (fst (fs ! l))" if "l < length fs" for l
    using img_okD(4,5) [OF im that] by (simp_all add: fs_file_ok_def is_file_def)
  have len: "length ?n < 256" "0 \<notin> set ?n" "?n \<noteq> []" using nok(1) [OF j] by (auto simp: name_ok_def)
  have jd: "j div 16 < nb" using j img_okD(3) [OF im] by (simp add: less_mult_imp_div_less)
  have here: "name_is s ?n (fblock s (root s) (of_nat (j div 16))) (j mod 16)"
    using name_is_image [OF s im jd _ len(1), of "j mod 16"] nok(2) [OF j] root_fblock(1) [OF s im jd] by simp
  show ?thesis
  proof (cases "lookup s (root s) ?n")
    case None
    then have "\<not> name_is s ?n (fblock s (root s) (of_nat (j div 16))) (j mod 16)"
      using jd root_dir(1) [OF s im] by (auto simp: lookup_def dir_search_none)
    then show ?thesis using here by simp
  next
    case (Some r)
    obtain b k where r: "r = (b, k)" by (cases r)
    obtain i where i: "i < nb" "b = of_nat (fmap d rootp i)" "k < 16" "name_is s ?n b k"
      using dir_search_some [OF Some [unfolded lookup_def r]] root_dir(1) [OF s im] root_fblock(1) [OF s im] by auto
    let ?l = "16 * i + k"
    have at: "name_at d (slot_of d ?l) ?n" using name_is_image [OF s im i(1,3) len(1)] i by simp
    have "?l < length fs"
    proof (rule ccontr)
      assume "\<not> ?l < length fs"
      then have "img d (Blk (fmap d rootp i)) (256 * k) = 0" using name_first [OF im i(1,3)] by simp
      then show False using at len by (cases ?n) (auto simp: name_at_def slot_of_eq [OF i(3)])
    qed
    moreover from this have "name_is s (fst (fs ! ?l)) b k"
      using nok [of ?l] name_is_image [OF s im i(1,3), of "fst (fs ! ?l)"] i(2) by (auto simp: name_ok_def)
    then have "fst (fs ! ?l) = ?n"
      using name_is_unique [OF _ i(4)] nok(1) [OF \<open>?l < length fs\<close>] len(2) by (auto simp: name_ok_def)
    ultimately have "?l = j" using di j by (metis distinct_conv_nth length_map nth_map)
    then have "j div 16 = i" "j mod 16 = k" using i(3) by auto
    then show ?thesis using Some r i(2) by simp
  qed
qed

section \<open>Opening a file of the image\<close>

lemma open_image:
  assumes s: "serves s d" and im: "img_ok d fs nb" and di: "distinct (map fst fs)" and j: "j < length fs"
  defines "b \<equiv> of_nat (fmap d rootp (j div 16)) :: u32"
  obtains t where "file_open (slash # fst (fs ! j)) s = Some (Inr (entry_addr b (j mod 16)), set_parent (entry_addr b (j mod 16)) (root s) t)"
    "loads s t" "cached t b"
proof -
  let ?n = "fst (fs ! j)"
  have nok: "name_ok ?n" using img_okD(4) [OF im j] by (simp add: fs_file_ok_def)
  then have len: "length ?n < MAXNAMELEN" by (simp add: name_ok_def)
  obtain t where t: "loads s t" "dir_lookup (root s) ?n s = Some (Inr (entry_addr b (j mod 16)), set_parent (entry_addr b (j mod 16)) (root s) t)" "cached t b"
    using dir_lookup_ok [OF servesD(1,2) [OF s] root_dir(2) [OF s im] len] lookup_image [OF s im di j] by (auto simp: b_def)
  have "file_open (slash # ?n) s = Some (Inr (entry_addr b (j mod 16)), set_parent (entry_addr b (j mod 16)) (root s) t)"
    using walk_name [OF nok root_inode [OF servesD(1) [OF s]] root_dir(3) [OF s im]] t(2) by (simp add: file_open_def)
  then show thesis using t that by blast
qed

lemma set_parent_page_write:
  assumes "cached t b" "b \<le> MAXBLK" "k < FILE2BLK"
  shows "page_write b t (set_parent (entry_addr b k) dir t)"
    "l < 180 \<Longrightarrow> 4 dvd l \<Longrightarrow> load32 (vm (set_parent (entry_addr b k) dir t)) (entry_addr b k + of_nat l) = load32 (vm t) (entry_addr b k + of_nat l)"
proof -
  let ?f = "entry_addr b k"
  have ino: "inode t ?f" by (rule entry_inode [OF assms])
  have a: "aligned4 (?f + 180)" "VPN (?f + 180) = VPN ?f" "unat (?f + 180) = unat ?f + 180"
    using inode_word(1,2) [OF ino, of 180] inode_byte(1) [OF ino, of 180] by simp_all
  have v: "VPN ?f = 0x10000 + b" using VPN_baddr [OF assms(2), of "256 * k"] assms(3) by (simp add: entry_addr_def)
  show "page_write b t (set_parent ?f dir t)"
    unfolding page_write_def set_parent_def using store32_page [OF a(1)] a(2) v by simp
  assume l: "l < 180" "4 dvd l"
  then have "?f + of_nat l \<noteq> ?f + 180" using inode_byte(1) [OF ino, of l] a(3) by (auto simp: word_unat_eq_iff)
  then show "load32 (vm (set_parent ?f dir t)) (?f + of_nat l) = load32 (vm t) (?f + of_nat l)"
    using inode_word(1) [OF ino, of l] a(1) l by (simp add: set_parent_def load32_store32_other)
qed

text \<open>The server after the file has been opened: the entry is as \<open>fsformat\<close> wrote it but for the parent pointer.\<close>

lemma opened_file:
  assumes s: "serves s d" and im: "img_ok d fs nb" and j: "j < length fs" and t: "loads s t"
  defines "b \<equiv> of_nat (fmap d rootp (j div 16)) :: u32"
  assumes ca: "cached t b"
  defines "f \<equiv> entry_addr b (j mod 16)"
  defines "u \<equiv> set_parent f (root s) t"
  shows "fs_ok u" "kalloc u = []" "same_file u f d (slot_of d j)" "c < nextbno d \<Longrightarrow> block_ok u (of_nat c)"
    "3 \<le> c \<Longrightarrow> c < nextbno d \<Longrightarrow> c \<notin> file_blocks d rootp nb \<Longrightarrow> i < 4096 \<Longrightarrow> blk_view u (of_nat c) i = img d (Blk c) i"
proof -
  let ?b = "fmap d rootp (j div 16)"
  have jd: "j div 16 < nb" using j img_okD(3) [OF im] by (simp add: less_mult_imp_div_less)
  have nx: "nextbno d \<le> NBLOCK" using img_okD(1) [OF im] by (simp add: frame_ok_def)
  note rb = root_blocks [OF im jd] and l = loads_fs_ok [OF t servesD(1) [OF s]]
  have ub: "unat b = ?b" unfolding b_def using rb(3) by (intro unat_of_nat32) simp
  have bm: "b < MAXBLK" "b \<le> MAXBLK" "j mod 16 < FILE2BLK" using ub rb(3) by (auto simp: word_less_nat_alt word_le_nat_alt)
  have "nblocks t div BIT2BLK = 0" using servesD(3) [OF s] l(1) by (simp add: word_unat_eq_iff unat_div)
  then have b2: "nblocks t div BIT2BLK + 2 < b" using ub rb(1) by (simp add: word_less_nat_alt)
  note pw = set_parent_page_write [OF ca bm(2,3), where dir = "root s", folded f_def u_def]
  show "fs_ok u" by (rule page_write_ok(1) [OF pw(1) l(3) b2 bm(1)])
  show "kalloc u = []" using page_writeD(4) [OF pw(1)] loadsD(4) [OF t] servesD(2) [OF s] by simp
  show "block_ok u (of_nat c)" if "c < nextbno d"
    using page_write_ok(4) [OF pw(1) l(3) b2 bm(1)] block_ok_loads [OF servesD(1) [OF s] t] serves_block_ok [OF s that nx] by simp
  have tv: "blk_view t (of_nat c) i = img d (Blk c) i" if "3 \<le> c" "c < nextbno d" "i < 4096" for c i
  proof -
    have "(of_nat c :: u32) < MAXBLK" using that nx unat_of_nat32 [of c] by (simp add: word_less_nat_alt)
    then show ?thesis using loads_view [OF t _ that(3)] servesD(6) [OF s that(1) _ that(3)] that nx by simp
  qed
  show "blk_view u (of_nat c) i = img d (Blk c) i" if c: "3 \<le> c" "c < nextbno d" "c \<notin> file_blocks d rootp nb" "i < 4096"
  proof -
    have uc: "unat (of_nat c :: u32) = c" using c nx by (intro unat_of_nat32) simp
    have "c \<noteq> ?b" using c(3) jd by (auto simp: file_blocks_def)
    then have "of_nat c \<noteq> b" using uc ub by auto
    then show ?thesis using page_write_view [OF pw(1) _ _ c(4), of "of_nat c"] tv [OF c(1,2,4)] uc c nx by (simp add: word_le_nat_alt)
  qed
  have "load32 (vm t) (f + of_nat k) = fget (slot_of d j) k d" if k: "k < 180" "4 dvd k" for k
  proof -
    have "load32 (vm t) (baddr b + of_nat (256 * (j mod 16) + k)) = view32 t b (256 * (j mod 16) + k)"
      using k bm(3) by (intro view32_cached [OF ca]) simp
    also have "\<dots> = rd32 (img d (Blk ?b)) (256 * (j mod 16) + k)"
      using k bm(3) tv [OF rb(1,2)] by (intro view32_rd32) (auto simp: b_def)
    finally show ?thesis by (simp add: f_def entry_addr_def fget_def slot_of_def add.assoc)
  qed
  moreover have "inode u f" using entry_inode [OF ca bm(2,3)] page_writeD(5) [OF pw(1)] by (simp add: f_def inode_def)
  ultimately show "same_file u f d (slot_of d j)" using pw(2) by (simp add: same_file_def)
qed

lemma opened_block:
  assumes s: "serves s d" and im: "img_ok d fs nb" and j: "j < length fs" and t: "loads s t"
  defines "b \<equiv> of_nat (fmap d rootp (j div 16)) :: u32"
  assumes ca: "cached t b"
  defines "f \<equiv> entry_addr b (j mod 16)" and "c \<equiv> snd (fs ! j)"
  assumes i: "i < nblk (length c)"
  shows "\<exists>blk v. file_get_block f (of_nat i) (set_parent f (root s) t) = Some (Inr blk, v) \<and>
    (\<forall>x<4096. 4096 * i + x < length c \<longrightarrow> vm v (blk + of_nat x) = c ! (4096 * i + x))"
proof -
  let ?u = "set_parent f (root s) t" and ?p = "slot_of d j"
  note o = opened_file [OF s im j t ca [unfolded b_def], folded b_def, folded f_def]
  have isf: "mapped_to d ?p 3 (nblk (length c)) c" "nblk (length c) \<le> 1024"
    using img_okD(4,5) [OF im j] by (simp_all add: is_file_def fs_file_ok_def c_def)
  have dis: "file_blocks d ?p (nblk (length c)) \<inter> file_blocks d rootp nb = {}" using img_okD(6) [OF im j] by (simp add: c_def)
  have nx: "nextbno d \<le> NBLOCK" using img_okD(1) [OF im] by (simp add: frame_ok_def)
  let ?b = "fmap d ?p i"
  have mb: "3 \<le> ?b" "?b < nextbno d" "\<And>x. x < 4096 \<Longrightarrow> 4096 * i + x < length c \<Longrightarrow> img d (Blk ?b) x = c ! (4096 * i + x)"
    "?b \<in> file_blocks d ?p (nblk (length c))"
    using isf(1) i by (auto simp: mapped_to_def file_blocks_def)
  have ix: "3 \<le> ind d ?p" "ind d ?p < nextbno d" "ind d ?p \<in> file_blocks d ?p (nblk (length c))" if "10 \<le> i"
    using isf(1) i that by (auto simp: mapped_to_def file_blocks_def split: if_splits)
  have vw: "blk_view ?u (of_nat e) x = img d (Blk e) x" if "3 \<le> e" "e < nextbno d" "e \<in> file_blocks d ?p (nblk (length c))" "x < 4096" for e x
    using o(5) that dis by auto
  have fb: "fblock ?u f (of_nat i) = of_nat ?b"
    by (rule fblock_image [OF o(3)]) (use i isf(2) ix vw in auto)
  have mi: "mapped_i ?u f (of_nat i)"
    by (rule mapped_image [OF o(3)]) (use i isf(2) ix o(4) in auto)
  have ub: "unat (of_nat ?b :: u32) = ?b" using mb(2) nx by (intro unat_of_nat32) simp
  then have nz: "fblock ?u f (of_nat i) \<noteq> 0" using fb mb(1) by (auto simp: word_unat_eq_iff)
  have bok: "block_ok ?u (fblock ?u f (of_nat i))" using fb o(4) [OF mb(2)] by simp
  obtain v where v: "file_get_block f (of_nat i) ?u = Some (Inr (baddr (of_nat ?b)), v)" "loads ?u v" "cached v (of_nat ?b)"
    using file_get_block_ok [OF o(1,2) mi nz bok] unfolding fb by blast
  have bm: "(of_nat ?b :: u32) < MAXBLK" using ub mb(2) nx by (simp add: word_less_nat_alt)
  have "vm v (baddr (of_nat ?b) + of_nat x) = c ! (4096 * i + x)" if "x < 4096" "4096 * i + x < length c" for x
    using loads_view [OF v(2) bm that(1)] v(3) vw [OF mb(1,2,4) that(1)] mb(3) [OF that] by (simp add: blk_view_def blk_cache_def split: if_splits)
  then show ?thesis using v(1) by blast
qed

lemma format_ok:
  assumes "fs \<noteq> []" "list_all fs_file_ok (entries_of fs)" "3 + blocks_needed (entries_of fs) \<le> NBLOCK"
  obtains d where "fsformat_main False (reg_args fs) = Some (finish_fs False (flush_bitmap d))"
    "img_ok d (entries_of fs) (dirblks (length fs))" "nextbno d = 3 + blocks_needed (entries_of fs)"
proof -
  have "reg_args fs \<noteq> []" using assms(1) by (simp add: reg_args_def)
  then show thesis using write_args_ok [OF assms(2,3)] that by (auto simp: fsformat_main_def)
qed

text \<open>A server at its start, with a disk.\<close>

definition blank :: "(nat \<Rightarrow> u8) \<Rightarrow> fs_st" where
  "blank x = \<lparr>vm = (\<lambda>_. 0), pte_v = (\<lambda>_. False), pte_dirty = (\<lambda>_. False), disk = x, super = 0, bitmap = 0, kalloc = []\<rparr>"

lemma blank_fresh: "fresh (blank x)" "disk (blank x) = x"
  by (simp_all add: fresh_def blank_def only_cached_def cached_def)

section \<open>Properties\<close>

text \<open>
  C12 (fs_init_mounts). On a server that has cached nothing, \<open>fs_init\<close> returns exactly when the disk has the magic number, between 3 and
  0x40000 blocks, and a bitmap that marks the boot block, the superblock and the bitmap itself as used; otherwise
  an assertion fails. When it returns, the invariant of the file system holds, the disk is what it was although the
  superblock was overwritten on the way, and the server sees every block but block 0 as the disk has it.
\<close>

theorem fs_init_mounts:
  assumes "fresh s"
  shows "((\<exists>s'. fs_init s = Some s') \<longleftrightarrow> image_ok s) \<and>
    (\<forall>s'. fs_init s = Some s' \<longrightarrow> fs_ok s' \<and> disk s' = disk s \<and> nblocks s' = view32 s 1 4 \<and> free_blocks s' = view_free s \<and>
       (\<forall>b i. b \<noteq> 0 \<longrightarrow> b < MAXBLK \<longrightarrow> i < 4096 \<longrightarrow> blk_view s' b i = blk_disk s b i))"
proof -
  have raw: "blk_view s b i = blk_disk s b i" if "b < MAXBLK" for b i
    using assms that by (simp add: fresh_def only_cached_def blk_view_def)
  show ?thesis
  proof (rule fs_init_eq [OF assms])
    fix s'
    assume "fs_init s = (if image_ok s then Some s' else None)" "image_ok s \<Longrightarrow> fs_ok s'"
      "image_ok s \<Longrightarrow> kalloc s' = [] \<and> disk s' = disk s \<and> nblocks s' = view32 s 1 4 \<and> free_blocks s' = view_free s"
      "\<And>b i. image_ok s \<Longrightarrow> b < MAXBLK \<Longrightarrow> b \<noteq> 0 \<Longrightarrow> i < 4096 \<Longrightarrow> blk_view s' b i = blk_view s b i"
    then show ?thesis using raw by (auto split: if_splits)
  qed
qed

theorem fs_init_mounts_witness:
  "\<exists>s'. fs_init (blank (finish_fs False (flush_bitmap (init_disk fmt0)))) = Some s' \<and> fs_ok s' \<and>
     disk s' = finish_fs False (flush_bitmap (init_disk fmt0)) \<and> nblocks s' = view32 (blank (finish_fs False (flush_bitmap (init_disk fmt0)))) 1 4"
proof -
  let ?x = "finish_fs False (flush_bitmap (init_disk fmt0))"
  have "frame_ok (init_disk fmt0)" by (rule img_okD(1) [OF init_disk_ok(1)])
  then obtain s' where "fs_init (blank ?x) = Some s'"
    using fs_init_serves [of "init_disk fmt0" "blank ?x"] blank_fresh [of ?x] by metis
  then show ?thesis using fs_init_mounts [OF blank_fresh(1), of ?x] by (auto simp: blank_fresh(2))
qed

text \<open>
  C5 (format_mount_open). What \<open>fsformat\<close> writes, the server finds. For readable regular files whose base names are proper and
  distinct and that fit on the disk, \<open>fsformat\<close> produces an image; a server started on it accepts it, with exactly the
  blocks that were not used free; every file opens by its base name, with its size and type, and each of its
  blocks, direct or indirect, reads back as the bytes of the host file.
\<close>

theorem format_mount_open:
  assumes "fs \<noteq> []" "list_all fs_file_ok (entries_of fs)" "distinct (map fst (entries_of fs))"
    and "3 + blocks_needed (entries_of fs) \<le> NBLOCK"
  shows "\<exists>x. fsformat_main False (reg_args fs) = Some x \<and>
    (\<forall>s. fresh s \<longrightarrow> (\<forall>a<4096 * NBLOCK. disk s a = x a) \<longrightarrow>
      (\<exists>s'. fs_init s = Some s' \<and> fs_ok s' \<and>
         free_blocks s' = {b. 3 + blocks_needed (entries_of fs) \<le> unat b \<and> unat b < NBLOCK} \<and>
         (\<forall>(name, c) \<in> set (entries_of fs). \<exists>f u. file_open (slash # name) s' = Some (Inr f, u) \<and>
            load32 (vm u) (f_size f) = of_nat (length c) \<and> load32 (vm u) (f_type f) = FTYPE_REG \<and>
            (\<forall>i<nblk (length c). \<exists>blk v. file_get_block f (of_nat i) u = Some (Inr blk, v) \<and>
               (\<forall>k<4096. 4096 * i + k < length c \<longrightarrow> vm v (blk + of_nat k) = c ! (4096 * i + k))))))"
proof -
  obtain d where d: "fsformat_main False (reg_args fs) = Some (finish_fs False (flush_bitmap d))"
    "img_ok d (entries_of fs) (dirblks (length fs))" "nextbno d = 3 + blocks_needed (entries_of fs)"
    by (rule format_ok [OF assms(1,2,4)])
  show ?thesis
  proof (rule exI [of _ "finish_fs False (flush_bitmap d)"], rule conjI [OF d(1)], intro allI impI)
    fix s :: "'a fs_st_scheme" assume s: "fresh s" "\<forall>a<4096 * NBLOCK. disk s a = finish_fs False (flush_bitmap d) a"
    obtain s' where s': "fs_init s = Some s'" "serves s' d"
      by (rule fs_init_serves [OF img_okD(1) [OF d(2)] s(1)]) (use s(2) that in auto)
    have "\<exists>f u. file_open (slash # fst (entries_of fs ! j)) s' = Some (Inr f, u) \<and>
        load32 (vm u) (f_size f) = of_nat (length (snd (entries_of fs ! j))) \<and> load32 (vm u) (f_type f) = FTYPE_REG \<and>
        (\<forall>i<nblk (length (snd (entries_of fs ! j))). \<exists>blk v. file_get_block f (of_nat i) u = Some (Inr blk, v) \<and>
          (\<forall>k<4096. 4096 * i + k < length (snd (entries_of fs ! j)) \<longrightarrow> vm v (blk + of_nat k) = snd (entries_of fs ! j) ! (4096 * i + k)))"
      if j: "j < length (entries_of fs)" for j
    proof -
      let ?f = "entry_addr (of_nat (fmap d rootp (j div 16))) (j mod 16)"
      obtain t where t: "file_open (slash # fst (entries_of fs ! j)) s' = Some (Inr ?f, set_parent ?f (root s') t)"
        "loads s' t" "cached t (of_nat (fmap d rootp (j div 16)))"
        by (rule open_image [OF s'(2) d(2) assms(3) j])
      note o = opened_file(3) [OF s'(2) d(2) j t(2,3)]
      have "is_file d (slot_of d j) (entries_of fs ! j)" by (rule img_okD(5) [OF d(2) j])
      then show ?thesis using t(1) same_file_word [OF o, of 128] same_file_word [OF o, of 132]
          opened_block [OF s'(2) d(2) j t(2,3)]
        by (intro exI [of _ ?f] exI [of _ "set_parent ?f (root s') t"]) (simp add: is_file_def)
    qed
    then show "\<exists>s'. fs_init s = Some s' \<and> fs_ok s' \<and>
         free_blocks s' = {b. 3 + blocks_needed (entries_of fs) \<le> unat b \<and> unat b < NBLOCK} \<and>
         (\<forall>(name, c) \<in> set (entries_of fs). \<exists>f u. file_open (slash # name) s' = Some (Inr f, u) \<and>
            load32 (vm u) (f_size f) = of_nat (length c) \<and> load32 (vm u) (f_type f) = FTYPE_REG \<and>
            (\<forall>i<nblk (length c). \<exists>blk v. file_get_block f (of_nat i) u = Some (Inr blk, v) \<and>
               (\<forall>k<4096. 4096 * i + k < length c \<longrightarrow> vm v (blk + of_nat k) = c ! (4096 * i + k))))"
      using s'(1) servesD(1,4) [OF s'(2)] d(3) by (intro exI [of _ s']) (fastforce simp: in_set_conv_nth)
  qed
qed

theorem format_mount_open_witness:
  "\<exists>x s' f u. fsformat_main False (reg_args [([98, 47, 97], [1, 2, 3]), ([99], [])]) = Some x \<and> fs_init (blank x) = Some s' \<and>
     file_open [47, 97] s' = Some (Inr f, u) \<and> load32 (vm u) (f_size f) = 3 \<and>
     (\<exists>blk v. file_get_block f 0 u = Some (Inr blk, v) \<and> vm v (blk + 2) = 3)"
proof -
  let ?fs = "[([98, 47, 97], [1, 2, 3]), ([99], [])] :: (u8 list \<times> u8 list) list"
  have e: "entries_of ?fs = [([97], [1, 2, 3]), ([99], [])]" by (simp add: entries_of_def last_part_def)
  have "list_all fs_file_ok (entries_of ?fs)" "distinct (map fst (entries_of ?fs))"
    "3 + blocks_needed (entries_of ?fs) \<le> NBLOCK" unfolding e
    by (simp_all add: fs_file_ok_def name_ok_def nblk_def blocks_needed_def dirblks_def cost_def)
  from format_mount_open [OF _ this, where 'a = unit]
  obtain x where x: "fsformat_main False (reg_args ?fs) = Some x"
    and r: "\<And>s :: fs_st. fresh s \<Longrightarrow> \<forall>a<4096 * NBLOCK. disk s a = x a \<Longrightarrow> \<exists>s'. fs_init s = Some s' \<and>
         (\<forall>(name, c) \<in> set (entries_of ?fs). \<exists>f u. file_open (slash # name) s' = Some (Inr f, u) \<and>
            load32 (vm u) (f_size f) = of_nat (length c) \<and>
            (\<forall>i<nblk (length c). \<exists>blk v. file_get_block f (of_nat i) u = Some (Inr blk, v) \<and>
               (\<forall>k<4096. 4096 * i + k < length c \<longrightarrow> vm v (blk + of_nat k) = c ! (4096 * i + k))))"
    by fastforce
  obtain s' where s': "fs_init (blank x) = Some s'" and
    o: "\<forall>(name, c) \<in> set (entries_of ?fs). \<exists>f u. file_open (slash # name) s' = Some (Inr f, u) \<and>
            load32 (vm u) (f_size f) = of_nat (length c) \<and>
            (\<forall>i<nblk (length c). \<exists>blk v. file_get_block f (of_nat i) u = Some (Inr blk, v) \<and>
               (\<forall>k<4096. 4096 * i + k < length c \<longrightarrow> vm v (blk + of_nat k) = c ! (4096 * i + k)))"
    using r [of "blank x"] blank_fresh [of x] by auto
  have "([97], [1, 2, 3]) \<in> set (entries_of ?fs)" by (simp add: e)
  from bspec [OF o this, unfolded split_conv]
  obtain f u where "file_open [47, 97] s' = Some (Inr f, u)" "load32 (vm u) (f_size f) = of_nat (length [1, 2, 3 :: u8])"
    and b: "\<forall>i<nblk (length [1, 2, 3 :: u8]). \<exists>blk v. file_get_block f (of_nat i) u = Some (Inr blk, v) \<and>
               (\<forall>k<4096. 4096 * i + k < length [1, 2, 3 :: u8] \<longrightarrow> vm v (blk + of_nat k) = [1, 2, 3] ! (4096 * i + k))"
    by blast
  moreover have "0 < nblk (length [1, 2, 3 :: u8])" by (simp add: nblk_def)
  then obtain blk v where g: "file_get_block f 0 u = Some (Inr blk, v)"
    and k: "\<forall>k<4096. 4096 * 0 + k < length [1, 2, 3 :: u8] \<longrightarrow> vm v (blk + of_nat k) = [1, 2, 3] ! (4096 * 0 + k)"
    using b [rule_format, of 0] by auto
  have "vm v (blk + 2) = 3" using k [rule_format, of 2] by simp
  ultimately show ?thesis using x s' g by (intro exI conjI) auto
qed

end
