(* ===== verification/UserFile.thy ===== *)
theory UserFile
  imports Fd
begin

text \<open>
  \<^verbatim>\<open>user/lib/file.c\<close>, \<^verbatim>\<open>user/lib/fsipc.c\<close> and \<^verbatim>\<open>user/lib/ipc.c\<close>: files as a program sees them. The program talks to the file
  server by messages and finds the pages of a file mapped at the data of its descriptor; \<open>open_path\<close> is its \<open>open\<close>. What the other
  environments do while the program waits is an argument (\<open>others\<close>).
\<close>

section \<open>Waiting\<close>

text \<open>
  The machine, the run of the other environments from a switch until the program is resumed, and the address
  of \<open>fsipcbuf\<close>.
\<close>

record ulib =
  mach :: machine
  others :: "kstate \<Rightarrow> kstate option"
  fsipcbuf :: u32

text \<open>A call that may switch: when the program is resumed, the result is in \<open>a0\<close> of its frame.\<close>

definition sys :: "ulib \<Rightarrow> (u32 outcome \<times> kstate) option \<Rightarrow> (u32 \<times> kstate) option" where
  "sys u m =
     do { (r, s) \<leftarrow> m;
          (case r of
             Returned v \<Rightarrow> Some (v, s)
           | Switched \<Rightarrow> do { s \<leftarrow> others u s; tf \<leftarrow> resumed s; Some (regs tf 10, s) }) }"

definition ecall_yield :: "machine \<Rightarrow> kstate \<Rightarrow> (u32 outcome \<times> kstate) option" where
  "ecall_yield mc = mecall mc 4 0 0 0 0 0"

definition ecall_env_destroy :: "machine \<Rightarrow> u32 \<Rightarrow> kstate \<Rightarrow> (u32 outcome \<times> kstate) option" where
  "ecall_env_destroy mc envid = mecall mc 5 envid 0 0 0 0"

definition ecall_ipc_try_send :: "machine \<Rightarrow> u32 \<Rightarrow> u32 \<Rightarrow> u32 \<Rightarrow> u32 \<Rightarrow> kstate \<Rightarrow> (u32 outcome \<times> kstate) option" where
  "ecall_ipc_try_send mc envid value srcva perm = mecall mc 14 envid value srcva perm 0"

definition ecall_ipc_recv :: "machine \<Rightarrow> u32 \<Rightarrow> kstate \<Rightarrow> (u32 outcome \<times> kstate) option" where
  "ecall_ipc_recv mc dstva = mecall mc 15 dstva 0 0 0 0"

section \<open>Messages\<close>

partial_function (option) ipc_send :: "ulib \<Rightarrow> u32 \<Rightarrow> u32 \<Rightarrow> u32 \<Rightarrow> u32 \<Rightarrow> kstate \<Rightarrow> kstate option" where
  "ipc_send u whom val srcva perm s =
     do { (r, s) \<leftarrow> sys u (ecall_ipc_try_send (mach u) whom val srcva perm s);
          (if r = - errno E_IPC_NOT_RECV
           then do { (_, s) \<leftarrow> sys u (ecall_yield (mach u) s); ipc_send u whom val srcva perm s }
           else do { c_assert (r = 0); Some s }) }"

text \<open>The program reads its own \<open>struct Env\<close>: the value, the sender and the permissions.\<close>

definition ipc_recv :: "ulib \<Rightarrow> u32 \<Rightarrow> kstate \<Rightarrow> ((u32 \<times> u32 \<times> u32) \<times> kstate) option" where
  "ipc_recv u dstva s =
     do { (r, s) \<leftarrow> sys u (ecall_ipc_recv (mach u) dstva s);
          c_assert (r = 0);
          c \<leftarrow> curenv s;
          Some ((env_ipc_value (envs s c), env_ipc_from (envs s c), env_ipc_perm (envs s c)), s) }"

abbreviation FSREQ_OPEN :: u32 where "FSREQ_OPEN \<equiv> 1"
abbreviation FSREQ_MAP :: u32 where "FSREQ_MAP \<equiv> 2"
abbreviation FSREQ_SET_SIZE :: u32 where "FSREQ_SET_SIZE \<equiv> 3"
abbreviation FSREQ_CLOSE :: u32 where "FSREQ_CLOSE \<equiv> 4"
abbreviation FSREQ_DIRTY :: u32 where "FSREQ_DIRTY \<equiv> 5"
abbreviation FSREQ_REMOVE :: u32 where "FSREQ_REMOVE \<equiv> 6"
abbreviation FSREQ_SYNC :: u32 where "FSREQ_SYNC \<equiv> 7"
abbreviation MAXNAMELEN :: nat where "MAXNAMELEN \<equiv> 128"
abbreviation MAXFILESIZE :: u32 where "MAXFILESIZE \<equiv> 0x400000"

text \<open>\<open>fsipc\<close>: the result is the value of the reply and its permissions.\<close>

definition fsipc :: "ulib \<Rightarrow> u32 \<Rightarrow> u32 \<Rightarrow> u32 \<Rightarrow> kstate \<Rightarrow> ((u32 \<times> u32) \<times> kstate) option" where
  "fsipc u type fsreq dstva s =
     do { s \<leftarrow> ipc_send u (env_id (envs s 1)) type fsreq (PTE_D OR PTE_R OR PTE_W OR PTE_U) s;
          ((v, _, perm), s) \<leftarrow> ipc_recv u dstva s;
          Some ((v, perm), s) }"

section \<open>Requests to the file server\<close>

text \<open>A path is the list of its bytes before the NUL.\<close>

definition fsipc_open :: "ulib \<Rightarrow> u8 list \<Rightarrow> u32 \<Rightarrow> u32 \<Rightarrow> kstate \<Rightarrow> (u32 \<times> kstate) option" where
  "fsipc_open u path omode fd s =
     (if length path \<ge> MAXNAMELEN then Some (- errno E_BAD_PATH, s)
      else do { s \<leftarrow> put_bytes (fsipcbuf u) (path @ [0]) s;
                s \<leftarrow> uwrite32 (fsipcbuf u + 1024) omode s;
                ((r, _), s) \<leftarrow> fsipc u FSREQ_OPEN (fsipcbuf u) fd s;
                Some (r, s) })"

definition fsipc_map :: "ulib \<Rightarrow> u32 \<Rightarrow> u32 \<Rightarrow> u32 \<Rightarrow> kstate \<Rightarrow> (u32 \<times> kstate) option" where
  "fsipc_map u fileid offset dstva s =
     do { s \<leftarrow> uwrite32 (fsipcbuf u) fileid s;
          s \<leftarrow> uwrite32 (fsipcbuf u + 4) offset s;
          ((r, perm), s) \<leftarrow> fsipc u FSREQ_MAP (fsipcbuf u) dstva s;
          (if sint r < 0 then Some (r, s)
           else do { c_assert ((perm AND (NOT PTE_D OR PTE_LIBRARY)) AND PTE_V = PTE_V); Some (0, s) }) }"

definition fsipc_set_size :: "ulib \<Rightarrow> u32 \<Rightarrow> u32 \<Rightarrow> kstate \<Rightarrow> (u32 \<times> kstate) option" where
  "fsipc_set_size u fileid sz s =
     do { s \<leftarrow> uwrite32 (fsipcbuf u) fileid s;
          s \<leftarrow> uwrite32 (fsipcbuf u + 4) sz s;
          ((r, _), s) \<leftarrow> fsipc u FSREQ_SET_SIZE (fsipcbuf u) 0 s;
          Some (r, s) }"

definition fsipc_close :: "ulib \<Rightarrow> u32 \<Rightarrow> kstate \<Rightarrow> (u32 \<times> kstate) option" where
  "fsipc_close u fileid s =
     do { s \<leftarrow> uwrite32 (fsipcbuf u) fileid s;
          ((r, _), s) \<leftarrow> fsipc u FSREQ_CLOSE (fsipcbuf u) 0 s;
          Some (r, s) }"

definition fsipc_dirty :: "ulib \<Rightarrow> u32 \<Rightarrow> u32 \<Rightarrow> kstate \<Rightarrow> (u32 \<times> kstate) option" where
  "fsipc_dirty u fileid offset s =
     do { s \<leftarrow> uwrite32 (fsipcbuf u) fileid s;
          s \<leftarrow> uwrite32 (fsipcbuf u + 4) offset s;
          ((r, _), s) \<leftarrow> fsipc u FSREQ_DIRTY (fsipcbuf u) 0 s;
          Some (r, s) }"

definition fsipc_remove :: "ulib \<Rightarrow> u8 list \<Rightarrow> kstate \<Rightarrow> (u32 \<times> kstate) option" where
  "fsipc_remove u path s =
     (if length path = 0 \<or> length path > MAXNAMELEN then Some (- errno E_BAD_PATH, s)
      else do { s \<leftarrow> put_bytes (fsipcbuf u) (path @ [0]) s;
                ((r, _), s) \<leftarrow> fsipc u FSREQ_REMOVE (fsipcbuf u) 0 s;
                Some (r, s) })"

definition fsipc_sync :: "ulib \<Rightarrow> kstate \<Rightarrow> (u32 \<times> kstate) option" where
  "fsipc_sync u s = do { ((r, _), s) \<leftarrow> fsipc u FSREQ_SYNC (fsipcbuf u) 0 s; Some (r, s) }"

section \<open>Memory of the program\<close>

text \<open>\<open>memcpy\<close> byte by byte, and \<open>strcpy\<close>.\<close>

fun ucopy :: "u32 \<Rightarrow> u32 \<Rightarrow> nat \<Rightarrow> kstate \<Rightarrow> kstate option" where
  "ucopy dst src 0 s = Some s"
| "ucopy dst src (Suc n) s =
     do { (b, s) \<leftarrow> uread8 src s; s \<leftarrow> uwrite8 dst b s; ucopy (dst + 1) (src + 1) n s }"

partial_function (option) ustrcpy :: "u32 \<Rightarrow> u32 \<Rightarrow> kstate \<Rightarrow> kstate option" where
  "ustrcpy dst src s =
     do { (b, s) \<leftarrow> uread8 src s;
          s \<leftarrow> uwrite8 dst b s;
          (if b = 0 then Some s else ustrcpy (dst + 1) (src + 1) s) }"

section \<open>Files\<close>

text \<open>
  \<open>struct Filefd\<close>: the \<open>struct Fd\<close>, \<open>f_fileid\<close> at offset 12 and the \<open>struct File\<close> at offset 16, so its size and
  type are at 144 and 148.
\<close>

abbreviation devfile_id :: u32 where "devfile_id \<equiv> 102"

partial_function (option) map_loop :: "ulib \<Rightarrow> u32 \<Rightarrow> u32 \<Rightarrow> u32 \<Rightarrow> u32 \<Rightarrow> kstate \<Rightarrow> (u32 \<times> kstate) option" where
  "map_loop u fileid va i sz s =
     (if i < sz then
        do { (r, s) \<leftarrow> fsipc_map u fileid i (va + i) s;
             (if r \<noteq> 0 then Some (r, s) else map_loop u fileid va (i + BY2PG) sz s) }
      else Some (0, s))"

definition open_path :: "ulib \<Rightarrow> u8 list \<Rightarrow> u32 \<Rightarrow> kstate \<Rightarrow> (u32 \<times> kstate) option" where
  "open_path u path mode s =
     do { (r, s) \<leftarrow> fd_alloc s;
          (case r of
             Inl e \<Rightarrow> Some (- errno e, s)
           | Inr fd \<Rightarrow>
               do { (r, s) \<leftarrow> fsipc_open u path mode fd s;
                    (if r \<noteq> 0 then Some (r, s)
                     else do { (sz, s) \<leftarrow> uread32 (fd + 144) s;
                               (fileid, s) \<leftarrow> uread32 (fd + 12) s;
                               (r, s) \<leftarrow> map_loop u fileid (fd2data fd) 0 sz s;
                               (if r \<noteq> 0 then Some (r, s) else Some (fd2num fd, s)) }) }) }"

text \<open>The results of \<open>fsipc_dirty\<close> are ignored.\<close>

partial_function (option) dirty_loop :: "ulib \<Rightarrow> u32 \<Rightarrow> u32 \<Rightarrow> u32 \<Rightarrow> kstate \<Rightarrow> kstate option" where
  "dirty_loop u fileid i sz s =
     (if i < sz then do { (_, s) \<leftarrow> fsipc_dirty u fileid i s; dirty_loop u fileid (i + BY2PG) sz s } else Some s)"

partial_function (option) unmap_loop :: "ulib \<Rightarrow> u32 \<Rightarrow> u32 \<Rightarrow> u32 \<Rightarrow> kstate \<Rightarrow> (u32 \<times> kstate) option" where
  "unmap_loop u va i sz s =
     (if i < sz then
        do { (r, s) \<leftarrow> sys u (ecall_mem_unmap (mach u) 0 (va + i) s);
             (if sint r < 0 then Some (r, s) else unmap_loop u va (i + BY2PG) sz s) }
      else Some (0, s))"

definition file_close :: "ulib \<Rightarrow> u32 \<Rightarrow> kstate \<Rightarrow> (u32 \<times> kstate) option" where
  "file_close u fd s =
     do { (fileid, s) \<leftarrow> uread32 (fd + 12) s;
          (sz, s) \<leftarrow> uread32 (fd + 144) s;
          s \<leftarrow> dirty_loop u fileid 0 sz s;
          (r, s) \<leftarrow> fsipc_close u fileid s;
          (if sint r < 0 then Some (r, s)
           else if sz = 0 then Some (0, s)
           else unmap_loop u (fd2data fd) 0 sz s) }"

definition file_read :: "u32 \<Rightarrow> u32 \<Rightarrow> u32 \<Rightarrow> u32 \<Rightarrow> kstate \<Rightarrow> (u32 \<times> kstate) option" where
  "file_read fd buf n offset s =
     do { (sz, s) \<leftarrow> uread32 (fd + 144) s;
          (if offset > sz then Some (0, s)
           else let n = (if offset + n > sz then sz - offset else n) in
             do { s \<leftarrow> ucopy buf (fd2data fd + offset) (unat n) s; Some (n, s) }) }"

definition read_map :: "u32 \<Rightarrow> u32 \<Rightarrow> kstate \<Rightarrow> ((u32 \<times> u32 option) \<times> kstate) option" where
  "read_map fdnum offset s =
     do { (r, s) \<leftarrow> fd_lookup fdnum s;
          (case r of
             Inl e \<Rightarrow> Some ((- errno e, None), s)
           | Inr fd \<Rightarrow>
               do { (dev, s) \<leftarrow> uread32 fd s;
                    (if dev \<noteq> devfile_id then Some ((- errno E_INVAL, None), s)
                     else let va = fd2data fd + offset in
                       if offset \<ge> MAXFILESIZE then Some ((- errno E_NO_DISK, None), s)
                       else do { (pde, s) \<leftarrow> vpd (PDX va) s;
                                 (if pde AND PTE_V = 0 then Some ((- errno E_NO_DISK, None), s)
                                  else do { (pte, s) \<leftarrow> vpt (VPN va) s;
                                            Some (if pte AND PTE_V = 0 then (- errno E_NO_DISK, None) else (0, Some va), s) }) }) }) }"

text \<open>The two loops of \<open>ftruncate\<close>; \<open>user_panic\<close> is \<open>None\<close>.\<close>

definition truncate_unmap :: "ulib \<Rightarrow> u32 \<Rightarrow> u32 \<Rightarrow> u32 \<Rightarrow> kstate \<Rightarrow> (u32 \<times> kstate) option" where
  "truncate_unmap u va i sz s =
     do { (r, s) \<leftarrow> unmap_loop u va i sz s; c_assert (\<not> sint r < 0); Some (0, s) }"

partial_function (option) grow_loop :: "ulib \<Rightarrow> u32 \<Rightarrow> u32 \<Rightarrow> u32 \<Rightarrow> u32 \<Rightarrow> u32 \<Rightarrow> kstate \<Rightarrow> (u32 \<times> kstate) option" where
  "grow_loop u fileid va oldsize i sz s =
     (if i < sz then
        do { (r, s) \<leftarrow> fsipc_map u fileid i (va + i) s;
             (if sint r < 0 then do { (_, s) \<leftarrow> fsipc_set_size u fileid oldsize s; Some (r, s) }
              else grow_loop u fileid va oldsize (i + BY2PG) sz s) }
      else Some (0, s))"

definition ftruncate :: "ulib \<Rightarrow> u32 \<Rightarrow> u32 \<Rightarrow> kstate \<Rightarrow> (u32 \<times> kstate) option" where
  "ftruncate u fdnum sz s =
     (if sz > MAXFILESIZE then Some (- errno E_NO_DISK, s)
      else with_fd fdnum s (\<lambda>fd s.
        do { (dev, s) \<leftarrow> uread32 fd s;
             (if dev \<noteq> devfile_id then Some (- errno E_INVAL, s)
              else do { (fileid, s) \<leftarrow> uread32 (fd + 12) s;
                        (oldsize, s) \<leftarrow> uread32 (fd + 144) s;
                        s \<leftarrow> uwrite32 (fd + 144) sz s;
                        (r, s) \<leftarrow> fsipc_set_size u fileid sz s;
                        (if sint r < 0 then Some (r, s)
                         else do { (r, s) \<leftarrow> grow_loop u fileid (fd2data fd) oldsize (ROUND oldsize BY2PG) (ROUND sz BY2PG) s;
                                   (if sint r < 0 then Some (r, s)
                                    else truncate_unmap u (fd2data fd) (ROUND sz BY2PG) (ROUND oldsize BY2PG) s) }) }) }))"

definition file_write :: "ulib \<Rightarrow> u32 \<Rightarrow> u32 \<Rightarrow> u32 \<Rightarrow> u32 \<Rightarrow> kstate \<Rightarrow> (u32 \<times> kstate) option" where
  "file_write u fd buf n offset s =
     (let tot = offset + n in
      if tot > MAXFILESIZE then Some (- errno E_NO_DISK, s)
      else do { (sz, s) \<leftarrow> uread32 (fd + 144) s;
                (r, s) \<leftarrow> (if tot > sz then ftruncate u (fd2num fd) tot s else Some (0, s));
                (if sint r < 0 then Some (r, s)
                 else do { s \<leftarrow> ucopy (fd2data fd + offset) buf (unat n) s; Some (n, s) }) })"

definition file_stat :: "u32 \<Rightarrow> u32 \<Rightarrow> kstate \<Rightarrow> (u32 \<times> kstate) option" where
  "file_stat fd st s =
     do { s \<leftarrow> ustrcpy st (fd + 16) s;
          (sz, s) \<leftarrow> uread32 (fd + 144) s;
          s \<leftarrow> uwrite32 (st + 128) sz s;
          (ty, s) \<leftarrow> uread32 (fd + 148) s;
          s \<leftarrow> uwrite32 (st + 132) (if ty = 1 then 1 else 0) s;
          Some (0, s) }"

definition devfile :: "ulib \<Rightarrow> u32 \<Rightarrow> Dev" where
  "devfile u a = \<lparr>dev_id = devfile_id, dev_addr = a, dev_read = file_read, dev_write = file_write u,
     dev_close = file_close u, dev_stat = file_stat\<rparr>"

definition remove :: "ulib \<Rightarrow> u8 list \<Rightarrow> kstate \<Rightarrow> (u32 \<times> kstate) option" where
  "remove u path = fsipc_remove u path"

definition sync :: "ulib \<Rightarrow> kstate \<Rightarrow> (u32 \<times> kstate) option" where
  "sync u = fsipc_sync u"

section \<open>Other library functions\<close>

text \<open>\<open>stat\<close> of \<^verbatim>\<open>user/lib/fd.c\<close>.\<close>

definition stat :: "ulib \<Rightarrow> Dev list \<Rightarrow> u8 list \<Rightarrow> u32 \<Rightarrow> kstate \<Rightarrow> (u32 \<times> kstate) option" where
  "stat u devtab path st s =
     do { (fd, s) \<leftarrow> open_path u path 0 s;
          (if sint fd < 0 then Some (fd, s)
           else do { (r, s) \<leftarrow> fstat devtab fd st s;
                     (_, s) \<leftarrow> close (mach u) devtab fd s;
                     Some (r, s) }) }"

text \<open>\<open>wait\<close>: the program reads the array \<open>envs\<close>.\<close>

partial_function (option) wait :: "ulib \<Rightarrow> u32 \<Rightarrow> kstate \<Rightarrow> kstate option" where
  "wait u envid s =
     (let e = envs s (unat (ENVX envid)) in
      if env_id e = envid \<and> env_status e \<noteq> ENV_FREE
      then do { (_, s) \<leftarrow> sys u (ecall_yield (mach u) s); wait u envid s }
      else Some s)"

text \<open>\<open>exit\<close> does not come back: the result is the state the processor has been given away in.\<close>

definition exit :: "ulib \<Rightarrow> Dev list \<Rightarrow> kstate \<Rightarrow> kstate option" where
  "exit u devtab s =
     do { s \<leftarrow> close_all (mach u) devtab s;
          (r, s) \<leftarrow> ecall_env_destroy (mach u) 0 s;
          (case r of Switched \<Rightarrow> Some s | Returned _ \<Rightarrow> None) }"

text \<open>\<open>libmain\<close>: the variable \<open>env\<close> points to the running environment, and \<open>mn\<close> is the program's \<open>main\<close>.\<close>

definition libmain :: "ulib \<Rightarrow> Dev list \<Rightarrow> (kstate \<Rightarrow> kstate option) \<Rightarrow> kstate \<Rightarrow> kstate option" where
  "libmain u devtab mn s =
     do { (_, s) \<leftarrow> sys u (ecall_getenvid (mach u) s);
          s \<leftarrow> mn s;
          exit u devtab s }"

end
