(* ===== verification/UserRead.thy ===== *)
theory UserRead
  imports FdPipe UserFile
begin

text \<open>
  Files as a program reads them: bytes of the program's memory, \<open>memcpy\<close> between its pages, and what \<open>read\<close> and
  \<open>read_map\<close> give on a descriptor of a file.
\<close>

section \<open>Bytes of a program\<close>

text \<open>The physical address behind an address of the program, and the byte there.\<close>

definition upa :: "kstate \<Rightarrow> nat \<Rightarrow> u32 \<Rightarrow> u32" where
  "upa s pd va = (case amap s pd va of None \<Rightarrow> 0 | Some e \<Rightarrow> page2addr (pte_page e) OR (va AND 0xfff))"

definition ubyte :: "kstate \<Rightarrow> nat \<Rightarrow> u32 \<Rightarrow> u8" where
  "ubyte s pd va = kmem s (upa s pd va)"

lemma unat_page_offset: "unat ((va :: u32) AND 0xfff) = unat va mod 4096"
proof -
  have "va AND 0xfff = take_bit 12 va" by (simp add: take_bit_eq_mask mask_eq_exp_minus_1)
  then show ?thesis by (simp only: unsigned_take_bit_eq) (simp add: take_bit_eq_mod)
qed

lemma page2addr_or:
  assumes "p < NPAGES"
  shows "unat (page2addr p OR (va AND 0xfff)) = 0x80000000 + 4096 * p + unat va mod 4096"
proof -
  have m: "(0xfff :: u32) = mask 12" by (simp add: mask_eq_exp_minus_1)
  have "page2addr p OR (va AND 0xfff) = page2addr p + (va AND 0xfff)"
    unfolding page2addr_push by (rule disjunctive_add_eq_or [symmetric]) (auto simp: bit_eq_iff bit_simps m)
  also have "\<dots> = page2addr p + of_nat (unat va mod 4096)" unfolding unat_page_offset [symmetric] by simp
  finally show ?thesis using assms unat_page2addr [of p] unat_add_small [of "page2addr p" "unat va mod 4096"] by simp
qed

lemma proc_read8:
  assumes "proc D c pd s xs" "amap s pd va \<noteq> None"
  shows "uread8 va s = Some (ubyte s pd va, s)"
  using assms translate_amap [OF procD(6) [OF assms(1)], of va] by (auto simp: uread8_def uload8_def ubyte_def upa_def)

text \<open>A change of bytes that are not in a page table.\<close>

definition off_tables :: "nat set \<Rightarrow> kstate \<Rightarrow> u32 set \<Rightarrow> bool" where
  "off_tables D s A \<longleftrightarrow> (\<forall>q \<in> tables s D. \<forall>a \<in> A. unat a < 0x80000000 + 4096 * q \<or> 0x80000000 + 4096 * q + 4096 \<le> unat a)"

lemma proc_data:
  assumes p: "proc D c pd s xs" and off: "off_tables D s A" and m: "\<And>a. a \<notin> A \<Longrightarrow> m a = kmem s a"
  shows "proc D c pd (s\<lparr>kmem := m\<rparr>) xs" "d \<in> D \<Longrightarrow> amap (s\<lparr>kmem := m\<rparr>) d va = amap s d va" "tables (s\<lparr>kmem := m\<rparr>) D = tables s D"
proof -
  note P = procD [OF p]
  let ?s = "s\<lparr>kmem := m\<rparr>"
  have tab: "pw ?s q j = pw s q j" if q: "q \<in> tables s D" "unat j < 1024" for q j
  proof -
    have lt: "q < NPAGES" by (rule tables_less [OF P(1) q(1)])
    have "slot q j + of_nat k \<notin> A" if "k < 4" for k
    proof -
      have "unat (slot q j + of_nat k) = 0x80000000 + 4096 * q + 4 * unat j + k"
        using unat_slot [OF lt q(2)] that aligned4_add_unat [OF aligned4_slot [OF lt q(2)] that] by simp
      then show ?thesis using off q that unfolding off_tables_def by fastforce
    qed
    then show ?thesis unfolding pw_def kload32_def by (intro load32_cong) (simp add: m)
  qed
  have ta: "d \<in> D \<Longrightarrow> unat i < 1024 \<Longrightarrow> pw ?s d i = pw s d i" "d \<in> D \<Longrightarrow> unat i < 1024 \<Longrightarrow> pt ?s d i = pt s d i"
    "d \<in> D \<Longrightarrow> amap ?s d a = amap s d a" "tables ?s D = tables s D" for d i a
    using tables_agree [of s D ?s] tab by blast+
  show "d \<in> D \<Longrightarrow> amap ?s d va = amap s d va" by (rule ta(3))
  show "tables ?s D = tables s D" by (rule ta(4))
  have k: "os_kept s ?s" by (simp add: os_kept_def)
  note f = os_kept_fields [OF k]
  have "as_inv ?s D xs" by (rule as_inv_data [OF P(1)]) (simp_all add: tab)
  moreover have "vpt_window ?s pd"
    unfolding vpt_window_def f(3) ta(3) [OF P(5)] using P(4) ta(1,2) [OF P(5)] unfolding vpt_window_def by auto
  ultimately show "proc D c pd ?s xs" using P f ta(3,4) by (simp add: proc_def owns_dir_def)
qed

lemma upa_off_tables:
  assumes p: "proc D c pd s xs" and va: "va < UTOP" "amap s pd va \<noteq> None"
  shows "off_tables D s {upa s pd va}"
proof -
  note P = procD [OF p]
  obtain e where e: "amap s pd va = Some e" using va(2) by blast
  have q: "pte_page e < NPAGES" "pte_page e \<notin> tables s D" using mapped_ref(2) [OF P(1,5) va(1) e] P(7) [OF va(1) e] by auto
  have u: "unat (upa s pd va) = 0x80000000 + 4096 * pte_page e + unat va mod 4096" using page2addr_or [OF q(1)] e by (simp add: upa_def)
  show ?thesis unfolding off_tables_def
  proof (intro ballI)
    fix t a assume t0: "t \<in> tables s D" "a \<in> {upa s pd va}"
    then have t: "t \<in> tables s D" "a = upa s pd va" by simp_all
    then consider "t < pte_page e" | "pte_page e < t" using q(2) by (cases t "pte_page e" rule: linorder_cases) auto
    then show "unat a < 0x80000000 + 4096 * t \<or> 0x80000000 + 4096 * t + 4096 \<le> unat a"
    proof cases
      case 1
      then have "4096 * t + 4096 \<le> 4096 * pte_page e" by linarith
      then show ?thesis unfolding t(2) u by linarith
    next
      case 2
      then have "4096 * pte_page e + 4096 \<le> 4096 * t" by linarith
      moreover have "unat va mod 4096 < 4096" by simp
      ultimately show ?thesis unfolding t(2) u by linarith
    qed
  qed
qed

lemma proc_write8:
  assumes p: "proc D c pd s xs" and va: "va < UTOP" and e: "amap s pd va = Some e" "e AND PTE_W \<noteq> 0"
  shows "uwrite8 va v s = Some (s\<lparr>kmem := (kmem s)(upa s pd va := v)\<rparr>)" "proc D c pd (s\<lparr>kmem := (kmem s)(upa s pd va := v)\<rparr>) xs"
    "amap (s\<lparr>kmem := (kmem s)(upa s pd va := v)\<rparr>) pd = amap s pd"
proof -
  note P = procD [OF p]
  show "uwrite8 va v s = Some (s\<lparr>kmem := (kmem s)(upa s pd va := v)\<rparr>)"
    using writable_amap [OF P(6) e(1)] e translate_amap [OF P(6), of va] by (simp add: uwrite8_def uwrite_def ustore8_def upa_def)
  have "off_tables D s {upa s pd va}" using upa_off_tables [OF p va] e by simp
  note d = proc_data [OF p this, where m = "(kmem s)(upa s pd va := v)"]
  show "proc D c pd (s\<lparr>kmem := (kmem s)(upa s pd va := v)\<rparr>) xs" "amap (s\<lparr>kmem := (kmem s)(upa s pd va := v)\<rparr>) pd = amap s pd"
    using d(1) d(2) [OF _ P(5)] by (auto simp: fun_eq_iff)
qed

section \<open>memcpy\<close>

text \<open>
  \<open>n\<close> bytes can be copied: they are mapped, the target is writable, and no byte of the target is a byte of the
  source or another byte of the target.
\<close>

definition copyable :: "kstate \<Rightarrow> nat \<Rightarrow> u32 \<Rightarrow> u32 \<Rightarrow> nat \<Rightarrow> bool" where
  "copyable s pd dst src n \<longleftrightarrow>
     (\<forall>k<n. amap s pd (src + of_nat k) \<noteq> None \<and> dst + of_nat k < UTOP \<and>
        (\<exists>e. amap s pd (dst + of_nat k) = Some e \<and> e AND PTE_W \<noteq> 0)) \<and>
     (\<forall>j<n. \<forall>k<n. upa s pd (dst + of_nat j) \<noteq> upa s pd (src + of_nat k) \<and>
        (j \<noteq> k \<longrightarrow> upa s pd (dst + of_nat j) \<noteq> upa s pd (dst + of_nat k)))"

lemma copyableD:
  assumes "copyable s pd dst src n" "k < n"
  obtains e where "amap s pd (dst + of_nat k) = Some e" "e AND PTE_W \<noteq> 0" "dst + of_nat k < UTOP" "amap s pd (src + of_nat k) \<noteq> None"
  using assms unfolding copyable_def by blast

lemma copyable_Suc:
  assumes "copyable s pd dst src (Suc n)" "amap s' pd = amap s pd"
  shows "copyable s' pd (dst + 1) (src + 1) n"
proof -
  have sh: "x + 1 + of_nat k = x + of_nat (Suc k)" for x :: u32 and k by (simp add: algebra_simps)
  have up: "upa s' pd = upa s pd" using assms(2) by (simp add: upa_def [abs_def])
  show ?thesis using assms(1) unfolding copyable_def assms(2) sh up All_less_Suc2 by blast
qed

lemma ucopy_ok:
  assumes "proc D c pd s xs" "copyable s pd dst src n"
  shows "\<exists>s'. ucopy dst src n s = Some s' \<and> proc D c pd s' xs \<and> s' = s\<lparr>kmem := kmem s'\<rparr> \<and> amap s' pd = amap s pd \<and>
    (\<forall>k<n. ubyte s' pd (dst + of_nat k) = ubyte s pd (src + of_nat k)) \<and>
    (\<forall>a. (\<forall>k<n. a \<noteq> upa s pd (dst + of_nat k)) \<longrightarrow> kmem s' a = kmem s a)"
  using assms
proof (induction n arbitrary: dst src s)
  case (Suc n)
  have c0: "amap s pd src \<noteq> None" "dst < UTOP" "\<exists>e. amap s pd dst = Some e \<and> e AND PTE_W \<noteq> 0"
    using Suc.prems(2) by (force simp: copyable_def)+
  obtain e where e: "amap s pd dst = Some e" "e AND PTE_W \<noteq> 0" using c0(3) by blast
  define v where "v = ubyte s pd src"
  let ?s = "s\<lparr>kmem := (kmem s)(upa s pd dst := v)\<rparr>"
  note w = proc_write8 [OF Suc.prems(1) c0(2) e, of v]
  have up: "upa ?s pd = upa s pd" using w(3) by (simp add: upa_def [abs_def])
  from Suc.IH [OF w(2) copyable_Suc [OF Suc.prems(2) w(3)]] obtain s' where
    s': "ucopy (dst + 1) (src + 1) n ?s = Some s'" "proc D c pd s' xs" "s' = ?s\<lparr>kmem := kmem s'\<rparr>" "amap s' pd = amap ?s pd"
    "\<forall>k<n. ubyte s' pd (dst + 1 + of_nat k) = ubyte ?s pd (src + 1 + of_nat k)"
    "\<forall>a. (\<forall>k<n. a \<noteq> upa ?s pd (dst + 1 + of_nat k)) \<longrightarrow> kmem s' a = kmem ?s a" by blast
  have sh: "x + 1 + of_nat k = x + of_nat (Suc k)" for x :: u32 and k by (simp add: algebra_simps)
  have am: "amap s' pd = amap s pd" using s'(4) w(3) by simp
  have inst: "upa s pd (dst + of_nat j) \<noteq> upa s pd (src + of_nat k) \<and>
      (j \<noteq> k \<longrightarrow> upa s pd (dst + of_nat j) \<noteq> upa s pd (dst + of_nat k))" if "j < Suc n" "k < Suc n" for j k
    using Suc.prems(2) that unfolding copyable_def by blast
  have ne1: "upa s pd (dst + of_nat (Suc k)) \<noteq> upa s pd dst" if "k < n" for k using inst [of "Suc k" 0] that by simp
  have ne2: "upa s pd (src + of_nat k) \<noteq> upa s pd dst" if "k < Suc n" for k using inst [of 0 k] that by auto
  have "ubyte s' pd (dst + of_nat k) = ubyte s pd (src + of_nat k)" if k: "k < Suc n" for k
  proof (cases k)
    case 0
    have "kmem s' (upa s pd dst) = kmem ?s (upa s pd dst)"
      using s'(6) ne1 unfolding up sh by (metis (no_types))
    moreover have "upa s' pd = upa s pd" using am by (simp add: upa_def [abs_def])
    ultimately show ?thesis using 0 by (simp add: ubyte_def v_def)
  next
    case (Suc l)
    then have "ubyte s' pd (dst + of_nat k) = ubyte ?s pd (src + of_nat k)" using s'(5) k unfolding sh by auto
    also have "\<dots> = ubyte s pd (src + of_nat k)" using ne2 [OF k] unfolding ubyte_def up by simp
    finally show ?thesis .
  qed
  moreover have "kmem s' a = kmem s a" if "\<forall>k<Suc n. a \<noteq> upa s pd (dst + of_nat k)" for a
    using s'(6) that unfolding up sh All_less_Suc2 by simp
  moreover have "ucopy dst src (Suc n) s = Some s'" using proc_read8 [OF Suc.prems(1) c0(1)] w(1) s'(1) by (simp add: v_def)
  moreover have "s' = s\<lparr>kmem := kmem s'\<rparr>" using s'(3) by simp
  ultimately show ?case using s'(2) am by blast
next
  case 0
  then show ?case by (intro exI [of _ s]) simp
qed

section \<open>Reading a file\<close>

text \<open>What \<open>read\<close> delivers: as much of the file as there is from the position on.\<close>

definition readable :: "u32 \<Rightarrow> u32 \<Rightarrow> u32 \<Rightarrow> u32" where
  "readable sz off n = (if sz < off then 0 else if sz - off < n then sz - off else n)"

lemma readable_eq:
  assumes "unat off + unat n < 2 ^ 32" "\<not> sz < off"
  shows "(if off + n > sz then sz - off else n) = readable sz off n"
proof -
  have "unat (off + n) = unat off + unat n" using assms(1) unat_add_small [of off "unat n"] by simp
  moreover have "unat (sz - off) = unat sz - unat off" using assms(2) by (simp add: unat_sub not_less)
  ultimately show ?thesis using assms(2) by (auto simp: readable_def word_less_nat_alt)
qed

lemma file_read_ok:
  assumes p: "proc D c pd s xs" and i: "unat i < 32" and e: "amap s pd (INDEX2FD i) \<noteq> None"
    and n: "unat off + unat n < 2 ^ 32"
    and cp: "copyable s pd buf (INDEX2DATA i + off) (unat (readable (fd_word s pd i 36) off n))"
  shows "\<exists>s'. file_read (INDEX2FD i) buf n off s = Some (readable (fd_word s pd i 36) off n, s') \<and> proc D c pd s' xs \<and>
    amap s' pd = amap s pd \<and>
    (\<forall>k<unat (readable (fd_word s pd i 36) off n). ubyte s' pd (buf + of_nat k) = ubyte s pd (INDEX2DATA i + off + of_nat k)) \<and>
    (\<forall>a. (\<forall>k<unat (readable (fd_word s pd i 36) off n). a \<noteq> upa s pd (buf + of_nat k)) \<longrightarrow> kmem s' a = kmem s a)"
proof -
  let ?sz = "fd_word s pd i 36"
  have rd: "uread32 (INDEX2FD i + 144) s = Some (?sz, s)" using fd_read [OF p i e, of 36] by simp
  obtain s' where s': "ucopy buf (INDEX2DATA i + off) (unat (readable ?sz off n)) s = Some s'" "proc D c pd s' xs" "amap s' pd = amap s pd"
    "\<forall>k<unat (readable ?sz off n). ubyte s' pd (buf + of_nat k) = ubyte s pd (INDEX2DATA i + off + of_nat k)"
    "\<forall>a. (\<forall>k<unat (readable ?sz off n). a \<noteq> upa s pd (buf + of_nat k)) \<longrightarrow> kmem s' a = kmem s a"
    using ucopy_ok [OF p cp] by blast
  have "file_read (INDEX2FD i) buf n off s = Some (readable ?sz off n, s')"
  proof (cases "?sz < off")
    case True
    then show ?thesis using rd s'(1) by (simp add: file_read_def readable_def)
  next
    case False
    then show ?thesis using rd s'(1) readable_eq [OF n False] fd_page(5) [OF i] by (simp add: file_read_def Let_def)
  qed
  then show ?thesis using s'(2-5) by blast
qed

text \<open>The descriptor's page is not among the pages copied to.\<close>

definition apart :: "kstate \<Rightarrow> nat \<Rightarrow> u32 \<Rightarrow> nat \<Rightarrow> nat \<Rightarrow> bool" where
  "apart s pd buf n q \<longleftrightarrow> (\<forall>k<n. \<forall>e. amap s pd (buf + of_nat k) = Some e \<longrightarrow> pte_page e \<noteq> q)"

lemma upa_other_page:
  assumes p: "proc D c pd s xs" and va: "va < UTOP" "amap s pd va = Some e" "pte_page e \<noteq> q" and q: "q < NPAGES" "unat j < 1024" "x < 4"
  shows "upa s pd va \<noteq> slot q j + of_nat x"
proof
  assume eq: "upa s pd va = slot q j + of_nat x"
  have u: "unat (slot q j + of_nat x) = 0x80000000 + 4096 * q + (4 * unat j + x)" "4 * unat j + x < 4096"
    using unat_slot [OF q(1,2)] q(3) aligned4_add_unat [OF aligned4_slot [OF q(1,2)] q(3)] q(2) by simp_all
  have lt: "pte_page e < NPAGES" by (rule mapped_ref(2) [OF procD(1,5) [OF p] va(1,2)])
  have "4096 * q + (4 * unat j + x) = 4096 * pte_page e + unat va mod 4096"
    using eq u(1) page2addr_or [OF lt, of va] va(2) by (simp add: upa_def)
  then have "(4096 * q + (4 * unat j + x)) div 4096 = (4096 * pte_page e + unat va mod 4096) div 4096" by simp
  then show False using u(2) va(3) by simp
qed

lemma apart_word:
  assumes p: "proc D c pd s xs" and ap: "apart s pd buf n q" and cp: "copyable s pd buf src n" and q: "q < NPAGES" "unat j < 1024"
    and m: "\<forall>a. (\<forall>k<n. a \<noteq> upa s pd (buf + of_nat k)) \<longrightarrow> kmem s' a = kmem s a"
  shows "pw s' q j = pw s q j"
  unfolding pw_def kload32_def
proof (rule load32_cong)
  fix x :: nat assume x: "x < 4"
  have "slot q j + of_nat x \<noteq> upa s pd (buf + of_nat k)" if k: "k < n" for k
  proof -
    obtain e where "amap s pd (buf + of_nat k) = Some e" "buf + of_nat k < UTOP" by (rule copyableD [OF cp k])
    then show ?thesis using upa_other_page [OF p _ _ _ q x] ap k by (metis apart_def)
  qed
  then show "kmem s' (slot q j + of_nat x) = kmem s (slot q j + of_nat x)" using m by blast
qed

text \<open>A word of the descriptor is written; bytes in other pages stay.\<close>

lemma fd_write_byte:
  assumes p: "proc D c pd s xs" and i: "unat i < 32" and e: "amap s pd (INDEX2FD i) = Some e" "e AND PTE_W \<noteq> 0"
  obtains s' where "uwrite32 (INDEX2FD i + 4) v s = Some s'" "proc D c pd s' xs" "stores D (pte_page e) (of_nat 1) v s s'"
    "\<And>va f. va < UTOP \<Longrightarrow> amap s pd va = Some f \<Longrightarrow> pte_page f \<noteq> pte_page e \<Longrightarrow> ubyte s' pd va = ubyte s pd va"
proof -
  note P = procD [OF p]
  have q: "pte_page e < NPAGES" by (rule mapped_ref(2) [OF P(1,5) fd_page(3) [OF i] e(1)])
  have f: "VPN (INDEX2FD i + 4) = VPN (INDEX2FD i)" "(INDEX2FD i + 4) AND 3 = 0" "uidx (INDEX2FD i + 4) = 1"
    using fd_field [OF i, of 1] by simp_all
  have e4: "amap s pd (INDEX2FD i + 4) = Some e" using amap_VPN [OF f(1), of s pd] e(1) by simp
  let ?s = "kstore32 (slot (pte_page e) 1) v s"
  have w: "uwrite32 (INDEX2FD i + 4) v s = Some ?s"
    using writable_amap [OF P(6) e4] e(2) e4 page_offset [OF f(2), of "pte_page e"] translate_amap [OF P(6), of "INDEX2FD i + 4"]
      f(3) by (simp add: uwrite32_def uwrite_def ustore32_def uidx_def)
  obtain s' where s': "uwrite32 (INDEX2FD i + 4) v s = Some s'" "proc D c pd s' xs" "stores D (pte_page e) (of_nat 1) v s s'"
    using fd_store [OF p i _ e, of 1 v] by auto
  have am: "upa s' pd = upa s pd" using storesD(4) [OF s'(3) P(5)] by (simp add: upa_def [abs_def])
  have "ubyte s' pd va = ubyte s pd va" if va: "va < UTOP" "amap s pd va = Some f" "pte_page f \<noteq> pte_page e" for va f
  proof -
    have "upa s pd va \<noteq> slot (pte_page e) 1 + of_nat x" if "x < 4" for x
      using upa_other_page [OF p va q _ that, of 1] by simp
    from this [of 0] this [of 1] this [of 2] this [of 3] show ?thesis
      using w s'(1) am by (simp add: ubyte_def kstore32_def store32_def)
  qed
  then show thesis using that s' by blast
qed

lemma read_file_ok:
  assumes p: "proc D c pd s xs" and i: "unat i < 32" and e: "amap s pd (INDEX2FD i) = Some e" "e AND PTE_W \<noteq> 0"
    and dev: "fd_word s pd i 0 = devfile_id" "fd_word s pd i 2 AND 3 \<noteq> 1"
    and n: "unat (fd_word s pd i 1) + unat n < 2 ^ 31"
  defines "m \<equiv> readable (fd_word s pd i 36) (fd_word s pd i 1) n"
  assumes cp: "copyable s pd buf (INDEX2DATA i + fd_word s pd i 1) (unat m)" and ap: "apart s pd buf (unat m) (pte_page e)"
  shows "\<exists>s'. read_fd [devfile u a] i buf n s = Some (m, s') \<and> proc D c pd s' xs \<and> fd_word s' pd i 1 = fd_word s pd i 1 + m \<and>
    (\<forall>k<unat m. ubyte s' pd (buf + of_nat k) = ubyte s pd (INDEX2DATA i + fd_word s pd i 1 + of_nat k)) \<and>
    amap s' pd = amap s pd \<and> (\<forall>k<1024. k \<noteq> 1 \<longrightarrow> fd_word s' pd i k = fd_word s pd i k) \<and> (m = 0 \<longrightarrow> kmem s' = kmem s)"
proof -
  let ?off = "fd_word s pd i 1"
  have n': "unat ?off + unat n < 2 ^ 32" using n by simp
  obtain s1 where s1: "file_read (INDEX2FD i) buf n ?off s = Some (m, s1)" "proc D c pd s1 xs" "amap s1 pd = amap s pd"
    "\<forall>k<unat m. ubyte s1 pd (buf + of_nat k) = ubyte s pd (INDEX2DATA i + ?off + of_nat k)"
    "\<forall>x. (\<forall>k<unat m. x \<noteq> upa s pd (buf + of_nat k)) \<longrightarrow> kmem s1 x = kmem s x"
    using file_read_ok [OF p i _ n', of buf] e(1) cp unfolding m_def by auto
  have q: "pte_page e < NPAGES" by (rule mapped_ref(2) [OF procD(1,5) [OF p] fd_page(3) [OF i] e(1)])
  have w1: "fd_word s1 pd i k = fd_word s pd i k" if "k < 1024" for k
    using apart_word [OF p ap cp q _ s1(5), of "of_nat k"] that s1(3) e(1) by (simp add: fd_word_def unat_of_nat)
  have e1: "amap s1 pd (INDEX2FD i) = Some e" using s1(3) e(1) by simp
  have r: "read_fd [devfile u a] i buf n s = advance (INDEX2FD i) m s1"
    using read_ok [OF p i, of "[devfile u a]" "devfile u a" buf n] e(1) dev s1(1) by (simp add: devfile_def)
  have "m \<le> n" by (auto simp: m_def readable_def word_le_nat_alt word_less_nat_alt)
  then have sm: "sint m = int (unat m)" using n by (intro sint_small) (simp add: word_le_nat_alt)
  show ?thesis
  proof (cases "m = 0")
    case True
    then have "kmem s1 = kmem s" using s1(5) by auto
    then show ?thesis using True r s1(2,3) w1 by (intro exI [of _ s1]) (simp add: advance_def)
  next
    case False
    then have "0 < unat m" by (simp add: word_unat_eq_iff)
    then have "sint m > 0" unfolding sm by (simp only: of_nat_0_less_iff)
    obtain s' where s': "uwrite32 (INDEX2FD i + 4) (?off + m) s1 = Some s'" "proc D c pd s' xs" "stores D (pte_page e) (of_nat 1) (?off + m) s1 s'"
      "\<And>va f. va < UTOP \<Longrightarrow> amap s1 pd va = Some f \<Longrightarrow> pte_page f \<noteq> pte_page e \<Longrightarrow> ubyte s' pd va = ubyte s1 pd va"
      by (rule fd_write_byte [OF s1(2) i e1 e(2), of "?off + m"]) blast
    have "advance (INDEX2FD i) m s1 = Some (m, s')"
      using \<open>sint m > 0\<close> s'(1) fd_reads(2) [OF s1(2) i] e1 w1 [of 1] by (simp add: advance_def)
    moreover have "fd_word s' pd i 1 = ?off + m" using fd_word_stores [OF s1(2) i _ _ e1 s'(3), of 1] by simp
    moreover have "ubyte s' pd (buf + of_nat k) = ubyte s1 pd (buf + of_nat k)" if k: "k < unat m" for k
    proof -
      obtain f where "amap s pd (buf + of_nat k) = Some f" "buf + of_nat k < UTOP" using copyableD [OF cp k] by blast
      then show ?thesis using s'(4) [of "buf + of_nat k" f] s1(3) ap k by (simp add: apart_def)
    qed
    moreover have "amap s' pd = amap s pd" using storesD(4) [OF s'(3) procD(5) [OF p]] s1(3) by (simp add: fun_eq_iff)
    moreover have "fd_word s' pd i k = fd_word s pd i k" if "k < 1024" "k \<noteq> 1" for k
      using fd_word_stores [OF s1(2) i that(1) _ e1 s'(3)] w1 [OF that(1)] that(2) by simp
    ultimately show ?thesis using r s'(2) s1(4) False by (intro exI [of _ s']) simp
  qed
qed

text \<open>Behind the bytes that are read there is nothing more of what was asked for.\<close>

lemma readable_rest:
  assumes "unat off + unat n < 2 ^ 31" "m = readable sz off n" "m < n" "m \<noteq> 0"
  shows "readable sz (off + m) (n - m) = 0"
proof -
  have "\<not> sz < off" "m = sz - off" using assms(2-4) by (auto simp: readable_def split: if_splits)
  moreover have "0 < n - m" using assms(3) by (auto simp: word_gt_0)
  ultimately show ?thesis by (simp add: readable_def)
qed

lemma readn_file_ok:
  assumes p: "proc D c pd s xs" and i: "unat i < 32" and e: "amap s pd (INDEX2FD i) = Some e" "e AND PTE_W \<noteq> 0"
    and dev: "fd_word s pd i 0 = devfile_id" "fd_word s pd i 2 AND 3 \<noteq> 1"
    and n: "unat (fd_word s pd i 1) + unat n < 2 ^ 31" and m: "m = readable (fd_word s pd i 36) (fd_word s pd i 1) n"
    and cp: "copyable s pd buf (INDEX2DATA i + fd_word s pd i 1) (unat m)" and ap: "apart s pd buf (unat m) (pte_page e)"
  shows "\<exists>s'. readn [devfile u a] i buf n s = Some (m, s') \<and> proc D c pd s' xs \<and> fd_word s' pd i 1 = fd_word s pd i 1 + m \<and>
    (\<forall>k<unat m. ubyte s' pd (buf + of_nat k) = ubyte s pd (INDEX2DATA i + fd_word s pd i 1 + of_nat k))"
proof (cases "n = 0")
  case True
  then have "m = 0" using m by (auto simp: readable_def)
  then show ?thesis using True p unfolding readn_def by (subst readn_loop.simps) simp
next
  case False
  let ?off = "fd_word s pd i 1" and ?d = "[devfile u a]"
  from read_file_ok [OF p i e dev n, of buf u a] cp ap obtain s1 where
    s1: "read_fd ?d i buf n s = Some (m, s1)" "proc D c pd s1 xs" "fd_word s1 pd i 1 = ?off + m"
    "\<forall>k<unat m. ubyte s1 pd (buf + of_nat k) = ubyte s pd (INDEX2DATA i + ?off + of_nat k)" "amap s1 pd = amap s pd"
    "\<forall>k<1024. k \<noteq> 1 \<longrightarrow> fd_word s1 pd i k = fd_word s pd i k" unfolding m [symmetric] by blast
  have le: "m \<le> n" by (auto simp: m readable_def word_le_nat_alt word_less_nat_alt)
  then have pos: "\<not> sint m < 0" using n sint_small [of m] by (simp add: word_le_nat_alt)
  have first: "readn ?d i buf n s = (if m = 0 then Some (0, s1) else readn_loop ?d i buf n m s1)"
    unfolding readn_def using False s1(1) pos by (subst readn_loop.simps) (simp add: word_gt_0)
  show ?thesis
  proof (cases "m = 0 \<or> m = n")
    case True
    then have "readn ?d i buf n s = Some (m, s1)" unfolding first by (subst readn_loop.simps) auto
    then show ?thesis using s1 by blast
  next
    case False
    then have lt: "m < n" "m \<noteq> 0" using le by auto
    have w1: "fd_word s1 pd i 0 = devfile_id" "fd_word s1 pd i 2 AND 3 \<noteq> 1" "fd_word s1 pd i 36 = fd_word s pd i 36"
      using s1(6) dev by simp_all
    have e1: "amap s1 pd (INDEX2FD i) = Some e" using s1(5) e(1) by simp
    have um: "unat (?off + m) = unat ?off + unat m" using n le unat_add_small [of ?off "unat m"] by (simp add: word_le_nat_alt)
    have n1: "unat (fd_word s1 pd i 1) + unat (n - m) < 2 ^ 31" unfolding s1(3) um using n le by (simp add: unat_sub word_le_nat_alt)
    have z: "readable (fd_word s1 pd i 36) (fd_word s1 pd i 1) (n - m) = 0" unfolding s1(3) w1(3) by (rule readable_rest [OF n m lt])
    from read_file_ok [OF s1(2) i e1 e(2) w1(1,2) n1, of "buf + m" u a, unfolded z] obtain s2 where
      s2: "read_fd ?d i (buf + m) (n - m) s1 = Some (0, s2)" "proc D c pd s2 xs" "fd_word s2 pd i 1 = ?off + m" "amap s2 pd = amap s1 pd"
      "kmem s2 = kmem s1" unfolding s1(3) by (auto simp: copyable_def apart_def)
    have "readn ?d i buf n s = Some (m, s2)" unfolding first using lt s2(1) by (subst readn_loop.simps) simp
    moreover have "ubyte s2 pd va = ubyte s1 pd va" for va using s2(4,5) by (simp add: ubyte_def upa_def)
    ultimately show ?thesis using s1(4) s2(2,3) by (intro exI [of _ s2]) simp
  qed
qed

section \<open>Mapped pages of a file\<close>

lemma read_map_eq:
  assumes p: "proc D c pd s xs" and i: "unat i < 32"
  shows "read_map i off s = Some
    (if amap s pd (INDEX2FD i) = None \<or> fd_word s pd i 0 \<noteq> devfile_id then (- errno E_INVAL, None)
     else if MAXFILESIZE \<le> off \<or> amap s pd (INDEX2DATA i + off) = None then (- errno E_NO_DISK, None)
     else (0, Some (INDEX2DATA i + off)), s)"
proof (cases "amap s pd (INDEX2FD i) = None \<or> fd_word s pd i 0 \<noteq> devfile_id \<or> MAXFILESIZE \<le> off")
  case True
  then show ?thesis using fd_lookup_ok [OF p i] fd_reads(1) [OF p i] fd_page(5) [OF i]
    by (auto simp: read_map_def Let_def)
next
  case False
  have "unat off < 0x400000" using False by (simp add: word_le_nat_alt not_le)
  then have "unat (INDEX2DATA i + off) = 0x60000000 + 0x400000 * unat i + unat off"
    using unat_fd(2) [OF i, of "unat off"] by simp
  then have va: "INDEX2DATA i + off < UTOP" using i \<open>unat off < 0x400000\<close> by (simp add: word_less_nat_alt)
  obtain w d where "vpt (VPN (INDEX2DATA i + off)) s = Some (w, s)" "w AND PTE_V \<noteq> 0 \<longleftrightarrow> amap s pd (INDEX2DATA i + off) \<noteq> None"
    "vpd (PDX (INDEX2DATA i + off)) s = Some (d, s)" "d AND PTE_V \<noteq> 0"
    using proc_vpt [OF p va] by blast
  then show ?thesis using False fd_lookup_ok [OF p i] fd_reads(1) [OF p i] fd_page(5) [OF i]
    by (auto simp: read_map_def Let_def)
qed

section \<open>A file in the sample state\<close>

lemma w_file:
  "\<exists>s xs f. proc {5, 6} 0 5 s xs \<and> amap s 5 (INDEX2FD 0) = Some (mk_pte 7 cons_perm) \<and> amap s 5 (INDEX2DATA 0) = Some (mk_pte f cons_perm) \<and>
     f < NPAGES \<and> f \<noteq> 20 \<and> (\<forall>va. VPN va = 0x400 \<longrightarrow> va < UTOP \<longrightarrow> amap s 5 va = Some (mk_pte 20 (PTE_R OR PTE_W OR PTE_U))) \<and>
     fd_word s 5 0 0 = devfile_id \<and> fd_word s 5 0 1 = 0 \<and> fd_word s 5 0 2 = 2 \<and> fd_word s 5 0 36 = 3"
proof -
  let ?e = "mk_pte 7 cons_perm"
  from opencons_ok [OF w_proc, of 0 "undefined"] w_fds obtain s0 ys where
    s0: "proc {5, 6} 0 5 s0 ys" "2 \<le> length ys" "touches {5, 6} 5 {VPN (INDEX2FD 0)} wsample s0" "amap s0 5 (INDEX2FD 0) = Some ?e"
    "fd_word s0 5 0 1 = 0" "fd_word s0 5 0 2 = 2" "pp_ref s0 7 = 1" "\<forall>q. pp_ref wsample q \<noteq> 0 \<longrightarrow> pp_ref s0 q = pp_ref wsample q" by auto
  note W = mk_pte_W [OF perms_ok(3), of 7]
  have pg: "pte_page ?e = 7" using pte_page_mk_pte [OF _ perms_ok(1)] by simp
  from fd_store [OF s0(1) _ _ s0(4) W, of 0 devfile_id] pg obtain s1 where
    s1: "proc {5, 6} 0 5 s1 ys" "stores {5, 6} 7 (of_nat 0) devfile_id s0 s1" by auto
  have e1: "amap s1 5 (INDEX2FD 0) = Some ?e" using storesD(4) [OF s1(2)] s0(4) by simp
  from fd_store [OF s1(1) _ _ e1 W, of 36 3] pg obtain s2 where
    s2: "proc {5, 6} 0 5 s2 ys" "stores {5, 6} 7 (of_nat 36) 3 s1 s2" by auto
  have e2: "amap s2 5 va = amap s0 5 va" for va using storesD(4) [OF s2(2)] storesD(4) [OF s1(2)] by simp
  have w2: "fd_word s2 5 0 k = (if k = 36 then 3 else if k = 0 then devfile_id else fd_word s0 5 0 k)" if "k < 1024" for k
    using fd_word_stores [OF s1(1) _ that _ e1 s2(2)] fd_word_stores [OF s0(1) _ that _ s0(4) s1(2)] pg by simp
  obtain f zs where ys: "ys = f # zs" using s0(2) by (cases ys) auto
  have ref: "pp_ref s2 = pp_ref s0" using storesD(2) [OF s2(2)] storesD(2) [OF s1(2)] by simp
  have vd: "VPN (INDEX2DATA 0) = 0x60000" "VPN (INDEX2FD 0) = 0x5fc00" by (simp_all add: VPN_def INDEX2DATA_def INDEX2FD_def)
  have "amap s2 5 (INDEX2DATA 0) = None"
    using e2 touchesD(3) [OF s0(3), of 5 "INDEX2DATA 0"] vd w_unmapped [of "INDEX2DATA 0"] by (simp add: INDEX2DATA_def VPN_def word_less_nat_alt)
  from alloc_step [OF s2(1) [unfolded ys] _ perms_ok(1) this] obtain s xs where
    s: "proc {5, 6} 0 5 s xs" "touches {5, 6} 5 {VPN (INDEX2DATA 0)} s2 s" "amap s 5 (INDEX2DATA 0) = Some (mk_pte f cons_perm)"
    "f < NPAGES" "pp_ref s2 f = 0" by (auto simp: is_illegal_va_def INDEX2DATA_def)
  have "pp_ref s2 20 = 4" using s0(8) ref by simp
  then have "f \<noteq> 20" using s(5) by auto
  moreover have "amap s 5 va = Some (mk_pte 20 (PTE_R OR PTE_W OR PTE_U))" if "VPN va = 0x400" "va < UTOP" for va
    using touchesD(3) [OF s(2), of 5 va] e2 touchesD(3) [OF s0(3), of 5 va] vd wuser [OF that(2)] that(1) by simp
  moreover have "fd_word s 5 0 k = fd_word s2 5 0 k" if "k < 1024" for k
    using fd_word_touches [OF s2(1) _ that s(2), of 0] vd e2 s0(4) by simp
  moreover have "amap s 5 (INDEX2FD 0) = Some ?e" using touchesD(3) [OF s(2), of 5 "INDEX2FD 0"] vd e2 s0(4) by (simp add: INDEX2FD_def word_less_nat_alt)
  ultimately show ?thesis using s(1,3,4) w2 [of 0] w2 [of 1] w2 [of 2] w2 [of 36] s0(5,6)
    by (intro exI [of _ s] exI [of _ xs] exI [of _ f]) simp
qed

lemma w_file_copy:
  assumes p: "proc {5, 6} 0 5 s xs" and d: "amap s 5 (INDEX2DATA 0) = Some (mk_pte f cons_perm)" "f < NPAGES" "f \<noteq> 20"
    and b: "\<forall>va. VPN va = 0x400 \<longrightarrow> va < UTOP \<longrightarrow> amap s 5 va = Some (mk_pte 20 (PTE_R OR PTE_W OR PTE_U))"
  shows "copyable s 5 0x400000 (INDEX2DATA 0) 3" "apart s 5 0x400000 3 7"
proof -
  have us: "unat (INDEX2DATA 0 + of_nat k) = 0x60000000 + k" "unat (0x400000 + of_nat k :: u32) = 0x400000 + k" if "k < 3" for k
    using that unat_fd(2) [of 0 k] unat_add_small [of "0x400000" k] by simp_all
  have v: "VPN (INDEX2DATA 0 + of_nat k) = VPN (INDEX2DATA 0)" "VPN (0x400000 + of_nat k) = 0x400" "0x400000 + of_nat k < UTOP" if "k < 3" for k
  proof -
    have "(0x60000000 + k) div 4096 = 0x60000" "(0x400000 + k) div 4096 = 0x400" using that by (auto intro!: div_nat_eqI)
    then show "VPN (INDEX2DATA 0 + of_nat k) = VPN (INDEX2DATA 0)" "VPN (0x400000 + of_nat k) = 0x400"
      using us [OF that] us(1) [of 0] by (simp_all add: VPN_def word_unat_eq_iff unat_drop_bit32)
    show "0x400000 + of_nat k < UTOP" using us [OF that] that by (simp add: word_less_nat_alt)
  qed
  have am: "amap s 5 (INDEX2DATA 0 + of_nat k) = Some (mk_pte f cons_perm)" "amap s 5 (0x400000 + of_nat k) = Some (mk_pte 20 (PTE_R OR PTE_W OR PTE_U))"
    if "k < 3" for k using v [OF that] d(1) amap_VPN [OF v(1) [OF that], of s 5] b by auto
  define q where "q = mk_pte 20 (PTE_R OR PTE_W OR PTE_U)"
  have W: "q AND PTE_W \<noteq> 0" unfolding q_def by (rule mk_pte_W) simp
  have pq: "pte_page q = 20" unfolding q_def by (rule w_entries)
  note am = am [folded q_def]
  have pf: "pte_page (mk_pte f cons_perm) = f" by (rule pte_page_mk_pte [OF d(2) perms_ok(1)])
  have upa: "unat (upa s 5 (INDEX2DATA 0 + of_nat k)) = 0x80000000 + 4096 * f + k" "unat (upa s 5 (0x400000 + of_nat k)) = 0x80000000 + 4096 * 20 + k"
    if "k < 3" for k
    using page2addr_or [OF d(2), of "INDEX2DATA 0 + of_nat k"] page2addr_or [of 20 "0x400000 + of_nat k"] am [OF that] us [OF that] pf pq that
    by (simp_all add: upa_def mod_add_left_eq [symmetric])
  have ne: "upa s 5 (0x400000 + of_nat j) \<noteq> upa s 5 (INDEX2DATA 0 + of_nat k)" if "j < 3" "k < 3" for j k
  proof
    assume "upa s 5 (0x400000 + of_nat j) = upa s 5 (INDEX2DATA 0 + of_nat k)"
    then have "4096 * 20 + j = 4096 * f + k" using upa(2) [OF that(1)] upa(1) [OF that(2)] by simp
    then have "(4096 * 20 + j) div 4096 = (4096 * f + k) div 4096" by (simp only:)
    moreover have "(4096 * 20 + j) div 4096 = 20" "(4096 * f + k) div 4096 = f" using that by (auto intro!: div_nat_eqI)
    ultimately show False using d(3) by simp
  qed
  have inj: "upa s 5 (0x400000 + of_nat j) \<noteq> upa s 5 (0x400000 + of_nat k)" if "j < 3" "k < 3" "j \<noteq> k" for j k
    using upa(2) [OF that(1)] upa(2) [OF that(2)] that(3) by auto
  show "copyable s 5 0x400000 (INDEX2DATA 0) 3" unfolding copyable_def using am v(3) W ne inj by auto
  show "apart s 5 0x400000 3 7" unfolding apart_def using am pq by auto
qed

section \<open>Properties\<close>

text \<open>
  C23 (file_read_bytes). Reading a file through its descriptor: \<open>read\<close> returns the smaller of what was asked for and what the file has from
  the position on, 0 past the end; the buffer then holds those bytes of the mapped file, and the position has moved
  by their number.
\<close>

theorem file_read_bytes:
  assumes "proc D c pd s xs" "unat i < 32" "amap s pd (INDEX2FD i) = Some e" "e AND PTE_W \<noteq> 0"
    and "fd_word s pd i 0 = devfile_id" "fd_word s pd i 2 AND 3 \<noteq> 1" "unat (fd_word s pd i 1) + unat n < 2 ^ 31"
    and "m = readable (fd_word s pd i 36) (fd_word s pd i 1) n"
    and "copyable s pd buf (INDEX2DATA i + fd_word s pd i 1) (unat m)" "apart s pd buf (unat m) (pte_page e)"
  shows "\<exists>s'. read_fd [devfile u a] i buf n s = Some (m, s') \<and> proc D c pd s' xs \<and> fd_word s' pd i 1 = fd_word s pd i 1 + m \<and>
    (\<forall>k<unat m. ubyte s' pd (buf + of_nat k) = ubyte s pd (INDEX2DATA i + fd_word s pd i 1 + of_nat k))"
  using read_file_ok [OF assms(1-7), of buf u a] assms(8-10) by blast

theorem file_read_bytes_witness:
  "\<exists>s xs. proc {5, 6} 0 5 s xs \<and> fd_word s 5 0 36 = 3 \<and> (\<forall>u a. \<exists>s'. read_fd [devfile u a] 0 0x400000 8 s = Some (3, s') \<and>
     fd_word s' 5 0 1 = 3 \<and> ubyte s' 5 0x400002 = ubyte s 5 0x60000002)"
proof -
  from w_file obtain s xs f where
    s: "proc {5, 6} 0 5 s xs" "amap s 5 (INDEX2FD 0) = Some (mk_pte 7 cons_perm)" "amap s 5 (INDEX2DATA 0) = Some (mk_pte f cons_perm)"
      "f < NPAGES" "f \<noteq> 20" "\<forall>va. VPN va = 0x400 \<longrightarrow> va < UTOP \<longrightarrow> amap s 5 va = Some (mk_pte 20 (PTE_R OR PTE_W OR PTE_U))"
    and w: "fd_word s 5 0 0 = devfile_id" "fd_word s 5 0 1 = 0" "fd_word s 5 0 2 = 2" "fd_word s 5 0 36 = 3" by (elim exE conjE) (rule that)
  note c = w_file_copy [OF s(1,3-6)]
  have W: "mk_pte 7 cons_perm AND PTE_W \<noteq> 0" by (rule mk_pte_W [OF perms_ok(3)])
  have pg: "pte_page (mk_pte 7 cons_perm) = 7" using pte_page_mk_pte [OF _ perms_ok(1)] by simp
  have r: "3 = readable (fd_word s 5 0 36) (fd_word s 5 0 1) 8" using w by (simp add: readable_def)
  have "\<exists>s'. read_fd [devfile u a] 0 0x400000 8 s = Some (3, s') \<and> fd_word s' 5 0 1 = 3 \<and> ubyte s' 5 0x400002 = ubyte s 5 0x60000002" for u a
  proof -
    have "\<exists>s'. read_fd [devfile u a] 0 0x400000 8 s = Some (3, s') \<and> proc {5, 6} 0 5 s' xs \<and> fd_word s' 5 0 1 = fd_word s 5 0 1 + 3 \<and>
        (\<forall>k<unat (3 :: u32). ubyte s' 5 (0x400000 + of_nat k) = ubyte s 5 (INDEX2DATA 0 + fd_word s 5 0 1 + of_nat k))"
      by (rule file_read_bytes [OF s(1) _ s(2) W w(1) _ _ r]) (use w c pg in simp_all)
    then obtain s' where s': "read_fd [devfile u a] 0 0x400000 8 s = Some (3, s')" "fd_word s' 5 0 1 = 3"
      "\<And>k. k < 3 \<Longrightarrow> ubyte s' 5 (0x400000 + of_nat k) = ubyte s 5 (INDEX2DATA 0 + of_nat k)" using w(2) by auto
    then show ?thesis using s'(3) [of 2] by (auto simp: INDEX2DATA_def)
  qed
  then show ?thesis using s(1) w(4) by blast
qed

text \<open>
  C22 (readn_file_bytes). \<open>readn\<close>, the loop that reads until it has enough, returns on a descriptor of a file: it delivers the bytes of the file from the
  position on, as many as were asked for or as the file has, also when the file ends before, and the position has moved
  by their number.
\<close>

theorem readn_file_bytes:
  assumes "proc D c pd s xs" "unat i < 32" "amap s pd (INDEX2FD i) = Some e" "e AND PTE_W \<noteq> 0"
    and "fd_word s pd i 0 = devfile_id" "fd_word s pd i 2 AND 3 \<noteq> 1" "unat (fd_word s pd i 1) + unat n < 2 ^ 31"
    and "m = readable (fd_word s pd i 36) (fd_word s pd i 1) n"
    and "copyable s pd buf (INDEX2DATA i + fd_word s pd i 1) (unat m)" "apart s pd buf (unat m) (pte_page e)"
  shows "\<exists>s'. readn [devfile u a] i buf n s = Some (m, s') \<and> proc D c pd s' xs \<and> fd_word s' pd i 1 = fd_word s pd i 1 + m \<and>
    (\<forall>k<unat m. ubyte s' pd (buf + of_nat k) = ubyte s pd (INDEX2DATA i + fd_word s pd i 1 + of_nat k))"
  by (rule readn_file_ok [OF assms])

theorem readn_file_bytes_witness:
  "\<exists>s xs. proc {5, 6} 0 5 s xs \<and> fd_word s 5 0 36 = 3 \<and> (\<forall>u a. \<exists>s'. readn [devfile u a] 0 0x400000 8 s = Some (3, s') \<and>
     fd_word s' 5 0 1 = 3 \<and> ubyte s' 5 0x400002 = ubyte s 5 0x60000002)"
proof -
  from w_file obtain s xs f where
    s: "proc {5, 6} 0 5 s xs" "amap s 5 (INDEX2FD 0) = Some (mk_pte 7 cons_perm)" "amap s 5 (INDEX2DATA 0) = Some (mk_pte f cons_perm)"
      "f < NPAGES" "f \<noteq> 20" "\<forall>va. VPN va = 0x400 \<longrightarrow> va < UTOP \<longrightarrow> amap s 5 va = Some (mk_pte 20 (PTE_R OR PTE_W OR PTE_U))"
    and w: "fd_word s 5 0 0 = devfile_id" "fd_word s 5 0 1 = 0" "fd_word s 5 0 2 = 2" "fd_word s 5 0 36 = 3" by (elim exE conjE) (rule that)
  note c = w_file_copy [OF s(1,3-6)]
  have W: "mk_pte 7 cons_perm AND PTE_W \<noteq> 0" by (rule mk_pte_W [OF perms_ok(3)])
  have pg: "pte_page (mk_pte 7 cons_perm) = 7" using pte_page_mk_pte [OF _ perms_ok(1)] by simp
  have r: "3 = readable (fd_word s 5 0 36) (fd_word s 5 0 1) 8" using w by (simp add: readable_def)
  have "\<exists>s'. readn [devfile u a] 0 0x400000 8 s = Some (3, s') \<and> fd_word s' 5 0 1 = 3 \<and> ubyte s' 5 0x400002 = ubyte s 5 0x60000002" for u a
  proof -
    have "\<exists>s'. readn [devfile u a] 0 0x400000 8 s = Some (3, s') \<and> proc {5, 6} 0 5 s' xs \<and> fd_word s' 5 0 1 = fd_word s 5 0 1 + 3 \<and>
        (\<forall>k<unat (3 :: u32). ubyte s' 5 (0x400000 + of_nat k) = ubyte s 5 (INDEX2DATA 0 + fd_word s 5 0 1 + of_nat k))"
      by (rule readn_file_bytes [OF s(1) _ s(2) W w(1) _ _ r]) (use w c pg in simp_all)
    then obtain s' where s': "readn [devfile u a] 0 0x400000 8 s = Some (3, s')" "fd_word s' 5 0 1 = 3"
      "\<And>k. k < 3 \<Longrightarrow> ubyte s' 5 (0x400000 + of_nat k) = ubyte s 5 (INDEX2DATA 0 + of_nat k)" using w(2) by auto
    then show ?thesis using s'(3) [of 2] by (auto simp: INDEX2DATA_def)
  qed
  then show ?thesis using s(1) w(4) by blast
qed

text \<open>
  \<open>read_map\<close> gives the address at which a page of the file is mapped; it refuses descriptors that are not files,
  offsets past the largest file and pages that are not mapped, and it changes nothing.
\<close>

theorem read_map_correct:
  assumes "proc D c pd s xs" "unat i < 32"
  shows "read_map i off s = Some
    (if amap s pd (INDEX2FD i) = None \<or> fd_word s pd i 0 \<noteq> devfile_id then (- errno E_INVAL, None)
     else if MAXFILESIZE \<le> off \<or> amap s pd (INDEX2DATA i + off) = None then (- errno E_NO_DISK, None)
     else (0, Some (INDEX2DATA i + off)), s)"
  by (rule read_map_eq [OF assms])

end
