(* ===== verification/Spawn.thy ===== *)
theory Spawn
  imports UserFile
begin

text \<open>
  \<^verbatim>\<open>user/lib/spawn.c\<close>: a new environment from a program file. The child is created by \<open>exofork\<close>, gets a stack with the
  arguments, the segments of the file and the shared pages of the parent, and is made runnable at the entry point.
  The strings of the parent are lists of bytes; its local arrays are given by their addresses.
\<close>

section \<open>The stack of the child\<close>

text \<open>The page is prepared at \<open>UTEMP\<close>: the strings at its end, below them the pointers as the child will see them.\<close>

fun put_strings :: "u32 \<Rightarrow> u8 list list \<Rightarrow> kstate \<Rightarrow> kstate option" where
  "put_strings ctemp [] s = Some s"
| "put_strings ctemp (a # argv) s =
     do { s \<leftarrow> put_bytes ctemp (a @ [0]) s; put_strings (ctemp + of_nat (length a) + 1) argv s }"

fun put_args :: "u32 \<Rightarrow> u32 \<Rightarrow> u8 list list \<Rightarrow> kstate \<Rightarrow> kstate option" where
  "put_args args ctemp [] s = uwrite32 args (ctemp - 1) s"
| "put_args args ctemp (a # argv) s =
     do { s \<leftarrow> uwrite32 args ctemp s; put_args (args + 4) (ctemp + of_nat (length a) + 1) argv s }"

text \<open>The result of the function and \<open>*init_sp\<close>.\<close>

definition init_stack :: "ulib \<Rightarrow> u32 \<Rightarrow> u8 list list \<Rightarrow> kstate \<Rightarrow> ((u32 \<times> u32) \<times> kstate) option" where
  "init_stack u child argv s =
     (let tot = of_nat (\<Sum>a\<leftarrow>argv. length a + 1); argc = of_nat (length argv) in
      if ROUND tot 4 + 4 * (argc + 3) > BY2PG then Some ((- errno E_NO_MEM, 0), s)
      else
        let strings = UTEMP + BY2PG - tot;
            args = UTEMP + BY2PG - ROUND tot 4 - 4 * (argc + 1);
            sp = USTACKTOP - UTEMP - BY2PG + (args - 8) in
        do { (r, s) \<leftarrow> sys u (ecall_mem_alloc (mach u) 0 UTEMP (PTE_R OR PTE_W OR PTE_U) s);
             (if sint r < 0 then Some ((r, 0), s)
              else do {
                s \<leftarrow> put_strings strings argv s;
                s \<leftarrow> put_args args (USTACKTOP - UTEMP - BY2PG + strings) argv s;
                s \<leftarrow> uwrite32 (args - 4) (USTACKTOP - UTEMP - BY2PG + args) s;
                s \<leftarrow> uwrite32 (args - 8) argc s;
                (r, s) \<leftarrow> sys u (ecall_mem_map (mach u) 0 UTEMP child (USTACKTOP - BY2PG) (PTE_R OR PTE_W OR PTE_U) s);
                (r, s) \<leftarrow> (if sint r < 0 then Some (r, s) else sys u (ecall_mem_unmap (mach u) 0 UTEMP s));
                (if sint r < 0
                 then do { (_, s) \<leftarrow> sys u (ecall_mem_unmap (mach u) 0 UTEMP s); Some ((r, sp), s) }
                 else Some ((0, sp), s)) }) })"

section \<open>Segments\<close>

definition spawn_mapper :: "ulib \<Rightarrow> u32 \<Rightarrow> u32 \<Rightarrow> u32 \<Rightarrow> u32 \<Rightarrow> u32 \<Rightarrow> u32 \<Rightarrow> kstate \<Rightarrow> (u32 \<times> kstate) option" where
  "spawn_mapper u child_id va offset perm src len s =
     do { (r, s) \<leftarrow> sys u (ecall_mem_alloc (mach u) child_id va perm s);
          (if r \<noteq> 0 then Some (r, s)
           else if src \<noteq> 0 then
             do { (r, s) \<leftarrow> sys u (ecall_mem_map (mach u) child_id va 0 UTEMP perm s);
                  (if r \<noteq> 0 then do { (_, s) \<leftarrow> sys u (ecall_mem_unmap (mach u) child_id va s); Some (r, s) }
                   else do { s \<leftarrow> ucopy (UTEMP + offset) src (unat len) s;
                             sys u (ecall_mem_unmap (mach u) 0 UTEMP s) }) }
           else Some (0, s)) }"

text \<open>The loader's callback: its result is only compared with 0.\<close>

definition mapper_of :: "ulib \<Rightarrow> u32 \<Rightarrow> kstate mapper" where
  "mapper_of u child va offset perm src len s =
     do { (r, s) \<leftarrow> spawn_mapper u child va offset perm src len s;
          Some (if r = 0 then Inr () else Inl E_UNSPECIFIED, s) }"

text \<open>A name without a dot gets the suffix of a program; \<open>tmpName\<close> has room for \<open>MAXNAMELEN\<close> bytes.\<close>

definition doWithCmdName :: "u8 list \<Rightarrow> u8 list option" where
  "doWithCmdName prog =
     (let name = (if 46 \<in> set prog then prog else prog @ [46, 98]) in
      if length name < MAXNAMELEN then Some name else None)"

text \<open>The header in \<open>elfbuf\<close>, read where the code reads its fields.\<close>

fun uget :: "u32 \<Rightarrow> nat \<Rightarrow> kstate \<Rightarrow> (u8 list \<times> kstate) option" where
  "uget va 0 s = Some ([], s)"
| "uget va (Suc n) s = do { (b, s) \<leftarrow> uread8 va s; (bs, s) \<leftarrow> uget (va + 1) n s; Some (b # bs, s) }"

definition get_hdr :: "u32 \<Rightarrow> kstate \<Rightarrow> (mem \<times> kstate) option" where
  "get_hdr elfbuf s =
     do { (bs, s) \<leftarrow> uget elfbuf 52 s;
          Some (\<lambda>a. if unat (a - elfbuf) < 52 then bs ! unat (a - elfbuf) else 0, s) }"

text \<open>
  The loop over the program headers, which are read over the start of the ELF header; the result tells whether
  the end was reached.
\<close>

partial_function (option) load_segs ::
  "ulib \<Rightarrow> Dev list \<Rightarrow> u32 \<Rightarrow> u32 \<Rightarrow> u32 \<Rightarrow> nat \<Rightarrow> u32 \<Rightarrow> kstate \<Rightarrow> (bool \<times> kstate) option"
where
  "load_segs u devtab elfbuf fd child i ph_off s =
     do { (ehdr, s) \<leftarrow> get_hdr elfbuf s;
          (if i < unat (e_phnum ehdr elfbuf) then
             do { (r, s) \<leftarrow> seek fd ph_off s;
                  (if r \<noteq> 0 then Some (False, s)
                   else do {
                     (r, s) \<leftarrow> readn devtab fd elfbuf (ucast (e_phentsize ehdr elfbuf)) s;
                     (ehdr, s) \<leftarrow> get_hdr elfbuf s;
                     (if r \<noteq> ucast (e_phentsize ehdr elfbuf) then Some (False, s)
                      else
                        let ph = phdr_at ehdr elfbuf in
                        do { (ok, s) \<leftarrow>
                               (if p_type ph = PT_LOAD then
                                  do { ((r, bin), s) \<leftarrow> read_map fd (p_offset ph) s;
                                       (case bin of
                                          None \<Rightarrow> Some (False, s)
                                        | Some bin \<Rightarrow>
                                            do { (r, s) \<leftarrow> elf_load_seg ph bin (mapper_of u child) s;
                                                 Some (case r of Inl _ \<Rightarrow> False | Inr _ \<Rightarrow> True, s) }) }
                                else Some (True, s));
                             (if \<not> ok then Some (False, s)
                              else do { (ehdr, s) \<leftarrow> get_hdr elfbuf s;
                                        load_segs u devtab elfbuf fd child (i + 1) (ph_off + ucast (e_phentsize ehdr elfbuf)) s }) }) }) }
           else Some (True, s)) }"

section \<open>Shared pages\<close>

fun share_ptes :: "ulib \<Rightarrow> u32 \<Rightarrow> u32 list \<Rightarrow> kstate \<Rightarrow> (u32 \<times> kstate) option" where
  "share_ptes u child [] s = Some (0, s)"
| "share_ptes u child (pn # pns) s =
     do { (pte, s) \<leftarrow> vpt pn s;
          let perm = pte AND 0xc00003ff;
          (r, s) \<leftarrow> (if perm AND PTE_V \<noteq> 0 \<and> perm AND PTE_LIBRARY \<noteq> 0
                     then sys u (ecall_mem_map (mach u) 0 (push_bit 12 pn) child (push_bit 12 pn) perm s)
                     else Some (0, s));
          (if sint r < 0 then Some (r, s) else share_ptes u child pns s) }"

fun share_pdes :: "ulib \<Rightarrow> u32 \<Rightarrow> nat list \<Rightarrow> kstate \<Rightarrow> (u32 \<times> kstate) option" where
  "share_pdes u child [] s = Some (0, s)"
| "share_pdes u child (pdeno # pdenos) s =
     do { (pde, s) \<leftarrow> vpd (of_nat pdeno) s;
          (r, s) \<leftarrow> (if pde AND PTE_V = 0 then Some (0, s)
                     else share_ptes u child (map (\<lambda>pteno. push_bit 10 (of_nat pdeno) + of_nat pteno) [0..<1024]) s);
          (if sint r < 0 then Some (r, s) else share_pdes u child pdenos s) }"

section \<open>Spawn\<close>

text \<open>A frame in the memory of the program.\<close>

fun uwrite_words :: "u32 \<Rightarrow> u32 list \<Rightarrow> kstate \<Rightarrow> kstate option" where
  "uwrite_words va [] s = Some s"
| "uwrite_words va (w # ws) s = do { s \<leftarrow> uwrite32 va w s; uwrite_words (va + 4) ws s }"

text \<open>The labels \<open>err\<close>, \<open>err1\<close> and \<open>err2\<close>.\<close>

definition spawn_err :: "ulib \<Rightarrow> Dev list \<Rightarrow> u32 \<Rightarrow> u32 \<Rightarrow> kstate \<Rightarrow> (u32 \<times> kstate) option" where
  "spawn_err u devtab fd r s = do { (_, s) \<leftarrow> close (mach u) devtab fd s; Some (r, s) }"

definition spawn_err1 :: "ulib \<Rightarrow> Dev list \<Rightarrow> u32 \<Rightarrow> u32 \<Rightarrow> u32 \<Rightarrow> kstate \<Rightarrow> (u32 \<times> kstate) option" where
  "spawn_err1 u devtab child fd r s =
     do { (_, s) \<leftarrow> sys u (ecall_env_destroy (mach u) child s); spawn_err u devtab fd r s }"

definition spawn_err2 :: "ulib \<Rightarrow> u32 \<Rightarrow> u32 \<Rightarrow> kstate \<Rightarrow> (u32 \<times> kstate) option" where
  "spawn_err2 u child r s = do { (_, s) \<leftarrow> sys u (ecall_env_destroy (mach u) child s); Some (r, s) }"

text \<open>From \<open>close(fd)\<close> on.\<close>

definition spawn_start :: "ulib \<Rightarrow> Dev list \<Rightarrow> u32 \<Rightarrow> u32 \<Rightarrow> u32 \<Rightarrow> u32 \<Rightarrow> u32 \<Rightarrow> kstate \<Rightarrow> (u32 \<times> kstate) option" where
  "spawn_start u devtab tfva fd child entrypoint sp s =
     do { (_, s) \<leftarrow> close (mach u) devtab fd s;
          let tf = set_reg 2 sp ((env_tf (envs s (unat (ENVX child))))\<lparr>sepc := entrypoint\<rparr>);
          s \<leftarrow> uwrite_words tfva (tf_words tf) s;
          (r, s) \<leftarrow> sys u (ecall_set_trapframe (mach u) child tfva s);
          (if r \<noteq> 0 then spawn_err2 u child r s
           else do { (r, s) \<leftarrow> share_pdes u child [0..<Suc (unat (PDX USTACKTOP))] s;
                     (if sint r < 0 then spawn_err2 u child r s
                      else do { (r, s) \<leftarrow> sys u (ecall_set_env_status (mach u) child ENV_RUNNABLE s);
                                (if sint r < 0 then spawn_err2 u child r s else Some (child, s)) }) }) }"

text \<open>
  \<open>child\<close> is unsigned, so the comparison of the result of \<open>exofork\<close> with 0 never fails, and the failures of
  \<open>init_stack\<close> and of the loop leave \<open>r\<close> at the number of bytes of the header.
\<close>

definition spawn :: "ulib \<Rightarrow> Dev list \<Rightarrow> u32 \<Rightarrow> u32 \<Rightarrow> u8 list \<Rightarrow> u8 list list \<Rightarrow> kstate \<Rightarrow> (u32 \<times> kstate) option" where
  "spawn u devtab elfbuf tfva prog argv s =
     do { name \<leftarrow> doWithCmdName prog;
          (fd, s) \<leftarrow> open_path u name 0 s;
          (if sint fd < 0 then Some (fd, s)
           else do {
             (r, s) \<leftarrow> readn devtab fd elfbuf sizeof_Ehdr s;
             (if r \<noteq> sizeof_Ehdr then spawn_err u devtab fd (- errno E_NOT_EXEC) s
              else do {
                (ehdr, s) \<leftarrow> get_hdr elfbuf s;
                (case elf_from ehdr elfbuf sizeof_Ehdr of
                   None \<Rightarrow> spawn_err u devtab fd (- errno E_NOT_EXEC) s
                 | Some _ \<Rightarrow>
                     do { (child, s) \<leftarrow> sys u (ecall_exofork (mach u) s);
                          ((q, sp), s) \<leftarrow> init_stack u child argv s;
                          (if q \<noteq> 0 then spawn_err1 u devtab child fd r s
                           else do {
                             (h, s) \<leftarrow> get_hdr elfbuf s;
                             (ok, s) \<leftarrow> load_segs u devtab elfbuf fd child 0 (e_phoff h elfbuf) s;
                             (if \<not> ok then spawn_err1 u devtab child fd r s
                              else spawn_start u devtab tfva fd child (e_entry ehdr elfbuf) sp s) }) }) }) }) }"

text \<open>The arguments of \<open>spawnl\<close> up to the null pointer, which has to fit into \<open>args[128]\<close>.\<close>

definition spawnl :: "ulib \<Rightarrow> Dev list \<Rightarrow> u32 \<Rightarrow> u32 \<Rightarrow> u8 list \<Rightarrow> u8 list list \<Rightarrow> kstate \<Rightarrow> (u32 \<times> kstate) option" where
  "spawnl u devtab elfbuf tfva prog args s =
     (if length args < 128 then spawn u devtab elfbuf tfva prog args s else None)"

end
