(* ===== verification/ForkProps.thy ===== *)
theory ForkProps
  imports Fork WindowSample
begin

text \<open>
  What \<open>fork\<close> and the copy-on-write handler promise: the child gets the address space of its parent, private
  pages are not writable by either of them, and a store fault gives its environment a copy of its own.
\<close>

section \<open>The parent's part of fork\<close>

lemma upd_env_kept [simp]:
  "pw (upd_env e f s) = pw s" "amap (upd_env e f s) = amap s" "as_inv (upd_env e f s) D xs = as_inv s D xs"
  "pw (s\<lparr>env_sched_list := h\<rparr>) = pw s" "amap (s\<lparr>env_sched_list := h\<rparr>) = amap s" "as_inv (s\<lparr>env_sched_list := h\<rparr>) D xs = as_inv s D xs"
  by (rule pmap_cong; simp)+

lemma forked_all: "forked (map of_nat [0..<unat (VPN USTACKTOP)]) va \<longleftrightarrow> UTEMP \<le> va \<and> va < USTACKTOP"
proof -
  have n: "unat (VPN USTACKTOP) = 0x7f3fe" by (simp add: VPN_def)
  have "VPN va \<in> of_nat ` {0..<0x7f3fe} \<longleftrightarrow> unat (VPN va) < 0x7f3fe"
  proof
    assume "VPN va \<in> of_nat ` {0..<0x7f3fe}"
    then obtain k where "VPN va = of_nat k" "k < 0x7f3fe" by auto
    then show "unat (VPN va) < 0x7f3fe" by (simp add: unat_of_nat)
  next
    assume "unat (VPN va) < 0x7f3fe"
    then show "VPN va \<in> of_nat ` {0..<0x7f3fe}" by (intro image_eqI [of _ _ "unat (VPN va)"]) auto
  qed
  then have "forked (map of_nat [0..<unat (VPN USTACKTOP)]) va \<longleftrightarrow> unat va div 4096 < 0x7f3fe \<and> \<not> is_illegal_va va"
    unfolding forked_def n set_map set_upt by (simp add: VPN_def unat_drop_bit32)
  also have "\<dots> \<longleftrightarrow> UTEMP \<le> va \<and> va < USTACKTOP"
    unfolding is_illegal_va_def word_le_nat_alt word_less_nat_alt by auto
  finally show ?thesis .
qed

lemma fork_numbers:
  "distinct (map of_nat [0..<unat (VPN USTACKTOP)] :: u32 list)"
  "\<forall>v \<in> set (map of_nat [0..<unat (VPN USTACKTOP)]). v < (0x7f400 :: u32)"
proof -
  have n: "unat (VPN USTACKTOP) = 0x7f3fe" by (simp add: VPN_def)
  have u: "unat (of_nat k :: u32) = k" if "k < 0x7f3fe" for k using that by (simp add: unat_of_nat)
  show "distinct (map of_nat [0..<unat (VPN USTACKTOP)] :: u32 list)"
    unfolding n distinct_map by (auto intro!: inj_onI) (metis u)
  show "\<forall>v \<in> set (map of_nat [0..<unat (VPN USTACKTOP)]). v < (0x7f400 :: u32)"
    unfolding n by (auto simp: word_less_nat_alt u)
qed

text \<open>The end of \<open>fork\<close>: the child gets the handler and joins the run queue.\<close>

lemma fork_release:
  assumes inv: "sched_inv s q" and c: "curenv s = Some c" "c < NENV" "may_act s c child"
    and st: "env_status (envs s (target c child)) = ENV_NOT_RUNNABLE"
  defines "e \<equiv> target c child"
  shows "\<exists>s'. returning (e_set_env_cow_entry child entry s) (\<lambda>_ s. returning (e_set_env_status child ENV_RUNNABLE s) (\<lambda>_ s. Some (child, s))) = Some (child, s') \<and>
    sched_inv s' (q @ [e]) \<and> amap s' = amap s \<and> (\<forall>D xs. as_inv s' D xs = as_inv s D xs) \<and>
    env_status (envs s' e) = ENV_RUNNABLE \<and> env_cow_entry (envs s' e) = entry \<and> (\<forall>x. x \<noteq> e \<longrightarrow> envs s' x = envs s x) \<and>
    pw s' = pw s \<and> curenv s' = curenv s \<and> cur_pgdir s' = cur_pgdir s \<and> (\<forall>x. env_pgdir (envs s' x) = env_pgdir (envs s x))"
proof -
  let ?s1 = "upd_env e (\<lambda>x. x\<lparr>env_cow_entry := entry\<rparr>) s"
  let ?f = "\<lambda>x. x\<lparr>env_status := ENV_RUNNABLE\<rparr>"
  let ?s' = "upd_env e ?f (?s1\<lparr>env_sched_list := TAILQ_INSERT_TAIL e (env_sched_list ?s1)\<rparr>)"
  have e: "e < NENV" "e \<notin> set q" using target_less [OF c(2)] inv st by (auto simp: e_def sched_inv_def)
  have "sched_inv ?s1 q" using inv by (auto simp: sched_inv_def upd_env_def)
  from sched_inv_join(1) [OF this e(2,1), of ?f] have "sched_inv ?s' (q @ [e])" by simp
  moreover have act: "may_act ?s1 c child" using c(3) by (auto simp: may_act_def)
  moreover have "e_set_env_cow_entry child entry s = Some (Returned 0, ?s1)"
    using c by (simp add: e_set_env_cow_entry_def with_env_check e_def)
  moreover have "e_set_env_status child ENV_RUNNABLE ?s1 = Some (Returned 0, ?s')"
    using c act st by (simp add: e_set_env_status_def with_env_check e_def)
  ultimately show ?thesis by (intro exI [of _ ?s']) simp
qed

lemma fork_parent_full:
  assumes ready: "fork_ready D c pd child cd s xs" and refs: "refs_room s pd (map of_nat [0..<unat (VPN USTACKTOP)])"
    and q: "sched_inv s q" "c < NENV" and ch: "may_act s c child" "env_status (envs s (target c child)) = ENV_NOT_RUNNABLE"
  shows "\<exists>s' ys. fork_parent mc entry child s = Some (child, s') \<and> as_inv s' D ys \<and>
    (\<forall>pd' \<in> D. \<forall>va. amap s' pd' va =
       (if (pd' = cd \<or> pd' = pd) \<and> UTEMP \<le> va \<and> va < USTACKTOP \<and> amap s pd va \<noteq> None
        then map_option dup_pte (amap s pd va) else amap s pd' va)) \<and>
    sched_inv s' (q @ [target c child]) \<and> env_status (envs s' (target c child)) = ENV_RUNNABLE \<and>
    env_cow_entry (envs s' (target c child)) = entry \<and> (\<forall>x. x \<noteq> target c child \<longrightarrow> envs s' x = envs s x) \<and>
    curenv s' = Some c \<and> owns_dir s' D c pd \<and> vpt_window s' pd \<and> parent_kept D pd s s' \<and> length xs \<le> length ys + missing s cd"
proof -
  from fork_loop_ok [OF ready fork_numbers refs, of mc] obtain s1 ys where
    s1: "fork_loop mc child (map of_nat [0..<unat (VPN USTACKTOP)]) s = Some s1" "fork_ready D c pd child cd s1 ys"
    "fork_kept D pd cd s xs s1 ys" "dup_maps D pd cd (map of_nat [0..<unat (VPN USTACKTOP)]) s s1" by blast
  have kept: "os_kept s s1" "parent_kept D pd s s1" "length xs + missing s1 cd \<le> length ys + missing s cd" using s1(3) by (auto simp: fork_kept_def)
  note k = os_kept_fields [OF kept(1)] and R = fork_readyD [OF s1(2)]
  have "sched_inv s1 q" using q(1) k(1,6) by (simp add: sched_inv_def)
  moreover have "may_act s1 c child" "env_status (envs s1 (target c child)) = ENV_NOT_RUNNABLE"
    using ch k(1) by (simp_all add: may_act_def)
  ultimately obtain s' where
    s': "returning (e_set_env_cow_entry child entry s1) (\<lambda>_ s. returning (e_set_env_status child ENV_RUNNABLE s) (\<lambda>_ s. Some (child, s))) = Some (child, s')"
    "sched_inv s' (q @ [target c child])" "amap s' = amap s1" "\<forall>D xs. as_inv s' D xs = as_inv s1 D xs"
    "env_status (envs s' (target c child)) = ENV_RUNNABLE" "env_cow_entry (envs s' (target c child)) = entry"
    "\<forall>x. x \<noteq> target c child \<longrightarrow> envs s' x = envs s1 x" "pw s' = pw s1" "curenv s' = curenv s1" "cur_pgdir s' = cur_pgdir s1"
    "\<forall>x. env_pgdir (envs s' x) = env_pgdir (envs s1 x)"
    using fork_release [OF _ R(2) q(2)] by blast
  have pt: "pt s' = pt s1" "tables s' = tables s1" using s'(8) by (simp_all add: pt_def tables_def fun_eq_iff)
  have "fork_parent mc entry child s = Some (child, s')" using s1(1) s'(1) by (simp add: fork_parent_def)
  moreover have "amap s' pd' va = (if (pd' = cd \<or> pd' = pd) \<and> UTEMP \<le> va \<and> va < USTACKTOP \<and> amap s pd va \<noteq> None
        then map_option dup_pte (amap s pd va) else amap s pd' va)" if "pd' \<in> D" for pd' va
    using dup_mapsD [OF s1(4) that, of va] s'(3) unfolding forked_all by simp
  moreover have "owns_dir s' D c pd" "curenv s' = Some c" using R(2,3) s'(9,11) by (simp_all add: owns_dir_def)
  moreover have "vpt_window s' pd" using R(6) unfolding vpt_window_def s'(3,8,10) pt .
  moreover have "parent_kept D pd s s'" using kept(2) s'(3,8) pt by (simp add: parent_kept_def)
  ultimately show ?thesis using s'(2,4-7) R(1) k(1) kept(3) by (intro exI [of _ s'] exI [of _ ys]) simp
qed

text \<open>
  C14 (fork_copies_address_space). \<open>fork\<close> in the parent, from the child that \<open>exofork\<close> made: it returns the child's identifier; in the
  range from \<open>UTEMP\<close> to the user stack every page of the parent is mapped in the child at the same address, with
  private writable pages turned copy-on-write in both; nothing else of any address space changes; the child
  has the handler and is at the end of the run queue. There must be a free page for each table the child
  lacks and no reference count near its end. (Stores of the program itself to its stack in between are not part of the model.)
\<close>

theorem fork_copies_address_space:
  assumes ready: "fork_ready D c pd child cd s xs" and refs: "refs_room s pd (map of_nat [0..<unat (VPN USTACKTOP)])"
    and q: "sched_inv s q" "c < NENV" and ch: "may_act s c child" "env_status (envs s (target c child)) = ENV_NOT_RUNNABLE"
  shows "\<exists>s' ys. fork_parent mc entry child s = Some (child, s') \<and> as_inv s' D ys \<and>
    (\<forall>pd' \<in> D. \<forall>va. amap s' pd' va =
       (if (pd' = cd \<or> pd' = pd) \<and> UTEMP \<le> va \<and> va < USTACKTOP \<and> amap s pd va \<noteq> None
        then map_option dup_pte (amap s pd va) else amap s pd' va)) \<and>
    sched_inv s' (q @ [target c child]) \<and> env_status (envs s' (target c child)) = ENV_RUNNABLE \<and>
    env_cow_entry (envs s' (target c child)) = entry \<and> (\<forall>x. x \<noteq> target c child \<longrightarrow> envs s' x = envs s x)"
  using fork_parent_full [OF assms, of mc entry] by blast

lemma w_missing: "missing wsample 6 = 0"
proof -
  have "pde_ok (pw wsample 6 i)" if "unat i < 509" for i using wdirs(2) [of i] that by simp
  then show ?thesis by (auto simp: missing_def)
qed

lemma w_target: "target 0 0x1001 = Suc 0" "may_act wsample 0 0x1001"
  by (simp_all add: target_def may_act_def ENVX_def sample_env_def)

lemma w_ready: "fork_ready {5, 6} 0 5 0x1001 6 wsample [7, 8, 9]"
  using w_as_inv w_window w_missing w_target by (simp add: fork_ready_def)

lemma w_refs: "refs_room wsample 5 (map of_nat [0..<unat (VPN USTACKTOP)])"
  unfolding refs_room_def
proof (intro ballI allI impI)
  let ?vs = "map of_nat [0..<unat (VPN USTACKTOP)] :: u32 list"
  fix v q assume "v \<in> set ?vs"
  have "set (filter (maps_to wsample 5 q) ?vs) \<subseteq> {0x400, 0x401, 0x7f3ff}"
  proof
    fix w assume w: "w \<in> set (filter (maps_to wsample 5 q) ?vs)"
    then have l: "w < 0x7f400" using fork_numbers(2) by auto
    show "w \<in> {0x400, 0x401, 0x7f3ff}" using w wuser [OF VPN_push(2) [OF l]] VPN_push(1) [OF l]
      by (auto simp: maps_to_def split: if_splits)
  qed
  then have "card (set (filter (maps_to wsample 5 q) ?vs)) \<le> card {0x400, 0x401, 0x7f3ff :: u32}" by (intro card_mono) auto
  moreover have "card {0x400, 0x401, 0x7f3ff :: u32} \<le> 3" by (simp add: card_insert_if)
  moreover have "length (filter (maps_to wsample 5 q) ?vs) = card (set (filter (maps_to wsample 5 q) ?vs))"
    using distinct_card [OF distinct_filter [OF fork_numbers(1)]] by simp
  ultimately show "unat (pp_ref wsample q) + length (filter (maps_to wsample 5 q) ?vs) < 0xffff" by (simp del: filter_map)
qed

theorem fork_copies_address_space_witness:
  "\<forall>mc. \<exists>s'. fork_parent mc 0x400100 0x1001 wsample = Some (0x1001, s') \<and> sched_inv s' [0, 1] \<and>
     amap wsample 5 0x400000 = Some (mk_pte 20 (PTE_R OR PTE_W OR PTE_U)) \<and>
     amap s' 5 0x400000 = Some (dup_pte (mk_pte 20 (PTE_R OR PTE_W OR PTE_U))) \<and> amap s' 6 0x400000 = amap s' 5 0x400000"
proof
  fix mc
  have st: "env_status (envs wsample (target 0 0x1001)) = ENV_NOT_RUNNABLE" using w_target by simp
  have m: "amap wsample 5 0x400000 = Some (mk_pte 20 (PTE_R OR PTE_W OR PTE_U))" using wuser [of "0x400000"] by (simp add: VPN_def)
  from fork_copies_address_space [OF w_ready w_refs w_sched _ w_target(2) st, of mc "0x400100"] obtain s' where
    s': "fork_parent mc 0x400100 0x1001 wsample = Some (0x1001, s')" "sched_inv s' ([0] @ [target 0 0x1001])"
    "\<forall>pd' \<in> {5, 6}. \<forall>va. amap s' pd' va =
       (if (pd' = 6 \<or> pd' = 5) \<and> UTEMP \<le> va \<and> va < USTACKTOP \<and> amap wsample 5 va \<noteq> None
        then map_option dup_pte (amap wsample 5 va) else amap wsample pd' va)" by auto
  then show "\<exists>s'. fork_parent mc 0x400100 0x1001 wsample = Some (0x1001, s') \<and> sched_inv s' [0, 1] \<and>
     amap wsample 5 0x400000 = Some (mk_pte 20 (PTE_R OR PTE_W OR PTE_U)) \<and>
     amap s' 5 0x400000 = Some (dup_pte (mk_pte 20 (PTE_R OR PTE_W OR PTE_U))) \<and> amap s' 6 0x400000 = amap s' 5 0x400000"
    using m w_target by (intro exI [of _ s']) simp
qed

lemma bit_flags: "bit PTE_COW n \<longleftrightarrow> n = 8" "bit PTE_W n \<longleftrightarrow> n = 2"
  unfolding flag_bits by (simp_all only: bit_push_bit_iff bit_1_iff) auto

lemma dup_pte_flags:
  "pte_page (dup_pte e) = pte_page e"
  "dup_pte e AND PTE_W \<noteq> 0 \<Longrightarrow> dup_pte e = e \<and> (e AND PTE_LIBRARY \<noteq> 0 \<or> e AND PTE_COW \<noteq> 0)"
  "e AND PTE_W \<noteq> 0 \<Longrightarrow> e AND PTE_LIBRARY = 0 \<Longrightarrow> dup_pte e AND PTE_COW \<noteq> 0"
proof -
  have b: "bit (dup_pte e) n \<longleftrightarrow> bit e n" if "n \<noteq> 2" "n \<noteq> 8" for n
    using that bit_imp_le_length [of e n] unfolding dup_pte_def
    by (auto simp only: bit_and_iff bit_or_iff bit_not_iff bit_flags possible_bit_word split: if_splits)
  have c: "bit (dup_pte e) 2 \<longleftrightarrow> bit e 2 \<and> (bit e 9 \<or> bit e 8)" "bit (dup_pte e) 8 \<longleftrightarrow> bit e 8 \<or> bit e 2 \<and> \<not> bit e 9"
    unfolding dup_pte_def flag_test by (auto simp only: bit_and_iff bit_or_iff bit_not_iff bit_flags possible_bit_word split: if_splits) simp_all
  have "PADDR (dup_pte e) = PADDR e" by (rule bit_word_eqI) (auto simp: bit_simps b)
  then show "pte_page (dup_pte e) = pte_page e" by (simp add: pte_page_def)
  show "dup_pte e AND PTE_W \<noteq> 0 \<Longrightarrow> dup_pte e = e \<and> (e AND PTE_LIBRARY \<noteq> 0 \<or> e AND PTE_COW \<noteq> 0)"
    unfolding flag_test c by (simp add: dup_pte_def flag_test)
  show "e AND PTE_W \<noteq> 0 \<Longrightarrow> e AND PTE_LIBRARY = 0 \<Longrightarrow> dup_pte e AND PTE_COW \<noteq> 0"
    unfolding flag_test c using flag_test(3) [of e] by auto
qed

section \<open>The copy-on-write handler\<close>
lemma pw_copy_page:
  assumes "f < NPAGES" "q < NPAGES" "p < NPAGES" "unat j < 1024"
  shows "pw (s\<lparr>kmem := mem_copy (kmem s) (page2addr f) (page2addr q) BY2PG\<rparr>) p j = (if p = f then pw s q j else pw s p j)"
proof -
  let ?m = "mem_copy (kmem s) (page2addr f) (page2addr q) BY2PG"
  have r: "in_range (page2addr f) BY2PG x \<longleftrightarrow> 0x80000000 + 4096 * f \<le> unat x \<and> unat x < 0x80000000 + 4096 * f + 4096" for x
    using in_range_unat [of "page2addr f" BY2PG x] unat_page2addr [OF assms(1)] assms(1) by simp
  have u: "unat (slot p j + of_nat k) = 0x80000000 + 4096 * p + 4 * unat j + k" if "k < 4" for k
    using unat_slot [OF assms(3,4)] unat_add_small [of "slot p j" k] that assms(3,4) by simp
  show ?thesis
  proof (cases "p = f")
    case True
    have "?m (slot p j + of_nat k) = kmem s (slot q j + of_nat k)" if "k < 4" for k
      using r [of "slot p j + of_nat k"] u [OF that] that True assms(4) by (simp add: mem_copy_def slot_def algebra_simps)
    from this [of 0] this [of 1] this [of 2] this [of 3] show ?thesis using True
      by (simp add: pw_def kload32_def load32_def)
  next
    case False
    have "?m (slot p j + of_nat k) = kmem s (slot p j + of_nat k)" if "k < 4" for k
    proof -
      have "\<not> in_range (page2addr f) BY2PG (slot p j + of_nat k)" using u [OF that] that False assms(4) by (auto simp: r)
      then show ?thesis by (simp add: mem_copy_def)
    qed
    from load32_cong [of ?m "slot p j" "kmem s", OF this] False show ?thesis by (simp add: pw_def kload32_def)
  qed
qed

lemma copy_page_ok:
  assumes inv: "as_inv s D xs" and cur: "cur_pgdir s = page2addr pd" and m: "amap s pd dst = Some d" "amap s pd src = Some e"
    and al: "dst AND 0xfff = 0" "src AND 0xfff = 0"
    and p: "pte_page d < NPAGES" "pte_page e < NPAGES" "pte_page d \<noteq> pte_page e" "pte_page d \<notin> tables s D"
  shows "\<exists>s'. copy_page dst src s = Some s' \<and> as_inv s' D xs \<and> os_kept s s' \<and> pp_ref s' = pp_ref s \<and>
    tables s' D = tables s D \<and> (\<forall>pd' \<in> D. \<forall>va. amap s' pd' va = amap s pd' va) \<and> (\<forall>q. uses s' D q = uses s D q) \<and>
    (\<forall>q j. q < NPAGES \<longrightarrow> unat j < 1024 \<longrightarrow> pw s' q j = (if q = pte_page d then pw s (pte_page e) j else pw s q j))"
proof -
  let ?m = "mem_copy (kmem s) (page2addr (pte_page d)) (page2addr (pte_page e)) BY2PG"
  let ?s = "s\<lparr>kmem := ?m\<rparr>"
  have t: "translate s dst = Some (page2addr (pte_page d))" "translate s src = Some (page2addr (pte_page e))"
    using translate_amap [OF cur] m al by simp_all
  have "copy_ok (page2addr (pte_page d)) (page2addr (pte_page e)) BY2PG"
    using p by (auto simp: copy_ok_def unat_page2addr)
  then have c: "copy_page dst src s = Some ?s" using t by (simp add: copy_page_def memcpy_copies)
  have pw: "pw ?s q j = (if q = pte_page d then pw s (pte_page e) j else pw s q j)" if "q < NPAGES" "unat j < 1024" for q j
    using pw_copy_page [OF p(1,2) that] .
  have "pw ?s q j = pw s q j" if "q \<in> tables s D" "unat j < 1024" for q j
    using pw [OF tables_less [OF inv that(1)] that(2)] that(1) p(4) by auto
  note ta = tables_agree [OF this]
  have "as_inv ?s D xs"
  proof (rule as_invI)
    show "pt ?s pd' i < NPAGES" "pt ?s pd' i \<notin> D" if "pd' \<in> D" "unat i < 1024" "pde_ok (pw ?s pd' i)" for pd' i
      using that ta(1,2) as_invD(7,8) [OF inv] by auto
    show "pd1 = pd2 \<and> i = j" if a: "pd1 \<in> D" "pd2 \<in> D" "unat i < 509" "unat j < 1024"
      "pde_ok (pw ?s pd1 i)" "pde_ok (pw ?s pd2 j)" "pt ?s pd1 i = pt ?s pd2 j" for pd1 pd2 i j
    proof -
      have "unat i < 1024" using a(3) by simp
      then show ?thesis using a ta(1,2) by (intro as_invD(9) [OF inv]) auto
    qed
    show "pte_page e < NPAGES" if "pd' \<in> D" "va' < UTOP" "amap ?s pd' va' = Some e" for pd' va' e
      using that ta(3) as_invD(10) [OF inv] by auto
    show "card (uses ?s D q) + (if q \<in> tables ?s D then 1 else 0) \<le> unat (pp_ref ?s q)" if "q < NPAGES" for q
      using as_invD(11) [OF inv that] ta(4,5) by simp
  qed (use as_invD [OF inv] in auto)
  then show ?thesis using c pw ta by (intro exI [of _ ?s]) (simp add: os_kept_def)
qed

lemma uload_tf_cong:
  assumes "\<And>i. i < 37 \<Longrightarrow> uload32 s' (a + 4 * of_nat i) = uload32 s (a + 4 * of_nat i)"
  shows "uload_tf s' a = uload_tf s a"
  using assms assms [of 32] assms [of 33] assms [of 34] assms [of 35] assms [of 36] unfolding uload_tf_def Let_def list_all_iff by (auto simp: fun_eq_iff)

lemma frame_address:
  assumes "i < 37"
  shows "(UXSTACKTOP - TF_SIZE + 4 * of_nat i) AND 3 = 0" "VPN (UXSTACKTOP - TF_SIZE + 4 * of_nat i) = 0x7f3ff"
proof -
  let ?a = "UXSTACKTOP - TF_SIZE + 4 * of_nat i :: u32"
  have u: "unat ?a = 0x7f3fff6c + 4 * i" using assms unat_add_small [of "0x7f3fff6c" "4 * i"] by simp
  have "?a AND 3 = take_bit 2 ?a" by (simp add: take_bit_eq_mask mask_eq_exp_minus_1)
  also have "unat \<dots> = unat ?a mod 4" by (simp only: unsigned_take_bit_eq) (simp add: take_bit_eq_mod)
  finally show "?a AND 3 = 0" using u by (simp add: word_unat_eq_iff)
  show "VPN ?a = 0x7f3ff" using u assms by (simp add: VPN_def word_unat_eq_iff unat_drop_bit32)
qed

lemma uload_tf_kept:
  assumes "cur_pgdir s = page2addr pd" "cur_pgdir s' = page2addr pd"
    and "amap s pd (UXSTACKTOP - TF_SIZE) = Some x" "amap s' pd (UXSTACKTOP - TF_SIZE) = Some x"
    and "\<And>j. unat j < 1024 \<Longrightarrow> pw s' (pte_page x) j = pw s (pte_page x) j"
  shows "uload_tf s' (UXSTACKTOP - TF_SIZE) = uload_tf s (UXSTACKTOP - TF_SIZE)"
proof (rule uload_tf_cong)
  fix i :: nat assume "i < 37"
  let ?a = "UXSTACKTOP - TF_SIZE + 4 * of_nat i"
  have v: "VPN ?a = VPN (UXSTACKTOP - TF_SIZE)" using frame_address(2) [OF \<open>i < 37\<close>] frame_address(2) [of 0] by simp
  have "unat (drop_bit 2 ?a AND 0x3ff) < 1024"
  proof -
    have "drop_bit 2 ?a AND 0x3ff \<le> 0x3ff" by (rule word_and_le1)
    then show ?thesis by (simp add: word_le_nat_alt)
  qed
  then show "uload32 s' ?a = uload32 s ?a"
    using uload32_amap [OF assms(1) frame_address(1) [OF \<open>i < 37\<close>]] uload32_amap [OF assms(2) frame_address(1) [OF \<open>i < 37\<close>]]
      amap_VPN [OF v, of s pd] amap_VPN [OF v, of s' pd] assms(3,4,5) by simp
qed

lemma single_user:
  assumes "as_inv s D xs" "q < NPAGES" "card (uses s D q) = unat (pp_ref s q)"
  shows "q \<notin> tables s D"
  using as_invD(11) [OF assms(1,2)] assms(3) by (auto split: if_splits)

lemma VPN_UCOW: "VPN UCOW = 0x3ff" "\<not> is_illegal_va UCOW"
  by (simp_all add: VPN_def is_illegal_va_def)

text \<open>The first half of the handler: a new page at \<open>UCOW\<close> with the contents of the shared page.\<close>

lemma cow_copy:
  assumes inv: "as_inv s D (f # xs)" and c: "curenv s = Some c" "owns_dir s D c pd" and w: "vpt_window s pd"
    and va: "\<not> is_illegal_va va" "VPN va \<noteq> VPN UCOW" and m: "amap s pd va = Some e" "pte_page e \<notin> tables s D"
    and u: "amap s pd UCOW = None" and perm: "perm_ok perm"
  shows "\<exists>s1 s2 ys. e_mem_alloc 0 UCOW perm s = Some (Returned 0, s1) \<and> copy_page UCOW (ROUNDDOWN va BY2PG) s1 = Some s2 \<and>
    as_inv s2 D ys \<and> os_kept s s2 \<and> data_kept D s s2 \<and> uses s D f = {} \<and> pp_ref s f = 0 \<and> f < NPAGES \<and> f \<notin> tables s2 D \<and>
    (\<forall>pd' \<in> D. \<forall>va'. amap s2 pd' va' = (if pd' = pd \<and> VPN va' = VPN UCOW then Some (mk_pte f perm) else amap s pd' va')) \<and>
    (\<forall>j. unat j < 1024 \<longrightarrow> pw s2 f j = pw s (pte_page e) j \<and> pde_ok (pw s2 pd j)) \<and> pp_ref s2 f = 1 \<and>
    (\<forall>q. pp_ref s q \<noteq> 0 \<longrightarrow> pp_ref s2 q = pp_ref s q)"
proof -
  let ?q = "pte_page e"
  have pd: "pd \<in> D" using c(2) by (simp add: owns_dir_def)
  have act: "may_act s c 0" "owns_dir s D (target c 0) pd" using c(2) by (simp_all add: may_act_def target_def)
  have f: "f < NPAGES" "pp_ref s f = 0" using as_invD(4,5) [OF inv] by auto
  note mr = mapped_ref [OF inv pd legal_va [OF va(1)] m(1)]
  from e_mem_alloc_full [OF inv c(1) act VPN_UCOW(2) perm] window_present [OF w unat_PDX_less] obtain s1 ys where
    s1: "e_mem_alloc 0 UCOW perm s = Some (Returned 0, s1)" "as_inv s1 D ys" "uses s D f = {}" "pp_ref s1 f = 1"
    "\<forall>pd' \<in> D. \<forall>va'. amap s1 pd' va' = (if pd' = pd \<and> VPN va' = VPN UCOW then Some (mk_pte f perm) else amap s pd' va')"
    "os_kept s s1" "data_kept D s s1" "dirs_step D pd (PDX UCOW) s s1"
    "\<forall>q. q \<notin> set (f # xs) \<longrightarrow> pp_ref s1 q = ref_after (map_option pte_page (amap s pd UCOW)) f s q" by blast
  have am: "amap s1 pd UCOW = Some (mk_pte f perm)" "amap s1 pd (ROUNDDOWN va BY2PG) = Some e"
    using s1(5) pd va(2) m(1) amap_VPN [OF VPN_ROUNDDOWN, of s pd va] by (simp_all add: VPN_ROUNDDOWN)
  have pf: "pte_page (mk_pte f perm) = f" using f(1) perm by (simp add: pte_page_mk_pte)
  have "uses s1 D f = {(pd, VPN UCOW)}"
    using uses_update [OF pd legal_va [OF VPN_UCOW(2)], of s1 "Some (mk_pte f perm)" s f] s1(3,5) pf by auto
  then have ft: "f \<notin> tables s1 D" using single_user [OF s1(2) f(1)] s1(4) by simp
  have ref: "pp_ref s1 q = pp_ref s q" if "pp_ref s q \<noteq> 0" for q
    using s1(9) u that as_invD(5) [OF inv] by (auto simp: ref_after_def)
  have cur: "cur_pgdir s1 = page2addr pd" using os_kept_fields(3) [OF s1(6)] w by (simp add: vpt_window_def)
  have al: "UCOW AND 0xfff = (0 :: u32)" "ROUNDDOWN va BY2PG AND 0xfff = 0"
    by (simp_all add: ROUNDDOWN_def and.assoc)
  have fq: "f \<noteq> ?q" using mr(1) f(2) by auto
  from copy_page_ok [OF s1(2) cur am al] pf f(1) mr(2) fq ft obtain s2 where
    s2: "copy_page UCOW (ROUNDDOWN va BY2PG) s1 = Some s2" "as_inv s2 D ys" "os_kept s1 s2" "pp_ref s2 = pp_ref s1"
    "tables s2 D = tables s1 D" "\<forall>pd' \<in> D. \<forall>va. amap s2 pd' va = amap s1 pd' va"
    "\<forall>q j. q < NPAGES \<longrightarrow> unat j < 1024 \<longrightarrow> pw s2 q j = (if q = f then pw s1 ?q j else pw s1 q j)" by auto
  have "data_kept D s s2" unfolding data_kept_def
  proof (intro allI impI)
    fix q assume q: "q < NPAGES" "q \<notin> tables s D" "pp_ref s q \<noteq> 0"
    have "q \<noteq> f" using q(3) f(2) by auto
    then show "q \<notin> tables s2 D \<and> (pp_ref s2 q \<noteq> 0 \<longrightarrow> (\<forall>j. unat j < 1024 \<longrightarrow> pw s2 q j = pw s q j))"
      using data_keptD [OF s1(7) q] s2(4,5,7) q(1) by simp
  qed
  moreover have "pw s2 f j = pw s ?q j \<and> pde_ok (pw s2 pd j)" if "unat j < 1024" for j
  proof -
    have "pp_ref s ?q \<noteq> 0" using mr(1) by auto
    then have "pw s1 ?q j = pw s ?q j" using data_keptD(2) [OF s1(7) mr(2) m(2)] ref that by simp
    moreover have "pw s1 pd j = pw s pd j" using dirs_step_keep [OF s1(8) pd that window_present [OF w that]] .
    moreover have "pd \<noteq> f" using ft dir_in_tables [OF pd, of s1] by auto
    ultimately show ?thesis using s2(7) f(1) as_invD(6) [OF inv pd] that window_present [OF w that] by simp
  qed
  moreover have "amap s2 pd' va' = (if pd' = pd \<and> VPN va' = VPN UCOW then Some (mk_pte f perm) else amap s pd' va')"
    if "pd' \<in> D" for pd' va' using s2(6) s1(5) that by simp
  ultimately show ?thesis using s1(1,3,4) s2(1,2,4,5) f ft ref os_kept_trans [OF s1(6) s2(3)]
    by (intro exI [of _ s1] exI [of _ s2] exI [of _ ys]) simp
qed

text \<open>The second half: the new page moves to the faulting address.\<close>

lemma cow_move:
  assumes inv: "as_inv s D ys" and c: "curenv s = Some c" "owns_dir s D c pd" and full: "\<And>j. unat j < 1024 \<Longrightarrow> pde_ok (pw s pd j)"
    and va: "\<not> is_illegal_va va" "VPN va \<noteq> VPN UCOW" and perm: "perm_ok perm"
    and u: "amap s pd UCOW = Some (mk_pte f perm)" and f: "f < NPAGES" "f \<notin> tables s D" "pp_ref s f = 1"
    and m: "amap s pd va = Some e" "pte_page e \<noteq> f"
  shows "\<exists>s1 s2 zs. e_mem_map 0 UCOW 0 va perm s = Some (Returned 0, s1) \<and> e_mem_unmap 0 UCOW s1 = Some (Returned 0, s2) \<and>
    as_inv s2 D zs \<and> os_kept s s2 \<and> data_kept D s s2 \<and> pp_ref s2 f = 1 \<and>
    (\<forall>pd' \<in> D. \<forall>va'. amap s2 pd' va' = (if pd' = pd \<and> VPN va' = VPN va then Some (mk_pte f perm)
       else if pd' = pd \<and> VPN va' = VPN UCOW then None else amap s pd' va')) \<and>
    (\<forall>j. unat j < 1024 \<longrightarrow> pw s2 f j = pw s f j)"
proof -
  have pd: "pd \<in> D" using c(2) by (simp add: owns_dir_def)
  have act: "may_act t c 0" "owns_dir s D (target c 0) pd" for t using c(2) by (simp_all add: may_act_def target_def)
  have pf: "pte_page (mk_pte f perm) = f" using f(1) perm by (simp add: pte_page_mk_pte)
  note fr = mapped_ref(3) [OF inv pd legal_va [OF VPN_UCOW(2)] u, unfolded pf]
  from e_mem_map_full [OF inv c(1) act act(2) VPN_UCOW(2) va(1) perm u] full [OF unat_PDX_less] f(3) obtain s1 zs where
    s1: "e_mem_map 0 UCOW 0 va perm s = Some (Returned 0, s1)" "as_inv s1 D zs" "os_kept s s1" "data_kept D s s1"
    "\<forall>pd' \<in> D. \<forall>va'. amap s1 pd' va' = (if pd' = pd \<and> VPN va' = VPN va then Some (mk_pte f perm) else amap s pd' va')"
    "\<forall>q. q \<notin> set ys \<longrightarrow> pp_ref s1 q = ref_after (map_option pte_page (amap s pd va)) f s q"
    unfolding pf by auto
  have r1: "pp_ref s1 f = 2" using s1(6) fr m f(3) by (simp add: ref_after_def)
  have c1: "curenv s1 = Some c" "owns_dir s1 D (target c 0) pd"
    using os_kept_fields(1,2) [OF s1(3)] c act(2) by (simp_all add: owns_dir_def)
  have u1: "amap s1 pd UCOW = Some (mk_pte f perm)" using s1(5) pd va(2) u by simp
  from e_mem_unmap_full [OF s1(2) c1(1) act(1) c1(2) VPN_UCOW(2) u1] obtain s2 where
    s2: "e_mem_unmap 0 UCOW s1 = Some (Returned 0, s2)" "as_inv s2 D zs" "os_kept s1 s2" "data_kept D s1 s2"
    "\<forall>pd' \<in> D. \<forall>va'. amap s2 pd' va' = (if pd' = pd \<and> VPN va' = VPN UCOW then None else amap s1 pd' va')"
    "pp_ref s2 = (pp_ref s1)(f := 1)" "tables s2 D = tables s1 D" using r1 unfolding pf by auto
  have "data_kept D s s2" unfolding data_kept_def
  proof (intro allI impI)
    fix q assume q: "q < NPAGES" "q \<notin> tables s D" "pp_ref s q \<noteq> 0"
    have "pp_ref s1 q \<noteq> 0" if "pp_ref s2 q \<noteq> 0" using that s2(6) r1 by (auto split: if_splits)
    then show "q \<notin> tables s2 D \<and> (pp_ref s2 q \<noteq> 0 \<longrightarrow> (\<forall>j. unat j < 1024 \<longrightarrow> pw s2 q j = pw s q j))"
      using data_keptD [OF s1(4) q] data_keptD(2) [OF s2(4) q(1)] s2(7) by simp
  qed
  moreover have "pw s2 f j = pw s f j" if "unat j < 1024" for j
    using data_keptD [OF s1(4) f(1,2)] data_keptD [OF s2(4) f(1)] f(3) r1 s2(6) that by simp
  moreover have "amap s2 pd' va' = (if pd' = pd \<and> VPN va' = VPN va then Some (mk_pte f perm)
       else if pd' = pd \<and> VPN va' = VPN UCOW then None else amap s pd' va')" if "pd' \<in> D" for pd' va'
    using s2(5) s1(5) that va(2) by auto
  ultimately show ?thesis using s1(1) s2(1,2,6) os_kept_trans [OF s1(3) s2(3)]
    by (intro exI [of _ s1] exI [of _ s2] exI [of _ zs]) simp
qed

lemma set_frame_pmap [simp]:
  "pw (set_frame a f s) = pw s" "amap (set_frame a f s) = amap s" "tables (set_frame a f s) = tables s"
  "as_inv (set_frame a f s) D xs = as_inv s D xs"
  by (rule pmap_cong; simp add: set_frame_def)+

lemma set_frame_ref [simp]: "pp_ref (set_frame a f s) = pp_ref s"
  by (simp add: set_frame_def)

text \<open>
  The trap with which the handler ends: \<open>e_set_trapframe\<close> installs the saved frame and returns its register 1, and the trap stores
  this result into \<open>a0\<close> of the frame just installed.
\<close>

lemma frame_kept [simp]:
  "uload_tf (set_frame a g s) = uload_tf s" "cur_pgdir (set_frame a g s) = cur_pgdir s"
proof -
  have "translate (set_frame a g s) = translate s" by (simp add: set_frame_def translate_def va2pa_def fun_eq_iff)
  then show "uload_tf (set_frame a g s) = uload_tf s"
    by (simp add: fun_eq_iff uload_tf_def uload32_def set_frame_def)
qed (simp add: set_frame_def)

lemma trap_own_trapframe:
  assumes "curenv s = Some c" "uload_tf s (UXSTACKTOP - TF_SIZE) = Some tf"
  shows "trap_ecall mc 12 0 (UXSTACKTOP - TF_SIZE) 0 0 0 s = Some (Returned (), set_frame (sscratch_csr s) (set_reg 10 (regs tf 1) tf) s)"
proof -
  have "\<not> is_illegal_va_range (UXSTACKTOP - TF_SIZE) TF_SIZE" by (simp add: is_illegal_va_range_def)
  then have "mecall mc 12 0 (UXSTACKTOP - TF_SIZE) 0 0 0 t = Some (Returned (regs tf 1), set_frame (sscratch_csr s) tf t)"
    if "t = set_frame a g (set_frame a' g' s)" for t a g a' g'
    using assms that frame_kept(1) [of a g "set_frame a' g' s"] frame_kept(1) [of a' g' s]
    by (simp del: frame_kept add: mecall_def ecall_def e_set_trapframe_def with_env_check may_act_def target_def set_frame_def)
  then show ?thesis by (simp add: trap_ecall_mecall enter_ecall_def Let_def) (simp add: set_frame_def)
qed

lemma cow_calls:
  assumes inv: "as_inv s D (f # xs)" and c: "curenv s = Some c" "owns_dir s D c pd" and w: "vpt_window s pd"
    and va: "\<not> is_illegal_va va" "VPN va \<noteq> VPN UCOW"
    and m: "amap s pd va = Some e" "pte_page e \<notin> tables s D" and u: "amap s pd UCOW = None"
  defines "perm \<equiv> ((e AND 0xc00003ff) AND NOT PTE_COW) OR PTE_W"
  shows "\<exists>s1 s2 s3 s4 zs. e_mem_alloc 0 UCOW perm s = Some (Returned 0, s1) \<and> copy_page UCOW (ROUNDDOWN va BY2PG) s1 = Some s2 \<and>
    e_mem_map 0 UCOW 0 va perm s2 = Some (Returned 0, s3) \<and> e_mem_unmap 0 UCOW s3 = Some (Returned 0, s4) \<and>
    as_inv s4 D zs \<and> os_kept s s4 \<and> data_kept D s s4 \<and> uses s D f = {} \<and> pp_ref s4 f = 1 \<and>
    (\<forall>pd' \<in> D. \<forall>va'. amap s4 pd' va' = (if pd' = pd \<and> VPN va' = VPN va then Some (mk_pte f perm) else amap s pd' va')) \<and>
    (\<forall>j. unat j < 1024 \<longrightarrow> pw s4 f j = pw s (pte_page e) j)"
proof -
  have pd: "pd \<in> D" using c(2) by (simp add: owns_dir_def)
  have perm: "perm_ok perm" unfolding perm_def by (intro perm_ok_or perm_ok_and perm_ok_masked perm_ok_flags)
  note mr = mapped_ref [OF inv pd legal_va [OF va(1)] m(1)]
  from cow_copy [OF inv c w va(1,2) m u perm] obtain s1 s2 ys where
    s2: "e_mem_alloc 0 UCOW perm s = Some (Returned 0, s1)" "copy_page UCOW (ROUNDDOWN va BY2PG) s1 = Some s2" "as_inv s2 D ys"
    "os_kept s s2" "data_kept D s s2" "uses s D f = {}" "pp_ref s f = 0" "f < NPAGES" "f \<notin> tables s2 D"
    "\<forall>pd' \<in> D. \<forall>va'. amap s2 pd' va' = (if pd' = pd \<and> VPN va' = VPN UCOW then Some (mk_pte f perm) else amap s pd' va')"
    "\<forall>j. unat j < 1024 \<longrightarrow> pw s2 f j = pw s (pte_page e) j \<and> pde_ok (pw s2 pd j)" "pp_ref s2 f = 1"
    "\<forall>q. pp_ref s q \<noteq> 0 \<longrightarrow> pp_ref s2 q = pp_ref s q" by blast
  note k2 = os_kept_fields [OF s2(4)]
  have c2: "curenv s2 = Some c" "owns_dir s2 D c pd" using k2(1,2) c by (simp_all add: owns_dir_def)
  have m2: "amap s2 pd UCOW = Some (mk_pte f perm)" "amap s2 pd va = Some e" "pte_page e \<noteq> f"
    using s2(7,10) pd va(2) m(1) mr(1) by auto
  from cow_move [OF s2(3) c2 _ va(1,2) perm m2(1) s2(8,9,12) m2(2,3)] s2(11) obtain s3 s4 zs where
    s4: "e_mem_map 0 UCOW 0 va perm s2 = Some (Returned 0, s3)" "e_mem_unmap 0 UCOW s3 = Some (Returned 0, s4)" "as_inv s4 D zs"
    "os_kept s2 s4" "data_kept D s2 s4" "pp_ref s4 f = 1" "\<forall>j. unat j < 1024 \<longrightarrow> pw s4 f j = pw s2 f j"
    "\<forall>pd' \<in> D. \<forall>va'. amap s4 pd' va' = (if pd' = pd \<and> VPN va' = VPN va then Some (mk_pte f perm)
       else if pd' = pd \<and> VPN va' = VPN UCOW then None else amap s2 pd' va')" by blast
  have am: "amap s4 pd' va' = (if pd' = pd \<and> VPN va' = VPN va then Some (mk_pte f perm) else amap s pd' va')" if "pd' \<in> D" for pd' va'
    using s4(8) s2(10) that u amap_VPN [of va' UCOW s pd] by auto
  have dk: "data_kept D s s4" unfolding data_kept_def
  proof (intro allI impI)
    fix q assume q: "q < NPAGES" "q \<notin> tables s D" "pp_ref s q \<noteq> 0"
    then show "q \<notin> tables s4 D \<and> (pp_ref s4 q \<noteq> 0 \<longrightarrow> (\<forall>j. unat j < 1024 \<longrightarrow> pw s4 q j = pw s q j))"
      using data_keptD [OF s2(5) q] data_keptD [OF s4(5) q(1)] s2(13) by simp
  qed
  show ?thesis
    using s2(1,2,6,11) s4(1,2,3,6,7) am dk os_kept_trans [OF s2(4) s4(4)]
    by (intro exI [of _ s1] exI [of _ s2] exI [of _ s3] exI [of _ s4] exI [of _ zs]) simp
qed

lemma cow_entry_ok:
  assumes inv: "as_inv s D (f # xs)" and c: "curenv s = Some c" "owns_dir s D c pd" and w: "vpt_window s pd"
    and va: "\<not> is_illegal_va va" "VPN va \<noteq> VPN UCOW" "VPN va \<noteq> VPN (UXSTACKTOP - TF_SIZE)"
    and m: "amap s pd va = Some e" "e AND PTE_COW \<noteq> 0" "pte_page e \<notin> tables s D" and u: "amap s pd UCOW = None"
    and x: "amap s pd (UXSTACKTOP - TF_SIZE) = Some x" "pte_page x \<notin> tables s D" "uload_tf s (UXSTACKTOP - TF_SIZE) = Some tf"
  shows "\<exists>s' ys. cow_entry mc va s = Some s' \<and> as_inv s' D ys \<and> uses s D f = {} \<and> pp_ref s' f = 1 \<and>
    (\<forall>pd' \<in> D. \<forall>va'. amap s' pd' va' = (if pd' = pd \<and> VPN va' = VPN va
       then Some (mk_pte f (((e AND 0xc00003ff) AND NOT PTE_COW) OR PTE_W)) else amap s pd' va')) \<and>
    (\<forall>j. unat j < 1024 \<longrightarrow> pw s' f j = pw s (pte_page e) j) \<and> data_kept D s s' \<and>
    envs s' = envs s \<and> cur_frame s' = set_reg 10 (regs tf 1) tf \<and> curenv s' = curenv s \<and> cur_pgdir s' = cur_pgdir s"
proof -
  let ?perm = "((e AND 0xc00003ff) AND NOT PTE_COW) OR PTE_W"
  have pd: "pd \<in> D" using c(2) by (simp add: owns_dir_def)
  from cow_calls [OF inv c w va(1,2) m(1,3) u] obtain s1 s2 s3 s4 zs where
    s2: "e_mem_alloc 0 UCOW ?perm s = Some (Returned 0, s1)" "copy_page UCOW (ROUNDDOWN va BY2PG) s1 = Some s2"
    and s4: "e_mem_map 0 UCOW 0 va ?perm s2 = Some (Returned 0, s3)" "e_mem_unmap 0 UCOW s3 = Some (Returned 0, s4)"
    and inv4: "as_inv s4 D zs" and k: "os_kept s s4" and dk: "data_kept D s s4" and f: "uses s D f = {}" "pp_ref s4 f = 1"
    and am: "\<forall>pd' \<in> D. \<forall>va'. amap s4 pd' va' = (if pd' = pd \<and> VPN va' = VPN va then Some (mk_pte f ?perm) else amap s pd' va')"
    and pw: "\<forall>j. unat j < 1024 \<longrightarrow> pw s4 f j = pw s (pte_page e) j" by blast
  have x4: "amap s4 pd (UXSTACKTOP - TF_SIZE) = Some x" using am pd va(3) x(1) by simp
  have cur: "cur_pgdir s = page2addr pd" "cur_pgdir s4 = page2addr pd"
    using w os_kept_fields(3) [OF k] by (simp_all add: vpt_window_def)
  have top: "UXSTACKTOP - TF_SIZE < UTOP" by simp
  have r: "pp_ref s (pte_page x) \<noteq> 0" "pp_ref s4 (pte_page x) \<noteq> 0"
    using mapped_ref(1) [OF inv pd top x(1)] mapped_ref(1) [OF inv4 pd top x4] by auto
  have "uload_tf s4 (UXSTACKTOP - TF_SIZE) = Some tf"
    using uload_tf_kept [OF cur x(1) x4 data_keptD(2) [OF dk mapped_ref(2) [OF inv pd top x(1)] x(2) r]] x(3) by simp
  note tf = trap_own_trapframe [OF _ this]
  let ?s = "set_frame (sscratch_csr s4) (set_reg 10 (regs tf 1) tf) s4"
  have "vpt (VPN va) s = Some (e, s)" using vpt_read [OF w legal_va [OF va(1)]] vpt_valid(2) [OF w m(1)] by simp
  moreover have "(e AND 0xc00003ff) AND PTE_COW \<noteq> 0" using m(2) unfolding flag_test bit_and_iff bit_perm_mask by simp
  ultimately have "cow_entry mc va s = Some ?s"
    using s2 s4 tf os_kept_fields(2) [OF k] c(1) by (simp add: cow_entry_def Let_def)
  moreover have "data_kept D s ?s" using dk by (simp add: data_kept_def)
  ultimately show ?thesis using inv4 am f pw os_kept_fields(1-3) [OF k]
    by (intro exI [of _ ?s] exI [of _ zs]) (simp add: cur_frame_def)
qed

text \<open>
  C16 (cow_private_copy). The handler of copy-on-write faults: when a store faults on a copy-on-write page, the program gets a page of
  its own with the contents of the shared one, mapped writable and no longer copy-on-write at the faulting
  address; nobody else's mapping changes and no page in use changes its contents. The program resumes with the trap
  frame that the kernel saved on the exception stack, except for \<open>a0\<close>: \<open>e_set_trapframe\<close> returns the saved \<open>ra\<close>, and
  the trap stores this result into \<open>a0\<close> of the frame.
\<close>

theorem cow_private_copy:
  assumes "as_inv s D (f # xs)" "curenv s = Some c" "owns_dir s D c pd" "vpt_window s pd"
    and "\<not> is_illegal_va va" "VPN va \<noteq> VPN UCOW" "VPN va \<noteq> VPN (UXSTACKTOP - TF_SIZE)"
    and "amap s pd va = Some e" "e AND PTE_COW \<noteq> 0" "pte_page e \<notin> tables s D" "amap s pd UCOW = None"
    and "amap s pd (UXSTACKTOP - TF_SIZE) = Some x" "pte_page x \<notin> tables s D" "uload_tf s (UXSTACKTOP - TF_SIZE) = Some tf"
  shows "\<exists>s' ys. cow_entry mc va s = Some s' \<and> as_inv s' D ys \<and> uses s D f = {} \<and> pp_ref s' f = 1 \<and>
    (\<forall>pd' \<in> D. \<forall>va'. amap s' pd' va' = (if pd' = pd \<and> VPN va' = VPN va
       then Some (mk_pte f (((e AND 0xc00003ff) AND NOT PTE_COW) OR PTE_W)) else amap s pd' va')) \<and>
    (\<forall>j. unat j < 1024 \<longrightarrow> pw s' f j = pw s (pte_page e) j) \<and> data_kept D s s' \<and>
    envs s' = envs s \<and> cur_frame s' = tf\<lparr>regs := (regs tf)(10 := regs tf 1)\<rparr>"
  using cow_entry_ok [OF assms, of mc] unfolding set_reg_def by blast

lemma frame_loads:
  assumes "cur_pgdir s = page2addr pd" "amap s pd (UXSTACKTOP - TF_SIZE) = Some x"
  shows "\<exists>tf. uload_tf s (UXSTACKTOP - TF_SIZE) = Some tf"
proof -
  have "uload32 s (UXSTACKTOP - TF_SIZE + 4 * of_nat i) \<noteq> None" if "i < 37" for i
  proof -
    have "VPN (UXSTACKTOP - TF_SIZE + 4 * of_nat i) = VPN (UXSTACKTOP - TF_SIZE)"
      using frame_address(2) [OF that] frame_address(2) [of 0] by simp
    from amap_VPN [OF this, of s pd] show ?thesis
      using uload32_amap [OF assms(1) frame_address(1) [OF that]] assms(2) by simp
  qed
  then have "list_all (\<lambda>i. uload32 s (UXSTACKTOP - TF_SIZE + 4 * of_nat i) \<noteq> None) [0..<37]" by (simp only: list_all_iff set_upt) auto
  then show ?thesis by (simp only: uload_tf_def Let_def if_True) blast
qed

theorem cow_private_copy_witness:
  "\<forall>mc. \<exists>s' ys. cow_entry mc 0x401000 wsample = Some s' \<and> as_inv s' {5, 6} ys \<and> pp_ref s' 7 = 1 \<and>
     amap s' 5 0x401000 = Some (mk_pte 7 ((mk_pte 21 (PTE_R OR PTE_U OR PTE_COW) AND 0xc00003ff) AND NOT PTE_COW OR PTE_W))"
proof
  fix mc
  let ?e = "mk_pte 21 (PTE_R OR PTE_U OR PTE_COW)" and ?x = "mk_pte 22 (PTE_R OR PTE_W OR PTE_U)"
  have v: "VPN 0x401000 = 0x401" "VPN (UXSTACKTOP - TF_SIZE) = 0x7f3ff" "\<not> is_illegal_va 0x401000"
    by (simp_all add: VPN_def is_illegal_va_def)
  have m: "amap wsample 5 0x401000 = Some ?e" "amap wsample 5 UCOW = None" "amap wsample 5 (UXSTACKTOP - TF_SIZE) = Some ?x"
    using wuser [of "0x401000"] wuser [of UCOW] wuser [of "UXSTACKTOP - TF_SIZE"] by (simp_all add: VPN_def)
  have "?e = 0x20005513" by (simp add: mk_pte_def page2ptx_def page2addr_def page2sft_def page2ppn_def)
  then have c: "?e AND PTE_COW \<noteq> 0" by simp
  have t: "pte_page ?e \<notin> tables wsample {5, 6}" "pte_page ?x \<notin> tables wsample {5, 6}"
    using w_tables [of 21] w_tables [of 22] w_entries by auto
  obtain tf where "uload_tf wsample (UXSTACKTOP - TF_SIZE) = Some tf" using frame_loads [OF _ m(3)] by auto
  from cow_private_copy [OF w_as_inv _ _ w_window v(3) _ _ m(1) c t(1) m(2,3) t(2) this, of 0 mc] v VPN_UCOW(1) obtain s' ys where
    "cow_entry mc 0x401000 wsample = Some s'" "as_inv s' {5, 6} ys" "pp_ref s' 7 = 1"
    "\<forall>pd' \<in> {5, 6}. \<forall>va'. amap s' pd' va' = (if pd' = 5 \<and> VPN va' = VPN 0x401000
       then Some (mk_pte 7 (((?e AND 0xc00003ff) AND NOT PTE_COW) OR PTE_W)) else amap wsample pd' va')" by auto
  then show "\<exists>s' ys. cow_entry mc 0x401000 wsample = Some s' \<and> as_inv s' {5, 6} ys \<and> pp_ref s' 7 = 1 \<and>
     amap s' 5 0x401000 = Some (mk_pte 7 ((mk_pte 21 (PTE_R OR PTE_U OR PTE_COW) AND 0xc00003ff) AND NOT PTE_COW OR PTE_W))"
    by (intro exI [of _ s'] exI [of _ ys]) simp
qed

end
