(* ===== verification/SpawnProps.thy ===== *)
theory SpawnProps
  imports UserRead Spawn ForkProps
begin

text \<open>
  The stack that \<open>init_stack\<close> prepares for a new program: what the parent writes at \<open>UTEMP\<close> is what the child finds
  at the top of its stack.
\<close>

section \<open>Runs of bytes\<close>

definition mput :: "mem \<Rightarrow> u32 \<Rightarrow> u8 list \<Rightarrow> mem" where
  "mput m a bs x = (if unat (x - a) < length bs then bs ! unat (x - a) else m x)"

definition word_bytes :: "u32 \<Rightarrow> u8 list" where
  "word_bytes v = [ucast v, ucast (drop_bit 8 v), ucast (drop_bit 16 v), ucast (drop_bit 24 v)]"

lemma unat_sub_of_nat:
  assumes "n < 2 ^ 32"
  shows "unat (x - (a + of_nat n) :: u32) = (if n \<le> unat (x - a) then unat (x - a) - n else unat (x - a) + 2 ^ 32 - n)"
proof -
  have "unat (of_nat n :: u32) = n" using assms by (rule unat_of_nat32)
  then show ?thesis unfolding diff_diff_eq [symmetric] by (simp add: unat_sub_if_size word_size)
qed

lemma mput_append:
  assumes "length xs + length ys < 2 ^ 32"
  shows "mput (mput m a xs) (a + of_nat (length xs)) ys = mput m a (xs @ ys)"
    "mput (mput m (a + of_nat (length xs)) ys) a xs = mput m a (xs @ ys)"
  using assms by (auto simp: fun_eq_iff mput_def nth_append unat_sub_of_nat)

lemma mput_at: "k < length bs \<Longrightarrow> k < 2 ^ 32 \<Longrightarrow> mput m a bs (a + of_nat k) = bs ! k"
  by (simp add: mput_def unat_of_nat32)

lemma mput_outside: "length bs \<le> unat (x - a) \<Longrightarrow> mput m a bs x = m x"
  by (simp add: mput_def)

lemma mput_Nil [simp]: "mput m a [] = m"
  by (simp add: mput_def fun_eq_iff)

lemma mput_single: "mput m a [b] = m(a := b)"
  by (auto simp: mput_def fun_eq_iff unat_eq_zero)

lemma mput_word: "mput m a (word_bytes v) = store32 m a v"
proof -
  have "mput m a (word_bytes v) = mput (mput (mput (mput m a [ucast v]) (a + 1) [ucast (drop_bit 8 v)]) (a + 2) [ucast (drop_bit 16 v)])
      (a + 3) [ucast (drop_bit 24 v)]"
    using mput_append(1) [of "[ucast v]" "[ucast (drop_bit 8 v)]" m a] mput_append(1) [of "[ucast v, ucast (drop_bit 8 v)]" "[ucast (drop_bit 16 v)]" m a]
      mput_append(1) [of "[ucast v, ucast (drop_bit 8 v), ucast (drop_bit 16 v)]" "[ucast (drop_bit 24 v)]" m a]
    by (simp add: word_bytes_def)
  then show ?thesis by (simp add: mput_single store32_def)
qed

lemma load32_mput:
  assumes "length xs + length ys < 2 ^ 31"
  shows "load32 (mput m a (xs @ word_bytes v @ ys)) (a + of_nat (length xs)) = v"
proof -
  define b where "b = a + of_nat (length xs)"
  have "mput m a (xs @ word_bytes v @ ys) = mput (mput m a xs) b (word_bytes v @ ys)"
    using assms mput_append(1) [of xs "word_bytes v @ ys" m a] by (simp add: word_bytes_def b_def)
  moreover have "\<dots> = mput (store32 (mput m a xs) b v) (b + of_nat 4) ys"
    using assms mput_append(1) [of "word_bytes v" ys "mput m a xs" b] by (simp add: mput_word) (simp add: word_bytes_def)
  moreover have "load32 (mput (store32 (mput m a xs) b v) (b + of_nat 4) ys) b = load32 (store32 (mput m a xs) b v) b"
  proof (rule load32_cong)
    fix k :: nat assume k: "k < 4"
    have "length ys \<le> unat (b + of_nat k - (b + of_nat 4))" using unat_sub_of_nat [of 4 "b + of_nat k" b] k assms by (simp add: unat_of_nat32)
    then show "mput (store32 (mput m a xs) b v) (b + of_nat 4) ys (b + of_nat k) = store32 (mput m a xs) b v (b + of_nat k)"
      by (rule mput_outside)
  qed
  ultimately show ?thesis by (simp add: b_def)
qed

section \<open>The page at UTEMP\<close>

text \<open>The parent with a writable page at \<open>UTEMP\<close>.\<close>

definition temp_page :: "nat set \<Rightarrow> nat \<Rightarrow> nat \<Rightarrow> u32 \<Rightarrow> kstate \<Rightarrow> nat list \<Rightarrow> bool" where
  "temp_page D c pd e s xs \<longleftrightarrow> proc D c pd s xs \<and> amap s pd UTEMP = Some e \<and> e AND PTE_W \<noteq> 0"

lemma page_addr:
  assumes v: "unat v mod 4096 = 0" and off: "off < 4096" and e: "amap s pd v = Some e" "pte_page e < NPAGES"
  shows "amap s pd (v + of_nat off) = Some e" "upa s pd (v + of_nat off) = page2addr (pte_page e) + of_nat off"
    "unat (v + of_nat off) = unat v + off"
proof -
  obtain q where q: "unat v = 4096 * q" using v by auto
  have "unat v < 2 ^ 32" using unsigned_less [of v] by simp
  then have "unat v + off < 2 ^ 32" using q off by simp
  then show u: "unat (v + of_nat off) = unat v + off" by (rule unat_add_small)
  have "(4096 * q + off) div 4096 = q" "(4096 * q + off) mod 4096 = off" using off by auto
  then have "VPN (v + of_nat off) = VPN v" using u q by (simp add: VPN_def word_unat_eq_iff unat_drop_bit32)
  then show a: "amap s pd (v + of_nat off) = Some e" using amap_VPN e(1) by metis
  have "unat (page2addr (pte_page e) + of_nat off) = 0x80000000 + 4096 * pte_page e + off"
    using unat_page2addr [OF e(2)] unat_add_small [of "page2addr (pte_page e)" off] e(2) off by simp
  then show "upa s pd (v + of_nat off) = page2addr (pte_page e) + of_nat off"
    using a page2addr_or [OF e(2), of "v + of_nat off"] u q off by (simp add: upa_def word_unat_eq_iff)
qed

lemma temp_pageD:
  assumes "temp_page D c pd e s xs"
  shows "proc D c pd s xs" "amap s pd UTEMP = Some e" "e AND PTE_W \<noteq> 0" "pte_page e < NPAGES" "pte_page e \<notin> tables s D"
proof -
  show p: "proc D c pd s xs" and a: "amap s pd UTEMP = Some e" and "e AND PTE_W \<noteq> 0" using assms by (simp_all add: temp_page_def)
  show "pte_page e < NPAGES" "pte_page e \<notin> tables s D" using mapped_ref(2) [OF procD(1,5) [OF p] _ a] procD(7) [OF p _ a] by simp_all
qed

lemma temp_put:
  assumes t: "temp_page D c pd e s xs" and off: "off + length bs \<le> 4096" and m: "m = mput (kmem s) (page2addr (pte_page e) + of_nat off) bs"
  shows "temp_page D c pd e (s\<lparr>kmem := m\<rparr>) xs" "d \<in> D \<Longrightarrow> amap (s\<lparr>kmem := m\<rparr>) d va = amap s d va" "tables (s\<lparr>kmem := m\<rparr>) D = tables s D"
proof -
  note T = temp_pageD [OF t]
  let ?B = "page2addr (pte_page e)" and ?A = "{a. 0x80000000 + 4096 * pte_page e \<le> unat a \<and> unat a < 0x80000000 + 4096 * pte_page e + 4096}"
  have B: "unat ?B = 0x80000000 + 4096 * pte_page e" by (rule unat_page2addr [OF T(4)])
  have "off_tables D s ?A" unfolding off_tables_def
  proof (intro ballI)
    fix q a assume qa: "q \<in> tables s D" "a \<in> ?A"
    then consider "q < pte_page e" | "pte_page e < q" using T(5) by (cases q "pte_page e" rule: linorder_cases) auto
    then show "unat a < 0x80000000 + 4096 * q \<or> 0x80000000 + 4096 * q + 4096 \<le> unat a"
      using qa(2) by cases auto
  qed
  moreover have "m a = kmem s a" if "a \<notin> ?A" for a
  proof -
    have "\<not> unat (a - (?B + of_nat off)) < length bs"
    proof
      assume k: "unat (a - (?B + of_nat off)) < length bs"
      define k where "k = unat (a - (?B + of_nat off))"
      have "a = ?B + of_nat (off + k)" unfolding k_def by simp
      moreover have "unat (?B + of_nat (off + k)) = unat ?B + (off + k)"
        using k off T(4) B by (intro unat_add_small) (simp add: k_def)
      ultimately show False using that B k off unfolding k_def by auto
    qed
    then show ?thesis by (simp add: m mput_def)
  qed
  ultimately have d': "proc D c pd (s\<lparr>kmem := m\<rparr>) xs" "\<And>d va. d \<in> D \<Longrightarrow> amap (s\<lparr>kmem := m\<rparr>) d va = amap s d va" "tables (s\<lparr>kmem := m\<rparr>) D = tables s D"
    using proc_data [OF T(1), of ?A m] by blast+
  show "temp_page D c pd e (s\<lparr>kmem := m\<rparr>) xs" using d' T procD(5) [OF T(1)] by (simp add: temp_page_def)
  show "d \<in> D \<Longrightarrow> amap (s\<lparr>kmem := m\<rparr>) d va = amap s d va" by (rule d'(2))
  show "tables (s\<lparr>kmem := m\<rparr>) D = tables s D" by (rule d'(3))
qed

lemma temp_write8:
  assumes t: "temp_page D c pd e s xs" and off: "off < 4096"
  shows "uwrite8 (UTEMP + of_nat off) b s = Some (s\<lparr>kmem := mput (kmem s) (page2addr (pte_page e) + of_nat off) [b]\<rparr>)"
proof -
  note T = temp_pageD [OF t]
  note a = page_addr [of UTEMP off s pd e, OF _ off T(2,4)]
  have "UTEMP + of_nat off < UTOP" using a(3) off by (simp add: word_less_nat_alt)
  then show ?thesis using proc_write8(1) [OF T(1) _ _ T(3), of "UTEMP + of_nat off" b] a by (simp add: mput_single)
qed

lemma temp_write32:
  assumes t: "temp_page D c pd e s xs" and off: "off < 4096"
  shows "uwrite32 (UTEMP + of_nat off) v s = Some (s\<lparr>kmem := mput (kmem s) (page2addr (pte_page e) + of_nat off) (word_bytes v)\<rparr>)"
proof -
  note T = temp_pageD [OF t]
  note a = page_addr [of UTEMP off s pd e, OF _ off T(2,4)] and P = procD [OF T(1)]
  show ?thesis using writable_amap [OF P(6)] T(3) translate_amap [OF P(6), of "UTEMP + of_nat off"] a
    by (simp add: uwrite32_def uwrite_def ustore32_def upa_def kstore32_def mput_word)
qed

lemma temp_bytes:
  assumes "temp_page D c pd e s xs" "off + length bs \<le> 4096"
  shows "put_bytes (UTEMP + of_nat off) bs s = Some (s\<lparr>kmem := mput (kmem s) (page2addr (pte_page e) + of_nat off) bs\<rparr>)"
  using assms
proof (induction bs arbitrary: off s)
  case (Cons b bs)
  let ?B = "page2addr (pte_page e)"
  let ?s = "s\<lparr>kmem := mput (kmem s) (?B + of_nat off) [b]\<rparr>"
  have "temp_page D c pd e ?s xs" by (rule temp_put(1) [OF Cons.prems(1) _ refl]) (use Cons.prems in simp)
  then have "put_bytes (UTEMP + of_nat (Suc off)) bs ?s = Some (?s\<lparr>kmem := mput (kmem ?s) (?B + of_nat (Suc off)) bs\<rparr>)"
    by (rule Cons.IH) (use Cons.prems in simp)
  moreover have "mput (mput (kmem s) (?B + of_nat off) [b]) (?B + of_nat (Suc off)) bs = mput (kmem s) (?B + of_nat off) (b # bs)"
    using mput_append(1) [of "[b]" bs "kmem s" "?B + of_nat off"] Cons.prems by (simp add: ac_simps)
  moreover have "UTEMP + of_nat off + 1 = UTEMP + of_nat (Suc off)" by simp
  ultimately show ?case using temp_write8 [OF Cons.prems(1), of off b] Cons.prems(2) by simp
qed simp

text \<open>The strings and the pointers one after the other.\<close>

definition flat :: "u8 list list \<Rightarrow> u8 list" where
  "flat argv = concat (map (\<lambda>a. a @ [0]) argv)"

fun ptrs :: "u32 \<Rightarrow> u8 list list \<Rightarrow> u32 list" where
  "ptrs c [] = [c - 1]"
| "ptrs c (a # argv) = c # ptrs (c + of_nat (length a) + 1) argv"

definition words :: "u32 list \<Rightarrow> u8 list" where
  "words ws = concat (map word_bytes ws)"

lemma flat_simps [simp]: "flat [] = []" "flat (a # argv) = a @ 0 # flat argv" "flat (xs @ ys) = flat xs @ flat ys"
  by (simp_all add: flat_def)

lemma words_simps [simp]: "words [] = []" "words (w # ws) = word_bytes w @ words ws" "words (xs @ ys) = words xs @ words ys"
  by (simp_all add: words_def)

lemma length_word_bytes [simp]: "length (word_bytes w) = 4"
  by (simp add: word_bytes_def)

lemma length_words [simp]: "length (words ws) = 4 * length ws"
  by (induction ws) simp_all

lemma length_flat: "length (flat argv) = (\<Sum>a\<leftarrow>argv. length a + 1)"
  by (induction argv) simp_all

lemma length_ptrs [simp]: "length (ptrs c argv) = Suc (length argv)"
  by (induction argv arbitrary: c) simp_all

lemma ptrs_nth: "i < length argv \<Longrightarrow> ptrs c argv ! i = c + of_nat (length (flat (take i argv)))"
proof (induction argv arbitrary: c i)
  case (Cons a argv)
  then show ?case by (cases i) (simp_all add: ac_simps)
qed simp

lemma flat_nth:
  assumes "i < length argv" "k \<le> length (argv ! i)"
  shows "flat argv ! (length (flat (take i argv)) + k) = (argv ! i @ [0]) ! k" "length (flat (take i argv)) + k < length (flat argv)"
proof -
  have "flat argv = flat (take i argv) @ (argv ! i @ [0]) @ flat (drop (Suc i) argv)"
    using arg_cong [OF id_take_nth_drop [OF assms(1)], of flat] by simp
  then show "flat argv ! (length (flat (take i argv)) + k) = (argv ! i @ [0]) ! k" "length (flat (take i argv)) + k < length (flat argv)"
    using assms(2) by (simp_all add: nth_append)
qed

lemma temp_strings:
  assumes "temp_page D c pd e s xs" "off + length (flat argv) \<le> 4096"
  shows "put_strings (UTEMP + of_nat off) argv s = Some (s\<lparr>kmem := mput (kmem s) (page2addr (pte_page e) + of_nat off) (flat argv)\<rparr>)"
  using assms
proof (induction argv arbitrary: off s)
  case (Cons a argv)
  let ?B = "page2addr (pte_page e)" and ?n = "length (a @ [0 :: u8])"
  let ?s = "s\<lparr>kmem := mput (kmem s) (?B + of_nat off) (a @ [0])\<rparr>"
  have "temp_page D c pd e ?s xs" by (rule temp_put(1) [OF Cons.prems(1) _ refl]) (use Cons.prems in simp)
  then have "put_strings (UTEMP + of_nat (off + ?n)) argv ?s = Some (?s\<lparr>kmem := mput (kmem ?s) (?B + of_nat (off + ?n)) (flat argv)\<rparr>)"
    by (rule Cons.IH) (use Cons.prems in simp)
  moreover have "mput (mput (kmem s) (?B + of_nat off) (a @ [0])) (?B + of_nat (off + ?n)) (flat argv) =
      mput (kmem s) (?B + of_nat off) ((a @ [0]) @ flat argv)"
    using mput_append(1) [of "a @ [0]" "flat argv" "kmem s" "?B + of_nat off"] Cons.prems by (simp add: ac_simps)
  moreover have "UTEMP + of_nat off + of_nat (length a) + 1 = UTEMP + of_nat (off + ?n)" by (simp add: ac_simps)
  ultimately show ?case using temp_bytes [OF Cons.prems(1), of off "a @ [0]"] Cons.prems(2) by simp
qed simp

lemma temp_args:
  assumes "temp_page D c pd e s xs" "off + 4 * (length argv + 1) \<le> 4096"
  shows "put_args (UTEMP + of_nat off) ct argv s = Some (s\<lparr>kmem := mput (kmem s) (page2addr (pte_page e) + of_nat off) (words (ptrs ct argv))\<rparr>)"
  using assms
proof (induction argv arbitrary: off s ct)
  case Nil
  then show ?case using temp_write32 [OF Nil(1), of off "ct - 1"] by simp
next
  case (Cons a argv)
  let ?B = "page2addr (pte_page e)"
  let ?s = "s\<lparr>kmem := mput (kmem s) (?B + of_nat off) (word_bytes ct)\<rparr>"
  have "temp_page D c pd e ?s xs" by (rule temp_put(1) [OF Cons.prems(1) _ refl]) (use Cons.prems in simp)
  then have "put_args (UTEMP + of_nat (off + 4)) (ct + of_nat (length a) + 1) argv ?s =
      Some (?s\<lparr>kmem := mput (kmem ?s) (?B + of_nat (off + 4)) (words (ptrs (ct + of_nat (length a) + 1) argv))\<rparr>)"
    by (rule Cons.IH) (use Cons.prems in simp)
  moreover have "mput (mput (kmem s) (?B + of_nat off) (word_bytes ct)) (?B + of_nat (off + 4)) (words ws) =
      mput (kmem s) (?B + of_nat off) (word_bytes ct @ words ws)" if "length ws \<le> 1024" for ws
    using mput_append(1) [of "word_bytes ct" "words ws" "kmem s" "?B + of_nat off"] that by (simp add: ac_simps)
  moreover have "UTEMP + of_nat off + 4 = UTEMP + of_nat (off + 4)" by simp
  ultimately show ?case using temp_write32 [OF Cons.prems(1), of off ct] Cons.prems(2) by simp
qed

section \<open>The image of the stack\<close>

abbreviation stack_page :: u32 where "stack_page \<equiv> 0x7f3fd000"

definition round4 :: "nat \<Rightarrow> nat" where
  "round4 n = (n + 3) div 4 * 4"

definition arg_words :: "u8 list list \<Rightarrow> nat" where
  "arg_words argv = 4096 - round4 (length (flat argv)) - 4 * (length argv + 3)"

definition arg_strings :: "u8 list list \<Rightarrow> nat" where
  "arg_strings argv = 4096 - length (flat argv)"

definition args_fit :: "u8 list list \<Rightarrow> bool" where
  "args_fit argv \<longleftrightarrow> round4 (length (flat argv)) + 4 * (length argv + 3) \<le> 4096"

definition stack_words :: "u8 list list \<Rightarrow> u32 list" where
  "stack_words argv = of_nat (length argv) # (stack_page + of_nat (arg_words argv + 8)) # ptrs (stack_page + of_nat (arg_strings argv)) argv"

definition stack_mem :: "nat \<Rightarrow> u8 list list \<Rightarrow> mem \<Rightarrow> mem" where
  "stack_mem q argv m =
     mput (mput m (page2addr q + of_nat (arg_strings argv)) (flat argv)) (page2addr q + of_nat (arg_words argv)) (words (stack_words argv))"

lemma ROUND4:
  assumes "unat a \<le> 0xfffffff0"
  shows "unat (ROUND a 4) = round4 (unat a)"
proof -
  have s: "unat (a + 3) = unat a + 3" using assms by (simp add: unat_word_ariths)
  have m: "(3 :: u32) = mask 2" by (simp add: mask_eq_exp_minus_1)
  have "Suc (Suc (n - 2)) = n" if "2 \<le> n" for n using that by simp
  then have "x AND NOT (mask 2) = push_bit 2 (drop_bit 2 x)" for x :: u32
    by (intro bit_word_eqI) (auto simp: bit_simps not_less)
  then have "ROUND a 4 = push_bit 2 (drop_bit 2 (a + 3))" unfolding ROUND_def by (simp add: m add_diff_eq [symmetric])
  moreover have "unat (drop_bit 2 (a + 3)) = (unat a + 3) div 4" by (simp add: unat_drop_bit32 s)
  moreover have "(unat a + 3) div 4 * 4 < 4294967296"
    using div_times_less_eq_dividend [of "unat a + 3" 4] assms by simp
  ultimately show ?thesis by (simp add: push_bit_eq_mult unat_word_ariths round4_def mult.commute)
qed

lemma args_fitD:
  assumes "args_fit argv"
  shows "length (flat argv) \<le> round4 (length (flat argv))" "round4 (length (flat argv)) \<le> 4096"
    "arg_words argv + 4 * (length argv + 3) + round4 (length (flat argv)) = 4096" "arg_strings argv + length (flat argv) = 4096"
    "arg_words argv + 4 * (length argv + 3) \<le> arg_strings argv"
proof -
  show r: "length (flat argv) \<le> round4 (length (flat argv))" unfolding round4_def by presburger
  show "round4 (length (flat argv)) \<le> 4096" "arg_words argv + 4 * (length argv + 3) + round4 (length (flat argv)) = 4096"
    "arg_strings argv + length (flat argv) = 4096" "arg_words argv + 4 * (length argv + 3) \<le> arg_strings argv"
    using assms r by (auto simp: args_fit_def arg_words_def arg_strings_def)
qed

lemma length_stack_words [simp]: "length (stack_words argv) = length argv + 3"
  by (simp add: stack_words_def)

lemma temp_writes:
  assumes t: "temp_page D c pd e s xs" and fit: "args_fit argv" and m: "m = stack_mem (pte_page e) argv (kmem s)"
  shows "do { s \<leftarrow> put_strings (UTEMP + of_nat (arg_strings argv)) argv s;
      s \<leftarrow> put_args (UTEMP + of_nat (arg_words argv + 8)) (stack_page + of_nat (arg_strings argv)) argv s;
      s \<leftarrow> uwrite32 (UTEMP + of_nat (arg_words argv + 4)) (stack_page + of_nat (arg_words argv + 8)) s;
      uwrite32 (UTEMP + of_nat (arg_words argv)) (of_nat (length argv)) s } = Some (s\<lparr>kmem := m\<rparr>)"
    "temp_page D c pd e (s\<lparr>kmem := m\<rparr>) xs" "\<And>d va. d \<in> D \<Longrightarrow> amap (s\<lparr>kmem := m\<rparr>) d va = amap s d va" "tables (s\<lparr>kmem := m\<rparr>) D = tables s D"
proof -
  let ?B = "page2addr (pte_page e)" and ?p = "arg_words argv" and ?ps = "ptrs (stack_page + of_nat (arg_strings argv)) argv"
  note f = args_fitD [OF fit]
  define m1 where "m1 = mput (kmem s) (?B + of_nat (arg_strings argv)) (flat argv)"
  define m2 where "m2 = mput m1 (?B + of_nat (?p + 8)) (words ?ps)"
  define m3 where "m3 = mput m2 (?B + of_nat (?p + 4)) (word_bytes (stack_page + of_nat (?p + 8)))"
  have s1: "temp_page D c pd e (s\<lparr>kmem := m1\<rparr>) xs" "\<And>d va. d \<in> D \<Longrightarrow> amap (s\<lparr>kmem := m1\<rparr>) d va = amap s d va" "tables (s\<lparr>kmem := m1\<rparr>) D = tables s D"
    using temp_put [OF t _ m1_def] f by simp_all
  have m2': "m2 = mput (kmem (s\<lparr>kmem := m1\<rparr>)) (?B + of_nat (?p + 8)) (words ?ps)" by (simp add: m2_def)
  have s2: "temp_page D c pd e (s\<lparr>kmem := m2\<rparr>) xs" "\<And>d va. d \<in> D \<Longrightarrow> amap (s\<lparr>kmem := m2\<rparr>) d va = amap s d va" "tables (s\<lparr>kmem := m2\<rparr>) D = tables s D"
    using temp_put [OF s1(1) _ m2'] s1 f by simp_all
  have m3': "m3 = mput (kmem (s\<lparr>kmem := m2\<rparr>)) (?B + of_nat (?p + 4)) (word_bytes (stack_page + of_nat (?p + 8)))" by (simp add: m3_def)
  have s3: "temp_page D c pd e (s\<lparr>kmem := m3\<rparr>) xs" "\<And>d va. d \<in> D \<Longrightarrow> amap (s\<lparr>kmem := m3\<rparr>) d va = amap s d va" "tables (s\<lparr>kmem := m3\<rparr>) D = tables s D"
    using temp_put [OF s2(1) _ m3'] s2 f by simp_all
  have "m3 = mput m1 (?B + of_nat (?p + 4)) (words ((stack_page + of_nat (?p + 8)) # ?ps))"
    using mput_append(2) [of "word_bytes (stack_page + of_nat (?p + 8))" "words ?ps" m1 "?B + of_nat (?p + 4)"] f
    by (simp add: m3_def m2_def ac_simps)
  then have m4: "m = mput (kmem (s\<lparr>kmem := m3\<rparr>)) (?B + of_nat ?p) (word_bytes (of_nat (length argv)))"
    using mput_append(2) [of "word_bytes (of_nat (length argv))" "words ((stack_page + of_nat (?p + 8)) # ?ps)" m1 "?B + of_nat ?p"] f
    by (simp add: m stack_mem_def stack_words_def m1_def ac_simps)
  show "temp_page D c pd e (s\<lparr>kmem := m\<rparr>) xs" "\<And>d va. d \<in> D \<Longrightarrow> amap (s\<lparr>kmem := m\<rparr>) d va = amap s d va" "tables (s\<lparr>kmem := m\<rparr>) D = tables s D"
    using temp_put [OF s3(1) _ m4] s3 f by simp_all
  have a1: "put_strings (UTEMP + of_nat (arg_strings argv)) argv s = Some (s\<lparr>kmem := m1\<rparr>)"
    using temp_strings [OF t, of "arg_strings argv" argv] f by (simp add: m1_def)
  have a2: "put_args (UTEMP + of_nat (?p + 8)) (stack_page + of_nat (arg_strings argv)) argv (s\<lparr>kmem := m1\<rparr>) = Some (s\<lparr>kmem := m2\<rparr>)"
    using temp_args [OF s1(1), of "?p + 8" argv] f by (simp add: m2_def)
  have a3: "uwrite32 (UTEMP + of_nat (?p + 4)) (stack_page + of_nat (?p + 8)) (s\<lparr>kmem := m2\<rparr>) = Some (s\<lparr>kmem := m3\<rparr>)"
    using temp_write32 [OF s2(1), of "?p + 4"] f by (simp add: m3_def)
  have a4: "uwrite32 (UTEMP + of_nat ?p) (of_nat (length argv)) (s\<lparr>kmem := m3\<rparr>) = Some (s\<lparr>kmem := m\<rparr>)"
    using temp_write32 [OF s3(1), of ?p] f by (simp add: m4)
  show "do { s \<leftarrow> put_strings (UTEMP + of_nat (arg_strings argv)) argv s;
      s \<leftarrow> put_args (UTEMP + of_nat (?p + 8)) (stack_page + of_nat (arg_strings argv)) argv s;
      s \<leftarrow> uwrite32 (UTEMP + of_nat (?p + 4)) (stack_page + of_nat (?p + 8)) s;
      uwrite32 (UTEMP + of_nat ?p) (of_nat (length argv)) s } = Some (s\<lparr>kmem := m\<rparr>)"
    by (simp only: a1 a2 a3 a4 Option.bind.bind_lunit)
qed

lemma load_words:
  assumes "i < length ws" "length ws \<le> 1024"
  shows "load32 (mput m a (words ws)) (a + of_nat (4 * i)) = ws ! i"
proof -
  have "words ws = words (take i ws) @ word_bytes (ws ! i) @ words (drop (Suc i) ws)"
    using arg_cong [OF id_take_nth_drop [OF assms(1)], of words] by simp
  then show ?thesis using load32_mput [of "words (take i ws)" "words (drop (Suc i) ws)" m a "ws ! i"] assms by simp
qed

lemma unat_same_base: "j < 2 ^ 32 \<Longrightarrow> k \<le> j \<Longrightarrow> unat (a + of_nat j - (a + of_nat k) :: u32) = j - k"
  by (simp add: of_nat_diff [symmetric] unat_of_nat32 del: of_nat_diff)

text \<open>What a page with the image means at \<open>stack_page\<close>.\<close>

definition uword :: "kstate \<Rightarrow> nat \<Rightarrow> u32 \<Rightarrow> u32" where
  "uword s pd va = load32 (kmem s) (upa s pd va)"

definition sees_args :: "kstate \<Rightarrow> nat \<Rightarrow> u32 \<Rightarrow> u8 list list \<Rightarrow> bool" where
  "sees_args s pd sp argv \<longleftrightarrow> uword s pd sp = of_nat (length argv) \<and> uword s pd (sp + 4) = sp + 8 \<and>
     (\<forall>i<length argv. \<forall>k\<le>length (argv ! i). ubyte s pd (uword s pd (sp + 8 + 4 * of_nat i) + of_nat k) = (argv ! i @ [0]) ! k)"

lemma image_seen:
  assumes fit: "args_fit argv" and e: "amap s pd stack_page = Some e" "pte_page e < NPAGES"
    and mem: "\<And>off. off < 4096 \<Longrightarrow> kmem s (page2addr (pte_page e) + of_nat off) = stack_mem (pte_page e) argv m (page2addr (pte_page e) + of_nat off)"
  shows "sees_args s pd (stack_page + of_nat (arg_words argv)) argv"
proof -
  let ?B = "page2addr (pte_page e)" and ?p = "arg_words argv"
  note f = args_fitD [OF fit] and at = page_addr [of stack_page _ s pd e, OF _ _ e]
  have w: "uword s pd (stack_page + of_nat (?p + 4 * i)) = stack_words argv ! i" if "i < length argv + 3" for i
  proof -
    have "uword s pd (stack_page + of_nat (?p + 4 * i)) = load32 (kmem s) (?B + of_nat (?p + 4 * i))"
      using at(2) [of "?p + 4 * i"] that f by (simp add: uword_def)
    also have "\<dots> = load32 (stack_mem (pte_page e) argv m) (?B + of_nat (?p + 4 * i))"
    proof (rule load32_cong)
      fix k :: nat assume "k < 4"
      then show "kmem s (?B + of_nat (?p + 4 * i) + of_nat k) = stack_mem (pte_page e) argv m (?B + of_nat (?p + 4 * i) + of_nat k)"
        using mem [of "?p + 4 * i + k"] that f by (simp add: add.assoc)
    qed
    also have "\<dots> = stack_words argv ! i"
      unfolding stack_mem_def using load_words [of i "stack_words argv" _ "?B + of_nat ?p"] that f by (simp add: add.assoc)
    finally show ?thesis .
  qed
  have b: "ubyte s pd (stack_page + of_nat (arg_strings argv + j)) = flat argv ! j" if j: "j < length (flat argv)" for j
  proof -
    have "ubyte s pd (stack_page + of_nat (arg_strings argv + j)) = stack_mem (pte_page e) argv m (?B + of_nat (arg_strings argv + j))"
      using at(2) [of "arg_strings argv + j"] mem [of "arg_strings argv + j"] j f by (simp add: ubyte_def)
    also have "\<dots> = mput m (?B + of_nat (arg_strings argv)) (flat argv) (?B + of_nat (arg_strings argv + j))"
      unfolding stack_mem_def using unat_same_base [of "arg_strings argv + j" ?p ?B] j f by (intro mput_outside) simp
    also have "\<dots> = flat argv ! j" using mput_at [of j "flat argv" m "?B + of_nat (arg_strings argv)"] j f by (simp add: add.assoc)
    finally show ?thesis .
  qed
  have "ubyte s pd (uword s pd (stack_page + of_nat ?p + 8 + 4 * of_nat i) + of_nat k) = (argv ! i @ [0]) ! k"
    if i: "i < length argv" "k \<le> length (argv ! i)" for i k
  proof -
    have "uword s pd (stack_page + of_nat ?p + 8 + 4 * of_nat i) = stack_page + of_nat (arg_strings argv) + of_nat (length (flat (take i argv)))"
      using w [of "i + 2"] ptrs_nth [OF i(1), of "stack_page + of_nat (arg_strings argv)"] i(1) by (simp add: stack_words_def ac_simps)
    then show ?thesis using b [OF flat_nth(2) [OF i]] flat_nth(1) [OF i] by (simp add: ac_simps)
  qed
  then show ?thesis using w [of 0] w [of 1] by (simp add: sees_args_def stack_words_def ac_simps)
qed

section \<open>Preparing the stack\<close>

lemma arg_addresses:
  assumes fit: "args_fit argv"
  defines "tot \<equiv> of_nat (\<Sum>a\<leftarrow>argv. length a + 1) :: u32" and "argc \<equiv> of_nat (length argv) :: u32"
  shows "\<not> BY2PG < ROUND tot 4 + 4 * (argc + 3)" "UTEMP + BY2PG - tot = UTEMP + of_nat (arg_strings argv)"
    "UTEMP + BY2PG - ROUND tot 4 - 4 * (argc + 1) = UTEMP + of_nat (arg_words argv + 8)"
proof -
  note f = args_fitD [OF fit]
  have tot: "tot = of_nat (length (flat argv))" by (simp add: tot_def length_flat)
  have "unat tot = length (flat argv)" unfolding tot using f by (simp add: unat_of_nat32)
  then have r: "ROUND tot 4 = of_nat (round4 (length (flat argv)))"
    using ROUND4 [of tot] f by (simp add: word_unat_eq_iff unat_of_nat32)
  have "of_nat (arg_strings argv) + tot = (4096 :: u32)" using arg_cong [OF f(4), of "of_nat :: nat \<Rightarrow> u32"] by (simp add: tot)
  then show "UTEMP + BY2PG - tot = UTEMP + of_nat (arg_strings argv)" by (simp add: algebra_simps)
  have w: "of_nat (arg_words argv) + 4 * (argc + 3) + ROUND tot 4 = (4096 :: u32)"
    using arg_cong [OF f(3), of "of_nat :: nat \<Rightarrow> u32"] by (simp add: r argc_def algebra_simps)
  then have "(4096 :: u32) - ROUND tot 4 - 4 * (argc + 3) = of_nat (arg_words argv)" by (simp add: algebra_simps)
  then show "UTEMP + BY2PG - ROUND tot 4 - 4 * (argc + 1) = UTEMP + of_nat (arg_words argv + 8)" by (simp add: algebra_simps)
  have "ROUND tot 4 + 4 * (argc + 3) = of_nat (round4 (length (flat argv)) + 4 * (length argv + 3))" by (simp add: r argc_def)
  moreover have "unat \<dots> = round4 (length (flat argv)) + 4 * (length argv + 3)" using f by (intro unat_of_nat32) simp
  ultimately have u: "unat (ROUND tot 4 + 4 * (argc + 3)) = round4 (length (flat argv)) + 4 * (length argv + 3)" by (simp only:)
  have c: "unat BY2PG = 4096" by simp
  show "\<not> BY2PG < ROUND tot 4 + 4 * (argc + 3)" unfolding word_less_nat_alt u c using f by linarith
qed

lemma sys_simps [simp]: "sys u (Some (Returned v, s)) = Some (v, s)"
  by (simp add: sys_def)

lemma init_stack_calls:
  assumes fit: "args_fit argv"
    and a: "e_mem_alloc 0 UTEMP (PTE_R OR PTE_W OR PTE_U) s = Some (Returned 0, s1)"
    and w: "do { s \<leftarrow> put_strings (UTEMP + of_nat (arg_strings argv)) argv s1;
      s \<leftarrow> put_args (UTEMP + of_nat (arg_words argv + 8)) (stack_page + of_nat (arg_strings argv)) argv s;
      s \<leftarrow> uwrite32 (UTEMP + of_nat (arg_words argv + 4)) (stack_page + of_nat (arg_words argv + 8)) s;
      uwrite32 (UTEMP + of_nat (arg_words argv)) (of_nat (length argv)) s } = Some s2"
    and m: "e_mem_map 0 UTEMP child stack_page (PTE_R OR PTE_W OR PTE_U) s2 = Some (Returned 0, s3)"
    and d: "e_mem_unmap 0 UTEMP s3 = Some (Returned 0, s4)"
  shows "init_stack u child argv s = Some ((0, stack_page + of_nat (arg_words argv)), s4)"
proof -
  have n: "USTACKTOP - UTEMP - BY2PG + (UTEMP + x) = stack_page + x" "USTACKTOP - BY2PG = stack_page" for x by simp_all
  have k: "UTEMP + of_nat (arg_words argv + 8) - 4 = UTEMP + of_nat (arg_words argv + 4)"
    "UTEMP + of_nat (arg_words argv + 8) - 8 = UTEMP + of_nat (arg_words argv)" by simp_all
  from w obtain t1 t2 t3 where
    "put_strings (UTEMP + of_nat (arg_strings argv)) argv s1 = Some t1"
    "put_args (UTEMP + of_nat (arg_words argv + 8)) (stack_page + of_nat (arg_strings argv)) argv t1 = Some t2"
    "uwrite32 (UTEMP + of_nat (arg_words argv + 4)) (stack_page + of_nat (arg_words argv + 8)) t2 = Some t3"
    "uwrite32 (UTEMP + of_nat (arg_words argv)) (of_nat (length argv)) t3 = Some s2"
    unfolding bind_eq_Some_conv by (elim exE conjE) (rule that)
  note t = this
  show ?thesis
    unfolding init_stack_def Let_def arg_addresses(2,3) [OF fit] stubs if_not_P [OF arg_addresses(1) [OF fit]] a sys_simps
    unfolding n k Option.bind.bind_lunit prod.case t m d sys_simps
    by simp
qed

lemma page_bytes_copy:
  assumes "\<And>j. unat j < 1024 \<Longrightarrow> pw s' p j = pw s q j" "off < 4096"
  shows "kmem s' (page2addr p + of_nat off) = kmem s (page2addr q + of_nat off)"
proof -
  obtain j k where jk: "off = 4 * j + k" "j < 1024" "k < 4"
    using assms(2) by (intro that [of "off div 4" "off mod 4"]) simp_all
  have j: "unat (of_nat j :: u32) = j" using jk by (intro unat_of_nat32) simp
  define a b where "a = slot p (of_nat j)" and "b = slot q (of_nat j)"
  have "load32 (kmem s') a = load32 (kmem s) b" using assms(1) [of "of_nat j"] j jk(2) by (simp add: pw_def kload32_def a_def b_def)
  then have "kmem s' (a + of_nat i) = kmem s (b + of_nat i)" if "i \<in> {0, 1, 2, 3}" for i
    using that load32_bytes(1) [of "kmem s'" a] load32_bytes(1) [of "kmem s" b] load32_bytes(2) [of "kmem s'" a] load32_bytes(2) [of "kmem s" b]
      load32_bytes(3) [of "kmem s'" a] load32_bytes(3) [of "kmem s" b] load32_bytes(4) [of "kmem s'" a] load32_bytes(4) [of "kmem s" b] by auto
  moreover have "page2addr p + of_nat off = a + of_nat k" "page2addr q + of_nat off = b + of_nat k"
    by (simp_all add: a_def b_def slot_def jk(1) algebra_simps)
  moreover have "k \<in> {0, 1, 2, 3}" using jk(3) by auto
  ultimately show ?thesis by simp
qed

lemma page_bytes:
  assumes "q < NPAGES" "\<And>j. unat j < 1024 \<Longrightarrow> pw s' q j = pw s q j" "off < 4096"
  shows "kmem s' (page2addr q + of_nat off) = kmem s (page2addr q + of_nat off)"
  by (rule page_bytes_copy [OF assms(2,3)])

lemma init_stack_ok:
  assumes p: "proc D c pd s xs" and len: "2 \<le> length xs" and child: "owns_dir s D (target c child) pc" and ne: "pc \<noteq> pd"
    and fit: "args_fit argv"
  shows "\<exists>s' ys f. init_stack u child argv s = Some ((0, stack_page + of_nat (arg_words argv)), s') \<and> as_inv s' D ys \<and> os_kept s s' \<and>
    f < NPAGES \<and> pp_ref s f = 0 \<and> (\<forall>d \<in> D. \<forall>va. amap s' d va =
       (if d = pd \<and> VPN va = VPN UTEMP then None
        else if d = pc \<and> VPN va = VPN stack_page then Some (mk_pte f (PTE_R OR PTE_W OR PTE_U)) else amap s d va)) \<and>
    sees_args s' pc (stack_page + of_nat (arg_words argv)) argv"
proof -
  let ?perm = "PTE_R OR PTE_W OR PTE_U"
  have perm: "perm_ok ?perm" by (rule w_perms)
  have va: "\<not> is_illegal_va UTEMP" "\<not> is_illegal_va stack_page" by (simp_all add: is_illegal_va_def)
  obtain f zs where xs: "xs = f # zs" "zs \<noteq> []" using len by (cases xs; cases "tl xs") auto
  define e where "e = mk_pte f ?perm"
  from proc_alloc [OF p [unfolded xs(1)] va(1) perm] obtain s1 ys where
    s1: "e_mem_alloc 0 UTEMP ?perm s = Some (Returned 0, s1)" "proc D c pd s1 ys" "remaps D pd UTEMP (Some e) s s1"
    "length zs \<le> length ys" "f < NPAGES" "pp_ref s f = 0" "pp_ref s1 f = 1" unfolding e_def by blast
  have e: "pte_page e = f" "e AND PTE_W \<noteq> 0" unfolding e_def using pte_page_mk_pte [OF s1(5) perm] mk_pte_W [of ?perm f] by simp_all
  note P = procD [OF p] and am1 = remapsD(4) [OF s1(3)]
  have "temp_page D c pd e s1 ys" using s1(2) am1 [OF P(5), of UTEMP] e by (simp add: temp_page_def)
  note W = temp_writes [OF this fit refl]
  define s2 where "s2 = s1\<lparr>kmem := stack_mem f argv (kmem s1)\<rparr>"
  note W = W [unfolded e(1), folded s2_def] and T = temp_pageD [OF W(2)]
  have k2: "os_kept s s2" using remapsD(1) [OF s1(3)] by (simp add: os_kept_def s2_def)
  have o2: "owns_dir s2 D (target c child) pc" using child os_kept_fields(1) [OF k2] by (simp add: owns_dir_def)
  have r2: "pp_ref s2 f \<noteq> 0xffff" "pp_ref s2 f \<noteq> 0" using s1(7) by (simp_all add: s2_def)
  from e_mem_map_full [OF procD(1,2) [OF T(1)] proc_self [OF T(1)] o2 va perm T(2)] r2(1) e(1) s1(4) xs(2) obtain s3 zs3 where
    s3: "e_mem_map 0 UTEMP child stack_page ?perm s2 = Some (Returned 0, s3)" "as_inv s3 D zs3"
    "\<forall>d \<in> D. \<forall>va. amap s3 d va = (if d = pc \<and> VPN va = VPN stack_page then Some (mk_pte (pte_page e) ?perm) else amap s2 d va)"
    "os_kept s2 s3" "data_kept D s2 s3" by fastforce
  have pc: "pc \<in> D" using child by (simp add: owns_dir_def)
  have u3: "amap s3 pd UTEMP = Some e" using s3(3) P(5) ne T(2) by simp
  have o3: "owns_dir s3 D (target c 0) pd" "curenv s3 = Some c" "may_act s3 c 0"
    using proc_self [OF T(1)] procD(2) [OF T(1)] os_kept_fields(1,2) [OF s3(4)] by (simp_all add: owns_dir_def may_act_def)
  from e_mem_unmap_full [OF s3(2) o3(2,3,1) va(1) u3] obtain s4 zs4 where
    s4: "e_mem_unmap 0 UTEMP s3 = Some (Returned 0, s4)" "as_inv s4 D zs4"
    "\<forall>d \<in> D. \<forall>va. amap s4 d va = (if d = pd \<and> VPN va = VPN UTEMP then None else amap s3 d va)" "os_kept s3 s4" "data_kept D s3 s4" by blast
  have am: "amap s4 d va = (if d = pd \<and> VPN va = VPN UTEMP then None
      else if d = pc \<and> VPN va = VPN stack_page then Some e else amap s d va)" if "d \<in> D" for d va
  proof -
    have a3: "amap s3 d va = (if d = pc \<and> VPN va = VPN stack_page then Some e else amap s1 d va)"
      using s3(3) [unfolded e(1), folded e_def] W(3) [OF that] that by simp
    have a4: "amap s4 d va = (if d = pd \<and> VPN va = VPN UTEMP then None else amap s3 d va)" using s4(3) that by blast
    show ?thesis unfolding a4 a3 am1 [OF that] by auto
  qed
  have c4: "amap s4 pc stack_page = Some e" using am [OF pc, of stack_page] ne by simp
  have "pp_ref s3 f \<noteq> 0" using mapped_ref(1) [OF s3(2) P(5) _ u3] e(1) by auto
  moreover have "pp_ref s4 f \<noteq> 0" using mapped_ref(1) [OF s4(2) pc _ c4] e(1) by auto
  moreover note T5 = T(5) [unfolded e(1)]
  ultimately have pw: "pw s4 f j = pw s2 f j" if "unat j < 1024" for j
    using data_keptD [OF s3(5) s1(5) T5 r2(2)] data_keptD [OF s4(5) s1(5)] that by simp
  have "sees_args s4 pc (stack_page + of_nat (arg_words argv)) argv"
  proof (rule image_seen [OF fit c4])
    show "pte_page e < NPAGES" using s1(5) e(1) by simp
    show "kmem s4 (page2addr (pte_page e) + of_nat off) = stack_mem (pte_page e) argv (kmem s1) (page2addr (pte_page e) + of_nat off)"
      if "off < 4096" for off using page_bytes [OF s1(5) pw that] e(1) by (simp add: s2_def)
  qed
  moreover have "os_kept s s4" using k2 s3(4) s4(4) by (simp add: os_kept_def)
  moreover have "init_stack u child argv s = Some ((0, stack_page + of_nat (arg_words argv)), s4)"
    by (rule init_stack_calls [OF fit s1(1) W(1) s3(1) s4(1)])
  ultimately show ?thesis using s4(2) s1(5,6) am unfolding e_def by blast
qed

section \<open>Properties\<close>

text \<open>
  C17 (init_stack_arguments). The arguments of a new program. When the strings and the pointers fit into a page, \<open>init_stack\<close> succeeds: the
  child has a fresh writable page at the top of its stack, the parent's page at \<open>UTEMP\<close> is unmapped, no other
  mapping of any environment changes, and at the returned stack pointer the child finds the number of arguments, the
  address of the array behind it, and in the array the addresses of copies of the strings, each with its NUL. When
  they do not fit, it fails with \<open>E_NO_MEM\<close> and changes nothing.
\<close>

theorem init_stack_arguments:
  assumes "proc D c pd s xs" "2 \<le> length xs" "owns_dir s D (target c child) pc" "pc \<noteq> pd" "length (flat argv) + 4 * length argv < 2 ^ 31"
  shows "if args_fit argv
    then \<exists>sp s' ys f. init_stack u child argv s = Some ((0, sp), s') \<and> as_inv s' D ys \<and> os_kept s s' \<and>
      f < NPAGES \<and> pp_ref s f = 0 \<and> (\<forall>d \<in> D. \<forall>va. amap s' d va =
         (if d = pd \<and> VPN va = VPN UTEMP then None
          else if d = pc \<and> VPN va = VPN (USTACKTOP - BY2PG) then Some (mk_pte f (PTE_R OR PTE_W OR PTE_U)) else amap s d va)) \<and>
      uword s' pc sp = of_nat (length argv) \<and> uword s' pc (sp + 4) = sp + 8 \<and>
      (\<forall>i<length argv. \<forall>k\<le>length (argv ! i). ubyte s' pc (uword s' pc (sp + 8 + 4 * of_nat i) + of_nat k) = (argv ! i @ [0]) ! k)
    else init_stack u child argv s = Some ((- errno E_NO_MEM, 0), s)"
proof (cases "args_fit argv")
  case True
  have eq: "USTACKTOP - BY2PG = stack_page" by simp
  show ?thesis unfolding if_P [OF True] eq using init_stack_ok [OF assms(1-4) True, of u, unfolded sees_args_def] by blast
next
  case False
  let ?tot = "of_nat (length (flat argv)) :: u32"
  have u: "unat ?tot = length (flat argv)" using assms(5) by (intro unat_of_nat32) simp
  have "round4 (length (flat argv)) \<le> length (flat argv) + 3" unfolding round4_def by presburger
  then have lt: "round4 (length (flat argv)) + 4 * (length argv + 3) < 2 ^ 32" using assms(5) by simp
  have "unat (ROUND ?tot 4) = round4 (length (flat argv))" using ROUND4 [of ?tot] u assms(5) by simp
  then have "unat (ROUND ?tot 4 + of_nat (4 * (length argv + 3))) = round4 (length (flat argv)) + 4 * (length argv + 3)"
    using unat_add_small [of "ROUND ?tot 4" "4 * (length argv + 3)"] lt by simp
  moreover have "of_nat (4 * (length argv + 3)) = (4 :: u32) * (of_nat (length argv) + 3)" by simp
  ultimately have "unat (ROUND ?tot 4 + 4 * (of_nat (length argv) + 3)) = round4 (length (flat argv)) + 4 * (length argv + 3)" by (simp only:)
  then have "BY2PG < ROUND ?tot 4 + 4 * (of_nat (length argv) + 3)" using False unfolding word_less_nat_alt by (simp add: args_fit_def)
  then show ?thesis using False by (simp only: init_stack_def Let_def length_flat if_True if_False)
qed

lemma w_child: "owns_dir wsample {5, 6} (target 0 0x1001) 6"
  using fork_readyD(4) [OF w_ready] .

theorem init_stack_arguments_witness:
  "\<forall>u. \<exists>sp s'. init_stack u 0x1001 [[108, 115], [45, 108]] wsample = Some ((0, sp), s') \<and> uword s' 6 sp = 2 \<and> uword s' 6 (sp + 4) = sp + 8 \<and>
     ubyte s' 6 (uword s' 6 (sp + 12)) = 45"
proof
  fix u
  let ?argv = "[[108, 115], [45, 108 :: u8]]"
  have "args_fit ?argv" by (simp add: args_fit_def round4_def)
  with init_stack_arguments [OF w_proc _ w_child, of ?argv u] obtain sp s' where
    s': "init_stack u 0x1001 ?argv wsample = Some ((0, sp), s')" "uword s' 6 sp = of_nat (length ?argv)" "uword s' 6 (sp + 4) = sp + 8"
    "\<And>i k. i < length ?argv \<Longrightarrow> k \<le> length (?argv ! i) \<Longrightarrow> ubyte s' 6 (uword s' 6 (sp + 8 + 4 * of_nat i) + of_nat k) = (?argv ! i @ [0]) ! k"
    by auto
  show "\<exists>sp s'. init_stack u 0x1001 ?argv wsample = Some ((0, sp), s') \<and> uword s' 6 sp = 2 \<and> uword s' 6 (sp + 4) = sp + 8 \<and>
     ubyte s' 6 (uword s' 6 (sp + 12)) = 45"
    using s'(1-3) s'(4) [of 1 0] by (intro exI [of _ sp] exI [of _ s']) (simp add: add.assoc)
qed

end
