(* ===== verification/SpawnLoad.thy ===== *)
theory SpawnLoad
  imports SpawnProps
begin

text \<open>
  The segments of a spawned program: one call of \<open>spawn_mapper\<close> gives the child a fresh page with the bytes of the file, and
  the loader applied to a page-aligned segment gives it the whole segment, zeros included.
\<close>

section \<open>What survives\<close>

text \<open>Every page that is mapped somewhere and is no page table stays mapped there and keeps its bytes.\<close>

definition same_page :: "nat \<Rightarrow> kstate \<Rightarrow> kstate \<Rightarrow> bool" where
  "same_page q s s' \<longleftrightarrow> (\<forall>off<4096. kmem s' (page2addr q + of_nat off) = kmem s (page2addr q + of_nat off))"

definition grows :: "nat set \<Rightarrow> kstate \<Rightarrow> kstate \<Rightarrow> bool" where
  "grows D s s' \<longleftrightarrow> (\<forall>d \<in> D. \<forall>x e. x < UTOP \<longrightarrow> amap s d x = Some e \<longrightarrow> pte_page e \<notin> tables s D \<longrightarrow>
     amap s' d x = Some e \<and> pte_page e \<notin> tables s' D \<and> same_page (pte_page e) s s')"

lemma growsD:
  assumes "grows D s s'" "d \<in> D" "x < UTOP" "amap s d x = Some e" "pte_page e \<notin> tables s D"
  shows "amap s' d x = Some e" "pte_page e \<notin> tables s' D" "same_page (pte_page e) s s'"
  using assms unfolding grows_def by blast+

lemma grows_refl: "grows D s s"
  by (simp add: grows_def same_page_def)

lemma same_page_trans: "same_page q s t \<Longrightarrow> same_page q t u \<Longrightarrow> same_page q s u"
  unfolding same_page_def by metis

lemma grows_trans:
  assumes st: "grows D s t" and tu: "grows D t u"
  shows "grows D s u"
  unfolding grows_def
proof (intro ballI allI impI)
  fix d x e assume a: "d \<in> D" "x < UTOP" "amap s d x = Some e" "pte_page e \<notin> tables s D"
  note m = growsD [OF st a]
  show "amap u d x = Some e \<and> pte_page e \<notin> tables u D \<and> same_page (pte_page e) s u"
    using growsD [OF tu a(1,2) m(1,2)] same_page_trans [OF m(3)] by blast
qed

lemma upa_page:
  assumes "amap s d x = Some e" "pte_page e < NPAGES"
  shows "upa s d x = page2addr (pte_page e) + of_nat (unat x mod 4096)"
proof -
  have "unat (page2addr (pte_page e) + of_nat (unat x mod 4096)) = 0x80000000 + 4096 * pte_page e + unat x mod 4096"
    using unat_page2addr [OF assms(2)] unat_add_small [of "page2addr (pte_page e)" "unat x mod 4096"] assms(2) by simp
  then show ?thesis using assms(1) page2addr_or [OF assms(2), of x] by (simp add: upa_def word_unat_eq_iff)
qed

lemma same_page_byte:
  assumes "amap s d x = Some e" "amap s' d x = Some e" "pte_page e < NPAGES" "same_page (pte_page e) s s'"
  shows "ubyte s' d x = ubyte s d x"
  using assms upa_page [OF assms(1,3)] upa_page [OF assms(2,3)] by (simp add: ubyte_def same_page_def)

lemma kept_page:
  assumes inv: "as_inv s D xs" "as_inv s' D ys" and dk: "data_kept D s s'" and d: "d \<in> D" "x < UTOP"
    and e: "amap s d x = Some e" "amap s' d x = Some e" "pte_page e \<notin> tables s D"
  shows "pte_page e \<notin> tables s' D" "same_page (pte_page e) s s'"
proof -
  note m = mapped_ref(1,2) [OF inv(1) d e(1)] and m' = mapped_ref(1) [OF inv(2) d e(2)]
  have r: "pp_ref s (pte_page e) \<noteq> 0" "pp_ref s' (pte_page e) \<noteq> 0" using m(1) m' by auto
  note k = data_keptD [OF dk m(2) e(3) r(1)]
  show "pte_page e \<notin> tables s' D" by (rule k(1))
  show "same_page (pte_page e) s s'" unfolding same_page_def using page_bytes [OF m(2) k(2) [OF r(2)]] by blast
qed

lemma grows_step:
  assumes "as_inv s D xs" "as_inv s' D ys" "data_kept D s s'" "\<And>d x e. d \<in> D \<Longrightarrow> amap s d x = Some e \<Longrightarrow> amap s' d x = Some e"
  shows "grows D s s'"
  unfolding grows_def using kept_page [OF assms(1-3)] assms(4) by blast

text \<open>A call that changes the page map of the child.\<close>

lemma proc_child:
  assumes p: "proc D c pd s xs" and s': "as_inv s' D ys" "os_kept s s'" "data_kept D s s'" "dirs_step D pc i s s'"
    and am: "\<And>va. amap s' pd va = amap s pd va"
  shows "proc D c pd s' ys"
proof -
  note P = procD [OF p] and k = os_kept_fields [OF s'(2)]
  have "vpt_window s' pd" by (rule vpt_window_step [OF P(4,5) s'(4) k(3)]) (rule am)
  moreover have "pte_page e \<notin> tables s' D" if "va < UTOP" "amap s' pd va = Some e" for va e
    using kept_page(1) [OF P(1) s'(1,3) P(5) that(1)] that am P(7) by simp
  ultimately show ?thesis using s'(1) P k unfolding proc_def owns_dir_def by simp
qed

section \<open>One page\<close>

definition loading :: "nat set \<Rightarrow> nat \<Rightarrow> nat \<Rightarrow> u32 \<Rightarrow> nat \<Rightarrow> kstate \<Rightarrow> nat list \<Rightarrow> bool" where
  "loading D c pd child pc s xs \<longleftrightarrow> proc D c pd s xs \<and> owns_dir s D (target c child) pc \<and> pc \<noteq> pd \<and> may_act s c child \<and>
     amap s pd UTEMP = None"

lemma loadingD:
  assumes "loading D c pd child pc s xs"
  shows "proc D c pd s xs" "owns_dir s D (target c child) pc" "pc \<noteq> pd" "may_act s c child" "amap s pd UTEMP = None" "pc \<in> D" "pd \<in> D"
  using assms procD(5) unfolding loading_def owns_dir_def by blast+

lemma alloc_child:
  assumes l: "loading D c pd child pc s xs" and va: "\<not> is_illegal_va va" "amap s pc va = None" and perm: "perm_ok perm"
    and room: "1 + missing s pc \<le> length xs"
  shows "\<exists>s' ys f. e_mem_alloc child va perm s = Some (Returned 0, s') \<and> loading D c pd child pc s' ys \<and> f < NPAGES \<and> pp_ref s f = 0 \<and>
    (\<forall>d \<in> D. \<forall>x. amap s' d x = (if d = pc \<and> VPN x = VPN va then Some (mk_pte f perm) else amap s d x)) \<and>
    pp_ref s' f = 1 \<and> f \<notin> tables s' D \<and> (\<forall>j. unat j < 1024 \<longrightarrow> pw s' f j = 0) \<and> grows D s s' \<and> os_kept s s' \<and>
    length xs + missing s' pc \<le> length ys + missing s pc + 1"
proof -
  note L = loadingD [OF l] and P = procD [OF loadingD(1) [OF l]]
  obtain f zs where xs: "xs = f # zs" using room by (cases xs) auto
  have i: "unat (PDX va) < 509" using user_PDX [OF legal_va [OF va(1)]] by (simp add: word_less_nat_alt)
  have rm: "pde_ok (pw s pc (PDX va)) \<or> zs \<noteq> []" using missing_room [OF _ i, of s pc zs] room xs by simp
  from e_mem_alloc_full [OF P(1) [unfolded xs] P(2) L(4,2) va(1) perm rm] obtain s' ys where
    s': "e_mem_alloc child va perm s = Some (Returned 0, s')" "as_inv s' D ys"
    "\<forall>d \<in> D. \<forall>x. amap s' d x = (if d = pc \<and> VPN x = VPN va then Some (mk_pte f perm) else amap s d x)"
    "\<forall>j. unat j < 1024 \<longrightarrow> pw s' f j = 0" "pp_ref s' f = 1" "os_kept s s'" "data_kept D s s'" "dirs_step D pc (PDX va) s s'"
    "length zs \<le> length ys + (if pde_ok (pw s pc (PDX va)) then 0 else 1)" by (elim exE conjE) (rule that)
  note k = os_kept_fields [OF s'(6)]
  have f: "f < NPAGES" "pp_ref s f = 0" using as_invD(4,5) [OF P(1)] xs by auto
  have am: "amap s' pd x = amap s pd x" for x using s'(3) L(3,7) by simp
  have p': "proc D c pd s' ys" by (rule proc_child [OF L(1) s'(2,6-8) am])
  have v: "amap s' pc va = Some (mk_pte f perm)" using s'(3) L(6) by simp
  have "1 \<le> card (uses s' D f)" using mapped_ref(4) [OF s'(2) L(6) legal_va [OF va(1)] v] pte_page_mk_pte [OF f(1) perm] by simp
  then have "f \<notin> tables s' D" using as_invD(11) [OF s'(2) f(1)] s'(5) by (auto split: if_splits)
  moreover have "grows D s s'"
  proof (rule grows_step [OF P(1) s'(2,7)])
    show "amap s' d x = Some e" if "d \<in> D" "amap s d x = Some e" for d x e
      using s'(3) that va(2) amap_VPN [of x va s pc] by (cases "d = pc \<and> VPN x = VPN va") auto
  qed
  moreover have "loading D c pd child pc s' ys"
    using p' L k am by (simp add: loading_def owns_dir_def may_act_def)
  moreover have "length xs + missing s' pc \<le> length ys + missing s pc + 1"
    using missing_step [OF s'(8) L(6) i] s'(9) xs by (auto split: if_splits)
  ultimately show ?thesis using s'(1,3-6) f by blast
qed

lemma addr_page:
  assumes "q < NPAGES" "q' < NPAGES" "o' < 4096" "o'' < 4096" "page2addr q + of_nat o' = page2addr q' + of_nat o''"
  shows "q = q' \<and> o' = o''"
proof -
  have u: "unat (page2addr p + of_nat k) = 0x80000000 + (4096 * p + k)" if "p < NPAGES" "k < 4096" for p k
    using unat_page2addr [OF that(1)] unat_add_small [of "page2addr p" k] that by simp
  then have eq: "4096 * q + o' = 4096 * q' + o''" using assms by (metis add_left_cancel)
  have "(4096 * q + o') div 4096 = q" "(4096 * q' + o'') div 4096 = q'" using assms by (auto intro!: div_nat_eqI)
  then show ?thesis using eq by simp
qed

lemma copy_temp:
  assumes p: "proc D c pd s xs" and t: "amap s pd UTEMP = Some e" "e AND PTE_W \<noteq> 0" and len: "n \<le> 4096"
    and src: "\<forall>k<n. \<exists>g. amap s pd (src + of_nat k) = Some g \<and> pte_page g \<noteq> pte_page e \<and> src + of_nat k < UTOP"
  shows "\<exists>s'. ucopy UTEMP src n s = Some s' \<and> temp_page D c pd e s' xs \<and> os_kept s s' \<and> pp_ref s' = pp_ref s \<and>
    (\<forall>d \<in> D. \<forall>x. amap s' d x = amap s d x) \<and> tables s' D = tables s D \<and>
    (\<forall>q o'. q < NPAGES \<longrightarrow> o' < 4096 \<longrightarrow> kmem s' (page2addr q + of_nat o') =
       (if q = pte_page e \<and> o' < n then ubyte s pd (src + of_nat o') else kmem s (page2addr q + of_nat o')))"
proof -
  have tp: "temp_page D c pd e s xs" using p t by (simp add: temp_page_def)
  note T = temp_pageD [OF tp]
  note a = page_addr [of UTEMP _ s pd e, OF _ _ T(2,4)]
  have up: "upa s pd (UTEMP + of_nat k) = page2addr (pte_page e) + of_nat k" if "k < n" for k using a(2) [of k] that len by simp
  have cp: "copyable s pd UTEMP src n" unfolding copyable_def
  proof (intro conjI allI impI)
    fix k assume k: "k < n"
    then show "amap s pd (src + of_nat k) \<noteq> None" using src by fastforce
    show "UTEMP + of_nat k < UTOP" using a(3) [of k] k len by (simp add: word_less_nat_alt)
    show "\<exists>e. amap s pd (UTEMP + of_nat k) = Some e \<and> e AND PTE_W \<noteq> 0" using a(1) [of k] T(3) k len by auto
  next
    fix j k assume jk: "j < n" "k < n"
    obtain g where g: "amap s pd (src + of_nat k) = Some g" "pte_page g \<noteq> pte_page e" "src + of_nat k < UTOP" using src jk(2) by blast
    have lt: "pte_page g < NPAGES" by (rule mapped_ref(2) [OF procD(1,5) [OF p] g(3,1)])
    show "upa s pd (UTEMP + of_nat j) \<noteq> upa s pd (src + of_nat k)"
      using addr_page [OF T(4) lt, of j "unat (src + of_nat k) mod 4096"] jk len g(2) unfolding up [OF jk(1)] upa_page [OF g(1) lt] by auto
    show "upa s pd (UTEMP + of_nat j) \<noteq> upa s pd (UTEMP + of_nat k)" if "j \<noteq> k"
      using addr_page [OF T(4,4)] jk len that unfolding up [OF jk(1)] up [OF jk(2)] by auto
  qed
  from ucopy_ok [OF p cp] obtain s' where
    s': "ucopy UTEMP src n s = Some s'" "s' = s\<lparr>kmem := kmem s'\<rparr>" "amap s' pd = amap s pd"
    "\<forall>k<n. ubyte s' pd (UTEMP + of_nat k) = ubyte s pd (src + of_nat k)"
    "\<forall>a. (\<forall>k<n. a \<noteq> upa s pd (UTEMP + of_nat k)) \<longrightarrow> kmem s' a = kmem s a" by blast
  define bs where "bs = map (\<lambda>k. ubyte s pd (src + of_nat k)) [0..<n]"
  have km: "kmem s' = mput (kmem s) (page2addr (pte_page e) + of_nat 0) bs"
  proof
    fix x
    show "kmem s' x = mput (kmem s) (page2addr (pte_page e) + of_nat 0) bs x"
    proof (cases "\<exists>k<n. x = page2addr (pte_page e) + of_nat k")
      case True
      then obtain k where k: "k < n" "x = page2addr (pte_page e) + of_nat k" by blast
      have "upa s' pd (UTEMP + of_nat k) = x" using up [OF k(1)] s'(3) k(2) by (simp add: upa_def)
      then have "kmem s' x = ubyte s pd (src + of_nat k)" using s'(4) k(1) unfolding ubyte_def by metis
      then show ?thesis using mput_at [of k bs "kmem s" "page2addr (pte_page e)"] k len by (simp add: bs_def)
    next
      case False
      then have "kmem s' x = kmem s x" using s'(5) up by metis
      moreover have "\<not> unat (x - page2addr (pte_page e)) < n"
      proof
        assume "unat (x - page2addr (pte_page e)) < n"
        moreover have "x = page2addr (pte_page e) + of_nat (unat (x - page2addr (pte_page e)))" by simp
        ultimately show False using False by blast
      qed
      ultimately show ?thesis by (simp add: mput_def bs_def)
    qed
  qed
  have len': "0 + length bs \<le> 4096" using len by (simp add: bs_def)
  note pt = temp_put [OF tp len' km, folded s'(2)]
  have "kmem s' (page2addr q + of_nat o') =
      (if q = pte_page e \<and> o' < n then ubyte s pd (src + of_nat o') else kmem s (page2addr q + of_nat o'))" if "q < NPAGES" "o' < 4096" for q o'
  proof (cases "q = pte_page e \<and> o' < n")
    case True
    then show ?thesis using km mput_at [of o' bs "kmem s" "page2addr (pte_page e)"] len by (simp add: bs_def)
  next
    case False
    have "kmem s' (page2addr q + of_nat o') = kmem s (page2addr q + of_nat o')"
    proof (rule s'(5) [rule_format])
      fix k assume k: "k < n"
      show "page2addr q + of_nat o' \<noteq> upa s pd (UTEMP + of_nat k)"
        unfolding up [OF k] using addr_page [OF that(1) T(4) that(2), of k] False k len by auto
    qed
    then show ?thesis unfolding if_not_P [OF False] .
  qed
  moreover have "pp_ref s' = pp_ref s" "os_kept s s'"
    using arg_cong [OF s'(2), of pp_ref] arg_cong [OF s'(2), of pmap_st.more] arg_cong [OF s'(2), of cur_pgdir] by (simp_all add: os_kept_def)
  ultimately show ?thesis using s'(1) pt by blast
qed

lemma same_page_pw:
  assumes "same_page q s s'" "unat j < 1024"
  shows "pw s' q j = pw s q j"
proof -
  have s: "slot q j + of_nat k = page2addr q + of_nat (4 * unat j + k)" for k by (simp add: slot_def)
  show ?thesis unfolding pw_def kload32_def
  proof (rule load32_cong)
    fix k :: nat assume "k < 4"
    then show "kmem s' (slot q j + of_nat k) = kmem s (slot q j + of_nat k)" unfolding s using assms by (simp only: same_page_def)
  qed
qed

lemma missing_cong: "(\<And>i. unat i < 1024 \<Longrightarrow> pw s' pc i = pw s pc i) \<Longrightarrow> missing s' pc = missing s pc"
  unfolding missing_def by (intro arg_cong [where f = card] Collect_cong) auto

text \<open>The page \<open>f\<close> is mapped at \<open>UTEMP\<close>, filled and unmapped again.\<close>

lemma fill_page:
  assumes l: "loading D c pd child pc s xs" and va: "\<not> is_illegal_va va" and perm: "perm_ok perm" "perm AND PTE_W \<noteq> 0"
    and e: "amap s pc va = Some e" "pte_page e = f" "f < NPAGES" "f \<notin> tables s D" "pp_ref s f = 1" and len: "n \<le> 4096"
    and src: "\<And>k. k < n \<Longrightarrow> \<exists>g. amap s pd (src + of_nat k) = Some g \<and> pte_page g \<noteq> f \<and> src + of_nat k < UTOP"
  shows "\<exists>s' ys. do { (r, s) \<leftarrow> sys u (e_mem_map child va 0 UTEMP perm s);
      (if r \<noteq> 0 then do { (_, s) \<leftarrow> sys u (e_mem_unmap child va s); Some (r, s) }
       else do { s \<leftarrow> ucopy UTEMP src n s; sys u (e_mem_unmap 0 UTEMP s) }) } = Some (0, s') \<and>
    loading D c pd child pc s' ys \<and> (\<forall>d \<in> D. \<forall>x. amap s' d x = amap s d x) \<and> tables s' D = tables s D \<and> os_kept s s' \<and>
    (\<forall>d \<in> D. \<forall>x g. x < UTOP \<longrightarrow> amap s d x = Some g \<longrightarrow> pte_page g \<notin> tables s D \<longrightarrow> pte_page g \<noteq> f \<longrightarrow> same_page (pte_page g) s s') \<and>
    (\<forall>k<4096. kmem s' (page2addr f + of_nat k) = (if k < n then ubyte s pd (src + of_nat k) else kmem s (page2addr f + of_nat k))) \<and>
    missing s' pc = missing s pc \<and> length xs \<le> length ys"
proof -
  note L = loadingD [OF l] and P = procD [OF loadingD(1) [OF l]]
  have nt: "\<not> is_illegal_va UTEMP" by (simp add: is_illegal_va_def)
  define t where "t = mk_pte f perm"
  have t: "pte_page t = f" "t AND PTE_W \<noteq> 0" unfolding t_def using pte_page_mk_pte [OF e(3) perm(1)] mk_pte_W [OF perm(2)] by simp_all
  from e_mem_map_full [OF P(1,2) L(4,2) proc_self(2) [OF L(1)] va nt perm(1) e(1) _ disjI1 [OF window_present [OF P(4) unat_PDX_less]]]
    e(2,5) obtain s2 ys2 where
    s2: "e_mem_map child va 0 UTEMP perm s = Some (Returned 0, s2)" "as_inv s2 D ys2"
    "\<forall>d \<in> D. \<forall>x. amap s2 d x = (if d = pd \<and> VPN x = VPN UTEMP then Some t else amap s d x)"
    "os_kept s s2" "data_kept D s s2" "dirs_step D pd (PDX UTEMP) s s2" "length xs \<le> length ys2 + (if pde_ok (pw s pd (PDX UTEMP)) then 0 else 1)"
    unfolding t_def by fastforce
  have r2: "remaps D pd UTEMP (Some t) s s2" using s2(3-5) full_tables [OF P(4) s2(6) unat_PDX_less] by (simp add: remaps_def)
  have tb2: "tables s2 D = tables s D" by (rule remapsD(3) [OF r2])
  have p2: "proc D c pd s2 ys2" using e(4) t(1) by (intro proc_remaps [OF L(1) s2(2) r2 legal_va [OF nt] s2(6)]) auto
  have am2: "amap s2 d x = Some g" if "d \<in> D" "amap s d x = Some g" for d x g
    using s2(3) that L(5) amap_VPN [of x UTEMP s pd] by (cases "d = pd \<and> VPN x = VPN UTEMP") auto
  have k2: "same_page (pte_page g) s s2" if "d \<in> D" "x < UTOP" "amap s d x = Some g" "pte_page g \<notin> tables s D" for d x g
    by (rule kept_page(2) [OF P(1) s2(2,5) that(1-3) am2 [OF that(1,3)] that(4)])
  have u2: "amap s2 pd UTEMP = Some t" using s2(3) L(7) by simp
  have sb: "ubyte s2 pd (src + of_nat k) = ubyte s pd (src + of_nat k)" if k: "k < n" for k
  proof -
    obtain g where g: "amap s pd (src + of_nat k) = Some g" "src + of_nat k < UTOP" using src [OF k] by blast
    show ?thesis
      using same_page_byte [OF g(1) am2 [OF L(7) g(1)] mapped_ref(2) [OF P(1) L(7) g(2,1)] k2 [OF L(7) g(2,1) P(7) [OF g(2,1)]]] .
  qed
  have sp: "\<forall>k<n. \<exists>g. amap s2 pd (src + of_nat k) = Some g \<and> pte_page g \<noteq> pte_page t \<and> src + of_nat k < UTOP"
    using src am2 [OF L(7)] t(1) by blast
  from copy_temp [OF p2 u2 t(2) len sp] obtain s3 where
    s3: "ucopy UTEMP src n s2 = Some s3" "temp_page D c pd t s3 ys2" "os_kept s2 s3" "pp_ref s3 = pp_ref s2"
    "\<forall>d \<in> D. \<forall>x. amap s3 d x = amap s2 d x" "tables s3 D = tables s2 D"
    "\<forall>q o'. q < NPAGES \<longrightarrow> o' < 4096 \<longrightarrow> kmem s3 (page2addr q + of_nat o') =
       (if q = pte_page t \<and> o' < n then ubyte s2 pd (src + of_nat o') else kmem s2 (page2addr q + of_nat o'))"
    by (elim exE conjE) (rule that)
  have k3: "same_page q s2 s3" if "q < NPAGES" "q \<noteq> f" for q unfolding same_page_def using s3(7) that t(1) by simp
  note T3 = temp_pageD [OF s3(2)] and P3 = procD [OF temp_pageD(1) [OF s3(2)]]
  from e_mem_unmap_full [OF P3(1,2) proc_self [OF T3(1)] nt T3(2)] obtain s4 where
    s4: "e_mem_unmap 0 UTEMP s3 = Some (Returned 0, s4)" "\<forall>d \<in> D. \<forall>x. amap s4 d x = (if d = pd \<and> VPN x = VPN UTEMP then None else amap s3 d x)"
    "os_kept s3 s4" "data_kept D s3 s4" "\<forall>d \<in> D. \<forall>i. unat i < 1024 \<longrightarrow> pw s4 d i = pw s3 d i" "tables s4 D = tables s3 D" by blast
  from proc_unmap [OF T3(1) nt] s4(1) obtain ys where p4: "proc D c pd s4 ys" "length ys2 \<le> length ys" by auto
  have am4: "amap s4 d x = amap s d x" if d: "d \<in> D" for d x
  proof (cases "d = pd \<and> VPN x = VPN UTEMP")
    case True
    then show ?thesis using s4(2) d L(5) amap_VPN [of x UTEMP s pd] by simp
  next
    case False
    then show ?thesis using s4(2) s3(5) s2(3) d by auto
  qed
  have k4: "same_page (pte_page g) s3 s4" if g: "d \<in> D" "x < UTOP" "amap s d x = Some g" "pte_page g \<notin> tables s D" for d x g
    by (rule kept_page(2) [OF P3(1) procD(1) [OF p4(1)] s4(4) g(1,2)]) (use g am2 [OF g(1,3)] am4 [OF g(1)] s3(5,6) tb2 in auto)
  have "pw s4 pc i = pw s pc i" if i: "unat i < 1024" for i
  proof -
    have "pc \<in> tables s D" "pc < NPAGES" using L(6) as_invD(6) [OF P(1)] by (auto simp: tables_def)
    then have "pw s3 pc i = pw s2 pc i" using e(4) by (intro same_page_pw [OF k3 i]) auto
    moreover have "pw s2 pc i = pw s pc i" using s2(6) L(3,6) i by (auto simp: dirs_step_def)
    ultimately show ?thesis using s4(5) L(6) i by simp
  qed
  then have ms: "missing s4 pc = missing s pc" by (rule missing_cong)
  have km: "kmem s4 (page2addr f + of_nat k) = (if k < n then ubyte s pd (src + of_nat k) else kmem s (page2addr f + of_nat k))" if k: "k < 4096" for k
  proof -
    note pe = L(6) legal_va [OF va] e(1) e(4) [folded e(2)]
    have "kmem s4 (page2addr f + of_nat k) = kmem s3 (page2addr f + of_nat k)" using k4 [OF pe] e(2) k by (simp add: same_page_def)
    moreover have "kmem s2 (page2addr f + of_nat k) = kmem s (page2addr f + of_nat k)" using k2 [OF pe] e(2) k by (simp add: same_page_def)
    ultimately show ?thesis using s3(7) e(3) t(1) k sb by simp
  qed
  have gs: "same_page (pte_page g) s s4" if g: "d \<in> D" "x < UTOP" "amap s d x = Some g" "pte_page g \<notin> tables s D" "pte_page g \<noteq> f" for d x g
    using same_page_trans [OF same_page_trans [OF k2 [OF g(1-4)] k3 [OF mapped_ref(2) [OF P(1) g(1-3)] g(5)]] k4 [OF g(1-4)]] .
  have kp: "os_kept s s4" using s2(4) s3(3) s4(3) by (simp add: os_kept_def)
  note kf = os_kept_fields [OF kp]
  have ld: "loading D c pd child pc s4 ys" using p4(1) L kf am4 [OF L(7)] by (simp add: loading_def owns_dir_def may_act_def)
  have ln: "length xs \<le> length ys" using s2(7) p4(2) window_present [OF P(4) unat_PDX_less, of UTEMP] by simp
  have "do { (r, s) \<leftarrow> sys u (e_mem_map child va 0 UTEMP perm s);
      (if r \<noteq> 0 then do { (_, s) \<leftarrow> sys u (e_mem_unmap child va s); Some (r, s) }
       else do { s \<leftarrow> ucopy UTEMP src n s; sys u (e_mem_unmap 0 UTEMP s) }) } = Some (0, s4)"
    using s2(1) s3(1) s4(1) by simp
  then show ?thesis using ld am4 s4(6) s3(6) tb2 kp gs km ms ln by (intro exI [of _ s4] exI [of _ ys]) simp
qed

text \<open>\<open>spawn_mapper\<close> at the start of a page.\<close>

lemma mapper_page:
  assumes l: "loading D c pd child pc s xs" and va: "\<not> is_illegal_va va" "amap s pc va = None" and perm: "perm_ok perm" "perm AND PTE_W \<noteq> 0"
    and room: "1 + missing s pc \<le> length xs" and len': "src \<noteq> 0 \<longrightarrow> unat len \<le> 4096"
    and src': "\<forall>k. src \<noteq> 0 \<longrightarrow> k < unat len \<longrightarrow> amap s pd (src + of_nat k) \<noteq> None \<and> src + of_nat k < UTOP"
  shows "\<exists>s' ys f. spawn_mapper u child va 0 perm src len s = Some (0, s') \<and> loading D c pd child pc s' ys \<and> f < NPAGES \<and> f \<notin> tables s' D \<and>
    (\<forall>d \<in> D. \<forall>x. amap s' d x = (if d = pc \<and> VPN x = VPN va then Some (mk_pte f perm) else amap s d x)) \<and> grows D s s' \<and> os_kept s s' \<and>
    (\<forall>k<4096. kmem s' (page2addr f + of_nat k) = (if src \<noteq> 0 \<and> k < unat len then ubyte s pd (src + of_nat k) else 0)) \<and>
    length xs + missing s' pc \<le> length ys + missing s pc + 1"
proof -
  note len = len' [rule_format] and src = src' [rule_format]
  note L = loadingD [OF l] and P = procD [OF loadingD(1) [OF l]]
  from alloc_child [OF l va perm(1) room] obtain s1 ys1 f where
    s1: "e_mem_alloc child va perm s = Some (Returned 0, s1)" "loading D c pd child pc s1 ys1" "f < NPAGES" "pp_ref s f = 0"
    "\<forall>d \<in> D. \<forall>x. amap s1 d x = (if d = pc \<and> VPN x = VPN va then Some (mk_pte f perm) else amap s d x)"
    "pp_ref s1 f = 1" "f \<notin> tables s1 D" "\<forall>j. unat j < 1024 \<longrightarrow> pw s1 f j = 0" "grows D s s1" "os_kept s s1"
    "length xs + missing s1 pc \<le> length ys1 + missing s pc + 1" by (elim exE conjE) (rule that)
  define e where "e = mk_pte f perm"
  have e: "pte_page e = f" unfolding e_def by (rule pte_page_mk_pte [OF s1(3) perm(1)])
  have ve: "amap s1 pc va = Some e" using s1(5) L(6) by (simp add: e_def)
  have z: "kmem s1 (page2addr f + of_nat k) = 0" if "k < 4096" for k
  proof -
    have "kmem (s1\<lparr>kmem := \<lambda>_. 0\<rparr>) (page2addr f + of_nat k) = kmem s1 (page2addr f + of_nat k)"
      using s1(8) by (intro page_bytes [OF s1(3) _ that]) (simp add: pw_def kload32_def load32_def)
    then show ?thesis by simp
  qed
  show ?thesis
  proof (cases "src = 0")
    case True
    then have "spawn_mapper u child va 0 perm src len s = Some (0, s1)" using s1(1) by (simp add: spawn_mapper_def)
    then show ?thesis using True s1(2,3,5,7,9-11) z by (intro exI [of _ s1] exI [of _ ys1] exI [of _ f]) simp
  next
    case False
    have nf: "pte_page g \<noteq> f" if "d \<in> D" "x < UTOP" "amap s d x = Some g" for d x g
      using mapped_ref(1) [OF P(1) that] s1(4) by auto
    have am1: "amap s1 pd x = amap s pd x" for x using s1(5) L(3,7) by simp
    have sp: "\<exists>g. amap s1 pd (src + of_nat k) = Some g \<and> pte_page g \<noteq> f \<and> src + of_nat k < UTOP" if "k < unat len" for k
      using src [OF False that] nf [OF L(7)] am1 by auto
    have sb: "ubyte s1 pd (src + of_nat k) = ubyte s pd (src + of_nat k)" if k: "k < unat len" for k
    proof -
      obtain g where g: "amap s pd (src + of_nat k) = Some g" "src + of_nat k < UTOP" using src [OF False k] by blast
      note m = growsD [OF s1(9) L(7) g(2,1) P(7) [OF g(2,1)]]
      show ?thesis by (rule same_page_byte [OF g(1) m(1) mapped_ref(2) [OF P(1) L(7) g(2,1)] m(3)])
    qed
    from fill_page [OF s1(2) va(1) perm ve e s1(3,7,6) len [OF False], of src u] sp obtain s2 ys where
      s2: "do { (r, s) \<leftarrow> sys u (e_mem_map child va 0 UTEMP perm s1);
        (if r \<noteq> 0 then do { (_, s) \<leftarrow> sys u (e_mem_unmap child va s); Some (r, s) }
         else do { s \<leftarrow> ucopy UTEMP src (unat len) s; sys u (e_mem_unmap 0 UTEMP s) }) } = Some (0, s2)"
      "loading D c pd child pc s2 ys" "\<forall>d \<in> D. \<forall>x. amap s2 d x = amap s1 d x" "tables s2 D = tables s1 D" "os_kept s1 s2"
      "\<forall>d \<in> D. \<forall>x g. x < UTOP \<longrightarrow> amap s1 d x = Some g \<longrightarrow> pte_page g \<notin> tables s1 D \<longrightarrow> pte_page g \<noteq> f \<longrightarrow> same_page (pte_page g) s1 s2"
      "\<forall>k<4096. kmem s2 (page2addr f + of_nat k) = (if k < unat len then ubyte s1 pd (src + of_nat k) else kmem s1 (page2addr f + of_nat k))"
      "missing s2 pc = missing s1 pc" "length ys1 \<le> length ys" by blast
    have "spawn_mapper u child va 0 perm src len s = Some (0, s2)" using s1(1) s2(1) False unfolding spawn_mapper_def stubs add_0_right by simp
    moreover have "grows D s s2" unfolding grows_def
    proof (intro ballI allI impI)
      fix d x g assume a: "d \<in> D" "x < UTOP" "amap s d x = Some g" "pte_page g \<notin> tables s D"
      note m = growsD [OF s1(9) a]
      have "same_page (pte_page g) s1 s2" using s2(6) a(1,2) m(1,2) nf [OF a(1-3)] by blast
      then show "amap s2 d x = Some g \<and> pte_page g \<notin> tables s2 D \<and> same_page (pte_page g) s s2"
        using s2(3,4) a(1) m same_page_trans [OF m(3)] by simp
    qed
    moreover have "os_kept s s2" using s1(10) s2(5) by (simp add: os_kept_def)
    moreover have "\<forall>k<4096. kmem s2 (page2addr f + of_nat k) = (if src \<noteq> 0 \<and> k < unat len then ubyte s pd (src + of_nat k) else 0)"
      using s2(7) sb z False by simp
    moreover have "\<forall>d \<in> D. \<forall>x. amap s2 d x = (if d = pc \<and> VPN x = VPN va then Some (mk_pte f perm) else amap s d x)"
      using s2(3) s1(5) by simp
    moreover have "length xs + missing s2 pc \<le> length ys + missing s pc + 1" using s1(11) s2(8,9) by simp
    ultimately show ?thesis using s1(3,7) s2(2,4) by blast
  qed
qed

section \<open>A segment\<close>

text \<open>
  The pages from \<open>i\<close> on of the segment at \<open>va\<close>, \<open>n\<close> pages long, are still to be loaded; the parent has the first \<open>fs\<close> bytes at
  \<open>bin\<close>, and \<open>data\<close> is the whole segment with the zeros behind them.
\<close>

definition seg_ready :: "kstate \<Rightarrow> nat \<Rightarrow> nat \<Rightarrow> u32 \<Rightarrow> u32 \<Rightarrow> u32 \<Rightarrow> nat \<Rightarrow> nat \<Rightarrow> bool" where
  "seg_ready s pd pc va bin fs i n \<longleftrightarrow> unat va mod 4096 = 0 \<and> UTEMP \<le> va \<and> unat va + 4096 * n \<le> 0x7f400000 \<and>
     UTEMP \<le> bin \<and> unat bin + unat fs \<le> 0x7f400000 \<and> (\<forall>k<unat fs. amap s pd (bin + of_nat k) \<noteq> None) \<and>
     (\<forall>k. i \<le> k \<longrightarrow> k < n \<longrightarrow> amap s pc (va + 4096 * of_nat k) = None)"

definition seg_data :: "kstate \<Rightarrow> nat \<Rightarrow> u32 \<Rightarrow> u32 \<Rightarrow> nat \<Rightarrow> u8" where
  "seg_data s pd bin fs k = (if k < unat fs then ubyte s pd (bin + of_nat k) else 0)"

definition page_loaded :: "nat set \<Rightarrow> nat \<Rightarrow> (nat \<Rightarrow> u8) \<Rightarrow> u32 \<Rightarrow> nat \<Rightarrow> kstate \<Rightarrow> bool" where
  "page_loaded D pc data va k s \<longleftrightarrow> (\<exists>e. amap s pc (va + 4096 * of_nat k) = Some e \<and> pte_page e < NPAGES \<and> pte_page e \<notin> tables s D \<and>
     (\<forall>j<4096. kmem s (page2addr (pte_page e) + of_nat j) = data (4096 * k + j)))"

lemma page_loaded_grows:
  assumes "page_loaded D pc data va k s" "grows D s s'" "pc \<in> D" "va + 4096 * of_nat k < UTOP"
  shows "page_loaded D pc data va k s'"
  using assms(1) growsD [OF assms(2-4)] unfolding page_loaded_def same_page_def by metis

lemma seg_perm_ok: "perm_ok seg_perm" "seg_perm AND PTE_W \<noteq> 0"
proof -
  show "perm_ok seg_perm" by (intro perm_ok_or perm_ok_flags)
  show "seg_perm AND PTE_W \<noteq> 0" by simp
qed

lemma seg_page:
  assumes "unat va mod 4096 = 0" "unat va + 4096 * n \<le> 0x7f400000" "UTEMP \<le> va" "k < n"
  shows "unat (va + 4096 * of_nat k) = unat va + 4096 * k" "\<not> is_illegal_va (va + 4096 * of_nat k)" "va + 4096 * of_nat k < UTOP"
    "j < n \<Longrightarrow> VPN (va + 4096 * of_nat j) = VPN (va + 4096 * of_nat k) \<Longrightarrow> j = k"
proof -
  have u: "unat (va + 4096 * of_nat i) = unat va + 4096 * i" if "i < n" for i
    using unat_add_small [of va "4096 * i"] assms(2) that by simp
  show a: "unat (va + 4096 * of_nat k) = unat va + 4096 * k" by (rule u [OF assms(4)])
  then show "\<not> is_illegal_va (va + 4096 * of_nat k)" "va + 4096 * of_nat k < UTOP"
    using assms by (simp_all add: is_illegal_va_def word_le_nat_alt word_less_nat_alt)
  assume j: "j < n" "VPN (va + 4096 * of_nat j) = VPN (va + 4096 * of_nat k)"
  obtain q where q: "unat va = 4096 * q" using assms(1) by auto
  have "(4096 * q + 4096 * i) div 4096 = q + i" for i by simp
  then show "j = k" using j(2) u [OF j(1)] a q by (simp add: VPN_def word_unat_eq_iff unat_drop_bit32)
qed

lemma run_calls_Cons: "run_calls mp (map (page_call va bin fs) (i # is)) s =
    try_c (mp (va + 4096 * of_nat i) 0 seg_perm (if 4096 * i < unat fs then bin + 4096 * of_nat i else 0) (min (fs - 4096 * of_nat i) BY2PG) s)
      (\<lambda>_ s. run_calls mp (map (page_call va bin fs) is) s)"
  by (simp add: page_call_def Let_def)

lemma call_len:
  assumes "4096 * i < unat fs"
  shows "unat (min (fs - 4096 * of_nat i) BY2PG) = min (unat fs - 4096 * i) 4096"
proof -
  have "unat fs < 2 ^ 32" by (rule order_less_le_trans [OF unsigned_less]) simp
  then have u: "unat (4096 * of_nat i :: u32) = 4096 * i" using assms by (intro unat_page_off) simp
  then have "unat (fs - 4096 * of_nat i) = unat fs - 4096 * i" using assms by (subst unat_sub) (simp_all add: word_le_nat_alt)
  then show ?thesis by (simp add: min_def word_le_nat_alt)
qed

lemma seg_source:
  assumes "seg_ready s pd pc va bin fs i n" "k < unat fs"
  shows "bin + of_nat k < UTOP" "bin + of_nat k \<noteq> 0" "amap s pd (bin + of_nat k) \<noteq> None"
proof -
  have b: "unat bin + unat fs \<le> 0x7f400000" "unat UTEMP \<le> unat bin" and m: "amap s pd (bin + of_nat k) \<noteq> None"
    using assms by (simp_all add: seg_ready_def word_le_nat_alt)
  then have u: "unat (bin + of_nat k) = unat bin + k" using unat_add_small [of bin k] assms(2) by simp
  show "bin + of_nat k < UTOP" using u b assms(2) by (simp add: word_less_nat_alt)
  show "bin + of_nat k \<noteq> 0" using u b by auto
  show "amap s pd (bin + of_nat k) \<noteq> None" by (rule m)
qed

lemma seg_data_grows:
  assumes l: "loading D c pd child pc s xs" and r: "seg_ready s pd pc va bin fs i n" and g: "grows D s s'"
  shows "seg_data s' pd bin fs = seg_data s pd bin fs" "k < unat fs \<Longrightarrow> amap s' pd (bin + of_nat k) \<noteq> None"
proof -
  note L = loadingD [OF l] and P = procD [OF loadingD(1) [OF l]]
  have b: "amap s' pd (bin + of_nat k) \<noteq> None \<and> ubyte s' pd (bin + of_nat k) = ubyte s pd (bin + of_nat k)" if k: "k < unat fs" for k
  proof -
    obtain e where e: "amap s pd (bin + of_nat k) = Some e" using seg_source(3) [OF r k] by auto
    note lt = seg_source(1) [OF r k]
    note m = growsD [OF g L(7) lt e P(7) [OF lt e]]
    show ?thesis using same_page_byte [OF e m(1) mapped_ref(2) [OF P(1) L(7) lt e] m(3)] m(1) by simp
  qed
  show "seg_data s' pd bin fs = seg_data s pd bin fs" using b by (simp add: seg_data_def fun_eq_iff)
  show "amap s' pd (bin + of_nat k) \<noteq> None" if "k < unat fs" using b [OF that] by simp
qed

lemma load_page:
  assumes l: "loading D c pd child pc s xs" and r: "seg_ready s pd pc va bin fs i n" and i: "i < n" and room: "1 + missing s pc \<le> length xs"
  shows "\<exists>s' ys. run_calls (mapper_of u child) (map (page_call va bin fs) (i # is)) s = run_calls (mapper_of u child) (map (page_call va bin fs) is) s' \<and>
    loading D c pd child pc s' ys \<and> seg_ready s' pd pc va bin fs (Suc i) n \<and> grows D s s' \<and> os_kept s s' \<and>
    page_loaded D pc (seg_data s pd bin fs) va i s' \<and>
    (\<forall>d \<in> D. \<forall>x. \<not> (d = pc \<and> VPN x = VPN (va + 4096 * of_nat i)) \<longrightarrow> amap s' d x = amap s d x) \<and>
    length xs + missing s' pc \<le> length ys + missing s pc + 1"
proof -
  let ?va = "va + 4096 * of_nat i"
  define src where "src = (if 4096 * i < unat fs then bin + 4096 * of_nat i else 0)"
  define len where "len = min (fs - 4096 * of_nat i) BY2PG"
  have R: "unat va mod 4096 = 0" "UTEMP \<le> va" "unat va + 4096 * n \<le> 0x7f400000" "amap s pc ?va = None" using r i by (simp_all add: seg_ready_def)
  note sp = seg_page [OF R(1,3,2)]
  have nz: "src \<noteq> 0 \<longleftrightarrow> 4096 * i < unat fs" using seg_source(2) [OF r, of "4096 * i"] by (auto simp: src_def)
  have at: "src + of_nat k = bin + of_nat (4096 * i + k)" if "src \<noteq> 0" for k using that nz by (simp add: src_def add.assoc)
  have ln: "unat len = min (unat fs - 4096 * i) 4096" if "src \<noteq> 0" unfolding len_def using call_len that nz by blast
  have so: "\<forall>k. src \<noteq> 0 \<longrightarrow> k < unat len \<longrightarrow> amap s pd (src + of_nat k) \<noteq> None \<and> src + of_nat k < UTOP"
  proof (intro allI impI)
    fix k assume that: "src \<noteq> 0" "k < unat len"
    have "k < min (unat fs - 4096 * i) 4096" using that(2) ln [OF that(1)] by simp
    then have "4096 * i + k < unat fs" by linarith
    then show "amap s pd (src + of_nat k) \<noteq> None \<and> src + of_nat k < UTOP" unfolding at [OF that(1)] using seg_source(1,3) [OF r] by blast
  qed
  have l4: "src \<noteq> 0 \<longrightarrow> unat len \<le> 4096" using ln by simp
  obtain s' ys f where s': "spawn_mapper u child ?va 0 seg_perm src len s = Some (0, s')" "loading D c pd child pc s' ys" "f < NPAGES" "f \<notin> tables s' D"
    "\<forall>d \<in> D. \<forall>x. amap s' d x = (if d = pc \<and> VPN x = VPN ?va then Some (mk_pte f seg_perm) else amap s d x)" "grows D s s'" "os_kept s s'"
    "\<forall>k<4096. kmem s' (page2addr f + of_nat k) = (if src \<noteq> 0 \<and> k < unat len then ubyte s pd (src + of_nat k) else 0)"
    "length xs + missing s' pc \<le> length ys + missing s pc + 1"
    using mapper_page [OF l sp(2) [OF i] R(4) seg_perm_ok room l4 so, of u] by (elim exE conjE) (rule that)
  have "run_calls (mapper_of u child) (map (page_call va bin fs) (i # is)) s = run_calls (mapper_of u child) (map (page_call va bin fs) is) s'"
    unfolding run_calls_Cons by (fold src_def len_def) (simp only: mapper_of_def s'(1), simp add: try_c_def)
  moreover have "page_loaded D pc (seg_data s pd bin fs) va i s'" unfolding page_loaded_def
  proof (intro exI conjI allI impI)
    show "amap s' pc ?va = Some (mk_pte f seg_perm)" using s'(5) loadingD(6) [OF l] by simp
    have f: "pte_page (mk_pte f seg_perm) = f" by (rule pte_page_mk_pte [OF s'(3) seg_perm_ok(1)])
    show "pte_page (mk_pte f seg_perm) < NPAGES" "pte_page (mk_pte f seg_perm) \<notin> tables s' D" unfolding f by (rule s'(3,4))+
    fix j :: nat assume j: "j < 4096"
    have "src \<noteq> 0 \<and> j < unat len \<longleftrightarrow> 4096 * i + j < unat fs" using nz ln j by auto
    then show "kmem s' (page2addr (pte_page (mk_pte f seg_perm)) + of_nat j) = seg_data s pd bin fs (4096 * i + j)"
      unfolding f seg_data_def using s'(8) j at by (metis nz)
  qed
  moreover have "seg_ready s' pd pc va bin fs (Suc i) n"
  proof -
    have "amap s' pc (va + 4096 * of_nat k) = None" if k: "Suc i \<le> k" "k < n" for k
      using s'(5) loadingD(6) [OF l] sp(4) [OF i k(2)] r k by (auto simp: seg_ready_def)
    then show ?thesis using r seg_data_grows(2) [OF l r s'(6)] unfolding seg_ready_def by blast
  qed
  ultimately show ?thesis using s'(2,5-7,9) by (intro exI [of _ s'] exI [of _ ys]) simp
qed

lemma load_pages:
  assumes "loading D c pd child pc s xs" "seg_ready s pd pc va bin fs i n" "i \<le> n" "n - i + missing s pc \<le> length xs"
  shows "\<exists>s' ys. run_calls (mapper_of u child) (map (page_call va bin fs) [i..<n]) s = Some (Inr (), s') \<and>
    loading D c pd child pc s' ys \<and> grows D s s' \<and> os_kept s s' \<and>
    (\<forall>k. i \<le> k \<longrightarrow> k < n \<longrightarrow> page_loaded D pc (seg_data s pd bin fs) va k s') \<and>
    (\<forall>d \<in> D. \<forall>x. \<not> (d = pc \<and> (\<exists>k. i \<le> k \<and> k < n \<and> VPN x = VPN (va + 4096 * of_nat k))) \<longrightarrow> amap s' d x = amap s d x)"
  using assms
proof (induction "n - i" arbitrary: i s xs)
  case 0
  then show ?case by (intro exI [of _ s] exI [of _ xs]) (simp add: grows_refl os_kept_def)
next
  case (Suc m)
  then have i: "i < n" by simp
  have room: "1 + missing s pc \<le> length xs" using Suc.prems(4) i by simp
  from load_page [OF Suc.prems(1,2) i room, of u "[Suc i..<n]"] obtain s1 ys1 where
    s1: "run_calls (mapper_of u child) (map (page_call va bin fs) (i # [Suc i..<n])) s = run_calls (mapper_of u child) (map (page_call va bin fs) [Suc i..<n]) s1"
    "loading D c pd child pc s1 ys1" "seg_ready s1 pd pc va bin fs (Suc i) n" "grows D s s1" "os_kept s s1"
    "page_loaded D pc (seg_data s pd bin fs) va i s1"
    "\<forall>d \<in> D. \<forall>x. \<not> (d = pc \<and> VPN x = VPN (va + 4096 * of_nat i)) \<longrightarrow> amap s1 d x = amap s d x"
    "length xs + missing s1 pc \<le> length ys1 + missing s pc + 1" by (elim exE conjE) (rule that)
  have m: "m = n - Suc i" "Suc i \<le> n" "n - Suc i + missing s1 pc \<le> length ys1" using Suc.hyps(2) i s1(8) Suc.prems(4) by linarith+
  from Suc.hyps(1) [OF m(1) s1(2,3) m(2,3)] obtain s2 ys where
    s2: "run_calls (mapper_of u child) (map (page_call va bin fs) [Suc i..<n]) s1 = Some (Inr (), s2)"
    "loading D c pd child pc s2 ys" "grows D s1 s2" "os_kept s1 s2"
    "\<forall>k. Suc i \<le> k \<longrightarrow> k < n \<longrightarrow> page_loaded D pc (seg_data s1 pd bin fs) va k s2"
    "\<forall>d \<in> D. \<forall>x. \<not> (d = pc \<and> (\<exists>k. Suc i \<le> k \<and> k < n \<and> VPN x = VPN (va + 4096 * of_nat k))) \<longrightarrow> amap s2 d x = amap s1 d x" by (elim exE conjE) (rule that)
  have "page_loaded D pc (seg_data s pd bin fs) va i s2"
    using Suc.prems(2) i by (intro page_loaded_grows [OF s1(6) s2(3) loadingD(6) [OF Suc.prems(1)]] seg_page(3)) (auto simp: seg_ready_def)
  then have "page_loaded D pc (seg_data s pd bin fs) va k s2" if "i \<le> k" "k < n" for k
    using that s2(5) seg_data_grows(1) [OF Suc.prems(1,2) s1(4)] by (cases "k = i") auto
  moreover have "amap s2 d x = amap s d x" if "d \<in> D" "\<not> (d = pc \<and> (\<exists>k. i \<le> k \<and> k < n \<and> VPN x = VPN (va + 4096 * of_nat k)))" for d x
    using s2(6) s1(7) that i by (metis Suc_leD order_refl)
  moreover have "os_kept s s2" using s1(5) s2(4) by (simp add: os_kept_def)
  ultimately show ?case using s1(1) s2(1,2) grows_trans [OF s1(4) s2(3)] upt_conv_Cons [OF i] by (intro exI [of _ s2] exI [of _ ys]) simp
qed

lemma page_loaded_byte:
  assumes ld: "page_loaded D pc data va (k div 4096) s" and va: "unat va mod 4096 = 0" "unat va + 4096 * n \<le> 0x7f400000" "UTEMP \<le> va" "k < 4096 * n"
  shows "ubyte s pc (va + of_nat k) = data k"
proof -
  have q: "k div 4096 < n" using va(4) by (simp add: div_less_iff_less_mult)
  obtain e where e: "amap s pc (va + 4096 * of_nat (k div 4096)) = Some e" "pte_page e < NPAGES"
    "\<forall>j<4096. kmem s (page2addr (pte_page e) + of_nat j) = data (4096 * (k div 4096) + j)" using ld unfolding page_loaded_def by blast
  note p = seg_page(1) [OF va(1-3) q]
  have al: "unat (va + 4096 * of_nat (k div 4096)) mod 4096 = 0" using p va(1) by (simp add: mod_add_eq [symmetric])
  have "va + of_nat k = va + of_nat (4096 * (k div 4096) + k mod 4096)" by simp
  then have "va + of_nat k = (va + 4096 * of_nat (k div 4096)) + of_nat (k mod 4096)" by (simp only: of_nat_add of_nat_mult add.assoc of_nat_numeral)
  then have "upa s pc (va + of_nat k) = page2addr (pte_page e) + of_nat (k mod 4096)" using page_addr(2) [OF al _ e(1,2), of "k mod 4096"] by (simp only: mod_less_divisor zero_less_numeral)
  then show ?thesis using e(3) by (simp add: ubyte_def)
qed

text \<open>
  C18 (spawn_segment_loaded). Loading a segment into the program that \<open>spawn\<close> creates. When the segment is page-aligned, its pages lie
  below \<open>UTOP\<close> and are not yet mapped in the child, the parent has the bytes of the file mapped, nothing at \<open>UTEMP\<close>, and there are
  enough free pages, \<open>elf_load_seg\<close> with \<open>spawn_mapper\<close> succeeds: the child sees the bytes of the file followed by zeros up
  to the end of the last page, no other mapping of any environment changes, and every page that was mapped keeps its bytes.
\<close>

theorem spawn_segment_loaded:
  assumes "proc D c pd s xs" "owns_dir s D (target c child) pc" "pc \<noteq> pd" "may_act s c child" "amap s pd UTEMP = None"
    and "p_vaddr ph AND 0xfff = 0" "p_filesz ph \<le> p_memsz ph" "p_memsz ph \<le> 0xfffff000"
    and "UTEMP \<le> p_vaddr ph" "unat (p_vaddr ph) + 4096 * pages_of (p_memsz ph) \<le> unat UTOP"
    and "UTEMP \<le> bin" "unat bin + unat (p_filesz ph) \<le> unat UTOP" "\<forall>k < unat (p_filesz ph). amap s pd (bin + of_nat k) \<noteq> None"
    and "\<forall>k < pages_of (p_memsz ph). amap s pc (p_vaddr ph + 4096 * of_nat k) = None" "pages_of (p_memsz ph) + missing s pc \<le> length xs"
  shows "\<exists>s' ys. elf_load_seg ph bin (mapper_of u child) s = Some (Inr (), s') \<and> proc D c pd s' ys \<and> os_kept s s' \<and>
    (\<forall>k < 4096 * pages_of (p_memsz ph). ubyte s' pc (p_vaddr ph + of_nat k) = (if k < unat (p_filesz ph) then ubyte s pd (bin + of_nat k) else 0)) \<and>
    (\<forall>d \<in> D. \<forall>va. \<not> (d = pc \<and> (\<exists>k < pages_of (p_memsz ph). VPN va = VPN (p_vaddr ph + 4096 * of_nat k))) \<longrightarrow> amap s' d va = amap s d va) \<and>
    (\<forall>va < UTOP. amap s pd va \<noteq> None \<longrightarrow> ubyte s' pd va = ubyte s pd va)"
proof -
  let ?va = "p_vaddr ph" and ?fs = "p_filesz ph" and ?n = "pages_of (p_memsz ph)"
  have l: "loading D c pd child pc s xs" using assms(1-5) by (simp add: loading_def)
  have va: "unat ?va mod 4096 = 0" using arg_cong [OF assms(6), of unat] unat_page_offset [of ?va] by simp
  have r: "seg_ready s pd pc ?va bin ?fs 0 ?n" using va assms(9-14) by (simp add: seg_ready_def)
  from load_pages [OF l r, of u] assms(15) obtain s' ys where
    s': "run_calls (mapper_of u child) (map (page_call ?va bin ?fs) [0..<?n]) s = Some (Inr (), s')" "loading D c pd child pc s' ys" "grows D s s'" "os_kept s s'"
    "\<forall>k<?n. page_loaded D pc (seg_data s pd bin ?fs) ?va k s'"
    "\<forall>d \<in> D. \<forall>x. \<not> (d = pc \<and> (\<exists>k<?n. VPN x = VPN (?va + 4096 * of_nat k))) \<longrightarrow> amap s' d x = amap s d x" by auto
  have "ubyte s' pc (?va + of_nat k) = seg_data s pd bin ?fs k" if k: "k < 4096 * ?n" for k
  proof -
    have "page_loaded D pc (seg_data s pd bin ?fs) ?va (k div 4096) s'" using s'(5) k by (simp add: div_less_iff_less_mult)
    then show ?thesis by (rule page_loaded_byte [OF _ va _ assms(9) k]) (use assms(10) in simp)
  qed
  moreover have "ubyte s' pd x = ubyte s pd x" if x: "x < UTOP" "amap s pd x \<noteq> None" for x
  proof -
    note P = procD [OF assms(1)]
    obtain e where e: "amap s pd x = Some e" using x(2) by auto
    note m = growsD [OF s'(3) P(5) x(1) e P(7) [OF x(1) e]]
    show ?thesis by (rule same_page_byte [OF e m(1) mapped_ref(2) [OF P(1,5) x(1) e] m(3)])
  qed
  moreover have "elf_load_seg ph bin (mapper_of u child) s = Some (Inr (), s')"
    by (rule trans [OF elf_load_seg_aligned [OF assms(6-8)] s'(1)])
  ultimately show ?thesis using s'(4,6) loadingD(1) [OF s'(2)] unfolding seg_data_def by blast
qed

definition spawn_ph :: Elf32_Phdr where
  "spawn_ph = \<lparr>p_type = PT_LOAD, p_offset = 0x1000, p_vaddr = 0x500000, p_filesz = 3, p_memsz = 0x1800\<rparr>"

theorem spawn_segment_loaded_witness:
  "\<forall>u. \<exists>s'. elf_load_seg spawn_ph 0x400000 (mapper_of u 0x1001) wsample = Some (Inr (), s') \<and>
     ubyte s' 6 0x500002 = ubyte wsample 5 0x400002 \<and> ubyte s' 6 0x501fff = 0"
proof
  fix u
  have n: "pages_of (p_memsz spawn_ph) = 2" by (simp add: spawn_ph_def pages_of_def)
  have src: "\<forall>k < unat (p_filesz spawn_ph). amap wsample 5 (0x400000 + of_nat k) \<noteq> None"
  proof (intro allI impI)
    fix k assume "k < unat (p_filesz spawn_ph)"
    then have "k = 0 \<or> k = 1 \<or> k = 2" by (auto simp: spawn_ph_def)
    then show "amap wsample 5 (0x400000 + of_nat k) \<noteq> None" using wuser [of "0x400000 + of_nat k"] by (auto simp: VPN_def)
  qed
  have t: "amap wsample 5 UTEMP = None" using wuser [of UTEMP] by (simp add: VPN_def)
  from spawn_segment_loaded [OF w_proc w_child _ w_target(2) t, of spawn_ph "0x400000" u] src n w_missing wamap(2) obtain s' where
    s': "elf_load_seg spawn_ph 0x400000 (mapper_of u 0x1001) wsample = Some (Inr (), s')"
    "\<And>k. k < 0x2000 \<Longrightarrow> ubyte s' 6 (0x500000 + of_nat k) = (if k < 3 then ubyte wsample 5 (0x400000 + of_nat k) else 0)"
    by (auto simp: spawn_ph_def)
  show "\<exists>s'. elf_load_seg spawn_ph 0x400000 (mapper_of u 0x1001) wsample = Some (Inr (), s') \<and>
     ubyte s' 6 0x500002 = ubyte wsample 5 0x400002 \<and> ubyte s' 6 0x501fff = 0"
    using s'(1) s'(2) [of 2] s'(2) [of "0x1fff"] by (intro exI [of _ s']) simp
qed

end
