(* ===== verification/ForkWrite.thy ===== *)
theory ForkWrite
  imports SpawnLoad
begin

text \<open>
  \<open>fork\<close> and the copy-on-write handler together: what the parent writes after \<open>fork\<close> the child does not see.
\<close>

section \<open>A store into a private page\<close>

lemma amap_kept:
  assumes "d \<in> D" "\<And>q j. q \<in> tables s D \<Longrightarrow> unat j < 1024 \<Longrightarrow> pw s' q j = pw s q j"
  shows "amap s' d va = amap s d va"
proof -
  have "pw s' d (PDX va) = pw s d (PDX va)" using assms(1) by (intro assms(2) unat_PDX_less) (simp add: tables_def)
  moreover have "pw s' (pt s d (PDX va)) (PTX va) = pw s (pt s d (PDX va)) (PTX va)" if "pde_ok (pw s d (PDX va))"
    using that assms(1) by (intro assms(2) unat_PTX_less) (auto simp: tables_def intro: unat_PDX_less)
  ultimately show ?thesis by (cases "pde_ok (pw s d (PDX va))") (simp_all add: amap_def pt_def)
qed

text \<open>A byte written through a mapping to a page that is no page table: only this byte of this page changes.\<close>

lemma write_private:
  assumes inv: "as_inv s D xs" and d: "pd \<in> D" "cur_pgdir s = page2addr pd" and va: "va < UTOP"
    and e: "amap s pd va = Some e" "e AND PTE_W \<noteq> 0" "pte_page e \<notin> tables s D"
  shows "\<exists>s'. uwrite8 va b s = Some s' \<and> (\<forall>d \<in> D. \<forall>x. amap s' d x = amap s d x) \<and>
    (\<forall>d \<in> D. \<forall>x g. x < UTOP \<longrightarrow> amap s d x = Some g \<longrightarrow>
       ubyte s' d x = (if pte_page g = pte_page e \<and> unat x mod 4096 = unat va mod 4096 then b else ubyte s d x))"
proof -
  let ?s = "s\<lparr>kmem := (kmem s)(upa s pd va := b)\<rparr>"
  have w: "uwrite8 va b s = Some ?s"
    using writable_amap [OF d(2) e(1)] e translate_amap [OF d(2), of va] by (simp add: uwrite8_def uwrite_def ustore8_def upa_def)
  have q: "pte_page e < NPAGES" by (rule mapped_ref(2) [OF inv d(1) va e(1)])
  have up: "upa s pd va = page2addr (pte_page e) + of_nat (unat va mod 4096)" by (rule upa_page [OF e(1) q])
  have at: "page2addr p + of_nat off = upa s pd va \<longleftrightarrow> p = pte_page e \<and> off = unat va mod 4096" if "p < NPAGES" "off < 4096" for p off
    unfolding up using addr_page [OF that(1) q that(2), of "unat va mod 4096"] by auto
  have "same_page p s ?s" if "p < NPAGES" "p \<noteq> pte_page e" for p using at that by (simp add: same_page_def)
  then have "pw ?s p j = pw s p j" if "p \<in> tables s D" "unat j < 1024" for p j
    using that e(3) tables_less [OF inv that(1)] by (intro same_page_pw) auto
  then have am: "amap ?s d x = amap s d x" if "d \<in> D" for d x by (rule amap_kept [OF that])
  have "ubyte ?s d x = (if pte_page g = pte_page e \<and> unat x mod 4096 = unat va mod 4096 then b else ubyte s d x)"
    if x: "d \<in> D" "x < UTOP" "amap s d x = Some g" for d x g
  proof -
    have g: "pte_page g < NPAGES" by (rule mapped_ref(2) [OF inv x])
    have "upa ?s d x = upa s d x" using am [OF x(1)] by (simp add: upa_def)
    then show ?thesis using at [OF g, of "unat x mod 4096"] upa_page [OF x(3) g] by (simp add: ubyte_def)
  qed
  then show ?thesis using w am by blast
qed

section \<open>Fork, fault, store\<close>

lemma VPN_offset: "VPN a = VPN b \<Longrightarrow> a = b \<longleftrightarrow> unat a mod 4096 = unat b mod 4096"
proof -
  assume "VPN a = VPN b"
  then have "unat a div 4096 = unat b div 4096" by (simp add: VPN_def word_unat_eq_iff unat_drop_bit32)
  then show ?thesis by (metis div_mult_mod_eq word_unat_eq_iff)
qed

lemma same_VPN_user: "VPN a = VPN b \<Longrightarrow> a < UTOP \<Longrightarrow> b < UTOP"
proof -
  assume "VPN a = VPN b" "a < UTOP"
  then have "unat a div 4096 = unat b div 4096" "unat a < 4096 * 0x7f400" by (simp_all add: VPN_def word_unat_eq_iff unat_drop_bit32 word_less_nat_alt)
  then have "unat b div 4096 < 0x7f400" by (metis less_mult_imp_div_less mult.commute)
  then show "b < UTOP" by (simp add: word_less_nat_alt div_less_iff_less_mult)
qed

text \<open>The handler in the state after \<open>fork\<close>, for a page that was private and writable.\<close>

lemma fault_after_fork:
  assumes k: "parent_kept D pd s s1" and p: "proc D c pd s xs" and d: "cd \<in> D" "cd \<noteq> pd"
    and s1: "as_inv s1 D (f # ys)" "curenv s1 = Some c" "owns_dir s1 D c pd" "vpt_window s1 pd"
    and va: "\<not> is_illegal_va va" "VPN va \<noteq> VPN UCOW" "VPN va \<noteq> VPN (UXSTACKTOP - TF_SIZE)"
    and e: "amap s pd va = Some e" "amap s1 pd va = Some e1" "amap s1 cd va = Some e1" "pte_page e1 = pte_page e" "e1 AND PTE_COW \<noteq> 0"
    and u: "amap s1 pd UCOW = None" and x: "amap s pd (UXSTACKTOP - TF_SIZE) = Some x" "amap s1 pd (UXSTACKTOP - TF_SIZE) = Some x"
  shows "\<exists>s2 zs e2. cow_entry mc va s1 = Some s2 \<and> as_inv s2 D zs \<and> cur_pgdir s2 = page2addr pd \<and>
    amap s2 pd va = Some e2 \<and> e2 AND PTE_W \<noteq> 0 \<and> pte_page e2 \<noteq> pte_page e \<and> pte_page e2 \<notin> tables s2 D \<and> amap s2 cd va = Some e1 \<and>
    (\<forall>off<4096. kmem s2 (page2addr (pte_page e2) + of_nat off) = kmem s (page2addr (pte_page e) + of_nat off) \<and>
       kmem s2 (page2addr (pte_page e) + of_nat off) = kmem s (page2addr (pte_page e) + of_nat off))"
proof -
  note P = procD [OF p]
  have lt: "va < UTOP" by (rule legal_va [OF va(1)])
  have top: "UXSTACKTOP - TF_SIZE < UTOP" by simp
  note ke = parent_keptD [OF k lt e(1) P(7) [OF lt e(1)]] and kx = parent_keptD(2) [OF k top x(1) P(7) [OF top x(1)]]
  have nt: "pte_page e1 \<notin> tables s1 D" using ke(2) e(4) by simp
  have cur: "cur_pgdir s1 = page2addr pd" using s1(4) by (simp add: vpt_window_def)
  obtain tf where tf: "uload_tf s1 (UXSTACKTOP - TF_SIZE) = Some tf" using frame_loads [OF cur x(2)] by blast
  define perm where "perm = ((e1 AND 0xc00003ff) AND NOT PTE_COW) OR PTE_W"
  from cow_entry_ok [OF s1 va e(2,5) nt u x(2) kx tf, of mc] obtain s2 zs where
    s2: "cow_entry mc va s1 = Some s2" "as_inv s2 D zs" "uses s1 D f = {}" "pp_ref s2 f = 1"
    "\<forall>d \<in> D. \<forall>va'. amap s2 d va' = (if d = pd \<and> VPN va' = VPN va then Some (mk_pte f perm) else amap s1 d va')"
    "\<forall>j. unat j < 1024 \<longrightarrow> pw s2 f j = pw s1 (pte_page e1) j" "data_kept D s1 s2" "cur_pgdir s2 = cur_pgdir s1"
    unfolding perm_def by blast
  have f: "f < NPAGES" using as_invD(4) [OF s1(1)] by simp
  have pok: "perm_ok perm" unfolding perm_def by (intro perm_ok_or perm_ok_and perm_ok_masked perm_ok_flags)
  have pW: "perm AND PTE_W \<noteq> 0" unfolding perm_def by (simp only: flag_test bit_or_iff bit_flags) simp
  define e2 where "e2 = mk_pte f perm"
  have e2: "pte_page e2 = f" "e2 AND PTE_W \<noteq> 0" unfolding e2_def by (rule pte_page_mk_pte [OF f pok], rule mk_pte_W [OF pW])
  have a2: "amap s2 pd va = Some e2" "amap s2 cd va = Some e1" using s2(5) P(5) d e(3) by (simp_all add: e2_def)
  have nf: "f \<noteq> pte_page e" using mapped_ref(5) [OF s1(1) P(5) lt e(2)] s2(3) e(4) by auto
  have "f \<notin> tables s2 D"
    using mapped_ref(4) [OF s2(2) P(5) lt a2(1)] as_invD(11) [OF s2(2) f] s2(4) e2(1) by (auto split: if_splits)
  have r: "pp_ref s1 (pte_page e1) \<noteq> 0" "pp_ref s2 (pte_page e1) \<noteq> 0"
    using mapped_ref(1) [OF s1(1) P(5) lt e(2)] mapped_ref(1) [OF s2(2) d(1) lt a2(2)] by auto
  have w: "pw s2 (pte_page e) j = pw s (pte_page e) j" "pw s2 f j = pw s (pte_page e) j" if "unat j < 1024" for j
    using data_keptD(2) [OF s2(7) mapped_ref(2) [OF s1(1) P(5) lt e(2)] nt r that] ke(3) [OF that] s2(6) that e(4) by simp_all
  show ?thesis
    using s2(1,2,8) cur a2 e2 nf \<open>f \<notin> tables s2 D\<close> page_bytes_copy [OF w(1)] page_bytes_copy [OF w(2)]
    by (intro exI [of _ s2] exI [of _ zs] exI [of _ e2]) simp
qed

text \<open>
  C15 (fork_isolates). After \<open>fork\<close> parent and child do not see each other's writes. For every page of the parent in the user range that
  is private, that is writable and marked neither shared (\<open>PTE_LIBRARY\<close>) nor copy-on-write: after \<open>fork\<close> neither
  environment can write to the page; when the parent then writes a byte of it, through the copy-on-write
  handler, the parent sees the new byte and otherwise the old contents, and the child still sees the old contents of
  the whole page. (A page that is marked both writable and copy-on-write is handed to the child writable.) One free page is needed
  beside those for the child's tables, and the exception stack must be mapped.
\<close>

theorem fork_isolates:
  assumes p: "proc D c pd s xs" and ch: "owns_dir s D (target c child) cd" "pd \<noteq> cd" "missing s cd < length xs"
      "may_act s c child" "env_status (envs s (target c child)) = ENV_NOT_RUNNABLE"
    and refs: "refs_room s pd (map of_nat [0..<unat (VPN USTACKTOP)])" and q: "sched_inv s q" "c < NENV"
    and va: "UTEMP \<le> va" "va < USTACKTOP" "VPN va \<noteq> VPN UCOW"
    and e: "amap s pd va = Some e" "e AND PTE_W \<noteq> 0" "e AND PTE_LIBRARY = 0" "e AND PTE_COW = 0"
    and u: "amap s pd UCOW = None" "amap s pd (UXSTACKTOP - TF_SIZE) = Some x"
  shows "\<exists>s1 s2 s3 e1. fork_parent mc entry child s = Some (child, s1) \<and>
    amap s1 pd va = Some e1 \<and> amap s1 cd va = Some e1 \<and> e1 AND PTE_W = 0 \<and> pte_page e1 = pte_page e \<and>
    cow_entry mc va s1 = Some s2 \<and> uwrite8 va b s2 = Some s3 \<and>
    (\<forall>va'. VPN va' = VPN va \<longrightarrow> ubyte s3 pd va' = (if va' = va then b else ubyte s pd va') \<and> ubyte s3 cd va' = ubyte s pd va')"
proof -
  note P = procD [OF p]
  have cd: "cd \<in> D" "cd \<noteq> pd" using ch(1,2) by (auto simp: owns_dir_def)
  have ready: "fork_ready D c pd child cd s xs" using P(1-4) ch(1-3) by (simp add: fork_ready_def)
  from fork_parent_full [OF ready refs q ch(4,5), of mc entry] obtain s1 ys where
    s1: "fork_parent mc entry child s = Some (child, s1)" "as_inv s1 D ys"
    "\<forall>pd' \<in> D. \<forall>va. amap s1 pd' va = (if (pd' = cd \<or> pd' = pd) \<and> UTEMP \<le> va \<and> va < USTACKTOP \<and> amap s pd va \<noteq> None
        then map_option dup_pte (amap s pd va) else amap s pd' va)"
    "curenv s1 = Some c" "owns_dir s1 D c pd" "vpt_window s1 pd" "parent_kept D pd s s1" "length xs \<le> length ys + missing s cd"
    by (elim exE conjE) (rule that)
  obtain f zs where ys: "ys = f # zs" using s1(8) ch(3) by (cases ys) auto
  define e1 where "e1 = dup_pte e"
  have e1: "pte_page e1 = pte_page e" "e1 AND PTE_W = 0" "e1 AND PTE_COW \<noteq> 0"
    using dup_pte_flags(1) [of e] dup_pte_flags(2) [of e] dup_pte_flags(3) [of e] e(2-4) unfolding e1_def by auto
  have a1: "amap s1 pd va = Some e1" "amap s1 cd va = Some e1" "amap s1 pd UCOW = None" "amap s1 pd (UXSTACKTOP - TF_SIZE) = Some x"
    using s1(3) P(5) cd(1) va(1,2) e(1) u by (simp_all add: e1_def)
  have leg: "\<not> is_illegal_va va" "VPN va \<noteq> VPN (UXSTACKTOP - TF_SIZE)"
  proof -
    have lt: "unat va < 4096 * 0x7f3fe" using va(2) by (simp add: word_less_nat_alt)
    then show "\<not> is_illegal_va va" using va(1) by (simp add: is_illegal_va_def word_less_nat_alt word_le_nat_alt)
    show "VPN va \<noteq> VPN (UXSTACKTOP - TF_SIZE)"
    proof
      assume "VPN va = VPN (UXSTACKTOP - TF_SIZE)"
      then have "unat va div 4096 = 0x7f3ff" by (simp add: VPN_def word_unat_eq_iff unat_drop_bit32)
      then show False using lt by auto
    qed
  qed
  have lt: "va < UTOP" by (rule legal_va [OF leg(1)])
  from fault_after_fork [OF s1(7) p cd s1(2) [unfolded ys] s1(4-6) leg(1) va(3) leg(2) e(1) a1(1,2) e1(1,3) a1(3) u(2) a1(4), of mc] obtain s2 zs' e2 where
    s2: "cow_entry mc va s1 = Some s2" "as_inv s2 D zs'" "cur_pgdir s2 = page2addr pd" "amap s2 pd va = Some e2" "e2 AND PTE_W \<noteq> 0"
    "pte_page e2 \<noteq> pte_page e" "pte_page e2 \<notin> tables s2 D" "amap s2 cd va = Some e1"
    "\<forall>off<4096. kmem s2 (page2addr (pte_page e2) + of_nat off) = kmem s (page2addr (pte_page e) + of_nat off) \<and>
       kmem s2 (page2addr (pte_page e) + of_nat off) = kmem s (page2addr (pte_page e) + of_nat off)" by blast
  from write_private [OF s2(2) P(5) s2(3) lt s2(4,5,7), of b] obtain s3 where
    s3: "uwrite8 va b s2 = Some s3" "\<forall>d \<in> D. \<forall>x g. x < UTOP \<longrightarrow> amap s2 d x = Some g \<longrightarrow>
       ubyte s3 d x = (if pte_page g = pte_page e2 \<and> unat x mod 4096 = unat va mod 4096 then b else ubyte s2 d x)" by blast
  have "ubyte s3 pd va' = (if va' = va then b else ubyte s pd va') \<and> ubyte s3 cd va' = ubyte s pd va'" if v: "VPN va' = VPN va" for va'
  proof -
    have m: "amap s2 pd va' = Some e2" "amap s2 cd va' = Some e1" "amap s pd va' = Some e"
      using amap_VPN [OF v, of s2 pd] amap_VPN [OF v, of s2 cd] amap_VPN [OF v, of s pd] s2(4,8) e(1) by simp_all
    have l: "va' < UTOP" by (rule same_VPN_user [OF v [symmetric] lt])
    have pg: "pte_page e2 < NPAGES" "pte_page e < NPAGES" by (rule mapped_ref(2) [OF s2(2) P(5) l m(1)], rule mapped_ref(2) [OF P(1,5) l m(3)])
    have "ubyte s2 pd va' = ubyte s pd va'" "ubyte s2 cd va' = ubyte s pd va'"
      using s2(9) upa_page [OF m(1) pg(1)] upa_page [OF m(2)] upa_page [OF m(3) pg(2)] pg(2) e1(1) by (simp_all add: ubyte_def)
    then show ?thesis using s3(2) P(5) cd(1) l m s2(6) e1(1) VPN_offset [OF v] by simp
  qed
  then show ?thesis using s1(1) a1(1,2) e1(1,2) s2(1) s3(1) by blast
qed

theorem fork_isolates_witness:
  "\<forall>mc. \<exists>s1 s2 s3. fork_parent mc 0x400100 0x1001 wsample = Some (0x1001, s1) \<and> cow_entry mc 0x400003 s1 = Some s2 \<and>
     uwrite8 0x400003 77 s2 = Some s3 \<and> ubyte s3 5 0x400003 = 77 \<and> ubyte s3 6 0x400003 = ubyte wsample 5 0x400003"
proof
  fix mc
  let ?e = "mk_pte 20 (PTE_R OR PTE_W OR PTE_U)" and ?x = "mk_pte 22 (PTE_R OR PTE_W OR PTE_U)"
  have st: "env_status (envs wsample (target 0 0x1001)) = ENV_NOT_RUNNABLE" using w_target by simp
  have m: "amap wsample 5 0x400003 = Some ?e" "amap wsample 5 UCOW = None" "amap wsample 5 (UXSTACKTOP - TF_SIZE) = Some ?x"
    using wuser [of "0x400003"] wuser [of UCOW] wuser [of "UXSTACKTOP - TF_SIZE"] by (simp_all add: VPN_def)
  have "?e = 0x20005017" by (simp add: mk_pte_def page2ptx_def page2addr_def page2sft_def page2ppn_def)
  then have e: "?e AND PTE_W \<noteq> 0" "?e AND PTE_LIBRARY = 0" "?e AND PTE_COW = 0" by simp_all
  have v: "VPN 0x400003 \<noteq> VPN UCOW" by (simp add: VPN_def)
  have "\<exists>s1 s2 s3 e1. fork_parent mc 0x400100 0x1001 wsample = Some (0x1001, s1) \<and>
    amap s1 5 0x400003 = Some e1 \<and> amap s1 6 0x400003 = Some e1 \<and> e1 AND PTE_W = 0 \<and> pte_page e1 = pte_page ?e \<and>
    cow_entry mc 0x400003 s1 = Some s2 \<and> uwrite8 0x400003 77 s2 = Some s3 \<and>
    (\<forall>va'. VPN va' = VPN 0x400003 \<longrightarrow> ubyte s3 5 va' = (if va' = 0x400003 then 77 else ubyte wsample 5 va') \<and> ubyte s3 6 va' = ubyte wsample 5 va')"
    by (rule fork_isolates [OF w_proc w_child _ _ w_target(2) st w_refs w_sched _ _ _ v m(1) e m(2,3)]) (simp_all add: w_missing)
  then show "\<exists>s1 s2 s3. fork_parent mc 0x400100 0x1001 wsample = Some (0x1001, s1) \<and> cow_entry mc 0x400003 s1 = Some s2 \<and>
     uwrite8 0x400003 77 s2 = Some s3 \<and> ubyte s3 5 0x400003 = 77 \<and> ubyte s3 6 0x400003 = ubyte wsample 5 0x400003" by auto
qed

end
