(* ===== verification/Print.thy ===== *)
theory Print
  imports Prelude
begin

text \<open>
  \<^verbatim>\<open>lib/print.c\<close>: the formatter behind \<open>printk\<close>, \<open>debugf\<close> and \<open>fprintf\<close>. The output callback \<open>out\<close> is a
  parameter that receives the bytes of one call and updates the sink's state, \<open>va_list\<close> is the list of
  the arguments not yet consumed. A format string is the list of its characters; reading at its end gives the
  terminating NUL. The automatic array of \<open>print_num\<close> is a list of cells that are \<open>None\<close> until they are
  written, and every access is bounds checked: \<open>None\<close> stands for an access outside the array, an output of
  an uninitialised cell, an argument of the wrong kind or a missing one, and signed overflow of \<open>width\<close>.
\<close>

section \<open>Characters and padding\<close>

datatype va_arg = VaWord u32 | VaStr string

type_synonym 'd fmt_callback_t = "string \<Rightarrow> 'd \<Rightarrow> 'd"

text \<open>A loop that calls \<open>out(data, &c, 1)\<close> \<open>n\<close> times.\<close>

primrec out_times :: "'d fmt_callback_t \<Rightarrow> char \<Rightarrow> nat \<Rightarrow> 'd \<Rightarrow> 'd" where
  "out_times out c 0 d = d"
| "out_times out c (Suc n) d = out_times out c n (out [c] d)"

definition print_char :: "'d fmt_callback_t \<Rightarrow> char \<Rightarrow> nat \<Rightarrow> bool \<Rightarrow> 'd \<Rightarrow> 'd" where
  "print_char out c len ladjust d =
     (let len = (if len < 1 then 1 else len)
      in if ladjust then out_times out CHR '' '' (len - 1) (out [c] d)
         else out [c] (out_times out CHR '' '' (len - 1) d))"

definition print_str :: "'d fmt_callback_t \<Rightarrow> string \<Rightarrow> nat \<Rightarrow> bool \<Rightarrow> 'd \<Rightarrow> 'd" where
  "print_str out s width ladjust d =
     (let len = length s; width = (if width < len then len else width)
      in if ladjust then out_times out CHR '' '' (width - len) (out s d)
         else out s (out_times out CHR '' '' (width - len) d))"

section \<open>print_num\<close>

type_synonym cbuf = "char option list"

definition buf_put :: "cbuf \<Rightarrow> nat \<Rightarrow> char option \<Rightarrow> cbuf option" where
  "buf_put b i c = (if i < length b then Some (b[i := c]) else None)"

definition buf_get :: "cbuf \<Rightarrow> nat \<Rightarrow> char option option" where
  "buf_get b i = (if i < length b then Some (b ! i) else None)"

definition digit_char :: "bool \<Rightarrow> nat \<Rightarrow> char" where
  "digit_char upcase tmp =
     (if tmp \<le> 9 then char_of (48 + tmp)
      else if upcase then char_of (65 + tmp - 10) else char_of (97 + tmp - 10))"

text \<open>The \<open>do ... while (u != 0)\<close> loop: least significant digit first.\<close>

function num_digits :: "cbuf \<Rightarrow> nat \<Rightarrow> u32 \<Rightarrow> u32 \<Rightarrow> bool \<Rightarrow> (cbuf \<times> nat) option" where
  "num_digits b p u base upcase =
     (case buf_put b p (Some (digit_char upcase (unat (u mod base)))) of
        None \<Rightarrow> None
      | Some b' \<Rightarrow> if u div base \<noteq> 0 then num_digits b' (p + 1) (u div base) base upcase
                  else Some (b', p + 1))"
  by pat_completeness auto
termination
  by (relation "measure (\<lambda>(b, p, u, base, upcase). length b - p)") (auto simp: buf_put_def split: if_splits)

text \<open>The padding loops \<open>for (i = lo; i < hi; i++) buf[i] = padc\<close>, by the number of cells left.\<close>

primrec fill_cells :: "cbuf \<Rightarrow> nat \<Rightarrow> nat \<Rightarrow> char \<Rightarrow> cbuf option" where
  "fill_cells b i 0 c = Some b"
| "fill_cells b i (Suc n) c = do { b \<leftarrow> buf_put b i (Some c); fill_cells b (Suc i) n c }"

function reverse_cells :: "cbuf \<Rightarrow> nat \<Rightarrow> nat \<Rightarrow> cbuf option" where
  "reverse_cells b i j =
     (if j > i then
        (case buf_get b i of None \<Rightarrow> None | Some tmp \<Rightarrow>
         case buf_get b j of None \<Rightarrow> None | Some y \<Rightarrow>
         case buf_put b i y of None \<Rightarrow> None | Some b1 \<Rightarrow>
         case buf_put b1 j tmp of None \<Rightarrow> None | Some b2 \<Rightarrow> reverse_cells b2 (i + 1) (j - 1))
      else Some b)"
  by pat_completeness auto
termination
  by (relation "measure (\<lambda>(b, i, j). j - i)") auto

declare num_digits.simps [simp del] reverse_cells.simps [simp del]

definition int_max :: nat where
  "int_max = 2 ^ 31 - 1"

text \<open>The second half of \<open>print_num\<close>: padding, reversal and output of a number whose reversed digits are in \<open>buf\<close>.\<close>

definition pad_and_out ::
  "'d fmt_callback_t \<Rightarrow> bool \<Rightarrow> nat \<Rightarrow> bool \<Rightarrow> char \<Rightarrow> cbuf \<Rightarrow> nat \<Rightarrow> 'd \<Rightarrow> 'd option"
where
  "pad_and_out out neg_flag len ladjust padc b actualLength d =
     (let len = (if len < actualLength then actualLength else len);
          padc = (if ladjust then CHR '' '' else padc);
          fin = (if ladjust then actualLength - 1 else len - 1)
      in do { b \<leftarrow> (if neg_flag \<and> \<not> ladjust \<and> padc = CHR ''0'' then
                     do { b \<leftarrow> fill_cells b (actualLength - 1) (len - actualLength) padc;
                          buf_put b (len - 1) (Some CHR ''-'') }
                   else fill_cells b actualLength (len - actualLength) padc);
              b \<leftarrow> reverse_cells b 0 fin;
              s \<leftarrow> those (take len b);
              Some (out s d) })"

definition print_num ::
  "'d fmt_callback_t \<Rightarrow> u32 \<Rightarrow> u32 \<Rightarrow> bool \<Rightarrow> nat \<Rightarrow> bool \<Rightarrow> char \<Rightarrow> bool \<Rightarrow> 'd \<Rightarrow> 'd option"
where
  "print_num out u base neg_flag len ladjust padc upcase d =
     (if len + 70 > int_max then None else
      do { (b, p) \<leftarrow> num_digits (replicate (len + 70) None) 0 u base upcase;
           (b, p) \<leftarrow> (if neg_flag then do { b \<leftarrow> buf_put b p (Some CHR ''-''); Some (b, p + 1) }
                      else Some (b, p));
           pad_and_out out neg_flag len ladjust padc b p d })"

section \<open>vprintfmt\<close>

text \<open>\<open>*fmt\<close> and \<open>++fmt\<close>.\<close>

definition cur :: "string \<Rightarrow> char" where
  "cur fmt = (case fmt of [] \<Rightarrow> CHR 0x00 | c # _ \<Rightarrow> c)"

fun scan_plain :: "'d fmt_callback_t \<Rightarrow> string \<Rightarrow> 'd \<Rightarrow> string \<times> 'd" where
  "scan_plain out [] d = ([], d)"
| "scan_plain out (c # cs) d =
     (if c \<noteq> CHR 0x00 \<and> c \<noteq> CHR ''%'' then scan_plain out cs (out [c] d) else (c # cs, d))"

definition is_dec :: "char \<Rightarrow> bool" where
  "is_dec c \<longleftrightarrow> 48 \<le> (of_char c :: nat) \<and> (of_char c :: nat) \<le> 57"

fun scan_width :: "string \<Rightarrow> nat \<Rightarrow> (nat \<times> string) option" where
  "scan_width [] w = Some (w, [])"
| "scan_width (c # cs) w =
     (if is_dec c then
        (if w * 10 + of_char c > int_max then None else scan_width cs (w * 10 + of_char c - 48))
      else Some (w, c # cs))"

fun va_word :: "va_arg list \<Rightarrow> (u32 \<times> va_arg list) option" where
  "va_word (VaWord w # ap) = Some (w, ap)"
| "va_word _ = None"

fun va_str :: "va_arg list \<Rightarrow> (string \<times> va_arg list) option" where
  "va_str (VaStr s # ap) = Some (s, ap)"
| "va_str _ = None"

text \<open>
  The \<open>switch (*fmt)\<close>: consumes the argument of the conversion character \<open>c\<close>. \<open>int\<close> and \<open>long\<close> are both 32
  bits wide, so \<open>long_flag\<close> selects between two reads of the same width. \<open>-num\<close> wraps.
\<close>

definition conversion ::
  "'d fmt_callback_t \<Rightarrow> char \<Rightarrow> bool \<Rightarrow> nat \<Rightarrow> bool \<Rightarrow> char \<Rightarrow> va_arg list \<Rightarrow> 'd \<Rightarrow> (va_arg list \<times> 'd) option"
where
  "conversion out c long_flag width ladjust padc ap d =
     (let number = (\<lambda>base upcase. do {
             (num, ap) \<leftarrow> (if long_flag then va_word ap else va_word ap);
             d \<leftarrow> print_num out num base False width ladjust padc upcase d;
             Some (ap, d) })
      in if c = CHR ''b'' then number 2 False
         else if c = CHR ''d'' \<or> c = CHR ''D'' then do {
           (num, ap) \<leftarrow> (if long_flag then va_word ap else va_word ap);
           let neg_flag = num <s 0; num = (if neg_flag then - num else num)
           in do { d \<leftarrow> print_num out num 10 neg_flag width ladjust padc False d; Some (ap, d) } }
         else if c = CHR ''o'' \<or> c = CHR ''O'' then number 8 False
         else if c = CHR ''u'' \<or> c = CHR ''U'' then number 10 False
         else if c = CHR ''x'' then number 16 False
         else if c = CHR ''X'' then number 16 True
         else if c = CHR ''c'' then do {
           (w, ap) \<leftarrow> va_word ap; Some (ap, print_char out (char_of (unat w)) width ladjust d) }
         else if c = CHR ''s'' then do {
           (s, ap) \<leftarrow> va_str ap; Some (ap, print_str out s width ladjust d) }
         else Some (ap, out [c] d))"

text \<open>One directive, entered just after its \<open>%\<close>: flags, width, \<open>l\<close> and the conversion.\<close>

definition directive_c ::
  "'d fmt_callback_t \<Rightarrow> string \<Rightarrow> va_arg list \<Rightarrow> 'd \<Rightarrow> (string \<times> va_arg list \<times> 'd) option"
where
  "directive_c out fmt ap d =
     (let ladjust = (cur fmt = CHR ''-'');
          padc = (if cur fmt = CHR ''0'' then CHR ''0'' else CHR '' '');
          fmt = (if cur fmt = CHR ''-'' \<or> cur fmt = CHR ''0'' then tl fmt else fmt)
      in do { (width, fmt) \<leftarrow> scan_width fmt 0;
              let long_flag = (cur fmt = CHR ''l'');
                  fmt = (if long_flag then tl fmt else fmt)
              in if cur fmt = CHR 0x00 then Some (fmt, ap, d)
                 else do { (ap, d) \<leftarrow> conversion out (cur fmt) long_flag width ladjust padc ap d;
                           Some (tl fmt, ap, d) } })"

lemma scan_plain_length: "length (fst (scan_plain out fmt d)) \<le> length fmt"
  by (induction out fmt d rule: scan_plain.induct) auto

lemma scan_width_length: "scan_width fmt w = Some (w', fmt') \<Longrightarrow> length fmt' \<le> length fmt"
  by (induction fmt w arbitrary: w' fmt' rule: scan_width.induct) (auto split: if_splits dest: le_SucI)

lemma directive_c_length:
  assumes "directive_c out fmt ap d = Some (fmt', ap', d')"
  shows "length fmt' \<le> length fmt"
  using assms
  by (auto simp: directive_c_def Let_def bind_eq_Some_conv split: if_splits dest!: scan_width_length)

function vprintfmt :: "'d fmt_callback_t \<Rightarrow> string \<Rightarrow> va_arg list \<Rightarrow> 'd \<Rightarrow> 'd option" where
  "vprintfmt out fmt ap d =
     (case scan_plain out fmt d of (fmt1, d1) \<Rightarrow>
        if cur fmt1 = CHR 0x00 then Some d1
        else (case directive_c out (tl fmt1) ap d1 of
                None \<Rightarrow> None
              | Some (fmt2, ap2, d2) \<Rightarrow> vprintfmt out fmt2 ap2 d2))"
  by pat_completeness auto
termination
proof (relation "measure (\<lambda>(out, fmt, ap, d). length fmt)", goal_cases)
  case (2 out fmt ap d fmt1 d1 x fmt2 y ap2 d2)
  have "fmt1 \<noteq> []" using 2 by (auto simp: cur_def)
  moreover have "length fmt1 \<le> length fmt" using scan_plain_length [of out fmt d] 2(1) [symmetric] by simp
  moreover have "length fmt2 \<le> length (tl fmt1)"
    using 2 by (intro directive_c_length [of out "tl fmt1" ap d1 fmt2 ap2 d2]) simp
  ultimately show ?case by (cases fmt1) auto
qed simp

declare vprintfmt.simps [simp del]

section \<open>What print_num prints\<close>

text \<open>The reference: positional notation, most significant digit first.\<close>

function nat_digits :: "nat \<Rightarrow> nat \<Rightarrow> nat list" where
  "nat_digits base n =
     (if base < 2 \<or> n < base then [n] else nat_digits base (n div base) @ [n mod base])"
  by pat_completeness auto
termination
  by (relation "measure snd") auto

declare nat_digits.simps [simp del]

definition horner :: "nat \<Rightarrow> nat list \<Rightarrow> nat" where
  "horner base = foldl (\<lambda>a d. a * base + d) 0"

lemma nat_digits_value: "horner base (nat_digits base n) = n"
proof (induction base n rule: nat_digits.induct)
  case (1 base n)
  then show ?case by (subst nat_digits.simps) (auto simp: horner_def)
qed

lemma nat_digits_ne: "nat_digits base n \<noteq> []"
  by (subst nat_digits.simps) auto

lemma nat_digits_less: "2 \<le> base \<Longrightarrow> \<forall>x\<in>set (nat_digits base n). x < base"
proof (induction base n rule: nat_digits.induct)
  case (1 base n)
  then show ?case by (subst nat_digits.simps) auto
qed

lemma nat_digits_length: "2 \<le> base \<Longrightarrow> n < 2 ^ Suc k \<Longrightarrow> length (nat_digits base n) \<le> Suc k"
proof (induction k arbitrary: n)
  case 0
  then show ?case by (subst nat_digits.simps) auto
next
  case (Suc k)
  have "n div base \<le> n div 2" using Suc.prems(1) by (rule div_le_mono2 [rotated]) simp
  also have "\<dots> < 2 ^ Suc k" using Suc.prems(2) by simp
  finally show ?case using Suc by (subst nat_digits.simps) auto
qed

lemma nat_digits_hd: "2 \<le> base \<Longrightarrow> 0 < n \<Longrightarrow> hd (nat_digits base n) \<noteq> 0"
proof (induction base n rule: nat_digits.induct)
  case (1 base n)
  show ?case
  proof (cases "n < base")
    case False
    then have "0 < n div base" using 1 by (simp add: div_greater_zero_iff)
    then show ?thesis using 1 False nat_digits_ne
      by (subst nat_digits.simps) (simp add: hd_append)
  qed (use 1 in \<open>subst nat_digits.simps, simp\<close>)
qed

lemma buf_put_app [simp]: "buf_put (xs @ x # ys) (length xs) c = Some (xs @ c # ys)"
  by (simp add: buf_put_def)

lemma buf_get_app [simp]: "buf_get (xs @ x # ys) (length xs) = Some x"
  by (simp add: buf_get_def)

lemma num_digits_spec:
  assumes "2 \<le> unat base" and "length junk = length (nat_digits (unat base) (unat u))"
  shows "num_digits (pre @ junk @ post) (length pre) u base up =
           Some (pre @ rev (map (Some \<circ> digit_char up) (nat_digits (unat base) (unat u))) @ post,
                 length pre + length junk)"
  using assms
proof (induction "unat u" arbitrary: u pre junk rule: less_induct)
  case less
  let ?b = "unat base" and ?u = "unat u"
  obtain x j where j: "junk = x # j" using less.prems nat_digits_ne [of ?b ?u] by (cases junk) auto
  let ?c = "Some (digit_char up (?u mod ?b))"
  have z: "u div base = 0 \<longleftrightarrow> ?u < ?b" using less.prems(1)
    by (simp add: word_unat_eq_iff unat_div) (metis div_eq_0_iff not_numeral_le_zero)
  show ?case
  proof (cases "?u < ?b")
    case True
    then have "nat_digits ?b ?u = [?u]" by (subst nat_digits.simps) simp
    then show ?thesis using True z less.prems j
      by (subst num_digits.simps) (simp add: unat_mod)
  next
    case False
    have lt: "unat (u div base) < ?u" using False less.prems(1)
      by (simp add: unat_div)
    have dg: "nat_digits ?b ?u = nat_digits ?b (?u div ?b) @ [?u mod ?b]"
      using False less.prems(1) by (subst nat_digits.simps) simp
    have "num_digits ((pre @ [?c]) @ j @ post) (length (pre @ [?c])) (u div base) base up =
            Some ((pre @ [?c]) @ rev (map (Some \<circ> digit_char up) (nat_digits ?b (?u div ?b))) @ post,
                  length (pre @ [?c]) + length j)"
      using less.hyps [OF lt less.prems(1), of j "pre @ [?c]"] less.prems(2) j dg
      by (simp add: unat_div)
    then show ?thesis using False z j dg
      by (subst num_digits.simps) (simp add: unat_mod)
  qed
qed

lemma fill_cells_spec:
  "length junk = n \<Longrightarrow>
   fill_cells (pre @ junk @ post) (length pre) n c = Some (pre @ replicate n (Some c) @ post)"
proof (induction n arbitrary: pre junk)
  case (Suc n)
  obtain x j where j: "junk = x # j" "length j = n" using Suc.prems by (cases junk) auto
  show ?case using Suc.IH [of j "pre @ [Some c]"] j by simp
qed simp

lemma reverse_cells_spec:
  "reverse_cells (pre @ xs @ post) (length pre) (length pre + length xs - 1) =
     Some (pre @ rev xs @ post)"
proof (induction "length xs" arbitrary: pre xs post rule: less_induct)
  case less
  show ?case
  proof (cases "length xs \<le> 1")
    case True
    then show ?thesis by (subst reverse_cells.simps) (cases xs, auto)
  next
    case False
    then obtain x mid y where xs: "xs = x # mid @ [y]"
      by (cases xs; cases "tl xs" rule: rev_cases) auto
    have e: "length pre + length xs - 1 = length (pre @ x # mid)" using xs by simp
    have "reverse_cells ((pre @ [y]) @ mid @ x # post) (length (pre @ [y]))
            (length (pre @ [y]) + length mid - 1) = Some ((pre @ [y]) @ rev mid @ x # post)"
      by (rule less) (simp add: xs)
    moreover have "buf_get (pre @ xs @ post) (length (pre @ x # mid)) = Some y"
      using buf_get_app [of "pre @ x # mid" y post] xs by simp
    moreover have "buf_put (pre @ y # mid @ y # post) (length (pre @ x # mid)) (x) =
        Some (pre @ y # mid @ x # post)"
      using buf_put_app [of "pre @ y # mid" y post x] by simp
    ultimately show ?thesis unfolding e using xs
      by (subst reverse_cells.simps) simp
  qed
qed

definition fmt_num :: "nat \<Rightarrow> bool \<Rightarrow> nat \<Rightarrow> bool \<Rightarrow> char \<Rightarrow> bool \<Rightarrow> nat \<Rightarrow> string" where
  "fmt_num base neg len ladjust padc upcase n =
     (let ds = map (digit_char upcase) (nat_digits base n);
          sign = (if neg then ''-'' else []);
          k = len - length (sign @ ds)
      in if ladjust then sign @ ds @ replicate k CHR '' ''
         else if padc = CHR ''0'' then sign @ replicate k CHR ''0'' @ ds
         else replicate k padc @ sign @ ds)"

lemma those_map_Some [simp]: "those (map Some s) = Some s"
  by (induction s) auto

lemma finish_cells:
  "reverse_cells (rev xs @ post) 0 (length xs - Suc 0) = Some (xs @ post)"
  using reverse_cells_spec [of "[]" "rev xs" post] by simp

lemma sign_cells:
  assumes "rest \<noteq> []"
  shows "\<exists>rest'. (if neg then do { b \<leftarrow> buf_put (map Some (rev ds) @ rest) (length ds) (Some CHR ''-'');
                                  Some (b, length ds + 1) }
                 else Some (map Some (rev ds) @ rest, length ds)) =
                Some (map Some (rev ((if neg then ''-'' else []) @ ds)) @ rest',
                      length ((if neg then ''-'' else []) @ ds)) \<and> length rest \<le> length rest' + 1"
  using assms buf_put_app [of "map Some (rev ds)" "hd rest" "tl rest" "Some CHR ''-''"]
  by (intro exI [of _ "if neg then tl rest else rest"]) (cases rest; simp)

lemma fill_tail:
  assumes "n < length tail"
  shows "\<exists>x post. tail = take n tail @ x # post \<and>
           fill_cells (pre @ tail) (length pre) n c = Some (pre @ replicate n (Some c) @ x # post)"
proof -
  obtain x post where p: "drop n tail = x # post" using assms by (cases "drop n tail") auto
  then have t: "tail = take n tail @ x # post" by (metis append_take_drop_id)
  show ?thesis using fill_cells_spec [of "take n tail" n pre "x # post" c] t assms
    by (intro exI [of _ x] exI [of _ post]) (auto simp: p)
qed

text \<open>Zero padding of a negative number: the sign cell is overwritten and put back at the far end.\<close>

lemma zero_pad_neg:
  assumes "k < length rest"
  shows "\<exists>post. (do { b \<leftarrow> fill_cells (map Some (rev (CHR ''-'' # ds)) @ rest) (length ds) k c;
                      buf_put b (length ds + k) (Some CHR ''-'') }) =
                Some (rev (map Some (CHR ''-'' # replicate k c @ ds)) @ post)"
proof -
  obtain x post where
    "fill_cells (map Some (rev ds) @ (Some CHR ''-'' # rest)) (length (map Some (rev ds))) k c =
       Some (map Some (rev ds) @ replicate k (Some c) @ x # post)"
    using fill_tail [of k "Some CHR ''-'' # rest" "map Some (rev ds)" c] assms by auto
  then show ?thesis using buf_put_app [of "map Some (rev ds) @ replicate k (Some c)" x post "Some CHR ''-''"]
    by (simp add: rev_map)
qed

lemma plain_pad:
  assumes "k < length rest"
  shows "\<exists>post. fill_cells (map Some (rev s) @ rest) (length s) k c =
                Some (rev (map Some (replicate k c @ s)) @ post)"
  using fill_tail [OF assms, of "map Some (rev s)" c] by (auto simp: rev_map)

lemma emit_cells:
  assumes "n = length s + length w" and "j = length s - 1"
  shows "do { b \<leftarrow> reverse_cells (rev (map Some s) @ map Some w @ post) 0 j;
              t \<leftarrow> those (take n b); Some (out t d) } = Some (out (s @ w) d)"
proof -
  have "take n (map Some s @ map Some w @ post) = map Some (s @ w)" using assms(1) by simp
  then show ?thesis using finish_cells [of "map Some s" "map Some w @ post"] assms
    by (simp del: map_append)
qed

lemma pad_and_out_spec:
  fixes neg ds padc ladjust len
  defines "s \<equiv> (if neg then ''-'' else []) @ ds"
  assumes "ds \<noteq> []" and "len - length s < length rest"
  shows "pad_and_out out neg len ladjust padc (map Some (rev s) @ rest) (length s) d =
           Some (out (if ladjust then s @ replicate (len - length s) CHR '' ''
                      else if neg \<and> padc = CHR ''0'' then ''-'' @ replicate (len - length s) padc @ ds
                      else replicate (len - length s) padc @ s) d)"
proof -
  define k where "k = len - length s"
  define M where "M = (if len < length s then length s else len)"
  define c where "c = (if ladjust then CHR '' '' else padc)"
  have kr: "k < length rest" using assms(3) by (simp add: k_def)
  have M: "M = k + length s" "M - length s = k" by (auto simp: M_def k_def)
  note defs = pad_and_out_def Let_def M_def [symmetric] k_def [symmetric] c_def [symmetric] M(2)
  show ?thesis
  proof (cases "neg \<and> \<not> ladjust \<and> padc = CHR ''0''")
    case True
    then have sd: "s = CHR ''-'' # ds" "c = padc" by (simp_all add: s_def c_def)
    obtain post where
      "do { b \<leftarrow> fill_cells (map Some (rev s) @ rest) (length ds) k c;
            buf_put b (length ds + k) (Some CHR ''-'') } =
         Some (rev (map Some (CHR ''-'' # replicate k padc @ ds)) @ post)"
      using zero_pad_neg [OF kr, of ds padc] sd by auto
    moreover have "M - 1 = length ds + k" "length s - 1 = length ds" using M sd by auto
    ultimately show ?thesis
      using True sd M emit_cells [of M "CHR ''-'' # replicate k padc @ ds" "[]" "M - 1" post out d]
      unfolding defs by (simp add: add.commute [of "length ds"] del: bind_assoc)
  next
    case False
    obtain post where
      *: "fill_cells (map Some (rev s) @ rest) (length s) k c =
          Some (rev (map Some (replicate k c @ s)) @ post)"
      using plain_pad [OF kr, of s c] by auto
    show ?thesis
      using False * M emit_cells [of M "replicate k c @ s" "[]" "M - 1" post out d]
        emit_cells [of M s "replicate k c" "length s - 1" post out d]
      unfolding defs by (auto simp: c_def)
  qed
qed

lemma print_num_spec:
  assumes base: "2 \<le> unat base" and len: "len + 70 \<le> int_max"
  shows "print_num out u base neg len ladjust padc upcase d =
           Some (out (fmt_num (unat base) neg len ladjust padc upcase (unat u)) d)"
proof -
  define ds where "ds = map (digit_char upcase) (nat_digits (unat base) (unat u))"
  define s where "s = (if neg then ''-'' else []) @ ds"
  define rest :: cbuf where "rest = replicate (len + 70 - length ds) None"
  have L: "length ds \<le> 32" "ds \<noteq> []"
    using nat_digits_length [OF base, of "unat u" 31] unsigned_less [of u] nat_digits_ne [of "unat base" "unat u"]
    by (simp_all add: ds_def)
  have "num_digits (replicate (len + 70) None) 0 u base upcase = Some (map Some (rev ds) @ rest, length ds)"
    using num_digits_spec [OF base, of "replicate (length ds) None" u "[]" rest upcase] L
    by (simp add: ds_def rest_def replicate_add [symmetric] rev_map)
  moreover obtain rest' where
    "(if neg then do { b \<leftarrow> buf_put (map Some (rev ds) @ rest) (length ds) (Some CHR ''-'');
                       Some (b, length ds + 1) }
      else Some (map Some (rev ds) @ rest, length ds)) = Some (map Some (rev s) @ rest', length s)"
    and "length rest \<le> length rest' + 1"
    using sign_cells [of rest neg ds] L by (auto simp: rest_def s_def)
  moreover from this(2) have "len - length s < length rest'" using L by (simp add: rest_def s_def)
  ultimately show ?thesis using pad_and_out_spec [of ds len neg rest' out ladjust padc d] L len
    unfolding print_num_def by (simp add: s_def [symmetric] fmt_num_def Let_def ds_def [symmetric]) (simp add: s_def)
qed

section \<open>What vprintfmt prints\<close>

text \<open>
  The format language: a plain character or a directive with its flags, its width (0 when absent), \<open>l\<close> and
  the conversion character; \<open>show_dir\<close> is its concrete syntax and \<open>render\<close> its meaning.
\<close>

datatype directive = Plain char | Dir bool bool nat bool char

definition conv_chars :: string where
  "conv_chars = ''bdDoOuUxXcs%''"

fun wf_dir :: "directive \<Rightarrow> bool" where
  "wf_dir (Plain c) \<longleftrightarrow> c \<noteq> CHR 0x00 \<and> c \<noteq> CHR ''%''"
| "wf_dir (Dir left zero w lng c) \<longleftrightarrow>
     \<not> (left \<and> zero) \<and> w + 70 \<le> int_max \<and> c \<in> set conv_chars"

fun show_dir :: "directive \<Rightarrow> string" where
  "show_dir (Plain c) = [c]"
| "show_dir (Dir left zero w lng c) =
     CHR ''%'' # (if left then ''-'' else if zero then ''0'' else []) @
     (if w = 0 then [] else map (digit_char False) (nat_digits 10 w)) @
     (if lng then ''l'' else []) @ [c]"

definition pad_to :: "bool \<Rightarrow> nat \<Rightarrow> string \<Rightarrow> string" where
  "pad_to left w s =
     (if left then s @ replicate (w - length s) CHR '' '' else replicate (w - length s) CHR '' '' @ s)"

definition conv_base :: "char \<Rightarrow> nat" where
  "conv_base c = (if c = CHR ''b'' then 2 else if c \<in> {CHR ''o'', CHR ''O''} then 8
                  else if c \<in> {CHR ''x'', CHR ''X''} then 16 else 10)"

fun render :: "directive \<Rightarrow> va_arg list \<Rightarrow> (string \<times> va_arg list) option" where
  "render (Plain c) ap = Some ([c], ap)"
| "render (Dir left zero w lng c) ap =
     (let padc = (if zero then CHR ''0'' else CHR '' '')
      in if c = CHR ''%'' then Some (''%'', ap)
         else if c = CHR ''c'' then
           map_option (\<lambda>(n, ap). (pad_to left w [char_of (unat n)], ap)) (va_word ap)
         else if c = CHR ''s'' then map_option (\<lambda>(s, ap). (pad_to left w s, ap)) (va_str ap)
         else if c \<in> {CHR ''d'', CHR ''D''} then
           map_option (\<lambda>(n, ap). (fmt_num 10 (sint n < 0) w left padc False (nat \<bar>sint n\<bar>), ap)) (va_word ap)
         else
           map_option (\<lambda>(n, ap). (fmt_num (conv_base c) False w left padc (c = CHR ''X'') (unat n), ap))
             (va_word ap))"

fun render_all :: "directive list \<Rightarrow> va_arg list \<Rightarrow> string option" where
  "render_all [] ap = Some []"
| "render_all (x # xs) ap =
     do { (s, ap) \<leftarrow> render x ap; t \<leftarrow> render_all xs ap; Some (s @ t) }"

text \<open>A sink that collects what it is given.\<close>

definition collect :: "string fmt_callback_t" where
  "collect s d = d @ s"

lemma out_times_collect [simp]: "out_times collect c n d = d @ replicate n c"
  by (induction n arbitrary: d) (auto simp: collect_def replicate_app_Cons_same)

lemma print_char_collect: "print_char collect c w left d = d @ pad_to left w [c]"
  by (simp add: print_char_def pad_to_def Let_def) (simp add: collect_def)

lemma print_str_collect: "print_str collect s w left d = d @ pad_to left w s"
  by (simp add: print_str_def pad_to_def Let_def) (simp add: collect_def)

lemma of_char_digit: "x < 10 \<Longrightarrow> of_char (digit_char up x) = 48 + x"
  by (simp add: digit_char_def)

lemma foldl_horner_ge: "(a :: nat) \<le> foldl (\<lambda>a d. a * 10 + d) a ds"
proof (induction ds arbitrary: a)
  case (Cons d ds)
  have "a \<le> a * 10 + d" by simp
  also have "\<dots> \<le> foldl (\<lambda>a d. a * 10 + d) (a * 10 + d) ds" by (rule Cons)
  finally show ?case by simp
qed simp

lemma scan_width_digits:
  assumes "\<forall>x\<in>set ds. x < 10" and "foldl (\<lambda>a d. a * 10 + d) w ds + 48 \<le> int_max" and "\<not> is_dec c"
  shows "scan_width (map (digit_char False) ds @ c # rest) w =
           Some (foldl (\<lambda>a d. a * 10 + d) w ds, c # rest)"
  using assms
proof (induction ds arbitrary: w)
  case (Cons d ds)
  have "is_dec (digit_char False d)" using Cons.prems by (simp add: is_dec_def of_char_digit)
  moreover have "w * 10 + d + 48 \<le> int_max"
    using foldl_horner_ge [of "w * 10 + d" ds] Cons.prems(2) by simp
  ultimately show ?case using Cons by (simp add: of_char_digit)
qed simp

lemma scan_width_shown:
  assumes "w + 70 \<le> int_max" and "\<not> is_dec c"
  shows "scan_width ((if w = 0 then [] else map (digit_char False) (nat_digits 10 w)) @ c # rest) 0 =
           Some (w, c # rest)"
  using scan_width_digits [of "nat_digits 10 w" 0 c rest] nat_digits_less [of 10 w]
    nat_digits_value [of 10 w] assms by (simp add: horner_def)

lemma unat_abs_sint: "unat (if sint n < 0 then - n else n :: u32) = nat \<bar>sint n\<bar>"
proof (cases "uint n < 2 ^ 31")
  case True
  then show ?thesis by (simp add: sint_u32)
next
  case False
  have n: "uint n < 2 ^ 32" using unsigned_less [of n] by simp
  then have "uint (- n) = 2 ^ 32 - uint n" using False
    by (simp add: uint_word_ariths zmod_zminus1_eq_if)
  then show ?thesis using False n by (simp add: sint_u32 unat_eq_nat_uint)
qed

lemma conversion_num:
  assumes "w + 70 \<le> int_max" and "c \<in> {CHR ''b'', CHR ''o'', CHR ''O'', CHR ''u'', CHR ''U'', CHR ''x'', CHR ''X''}"
  shows "conversion collect c lng w left padc ap d =
           map_option (\<lambda>(n, ap). (ap, d @ fmt_num (conv_base c) False w left padc (c = CHR ''X'') (unat n)))
             (va_word ap)"
  using assms(2)
  by (elim insertE emptyE; cases "va_word ap")
     (simp_all add: conversion_def conv_base_def print_num_spec [OF _ assms(1)] collect_def split: prod.split)

lemma print_signed:
  assumes "w + 70 \<le> int_max"
  shows "print_num out (if n <s 0 then - n else n) 10 (n <s 0) w left padc False d =
         Some (out (fmt_num 10 (sint n < 0) w left padc False (nat \<bar>sint n\<bar>)) d)"
proof -
  have sg: "(n :: u32) <s 0 \<longleftrightarrow> sint n < 0" by (simp add: word_sless_alt)
  have b: "2 \<le> unat (10 :: u32)" "unat (10 :: u32) = 10" by simp_all
  show ?thesis unfolding Let_def sg print_num_spec [OF b(1) assms] unat_abs_sint b(2) by (rule refl)
qed

lemma conversion_signed:
  assumes "w + 70 \<le> int_max" and "c \<in> {CHR ''d'', CHR ''D''}"
  shows "conversion collect c lng w left padc ap d =
           map_option (\<lambda>(n, ap). (ap, d @ fmt_num 10 (sint n < 0) w left padc False (nat \<bar>sint n\<bar>)))
             (va_word ap)"
proof -
  have c: "c \<noteq> CHR ''b''" "c = CHR ''d'' \<or> c = CHR ''D''" using assms(2) by auto
  show ?thesis
    unfolding conversion_def Let_def if_not_P [OF c(1)] if_P [OF c(2)] if_cancel print_signed [OF assms(1)]
    by (cases "va_word ap") (simp_all add: collect_def split_def)
qed

lemma conversion_render:
  assumes "c \<in> set conv_chars" and "w + 70 \<le> int_max"
  shows "conversion collect c lng w left (if zero then CHR ''0'' else CHR '' '') ap d =
           map_option (\<lambda>(s, ap). (ap, d @ s)) (render (Dir left zero w lng c) ap)"
proof -
  have "c = CHR ''b'' \<or> c = CHR ''d'' \<or> c = CHR ''D'' \<or> c = CHR ''o'' \<or> c = CHR ''O'' \<or> c = CHR ''u'' \<or>
      c = CHR ''U'' \<or> c = CHR ''x'' \<or> c = CHR ''X'' \<or> c = CHR ''c'' \<or> c = CHR ''s'' \<or> c = CHR ''%''"
    using assms(1) by (simp add: conv_chars_def)
  then consider "c \<in> {CHR ''b'', CHR ''o'', CHR ''O'', CHR ''u'', CHR ''U'', CHR ''x'', CHR ''X''}"
    | "c \<in> {CHR ''d'', CHR ''D''}" | "c = CHR ''c''" | "c = CHR ''s''" | "c = CHR ''%''"
    by (elim disjE; simp)
  then show ?thesis
  proof cases
    case 1
    then show ?thesis using conversion_num [OF assms(2) 1]
      by (auto simp: option.map_comp comp_def split_def)
  next
    case 2
    then show ?thesis using conversion_signed [OF assms(2) 2]
      by (auto simp: option.map_comp comp_def split_def)
  next
    case 3
    then show ?thesis by (cases "va_word ap") (auto simp: conversion_def print_char_collect)
  next
    case 4
    then show ?thesis by (cases "va_str ap") (auto simp: conversion_def print_str_collect)
  qed (simp add: conversion_def collect_def)
qed

lemma directive_c_render:
  assumes "wf_dir (Dir left zero w lng c)"
  shows "directive_c collect (tl (show_dir (Dir left zero w lng c)) @ rest) ap d =
           map_option (\<lambda>(s, ap). (rest, ap, d @ s)) (render (Dir left zero w lng c) ap)"
proof -
  let ?num = "if w = 0 then [] else map (digit_char False) (nat_digits 10 w)"
  let ?tail = "?num @ (if lng then ''l'' else []) @ c # rest"
  have c: "\<not> is_dec c" "c \<noteq> CHR ''l''" "c \<noteq> CHR ''-''" "c \<noteq> CHR ''0''" "c \<noteq> CHR 0x00"
    using assms by (auto simp: conv_chars_def is_dec_def)
  have l: "\<not> is_dec CHR ''l''" by (simp add: is_dec_def)
  have h: "cur ?tail \<noteq> CHR ''-'' \<and> cur ?tail \<noteq> CHR ''0''"
  proof (cases "w = 0")
    case False
    define x where "x = hd (nat_digits 10 w)"
    have x: "x < 10" "x \<noteq> 0" unfolding x_def
      using nat_digits_less [of 10 w] nat_digits_ne [of 10 w] nat_digits_hd [of 10 w] False by auto
    then have "cur ?tail = digit_char False x" using nat_digits_ne [of 10 w] False
      by (cases "nat_digits 10 w") (auto simp: cur_def x_def)
    then show ?thesis using of_char_digit [OF x(1), of False] x(2) by auto
  qed (use c in \<open>simp add: cur_def\<close>)
  have sw: "scan_width ?tail 0 = Some (w, (if lng then ''l'' else []) @ c # rest)"
    using scan_width_shown [of w "CHR ''l''" "c # rest"] scan_width_shown [of w c rest] c(1) assms l
    by (cases lng) (simp_all del: scan_width.simps)
  have "directive_c collect (tl (show_dir (Dir left zero w lng c)) @ rest) ap d =
      do { (ap, d) \<leftarrow> conversion collect c lng w left (if zero then CHR ''0'' else CHR '' '') ap d;
           Some (rest, ap, d) }"
  proof -
    define tail where "tail = ?tail"
    have t: "tl (show_dir (Dir left zero w lng c)) @ rest =
        (if left then ''-'' else if zero then ''0'' else []) @ tail" by (simp add: tail_def)
    show ?thesis using h sw c(2,5) assms unfolding t tail_def [symmetric]
      by (cases left; cases zero; cases lng) (simp_all add: directive_c_def cur_def)
  qed
  then show ?thesis using conversion_render [of c w lng left zero ap d] assms
    by (cases "render (Dir left zero w lng c) ap") auto
qed

lemma vprintfmt_plain:
  "c \<noteq> CHR 0x00 \<Longrightarrow> c \<noteq> CHR ''%'' \<Longrightarrow>
   vprintfmt out (c # rest) ap d = vprintfmt out rest ap (out [c] d)"
  by (subst (1 2) vprintfmt.simps) simp

lemma vprintfmt_percent:
  "vprintfmt out (CHR ''%'' # rest) ap d =
     do { (fmt, ap, d) \<leftarrow> directive_c out rest ap d; vprintfmt out fmt ap d }"
  by (subst vprintfmt.simps) (auto simp: cur_def split: option.split)

lemma vprintfmt_nil: "vprintfmt out [] ap d = Some d"
  by (subst vprintfmt.simps) (simp add: cur_def)

lemma vprintfmt_render:
  "\<forall>x\<in>set xs. wf_dir x \<Longrightarrow>
   vprintfmt collect (concat (map show_dir xs)) ap d = map_option (\<lambda>s. d @ s) (render_all xs ap)"
proof (induction xs arbitrary: ap d)
  case (Cons x xs)
  show ?case
  proof (cases x)
    case (Plain c)
    then show ?thesis using Cons
      by (cases "render_all xs ap") (simp_all add: vprintfmt_plain collect_def [of "[c]"])
  next
    case (Dir left zero w lng c)
    let ?rest = "concat (map show_dir xs)"
    have "vprintfmt collect (show_dir x @ ?rest) ap d =
        do { (fmt, ap, d) \<leftarrow> directive_c collect (tl (show_dir x) @ ?rest) ap d; vprintfmt collect fmt ap d }"
      unfolding Dir by (simp add: vprintfmt_percent)
    moreover have "directive_c collect (tl (show_dir x) @ ?rest) ap d =
        map_option (\<lambda>(s, ap). (?rest, ap, d @ s)) (render x ap)"
      using directive_c_render [of left zero w lng c ?rest ap d] Cons.prems Dir by simp
    ultimately show ?thesis using Cons
      by (cases "render x ap"; cases "render_all xs (snd (the (render x ap)))") auto
  qed
qed (simp add: vprintfmt_nil)

section \<open>Reading numbers back\<close>

definition read_nat :: "string \<Rightarrow> nat" where
  "read_nat s = horner 10 (map (\<lambda>c. of_char c - 48) s)"

definition read_int :: "string \<Rightarrow> int" where
  "read_int s = (if s \<noteq> [] \<and> hd s = CHR ''-'' then - int (read_nat (tl s)) else int (read_nat s))"

lemma read_nat_digits: "read_nat (map (digit_char up) (nat_digits 10 n)) = n"
proof -
  have "map (\<lambda>c. of_char c - 48) (map (digit_char up) (nat_digits 10 n)) = nat_digits 10 n"
    using nat_digits_less [of 10 n] by (auto simp: of_char_digit intro: map_idI)
  then show ?thesis unfolding read_nat_def by (simp add: nat_digits_value)
qed

lemma read_int_fmt_num: "read_int (fmt_num 10 neg 0 False CHR '' '' False n) = (if neg then - int n else int n)"
proof -
  obtain x xs where x: "nat_digits 10 n = x # xs" using nat_digits_ne by (cases "nat_digits 10 n") auto
  then have "(of_char (digit_char False x) :: nat) \<noteq> of_char CHR ''-''"
    using nat_digits_less [of 10 n] of_char_digit [of x False] by simp
  then have "digit_char False x \<noteq> CHR ''-''" by metis
  then show ?thesis using read_nat_digits [of False n] x by (simp add: fmt_num_def read_int_def)
qed

lemma fmt_num_length:
  "length (fmt_num base neg len ladjust padc upcase n) =
     max len (length (nat_digits base n) + (if neg then 1 else 0))"
  by (auto simp: fmt_num_def Let_def)

section \<open>Properties\<close>

text \<open>
  \<open>print_num\<close> stays inside its array, outputs no uninitialised cell, and prints the digits of the
  number in the given base, most significant first, the sign in front of zero padding and
  behind space padding, in a field of at least \<open>len\<close> characters that only grows when the number needs it.
\<close>

theorem print_num_correct:
  assumes "2 \<le> unat base" and "len + 70 \<le> int_max"
  shows "print_num out u base neg len ladjust padc upcase d =
           Some (out (fmt_num (unat base) neg len ladjust padc upcase (unat u)) d) \<and>
         length (fmt_num (unat base) neg len ladjust padc upcase (unat u)) =
           max len (length (nat_digits (unat base) (unat u)) + (if neg then 1 else 0)) \<and>
         horner (unat base) (nat_digits (unat base) (unat u)) = unat u"
  using print_num_spec [OF assms] by (simp add: fmt_num_length nat_digits_value)

theorem print_num_correct_witness:
  "print_num collect 42 10 True 6 False CHR ''0'' False ''n='' = Some ''n=-00042''"
proof -
  have "fmt_num (unat (10 :: u32)) True 6 False CHR ''0'' False (unat (42 :: u32)) = ''-00042''" by code_simp
  then show ?thesis
    using print_num_correct [of 10 6 collect 42 True False "CHR ''0''" False "''n=''"]
    by (simp add: int_max_def collect_def)
qed

text \<open>
  C28 (printf_correct). For every format string of the directive language, with any flags, widths and conversions, and every
  argument list, \<open>vprintfmt\<close> terminates and its output is the concatenation of what the directives mean;
  it fails exactly when a directive finds no argument of its kind.
\<close>

theorem printf_correct:
  assumes "\<forall>x\<in>set xs. wf_dir x"
  shows "vprintfmt collect (concat (map show_dir xs)) ap d = map_option (\<lambda>s. d @ s) (render_all xs ap)"
  using vprintfmt_render [OF assms] .

theorem printf_correct_witness:
  "vprintfmt collect ''a%5s|%-3cz%%'' [VaStr ''xyz'', VaWord 65] [] = Some ''a  xyz|A  z%''"
proof -
  let ?f = "[Plain CHR ''a'', Dir False False 5 False CHR ''s'', Plain CHR ''|'', Dir True False 3 False CHR ''c'',
             Plain CHR ''z'', Dir False False 0 False CHR ''%'']"
  have f: "concat (map show_dir ?f) = ''a%5s|%-3cz%%''" by code_simp
  have w: "\<forall>x\<in>set ?f. wf_dir x" by (simp add: int_max_def conv_chars_def)
  have r: "render_all ?f [VaStr ''xyz'', VaWord 65] = Some ''a  xyz|A  z%''" by code_simp
  show ?thesis using printf_correct [OF w, of "[VaStr ''xyz'', VaWord 65]" "[]"] unfolding f r by simp
qed

text \<open>
  What \<open>%d\<close> prints for any 32-bit pattern, \<open>INT_MIN\<close> included, reads back as its signed value.
\<close>

theorem printf_decimal_roundtrip:
  "\<exists>s. vprintfmt collect ''%d'' [VaWord n] [] = Some s \<and> read_int s = sint n"
proof -
  have "vprintfmt collect ''%d'' [VaWord n] [] =
      Some (fmt_num 10 (sint n < 0) 0 False CHR '' '' False (nat \<bar>sint n\<bar>))"
    using vprintfmt_render [of "[Dir False False 0 False CHR ''d'']" "[VaWord n]" "[]"]
    by (simp add: int_max_def conv_chars_def)
  then show ?thesis by (simp add: read_int_fmt_num)
qed

end
