(* ===== verification/Output.thy ===== *)
theory Output
  imports Print Kstate
begin

text \<open>
  The users of the formatter: \<^verbatim>\<open>kern/printk.c\<close>, \<^verbatim>\<open>kern/panic.c\<close>, \<^verbatim>\<open>user/lib/debugf.c\<close> and \<^verbatim>\<open>user/lib/fprintf.c\<close>. Each gives
  \<open>vprintfmt\<close> a sink of its own: the console, a buffer that is flushed to the console in pieces, or \<open>write\<close> with a
  count of the bytes written. The locale \<open>sink\<close> says what a sink promises.
\<close>

section \<open>Sinks\<close>

text \<open>\<open>R d x\<close>: the sink in state \<open>d\<close> has been given the bytes \<open>x\<close>.\<close>

locale sink =
  fixes emit :: "'d fmt_callback_t" and R :: "'d \<Rightarrow> string \<Rightarrow> bool"
  assumes emit_R: "R d x \<Longrightarrow> R (emit t d) (x @ t)"
begin

lemma collect_R: "R d x \<Longrightarrow> R (emit t d) (collect t x)"
  by (simp add: collect_def emit_R)

lemma out_times_R: "R d x \<Longrightarrow> R (out_times emit c n d) (out_times collect c n x)"
  by (induction n arbitrary: d x) (auto simp: collect_R simp del: out_times_collect)

lemma print_char_R: "R d x \<Longrightarrow> R (print_char emit c w l d) (print_char collect c w l x)"
  by (simp add: print_char_def Let_def collect_R out_times_R del: out_times_collect)

lemma print_str_R: "R d x \<Longrightarrow> R (print_str emit t w l d) (print_str collect t w l x)"
  by (simp add: print_str_def Let_def collect_R out_times_R del: out_times_collect)

lemma bind_R: "(\<And>a. rel_option P (f a) (g a)) \<Longrightarrow> rel_option P (Option.bind m f) (Option.bind m g)"
  by (cases m) simp_all

lemma pad_and_out_R: "R d x \<Longrightarrow> rel_option R (pad_and_out emit neg len l p b n d) (pad_and_out collect neg len l p b n x)"
  unfolding pad_and_out_def Let_def by (intro bind_R) (simp add: collect_R)

lemma print_num_R: "R d x \<Longrightarrow> rel_option R (print_num emit u base neg len l p up d) (print_num collect u base neg len l p up x)"
  unfolding print_num_def by (auto intro!: bind_R pad_and_out_R split: prod.split)

lemma number_R:
  assumes "R d x"
  shows "rel_option (rel_prod (=) R)
    (Option.bind (print_num emit u base neg len l p up d) (\<lambda>d. Some (ap, d)))
    (Option.bind (print_num collect u base neg len l p up x) (\<lambda>d. Some (ap, d)))"
  using print_num_R [OF assms, of u base neg len l p up] by (auto elim!: option.rel_cases)

lemma conversion_R:
  assumes "R d x"
  shows "rel_option (rel_prod (=) R) (conversion emit c lng w l p ap d) (conversion collect c lng w l p ap x)"
  unfolding conversion_def Let_def using assms
  by (auto intro!: bind_R number_R print_char_R print_str_R collect_R split: prod.split)

lemma directive_R:
  assumes "R d x"
  shows "rel_option (rel_prod (=) (rel_prod (=) R)) (directive_c emit f ap d) (directive_c collect f ap x)"
proof -
  have "rel_option (rel_prod (=) (rel_prod (=) R))
      (Option.bind (conversion emit c lng w l p ap d) (\<lambda>(ap, d). Some (g, ap, d)))
      (Option.bind (conversion collect c lng w l p ap x) (\<lambda>(ap, d). Some (g, ap, d)))" for c lng w l p g
    using conversion_R [OF assms, of c lng w l p ap] by (auto elim!: option.rel_cases)
  then show ?thesis unfolding directive_c_def Let_def using assms by (auto intro!: bind_R split: prod.split)
qed

lemma scan_plain_R: "R d x \<Longrightarrow> rel_prod (=) R (scan_plain emit f d) (scan_plain collect f x)"
  by (induction f arbitrary: d x) (auto simp: collect_R)

lemma vprintfmt_R: "R d x \<Longrightarrow> rel_option R (vprintfmt emit f ap d) (vprintfmt collect f ap x)"
proof (induction f arbitrary: ap d x rule: measure_induct_rule [of length])
  case (less f)
  obtain f1 d1 x1 where 1: "scan_plain emit f d = (f1, d1)" "scan_plain collect f x = (f1, x1)" "R d1 x1"
    using scan_plain_R [OF less.prems, of f] by (cases "scan_plain emit f d"; cases "scan_plain collect f x") auto
  have len: "length f1 \<le> length f" using scan_plain_length [of emit f d] 1(1) by simp
  show ?case
  proof (cases "cur f1 = CHR 0x00")
    case True
    then show ?thesis using 1 by (subst (1 2) vprintfmt.simps) simp
  next
    case False
    then have "length (tl f1) < length f" using len by (cases f1) (auto simp: cur_def)
    show ?thesis
    proof (cases "directive_c emit (tl f1) ap d1")
      case None
      then have "directive_c collect (tl f1) ap x1 = None" using directive_R [OF 1(3), of "tl f1" ap] by simp
      then show ?thesis using 1 None False by (subst (1 2) vprintfmt.simps) simp
    next
      case (Some r)
      obtain f2 ap2 d2 where r: "r = (f2, ap2, d2)" by (cases r)
      then obtain x2 where x2: "directive_c collect (tl f1) ap x1 = Some (f2, ap2, x2)" "R d2 x2"
        using directive_R [OF 1(3), of "tl f1" ap] Some by (auto elim!: option.rel_cases)
      have "length f2 < length f"
        using directive_c_length [OF Some [unfolded r]] \<open>length (tl f1) < length f\<close> by simp
      note IH = less.IH [OF this x2(2), of ap2]
      have "vprintfmt emit f ap d = vprintfmt emit f2 ap2 d2" using 1 Some r False by (subst vprintfmt.simps) simp
      moreover have "vprintfmt collect f ap x = vprintfmt collect f2 ap2 x2" using 1 x2(1) False by (subst vprintfmt.simps) simp
      ultimately show ?thesis using IH by simp
    qed
  qed
qed

text \<open>A sink gets the meaning of the format.\<close>

lemma render_R:
  assumes "R d x" "\<forall>y\<in>set xs. wf_dir y"
  shows "rel_option R (vprintfmt emit (concat (map show_dir xs)) ap d) (map_option (\<lambda>t. x @ t) (render_all xs ap))"
  using vprintfmt_R [OF assms(1), of "concat (map show_dir xs)" ap] vprintfmt_render [OF assms(2), of ap x] by simp

end

section \<open>The kernel's console\<close>

text \<open>The console is what \<open>SBI_PUTCHAR\<close> has been given.\<close>

fun outputk :: "string fmt_callback_t" where
  "outputk [] con = con"
| "outputk (c # cs) con = outputk cs (con @ [c])"

definition printk :: "string \<Rightarrow> va_arg list \<Rightarrow> string \<Rightarrow> string option" where
  "printk f ap con = vprintfmt outputk f ap con"

abbreviation newline :: string where "newline \<equiv> [CHR 0x0A]"

fun print_regs :: "Trapframe \<Rightarrow> nat list \<Rightarrow> string \<Rightarrow> string option" where
  "print_regs tf [] con = Some con"
| "print_regs tf (i # is) con =
     do { con \<leftarrow> printk (''$%2d = %08x'' @ newline) [VaWord (of_nat i), VaWord (regs tf i)] con; print_regs tf is con }"

definition print_tf :: "Trapframe \<Rightarrow> string \<Rightarrow> string option" where
  "print_tf tf con =
     do { con \<leftarrow> print_regs tf [0..<32] con;
          con \<leftarrow> printk (''sstatus   = %08x'' @ newline) [VaWord (sstatus tf)] con;
          con \<leftarrow> printk (''sepc '' @ [CHR 0x09] @ ''  = %08x'' @ newline) [VaWord (sepc tf)] con;
          con \<leftarrow> printk (''stval '' @ [CHR 0x09] @ ''  = %08x'' @ newline) [VaWord (stval tf)] con;
          printk (''scause    = %08x'' @ newline) [VaWord (scause tf)] con }"

text \<open>The last output of \<open>_panic\<close> before the machine is shut down; the registers it reads are arguments.\<close>

definition panic ::
  "string \<Rightarrow> u32 \<Rightarrow> string \<Rightarrow> string \<Rightarrow> va_arg list \<Rightarrow> u32 \<Rightarrow> u32 \<Rightarrow> u32 \<Rightarrow> u32 \<Rightarrow> u32 \<Rightarrow> u32 \<Rightarrow> string \<Rightarrow> string option"
where
  "panic file line func f ap ra sp sst sca sep stv con =
     do { con \<leftarrow> printk ''panic at %s:%d (%s): '' [VaStr file, VaWord line, VaStr func] con;
          con \<leftarrow> vprintfmt outputk f ap con;
          printk (newline @ ''ra:    %08x  sp:  %08x  sstatus: %08x'' @ newline @
                  ''scause: %08x  sepc: %08x  stval:  %08x'' @ newline)
            (map VaWord [ra, sp, sst, sca, sep, stv]) con }"

lemma outputk_append [simp]: "outputk t con = con @ t"
  by (induction t arbitrary: con) simp_all

interpretation kcons: sink outputk "(=)"
  by unfold_locales simp

section \<open>debugf\<close>

text \<open>
  \<open>struct debug_ctx\<close> with the bytes of \<open>buf\<close> below \<open>pos\<close>, and the kernel behind it. \<open>pc\<close> is \<open>ecall_print_cons\<close>: \<open>None\<close> when it
  returns an error, after which \<open>user_panic\<close> does not come back.
\<close>

abbreviation BUF_LEN :: nat where "BUF_LEN \<equiv> 1024"

record 'k debug_ctx =
  dbuf :: string
  kern :: 'k

definition debug_flush :: "(string \<Rightarrow> 'k \<Rightarrow> 'k option) \<Rightarrow> 'k debug_ctx \<Rightarrow> 'k debug_ctx option" where
  "debug_flush pc ctx =
     (if dbuf ctx = [] then Some ctx
      else do { k \<leftarrow> pc (dbuf ctx) (kern ctx); Some (ctx\<lparr>dbuf := [], kern := k\<rparr>) })"

function debug_loop :: "(string \<Rightarrow> 'k \<Rightarrow> 'k option) \<Rightarrow> string \<Rightarrow> 'k debug_ctx \<Rightarrow> 'k debug_ctx option" where
  "debug_loop pc s ctx =
     (if length (dbuf ctx) + length s > BUF_LEN then
        let n = BUF_LEN - length (dbuf ctx) in
        (case debug_flush pc (ctx\<lparr>dbuf := dbuf ctx @ take n s\<rparr>) of
           None \<Rightarrow> None
         | Some ctx \<Rightarrow> debug_loop pc (drop n s) ctx)
      else Some (ctx\<lparr>dbuf := dbuf ctx @ s\<rparr>))"
  by pat_completeness auto
termination
  by (relation "measure (\<lambda>(pc, s, ctx). length s + (if BUF_LEN \<le> length (dbuf ctx) then 1 else 0))")
    (auto simp: debug_flush_def bind_eq_Some_conv split: if_splits)

declare debug_loop.simps [simp del]

definition debug_output :: "(string \<Rightarrow> 'k \<Rightarrow> 'k option) \<Rightarrow> 'k debug_ctx option fmt_callback_t" where
  "debug_output pc s d = do { ctx \<leftarrow> d; debug_loop pc s ctx }"

definition vdebugf :: "(string \<Rightarrow> 'k \<Rightarrow> 'k option) \<Rightarrow> string \<Rightarrow> va_arg list \<Rightarrow> 'k \<Rightarrow> 'k option" where
  "vdebugf pc f ap k =
     do { d \<leftarrow> vprintfmt (debug_output pc) f ap (Some \<lparr>dbuf = [], kern = k\<rparr>);
          ctx \<leftarrow> d;
          ctx \<leftarrow> debug_flush pc ctx;
          Some (kern ctx) }"

definition debugf :: "(string \<Rightarrow> 'k \<Rightarrow> 'k option) \<Rightarrow> string \<Rightarrow> va_arg list \<Rightarrow> 'k \<Rightarrow> 'k option" where
  "debugf pc f ap k = vdebugf pc f ap k"

text \<open>\<open>exit\<close> and \<open>ecall_panic\<close>, with which the two functions end, are arguments.\<close>

definition user_panic ::
  "(string \<Rightarrow> 'k \<Rightarrow> 'k option) \<Rightarrow> ('k \<Rightarrow> 'k option) \<Rightarrow> string \<Rightarrow> u32 \<Rightarrow> string \<Rightarrow> va_arg list \<Rightarrow> 'k \<Rightarrow> 'k option"
where
  "user_panic pc exit file line f ap k =
     do { k \<leftarrow> debugf pc ''panic at %s: %d: '' [VaStr file, VaWord line] k;
          k \<leftarrow> vdebugf pc f ap k;
          k \<leftarrow> debugf pc newline [] k;
          exit k }"

definition user_halt ::
  "(string \<Rightarrow> 'k \<Rightarrow> 'k option) \<Rightarrow> (string \<Rightarrow> 'k \<Rightarrow> 'k option) \<Rightarrow> string \<Rightarrow> u32 \<Rightarrow> string \<Rightarrow> va_arg list \<Rightarrow> 'k \<Rightarrow> 'k option"
where
  "user_halt pc ecall_panic file line f ap k =
     do { k \<leftarrow> debugf pc ''halt at %s:%d: '' [VaStr file, VaWord line] k;
          k \<leftarrow> vdebugf pc f ap k;
          k \<leftarrow> debugf pc newline [] k;
          ecall_panic ''user halt'' k }"

text \<open>A kernel that records the calls: every one is of 1 to \<open>BUF_LEN\<close> bytes.\<close>

definition record_call :: "string \<Rightarrow> string list \<Rightarrow> string list option" where
  "record_call t ks = Some (ks @ [t])"

definition debug_R :: "string list \<Rightarrow> string list debug_ctx option \<Rightarrow> string \<Rightarrow> bool" where
  "debug_R ks d x \<longleftrightarrow> (\<exists>ctx cs. d = Some ctx \<and> kern ctx = ks @ cs \<and> length (dbuf ctx) \<le> BUF_LEN \<and>
     (\<forall>t \<in> set cs. t \<noteq> [] \<and> length t \<le> BUF_LEN) \<and> x = concat cs @ dbuf ctx)"

lemma flush_records: "b \<noteq> [] \<Longrightarrow> debug_flush record_call (ctx\<lparr>dbuf := b\<rparr>) = Some (ctx\<lparr>dbuf := [], kern := kern ctx @ [b]\<rparr>)"
  by (simp add: debug_flush_def record_call_def)

lemma debug_loop_ok:
  assumes "debug_R ks (Some ctx) x"
  shows "debug_R ks (debug_loop record_call t ctx) (x @ t)"
  using assms
proof (induction "record_call" t ctx arbitrary: x rule: debug_loop.induct)
  case (1 t ctx)
  let ?n = "BUF_LEN - length (dbuf ctx)" and ?b = "dbuf ctx @ take (BUF_LEN - length (dbuf ctx)) t"
  from "1.prems" obtain cs where cs: "kern ctx = ks @ cs" "length (dbuf ctx) \<le> BUF_LEN" "\<forall>t \<in> set cs. t \<noteq> [] \<and> length t \<le> BUF_LEN"
    "x = concat cs @ dbuf ctx" by (auto simp: debug_R_def)
  show ?case
  proof (cases "length (dbuf ctx) + length t > BUF_LEN")
    case True
    then have b: "?b \<noteq> []" "length ?b \<le> BUF_LEN" using cs(2) by auto
    let ?c = "ctx\<lparr>dbuf := [], kern := kern ctx @ [?b]\<rparr>"
    have f: "debug_flush record_call (ctx\<lparr>dbuf := ?b\<rparr>) = Some ?c" by (rule flush_records [OF b(1)])
    have "debug_R ks (Some ?c) (x @ take ?n t)" unfolding debug_R_def using cs b
      by (intro exI [of _ ?c] exI [of _ "cs @ [?b]"]) auto
    from "1.hyps" [OF True refl f this] show ?thesis using True f by (subst debug_loop.simps) (simp add: Let_def)
  next
    case False
    then show ?thesis using cs by (subst debug_loop.simps) (auto simp: debug_R_def)
  qed
qed

interpretation dbg: sink "debug_output record_call" "debug_R ks" for ks
proof
  show "debug_R ks (debug_output record_call t d) (x @ t)" if d: "debug_R ks d x" for d x t
  proof -
    obtain ctx where "d = Some ctx" using d by (auto simp: debug_R_def)
    then show ?thesis using debug_loop_ok [of ks ctx x t] d by (simp add: debug_output_def)
  qed
qed

section \<open>fprintf\<close>

text \<open>\<open>wr\<close> is \<open>write\<close> on the descriptor: its result and what it changes.\<close>

record 'w print_ctx =
  pret :: u32
  wrld :: 'w

definition print_output :: "(string \<Rightarrow> 'w \<Rightarrow> u32 \<times> 'w) \<Rightarrow> 'w print_ctx fmt_callback_t" where
  "print_output wr s ctx =
     (if pret ctx <s 0 then ctx
      else case wr s (wrld ctx) of (r, w) \<Rightarrow>
        if r <s 0 then ctx\<lparr>pret := r, wrld := w\<rparr> else ctx\<lparr>pret := pret ctx + r, wrld := w\<rparr>)"

definition vprintf :: "(string \<Rightarrow> 'w \<Rightarrow> u32 \<times> 'w) \<Rightarrow> string \<Rightarrow> va_arg list \<Rightarrow> 'w \<Rightarrow> (u32 \<times> 'w) option" where
  "vprintf wr f ap w = map_option (\<lambda>ctx. (pret ctx, wrld ctx)) (vprintfmt (print_output wr) f ap \<lparr>pret = 0, wrld = w\<rparr>)"

text \<open>\<open>fprintf\<close> on a descriptor and \<open>printf\<close>, which is \<open>fprintf\<close> on descriptor 1.\<close>

definition fprintf :: "(u32 \<Rightarrow> string \<Rightarrow> 'w \<Rightarrow> u32 \<times> 'w) \<Rightarrow> u32 \<Rightarrow> string \<Rightarrow> va_arg list \<Rightarrow> 'w \<Rightarrow> (u32 \<times> 'w) option" where
  "fprintf wr fd f ap w = vprintf (wr fd) f ap w"

definition printf :: "(u32 \<Rightarrow> string \<Rightarrow> 'w \<Rightarrow> u32 \<times> 'w) \<Rightarrow> string \<Rightarrow> va_arg list \<Rightarrow> 'w \<Rightarrow> (u32 \<times> 'w) option" where
  "printf wr f ap w = vprintf (wr 1) f ap w"

text \<open>
  A file with room for \<open>m\<close> bytes: a write that fits is done in full, one that does not fails with \<open>E_NO_DISK\<close> and changes nothing.
\<close>

definition room_write :: "nat \<Rightarrow> string \<Rightarrow> string \<Rightarrow> u32 \<times> string" where
  "room_write m t w = (if length w + length t \<le> m then (of_nat (length t), w @ t) else (- errno E_NO_DISK, w))"

definition print_R :: "nat \<Rightarrow> string \<Rightarrow> string print_ctx \<Rightarrow> string \<Rightarrow> bool" where
  "print_R m w ctx x \<longleftrightarrow> m < 2 ^ 31 \<and> length (wrld ctx) \<le> m \<and>
     (if length w + length x \<le> m then wrld ctx = w @ x \<and> pret ctx = of_nat (length x)
      else pret ctx = - errno E_NO_DISK \<and> (\<exists>y. w @ x = wrld ctx @ y))"

interpretation pr: sink "print_output (room_write m)" "print_R m w" for m w
proof
  fix d x t assume r: "print_R m w d x"
  then have m: "m < 2 ^ 31" by (simp add: print_R_def)
  have nn: "\<not> (of_nat n :: u32) <s 0" if "n \<le> m" for n
    using that m sint_small [of "of_nat n"] by (simp add: word_sless_alt unat_of_nat32)
  have e: "- errno E_NO_DISK <s (0 :: u32)" by (simp add: word_sless_alt)
  show "print_R m w (print_output (room_write m) t d) (x @ t)"
  proof (cases "length w + length x \<le> m")
    case True
    then show ?thesis using r nn [of "length x"] nn [of "length t"] e by (auto simp: print_R_def print_output_def room_write_def)
  next
    case False
    then obtain y where "w @ x = wrld d @ y" using r by (auto simp: print_R_def)
    then have "\<exists>y. w @ x @ t = wrld d @ y" by (metis append_assoc)
    then show ?thesis using r e False by (simp add: print_R_def print_output_def)
  qed
qed

section \<open>Properties\<close>

text \<open>What the kernel prints on its console.\<close>

lemma printk_correct:
  assumes "\<forall>x\<in>set xs. wf_dir x"
  shows "printk (concat (map show_dir xs)) ap con = map_option (\<lambda>t. con @ t) (render_all xs ap)"
  using kcons.render_R [OF refl assms, where ap = ap and d = con] by (simp add: printk_def option.rel_eq)

text \<open>
  C29 (debugf_prints). \<open>debugf\<close> prints what its format means, whatever its length: the pieces it hands to \<open>ecall_print_cons\<close> are, one after the
  other, exactly the formatted text, none is empty and none is longer than the buffer.
\<close>

theorem debugf_prints:
  assumes "\<forall>x\<in>set xs. wf_dir x"
  shows "(case render_all xs ap of
      None \<Rightarrow> debugf record_call (concat (map show_dir xs)) ap ks = None
    | Some t \<Rightarrow> \<exists>cs. debugf record_call (concat (map show_dir xs)) ap ks = Some (ks @ cs) \<and> concat cs = t \<and>
        (\<forall>c\<in>set cs. c \<noteq> [] \<and> length c \<le> BUF_LEN))"
proof -
  let ?f = "concat (map show_dir xs)"
  have "debug_R ks (Some \<lparr>dbuf = [], kern = ks\<rparr>) []" by (simp add: debug_R_def)
  from dbg.render_R [OF this assms, of ap]
  have R: "rel_option (debug_R ks) (vprintfmt (debug_output record_call) ?f ap (Some \<lparr>dbuf = [], kern = ks\<rparr>)) (render_all xs ap)"
    by (simp add: option.map_ident)
  show ?thesis
  proof (cases "render_all xs ap")
    case None
    then show ?thesis using R by (simp add: debugf_def vdebugf_def)
  next
    case (Some t)
    from R [unfolded Some] obtain ctx cs where c: "vprintfmt (debug_output record_call) ?f ap (Some \<lparr>dbuf = [], kern = ks\<rparr>) = Some (Some ctx)"
      "kern ctx = ks @ cs" "length (dbuf ctx) \<le> BUF_LEN" "\<forall>t \<in> set cs. t \<noteq> [] \<and> length t \<le> BUF_LEN" "t = concat cs @ dbuf ctx"
      by (auto simp: debug_R_def elim!: option.rel_cases)
    show ?thesis
    proof (cases "dbuf ctx = []")
      case True
      then show ?thesis using Some c by (simp add: debugf_def vdebugf_def debug_flush_def)
    next
      case False
      then show ?thesis using Some c by (auto simp: debugf_def vdebugf_def debug_flush_def record_call_def intro!: exI [of _ "cs @ [dbuf ctx]"])
    qed
  qed
qed

theorem debugf_prints_witness:
  "\<exists>cs. debugf record_call ''a%5s|'' [VaStr ''xyz''] [] = Some ([] @ cs) \<and> concat cs = ''a  xyz|'' \<and> (\<forall>c\<in>set cs. c \<noteq> [] \<and> length c \<le> BUF_LEN)"
proof -
  let ?f = "[Plain CHR ''a'', Dir False False 5 False CHR ''s'', Plain CHR ''|'']"
  have f: "concat (map show_dir ?f) = ''a%5s|''" by code_simp
  have w: "\<forall>x\<in>set ?f. wf_dir x" by (simp add: int_max_def conv_chars_def)
  have r: "render_all ?f [VaStr ''xyz''] = Some ''a  xyz|''" by code_simp
  show ?thesis using debugf_prints [OF w, of "[VaStr ''xyz'']" "[]"] unfolding f r option.case .
qed

lemma vprintf_room:
  assumes "\<forall>x\<in>set xs. wf_dir x" "m < 2 ^ 31" "length w \<le> m"
  shows "(case render_all xs ap of
      None \<Rightarrow> vprintf (room_write m) (concat (map show_dir xs)) ap w = None
    | Some t \<Rightarrow> if length w + length t \<le> m then vprintf (room_write m) (concat (map show_dir xs)) ap w = Some (of_nat (length t), w @ t)
        else \<exists>v y. vprintf (room_write m) (concat (map show_dir xs)) ap w = Some (- errno E_NO_DISK, v) \<and> w @ t = v @ y \<and> length v \<le> m)"
proof -
  let ?f = "concat (map show_dir xs)"
  have "print_R m w \<lparr>pret = 0, wrld = w\<rparr> []" using assms(2,3) by (simp add: print_R_def)
  from pr.render_R [OF this assms(1), of ap]
  have R: "rel_option (print_R m w) (vprintfmt (print_output (room_write m)) ?f ap \<lparr>pret = 0, wrld = w\<rparr>) (render_all xs ap)"
    by (simp add: option.map_ident)
  then show ?thesis
    by (cases "render_all xs ap") (auto simp: vprintf_def print_R_def elim!: option.rel_cases split: if_splits)
qed

text \<open>
  \<open>fprintf\<close> on a file with limited room returns the number of bytes when everything has been written; when a
  write fails, it returns the error of that write, and what has been written is an initial part of the text that fits.
\<close>

theorem fprintf_counts:
  assumes "\<forall>x\<in>set xs. wf_dir x" "m < 2 ^ 31" "length w \<le> m"
  shows "(case render_all xs ap of
      None \<Rightarrow> fprintf (\<lambda>_. room_write m) fd (concat (map show_dir xs)) ap w = None
    | Some t \<Rightarrow> if length w + length t \<le> m then fprintf (\<lambda>_. room_write m) fd (concat (map show_dir xs)) ap w = Some (of_nat (length t), w @ t)
        else \<exists>v y. fprintf (\<lambda>_. room_write m) fd (concat (map show_dir xs)) ap w = Some (- errno E_NO_DISK, v) \<and> w @ t = v @ y \<and> length v \<le> m)"
  using vprintf_room [OF assms, of ap] by (auto simp: fprintf_def split: option.splits if_splits)

theorem fprintf_counts_witness:
  "fprintf (\<lambda>_. room_write 9) 4 ''a%5s|'' [VaStr ''xyz''] ''..'' = Some (7, ''..a  xyz|'')"
proof -
  let ?f = "[Plain CHR ''a'', Dir False False 5 False CHR ''s'', Plain CHR ''|'']"
  have f: "concat (map show_dir ?f) = ''a%5s|''" by code_simp
  have w: "\<forall>x\<in>set ?f. wf_dir x" by (simp add: int_max_def conv_chars_def)
  have r: "render_all ?f [VaStr ''xyz''] = Some ''a  xyz|''" by code_simp
  show ?thesis using fprintf_counts [OF w, where m = 9 and ap = "[VaStr ''xyz'']" and fd = 4 and w = "''..''"] unfolding f r option.case by simp
qed

end
