(* ===== verification/Boot.thy ===== *)
theory Boot
  imports Virtio Output
begin

text \<open>
  \<^verbatim>\<open>init/init.c\<close>: the start of the kernel, from the first message to the timer. The images of the two programs are at
  addresses and with sizes that the linker provides; \<open>kend\<close> is its symbol \<open>end\<close> and \<open>mmio\<close> the registers of the disk.
\<close>

definition ENV_CREATE :: "u32 \<times> u32 \<Rightarrow> kstate \<Rightarrow> kstate option" where
  "ENV_CREATE = (\<lambda>(start, sz) s. do { (_, s) \<leftarrow> env_create start sz 1 s; Some s })"

text \<open>
  The result is the console and the state in which the processor waits for the first timer interrupt. The result of
  \<open>pgdir_init\<close> is ignored.
\<close>

definition riscv32_init ::
  "u32 \<Rightarrow> (writes \<Rightarrow> u32 \<Rightarrow> u32) \<Rightarrow> u32 \<times> u32 \<Rightarrow> u32 \<times> u32 \<Rightarrow> string \<Rightarrow> kstate \<Rightarrow> (string \<times> kstate) option"
where
  "riscv32_init kend mmio user_icode fs_serv con s =
     do { con \<leftarrow> printk (''init.c:'' @ [CHR 0x09] @ ''riscv32_init() is called'' @ newline) [] con;
          let s = riscv32_detect_memory s;
          s \<leftarrow> page_init kend s;
          (_, s) \<leftarrow> pgdir_init (envs_ptr s) s;
          (_, s) \<leftarrow> disk_init mmio s;
          s \<leftarrow> env_init (vq_ptr (vq s), vq_desc_ptr (vq s), vq_avail_ptr (vq s), vq_used_ptr (vq s)) s;
          s \<leftarrow> ENV_CREATE user_icode s;
          s \<leftarrow> ENV_CREATE fs_serv s;
          Some (con, s) }"

end
