(* ===== verification/Programs.thy ===== *)
theory Programs
  imports Output
begin

text \<open>
  The small programs of \<^verbatim>\<open>user/\<close>: \<open>echo\<close>, \<open>cat\<close>, \<open>num\<close>, \<open>mkdir\<close>, \<open>touch\<close> and \<open>ls\<close>, over the calls of the library they make. What
  the calls do is an argument (\<open>lib\<close>); the results and the world they change are what the programs see. A
  program that ends in \<open>user_panic\<close> has the value \<open>None\<close>; one that calls \<open>exit\<close> ends with the world it has reached.
\<close>

section \<open>The library\<close>

text \<open>\<open>struct Stat\<close> and the fields of \<open>struct File\<close> that \<open>ls\<close> prints.\<close>

record dirent =
  d_name :: string
  d_size :: u32
  d_isdir :: bool

record 'w lib =
  l_open :: "string \<Rightarrow> u32 \<Rightarrow> 'w \<Rightarrow> u32 \<times> 'w"
  l_close :: "u32 \<Rightarrow> 'w \<Rightarrow> u32 \<times> 'w"
  l_read :: "u32 \<Rightarrow> nat \<Rightarrow> 'w \<Rightarrow> (u32 \<times> string) \<times> 'w"
  l_write :: "u32 \<Rightarrow> string \<Rightarrow> 'w \<Rightarrow> u32 \<times> 'w"
  l_stat :: "string \<Rightarrow> 'w \<Rightarrow> (u32 \<times> dirent) \<times> 'w"
  l_readfile :: "u32 \<Rightarrow> 'w \<Rightarrow> (u32 \<times> dirent) \<times> 'w"

abbreviation uprintf :: "'w lib \<Rightarrow> string \<Rightarrow> va_arg list \<Rightarrow> 'w \<Rightarrow> (u32 \<times> 'w) option" where
  "uprintf L \<equiv> printf (l_write L)"

section \<open>echo\<close>

fun echo_args :: "'w lib \<Rightarrow> bool \<Rightarrow> string list \<Rightarrow> 'w \<Rightarrow> 'w option" where
  "echo_args L first [] w = Some w"
| "echo_args L first (a # argv) w =
     do { w \<leftarrow> (if first then Some w else map_option snd (uprintf L '' '' [] w));
          (_, w) \<leftarrow> uprintf L ''%s'' [VaStr a] w;
          echo_args L False argv w }"

text \<open>\<open>argv\<close> without the name of the program.\<close>

definition echo :: "'w lib \<Rightarrow> string list \<Rightarrow> 'w \<Rightarrow> 'w option" where
  "echo L argv w =
     (let nflag = (argv \<noteq> [] \<and> hd argv = ''-n''); argv = (if nflag then tl argv else argv) in
      do { w \<leftarrow> echo_args L True argv w;
           (if nflag then Some w else map_option snd (uprintf L newline [] w)) })"

section \<open>cat and num\<close>

partial_function (option) cat :: "'w lib \<Rightarrow> u32 \<Rightarrow> 'w \<Rightarrow> 'w option" where
  "cat L f w =
     (case l_read L f 8192 w of ((n, b), w) \<Rightarrow>
        if 0 <s n then
          (case l_write L 1 (take (unat n) b) w of (r, w) \<Rightarrow> if r \<noteq> n then None else cat L f w)
        else if n <s 0 then None else Some w)"

text \<open>Every file is opened, given to \<open>body\<close> and closed; no arguments means the standard input.\<close>

fun each_file :: "'w lib \<Rightarrow> (u32 \<Rightarrow> 's \<Rightarrow> 'w \<Rightarrow> ('s \<times> 'w) option) \<Rightarrow> string list \<Rightarrow> 's \<Rightarrow> 'w \<Rightarrow> 'w option" where
  "each_file L body [] st w = Some w"
| "each_file L body (a # argv) st w =
     (case l_open L a 0 w of (f, w) \<Rightarrow>
        if f <s 0 then None
        else do { (st, w) \<leftarrow> body f st w; each_file L body argv st (snd (l_close L f w)) })"

definition cat_main :: "'w lib \<Rightarrow> string list \<Rightarrow> 'w \<Rightarrow> 'w option" where
  "cat_main L argv w =
     (if argv = [] then cat L 0 w
      else each_file L (\<lambda>f u w. do { w \<leftarrow> cat L f w; Some ((), w) }) argv () w)"

text \<open>The globals \<open>bol\<close> and \<open>line\<close> are the state; the characters are printed with the format \<open>c\<close>.\<close>

partial_function (option) num :: "'w lib \<Rightarrow> u32 \<Rightarrow> bool \<times> u32 \<Rightarrow> 'w \<Rightarrow> ((bool \<times> u32) \<times> 'w) option" where
  "num L f g w =
     (case g of (bol, line) \<Rightarrow>
      case l_read L f 1 w of ((n, b), w) \<Rightarrow>
        if 0 <s n then
          do { (line, w) \<leftarrow> (if bol then do { (_, w) \<leftarrow> uprintf L ''%5d '' [VaWord (line + 1)] w; Some (line + 1, w) } else Some (line, w));
               (r, w) \<leftarrow> uprintf L ''c'' [VaWord (of_nat (of_char (hd b)))] w;
               (if r \<noteq> 1 then None else num L f (hd b = CHR 0x0A, line) w) }
        else if n <s 0 then None else Some ((bol, line), w))"

definition num_main :: "'w lib \<Rightarrow> string list \<Rightarrow> 'w \<Rightarrow> 'w option" where
  "num_main L argv w =
     (if argv = [] then map_option snd (num L 0 (True, 0) w)
      else each_file L (num L) argv (True, 0) w)"

section \<open>mkdir and touch\<close>

text \<open>The result tells whether the program goes on or has called \<open>exit\<close>.\<close>

definition mkdir :: "'w lib \<Rightarrow> string \<Rightarrow> 'w \<Rightarrow> (bool \<times> 'w) option" where
  "mkdir L path w =
     (case l_open L path 0x800 w of (fd, w) \<Rightarrow>
        if fd <s 0 then do { (_, w) \<leftarrow> uprintf L (''mkdir failed!, err is %3d'' @ newline) [VaWord fd] w; Some (False, w) }
        else case l_close L fd w of (r, w) \<Rightarrow>
          if r <s 0 then do { (_, w) \<leftarrow> uprintf L (''mkdir failed!, err is %3d'' @ newline) [VaWord r] w; Some (False, w) }
          else Some (True, w))"

fun mkdir_all :: "'w lib \<Rightarrow> string list \<Rightarrow> 'w \<Rightarrow> 'w option" where
  "mkdir_all L [] w = Some w"
| "mkdir_all L (a # argv) w = do { (go, w) \<leftarrow> mkdir L a w; (if go then mkdir_all L argv w else Some w) }"

definition mkdir_main :: "'w lib \<Rightarrow> string list \<Rightarrow> 'w \<Rightarrow> 'w option" where
  "mkdir_main L argv w =
     (if argv = []
      then map_option snd (uprintf L (''wrong format!'' @ newline @ ''usage: mkdir [dir1] [dir2] [dir3] ...'' @ newline) [] w)
      else mkdir_all L argv w)"

definition touch :: "'w lib \<Rightarrow> string \<Rightarrow> 'w \<Rightarrow> 'w option" where
  "touch L path w =
     (case l_open L path 0x102 w of (fd, w) \<Rightarrow>
        if fd <s 0 then None
        else case l_close L fd w of (r, w) \<Rightarrow> if r <s 0 then None else Some w)"

fun touch_all :: "'w lib \<Rightarrow> string list \<Rightarrow> 'w \<Rightarrow> 'w option" where
  "touch_all L [] w = Some w"
| "touch_all L (a # argv) w = do { w \<leftarrow> touch L a w; touch_all L argv w }"

definition touch_main :: "'w lib \<Rightarrow> string list \<Rightarrow> 'w \<Rightarrow> 'w option" where
  "touch_main L argv w =
     (if argv = []
      then map_option snd (uprintf L (''format wrong!'' @ newline @ '' usage: touch [file1] [file2] ...'' @ newline) [] w)
      else touch_all L argv w)"

section \<open>ls\<close>

definition ls1 :: "'w lib \<Rightarrow> (char \<Rightarrow> nat) \<Rightarrow> string option \<Rightarrow> bool \<Rightarrow> u32 \<Rightarrow> string \<Rightarrow> 'w \<Rightarrow> 'w option" where
  "ls1 L flag prefix isdir sz name w =
     do { w \<leftarrow> (if flag CHR ''l'' \<noteq> 0
                 then map_option snd (uprintf L ''%lld %c'' [VaWord sz, VaWord (if isdir then 100 else 45)] w) else Some w);
          w \<leftarrow> (case prefix of
                  None \<Rightarrow> Some w
                | Some p \<Rightarrow>
                    let sep = (if p \<noteq> [] \<and> last p \<noteq> CHR ''/'' then ''/'' else []) in
                    map_option snd (uprintf L ''%s%s'' [VaStr p, VaStr sep] w));
          (_, w) \<leftarrow> uprintf L ''%s'' [VaStr name] w;
          w \<leftarrow> (if flag CHR ''F'' \<noteq> 0 \<and> isdir then map_option snd (uprintf L ''/'' [] w) else Some w);
          map_option snd (uprintf L '' '' [] w) }"

partial_function (option) lsdir_loop :: "'w lib \<Rightarrow> (char \<Rightarrow> nat) \<Rightarrow> string \<Rightarrow> u32 \<Rightarrow> 'w \<Rightarrow> 'w option" where
  "lsdir_loop L flag prefix fd w =
     (case l_readfile L fd w of ((n, f), w) \<Rightarrow>
        if n = 256 then
          do { w \<leftarrow> (if d_name f \<noteq> [] then ls1 L flag (Some prefix) (d_isdir f) (d_size f) (d_name f) w else Some w);
               lsdir_loop L flag prefix fd w }
        else if n \<noteq> 0 then None else Some w)"

definition lsdir :: "'w lib \<Rightarrow> (char \<Rightarrow> nat) \<Rightarrow> string \<Rightarrow> string \<Rightarrow> 'w \<Rightarrow> 'w option" where
  "lsdir L flag path prefix w =
     (case l_open L path 0 w of (fd, w) \<Rightarrow> if fd <s 0 then None else lsdir_loop L flag prefix fd w)"

definition ls :: "'w lib \<Rightarrow> (char \<Rightarrow> nat) \<Rightarrow> string \<Rightarrow> string \<Rightarrow> 'w \<Rightarrow> 'w option" where
  "ls L flag path prefix w =
     (case l_stat L path w of ((r, st), w) \<Rightarrow>
        if r <s 0 then None
        else if d_isdir st \<and> flag CHR ''d'' = 0 then lsdir L flag path prefix w
        else ls1 L flag None (d_isdir st) (d_size st) path w)"

text \<open>The options of \<open>ARGBEGIN\<close>; \<open>None\<close> is a letter that leads to \<open>usage\<close>.\<close>

fun ls_opts :: "string list \<Rightarrow> (char \<Rightarrow> nat) \<Rightarrow> ((char \<Rightarrow> nat) \<times> string list) option" where
  "ls_opts [] flag = Some (flag, [])"
| "ls_opts (a # argv) flag =
     (if a \<noteq> [] \<and> hd a = CHR ''-'' \<and> tl a \<noteq> [] then
        (if tl a = ''-'' then Some (flag, argv)
         else if set (tl a) \<subseteq> set ''dFl'' then ls_opts argv (foldl (\<lambda>fl c. fl(c := fl c + 1)) flag (tl a))
         else None)
      else Some (flag, a # argv))"

fun ls_all :: "'w lib \<Rightarrow> (char \<Rightarrow> nat) \<Rightarrow> string list \<Rightarrow> 'w \<Rightarrow> 'w option" where
  "ls_all L flag [] w = Some w"
| "ls_all L flag (a # argv) w = do { w \<leftarrow> ls L flag a a w; ls_all L flag argv w }"

definition ls_main :: "'w lib \<Rightarrow> string list \<Rightarrow> 'w \<Rightarrow> 'w option" where
  "ls_main L argv w =
     (case ls_opts argv (\<lambda>_. 0) of
        None \<Rightarrow> map_option snd (uprintf L (''usage: ls [-dFl] [file...]'' @ newline) [] w)
      | Some (flag, argv) \<Rightarrow>
          do { w \<leftarrow> (if argv = [] then ls L flag ''/'' [] w else ls_all L flag argv w);
               map_option snd (uprintf L newline [] w) })"

section \<open>Output of the programs\<close>

text \<open>Descriptor 1 is a file with room for \<open>m\<close> bytes.\<close>

lemma uprintf_render:
  assumes "\<forall>x\<in>set xs. wf_dir x" "render_all xs ap = Some t" "l_write L 1 = room_write m" "m < 2 ^ 31" "length w + length t \<le> m"
  shows "uprintf L (concat (map show_dir xs)) ap w = Some (of_nat (length t), w @ t)"
  using vprintf_room [OF assms(1,4), of w ap] assms(2,3,5) by (simp add: printf_def)

lemma plain_format:
  assumes "CHR 0x00 \<notin> set t" "CHR ''%'' \<notin> set t"
  shows "\<forall>x\<in>set (map Plain t). wf_dir x" "concat (map show_dir (map Plain t)) = t" "render_all (map Plain t) ap = Some t"
proof -
  show "\<forall>x\<in>set (map Plain t). wf_dir x" using assms by auto
  show "concat (map show_dir (map Plain t)) = t" by (induction t) simp_all
  show "render_all (map Plain t) ap = Some t" by (induction t) simp_all
qed

lemma string_format:
  "\<forall>x\<in>set [Dir False False 0 False CHR ''s'']. wf_dir x" "concat (map show_dir [Dir False False 0 False CHR ''s'']) = ''%s''"
  "render_all [Dir False False 0 False CHR ''s''] [VaStr a] = Some a"
  by (simp_all add: int_max_def conv_chars_def pad_to_def)

lemma uprintf_plain:
  assumes "CHR 0x00 \<notin> set t" "CHR ''%'' \<notin> set t" "l_write L 1 = room_write m" "m < 2 ^ 31" "length w + length t \<le> m"
  shows "uprintf L t [] w = Some (of_nat (length t), w @ t)"
  using uprintf_render [OF plain_format(1,3) [OF assms(1,2)] assms(3-5)] unfolding plain_format(2) [OF assms(1,2)] .

lemma uprintf_string:
  assumes "l_write L 1 = room_write m" "m < 2 ^ 31" "length w + length a \<le> m"
  shows "uprintf L ''%s'' [VaStr a] w = Some (of_nat (length a), w @ a)"
  using uprintf_render [OF string_format(1,3) assms] unfolding string_format(2) .

text \<open>The arguments with blanks between them.\<close>

fun unwords :: "string list \<Rightarrow> string" where
  "unwords [] = []"
| "unwords [a] = a"
| "unwords (a # b # argv) = a @ '' '' @ unwords (b # argv)"

lemma echo_args_prints:
  assumes L: "l_write L 1 = room_write m" "m < 2 ^ 31" and len: "length w + length (unwords argv) + (if first \<or> argv = [] then 0 else 1) \<le> m"
  shows "echo_args L first argv w = Some (w @ (if first \<or> argv = [] then [] else '' '') @ unwords argv)"
  using len
proof (induction argv arbitrary: first w)
  case (Cons a argv)
  have len: "length (unwords (a # argv)) = length a + (if argv = [] then 0 else 1) + length (unwords argv)"
    "unwords (a # argv) = a @ (if argv = [] then [] else '' '') @ unwords argv" by (cases argv; simp)+
  define v where "v = w @ (if first then [] else '' '')"
  have v: "(if first then Some w else map_option snd (uprintf L '' '' [] w)) = Some v"
    using uprintf_plain [OF _ _ L, of "'' ''" w] Cons.prems len by (auto simp: v_def split: if_splits)
  have "uprintf L ''%s'' [VaStr a] v = Some (of_nat (length a), v @ a)"
    using Cons.prems len by (intro uprintf_string [OF L]) (auto simp: v_def split: if_splits)
  moreover have "echo_args L False argv (v @ a) = Some ((v @ a) @ (if False \<or> argv = [] then [] else '' '') @ unwords argv)"
    by (rule Cons.IH) (use Cons.prems len in \<open>auto simp: v_def split: if_splits\<close>)
  ultimately show ?case using v len(2) by (simp add: v_def)
qed simp

section \<open>Properties\<close>

text \<open>
  \<open>echo\<close> prints its arguments with one blank between them and a newline at the end, which the option \<open>-n\<close> suppresses.
\<close>

theorem echo_prints:
  assumes "l_write L 1 = room_write m" "m < 2 ^ 31" "length w + length (unwords argv) + 1 \<le> m"
  shows "echo L argv w = Some (w @ (if argv \<noteq> [] \<and> hd argv = ''-n'' then unwords (tl argv) else unwords argv @ newline))"
proof (cases "argv \<noteq> [] \<and> hd argv = ''-n''")
  case True
  then have "length (unwords (tl argv)) \<le> length (unwords argv)" by (cases argv rule: unwords.cases) auto
  then show ?thesis using True echo_args_prints [OF assms(1,2), of w "tl argv" True] assms(3) by (simp add: echo_def)
next
  case False
  have "uprintf L newline [] (w @ unwords argv) = Some (of_nat (length newline), (w @ unwords argv) @ newline)"
    by (rule uprintf_plain [OF _ _ assms(1,2)]) (use assms(3) in auto)
  then show ?thesis using False echo_args_prints [OF assms(1,2), of w argv True] assms(3) by (auto simp: echo_def Let_def)
qed

theorem echo_prints_witness:
  "\<exists>L. echo L [''a'', ''bc''] [] = Some (''a bc'' @ newline)"
proof -
  define L :: "string lib" where "L = \<lparr>l_open = undefined, l_close = undefined, l_read = undefined, l_write = (\<lambda>_. room_write 10), l_stat = undefined, l_readfile = undefined\<rparr>"
  show ?thesis using echo_prints [of L 10 "[]" "[''a'', ''bc'']"] by (auto simp: L_def)
qed

lemma long_format: "vprintfmt emit ''%lld %c'' (VaWord sz # ap) d = Some (emit [char_of (unat sz)] (emit '' '' (emit ''d'' (emit ''l'' d))))"
proof -
  have 1: "directive_c emit ''lld %c'' (VaWord sz # ap) d = Some (''d %c'', VaWord sz # ap, emit ''l'' d)"
    by (simp add: directive_c_def cur_def is_dec_def conversion_def)
  have 2: "directive_c emit ''c'' (VaWord sz # ap) e = Some ([], ap, emit [char_of (unat sz)] e)" for e
    by (simp add: directive_c_def cur_def is_dec_def conversion_def print_char_def)
  show ?thesis by (simp add: vprintfmt_percent 1 2 vprintfmt_plain vprintfmt_nil)
qed

text \<open>
  The long form of \<open>ls\<close>: the formatter knows one \<open>l\<close> only, so \<open>%lld\<close> prints the letters \<open>ld\<close> and consumes nothing, and \<open>%c\<close> prints the low
  byte of the size as a character; neither the size nor the type of the entry is shown.
\<close>

theorem ls_long_garbled:
  assumes "l_write L 1 = room_write m" "m < 2 ^ 31" "length w + length name + 5 \<le> m" "flag CHR ''l'' \<noteq> 0" "flag CHR ''F'' = 0"
  shows "ls1 L flag None isdir sz name w = Some (w @ ''ld '' @ [char_of (unat sz)] @ name @ '' '')"
proof -
  have "\<not> (of_nat n :: u32) <s 0" if "n \<le> 4" for n
    using that sint_small [of "of_nat n"] by (simp add: word_sless_alt unat_of_nat32)
  then have nn: "\<not> (1 :: u32) <s 0" "\<not> (2 :: u32) <s 0" "\<not> (3 :: u32) <s 0" using of_nat_1 by (auto simp: word_sless_alt)
  let ?v = "w @ ''ld '' @ [char_of (unat sz)]"
  have "uprintf L ''%lld %c'' [VaWord sz, VaWord k] w = Some (4, ?v)" for k
    using assms(1-3) nn by (simp add: printf_def vprintf_def long_format print_output_def room_write_def)
  moreover have "uprintf L ''%s'' [VaStr name] ?v = Some (of_nat (length name), ?v @ name)"
    by (rule uprintf_string [OF assms(1,2)]) (use assms(3) in simp)
  moreover have "uprintf L '' '' [] (?v @ name) = Some (of_nat (length '' ''), (?v @ name) @ '' '')"
    by (rule uprintf_plain [OF _ _ assms(1,2)]) (use assms(3) in auto)
  ultimately show ?thesis using assms(4,5) by (simp add: ls1_def)
qed

theorem ls_long_garbled_witness:
  "\<exists>L. ls1 L (\<lambda>c. if c = CHR ''l'' then 1 else 0) None True 65 ''tmp'' [] = Some (''ld '' @ [CHR ''A''] @ ''tmp'' @ '' '')"
proof -
  define L :: "string lib" where "L = \<lparr>l_open = undefined, l_close = undefined, l_read = undefined, l_write = (\<lambda>_. room_write 10), l_stat = undefined, l_readfile = undefined\<rparr>"
  have L: "l_write L 1 = room_write 10" by (simp add: L_def)
  have c: "char_of (unat (65 :: u32)) = CHR ''A''" by code_simp
  have "ls1 L (\<lambda>c. if c = CHR ''l'' then 1 else 0) None True 65 ''tmp'' [] = Some ([] @ ''ld '' @ [char_of (unat (65 :: u32))] @ ''tmp'' @ '' '')"
    by (rule ls_long_garbled [OF L]) simp_all
  then show ?thesis unfolding c by (intro exI [of _ L]) (simp only: append_Nil)
qed

text \<open>A descriptor that delivers pieces, and an output that takes what it is given.\<close>

definition delivers :: "(string list \<times> string) lib \<Rightarrow> u32 \<Rightarrow> bool" where
  "delivers L f \<longleftrightarrow>
     (\<forall>cs v. l_read L f 8192 (cs, v) = (case cs of [] \<Rightarrow> ((0, []), ([], v)) | c # cs \<Rightarrow> ((of_nat (length c), c), (cs, v)))) \<and>
     (\<forall>t cs v. l_write L 1 t (cs, v) = (of_nat (length t), (cs, v @ t)))"

text \<open>
  \<open>cat\<close> on a descriptor that delivers a sequence of pieces of 1 to 8192 bytes and then the end of the file, with an output that takes what it is
  given: it terminates and has written the concatenation of the pieces.
\<close>

theorem cat_copies:
  assumes "delivers L f" "\<forall>c\<in>set cs. c \<noteq> [] \<and> length c \<le> 8192"
  shows "cat L f (cs, v) = Some ([], v @ concat cs)"
  using assms(2)
proof (induction cs arbitrary: v)
  case Nil
  then show ?case using assms(1) by (subst cat.simps) (simp add: delivers_def)
next
  case (Cons c cs)
  have u: "unat (of_nat (length c) :: u32) = length c" using Cons.prems by (intro unat_of_nat32) simp
  then have "0 <s (of_nat (length c) :: u32)"
    using sint_small [of "of_nat (length c)"] Cons.prems by (simp add: word_sless_alt)
  then show ?case using assms(1) Cons u by (subst cat.simps) (simp add: delivers_def)
qed

theorem cat_copies_witness:
  "\<exists>L. cat L 3 ([''ab'', ''c''], ''.'') = Some ([], ''.abc'')"
proof -
  define L :: "(string list \<times> string) lib" where "L = \<lparr>l_open = undefined, l_close = undefined,
    l_read = (\<lambda>_ _ (cs, v). case cs of [] \<Rightarrow> ((0, []), ([], v)) | c # cs \<Rightarrow> ((of_nat (length c), c), (cs, v))),
    l_write = (\<lambda>_ t (cs, v). (of_nat (length t), (cs, v @ t))), l_stat = undefined, l_readfile = undefined\<rparr>"
  have "delivers L 3" by (auto simp: delivers_def L_def)
  then have "cat L 3 ([''ab'', ''c''], ''.'') = Some ([], ''.'' @ concat [''ab'', ''c''])" by (rule cat_copies) simp
  then show ?thesis by (intro exI [of _ L]) simp
qed

end
