(* ===== verification/Host.thy ===== *)
theory Host
  imports Output Elf
begin

text \<open>
  The small host tools: \<^verbatim>\<open>tools/bintoc.c\<close>, which turns the image of a program into a C array for the kernel, and
  \<^verbatim>\<open>tools/readelf/readelf.c\<close>, which lists the addresses of sections. Files are lists of bytes; a failed \<open>assert\<close> and a
  read outside of the file are \<open>None\<close>.
\<close>

section \<open>bintoc\<close>

record bintoc_opts =
  o_prefix :: "string option"
  o_bin :: "string option"
  o_out :: "string option"

text \<open>The loop over the arguments: an option takes the next one, and is allowed once; others are skipped.\<close>

fun bintoc_args :: "string list \<Rightarrow> bintoc_opts \<Rightarrow> bintoc_opts option" where
  "bintoc_args [] opts = Some opts"
| "bintoc_args [a] opts = (if a = ''-f'' \<or> a = ''-o'' \<or> a = ''-p'' then None else Some opts)"
| "bintoc_args (a # b # args) opts =
     (if a = ''-f'' then (if o_bin opts = None then bintoc_args args (opts\<lparr>o_bin := Some b\<rparr>) else None)
      else if a = ''-o'' then (if o_out opts = None then bintoc_args args (opts\<lparr>o_out := Some b\<rparr>) else None)
      else if a = ''-p'' then (if o_prefix opts = None then bintoc_args args (opts\<lparr>o_prefix := Some b\<rparr>) else None)
      else bintoc_args (b # args) opts)"

text \<open>The C library's \<open>%d\<close> and \<open>%x\<close> of a number that is not negative.\<close>

definition c_num :: "nat \<Rightarrow> nat \<Rightarrow> string" where
  "c_num base n = map (digit_char False) (nat_digits base n)"

text \<open>The loop over the bytes: a comma after each but the last, the brace after the last.\<close>

definition array_text :: "u8 list \<Rightarrow> string" where
  "array_text bin =
     concat (map (\<lambda>i. ''0x'' @ c_num 16 (unat (bin ! i)) @ (if i + 1 < length bin then '','' else ''}'')) [0..<length bin])"

definition bintoc_text :: "string \<Rightarrow> string \<Rightarrow> u8 list \<Rightarrow> string" where
  "bintoc_text prefix bin_file bin =
     ''unsigned int binary_'' @ prefix @ ''_'' @ bin_file @ ''_size = '' @ c_num 10 (length bin) @ '';'' @ newline @
     ''unsigned char binary_'' @ prefix @ ''_'' @ bin_file @ ''_start[] = {'' @ array_text bin @ '';'' @ newline"

text \<open>
  \<open>files\<close> gives the contents of the input file, \<open>wr\<close> says whether the output can be opened; the result is the name of
  the output and its text. Opening the output empties it, before the input is read: an input that is given as the output too has no
  bytes. The name of the input is cut at its first dot.
\<close>

definition bintoc_main :: "(string \<Rightarrow> u8 list option) \<Rightarrow> (string \<Rightarrow> bool) \<Rightarrow> string list \<Rightarrow> (string \<times> string) option" where
  "bintoc_main files wr args =
     do { opts \<leftarrow> bintoc_args args \<lparr>o_prefix = None, o_bin = None, o_out = None\<rparr>;
          bin_file \<leftarrow> o_bin opts;
          out_file \<leftarrow> o_out opts;
          bin \<leftarrow> files bin_file;
          c_assert (wr out_file);
          let bin = (if bin_file = out_file then [] else bin);
          c_assert (length bin < 2 ^ 27);
          Some (out_file, bintoc_text (case o_prefix opts of None \<Rightarrow> [] | Some p \<Rightarrow> p)
                  (takeWhile (\<lambda>c. c \<noteq> CHR ''.'') bin_file) bin) }"

section \<open>readelf\<close>

definition is_elf_format :: "u8 list \<Rightarrow> bool" where
  "is_elf_format bin \<longleftrightarrow> length bin \<ge> 52 \<and> bin ! 0 = 0x7f \<and> bin ! 1 = 0x45 \<and> bin ! 2 = 0x4c \<and> bin ! 3 = 0x46"

text \<open>Little-endian fields of the file, of \<open>n\<close> bytes.\<close>

definition field :: "u8 list \<Rightarrow> nat \<Rightarrow> nat \<Rightarrow> nat option" where
  "field bin off n =
     (if off + n \<le> length bin then Some (foldr (\<lambda>b a. unat b + 256 * a) (take n (drop off bin)) 0) else None)"

text \<open>The lines that are printed; \<open>Inl\<close> is the result \<open>-1\<close> for a file that is not ELF.\<close>

fun section_lines :: "u8 list \<Rightarrow> nat \<Rightarrow> nat \<Rightarrow> nat list \<Rightarrow> string option" where
  "section_lines bin sh_table sh_entry_size [] = Some []"
| "section_lines bin sh_table sh_entry_size (i # is) =
     do { addr \<leftarrow> field bin (sh_table + sh_entry_size * i + 12) 4;
          rest \<leftarrow> section_lines bin sh_table sh_entry_size is;
          Some (c_num 10 i @ '':0x'' @ c_num 16 addr @ newline @ rest) }"

definition readelf :: "u8 list \<Rightarrow> (string + string) option" where
  "readelf bin =
     (if \<not> is_elf_format bin then Some (Inl (''not an elf file'' @ newline))
      else do { shoff \<leftarrow> field bin 32 4;
                entsize \<leftarrow> field bin 46 2;
                shnum \<leftarrow> field bin 48 2;
                text \<leftarrow> section_lines bin shoff entsize [0..<shnum];
                Some (Inr text) })"

section \<open>Reading the array back\<close>

text \<open>The initializer as the compiler reads it: hexadecimal constants, separated by commas, up to the brace.\<close>

definition hex_value :: "char \<Rightarrow> nat option" where
  "hex_value c =
     (let n = of_char c in if 48 \<le> n \<and> n \<le> 57 then Some (n - 48) else if 97 \<le> n \<and> n \<le> 102 then Some (n - 87) else None)"

definition is_hex :: "char \<Rightarrow> bool" where
  "is_hex c \<longleftrightarrow> hex_value c \<noteq> None"

function read_array :: "string \<Rightarrow> (nat list \<times> string) option" where
  "read_array s =
     (if take 2 s \<noteq> ''0x'' then None
      else let ds = takeWhile is_hex (drop 2 s); r = dropWhile is_hex (drop 2 s); v = horner 16 (map (\<lambda>c. the (hex_value c)) ds) in
        if ds = [] \<or> r = [] then None
        else if hd r = CHR ''}'' then Some ([v], tl r)
        else if hd r = CHR '','' then map_option (\<lambda>(vs, t). (v # vs, t)) (read_array (tl r))
        else None)"
  by pat_completeness auto
termination
proof (relation "measure length", goal_cases)
  case (2 s ds r v)
  have "length r \<le> length (drop 2 s)" using 2(3) length_dropWhile_le [of is_hex "drop 2 s"] by simp
  moreover have "length (take 2 s) = 2" using 2(1) by simp
  ultimately show ?case by simp
qed simp

declare read_array.simps [simp del]

lemma hex_digit:
  assumes "n < 16"
  shows "hex_value (digit_char False n) = Some n"
  using assms by (auto simp: hex_value_def digit_char_def Let_def)

lemma hex_text:
  fixes b :: u8
  shows "\<forall>c\<in>set (c_num 16 (unat b)). is_hex c" "c_num 16 (unat b) \<noteq> []" "horner 16 (map (\<lambda>c. the (hex_value c)) (c_num 16 (unat b))) = unat b"
proof -
  note l = nat_digits_less [of 16 "unat b"]
  show "\<forall>c\<in>set (c_num 16 (unat b)). is_hex c" using l hex_digit by (auto simp: c_num_def is_hex_def)
  show "c_num 16 (unat b) \<noteq> []" using nat_digits_ne by (simp add: c_num_def)
  have "map (\<lambda>c. the (hex_value c)) (c_num 16 (unat b)) = nat_digits 16 (unat b)"
    using l hex_digit by (auto simp: c_num_def intro!: map_idI)
  then show "horner 16 (map (\<lambda>c. the (hex_value c)) (c_num 16 (unat b))) = unat b" by (simp add: nat_digits_value)
qed

lemma read_item:
  assumes "\<not> is_hex d"
  shows "read_array (''0x'' @ c_num 16 (unat (b :: u8)) @ d # t) =
    (if d = CHR ''}'' then Some ([unat b], t)
     else if d = CHR '','' then map_option (\<lambda>(vs, t). (unat b # vs, t)) (read_array t) else None)"
proof -
  note h = hex_text [of b]
  have "takeWhile is_hex (c_num 16 (unat b) @ d # t) = c_num 16 (unat b)" "dropWhile is_hex (c_num 16 (unat b) @ d # t) = d # t"
    using h(1) assms by (simp_all add: takeWhile_append dropWhile_append)
  then show ?thesis using h(2,3) by (subst read_array.simps) (simp add: Let_def)
qed

lemma array_text_Cons:
  "array_text [b] = ''0x'' @ c_num 16 (unat b) @ ''}''"
  "array_text (b # c # bin) = ''0x'' @ c_num 16 (unat b) @ '','' @ array_text (c # bin)"
proof -
  show "array_text [b] = ''0x'' @ c_num 16 (unat b) @ ''}''" by (simp add: array_text_def)
  have "[0..<length (b # c # bin)] = 0 # map Suc [0..<length (c # bin)]" by (metis length_Cons map_Suc_upt upt_conv_Cons zero_less_Suc)
  then show "array_text (b # c # bin) = ''0x'' @ c_num 16 (unat b) @ '','' @ array_text (c # bin)"
    by (simp add: array_text_def comp_def del: upt_Suc)
qed

lemma read_back:
  assumes "bin \<noteq> []"
  shows "read_array (array_text bin @ t) = Some (map unat bin, t)"
  using assms
proof (induction bin rule: induct_list012)
  case (2 b)
  then show ?case using read_item [of "CHR ''}''" b t] by (simp add: array_text_Cons is_hex_def hex_value_def)
next
  case (3 b c bin)
  then show ?case using read_item [of "CHR '',''" b "array_text (c # bin) @ t"]
    by (simp add: array_text_Cons is_hex_def hex_value_def)
qed simp

section \<open>Properties\<close>

text \<open>
  C36 (bintoc_roundtrip). The array that \<open>bintoc\<close> writes is the file: for a file with at least one byte, the text after the header reads as a list of
  hexadecimal constants with exactly its bytes, closed by the brace and followed by the semicolon. For an empty file, and
  when the output has the name of the input and so empties it, there is no closing brace and the text is not a declaration.
\<close>

theorem bintoc_roundtrip:
  assumes "length bin < 2 ^ 27" "files f = Some bin" "wr g" "bytes = (if f = g then [] else bin)"
  shows "\<exists>h. bintoc_main files wr [''-f'', f, ''-o'', g, ''-p'', p] = Some (g, h @ array_text bytes @ '';'' @ newline) \<and>
    read_array (array_text bytes @ '';'' @ newline) = (if bin = [] \<or> f = g then None else Some (map unat bin, '';'' @ newline))"
proof -
  have "read_array ('';'' @ newline) = None" by (subst read_array.simps) simp
  then have "read_array (array_text bytes @ '';'' @ newline) = (if bin = [] \<or> f = g then None else Some (map unat bin, '';'' @ newline))"
    using read_back [of bytes "'';'' @ newline"] assms(4) by (auto simp: array_text_def)
  moreover have "bintoc_main files wr [''-f'', f, ''-o'', g, ''-p'', p] =
      Some (g, bintoc_text p (takeWhile (\<lambda>c. c \<noteq> CHR ''.'') f) bytes)"
    using assms by (auto simp: bintoc_main_def)
  ultimately show ?thesis by (auto simp: bintoc_text_def)
qed

theorem bintoc_roundtrip_witness:
  "\<exists>h. bintoc_main (\<lambda>_. Some [127, 69, 0]) (\<lambda>_. True) [''-f'', ''a.b'', ''-o'', ''a.c'', ''-p'', ''user''] =
     Some (''a.c'', h @ ''0x7f,0x45,0x0}'' @ '';'' @ newline) \<and> read_array (''0x7f,0x45,0x0}'' @ '';'' @ newline) = Some ([127, 69, 0], '';'' @ newline)"
proof -
  have a: "array_text [127, 69, 0] = ''0x7f,0x45,0x0}''" by code_simp
  show ?thesis using bintoc_roundtrip [of "[127, 69, 0]" "\<lambda>_. Some [127, 69, 0]" "''a.b''" "\<lambda>_. True" "''a.c''" "[127, 69, 0]" "''user''"]
    unfolding a by simp
qed

end
