(* ===== verification/Spec2Isabelle.thy ===== *)
theory Spec2Isabelle
  imports Sample Pipe ServProps Shell PipeProps FsRound ForkWrite Boot Programs Host
begin

text \<open>
  A verification development for the riscv32 MOS teaching kernel and its user level system.

  \<^bold>\<open>The program.\<close> A microkernel (\<^verbatim>\<open>src/kern\<close>, \<^verbatim>\<open>src/lib\<close>, \<^verbatim>\<open>src/include\<close>) manages physical pages, Sv32 page tables and
  environments, schedules them round robin, and offers 24 environment calls: console, memory, environments, IPC and
  the disk. Everything else runs in environments: a file system server (\<^verbatim>\<open>src/fs\<close>) that reaches the disk through the
  kernel and is reached by IPC, and a library (\<^verbatim>\<open>src/user/lib\<close>) with descriptors, pipes and processes.

  \<^bold>\<open>Conventions.\<close> A C function that panics, faults or does not terminate has the value \<open>None\<close>; an error code is \<open>Inl\<close> of
  the error; a call after which another environment runs is \<open>Switched\<close>. State is passed explicitly; machine integers
  are words of their width; physical memory and the server's memory are byte maps with 32-bit accesses.
  Loops are structural, have a termination proof, or are \<open>partial_function (option)\<close>, in which case
  the properties show that they return. No fuel is used.

  \<^bold>\<open>Theories and sources.\<close>
  \<^item> \<open>Prelude\<close>: error codes and \<open>try\<close> (\<^verbatim>\<open>include/error.h\<close>), the byte memory, words, C strings.
  \<^item> \<open>Queue\<close>: the LIST and TAILQ macros of \<^verbatim>\<open>include/queue.h\<close> on pointers; the locales \<open>intrusive_list\<close> and \<open>fifo_queue\<close>
    with their interpretations show that they implement lists.
  \<^item> \<open>Cstring\<close>: \<^verbatim>\<open>lib/string.c\<close>; the word loops copy, fill and compare bytes.
  \<^item> \<open>Mmu\<close>, \<open>Pmap\<close>, \<open>Paging\<close>: \<^verbatim>\<open>include/mmu.h\<close>, \<^verbatim>\<open>include/pmap.h\<close>, \<^verbatim>\<open>kern/pmap.c\<close>. \<open>as_inv\<close> is the invariant of the page
    tables, the free list and the reference counts over all page directories; \<open>amap\<close> the page map of a
    directory. \<open>page_insert\<close> and \<open>page_remove\<close> refine updates of that map (locale \<open>address_space\<close>).
  \<^item> \<open>Kstate\<close>, \<open>Elf\<close>, \<open>KernEnv\<close>, \<open>Sched\<close>: \<^verbatim>\<open>include/env.h\<close>, \<^verbatim>\<open>include/trap.h\<close>, \<^verbatim>\<open>lib/elfloader.c\<close>, \<^verbatim>\<open>kern/env.c\<close>,
    \<^verbatim>\<open>kern/sched.c\<close>: creation, loading and destruction of environments, identifiers, the run queue and the
    context switch.
  \<^item> \<open>Virtio\<close>: \<^verbatim>\<open>kern/virtio_disk.c\<close> against a device that is a parameter with a named contract.
  \<^item> \<open>Ecall\<close>, \<open>EcallProps\<close>, \<open>Traps\<close>: \<^verbatim>\<open>kern/ecall_all.c\<close>, \<^verbatim>\<open>kern/traps.c\<close>: every handler, the call table and the
    dispatch of exceptions; \<open>Sample\<close> holds a concrete kernel state on which the properties are exercised.
  \<^item> \<open>Print\<close>: \<^verbatim>\<open>lib/print.c\<close>, the formatter, refined to the meaning of its directives.
  \<^item> \<open>Pipe\<close>: \<^verbatim>\<open>user/lib/pipe.c\<close>, a reader and a writer interleaved at every access to the shared page.
  \<^item> \<open>Allocator\<close>: the locale of the allocators over a set of numbers, interpreted for the address space identifiers
    (\<open>KernEnv\<close>), the disk descriptors (\<open>Virtio\<close>) and the disk blocks (\<open>FsCache\<close>).
  \<^item> \<open>FsBlock\<close>, \<open>FsFile\<close>: \<^verbatim>\<open>fs/fs.c\<close>, the block cache, the bitmap, files, directories and paths. \<open>FsCache\<close> has the
    invariant \<open>fs_ok\<close> of the cache and the bitmap and the block allocator, \<open>FsProps\<close> the write back and the block map of a
    file, \<open>FsDir\<close> directories and paths.
  \<^item> \<open>Serv\<close>, \<open>ServProps\<close>: \<^verbatim>\<open>fs/serv.c\<close> with \<^verbatim>\<open>user/lib/ipc.c\<close> and \<^verbatim>\<open>user/lib/pageref.c\<close>: the table of open files and every request,
    over a list of messages from any clients.
  \<^item> \<open>Readline\<close>, \<open>Shell\<close>: \<^verbatim>\<open>user/sh.c\<close> and \<open>cons_read\<close> of \<^verbatim>\<open>user/lib/console.c\<close>: the line editor, the tokenizer, the parser and \<open>runcmd\<close>.
  \<^item> \<open>Uvm\<close>: what a user program sees of the kernel: the stubs of \<^verbatim>\<open>user/lib/ecall_lib.c\<close>, loads with their faults and the
    windows \<open>vpt\<close> and \<open>vpd\<close> on its page tables; \<open>Fork\<close>, \<open>ForkProps\<close>, \<open>ForkWrite\<close>: \<^verbatim>\<open>user/lib/fork.c\<close> over them; \<open>WindowSample\<close> is a
    concrete state with an open window.
  \<^item> \<open>Proc\<close>: a program between system calls, with its stores; \<open>Fd\<close>: \<^verbatim>\<open>user/lib/fd.c\<close> and the descriptors of consoles and pipes over
    it; \<open>FdProps\<close> has the locale of a device's close operation, \<open>FdPipe\<close> and \<open>PipeProps\<close> what the operations promise.
  \<^item> \<open>FsInit\<close>: what \<open>fs_init\<close> of \<^verbatim>\<open>fs/fs.c\<close> does with a disk. \<open>Fsformat\<close>: \<^verbatim>\<open>tools/fsformat.c\<close>, which makes the disk; \<open>FsImage\<close> has the
    invariant of the image while it is built, and \<open>FsRound\<close> shows that the server finds what the formatter wrote.
  \<^item> \<open>UserFile\<close>: \<^verbatim>\<open>user/lib/file.c\<close>, \<^verbatim>\<open>fsipc.c\<close>, \<^verbatim>\<open>ipc.c\<close>, \<^verbatim>\<open>wait.c\<close> and \<^verbatim>\<open>libos.c\<close>, a program as a client of the server; what the other
    environments do while it waits is an argument. \<open>UserRead\<close> has the bytes of a program's memory and reads of a file.
  \<^item> \<open>Spawn\<close>, \<open>SpawnProps\<close>, \<open>SpawnLoad\<close>: \<^verbatim>\<open>user/lib/spawn.c\<close>: the new environment, its stack, its segments and the pages it shares.
  \<^item> \<open>Output\<close>: \<^verbatim>\<open>kern/printk.c\<close>, \<^verbatim>\<open>kern/panic.c\<close>, \<^verbatim>\<open>user/lib/debugf.c\<close>, \<^verbatim>\<open>user/lib/fprintf.c\<close>: the users of the formatter, as
    interpretations of the locale \<open>sink\<close>; \<open>Boot\<close>: \<^verbatim>\<open>init/init.c\<close>.
  \<^item> \<open>Programs\<close>: \<open>echo\<close>, \<open>cat\<close>, \<open>num\<close>, \<open>mkdir\<close>, \<open>touch\<close> and \<open>ls\<close> of \<^verbatim>\<open>user\<close>, over the calls of the library, whose effect is an
    argument; \<open>Host\<close>: \<^verbatim>\<open>tools/bintoc.c\<close> and \<^verbatim>\<open>tools/readelf/readelf.c\<close>.

  \<^bold>\<open>What the properties show.\<close> Address spaces are isolated and mapped as asked; a call on a foreign environment has
  no effect; the run queue holds exactly the runnable environments and yields go round; messages and pages sent
  arrive; the disk driver and the loader transfer what they are given; boot establishes the invariant; formatted
  output means what its format says; a pipe is a FIFO of 32 bytes without deadlock.
  In the file system, block allocation is exact, a block survives being written back and read again, \<open>fs_sync\<close> makes the
  disk equal to the cache, a directory lookup finds the first entry with the name, and a file that is created is
  opened by its path. While it runs, the server sends the replies that the requests call for, never passes an identifier on to another open request, and makes
  a file that one client creates visible to the next. The shell's line editor behaves like a text with a cursor and
  keeps the screen in step; its parser does what the words and symbols of the line mean. \<open>fork\<close> gives the child
  the address space of its parent, the copy-on-write handler gives a private copy, and what the parent then writes to a private page the child does not see. Descriptors are
  handed out from the least, \<open>dup\<close> makes two names for one position, a new pipe is empty and a closed end is seen. A disk that
  the formatter writes is accepted by the server, which then gives out every file with its contents; a program that reads a file gets its bytes
  from the position on; a spawned program finds its arguments and its segments; the buffered output of \<open>debugf\<close> is the formatted text. The
  remaining ones record behaviour of the code that its comments or its use do not expect; the manifest
  lists them as findings.

  \<^bold>\<open>Bounds.\<close> \<open>NPAGES\<close> is the number of pages of the 256 MB machine; a page is assumed to be mapped fewer than 65535 times
  where a count is incremented (the counter is 16 bits wide). The hardware walk uses the physical address the
  kernel's own macros compute: bits 30 and 31 of an entry, which Sv32 gives to the frame number and the
  code uses for \<open>PTE_DIRTY\<close>, are not part of it.

  \<^bold>\<open>Not modelled.\<close> Assembly (entry, trap frames, context restore: the state saved and resumed is modelled, not the
  instructions), the messages the kernel functions print on the way (\<open>printk\<close> and \<open>panic\<close> themselves are modelled), the self tests of the kernel, the devices behind the disk
  and the console (parameters or input lists), the linker-provided program images (parameters). The
  endless loop of the shell's \<open>main\<close>, the programs that only print messages or start others (\<^verbatim>\<open>user/init.c\<close>, \<^verbatim>\<open>user/icode.c\<close>, the tests), the
  macros of \<^verbatim>\<open>include/queue.h\<close> that the kernel does not use, and the reading of the file in \<^verbatim>\<open>tools/readelf/main.c\<close> are left
  out: they add no state or only repeat what is modelled. The server and a client are related through their messages and the pages they
  share, each in a model of its own; one run of both over the kernel's scheduler is not stated. A user program is modelled by its calls and its accesses to data: its
  registers and its own stack are not part of the state, so the stores of \<open>fork\<close> to the stack page it has just marked copy-on-write, which fault in
  a real run and give the parent a private copy of that page, are not steps of the model. The opening of a redirection in the shell (\<open>redirect\<close>) is the
  same definition in the parser and in its specification.
\<close>

section \<open>Address spaces\<close>

text \<open>
  C1 (page_insert_correct). Mapping a page: over any set of page directories that satisfies the invariant,
  \<open>page_insert\<close> succeeds when a table exists or a page is free, changes the page map of exactly one directory
  at exactly one page number, to the entry of \<open>pp\<close> with the given permissions, keeps the invariant
  (free list, private user tables, reference counts), adjusts the counts of the page mapped and of the
  page that was mapped there, and alters no data page.
\<close>

theorem page_insert_correct:
  assumes "as_inv s D xs" "pd \<in> D" "va < UTOP" "pp < NPAGES" "pp \<notin> set xs" "pp_ref s pp \<noteq> 0xffff" "perm_ok perm"
    and "pde_ok (pw s pd (PDX va)) \<or> xs \<noteq> []"
  shows "\<exists>s' ys. page_insert (page2addr pd) asid pp va perm s = Some (Inr (), s') \<and>
    as_inv s' D ys \<and> set ys \<subseteq> set xs \<union> set_option (map_option pte_page (amap s pd va)) \<and> pp \<notin> set ys \<and>
    (\<forall>pd' \<in> D. \<forall>va'. amap s' pd' va' = (if pd' = pd \<and> VPN va' = VPN va then Some (mk_pte pp perm) else amap s pd' va')) \<and>
    (\<forall>q. q \<notin> set xs \<longrightarrow> pp_ref s' q = ref_after (map_option pte_page (amap s pd va)) pp s q) \<and>
    (\<forall>q j. q < NPAGES \<longrightarrow> unat j < 1024 \<longrightarrow> q \<notin> tables s D \<longrightarrow> q \<notin> set xs \<union> set ys \<longrightarrow> pw s' q j = pw s q j)"
proof -
  from page_insert_ok [OF assms, of asid] obtain s' ys where s':
    "page_insert (page2addr pd) asid pp va perm s = Some (Inr (), s')" "as_inv s' D ys"
    "set ys \<subseteq> set xs \<union> set_option (map_option pte_page (amap s pd va))" "pp \<notin> set ys"
    "\<forall>pd' \<in> D. \<forall>va'. amap s' pd' va' = (if pd' = pd \<and> VPN va' = VPN va then Some (mk_pte pp perm) else amap s pd' va')"
    "\<forall>q. q \<notin> set xs \<longrightarrow> pp_ref s' q = ref_after (map_option pte_page (amap s pd va)) pp s q"
    "\<forall>q j. q < NPAGES \<longrightarrow> unat j < 1024 \<longrightarrow> q \<notin> tables s D \<longrightarrow> q \<notin> set xs \<union> set ys \<longrightarrow> pw s' q j = pw s q j"
    by (elim exE conjE) (rule that)
  show ?thesis by (intro exI [of _ s'] exI [of _ ys] conjI s')
qed

theorem page_insert_correct_witness:
  "\<exists>s' ys. page_insert (page2addr 5) 0 20 0x400000 PTE_R sample = Some (Inr (), s') \<and> as_inv s' {5, 6} ys \<and>
     amap s' 5 0x400000 = Some (mk_pte 20 PTE_R) \<and> amap s' 6 0x400000 = None"
  using page_insert_correct [where pd = 5 and va = "0x400000" and pp = 20 and perm = PTE_R and asid = 0, OF sample_as_inv] perm_ok_flags(3) by auto

text \<open>
  C25 (page_remove_correct). Unmapping a page deletes one point of one page map, lowers the count of the page, and
  puts the page on the free list exactly when that was its last reference.
\<close>

theorem page_remove_correct:
  assumes "as_inv s D xs" "pd \<in> D" "va < UTOP" "amap s pd va = Some e"
  shows "\<exists>s'. page_remove (page2addr pd) asid va s = Some s' \<and>
    as_inv s' D (if pp_ref s (pte_page e) = 1 then pte_page e # xs else xs) \<and>
    (\<forall>pd' \<in> D. \<forall>va'. amap s' pd' va' = (if pd' = pd \<and> VPN va' = VPN va then None else amap s pd' va')) \<and>
    pp_ref s' = (pp_ref s)(pte_page e := pp_ref s (pte_page e) - 1)"
  using page_remove_ok [OF assms, of asid] by auto

lemma sample_mapped:
  "\<exists>s ys. page_insert (page2addr 5) 0 20 0x400000 PTE_R sample = Some (Inr (), s) \<and> as_inv s {5, 6} ys \<and>
     amap s 5 0x400000 = Some (mk_pte 20 PTE_R) \<and> pte_page (mk_pte 20 PTE_R) = 20 \<and> envs s = sample_env \<and>
     curenv s = Some 0 \<and> pp_ref s 20 = 1 \<and> pde_ok (pw s 5 (PDX 0x400000))"
proof -
  from page_insert_ok [where pd = 5 and va = "0x400000" and pp = 20 and perm = PTE_R and asid = 0, OF sample_as_inv] perm_ok_flags(3) obtain s ys where
    s: "page_insert (page2addr 5) 0 20 0x400000 PTE_R sample = Some (Inr (), s)" "as_inv s {5, 6} ys"
      "amap s 5 0x400000 = Some (mk_pte 20 PTE_R)" "pp_ref s 20 = ref_after None 20 sample 20" by auto
  moreover have "pte_page (mk_pte 20 PTE_R) = 20" using pte_page_mk_pte [of 20 PTE_R] perm_ok_flags(3) by simp
  moreover have "pde_ok (pw s 5 (PDX 0x400000))" using s(3) by (auto simp: amap_def split: if_splits)
  ultimately show ?thesis using more_fields(1,2) [OF more_page_insert [OF s(1)]] by (auto simp: ref_after_def)
qed

theorem page_remove_correct_witness:
  "\<exists>(s :: kstate) s' ys. as_inv s {5, 6} ys \<and> amap s 5 0x400000 = Some (mk_pte 20 PTE_R) \<and>
     page_remove (page2addr 5) 0 0x400000 s = Some s' \<and> amap s' 5 0x400000 = None"
proof -
  obtain s :: kstate and ys where s: "as_inv s {5, 6} ys" "amap s 5 0x400000 = Some (mk_pte 20 PTE_R)"
    using sample_mapped by blast
  show ?thesis using page_remove_correct [where pd = 5 and asid = 0, OF s(1) _ _ s(2)] s by auto
qed

text \<open>
  C2 (address_space_isolation). Isolation of user space: whatever sequence of insertions and removals is carried out on other page
  directories at user addresses (below \<open>UTOP\<close>; \<open>map_room\<close>: a page in use, flag bits only, a free page where a table is missing),
  no mapping of a directory changes, at user or at kernel addresses, and the invariant is kept. Insertions at kernel
  addresses are not covered: the tables there are shared by all directories.
\<close>

theorem address_space_isolation:
  assumes "op_runs (op_legal D (\<lambda>va. va < UTOP) (map_room D)) (op_exec map_page unmap_page) s xs s'"
    and "\<exists>fl. as_inv s D fl" "pd \<in> D" "\<forall>x \<in> set xs. op_dir x \<noteq> pd"
  shows "(\<exists>fl. as_inv s' D fl) \<and> amap s' pd = amap s pd"
  using pm.runs_isolated [OF assms] .

theorem address_space_isolation_witness:
  "\<exists>s'. op_runs (op_legal {5, 6} (\<lambda>va. va < UTOP) (map_room {5, 6})) (op_exec map_page unmap_page) sample
      [Insert 5 0x400000 (0, 20, PTE_R)] s' \<and> amap s' 6 = amap sample 6"
proof -
  obtain s :: kstate where "page_insert (page2addr 5) 0 20 0x400000 PTE_R sample = Some (Inr (), s)"
    using sample_mapped by blast
  moreover have "map_room {5, 6} sample 5 0x400000 (0, 20, PTE_R)"
    using sample_as_inv perm_ok_flags(3) by (auto simp: map_room_def intro!: exI [of _ "[7, 8, 9]"])
  ultimately have r: "op_runs (op_legal {5, 6} (\<lambda>va. va < UTOP) (map_room {5, 6})) (op_exec map_page unmap_page) sample
      [Insert 5 0x400000 (0, 20, PTE_R)] s" by (simp add: map_page_def)
  have "\<exists>fl. as_inv sample {5, 6} fl" using sample_as_inv by blast
  then show ?thesis using address_space_isolation [OF r, of 6] r by (intro exI [of _ s]) simp
qed

text \<open>
  When no page is free and the address has no table, \<open>page_insert\<close> reports \<open>E_NO_MEM\<close> and
  changes nothing but the record of TLB flushes.
\<close>

theorem page_insert_out_of_memory:
  assumes "as_inv s D []" "pd \<in> D" "\<not> pde_ok (pw s pd (PDX va))"
  shows "page_insert (page2addr pd) asid pp va perm s = Some (Inl E_NO_MEM, SET_TLB_FLUSH va asid 0 s)"
  using page_insert_no_mem [OF assms] .

theorem page_insert_out_of_memory_witness:
  "page_insert (page2addr 5) 0 20 0x400000 PTE_R sample_full = Some (Inl E_NO_MEM, SET_TLB_FLUSH 0x400000 0 0 sample_full)"
  by (rule page_insert_out_of_memory [OF sample_full_as_inv]) simp_all

text \<open>
  C34 (page_init_correct). After boot the free list holds exactly the pages from \<open>freemem\<close> to the end of memory, the highest
  first, with count 0; the pages below, which hold the kernel and the array \<open>pages\<close>, have count 1. With no
  directory yet, this is the invariant the operations keep.
\<close>

theorem page_init_correct:
  assumes "KERNSTART \<le> kend" "kend \<le> 0x8fe00000" "freemem s = 0"
  shows "\<exists>s'. page_init kend (riscv32_detect_memory s) = Some s' \<and>
    as_inv s' {} (rev [first_free kend..<NPAGES]) \<and>
    pp_ref s' = (\<lambda>i. if i < NPAGES \<and> i < first_free kend then 1 else 0) \<and>
    unat (freemem s') = 0x80000000 + 4096 * first_free kend"
  using page_init_free [OF assms] page_init_inv [OF assms] by auto

theorem page_init_correct_witness:
  "first_free 0x80600000 = 0x6c0 \<and>
   (\<exists>s'. page_init 0x80600000 (riscv32_detect_memory sample) = Some s' \<and> as_inv s' {} (rev [first_free 0x80600000..<NPAGES]))"
proof
  show "first_free 0x80600000 = 0x6c0" by (simp add: first_free_def)
  have "KERNSTART \<le> 0x80600000" "(0x80600000 :: u32) \<le> 0x8fe00000" "freemem sample = 0" by simp_all
  from page_init_correct [OF this]
  show "\<exists>s'. page_init 0x80600000 (riscv32_detect_memory sample) = Some s' \<and> as_inv s' {} (rev [first_free 0x80600000..<NPAGES])"
    by blast
qed

section \<open>System calls\<close>

text \<open>
  C3 (e_mem_alloc_correct). \<open>ecall_mem_alloc\<close> by an environment that may act on the target gives the target a page that
  nobody had mapped, filled with zeros, at the given address with the given permissions; no other
  mapping of any environment changes.
\<close>

theorem e_mem_alloc_correct:
  assumes "as_inv s D (f # xs)" "curenv s = Some c" "may_act s c envid" "owns_dir s D (target c envid) pd"
    and "\<not> is_illegal_va va" "perm_ok perm" "pde_ok (pw s pd (PDX va)) \<or> xs \<noteq> []"
  shows "\<exists>s' ys. e_mem_alloc envid va perm s = Some (Returned 0, s') \<and> as_inv s' D ys \<and>
    (\<forall>pd' \<in> D. \<forall>va'. amap s' pd' va' = (if pd' = pd \<and> VPN va' = VPN va then Some (mk_pte f perm) else amap s pd' va')) \<and>
    (\<forall>j. unat j < 1024 \<longrightarrow> pw s' f j = 0) \<and> uses s D f = {} \<and> pp_ref s' f = 1 \<and> envs s' = envs s"
  using e_mem_alloc_ok [OF assms] .

theorem e_mem_alloc_correct_witness:
  "\<exists>s' ys. e_mem_alloc 0x1001 0x400000 PTE_R sample = Some (Returned 0, s') \<and> as_inv s' {5, 6} ys \<and>
     amap s' 6 0x400000 = Some (mk_pte 7 PTE_R) \<and> amap s' 5 0x400000 = None"
proof -
  have "may_act sample 0 0x1001" "target 0 0x1001 = 1" "\<not> is_illegal_va 0x400000" "perm_ok PTE_R"
    using perm_ok_flags(3) by (simp_all add: may_act_def target_def sample_env_def ENVX_def is_illegal_va_def)
  then show ?thesis
    using e_mem_alloc_correct [OF sample_as_inv, of 0 "0x1001" 6 "0x400000" PTE_R] by auto
qed

text \<open>
  \<open>ecall_mem_map\<close> makes the destination share the page the source has at its address: one page
  map changes at one point, and the contents of the page stay what they were.
\<close>

theorem e_mem_map_correct:
  assumes "as_inv s D xs" "curenv s = Some c" "may_act s c srcid"
    and "owns_dir s D (target c srcid) ps" "owns_dir s D (target c dstid) pd"
    and "\<not> is_illegal_va srcva" "\<not> is_illegal_va dstva" "perm_ok perm"
    and "amap s ps srcva = Some e" "pp_ref s (pte_page e) \<noteq> 0xffff" "pde_ok (pw s pd (PDX dstva)) \<or> xs \<noteq> []"
  shows "\<exists>s' ys. e_mem_map srcid srcva dstid dstva perm s = Some (Returned 0, s') \<and> as_inv s' D ys \<and>
    (\<forall>pd' \<in> D. \<forall>va'. amap s' pd' va' =
       (if pd' = pd \<and> VPN va' = VPN dstva then Some (mk_pte (pte_page e) perm) else amap s pd' va')) \<and>
    (\<forall>j. unat j < 1024 \<longrightarrow> pte_page e \<notin> tables s D \<longrightarrow> pw s' (pte_page e) j = pw s (pte_page e) j)"
  using e_mem_map_ok [OF assms] .

theorem e_mem_map_correct_witness:
  "\<exists>(s :: kstate) s'. amap s 5 0x400000 = Some (mk_pte 20 PTE_R) \<and>
     e_mem_map 0 0x400000 0 0x401000 PTE_W s = Some (Returned 0, s') \<and> amap s' 5 0x401000 = Some (mk_pte 20 PTE_W)"
proof -
  obtain s :: kstate and ys where s: "as_inv s {5, 6} ys" "amap s 5 0x400000 = Some (mk_pte 20 PTE_R)"
    "pte_page (mk_pte 20 PTE_R) = 20" "envs s = sample_env" "curenv s = Some 0" "pp_ref s 20 = 1"
    "pde_ok (pw s 5 (PDX 0x400000))" using sample_mapped by blast
  have d: "owns_dir s {5, 6} (target 0 0) 5" "may_act s 0 0"
    using s(4) by (simp_all add: owns_dir_def target_def may_act_def sample_env_def)
  have l: "\<not> is_illegal_va 0x400000" "\<not> is_illegal_va 0x401000" "perm_ok PTE_W"
    using perm_ok_flags(4) by (simp_all add: is_illegal_va_def)
  have "pp_ref s (pte_page (mk_pte 20 PTE_R)) \<noteq> 0xffff" "pde_ok (pw s 5 (PDX 0x401000)) \<or> ys \<noteq> []"
    using s(3,6,7) by (simp_all add: PDX_def)
  from e_mem_map_correct [OF s(1,5) d(2,1,1) l s(2) this] s(2,3) show ?thesis by auto
qed

text \<open>
  \<open>ecall_mem_unmap\<close> removes one mapping of the target and nothing else, and succeeds also when
  nothing was mapped.
\<close>

theorem e_mem_unmap_correct:
  assumes "as_inv s D xs" "curenv s = Some c" "may_act s c envid" "owns_dir s D (target c envid) pd" "\<not> is_illegal_va va"
  shows "\<exists>s' ys. e_mem_unmap envid va s = Some (Returned 0, s') \<and> as_inv s' D ys \<and>
    (\<forall>pd' \<in> D. \<forall>va'. amap s' pd' va' = (if pd' = pd \<and> VPN va' = VPN va then None else amap s pd' va'))"
  using e_mem_unmap_ok [OF assms] .

theorem e_mem_unmap_correct_witness:
  "\<exists>s'. e_mem_unmap 0x1001 0x400000 sample = Some (Returned 0, s') \<and> amap s' 6 0x400000 = None"
proof -
  have "may_act sample 0 0x1001" "target 0 0x1001 = 1" "\<not> is_illegal_va 0x400000"
    by (simp_all add: may_act_def target_def sample_env_def ENVX_def is_illegal_va_def)
  then show ?thesis
    using e_mem_unmap_correct [OF sample_as_inv, of 0 "0x1001" 6 "0x400000"] by auto
qed

text \<open>
  C4 (no_authority_no_effect). Authority: an environment that names one that is neither itself nor its child gets \<open>E_BAD_ENV\<close>, with the kernel state
  unchanged, from \<open>e_env_destroy\<close>, \<open>e_set_env_cow_entry\<close>, \<open>e_mem_alloc\<close>, \<open>e_mem_unmap\<close>, \<open>e_set_env_status\<close>, \<open>e_set_trapframe\<close>, and from
  \<open>e_mem_map\<close> when it names it as the source. The destination of \<open>e_mem_map\<close> is not protected: there the call succeeds and maps a
  page of the caller, with permissions of the caller's choice, into the other environment.
\<close>

theorem no_authority_no_effect:
  assumes "curenv s = Some c" "\<not> may_act s c envid"
  shows "e_env_destroy envid s = Some (Returned (- errno E_BAD_ENV), s) \<and>
    e_set_env_cow_entry envid x s = Some (Returned (- errno E_BAD_ENV), s) \<and>
    (\<not> is_illegal_va va \<longrightarrow> e_mem_alloc envid va perm s = Some (Returned (- errno E_BAD_ENV), s)) \<and>
    (\<not> is_illegal_va va \<longrightarrow> e_mem_unmap envid va s = Some (Returned (- errno E_BAD_ENV), s)) \<and>
    (\<not> is_illegal_va va \<and> \<not> is_illegal_va dstva \<longrightarrow>
      e_mem_map envid va dstid dstva perm s = Some (Returned (- errno E_BAD_ENV), s)) \<and>
    (status = ENV_RUNNABLE \<or> status = ENV_NOT_RUNNABLE \<longrightarrow>
      e_set_env_status envid status s = Some (Returned (- errno E_BAD_ENV), s)) \<and>
    (\<not> is_illegal_va_range tf TF_SIZE \<longrightarrow> e_set_trapframe envid tf s = Some (Returned (- errno E_BAD_ENV), s)) \<and>
    (as_inv s D xs \<and> owns_dir s D c ps \<and> owns_dir s D (target c envid) pd \<and> amap s ps va = Some e \<and> pp_ref s (pte_page e) \<noteq> 0xffff \<and>
       \<not> is_illegal_va va \<and> \<not> is_illegal_va dstva \<and> perm_ok perm \<and> (pde_ok (pw s pd (PDX dstva)) \<or> xs \<noteq> []) \<longrightarrow>
      (\<exists>s'. e_mem_map 0 va envid dstva perm s = Some (Returned 0, s') \<and> amap s' pd dstva = Some (mk_pte (pte_page e) perm)))"
proof -
  have "e_mem_map envid va dstid dstva perm s = Some (Returned (- errno E_BAD_ENV), s)"
    if "\<not> is_illegal_va va" "\<not> is_illegal_va dstva"
    using assms that by (simp add: e_mem_map_def envid2env_result may_act_def)
  moreover have "\<exists>s'. e_mem_map 0 va envid dstva perm s = Some (Returned 0, s') \<and> amap s' pd dstva = Some (mk_pte (pte_page e) perm)"
    if "as_inv s D xs" "owns_dir s D c ps" "owns_dir s D (target c envid) pd" "amap s ps va = Some e" "pp_ref s (pte_page e) \<noteq> 0xffff"
      "\<not> is_illegal_va va" "\<not> is_illegal_va dstva" "perm_ok perm" "pde_ok (pw s pd (PDX dstva)) \<or> xs \<noteq> []"
  proof -
    have "may_act s c 0" "owns_dir s D (target c 0) ps" "pd \<in> D" using that(2,3) by (simp_all add: may_act_def target_def owns_dir_def)
    then show ?thesis using e_mem_map_full [OF that(1) assms(1) _ _ that(3,6-8,4,5,9)] by fastforce
  qed
  ultimately show ?thesis using assms by (auto simp: e_env_destroy_def e_set_env_cow_entry_def e_mem_alloc_def e_mem_unmap_def
      e_set_env_status_def e_set_trapframe_def with_env_check)
qed

theorem no_authority_no_effect_witness:
  "\<exists>s s'. \<not> may_act s 0 0x1001 \<and> curenv s = Some 0 \<and> e_mem_unmap 0x1001 0x400000 s = Some (Returned (- errno E_BAD_ENV), s) \<and>
     amap s 6 0x500000 = None \<and> e_mem_map 0 0x400000 0x1001 0x500000 (PTE_R OR PTE_U) s = Some (Returned 0, s') \<and>
     amap s' 6 0x500000 = Some (mk_pte 20 (PTE_R OR PTE_U))"
proof -
  let ?s = "upd_env 1 (\<lambda>x. x\<lparr>env_parent_id := 7\<rparr>) wsample" and ?e = "mk_pte 20 (PTE_R OR PTE_W OR PTE_U)"
  have n: "\<not> may_act ?s 0 0x1001" "curenv ?s = Some 0" by (simp_all add: may_act_def sample_env_def ENVX_def upd_env_def)
  have v: "\<not> is_illegal_va 0x400000" "\<not> is_illegal_va 0x500000" by (simp_all add: is_illegal_va_def)
  have d: "owns_dir ?s {5, 6} 0 5" "owns_dir ?s {5, 6} (target 0 0x1001) 6"
    using procD(3) [OF w_proc] w_child by (simp_all add: owns_dir_def upd_env_def w_target(1))
  have m: "amap ?s 5 0x400000 = Some ?e" using wuser [of "0x400000"] by (simp add: VPN_def)
  have r: "pte_page ?e = 20" by (rule w_entries)
  have p: "perm_ok (PTE_R OR PTE_U)" by (intro perm_ok_or perm_ok_flags)
  have "amap ?s 6 0x500000 = None" using wamap(2) by simp
  moreover have "as_inv ?s {5, 6} [7, 8, 9]" using w_as_inv by simp
  moreover note a = no_authority_no_effect [OF n(2,1), of 0 "0x400000" "PTE_R OR PTE_U" "0x500000" 0 0 0 "{5, 6}" "[7, 8, 9]" 5 6 ?e]
  have "e_mem_unmap 0x1001 0x400000 ?s = Some (Returned (- errno E_BAD_ENV), ?s)" using a v(1) by blast
  moreover obtain s' where "e_mem_map 0 0x400000 0x1001 0x500000 (PTE_R OR PTE_U) ?s = Some (Returned 0, s')"
    "amap s' 6 0x500000 = Some (mk_pte 20 (PTE_R OR PTE_U))"
  proof -
    have "pp_ref ?s (pte_page ?e) \<noteq> 0xffff" using r by simp
    then show thesis using a calculation(2) d m v p that unfolding r by blast
  qed
  ultimately show ?thesis using n by blast
qed

text \<open>
  The range check of \<open>ecall_set_trapframe\<close> is sound: every byte of a range that passes it lies in
  user space, also where the end of the range would wrap around.
\<close>

theorem legal_range_correct:
  assumes "\<not> is_illegal_va_range va len" "i < len"
  shows "UTEMP \<le> va + i \<and> va + i < UTOP"
  using legal_range [OF assms] .

theorem legal_range_correct_witness:
  "UTEMP \<le> (0x500000 :: u32) + 147 \<and> (0x500000 :: u32) + 147 < UTOP"
proof -
  have "\<not> is_illegal_va_range 0x500000 TF_SIZE" by (simp add: is_illegal_va_range_def)
  then show ?thesis using legal_range_correct [of "0x500000" TF_SIZE 147] by simp
qed

section \<open>Scheduling\<close>

text \<open>
  C6 (round_robin). Round robin: from a state whose running environment is at the front of the run queue, the \<open>n\<close>-th
  yield runs the environment at position \<open>n mod length q\<close> of the queue; so each of them runs once in
  every \<open>length q\<close> yields, and the queue always holds exactly the runnable environments.
\<close>

theorem round_robin:
  assumes "sched_inv s q" "q \<noteq> []" "curenv s = Some (hd q)"
  shows "\<exists>s'. yields n s = Some s' \<and> sched_inv s' (rotate n q) \<and> curenv s' = Some (q ! (n mod length q))"
  using yields_rotate [OF assms] .

theorem round_robin_witness:
  "\<exists>s'. yields 5 sample = Some s' \<and> curenv s' = Some 1"
proof -
  have "[0, 1] ! (5 mod length [0, 1 :: nat]) = (1 :: nat)" by code_simp
  then show ?thesis using round_robin [OF sample_sched_inv, of 5] by auto
qed

text \<open>
  A yield saves the frame of the trap in the environment that was running, leaves the saved frames of
  the others alone, and resumes the next environment with the frame that was saved for it, on its own
  page directory.
\<close>

theorem context_switch:
  assumes "sched_inv s (c # q)" "curenv s = Some c" "q \<noteq> []"
  shows "\<exists>s'. schedule 1 s = Some s' \<and> curenv s' = Some (hd q) \<and> env_tf (envs s' c) = cur_frame s \<and>
    (\<forall>x. x \<noteq> c \<longrightarrow> env_tf (envs s' x) = env_tf (envs s x)) \<and> resumed s' = Some (env_tf (envs s (hd q))) \<and>
    cur_pgdir s' = env_pgdir (envs s (hd q)) \<and> kmem s' = kmem s"
proof -
  have "distinct (c # q)" using assms(1) by (simp add: sched_inv_def tailq_rep_def)
  then have ne: "c \<noteq> hd q" using hd_in_set [OF assms(3)] by auto
  have h: "hd (remove1 c (c # q) @ [c]) = hd q" using assms(3) by simp
  from schedule_yield [OF assms(1,2), of 1, unfolded h] obtain s' where
    "schedule 1 s = Some s'" "curenv s' = Some (hd q)" "envs s' = after_switch s (hd q)"
    "resumed s' = Some (env_tf (after_switch s (hd q) (hd q)))" "cur_pgdir s' = env_pgdir (envs s (hd q))" "kmem s' = kmem s" by auto
  then show ?thesis using ne assms(2) by simp
qed

theorem context_switch_witness:
  "\<exists>s'. schedule 1 sample = Some s' \<and> curenv s' = Some 1 \<and> resumed s' = Some sample_tf \<and> cur_pgdir s' = page2addr 6"
  using context_switch [OF sample_sched_inv] by (auto simp: sample_env_def)

text \<open>
  C40 (priority_starves). The counter that should give an environment \<open>env_pri\<close> ticks is set back to \<open>env_pri\<close> on every
  tick, so an environment with a priority above 1 is never preempted: after any number of ticks it is
  still the one that runs.
\<close>

theorem priority_starves:
  assumes "sched_inv s q" "curenv s = Some c" "c \<in> set q" "sint (env_pri (envs s c)) > 1"
    and "sched_count s = env_pri (envs s c)"
  shows "\<exists>s'. ticks n s = Some s' \<and> sched_inv s' q \<and> curenv s' = Some c"
  using ticks_no_preemption [OF assms] .

theorem priority_starves_witness:
  "\<exists>s'. ticks 1000 ((upd_env 0 (\<lambda>e. e\<lparr>env_pri := 3\<rparr>) sample)\<lparr>sched_count := 3\<rparr>) = Some s' \<and> curenv s' = Some 0"
proof -
  let ?s = "(upd_env 0 (\<lambda>e. e\<lparr>env_pri := 3\<rparr>) sample)\<lparr>sched_count := 3\<rparr>"
  have "sched_inv ?s [0, 1]" using sample_sched_inv by (auto simp: sched_inv_def upd_env_def)
  from priority_starves [OF this, of 0 1000] show ?thesis by auto
qed

text \<open>
  C26 (set_status_queue). \<open>ecall_set_env_status\<close> keeps the run queue equal to the set of runnable environments: a blocked
  environment leaves it, a woken one joins at the end, and a call that changes nothing leaves the order.
\<close>

theorem set_status_queue:
  assumes "sched_inv s q" "curenv s = Some c" "c < NENV" "may_act s c envid"
    and "status = ENV_RUNNABLE \<or> status = ENV_NOT_RUNNABLE"
    and "env_status (envs s (target c envid)) = ENV_RUNNABLE \<or> env_status (envs s (target c envid)) = ENV_NOT_RUNNABLE"
  shows "\<exists>s'. e_set_env_status envid status s = Some (Returned 0, s') \<and> env_status (envs s' (target c envid)) = status \<and>
    sched_inv s' (if status = ENV_NOT_RUNNABLE then remove1 (target c envid) q
      else if target c envid \<in> set q then q else q @ [target c envid])"
  using e_set_env_status_ok [OF assms] .

theorem set_status_queue_witness:
  "\<exists>s'. e_set_env_status 0x1001 ENV_NOT_RUNNABLE sample = Some (Returned 0, s') \<and> sched_inv s' [0]"
proof -
  have "may_act sample 0 0x1001" "target 0 0x1001 = 1"
    by (simp_all add: may_act_def target_def sample_env_def ENVX_def)
  then show ?thesis
    using set_status_queue [OF sample_sched_inv, of 0 "0x1001" ENV_NOT_RUNNABLE] by (auto simp: sample_env_def)
qed

section \<open>Messages\<close>

text \<open>
  C7 (ipc_delivers). Rendezvous: an environment that waits for a message is taken off the queue; when the next environment
  sends to it, the send succeeds, the receiver is queued again, and it will resume with result 0, the
  value sent, and the identity of the sender.
\<close>

theorem ipc_delivers:
  assumes "sched_inv s (r # q)" "curenv s = Some r" "r < NENV" "q \<noteq> []"
    and "env_id (envs s r) \<noteq> 0" "unat (ENVX (env_id (envs s r))) = r"
  shows "\<exists>s1 s2. e_ipc_recv 0 s = Some (Switched, s1) \<and> curenv s1 = Some (hd q) \<and>
    e_ipc_try_send (env_id (envs s r)) v 0 perm s1 = Some (Returned 0, s2) \<and> sched_inv s2 (q @ [r]) \<and>
    env_ipc_value (envs s2 r) = v \<and> env_ipc_from (envs s2 r) = env_id (envs s (hd q)) \<and>
    env_ipc_recving (envs s2 r) = 0 \<and> env_tf (envs s2 r) = set_reg 10 0 (cur_frame s)"
  using ipc_rendezvous [OF assms] .

theorem ipc_delivers_witness:
  "\<exists>s1 s2. e_ipc_recv 0 sample = Some (Switched, s1) \<and> e_ipc_try_send 0x800 42 0 0 s1 = Some (Returned 0, s2) \<and>
     env_ipc_value (envs s2 0) = 42 \<and> env_ipc_from (envs s2 0) = 0x1001 \<and> sched_inv s2 [1, 0]"
proof -
  have "env_id (envs sample 0) = 0x800" "env_id (envs sample 1) = 0x1001" "unat (ENVX 0x800) = 0"
    by (simp_all add: sample_env_def ENVX_def)
  then show ?thesis using ipc_delivers [OF sample_sched_inv, of 42 0] by auto
qed

text \<open>
  A message with a page: the receiver gets the sender's page mapped at the address it asked for, with
  the permissions the sender chose, and no other mapping changes.
\<close>

theorem ipc_page_transfer:
  assumes "as_inv s D xs" "curenv s = Some c" "env_ipc_recving (envs s (target c envid)) \<noteq> 0"
    and "owns_dir s D c ps" "owns_dir s D (target c envid) pd"
    and "srcva \<noteq> 0" "\<not> is_illegal_va srcva" "env_ipc_dstva (envs s (target c envid)) = dstva" "dstva < UTOP"
    and "amap s ps srcva = Some e" "pp_ref s (pte_page e) \<noteq> 0xffff" "perm_ok perm"
    and "pde_ok (pw s pd (PDX dstva)) \<or> xs \<noteq> []"
  shows "\<exists>s' ys. e_ipc_try_send envid v srcva perm s = Some (Returned 0, s') \<and> as_inv s' D ys \<and>
    (\<forall>pd' \<in> D. \<forall>va'. amap s' pd' va' =
       (if pd' = pd \<and> VPN va' = VPN dstva then Some (mk_pte (pte_page e) perm) else amap s pd' va')) \<and>
    envs s' = envs (woken (target c envid) (env_id (envs s c)) v perm s)"
  using e_ipc_try_send_page [OF assms] .

lemma sample_mapped_recv:
  "\<exists>(s :: kstate) ys. as_inv s {5, 6} ys \<and> amap s 5 0x400000 = Some (mk_pte 20 PTE_R) \<and> pte_page (mk_pte 20 PTE_R) = 20 \<and>
     curenv s = Some 0 \<and> pp_ref s 20 = 1 \<and> owns_dir s {5, 6} 0 5 \<and> env_ipc_recving (envs s 0) = 1 \<and>
     env_ipc_dstva (envs s 0) = 0x401000 \<and> pde_ok (pw s 5 (PDX 0x401000))"
proof -
  obtain s :: kstate and ys where s: "as_inv s {5, 6} ys" "amap s 5 0x400000 = Some (mk_pte 20 PTE_R)"
    "pte_page (mk_pte 20 PTE_R) = 20" "envs s = sample_env" "curenv s = Some 0" "pp_ref s 20 = 1"
    "pde_ok (pw s 5 (PDX 0x400000))" using sample_mapped by blast
  let ?s = "upd_env 0 (\<lambda>e. e\<lparr>env_ipc_recving := 1, env_ipc_dstva := 0x401000\<rparr>) s"
  have pm: "as_inv ?s {5, 6} ys" "amap ?s = amap s" "pw ?s = pw s" using s(1) by (simp_all add: upd_env_pmap)
  then show ?thesis using s
    by (intro exI [of _ ?s] exI [of _ ys]) (simp add: owns_dir_def sample_env_def PDX_def)
qed

theorem ipc_page_transfer_witness:
  "\<exists>(s :: kstate) s'. amap s 5 0x400000 = Some (mk_pte 20 PTE_R) \<and>
     e_ipc_try_send 0 7 0x400000 PTE_R s = Some (Returned 0, s') \<and> amap s' 5 0x401000 = Some (mk_pte 20 PTE_R)"
proof -
  obtain s :: kstate and ys where s: "as_inv s {5, 6} ys" "amap s 5 0x400000 = Some (mk_pte 20 PTE_R)"
    "pte_page (mk_pte 20 PTE_R) = 20" "curenv s = Some 0" "pp_ref s 20 = 1" "owns_dir s {5, 6} 0 5"
    "env_ipc_recving (envs s 0) = 1" "env_ipc_dstva (envs s 0) = 0x401000" "pde_ok (pw s 5 (PDX 0x401000))"
    using sample_mapped_recv by blast
  have t: "target 0 0 = 0" by (simp add: target_def)
  have l: "\<not> is_illegal_va 0x400000" "perm_ok PTE_R" using perm_ok_flags(3) by (simp_all add: is_illegal_va_def)
  have h: "env_ipc_recving (envs s (target 0 0)) \<noteq> 0" "owns_dir s {5, 6} (target 0 0) 5" "(0x400000 :: u32) \<noteq> 0"
    "env_ipc_dstva (envs s (target 0 0)) = 0x401000" "(0x401000 :: u32) < UTOP" "pp_ref s (pte_page (mk_pte 20 PTE_R)) \<noteq> 0xffff"
    "pde_ok (pw s 5 (PDX 0x401000)) \<or> ys \<noteq> []" using s t by simp_all
  from ipc_page_transfer [OF s(1,4) h(1) s(6) h(2,3) l(1) h(4,5) s(2) h(6) l(2) h(7), of 7] s(2,3) show ?thesis by auto
qed

text \<open>
  A failed send is not without effect: when the sender's address is not mapped the call reports \<open>E_INVAL\<close>,
  but the receiver has already been given the value and made runnable.
\<close>

theorem ipc_error_still_delivers:
  assumes "as_inv s D xs" "curenv s = Some c" "env_ipc_recving (envs s (target c envid)) \<noteq> 0"
    and "owns_dir s D c ps" "srcva \<noteq> 0" "\<not> is_illegal_va srcva" "amap s ps srcva = None"
  shows "\<exists>s'. e_ipc_try_send envid v srcva perm s = Some (Returned (- errno E_INVAL), s') \<and>
    env_status (envs s' (target c envid)) = ENV_RUNNABLE \<and> env_ipc_value (envs s' (target c envid)) = v \<and>
    env_ipc_recving (envs s' (target c envid)) = 0"
  using e_ipc_try_send_unmapped [OF assms] by (auto simp: woken_def)

theorem ipc_error_still_delivers_witness:
  "\<exists>(s :: kstate) s'. e_ipc_try_send 0 7 0x500000 PTE_R s = Some (Returned (- errno E_INVAL), s') \<and> env_ipc_value (envs s' 0) = 7"
proof -
  let ?s = "upd_env 0 (\<lambda>e. e\<lparr>env_ipc_recving := 1\<rparr>) sample"
  have "as_inv ?s {5, 6} [7, 8, 9]" "amap ?s 5 0x500000 = None" using sample_as_inv by (simp_all add: upd_env_pmap)
  moreover have "owns_dir ?s {5, 6} 0 5" "target 0 0 = 0" "\<not> is_illegal_va 0x500000"
    by (simp_all add: owns_dir_def sample_env_def target_def is_illegal_va_def)
  ultimately show ?thesis
    using ipc_error_still_delivers [of ?s "{5, 6}" "[7, 8, 9]" 0 0 5 "0x500000" 7 PTE_R] by auto
qed

section \<open>Traps\<close>

text \<open>
  A store to an unmapped page of user space gives the running environment a zero page there that nobody
  else had mapped, readable and writable, and changes no other mapping.
\<close>

theorem demand_paging:
  assumes "as_inv s D (f # xs)" "curenv s = Some c" "owns_dir s D c pd" "cur_pgdir s = env_pgdir (envs s c)"
    and "va = stval (kframes s tf)" "va < UTOP" "amap s pd va = None" "pde_ok (pw s pd (PDX va)) \<or> xs \<noteq> []"
  shows "\<exists>s' ys. do_store_page tf s = Some s' \<and> as_inv s' D ys \<and>
    (\<forall>pd' \<in> D. \<forall>va'. amap s' pd' va' =
       (if pd' = pd \<and> VPN va' = VPN va then Some (mk_pte f (PTE_R OR PTE_W OR PTE_U)) else amap s pd' va')) \<and>
    (\<forall>j. unat j < 1024 \<longrightarrow> pw s' f j = 0) \<and> uses s D f = {}"
  using do_store_page_fresh [OF assms] .

theorem demand_paging_witness:
  "\<exists>s' ys. do_store_page 0x805fff6c sample = Some s' \<and> as_inv s' {5, 6} ys \<and>
     amap s' 5 0x500000 = Some (mk_pte 7 (PTE_R OR PTE_W OR PTE_U))"
proof -
  have "cur_pgdir sample = env_pgdir (envs sample 0)" "(0x500000 :: u32) = stval (kframes sample 0x805fff6c)"
    by (simp_all add: sample_env_def sample_tf_def)
  from demand_paging [OF sample_as_inv _ sample_owns(1) this] show ?thesis by auto
qed

text \<open>
  C38 (store_fault_grants_write). The handler of store faults checks neither the address nor the permissions: on any page that is
  mapped and not copy-on-write it adds \<open>PTE_W\<close> to the entry. In particular a user store to the read-only
  windows \<open>UENVS\<close> and \<open>UPAGES\<close> makes the kernel's own tables writable.
\<close>

theorem store_fault_grants_write:
  assumes "as_inv s D xs" "curenv s = Some c" "owns_dir s D c pd" "cur_pgdir s = env_pgdir (envs s c)"
    and "amap s pd (stval (kframes s tf)) = Some e" "e AND PTE_COW \<noteq> PTE_COW" "pte_page e < NPAGES"
  shows "\<exists>s' e'. do_store_page tf s = Some s' \<and> amap s' pd (stval (kframes s tf)) = Some e' \<and>
    e' AND PTE_W = PTE_W \<and> e' AND PTE_U = e AND PTE_U"
proof -
  have w: "bit (4 :: int) n \<longleftrightarrow> n = 2" and u: "bit (16 :: int) n \<longleftrightarrow> n = 4" for n
    using bit_exp_iff [where 'a = int, of 2 n] bit_exp_iff [where 'a = int, of 4 n] by auto
  have "mk_pte p (e OR PTE_W) AND PTE_W = PTE_W" for p
    by (rule bit_word_eqI) (auto simp: mk_pte_def bit_simps w)
  moreover have "mk_pte p (e OR PTE_W) AND PTE_U = e AND PTE_U" for p
    by (rule bit_word_eqI) (auto simp: mk_pte_def page2ptx_def bit_simps w u)
  ultimately show ?thesis using do_store_page_writable [OF assms] by auto
qed

theorem store_fault_grants_write_witness:
  "\<exists>(s :: kstate) s' e'. amap s 5 0x400000 = Some (mk_pte 20 PTE_R) \<and> do_store_page 0 s = Some s' \<and>
     amap s' 5 0x400000 = Some e' \<and> e' AND PTE_W = PTE_W"
proof -
  obtain s :: kstate and ys where s: "as_inv s {5, 6} ys" "amap s 5 0x400000 = Some (mk_pte 20 PTE_R)"
    "pte_page (mk_pte 20 PTE_R) = 20" "envs s = sample_env" "curenv s = Some 0" using sample_mapped by blast
  let ?s = "set_frame 0 (sample_tf\<lparr>stval := 0x400000\<rparr>) (s\<lparr>cur_pgdir := page2addr 5\<rparr>)"
  have am: "amap ?s = amap s" "as_inv ?s {5, 6} ys"
    using s(1) pmap_cong(2,5) [of ?s s] by (simp_all add: set_frame_def)
  have c: "curenv ?s = Some 0" "owns_dir ?s {5, 6} 0 5" "cur_pgdir ?s = env_pgdir (envs ?s 0)"
    using s(4,5) by (simp_all add: owns_dir_def sample_env_def set_frame_def)
  have v: "stval (kframes ?s 0) = 0x400000" by simp
  have e: "mk_pte 20 PTE_R AND PTE_COW \<noteq> PTE_COW" by (simp add: mk_pte_def page2ptx_def page2addr_def page2sft_def page2ppn_def)
  have "amap ?s 5 (stval (kframes ?s 0)) = Some (mk_pte 20 PTE_R)" "pte_page (mk_pte 20 PTE_R) < NPAGES"
    using am(1) v s(2,3) by simp_all
  from store_fault_grants_write [OF am(2) c this(1) e this(2)] obtain s' e' where
    "do_store_page 0 ?s = Some s'" "amap s' 5 0x400000 = Some e'" "e' AND PTE_W = PTE_W" using v by auto
  then show ?thesis using am(1) s(2) by (intro exI [of _ ?s] exI [of _ s'] exI [of _ e']) simp
qed

section \<open>Environments\<close>

text \<open>
  Address-space identifiers: \<open>asid_alloc\<close> hands out the least identifier not in use and records it, fails
  exactly when all 512 are in use, and \<open>asid_free\<close> gives back exactly the one it is told to.
\<close>

theorem asid_alloc_correct:
  "(asids s = {..<NASID} \<longrightarrow> asid_alloc s = Some (Inl E_NO_FREE_ENV, s)) \<and>
   (asids s \<noteq> {..<NASID} \<longrightarrow>
     (\<exists>i bm. i < NASID \<and> i \<notin> asids s \<and> (\<forall>j < i. j \<in> asids s) \<and>
        asid_alloc s = Some (Inr (of_nat i), s\<lparr>asid_bitmap := bm\<rparr>) \<and> asids (s\<lparr>asid_bitmap := bm\<rparr>) = insert i (asids s) \<and>
        asids (asid_free (of_nat i) (s\<lparr>asid_bitmap := bm\<rparr>)) = asids s))"
proof (intro conjI impI)
  assume ne: "asids s \<noteq> {..<NASID}"
  let ?i = "LEAST i. i \<notin> asids s"
  from asid_alloc_ok [OF ne] obtain bm where bm: "asid_alloc s = Some (Inr (of_nat ?i), s\<lparr>asid_bitmap := bm\<rparr>)" "?i < NASID"
    "?i \<notin> asids s" "asids (s\<lparr>asid_bitmap := bm\<rparr>) = insert ?i (asids s)" by blast
  have "\<forall>j < ?i. j \<in> asids s" using not_less_Least by blast
  moreover have "asids (asid_free (of_nat ?i) (s\<lparr>asid_bitmap := bm\<rparr>)) = asids s"
    using asids_asid_free [OF bm(2), of "s\<lparr>asid_bitmap := bm\<rparr>"] bm(3,4) by simp
  ultimately show "\<exists>i bm. i < NASID \<and> i \<notin> asids s \<and> (\<forall>j < i. j \<in> asids s) \<and>
        asid_alloc s = Some (Inr (of_nat i), s\<lparr>asid_bitmap := bm\<rparr>) \<and> asids (s\<lparr>asid_bitmap := bm\<rparr>) = insert i (asids s) \<and>
        asids (asid_free (of_nat i) (s\<lparr>asid_bitmap := bm\<rparr>)) = asids s" using bm by blast
qed (rule asid_alloc_full)

theorem asid_alloc_correct_witness:
  "\<exists>i bm. asid_alloc sample = Some (Inr (of_nat i), sample\<lparr>asid_bitmap := bm\<rparr>) \<and> i \<in> asids (sample\<lparr>asid_bitmap := bm\<rparr>)"
proof -
  have "asids sample = {}" by (simp add: asids_def asid_used_def)
  then have "asids sample \<noteq> {..<NASID}" by (metis empty_iff lessThan_iff zero_less_numeral)
  then show ?thesis using asid_alloc_correct [of sample] by (metis insertI1)
qed

text \<open>
  Environment identifiers: the identifier made for slot \<open>e\<close> finds slot \<open>e\<close> again, and two identifiers made
  within \<open>2 ^ 21\<close> creations are equal only if they are the same creation of the same slot.
\<close>

theorem env_ids_unique:
  assumes "e < NENV" "e' < NENV" "unat (mkenvid_i s + 1) < 2 ^ 21" "unat (mkenvid_i s' + 1) < 2 ^ 21"
  shows "unat (ENVX (fst (mkenvid e s))) = e \<and>
    (fst (mkenvid e s) = fst (mkenvid e' s') \<longrightarrow> mkenvid_i s = mkenvid_i s' \<and> e = e')"
  using ENVX_mkenvid [OF assms(1), of s] mkenvid_inj [OF assms] by (auto simp: mkenvid_def Let_def)

theorem env_ids_unique_witness:
  "unat (ENVX (fst (mkenvid 3 sample))) = 3"
  using env_ids_unique [of 3 3 sample sample] by (simp add: sample_def)

section \<open>Program images\<close>

text \<open>
  A page-aligned segment is loaded with one mapper call per page of its memory image, in order, each page
  exactly once: the file contents first, page by page, then pages with no contents; the first error stops it.
\<close>

theorem elf_segment_loaded:
  assumes "p_vaddr ph AND 0xfff = 0" "p_filesz ph \<le> p_memsz ph" "p_memsz ph \<le> 0xfffff000"
  shows "elf_load_seg ph bin mp s = run_calls mp (map (page_call (p_vaddr ph) bin (p_filesz ph)) [0..<pages_of (p_memsz ph)]) s"
  using elf_load_seg_aligned [OF assms] .

definition sample_ph :: Elf32_Phdr where
  "sample_ph = \<lparr>p_type = PT_LOAD, p_offset = 0x1000, p_vaddr = 0x400000, p_filesz = 0x1800, p_memsz = 0x2800\<rparr>"

theorem elf_segment_loaded_witness:
  "elf_load_seg sample_ph 0x80601000 (load_icode_mapper 0) sample = run_calls (load_icode_mapper 0)
     [(0x400000, 0, 0x80601000, 0x1000), (0x401000, 0, 0x80602000, 0x800), (0x402000, 0, 0, 0x1000)] sample"
proof -
  have n: "[0..<3] = [0, 1, 2]" by (simp add: numeral_eq_Suc)
  show ?thesis using elf_segment_loaded [of sample_ph "0x80601000" "load_icode_mapper 0" sample]
    by (simp add: sample_ph_def pages_of_def n page_call_def Let_def min_def)
qed

text \<open>
  A segment that starts inside a page, ends inside the same page and has a zero-initialised tail: after
  the call that carries its contents a second call is made for the same page, with no contents, which
  replaces the page.
\<close>

theorem elf_unaligned_loses_data:
  assumes "offset = p_vaddr ph - ROUNDDOWN (p_vaddr ph) BY2PG" "offset \<noteq> 0" "offset < BY2PG"
    and "p_filesz ph < p_memsz ph" "p_memsz ph \<le> BY2PG - offset"
  shows "elf_load_seg ph bin mp s =
    run_calls mp [(p_vaddr ph, offset, bin, p_filesz ph), (p_vaddr ph + p_filesz ph, 0, 0, 0)] s"
  using elf_load_seg_unaligned [OF assms] .

theorem elf_unaligned_loses_data_witness:
  "elf_load_seg (sample_ph\<lparr>p_vaddr := 0x400100, p_filesz := 0x20, p_memsz := 0x40\<rparr>) 0x80601000 (load_icode_mapper 0) sample =
     run_calls (load_icode_mapper 0) [(0x400100, 0x100, 0x80601000, 0x20), (0x400120, 0, 0, 0)] sample \<and>
   VPN 0x400120 = VPN 0x400100"
  using elf_unaligned_loses_data [of "0x100" "sample_ph\<lparr>p_vaddr := 0x400100, p_filesz := 0x20, p_memsz := 0x40\<rparr>"
      "0x80601000" "load_icode_mapper 0" sample]
  by (simp add: sample_ph_def ROUNDDOWN_def VPN_def)

section \<open>Disk\<close>

text \<open>
  C35 (disk_sector_transfer). With any device that keeps to the virtio specification (\<open>blk_device\<close>), whatever it answers and however it uses the used
  ring, a write of a sector and a read of it both return, give their descriptors back, and touch nothing but the sector and
  the read buffer; when the device reports success for both, the sector holds the written bytes and the read delivers
  them. The driver itself does not look at the status.
\<close>

theorem disk_sector_transfer:
  assumes "blk_device dev" "3 \<le> card {i. bit (vq_free (vq s)) i}"
  shows "\<exists>s1 s2. disk_rw_sector dev sector True buf s = Some s1 \<and> disk_rw_sector dev sector False buf' s1 = Some s2 \<and>
    vq_free (vq s1) = vq_free (vq s) \<and> vq_free (vq s2) = vq_free (vq s) \<and>
    s1 = s\<lparr>vq := vq s1, disk_img := disk_img s1\<rparr> \<and> s2 = s1\<lparr>vq := vq s2, kmem := kmem s2\<rparr> \<and>
    (\<forall>t. t \<noteq> sector \<longrightarrow> disk_img s1 t = disk_img s t) \<and> (\<forall>a. \<not> in_range buf' 512 a \<longrightarrow> kmem s2 a = kmem s a) \<and>
    (rq_status (vq_reqs (vq s1) (first_desc (vq s))) = 0 \<longrightarrow> (\<forall>j < 512. disk_img s1 sector j = kmem s (buf + of_nat j)) \<and>
      (rq_status (vq_reqs (vq s2) (first_desc (vq s1))) = 0 \<longrightarrow> (\<forall>j < 512. kmem s2 (buf' + of_nat j) = kmem s (buf + of_nat j))))"
proof -
  from disk_rw_sector_ok [OF assms, of sector True buf] obtain q m im where
    w: "disk_rw_sector dev sector True buf s = Some (s\<lparr>vq := q, kmem := m, disk_img := im\<rparr>)" "vq_free q = vq_free (vq s)"
    "moved sector True buf (rq_status (vq_reqs q (first_desc (vq s)))) (kmem s, disk_img s) (m, im)" by blast
  let ?s1 = "s\<lparr>vq := q, kmem := m, disk_img := im\<rparr>"
  have "3 \<le> card {i. bit (vq_free (vq ?s1)) i}" using assms(2) w(2) by simp
  from disk_rw_sector_ok [OF assms(1) this, of sector False buf'] obtain q' m' im' where
    r: "disk_rw_sector dev sector False buf' ?s1 = Some (?s1\<lparr>vq := q', kmem := m', disk_img := im'\<rparr>)" "vq_free q' = vq_free q"
    "moved sector False buf' (rq_status (vq_reqs q' (first_desc q))) (m, im) (m', im')" by auto
  have m: "m = kmem s" "im' = im" using w(3) r(3) by (simp_all add: moved_def)
  show ?thesis using w r m sector_round_trip [of _ "kmem s" buf sector "disk_img s" buf' "kmem s"]
    by (intro exI [of _ ?s1] exI [of _ "?s1\<lparr>vq := q', kmem := m', disk_img := im'\<rparr>"]) (simp add: moved_def dma_out_def)
qed

theorem disk_sector_transfer_witness:
  "\<exists>s1 s2. disk_rw_sector (ref_device 0x10000) 32 True 0x80700000 sample = Some s1 \<and>
     disk_rw_sector (ref_device 0x10000) 32 False 0x80710000 s1 = Some s2 \<and> vq_free (vq s2) = 0xff"
proof -
  have "(0xff :: u8) = mask 8" by (simp add: mask_eq_exp_minus_1)
  then have "{i. bit (0xff :: u8) i} = {..<8}" by (auto simp only: bit_mask_iff) auto
  then have "3 \<le> card {i. bit (vq_free (vq sample)) i}" by (simp add: sample_vq_def)
  from disk_sector_transfer [OF blk_device_ref this, of "0x10000" 32 "0x80700000" "0x80710000"]
  show ?thesis by (auto simp: sample_vq_def)
qed

end
